(* ===== verification/Xv6_Prelude.thy ===== *)
theory Xv6_Prelude
  imports Main "HOL-Library.Word"
begin

section \<open>Prelude: machine types, outcomes of kernel code, table scans\<close>

text \<open>
  What every component shares:
  \<^item> the C integer types as words, and the conversions the kernel makes between them;
  \<^item> \<open>outcome\<close>: how a run of kernel code by one thread can end. It returns a value and the new
    state (\<open>Done\<close>), calls \<open>panic\<close> (\<open>Panic\<close> with the message), gives up the CPU in \<open>sched\<close>
    (\<open>Switch\<close> with the state it left behind: \<open>sleep\<close>, \<open>yield\<close>, \<open>kexit\<close>), or runs forever
    (\<open>Hang\<close>);
  \<^item> \<open>bnd\<close>, sequencing, and \<open>loop_until\<close>, the \<open>for\<close> loop over a table with an early exit;
  \<^item> \<open>first_idx\<close>, the linear scan for a free slot;
  \<^item> the base record \<open>kbase\<close>: the spin locks this CPU holds and the console output so far.
    Every component extends this record with the globals of its C file.
\<close>

unbundle bit_operations_syntax

named_theorems outcome_simps \<open>unfolding rules for sequencing of outcomes\<close>
named_theorems lock_simps \<open>acquire and release on concrete or framed states\<close>

type_synonym u8 = "8 word"
type_synonym u16 = "16 word"
type_synonym u32 = "32 word"
type_synonym u64 = "64 word"

subsection \<open>Outcomes\<close>

text \<open>
  Sleep channels: the code passes the address of some variable as \<open>void *chan\<close>; only its
  identity matters. The buffers and inodes of the kernel tables are named by their index. One constructor per variable whose address is ever used as a channel.
\<close>

datatype sleepid = BufLk nat | InodeLk nat

datatype chan =
    ChProc nat
  | ChLog
  | ChTicks
  | ChPipeRead u64
  | ChPipeWrite u64
  | ChSleepLock sleepid
  | ChBuf nat
  | ChDiskFree
  | ChConsRead
  | ChUartTx

datatype ('s, 'a) outcome =
    Done 'a 's
  | Panic string
  | Switch 's
  | Hang

primrec bnd :: "('s, 'a) outcome \<Rightarrow> ('a \<Rightarrow> 's \<Rightarrow> ('s, 'b) outcome) \<Rightarrow> ('s, 'b) outcome" where
  "bnd (Done a s) f = f a s"
| "bnd (Panic e) f = Panic e"
| "bnd (Switch s) f = Switch s"
| "bnd Hang f = Hang"

lemma bnd_Done_right [simp]: "bnd x Done = x"
  by (cases x) simp_all

lemma bnd_assoc: "bnd (bnd x f) g = bnd x (\<lambda>a s. bnd (f a s) g)"
  by (cases x) simp_all

lemma bnd_eq_Done [simp]:
  "bnd x f = Done b t \<longleftrightarrow> (\<exists>a s. x = Done a s \<and> f a s = Done b t)"
  by (cases x) simp_all

lemma bnd_eq_Panic:
  "bnd x f = Panic e \<longleftrightarrow> x = Panic e \<or> (\<exists>a s. x = Done a s \<and> f a s = Panic e)"
  by (cases x) simp_all

lemma bnd_cong [fundef_cong]:
  assumes "x = y" and "\<And>a s. y = Done a s \<Longrightarrow> f a s = g a s"
  shows "bnd x f = bnd y g"
  using assms by (cases y) simp_all

lemma bnd_if [outcome_simps]: "bnd (if c then x else y) f = (if c then bnd x f else bnd y f)"
  by simp

text \<open>\<open>returns P x\<close>: the run ends normally, in a value and state that satisfy \<open>P\<close>.\<close>

definition returns :: "('a \<Rightarrow> 's \<Rightarrow> bool) \<Rightarrow> ('s, 'a) outcome \<Rightarrow> bool" where
  "returns P x \<longleftrightarrow> (\<exists>a s. x = Done a s \<and> P a s)"

text \<open>\<open>safe P x\<close>: if the run ends normally, \<open>P\<close> holds; it never panics.\<close>

primrec safe :: "('a \<Rightarrow> 's \<Rightarrow> bool) \<Rightarrow> ('s, 'a) outcome \<Rightarrow> bool" where
  "safe P (Done a s) = P a s"
| "safe P (Panic e) = False"
| "safe P (Switch s) = True"
| "safe P Hang = True"

lemma returns_bnd:
  "returns P x \<Longrightarrow> (\<And>a s. P a s \<Longrightarrow> returns Q (f a s)) \<Longrightarrow> returns Q (bnd x f)"
  by (auto simp: returns_def)

lemma safe_bnd: "safe P x \<Longrightarrow> (\<And>a s. P a s \<Longrightarrow> safe Q (f a s)) \<Longrightarrow> safe Q (bnd x f)"
  by (cases x) auto

lemma returns_DoneI [intro]: "P a s \<Longrightarrow> returns P (Done a s)"
  by (simp add: returns_def)

lemma returns_Done_iff [simp]: "returns P (Done a s) = P a s"
  by (simp add: returns_def)

lemma returns_mono: "returns P x \<Longrightarrow> (\<And>a s. P a s \<Longrightarrow> Q a s) \<Longrightarrow> returns Q x"
  by (auto simp: returns_def)

subsection \<open>Loops over a table\<close>

text \<open>
  \<open>for(p = table; p < &table[N]; p++) { ... }\<close> with indices for the pointers: the body returns
  \<open>Some v\<close> to leave the loop (a \<open>return\<close> or a \<open>goto\<close> in the C code), \<open>None\<close> to go on.
\<close>

primrec loop_until ::
  "(nat \<Rightarrow> 's \<Rightarrow> ('s, 'a option) outcome) \<Rightarrow> nat list \<Rightarrow> 's \<Rightarrow> ('s, 'a option) outcome" where
  "loop_until f [] s = Done None s"
| "loop_until f (i # is) s =
     bnd (f i s) (\<lambda>r s'. case r of Some v \<Rightarrow> Done (Some v) s' | None \<Rightarrow> loop_until f is s')"

text \<open>A loop without an early exit.\<close>

primrec loop_all :: "(nat \<Rightarrow> 's \<Rightarrow> ('s, unit) outcome) \<Rightarrow> nat list \<Rightarrow> 's \<Rightarrow> ('s, unit) outcome" where
  "loop_all f [] s = Done () s"
| "loop_all f (i # is) s = bnd (f i s) (\<lambda>_ s'. loop_all f is s')"

lemma loop_all_append: "loop_all f (is @ js) s = bnd (loop_all f is s) (\<lambda>_. loop_all f js)"
  by (induction "is" arbitrary: s) (simp_all add: bnd_assoc)

lemma loop_all_Done:
  "(\<And>i s. i \<in> set is \<Longrightarrow> f i s = Done () (g i s)) \<Longrightarrow> loop_all f is s = Done () (fold g is s)"
  by (induction "is" arbitrary: s) auto

lemma loop_all_inv:
  assumes "I s" and "\<And>i s. i \<in> set is \<Longrightarrow> I s \<Longrightarrow> f i s = Done () (g i s) \<and> I (g i s)"
  shows "loop_all f is s = Done () (fold g is s) \<and> I (fold g is s)"
  using assms by (induction "is" arbitrary: s) auto

lemma loop_all_Done_rel:
  assumes "loop_all f is s = Done u t" and "\<And>s. R s s" and "\<And>a b c. R a b \<Longrightarrow> R b c \<Longrightarrow> R a c"
    and "\<And>i a b u. i \<in> set is \<Longrightarrow> f i a = Done u b \<Longrightarrow> R a b"
  shows "R s t"
  using assms(1,4)
proof (induction "is" arbitrary: s)
  case Nil
  then show ?case using assms(2) by simp
next
  case (Cons i "is")
  then obtain u v where "f i s = Done u v" "loop_all f is v = Done () t" by auto
  then show ?case using Cons.IH [of v] Cons.prems(2) assms(3) [of s v t] by auto
qed

lemma loop_all_returns:
  assumes "I s" and "\<And>i s. i \<in> set is \<Longrightarrow> I s \<Longrightarrow> returns (\<lambda>_. I) (f i s)"
  shows "returns (\<lambda>_. I) (loop_all f is s)"
  using assms
proof (induction "is" arbitrary: s)
  case (Cons i "is")
  from Cons.prems(1) have "returns (\<lambda>_. I) (f i s)"
    by (rule Cons.prems(2) [OF list.set_intros(1)])
  then obtain u t where t: "f i s = Done u t" "I t"
    by (auto simp: returns_def)
  have "returns (\<lambda>_. I) (loop_all f is t)"
    using t(2) Cons.prems(2) by (intro Cons.IH) auto
  with t(1) show ?case by simp
qed simp

lemma loop_until_skip:
  "(\<And>i. i \<in> set is \<Longrightarrow> f i s = Done None s) \<Longrightarrow> loop_until f is s = Done None s"
  by (induction "is") auto

lemma loop_until_append:
  "loop_until f (is @ js) s =
     bnd (loop_until f is s) (\<lambda>r s'. case r of Some v \<Rightarrow> Done (Some v) s' | None \<Rightarrow> loop_until f js s')"
  by (induction "is" arbitrary: s) (auto simp: bnd_assoc intro!: bnd_cong split: option.split)

lemma loop_until_found:
  assumes "\<And>j. j \<in> set is \<Longrightarrow> f j s = Done None s" and "f i s = Done (Some v) t"
  shows "loop_until f (is @ i # js) s = Done (Some v) t"
  using assms by (simp add: loop_until_append loop_until_skip)

text \<open>A loop that leaves the state alone until it finds what it looks for.\<close>

lemma loop_until_find:
  assumes "\<And>i. i \<in> set is \<Longrightarrow> f i s = (if P i then Done (Some (v i)) (g i) else Done None s)"
  shows "loop_until f is s = (case find P is of None \<Rightarrow> Done None s | Some i \<Rightarrow> Done (Some (v i)) (g i))"
  using assms by (induction "is") auto

lemma find_upt_Some_iff:
  "find P [m..<n] = Some i \<longleftrightarrow> m \<le> i \<and> i < n \<and> P i \<and> (\<forall>j. m \<le> j \<and> j < i \<longrightarrow> \<not> P j)"
proof
  assume "find P [m..<n] = Some i"
  then obtain k where k: "k < length [m..<n]" "P ([m..<n] ! k)" "i = [m..<n] ! k"
      "\<forall>j<k. \<not> P ([m..<n] ! j)" by (auto simp: find_Some_iff)
  have "\<not> P j" if "m \<le> j" "j < i" for j
    using k(1,3) k(4) [rule_format, of "j - m"] that by simp
  then show "m \<le> i \<and> i < n \<and> P i \<and> (\<forall>j. m \<le> j \<and> j < i \<longrightarrow> \<not> P j)" using k by simp
next
  assume "m \<le> i \<and> i < n \<and> P i \<and> (\<forall>j. m \<le> j \<and> j < i \<longrightarrow> \<not> P j)"
  then show "find P [m..<n] = Some i"
    unfolding find_Some_iff by (intro exI [of _ "i - m"]) auto
qed

lemma find_upt_None_iff: "find P [m..<n] = None \<longleftrightarrow> (\<forall>i. m \<le> i \<and> i < n \<longrightarrow> \<not> P i)"
  by (auto simp: find_None_iff)

subsection \<open>The linear scan for a slot\<close>

primrec first_idx :: "('a \<Rightarrow> bool) \<Rightarrow> 'a list \<Rightarrow> nat option" where
  "first_idx P [] = None"
| "first_idx P (x # xs) = (if P x then Some 0 else map_option Suc (first_idx P xs))"

lemma first_idx_None_iff: "first_idx P xs = None \<longleftrightarrow> (\<forall>x \<in> set xs. \<not> P x)"
  by (induction xs) auto

lemma first_idx_Some_iff:
  "first_idx P xs = Some i \<longleftrightarrow> i < length xs \<and> P (xs ! i) \<and> (\<forall>j < i. \<not> P (xs ! j))"
proof (induction xs arbitrary: i)
  case Nil
  then show ?case by simp
next
  case (Cons x xs)
  show ?case
  proof (cases i)
    case 0
    then show ?thesis by auto
  next
    case (Suc k)
    then show ?thesis using Cons by (auto simp: less_Suc_eq_0_disj)
  qed
qed

lemma first_idx_SomeD:
  "first_idx P xs = Some i \<Longrightarrow> i < length xs \<and> P (xs ! i)"
  by (simp add: first_idx_Some_iff)

lemma first_idx_complete: "i < length xs \<Longrightarrow> P (xs ! i) \<Longrightarrow> \<exists>j \<le> i. first_idx P xs = Some j"
proof (induction xs arbitrary: i)
  case (Cons x xs)
  then show ?case by (cases i) fastforce+
qed simp

subsection \<open>C conversions\<close>

text \<open>
  A signed C integer that the code never lets wrap (counts, indices) is an \<open>int\<close> or
  a \<open>nat\<close>; the conversions of 64-bit register contents to \<open>int\<close> and back are explicit. \<open>c_int\<close> is the value of
  an \<open>int\<close> after arithmetic that nothing in the code keeps below \<open>2 ^ 31\<close>: as compiled, it wraps.
\<close>

definition c_int :: "int \<Rightarrow> int" where
  "c_int n = sint (word_of_int n :: u32)"

lemma c_int_small: "- (2 ^ 31) \<le> n \<Longrightarrow> n < 2 ^ 31 \<Longrightarrow> c_int n = n"
  by (simp add: c_int_def int_word_sint)

definition int_of_reg :: "u64 \<Rightarrow> int" where
  "int_of_reg x = sint (ucast x :: u32)"

definition reg_of_int :: "int \<Rightarrow> u64" where
  "reg_of_int n = word_of_int n"

lemma int_of_reg_bounds: "- (2 ^ 31) \<le> int_of_reg x \<and> int_of_reg x < 2 ^ 31"
  using sint_ge [of "ucast x :: u32"] sint_lt [of "ucast x :: u32"] by (simp add: int_of_reg_def)

lemma uint_eq_iff: "uint x = uint y \<longleftrightarrow> x = y"
  by (simp add: word_uint_eq_iff)

lemma unat64_less [simp]: "unat (x :: u64) < 2 ^ 64"
  using unsigned_less [of x] by simp

lemma unat64_less_numeral [simp]: "unat (x :: u64) < 18446744073709551616"
  using unat64_less [of x] by (simp del: unat64_less)

lemma unat32_less [simp]: "unat (x :: u32) < 2 ^ 32"
  using unsigned_less [of x] by simp

lemma unat_of_nat64: "n < 2 ^ 64 \<Longrightarrow> unat (of_nat n :: u64) = n"
  by (simp add: unat_of_nat)

lemma unat_of_nat_add:
  fixes a :: u64
  assumes "unat a + k < 2 ^ 64"
  shows "unat (a + of_nat k) = unat a + k"
  using assms by (simp add: unat_word_ariths unat_of_nat)

lemma unat_add64:
  fixes a b :: u64
  assumes "unat a + unat b < 2 ^ 64"
  shows "unat (a + b) = unat a + unat b"
  using assms by (simp add: unat_word_ariths)

lemma aligned_add_less:
  fixes x b c i :: nat
  assumes "c dvd x" and "c dvd b" and "x < b" and "i < c"
  shows "x + i < b"
proof -
  obtain q r where "x = c * q" "b = c * r" using assms by (auto simp: dvd_def)
  with assms have "q < r" by simp
  then have "c * q + c \<le> c * r" by (metis Suc_leI mult_Suc_right mult_le_mono2 add.commute)
  with \<open>x = c * q\<close> \<open>b = c * r\<close> \<open>i < c\<close> show ?thesis by simp
qed

lemma word_offset_iff:
  fixes x d :: "'l::len word"
  assumes "n < 2 ^ LENGTH('l)"
  shows "unat (x - d) = n \<longleftrightarrow> x = d + of_nat n"
proof
  assume "unat (x - d) = n"
  moreover have "x - d = of_nat (unat (x - d))" by simp
  ultimately have "x - d = of_nat n" by metis
  then show "x = d + of_nat n" by (metis add.commute diff_add_cancel)
next
  assume "x = d + of_nat n"
  then show "unat (x - d) = n" using assms by (simp add: unat_of_nat)
qed

subsection \<open>The locks held by this CPU\<close>

text \<open>
  One name per spin lock of the kernel. A run of one thread keeps the list of the locks its CPU
  holds, the last acquired first; \<open>acquire\<close> panics when this CPU already holds the lock and
  \<open>release\<close> when it does not, as in \<open>spinlock.c\<close>. Theory \<open>Spinlock\<close> models the locks themselves
  (the atomic swap, the interrupt nesting) and shows that these two operations abstract them.
\<close>

datatype lockid =
    KmemLock
  | PidLock
  | WaitLock
  | ProcLock nat
  | BcacheLock
  | SleepLk sleepid
  | LogLock
  | ItableLock
  | FtableLock
  | PipeLock u64
  | TicksLock
  | ConsLock
  | TxLock
  | PrLock
  | VdiskLock

record kbase =
  held :: "lockid list"
  console_out :: string

definition acquire :: "lockid \<Rightarrow> 'z kbase_scheme \<Rightarrow> ('z kbase_scheme, unit) outcome" where
  "acquire l s =
     (if l \<in> set (held s) then Panic ''acquire'' else Done () (s\<lparr>held := l # held s\<rparr>))"

definition release :: "lockid \<Rightarrow> 'z kbase_scheme \<Rightarrow> ('z kbase_scheme, unit) outcome" where
  "release l s =
     (if l \<in> set (held s) then Done () (s\<lparr>held := remove1 l (held s)\<rparr>) else Panic ''release'')"

definition holding :: "lockid \<Rightarrow> 'z kbase_scheme \<Rightarrow> bool" where
  "holding l s \<longleftrightarrow> l \<in> set (held s)"

lemma acquire_free [lock_simps]:
  "l \<notin> set (held s) \<Longrightarrow> acquire l s = Done () (s\<lparr>held := l # held s\<rparr>)"
  by (simp add: acquire_def)

lemma release_head [lock_simps]:
  "held s = l # ls \<Longrightarrow> release l s = Done () (s\<lparr>held := ls\<rparr>)"
  by (simp add: release_def)

lemma release_member [lock_simps]:
  "l \<in> set (held s) \<Longrightarrow> release l s = Done () (s\<lparr>held := remove1 l (held s)\<rparr>)"
  by (simp add: release_def)

lemma release_after_acquire:
  "acquire l s = Done () t \<Longrightarrow> release l t = Done () s"
  by (auto simp: acquire_def release_def split: if_splits)

text \<open>\<open>kputs\<close>: the characters \<open>printf\<close> sends to the console.\<close>

definition kputs :: "string \<Rightarrow> 'z kbase_scheme \<Rightarrow> 'z kbase_scheme" where
  "kputs cs s = s\<lparr>console_out := console_out s @ cs\<rparr>"

lemma kputs_held [simp]: "held (kputs cs s) = held s"
  by (simp add: kputs_def)

end
