(* ===== verification/Memory.thy ===== *)
theory Memory
  imports Xv6_Prelude
begin

section \<open>Byte-addressed memory and the little-endian layout of C integers\<close>

text \<open>
  Physical memory is a function from 64-bit addresses to bytes; a disk block is a function from
  offsets to bytes. Both are written one byte at a time (\<open>store_bytes\<close>) and read back as byte
  lists (\<open>load_bytes\<close>). \<open>le_bytes\<close> and \<open>of_le\<close> are the little-endian representation the RISC-V
  target uses for \<open>ushort\<close>, \<open>uint\<close> and \<open>uint64\<close> objects in memory.
\<close>

type_synonym mem = "u64 \<Rightarrow> u8"
type_synonym block = "nat \<Rightarrow> u8"

subsection \<open>Little-endian integers\<close>

primrec le_bytes :: "nat \<Rightarrow> 'a::len word \<Rightarrow> u8 list" where
  "le_bytes 0 w = []"
| "le_bytes (Suc n) w = ucast w # le_bytes n (drop_bit 8 w)"

primrec of_le :: "u8 list \<Rightarrow> 'a::len word" where
  "of_le [] = 0"
| "of_le (b # bs) = ucast b OR push_bit 8 (of_le bs)"

lemma length_le_bytes [simp]: "length (le_bytes n w) = n"
  by (induction n arbitrary: w) auto

lemma bit_of_le_Cons:
  "bit (of_le (b # bs) :: 'a::len word) k \<longleftrightarrow>
     k < LENGTH('a) \<and> (if k < 8 then bit b k else bit (of_le bs :: 'a word) (k - 8))"
  by (auto simp: bit_or_iff bit_ucast_iff bit_push_bit_iff dest: bit_imp_le_length)

lemma of_le_le_bytes_take: "of_le (le_bytes n w) = take_bit (8 * n) (w :: 'a::len word)"
proof (induction n arbitrary: w)
  case 0
  then show ?case by simp
next
  case (Suc n)
  show ?case
  proof (rule bit_word_eqI)
    fix k
    assume k: "k < LENGTH('a)"
    show "bit (of_le (le_bytes (Suc n) w) :: 'a word) k \<longleftrightarrow> bit (take_bit (8 * Suc n) w) k"
      using k Suc.IH [of "drop_bit 8 w"]
      by (cases "k < 8")
        (auto simp: bit_of_le_Cons bit_take_bit_iff bit_ucast_iff bit_drop_bit_eq simp del: of_le.simps)
  qed
qed

lemma of_le_le_bytes:
  assumes "LENGTH('a) \<le> 8 * n"
  shows "of_le (le_bytes n w) = (w :: 'a::len word)"
proof -
  have "take_bit (8 * n) w = w"
    using assms by (intro bit_word_eqI) (simp add: bit_take_bit_iff)
  then show ?thesis by (simp add: of_le_le_bytes_take)
qed

lemma le_bytes_of_le:
  assumes "length bs = n" and "8 * n \<le> LENGTH('a)"
  shows "le_bytes n (of_le bs :: 'a::len word) = bs"
  using assms
proof (induction bs arbitrary: n)
  case Nil
  then show ?case by simp
next
  case (Cons b bs)
  then obtain m where n: "n = Suc m" and m: "length bs = m" by auto
  let ?w = "of_le (b # bs) :: 'a word"
  let ?v = "of_le bs :: 'a word"
  have small: "bit ?v k \<Longrightarrow> k < 8 * m" for k
  proof -
    have "\<And>k. bit (of_le ys :: 'a word) k \<Longrightarrow> k < 8 * length ys" for ys :: "u8 list"
    proof (induction ys)
      case (Cons y ys)
      show ?case
      proof (cases "k < 8")
        case True
        then show ?thesis by simp
      next
        case False
        with Cons.prems have "bit (of_le ys :: 'a word) (k - 8)"
          by (simp add: bit_of_le_Cons del: of_le.simps)
        from Cons.IH [OF this] show ?thesis by simp
      qed
    qed simp
    with m show "bit ?v k \<Longrightarrow> k < 8 * m" by blast
  qed
  have hd: "(ucast ?w :: u8) = b"
    using Cons.prems(2) n
    by (intro bit_word_eqI) (simp add: bit_ucast_iff bit_of_le_Cons del: of_le.simps)
  have tl: "drop_bit 8 ?w = ?v"
    using Cons.prems(2) n
    by (intro bit_word_eqI) (auto simp: bit_drop_bit_eq bit_of_le_Cons simp del: of_le.simps dest: small)
  have "le_bytes m ?v = bs"
    by (rule Cons.IH) (use m Cons.prems n in auto)
  with n hd tl show ?case by simp
qed

subsection \<open>Storing and loading bytes\<close>

primrec store_bytes :: "'i::comm_semiring_1 \<Rightarrow> u8 list \<Rightarrow> ('i \<Rightarrow> u8) \<Rightarrow> ('i \<Rightarrow> u8)" where
  "store_bytes a [] m = m"
| "store_bytes a (b # bs) m = store_bytes (a + 1) bs (m(a := b))"

primrec load_bytes :: "('i::comm_semiring_1 \<Rightarrow> u8) \<Rightarrow> 'i \<Rightarrow> nat \<Rightarrow> u8 list" where
  "load_bytes m a 0 = []"
| "load_bytes m a (Suc n) = m a # load_bytes m (a + 1) n"

lemma length_load_bytes [simp]: "length (load_bytes m a n) = n"
  by (induction n arbitrary: a) auto

lemma load_bytes_nth: "k < n \<Longrightarrow> load_bytes m a n ! k = m (a + of_nat k)"
proof (induction n arbitrary: a k)
  case (Suc n)
  then show ?case by (cases k) (auto simp: algebra_simps)
qed simp

lemma load_bytes_cong:
  "(\<And>k. k < n \<Longrightarrow> m (a + of_nat k) = m' (a + of_nat k)) \<Longrightarrow> load_bytes m a n = load_bytes m' a n"
  by (rule nth_equalityI) (auto simp: load_bytes_nth)

lemma load_bytes_append:
  "load_bytes m a (n + k) = load_bytes m a n @ load_bytes m (a + of_nat n) k"
  by (induction n arbitrary: a) (auto simp: algebra_simps)

lemma store_bytes_append:
  "store_bytes a (xs @ ys) m = store_bytes (a + of_nat (length xs)) ys (store_bytes a xs m)"
  by (induction xs arbitrary: a m) (auto simp: algebra_simps)

text \<open>Where a stored range is read back, in blocks and in memory.\<close>

lemma store_bytes_nat:
  "store_bytes (a :: nat) bs m x = (if a \<le> x \<and> x < a + length bs then bs ! (x - a) else m x)"
proof (induction bs arbitrary: a m)
  case (Cons b bs)
  show ?case
  proof (cases "a < x")
    case True
    then obtain k where "x = a + Suc k" by (metis add_Suc_right less_imp_Suc_add)
    moreover have "store_bytes (a + 1) bs (m(a := b)) x =
        (if a + 1 \<le> x \<and> x < a + 1 + length bs then bs ! (x - (a + 1)) else (m(a := b)) x)"
      by (rule Cons.IH)
    ultimately show ?thesis by (simp only: store_bytes.simps) auto
  next
    case False
    moreover have "store_bytes (a + 1) bs (m(a := b)) x =
        (if a + 1 \<le> x \<and> x < a + 1 + length bs then bs ! (x - (a + 1)) else (m(a := b)) x)"
      by (rule Cons.IH)
    ultimately show ?thesis by (simp only: store_bytes.simps) auto
  qed
qed auto

lemma word_dist_Suc:
  fixes a x :: "'l::len word"
  assumes "x \<noteq> a"
  shows "unat (x - a) = Suc (unat (x - (a + 1)))"
proof -
  have nz: "x - a \<noteq> 0" using assms by simp
  have "x - (a + 1) = (x - a) - 1" by (simp add: algebra_simps)
  then have "unat (x - (a + 1)) = unat (x - a) - 1"
    using nz by (metis unat_minus_one)
  moreover have "0 < unat (x - a)"
    using nz by (simp add: unat_gt_0)
  ultimately show ?thesis by simp
qed

lemma store_bytes_word:
  assumes "length bs \<le> 2 ^ LENGTH('l)"
  shows "store_bytes (a :: 'l::len word) bs m x =
    (if unat (x - a) < length bs then bs ! unat (x - a) else m x)"
  using assms
proof (induction bs arbitrary: a m)
  case (Cons b bs)
  have IH: "store_bytes (a + 1) bs (m(a := b)) x =
    (if unat (x - (a + 1)) < length bs then bs ! unat (x - (a + 1)) else (m(a := b)) x)"
    by (rule Cons.IH) (use Cons.prems in simp)
  show ?case
  proof (cases "x = a")
    case True
    have "a - (a + 1) = (- 1 :: 'l word)" by simp
    then have "unat (a - (a + 1)) = 2 ^ LENGTH('l) - 1"
      by (simp only: unsigned_minus_1_eq_mask mask_eq_exp_minus_1)
    moreover have "\<not> 2 ^ LENGTH('l) - 1 < length bs"
      using Cons.prems by (simp add: not_less)
    ultimately show ?thesis using True IH by simp
  next
    case False
    with IH word_dist_Suc [OF False] show ?thesis by simp
  qed
qed simp

lemma load_store_same_nat [simp]:
  "length bs = n \<Longrightarrow> load_bytes (store_bytes (a :: nat) bs m) a n = bs"
  by (rule nth_equalityI) (auto simp: load_bytes_nth store_bytes_nat)

lemma load_store_other_nat:
  "b + n \<le> a \<or> a + length bs \<le> b \<Longrightarrow>
     load_bytes (store_bytes (a :: nat) bs m) b n = load_bytes m b n"
  by (rule load_bytes_cong) (auto simp: store_bytes_nat)

lemma load_store_same_word:
  assumes "length bs = n" and "n \<le> 2 ^ LENGTH('l)"
  shows "load_bytes (store_bytes (a :: 'l::len word) bs m) a n = bs"
proof (rule nth_equalityI)
  fix k
  assume "k < length (load_bytes (store_bytes a bs m) a n)"
  then have k: "k < n" by simp
  with assms have "k < 2 ^ LENGTH('l)" by simp
  then have "unat (of_nat k :: 'l word) = k" by (simp add: unat_of_nat)
  with k assms show "load_bytes (store_bytes a bs m) a n ! k = bs ! k"
    by (simp add: load_bytes_nth store_bytes_word)
qed (use assms in simp)

subsection \<open>64-bit objects in memory\<close>

definition load64 :: "mem \<Rightarrow> u64 \<Rightarrow> u64" where
  "load64 m a = of_le (load_bytes m a 8)"

definition store64 :: "u64 \<Rightarrow> u64 \<Rightarrow> mem \<Rightarrow> mem" where
  "store64 a w m = store_bytes a (le_bytes 8 w) m"

lemma load64_store64_same [simp]: "load64 (store64 a w m) a = w"
  unfolding load64_def store64_def
  by (subst load_store_same_word) (simp_all add: of_le_le_bytes)

lemma store64_frame: "8 \<le> unat (x - a) \<Longrightarrow> store64 a w m x = m x"
  by (simp add: store64_def store_bytes_word)

lemma load64_cong: "(\<And>k. k < 8 \<Longrightarrow> m (a + of_nat k) = m' (a + of_nat k)) \<Longrightarrow> load64 m a = load64 m' a"
  unfolding load64_def by (subst load_bytes_cong) auto

text \<open>Two aligned 8-byte objects at different addresses do not overlap.\<close>

lemma aligned8_offset:
  fixes a b :: u64
  assumes "unat a mod 8 = 0" and "unat b mod 8 = 0" and "a \<noteq> b" and "k < 8"
  shows "8 \<le> unat (b + of_nat k - a)"
proof (rule ccontr)
  assume "\<not> 8 \<le> unat (b + of_nat k - a)"
  then obtain j where j: "j < 8" "unat (b + of_nat k - a) = j" by simp
  then have "b + of_nat k = a + of_nat j"
    by (subst (asm) word_offset_iff) auto
  moreover have "unat (b + of_nat k) = unat b + k" "unat (a + of_nat j) = unat a + j"
  proof -
    have "x + i < 2 ^ 64" if "x mod 8 = 0" "x < 2 ^ 64" "i < 8" for x i :: nat
      using that by (intro aligned_add_less [of 8]) (simp_all add: dvd_eq_mod_eq_0)
    then show "unat (b + of_nat k) = unat b + k" "unat (a + of_nat j) = unat a + j"
      using assms j by (simp_all add: unat_of_nat_add)
  qed
  ultimately have "unat b + k = unat a + j" by simp
  then have "unat b = unat a" using assms j by presburger
  with assms(3) show False by (simp add: word_unat_eq_iff)
qed

lemma load64_store64_other:
  assumes "unat a mod 8 = 0" and "unat b mod 8 = 0" and "a \<noteq> b"
  shows "load64 (store64 a w m) b = load64 m b"
  by (rule load64_cong) (use aligned8_offset [OF assms] in \<open>simp add: store64_frame\<close>)

end
