(* ===== verification/Kstring.thy ===== *)
theory Kstring
  imports Memory
begin

section \<open>string.c: memory and string routines\<close>

text \<open>
  The routines of \<open>kernel/string.c\<close> over byte-addressed memory, with real pointers: a destination
  may overlap its source. Counts are \<open>uint\<close> (words) or \<open>int\<close>, as declared; \<open>char\<close> is unsigned on
  RISC-V. Reading routines take the memory and two pointers; writing routines return the new memory
  (the pointer they return is their first argument). \<open>strlen\<close> may run forever when no NUL follows,
  so it is a partial function into \<open>option\<close>.
\<close>

subsection \<open>memset, memcmp\<close>

definition memset :: "u64 \<Rightarrow> int \<Rightarrow> u32 \<Rightarrow> mem \<Rightarrow> mem" where
  "memset dst c n m = fold (\<lambda>i m. m(dst + of_nat i := word_of_int c)) [0..<unat n] m"

lemma fold_upd_range:
  assumes "n \<le> 2 ^ 64"
  shows "fold (\<lambda>i m. m(dst + of_nat i := c)) [0..<n] (m :: mem) x =
    (if unat (x - dst) < n then c else m x)"
  using assms
proof (induction n)
  case (Suc n)
  have "unat (x - dst) = n \<longleftrightarrow> x = dst + of_nat n"
    by (rule word_offset_iff) (use Suc.prems in simp)
  then show ?case using Suc by (auto simp: less_Suc_eq)
qed simp

lemma memset_apply:
  "memset dst c n m x = (if unat (x - dst) < unat n then word_of_int c else m x)"
proof -
  have "unat n \<le> 2 ^ 64"
    using unat32_less [of n] by (simp del: unat32_less)
  from fold_upd_range [OF this] show ?thesis by (simp add: memset_def)
qed

primrec memcmp_loop :: "nat \<Rightarrow> u64 \<Rightarrow> u64 \<Rightarrow> mem \<Rightarrow> int" where
  "memcmp_loop 0 s1 s2 m = 0"
| "memcmp_loop (Suc n) s1 s2 m =
     (if m s1 \<noteq> m s2 then uint (m s1) - uint (m s2) else memcmp_loop n (s1 + 1) (s2 + 1) m)"

definition memcmp :: "u64 \<Rightarrow> u64 \<Rightarrow> u32 \<Rightarrow> mem \<Rightarrow> int" where
  "memcmp v1 v2 n m = memcmp_loop (unat n) v1 v2 m"

lemma memcmp_loop_zero_iff:
  "memcmp_loop n s1 s2 m = 0 \<longleftrightarrow> load_bytes m s1 n = load_bytes m s2 n"
  by (induction n arbitrary: s1 s2) (auto simp: uint_eq_iff)

subsection \<open>memmove, memcpy\<close>

primrec copy_fwd :: "nat \<Rightarrow> u64 \<Rightarrow> u64 \<Rightarrow> mem \<Rightarrow> mem" where
  "copy_fwd 0 d s m = m"
| "copy_fwd (Suc n) d s m = copy_fwd n (d + 1) (s + 1) (m(d := m s))"

primrec copy_bwd :: "nat \<Rightarrow> u64 \<Rightarrow> u64 \<Rightarrow> mem \<Rightarrow> mem" where
  "copy_bwd 0 d s m = m"
| "copy_bwd (Suc n) d s m = copy_bwd n (d - 1) (s - 1) (m(d - 1 := m (s - 1)))"

definition memmove :: "u64 \<Rightarrow> u64 \<Rightarrow> u32 \<Rightarrow> mem \<Rightarrow> mem" where
  "memmove dst src n m =
     (if n = 0 then m
      else if src < dst \<and> src + ucast n > dst
      then copy_bwd (unat n) (dst + ucast n) (src + ucast n) m
      else copy_fwd (unat n) dst src m)"

definition memcpy :: "u64 \<Rightarrow> u64 \<Rightarrow> u32 \<Rightarrow> mem \<Rightarrow> mem" where
  "memcpy dst src n m = memmove dst src n m"

text \<open>
  Both loops copy correctly as long as the bytes still to be read are not overwritten: the source
  position of step \<open>j\<close> is not the destination of an earlier step.
\<close>

lemma copy_fwd_apply:
  assumes "n \<le> 2 ^ 64" and "\<And>i j. i < j \<Longrightarrow> j < n \<Longrightarrow> d + of_nat i \<noteq> s + of_nat j"
  shows "copy_fwd n d s m x = (if unat (x - d) < n then m (s + (x - d)) else m x)"
  using assms
proof (induction n arbitrary: d s m)
  case (Suc n)
  let ?m = "m(d := m s)"
  have IH: "copy_fwd n (d + 1) (s + 1) ?m x =
      (if unat (x - (d + 1)) < n then ?m (s + 1 + (x - (d + 1))) else ?m x)"
  proof (rule Suc.IH)
    show "n \<le> 2 ^ 64" using Suc.prems(1) by simp
    show "d + 1 + of_nat i \<noteq> s + 1 + of_nat j" if "i < j" "j < n" for i j
      using Suc.prems(2) [of "Suc i" "Suc j"] that by (simp add: algebra_simps)
  qed
  show ?case
  proof (cases "x = d")
    case True
    have "unat (d - (d + 1)) = 2 ^ 64 - 1"
      by (simp add: unsigned_minus_1_eq_mask mask_eq_exp_minus_1)
    with True IH Suc.prems(1) show ?thesis by simp
  next
    case False
    note dist = word_dist_Suc [OF False]
    have "s + 1 + (x - (d + 1)) \<noteq> d" if "unat (x - (d + 1)) < n"
    proof -
      have "d + of_nat 0 \<noteq> s + of_nat (Suc (unat (x - (d + 1))))"
        using that by (intro Suc.prems(2)) auto
      then show ?thesis by (simp add: algebra_simps)
    qed
    moreover have "s + 1 + (x - (d + 1)) = s + (x - d)" by simp
    ultimately show ?thesis using IH dist False by auto
  qed
qed simp

lemma copy_bwd_apply:
  assumes "n \<le> 2 ^ 64" and "\<And>i j. i < j \<Longrightarrow> j < n \<Longrightarrow> d + of_nat j \<noteq> s + of_nat i"
  shows "copy_bwd n (d + of_nat n) (s + of_nat n) m x =
    (if unat (x - d) < n then m (s + (x - d)) else m x)"
  using assms
proof (induction n arbitrary: m)
  case (Suc n)
  let ?m = "m(d + of_nat n := m (s + of_nat n))"
  have last: "unat (x - d) = n \<longleftrightarrow> x = d + of_nat n"
    by (rule word_offset_iff) (use Suc.prems(1) in simp)
  have "copy_bwd (Suc n) (d + of_nat (Suc n)) (s + of_nat (Suc n)) m =
      copy_bwd n (d + of_nat n) (s + of_nat n) ?m"
    by (simp add: algebra_simps)
  moreover have "copy_bwd n (d + of_nat n) (s + of_nat n) ?m x =
      (if unat (x - d) < n then ?m (s + (x - d)) else ?m x)"
    by (rule Suc.IH) (use Suc.prems in auto)
  moreover have "s + (x - d) \<noteq> d + of_nat n" if "unat (x - d) < n"
    using Suc.prems(2) [of "unat (x - d)" n] that by auto
  ultimately show ?case
    by (auto simp: less_Suc_eq last)
qed simp

text \<open>
  Regions of memory that do not wrap past the top of the address space: \<open>memmove\<close> copies the old
  contents of the source, whether or not it overlaps the destination, and changes nothing else.
\<close>

lemma memmove_apply:
  assumes dst: "unat dst + unat n \<le> 2 ^ 64" and src: "unat src + unat n \<le> 2 ^ 64"
  shows "memmove dst src n m x = (if unat (x - dst) < unat n then m (src + (x - dst)) else m x)"
proof (cases "n = 0")
  case True
  then show ?thesis by (simp add: memmove_def)
next
  case False
  have n64: "unat n \<le> 2 ^ 64" using dst by simp
  have ucn: "(ucast n :: u64) = of_nat (unat n)"
    by (simp add: of_nat_unat)
  have pos: "unat (dst + of_nat i) = unat dst + i" "unat (src + of_nat i) = unat src + i"
    if "i < unat n" for i
    using that dst src by (simp_all add: unat_of_nat_add)
  show ?thesis
  proof (cases "src < dst \<and> src + ucast n > dst")
    case True
    have "dst + of_nat j \<noteq> src + of_nat i" if "i < j" "j < unat n" for i j
    proof -
      have "unat src < unat dst" using True by (simp add: word_less_nat_alt)
      then show ?thesis using pos(1) [of j] pos(2) [of i] that by auto
    qed
    from copy_bwd_apply [OF n64 this] True False show ?thesis
      by (simp add: memmove_def)
  next
    case nov: False
    have "dst + of_nat i \<noteq> src + of_nat j" if ij: "i < j" "j < unat n" for i j
    proof
      assume "dst + of_nat i = src + of_nat j"
      then have eq: "unat dst + i = unat src + j"
        using pos(1) [of i] pos(2) [of j] ij by simp
      with ij have lt: "src < dst" by (simp add: word_less_nat_alt)
      have "unat src + unat n < 2 ^ 64 \<Longrightarrow> unat (src + ucast n) = unat src + unat n"
        unfolding ucn by (rule unat_of_nat_add)
      moreover have "unat src + unat n < 2 ^ 64"
        using eq ij dst by linarith
      ultimately have "dst < src + ucast n"
        using eq ij by (simp add: word_less_nat_alt)
      with lt nov show False by simp
    qed
    from copy_fwd_apply [OF n64 this] nov False show ?thesis
      by (auto simp: memmove_def)
  qed
qed

subsection \<open>strncmp, strncpy, safestrcpy, strlen\<close>

primrec strncmp_loop :: "nat \<Rightarrow> u64 \<Rightarrow> u64 \<Rightarrow> mem \<Rightarrow> int" where
  "strncmp_loop 0 p q m = 0"
| "strncmp_loop (Suc n) p q m =
     (if m p \<noteq> 0 \<and> m p = m q then strncmp_loop n (p + 1) (q + 1) m else uint (m p) - uint (m q))"

definition strncmp :: "u64 \<Rightarrow> u64 \<Rightarrow> u32 \<Rightarrow> mem \<Rightarrow> int" where
  "strncmp p q n m = strncmp_loop (unat n) p q m"

primrec fill_zero :: "nat \<Rightarrow> u64 \<Rightarrow> mem \<Rightarrow> mem" where
  "fill_zero 0 s m = m"
| "fill_zero (Suc n) s m = fill_zero n (s + 1) (m(s := 0))"

primrec strncpy_loop :: "nat \<Rightarrow> u64 \<Rightarrow> u64 \<Rightarrow> mem \<Rightarrow> mem" where
  "strncpy_loop 0 s t m = m"
| "strncpy_loop (Suc n) s t m =
     (if m t \<noteq> 0 then strncpy_loop n (s + 1) (t + 1) (m(s := m t))
      else fill_zero n (s + 1) (m(s := m t)))"

definition strncpy :: "u64 \<Rightarrow> u64 \<Rightarrow> int \<Rightarrow> mem \<Rightarrow> mem" where
  "strncpy s t n m = strncpy_loop (nat n) s t m"

text \<open>In \<open>safestrcpy\<close> the pointer has moved past the copied NUL when the final \<open>*s = 0\<close> runs.\<close>

primrec safestrcpy_loop :: "nat \<Rightarrow> u64 \<Rightarrow> u64 \<Rightarrow> mem \<Rightarrow> mem" where
  "safestrcpy_loop 0 s t m = m(s := 0)"
| "safestrcpy_loop (Suc n) s t m =
     (if m t \<noteq> 0 then safestrcpy_loop n (s + 1) (t + 1) (m(s := m t))
      else (m(s := m t))(s + 1 := 0))"

definition safestrcpy :: "u64 \<Rightarrow> u64 \<Rightarrow> int \<Rightarrow> mem \<Rightarrow> mem" where
  "safestrcpy s t n m = (if n \<le> 0 then m else safestrcpy_loop (nat n - 1) s t m)"

partial_function (option) strlen_from :: "mem \<Rightarrow> u64 \<Rightarrow> nat \<Rightarrow> nat option" where
  "strlen_from m s n = (if m (s + of_nat n) \<noteq> 0 then strlen_from m s (Suc n) else Some n)"

definition strlen :: "u64 \<Rightarrow> mem \<Rightarrow> nat option" where
  "strlen s m = strlen_from m s 0"

lemma strlen_from_found:
  assumes "\<And>i. n \<le> i \<Longrightarrow> i < k \<Longrightarrow> m (s + of_nat i) \<noteq> 0" and "m (s + of_nat k) = 0" and "n \<le> k"
  shows "strlen_from m s n = Some k"
  using assms
proof (induction "k - n" arbitrary: n)
  case 0
  then show ?case by (simp add: strlen_from.simps)
next
  case (Suc d)
  then have "strlen_from m s (Suc n) = Some k" by (intro Suc.hyps(1)) auto
  then show ?case using Suc by (subst strlen_from.simps) auto
qed

text \<open>The C string at an address, as the bytes before the first NUL of its first \<open>n\<close> bytes.\<close>

definition cstr :: "mem \<Rightarrow> u64 \<Rightarrow> nat \<Rightarrow> u8 list" where
  "cstr m a n = takeWhile (\<lambda>b. b \<noteq> 0) (load_bytes m a n)"

lemma strncmp_loop_zero_iff: "strncmp_loop n p q m = 0 \<longleftrightarrow> cstr m p n = cstr m q n"
proof (induction n arbitrary: p q)
  case (Suc n)
  then show ?case by (cases "m p = m q") (auto simp: cstr_def uint_eq_iff uint_0_iff)
qed (simp add: cstr_def)

lemma fill_zero_apply:
  "n \<le> 2 ^ 64 \<Longrightarrow> fill_zero n s m x = (if unat (x - s) < n then 0 else m x)"
proof (induction n arbitrary: s m)
  case (Suc n)
  have IH: "fill_zero n (s + 1) (m(s := 0)) x =
      (if unat (x - (s + 1)) < n then 0 else (m(s := 0)) x)"
    by (rule Suc.IH) (use Suc.prems in simp)
  show ?case
    using IH word_dist_Suc [of x s] by (cases "x = s") auto
qed simp

text \<open>\<open>strncpy\<close> and \<open>safestrcpy\<close> write only inside the destination's \<open>n\<close> bytes.\<close>

lemma strncpy_loop_frame:
  "n \<le> 2 ^ 64 \<Longrightarrow> n \<le> unat (x - s) \<Longrightarrow> strncpy_loop n s t m x = m x"
proof (induction n arbitrary: s t m)
  case (Suc n)
  then have xs: "x \<noteq> s" by auto
  note d = word_dist_Suc [OF xs]
  show ?case using Suc d xs by (auto simp: fill_zero_apply)
qed simp

lemma safestrcpy_loop_frame:
  "Suc n \<le> 2 ^ 64 \<Longrightarrow> Suc n \<le> unat (x - s) \<Longrightarrow> safestrcpy_loop n s t m x = m x"
proof (induction n arbitrary: s t m)
  case 0
  then show ?case by auto
next
  case (Suc n)
  then have xs: "x \<noteq> s" by auto
  note d = word_dist_Suc [OF xs]
  have "x \<noteq> s + 1" using Suc.prems d by auto
  with Suc d xs show ?case by auto
qed

text \<open>\<open>safestrcpy\<close> always leaves a NUL among the first \<open>n\<close> bytes of its destination.\<close>

lemma safestrcpy_loop_terminates:
  "n < 2 ^ 64 \<Longrightarrow> \<exists>k \<le> n. safestrcpy_loop n s t m (s + of_nat k) = 0"
proof (induction n arbitrary: s t m)
  case 0
  then show ?case by simp
next
  case (Suc n)
  show ?case
  proof (cases "m t = 0")
    case True
    then have "safestrcpy_loop (Suc n) s t m (s + of_nat 1) = 0" by simp
    then show ?thesis by (metis One_nat_def Suc_le_mono zero_le)
  next
    case False
    obtain k where "k \<le> n" "safestrcpy_loop n (s + 1) (t + 1) (m(s := m t)) (s + 1 + of_nat k) = 0"
      using Suc.IH [of "s + 1" "t + 1" "m(s := m t)"] Suc.prems by (auto simp del: fun_upd_apply)
    then have "safestrcpy_loop (Suc n) s t m (s + of_nat (Suc k)) = 0"
      using False by (simp add: algebra_simps)
    with \<open>k \<le> n\<close> show ?thesis by (metis Suc_le_mono)
  qed
qed

end
