(* ===== verification/Riscv.thy ===== *)
theory Riscv
  imports Xv6_Prelude
begin

section \<open>riscv.h and memlayout.h: page arithmetic, page table entries, the address map\<close>

text \<open>
  The macros of \<open>kernel/riscv.h\<close> on pages, page table entries and page table indices, and the
  constants of \<open>kernel/memlayout.h\<close>, on 64-bit words. The lemmas give their meaning as arithmetic
  on addresses, and the round trips between a physical page and its page table entry and between a
  virtual address and its three 9-bit indices.
\<close>

named_theorems page_simps \<open>page arithmetic\<close>

abbreviation PGSIZE :: u64 where "PGSIZE \<equiv> 4096"

definition PGROUNDUP :: "u64 \<Rightarrow> u64" where
  "PGROUNDUP sz = (sz + PGSIZE - 1) AND NOT (PGSIZE - 1)"

definition PGROUNDDOWN :: "u64 \<Rightarrow> u64" where
  "PGROUNDDOWN a = a AND NOT (PGSIZE - 1)"

abbreviation PTE_V :: u64 where "PTE_V \<equiv> 1"
abbreviation PTE_R :: u64 where "PTE_R \<equiv> 2"
abbreviation PTE_W :: u64 where "PTE_W \<equiv> 4"
abbreviation PTE_X :: u64 where "PTE_X \<equiv> 8"
abbreviation PTE_U :: u64 where "PTE_U \<equiv> 16"

definition PA2PTE :: "u64 \<Rightarrow> u64" where
  "PA2PTE pa = push_bit 10 (drop_bit 12 pa)"

definition PTE2PA :: "u64 \<Rightarrow> u64" where
  "PTE2PA pte = push_bit 12 (drop_bit 10 pte)"

definition PTE_FLAGS :: "u64 \<Rightarrow> u64" where
  "PTE_FLAGS pte = pte AND 0x3FF"

definition PXSHIFT :: "nat \<Rightarrow> nat" where
  "PXSHIFT level = 12 + 9 * level"

definition PX :: "nat \<Rightarrow> u64 \<Rightarrow> u64" where
  "PX level va = drop_bit (PXSHIFT level) va AND 0x1FF"

definition MAXVA :: u64 where
  "MAXVA = push_bit (9 + 9 + 9 + 12 - 1) 1"

definition SATP_SV39 :: u64 where
  "SATP_SV39 = push_bit 60 8"

definition MAKE_SATP :: "u64 \<Rightarrow> u64" where
  "MAKE_SATP pagetable = SATP_SV39 OR drop_bit 12 pagetable"

text \<open>\<open>memlayout.h\<close>.\<close>

abbreviation UART0 :: u64 where "UART0 \<equiv> 0x10000000"
abbreviation VIRTIO0 :: u64 where "VIRTIO0 \<equiv> 0x10001000"
abbreviation PLIC :: u64 where "PLIC \<equiv> 0x0c000000"
abbreviation KERNBASE :: u64 where "KERNBASE \<equiv> 0x80000000"

definition PHYSTOP :: u64 where
  "PHYSTOP = KERNBASE + 128 * 1024 * 1024"

definition TRAMPOLINE :: u64 where
  "TRAMPOLINE = MAXVA - PGSIZE"

definition TRAPFRAME :: u64 where
  "TRAPFRAME = TRAMPOLINE - PGSIZE"

definition KSTACK :: "nat \<Rightarrow> u64" where
  "KSTACK p = TRAMPOLINE - (of_nat p + 1) * 2 * PGSIZE"

lemma MAXVA_val [simp]: "MAXVA = 0x4000000000"
  by (simp add: MAXVA_def)

lemma PHYSTOP_val [simp]: "PHYSTOP = 0x88000000"
  by (simp add: PHYSTOP_def)

lemma TRAMPOLINE_val [simp]: "TRAMPOLINE = 0x3FFFFFF000"
  by (simp add: TRAMPOLINE_def)

lemma TRAPFRAME_val [simp]: "TRAPFRAME = 0x3FFFFFE000"
  by (simp add: TRAPFRAME_def)

subsection \<open>Page arithmetic\<close>

lemma AND_mask_mod:
  fixes a :: "'l::len word"
  shows "unat (a AND mask n) = unat a mod 2 ^ n"
proof -
  have "unat (a AND mask n) = take_bit n (unat a)"
    by (simp only: take_bit_eq_mask [symmetric] unsigned_take_bit_eq)
  then show ?thesis by (simp only: take_bit_eq_mod)
qed

lemma PGROUNDDOWN_mask: "PGROUNDDOWN a = a AND NOT (mask 12)"
  by (simp add: PGROUNDDOWN_def mask_eq_exp_minus_1)

lemma PGROUNDDOWN_shift: "PGROUNDDOWN a = push_bit 12 (drop_bit 12 a)"
  unfolding PGROUNDDOWN_mask
  by (rule bit_word_eqI)
    (auto simp: bit_and_iff bit_not_iff bit_mask_iff bit_push_bit_iff bit_drop_bit_eq not_less)

lemma unat_push_drop:
  fixes a :: u64
  shows "unat (push_bit n (drop_bit n a)) = unat a div 2 ^ n * 2 ^ n"
proof -
  have "unat a div 2 ^ n * 2 ^ n \<le> unat a" by simp
  then have "unat a div 2 ^ n * 2 ^ n < 2 ^ 64" by (rule le_less_trans) simp
  moreover have "unat (push_bit n (drop_bit n a)) = take_bit 64 (push_bit n (drop_bit n (unat a)))"
    by (simp only: unsigned_push_bit_eq unat_drop_bit_eq) simp
  ultimately show ?thesis
    by (simp add: drop_bit_eq_div [where 'a = nat] push_bit_eq_mult [where 'a = nat]
        take_bit_eq_mod [where 'a = nat] mult.commute)
qed

lemma unat_PGROUNDDOWN: "unat (PGROUNDDOWN a) = unat a div 4096 * 4096"
  unfolding PGROUNDDOWN_shift using unat_push_drop [of 12 a] by simp

lemma PGROUNDDOWN_le: "unat (PGROUNDDOWN a) \<le> unat a"
  by (simp add: unat_PGROUNDDOWN)

lemma PGROUNDDOWN_offset: "unat (a - PGROUNDDOWN a) = unat a mod 4096"
proof -
  have "unat (a - PGROUNDDOWN a) = unat a - unat (PGROUNDDOWN a)"
    by (rule unat_sub) (simp add: word_le_nat_alt PGROUNDDOWN_le)
  then show ?thesis by (simp add: unat_PGROUNDDOWN minus_div_mult_eq_mod)
qed

lemma PGROUNDUP_down: "PGROUNDUP a = PGROUNDDOWN (a + 4095)"
  by (simp add: PGROUNDUP_def PGROUNDDOWN_def add.commute)

lemma unat_PGROUNDUP:
  assumes "unat a + 4095 < 2 ^ 64"
  shows "unat (PGROUNDUP a) = (unat a + 4095) div 4096 * 4096"
proof -
  have "unat (a + 4095) = unat a + 4095"
    by (subst unat_add64) (use assms in simp_all)
  then show ?thesis by (simp add: PGROUNDUP_down unat_PGROUNDDOWN)
qed

definition page_aligned :: "u64 \<Rightarrow> bool" where
  "page_aligned a \<longleftrightarrow> a mod PGSIZE = 0"

lemma page_aligned_unat: "page_aligned a \<longleftrightarrow> unat a mod 4096 = 0"
  unfolding page_aligned_def by (simp add: word_unat_eq_iff unat_mod)

lemma page_aligned_PGROUNDDOWN [simp]: "page_aligned (PGROUNDDOWN a)"
  by (simp add: page_aligned_unat unat_PGROUNDDOWN)

lemma page_aligned_PGROUNDUP [simp]: "page_aligned (PGROUNDUP a)"
  by (simp add: PGROUNDUP_down)

lemma PGROUNDDOWN_aligned: "page_aligned a \<Longrightarrow> PGROUNDDOWN a = a"
  by (auto simp: page_aligned_unat word_unat_eq_iff unat_PGROUNDDOWN)

subsection \<open>Page table entries\<close>

text \<open>The flag tests of the code, as single bits.\<close>

lemma AND_bit_nonzero: "pte AND push_bit n 1 \<noteq> 0 \<longleftrightarrow> bit (pte :: u64) n"
  by (auto simp: and_exp_eq_0_iff_not_bit push_bit_eq_mult [where 'a = "64 word"])

lemma PTE_bits:
  "pte AND PTE_V \<noteq> 0 \<longleftrightarrow> bit (pte :: u64) 0"
  "pte AND PTE_R \<noteq> 0 \<longleftrightarrow> bit pte 1"
  "pte AND PTE_W \<noteq> 0 \<longleftrightarrow> bit pte 2"
  "pte AND PTE_X \<noteq> 0 \<longleftrightarrow> bit pte 3"
  "pte AND PTE_U \<noteq> 0 \<longleftrightarrow> bit pte 4"
  using AND_bit_nonzero [of pte 0] AND_bit_nonzero [of pte 1] AND_bit_nonzero [of pte 2]
    AND_bit_nonzero [of pte 3] AND_bit_nonzero [of pte 4]
  by simp_all

lemma PTE_bits_zero:
  "pte AND PTE_V = 0 \<longleftrightarrow> \<not> bit (pte :: u64) 0"
  "pte AND PTE_R = 0 \<longleftrightarrow> \<not> bit pte 1"
  "pte AND PTE_W = 0 \<longleftrightarrow> \<not> bit pte 2"
  "pte AND PTE_X = 0 \<longleftrightarrow> \<not> bit pte 3"
  "pte AND PTE_U = 0 \<longleftrightarrow> \<not> bit pte 4"
  using PTE_bits [of pte] by blast+

lemma word_less_exp_bit:
  fixes w :: "'l::len word"
  assumes "unat w < 2 ^ n" and "bit w k"
  shows "k < n"
proof (rule ccontr)
  assume "\<not> k < n"
  from assms(2) have "bit (unat w) k" by (simp add: bit_unsigned_iff)
  moreover have "unat w < 2 ^ k"
    using assms(1) \<open>\<not> k < n\<close> by (meson le_less_trans less_le_trans not_less one_le_numeral order.strict_trans2 power_increasing)
  ultimately show False by (simp add: bit_iff_odd)
qed

lemma page_aligned_bit: "page_aligned a \<longleftrightarrow> (\<forall>k < 12. \<not> bit a k)"
proof -
  have "page_aligned a \<longleftrightarrow> unat (a AND mask 12) = 0"
    unfolding AND_mask_mod page_aligned_unat by simp
  also have "\<dots> \<longleftrightarrow> a AND mask 12 = 0" by (simp only: unat_eq_0)
  also have "\<dots> \<longleftrightarrow> (\<forall>k < 12. \<not> bit a k)"
  proof
    assume z: "a AND mask 12 = 0"
    have "bit (a AND mask 12) k \<longleftrightarrow> bit a k" if "k < 12" for k
      using that by (simp add: bit_and_iff bit_mask_iff)
    with z show "\<forall>k < 12. \<not> bit a k" by simp
  next
    assume "\<forall>k < 12. \<not> bit a k"
    then show "a AND mask 12 = 0"
      by (intro bit_word_eqI) (auto simp: bit_and_iff bit_mask_iff)
  qed
  finally show ?thesis .
qed

lemma PTE2PA_PA2PTE:
  assumes "page_aligned pa" and "unat pa < 2 ^ 56" and "unat fl < 2 ^ 10"
  shows "PTE2PA (PA2PTE pa OR fl) = pa"
proof (rule bit_word_eqI)
  fix k
  assume "k < LENGTH(64)"
  moreover have "bit pa k \<Longrightarrow> 12 + (k - 12) = k"
    using assms(1) by (metis le_add_diff_inverse not_less page_aligned_bit)
  ultimately show "bit (PTE2PA (PA2PTE pa OR fl)) k = bit pa k"
    using assms(1) word_less_exp_bit [OF assms(2), of k] word_less_exp_bit [OF assms(3), of "k - 2"]
    by (auto simp: PTE2PA_def PA2PTE_def page_aligned_bit bit_push_bit_iff bit_drop_bit_eq bit_or_iff
        not_less simp del: bit_unsigned_iff)
qed

lemma PTE_FLAGS_PA2PTE:
  assumes "unat fl < 2 ^ 10"
  shows "PTE_FLAGS (PA2PTE pa OR fl) = fl"
proof -
  have m: "(0x3FF :: u64) = mask 10" by (simp add: mask_eq_exp_minus_1)
  show ?thesis
    unfolding PTE_FLAGS_def m
    by (rule bit_word_eqI)
      (auto simp: PA2PTE_def bit_and_iff bit_or_iff bit_push_bit_iff bit_mask_iff
        dest: word_less_exp_bit [OF assms])
qed

lemma PTE2PA_aligned [simp]: "page_aligned (PTE2PA pte)"
  by (simp add: page_aligned_bit PTE2PA_def bit_push_bit_iff)

subsection \<open>Page table indices\<close>

lemma PX_mask: "PX l va = drop_bit (12 + 9 * l) va AND mask 9"
  by (simp add: PX_def PXSHIFT_def mask_eq_exp_minus_1)

lemma unat_PX: "unat (PX l va) = unat va div 2 ^ (12 + 9 * l) mod 512"
  unfolding PX_mask AND_mask_mod unat_drop_bit_eq by (simp add: drop_bit_eq_div [where 'a = nat])

lemma PX_less [simp]: "unat (PX l va) < 512"
  by (simp add: unat_PX)

lemma bit_PX: "bit (PX l va) k \<longleftrightarrow> k < 9 \<and> bit va (12 + 9 * l + k)"
  by (auto simp: PX_mask bit_and_iff bit_drop_bit_eq bit_mask_iff dest: bit_imp_le_length)

text \<open>
  A page-aligned virtual address below \<open>MAXVA\<close> is determined by its three indices: no two pages
  share a leaf entry.
\<close>

lemma PX_inj:
  assumes "page_aligned va" "page_aligned vb" "unat va < 2 ^ 38" "unat vb < 2 ^ 38"
    and "PX 2 va = PX 2 vb" "PX 1 va = PX 1 vb" "PX 0 va = PX 0 vb"
  shows "va = vb"
proof (rule bit_word_eqI)
  fix k
  assume "k < LENGTH(64)"
  have px: "bit va (12 + 9 * l + j) = bit vb (12 + 9 * l + j)" if "l \<le> 2" "j < 9" for l j
  proof -
    from that(1) have "l = 0 \<or> l = 1 \<or> l = 2" by auto
    with assms(5-7) have "PX l va = PX l vb" by auto
    then have "bit (PX l va) j = bit (PX l vb) j" by simp
    with that(2) show ?thesis by (simp add: bit_PX)
  qed
  show "bit va k = bit vb k"
  proof (cases "k < 12")
    case True
    with assms(1,2) show ?thesis by (simp add: page_aligned_bit)
  next
    case False
    show ?thesis
    proof (cases "k < 39")
      case True
      let ?l = "(k - 12) div 9" and ?j = "(k - 12) mod 9"
      have "?l \<le> 2" using True by simp
      moreover have "12 + 9 * ?l + ?j = k" using False by simp
      ultimately show ?thesis using px [of ?l ?j] by simp
    next
      case big: False
      with word_less_exp_bit [OF assms(3), of k] word_less_exp_bit [OF assms(4), of k]
      show ?thesis by auto
    qed
  qed
qed

end
