(* ===== verification/Kalloc.thy ===== *)
theory Kalloc
  imports Kstring Riscv
begin

section \<open>kalloc.c: the physical page allocator\<close>

text \<open>
  The state of \<open>kernel/kalloc.c\<close> is the head of a free list that is threaded through the free pages
  themselves: \<open>struct run\<close> is the next pointer in the first eight bytes of a free page. The record
  \<open>pmem\<close> adds physical memory, that head, the link-time address \<open>end\<close> (\<open>kend\<close>) and the build flag
  \<open>LAB_SYSCALL\<close>, under which pages are not filled with junk. \<open>kmem_inv s ps\<close> says that the free list
  of \<open>s\<close> is the list of pages \<open>ps\<close>; the operations are pushes and pops of that list, and they touch
  no byte outside the page they handle.
\<close>

record pmem = kbase +
  mem :: mem
  freelist :: u64
  kend :: u64
  lab_syscall :: bool

subsection \<open>The operations\<close>

definition kfree :: "u64 \<Rightarrow> 'z pmem_scheme \<Rightarrow> ('z pmem_scheme, unit) outcome" where
  "kfree pa s =
     (if pa mod PGSIZE \<noteq> 0 \<or> pa < kend s \<or> PHYSTOP \<le> pa then Panic ''kfree''
      else
        let s = (if lab_syscall s then s else s\<lparr>mem := memset pa 1 4096 (mem s)\<rparr>) in
        bnd (acquire KmemLock s) (\<lambda>_ s.
          release KmemLock (s\<lparr>mem := store64 pa (freelist s) (mem s), freelist := pa\<rparr>)))"

definition kalloc :: "'z pmem_scheme \<Rightarrow> ('z pmem_scheme, u64) outcome" where
  "kalloc s =
     bnd (acquire KmemLock s) (\<lambda>_ s.
       let r = freelist s;
           s = (if r \<noteq> 0 then s\<lparr>freelist := load64 (mem s) r\<rparr> else s)
       in bnd (release KmemLock s) (\<lambda>_ s.
         Done r (if \<not> lab_syscall s \<and> r \<noteq> 0 then s\<lparr>mem := memset r 5 4096 (mem s)\<rparr> else s)))"

text \<open>
  The loop of \<open>freerange\<close>. It ends because \<open>kfree\<close> panics at \<open>PHYSTOP\<close>, before the pointer can
  wrap.
\<close>

lemma kfree_Done_bound: "kfree pa s = Done u t \<Longrightarrow> unat pa < 0x88000000"
  by (simp add: kfree_def word_le_nat_alt not_le split: if_splits)

function freerange_loop :: "u64 \<Rightarrow> u64 \<Rightarrow> 'z pmem_scheme \<Rightarrow> ('z pmem_scheme, unit) outcome" where
  "freerange_loop p pa_end s =
     (if p + PGSIZE \<le> pa_end
      then bnd (kfree p s) (\<lambda>_ s. freerange_loop (p + PGSIZE) pa_end s)
      else Done () s)"
  by pat_completeness auto
termination
proof (relation "measure (\<lambda>(p, pa_end, s). 2 ^ 64 - unat p)")
  fix p pa_end :: u64 and s t :: "'z pmem_scheme" and u :: unit
  assume "kfree p s = Done u t"
  then have "unat p < 0x88000000" by (rule kfree_Done_bound)
  moreover from this have "unat (p + 4096) = unat p + 4096"
    by (subst unat_add64) simp_all
  ultimately show "((p + PGSIZE, pa_end, t), p, pa_end, s) \<in> measure (\<lambda>(p, pa_end, s). 2 ^ 64 - unat p)"
    by simp
qed simp

declare freerange_loop.simps [simp del]

definition freerange :: "u64 \<Rightarrow> u64 \<Rightarrow> 'z pmem_scheme \<Rightarrow> ('z pmem_scheme, unit) outcome" where
  "freerange pa_start pa_end s = freerange_loop (PGROUNDUP pa_start) pa_end s"

definition kinit :: "'z pmem_scheme \<Rightarrow> ('z pmem_scheme, unit) outcome" where
  "kinit s = freerange (kend s) PHYSTOP s"

subsection \<open>The free list as a list of pages\<close>

primrec free_chain :: "mem \<Rightarrow> u64 \<Rightarrow> u64 list \<Rightarrow> bool" where
  "free_chain m p [] \<longleftrightarrow> p = 0"
| "free_chain m p (a # as) \<longleftrightarrow> p = a \<and> free_chain m (load64 m a) as"

definition valid_page :: "u64 \<Rightarrow> u64 \<Rightarrow> bool" where
  "valid_page e a \<longleftrightarrow> page_aligned a \<and> e \<le> a \<and> a < PHYSTOP"

definition kmem_inv :: "'z pmem_scheme \<Rightarrow> u64 list \<Rightarrow> bool" where
  "kmem_inv s ps \<longleftrightarrow>
     0 < kend s \<and> free_chain (mem s) (freelist s) ps \<and> distinct ps \<and>
     (\<forall>a \<in> set ps. valid_page (kend s) a)"

definition in_page :: "u64 \<Rightarrow> u64 \<Rightarrow> bool" where
  "in_page a x \<longleftrightarrow> unat (x - a) < 4096"

text \<open>\<open>pages_same A s t\<close>: the two states have the same memory outside the pages \<open>A\<close>.\<close>

definition same_outside :: "u64 set \<Rightarrow> mem \<Rightarrow> mem \<Rightarrow> bool" where
  "same_outside A m m' \<longleftrightarrow> (\<forall>x. (\<forall>a \<in> A. \<not> in_page a x) \<longrightarrow> m' x = m x)"

lemma valid_page_nonzero: "0 < e \<Longrightarrow> valid_page e a \<Longrightarrow> a \<noteq> 0"
  by (auto simp: valid_page_def)

lemma in_page_iff: "page_aligned a \<Longrightarrow> in_page a x \<longleftrightarrow> PGROUNDDOWN x = a"
proof
  assume a: "page_aligned a" and "in_page a x"
  define k where "k = unat (x - a)"
  have k: "k < 4096" using \<open>in_page a x\<close> by (simp add: k_def in_page_def)
  have x: "x = a + of_nat k"
    by (rule word_offset_iff [THEN iffD1, OF _ k_def [symmetric]]) (use k in simp)
  have "unat a + k < 2 ^ 64"
    using a k by (intro aligned_add_less [of 4096]) (simp_all add: page_aligned_unat dvd_eq_mod_eq_0)
  then have "unat x = unat a + k" using x by (simp add: unat_of_nat_add)
  moreover have "(y + k) div 4096 * 4096 = y" if "y mod 4096 = 0" for y :: nat
    using that k by (simp add: div_add1_eq mult.commute [of _ 4096] dvd_eq_mod_eq_0 [symmetric])
  ultimately show "PGROUNDDOWN x = a"
    using a by (simp add: word_unat_eq_iff unat_PGROUNDDOWN page_aligned_unat)
next
  assume "PGROUNDDOWN x = a"
  then show "in_page a x" by (auto simp: in_page_def PGROUNDDOWN_offset)
qed

lemma in_page_disjoint:
  "page_aligned a \<Longrightarrow> page_aligned b \<Longrightarrow> a \<noteq> b \<Longrightarrow> in_page a x \<Longrightarrow> \<not> in_page b x"
  by (auto simp: in_page_iff)

lemma in_page_low: "k < 4096 \<Longrightarrow> in_page a (a + of_nat k)"
  by (simp add: in_page_def unat_of_nat)

lemma load64_same_outside:
  assumes "same_outside A m m'" and "page_aligned b" and "\<forall>a \<in> A. page_aligned a" and "b \<notin> A"
  shows "load64 m' b = load64 m b"
proof (rule load64_cong)
  fix k :: nat
  assume "k < 8"
  then have "in_page b (b + of_nat k)" by (intro in_page_low) simp
  with assms have "\<forall>a \<in> A. \<not> in_page a (b + of_nat k)"
    by (metis in_page_disjoint)
  with assms(1) show "m' (b + of_nat k) = m (b + of_nat k)"
    by (auto simp: same_outside_def)
qed

lemma free_chain_frame:
  assumes "same_outside A m m'" and "\<forall>a \<in> A. page_aligned a"
    and "\<forall>b \<in> set ps. page_aligned b" and "set ps \<inter> A = {}"
  shows "free_chain m' p ps = free_chain m p ps"
  using assms(3,4)
  by (induction ps arbitrary: p) (auto simp: load64_same_outside [OF assms(1) _ assms(2)])

lemma same_outside_refl [simp]: "same_outside A m m"
  by (simp add: same_outside_def)

lemma same_outside_trans:
  "same_outside A m m' \<Longrightarrow> same_outside B m' m'' \<Longrightarrow> same_outside (A \<union> B) m m''"
  by (auto simp: same_outside_def)

lemma same_outside_mono: "same_outside A m m' \<Longrightarrow> A \<subseteq> B \<Longrightarrow> same_outside B m m'"
  by (auto simp: same_outside_def)

lemma same_outside_memset_page: "same_outside {a} m (memset a c 4096 m)"
  by (auto simp: same_outside_def memset_apply in_page_def)

lemma same_outside_store64_page: "same_outside {a} m (store64 a w m)"
  by (auto simp: same_outside_def in_page_def store64_frame)

lemma memset_page_fill: "k < 4096 \<Longrightarrow> memset a c 4096 m (a + of_nat k) = word_of_int c"
  by (simp add: memset_apply unat_of_nat)

subsection \<open>Push and pop\<close>

lemma kfree_spec:
  assumes inv: "kmem_inv s ps" and a: "valid_page (kend s) a" "a \<notin> set ps"
    and lock: "KmemLock \<notin> set (held s)"
  obtains m where "kfree a s = Done () (s\<lparr>mem := m, freelist := a\<rparr>)"
    and "same_outside {a} (mem s) m" and "load64 m a = freelist s"
proof
  let ?junk = "if lab_syscall s then mem s else memset a 1 4096 (mem s)"
  let ?m = "store64 a (freelist s) ?junk"
  show "kfree a s = Done () (s\<lparr>mem := ?m, freelist := a\<rparr>)"
    using a lock unfolding kfree_def valid_page_def page_aligned_def
    by (auto simp: not_less not_le lock_simps acquire_free release_head)
  have "same_outside {a} (mem s) ?junk"
    by (simp add: same_outside_memset_page)
  then have "same_outside ({a} \<union> {a}) (mem s) ?m"
    by (rule same_outside_trans) (rule same_outside_store64_page)
  then show "same_outside {a} (mem s) ?m" by (simp only: Un_absorb)
  show "load64 ?m a = freelist s" by simp
qed

lemma kfree_inv:
  assumes inv: "kmem_inv s ps" and a: "valid_page (kend s) a" "a \<notin> set ps"
    and lock: "KmemLock \<notin> set (held s)"
  shows "returns (\<lambda>_ t. kmem_inv t (a # ps) \<and> same_outside {a} (mem s) (mem t) \<and>
    held t = held s \<and> kend t = kend s \<and> lab_syscall t = lab_syscall s) (kfree a s)"
proof -
  from kfree_spec [OF assms] obtain m where
    m: "kfree a s = Done () (s\<lparr>mem := m, freelist := a\<rparr>)" "same_outside {a} (mem s) m"
      "load64 m a = freelist s" .
  have "free_chain m (freelist s) ps = free_chain (mem s) (freelist s) ps"
    using m(2) inv a by (intro free_chain_frame) (auto simp: kmem_inv_def valid_page_def)
  with m inv a show ?thesis by (auto simp: kmem_inv_def)
qed

lemma kalloc_empty:
  assumes "kmem_inv s []" and "KmemLock \<notin> set (held s)"
  shows "kalloc s = Done 0 s"
  using assms unfolding kalloc_def kmem_inv_def by (simp add: acquire_free release_head)

lemma kalloc_inv:
  assumes inv: "kmem_inv s (a # ps)" and lock: "KmemLock \<notin> set (held s)"
  shows "\<exists>t. kalloc s = Done a t \<and> kmem_inv t ps \<and> same_outside {a} (mem s) (mem t) \<and>
    held t = held s \<and> kend t = kend s \<and> lab_syscall t = lab_syscall s"
proof -
  have a: "freelist s = a" "a \<noteq> 0" "valid_page (kend s) a" "a \<notin> set ps"
    using inv valid_page_nonzero by (auto simp: kmem_inv_def)
  let ?m = "if lab_syscall s then mem s else memset a 5 4096 (mem s)"
  let ?t = "s\<lparr>freelist := load64 (mem s) a, mem := ?m\<rparr>"
  have run: "kalloc s = Done a ?t"
    using lock a unfolding kalloc_def by (simp add: acquire_free release_head)
  have same: "same_outside {a} (mem s) ?m"
    by (simp add: same_outside_memset_page)
  have "free_chain ?m (load64 (mem s) a) ps = free_chain (mem s) (load64 (mem s) a) ps"
    using same a inv by (intro free_chain_frame) (auto simp: kmem_inv_def valid_page_def)
  with inv have "kmem_inv ?t ps" by (auto simp: kmem_inv_def)
  with run same show ?thesis by (intro exI [of _ ?t]) simp
qed

text \<open>Whatever happens, only memory and the head of the free list change.\<close>

lemma kalloc_frame:
  assumes "kalloc s = Done r t"
  shows "t = s\<lparr>mem := mem t, freelist := freelist t\<rparr>"
  using assms unfolding kalloc_def acquire_def release_def
  by (auto simp: Let_def split: if_splits)

lemma kfree_frame:
  assumes "kfree a s = Done u t"
  shows "t = s\<lparr>mem := mem t, freelist := freelist t\<rparr>"
  using assms unfolding kfree_def acquire_def release_def
  by (auto simp: Let_def split: if_splits)

subsection \<open>The interface the rest of the kernel relies on\<close>

text \<open>
  What page tables, processes and pipes need of a page allocator: a page handed out was free and is
  not free any more, a page given back is free again, and no page is handed out twice.
\<close>

locale page_pool =
  fixes alloc :: "'s \<Rightarrow> ('s, u64) outcome"
    and free :: "u64 \<Rightarrow> 's \<Rightarrow> ('s, unit) outcome"
    and pool :: "'s \<Rightarrow> u64 list \<Rightarrow> bool"
    and ok_page :: "'s \<Rightarrow> u64 \<Rightarrow> bool"
  assumes alloc_some:
      "pool s (a # ps) \<Longrightarrow> \<exists>t. alloc s = Done a t \<and> pool t ps \<and> (\<forall>x. ok_page t x = ok_page s x)"
    and alloc_none: "pool s [] \<Longrightarrow> alloc s = Done 0 s"
    and free_ok:
      "pool s ps \<Longrightarrow> ok_page s a \<Longrightarrow> a \<notin> set ps \<Longrightarrow>
        \<exists>t. free a s = Done () t \<and> pool t (a # ps) \<and> (\<forall>x. ok_page t x = ok_page s x)"
    and pool_pages: "pool s ps \<Longrightarrow> distinct ps \<and> (\<forall>a \<in> set ps. ok_page s a \<and> a \<noteq> 0)"
begin

lemma alloc_total: "pool s ps \<Longrightarrow> \<exists>r t. alloc s = Done r t"
  using alloc_some alloc_none by (cases ps) blast+

lemma alloc_returns_free: "pool s ps \<Longrightarrow> alloc s = Done r t \<Longrightarrow> r \<noteq> 0 \<Longrightarrow> r \<in> set ps \<and> ok_page s r"
  using alloc_some [of s] alloc_none [of s] pool_pages [of s ps] by (cases ps) fastforce+

lemma alloc_zero_iff: "pool s ps \<Longrightarrow> alloc s = Done r t \<Longrightarrow> r = 0 \<longleftrightarrow> ps = []"
  using alloc_some [of s] alloc_none [of s] pool_pages [of s ps] by (cases ps) fastforce+

lemma alloc_twice_distinct:
  assumes "pool s ps" "alloc s = Done r t" "alloc t = Done r' t'" "r \<noteq> 0"
  shows "r' \<noteq> r"
proof -
  obtain qs where ps: "ps = r # qs"
    using assms alloc_some [of s] alloc_none [of s] by (cases ps) fastforce+
  with assms alloc_some [of s r qs] have t: "pool t qs" by auto
  show ?thesis
  proof (cases "r' = 0")
    case True
    with assms show ?thesis by simp
  next
    case False
    with alloc_returns_free [OF t assms(3)] pool_pages [OF assms(1)] ps show ?thesis by auto
  qed
qed

lemma alloc_free_restores:
  assumes "pool s ps" "alloc s = Done r t" "r \<noteq> 0"
  shows "\<exists>u. free r t = Done () u \<and> pool u ps"
proof -
  obtain qs where ps: "ps = r # qs"
    using assms alloc_some [of s] alloc_none [of s] by (cases ps) fastforce+
  with assms alloc_some [of s r qs] have t: "pool t qs" "\<And>x. ok_page t x = ok_page s x" by auto
  have "ok_page t r" "r \<notin> set qs" using pool_pages [OF assms(1)] ps t(2) by auto
  with free_ok [OF t(1)] ps show ?thesis by auto
qed

lemma free_alloc_roundtrip:
  assumes "pool s ps" "ok_page s a" "a \<notin> set ps"
  shows "\<exists>t u. free a s = Done () t \<and> alloc t = Done a u \<and> pool u ps"
  using free_ok [OF assms] alloc_some by blast

end

definition kpool_inv :: "'z pmem_scheme \<Rightarrow> u64 list \<Rightarrow> bool" where
  "kpool_inv s ps \<longleftrightarrow> kmem_inv s ps \<and> KmemLock \<notin> set (held s)"

definition kpage :: "'z pmem_scheme \<Rightarrow> u64 \<Rightarrow> bool" where
  "kpage s a \<longleftrightarrow> valid_page (kend s) a"

interpretation kpool: page_pool kalloc kfree kpool_inv kpage
proof
  fix s :: "'z pmem_scheme" and a ps
  show "kpool_inv s (a # ps) \<Longrightarrow>
      \<exists>t. kalloc s = Done a t \<and> kpool_inv t ps \<and> (\<forall>x. kpage t x = kpage s x)"
    using kalloc_inv [of s a ps] by (auto simp: kpool_inv_def kpage_def)
  show "kpool_inv s [] \<Longrightarrow> kalloc s = Done 0 s"
    by (simp add: kpool_inv_def kalloc_empty)
  show "kpool_inv s ps \<Longrightarrow> kpage s a \<Longrightarrow> a \<notin> set ps \<Longrightarrow>
      \<exists>t. kfree a s = Done () t \<and> kpool_inv t (a # ps) \<and> (\<forall>x. kpage t x = kpage s x)"
    using kfree_inv [of s ps a] by (auto simp: kpool_inv_def kpage_def returns_def)
  show "kpool_inv s ps \<Longrightarrow> distinct ps \<and> (\<forall>a \<in> set ps. kpage s a \<and> a \<noteq> 0)"
    using valid_page_nonzero by (auto simp: kpool_inv_def kpage_def kmem_inv_def)
qed

subsection \<open>Building the free list at boot\<close>

definition page_range :: "u64 \<Rightarrow> nat \<Rightarrow> u64 list" where
  "page_range p n = map (\<lambda>i. p + of_nat (i * 4096)) [0..<n]"

lemma page_range_Suc: "page_range p (Suc n) = p # page_range (p + 4096) n"
  by (rule nth_equalityI)
    (auto simp: page_range_def nth_Cons algebra_simps simp del: upt_Suc split: nat.split)

lemma freerange_loop_inv:
  assumes "kpool_inv s ps" and "page_aligned p" and "kend s \<le> p"
    and "unat p + n * 4096 \<le> unat pa_end" and "unat pa_end < unat p + Suc n * 4096"
    and "pa_end \<le> PHYSTOP" and "\<forall>a \<in> set ps. unat a < unat p"
  shows "returns (\<lambda>_ t. kpool_inv t (rev (page_range p n) @ ps)) (freerange_loop p pa_end s)"
  using assms
proof (induction n arbitrary: s ps p)
  case 0
  have top: "unat pa_end \<le> 0x88000000" using 0 by (simp add: word_le_nat_alt)
  have "unat (p + 4096) = unat p + 4096"
    by (subst unat_add64) (use 0 top in simp_all)
  then have "\<not> p + PGSIZE \<le> pa_end" using 0 by (simp add: word_le_nat_alt)
  with 0 show ?case by (simp add: freerange_loop.simps [of p] page_range_def)
next
  case (Suc n)
  have top: "unat pa_end \<le> 0x88000000" using Suc.prems by (simp add: word_le_nat_alt)
  have up: "unat (p + 4096) = unat p + 4096"
    by (subst unat_add64) (use Suc.prems top in simp_all)
  have page: "kpage s p" "p \<notin> set ps"
    using Suc.prems top by (auto simp: kpage_def valid_page_def word_less_nat_alt)
  obtain t where t: "kfree p s = Done () t" "kpool_inv t (p # ps)" "kend t = kend s"
    using kfree_inv [of s ps p] page Suc.prems(1)
    by (auto simp: kpool_inv_def kpage_def returns_def)
  have "returns (\<lambda>_ t. kpool_inv t (rev (page_range (p + 4096) n) @ p # ps))
      (freerange_loop (p + 4096) pa_end t)"
  proof (rule Suc.IH)
    show "page_aligned (p + 4096)"
      using Suc.prems(2) up by (simp add: page_aligned_unat mod_add_self2)
    show "kend t \<le> p + 4096"
      using Suc.prems(3) up t(3) by (simp add: word_le_nat_alt)
  qed (use Suc.prems up t in auto)
  moreover have "p + PGSIZE \<le> pa_end" using Suc.prems up by (simp add: word_le_nat_alt)
  ultimately show ?case
    by (simp add: freerange_loop.simps [of p] t(1) page_range_Suc)
qed

text \<open>
  C26: \<open>kinit\<close>, run at boot with an empty free list, does not panic and leaves a well-formed free
  list: it holds every page between the end of the kernel, rounded up to a page, and \<open>PHYSTOP\<close>,
  each exactly once, the highest first.
\<close>
theorem kinit_builds_pool:
  assumes "KmemLock \<notin> set (held s)" and "freelist s = 0" and "KERNBASE \<le> kend s" and "kend s < PHYSTOP"
  shows "returns (\<lambda>_ t. kpool_inv t
      (rev (page_range (PGROUNDUP (kend s)) ((unat PHYSTOP - unat (PGROUNDUP (kend s))) div 4096))))
    (kinit s)"
proof -
  let ?p = "PGROUNDUP (kend s)" and ?e = "unat (kend s)"
  have e: "0x80000000 \<le> ?e" "?e < 0x88000000"
    using assms(3,4) by (simp_all add: word_le_nat_alt word_less_nat_alt)
  have p: "unat ?p = (?e + 4095) div 4096 * 4096"
    by (rule unat_PGROUNDUP) (use e in simp)
  have "?e + 4095 < (?e + 4095) div 4096 * 4096 + 4096"
    using mod_less_divisor [of 4096 "?e + 4095"] div_mult_mod_eq [of "?e + 4095" 4096] by linarith
  moreover have "(?e + 4095) div 4096 \<le> (0x88000000 + 4095) div 4096"
    by (rule div_le_mono) (use e in simp)
  then have "(?e + 4095) div 4096 * 4096 \<le> 0x88000000" by simp
  ultimately have bounds: "?e \<le> unat ?p" "unat ?p \<le> 0x88000000" unfolding p by linarith+
  have "kpool_inv s []"
    using assms e by (auto simp: kpool_inv_def kmem_inv_def word_less_nat_alt)
  then have "returns (\<lambda>_ t. kpool_inv t (rev (page_range ?p ((0x88000000 - unat ?p) div 4096)) @ []))
      (freerange_loop ?p PHYSTOP s)"
  proof (rule freerange_loop_inv)
    show "kend s \<le> ?p" using bounds by (simp add: word_le_nat_alt)
    show "unat ?p + (0x88000000 - unat ?p) div 4096 * 4096 \<le> unat PHYSTOP"
      using bounds by simp
    have "0x88000000 - unat ?p < Suc ((0x88000000 - unat ?p) div 4096) * 4096"
      by (simp add: dividend_less_div_times add.commute mult.commute)
    then show "unat PHYSTOP < unat ?p + Suc ((0x88000000 - unat ?p) div 4096) * 4096"
      using bounds by simp
  qed simp_all
  then show ?thesis by (simp add: kinit_def freerange_def)
qed

lemma kinit_builds_pool_witness:
  "returns (\<lambda>_ t. kpool_inv t [0x87FFF000, 0x87FFE000])
    (kinit \<lparr>held = [], console_out = [], mem = (\<lambda>_. 7), freelist = 0, kend = 0x87FFD123, lab_syscall = False\<rparr>)"
proof -
  have up: "PGROUNDUP 0x87FFD123 = 0x87FFE000" by (simp add: PGROUNDUP_def)
  have "rev (page_range 0x87FFE000 2) = [0x87FFF000, 0x87FFE000]"
    by (simp add: page_range_def upt_rec)
  then show ?thesis
    using kinit_builds_pool [of "\<lparr>held = [], console_out = [], mem = (\<lambda>_. 7), freelist = 0,
      kend = 0x87FFD123, lab_syscall = False\<rparr>"] by (simp add: up)
qed

end
