(* ===== verification/Procdata.thy ===== *)
theory Procdata
  imports Kalloc
begin

section \<open>proc.h: the process table\<close>

text \<open>
  The data of \<open>kernel/proc.h\<close> and the globals of \<open>kernel/proc.c\<close>. A pointer to a process is its
  index in \<open>proc[NPROC]\<close>, a pointer to a file or an inode its index in the file or inode table. The
  trap frame is a page of physical memory: its fields are read and written through the byte memory
  at the offsets of \<open>struct trapframe\<close>. The record \<open>ptab\<close> adds to the state the table, \<open>nextpid\<close>,
  \<open>initproc\<close>, the process this CPU runs (\<open>mycpu()->proc\<close>), its interrupt enable bit, and the
  globals of \<open>vm.c\<close>: the kernel page table and the page-table register of this CPU.
\<close>

datatype procstate = UNUSED | USED | SLEEPING | RUNNABLE | RUNNING | ZOMBIE

record kcontext =
  c_ra :: u64
  c_sp :: u64
  c_s0 :: u64
  c_s1 :: u64
  c_s2 :: u64
  c_s3 :: u64
  c_s4 :: u64
  c_s5 :: u64
  c_s6 :: u64
  c_s7 :: u64
  c_s8 :: u64
  c_s9 :: u64
  c_s10 :: u64
  c_s11 :: u64

definition zero_context :: kcontext where
  "zero_context = \<lparr>c_ra = 0, c_sp = 0, c_s0 = 0, c_s1 = 0, c_s2 = 0, c_s3 = 0, c_s4 = 0, c_s5 = 0,
     c_s6 = 0, c_s7 = 0, c_s8 = 0, c_s9 = 0, c_s10 = 0, c_s11 = 0\<rparr>"

record proc =
  p_state :: procstate
  p_chan :: "chan option"
  p_killed :: int
  p_xstate :: int
  p_pid :: int
  p_parent :: "nat option"
  p_kstack :: u64
  p_sz :: u64
  p_pagetable :: u64
  p_trapframe :: u64
  p_context :: kcontext
  p_ofile :: "nat option list"
  p_cwd :: "nat option"
  p_name :: "u8 list"
  p_monitor_mask :: u32

text \<open>A slot of the table as the C runtime leaves it: all zero (\<open>UNUSED\<close> is 0).\<close>

definition zero_proc :: proc where
  "zero_proc = \<lparr>p_state = UNUSED, p_chan = None, p_killed = 0, p_xstate = 0, p_pid = 0,
     p_parent = None, p_kstack = 0, p_sz = 0, p_pagetable = 0, p_trapframe = 0,
     p_context = zero_context, p_ofile = replicate 16 None, p_cwd = None,
     p_name = replicate 16 0, p_monitor_mask = 0\<rparr>"

abbreviation NPROC :: nat where "NPROC \<equiv> 64"
abbreviation NOFILE :: nat where "NOFILE \<equiv> 16"

text \<open>The addresses of kernel symbols the C code takes: the linker fixes them.\<close>

record ksyms =
  sym_etext :: u64
  sym_trampoline :: u64
  sym_uservec :: u64
  sym_userret :: u64
  sym_forkret :: u64
  sym_usertrap :: u64
  sym_kernelvec :: u64

record ptab = pmem +
  procs :: "proc list"
  nextpid :: int
  initproc :: "nat option"
  cur :: "nat option"
  intr_on :: bool
  kernel_pagetable :: u64
  satp :: u64
  syms :: ksyms

text \<open>
  \<open>the_proc s i\<close> is \<open>proc[i]\<close> and \<open>upd_proc i f\<close> an assignment to its fields. \<open>myproc\<close> is the
  process of this CPU; code that dereferences \<open>myproc()\<close> without one would fault, so the callers
  below bind it with \<open>with_myproc\<close>, whose \<open>None\<close> case is the kernel's trap panic.
\<close>

abbreviation the_proc :: "'z ptab_scheme \<Rightarrow> nat \<Rightarrow> proc" where
  "the_proc s i \<equiv> procs s ! i"

definition upd_proc :: "nat \<Rightarrow> (proc \<Rightarrow> proc) \<Rightarrow> 'z ptab_scheme \<Rightarrow> 'z ptab_scheme" where
  "upd_proc i f s = s\<lparr>procs := (procs s)[i := f (procs s ! i)]\<rparr>"

definition with_myproc ::
  "('z ptab_scheme \<Rightarrow> nat \<Rightarrow> ('z ptab_scheme, 'a) outcome) \<Rightarrow>
    'z ptab_scheme \<Rightarrow> ('z ptab_scheme, 'a) outcome" where
  "with_myproc f s = (case cur s of None \<Rightarrow> Panic ''kerneltrap'' | Some i \<Rightarrow> f s i)"

lemma with_myproc_Some [simp]: "cur s = Some i \<Longrightarrow> with_myproc f s = f s i"
  by (simp add: with_myproc_def)

lemma procs_upd_proc [simp]: "procs (upd_proc i f s) = (procs s)[i := f (procs s ! i)]"
  by (simp add: upd_proc_def)

lemma upd_proc_frame [simp]:
  "held (upd_proc i f s) = held s"
  "console_out (upd_proc i f s) = console_out s"
  "mem (upd_proc i f s) = mem s"
  "freelist (upd_proc i f s) = freelist s"
  "kend (upd_proc i f s) = kend s"
  "lab_syscall (upd_proc i f s) = lab_syscall s"
  "nextpid (upd_proc i f s) = nextpid s"
  "initproc (upd_proc i f s) = initproc s"
  "cur (upd_proc i f s) = cur s"
  "intr_on (upd_proc i f s) = intr_on s"
  "kernel_pagetable (upd_proc i f s) = kernel_pagetable s"
  "satp (upd_proc i f s) = satp s"
  "syms (upd_proc i f s) = syms s"
  "ptab.more (upd_proc i f s) = ptab.more s"
  by (simp_all add: upd_proc_def)

lemma the_proc_upd_same [simp]:
  "i < length (procs s) \<Longrightarrow> the_proc (upd_proc i f s) i = f (the_proc s i)"
  by simp

lemma the_proc_upd_other [simp]:
  "i \<noteq> j \<Longrightarrow> the_proc (upd_proc i f s) j = the_proc s j"
  by simp

lemma upd_proc_upd_proc [simp]:
  "upd_proc i f (upd_proc i g s) = upd_proc i (\<lambda>p. f (g p)) s"
  by (cases "i < length (procs s)") (simp_all add: upd_proc_def list_update_beyond)

lemma upd_proc_cong:
  "f (procs s ! i) = g (procs s ! i) \<Longrightarrow> upd_proc i f s = upd_proc i g s"
  by (simp add: upd_proc_def)

lemma upd_proc_id: "f (procs s ! i) = procs s ! i \<Longrightarrow> upd_proc i f s = s"
  by (simp add: upd_proc_def)

subsection \<open>The trap frame\<close>

text \<open>Byte offsets of the fields of \<open>struct trapframe\<close>, and its registers in memory.\<close>

datatype tfreg =
    TfKernelSatp | TfKernelSp | TfKernelTrap | TfEpc | TfKernelHartid
  | TfRa | TfSp | TfGp | TfTp | TfT0 | TfT1 | TfT2 | TfS0 | TfS1
  | TfA0 | TfA1 | TfA2 | TfA3 | TfA4 | TfA5 | TfA6 | TfA7
  | TfS2 | TfS3 | TfS4 | TfS5 | TfS6 | TfS7 | TfS8 | TfS9 | TfS10 | TfS11
  | TfT3 | TfT4 | TfT5 | TfT6

fun tf_offset :: "tfreg \<Rightarrow> u64" where
  "tf_offset TfKernelSatp = 0"
| "tf_offset TfKernelSp = 8"
| "tf_offset TfKernelTrap = 16"
| "tf_offset TfEpc = 24"
| "tf_offset TfKernelHartid = 32"
| "tf_offset TfRa = 40"
| "tf_offset TfSp = 48"
| "tf_offset TfGp = 56"
| "tf_offset TfTp = 64"
| "tf_offset TfT0 = 72"
| "tf_offset TfT1 = 80"
| "tf_offset TfT2 = 88"
| "tf_offset TfS0 = 96"
| "tf_offset TfS1 = 104"
| "tf_offset TfA0 = 112"
| "tf_offset TfA1 = 120"
| "tf_offset TfA2 = 128"
| "tf_offset TfA3 = 136"
| "tf_offset TfA4 = 144"
| "tf_offset TfA5 = 152"
| "tf_offset TfA6 = 160"
| "tf_offset TfA7 = 168"
| "tf_offset TfS2 = 176"
| "tf_offset TfS3 = 184"
| "tf_offset TfS4 = 192"
| "tf_offset TfS5 = 200"
| "tf_offset TfS6 = 208"
| "tf_offset TfS7 = 216"
| "tf_offset TfS8 = 224"
| "tf_offset TfS9 = 232"
| "tf_offset TfS10 = 240"
| "tf_offset TfS11 = 248"
| "tf_offset TfT3 = 256"
| "tf_offset TfT4 = 264"
| "tf_offset TfT5 = 272"
| "tf_offset TfT6 = 280"

definition get_tf :: "u64 \<Rightarrow> tfreg \<Rightarrow> 'z pmem_scheme \<Rightarrow> u64" where
  "get_tf tf r s = load64 (mem s) (tf + tf_offset r)"

definition set_tf :: "u64 \<Rightarrow> tfreg \<Rightarrow> u64 \<Rightarrow> 'z pmem_scheme \<Rightarrow> 'z pmem_scheme" where
  "set_tf tf r v s = s\<lparr>mem := store64 (tf + tf_offset r) v (mem s)\<rparr>"

lemma tf_offset_small: "unat (tf_offset r) \<le> 280 \<and> unat (tf_offset r) mod 8 = 0"
  by (cases r) simp_all

lemma tf_offset_inj: "tf_offset r = tf_offset q \<Longrightarrow> r = q"
  by (cases r; cases q; simp)

lemma get_set_tf_same [simp]: "get_tf tf r (set_tf tf r v s) = v"
  by (simp add: get_tf_def set_tf_def)

lemma set_tf_frame [simp]:
  "held (set_tf tf r v s) = held s"
  "freelist (set_tf tf r v s) = freelist s"
  "kend (set_tf tf r v s) = kend s"
  "lab_syscall (set_tf tf r v s) = lab_syscall s"
  "pmem.more (set_tf tf r v s) = pmem.more s"
  by (simp_all add: set_tf_def)

end
