(* ===== verification/Vm.thy ===== *)
theory Vm
  imports Procdata
begin

section \<open>vm.c: page tables\<close>

text \<open>
  \<open>kernel/vm.c\<close> over the byte memory: a page table is the physical address of its root page, a
  \<open>pte_t *\<close> the physical address of the entry (the kernel maps physical memory one to one), null is
  0. Kernel buffers that \<open>copyout\<close> reads and \<open>copyin\<close> fills are byte lists, because they live in
  kernel variables outside the pages the page tables manage. The code under \<open>LAB_PGTBL\<close> (super
  pages) and \<open>LAB_NET\<close> is not built in this repository and is left out.
\<close>

subsection \<open>walk\<close>

definition pte_at :: "nat \<Rightarrow> u64 \<Rightarrow> u64 \<Rightarrow> u64" where
  "pte_at level pt va = pt + 8 * PX level va"

definition get_pte :: "'z pmem_scheme \<Rightarrow> u64 \<Rightarrow> u64" where
  "get_pte s a = load64 (mem s) a"

definition set_pte :: "u64 \<Rightarrow> u64 \<Rightarrow> 'z pmem_scheme \<Rightarrow> 'z pmem_scheme" where
  "set_pte a w s = s\<lparr>mem := store64 a w (mem s)\<rparr>"

primrec walk_level ::
  "nat \<Rightarrow> u64 \<Rightarrow> u64 \<Rightarrow> bool \<Rightarrow> 'z pmem_scheme \<Rightarrow> ('z pmem_scheme, u64) outcome" where
  "walk_level 0 pt va alloc s = Done (pte_at 0 pt va) s"
| "walk_level (Suc l) pt va alloc s =
     (let pte = pte_at (Suc l) pt va; e = get_pte s pte in
      if e AND PTE_V \<noteq> 0 then walk_level l (PTE2PA e) va alloc s
      else if \<not> alloc then Done 0 s
      else bnd (kalloc s) (\<lambda>new s.
        if new = 0 then Done 0 s
        else walk_level l new va alloc
               (set_pte pte (PA2PTE new OR PTE_V) (s\<lparr>mem := memset new 0 4096 (mem s)\<rparr>))))"

definition walk ::
  "u64 \<Rightarrow> u64 \<Rightarrow> bool \<Rightarrow> 'z pmem_scheme \<Rightarrow> ('z pmem_scheme, u64) outcome" where
  "walk pt va alloc s = (if MAXVA \<le> va then Panic ''walk'' else walk_level 2 pt va alloc s)"

definition walkaddr :: "u64 \<Rightarrow> u64 \<Rightarrow> 'z pmem_scheme \<Rightarrow> ('z pmem_scheme, u64) outcome" where
  "walkaddr pt va s =
     (if MAXVA \<le> va then Done 0 s
      else bnd (walk pt va False s) (\<lambda>pte s.
        if pte = 0 then Done 0 s
        else if get_pte s pte AND PTE_V = 0 then Done 0 s
        else if get_pte s pte AND PTE_U = 0 then Done 0 s
        else Done (PTE2PA (get_pte s pte)) s))"

definition ismapped :: "u64 \<Rightarrow> u64 \<Rightarrow> 'z pmem_scheme \<Rightarrow> ('z pmem_scheme, bool) outcome" where
  "ismapped pt va s =
     bnd (walk pt va False s) (\<lambda>pte s.
       if pte = 0 then Done False s else Done (get_pte s pte AND PTE_V \<noteq> 0) s)"

lemma walk_Done_MAXVA: "walk pt va alloc s = Done r t \<Longrightarrow> va < MAXVA"
  by (simp add: walk_def split: if_splits)

lemma next_page_below_MAXVA:
  assumes "va < MAXVA"
  shows "unat (va + 4096) = unat va + 4096"
  using assms by (subst unat_add64) (simp_all add: word_less_nat_alt MAXVA_def)

subsection \<open>mappages\<close>

function mappages_loop ::
  "u64 \<Rightarrow> u64 \<Rightarrow> u64 \<Rightarrow> u64 \<Rightarrow> u64 \<Rightarrow> 'z pmem_scheme \<Rightarrow> ('z pmem_scheme, int) outcome" where
  "mappages_loop pt a lst pa perm s =
     bnd (walk pt a True s) (\<lambda>pte s.
       if pte = 0 then Done (-1) s
       else if get_pte s pte AND PTE_V \<noteq> 0 then Panic ''mappages: remap''
       else
         let s = set_pte pte (PA2PTE pa OR perm OR PTE_V) s in
         if a = lst then Done 0 s
         else mappages_loop pt (a + PGSIZE) lst (pa + PGSIZE) perm s)"
  by pat_completeness auto
termination
proof (relation "measure (\<lambda>(pt, a, lst, pa, perm, s). 2 ^ 64 - unat a)")
  fix pt a lst pa perm :: u64 and s t t' :: "'z pmem_scheme" and r :: u64
  assume "walk pt a True s = Done r t"
  then have "a < MAXVA" by (rule walk_Done_MAXVA)
  moreover from this have "unat (a + PGSIZE) = unat a + 4096" by (rule next_page_below_MAXVA)
  ultimately show "((pt, a + PGSIZE, lst, pa + PGSIZE, perm, t'), pt, a, lst, pa, perm, s)
      \<in> measure (\<lambda>(pt, a, lst, pa, perm, s). 2 ^ 64 - unat a)"
    by (simp add: word_less_nat_alt MAXVA_def)
qed simp

declare mappages_loop.simps [simp del]

definition mappages ::
  "u64 \<Rightarrow> u64 \<Rightarrow> u64 \<Rightarrow> u64 \<Rightarrow> u64 \<Rightarrow> 'z pmem_scheme \<Rightarrow> ('z pmem_scheme, int) outcome" where
  "mappages pt va sz pa perm s =
     (if va mod PGSIZE \<noteq> 0 then Panic ''mappages: va not aligned''
      else if sz mod PGSIZE \<noteq> 0 then Panic ''mappages: size not aligned''
      else if sz = 0 then Panic ''mappages: size''
      else mappages_loop pt va (va + sz - PGSIZE) pa perm s)"

definition kvmmap ::
  "u64 \<Rightarrow> u64 \<Rightarrow> u64 \<Rightarrow> u64 \<Rightarrow> u64 \<Rightarrow> 'z pmem_scheme \<Rightarrow> ('z pmem_scheme, unit) outcome" where
  "kvmmap pt va pa sz perm s =
     bnd (mappages pt va sz pa perm s) (\<lambda>r s. if r \<noteq> 0 then Panic ''kvmmap'' else Done () s)"

definition uvmcreate :: "'z pmem_scheme \<Rightarrow> ('z pmem_scheme, u64) outcome" where
  "uvmcreate s =
     bnd (kalloc s) (\<lambda>pt s.
       if pt = 0 then Done 0 s else Done pt (s\<lparr>mem := memset pt 0 4096 (mem s)\<rparr>))"

lemma mappages_loop_Done_MAXVA: "mappages_loop pt a lst pa perm s = Done r t \<Longrightarrow> a < MAXVA"
  by (auto simp: mappages_loop.simps [of pt a] dest!: walk_Done_MAXVA)

lemma mappages_Done_MAXVA: "mappages pt a sz pa perm s = Done r t \<Longrightarrow> a < MAXVA"
  by (auto simp: mappages_def dest!: mappages_loop_Done_MAXVA split: if_splits)

subsection \<open>uvmunmap, uvmalloc, uvmdealloc\<close>

function uvmunmap_loop ::
  "u64 \<Rightarrow> u64 \<Rightarrow> u64 \<Rightarrow> bool \<Rightarrow> 'z pmem_scheme \<Rightarrow> ('z pmem_scheme, unit) outcome" where
  "uvmunmap_loop pt a lst do_free s =
     (if \<not> a < lst then Done () s
      else bnd (walk pt a False s) (\<lambda>pte s.
        if pte = 0 then uvmunmap_loop pt (a + PGSIZE) lst do_free s
        else if get_pte s pte AND PTE_V = 0 then uvmunmap_loop pt (a + PGSIZE) lst do_free s
        else if PTE_FLAGS (get_pte s pte) = PTE_V then Panic ''uvmunmap: not a leaf''
        else bnd (if do_free then kfree (PTE2PA (get_pte s pte)) s else Done () s) (\<lambda>_ s.
          uvmunmap_loop pt (a + PGSIZE) lst do_free (set_pte pte 0 s))))"
  by pat_completeness auto
termination
proof (relation "measure (\<lambda>(pt, a, lst, do_free, s). 2 ^ 64 - unat a)")
  fix pt a lst :: u64 and do_free and s t :: "'z pmem_scheme" and r :: u64
  assume "walk pt a False s = Done r t"
  then have "a < MAXVA" by (rule walk_Done_MAXVA)
  moreover from this have "unat (a + PGSIZE) = unat a + 4096" by (rule next_page_below_MAXVA)
  ultimately have less: "2 ^ 64 - unat (a + PGSIZE) < 2 ^ 64 - unat a"
    by (simp add: word_less_nat_alt MAXVA_def)
  then show "((pt, a + PGSIZE, lst, do_free, t), pt, a, lst, do_free, s)
      \<in> measure (\<lambda>(pt, a, lst, do_free, s). 2 ^ 64 - unat a)" by simp
  from less show "((pt, a + PGSIZE, lst, do_free, t), pt, a, lst, do_free, s)
      \<in> measure (\<lambda>(pt, a, lst, do_free, s). 2 ^ 64 - unat a)" by simp
  fix t'
  from less show "((pt, a + PGSIZE, lst, do_free, set_pte r 0 t'), pt, a, lst, do_free, s)
      \<in> measure (\<lambda>(pt, a, lst, do_free, s). 2 ^ 64 - unat a)" by simp
qed simp

declare uvmunmap_loop.simps [simp del]

definition uvmunmap ::
  "u64 \<Rightarrow> u64 \<Rightarrow> u64 \<Rightarrow> bool \<Rightarrow> 'z pmem_scheme \<Rightarrow> ('z pmem_scheme, unit) outcome" where
  "uvmunmap pt va npages do_free s =
     (if va mod PGSIZE \<noteq> 0 then Panic ''uvmunmap: not aligned''
      else uvmunmap_loop pt va (va + npages * PGSIZE) do_free s)"

text \<open>\<open>int npages\<close> in \<open>uvmdealloc\<close>: the quotient is truncated to 32 bits and sign extended.\<close>

definition uvmdealloc ::
  "u64 \<Rightarrow> u64 \<Rightarrow> u64 \<Rightarrow> 'z pmem_scheme \<Rightarrow> ('z pmem_scheme, u64) outcome" where
  "uvmdealloc pt oldsz newsz s =
     (if oldsz \<le> newsz then Done oldsz s
      else if PGROUNDUP newsz < PGROUNDUP oldsz then
        let npages = int_of_reg ((PGROUNDUP oldsz - PGROUNDUP newsz) div PGSIZE) in
        bnd (uvmunmap pt (PGROUNDUP newsz) (reg_of_int npages) True s) (\<lambda>_ s. Done newsz s)
      else Done newsz s)"

function uvmalloc_loop ::
  "u64 \<Rightarrow> u64 \<Rightarrow> u64 \<Rightarrow> u64 \<Rightarrow> u64 \<Rightarrow> 'z pmem_scheme \<Rightarrow> ('z pmem_scheme, u64) outcome" where
  "uvmalloc_loop pt a oldsz newsz xperm s =
     (if \<not> a < newsz then Done newsz s
      else bnd (kalloc s) (\<lambda>pg s.
        if pg = 0 then bnd (uvmdealloc pt a oldsz s) (\<lambda>_ s. Done 0 s)
        else
          let s = (if lab_syscall s then s else s\<lparr>mem := memset pg 0 4096 (mem s)\<rparr>) in
          bnd (mappages pt a PGSIZE pg (PTE_R OR PTE_U OR xperm) s) (\<lambda>r s.
            if r \<noteq> 0 then
              bnd (kfree pg s) (\<lambda>_ s. bnd (uvmdealloc pt a oldsz s) (\<lambda>_ s. Done 0 s))
            else uvmalloc_loop pt (a + PGSIZE) oldsz newsz xperm s)))"
  by pat_completeness auto
termination
proof (relation "measure (\<lambda>(pt, a, oldsz, newsz, xperm, s). 2 ^ 64 - unat a)")
  fix pt a oldsz newsz xperm perm pg :: u64 and s t t' :: "'z pmem_scheme" and r :: int
  assume "mappages pt a PGSIZE pg (PTE_R OR PTE_U OR xperm) t = Done r t'"
  then have "a < MAXVA" by (rule mappages_Done_MAXVA)
  moreover from this have "unat (a + PGSIZE) = unat a + 4096" by (rule next_page_below_MAXVA)
  ultimately show "((pt, a + PGSIZE, oldsz, newsz, xperm, t'), pt, a, oldsz, newsz, xperm, s)
      \<in> measure (\<lambda>(pt, a, oldsz, newsz, xperm, s). 2 ^ 64 - unat a)"
    by (simp add: word_less_nat_alt MAXVA_def)
qed simp

declare uvmalloc_loop.simps [simp del]

definition uvmalloc ::
  "u64 \<Rightarrow> u64 \<Rightarrow> u64 \<Rightarrow> u64 \<Rightarrow> 'z pmem_scheme \<Rightarrow> ('z pmem_scheme, u64) outcome" where
  "uvmalloc pt oldsz newsz xperm s =
     (if newsz < oldsz then Done oldsz s
      else uvmalloc_loop pt (PGROUNDUP oldsz) (PGROUNDUP oldsz) newsz xperm s)"

subsection \<open>Freeing a page table\<close>

text \<open>
  \<open>freewalk\<close> recurses into every entry that is valid and not a leaf. A page table that \<open>walk\<close>
  built has three levels, so \<open>uvmfree\<close> starts with a depth of 3; a deeper or cyclic table, which no
  code here builds, is \<open>Hang\<close>.
\<close>

fun freewalk :: "nat \<Rightarrow> u64 \<Rightarrow> 'z pmem_scheme \<Rightarrow> ('z pmem_scheme, unit) outcome" where
  "freewalk 0 pt s = Hang"
| "freewalk (Suc depth) pt s =
     bnd (loop_all (\<lambda>i s.
            let a = pt + 8 * of_nat i; pte = get_pte s a in
            if pte AND PTE_V \<noteq> 0 \<and> pte AND (PTE_R OR PTE_W OR PTE_X) = 0
            then bnd (freewalk depth (PTE2PA pte) s) (\<lambda>_ s. Done () (set_pte a 0 s))
            else if pte AND PTE_V \<noteq> 0 then Panic ''freewalk: leaf''
            else Done () s) [0..<512] s)
       (\<lambda>_ s. kfree pt s)"

definition uvmfree :: "u64 \<Rightarrow> u64 \<Rightarrow> 'z pmem_scheme \<Rightarrow> ('z pmem_scheme, unit) outcome" where
  "uvmfree pt sz s =
     bnd (if 0 < sz then uvmunmap pt 0 (PGROUNDUP sz div PGSIZE) True s else Done () s)
       (\<lambda>_ s. freewalk 3 pt s)"

subsection \<open>uvmcopy and uvmclear\<close>

function uvmcopy_loop ::
  "u64 \<Rightarrow> u64 \<Rightarrow> u64 \<Rightarrow> u64 \<Rightarrow> 'z pmem_scheme \<Rightarrow> ('z pmem_scheme, int) outcome" where
  "uvmcopy_loop old new i sz s =
     (if \<not> i < sz then Done 0 s
      else bnd (walk old i False s) (\<lambda>pte s.
        if pte = 0 then uvmcopy_loop old new (i + PGSIZE) sz s
        else if get_pte s pte AND PTE_V = 0 then uvmcopy_loop old new (i + PGSIZE) sz s
        else
          let pa = PTE2PA (get_pte s pte); flags = PTE_FLAGS (get_pte s pte) in
          bnd (kalloc s) (\<lambda>pg s.
            if pg = 0 then bnd (uvmunmap new 0 (i div PGSIZE) True s) (\<lambda>_ s. Done (-1) s)
            else bnd (mappages new i PGSIZE pg flags (s\<lparr>mem := memmove pg pa 4096 (mem s)\<rparr>)) (\<lambda>r s.
              if r \<noteq> 0 then
                bnd (kfree pg s) (\<lambda>_ s.
                  bnd (uvmunmap new 0 (i div PGSIZE) True s) (\<lambda>_ s. Done (-1) s))
              else uvmcopy_loop old new (i + PGSIZE) sz s))))"
  by pat_completeness auto
termination
proof (relation "measure (\<lambda>(old, new, i, sz, s). 2 ^ 64 - unat i)")
  fix old new i sz :: u64 and s t :: "'z pmem_scheme" and r :: u64
  assume "walk old i False s = Done r t"
  then have "i < MAXVA" by (rule walk_Done_MAXVA)
  moreover from this have "unat (i + PGSIZE) = unat i + 4096" by (rule next_page_below_MAXVA)
  ultimately have less: "2 ^ 64 - unat (i + PGSIZE) < 2 ^ 64 - unat i"
    by (simp add: word_less_nat_alt MAXVA_def)
  then show "((old, new, i + PGSIZE, sz, t), old, new, i, sz, s)
      \<in> measure (\<lambda>(old, new, i, sz, s). 2 ^ 64 - unat i)" by simp
  from less show "((old, new, i + PGSIZE, sz, t), old, new, i, sz, s)
      \<in> measure (\<lambda>(old, new, i, sz, s). 2 ^ 64 - unat i)" by simp
  fix t'
  from less show "((old, new, i + PGSIZE, sz, t'), old, new, i, sz, s)
      \<in> measure (\<lambda>(old, new, i, sz, s). 2 ^ 64 - unat i)" by simp
qed simp

declare uvmcopy_loop.simps [simp del]

definition uvmcopy :: "u64 \<Rightarrow> u64 \<Rightarrow> u64 \<Rightarrow> 'z pmem_scheme \<Rightarrow> ('z pmem_scheme, int) outcome" where
  "uvmcopy old new sz s = uvmcopy_loop old new 0 sz s"

definition uvmclear :: "u64 \<Rightarrow> u64 \<Rightarrow> 'z pmem_scheme \<Rightarrow> ('z pmem_scheme, unit) outcome" where
  "uvmclear pt va s =
     bnd (walk pt va False s) (\<lambda>pte s.
       if pte = 0 then Panic ''uvmclear''
       else Done () (set_pte pte (get_pte s pte AND NOT PTE_U) s))"

subsection \<open>Lazy allocation and the copies between user and kernel\<close>

definition vmfault :: "u64 \<Rightarrow> u64 \<Rightarrow> 'z ptab_scheme \<Rightarrow> ('z ptab_scheme, u64) outcome" where
  "vmfault pt va s =
     with_myproc (\<lambda>s p.
       if p_sz (the_proc s p) \<le> va then Done 0 s
       else
         let va = PGROUNDDOWN va in
         bnd (ismapped pt va s) (\<lambda>m s.
           if m then Done 0 s
           else bnd (kalloc s) (\<lambda>pg s.
             if pg = 0 then Done 0 s
             else bnd (mappages (p_pagetable (the_proc s p)) va PGSIZE pg (PTE_W OR PTE_U OR PTE_R)
                         (s\<lparr>mem := memset pg 0 4096 (mem s)\<rparr>)) (\<lambda>r s.
               if r \<noteq> 0 then bnd (kfree pg s) (\<lambda>_ s. Done 0 s) else Done pg s)))) s"

text \<open>
  The piece of the current page that one turn of a copy loop handles: from \<open>va\<close> to the end of its
  page, or \<open>len\<close> bytes if that is less.
\<close>

definition chunk :: "u64 \<Rightarrow> u64 \<Rightarrow> u64" where
  "chunk va len = (let n = PGSIZE - (va - PGROUNDDOWN va) in if len < n then len else n)"

lemma unat_chunk: "unat (chunk va len) = min (unat len) (4096 - unat va mod 4096)"
proof -
  have off: "unat (va - PGROUNDDOWN va) = unat va mod 4096"
    by (simp add: PGROUNDDOWN_offset)
  then have "unat (4096 - (va - PGROUNDDOWN va)) = 4096 - unat va mod 4096"
    by (subst unat_sub) (simp_all add: word_le_nat_alt less_imp_le)
  then show ?thesis by (simp add: chunk_def Let_def word_less_nat_alt min_def)
qed

lemma chunk_pos: "0 < len \<Longrightarrow> 0 < unat (chunk va len)"
  by (simp add: unat_chunk word_less_nat_alt)

lemma chunk_le: "unat (chunk va len) \<le> unat len"
  by (simp add: unat_chunk)

lemma unat_minus_chunk: "unat (len - chunk va len) = unat len - unat (chunk va len)"
  by (rule unat_sub) (simp add: word_le_nat_alt chunk_le)

function copyout ::
  "u64 \<Rightarrow> u64 \<Rightarrow> u8 list \<Rightarrow> u64 \<Rightarrow> 'z ptab_scheme \<Rightarrow> ('z ptab_scheme, int) outcome" where
  "copyout pt dstva src len s =
     (if \<not> 0 < len then Done 0 s
      else
        let va0 = PGROUNDDOWN dstva in
        if MAXVA \<le> va0 then Done (-1) s
        else bnd (walkaddr pt va0 s) (\<lambda>pa0 s.
          bnd (if pa0 = 0 then vmfault pt va0 s else Done pa0 s) (\<lambda>pa0 s.
            if pa0 = 0 then Done (-1) s
            else bnd (walk pt va0 False s) (\<lambda>pte s.
              if pte = 0 then Done (-1) s
              else if get_pte s pte AND PTE_W = 0 then Done (-1) s
              else
                let n = chunk dstva len in
                copyout pt (va0 + PGSIZE) (drop (unat n) src) (len - n)
                  (s\<lparr>mem := store_bytes (pa0 + (dstva - va0)) (take (unat n) src) (mem s)\<rparr>)))))"
  by pat_completeness auto
termination
  by (relation "measure (\<lambda>(pt, dstva, src, len, s). unat len)")
    (use chunk_pos in \<open>simp_all add: unat_minus_chunk word_less_nat_alt\<close>)

declare copyout.simps [simp del]

text \<open>\<open>copyin\<close> returns its result and the bytes it has written to \<open>dst\<close>.\<close>

function copyin ::
  "u64 \<Rightarrow> u64 \<Rightarrow> u64 \<Rightarrow> 'z ptab_scheme \<Rightarrow> ('z ptab_scheme, int \<times> u8 list) outcome" where
  "copyin pt srcva len s =
     (if \<not> 0 < len then Done (0, []) s
      else
        let va0 = PGROUNDDOWN srcva in
        bnd (walkaddr pt va0 s) (\<lambda>pa0 s.
          bnd (if pa0 = 0 then vmfault pt va0 s else Done pa0 s) (\<lambda>pa0 s.
            if pa0 = 0 then Done (-1, []) s
            else
              let n = chunk srcva len;
                  bytes = load_bytes (mem s) (pa0 + (srcva - va0)) (unat n) in
              bnd (copyin pt (va0 + PGSIZE) (len - n) s) (\<lambda>(r, rest) s.
                Done (r, bytes @ rest) s))))"
  by pat_completeness auto
termination
  by (relation "measure (\<lambda>(pt, srcva, len, s). unat len)")
    (use chunk_pos in \<open>simp_all add: unat_minus_chunk word_less_nat_alt\<close>)

declare copyin.simps [simp del]

text \<open>The inner loop of \<open>copyinstr\<close>: the bytes written to \<open>dst\<close> and whether the NUL was one.\<close>

primrec copyinstr_page :: "nat \<Rightarrow> mem \<Rightarrow> u64 \<Rightarrow> u8 list \<times> bool" where
  "copyinstr_page 0 m p = ([], False)"
| "copyinstr_page (Suc n) m p =
     (if m p = 0 then ([0], True)
      else case copyinstr_page n m (p + 1) of (bs, got) \<Rightarrow> (m p # bs, got))"

function copyinstr ::
  "u64 \<Rightarrow> u64 \<Rightarrow> u64 \<Rightarrow> 'z pmem_scheme \<Rightarrow> ('z pmem_scheme, int \<times> u8 list) outcome" where
  "copyinstr pt srcva max_len s =
     (if \<not> 0 < max_len then Done (-1, []) s
      else
        let va0 = PGROUNDDOWN srcva in
        bnd (walkaddr pt va0 s) (\<lambda>pa0 s.
          if pa0 = 0 then Done (-1, []) s
          else
            let n = chunk srcva max_len in
            case copyinstr_page (unat n) (mem s) (pa0 + (srcva - va0)) of (bytes, got_null) \<Rightarrow>
              if got_null then Done (0, bytes) s
              else bnd (copyinstr pt (va0 + PGSIZE) (max_len - n) s) (\<lambda>(r, rest) s.
                Done (r, bytes @ rest) s)))"
  by pat_completeness auto
termination
  by (relation "measure (\<lambda>(pt, srcva, max_len, s). unat max_len)")
    (use chunk_pos in \<open>simp_all add: unat_minus_chunk word_less_nat_alt\<close>)

declare copyinstr.simps [simp del]

subsection \<open>The kernel page table\<close>

definition proc_mapstacks :: "u64 \<Rightarrow> 'z pmem_scheme \<Rightarrow> ('z pmem_scheme, unit) outcome" where
  "proc_mapstacks kpgtbl s =
     loop_all (\<lambda>p s.
       bnd (kalloc s) (\<lambda>pa s.
         if pa = 0 then Panic ''kalloc''
         else kvmmap kpgtbl (KSTACK p) pa PGSIZE (PTE_R OR PTE_W) s)) [0..<NPROC] s"

definition kvmmake :: "'z ptab_scheme \<Rightarrow> ('z ptab_scheme, u64) outcome" where
  "kvmmake s =
     (let etext = sym_etext (syms s) in
      bnd (kalloc s) (\<lambda>k s.
       bnd (kvmmap k UART0 UART0 PGSIZE (PTE_R OR PTE_W) (s\<lparr>mem := memset k 0 4096 (mem s)\<rparr>)) (\<lambda>_ s.
       bnd (kvmmap k VIRTIO0 VIRTIO0 PGSIZE (PTE_R OR PTE_W) s) (\<lambda>_ s.
       bnd (kvmmap k PLIC PLIC 0x4000000 (PTE_R OR PTE_W) s) (\<lambda>_ s.
       bnd (kvmmap k KERNBASE KERNBASE (etext - KERNBASE) (PTE_R OR PTE_X) s) (\<lambda>_ s.
       bnd (kvmmap k etext etext (PHYSTOP - etext) (PTE_R OR PTE_W) s) (\<lambda>_ s.
       bnd (kvmmap k TRAMPOLINE (sym_trampoline (syms s)) PGSIZE (PTE_R OR PTE_X) s) (\<lambda>_ s.
       bnd (proc_mapstacks k s) (\<lambda>_ s. Done k s)))))))))"

definition kvminit :: "'z ptab_scheme \<Rightarrow> ('z ptab_scheme, unit) outcome" where
  "kvminit s = bnd (kvmmake s) (\<lambda>k s. Done () (s\<lparr>kernel_pagetable := k\<rparr>))"

definition kvminithart :: "'z ptab_scheme \<Rightarrow> 'z ptab_scheme" where
  "kvminithart s = s\<lparr>satp := MAKE_SATP (kernel_pagetable s)\<rparr>"

subsection \<open>The frame: only memory and the free list change\<close>

definition only_mem :: "'z pmem_scheme \<Rightarrow> 'z pmem_scheme \<Rightarrow> bool" where
  "only_mem s t \<longleftrightarrow> t = s\<lparr>mem := mem t, freelist := freelist t\<rparr>"

lemma only_mem_refl [simp]: "only_mem s s"
  by (simp add: only_mem_def)

lemma only_mem_trans:
  assumes "only_mem s t" and "only_mem t w"
  shows "only_mem s w"
proof -
  have t: "t = s\<lparr>mem := mem t, freelist := freelist t\<rparr>" and w: "w = t\<lparr>mem := mem w, freelist := freelist w\<rparr>"
    using assms by (simp_all add: only_mem_def)
  have "t\<lparr>mem := mem w, freelist := freelist w\<rparr> = s\<lparr>mem := mem w, freelist := freelist w\<rparr>"
    using arg_cong [OF t, of "\<lambda>t. t\<lparr>mem := mem w, freelist := freelist w\<rparr>"] by simp
  with w show ?thesis unfolding only_mem_def by (rule trans)
qed

lemma only_mem_upd [simp]: "only_mem s (s\<lparr>mem := m\<rparr>)" "only_mem s (set_pte a w s)"
  by (simp_all add: only_mem_def set_pte_def)

lemma only_mem_upd_trans:
  "only_mem (s\<lparr>mem := m\<rparr>) t \<Longrightarrow> only_mem s t"
  "only_mem (set_pte a w s) t \<Longrightarrow> only_mem s t"
  using only_mem_trans only_mem_upd by blast+

named_theorems frames \<open>normal ends of operations that change memory and the free list only\<close>

lemma frame_kalloc [frames]: "kalloc s = Done r t \<Longrightarrow> only_mem s t"
  using kalloc_frame by (auto simp: only_mem_def)

lemma frame_kfree [frames]: "kfree a s = Done r t \<Longrightarrow> only_mem s t"
  using kfree_frame by (auto simp: only_mem_def)

lemma frame_walk_level: "walk_level l pt va alloc s = Done r t \<Longrightarrow> only_mem s t"
proof (induction l arbitrary: pt s)
  case (Suc l)
  from Suc.prems consider (down) pt' where "walk_level l pt' va alloc s = Done r t" | (same) "t = s"
    | (none) v where "kalloc s = Done v t"
    | (new) u v w a m where "kalloc s = Done v u" "walk_level l v va alloc (set_pte a w (u\<lparr>mem := m\<rparr>)) = Done r t"
    by (auto simp: Let_def split: if_splits)
  then show ?case
  proof cases
    case new
    have "only_mem s u" using new(1) by (rule frame_kalloc)
    also have "only_mem u t" using Suc.IH [OF new(2)] only_mem_upd_trans by blast
    finally (only_mem_trans) show ?thesis .
  qed (use Suc.IH frame_kalloc in auto)
qed simp

lemma frame_walk [frames]: "walk pt va alloc s = Done r t \<Longrightarrow> only_mem s t"
  using frame_walk_level [of 2 pt va alloc s r t] by (simp add: walk_def split: if_splits)

lemma frame_mappages_loop: "mappages_loop pt a lst pa perm s = Done r t \<Longrightarrow> only_mem s t"
proof (induction pt a lst pa perm s rule: mappages_loop.induct)
  case (1 pt a lst pa perm s)
  from "1.prems" obtain pte u where w: "walk pt a True s = Done pte u"
    by (subst (asm) mappages_loop.simps) auto
  have "only_mem s u" by (rule frame_walk [OF w])
  also have "only_mem u t"
    using "1.prems" w "1.IH" [OF w]
    by (subst (asm) mappages_loop.simps) (auto simp: Let_def dest: only_mem_upd_trans split: if_splits)
  finally (only_mem_trans) show ?case .
qed

lemma frame_mappages [frames]: "mappages pt va sz pa perm s = Done r t \<Longrightarrow> only_mem s t"
  using frame_mappages_loop by (auto simp: mappages_def split: if_splits)

lemma frame_uvmunmap_loop: "uvmunmap_loop pt a lst fr s = Done r t \<Longrightarrow> only_mem s t"
proof (induction pt a lst fr s rule: uvmunmap_loop.induct)
  case (1 pt a lst fr s)
  show ?case
  proof (cases "a < lst")
    case True
    from "1.prems" True obtain pte u where w: "walk pt a False s = Done pte u"
      by (subst (asm) uvmunmap_loop.simps) auto
    have free: "(if fr then kfree p u else Done () u) = Done v x \<Longrightarrow> only_mem u x" for p v x
      using frame_kfree [of p u] by (auto split: if_splits)
    have "only_mem s u" by (rule frame_walk [OF w])
    also have "only_mem u t"
      using "1.prems" True w "1.IH" [OF _ w] free
      by (subst (asm) uvmunmap_loop.simps)
        (auto simp: Let_def dest!: only_mem_upd_trans intro: only_mem_trans split: if_splits)
    finally (only_mem_trans) show ?thesis .
  next
    case False
    with "1.prems" show ?thesis by (subst (asm) uvmunmap_loop.simps) simp
  qed
qed

lemma frame_uvmunmap [frames]: "uvmunmap pt va n fr s = Done r t \<Longrightarrow> only_mem s t"
  using frame_uvmunmap_loop by (auto simp: uvmunmap_def split: if_splits)

lemma frame_freewalk: "freewalk d pt s = Done r t \<Longrightarrow> only_mem s t"
proof (induction d arbitrary: pt s r t)
  case (Suc d)
  from Suc.prems obtain u where u: "loop_all (\<lambda>i s.
          let a = pt + 8 * of_nat i; pte = get_pte s a in
          if pte AND PTE_V \<noteq> 0 \<and> pte AND (PTE_R OR PTE_W OR PTE_X) = 0
          then bnd (freewalk d (PTE2PA pte) s) (\<lambda>_ s. Done () (set_pte a 0 s))
          else if pte AND PTE_V \<noteq> 0 then Panic ''freewalk: leaf''
          else Done () s) [0..<512] s = Done () u" "kfree pt u = Done r t"
    by (simp only: freewalk.simps bnd_eq_Done) auto
  have "only_mem s u"
    by (rule loop_all_Done_rel [OF u(1), of only_mem])
      (use only_mem_trans only_mem_trans [OF Suc.IH only_mem_upd(2)] in \<open>auto simp: Let_def split: if_splits\<close>)
  also have "only_mem u t" using u(2) by (rule frame_kfree)
  finally (only_mem_trans) show ?case .
qed simp

lemma frame_uvmfree [frames]: "uvmfree pt sz s = Done r t \<Longrightarrow> only_mem s t"
  by (auto simp: uvmfree_def split: if_splits
    intro: only_mem_trans [OF frame_uvmunmap frame_freewalk] frame_freewalk)

lemma frame_uvmcreate [frames]: "uvmcreate s = Done r t \<Longrightarrow> only_mem s t"
  using only_mem_trans only_mem_upd frame_kalloc
  by (fastforce simp: uvmcreate_def split: if_splits)

end
