(* ===== verification/Pagetable.thy ===== *)
theory Pagetable
  imports Vm
begin

section \<open>What the page table operations do to a page table\<close>

text \<open>
  \<open>ptree l m pt T\<close> says that memory \<open>m\<close> holds, at \<open>pt\<close>, a page table of level \<open>l\<close> (2 for a root)
  whose table pages are exactly the set \<open>T\<close>, every page used once. \<open>pte_of l pt va m\<close> is the leaf entry
  the hardware finds for \<open>va\<close>, 0 when a table on the way is missing. The lemmas say how \<open>walk\<close>,
  \<open>mappages\<close> and \<open>uvmunmap\<close> change \<open>pte_of\<close>: at the pages they are asked to, and nowhere else.
\<close>

subsection \<open>Page table trees in memory\<close>

definition pt_entry :: "mem \<Rightarrow> u64 \<Rightarrow> nat \<Rightarrow> u64" where
  "pt_entry m pt i = load64 m (pt + of_nat (8 * i))"

definition idx :: "nat \<Rightarrow> u64 \<Rightarrow> nat" where
  "idx l va = unat (PX l va)"

lemma idx_less [simp]: "idx l va < 512"
  by (simp add: idx_def)

lemma pte_at_idx: "pte_at l pt va = pt + of_nat (8 * idx l va)"
  by (simp add: pte_at_def idx_def)

primrec ptree :: "nat \<Rightarrow> mem \<Rightarrow> u64 \<Rightarrow> u64 set \<Rightarrow> bool" where
  "ptree 0 m pt T \<longleftrightarrow> T = {pt}"
| "ptree (Suc l) m pt T \<longleftrightarrow> (\<exists>C.
     T = insert pt (\<Union>i<512. C i) \<and> (\<forall>i<512. pt \<notin> C i) \<and>
     (\<forall>i<512. \<forall>j<512. i \<noteq> j \<longrightarrow> C i \<inter> C j = {}) \<and>
     (\<forall>i<512. if bit (pt_entry m pt i) 0 then ptree l m (PTE2PA (pt_entry m pt i)) (C i) else C i = {}))"

primrec pte_of :: "nat \<Rightarrow> u64 \<Rightarrow> u64 \<Rightarrow> mem \<Rightarrow> u64" where
  "pte_of 0 pt va m = pt_entry m pt (idx 0 va)"
| "pte_of (Suc l) pt va m =
     (let e = pt_entry m pt (idx (Suc l) va) in if bit e 0 then pte_of l (PTE2PA e) va m else 0)"

primrec leaf_addr :: "nat \<Rightarrow> u64 \<Rightarrow> u64 \<Rightarrow> mem \<Rightarrow> u64" where
  "leaf_addr 0 pt va m = pte_at 0 pt va"
| "leaf_addr (Suc l) pt va m =
     (let e = pt_entry m pt (idx (Suc l) va) in if bit e 0 then leaf_addr l (PTE2PA e) va m else 0)"

definition agree :: "u64 set \<Rightarrow> mem \<Rightarrow> mem \<Rightarrow> bool" where
  "agree T m m' \<longleftrightarrow> (\<forall>x. (\<exists>a \<in> T. in_page a x) \<longrightarrow> m' x = m x)"

lemma agree_refl [simp]: "agree T m m"
  by (simp add: agree_def)

lemma agree_mono: "agree T m m' \<Longrightarrow> S \<subseteq> T \<Longrightarrow> agree S m m'"
  by (auto simp: agree_def)

lemma agree_trans: "agree T m m' \<Longrightarrow> agree T m' m'' \<Longrightarrow> agree T m m''"
  by (simp add: agree_def)

lemma same_outside_agree:
  assumes "same_outside A m m'" and "\<forall>a \<in> A \<union> T. page_aligned a" and "A \<inter> T = {}"
  shows "agree T m m'"
  unfolding agree_def
proof (intro allI impI)
  fix x
  assume "\<exists>a \<in> T. in_page a x"
  then obtain b where "b \<in> T" "in_page b x" by blast
  then have "\<forall>a \<in> A. \<not> in_page a x" using assms(2,3) in_page_disjoint by blast
  with assms(1) show "m' x = m x" by (simp add: same_outside_def)
qed

lemma entry_in_page: "i < 512 \<Longrightarrow> k < 8 \<Longrightarrow> in_page pt (pt + of_nat (8 * i) + of_nat k)"
  using in_page_low [of "8 * i + k" pt] by (simp add: add.assoc)

lemma pt_entry_agree: "agree T m m' \<Longrightarrow> pt \<in> T \<Longrightarrow> i < 512 \<Longrightarrow> pt_entry m' pt i = pt_entry m pt i"
  unfolding pt_entry_def agree_def by (rule load64_cong) (use entry_in_page in blast)

lemma entry_mod8: "page_aligned pt \<Longrightarrow> i < 512 \<Longrightarrow> unat (pt + of_nat (8 * i)) mod 8 = 0"
proof -
  assume a: "page_aligned pt" "i < 512"
  then have "unat pt + 8 * i < 2 ^ 64"
    by (intro aligned_add_less [of 4096]) (simp_all add: page_aligned_unat dvd_eq_mod_eq_0)
  then have "unat (pt + of_nat (8 * i)) = unat pt + 8 * i" by (rule unat_of_nat_add)
  moreover have "unat pt mod 8 = 0"
    using a(1) mod_mod_cancel [of 8 4096 "unat pt"] by (simp add: page_aligned_unat)
  ultimately show ?thesis by (simp add: mod_add_left_eq [symmetric])
qed

lemma entry_addr_inj:
  assumes "i < 512" and "j < 512" and "pt + of_nat (8 * i) = pt + (of_nat (8 * j) :: u64)"
  shows "i = j"
proof -
  have "unat (of_nat (8 * i) :: u64) = unat (of_nat (8 * j) :: u64)" using assms(3) by simp
  then show ?thesis using assms(1,2) by (simp add: unat_of_nat del: of_nat_mult)
qed

lemma pt_entry_store_same [simp]: "pt_entry (store64 (pt + of_nat (8 * i)) w m) pt i = w"
  by (simp add: pt_entry_def)

lemma pt_entry_store_other:
  assumes "page_aligned pt" and "i < 512" and "j < 512" and "i \<noteq> j"
  shows "pt_entry (store64 (pt + of_nat (8 * i)) w m) pt j = pt_entry m pt j"
  unfolding pt_entry_def
  by (rule load64_store64_other)
    (use assms entry_mod8 entry_addr_inj [of i j pt] in auto)

lemma same_outside_store_entry:
  assumes "i < 512"
  shows "same_outside {pt} m (store64 (pt + of_nat (8 * i)) w m)"
  unfolding same_outside_def
proof (intro allI impI)
  fix x
  assume x: "\<forall>a \<in> {pt}. \<not> in_page a x"
  show "store64 (pt + of_nat (8 * i)) w m x = m x"
  proof (rule store64_frame, rule ccontr)
    assume "\<not> 8 \<le> unat (x - (pt + of_nat (8 * i)))"
    then obtain k where k: "k < 8" "unat (x - (pt + of_nat (8 * i))) = k" by simp
    then have "x = pt + of_nat (8 * i) + of_nat k" by (subst (asm) word_offset_iff) auto
    with x k entry_in_page [OF assms] show False by simp
  qed
qed

subsection \<open>Frame lemmas\<close>

lemma ptree_root: "ptree l m pt T \<Longrightarrow> pt \<in> T"
  by (cases l) auto

lemma ptree_agree: "ptree l m pt T \<Longrightarrow> agree T m m' \<Longrightarrow> ptree l m' pt T"
proof (induction l arbitrary: pt T)
  case (Suc l)
  then obtain C where T: "T = insert pt (\<Union>i<512. C i)" and
    rest: "\<forall>i<512. pt \<notin> C i" "\<forall>i<512. \<forall>j<512. i \<noteq> j \<longrightarrow> C i \<inter> C j = {}" and
    sub: "\<forall>i<512. if bit (pt_entry m pt i) 0 then ptree l m (PTE2PA (pt_entry m pt i)) (C i) else C i = {}"
    by auto
  have e: "pt_entry m' pt i = pt_entry m pt i" if "i < 512" for i
    using Suc.prems that by (intro pt_entry_agree) (auto simp: T)
  have "agree (C i) m m'" if "i < 512" for i
    using Suc.prems(2) by (rule agree_mono) (use that T in auto)
  then have "\<forall>i<512. if bit (pt_entry m' pt i) 0 then ptree l m' (PTE2PA (pt_entry m' pt i)) (C i) else C i = {}"
    using sub Suc.IH e by (simp split: if_splits)
  with T rest show ?case by auto
qed simp

lemma pte_of_agree: "ptree l m pt T \<Longrightarrow> agree T m m' \<Longrightarrow> pte_of l pt va m' = pte_of l pt va m"
proof (induction l arbitrary: pt T)
  case 0
  then show ?case by (simp add: pt_entry_agree)
next
  case (Suc l)
  then obtain C where T: "T = insert pt (\<Union>i<512. C i)" and
    sub: "\<forall>i<512. if bit (pt_entry m pt i) 0 then ptree l m (PTE2PA (pt_entry m pt i)) (C i) else C i = {}"
    by auto
  let ?i = "idx (Suc l) va"
  have e: "pt_entry m' pt ?i = pt_entry m pt ?i"
    using Suc.prems by (intro pt_entry_agree) (auto simp: T)
  have "agree (C ?i) m m'"
    using Suc.prems(2) by (rule agree_mono) (auto simp: T)
  moreover have "bit (pt_entry m pt ?i) 0 \<Longrightarrow> ptree l m (PTE2PA (pt_entry m pt ?i)) (C ?i)"
    using sub [rule_format, of ?i] by simp
  ultimately show ?case
    using Suc.IH [of "PTE2PA (pt_entry m pt ?i)" "C ?i"] e by (simp add: Let_def)
qed

text \<open>Changing one entry of a table, and the subtree below it.\<close>

lemma ptree_replace:
  assumes C: "\<forall>i<512. pt \<notin> C i" "\<forall>i<512. \<forall>j<512. i \<noteq> j \<longrightarrow> C i \<inter> C j = {}"
    "\<forall>i<512. if bit (pt_entry m pt i) 0 then ptree l m (PTE2PA (pt_entry m pt i)) (C i) else C i = {}"
    and k: "k < 512"
    and entry: "bit (pt_entry m' pt k) 0" "ptree l m' (PTE2PA (pt_entry m' pt k)) D"
    and others: "\<forall>i<512. i \<noteq> k \<longrightarrow> pt_entry m' pt i = pt_entry m pt i \<and> agree (C i) m m' \<and> D \<inter> C i = {}"
    and D: "pt \<notin> D"
  shows "ptree (Suc l) m' pt (insert pt (D \<union> (\<Union>i\<in>{..<512} - {k}. C i)))"
proof -
  let ?C = "C(k := D)"
  have "insert pt (D \<union> (\<Union>i\<in>{..<512} - {k}. C i)) = insert pt (\<Union>i<512. ?C i)"
    using k by (auto split: if_splits)
  moreover have "\<forall>i<512. pt \<notin> ?C i" using C(1) D by simp
  moreover have "\<forall>i<512. \<forall>j<512. i \<noteq> j \<longrightarrow> ?C i \<inter> ?C j = {}"
    using C(2) others by (auto split: if_splits)
  moreover have "if bit (pt_entry m' pt i) 0
      then ptree l m' (PTE2PA (pt_entry m' pt i)) (?C i) else ?C i = {}" if i: "i < 512" for i
  proof (cases "i = k")
    case True
    then show ?thesis using entry by simp
  next
    case False
    then have "agree (C i) m m'" using others i by blast
    then show ?thesis
      using C(3) [rule_format, OF i] others False i ptree_agree by (simp split: if_splits)
  qed
  ultimately show ?thesis unfolding ptree.simps by (intro exI [of _ ?C]) blast
qed

lemma ptree_zero:
  assumes "\<forall>i<512. pt_entry m pt i = 0"
  shows "ptree l m pt {pt}" "pte_of l pt va m = 0"
  using assms by (cases l; simp; intro exI [of _ "\<lambda>_. {}"]; simp)+

lemma walk_level_no_alloc: "walk_level l pt va False s = Done (leaf_addr l pt va (mem s)) s"
  by (induction l arbitrary: pt)
    (simp_all add: Let_def get_pte_def pt_entry_def pte_at_idx PTE_bits)

lemma leaf_pte: "leaf_addr l pt va m \<noteq> 0 \<Longrightarrow> load64 m (leaf_addr l pt va m) = pte_of l pt va m"
  by (induction l arbitrary: pt) (auto simp: pt_entry_def pte_at_idx Let_def split: if_splits)

subsection \<open>walk with allocation\<close>

definition tables_ok :: "'z pmem_scheme \<Rightarrow> nat \<Rightarrow> u64 \<Rightarrow> u64 set \<Rightarrow> u64 list \<Rightarrow> bool" where
  "tables_ok s l pt T ps \<longleftrightarrow>
     ptree l (mem s) pt T \<and> kpool_inv s ps \<and> T \<inter> set ps = {} \<and> (\<forall>a \<in> T. valid_page (kend s) a)"

text \<open>
  What a run of \<open>walk\<close> that allocates does: it moves the pages \<open>used\<close> from the free list into the
  tree, changes no leaf entry, and returns the address of the leaf entry, or 0 when the free list ran
  out.
\<close>

definition grown ::
  "nat \<Rightarrow> u64 \<Rightarrow> u64 set \<Rightarrow> u64 list \<Rightarrow> 'z pmem_scheme \<Rightarrow> u64 list \<Rightarrow> 'z pmem_scheme \<Rightarrow> bool" where
  "grown l pt T ps s used t \<longleftrightarrow>
     (\<exists>ps'. ps = used @ ps' \<and> tables_ok t l pt (T \<union> set used) ps') \<and>
     same_outside (T \<union> set used) (mem s) (mem t) \<and>
     (\<forall>va. pte_of l pt va (mem t) = pte_of l pt va (mem s)) \<and>
     t = s\<lparr>mem := mem t, freelist := freelist t\<rparr>"

lemma new_pte:
  assumes "valid_page e a" and "unat fl < 1024"
  shows "PTE2PA (PA2PTE a OR fl) = a"
  by (rule PTE2PA_PA2PTE)
    (use assms in \<open>auto simp: valid_page_def word_less_nat_alt\<close>)

lemma new_pte_V: "bit (PA2PTE a OR PTE_V) 0"
  by (simp add: bit_or_iff)

lemma pt_entry_zero_page:
  assumes "i < 512"
  shows "pt_entry (memset pg 0 4096 m) pg i = 0"
proof -
  have "pt_entry (memset pg 0 4096 m) pg i = load64 (\<lambda>_. 0) (pg + of_nat (8 * i))"
    unfolding pt_entry_def
  proof (rule load64_cong)
    fix k :: nat
    assume "k < 8"
    then have "memset pg 0 4096 m (pg + of_nat (8 * i + k)) = 0"
      using assms by (subst memset_page_fill) simp_all
    then show "memset pg 0 4096 m (pg + of_nat (8 * i) + of_nat k) = 0"
      by (simp add: add.assoc)
  qed
  also have "\<dots> = 0" by (simp add: load64_def numeral_eq_Suc)
  finally show ?thesis .
qed

lemma valid_page_aligned: "valid_page e a \<Longrightarrow> page_aligned a"
  by (simp add: valid_page_def)

lemma tables_ok_aligned:
  "tables_ok s l pt T ps \<Longrightarrow> \<forall>a \<in> T \<union> set ps. page_aligned a"
  by (auto simp: tables_ok_def kpool_inv_def kmem_inv_def valid_page_aligned)

lemma grown_refl: "tables_ok s l pt T ps \<Longrightarrow> grown l pt T ps s [] s"
  by (simp add: grown_def)

lemma frame_trans:
  assumes "t = s\<lparr>mem := mem t, freelist := freelist t\<rparr>"
    and "w = t\<lparr>mem := mem w, freelist := freelist w\<rparr>"
  shows "w = s\<lparr>mem := mem w, freelist := freelist w\<rparr>"
proof -
  have "t\<lparr>mem := mem w, freelist := freelist w\<rparr> = s\<lparr>mem := mem w, freelist := freelist w\<rparr>"
    using arg_cong [OF assms(1), of "\<lambda>t. t\<lparr>mem := mem w, freelist := freelist w\<rparr>"] by simp
  with assms(2) show ?thesis by (rule trans)
qed

lemma grown_trans:
  assumes "grown l pt T (u @ ps) s u t" and "grown l pt (T \<union> set u) ps t v w"
  shows "grown l pt T (u @ ps) s (u @ v) w"
proof -
  have "w = s\<lparr>mem := mem w, freelist := freelist w\<rparr>"
  proof -
    have "t = s\<lparr>mem := mem t, freelist := freelist t\<rparr>" "w = t\<lparr>mem := mem w, freelist := freelist w\<rparr>"
      using assms by (simp_all add: grown_def)
    then show ?thesis by (rule frame_trans)
  qed
  moreover have "same_outside (T \<union> set (u @ v)) (mem s) (mem w)"
    using same_outside_trans [of "T \<union> set u" "mem s" "mem t" "T \<union> set u \<union> set v" "mem w"] assms
    by (auto simp: grown_def Un_ac elim: same_outside_mono)
  ultimately show ?thesis using assms by (auto simp: grown_def Un_assoc)
qed

lemma child_grows:
  assumes c_def: "c = PTE2PA (pt_entry (mem s) pt (idx (Suc l) va))"
    and ok: "tables_ok s (Suc l) pt T ps" and v: "bit (pt_entry (mem s) pt (idx (Suc l) va)) 0"
    and IH: "\<And>D. tables_ok s l c D ps \<Longrightarrow>
      \<exists>r used t. walk_level l c va True s = Done r t \<and> length used \<le> l \<and> grown l c D ps s used t \<and>
        (if r = 0 then set ps = set used else r = leaf_addr l c va (mem t))"
  shows "\<exists>r used t. walk_level l c va True s = Done r t \<and> length used \<le> l \<and> grown (Suc l) pt T ps s used t \<and>
    (if r = 0 then set ps = set used else r = leaf_addr (Suc l) pt va (mem t))"
proof -
  let ?i = "idx (Suc l) va"
  obtain C where C: "T = insert pt (\<Union>i<512. C i)" "\<forall>i<512. pt \<notin> C i"
      "\<forall>i<512. \<forall>j<512. i \<noteq> j \<longrightarrow> C i \<inter> C j = {}"
      "\<forall>i<512. if bit (pt_entry (mem s) pt i) 0
        then ptree l (mem s) (PTE2PA (pt_entry (mem s) pt i)) (C i) else C i = {}"
    using ok unfolding tables_ok_def ptree.simps by blast
  have Ci: "C ?i \<subseteq> T" using C(1) by auto
  have "ptree l (mem s) c (C ?i)" using C(4) v unfolding c_def by (metis idx_less)
  then have "tables_ok s l c (C ?i) ps"
    using ok Ci by (auto simp: tables_ok_def)
  from IH [OF this] obtain r used t where run: "walk_level l c va True s = Done r t" "length used \<le> l"
    and g: "grown l c (C ?i) ps s used t"
    and r: "if r = 0 then set ps = set used else r = leaf_addr l c va (mem t)" by blast
  from g obtain ps' where ps: "ps = used @ ps'" and ok': "tables_ok t l c (C ?i \<union> set used) ps'"
    and so: "same_outside (C ?i \<union> set used) (mem s) (mem t)"
    and same: "\<forall>va. pte_of l c va (mem t) = pte_of l c va (mem s)"
    and upd: "t = s\<lparr>mem := mem t, freelist := freelist t\<rparr>" by (auto simp: grown_def)
  have disj: "T \<inter> set ps = {}" using ok by (simp add: tables_ok_def)
  have ag: "agree S (mem s) (mem t)" if "S \<subseteq> T" "S \<inter> C ?i = {}" for S
    using so by (rule same_outside_agree)
      (use tables_ok_aligned [OF ok] that disj Ci ps in auto)
  have pt: "pt_entry (mem t) pt i = pt_entry (mem s) pt i" if "i < 512" for i
    by (rule pt_entry_agree [OF ag [of "{pt}"]]) (use C(1,2) that in auto)
  have agC: "agree (C i) (mem s) (mem t)" if "i < 512" "i \<noteq> ?i" for i
    using C(1,3) that by (intro ag) (auto simp: set_eq_iff)
  have tree: "ptree (Suc l) (mem t) pt (T \<union> set used)"
  proof -
    have "ptree (Suc l) (mem t) pt
        (insert pt ((C ?i \<union> set used) \<union> (\<Union>i\<in>{..<512} - {?i}. C i)))"
    proof (rule ptree_replace [OF C(2,3,4)])
      show "bit (pt_entry (mem t) pt ?i) 0" using v pt by simp
      show "ptree l (mem t) (PTE2PA (pt_entry (mem t) pt ?i)) (C ?i \<union> set used)"
        using ok' pt by (simp add: tables_ok_def c_def)
      show "\<forall>i<512. i \<noteq> ?i \<longrightarrow> pt_entry (mem t) pt i = pt_entry (mem s) pt i \<and>
          agree (C i) (mem s) (mem t) \<and> (C ?i \<union> set used) \<inter> C i = {}"
      proof (intro allI impI conjI)
        fix i :: nat
        assume i: "i < 512" "i \<noteq> ?i"
        then have "C i \<subseteq> T" "C ?i \<inter> C i = {}" using C(1,3) by (auto simp: set_eq_iff)
        then show "(C ?i \<union> set used) \<inter> C i = {}" using disj ps by auto
      qed (use pt agC in simp_all)
      show "pt \<notin> C ?i \<union> set used" using C(1,2) disj ps by auto
    qed simp
    moreover have "insert pt ((C ?i \<union> set used) \<union> (\<Union>i\<in>{..<512} - {?i}. C i)) = T \<union> set used"
      using idx_less [of "Suc l" va] unfolding C(1) by (auto simp del: idx_less)
    ultimately show ?thesis by simp
  qed
  have "pte_of (Suc l) pt x (mem t) = pte_of (Suc l) pt x (mem s)" for x
  proof (cases "idx (Suc l) x = ?i")
    case True
    then show ?thesis using pt v same by (simp add: Let_def c_def)
  next
    case False
    then show ?thesis
      using pt [of "idx (Suc l) x"] agC [of "idx (Suc l) x"] C(4) [rule_format, of "idx (Suc l) x"]
        pte_of_agree [of l "mem s" _ "C (idx (Suc l) x)" "mem t" x]
      by (simp add: Let_def split: if_splits)
  qed
  moreover have "tables_ok t (Suc l) pt (T \<union> set used) ps'"
  proof -
    have "T \<inter> set ps' = {}" "set used \<inter> set ps' = {}"
      using disj ps ok' by (auto simp: tables_ok_def)
    moreover have "\<forall>a \<in> T \<union> set used. valid_page (kend t) a"
    proof -
      have "kend t = kend s" by (subst upd) simp
      then show ?thesis using ok ok' by (auto simp: tables_ok_def)
    qed
    ultimately show ?thesis using tree ok' by (auto simp: tables_ok_def)
  qed
  moreover have "same_outside (T \<union> set used) (mem s) (mem t)"
    using so by (rule same_outside_mono) (use Ci in auto)
  ultimately have "grown (Suc l) pt T ps s used t"
    using ps upd by (auto simp: grown_def)
  moreover have "if r = 0 then set ps = set used else r = leaf_addr (Suc l) pt va (mem t)"
    using r pt v by (simp add: Let_def c_def split: if_splits)
  ultimately show ?thesis using run by blast
qed

lemma frame_mem_update:
  assumes "t = s\<lparr>mem := mem t, freelist := freelist t\<rparr>"
  shows "t\<lparr>mem := m\<rparr> = s\<lparr>mem := m, freelist := freelist t\<rparr>"
  using arg_cong [OF assms, of "\<lambda>t. t\<lparr>mem := m\<rparr>"] by simp

definition install ::
  "nat \<Rightarrow> u64 \<Rightarrow> u64 \<Rightarrow> u64 \<Rightarrow> 'z pmem_scheme \<Rightarrow> 'z pmem_scheme" where
  "install l pt va new t =
     set_pte (pte_at (Suc l) pt va) (PA2PTE new OR PTE_V) (t\<lparr>mem := memset new 0 4096 (mem t)\<rparr>)"

lemma install_grows:
  assumes ok: "tables_ok s (Suc l) pt T (a # ps)" and empty: "\<not> bit (pt_entry (mem s) pt (idx (Suc l) va)) 0"
    and run: "kalloc s = Done a t" "kpool_inv t ps" "same_outside {a} (mem s) (mem t)"
  shows "grown (Suc l) pt T (a # ps) s [a] (install l pt va a t)"
    and "pt_entry (mem (install l pt va a t)) pt (idx (Suc l) va) = PA2PTE a OR PTE_V"
    and "\<forall>i<512. pt_entry (mem (install l pt va a t)) a i = 0"
    and "\<And>i. i < 512 \<Longrightarrow> i \<noteq> idx (Suc l) va \<Longrightarrow> pt_entry (mem (install l pt va a t)) pt i = pt_entry (mem s) pt i"
proof -
  let ?i = "idx (Suc l) va" and ?u = "install l pt va a t"
  obtain C where C: "T = insert pt (\<Union>i<512. C i)" "\<forall>i<512. pt \<notin> C i"
      "\<forall>i<512. \<forall>j<512. i \<noteq> j \<longrightarrow> C i \<inter> C j = {}"
      "\<forall>i<512. if bit (pt_entry (mem s) pt i) 0
        then ptree l (mem s) (PTE2PA (pt_entry (mem s) pt i)) (C i) else C i = {}"
    using ok unfolding tables_ok_def ptree.simps by blast
  have al: "\<forall>b \<in> T \<union> set (a # ps). page_aligned b" by (rule tables_ok_aligned [OF ok])
  have a: "a \<notin> T" "a \<notin> set ps" "valid_page (kend s) a" "pt \<in> T" "a \<noteq> pt"
    using ok C(1) by (auto simp: tables_ok_def kpool_inv_def kmem_inv_def)
  have m: "mem ?u = store64 (pt + of_nat (8 * ?i)) (PA2PTE a OR PTE_V) (memset a 0 4096 (mem t))"
    by (simp add: install_def set_pte_def pte_at_idx)
  show e: "pt_entry (mem ?u) pt ?i = PA2PTE a OR PTE_V"
    unfolding m by (rule pt_entry_store_same)
  have upd: "?u = s\<lparr>mem := mem ?u, freelist := freelist ?u\<rparr>"
    unfolding install_def set_pte_def
    using frame_mem_update [OF kalloc_frame [OF run(1)], of "store64 (pte_at (Suc l) pt va)
      (PA2PTE a OR PTE_V) (memset a 0 4096 (mem t))"] by simp
  have so1: "same_outside {a} (mem s) (memset a 0 4096 (mem t))"
    using same_outside_trans [OF run(3) same_outside_memset_page [of a "mem t" 0]] by simp
  have so: "same_outside {a, pt} (mem s) (mem ?u)"
    using same_outside_trans [OF so1 same_outside_store_entry [OF idx_less, of pt]] unfolding m
    by (simp add: insert_commute)
  have agp: "pt_entry (memset a 0 4096 (mem t)) pt i = pt_entry (mem s) pt i" if "i < 512" for i
    by (rule pt_entry_agree [OF same_outside_agree [OF so1, of "{pt}"]]) (use al a that in auto)
  show other: "pt_entry (mem ?u) pt i = pt_entry (mem s) pt i" if "i < 512" "i \<noteq> ?i" for i
    unfolding m using al a that agp by (subst pt_entry_store_other) auto
  have agC: "agree (C i) (mem s) (mem ?u)" if "i < 512" for i
    using so by (rule same_outside_agree) (use al a C(1,2) that in auto)
  show zero: "\<forall>i<512. pt_entry (mem ?u) a i = 0"
  proof (intro allI impI)
    fix i :: nat
    assume i: "i < 512"
    have "agree {a} (memset a 0 4096 (mem t)) (mem ?u)"
      unfolding m by (rule same_outside_agree [OF same_outside_store_entry [OF idx_less]]) (use al a in auto)
    then have "pt_entry (mem ?u) a i = pt_entry (memset a 0 4096 (mem t)) a i"
      by (rule pt_entry_agree) (use i in simp_all)
    then show "pt_entry (mem ?u) a i = 0" using i by (simp add: pt_entry_zero_page)
  qed
  have child: "PTE2PA (pt_entry (mem ?u) pt ?i) = a"
    unfolding e using a(3) by (rule new_pte) simp
  have C0: "C ?i = {}" using C(4) empty by (metis idx_less)
  have "ptree (Suc l) (mem ?u) pt (insert pt ({a} \<union> (\<Union>i\<in>{..<512} - {?i}. C i)))"
  proof (rule ptree_replace [OF C(2,3,4)])
    show "bit (pt_entry (mem ?u) pt ?i) 0" unfolding e by (rule new_pte_V)
    show "ptree l (mem ?u) (PTE2PA (pt_entry (mem ?u) pt ?i)) {a}"
      unfolding child by (rule ptree_zero(1) [OF zero])
    show "\<forall>i<512. i \<noteq> ?i \<longrightarrow> pt_entry (mem ?u) pt i = pt_entry (mem s) pt i \<and>
        agree (C i) (mem s) (mem ?u) \<and> {a} \<inter> C i = {}"
      using other agC a(1) C(1) by auto
  qed (use a in simp_all)
  moreover have "insert pt ({a} \<union> (\<Union>i\<in>{..<512} - {?i}. C i)) = T \<union> {a}"
    unfolding C(1) using C0 by auto
  ultimately have tree: "ptree (Suc l) (mem ?u) pt (T \<union> {a})" by simp
  have same: "pte_of (Suc l) pt x (mem ?u) = pte_of (Suc l) pt x (mem s)" for x
  proof (cases "idx (Suc l) x = ?i")
    case True
    then show ?thesis
      using e child empty ptree_zero(2) [OF zero] by (simp add: Let_def)
  next
    case False
    then show ?thesis
      using other [of "idx (Suc l) x"] agC [of "idx (Suc l) x"] C(4) [rule_format, of "idx (Suc l) x"]
        pte_of_agree [of l "mem s" _ "C (idx (Suc l) x)" "mem ?u" x]
      by (simp add: Let_def split: if_splits)
  qed
  have pool: "kpool_inv ?u ps"
  proof -
    have h: "held ?u = held s" "kend ?u = kend s" by (subst upd, simp)+
    have "free_chain (mem ?u) (freelist ?u) ps = free_chain (mem t) (freelist ?u) ps"
    proof (rule free_chain_frame)
      show "same_outside {a, pt} (mem t) (mem ?u)"
        unfolding m using same_outside_trans [OF same_outside_memset_page [of a "mem t" 0]
          same_outside_store_entry [OF idx_less, of pt]] by (simp add: insert_commute)
    qed (use al a ok in \<open>auto simp: tables_ok_def\<close>)
    then show ?thesis
      using run(2) ok h by (auto simp: kpool_inv_def kmem_inv_def tables_ok_def install_def set_pte_def)
  qed
  have "tables_ok ?u (Suc l) pt (T \<union> {a}) ps"
  proof -
    have "kend ?u = kend s" by (subst upd) simp
    then show ?thesis using tree pool a ok by (auto simp: tables_ok_def)
  qed
  moreover have "same_outside (T \<union> {a}) (mem s) (mem ?u)"
    using so by (rule same_outside_mono) (use a in auto)
  ultimately show "grown (Suc l) pt T (a # ps) s [a] ?u"
    using same upd by (simp add: grown_def)
qed

lemma leaf_addr_0_nonzero:
  assumes "valid_page e pt" and "0 < e"
  shows "pte_at 0 pt va \<noteq> 0"
proof -
  have "pt \<noteq> 0" "page_aligned pt"
    using assms valid_page_nonzero [of e pt] by (auto simp: valid_page_def)
  then have "unat pt + 8 * idx 0 va < 2 ^ 64"
    by (intro aligned_add_less [of 4096]) (simp_all add: page_aligned_unat dvd_eq_mod_eq_0 less_imp_le)
  then have "unat (pt + of_nat (8 * idx 0 va)) = unat pt + 8 * idx 0 va"
    by (rule unat_of_nat_add)
  moreover have "unat pt \<noteq> 0" using \<open>pt \<noteq> 0\<close> by (simp add: unat_eq_0)
  ultimately have "unat (pte_at 0 pt va) \<noteq> unat (0 :: u64)" by (simp add: pte_at_idx)
  then show ?thesis by metis
qed

lemma walk_level_grows:
  assumes "tables_ok s l pt T ps"
  shows "\<exists>r used t. walk_level l pt va True s = Done r t \<and> length used \<le> l \<and> grown l pt T ps s used t \<and>
    (if r = 0 then set ps = set used else r = leaf_addr l pt va (mem t))"
  using assms
proof (induction l arbitrary: s pt T ps)
  case 0
  have "valid_page (kend s) pt" "0 < kend s"
    using 0 by (auto simp: tables_ok_def kpool_inv_def kmem_inv_def)
  then have "pte_at 0 pt va \<noteq> 0" by (rule leaf_addr_0_nonzero)
  with grown_refl [OF 0] show ?case
    by (intro exI [of _ "pte_at 0 pt va"] exI [of _ "[]"] exI [of _ s]) simp
next
  case (Suc l)
  let ?i = "idx (Suc l) va" and ?e = "pt_entry (mem s) pt (idx (Suc l) va)"
  have entry: "get_pte s (pte_at (Suc l) pt va) = ?e"
    by (simp only: get_pte_def pt_entry_def pte_at_idx)
  show ?case
  proof (cases "bit ?e 0")
    case True
    then have "walk_level (Suc l) pt va True s = walk_level l (PTE2PA ?e) va True s"
      by (simp add: entry Let_def PTE_bits)
    then show ?thesis
      using child_grows [OF refl Suc.prems True Suc.IH] by (metis le_SucI)
  next
    case False
    then have step: "walk_level (Suc l) pt va True s = bnd (kalloc s) (\<lambda>new t.
        if new = 0 then Done 0 t else walk_level l new va True (install l pt va new t))"
      unfolding install_def by (simp add: entry Let_def PTE_bits)
    have inv: "kpool_inv s ps" using Suc.prems by (simp add: tables_ok_def)
    show ?thesis
    proof (cases ps)
      case Nil
      then have "kalloc s = Done 0 s" using inv kpool.alloc_none by blast
      then have "walk_level (Suc l) pt va True s = Done 0 s" using step by simp
      with grown_refl [OF Suc.prems] Nil show ?thesis
        by (intro exI [of _ 0] exI [of _ "[]"] exI [of _ s]) simp
    next
      case (Cons a qs)
      then obtain t where t: "kalloc s = Done a t" "kmem_inv t qs" "same_outside {a} (mem s) (mem t)"
          "held t = held s"
        using inv kalloc_inv [of s a qs] by (auto simp: kpool_inv_def)
      then have pool: "kpool_inv t qs" using inv by (simp add: kpool_inv_def)
      have "a \<noteq> 0" using inv Cons kpool.pool_pages [of s ps] by simp
      let ?u = "install l pt va a t"
      note inst = install_grows [OF Suc.prems [unfolded Cons] False t(1) pool t(3)]
      have ok: "tables_ok ?u (Suc l) pt (T \<union> {a}) qs" using inst(1) by (simp add: grown_def)
      have "valid_page (kend s) a" using Suc.prems Cons by (auto simp: tables_ok_def kpool_inv_def kmem_inv_def)
      then have "PTE2PA (PA2PTE a OR PTE_V) = a" by (rule new_pte) simp
      then have c: "a = PTE2PA (pt_entry (mem ?u) pt ?i)" using inst(2) by simp
      have v: "bit (pt_entry (mem ?u) pt ?i) 0" using inst(2) new_pte_V by simp
      obtain r used w where w: "walk_level l a va True ?u = Done r w" "length used \<le> l"
          "grown (Suc l) pt (T \<union> {a}) qs ?u used w"
          "if r = 0 then set qs = set used else r = leaf_addr (Suc l) pt va (mem w)"
        using child_grows [OF c ok v Suc.IH] by blast
      have "walk_level (Suc l) pt va True s = Done r w"
        using step t(1) \<open>a \<noteq> 0\<close> w(1) by simp
      moreover have "grown (Suc l) pt T ps s ([a] @ used) w"
        using grown_trans [of "Suc l" pt T "[a]" qs s ?u used w] inst(1) w(3) Cons by simp
      moreover have "if r = 0 then set ps = set ([a] @ used) else r = leaf_addr (Suc l) pt va (mem w)"
        using w(4) Cons by (simp split: if_splits)
      moreover have "length ([a] @ used) \<le> Suc l" using w(2) by simp
      ultimately show ?thesis by (intro exI [of _ r] exI [of _ "[a] @ used"] exI [of _ w] conjI)
    qed
  qed
qed

subsection \<open>Writing a leaf entry\<close>

lemma set_leaf:
  assumes "ptree l m pt T" and "\<forall>a \<in> T. page_aligned a" and "leaf_addr l pt va m \<noteq> 0"
  shows "\<exists>q \<in> T. same_outside {q} m (store64 (leaf_addr l pt va m) w m) \<and>
    ptree l (store64 (leaf_addr l pt va m) w m) pt T \<and>
    (\<forall>x. pte_of l pt x (store64 (leaf_addr l pt va m) w m) =
      (if \<forall>k\<le>l. idx k x = idx k va then w else pte_of l pt x m))"
  using assms
proof (induction l arbitrary: pt T)
  case 0
  then have "T = {pt}" "page_aligned pt" by simp_all
  then show ?case
    using same_outside_store_entry [OF idx_less, of pt m 0 va w]
    by (auto simp: pte_at_idx pt_entry_store_other simp del: of_nat_mult)
next
  case (Suc l)
  let ?i = "idx (Suc l) va" and ?r = "leaf_addr (Suc l) pt va m"
  let ?c = "PTE2PA (pt_entry m pt ?i)" and ?m = "store64 (leaf_addr (Suc l) pt va m) w m"
  obtain C where C: "T = insert pt (\<Union>i<512. C i)" "\<forall>i<512. pt \<notin> C i"
      "\<forall>i<512. \<forall>j<512. i \<noteq> j \<longrightarrow> C i \<inter> C j = {}"
      "\<forall>i<512. if bit (pt_entry m pt i) 0 then ptree l m (PTE2PA (pt_entry m pt i)) (C i) else C i = {}"
    using Suc.prems(1) unfolding ptree.simps by blast
  have v: "bit (pt_entry m pt ?i) 0" "?r = leaf_addr l ?c va m"
    using Suc.prems(3) by (auto simp: Let_def split: if_splits)
  then have tree: "ptree l m ?c (C ?i)" using C(4) by (metis idx_less)
  have Ci: "C ?i \<subseteq> T" using C(1) by auto
  obtain q where q: "q \<in> C ?i" "same_outside {q} m ?m" "ptree l ?m ?c (C ?i)"
      "\<forall>x. pte_of l ?c x ?m = (if \<forall>k\<le>l. idx k x = idx k va then w else pte_of l ?c x m)"
  proof -
    have al: "\<forall>a \<in> C ?i. page_aligned a" using Suc.prems(2) Ci by blast
    have nz: "leaf_addr l ?c va m \<noteq> 0" using Suc.prems(3) v(2) by metis
    from Suc.IH [OF tree al nz] that show thesis unfolding v(2) [symmetric] by blast
  qed
  have ag: "agree S m ?m" if "S \<subseteq> T" "q \<notin> S" for S
    using q(2) by (rule same_outside_agree) (use that Suc.prems(2) q(1) Ci in auto)
  have pt: "pt_entry ?m pt i = pt_entry m pt i" if "i < 512" for i
    by (rule pt_entry_agree [OF ag [of "{pt}"]]) (use C(1,2) q(1) that idx_less in auto)
  have agC: "agree (C i) m ?m" if "i < 512" "i \<noteq> ?i" for i
    using C(1,3) that q(1) by (intro ag) (auto simp: set_eq_iff)
  have "ptree (Suc l) ?m pt (insert pt (C ?i \<union> (\<Union>i\<in>{..<512} - {?i}. C i)))"
    by (rule ptree_replace [OF C(2,3,4)]) (use v(1) pt q(3) agC C(2,3) in auto)
  moreover have "insert pt (C ?i \<union> (\<Union>i\<in>{..<512} - {?i}. C i)) = T"
    using idx_less [of "Suc l" va] unfolding C(1) by (auto simp del: idx_less)
  moreover have "pte_of (Suc l) pt x ?m =
      (if \<forall>k\<le>Suc l. idx k x = idx k va then w else pte_of (Suc l) pt x m)" for x
  proof (cases "idx (Suc l) x = ?i")
    case True
    then show ?thesis using pt [of ?i] v(1) q(4) by (auto simp: Let_def le_Suc_eq)
  next
    case False
    then show ?thesis
      using pt [of "idx (Suc l) x"] agC [of "idx (Suc l) x"] C(4) [rule_format, of "idx (Suc l) x"]
        pte_of_agree [of l m _ "C (idx (Suc l) x)" ?m x]
      by (auto simp: Let_def split: if_splits)
  qed
  ultimately show ?case using q(1,2) Ci by (intro bexI [of _ q]) auto
qed

lemma PX_PGROUNDDOWN: "PX k (PGROUNDDOWN x) = PX k x"
  by (rule bit_word_eqI)
    (auto simp: bit_PX PGROUNDDOWN_mask bit_and_iff bit_not_iff bit_mask_iff dest: bit_imp_le_length)

lemma idx_all_iff:
  assumes "page_aligned va" "va < MAXVA" "x < MAXVA"
  shows "(\<forall>k\<le>2. idx k x = idx k va) \<longleftrightarrow> PGROUNDDOWN x = va"
proof
  assume "\<forall>k\<le>2. idx k x = idx k va"
  then have px: "PX k (PGROUNDDOWN x) = PX k va" if "k \<le> 2" for k
    using that by (simp add: idx_def word_unat_eq_iff PX_PGROUNDDOWN)
  have lt: "unat x < 2 ^ 38" "unat va < 2 ^ 38"
    using assms(2,3) by (simp_all add: word_less_nat_alt)
  show "PGROUNDDOWN x = va"
  proof (rule PX_inj)
    show "unat (PGROUNDDOWN x) < 2 ^ 38" using PGROUNDDOWN_le lt(1) by (rule le_less_trans)
  qed (use assms(1) lt px in \<open>simp_all only: page_aligned_PGROUNDDOWN order_refl one_le_numeral zero_le\<close>)
next
  assume "PGROUNDDOWN x = va"
  then show "\<forall>k\<le>2. idx k x = idx k va" using PX_PGROUNDDOWN by (auto simp: idx_def)
qed

text \<open>
  \<open>uvm_lookup s pt va\<close>: the leaf entry of \<open>va\<close> in the user or kernel page table \<open>pt\<close>.
\<close>

definition uvm_lookup :: "'z pmem_scheme \<Rightarrow> u64 \<Rightarrow> u64 \<Rightarrow> u64" where
  "uvm_lookup s pt va = (if va < MAXVA then pte_of 2 pt va (mem s) else 0)"

lemma pte_of_PGROUNDDOWN: "pte_of l pt (PGROUNDDOWN x) m = pte_of l pt x m"
  by (induction l arbitrary: pt) (simp_all add: idx_def PX_PGROUNDDOWN Let_def)

lemma set_pte_lookup:
  assumes ok: "tables_ok s 2 pt T ps" and va: "page_aligned va" "va < MAXVA"
    and r: "r = leaf_addr 2 pt va (mem s)" "r \<noteq> 0"
  shows "tables_ok (set_pte r w s) 2 pt T ps"
    and "uvm_lookup (set_pte r w s) pt x =
      (if x < MAXVA \<and> PGROUNDDOWN x = va then w else uvm_lookup s pt x)"
    and "\<exists>q \<in> T. same_outside {q} (mem s) (mem (set_pte r w s))"
proof -
  have al: "\<forall>a \<in> T. page_aligned a" "\<forall>a \<in> set ps. page_aligned a"
    using tables_ok_aligned [OF ok] by auto
  obtain q where q: "q \<in> T" "same_outside {q} (mem s) (store64 r w (mem s))"
      "ptree 2 (store64 r w (mem s)) pt T"
      "\<forall>x. pte_of 2 pt x (store64 r w (mem s)) =
        (if \<forall>k\<le>2. idx k x = idx k va then w else pte_of 2 pt x (mem s))"
    using set_leaf [of 2 "mem s" pt T va w] ok al r by (auto simp: tables_ok_def)
  have "free_chain (store64 r w (mem s)) (freelist s) ps = free_chain (mem s) (freelist s) ps"
    using q(2) by (rule free_chain_frame) (use al q(1) ok in \<open>auto simp: tables_ok_def\<close>)
  then show "tables_ok (set_pte r w s) 2 pt T ps"
    using ok q(3) by (auto simp: tables_ok_def set_pte_def kpool_inv_def kmem_inv_def)
  show "uvm_lookup (set_pte r w s) pt x =
      (if x < MAXVA \<and> PGROUNDDOWN x = va then w else uvm_lookup s pt x)"
    using q(4) idx_all_iff [OF va, of x] by (simp add: uvm_lookup_def set_pte_def)
  show "\<exists>q \<in> T. same_outside {q} (mem s) (mem (set_pte r w s))"
    using q(1,2) by (auto simp: set_pte_def)
qed

subsection \<open>mappages\<close>

text \<open>
  \<open>moved pt T ps s used t\<close>: from \<open>s\<close> to \<open>t\<close> the pages \<open>used\<close> went from the front of the free list
  \<open>ps\<close> into the page table \<open>pt\<close> with table pages \<open>T\<close>, and no other memory was written.
\<close>

definition moved ::
  "u64 \<Rightarrow> u64 set \<Rightarrow> u64 list \<Rightarrow> 'z pmem_scheme \<Rightarrow> u64 list \<Rightarrow> 'z pmem_scheme \<Rightarrow> bool" where
  "moved pt T ps s used t \<longleftrightarrow>
     (\<exists>ps'. ps = used @ ps' \<and> tables_ok t 2 pt (T \<union> set used) ps') \<and>
     same_outside (T \<union> set used) (mem s) (mem t) \<and>
     t = s\<lparr>mem := mem t, freelist := freelist t\<rparr>"

lemma moved_trans:
  assumes "moved pt T (u @ ps) s u t" and "moved pt (T \<union> set u) ps t v w"
  shows "moved pt T (u @ ps) s (u @ v) w"
proof -
  have "w = s\<lparr>mem := mem w, freelist := freelist w\<rparr>"
    using assms frame_trans [of t s w] by (simp add: moved_def)
  moreover have "same_outside (T \<union> set (u @ v)) (mem s) (mem w)"
    using same_outside_trans [of "T \<union> set u" "mem s" "mem t" "T \<union> set u \<union> set v" "mem w"] assms
    by (auto simp: moved_def Un_ac elim: same_outside_mono)
  ultimately show ?thesis using assms by (auto simp: moved_def Un_assoc)
qed

lemma walk_moves:
  assumes "tables_ok s 2 pt T ps" and "va < MAXVA"
  shows "\<exists>r used t. walk pt va True s = Done r t \<and> length used \<le> 2 \<and> moved pt T ps s used t \<and>
    (\<forall>x. uvm_lookup t pt x = uvm_lookup s pt x) \<and>
    (if r = 0 then set ps = set used else r = leaf_addr 2 pt va (mem t))"
proof -
  obtain r used t where "walk_level 2 pt va True s = Done r t" "length used \<le> 2" "grown 2 pt T ps s used t"
      "if r = 0 then set ps = set used else r = leaf_addr 2 pt va (mem t)"
    using walk_level_grows [OF assms(1)] by blast
  with assms(2) show ?thesis
    by (intro exI [of _ r] exI [of _ used] exI [of _ t])
      (auto simp: walk_def grown_def moved_def uvm_lookup_def)
qed

lemma page_of_iff:
  assumes "page_aligned a"
  shows "PGROUNDDOWN x = a \<longleftrightarrow> unat a \<le> unat x \<and> unat x < unat a + 4096"
proof
  assume "PGROUNDDOWN x = a"
  then have "unat a = unat x div 4096 * 4096" by (auto simp: unat_PGROUNDDOWN)
  then show "unat a \<le> unat x \<and> unat x < unat a + 4096"
    using div_mult_mod_eq [of "unat x" 4096] mod_less_divisor [of 4096 "unat x"] by linarith
next
  assume r: "unat a \<le> unat x \<and> unat x < unat a + 4096"
  obtain q where q: "unat a = q * 4096"
    using assms unfolding page_aligned_unat by (metis div_mult_mod_eq add_0_right)
  have "unat x div 4096 = q" using r q by (intro div_nat_eqI) auto
  then show "PGROUNDDOWN x = a" by (simp add: word_unat_eq_iff unat_PGROUNDDOWN q)
qed

lemma page_end_below:
  assumes "page_aligned a" and "unat a < 2 ^ 38"
  shows "unat a + 4096 \<le> 2 ^ 38"
proof -
  obtain q where q: "unat a = q * 4096"
    using assms unfolding page_aligned_unat by (metis div_mult_mod_eq add_0_right)
  then have "q < 67108864" using assms(2) by simp
  then show ?thesis using q by simp
qed

lemma page_below_MAXVA:
  assumes "page_aligned a" and "a < MAXVA" and "PGROUNDDOWN x = a"
  shows "x < MAXVA"
  using page_end_below [OF assms(1)] page_of_iff [OF assms(1), of x] assms(2,3)
  by (simp add: word_less_nat_alt)

lemma uvm_lookup_page: "PGROUNDDOWN x = a \<Longrightarrow> a < MAXVA \<Longrightarrow> uvm_lookup s pt x = uvm_lookup s pt a"
  using page_below_MAXVA [of a x] pte_of_PGROUNDDOWN [of 2 pt x "mem s"]
  by (auto simp: uvm_lookup_def)

text \<open>One page: the first turn of the loop.\<close>

lemma map_one:
  assumes ok: "tables_ok s 2 pt T ps" and a: "page_aligned a" "a < MAXVA"
    and free: "\<not> bit (uvm_lookup s pt a) 0"
  shows "\<exists>r used t. walk pt a True s = Done r t \<and> length used \<le> 2 \<and> moved pt T ps s used t \<and>
    (if r = 0 then set ps = set used \<and> (\<forall>x. uvm_lookup t pt x = uvm_lookup s pt x)
     else \<not> bit (get_pte t r) 0 \<and> moved pt T ps s used (set_pte r w t) \<and>
       (\<forall>x. uvm_lookup (set_pte r w t) pt x =
         (if x < MAXVA \<and> PGROUNDDOWN x = a then w else uvm_lookup s pt x)))"
proof -
  obtain r used t where w: "walk pt a True s = Done r t" "length used \<le> 2" "moved pt T ps s used t"
      "\<forall>x. uvm_lookup t pt x = uvm_lookup s pt x"
      "if r = 0 then set ps = set used else r = leaf_addr 2 pt a (mem t)"
    using walk_moves [OF ok a(2)] by blast
  show ?thesis
  proof (cases "r = 0")
    case True
    with w show ?thesis by auto
  next
    case False
    with w(5) have r: "r = leaf_addr 2 pt a (mem t)" by simp
    obtain ps' where ps': "ps = used @ ps'" "tables_ok t 2 pt (T \<union> set used) ps'"
      using w(3) by (auto simp: moved_def)
    note set = set_pte_lookup [OF ps'(2) a r False]
    have "get_pte t r = uvm_lookup s pt a"
      using leaf_pte [of 2 pt a "mem t"] w(4) [rule_format, of a] r False a(2)
      by (simp add: get_pte_def uvm_lookup_def)
    moreover have "moved pt T ps s used (set_pte r w t)"
    proof -
      have "mem (set_pte r w t) = store64 r w (mem t)" "freelist (set_pte r w t) = freelist t"
        by (simp_all add: set_pte_def)
      moreover have "set_pte r w t = s\<lparr>mem := mem (set_pte r w t), freelist := freelist (set_pte r w t)\<rparr>"
        unfolding set_pte_def using w(3) frame_mem_update [of t s "store64 r w (mem t)"]
        by (simp add: moved_def)
      moreover have "same_outside (T \<union> set used) (mem s) (mem (set_pte r w t))"
      proof -
        obtain q where "q \<in> T \<union> set used" "same_outside {q} (mem t) (mem (set_pte r w t))"
          using set(3) by blast
        then show ?thesis
          using w(3) same_outside_trans [of "T \<union> set used" "mem s" "mem t" "{q}" "mem (set_pte r w t)"]
          by (auto simp: moved_def insert_absorb)
      qed
      ultimately show ?thesis using ps'(1) set(1) unfolding moved_def by blast
    qed
    ultimately show ?thesis using w set(2) False free by auto
  qed
qed

lemma mappages_loop_maps:
  assumes "tables_ok s 2 pt T ps" and "page_aligned a" and "unat a + n * 4096 < 2 ^ 38"
    and "\<forall>x. unat a \<le> unat x \<and> unat x < unat a + Suc n * 4096 \<longrightarrow> \<not> bit (uvm_lookup s pt x) 0"
  shows "\<exists>r used t. mappages_loop pt a (a + of_nat (n * 4096)) pa perm s = Done r t \<and>
    length used \<le> 2 * Suc n \<and> moved pt T ps s used t \<and>
    (if r = 0 then \<forall>x. uvm_lookup t pt x =
        (if unat a \<le> unat x \<and> unat x < unat a + Suc n * 4096
         then PA2PTE (pa + (PGROUNDDOWN x - a)) OR perm OR PTE_V else uvm_lookup s pt x)
     else r = -1 \<and> set ps = set used \<and>
       (\<forall>x. \<not> (unat a \<le> unat x \<and> unat x < unat a + Suc n * 4096) \<longrightarrow> uvm_lookup t pt x = uvm_lookup s pt x))"
  using assms
proof (induction n arbitrary: s T ps a pa)
  case 0
  let ?w = "PA2PTE pa OR perm OR PTE_V"
  have a: "a < MAXVA" using 0 by (simp add: word_less_nat_alt)
  have in_range: "unat a \<le> unat x \<and> unat x < unat a + Suc 0 * 4096 \<longleftrightarrow> x < MAXVA \<and> PGROUNDDOWN x = a" for x
  proof -
    have "x < MAXVA" if "unat x < unat a + 4096"
      using that 0(3) page_end_below [OF 0(2)] by (simp add: word_less_nat_alt)
    then show ?thesis using page_of_iff [OF 0(2), of x] by auto
  qed
  have free: "\<not> bit (uvm_lookup s pt a) 0" using 0(4) by simp
  obtain r used t where one: "walk pt a True s = Done r t" "length used \<le> 2" "moved pt T ps s used t"
      "if r = 0 then set ps = set used \<and> (\<forall>x. uvm_lookup t pt x = uvm_lookup s pt x)
       else \<not> bit (get_pte t r) 0 \<and> moved pt T ps s used (set_pte r ?w t) \<and>
         (\<forall>x. uvm_lookup (set_pte r ?w t) pt x =
           (if x < MAXVA \<and> PGROUNDDOWN x = a then ?w else uvm_lookup s pt x))"
    using map_one [OF 0(1,2) a free] by blast
  show ?case
  proof (cases "r = 0")
    case True
    then have "mappages_loop pt a (a + of_nat (0 * 4096)) pa perm s = Done (-1) t"
      using one(1) by (simp add: mappages_loop.simps [of pt a])
    then show ?thesis using one True by auto
  next
    case False
    then have "mappages_loop pt a (a + of_nat (0 * 4096)) pa perm s = Done 0 (set_pte r ?w t)"
      using one(1,4) by (simp add: mappages_loop.simps [of pt a] PTE_bits)
    moreover have "uvm_lookup (set_pte r ?w t) pt x =
        (if unat a \<le> unat x \<and> unat x < unat a + Suc 0 * 4096
         then PA2PTE (pa + (PGROUNDDOWN x - a)) OR perm OR PTE_V else uvm_lookup s pt x)" for x
      using one(4) False in_range [of x] by simp
    ultimately show ?thesis using one(2,4) False by auto
  qed
next
  case (Suc n)
  let ?w = "PA2PTE pa OR perm OR PTE_V" and ?lst = "a + of_nat (Suc n * 4096)"
  have a: "a < MAXVA" using Suc.prems by (simp add: word_less_nat_alt)
  have up: "unat (a + 4096) = unat a + 4096" by (rule next_page_below_MAXVA [OF a])
  have free: "\<not> bit (uvm_lookup s pt a) 0" using Suc.prems(4) by simp
  have lst: "a \<noteq> ?lst" "?lst = (a + 4096) + of_nat (n * 4096)"
  proof -
    have "unat ?lst = unat a + Suc n * 4096"
      using Suc.prems(3) by (intro unat_of_nat_add) simp
    then show "a \<noteq> ?lst" by auto
  qed (simp add: algebra_simps)
  obtain r used t where one: "walk pt a True s = Done r t" "length used \<le> 2" "moved pt T ps s used t"
      "if r = 0 then set ps = set used \<and> (\<forall>x. uvm_lookup t pt x = uvm_lookup s pt x)
       else \<not> bit (get_pte t r) 0 \<and> moved pt T ps s used (set_pte r ?w t) \<and>
         (\<forall>x. uvm_lookup (set_pte r ?w t) pt x =
           (if x < MAXVA \<and> PGROUNDDOWN x = a then ?w else uvm_lookup s pt x))"
    using map_one [OF Suc.prems(1,2) a free] by blast
  show ?case
  proof (cases "r = 0")
    case True
    then have "mappages_loop pt a ?lst pa perm s = Done (-1) t"
      using one(1) by (simp add: mappages_loop.simps [of pt a])
    then show ?thesis using one True by (intro exI [of _ "-1"] exI [of _ used] exI [of _ t]) auto
  next
    case False
    let ?t = "set_pte r ?w t"
    have mv: "moved pt T ps s used ?t" and
      look: "\<And>x. uvm_lookup ?t pt x =
           (if x < MAXVA \<and> PGROUNDDOWN x = a then ?w else uvm_lookup s pt x)"
      using one(4) False by auto
    obtain ps' where ps': "ps = used @ ps'" "tables_ok ?t 2 pt (T \<union> set used) ps'"
      using mv by (auto simp: moved_def)
    have step: "mappages_loop pt a ?lst pa perm s = mappages_loop pt (a + 4096) ?lst (pa + 4096) perm ?t"
      using one(1,4) False lst(1) by (simp add: mappages_loop.simps [of pt a] PTE_bits)
    have "page_aligned (a + 4096)"
      using Suc.prems(2) up by (simp add: page_aligned_unat mod_add_self2)
    moreover have "\<forall>x. unat (a + 4096) \<le> unat x \<and> unat x < unat (a + 4096) + Suc n * 4096 \<longrightarrow>
        \<not> bit (uvm_lookup ?t pt x) 0"
      using Suc.prems(4) up look page_of_iff [OF Suc.prems(2)] by auto
    ultimately obtain r' v u where rest:
        "mappages_loop pt (a + 4096) (a + 4096 + of_nat (n * 4096)) (pa + 4096) perm ?t = Done r' u"
        "length v \<le> 2 * Suc n"
        "moved pt (T \<union> set used) ps' ?t v u"
        "if r' = 0 then \<forall>x. uvm_lookup u pt x =
          (if unat (a + 4096) \<le> unat x \<and> unat x < unat (a + 4096) + Suc n * 4096
           then PA2PTE (pa + 4096 + (PGROUNDDOWN x - (a + 4096))) OR perm OR PTE_V else uvm_lookup ?t pt x)
         else r' = -1 \<and> set ps' = set v \<and> (\<forall>x. \<not> (unat (a + 4096) \<le> unat x \<and>
           unat x < unat (a + 4096) + Suc n * 4096) \<longrightarrow> uvm_lookup u pt x = uvm_lookup ?t pt x)"
      using Suc.IH [OF ps'(2), of "a + 4096" "pa + 4096"] Suc.prems(3) up by auto
    have "moved pt T ps s (used @ v) u"
      using moved_trans [of pt T used ps' s ?t v u] mv rest(3) ps'(1) by simp
    moreover have "if r' = 0 then \<forall>x. uvm_lookup u pt x =
        (if unat a \<le> unat x \<and> unat x < unat a + Suc (Suc n) * 4096
         then PA2PTE (pa + (PGROUNDDOWN x - a)) OR perm OR PTE_V else uvm_lookup s pt x)
       else r' = -1 \<and> set ps = set (used @ v) \<and>
         (\<forall>x. \<not> (unat a \<le> unat x \<and> unat x < unat a + Suc (Suc n) * 4096) \<longrightarrow>
            uvm_lookup u pt x = uvm_lookup s pt x)"
    proof -
      have off: "pa + 4096 + (PGROUNDDOWN x - (a + 4096)) = pa + (PGROUNDDOWN x - a)" for x
        by (simp add: algebra_simps)
      have below: "x < MAXVA \<and> PGROUNDDOWN x = a \<longleftrightarrow> unat a \<le> unat x \<and> unat x < unat a + 4096" for x
        using page_of_iff [OF Suc.prems(2), of x] Suc.prems(3) by (auto simp: word_less_nat_alt)
      show ?thesis
      proof (cases "r' = 0")
        case True
        have "uvm_lookup u pt x = (if unat a \<le> unat x \<and> unat x < unat a + Suc (Suc n) * 4096
           then PA2PTE (pa + (PGROUNDDOWN x - a)) OR perm OR PTE_V else uvm_lookup s pt x)" for x
        proof (cases "unat a \<le> unat x \<and> unat x < unat a + 4096")
          case page: True
          then have "PGROUNDDOWN x = a" using page_of_iff [OF Suc.prems(2)] by blast
          moreover have "uvm_lookup u pt x = uvm_lookup ?t pt x"
            using rest(4) True page unfolding up by auto
          ultimately show ?thesis using look [of x] below [of x] page by simp
        next
          case page: False
          then show ?thesis using rest(4) True look [of x] below [of x] unfolding off up by auto
        qed
        then show ?thesis using True by simp
      next
        case False
        have "uvm_lookup u pt x = uvm_lookup s pt x"
          if "\<not> (unat a \<le> unat x \<and> unat x < unat a + Suc (Suc n) * 4096)" for x
        proof -
          have "uvm_lookup u pt x = uvm_lookup ?t pt x"
            using rest(4) False that unfolding up by auto
          then show ?thesis using look [of x] below [of x] that by auto
        qed
        then show ?thesis using rest(4) False ps'(1) by auto
      qed
    qed
    moreover have "mappages_loop pt a ?lst pa perm s = Done r' u"
      using step rest(1) unfolding lst(2) by (rule trans)
    moreover have "length (used @ v) \<le> 2 * Suc (Suc n)" using one(2) rest(2) by simp
    ultimately show ?thesis by (intro exI [of _ r'] exI [of _ "used @ v"] exI [of _ u] conjI)
  qed
qed

lemma mod_4096_Suc:
  assumes "0 < (n :: nat)" and "n mod 4096 = 0"
  obtains k where "n = Suc k * 4096"
proof -
  obtain q where "n = q * 4096" using assms(2) by (metis div_mult_mod_eq add_0_right)
  with assms(1) that show thesis by (cases q) auto
qed

lemma mappages_loop_of:
  assumes "sz mod PGSIZE = 0" "va mod PGSIZE = 0" "sz \<noteq> 0" "unat sz = Suc n * 4096"
  shows "mappages pt va sz pa perm s = mappages_loop pt va (va + of_nat (n * 4096)) pa perm s"
proof -
  have "sz = of_nat (Suc n * 4096)" using assms(4) by (metis of_nat_unat ucast_id)
  then have "va + sz - 4096 = va + of_nat (n * 4096)" by (simp add: algebra_simps)
  moreover have "mappages pt va sz pa perm s = mappages_loop pt va (va + sz - 4096) pa perm s"
    using assms(1-3) by (simp add: mappages_def)
  ultimately show ?thesis by (simp only:)
qed

text \<open>
  C10: \<open>mappages\<close> on a well-formed page table and an unmapped, page-aligned range below \<open>MAXVA\<close>. It
  never panics; it takes the table pages it needs from the free list, two for a page of the range at most,
  and writes no other memory. When
  it returns 0 every address of the range translates to its offset in \<open>pa\<close> with the permissions asked
  for and every other address translates as before; when it returns -1 the free list ran out and no
  address outside the range has changed.
\<close>
theorem mappages_maps:
  assumes "tables_ok s 2 pt T ps" and "page_aligned va" and "unat sz mod 4096 = 0" and "sz \<noteq> 0"
    and "unat va + unat sz \<le> 2 ^ 38"
    and "\<forall>x. unat va \<le> unat x \<and> unat x < unat va + unat sz \<longrightarrow> \<not> bit (uvm_lookup s pt x) 0"
  shows "\<exists>r used t. mappages pt va sz pa perm s = Done r t \<and>
    length used \<le> 2 * (unat sz div 4096) \<and> moved pt T ps s used t \<and>
    (if r = 0 then \<forall>x. uvm_lookup t pt x =
        (if unat va \<le> unat x \<and> unat x < unat va + unat sz
         then PA2PTE (pa + (PGROUNDDOWN x - va)) OR perm OR PTE_V else uvm_lookup s pt x)
     else r = -1 \<and> set ps = set used \<and>
       (\<forall>x. \<not> (unat va \<le> unat x \<and> unat x < unat va + unat sz) \<longrightarrow> uvm_lookup t pt x = uvm_lookup s pt x))"
proof -
  have "0 < unat sz" using assms(4) by (metis neq0_conv unat_eq_0)
  then obtain n where n: "unat sz = Suc n * 4096" using assms(3) by (rule mod_4096_Suc)
  have "sz mod PGSIZE = 0" "va mod PGSIZE = 0"
    using assms(2,3) by (simp_all add: page_aligned_def word_unat_eq_iff unat_mod)
  then have run: "mappages pt va sz pa perm s = mappages_loop pt va (va + of_nat (n * 4096)) pa perm s"
    using assms(4) n by (intro mappages_loop_of)
  show ?thesis
    unfolding run n using mappages_loop_maps [of s pt T ps va n pa perm] assms n by simp
qed

subsection \<open>walkaddr and uvmunmap\<close>

lemma leaf_zero_pte:
  "ptree l m pt T \<Longrightarrow> \<forall>a \<in> T. valid_page e a \<Longrightarrow> 0 < e \<Longrightarrow> leaf_addr l pt va m = 0 \<Longrightarrow> pte_of l pt va m = 0"
proof (induction l arbitrary: pt T)
  case 0
  then show ?case using leaf_addr_0_nonzero [of e pt va] by simp
next
  case (Suc l)
  let ?i = "idx (Suc l) va"
  obtain C where C: "T = insert pt (\<Union>i<512. C i)"
      "\<forall>i<512. if bit (pt_entry m pt i) 0 then ptree l m (PTE2PA (pt_entry m pt i)) (C i) else C i = {}"
    using Suc.prems(1) unfolding ptree.simps by blast
  have "C ?i \<subseteq> T" using C(1) by auto
  moreover have "bit (pt_entry m pt ?i) 0 \<Longrightarrow> ptree l m (PTE2PA (pt_entry m pt ?i)) (C ?i)"
    using C(2) by (metis idx_less)
  moreover have "\<forall>a \<in> C ?i. valid_page e a" using Suc.prems(2) \<open>C ?i \<subseteq> T\<close> by blast
  ultimately show ?case
    using Suc.IH [of "PTE2PA (pt_entry m pt ?i)" "C ?i"] Suc.prems(3,4) by (simp add: Let_def split: if_splits)
qed

lemma walk_lookup:
  assumes "tables_ok s 2 pt T ps" and "va < MAXVA"
  shows "\<exists>r. walk pt va False s = Done r s \<and> r = leaf_addr 2 pt va (mem s) \<and>
    (if r = 0 then uvm_lookup s pt va = 0 else get_pte s r = uvm_lookup s pt va)"
proof -
  have "leaf_addr 2 pt va (mem s) = 0 \<Longrightarrow> pte_of 2 pt va (mem s) = 0"
    using assms(1) by (intro leaf_zero_pte [of 2 _ _ T "kend s"])
      (auto simp: tables_ok_def kpool_inv_def kmem_inv_def)
  then show ?thesis
    using assms(2) leaf_pte [of 2 pt va "mem s"]
    by (simp add: walk_def walk_level_no_alloc uvm_lookup_def get_pte_def)
qed

lemma walkaddr_lookup:
  assumes "tables_ok s 2 pt T ps"
  shows "walkaddr pt va s =
    Done (if bit (uvm_lookup s pt va) 0 \<and> bit (uvm_lookup s pt va) 4 then PTE2PA (uvm_lookup s pt va) else 0) s"
proof (cases "va < MAXVA")
  case True
  with walk_lookup [OF assms True] show ?thesis
    by (auto simp: walkaddr_def PTE_bits_zero split: if_splits)
next
  case False
  then have "uvm_lookup s pt va = 0" by (simp add: uvm_lookup_def)
  with False show ?thesis by (simp add: walkaddr_def not_less)
qed

text \<open>The physical pages mapped in a range, in the order \<open>uvmunmap\<close> meets them.\<close>

primrec leaf_pages :: "'z pmem_scheme \<Rightarrow> u64 \<Rightarrow> u64 \<Rightarrow> nat \<Rightarrow> u64 list" where
  "leaf_pages s pt a 0 = []"
| "leaf_pages s pt a (Suc n) =
     (if bit (uvm_lookup s pt a) 0 then [PTE2PA (uvm_lookup s pt a)] else []) @ leaf_pages s pt (a + 4096) n"

definition in_range :: "u64 \<Rightarrow> nat \<Rightarrow> u64 \<Rightarrow> bool" where
  "in_range a n x \<longleftrightarrow> unat a \<le> unat x \<and> unat x < unat a + n"

lemma leaf_addr_agree: "ptree l m pt T \<Longrightarrow> agree T m m' \<Longrightarrow> leaf_addr l pt va m' = leaf_addr l pt va m"
proof (induction l arbitrary: pt T)
  case (Suc l)
  then obtain C where T: "T = insert pt (\<Union>i<512. C i)" and
    sub: "\<forall>i<512. if bit (pt_entry m pt i) 0 then ptree l m (PTE2PA (pt_entry m pt i)) (C i) else C i = {}"
    by auto
  let ?i = "idx (Suc l) va"
  have e: "pt_entry m' pt ?i = pt_entry m pt ?i"
    using Suc.prems by (intro pt_entry_agree) (auto simp: T)
  have "agree (C ?i) m m'"
    using Suc.prems(2) by (rule agree_mono) (auto simp: T)
  moreover have "bit (pt_entry m pt ?i) 0 \<Longrightarrow> ptree l m (PTE2PA (pt_entry m pt ?i)) (C ?i)"
    using sub [rule_format, of ?i] by simp
  ultimately show ?case
    using Suc.IH [of "PTE2PA (pt_entry m pt ?i)" "C ?i"] e by (simp add: Let_def)
qed simp

lemma leaf_pages_cong:
  "(\<And>x. unat a \<le> unat x \<Longrightarrow> uvm_lookup t pt x = uvm_lookup s pt x) \<Longrightarrow> unat a + n * 4096 < 2 ^ 64 \<Longrightarrow>
    leaf_pages t pt a n = leaf_pages s pt a n"
proof (induction n arbitrary: a)
  case (Suc n)
  have "unat (a + 4096) = unat a + 4096" by (subst unat_add64) (use Suc.prems in simp_all)
  then show ?case using Suc.IH [of "a + 4096"] Suc.prems by simp
qed simp

text \<open>Giving a data page back to the allocator leaves the page table alone.\<close>

lemma free_leaf:
  assumes ok: "tables_ok s 2 pt T ps" and pa: "valid_page (kend s) pa" "pa \<notin> set ps" "pa \<notin> T"
  shows "\<exists>t. kfree pa s = Done () t \<and> tables_ok t 2 pt T (pa # ps) \<and> same_outside {pa} (mem s) (mem t) \<and>
    t = s\<lparr>mem := mem t, freelist := freelist t\<rparr> \<and> (\<forall>x. uvm_lookup t pt x = uvm_lookup s pt x) \<and>
    (\<forall>x. leaf_addr 2 pt x (mem t) = leaf_addr 2 pt x (mem s))"
proof -
  obtain t where t: "kfree pa s = Done () t" "kmem_inv t (pa # ps)" "same_outside {pa} (mem s) (mem t)"
      "held t = held s" "kend t = kend s"
    using kfree_inv [of s ps pa] ok pa by (auto simp: tables_ok_def kpool_inv_def returns_def)
  have tree: "ptree 2 (mem s) pt T" using ok by (simp add: tables_ok_def)
  have ag: "agree T (mem s) (mem t)"
    using t(3) by (rule same_outside_agree) (use tables_ok_aligned [OF ok] pa in \<open>auto simp: valid_page_def\<close>)
  have "tables_ok t 2 pt T (pa # ps)"
    using ok t pa ptree_agree [OF tree ag] by (auto simp: tables_ok_def kpool_inv_def)
  moreover have "\<forall>x. uvm_lookup t pt x = uvm_lookup s pt x"
    using pte_of_agree [OF tree ag] by (simp add: uvm_lookup_def)
  ultimately show ?thesis
    using t(1,3) kfree_frame [OF t(1)] leaf_addr_agree [OF tree ag] by blast
qed

lemma uvmunmap_loop_frees:
  assumes "tables_ok s 2 pt T ps" and "page_aligned a" and "unat a + n * 4096 \<le> 2 ^ 38"
    and "distinct (leaf_pages s pt a n)" and "set (leaf_pages s pt a n) \<inter> (T \<union> set ps) = {}"
    and "\<forall>q \<in> set (leaf_pages s pt a n). valid_page (kend s) q"
    and "\<forall>x. in_range a (n * 4096) x \<longrightarrow> bit (uvm_lookup s pt x) 0 \<longrightarrow> PTE_FLAGS (uvm_lookup s pt x) \<noteq> PTE_V"
  shows "\<exists>t. uvmunmap_loop pt a (a + of_nat (n * 4096)) True s = Done () t \<and>
    tables_ok t 2 pt T (rev (leaf_pages s pt a n) @ ps) \<and>
    (\<forall>x. uvm_lookup t pt x =
      (if in_range a (n * 4096) x \<and> bit (uvm_lookup s pt x) 0 then 0 else uvm_lookup s pt x)) \<and>
    same_outside (T \<union> set (leaf_pages s pt a n)) (mem s) (mem t)"
  using assms
proof (induction n arbitrary: s a ps)
  case 0
  have "\<not> in_range a (0 * 4096) x" for x by (simp add: in_range_def)
  with 0 show ?case by (simp add: uvmunmap_loop.simps [of pt a])
next
  case (Suc n)
  let ?lst = "a + of_nat (Suc n * 4096)" and ?e = "uvm_lookup s pt a"
  have a: "a < MAXVA" using Suc.prems(3) by (simp add: word_less_nat_alt)
  have up: "unat (a + 4096) = unat a + 4096" by (rule next_page_below_MAXVA [OF a])
  have "unat ?lst = unat a + Suc n * 4096" using Suc.prems(3) by (intro unat_of_nat_add) simp
  then have lst: "a < ?lst" "?lst = (a + 4096) + of_nat (n * 4096)"
    by (simp_all add: word_less_nat_alt algebra_simps)
  have al: "page_aligned (a + 4096)" using Suc.prems(2) up by (simp add: page_aligned_unat mod_add_self2)
  have rng: "in_range a (Suc n * 4096) x \<longleftrightarrow> PGROUNDDOWN x = a \<or> in_range (a + 4096) (n * 4096) x" for x
    using page_of_iff [OF Suc.prems(2), of x] up by (auto simp: in_range_def)
  obtain r where r: "walk pt a False s = Done r s" "r = leaf_addr 2 pt a (mem s)"
      "if r = 0 then ?e = 0 else get_pte s r = ?e"
    using walk_lookup [OF Suc.prems(1) a] by blast
  show ?case
  proof (cases "bit ?e 0")
    case False
    then have step: "uvmunmap_loop pt a ?lst True s = uvmunmap_loop pt (a + 4096) ?lst True s"
      using r(1,3) lst(1) by (auto simp: uvmunmap_loop.simps [of pt a] PTE_bits_zero split: if_splits)
    have L: "leaf_pages s pt a (Suc n) = leaf_pages s pt (a + 4096) n" using False by simp
    have "in_range (a + 4096) (n * 4096) x \<and> bit (uvm_lookup s pt x) 0 \<longleftrightarrow>
        in_range a (Suc n * 4096) x \<and> bit (uvm_lookup s pt x) 0" for x
      using rng [of x] False uvm_lookup_page [OF _ a, of x s pt] by auto
    moreover obtain t where t:
        "uvmunmap_loop pt (a + 4096) (a + 4096 + of_nat (n * 4096)) True s = Done () t"
        "tables_ok t 2 pt T (rev (leaf_pages s pt (a + 4096) n) @ ps)"
        "\<forall>x. uvm_lookup t pt x =
          (if in_range (a + 4096) (n * 4096) x \<and> bit (uvm_lookup s pt x) 0 then 0 else uvm_lookup s pt x)"
        "same_outside (T \<union> set (leaf_pages s pt (a + 4096) n)) (mem s) (mem t)"
      using Suc.IH [OF Suc.prems(1) al] Suc.prems(3-7) up rng unfolding L by auto
    moreover have "uvmunmap_loop pt a ?lst True s = Done () t"
      using step t(1) unfolding lst(2) by (rule trans)
    ultimately show ?thesis unfolding L by (intro exI [of _ t]) simp
  next
    case True
    let ?pa = "PTE2PA ?e" and ?L = "leaf_pages s pt (a + 4096) n"
    have L: "leaf_pages s pt a (Suc n) = ?pa # ?L" using True by simp
    have pa: "valid_page (kend s) ?pa" "?pa \<notin> set ps" "?pa \<notin> T"
      using Suc.prems(5,6) unfolding L by auto
    obtain s1 where s1: "kfree ?pa s = Done () s1" "tables_ok s1 2 pt T (?pa # ps)"
        "same_outside {?pa} (mem s) (mem s1)" "s1 = s\<lparr>mem := mem s1, freelist := freelist s1\<rparr>"
        "\<forall>x. uvm_lookup s1 pt x = uvm_lookup s pt x"
        "\<forall>x. leaf_addr 2 pt x (mem s1) = leaf_addr 2 pt x (mem s)"
      using free_leaf [OF Suc.prems(1) pa] by blast
    let ?t = "set_pte r 0 s1"
    have nz: "r \<noteq> 0" using r(3) True by (auto split: if_splits)
    have r1: "r = leaf_addr 2 pt a (mem s1)" using r(2) s1(6) by simp
    note set = set_pte_lookup [OF s1(2) Suc.prems(2) a r1 nz, of 0]
    have "PTE_FLAGS ?e \<noteq> PTE_V"
      using Suc.prems(7) True rng [of a] PGROUNDDOWN_aligned [OF Suc.prems(2)] by blast
    then have step: "uvmunmap_loop pt a ?lst True s = uvmunmap_loop pt (a + 4096) ?lst True ?t"
      using r(1,3) nz lst(1) True s1(1) by (simp add: uvmunmap_loop.simps [of pt a] PTE_bits_zero)
    have look: "uvm_lookup ?t pt x = (if PGROUNDDOWN x = a then 0 else uvm_lookup s pt x)" for x
      using set(2) [of x] s1(5) page_below_MAXVA [OF Suc.prems(2) a, of x] by auto
    have L': "leaf_pages ?t pt (a + 4096) n = ?L"
    proof (rule leaf_pages_cong)
      fix x :: u64
      assume "unat (a + 4096) \<le> unat x"
      then show "uvm_lookup ?t pt x = uvm_lookup s pt x"
        using look up page_of_iff [OF Suc.prems(2), of x] by simp
    qed (use Suc.prems(3) up in simp)
    have kend: "kend ?t = kend s" using arg_cong [OF s1(4), of kend] by (simp add: set_pte_def)
    have later: "\<not> PGROUNDDOWN x = a" if "in_range (a + 4096) (n * 4096) x" for x
      using that up page_of_iff [OF Suc.prems(2), of x] by (simp add: in_range_def)
    obtain t where t: "uvmunmap_loop pt (a + 4096) (a + 4096 + of_nat (n * 4096)) True ?t = Done () t"
        "tables_ok t 2 pt T (rev ?L @ ?pa # ps)"
        "\<forall>x. uvm_lookup t pt x =
          (if in_range (a + 4096) (n * 4096) x \<and> bit (uvm_lookup ?t pt x) 0 then 0 else uvm_lookup ?t pt x)"
        "same_outside (T \<union> set ?L) (mem ?t) (mem t)"
      using Suc.IH [OF set(1) al] Suc.prems(3-7) up look later rng kend unfolding L' L by auto
    have "uvm_lookup t pt x =
        (if in_range a (Suc n * 4096) x \<and> bit (uvm_lookup s pt x) 0 then 0 else uvm_lookup s pt x)" for x
      using t(3) [rule_format, of x] look [of x] rng [of x] later [of x] True uvm_lookup_page [OF _ a, of x s pt]
      by auto
    moreover have "same_outside (T \<union> set (?pa # ?L)) (mem s) (mem t)"
    proof -
      obtain q where q: "q \<in> T" "same_outside {q} (mem s1) (mem ?t)" using set(3) by blast
      show ?thesis
        using same_outside_trans [OF same_outside_trans [OF s1(3) q(2)] t(4)]
        by (rule same_outside_mono) (use q(1) in auto)
    qed
    moreover have "uvmunmap_loop pt a ?lst True s = Done () t"
      using step t(1) unfolding lst(2) by (rule trans)
    ultimately show ?thesis using t(2) unfolding L by (intro exI [of _ t]) simp
  qed
qed

text \<open>
  C25: \<open>uvmunmap\<close> with \<open>do_free\<close> on a well-formed page table whose mapped pages in the range are
  distinct data pages. It does not panic; every mapped page of the range is on the free list
  afterwards and no other page is; addresses of the range are unmapped, all others translate as
  before; only the table pages and the freed pages are written.
\<close>
theorem uvmunmap_frees:
  assumes "tables_ok s 2 pt T ps" and "page_aligned va" and "unat va + n * 4096 \<le> 2 ^ 38"
    and "distinct (leaf_pages s pt va n)" and "set (leaf_pages s pt va n) \<inter> (T \<union> set ps) = {}"
    and "\<forall>q \<in> set (leaf_pages s pt va n). valid_page (kend s) q"
    and "\<forall>x. in_range va (n * 4096) x \<longrightarrow> bit (uvm_lookup s pt x) 0 \<longrightarrow> PTE_FLAGS (uvm_lookup s pt x) \<noteq> PTE_V"
  shows "\<exists>t. uvmunmap pt va (of_nat n) True s = Done () t \<and>
    tables_ok t 2 pt T (rev (leaf_pages s pt va n) @ ps) \<and>
    (\<forall>x. uvm_lookup t pt x =
      (if in_range va (n * 4096) x \<and> bit (uvm_lookup s pt x) 0 then 0 else uvm_lookup s pt x)) \<and>
    same_outside (T \<union> set (leaf_pages s pt va n)) (mem s) (mem t)"
proof -
  have "va mod PGSIZE = 0" using assms(2) by (simp add: page_aligned_def)
  then have "uvmunmap pt va (of_nat n) True s = uvmunmap_loop pt va (va + of_nat (n * 4096)) True s"
    by (simp add: uvmunmap_def)
  with uvmunmap_loop_frees [OF assms] show ?thesis by simp
qed

subsection \<open>User memory\<close>

text \<open>
  \<open>umem s pt va\<close> is the byte a user load at \<open>va\<close> finds through the page table, and \<open>user_mapped\<close>
  says that a user access at \<open>va\<close> is allowed (for writing, when \<open>w\<close>).
\<close>

definition umem :: "'z pmem_scheme \<Rightarrow> u64 \<Rightarrow> u64 \<Rightarrow> u8" where
  "umem s pt va = mem s (PTE2PA (uvm_lookup s pt va) + (va - PGROUNDDOWN va))"

definition user_mapped :: "'z pmem_scheme \<Rightarrow> u64 \<Rightarrow> bool \<Rightarrow> u64 \<Rightarrow> bool" where
  "user_mapped s pt w va \<longleftrightarrow>
     bit (uvm_lookup s pt va) 0 \<and> bit (uvm_lookup s pt va) 4 \<and> (w \<longrightarrow> bit (uvm_lookup s pt va) 2) \<and>
     PTE2PA (uvm_lookup s pt va) \<noteq> 0"

lemma user_mapped_MAXVA: "user_mapped s pt w va \<Longrightarrow> va < MAXVA"
  by (auto simp: user_mapped_def uvm_lookup_def split: if_splits)

lemma chunk_same_page:
  assumes "k < unat (chunk va len)" and "va < MAXVA"
  shows "PGROUNDDOWN (va + of_nat k) = PGROUNDDOWN va"
    and "va + of_nat k - PGROUNDDOWN va = (va - PGROUNDDOWN va) + of_nat k"
    and "unat (va + of_nat k) = unat va + k"
proof -
  have k: "k < 4096 - unat va mod 4096" using assms(1) by (simp add: unat_chunk)
  have v: "unat va < 2 ^ 38" using assms(2) by (simp add: word_less_nat_alt)
  show u: "unat (va + of_nat k) = unat va + k" by (rule unat_of_nat_add) (use k v in simp)
  have "unat (PGROUNDDOWN va) \<le> unat va + k \<and> unat va + k < unat (PGROUNDDOWN va) + 4096"
    using k div_mult_mod_eq [of "unat va" 4096] mod_less_divisor [of 4096 "unat va"]
    unfolding unat_PGROUNDDOWN by linarith
  then show "PGROUNDDOWN (va + of_nat k) = PGROUNDDOWN va"
    by (simp add: page_of_iff u)
qed (simp add: algebra_simps)

lemma chunk_mapped:
  assumes "user_mapped s pt w va" and "k < unat (chunk va len)"
  shows "user_mapped s pt w (va + of_nat k)"
    and "umem s pt (va + of_nat k) = mem s (PTE2PA (uvm_lookup s pt (PGROUNDDOWN va)) + (va - PGROUNDDOWN va) + of_nat k)"
proof -
  have va: "va < MAXVA" by (rule user_mapped_MAXVA [OF assms(1)])
  note page = chunk_same_page [OF assms(2) va]
  have lo: "PGROUNDDOWN va < MAXVA"
    using PGROUNDDOWN_le [of va] va by (simp add: word_less_nat_alt)
  have eq: "uvm_lookup s pt (va + of_nat k) = uvm_lookup s pt (PGROUNDDOWN va)"
    by (rule uvm_lookup_page [OF page(1) lo])
  moreover have "uvm_lookup s pt va = uvm_lookup s pt (PGROUNDDOWN va)"
    by (rule uvm_lookup_page [OF refl lo])
  ultimately show "user_mapped s pt w (va + of_nat k)" using assms(1) by (simp add: user_mapped_def)
  show "umem s pt (va + of_nat k) = mem s (PTE2PA (uvm_lookup s pt (PGROUNDDOWN va)) + (va - PGROUNDDOWN va) + of_nat k)"
    unfolding umem_def eq page(1) page(2) by (simp add: add.assoc)
qed

end
