(* ===== verification/Usercopy.thy ===== *)
theory Usercopy
  imports Pagetable
begin

section \<open>Copies between kernel and user memory\<close>

text \<open>
  What \<open>copyin\<close> and \<open>copyout\<close> of \<open>vm.c\<close> do when every user address of the range is mapped:
  \<open>copyin\<close> returns the bytes the user would load, \<open>copyout\<close> stores the bytes where the user would
  load them and nowhere else. \<open>uaddr\<close> is the physical address of a user byte.
\<close>

definition uaddr :: "'z pmem_scheme \<Rightarrow> u64 \<Rightarrow> u64 \<Rightarrow> u64" where
  "uaddr s pt va = PTE2PA (uvm_lookup s pt va) + (va - PGROUNDDOWN va)"

lemma umem_uaddr: "umem s pt va = mem s (uaddr s pt va)"
  by (simp add: umem_def uaddr_def)

lemma chunk_uaddr:
  assumes "user_mapped s pt w va" and "k < unat (chunk va len)"
  shows "uaddr s pt (va + of_nat k) =
    PTE2PA (uvm_lookup s pt (PGROUNDDOWN va)) + (va - PGROUNDDOWN va) + of_nat k"
proof -
  have va: "va < MAXVA" by (rule user_mapped_MAXVA [OF assms(1)])
  note page = chunk_same_page [OF assms(2) va]
  have lo: "PGROUNDDOWN va < MAXVA"
    using PGROUNDDOWN_le [of va] va by (simp add: word_less_nat_alt)
  show ?thesis
    unfolding uaddr_def uvm_lookup_page [OF page(1) lo] page(1,2) by (simp add: add.assoc)
qed

lemma walkaddr_mapped:
  assumes "tables_ok s 2 pt T ps" and "user_mapped s pt w va"
  shows "walkaddr pt (PGROUNDDOWN va) s = Done (PTE2PA (uvm_lookup s pt (PGROUNDDOWN va))) s"
    and "PTE2PA (uvm_lookup s pt (PGROUNDDOWN va)) \<noteq> 0" and "PGROUNDDOWN va < MAXVA"
proof -
  have va: "va < MAXVA" by (rule user_mapped_MAXVA [OF assms(2)])
  show lo: "PGROUNDDOWN va < MAXVA"
    using PGROUNDDOWN_le [of va] va by (simp add: word_less_nat_alt)
  have "uvm_lookup s pt va = uvm_lookup s pt (PGROUNDDOWN va)"
    by (rule uvm_lookup_page [OF refl lo])
  with assms(2) walkaddr_lookup [OF assms(1)]
  show "walkaddr pt (PGROUNDDOWN va) s = Done (PTE2PA (uvm_lookup s pt (PGROUNDDOWN va))) s"
    and "PTE2PA (uvm_lookup s pt (PGROUNDDOWN va)) \<noteq> 0"
    by (auto simp: user_mapped_def)
qed

text \<open>Where the next turn of a copy loop starts.\<close>

lemma chunk_next:
  assumes "chunk va len \<noteq> len"
  shows "PGROUNDDOWN va + PGSIZE = va + of_nat (unat (chunk va len))"
proof -
  have "chunk va len = PGSIZE - (va - PGROUNDDOWN va)"
    using assms by (auto simp: chunk_def Let_def split: if_splits)
  then show ?thesis by simp
qed

lemma upt_split: "n \<le> N \<Longrightarrow> [0..<N] = [0..<n] @ map (\<lambda>i. n + i) [0..<N - n]"
  by (rule nth_equalityI) (auto simp: nth_append)

lemma copyin_mapped:
  assumes "tables_ok s 2 pt T ps"
    and "\<forall>i < unat len. user_mapped s pt False (va + of_nat i)"
  shows "copyin pt va len s = Done (0, map (\<lambda>i. umem s pt (va + of_nat i)) [0..<unat len]) s"
  using assms(2)
proof (induction "unat len" arbitrary: va len rule: less_induct)
  case less
  show ?case
  proof (cases "0 < len")
    case False
    then show ?thesis by (simp add: copyin.simps [of pt va] word_gt_0)
  next
    case True
    let ?n = "chunk va len" and ?va0 = "PGROUNDDOWN va"
    let ?pa0 = "PTE2PA (uvm_lookup s pt ?va0)"
    have "0 < unat len" using True by (simp add: word_less_nat_alt)
    then have um: "user_mapped s pt False va" using less.prems [rule_format, of 0] by simp
    note wa = walkaddr_mapped [OF assms(1) um]
    have n: "0 < unat ?n" "unat ?n \<le> unat len" "unat (len - ?n) = unat len - unat ?n"
      using chunk_pos [OF True] chunk_le unat_minus_chunk by auto
    have bytes: "load_bytes (mem s) (?pa0 + (va - ?va0)) (unat ?n) =
        map (\<lambda>i. umem s pt (va + of_nat i)) [0..<unat ?n]"
      by (rule nth_equalityI) (simp_all add: load_bytes_nth chunk_mapped(2) [OF um])
    have rest: "copyin pt (?va0 + PGSIZE) (len - ?n) s =
        Done (0, map (\<lambda>i. umem s pt (va + of_nat (unat ?n + i))) [0..<unat len - unat ?n]) s"
    proof (cases "?n = len")
      case True
      then show ?thesis by (simp add: copyin.simps [of pt "?va0 + PGSIZE"])
    next
      case False
      have nx: "?va0 + PGSIZE = va + of_nat (unat ?n)" by (rule chunk_next [OF False])
      have "\<forall>i < unat (len - ?n). user_mapped s pt False (va + of_nat (unat ?n) + of_nat i)"
      proof (intro allI impI)
        fix i
        assume "i < unat (len - ?n)"
        then have "user_mapped s pt False (va + of_nat (unat ?n + i))"
          using less.prems n(3) by (simp del: of_nat_add)
        then show "user_mapped s pt False (va + of_nat (unat ?n) + of_nat i)"
          by (simp add: add.assoc)
      qed
      moreover have "unat (len - ?n) < unat len" using n by simp
      ultimately show ?thesis
        using less.hyps [of "len - ?n" "va + of_nat (unat ?n)"] n(3) unfolding nx by (simp add: add.assoc)
    qed
    have "copyin pt va len s = bnd (copyin pt (?va0 + PGSIZE) (len - ?n) s) (\<lambda>(r, rest) s'.
        Done (r, load_bytes (mem s) (?pa0 + (va - ?va0)) (unat ?n) @ rest) s')"
      using True wa by (simp add: copyin.simps [of pt va] Let_def)
    then show ?thesis
      using n(2) unfolding rest bytes by (simp add: upt_split [of "unat ?n" "unat len"] comp_def)
  qed
qed

text \<open>Writing data pages: the page table and the free list do not change.\<close>

lemma free_chain_agree: "agree (set ps) m m' \<Longrightarrow> free_chain m' p ps = free_chain m p ps"
proof (induction ps arbitrary: p)
  case (Cons a ps)
  have "load64 m' a = load64 m a"
    by (rule load64_cong) (use Cons.prems in_page_low [of _ a] in \<open>auto simp: agree_def\<close>)
  moreover have "agree (set ps) m m'" using Cons.prems by (rule agree_mono) auto
  ultimately show ?case using Cons.IH by simp
qed simp

lemma data_write:
  assumes ok: "tables_ok s 2 pt T ps" and m: "agree (T \<union> set ps) (mem s) m"
  shows "tables_ok (s\<lparr>mem := m\<rparr>) 2 pt T ps" and "uvm_lookup (s\<lparr>mem := m\<rparr>) pt x = uvm_lookup s pt x"
proof -
  have tree: "ptree 2 (mem s) pt T" using ok by (simp add: tables_ok_def)
  have ag: "agree T (mem s) m" "agree (set ps) (mem s) m" using m agree_mono by blast+
  show "tables_ok (s\<lparr>mem := m\<rparr>) 2 pt T ps"
    using ok ptree_agree [OF tree ag(1)] free_chain_agree [OF ag(2)]
    by (simp add: tables_ok_def kpool_inv_def kmem_inv_def)
  show "uvm_lookup (s\<lparr>mem := m\<rparr>) pt x = uvm_lookup s pt x"
    using pte_of_agree [OF tree ag(1)] by (simp add: uvm_lookup_def)
qed

definition data_range :: "'z pmem_scheme \<Rightarrow> u64 \<Rightarrow> u64 set \<Rightarrow> u64 \<Rightarrow> nat \<Rightarrow> bool" where
  "data_range s pt A va n \<longleftrightarrow>
     (\<forall>i<n. user_mapped s pt True (va + of_nat i) \<and>
        (\<forall>a \<in> A. \<not> in_page a (uaddr s pt (va + of_nat i)))) \<and>
     inj_on (\<lambda>i. uaddr s pt (va + of_nat i)) {..<n}"

lemma data_range_shift:
  assumes "data_range s pt A va n" and "k \<le> n"
  shows "data_range s pt A (va + of_nat k) (n - k)"
proof -
  have sh: "va + of_nat k + of_nat i = va + of_nat (k + i)" for i by (simp add: add.assoc)
  have "inj_on (\<lambda>i. uaddr s pt (va + of_nat (k + i))) {..<n - k}"
  proof (rule inj_onI)
    fix i j
    assume "i \<in> {..<n - k}" "j \<in> {..<n - k}"
      "uaddr s pt (va + of_nat (k + i)) = uaddr s pt (va + of_nat (k + j))"
    then have "k + i = k + j"
      using assms by (auto simp: data_range_def simp del: of_nat_add dest!: inj_onD)
    then show "i = j" by simp
  qed
  with assms show ?thesis unfolding data_range_def sh by (auto simp del: of_nat_add)
qed

lemma uaddr_cong: "(\<And>x. uvm_lookup t pt x = uvm_lookup s pt x) \<Longrightarrow> uaddr t pt va = uaddr s pt va"
  by (simp add: uaddr_def)

lemma data_range_cong:
  "(\<And>x. uvm_lookup t pt x = uvm_lookup s pt x) \<Longrightarrow> data_range t pt A va n = data_range s pt A va n"
  by (simp add: data_range_def user_mapped_def uaddr_def)

definition stored_at :: "'z pmem_scheme \<Rightarrow> u64 \<Rightarrow> u64 \<Rightarrow> u8 list \<Rightarrow> 'z pmem_scheme \<Rightarrow> bool" where
  "stored_at s pt va src t \<longleftrightarrow>
     (\<forall>i<length src. mem t (uaddr s pt (va + of_nat i)) = src ! i) \<and>
     (\<forall>x. (\<forall>i<length src. x \<noteq> uaddr s pt (va + of_nat i)) \<longrightarrow> mem t x = mem s x) \<and>
     t = s\<lparr>mem := mem t\<rparr>"

lemma stored_at_agree:
  assumes "data_range s pt A va (length src)" and "stored_at s pt va src t"
  shows "agree A (mem s) (mem t)"
  unfolding agree_def
proof (intro allI impI)
  fix x
  assume "\<exists>a \<in> A. in_page a x"
  then have "\<forall>i<length src. x \<noteq> uaddr s pt (va + of_nat i)"
    using assms(1) by (auto simp: data_range_def)
  then show "mem t x = mem s x" using assms(2) by (simp add: stored_at_def)
qed

text \<open>The store of one turn.\<close>

lemma chunk_stored:
  assumes r: "data_range s pt A va (unat len)" and len: "0 < len" and src: "length src = unat len"
  shows "stored_at s pt va (take (unat (chunk va len)) src)
    (s\<lparr>mem := store_bytes (PTE2PA (uvm_lookup s pt (PGROUNDDOWN va)) + (va - PGROUNDDOWN va))
       (take (unat (chunk va len)) src) (mem s)\<rparr>)"
proof -
  let ?n = "unat (chunk va len)" and ?p = "PTE2PA (uvm_lookup s pt (PGROUNDDOWN va)) + (va - PGROUNDDOWN va)"
  have "0 < unat len" using len by (simp add: word_less_nat_alt)
  then have um: "user_mapped s pt True va" using r by (auto simp: data_range_def dest: spec [of _ 0])
  have n: "?n \<le> 4096" "?n \<le> unat len" by (simp_all add: unat_chunk)
  have ua: "uaddr s pt (va + of_nat i) = ?p + of_nat i" if "i < ?n" for i
    using chunk_uaddr [OF um that] by simp
  have st: "store_bytes ?p (take ?n src) (mem s) x =
      (if unat (x - ?p) < ?n then src ! unat (x - ?p) else mem s x)" for x
    by (subst store_bytes_word) (use n src in simp_all)
  have "mem s x = store_bytes ?p (take ?n src) (mem s) x" if "\<forall>i<?n. x \<noteq> ?p + of_nat i" for x
  proof -
    have "\<not> unat (x - ?p) < ?n"
      using that word_offset_iff [of "unat (x - ?p)" x ?p] by auto
    then show ?thesis using st by simp
  qed
  moreover have "store_bytes ?p (take ?n src) (mem s) (?p + of_nat i) = src ! i" if "i < ?n" for i
    unfolding st using that n by (simp add: unat_of_nat64)
  ultimately show ?thesis using ua n src unfolding stored_at_def by (auto simp: min_def)
qed

lemma stored_at_trans:
  assumes r: "data_range s pt A va (length xs + length ys)"
    and one: "stored_at s pt va xs t" and look: "\<And>x. uvm_lookup t pt x = uvm_lookup s pt x"
    and two: "stored_at t pt (va + of_nat (length xs)) ys u"
  shows "stored_at s pt va (xs @ ys) u"
proof -
  have ua: "uaddr t pt x = uaddr s pt x" for x by (rule uaddr_cong [OF look])
  have sh: "va + of_nat (length xs) + of_nat i = va + of_nat (length xs + i)" for i
    by (simp add: add.assoc)
  have two': "\<forall>i<length ys. mem u (uaddr s pt (va + of_nat (length xs + i))) = ys ! i"
      "\<forall>x. (\<forall>i<length ys. x \<noteq> uaddr s pt (va + of_nat (length xs + i))) \<longrightarrow> mem u x = mem t x"
      "u = t\<lparr>mem := mem u\<rparr>"
    using two unfolding stored_at_def ua sh by auto
  have "mem u (uaddr s pt (va + of_nat i)) = (xs @ ys) ! i" if "i < length xs + length ys" for i
  proof (cases "i < length xs")
    case True
    have "\<forall>j<length ys. uaddr s pt (va + of_nat i) \<noteq> uaddr s pt (va + of_nat (length xs + j))"
      using r True that unfolding data_range_def by (auto simp del: of_nat_add dest!: inj_onD)
    then show ?thesis using two'(2) one True by (simp add: stored_at_def nth_append)
  next
    case False
    then have "mem u (uaddr s pt (va + of_nat (length xs + (i - length xs)))) = ys ! (i - length xs)"
      using two'(1) [rule_format, of "i - length xs"] that False by (simp only: linorder_not_less less_diff_conv2 add.commute)
    then show ?thesis using False by (simp add: nth_append)
  qed
  moreover have "mem u x = mem s x" if "\<forall>i<length xs + length ys. x \<noteq> uaddr s pt (va + of_nat i)" for x
    using that two'(2) [rule_format, of x] one by (simp add: stored_at_def del: of_nat_add)
  moreover have "u = s\<lparr>mem := mem u\<rparr>"
  proof -
    have t: "t = s\<lparr>mem := mem t\<rparr>" using one by (simp add: stored_at_def)
    have "t\<lparr>mem := mem u\<rparr> = s\<lparr>mem := mem u\<rparr>"
      using arg_cong [OF t, of "\<lambda>t. t\<lparr>mem := mem u\<rparr>"] by simp
    with two'(3) show ?thesis by (rule trans)
  qed
  ultimately show ?thesis by (simp add: stored_at_def)
qed

lemma copyout_mapped:
  assumes "tables_ok s 2 pt T ps" and "data_range s pt (T \<union> set ps) va (unat len)"
    and "length src = unat len"
  shows "\<exists>t. copyout pt va src len s = Done 0 t \<and> stored_at s pt va src t"
  using assms
proof (induction "unat len" arbitrary: s va len src rule: less_induct)
  case less
  show ?case
  proof (cases "0 < len")
    case False
    then show ?thesis using less.prems(3) by (simp add: copyout.simps [of pt va] word_gt_0 stored_at_def)
  next
    case True
    let ?n = "chunk va len" and ?va0 = "PGROUNDDOWN va"
    let ?p = "PTE2PA (uvm_lookup s pt ?va0)"
    let ?t = "s\<lparr>mem := store_bytes (?p + (va - ?va0)) (take (unat ?n) src) (mem s)\<rparr>"
    have "0 < unat len" using True by (simp add: word_less_nat_alt)
    then have um: "user_mapped s pt True va" using less.prems(2) by (auto simp: data_range_def dest: spec [of _ 0])
    note wa = walkaddr_mapped [OF less.prems(1) um]
    have n: "0 < unat ?n" "unat ?n \<le> unat len" "unat (len - ?n) = unat len - unat ?n"
      using chunk_pos [OF True] chunk_le unat_minus_chunk by auto
    have look0: "uvm_lookup s pt va = uvm_lookup s pt ?va0" by (rule uvm_lookup_page [OF refl wa(3)])
    have st: "stored_at s pt va (take (unat ?n) src) ?t"
      by (rule chunk_stored [OF less.prems(2) True less.prems(3)])
    have "data_range s pt (T \<union> set ps) va (length (take (unat ?n) src))"
      using less.prems(2,3) n(2) by (auto simp: data_range_def min_def elim: inj_on_subset)
    then have ag: "agree (T \<union> set ps) (mem s) (mem ?t)" using st by (rule stored_at_agree)
    have ok: "tables_ok ?t 2 pt T ps" and look: "\<And>x. uvm_lookup ?t pt x = uvm_lookup s pt x"
      using data_write [OF less.prems(1) ag] by simp_all
    obtain r where r: "walk pt ?va0 False s = Done r s" "if r = 0 then uvm_lookup s pt ?va0 = 0 else get_pte s r = uvm_lookup s pt ?va0"
      using walk_lookup [OF less.prems(1) wa(3)] by blast
    have step: "copyout pt va src len s = copyout pt (?va0 + PGSIZE) (drop (unat ?n) src) (len - ?n) ?t"
      using True wa r um unfolding user_mapped_def look0
      by (subst copyout.simps [of pt va]) (auto simp: Let_def PTE_bits_zero not_le split: if_splits)
    show ?thesis
    proof (cases "?n = len")
      case True
      then have "copyout pt va src len s = Done 0 ?t" "take (unat ?n) src = src"
        unfolding step using less.prems(3) by (simp_all add: copyout.simps [of pt "?va0 + PGSIZE"])
      with st show ?thesis by auto
    next
      case False
      have nx: "?va0 + PGSIZE = va + of_nat (unat ?n)" by (rule chunk_next [OF False])
      have dr: "data_range ?t pt (T \<union> set ps) (va + of_nat (unat ?n)) (unat (len - ?n))"
        unfolding data_range_cong [OF look] n(3) by (rule data_range_shift [OF less.prems(2) n(2)])
      have "unat (len - ?n) < unat len" using n by simp
      from less.hyps [OF this ok dr, of "drop (unat ?n) src"] obtain u where
        u: "copyout pt (va + of_nat (unat ?n)) (drop (unat ?n) src) (len - ?n) ?t = Done 0 u"
          "stored_at ?t pt (va + of_nat (unat ?n)) (drop (unat ?n) src) u"
        using less.prems(3) n(3) by auto
      have len: "length (take (unat ?n) src) = unat ?n" using less.prems(3) n(2) by simp
      have "stored_at s pt va (take (unat ?n) src @ drop (unat ?n) src) u"
        by (rule stored_at_trans [OF _ st look]) (use less.prems(2,3) n(2) u(2) len in auto)
      moreover have "copyout pt va src len s = Done 0 u" using step u(1) unfolding nx by simp
      ultimately show ?thesis by auto
    qed
  qed
qed

text \<open>
  C9: \<open>copyout\<close> to a range of mapped, writable user addresses, whose physical bytes are distinct and
  lie in no page-table page and no free page, returns 0, and stores the source bytes exactly at the
  physical addresses of the range: every other byte of memory keeps its value and nothing else of
  the kernel state changes. A \<open>copyin\<close> of the same range then returns 0 and the same bytes.
\<close>
theorem copyout_copyin:
  assumes "tables_ok s 2 pt T ps" and "data_range s pt (T \<union> set ps) va (unat len)"
    and "length src = unat len"
  shows "\<exists>t. copyout pt va src len s = Done 0 t \<and> stored_at s pt va src t \<and>
    copyin pt va len t = Done (0, src) t"
proof -
  obtain t where t: "copyout pt va src len s = Done 0 t" "stored_at s pt va src t"
    using copyout_mapped [OF assms] by blast
  have ag: "agree (T \<union> set ps) (mem s) (mem t)"
    by (rule stored_at_agree) (use assms(2,3) t(2) in auto)
  have eq: "t = s\<lparr>mem := mem t\<rparr>" using t(2) by (simp add: stored_at_def)
  then have ok: "tables_ok t 2 pt T ps" and look: "\<And>x. uvm_lookup t pt x = uvm_lookup s pt x"
    using data_write [OF assms(1) ag] by metis+
  have "\<forall>i < unat len. user_mapped t pt False (va + of_nat i)"
    using assms(2) look by (simp add: data_range_def user_mapped_def)
  then have "copyin pt va len t = Done (0, map (\<lambda>i. umem t pt (va + of_nat i)) [0..<unat len]) t"
    by (rule copyin_mapped [OF ok])
  moreover have "map (\<lambda>i. umem t pt (va + of_nat i)) [0..<unat len] = src"
    using t(2) assms(3) by (intro nth_equalityI)
      (auto simp: umem_uaddr stored_at_def uaddr_cong [OF look])
  ultimately show ?thesis using t by auto
qed

subsection \<open>A concrete page table\<close>

text \<open>
  A small machine on which the theorems are applied: an empty root table and three free pages.
\<close>

definition vm_sample :: ptab where
  "vm_sample = \<lparr>held = [], console_out = [],
     mem = store64 0x87FFC000 0x87FFD000 (store64 0x87FFD000 0x87FFE000 (\<lambda>_. 0)),
     freelist = 0x87FFC000, kend = 0x80021000, lab_syscall = False,
     procs = replicate NPROC zero_proc, nextpid = 1, initproc = None, cur = None, intr_on = False,
     kernel_pagetable = 0, satp = 0,
     syms = \<lparr>sym_etext = 0x80008000, sym_trampoline = 0x80007000, sym_uservec = 0x80007000,
       sym_userret = 0x8000709c, sym_forkret = 0x80001a00, sym_usertrap = 0x80002600,
       sym_kernelvec = 0x80005000\<rparr>\<rparr>"

lemma load64_zero [simp]: "load64 (\<lambda>_. 0) a = 0"
  by (simp add: load64_def numeral_eq_Suc)

lemma vm_sample_entries: "\<forall>i<512. pt_entry (mem vm_sample) 0x87FFF000 i = 0"
proof (intro allI impI)
  fix i :: nat
  assume i: "i < 512"
  have m8: "unat (0x87FFF000 + of_nat (8 * i) :: u64) mod 8 = 0"
    by (rule entry_mod8) (use i in \<open>simp_all add: page_aligned_unat\<close>)
  have u: "unat (0x87FFF000 + of_nat (8 * i) :: u64) = 0x87FFF000 + 8 * i"
    by (subst unat_of_nat_add) (use i in simp_all)
  then have "0x87FFF000 + of_nat (8 * i) \<noteq> (0x87FFC000 :: u64)" "0x87FFF000 + of_nat (8 * i) \<noteq> (0x87FFD000 :: u64)"
    by (auto simp: word_unat_eq_iff simp del: of_nat_mult)
  then show "pt_entry (mem vm_sample) 0x87FFF000 i = 0"
    using m8 by (simp add: pt_entry_def vm_sample_def load64_store64_other del: of_nat_mult)
qed

lemma vm_sample_ok: "tables_ok vm_sample 2 0x87FFF000 {0x87FFF000} [0x87FFC000, 0x87FFD000, 0x87FFE000]"
proof -
  have "ptree 2 (mem vm_sample) 0x87FFF000 {0x87FFF000}" by (rule ptree_zero(1) [OF vm_sample_entries])
  moreover have "free_chain (mem vm_sample) 0x87FFC000 [0x87FFC000, 0x87FFD000, 0x87FFE000]"
    by (simp add: vm_sample_def load64_store64_other)
  ultimately show ?thesis
    by (simp add: tables_ok_def kpool_inv_def kmem_inv_def valid_page_def page_aligned_unat
      vm_sample_def)
qed

lemma vm_sample_unmapped: "uvm_lookup vm_sample 0x87FFF000 x = 0"
  by (simp add: uvm_lookup_def ptree_zero(2) [OF vm_sample_entries])

text \<open>The same machine after one page has been mapped at address 0.\<close>

definition sample_pte :: u64 where
  "sample_pte = PA2PTE 0x87FFB000 OR 0x17"

lemma vm_sample_mapped:
  "\<exists>(s :: ptab) T ps. tables_ok s 2 0x87FFF000 T ps \<and> kend s = 0x80021000 \<and>
     T \<union> set ps \<subseteq> {0x87FFC000, 0x87FFD000, 0x87FFE000, 0x87FFF000} \<and>
     (\<forall>x. uvm_lookup s 0x87FFF000 x = (if x < MAXVA \<and> PGROUNDDOWN x = 0 then sample_pte else 0))"
proof -
  have z: "page_aligned 0" "0 < MAXVA" "\<not> bit (uvm_lookup vm_sample 0x87FFF000 0) 0"
    by (simp_all add: page_aligned_unat vm_sample_unmapped)
  obtain r used t where t: "length used \<le> 2"
      "if r = 0 then set [0x87FFC000, 0x87FFD000, 0x87FFE000 :: u64] = set used \<and>
         (\<forall>x. uvm_lookup t 0x87FFF000 x = uvm_lookup vm_sample 0x87FFF000 x)
       else \<not> bit (get_pte t r) 0 \<and>
         moved 0x87FFF000 {0x87FFF000} [0x87FFC000, 0x87FFD000, 0x87FFE000] vm_sample used (set_pte r sample_pte t) \<and>
         (\<forall>x. uvm_lookup (set_pte r sample_pte t) 0x87FFF000 x =
           (if x < MAXVA \<and> PGROUNDDOWN x = 0 then sample_pte else uvm_lookup vm_sample 0x87FFF000 x))"
    using map_one [OF vm_sample_ok z, of sample_pte] by blast
  have "r \<noteq> 0"
  proof
    assume "r = 0"
    then have "card (set [0x87FFC000, 0x87FFD000, 0x87FFE000 :: u64]) \<le> 2"
      using t card_length [of used] by simp
    then show False by simp
  qed
  then have mv: "moved 0x87FFF000 {0x87FFF000} [0x87FFC000, 0x87FFD000, 0x87FFE000] vm_sample used (set_pte r sample_pte t)"
    and look: "\<forall>x. uvm_lookup (set_pte r sample_pte t) 0x87FFF000 x =
      (if x < MAXVA \<and> PGROUNDDOWN x = 0 then sample_pte else 0)"
    using t(2) by (simp_all add: vm_sample_unmapped)
  then obtain qs where qs: "[0x87FFC000, 0x87FFD000, 0x87FFE000] = used @ qs"
      "tables_ok (set_pte r sample_pte t) 2 0x87FFF000 ({0x87FFF000} \<union> set used) qs"
      "set_pte r sample_pte t = vm_sample\<lparr>mem := mem (set_pte r sample_pte t), freelist := freelist (set_pte r sample_pte t)\<rparr>"
    by (auto simp: moved_def)
  have "set (used @ qs) = {0x87FFC000, 0x87FFD000, 0x87FFE000}" unfolding qs(1) [symmetric] by simp
  moreover have "kend (set_pte r sample_pte t) = 0x80021000"
    using arg_cong [OF qs(3), of kend] by (simp add: vm_sample_def)
  ultimately show ?thesis using qs(2) look
    by (intro exI [of _ "set_pte r sample_pte t"] exI [of _ "{0x87FFF000} \<union> set used"] exI [of _ qs]) auto
qed

lemma sample_pte_bits:
  "bit sample_pte 0" "bit sample_pte 2" "bit sample_pte 4" "PTE2PA sample_pte = 0x87FFB000"
  "PTE_FLAGS sample_pte = 0x17"
proof -
  show "PTE2PA sample_pte = 0x87FFB000"
    unfolding sample_pte_def by (rule PTE2PA_PA2PTE) (simp_all add: page_aligned_unat)
  show "PTE_FLAGS sample_pte = 0x17" unfolding sample_pte_def by (rule PTE_FLAGS_PA2PTE) simp
  have "bit (0x17 :: u64) k \<Longrightarrow> bit sample_pte k" for k by (simp add: sample_pte_def bit_or_iff)
  moreover have "bit (0x17 :: u64) 0" "bit (0x17 :: u64) 2" "bit (0x17 :: u64) 4"
    by (simp_all add: bit_numeral_rec)
  ultimately show "bit sample_pte 0" "bit sample_pte 2" "bit sample_pte 4" by blast+
qed

lemma less_3: "(i :: nat) < 3 \<longleftrightarrow> i = 0 \<or> i = 1 \<or> i = 2"
  by auto

lemma copyout_copyin_witness:
  "\<exists>(s :: ptab) t. copyout 0x87FFF000 5 [1, 2, 3] 3 s = Done 0 t \<and>
    copyin 0x87FFF000 5 3 t = Done (0, [1, 2, 3]) t"
proof -
  obtain s :: ptab and T ps where s: "tables_ok s 2 0x87FFF000 T ps"
      "T \<union> set ps \<subseteq> {0x87FFC000, 0x87FFD000, 0x87FFE000, 0x87FFF000}"
      "\<forall>x. uvm_lookup s 0x87FFF000 x = (if x < MAXVA \<and> PGROUNDDOWN x = 0 then sample_pte else 0)"
    using vm_sample_mapped by blast
  have pg: "PGROUNDDOWN (5 + of_nat i) = 0" "5 + of_nat i < (MAXVA :: u64)" if "i < 3" for i :: nat
    using that by (auto simp: less_3 PGROUNDDOWN_def)
  have ua: "uaddr s 0x87FFF000 (5 + of_nat i) = 0x87FFB005 + of_nat i" if "i < 3" for i
    using pg [OF that] s(3) by (simp add: uaddr_def sample_pte_bits)
  have "data_range s 0x87FFF000 (T \<union> set ps) 5 (unat (3 :: u64))"
  proof -
    have "user_mapped s 0x87FFF000 True (5 + of_nat i)" if "i < 3" for i
      using pg [OF that] s(3) by (simp add: user_mapped_def sample_pte_bits)
    moreover have "\<not> in_page a (0x87FFB005 + of_nat i)" if "i < 3" "a \<in> T \<union> set ps" for i a
      using that s(2) by (auto simp: in_page_def less_3)
    moreover have "inj_on (\<lambda>i. uaddr s 0x87FFF000 (5 + of_nat i)) {..<3}"
      by (rule inj_onI) (auto simp: ua less_3)
    ultimately show ?thesis by (simp add: data_range_def ua)
  qed
  then show ?thesis using copyout_copyin [OF s(1), of 5 3 "[1, 2, 3]"] by auto
qed

lemma mappages_maps_witness:
  "\<exists>t. mappages 0x87FFF000 0 PGSIZE 0x87FFB000 0x16 vm_sample = Done 0 t \<and>
    uvm_lookup t 0x87FFF000 5 = PA2PTE 0x87FFB000 OR 0x16 OR PTE_V"
proof -
  obtain r used t where t: "mappages 0x87FFF000 0 PGSIZE 0x87FFB000 0x16 vm_sample = Done r t"
      "length used \<le> 2 * (unat PGSIZE div 4096)"
      "if r = 0 then \<forall>x. uvm_lookup t 0x87FFF000 x =
          (if unat (0 :: u64) \<le> unat x \<and> unat x < unat (0 :: u64) + unat PGSIZE
           then PA2PTE (0x87FFB000 + (PGROUNDDOWN x - 0)) OR 0x16 OR PTE_V else uvm_lookup vm_sample 0x87FFF000 x)
       else r = -1 \<and> set [0x87FFC000, 0x87FFD000, 0x87FFE000 :: u64] = set used \<and>
         (\<forall>x. \<not> (unat (0 :: u64) \<le> unat x \<and> unat x < unat (0 :: u64) + unat PGSIZE) \<longrightarrow>
            uvm_lookup t 0x87FFF000 x = uvm_lookup vm_sample 0x87FFF000 x)"
    using mappages_maps [OF vm_sample_ok, where va = 0 and sz = PGSIZE and pa = "0x87FFB000" and perm = "0x16"]
    by (auto simp: page_aligned_unat vm_sample_unmapped)
  have "r = 0"
  proof (rule ccontr)
    assume "r \<noteq> 0"
    then have "card (set [0x87FFC000, 0x87FFD000, 0x87FFE000 :: u64]) \<le> 2"
      using t(2,3) card_length [of used] by simp
    then show False by simp
  qed
  moreover have "PGROUNDDOWN 5 = 0" by (simp add: PGROUNDDOWN_def)
  ultimately show ?thesis using t by (intro exI [of _ t]) simp
qed

lemma uvmunmap_frees_witness:
  "\<exists>(s :: ptab) t. uvm_lookup s 0x87FFF000 5 = sample_pte \<and>
    uvmunmap 0x87FFF000 0 (of_nat 2) True s = Done () t \<and> uvm_lookup t 0x87FFF000 5 = 0"
proof -
  obtain s :: ptab and T ps where s: "tables_ok s 2 0x87FFF000 T ps" "kend s = 0x80021000"
      "T \<union> set ps \<subseteq> {0x87FFC000, 0x87FFD000, 0x87FFE000, 0x87FFF000}"
      "\<forall>x. uvm_lookup s 0x87FFF000 x = (if x < MAXVA \<and> PGROUNDDOWN x = 0 then sample_pte else 0)"
    using vm_sample_mapped by blast
  have rd: "PGROUNDDOWN 5 = 0" "PGROUNDDOWN 4096 = 4096" "PGROUNDDOWN 0 = 0"
    by (simp_all add: PGROUNDDOWN_def)
  have L: "leaf_pages s 0x87FFF000 0 2 = [0x87FFB000]"
    by (subst numeral_2_eq_2) (use s(4) rd in \<open>simp add: sample_pte_bits\<close>)
  have "0x87FFB000 \<notin> T \<union> set ps" using s(3) by auto
  moreover have "\<forall>x. in_range 0 (2 * 4096) x \<longrightarrow> bit (uvm_lookup s 0x87FFF000 x) 0 \<longrightarrow>
      PTE_FLAGS (uvm_lookup s 0x87FFF000 x) \<noteq> PTE_V"
    using s(4) by (simp add: sample_pte_bits)
  ultimately obtain t where "uvmunmap 0x87FFF000 0 (of_nat 2) True s = Done () t"
      "\<forall>x. uvm_lookup t 0x87FFF000 x =
        (if in_range 0 (2 * 4096) x \<and> bit (uvm_lookup s 0x87FFF000 x) 0 then 0 else uvm_lookup s 0x87FFF000 x)"
    using uvmunmap_frees [OF s(1), of 0 2] s(2) L
    by (auto simp: page_aligned_unat valid_page_def simp del: of_nat_numeral)
  moreover have "in_range 0 (2 * 4096) 5" by (simp add: in_range_def)
  ultimately show ?thesis using s(4) rd sample_pte_bits
    by (intro exI [of _ s] exI [of _ t]) simp
qed

end
