(* ===== verification/Proc.thy ===== *)
theory Proc
  imports Usercopy
begin

section \<open>proc.c: the process table, sleep and wakeup, the scheduler\<close>

text \<open>
  The operations of \<open>kernel/proc.c\<close> that need no file system; \<open>kfork\<close>, \<open>kexit\<close>, \<open>kwait\<close>, \<open>userinit\<close>
  and \<open>forkret\<close> are in theory \<open>Proc_Life\<close>. \<open>swtch\<close> ends the run of a thread: \<open>sched\<close> is \<open>Switch\<close>
  with the state the scheduler continues from. The code after a \<open>sched\<close> runs when the scheduler has
  picked the process again; it is a definition of its own (\<open>sleep_resume\<close>, \<open>yield_resume\<close>).
\<close>

subsection \<open>Allocation of process slots\<close>

definition procinit :: "'z ptab_scheme \<Rightarrow> 'z ptab_scheme" where
  "procinit s = fold (\<lambda>i. upd_proc i (\<lambda>p. p\<lparr>p_state := UNUSED, p_kstack := KSTACK i\<rparr>)) [0..<NPROC] s"

definition allocpid :: "'z ptab_scheme \<Rightarrow> ('z ptab_scheme, int) outcome" where
  "allocpid s =
     bnd (acquire PidLock s) (\<lambda>_ s.
       let pid = nextpid s in
       bnd (release PidLock (s\<lparr>nextpid := c_int (nextpid s + 1)\<rparr>)) (\<lambda>_ s. Done pid s))"

definition proc_pagetable :: "nat \<Rightarrow> 'z ptab_scheme \<Rightarrow> ('z ptab_scheme, u64) outcome" where
  "proc_pagetable p s =
     bnd (uvmcreate s) (\<lambda>pt s.
       if pt = 0 then Done 0 s
       else bnd (mappages pt TRAMPOLINE PGSIZE (sym_trampoline (syms s)) (PTE_R OR PTE_X) s) (\<lambda>r s.
         if r < 0 then bnd (uvmfree pt 0 s) (\<lambda>_ s. Done 0 s)
         else bnd (mappages pt TRAPFRAME PGSIZE (p_trapframe (the_proc s p)) (PTE_R OR PTE_W) s) (\<lambda>r s.
           if r < 0 then
             bnd (uvmunmap pt TRAMPOLINE 1 False s) (\<lambda>_ s.
               bnd (uvmfree pt 0 s) (\<lambda>_ s. Done 0 s))
           else Done pt s)))"

definition proc_freepagetable :: "u64 \<Rightarrow> u64 \<Rightarrow> 'z ptab_scheme \<Rightarrow> ('z ptab_scheme, unit) outcome" where
  "proc_freepagetable pt sz s =
     bnd (uvmunmap pt TRAMPOLINE 1 False s) (\<lambda>_ s.
       bnd (uvmunmap pt TRAPFRAME 1 False s) (\<lambda>_ s. uvmfree pt sz s))"

definition freeproc :: "nat \<Rightarrow> 'z ptab_scheme \<Rightarrow> ('z ptab_scheme, unit) outcome" where
  "freeproc i s =
     (let p = the_proc s i in
      bnd (if p_trapframe p \<noteq> 0 then kfree (p_trapframe p) s else Done () s) (\<lambda>_ s.
        let s = upd_proc i (\<lambda>p. p\<lparr>p_trapframe := 0\<rparr>) s; p = the_proc s i in
        bnd (if p_pagetable p \<noteq> 0 then proc_freepagetable (p_pagetable p) (p_sz p) s else Done () s) (\<lambda>_ s.
          Done () (upd_proc i (\<lambda>p. p\<lparr>p_pagetable := 0, p_sz := 0, p_pid := 0, p_parent := None,
            p_name := (p_name p)[0 := 0], p_chan := None, p_killed := 0, p_xstate := 0,
            p_state := UNUSED\<rparr>) s))))"

text \<open>The part of \<open>allocproc\<close> after \<open>found\<close>; \<open>None\<close> is the null pointer.\<close>

definition allocproc_found :: "nat \<Rightarrow> 'z ptab_scheme \<Rightarrow> ('z ptab_scheme, nat option) outcome" where
  "allocproc_found i s =
     bnd (allocpid s) (\<lambda>pid s.
       let s = upd_proc i (\<lambda>p. p\<lparr>p_pid := pid, p_state := USED\<rparr>) s in
       bnd (kalloc s) (\<lambda>tf s.
         let s = upd_proc i (\<lambda>p. p\<lparr>p_trapframe := tf\<rparr>) s in
         if tf = 0 then
           bnd (freeproc i s) (\<lambda>_ s. bnd (release (ProcLock i) s) (\<lambda>_ s. Done None s))
         else
           bnd (proc_pagetable i s) (\<lambda>pt s.
             let s = upd_proc i (\<lambda>p. p\<lparr>p_pagetable := pt\<rparr>) s in
             if pt = 0 then
               bnd (freeproc i s) (\<lambda>_ s. bnd (release (ProcLock i) s) (\<lambda>_ s. Done None s))
             else
               Done (Some i) (upd_proc i (\<lambda>p. p\<lparr>p_context := zero_context
                 \<lparr>c_ra := sym_forkret (syms s), c_sp := p_kstack p + PGSIZE\<rparr>\<rparr>) s))))"

definition allocproc :: "'z ptab_scheme \<Rightarrow> ('z ptab_scheme, nat option) outcome" where
  "allocproc s =
     bnd (loop_until (\<lambda>i s.
            bnd (acquire (ProcLock i) s) (\<lambda>_ s.
              if p_state (the_proc s i) = UNUSED then Done (Some i) s
              else bnd (release (ProcLock i) s) (\<lambda>_ s. Done None s))) [0..<NPROC] s)
       (\<lambda>r s. case r of None \<Rightarrow> Done None s | Some i \<Rightarrow> allocproc_found i s)"

text \<open>\<open>int n\<close> is added to the 64-bit size with wrap-around.\<close>

definition growproc :: "int \<Rightarrow> 'z ptab_scheme \<Rightarrow> ('z ptab_scheme, int) outcome" where
  "growproc n = with_myproc (\<lambda>s i.
     let p = the_proc s i; sz = p_sz p in
     if 0 < n then
       bnd (uvmalloc (p_pagetable p) sz (sz + word_of_int n) PTE_W s) (\<lambda>sz' s.
         if sz' = 0 then Done (-1) s else Done 0 (upd_proc i (\<lambda>p. p\<lparr>p_sz := sz'\<rparr>) s))
     else if n < 0 then
       bnd (uvmdealloc (p_pagetable p) sz (sz + word_of_int n) s) (\<lambda>sz' s.
         Done 0 (upd_proc i (\<lambda>p. p\<lparr>p_sz := sz'\<rparr>) s))
     else Done 0 (upd_proc i (\<lambda>p. p\<lparr>p_sz := sz\<rparr>) s))"

subsection \<open>sched, yield, sleep and wakeup\<close>

text \<open>
  \<open>noff\<close> counts the locks this CPU holds (theory \<open>Spinlock\<close>), and interrupts are off exactly while
  it is positive, unless code switched them on behind the lock's back, which \<open>intr_on\<close> records.
\<close>

definition sched :: "'z ptab_scheme \<Rightarrow> ('z ptab_scheme, unit) outcome" where
  "sched = with_myproc (\<lambda>s i.
     if \<not> holding (ProcLock i) s then Panic ''sched p->lock''
     else if length (held s) \<noteq> 1 then Panic ''sched locks''
     else if p_state (the_proc s i) = RUNNING then Panic ''sched RUNNING''
     else if held s = [] \<and> intr_on s then Panic ''sched interruptible''
     else Switch s)"

definition yield :: "'z ptab_scheme \<Rightarrow> ('z ptab_scheme, unit) outcome" where
  "yield = with_myproc (\<lambda>s i.
     bnd (acquire (ProcLock i) s) (\<lambda>_ s.
       bnd (sched (upd_proc i (\<lambda>p. p\<lparr>p_state := RUNNABLE\<rparr>) s)) (\<lambda>_ s. release (ProcLock i) s)))"

definition yield_resume :: "'z ptab_scheme \<Rightarrow> ('z ptab_scheme, unit) outcome" where
  "yield_resume = with_myproc (\<lambda>s i. release (ProcLock i) s)"

definition sleep_resume :: "lockid \<Rightarrow> 'z ptab_scheme \<Rightarrow> ('z ptab_scheme, unit) outcome" where
  "sleep_resume lk = with_myproc (\<lambda>s i.
     bnd (release (ProcLock i) (upd_proc i (\<lambda>p. p\<lparr>p_chan := None\<rparr>) s)) (\<lambda>_ s. acquire lk s))"

definition sleep :: "chan option \<Rightarrow> lockid \<Rightarrow> 'z ptab_scheme \<Rightarrow> ('z ptab_scheme, unit) outcome" where
  "sleep chan lk = with_myproc (\<lambda>s i.
     bnd (acquire (ProcLock i) s) (\<lambda>_ s.
     bnd (release lk s) (\<lambda>_ s.
     bnd (sched (upd_proc i (\<lambda>p. p\<lparr>p_chan := chan, p_state := SLEEPING\<rparr>) s)) (\<lambda>_ s.
       sleep_resume lk s))))"

definition wakeup :: "chan option \<Rightarrow> 'z ptab_scheme \<Rightarrow> ('z ptab_scheme, unit) outcome" where
  "wakeup chan s =
     loop_all (\<lambda>i s.
       if cur s = Some i then Done () s
       else
         bnd (acquire (ProcLock i) s) (\<lambda>_ s.
           let p = the_proc s i in
           release (ProcLock i)
             (if p_state p = SLEEPING \<and> p_chan p = chan
              then upd_proc i (\<lambda>p. p\<lparr>p_state := RUNNABLE\<rparr>) s else s))) [0..<NPROC] s"

definition kkill :: "int \<Rightarrow> 'z ptab_scheme \<Rightarrow> ('z ptab_scheme, int) outcome" where
  "kkill pid s =
     bnd (loop_until (\<lambda>i s.
            bnd (acquire (ProcLock i) s) (\<lambda>_ s.
              if p_pid (the_proc s i) = pid then
                let s = upd_proc i (\<lambda>p. p\<lparr>p_killed := 1\<rparr>) s;
                    s = (if p_state (the_proc s i) = SLEEPING
                         then upd_proc i (\<lambda>p. p\<lparr>p_state := RUNNABLE\<rparr>) s else s)
                in bnd (release (ProcLock i) s) (\<lambda>_ s. Done (Some ()) s)
              else bnd (release (ProcLock i) s) (\<lambda>_ s. Done None s))) [0..<NPROC] s)
       (\<lambda>r s. case r of Some _ \<Rightarrow> Done 0 s | None \<Rightarrow> Done (-1) s)"

definition setkilled :: "nat \<Rightarrow> 'z ptab_scheme \<Rightarrow> ('z ptab_scheme, unit) outcome" where
  "setkilled i s =
     bnd (acquire (ProcLock i) s) (\<lambda>_ s.
       release (ProcLock i) (upd_proc i (\<lambda>p. p\<lparr>p_killed := 1\<rparr>) s))"

definition killed :: "nat \<Rightarrow> 'z ptab_scheme \<Rightarrow> ('z ptab_scheme, int) outcome" where
  "killed i s =
     bnd (acquire (ProcLock i) s) (\<lambda>_ s.
       let k = p_killed (the_proc s i) in
       bnd (release (ProcLock i) s) (\<lambda>_ s. Done k s))"

definition reparent :: "nat \<Rightarrow> 'z ptab_scheme \<Rightarrow> ('z ptab_scheme, unit) outcome" where
  "reparent p s =
     loop_all (\<lambda>i s.
       if p_parent (the_proc s i) = Some p then
         wakeup (map_option ChProc (initproc s))
           (upd_proc i (\<lambda>q. q\<lparr>p_parent := initproc s\<rparr>) s)
       else Done () s) [0..<NPROC] s"

subsection \<open>The scheduler\<close>

text \<open>
  One visit of the scan: true when the scheduler switched to the process. \<open>scheduler_back\<close> is what the
  loop body does when the process gives the CPU back; \<open>scheduler_scan\<close> goes on from slot \<open>i\<close>.
\<close>

definition scheduler_visit :: "nat \<Rightarrow> 'z ptab_scheme \<Rightarrow> ('z ptab_scheme, nat option) outcome" where
  "scheduler_visit i s =
     bnd (acquire (ProcLock i) s) (\<lambda>_ s.
       if p_state (the_proc s i) = RUNNABLE then
         Done (Some i) ((upd_proc i (\<lambda>p. p\<lparr>p_state := RUNNING\<rparr>) s)\<lparr>cur := Some i\<rparr>)
       else bnd (release (ProcLock i) s) (\<lambda>_ s. Done None s))"

definition scheduler_scan :: "nat \<Rightarrow> 'z ptab_scheme \<Rightarrow> ('z ptab_scheme, nat option) outcome" where
  "scheduler_scan i s = loop_until scheduler_visit [i..<NPROC] s"

definition scheduler_back :: "nat \<Rightarrow> 'z ptab_scheme \<Rightarrow> ('z ptab_scheme, unit) outcome" where
  "scheduler_back i s = release (ProcLock i) (s\<lparr>cur := None\<rparr>)"

subsection \<open>Copies that know which address space they work on\<close>

text \<open>The length \<open>memmove\<close> takes is a \<open>uint\<close>.\<close>

definition either_copyout ::
  "bool \<Rightarrow> u64 \<Rightarrow> u8 list \<Rightarrow> u64 \<Rightarrow> 'z ptab_scheme \<Rightarrow> ('z ptab_scheme, int) outcome" where
  "either_copyout user_dst dst src len = with_myproc (\<lambda>s i.
     if user_dst then copyout (p_pagetable (the_proc s i)) dst src len s
     else Done 0 (s\<lparr>mem := store_bytes dst (take (unat (ucast len :: u32)) src) (mem s)\<rparr>))"

definition either_copyin ::
  "bool \<Rightarrow> u64 \<Rightarrow> u64 \<Rightarrow> 'z ptab_scheme \<Rightarrow> ('z ptab_scheme, int \<times> u8 list) outcome" where
  "either_copyin user_src src len = with_myproc (\<lambda>s i.
     if user_src then copyin (p_pagetable (the_proc s i)) src len s
     else Done (0, load_bytes (mem s) src (unat (ucast len :: u32))) s)"

subsection \<open>Frames\<close>

lemma only_mem_ptab:
  assumes "only_mem s t"
  shows "held t = held s" "procs t = procs s" "nextpid t = nextpid s" "initproc t = initproc s"
    "cur t = cur s" "kend t = kend s" "syms t = syms s" "lab_syscall t = lab_syscall s"
    "intr_on t = intr_on s" "ptab.more t = ptab.more s" "console_out t = console_out s"
    "kernel_pagetable t = kernel_pagetable s" "satp t = satp s"
proof -
  have t: "t = s\<lparr>mem := mem t, freelist := freelist t\<rparr>" using assms by (simp add: only_mem_def)
  show "held t = held s" "procs t = procs s" "nextpid t = nextpid s" "initproc t = initproc s"
    "cur t = cur s" "kend t = kend s" "syms t = syms s" "lab_syscall t = lab_syscall s"
    "intr_on t = intr_on s" "ptab.more t = ptab.more s" "console_out t = console_out s"
    "kernel_pagetable t = kernel_pagetable s" "satp t = satp s"
    by (subst t; simp)+
qed

lemma frame_proc_freepagetable [frames]: "proc_freepagetable pt sz s = Done r t \<Longrightarrow> only_mem s t"
  unfolding proc_freepagetable_def bnd_eq_Done
  using only_mem_trans frame_uvmunmap frame_uvmfree by metis

lemma frame_proc_pagetable [frames]: "proc_pagetable p s = Done r t \<Longrightarrow> only_mem s t"
  unfolding proc_pagetable_def
  by (auto dest!: frames split: if_splits) (metis only_mem_trans)+

text \<open>A step on the process table that writes slot \<open>i\<close> only.\<close>

definition only_slot :: "nat \<Rightarrow> 'z ptab_scheme \<Rightarrow> 'z ptab_scheme \<Rightarrow> bool" where
  "only_slot i s t \<longleftrightarrow>
     (\<exists>p m f. t = s\<lparr>mem := m, freelist := f, procs := (procs s)[i := p]\<rparr>)"

lemma freeproc_slot:
  assumes "freeproc i s = Done u t" and "i < length (procs s)"
  shows "only_slot i s t" "p_state (the_proc t i) = UNUSED" "p_pid (the_proc t i) = 0"
    "p_trapframe (the_proc t i) = 0" "p_pagetable (the_proc t i) = 0" "p_sz (the_proc t i) = 0"
    "p_parent (the_proc t i) = None" "p_killed (the_proc t i) = 0" "p_chan (the_proc t i) = None"
    "p_kstack (the_proc t i) = p_kstack (the_proc s i)"
proof -
  obtain a b where a: "only_mem s a"
    and b: "only_mem (upd_proc i (\<lambda>p. p\<lparr>p_trapframe := 0\<rparr>) a) b"
    and t: "t = upd_proc i (\<lambda>p. p\<lparr>p_pagetable := 0, p_sz := 0, p_pid := 0, p_parent := None,
            p_name := (p_name p)[0 := 0], p_chan := None, p_killed := 0, p_xstate := 0,
            p_state := UNUSED\<rparr>) b"
  proof -
    from assms(1) obtain a b where f:
      "(if p_trapframe (the_proc s i) \<noteq> 0 then kfree (p_trapframe (the_proc s i)) s else Done () s) = Done () a"
      "(let s = upd_proc i (\<lambda>p. p\<lparr>p_trapframe := 0\<rparr>) a; p = the_proc s i in
        if p_pagetable p \<noteq> 0 then proc_freepagetable (p_pagetable p) (p_sz p) s else Done () s) = Done () b"
      "t = upd_proc i (\<lambda>p. p\<lparr>p_pagetable := 0, p_sz := 0, p_pid := 0, p_parent := None,
            p_name := (p_name p)[0 := 0], p_chan := None, p_killed := 0, p_xstate := 0,
            p_state := UNUSED\<rparr>) b"
      by (simp only: freeproc_def Let_def bnd_eq_Done) auto
    have "only_mem s a" using f(1) by (auto dest: frame_kfree split: if_splits)
    moreover have "only_mem (upd_proc i (\<lambda>p. p\<lparr>p_trapframe := 0\<rparr>) a) b"
      using f(2) by (auto simp: Let_def dest: frame_proc_freepagetable simp del: procs_upd_proc split: if_splits)
    ultimately show ?thesis using that f(3) by blast
  qed
  have pb: "procs b = (procs s)[i := (the_proc s i)\<lparr>p_trapframe := 0\<rparr>]"
    using only_mem_ptab(2) [OF a] only_mem_ptab(2) [OF b] by simp
  show "only_slot i s t"
  proof -
    have "b = (upd_proc i (\<lambda>p. p\<lparr>p_trapframe := 0\<rparr>) a)\<lparr>mem := mem b, freelist := freelist b\<rparr>"
      using b by (simp add: only_mem_def)
    also have "\<dots> = s\<lparr>mem := mem b, freelist := freelist b, procs := procs b\<rparr>"
    proof -
      note eqs = only_mem_ptab [OF a]
      show ?thesis by (intro ptab.equality) (simp_all add: eqs pb)
    qed
    finally have bs: "b = s\<lparr>mem := mem b, freelist := freelist b, procs := procs b\<rparr>" .
    show ?thesis
      unfolding only_slot_def t upd_proc_def
      by (subst bs) (auto simp: pb intro!: exI)
  qed
  show "p_state (the_proc t i) = UNUSED" "p_pid (the_proc t i) = 0"
    "p_trapframe (the_proc t i) = 0" "p_pagetable (the_proc t i) = 0" "p_sz (the_proc t i) = 0"
    "p_parent (the_proc t i) = None" "p_killed (the_proc t i) = 0" "p_chan (the_proc t i) = None"
    "p_kstack (the_proc t i) = p_kstack (the_proc s i)"
    using assms(2) by (simp_all add: t pb)
qed

lemma only_slot_simps:
  assumes "only_slot i s t"
  shows "held t = held s" "nextpid t = nextpid s" "cur t = cur s" "initproc t = initproc s"
    "length (procs t) = length (procs s)" "j \<noteq> i \<Longrightarrow> the_proc t j = the_proc s j"
    "kend t = kend s" "syms t = syms s" "ptab.more t = ptab.more s"
  using assms by (auto simp: only_slot_def)

subsection \<open>Process ids\<close>

definition pid_inv :: "'z ptab_scheme \<Rightarrow> bool" where
  "pid_inv s \<longleftrightarrow> 0 < nextpid s \<and>
     (\<forall>i < length (procs s). p_pid (the_proc s i) < nextpid s) \<and>
     (\<forall>i < length (procs s). \<forall>j < length (procs s).
        i \<noteq> j \<longrightarrow> p_pid (the_proc s i) \<noteq> 0 \<longrightarrow> p_pid (the_proc s i) \<noteq> p_pid (the_proc s j))"

lemma allocpid_spec:
  "PidLock \<notin> set (held s) \<Longrightarrow> allocpid s = Done (nextpid s) (s\<lparr>nextpid := c_int (nextpid s + 1)\<rparr>)"
  by (simp add: allocpid_def lock_simps)

text \<open>
  What \<open>allocproc_found\<close> leaves: only slot \<open>i\<close> changes, and either it has a fresh pid and its lock
  held, or it is free again and unlocked.
\<close>

definition allocated :: "nat \<Rightarrow> 'z ptab_scheme \<Rightarrow> nat option \<Rightarrow> 'z ptab_scheme \<Rightarrow> bool" where
  "allocated i s r t \<longleftrightarrow>
     nextpid t = c_int (nextpid s + 1) \<and> length (procs t) = length (procs s) \<and> cur t = cur s \<and>
     (\<forall>j. j \<noteq> i \<longrightarrow> the_proc t j = the_proc s j) \<and>
     (case r of
        None \<Rightarrow> held t = remove1 (ProcLock i) (held s) \<and> p_state (the_proc t i) = UNUSED \<and>
          p_pid (the_proc t i) = 0
      | Some k \<Rightarrow> k = i \<and> held t = held s \<and> p_state (the_proc t i) = USED \<and>
          p_pid (the_proc t i) = nextpid s \<and>
          p_killed (the_proc t i) = p_killed (the_proc s i) \<and> p_trapframe (the_proc t i) \<noteq> 0 \<and>
          p_pagetable (the_proc t i) \<noteq> 0 \<and>
          c_ra (p_context (the_proc t i)) = sym_forkret (syms s) \<and>
          c_sp (p_context (the_proc t i)) = p_kstack (the_proc s i) + PGSIZE)"

lemma allocproc_found_spec:
  assumes "allocproc_found i s = Done r t" and "i < length (procs s)"
    and "PidLock \<notin> set (held s)" and "ProcLock i \<in> set (held s)"
  shows "allocated i s r t"
proof -
  let ?s1 = "upd_proc i (\<lambda>p. p\<lparr>p_pid := nextpid s, p_state := USED\<rparr>) (s\<lparr>nextpid := c_int (nextpid s + 1)\<rparr>)"
  from assms(1) obtain tf a where k: "kalloc ?s1 = Done tf a"
    and rest: "(let s = upd_proc i (\<lambda>p. p\<lparr>p_trapframe := tf\<rparr>) a in
         if tf = 0 then
           bnd (freeproc i s) (\<lambda>_ s. bnd (release (ProcLock i) s) (\<lambda>_ s. Done None s))
         else
           bnd (proc_pagetable i s) (\<lambda>pt s.
             let s = upd_proc i (\<lambda>p. p\<lparr>p_pagetable := pt\<rparr>) s in
             if pt = 0 then
               bnd (freeproc i s) (\<lambda>_ s. bnd (release (ProcLock i) s) (\<lambda>_ s. Done None s))
             else
               Done (Some i) (upd_proc i (\<lambda>p. p\<lparr>p_context := zero_context
                 \<lparr>c_ra := sym_forkret (syms s), c_sp := p_kstack p + PGSIZE\<rparr>\<rparr>) s))) = Done r t"
    unfolding allocproc_found_def allocpid_spec [OF assms(3)] bnd.simps Let_def by auto
  note a = only_mem_ptab [OF frame_kalloc [OF k]]
  have fail: "allocated i s None v"
    if f: "freeproc i b = Done u c" "release (ProcLock i) c = Done w v"
      and b: "held b = held s" "nextpid b = c_int (nextpid s + 1)" "length (procs b) = length (procs s)"
        "cur b = cur s" "\<forall>j. j \<noteq> i \<longrightarrow> the_proc b j = the_proc s j" for b u c w v
  proof -
    have i: "i < length (procs b)" using assms(2) b(3) by simp
    note fs = freeproc_slot [OF f(1) i]
    note c = only_slot_simps [OF fs(1)]
    have v: "v = c\<lparr>held := remove1 (ProcLock i) (held c)\<rparr>"
      using f(2) by (auto simp: release_def split: if_splits)
    show ?thesis using b c fs by (simp add: allocated_def v)
  qed
  show ?thesis
  proof (cases "tf = 0")
    case True
    with rest obtain u c w v where "freeproc i (upd_proc i (\<lambda>p. p\<lparr>p_trapframe := tf\<rparr>) a) = Done u c"
        "release (ProcLock i) c = Done w v" "r = None" "t = v"
      by (auto simp: Let_def)
    then show ?thesis using fail a assms(2) by auto
  next
    case False
    with rest obtain pt d where d: "proc_pagetable i (upd_proc i (\<lambda>p. p\<lparr>p_trapframe := tf\<rparr>) a) = Done pt d"
      by (auto simp: Let_def)
    note dd = only_mem_ptab [OF frame_proc_pagetable [OF d]]
    show ?thesis
    proof (cases "pt = 0")
      case True
      with rest False d obtain u c w v where
        "freeproc i (upd_proc i (\<lambda>p. p\<lparr>p_pagetable := pt\<rparr>) d) = Done u c"
        "release (ProcLock i) c = Done w v" "r = None" "t = v"
        by (auto simp: Let_def)
      then show ?thesis using fail a dd assms(2) by auto
    next
      case pt: False
      then have "r = Some i" "t = upd_proc i (\<lambda>p. p\<lparr>p_context := zero_context
          \<lparr>c_ra := sym_forkret (syms d), c_sp := p_kstack p + PGSIZE\<rparr>\<rparr>)
          (upd_proc i (\<lambda>p. p\<lparr>p_pagetable := pt\<rparr>) d)"
        using rest False d by (auto simp: Let_def)
      then show ?thesis using a dd assms(2) False pt by (simp add: allocated_def)
    qed
  qed
qed

definition unlocked_table :: "'z ptab_scheme \<Rightarrow> bool" where
  "unlocked_table s \<longleftrightarrow> length (procs s) = NPROC \<and> (\<forall>i < NPROC. ProcLock i \<notin> set (held s))"

lemma allocproc_eq:
  assumes "unlocked_table s"
  shows "allocproc s =
    (case find (\<lambda>i. p_state (the_proc s i) = UNUSED) [0..<NPROC] of
       None \<Rightarrow> Done None s
     | Some i \<Rightarrow> allocproc_found i (s\<lparr>held := ProcLock i # held s\<rparr>))"
proof -
  let ?f = "\<lambda>i s. bnd (acquire (ProcLock i) s) (\<lambda>_ s.
      if p_state (the_proc s i) = UNUSED then Done (Some i) s
      else bnd (release (ProcLock i) s) (\<lambda>_ s. Done None s))"
  have "loop_until ?f [0..<NPROC] s = (case find (\<lambda>i. p_state (the_proc s i) = UNUSED) [0..<NPROC] of
      None \<Rightarrow> Done None s | Some i \<Rightarrow> Done (Some i) (s\<lparr>held := ProcLock i # held s\<rparr>))"
    by (rule loop_until_find) (use assms in \<open>auto simp: unlocked_table_def acquire_free release_head\<close>)
  then show ?thesis by (simp add: allocproc_def split: option.split)
qed

text \<open>After \<open>2 ^ 31 - 1\<close> allocations the counter has wrapped: the ids that follow are negative.\<close>

lemma allocpid_wraps:
  "PidLock \<notin> set (held s) \<Longrightarrow> nextpid s = 2 ^ 31 - 1 \<Longrightarrow> allocpid s = Done (2 ^ 31 - 1) (s\<lparr>nextpid := - (2 ^ 31)\<rparr>)"
  by (simp add: allocpid_spec c_int_def)

subsection \<open>Wakeup, kill and the scheduler\<close>

lemma fold_upd_proc:
  "fold (\<lambda>i. upd_proc i (f i)) is s = s\<lparr>procs := fold (\<lambda>i ps. ps[i := f i (ps ! i)]) is (procs s)\<rparr>"
  by (induction "is" arbitrary: s) (simp_all add: upd_proc_def)

lemma length_fold_list_update [simp]:
  "length (fold (\<lambda>i ps. ps[i := f i (ps ! i)]) is ps) = length ps"
  by (induction "is" arbitrary: ps) auto

lemma fold_list_update_nth:
  assumes "distinct is" and "\<forall>i \<in> set is. i < length ps" and "j < length ps"
  shows "fold (\<lambda>i ps. ps[i := f i (ps ! i)]) is ps ! j = (if j \<in> set is then f j (ps ! j) else ps ! j)"
  using assms by (induction "is" arbitrary: ps) (auto simp: nth_list_update)

definition woken :: "chan option \<Rightarrow> nat option \<Rightarrow> nat \<Rightarrow> proc \<Rightarrow> proc" where
  "woken chan me i p =
     (if me \<noteq> Some i \<and> p_state p = SLEEPING \<and> p_chan p = chan then p\<lparr>p_state := RUNNABLE\<rparr> else p)"

definition wake_all :: "chan option \<Rightarrow> 'z ptab_scheme \<Rightarrow> 'z ptab_scheme" where
  "wake_all chan s = s\<lparr>procs := map (\<lambda>i. woken chan (cur s) i (the_proc s i)) [0..<length (procs s)]\<rparr>"

lemma wakeup_eq:
  assumes "unlocked_table s"
  shows "wakeup chan s = Done () (wake_all chan s)"
proof -
  let ?g = "\<lambda>i. upd_proc i (woken chan (cur s) i)"
  have len: "length (procs s) = NPROC" using assms by (simp add: unlocked_table_def)
  have "wakeup chan s = Done () (fold ?g [0..<NPROC] s) \<and>
      (unlocked_table (fold ?g [0..<NPROC] s) \<and> cur (fold ?g [0..<NPROC] s) = cur s)"
    unfolding wakeup_def
  proof (rule loop_all_inv)
    fix i and t :: "'a ptab_scheme"
    assume i: "i \<in> set [0..<NPROC]" and t: "unlocked_table t \<and> cur t = cur s"
    then have "ProcLock i \<notin> set (held t)" by (simp add: unlocked_table_def)
    then show "(if cur t = Some i then Done () t
       else bnd (acquire (ProcLock i) t) (\<lambda>_ t.
              let p = the_proc t i in release (ProcLock i)
                (if p_state p = SLEEPING \<and> p_chan p = chan
                 then upd_proc i (\<lambda>p. p\<lparr>p_state := RUNNABLE\<rparr>) t else t))) =
        Done () (?g i t) \<and> unlocked_table (?g i t) \<and> cur (?g i t) = cur s"
      using t by (auto simp: acquire_free release_def Let_def upd_proc_def woken_def unlocked_table_def)
  qed (use assms in simp)
  moreover have "procs (fold ?g [0..<NPROC] s) = map (\<lambda>i. woken chan (cur s) i (the_proc s i)) [0..<NPROC]"
    unfolding fold_upd_proc
    by (rule nth_equalityI) (use len in \<open>simp_all add: fold_list_update_nth\<close>)
  ultimately show ?thesis by (simp add: wake_all_def len fold_upd_proc)
qed

lemma wake_all_proc [simp]:
  "i < length (procs s) \<Longrightarrow> the_proc (wake_all chan s) i = woken chan (cur s) i (the_proc s i)"
  by (simp add: wake_all_def)

lemma wake_all_frame [simp]:
  "held (wake_all chan s) = held s" "cur (wake_all chan s) = cur s"
  "length (procs (wake_all chan s)) = length (procs s)" "initproc (wake_all chan s) = initproc s"
  "mem (wake_all chan s) = mem s" "freelist (wake_all chan s) = freelist s"
  "nextpid (wake_all chan s) = nextpid s" "kend (wake_all chan s) = kend s"
  "ptab.more (wake_all chan s) = ptab.more s"
  by (simp_all add: wake_all_def)

lemma unlocked_wake_all [simp]: "unlocked_table (wake_all chan s) = unlocked_table s"
  by (simp add: unlocked_table_def)

definition asleep :: "chan option \<Rightarrow> nat \<Rightarrow> 'z ptab_scheme \<Rightarrow> 'z ptab_scheme" where
  "asleep chan i s = (upd_proc i (\<lambda>p. p\<lparr>p_chan := chan, p_state := SLEEPING\<rparr>) s)\<lparr>held := [ProcLock i]\<rparr>"

lemma sleep_eq:
  assumes "cur s = Some i" and "i < length (procs s)" and "held s = [lk]" and "lk \<noteq> ProcLock i"
  shows "sleep chan lk s = Switch (asleep chan i s)"
  using assms
  by (simp add: sleep_def acquire_def release_def sched_def holding_def asleep_def upd_proc_def)

lemma kkill_eq:
  assumes "unlocked_table s"
  shows "kkill pid s =
    (case find (\<lambda>i. p_pid (the_proc s i) = pid) [0..<NPROC] of
       None \<Rightarrow> Done (-1) s
     | Some i \<Rightarrow> Done 0 (upd_proc i (\<lambda>p. p\<lparr>p_killed := 1,
         p_state := (if p_state p = SLEEPING then RUNNABLE else p_state p)\<rparr>) s))"
proof -
  let ?g = "\<lambda>i. upd_proc i (\<lambda>p. p\<lparr>p_killed := 1,
      p_state := (if p_state p = SLEEPING then RUNNABLE else p_state p)\<rparr>) s"
  let ?f = "\<lambda>i s. bnd (acquire (ProcLock i) s) (\<lambda>_ s.
      if p_pid (the_proc s i) = pid then
        let s = upd_proc i (\<lambda>p. p\<lparr>p_killed := 1\<rparr>) s;
            s = (if p_state (the_proc s i) = SLEEPING
                 then upd_proc i (\<lambda>p. p\<lparr>p_state := RUNNABLE\<rparr>) s else s)
        in bnd (release (ProcLock i) s) (\<lambda>_ s. Done (Some ()) s)
      else bnd (release (ProcLock i) s) (\<lambda>_ s. Done None s))"
  have "loop_until ?f [0..<NPROC] s = (case find (\<lambda>i. p_pid (the_proc s i) = pid) [0..<NPROC] of
      None \<Rightarrow> Done None s | Some i \<Rightarrow> Done (Some ()) (?g i))"
    by (rule loop_until_find)
      (use assms in \<open>auto simp: unlocked_table_def acquire_free release_def Let_def upd_proc_def\<close>)
  then show ?thesis by (simp add: kkill_def split: option.split)
qed

definition dispatched :: "nat \<Rightarrow> 'z ptab_scheme \<Rightarrow> 'z ptab_scheme" where
  "dispatched i s = (upd_proc i (\<lambda>p. p\<lparr>p_state := RUNNING\<rparr>) s)\<lparr>cur := Some i, held := ProcLock i # held s\<rparr>"

lemma scheduler_scan_eq:
  assumes "unlocked_table s"
  shows "scheduler_scan i s =
    (case find (\<lambda>j. p_state (the_proc s j) = RUNNABLE) [i..<NPROC] of
       None \<Rightarrow> Done None s | Some j \<Rightarrow> Done (Some j) (dispatched j s))"
  unfolding scheduler_scan_def
  by (rule loop_until_find)
    (use assms in \<open>auto simp: unlocked_table_def scheduler_visit_def acquire_free release_head
      dispatched_def upd_proc_def\<close>)

text \<open>
  C11: a wakeup is not lost. Process \<open>i\<close> holds the condition lock \<open>lk\<close> and calls \<open>sleep\<close>; its run
  ends in \<open>sched\<close> with only its own lock held, so \<open>lk\<close> is free and the scheduler can give the CPU
  away. When another process \<open>j\<close> that has taken \<open>lk\<close> calls \<open>wakeup\<close> on the same channel, \<open>i\<close> is
  \<open>RUNNABLE\<close>, the scan of the scheduler from its slot picks it, and its \<open>sleep\<close> returns with \<open>lk\<close>
  held again, the channel cleared and the rest of its process structure as it was.
\<close>
theorem sleep_wakeup:
  assumes "cur s = Some i" and "i < NPROC" and "length (procs s) = NPROC" and "held s = [lk]"
    and "\<forall>k. lk \<noteq> ProcLock k" and "j \<noteq> i"
  shows "\<exists>t u w y z. sleep chan lk s = Switch t \<and> scheduler_back i t = Done () u \<and> held u = [] \<and>
    wakeup chan (u\<lparr>cur := Some j, held := [lk]\<rparr>) = Done () w \<and> p_state (the_proc w i) = RUNNABLE \<and>
    scheduler_scan i (w\<lparr>cur := None, held := []\<rparr>) = Done (Some i) y \<and> sleep_resume lk y = Done () z \<and>
    held z = [lk] \<and> the_proc z i = (the_proc s i)\<lparr>p_state := RUNNING, p_chan := None\<rparr>"
proof -
  let ?u = "(asleep chan i s)\<lparr>cur := None, held := []\<rparr>"
  let ?w = "wake_all chan (?u\<lparr>cur := Some j, held := [lk]\<rparr>)"
  let ?y = "dispatched i (?w\<lparr>cur := None, held := []\<rparr>)"
  have t: "sleep chan lk s = Switch (asleep chan i s)"
    by (rule sleep_eq) (use assms in auto)
  have u: "scheduler_back i (asleep chan i s) = Done () ?u"
    by (simp add: scheduler_back_def release_def asleep_def)
  have w: "wakeup chan (?u\<lparr>cur := Some j, held := [lk]\<rparr>) = Done () ?w"
    by (rule wakeup_eq) (use assms(3,5) in \<open>auto simp: unlocked_table_def asleep_def\<close>)
  have pi: "the_proc ?w i = (the_proc s i)\<lparr>p_state := RUNNABLE, p_chan := chan\<rparr>"
    using assms(2,3,6) by (simp add: asleep_def woken_def)
  have y: "scheduler_scan i (?w\<lparr>cur := None, held := []\<rparr>) = Done (Some i) ?y"
  proof -
    have "unlocked_table (?w\<lparr>cur := None, held := []\<rparr>)"
      using assms(3) by (simp add: unlocked_table_def asleep_def)
    moreover have "find (\<lambda>j. p_state (the_proc (?w\<lparr>cur := None, held := []\<rparr>) j) = RUNNABLE) [i..<NPROC] = Some i"
      using assms(2) pi by (auto simp: find_upt_Some_iff)
    ultimately show ?thesis by (simp add: scheduler_scan_eq)
  qed
  have z: "\<exists>z. sleep_resume lk ?y = Done () z \<and> held z = [lk] \<and>
      the_proc z i = (the_proc s i)\<lparr>p_state := RUNNING, p_chan := None\<rparr>"
    using assms(2,3,5) pi
    by (simp add: sleep_resume_def dispatched_def with_myproc_def release_def acquire_def upd_proc_def asleep_def)
  show ?thesis using t u w y z pi by (simp add: exI [of _ ?u])
qed

text \<open>
  The scheduler's scan from slot \<open>i\<close>. If some process at or after \<open>i\<close> is \<open>RUNNABLE\<close> the scan
  switches to the first of them, so no runnable process is passed over: that process is \<open>RUNNING\<close>, it
  is the process of this CPU, its lock has been acquired and every other process is as it was.
  Otherwise the scan ends with the state unchanged.
\<close>
theorem scheduler_scan_picks_first:
  assumes "unlocked_table s"
  shows "(\<exists>j t. scheduler_scan i s = Done (Some j) t \<and> i \<le> j \<and> j < NPROC \<and>
      p_state (the_proc s j) = RUNNABLE \<and>
      (\<forall>k < NPROC. i \<le> k \<longrightarrow> p_state (the_proc s k) = RUNNABLE \<longrightarrow> j \<le> k) \<and>
      the_proc t j = (the_proc s j)\<lparr>p_state := RUNNING\<rparr> \<and> (\<forall>k. k \<noteq> j \<longrightarrow> the_proc t k = the_proc s k) \<and>
      cur t = Some j \<and> held t = ProcLock j # held s)
    \<or> (scheduler_scan i s = Done None s \<and>
      (\<forall>k < NPROC. i \<le> k \<longrightarrow> p_state (the_proc s k) \<noteq> RUNNABLE))"
proof (cases "find (\<lambda>j. p_state (the_proc s j) = RUNNABLE) [i..<NPROC]")
  case None
  then have "scheduler_scan i s = Done None s" by (simp add: scheduler_scan_eq [OF assms])
  with None show ?thesis by (auto simp: find_None_iff)
next
  case (Some j)
  then have j: "i \<le> j" "j < NPROC" "p_state (the_proc s j) = RUNNABLE"
      "\<forall>k. i \<le> k \<and> k < j \<longrightarrow> p_state (the_proc s k) \<noteq> RUNNABLE"
    by (auto simp: find_upt_Some_iff)
  have "\<forall>k < NPROC. i \<le> k \<longrightarrow> p_state (the_proc s k) = RUNNABLE \<longrightarrow> j \<le> k"
    using j(4) by (meson not_le)
  moreover have "length (procs s) = NPROC" using assms by (simp add: unlocked_table_def)
  moreover have "scheduler_scan i s = Done (Some j) (dispatched j s)"
    using Some by (simp add: scheduler_scan_eq [OF assms])
  ultimately have "scheduler_scan i s = Done (Some j) (dispatched j s) \<and> i \<le> j \<and> j < NPROC \<and>
      p_state (the_proc s j) = RUNNABLE \<and>
      (\<forall>k < NPROC. i \<le> k \<longrightarrow> p_state (the_proc s k) = RUNNABLE \<longrightarrow> j \<le> k) \<and>
      the_proc (dispatched j s) j = (the_proc s j)\<lparr>p_state := RUNNING\<rparr> \<and>
      (\<forall>k. k \<noteq> j \<longrightarrow> the_proc (dispatched j s) k = the_proc s k) \<and>
      cur (dispatched j s) = Some j \<and> held (dispatched j s) = ProcLock j # held s"
    using j by (auto simp: dispatched_def)
  then show ?thesis by blast
qed

text \<open>
  \<open>kkill\<close> with a positive pid. If a process has that pid it is the only one; \<open>kkill\<close> returns 0,
  sets its \<open>killed\<close> flag, makes it runnable if it slept and changes nothing else. If no process has
  the pid, \<open>kkill\<close> returns -1 and changes nothing.
\<close>
theorem kkill_marks_one:
  assumes "unlocked_table s" and "pid_inv s" and "0 < pid"
  shows "(\<exists>i < NPROC. p_pid (the_proc s i) = pid \<and> (\<forall>j < NPROC. j \<noteq> i \<longrightarrow> p_pid (the_proc s j) \<noteq> pid) \<and>
      kkill pid s = Done 0 (upd_proc i (\<lambda>p. p\<lparr>p_killed := 1,
        p_state := (if p_state p = SLEEPING then RUNNABLE else p_state p)\<rparr>) s))
    \<or> ((\<forall>j < NPROC. p_pid (the_proc s j) \<noteq> pid) \<and> kkill pid s = Done (-1) s)"
proof (cases "find (\<lambda>i. p_pid (the_proc s i) = pid) [0..<NPROC]")
  case None
  then have "kkill pid s = Done (-1) s" by (simp add: kkill_eq [OF assms(1)])
  with None show ?thesis by (auto simp: find_None_iff)
next
  case (Some i)
  then have i: "i < NPROC" "p_pid (the_proc s i) = pid" by (auto simp: find_upt_Some_iff)
  have "\<forall>j < NPROC. j \<noteq> i \<longrightarrow> p_pid (the_proc s j) \<noteq> pid"
    using assms i unfolding pid_inv_def unlocked_table_def by (metis less_irrefl)
  moreover have "kkill pid s = Done 0 (upd_proc i (\<lambda>p. p\<lparr>p_killed := 1,
      p_state := (if p_state p = SLEEPING then RUNNABLE else p_state p)\<rparr>) s)"
    using Some by (simp add: kkill_eq [OF assms(1)])
  ultimately show ?thesis using i by blast
qed

text \<open>
  C38: \<open>kkill\<close> accepts the pid 0, which every free slot has. On a table with a free slot,
  \<open>kill(0)\<close> when no slot before it has pid 0 returns 0 and marks that free slot as killed;
  \<open>allocproc\<close> does not clear the flag, so the next process created in the slot is born killed.
\<close>
theorem kkill_zero_poisons_slot:
  assumes "unlocked_table s" and "PidLock \<notin> set (held s)" and "i < NPROC"
    and "p_pid (the_proc s i) = 0" and "p_state (the_proc s i) = UNUSED"
    and "\<forall>j < i. p_pid (the_proc s j) \<noteq> 0 \<and> p_state (the_proc s j) \<noteq> UNUSED"
  shows "\<exists>t. kkill 0 s = Done 0 t \<and> p_state (the_proc t i) = UNUSED \<and> p_killed (the_proc t i) = 1 \<and>
    (\<forall>k u. allocproc t = Done (Some k) u \<longrightarrow> k = i \<and> p_killed (the_proc u k) = 1)"
proof -
  let ?t = "upd_proc i (\<lambda>p. p\<lparr>p_killed := 1,
      p_state := (if p_state p = SLEEPING then RUNNABLE else p_state p)\<rparr>) s"
  have len: "length (procs s) = NPROC" using assms(1) by (simp add: unlocked_table_def)
  have "find (\<lambda>i. p_pid (the_proc s i) = 0) [0..<NPROC] = Some i"
    using assms(3,4,6) by (simp add: find_upt_Some_iff)
  then have kill: "kkill 0 s = Done 0 ?t" using assms(1) by (simp add: kkill_eq)
  have un: "unlocked_table ?t" using assms(1) by (simp add: unlocked_table_def)
  have "find (\<lambda>j. p_state (the_proc ?t j) = UNUSED) [0..<NPROC] = Some i"
    using assms(3,5,6) len by (simp add: find_upt_Some_iff)
  then have al: "allocproc ?t = allocproc_found i (?t\<lparr>held := ProcLock i # held ?t\<rparr>)"
    using un by (simp add: allocproc_eq)
  have "k = i \<and> p_killed (the_proc u k) = 1" if "allocproc ?t = Done (Some k) u" for k u
  proof -
    have "allocated i (?t\<lparr>held := ProcLock i # held ?t\<rparr>) (Some k) u"
      using that unfolding al by (rule allocproc_found_spec) (use assms(2,3) len in auto)
    then show ?thesis using assms(3) len by (simp add: allocated_def)
  qed
  then show ?thesis using kill assms(3,5) len by (intro exI [of _ ?t]) simp
qed

subsection \<open>A concrete process table\<close>

text \<open>Process 1 runs, process 2 can run, every other slot is free.\<close>

definition proc_sample :: ptab where
  "proc_sample = vm_sample\<lparr>procs := (replicate NPROC zero_proc)
     [0 := zero_proc\<lparr>p_state := RUNNING, p_pid := 1\<rparr>, 1 := zero_proc\<lparr>p_state := RUNNABLE, p_pid := 2\<rparr>],
     nextpid := 3, cur := Some 0\<rparr>"

lemma proc_sample_unlocked [simp]: "unlocked_table proc_sample" "PidLock \<notin> set (held proc_sample)"
  by (simp_all add: unlocked_table_def proc_sample_def vm_sample_def)

lemma proc_sample_procs:
  "i < NPROC \<Longrightarrow> the_proc proc_sample i = (if i = 0 then zero_proc\<lparr>p_state := RUNNING, p_pid := 1\<rparr>
     else if i = 1 then zero_proc\<lparr>p_state := RUNNABLE, p_pid := 2\<rparr> else zero_proc)"
  "length (procs proc_sample) = NPROC" "nextpid proc_sample = 3"
  by (simp_all add: proc_sample_def)

lemma proc_sample_pids: "pid_inv proc_sample"
  unfolding pid_inv_def proc_sample_procs(2,3)
  by (auto simp: proc_sample_procs(1) zero_proc_def)

lemma sleep_wakeup_witness:
  "\<exists>t u. sleep (Some ChTicks) TicksLock (proc_sample\<lparr>held := [TicksLock]\<rparr>) = Switch t \<and>
    scheduler_back 0 t = Done () u \<and> held u = []"
  using sleep_wakeup [of "proc_sample\<lparr>held := [TicksLock]\<rparr>" 0 TicksLock 1 "Some ChTicks"]
  by (auto simp: proc_sample_procs(2)) (auto simp: proc_sample_def)

lemma scheduler_scan_witness:
  "\<exists>t. scheduler_scan 0 proc_sample = Done (Some 1) t \<and> p_state (the_proc t 1) = RUNNING"
proof -
  have r: "k < NPROC \<Longrightarrow> p_state (the_proc proc_sample k) = RUNNABLE \<longleftrightarrow> k = 1" for k
    by (simp add: proc_sample_procs(1) zero_proc_def)
  then have "p_state (the_proc proc_sample 1) = RUNNABLE" by simp
  with scheduler_scan_picks_first [OF proc_sample_unlocked(1), of 0] r show ?thesis
    by (metis (no_types, lifting) one_less_numeral_iff proc.select_convs(1) proc.surjective
      proc.update_convs(1) semiring_norm(76) zero_le)
qed

lemma kkill_marks_one_witness:
  "\<exists>t. kkill 2 proc_sample = Done 0 t \<and> p_killed (the_proc t 1) = 1"
proof -
  have p: "i < NPROC \<Longrightarrow> p_pid (the_proc proc_sample i) = 2 \<longleftrightarrow> i = 1" for i
    by (simp add: proc_sample_procs(1) zero_proc_def)
  from kkill_marks_one [OF proc_sample_unlocked(1) proc_sample_pids, of 2] show ?thesis
    using p [of 1] by (auto simp: p proc_sample_procs(2) dest: spec [of _ 1])
qed

lemma kkill_zero_witness:
  "\<exists>t. kkill 0 proc_sample = Done 0 t \<and> p_state (the_proc t 2) = UNUSED \<and> p_killed (the_proc t 2) = 1"
proof -
  have "\<forall>j < 2. p_pid (the_proc proc_sample j) \<noteq> 0 \<and> p_state (the_proc proc_sample j) \<noteq> UNUSED"
    by (auto simp: proc_sample_procs(1) zero_proc_def)
  then show ?thesis
    using kkill_zero_poisons_slot [OF proc_sample_unlocked, of 2]
    by (auto simp: proc_sample_procs(1) zero_proc_def)
qed

end
