(* ===== verification/Sleeplock.thy ===== *)
theory Sleeplock
  imports Proc
begin

section \<open>sleeplock.c: long-term locks\<close>

text \<open>
  A sleep lock is a flag and the pid of its holder, protected by a spin lock of its own. The record
  \<open>sltab\<close> adds the sleep locks of the buffers and inodes to the state. A process that finds the lock
  taken goes to sleep (\<open>Switch\<close>); when it runs again it evaluates the condition of the \<open>while\<close> again
  (\<open>acquiresleep_resume\<close>).
\<close>

record sleeplock =
  sl_locked :: u32
  sl_pid :: int

record sltab = ptab +
  sleeplocks :: "sleepid \<Rightarrow> sleeplock"

definition set_sleeplock :: "sleepid \<Rightarrow> u32 \<Rightarrow> int \<Rightarrow> 'z sltab_scheme \<Rightarrow> 'z sltab_scheme" where
  "set_sleeplock i lkd pid s = s\<lparr>sleeplocks := (sleeplocks s)(i := \<lparr>sl_locked = lkd, sl_pid = pid\<rparr>)\<rparr>"

definition initsleeplock :: "sleepid \<Rightarrow> 'z sltab_scheme \<Rightarrow> 'z sltab_scheme" where
  "initsleeplock i s = set_sleeplock i 0 0 s"

text \<open>One evaluation of the loop condition, with what follows it, the spin lock being held.\<close>

definition acquiresleep_turn :: "sleepid \<Rightarrow> 'z sltab_scheme \<Rightarrow> ('z sltab_scheme, unit) outcome" where
  "acquiresleep_turn i s =
     (if sl_locked (sleeplocks s i) \<noteq> 0 then sleep (Some (ChSleepLock i)) (SleepLk i) s
      else with_myproc (\<lambda>s p.
        release (SleepLk i) (set_sleeplock i 1 (p_pid (the_proc s p)) s)) s)"

definition acquiresleep :: "sleepid \<Rightarrow> 'z sltab_scheme \<Rightarrow> ('z sltab_scheme, unit) outcome" where
  "acquiresleep i s = bnd (acquire (SleepLk i) s) (\<lambda>_ s. acquiresleep_turn i s)"

definition acquiresleep_resume :: "sleepid \<Rightarrow> 'z sltab_scheme \<Rightarrow> ('z sltab_scheme, unit) outcome" where
  "acquiresleep_resume i s = bnd (sleep_resume (SleepLk i) s) (\<lambda>_ s. acquiresleep_turn i s)"

definition releasesleep :: "sleepid \<Rightarrow> 'z sltab_scheme \<Rightarrow> ('z sltab_scheme, unit) outcome" where
  "releasesleep i s =
     bnd (acquire (SleepLk i) s) (\<lambda>_ s.
       bnd (wakeup (Some (ChSleepLock i)) (set_sleeplock i 0 0 s)) (\<lambda>_ s. release (SleepLk i) s))"

definition holdingsleep :: "sleepid \<Rightarrow> 'z sltab_scheme \<Rightarrow> ('z sltab_scheme, bool) outcome" where
  "holdingsleep i s =
     bnd (acquire (SleepLk i) s) (\<lambda>_ s.
       with_myproc (\<lambda>s p.
         let r = sl_locked (sleeplocks s i) \<noteq> 0 \<and> sl_pid (sleeplocks s i) = p_pid (the_proc s p) in
         bnd (release (SleepLk i) s) (\<lambda>_ s. Done r s)) s)"

subsection \<open>Calls that do not block\<close>

text \<open>
  \<open>calm s p\<close>: a process \<open>p\<close> runs on this CPU, which holds no spin lock; the file system code starts
  its calls in such states.
\<close>

definition calm :: "'z ptab_scheme \<Rightarrow> nat \<Rightarrow> bool" where
  "calm s p \<longleftrightarrow> held s = [] \<and> cur s = Some p \<and> p < NPROC \<and> length (procs s) = NPROC"

definition holds_sleep :: "sleepid \<Rightarrow> 'z sltab_scheme \<Rightarrow> bool" where
  "holds_sleep i s \<longleftrightarrow> (\<exists>p. cur s = Some p \<and> sl_locked (sleeplocks s i) \<noteq> 0 \<and>
     sl_pid (sleeplocks s i) = p_pid (the_proc s p))"

lemma calm_unlocked: "calm s p \<Longrightarrow> unlocked_table s"
  by (simp add: calm_def unlocked_table_def)

lemma acquiresleep_free:
  assumes "calm s p" and "sl_locked (sleeplocks s i) = 0"
  shows "acquiresleep i s = Done () (set_sleeplock i 1 (p_pid (the_proc s p)) s)"
  using assms by (simp add: calm_def acquiresleep_def acquiresleep_turn_def acquire_def release_def
      set_sleeplock_def)

lemma acquiresleep_taken:
  assumes "calm s p" and "sl_locked (sleeplocks s i) \<noteq> 0"
  shows "acquiresleep i s = Switch (asleep (Some (ChSleepLock i)) p s)"
proof -
  have "sleep (Some (ChSleepLock i)) (SleepLk i) (s\<lparr>held := [SleepLk i]\<rparr>) =
      Switch (asleep (Some (ChSleepLock i)) p (s\<lparr>held := [SleepLk i]\<rparr>))"
    by (rule sleep_eq) (use assms in \<open>auto simp: calm_def\<close>)
  moreover have "asleep (Some (ChSleepLock i)) p (s\<lparr>held := [SleepLk i]\<rparr>) = asleep (Some (ChSleepLock i)) p s"
    by (simp add: asleep_def upd_proc_def)
  ultimately show ?thesis
    using assms by (simp add: calm_def acquiresleep_def acquiresleep_turn_def acquire_def)
qed

lemma holdingsleep_eq:
  assumes "calm s p"
  shows "holdingsleep i s = Done (holds_sleep i s) s"
  using assms by (simp add: calm_def holdingsleep_def acquire_def release_def Let_def holds_sleep_def)

lemma releasesleep_eq:
  assumes "calm s p"
  shows "releasesleep i s = Done () (wake_all (Some (ChSleepLock i)) (set_sleeplock i 0 0 s))"
proof -
  let ?s = "set_sleeplock i 0 0 (s\<lparr>held := [SleepLk i]\<rparr>)"
  have "unlocked_table ?s" using assms by (simp add: calm_def unlocked_table_def set_sleeplock_def)
  then have "wakeup (Some (ChSleepLock i)) ?s = Done () (wake_all (Some (ChSleepLock i)) ?s)"
    by (rule wakeup_eq)
  then show ?thesis
    using assms by (simp add: calm_def releasesleep_def acquire_def release_def wake_all_def set_sleeplock_def)
qed

lemma calm_wake_all [simp]: "calm (wake_all c s) p = calm s p"
  by (simp add: calm_def)

lemma calm_set_sleeplock [simp]: "calm (set_sleeplock i v w s) p = calm s p"
  by (simp add: calm_def set_sleeplock_def)

text \<open>
  Exclusion and hand-over of a sleep lock. A process that calls \<open>acquiresleep\<close> on a free lock gets
  it at once and \<open>holdingsleep\<close> is then true for it. On a taken lock it does not return: it is
  asleep on the lock, holding only its own process lock. \<open>releasesleep\<close> by the holder frees the lock
  and makes that process runnable, and when it runs again it takes the lock and returns.
\<close>
lemma sleeplock_handover:
  assumes "calm s p" and "calm t q" and "p \<noteq> q"
    and "t = (asleep (Some (ChSleepLock i)) p s)\<lparr>held := [], cur := Some q\<rparr>"
  shows "(sl_locked (sleeplocks s i) = 0 \<longrightarrow>
      (\<exists>u. acquiresleep i s = Done () u \<and> holdingsleep i u = Done True u)) \<and>
    (sl_locked (sleeplocks s i) \<noteq> 0 \<longrightarrow>
      acquiresleep i s = Switch (asleep (Some (ChSleepLock i)) p s) \<and>
      (\<exists>u y z. releasesleep i t = Done () u \<and> p_state (the_proc u p) = RUNNABLE \<and>
        scheduler_scan p (u\<lparr>cur := None\<rparr>) = Done (Some p) y \<and>
        acquiresleep_resume i y = Done () z \<and> holds_sleep i z \<and> held z = []))"
proof (intro conjI impI)
  assume free: "sl_locked (sleeplocks s i) = 0"
  let ?u = "set_sleeplock i 1 (p_pid (the_proc s p)) s"
  have "holdingsleep i ?u = Done True ?u"
    using holdingsleep_eq [of ?u p i] assms(1) by (simp add: holds_sleep_def calm_def set_sleeplock_def)
  then show "\<exists>u. acquiresleep i s = Done () u \<and> holdingsleep i u = Done True u"
    using acquiresleep_free [OF assms(1) free] by blast
next
  assume "sl_locked (sleeplocks s i) \<noteq> 0"
  then show "acquiresleep i s = Switch (asleep (Some (ChSleepLock i)) p s)"
    by (rule acquiresleep_taken [OF assms(1)])
next
  have p: "p < NPROC" "length (procs s) = NPROC" "cur t = Some q" using assms(1,4) by (simp_all add: calm_def)
  let ?u = "wake_all (Some (ChSleepLock i)) (set_sleeplock i 0 0 t)"
  let ?y = "dispatched p (?u\<lparr>cur := None\<rparr>)"
  have u: "releasesleep i t = Done () ?u" by (rule releasesleep_eq [OF assms(2)])
  have pu: "the_proc ?u p = (the_proc s p)\<lparr>p_state := RUNNABLE, p_chan := Some (ChSleepLock i)\<rparr>"
    using p assms(3,4) by (simp add: set_sleeplock_def asleep_def woken_def)
  have "scheduler_scan p (?u\<lparr>cur := None\<rparr>) = Done (Some p) ?y"
  proof -
    have "unlocked_table (?u\<lparr>cur := None\<rparr>)"
      using assms(2) by (simp add: unlocked_table_def calm_def set_sleeplock_def)
    moreover have "find (\<lambda>j. p_state (the_proc (?u\<lparr>cur := None\<rparr>) j) = RUNNABLE) [p..<NPROC] = Some p"
      using p pu by (auto simp: find_upt_Some_iff)
    ultimately show ?thesis by (simp add: scheduler_scan_eq)
  qed
  moreover obtain z where "acquiresleep_resume i ?y = Done () z" "holds_sleep i z" "held z = []"
    using p assms(2,4) by (simp add: acquiresleep_resume_def sleep_resume_def dispatched_def with_myproc_def
      release_def acquire_def upd_proc_def acquiresleep_turn_def set_sleeplock_def holds_sleep_def
      calm_def asleep_def wake_all_def)
  ultimately show "\<exists>u y z. releasesleep i t = Done () u \<and> p_state (the_proc u p) = RUNNABLE \<and>
        scheduler_scan p (u\<lparr>cur := None\<rparr>) = Done (Some p) y \<and>
        acquiresleep_resume i y = Done () z \<and> holds_sleep i z \<and> held z = []"
    using u pu by (intro exI [of _ ?u] exI [of _ ?y] exI [of _ z]) simp
qed

text \<open>Process 1 wants the lock of buffer 0, which process 2 holds.\<close>

definition sl_sample :: sltab where
  "sl_sample = ptab.extend (proc_sample\<lparr>cur := Some 0\<rparr>)
     (sltab.fields (\<lambda>_. \<lparr>sl_locked = 1, sl_pid = 2\<rparr>))"

lemma sl_sample_simps [simp]:
  "held sl_sample = []" "cur sl_sample = Some 0" "procs sl_sample = procs proc_sample"
  "sleeplocks sl_sample = (\<lambda>_. \<lparr>sl_locked = 1, sl_pid = 2\<rparr>)"
  by (simp_all add: sl_sample_def ptab.defs sltab.defs proc_sample_def vm_sample_def)

lemma sleeplock_handover_witness:
  "acquiresleep (BufLk 0) sl_sample = Switch (asleep (Some (ChSleepLock (BufLk 0))) 0 sl_sample) \<and>
   (\<exists>u. releasesleep (BufLk 0) ((asleep (Some (ChSleepLock (BufLk 0))) 0 sl_sample)\<lparr>held := [], cur := Some 1\<rparr>) = Done () u)"
  using sleeplock_handover [of sl_sample 0
      "(asleep (Some (ChSleepLock (BufLk 0))) 0 sl_sample)\<lparr>held := [], cur := Some 1\<rparr>" 1 "BufLk 0"]
  by (auto simp: calm_def asleep_def proc_sample_procs(2))

end
