(* ===== verification/Bio.thy ===== *)
theory Bio
  imports Sleeplock
begin

section \<open>bio.c: the buffer cache\<close>

text \<open>
  The cache is an array of \<open>NBUF\<close> buffers on a circular doubly linked list, most recently used first.
  A buffer is its index; index \<open>NBUF\<close> is the list head. The links are arrays, so the pointer
  assignments of \<open>binit\<close> and \<open>brelse\<close> are written as in the code; \<open>lru s xs\<close> relates them to the list
  of buffers in order. \<open>disk\<close> holds the blocks of the device and \<open>disk_writes\<close> the writes that have
  completed, in order. \<open>virtio_disk_rw\<close> (theory \<open>Virtio\<close>) appears here as the transfer it completes:
  the process sleeps meanwhile with the buffer locked, which is why no spin lock may be held.
  Block numbers are below \<open>2 ^ 31\<close> here, as those of any \<open>xv6\<close> file system are: the driver computes the sector
  \<open>blockno * 2\<close> in 32 bits (theorem \<open>virtio_refines_disk_rw\<close> of theory \<open>Disk\<close> has this bound).
\<close>

record buf =
  b_valid :: bool
  b_disk :: bool
  b_dev :: u32
  b_blockno :: u32
  b_refcnt :: u32
  b_data :: block

abbreviation NBUF :: nat where "NBUF \<equiv> 30"
abbreviation BSIZE :: nat where "BSIZE \<equiv> 1024"

record bcache = sltab +
  bufs :: "buf list"
  bnext :: "nat \<Rightarrow> nat"
  bprev :: "nat \<Rightarrow> nat"
  disk :: "u32 \<Rightarrow> block"
  disk_writes :: "(u32 \<times> block) list"

definition upd_buf :: "nat \<Rightarrow> (buf \<Rightarrow> buf) \<Rightarrow> 'z bcache_scheme \<Rightarrow> 'z bcache_scheme" where
  "upd_buf b f s = s\<lparr>bufs := (bufs s)[b := f (bufs s ! b)]\<rparr>"

subsection \<open>The linked list\<close>

text \<open>\<open>b->next = head.next; b->prev = &head; head.next->prev = b; head.next = b\<close>\<close>

definition link_front :: "nat \<Rightarrow> 'z bcache_scheme \<Rightarrow> 'z bcache_scheme" where
  "link_front b s =
     (let s = s\<lparr>bnext := (bnext s)(b := bnext s NBUF)\<rparr>;
          s = s\<lparr>bprev := (bprev s)(b := NBUF)\<rparr>;
          s = s\<lparr>bprev := (bprev s)(bnext s NBUF := b)\<rparr>
      in s\<lparr>bnext := (bnext s)(NBUF := b)\<rparr>)"

text \<open>\<open>b->next->prev = b->prev; b->prev->next = b->next\<close>\<close>

definition unlink :: "nat \<Rightarrow> 'z bcache_scheme \<Rightarrow> 'z bcache_scheme" where
  "unlink b s =
     (let s = s\<lparr>bprev := (bprev s)(bnext s b := bprev s b)\<rparr>
      in s\<lparr>bnext := (bnext s)(bprev s b := bnext s b)\<rparr>)"

definition binit :: "'z bcache_scheme \<Rightarrow> 'z bcache_scheme" where
  "binit s =
     fold (\<lambda>b s. link_front b (initsleeplock (BufLk b) s)) [0..<NBUF]
       (s\<lparr>bprev := (bprev s)(NBUF := NBUF), bnext := (bnext s)(NBUF := NBUF)\<rparr>)"

text \<open>
  The two scans of \<open>bget\<close>, from \<open>b\<close> along the links until the head. The list has \<open>NBUF\<close> elements,
  so \<open>NBUF + 1\<close> turns are enough; on links that never come back to the head the code would not end.
\<close>

datatype scan = Found nat | NotFound | Endless

fun scan_list :: "nat \<Rightarrow> (nat \<Rightarrow> nat) \<Rightarrow> (nat \<Rightarrow> bool) \<Rightarrow> nat \<Rightarrow> scan" where
  "scan_list 0 link P b = Endless"
| "scan_list (Suc n) link P b =
     (if b = NBUF then NotFound else if P b then Found b else scan_list n link P (link b))"

definition bget :: "u32 \<Rightarrow> u32 \<Rightarrow> 'z bcache_scheme \<Rightarrow> ('z bcache_scheme, nat) outcome" where
  "bget dev blockno s =
     bnd (acquire BcacheLock s) (\<lambda>_ s.
       case scan_list (NBUF + 1) (bnext s) (\<lambda>b. b_dev (bufs s ! b) = dev \<and> b_blockno (bufs s ! b) = blockno)
              (bnext s NBUF) of
         Found b \<Rightarrow>
           bnd (release BcacheLock (upd_buf b (\<lambda>x. x\<lparr>b_refcnt := b_refcnt x + 1\<rparr>) s)) (\<lambda>_ s.
             bnd (acquiresleep (BufLk b) s) (\<lambda>_ s. Done b s))
       | Endless \<Rightarrow> Hang
       | NotFound \<Rightarrow>
           (case scan_list (NBUF + 1) (bprev s) (\<lambda>b. b_refcnt (bufs s ! b) = 0) (bprev s NBUF) of
              Found b \<Rightarrow>
                bnd (release BcacheLock (upd_buf b (\<lambda>x. x\<lparr>b_dev := dev, b_blockno := blockno,
                       b_valid := False, b_refcnt := 1\<rparr>) s)) (\<lambda>_ s.
                  bnd (acquiresleep (BufLk b) s) (\<lambda>_ s. Done b s))
            | Endless \<Rightarrow> Hang
            | NotFound \<Rightarrow> Panic ''bget: no buffers''))"

definition disk_rw :: "nat \<Rightarrow> bool \<Rightarrow> 'z bcache_scheme \<Rightarrow> ('z bcache_scheme, unit) outcome" where
  "disk_rw b wr s =
     (if held s \<noteq> [] then Panic ''sched locks''
      else
        let n = b_blockno (bufs s ! b); d = b_data (bufs s ! b) in
        Done () (if wr then s\<lparr>disk := (disk s)(n := d), disk_writes := disk_writes s @ [(n, d)]\<rparr>
                 else upd_buf b (\<lambda>x. x\<lparr>b_data := disk s n\<rparr>) s))"

definition bread :: "u32 \<Rightarrow> u32 \<Rightarrow> 'z bcache_scheme \<Rightarrow> ('z bcache_scheme, nat) outcome" where
  "bread dev blockno s =
     bnd (bget dev blockno s) (\<lambda>b s.
       if \<not> b_valid (bufs s ! b) then
         bnd (disk_rw b False s) (\<lambda>_ s. Done b (upd_buf b (\<lambda>x. x\<lparr>b_valid := True\<rparr>) s))
       else Done b s)"

definition bwrite :: "nat \<Rightarrow> 'z bcache_scheme \<Rightarrow> ('z bcache_scheme, unit) outcome" where
  "bwrite b s =
     bnd (holdingsleep (BufLk b) s) (\<lambda>h s. if \<not> h then Panic ''bwrite'' else disk_rw b True s)"

definition brelse :: "nat \<Rightarrow> 'z bcache_scheme \<Rightarrow> ('z bcache_scheme, unit) outcome" where
  "brelse b s =
     bnd (holdingsleep (BufLk b) s) (\<lambda>h s.
       if \<not> h then Panic ''brelse''
       else bnd (releasesleep (BufLk b) s) (\<lambda>_ s.
         bnd (acquire BcacheLock s) (\<lambda>_ s.
           let s = upd_buf b (\<lambda>x. x\<lparr>b_refcnt := b_refcnt x - 1\<rparr>) s;
               s = (if b_refcnt (bufs s ! b) = 0 then link_front b (unlink b s) else s)
           in release BcacheLock s)))"

definition bpin :: "nat \<Rightarrow> 'z bcache_scheme \<Rightarrow> ('z bcache_scheme, unit) outcome" where
  "bpin b s =
     bnd (acquire BcacheLock s) (\<lambda>_ s.
       release BcacheLock (upd_buf b (\<lambda>x. x\<lparr>b_refcnt := b_refcnt x + 1\<rparr>) s))"

definition bunpin :: "nat \<Rightarrow> 'z bcache_scheme \<Rightarrow> ('z bcache_scheme, unit) outcome" where
  "bunpin b s =
     bnd (acquire BcacheLock s) (\<lambda>_ s.
       release BcacheLock (upd_buf b (\<lambda>x. x\<lparr>b_refcnt := b_refcnt x - 1\<rparr>) s))"

subsection \<open>The list the links represent\<close>

text \<open>\<open>seg f a xs b\<close>: from \<open>a\<close> the links \<open>f\<close> lead through \<open>xs\<close> to \<open>b\<close>.\<close>

primrec seg :: "(nat \<Rightarrow> nat) \<Rightarrow> nat \<Rightarrow> nat list \<Rightarrow> nat \<Rightarrow> bool" where
  "seg f a [] b \<longleftrightarrow> f a = b"
| "seg f a (x # xs) b \<longleftrightarrow> f a = x \<and> seg f x xs b"

definition lru_links :: "(nat \<Rightarrow> nat) \<Rightarrow> (nat \<Rightarrow> nat) \<Rightarrow> nat list \<Rightarrow> bool" where
  "lru_links nx pv xs \<longleftrightarrow>
     seg nx NBUF xs NBUF \<and> seg pv NBUF (rev xs) NBUF \<and> distinct xs \<and> NBUF \<notin> set xs"

lemma seg_append: "seg f a (xs @ ys) b \<longleftrightarrow> (case ys of [] \<Rightarrow> seg f a xs b | y # zs \<Rightarrow> seg f a xs y \<and> seg f y zs b)"
  by (induction xs arbitrary: a) (auto split: list.split)

lemma seg_upd: "z \<notin> set (a # xs) \<Longrightarrow> seg (f(z := v)) a xs b = seg f a xs b"
  by (induction xs arbitrary: a) auto

lemma seg_last: "seg f a xs b \<Longrightarrow> f (last (a # xs)) = b"
  by (induction xs arbitrary: a) auto

lemma seg_upd_last:
  "seg f a xs b \<Longrightarrow> distinct (a # xs) \<Longrightarrow> seg (f(last (a # xs) := c)) a xs c"
proof (induction xs arbitrary: a)
  case (Cons x xs)
  have "seg (f(last (x # xs) := c)) x xs c"
    by (rule Cons.IH) (use Cons.prems in auto)
  moreover have "last (x # xs) \<noteq> a" using Cons.prems(2) last_in_set [of "x # xs"] by auto
  moreover have l: "last (a # x # xs) = last (x # xs)" by simp
  ultimately show ?case
    unfolding l seg.simps using Cons.prems(1) by (simp del: last.simps)
qed simp

lemma scan_list_seg:
  assumes "seg f a xs NBUF" and "length xs < n" and "NBUF \<notin> set xs"
  shows "scan_list n f P (f a) = (case find P xs of Some b \<Rightarrow> Found b | None \<Rightarrow> NotFound)"
  using assms
proof (induction xs arbitrary: a n)
  case Nil
  then show ?case by (cases n) auto
next
  case (Cons x xs)
  then show ?case by (cases n) auto
qed

lemma link_front_links:
  assumes "lru_links (bnext s) (bprev s) xs" and "b \<notin> set xs" and "b \<noteq> NBUF"
  shows "lru_links (bnext (link_front b s)) (bprev (link_front b s)) (b # xs)"
proof -
  have nx: "seg (bnext s) NBUF xs NBUF" and pv: "seg (bprev s) NBUF (rev xs) NBUF"
    and d: "distinct xs" "NBUF \<notin> set xs"
    using assms(1) by (auto simp: lru_links_def)
  let ?first = "bnext s NBUF"
  have first: "?first = (case xs of [] \<Rightarrow> NBUF | x # _ \<Rightarrow> x)" using nx by (cases xs) auto
  have n': "bnext (link_front b s) = (bnext s)(b := ?first, NBUF := b)"
    using assms(3) by (simp add: link_front_def Let_def)
  have p': "bprev (link_front b s) = (bprev s)(b := NBUF, ?first := b)"
    using assms(3) by (simp add: link_front_def Let_def)
  have "seg ((bnext s)(b := ?first, NBUF := b)) NBUF (b # xs) NBUF"
  proof (cases xs)
    case Nil
    then show ?thesis using assms(3) first by simp
  next
    case (Cons x ys)
    have "seg (bnext s) x ys NBUF" using nx Cons by simp
    then have "seg ((bnext s)(b := ?first, NBUF := b)) x ys NBUF"
      using assms(2) d Cons by (subst seg_upd; (subst seg_upd)?) auto
    then show ?thesis using Cons first assms(2,3) by auto
  qed
  moreover have "seg ((bprev s)(b := NBUF, ?first := b)) NBUF (rev xs @ [b]) NBUF"
  proof (cases xs)
    case Nil
    then show ?thesis using first assms(3) by simp
  next
    case (Cons x ys)
    have "seg ((bprev s)(b := NBUF)) NBUF (rev xs) NBUF"
      using pv assms(2,3) by (subst seg_upd) auto
    moreover have "last (NBUF # rev xs) = ?first" using Cons first by simp
    ultimately have "seg ((bprev s)(b := NBUF, ?first := b)) NBUF (rev xs) b"
      using seg_upd_last [of "(bprev s)(b := NBUF)" NBUF "rev xs" NBUF b] d by auto
    moreover have "?first \<noteq> b" using Cons first assms(2) by auto
    ultimately show ?thesis by (simp add: seg_append)
  qed
  ultimately show ?thesis using assms(2,3) d by (simp add: lru_links_def n' p')
qed

lemma unlink_links:
  assumes "lru_links (bnext s) (bprev s) (ys @ b # zs)"
  shows "lru_links (bnext (unlink b s)) (bprev (unlink b s)) (ys @ zs)"
proof -
  have nx: "seg (bnext s) NBUF ys b" "seg (bnext s) b zs NBUF"
    and pv: "seg (bprev s) NBUF (rev zs) b" "seg (bprev s) b (rev ys) NBUF"
    and d: "distinct (ys @ b # zs)" "NBUF \<notin> set (ys @ b # zs)"
    using assms by (auto simp: lru_links_def seg_append)
  let ?n = "bnext s b" and ?p = "bprev s b"
  have n: "?n = (case zs of [] \<Rightarrow> NBUF | z # _ \<Rightarrow> z)" using nx(2) by (cases zs) auto
  have p: "?p = last (NBUF # ys)" using pv(2) by (cases ys rule: rev_cases) auto
  have n_last: "last (NBUF # rev zs) = ?n" using n by (cases zs) auto
  have ne: "?n \<noteq> b" "?p \<noteq> b" using n p d last_in_set [of ys] by (auto split: list.splits)
  have n': "bnext (unlink b s) = (bnext s)(?p := ?n)" and p': "bprev (unlink b s) = (bprev s)(?n := ?p)"
    using ne by (simp_all add: unlink_def Let_def)
  have "seg ((bnext s)(?p := ?n)) NBUF ys ?n"
    using seg_upd_last [OF nx(1), of ?n] d p by auto
  moreover have "seg ((bnext s)(?p := ?n)) z zs' NBUF" if "zs = z # zs'" for z zs'
  proof (subst seg_upd)
    have "?p \<in> set (NBUF # ys)" unfolding p by (rule last_in_set) simp
    then show "?p \<notin> set (z # zs')" using d that by auto
    show "seg (bnext s) z zs' NBUF" using nx(2) that by simp
  qed
  ultimately have "seg ((bnext s)(?p := ?n)) NBUF (ys @ zs) NBUF"
    using n by (auto simp: seg_append split: list.split)
  moreover have "seg ((bprev s)(?n := ?p)) NBUF (rev zs @ rev ys) NBUF"
  proof -
    have "seg ((bprev s)(?n := ?p)) NBUF (rev zs) ?p"
      using seg_upd_last [OF pv(1), of ?p] d n_last by auto
    moreover have "seg ((bprev s)(?n := ?p)) y ys' NBUF" if "rev ys = y # ys'" for y ys'
    proof (subst seg_upd)
      have "set (y # ys') = set ys" using that by (metis set_rev)
      then show "?n \<notin> set (y # ys')" using n d by (auto split: list.splits)
      show "seg (bprev s) y ys' NBUF" using pv(2) that by simp
    qed
    moreover have "rev ys = y # ys' \<Longrightarrow> y = ?p" for y ys' using pv(2) by simp
    moreover have "rev ys = [] \<Longrightarrow> ?p = NBUF" using p by simp
    ultimately show ?thesis by (auto simp: seg_append split: list.split)
  qed
  ultimately show ?thesis using d by (simp add: lru_links_def n' p')
qed

subsection \<open>The invariant of the cache\<close>

text \<open>
  The kernel has one disk, \<open>ROOTDEV\<close>. A buffer caches a block when its device is \<open>ROOTDEV\<close>; no two
  buffers cache the same block, a buffer nobody refers to is unlocked and, if valid, equal to the disk.
  \<open>blk s n\<close> is the current content of block \<open>n\<close>, in the cache or on disk, and \<open>refs s n\<close> the number
  of references to its buffer.
\<close>

abbreviation ROOTDEV :: u32 where "ROOTDEV \<equiv> 1"

definition caches :: "'z bcache_scheme \<Rightarrow> nat \<Rightarrow> u32 \<Rightarrow> bool" where
  "caches s i n \<longleftrightarrow> i < NBUF \<and> b_dev (bufs s ! i) = ROOTDEV \<and> b_blockno (bufs s ! i) = n"

definition bio_inv :: "'z bcache_scheme \<Rightarrow> bool" where
  "bio_inv s \<longleftrightarrow>
     (\<exists>xs. lru_links (bnext s) (bprev s) xs \<and> set xs = {..<NBUF}) \<and> length (bufs s) = NBUF \<and>
     (\<forall>i j n. caches s i n \<longrightarrow> caches s j n \<longrightarrow> i = j) \<and>
     (\<forall>i < NBUF. b_refcnt (bufs s ! i) = 0 \<longrightarrow> sl_locked (sleeplocks s (BufLk i)) = 0) \<and>
     (\<forall>i < NBUF. b_valid (bufs s ! i) \<or> b_refcnt (bufs s ! i) \<noteq> 0 \<longrightarrow> b_dev (bufs s ! i) = ROOTDEV) \<and>
     (\<forall>i < NBUF. b_dev (bufs s ! i) = ROOTDEV \<longrightarrow> b_valid (bufs s ! i)) \<and>
     (\<forall>i < NBUF. b_valid (bufs s ! i) \<and> b_refcnt (bufs s ! i) = 0 \<longrightarrow>
        b_data (bufs s ! i) = disk s (b_blockno (bufs s ! i)))"

lemma bio_invI:
  assumes "\<exists>xs. lru_links (bnext s) (bprev s) xs \<and> set xs = {..<NBUF}" and "length (bufs s) = NBUF"
    and "\<forall>i j n. caches s i n \<longrightarrow> caches s j n \<longrightarrow> i = j"
    and "\<And>i. i < NBUF \<Longrightarrow> b_refcnt (bufs s ! i) = 0 \<Longrightarrow> sl_locked (sleeplocks s (BufLk i)) = 0"
    and "\<And>i. i < NBUF \<Longrightarrow> b_valid (bufs s ! i) \<Longrightarrow> b_dev (bufs s ! i) = ROOTDEV"
    and "\<And>i. i < NBUF \<Longrightarrow> b_refcnt (bufs s ! i) \<noteq> 0 \<Longrightarrow> b_dev (bufs s ! i) = ROOTDEV"
    and "\<And>i. i < NBUF \<Longrightarrow> b_dev (bufs s ! i) = ROOTDEV \<Longrightarrow> b_valid (bufs s ! i)"
    and "\<And>i. i < NBUF \<Longrightarrow> b_valid (bufs s ! i) \<Longrightarrow> b_refcnt (bufs s ! i) = 0 \<Longrightarrow>
      b_data (bufs s ! i) = disk s (b_blockno (bufs s ! i))"
  shows "bio_inv s"
  using assms unfolding bio_inv_def by blast

lemma bio_invD:
  assumes "bio_inv s"
  shows "\<exists>xs. lru_links (bnext s) (bprev s) xs \<and> set xs = {..<NBUF}" and "length (bufs s) = NBUF"
    and "caches s i n \<Longrightarrow> caches s j n \<Longrightarrow> i = j"
    and "i < NBUF \<Longrightarrow> b_refcnt (bufs s ! i) = 0 \<Longrightarrow> sl_locked (sleeplocks s (BufLk i)) = 0"
    and "i < NBUF \<Longrightarrow> b_valid (bufs s ! i) \<Longrightarrow> b_dev (bufs s ! i) = ROOTDEV"
    and "i < NBUF \<Longrightarrow> b_refcnt (bufs s ! i) \<noteq> 0 \<Longrightarrow> b_dev (bufs s ! i) = ROOTDEV"
    and "i < NBUF \<Longrightarrow> b_dev (bufs s ! i) = ROOTDEV \<Longrightarrow> b_valid (bufs s ! i)"
    and "i < NBUF \<Longrightarrow> b_valid (bufs s ! i) \<Longrightarrow> b_refcnt (bufs s ! i) = 0 \<Longrightarrow>
      b_data (bufs s ! i) = disk s (b_blockno (bufs s ! i))"
  using assms unfolding bio_inv_def by blast+

definition holder :: "'z bcache_scheme \<Rightarrow> u32 \<Rightarrow> nat option" where
  "holder s n = find (\<lambda>i. b_dev (bufs s ! i) = ROOTDEV \<and> b_blockno (bufs s ! i) = n) [0..<NBUF]"

definition blk :: "'z bcache_scheme \<Rightarrow> u32 \<Rightarrow> block" where
  "blk s n = (case holder s n of
     Some i \<Rightarrow> if b_valid (bufs s ! i) then b_data (bufs s ! i) else disk s n | None \<Rightarrow> disk s n)"

definition refs :: "'z bcache_scheme \<Rightarrow> u32 \<Rightarrow> nat" where
  "refs s n = (case holder s n of Some i \<Rightarrow> unat (b_refcnt (bufs s ! i)) | None \<Rightarrow> 0)"

text \<open>
  \<open>cache s p H\<close>: process \<open>p\<close> runs alone in the file system code, \<open>H\<close> are the buffers it has locked
  with \<open>bread\<close>, with their block numbers, and no other buffer is locked.
\<close>

definition cache :: "'z bcache_scheme \<Rightarrow> nat \<Rightarrow> (nat \<rightharpoonup> u32) \<Rightarrow> bool" where
  "cache s p H \<longleftrightarrow> bio_inv s \<and> calm s p \<and>
     (\<forall>b n. H b = Some n \<longrightarrow> caches s b n \<and> b_valid (bufs s ! b) \<and> b_refcnt (bufs s ! b) \<noteq> 0 \<and>
        holds_sleep (BufLk b) s) \<and>
     (\<forall>b < NBUF. H b = None \<longrightarrow> sl_locked (sleeplocks s (BufLk b)) = 0)"

lemma holder_Some_iff:
  assumes "bio_inv s"
  shows "holder s n = Some i \<longleftrightarrow> caches s i n"
proof
  assume "holder s n = Some i"
  then show "caches s i n" by (auto simp: holder_def find_upt_Some_iff caches_def)
next
  assume c: "caches s i n"
  have "\<not> (b_dev (bufs s ! j) = ROOTDEV \<and> b_blockno (bufs s ! j) = n)" if "j < i" for j
  proof
    assume "b_dev (bufs s ! j) = ROOTDEV \<and> b_blockno (bufs s ! j) = n"
    then have "caches s j n" using that c by (simp add: caches_def)
    with c assms that show False unfolding bio_inv_def by (metis less_irrefl)
  qed
  with c show "holder s n = Some i" by (auto simp: holder_def find_upt_Some_iff caches_def)
qed

lemma holder_None_iff: "holder s n = None \<longleftrightarrow> (\<forall>i. \<not> caches s i n)"
  by (auto simp: holder_def find_None_iff caches_def)

lemma holder_cong:
  assumes "bio_inv s" and "bio_inv t" and "\<And>i. caches t i m = caches s i m"
  shows "holder t m = holder s m"
proof (cases "holder s m")
  case None
  moreover from None have "holder t m = None" using assms(3) by (simp add: holder_None_iff)
  ultimately show ?thesis by simp
next
  case (Some i)
  then have "caches t i m" using assms(3) holder_Some_iff [OF assms(1)] by simp
  then show ?thesis using Some holder_Some_iff [OF assms(2)] by simp
qed

lemma blk_cached: "bio_inv s \<Longrightarrow> caches s i n \<Longrightarrow> b_valid (bufs s ! i) \<Longrightarrow> blk s n = b_data (bufs s ! i)"
  using holder_Some_iff [of s n i] by (simp add: blk_def)

lemma refs_cached: "bio_inv s \<Longrightarrow> caches s i n \<Longrightarrow> refs s n = unat (b_refcnt (bufs s ! i))"
  using holder_Some_iff [of s n i] by (simp add: refs_def)

lemma bufs_upd_buf [simp]: "bufs (upd_buf b f s) = (bufs s)[b := f (bufs s ! b)]"
  by (simp add: upd_buf_def)

lemma upd_buf_frame [simp]:
  "held (upd_buf b f s) = held s" "cur (upd_buf b f s) = cur s" "procs (upd_buf b f s) = procs s"
  "sleeplocks (upd_buf b f s) = sleeplocks s" "bnext (upd_buf b f s) = bnext s"
  "bprev (upd_buf b f s) = bprev s" "disk (upd_buf b f s) = disk s"
  "disk_writes (upd_buf b f s) = disk_writes s" "bcache.more (upd_buf b f s) = bcache.more s"
  "calm (upd_buf b f s) p = calm s p" "holds_sleep l (upd_buf b f s) = holds_sleep l s"
  by (simp_all add: upd_buf_def calm_def holds_sleep_def)

text \<open>Changes that keep what a buffer caches keep \<open>holder\<close>.\<close>

lemma caches_upd_buf:
  "b_dev (f (bufs s ! b)) = b_dev (bufs s ! b) \<Longrightarrow> b_blockno (f (bufs s ! b)) = b_blockno (bufs s ! b) \<Longrightarrow>
    length (bufs s) = NBUF \<Longrightarrow> caches (upd_buf b f s) i n = caches s i n"
  by (cases "b < NBUF") (auto simp: caches_def nth_list_update list_update_beyond)

subsection \<open>bget\<close>

lemma held_update_same: "held s = h \<Longrightarrow> s\<lparr>held := h\<rparr> = s"
  by auto

lemma scans:
  assumes "bio_inv s"
  shows "\<exists>xs. set xs = {..<NBUF} \<and>
    scan_list (NBUF + 1) (bnext s) P (bnext s NBUF) = (case find P xs of Some b \<Rightarrow> Found b | None \<Rightarrow> NotFound)"
    and "\<exists>xs. set xs = {..<NBUF} \<and>
    scan_list (NBUF + 1) (bprev s) P (bprev s NBUF) = (case find P xs of Some b \<Rightarrow> Found b | None \<Rightarrow> NotFound)"
proof -
  obtain xs where xs: "lru_links (bnext s) (bprev s) xs" "set xs = {..<NBUF}"
    using assms by (auto simp: bio_inv_def)
  then have len: "length xs = NBUF" using distinct_card [of xs] by (simp add: lru_links_def)
  show "\<exists>xs. set xs = {..<NBUF} \<and>
    scan_list (NBUF + 1) (bnext s) P (bnext s NBUF) = (case find P xs of Some b \<Rightarrow> Found b | None \<Rightarrow> NotFound)"
    by (intro exI [of _ xs] conjI xs(2), rule scan_list_seg) (use xs len in \<open>auto simp: lru_links_def\<close>)
  show "\<exists>xs. set xs = {..<NBUF} \<and>
    scan_list (NBUF + 1) (bprev s) P (bprev s NBUF) = (case find P xs of Some b \<Rightarrow> Found b | None \<Rightarrow> NotFound)"
    by (intro exI [of _ "rev xs"] conjI, simp add: xs(2), rule scan_list_seg)
      (use xs len in \<open>auto simp: lru_links_def\<close>)
qed

lemma scan_found:
  "find P xs = Some b \<Longrightarrow> set xs = {..<NBUF} \<Longrightarrow> b < NBUF \<and> P b"
  by (auto simp: find_Some_iff dest: nth_mem)

definition locked_buf :: "nat \<Rightarrow> nat \<Rightarrow> (buf \<Rightarrow> buf) \<Rightarrow> 'z bcache_scheme \<Rightarrow> 'z bcache_scheme" where
  "locked_buf p b f s = set_sleeplock (BufLk b) 1 (p_pid (the_proc s p)) (upd_buf b f s)"

lemma bget_tail:
  assumes "calm s p" and "sl_locked (sleeplocks s (BufLk b)) = 0"
  shows "bnd (release BcacheLock (upd_buf b f (s\<lparr>held := [BcacheLock]\<rparr>))) (\<lambda>_ s.
      bnd (acquiresleep (BufLk b) s) (\<lambda>_ s. Done b s)) = Done b (locked_buf p b f s)"
proof -
  have "release BcacheLock (upd_buf b f (s\<lparr>held := [BcacheLock]\<rparr>)) = Done () (upd_buf b f s)"
    using assms(1) by (simp add: release_def upd_buf_def calm_def)
  moreover have "acquiresleep (BufLk b) (upd_buf b f s) = Done () (locked_buf p b f s)"
    using acquiresleep_free [of "upd_buf b f s" p "BufLk b"] assms by (simp add: locked_buf_def)
  ultimately show ?thesis by simp
qed

lemma bget_hit:
  assumes "bio_inv s" and "calm s p" and "caches s b n" and "sl_locked (sleeplocks s (BufLk b)) = 0"
  shows "bget ROOTDEV n s = Done b (locked_buf p b (\<lambda>x. x\<lparr>b_refcnt := b_refcnt x + 1\<rparr>) s)"
proof -
  let ?P = "\<lambda>i. b_dev (bufs s ! i) = ROOTDEV \<and> b_blockno (bufs s ! i) = n"
  obtain xs where xs: "set xs = {..<NBUF}"
    "scan_list (NBUF + 1) (bnext s) ?P (bnext s NBUF) = (case find ?P xs of Some b \<Rightarrow> Found b | None \<Rightarrow> NotFound)"
    using scans(1) [OF assms(1), of ?P] by blast
  have "find ?P xs = Some b"
  proof (cases "find ?P xs")
    case None
    then show ?thesis using assms(3) xs(1) by (auto simp: find_None_iff caches_def)
  next
    case (Some c)
    from scan_found [OF Some xs(1)] have "caches s c n" by (simp add: caches_def)
    then have "c = b" using assms(1,3) unfolding bio_inv_def by blast
    with Some show ?thesis by simp
  qed
  with xs(2) have "scan_list (NBUF + 1) (bnext s) ?P (bnext s NBUF) = Found b" by simp
  then show ?thesis
    using bget_tail [OF assms(2,4), of "\<lambda>x. x\<lparr>b_refcnt := b_refcnt x + 1\<rparr>"] assms(2)
    by (simp add: bget_def acquire_def calm_def)
qed

lemma bget_miss:
  assumes "bio_inv s" and "calm s p" and "\<forall>i. \<not> caches s i n"
  shows "(\<exists>b < NBUF. b_refcnt (bufs s ! b) = 0 \<and> bget ROOTDEV n s = Done b (locked_buf p b
      (\<lambda>x. x\<lparr>b_dev := ROOTDEV, b_blockno := n, b_valid := False, b_refcnt := 1\<rparr>) s))
    \<or> ((\<forall>b < NBUF. b_refcnt (bufs s ! b) \<noteq> 0) \<and> bget ROOTDEV n s = Panic ''bget: no buffers'')"
proof -
  let ?P = "\<lambda>i. b_dev (bufs s ! i) = ROOTDEV \<and> b_blockno (bufs s ! i) = n"
  let ?Q = "\<lambda>i. b_refcnt (bufs s ! i) = 0"
  obtain xs where xs: "set xs = {..<NBUF}"
    "scan_list (NBUF + 1) (bnext s) ?P (bnext s NBUF) = (case find ?P xs of Some b \<Rightarrow> Found b | None \<Rightarrow> NotFound)"
    using scans(1) [OF assms(1), of ?P] by blast
  obtain ys where ys: "set ys = {..<NBUF}"
    "scan_list (NBUF + 1) (bprev s) ?Q (bprev s NBUF) = (case find ?Q ys of Some b \<Rightarrow> Found b | None \<Rightarrow> NotFound)"
    using scans(2) [OF assms(1), of ?Q] by blast
  have "find ?P xs = None" using assms(3) xs(1) by (auto simp: find_None_iff caches_def)
  then have miss: "scan_list (NBUF + 1) (bnext s) ?P (bnext s NBUF) = NotFound" using xs(2) by simp
  show ?thesis
  proof (cases "find ?Q ys")
    case None
    then have "scan_list (NBUF + 1) (bprev s) ?Q (bprev s NBUF) = NotFound" using ys(2) by simp
    then have "bget ROOTDEV n s = Panic ''bget: no buffers''"
      using miss assms(2) by (simp add: bget_def acquire_def calm_def)
    then show ?thesis using None ys(1) by (auto simp: find_None_iff)
  next
    case (Some b)
    note b = scan_found [OF Some ys(1)]
    have "scan_list (NBUF + 1) (bprev s) ?Q (bprev s NBUF) = Found b" using ys(2) Some by simp
    moreover have "sl_locked (sleeplocks s (BufLk b)) = 0" using assms(1) b by (simp add: bio_inv_def)
    ultimately have "bget ROOTDEV n s = Done b (locked_buf p b
      (\<lambda>x. x\<lparr>b_dev := ROOTDEV, b_blockno := n, b_valid := False, b_refcnt := 1\<rparr>) s)"
      using miss assms(2) bget_tail [OF assms(2), of b]
      by (simp add: bget_def acquire_def calm_def)
    with b show ?thesis by blast
  qed
qed

subsection \<open>bread\<close>

text \<open>
  The part of the state the buffer cache may change. Of other processes it changes only whether they sleep, and
  the locks of the inodes stay as they are.
\<close>

definition same_owners :: "'z sltab_scheme \<Rightarrow> 'z sltab_scheme \<Rightarrow> bool" where
  "same_owners s t \<longleftrightarrow> (\<forall>i. sleeplocks t (InodeLk i) = sleeplocks s (InodeLk i)) \<and> length (procs t) = length (procs s) \<and>
     (\<forall>q < length (procs s). \<exists>st. the_proc t q = (the_proc s q)\<lparr>p_state := st\<rparr>)"

lemma same_proc_state [simp]: "\<exists>st. p = p\<lparr>p_state := st\<rparr>"
  by (rule exI [of _ "p_state p"]) simp

lemma same_owners_procs: "procs t = procs s \<Longrightarrow> same_owners s t \<longleftrightarrow> (\<forall>i. sleeplocks t (InodeLk i) = sleeplocks s (InodeLk i))"
  by (auto simp: same_owners_def)

lemma same_owners_refl [simp]: "same_owners s s"
  by (simp add: same_owners_procs)

lemma same_owners_trans: "same_owners s t \<Longrightarrow> same_owners t u \<Longrightarrow> same_owners s u"
  unfolding same_owners_def by (metis (no_types, lifting) proc.update_convs(1) proc.surjective)

lemma same_owners_woken: "same_owners s (wake_all c s)"
  by (auto simp: same_owners_def wake_all_def woken_def)

definition only_bio :: "'z bcache_scheme \<Rightarrow> 'z bcache_scheme \<Rightarrow> bool" where
  "only_bio s t \<longleftrightarrow> t = s\<lparr>procs := procs t, sleeplocks := sleeplocks t, bufs := bufs t,
     bnext := bnext t, bprev := bprev t, disk := disk t, disk_writes := disk_writes t\<rparr> \<and> same_owners s t"

lemma only_bio_refl [simp]: "only_bio s s"
  by (simp add: only_bio_def)

lemma only_bio_trans:
  assumes "only_bio s t" and "only_bio t w"
  shows "only_bio s w"
proof -
  have o: "same_owners s w" using assms same_owners_trans unfolding only_bio_def by blast
  have t: "t = s\<lparr>procs := procs t, sleeplocks := sleeplocks t, bufs := bufs t,
     bnext := bnext t, bprev := bprev t, disk := disk t, disk_writes := disk_writes t\<rparr>"
    using assms(1) by (simp add: only_bio_def)
  let ?f = "\<lambda>t. t\<lparr>procs := procs w, sleeplocks := sleeplocks w, bufs := bufs w,
     bnext := bnext w, bprev := bprev w, disk := disk w, disk_writes := disk_writes w\<rparr>"
  have "?f t = ?f s" using arg_cong [OF t, of ?f] by simp
  with assms(2) have "w = ?f s" unfolding only_bio_def by (metis (no_types, lifting))
  then show ?thesis using o by (simp add: only_bio_def)
qed

lemma only_bio_more: "only_bio s t \<Longrightarrow> bcache.more t = bcache.more s"
  by (drule arg_cong [OF conjunct1 [OF only_bio_def [THEN iffD1]], of _ _ bcache.more]) simp

lemma only_bio_owners: "only_bio s t \<Longrightarrow> same_owners s t"
  by (simp add: only_bio_def)

lemma only_bio_frame:
  assumes "only_bio s t"
  shows "mem t = mem s" "cur t = cur s" "held t = held s"
proof -
  have t: "t = s\<lparr>procs := procs t, sleeplocks := sleeplocks t, bufs := bufs t,
     bnext := bnext t, bprev := bprev t, disk := disk t, disk_writes := disk_writes t\<rparr>"
    using assms by (simp add: only_bio_def)
  show "mem t = mem s" "cur t = cur s" "held t = held s"
    using arg_cong [OF t, of mem] arg_cong [OF t, of cur] arg_cong [OF t, of held] by simp_all
qed

lemma only_bio_upd [simp]:
  "only_bio s (upd_buf b f s)" "only_bio s (set_sleeplock (BufLk b) v q s)"
  "only_bio s (s\<lparr>disk := d, disk_writes := w\<rparr>)" "only_bio s (locked_buf p b f s)"
  by (simp_all add: only_bio_def upd_buf_def set_sleeplock_def locked_buf_def same_owners_procs)

lemma locked_buf_simps [simp]:
  "bufs (locked_buf p b f s) = (bufs s)[b := f (bufs s ! b)]" "disk (locked_buf p b f s) = disk s"
  "disk_writes (locked_buf p b f s) = disk_writes s" "held (locked_buf p b f s) = held s"
  "cur (locked_buf p b f s) = cur s" "procs (locked_buf p b f s) = procs s"
  "bnext (locked_buf p b f s) = bnext s" "bprev (locked_buf p b f s) = bprev s"
  "sleeplocks (locked_buf p b f s) =
     (sleeplocks s)(BufLk b := \<lparr>sl_locked = 1, sl_pid = p_pid (the_proc s p)\<rparr>)"
  "calm (locked_buf p b f s) q = calm s q"
  by (simp_all add: locked_buf_def set_sleeplock_def upd_buf_def calm_def)

lemma upd_locked_buf:
  "b < length (bufs s) \<Longrightarrow> upd_buf b g (locked_buf p b f s) = locked_buf p b (g \<circ> f) s"
  by (rule bcache.equality) (simp_all add: locked_buf_def upd_buf_def set_sleeplock_def)

definition bread_ok ::
  "nat \<Rightarrow> (nat \<rightharpoonup> u32) \<Rightarrow> u32 \<Rightarrow> 'z bcache_scheme \<Rightarrow> nat \<Rightarrow> 'z bcache_scheme \<Rightarrow> bool" where
  "bread_ok p H n s b t \<longleftrightarrow>
     H b = None \<and> cache t p (H(b \<mapsto> n)) \<and> blk t = blk s \<and> refs t = (refs s)(n := refs s n + 1) \<and>
     disk t = disk s \<and> disk_writes t = disk_writes s \<and> only_bio s t"

lemma bread_locked:
  assumes c: "cache s p H" and b: "b < NBUF" "H b = None"
    and inv: "bio_inv t" and t: "t = locked_buf p b f s" and f: "b_valid (f (bufs s ! b))"
      "b_dev (f (bufs s ! b)) = ROOTDEV" "b_blockno (f (bufs s ! b)) = n" "b_refcnt (f (bufs s ! b)) \<noteq> 0"
  shows "cache t p (H(b \<mapsto> n))"
proof -
  have len: "length (bufs s) = NBUF" using c by (simp add: cache_def bio_inv_def)
  have "holds_sleep (BufLk b') t" if "H b' = Some m" for b' m
    using c that b(2) unfolding cache_def by (cases "b' = b") (auto simp: holds_sleep_def t)
  moreover have "holds_sleep (BufLk b) t" using c by (simp add: cache_def calm_def holds_sleep_def t)
  ultimately show ?thesis
    using c b inv f len by (auto simp: cache_def t caches_def nth_list_update)
qed

lemma refcnt_Suc: "unat (r :: u32) < 2 ^ 32 - 1 \<Longrightarrow> unat (r + 1) = unat r + 1 \<and> r + 1 \<noteq> 0"
proof -
  assume "unat r < 2 ^ 32 - 1"
  then have "unat (r + 1) = unat r + 1" by (simp add: unat_word_ariths)
  then show ?thesis by auto
qed

lemma bread_cached:
  assumes c: "cache s p H" and b: "caches s b n" "H b = None" "b_valid (bufs s ! b)"
    and r: "refs s n < 2 ^ 32 - 1"
  shows "bread_ok p H n s b (locked_buf p b (\<lambda>x. x\<lparr>b_refcnt := b_refcnt x + 1\<rparr>) s)"
proof -
  let ?t = "locked_buf p b (\<lambda>x. x\<lparr>b_refcnt := b_refcnt x + 1\<rparr>) s"
  have inv: "bio_inv s" using c by (simp add: cache_def)
  have bl: "b < NBUF" using b(1) by (simp add: caches_def)
  note len = bio_invD(2) [OF inv]
  have rc: "unat (b_refcnt (bufs s ! b) + 1) = unat (b_refcnt (bufs s ! b)) + 1" "b_refcnt (bufs s ! b) + 1 \<noteq> 0"
    using r refcnt_Suc unfolding refs_cached [OF inv b(1)] by blast+
  have cs: "caches ?t i m = caches s i m" for i m using bl len by (auto simp: caches_def nth_list_update)
  have dev: "b_dev (bufs s ! b) = ROOTDEV" using b(1) by (simp add: caches_def)
  have inv': "bio_inv ?t"
  proof (rule bio_invI)
    show "\<exists>xs. lru_links (bnext ?t) (bprev ?t) xs \<and> set xs = {..<NBUF}"
      using bio_invD(1) [OF inv] by simp
    show "\<forall>i j m. caches ?t i m \<longrightarrow> caches ?t j m \<longrightarrow> i = j"
      unfolding cs using bio_invD(3) [OF inv] by blast
    show "length (bufs ?t) = NBUF" using len by simp
  next
    fix i assume i: "i < NBUF"
    show "sl_locked (sleeplocks ?t (BufLk i)) = 0" if "b_refcnt (bufs ?t ! i) = 0"
      using that rc(2) bio_invD(4) [OF inv i] len bl by (cases "i = b") simp_all
    show "b_dev (bufs ?t ! i) = ROOTDEV" if "b_valid (bufs ?t ! i)"
      using that dev bio_invD(5) [OF inv i] len bl by (cases "i = b") simp_all
    show "b_dev (bufs ?t ! i) = ROOTDEV" if "b_refcnt (bufs ?t ! i) \<noteq> 0"
      using that dev bio_invD(6) [OF inv i] len bl by (cases "i = b") simp_all
    show "b_valid (bufs ?t ! i)" if "b_dev (bufs ?t ! i) = ROOTDEV"
      using that b(3) bio_invD(7) [OF inv i] len bl by (cases "i = b") simp_all
    show "b_data (bufs ?t ! i) = disk ?t (b_blockno (bufs ?t ! i))"
      if "b_valid (bufs ?t ! i)" "b_refcnt (bufs ?t ! i) = 0"
      using that rc(2) bio_invD(8) [OF inv i] len bl by (cases "i = b") simp_all
  qed
  have h: "holder ?t m = holder s m" for m
    by (rule holder_cong [OF inv inv']) (rule cs)
  have "blk ?t m = blk s m" for m
  proof (cases "holder s m")
    case (Some i)
    then show ?thesis unfolding blk_def h using len bl by (cases "i = b") simp_all
  qed (simp add: blk_def h)
  moreover have "refs ?t m = ((refs s)(n := refs s n + 1)) m" for m
  proof (cases "holder s m")
    case None
    then have "m \<noteq> n" using b(1) by (auto simp: holder_None_iff)
    with None show ?thesis by (simp add: refs_def h)
  next
    case (Some i)
    then have i: "caches s i m" using holder_Some_iff [OF inv] by simp
    have "m = n" if "i = b" using i b(1) that by (simp add: caches_def)
    moreover have "i = b" if "m = n" using bio_invD(3) [OF inv, of i n b] i b(1) that by simp
    moreover have "holder s n = Some b" using b(1) holder_Some_iff [OF inv] by simp
    ultimately show ?thesis using Some rc(1) len bl
      by (cases "i = b") (auto simp: refs_def h)
  qed
  moreover have "cache ?t p (H(b \<mapsto> n))"
    by (rule bread_locked [OF c bl b(2) inv' refl]) (use b rc in \<open>auto simp: caches_def\<close>)
  ultimately show ?thesis using b(2) by (auto simp: bread_ok_def)
qed

lemma bread_uncached:
  assumes c: "cache s p H" and b: "b < NBUF" "b_refcnt (bufs s ! b) = 0" and n: "\<forall>i. \<not> caches s i n"
  shows "bread_ok p H n s b (locked_buf p b (\<lambda>x. x\<lparr>b_dev := ROOTDEV, b_blockno := n, b_refcnt := 1,
    b_data := disk s n, b_valid := True\<rparr>) s)"
proof -
  let ?t = "locked_buf p b (\<lambda>x. x\<lparr>b_dev := ROOTDEV, b_blockno := n, b_refcnt := 1,
    b_data := disk s n, b_valid := True\<rparr>) s"
  have inv: "bio_inv s" and len: "length (bufs s) = NBUF"
    using c by (simp_all add: cache_def bio_inv_def)
  have Hb: "H b = None" using c b by (cases "H b") (auto simp: cache_def)
  have cs: "caches ?t i m \<longleftrightarrow> (if i = b then m = n else caches s i m)" for i m
    using b(1) len by (auto simp: caches_def nth_list_update)
  have inv': "bio_inv ?t"
  proof -
    have "\<forall>i j m. caches ?t i m \<longrightarrow> caches ?t j m \<longrightarrow> i = j"
      using inv n unfolding cs bio_inv_def by auto
    then show ?thesis
      using inv b(1) len unfolding bio_inv_def by (auto simp: nth_list_update)
  qed
  have "blk ?t m = blk s m \<and> refs ?t m = ((refs s)(n := refs s n + 1)) m" for m
  proof (cases "m = n")
    case True
    have "caches ?t b n" using cs by simp
    then have "blk ?t n = disk s n" "refs ?t n = 1"
      using b(1) len by (simp_all add: blk_cached [OF inv'] refs_cached [OF inv'])
    moreover have "holder s n = None" using n by (simp add: holder_None_iff)
    ultimately show ?thesis using True by (simp add: blk_def refs_def)
  next
    case m: False
    show ?thesis
    proof (cases "\<exists>i. i \<noteq> b \<and> caches s i m")
      case True
      then obtain i where i: "i \<noteq> b" "caches s i m" by blast
      then have "caches ?t i m" using cs by simp
      then have "holder ?t m = Some i" "holder s m = Some i"
        using i holder_Some_iff [OF inv] holder_Some_iff [OF inv'] by simp_all
      then show ?thesis using i(1) m by (simp add: blk_def refs_def)
    next
      case False
      then have none: "holder ?t m = None" using m cs by (auto simp: holder_None_iff)
      show ?thesis
      proof (cases "caches s b m")
        case True
        then have "holder s m = Some b" using holder_Some_iff [OF inv] by simp
        moreover have "b_valid (bufs s ! b) \<longrightarrow> b_data (bufs s ! b) = disk s m"
          using inv b True by (auto simp: bio_inv_def caches_def)
        ultimately show ?thesis using none m b(2) by (simp add: blk_def refs_def)
      next
        case b': False
        then have "holder s m = None" using False by (auto simp: holder_None_iff)
        then show ?thesis using none m by (simp add: blk_def refs_def)
      qed
    qed
  qed
  moreover have "cache ?t p (H(b \<mapsto> n))"
    by (rule bread_locked [OF c b(1) Hb inv' refl]) auto
  ultimately show ?thesis using Hb by (auto simp: bread_ok_def fun_eq_iff)
qed

text \<open>\<open>bread\<close> of a block this process has not locked, as long as some buffer can be had.\<close>

lemma bread_law:
  assumes c: "cache s p H" and n: "n \<notin> ran H" and r: "refs s n < 2 ^ 32 - 1"
    and room: "0 < refs s n \<or> (\<exists>b < NBUF. b_refcnt (bufs s ! b) = 0)"
  shows "\<exists>b t. bread ROOTDEV n s = Done b t \<and> bread_ok p H n s b t"
proof -
  have inv: "bio_inv s" and calm: "calm s p" and len: "length (bufs s) = NBUF"
    using c by (simp_all add: cache_def bio_inv_def)
  show ?thesis
  proof (cases "\<exists>b. caches s b n")
    case True
    then obtain b where b: "caches s b n" by blast
    then have bl: "b < NBUF" "b_valid (bufs s ! b)" using inv by (auto simp: caches_def bio_inv_def)
    have Hb: "H b = None"
    proof (rule ccontr)
      assume "H b \<noteq> None"
      then obtain m where "H b = Some m" by blast
      then have "m = n" using c b by (auto simp: cache_def caches_def)
      with \<open>H b = Some m\<close> n show False by (auto simp: ran_def)
    qed
    then have "sl_locked (sleeplocks s (BufLk b)) = 0" using c bl by (simp add: cache_def)
    then have "bget ROOTDEV n s = Done b (locked_buf p b (\<lambda>x. x\<lparr>b_refcnt := b_refcnt x + 1\<rparr>) s)"
      by (rule bget_hit [OF inv calm b])
    then have "bread ROOTDEV n s = Done b (locked_buf p b (\<lambda>x. x\<lparr>b_refcnt := b_refcnt x + 1\<rparr>) s)"
      using bl len by (simp add: bread_def)
    with bread_cached [OF c b Hb bl(2) r] show ?thesis by blast
  next
    case False
    then have none: "\<forall>i. \<not> caches s i n" by blast
    then have "refs s n = 0" using holder_None_iff [of s n] by (simp add: refs_def)
    then obtain b where b: "b < NBUF" "b_refcnt (bufs s ! b) = 0" "bget ROOTDEV n s = Done b (locked_buf p b
        (\<lambda>x. x\<lparr>b_dev := ROOTDEV, b_blockno := n, b_valid := False, b_refcnt := 1\<rparr>) s)"
      using bget_miss [OF inv calm none] room by auto
    have "bread ROOTDEV n s = Done b (locked_buf p b (\<lambda>x. x\<lparr>b_dev := ROOTDEV, b_blockno := n,
        b_refcnt := 1, b_data := disk s n, b_valid := True\<rparr>) s)"
      using b calm len by (simp add: bread_def disk_rw_def calm_def upd_locked_buf comp_def)
    with bread_uncached [OF c b(1,2) none] show ?thesis by blast
  qed
qed


subsection \<open>Changing, writing and releasing a locked buffer\<close>

lemma cacheD:
  assumes "cache s p H"
  shows "bio_inv s" and "calm s p" and "length (bufs s) = NBUF" and "held s = []"
    and "H b = Some n \<Longrightarrow> caches s b n \<and> b < NBUF \<and> b_dev (bufs s ! b) = ROOTDEV \<and>
      b_blockno (bufs s ! b) = n \<and> b_valid (bufs s ! b) \<and> b_refcnt (bufs s ! b) \<noteq> 0 \<and>
      holds_sleep (BufLk b) s \<and> blk s n = b_data (bufs s ! b) \<and> refs s n = unat (b_refcnt (bufs s ! b)) \<and>
      holder s n = Some b"
    and "b < NBUF \<Longrightarrow> H b = None \<Longrightarrow> sl_locked (sleeplocks s (BufLk b)) = 0"
proof -
  show inv: "bio_inv s" and "calm s p" using assms by (simp_all add: cache_def)
  then show "length (bufs s) = NBUF" "held s = []" using bio_invD(2) by (simp_all add: calm_def)
  show "b < NBUF \<Longrightarrow> H b = None \<Longrightarrow> sl_locked (sleeplocks s (BufLk b)) = 0"
    using assms by (simp add: cache_def)
  assume "H b = Some n"
  then have c: "caches s b n" "b_valid (bufs s ! b)" "b_refcnt (bufs s ! b) \<noteq> 0" "holds_sleep (BufLk b) s"
    using assms by (auto simp: cache_def)
  then show "caches s b n \<and> b < NBUF \<and> b_dev (bufs s ! b) = ROOTDEV \<and>
      b_blockno (bufs s ! b) = n \<and> b_valid (bufs s ! b) \<and> b_refcnt (bufs s ! b) \<noteq> 0 \<and>
      holds_sleep (BufLk b) s \<and> blk s n = b_data (bufs s ! b) \<and> refs s n = unat (b_refcnt (bufs s ! b)) \<and>
      holder s n = Some b"
    using blk_cached [OF inv c(1,2)] refs_cached [OF inv c(1)] holder_Some_iff [OF inv, of n b]
    by (simp add: caches_def)
qed

lemma holder_upd_buf:
  assumes "b_dev (f (bufs s ! b)) = b_dev (bufs s ! b)" and "b_blockno (f (bufs s ! b)) = b_blockno (bufs s ! b)"
  shows "holder (upd_buf b f s) n = holder s n"
proof -
  have "b_dev ((bufs s)[b := f (bufs s ! b)] ! i) = b_dev (bufs s ! i) \<and>
      b_blockno ((bufs s)[b := f (bufs s ! b)] ! i) = b_blockno (bufs s ! i)" for i
    using assms by (cases "i = b"; cases "b < length (bufs s)") (simp_all add: list_update_beyond)
  then show ?thesis by (simp add: holder_def)
qed

text \<open>Replacing the data of a locked buffer, as the code does through \<open>b->data\<close>.\<close>

definition set_data :: "nat \<Rightarrow> (block \<Rightarrow> block) \<Rightarrow> 'z bcache_scheme \<Rightarrow> 'z bcache_scheme" where
  "set_data b g s = upd_buf b (\<lambda>x. x\<lparr>b_data := g (b_data x)\<rparr>) s"

lemma set_data_frame [simp]:
  "held (set_data b g s) = held s" "cur (set_data b g s) = cur s" "procs (set_data b g s) = procs s"
  "sleeplocks (set_data b g s) = sleeplocks s" "bnext (set_data b g s) = bnext s"
  "bprev (set_data b g s) = bprev s" "disk (set_data b g s) = disk s"
  "disk_writes (set_data b g s) = disk_writes s" "bcache.more (set_data b g s) = bcache.more s"
  "calm (set_data b g s) p = calm s p" "holds_sleep l (set_data b g s) = holds_sleep l s"
  "only_bio s (set_data b g s)" "length (bufs (set_data b g s)) = length (bufs s)"
  by (simp_all add: set_data_def)

lemma disk_frame [simp]:
  "calm (s\<lparr>disk := d, disk_writes := w\<rparr>) p = calm s p"
  "holds_sleep l (s\<lparr>disk := d, disk_writes := w\<rparr>) = holds_sleep l s"
  by (simp_all add: calm_def holds_sleep_def)

lemma set_data_law:
  assumes c: "cache s p H" and b: "H b = Some n"
  shows "cache (set_data b g s) p H \<and> blk (set_data b g s) = (blk s)(n := g (blk s n)) \<and>
    refs (set_data b g s) = refs s \<and> disk (set_data b g s) = disk s \<and>
    disk_writes (set_data b g s) = disk_writes s \<and> only_bio s (set_data b g s)"
proof -
  let ?t = "set_data b g s"
  note inv = cacheD(1) [OF c] and len = cacheD(3) [OF c] and bb = cacheD(5) [OF c b]
  have bufs: "bufs ?t ! i = (if i = b then (bufs s ! i)\<lparr>b_data := g (b_data (bufs s ! i))\<rparr> else bufs s ! i)" for i
    using bb len by (simp add: set_data_def nth_list_update)
  have cs: "caches ?t i m = caches s i m" for i m by (simp add: caches_def bufs)
  have inv': "bio_inv ?t"
  proof (rule bio_invI)
    show "\<exists>xs. lru_links (bnext ?t) (bprev ?t) xs \<and> set xs = {..<NBUF}"
      using bio_invD(1) [OF inv] by simp
    show "\<forall>i j m. caches ?t i m \<longrightarrow> caches ?t j m \<longrightarrow> i = j"
      unfolding cs using bio_invD(3) [OF inv] by blast
    show "length (bufs ?t) = NBUF" using len by (simp add: set_data_def)
  next
    fix i assume i: "i < NBUF"
    have f: "b_refcnt (bufs ?t ! i) = b_refcnt (bufs s ! i)" "b_valid (bufs ?t ! i) = b_valid (bufs s ! i)"
      "b_dev (bufs ?t ! i) = b_dev (bufs s ! i)" "b_blockno (bufs ?t ! i) = b_blockno (bufs s ! i)"
      "sleeplocks ?t = sleeplocks s" "disk ?t = disk s"
      by (simp_all add: bufs)
    show "sl_locked (sleeplocks ?t (BufLk i)) = 0" if "b_refcnt (bufs ?t ! i) = 0"
      using that bio_invD(4) [OF inv i] by (simp add: f)
    show "b_dev (bufs ?t ! i) = ROOTDEV" if "b_valid (bufs ?t ! i)"
      using that bio_invD(5) [OF inv i] by (simp add: f)
    show "b_dev (bufs ?t ! i) = ROOTDEV" if "b_refcnt (bufs ?t ! i) \<noteq> 0"
      using that bio_invD(6) [OF inv i] by (simp add: f)
    show "b_valid (bufs ?t ! i)" if "b_dev (bufs ?t ! i) = ROOTDEV"
      using that bio_invD(7) [OF inv i] by (simp add: f)
    show "b_data (bufs ?t ! i) = disk ?t (b_blockno (bufs ?t ! i))"
      if "b_valid (bufs ?t ! i)" "b_refcnt (bufs ?t ! i) = 0"
    proof -
      have "i \<noteq> b" using that(2) bb unfolding f(1) by auto
      then have "bufs ?t ! i = bufs s ! i" by (simp add: bufs)
      then show ?thesis using that bio_invD(8) [OF inv i] by (simp add: f)
    qed
  qed
  have h: "holder ?t m = holder s m" for m by (rule holder_cong [OF inv inv' cs])
  have "blk ?t m = ((blk s)(n := g (blk s n))) m" for m
  proof (cases "holder s m")
    case None
    then have "m \<noteq> n" using bb by auto
    then show ?thesis using None h [of m] by (simp add: blk_def)
  next
    case (Some i)
    then have i: "caches s i m" using holder_Some_iff [OF inv] by simp
    then have "i < NBUF" "b_valid (bufs s ! i)"
      using bio_invD(7) [OF inv, of i] by (simp_all add: caches_def)
    then have m: "blk s m = b_data (bufs s ! i)" by (rule_tac blk_cached [OF inv i])
    have "blk ?t m = b_data (bufs ?t ! i)"
      using Some h [of m] \<open>b_valid (bufs s ! i)\<close> by (cases "i = b") (simp_all add: blk_def bufs)
    moreover have "i = b" if "m = n" using bio_invD(3) [OF inv, of i n b] i bb that by blast
    moreover have "m = n" if "i = b" using i bb that by (simp add: caches_def)
    ultimately show ?thesis using m by (cases "i = b") (auto simp: bufs)
  qed
  moreover have "refs ?t m = refs s m" for m
    by (simp add: refs_def h bufs split: option.split)
  moreover have "cache ?t p H"
    using c inv' unfolding cache_def cs by (auto simp: bufs)
  ultimately show ?thesis by (simp add: fun_eq_iff)
qed

lemma bwrite_law:
  assumes c: "cache s p H" and b: "H b = Some n"
  shows "\<exists>t. bwrite b s = Done () t \<and> cache t p H \<and> blk t = blk s \<and> refs t = refs s \<and>
    disk t = (disk s)(n := blk s n) \<and> disk_writes t = disk_writes s @ [(n, blk s n)] \<and> only_bio s t"
proof -
  define v where "v = blk s n"
  let ?t = "s\<lparr>disk := (disk s)(n := v), disk_writes := disk_writes s @ [(n, v)]\<rparr>"
  note inv = cacheD(1) [OF c] and bb = cacheD(5) [OF c b]
  have run: "bwrite b s = Done () ?t"
    using bb cacheD(4) [OF c] holdingsleep_eq [OF cacheD(2) [OF c]]
    by (simp add: bwrite_def disk_rw_def Let_def v_def)
  have cs: "caches ?t i m = caches s i m" for i m by (simp add: caches_def)
  have h: "holder ?t m = holder s m" for m by (simp add: holder_def)
  have inv': "bio_inv ?t"
  proof (rule bio_invI)
    show "\<forall>i j m. caches ?t i m \<longrightarrow> caches ?t j m \<longrightarrow> i = j"
      unfolding cs using bio_invD(3) [OF inv] by blast
    show "b_data (bufs ?t ! i) = disk ?t (b_blockno (bufs ?t ! i))"
      if i: "i < NBUF" and "b_valid (bufs ?t ! i)" "b_refcnt (bufs ?t ! i) = 0" for i
    proof -
      have "caches s i (b_blockno (bufs s ! i))"
        using that bio_invD(5) [OF inv i] by (simp add: caches_def)
      then have "b_blockno (bufs s ! i) \<noteq> n" using bb bio_invD(3) [OF inv, of i n b] that by auto
      then show ?thesis using that bio_invD(8) [OF inv i] by simp
    qed
  qed (use bio_invD [OF inv] in simp_all)
  have "blk ?t m = blk s m" for m
  proof (cases "holder s m")
    case None
    then have "m \<noteq> n" using bb by auto
    then show ?thesis using None by (simp add: blk_def h)
  next
    case (Some i)
    have "b_valid (bufs s ! i)"
      using Some bio_invD(7) [OF inv, of i] holder_Some_iff [OF inv, of m i] by (simp add: caches_def)
    then show ?thesis using Some by (simp add: blk_def h)
  qed
  moreover have "refs ?t = refs s" by (rule ext) (simp add: refs_def h split: option.split)
  moreover have "cache ?t p H"
    using c inv' unfolding cache_def cs by simp
  ultimately show ?thesis using run by (intro exI [of _ ?t]) (auto simp: v_def)
qed


lemma links_frame [simp]:
  "bufs (link_front b s) = bufs s" "sleeplocks (link_front b s) = sleeplocks s" "held (link_front b s) = held s"
  "disk (link_front b s) = disk s" "disk_writes (link_front b s) = disk_writes s" "cur (link_front b s) = cur s"
  "procs (link_front b s) = procs s" "only_bio s (link_front b s)"
  "bufs (unlink b s) = bufs s" "sleeplocks (unlink b s) = sleeplocks s" "held (unlink b s) = held s"
  "disk (unlink b s) = disk s" "disk_writes (unlink b s) = disk_writes s" "cur (unlink b s) = cur s"
  "procs (unlink b s) = procs s" "only_bio s (unlink b s)"
  by (simp_all add: link_front_def unlink_def Let_def only_bio_def same_owners_procs)

lemma wake_all_bcache [simp]:
  "bufs (wake_all c s) = bufs s" "bnext (wake_all c s) = bnext s" "bprev (wake_all c s) = bprev s"
  "disk (wake_all c s) = disk s" "disk_writes (wake_all c s) = disk_writes s"
  "sleeplocks (wake_all c s) = sleeplocks s" "only_bio s (wake_all c s)"
  by (simp_all add: only_bio_def same_owners_woken) (simp_all add: wake_all_def)

lemma move_front_links:
  assumes "lru_links (bnext s) (bprev s) xs" and "b \<in> set xs" and "b \<noteq> NBUF"
  shows "\<exists>ys. lru_links (bnext (link_front b (unlink b s))) (bprev (link_front b (unlink b s))) ys \<and> set ys = set xs"
proof -
  obtain us vs where xs: "xs = us @ b # vs" using assms(2) by (meson split_list)
  then have "lru_links (bnext (unlink b s)) (bprev (unlink b s)) (us @ vs)"
    using assms(1) unlink_links by blast
  moreover have "b \<notin> set (us @ vs)" using assms(1) xs by (simp add: lru_links_def)
  ultimately have "lru_links (bnext (link_front b (unlink b s))) (bprev (link_front b (unlink b s))) (b # us @ vs)"
    by (rule link_front_links) (rule assms(3))
  then show ?thesis using xs by (intro exI [of _ "b # us @ vs"]) auto
qed

text \<open>What \<open>brelse\<close> leaves behind.\<close>

definition released :: "nat \<Rightarrow> 'z bcache_scheme \<Rightarrow> 'z bcache_scheme" where
  "released b s =
     (let s = upd_buf b (\<lambda>x. x\<lparr>b_refcnt := b_refcnt x - 1\<rparr>)
                (wake_all (Some (ChSleepLock (BufLk b))) (set_sleeplock (BufLk b) 0 0 s))
      in if b_refcnt (bufs s ! b) = 0 then link_front b (unlink b s) else s)"

lemma released_simps [simp]:
  "bufs (released b s) = (bufs s)[b := (bufs s ! b)\<lparr>b_refcnt := b_refcnt (bufs s ! b) - 1\<rparr>]"
  "sleeplocks (released b s) = (sleeplocks s)(BufLk b := \<lparr>sl_locked = 0, sl_pid = 0\<rparr>)"
  "disk (released b s) = disk s" "disk_writes (released b s) = disk_writes s" "held (released b s) = held s"
  "cur (released b s) = cur s" "length (procs (released b s)) = length (procs s)"
  by (simp_all add: released_def Let_def set_sleeplock_def)

lemma released_pid: "i < length (procs s) \<Longrightarrow> p_pid (the_proc (released b s) i) = p_pid (the_proc s i)"
  by (simp add: released_def Let_def woken_def set_sleeplock_def)

lemma released_only_bio: "only_bio s (released b s)"
proof -
  let ?s = "upd_buf b (\<lambda>x. x\<lparr>b_refcnt := b_refcnt x - 1\<rparr>)
                (wake_all (Some (ChSleepLock (BufLk b))) (set_sleeplock (BufLk b) 0 0 s))"
  have "only_bio s ?s"
    by (rule only_bio_trans, rule only_bio_upd(2), rule only_bio_trans, rule wake_all_bcache(7), rule only_bio_upd(1))
  moreover have "only_bio ?s (link_front b (unlink b ?s))"
    by (rule only_bio_trans, rule links_frame(16), rule links_frame(8))
  ultimately show ?thesis unfolding released_def Let_def by (auto intro: only_bio_trans)
qed

lemma brelse_eq:
  assumes "calm s p" and "holds_sleep (BufLk b) s"
  shows "brelse b s = Done () (released b s)"
proof -
  let ?s = "wake_all (Some (ChSleepLock (BufLk b))) (set_sleeplock (BufLk b) 0 0 s)"
  have h: "held ?s = []" using assms(1) by (simp add: calm_def set_sleeplock_def)
  have e: "(x :: 'a bcache_scheme)\<lparr>held := [BcacheLock], bufs := bs\<rparr> = x\<lparr>bufs := bs, held := [BcacheLock]\<rparr>" for x bs
    by (rule bcache.equality) simp_all
  let ?u = "upd_buf b (\<lambda>x. x\<lparr>b_refcnt := b_refcnt x - 1\<rparr>) ?s"
  have u: "upd_buf b (\<lambda>x. x\<lparr>b_refcnt := b_refcnt x - 1\<rparr>) (?s\<lparr>held := [BcacheLock]\<rparr>) = ?u\<lparr>held := [BcacheLock]\<rparr>"
    by (rule bcache.equality) (simp_all add: upd_buf_def)
  have m: "link_front b (unlink b (?u\<lparr>held := [BcacheLock]\<rparr>)) = (link_front b (unlink b ?u))\<lparr>held := [BcacheLock]\<rparr>"
    by (rule bcache.equality) (simp_all add: link_front_def unlink_def Let_def)
  have rel: "release BcacheLock (x\<lparr>held := [BcacheLock]\<rparr>) = Done () x" if "held x = []" for x :: "'a bcache_scheme"
    using that by (simp add: release_def)
  show ?thesis
    using assms(2) h
    by (simp add: brelse_def holdingsleep_eq [OF assms(1)] releasesleep_eq [OF assms(1)] acquire_free
        Let_def u m rel released_def)
qed


lemma brelse_law:
  assumes c: "cache s p H" and b: "H b = Some n" and r: "2 \<le> refs s n \<or> blk s n = disk s n"
  shows "\<exists>t. brelse b s = Done () t \<and> cache t p (H(b := None)) \<and> blk t = blk s \<and>
    refs t = (refs s)(n := refs s n - 1) \<and> disk t = disk s \<and> disk_writes t = disk_writes s \<and> only_bio s t"
proof -
  let ?t = "released b s"
  note inv = cacheD(1) [OF c] and calm = cacheD(2) [OF c] and len = cacheD(3) [OF c] and bb = cacheD(5) [OF c b]
  have pos: "0 < unat (b_refcnt (bufs s ! b))" using bb by (simp add: unat_gt_0)
  then have dec: "unat (b_refcnt (bufs s ! b) - 1) = unat (b_refcnt (bufs s ! b)) - 1"
    by (subst unat_sub) (simp_all add: word_le_nat_alt)
  have bufs: "bufs ?t ! i = (if i = b then (bufs s ! i)\<lparr>b_refcnt := b_refcnt (bufs s ! b) - 1\<rparr> else bufs s ! i)" for i
    using bb len by (simp add: nth_list_update)
  have f: "b_valid (bufs ?t ! i) = b_valid (bufs s ! i)" "b_data (bufs ?t ! i) = b_data (bufs s ! i)"
      "b_dev (bufs ?t ! i) = b_dev (bufs s ! i)" "b_blockno (bufs ?t ! i) = b_blockno (bufs s ! i)" for i
    unfolding bufs by simp_all
  have cs: "caches ?t i m = caches s i m" for i m by (simp only: caches_def f)
  have inv': "bio_inv ?t"
  proof (rule bio_invI)
    obtain xs where xs: "lru_links (bnext s) (bprev s) xs" "set xs = {..<NBUF}"
      using bio_invD(1) [OF inv] by blast
    let ?u = "upd_buf b (\<lambda>x. x\<lparr>b_refcnt := b_refcnt x - 1\<rparr>)
      (wake_all (Some (ChSleepLock (BufLk b))) (set_sleeplock (BufLk b) 0 0 s))"
    have u: "bnext ?u = bnext s" "bprev ?u = bprev s" by (simp_all add: set_sleeplock_def)
    have "lru_links (bnext ?u) (bprev ?u) xs" using xs u by simp
    then show "\<exists>xs. lru_links (bnext ?t) (bprev ?t) xs \<and> set xs = {..<NBUF}"
      using move_front_links [of ?u xs b] xs(2) bb by (auto simp: released_def Let_def)
    show "\<forall>i j m. caches ?t i m \<longrightarrow> caches ?t j m \<longrightarrow> i = j"
      unfolding cs using bio_invD(3) [OF inv] by blast
    show "length (bufs ?t) = NBUF" using len by simp
  next
    fix i assume i: "i < NBUF"
    show "sl_locked (sleeplocks ?t (BufLk i)) = 0" if "b_refcnt (bufs ?t ! i) = 0"
    proof (cases "i = b")
      case False
      then show ?thesis using that bio_invD(4) [OF inv i] unfolding bufs by simp
    qed simp
    show "b_dev (bufs ?t ! i) = ROOTDEV" if "b_valid (bufs ?t ! i)"
      using that bio_invD(5) [OF inv i] unfolding f by blast
    show "b_dev (bufs ?t ! i) = ROOTDEV" if "b_refcnt (bufs ?t ! i) \<noteq> 0"
    proof (cases "i = b")
      case True
      then show ?thesis using bb unfolding f by simp
    next
      case False
      then show ?thesis using that bio_invD(6) [OF inv i] unfolding f bufs by simp
    qed
    show "b_valid (bufs ?t ! i)" if "b_dev (bufs ?t ! i) = ROOTDEV"
      using that bio_invD(7) [OF inv i] unfolding f by blast
    show "b_data (bufs ?t ! i) = disk ?t (b_blockno (bufs ?t ! i))"
      if v: "b_valid (bufs ?t ! i)" "b_refcnt (bufs ?t ! i) = 0"
    proof (cases "i = b")
      case True
      then have "unat (b_refcnt (bufs s ! b)) - 1 = 0" using v(2) dec unfolding bufs by simp
      then have "blk s n = disk s n" using r bb by auto
      then show ?thesis using True bb unfolding f by simp
    next
      case False
      then have "b_refcnt (bufs s ! i) = 0" using v(2) unfolding bufs by simp
      then show ?thesis using bio_invD(8) [OF inv i] v(1) unfolding f by simp
    qed
  qed
  have h: "holder ?t m = holder s m" for m by (rule holder_cong [OF inv inv' cs])
  have "blk ?t m = blk s m" for m
    unfolding blk_def h f released_simps(3) by (rule refl)
  moreover have "refs ?t m = ((refs s)(n := refs s n - 1)) m" for m
  proof (cases "holder s m")
    case None
    then have "m \<noteq> n" using bb by auto
    then show ?thesis using None by (simp add: refs_def h)
  next
    case (Some i)
    have ib: "i = b" if "m = n" using Some bb that by simp
    have "m = n" if "i = b" using Some that bb holder_Some_iff [OF inv, of m i] by (simp add: caches_def)
    then show ?thesis using Some ib dec by (cases "i = b") (auto simp: refs_def h bufs simp del: released_simps)
  qed
  moreover have "cache ?t p (H(b := None))"
  proof -
    have p: "p < length (procs s)" "cur s = Some p" using calm by (simp_all add: calm_def)
    have "caches ?t b' m \<and> b_valid (bufs ?t ! b') \<and> b_refcnt (bufs ?t ! b') \<noteq> 0 \<and> holds_sleep (BufLk b') ?t"
      if "(H(b := None)) b' = Some m" for b' m
    proof -
      have "b' \<noteq> b" "H b' = Some m" using that by (auto split: if_splits)
      then show ?thesis using cacheD(5) [OF c, of b' m] p released_pid [of p s b]
        unfolding cs f bufs by (auto simp: holds_sleep_def)
    qed
    moreover have "sl_locked (sleeplocks ?t (BufLk i)) = 0" if "i < NBUF" "(H(b := None)) i = None" for i
      using that cacheD(6) [OF c, of i] by (cases "i = b") auto
    moreover have "calm ?t p" using calm by (simp add: calm_def)
    ultimately show ?thesis using inv' by (simp add: cache_def)
  qed
  moreover have "brelse b s = Done () ?t" by (rule brelse_eq [OF calm]) (use bb in simp)
  ultimately show ?thesis using released_only_bio by (intro exI [of _ ?t]) (auto simp: fun_eq_iff)
qed


subsection \<open>Pinning\<close>

text \<open>\<open>bpin\<close> and \<open>bunpin\<close> of a locked buffer change only its reference count.\<close>

definition set_refcnt :: "nat \<Rightarrow> u32 \<Rightarrow> 'z bcache_scheme \<Rightarrow> 'z bcache_scheme" where
  "set_refcnt b r s = upd_buf b (\<lambda>x. x\<lparr>b_refcnt := r\<rparr>) s"

lemma set_refcnt_frame [simp]:
  "held (set_refcnt b g s) = held s" "sleeplocks (set_refcnt b g s) = sleeplocks s"
  "bnext (set_refcnt b g s) = bnext s" "bprev (set_refcnt b g s) = bprev s" "disk (set_refcnt b g s) = disk s"
  "disk_writes (set_refcnt b g s) = disk_writes s" "calm (set_refcnt b g s) p = calm s p"
  "holds_sleep l (set_refcnt b g s) = holds_sleep l s" "only_bio s (set_refcnt b g s)"
  "length (bufs (set_refcnt b g s)) = length (bufs s)"
  by (simp_all add: set_refcnt_def)

lemma set_refcnt_law:
  assumes c: "cache s p H" and b: "H b = Some n" and r: "r \<noteq> 0"
  shows "cache (set_refcnt b r s) p H \<and> blk (set_refcnt b r s) = blk s \<and>
    refs (set_refcnt b r s) = (refs s)(n := unat r)"
proof -
  let ?t = "set_refcnt b r s"
  note inv = cacheD(1) [OF c] and len = cacheD(3) [OF c] and bb = cacheD(5) [OF c b]
  have bufs: "bufs ?t ! i = (if i = b then (bufs s ! i)\<lparr>b_refcnt := r\<rparr> else bufs s ! i)" for i
    using bb len by (simp add: set_refcnt_def nth_list_update)
  have f: "b_valid (bufs ?t ! i) = b_valid (bufs s ! i)" "b_data (bufs ?t ! i) = b_data (bufs s ! i)"
      "b_dev (bufs ?t ! i) = b_dev (bufs s ! i)" "b_blockno (bufs ?t ! i) = b_blockno (bufs s ! i)" for i
    unfolding bufs by simp_all
  have rc: "b_refcnt (bufs ?t ! i) = (if i = b then r else b_refcnt (bufs s ! i))" for i by (simp add: bufs)
  have cs: "caches ?t i m = caches s i m" for i m by (simp only: caches_def f)
  have inv': "bio_inv ?t"
  proof (rule bio_invI)
    show "\<exists>xs. lru_links (bnext ?t) (bprev ?t) xs \<and> set xs = {..<NBUF}" using bio_invD(1) [OF inv] by simp
    show "\<forall>i j m. caches ?t i m \<longrightarrow> caches ?t j m \<longrightarrow> i = j"
      unfolding cs using bio_invD(3) [OF inv] by blast
    show "length (bufs ?t) = NBUF" using len by simp
  next
    fix i assume i: "i < NBUF"
    show "sl_locked (sleeplocks ?t (BufLk i)) = 0" if "b_refcnt (bufs ?t ! i) = 0"
      using that r bio_invD(4) [OF inv i] by (cases "i = b") (simp_all add: rc)
    show "b_dev (bufs ?t ! i) = ROOTDEV" if "b_valid (bufs ?t ! i)"
      using that bio_invD(5) [OF inv i] unfolding f by blast
    show "b_dev (bufs ?t ! i) = ROOTDEV" if "b_refcnt (bufs ?t ! i) \<noteq> 0"
      using that bb bio_invD(6) [OF inv i] unfolding f rc by (cases "i = b") simp_all
    show "b_valid (bufs ?t ! i)" if "b_dev (bufs ?t ! i) = ROOTDEV"
      using that bio_invD(7) [OF inv i] unfolding f by blast
    show "b_data (bufs ?t ! i) = disk ?t (b_blockno (bufs ?t ! i))"
      if "b_valid (bufs ?t ! i)" "b_refcnt (bufs ?t ! i) = 0"
      using that r bio_invD(8) [OF inv i] unfolding f rc set_refcnt_frame by (cases "i = b") simp_all
  qed
  have h: "holder ?t m = holder s m" for m by (rule holder_cong [OF inv inv' cs])
  have "blk ?t m = blk s m" for m unfolding blk_def h f set_refcnt_frame by (rule refl)
  moreover have "refs ?t m = ((refs s)(n := unat r)) m" for m
  proof (cases "holder s m")
    case None
    then have "m \<noteq> n" using bb by auto
    then show ?thesis using None by (simp add: refs_def h)
  next
    case (Some i)
    have ib: "i = b" if "m = n" using Some bb that by simp
    have "m = n" if "i = b" using Some that bb holder_Some_iff [OF inv, of m i] by (simp add: caches_def)
    then show ?thesis using Some ib by (cases "i = b") (auto simp: refs_def h rc)
  qed
  moreover have "cache ?t p H"
    using c inv' r unfolding cache_def cs f rc by auto
  ultimately show ?thesis by (simp add: fun_eq_iff)
qed

lemma bpin_eq: "calm s p \<Longrightarrow> bpin b s = Done () (set_refcnt b (b_refcnt (bufs s ! b) + 1) s)"
  and bunpin_eq: "calm s p \<Longrightarrow> bunpin b s = Done () (set_refcnt b (b_refcnt (bufs s ! b) - 1) s)"
  by (auto simp: bpin_def bunpin_def calm_def acquire_def release_def set_refcnt_def upd_buf_def
      intro!: bcache.equality)

lemma bpin_law:
  assumes c: "cache s p H" and b: "H b = Some n" and r: "refs s n < 2 ^ 32 - 1"
  shows "\<exists>t. bpin b s = Done () t \<and> cache t p H \<and> blk t = blk s \<and> refs t = (refs s)(n := refs s n + 1) \<and>
    disk t = disk s \<and> disk_writes t = disk_writes s \<and> only_bio s t"
proof -
  note bb = cacheD(5) [OF c b]
  have rc: "unat (b_refcnt (bufs s ! b) + 1) = refs s n + 1" "b_refcnt (bufs s ! b) + 1 \<noteq> 0"
    using r bb refcnt_Suc [of "b_refcnt (bufs s ! b)"] by simp_all
  show ?thesis
    using set_refcnt_law [OF c b rc(2)] rc(1) by (simp add: bpin_eq [OF cacheD(2) [OF c]])
qed

lemma bunpin_law:
  assumes c: "cache s p H" and b: "H b = Some n" and r: "2 \<le> refs s n"
  shows "\<exists>t. bunpin b s = Done () t \<and> cache t p H \<and> blk t = blk s \<and> refs t = (refs s)(n := refs s n - 1) \<and>
    disk t = disk s \<and> disk_writes t = disk_writes s \<and> only_bio s t"
proof -
  note bb = cacheD(5) [OF c b]
  have "unat (b_refcnt (bufs s ! b) - 1) = unat (b_refcnt (bufs s ! b)) - 1"
    using r bb by (subst unat_sub) (simp_all add: word_le_nat_alt)
  then have rc: "unat (b_refcnt (bufs s ! b) - 1) = refs s n - 1" using bb by simp
  then have "b_refcnt (bufs s ! b) - 1 \<noteq> 0" using r by (metis One_nat_def Suc_1 diff_is_0_eq not_less_eq_eq unat_0)
  from set_refcnt_law [OF c b this] rc show ?thesis
    by (simp add: bunpin_eq [OF cacheD(2) [OF c]])
qed


subsection \<open>The interface the log relies on\<close>

text \<open>A buffer is free when fewer than \<open>NBUF\<close> blocks are referred to.\<close>

lemma free_buffer:
  assumes c: "cache s p H" and "finite A" and "{n. 0 < refs s n} \<subseteq> A" and "card A < NBUF"
  shows "\<exists>b < NBUF. b_refcnt (bufs s ! b) = 0"
proof (rule ccontr)
  assume "\<not> ?thesis"
  then have busy: "b_refcnt (bufs s ! b) \<noteq> 0" if "b < NBUF" for b using that by blast
  note inv = cacheD(1) [OF c]
  let ?f = "\<lambda>b. b_blockno (bufs s ! b)"
  have cs: "caches s b (?f b)" if "b < NBUF" for b
    using bio_invD(6) [OF inv that busy [OF that]] that by (simp add: caches_def)
  have "inj_on ?f {..<NBUF}"
    using cs bio_invD(3) [OF inv] by (intro inj_onI) (metis lessThan_iff)
  then have "card (?f ` {..<NBUF}) = NBUF" by (simp add: card_image)
  moreover have "?f ` {..<NBUF} \<subseteq> A"
  proof
    fix n assume "n \<in> ?f ` {..<NBUF}"
    then obtain b where "b < NBUF" "n = ?f b" by auto
    then have "0 < refs s n" using refs_cached [OF inv cs] busy by (simp add: unat_gt_0)
    then show "n \<in> A" using assms(3) by blast
  qed
  ultimately show False using assms(2,4) card_mono [of A "?f ` {..<NBUF}"] by simp
qed

locale block_cache =
  fixes ok :: "'s \<Rightarrow> (nat \<rightharpoonup> u32) \<Rightarrow> bool"
    and content :: "'s \<Rightarrow> u32 \<Rightarrow> block" and count :: "'s \<Rightarrow> u32 \<Rightarrow> nat"
    and stored :: "'s \<Rightarrow> u32 \<Rightarrow> block" and writes :: "'s \<Rightarrow> (u32 \<times> block) list"
    and same_rest :: "'s \<Rightarrow> 's \<Rightarrow> bool" and buf_of :: "'s \<Rightarrow> nat \<Rightarrow> block" and capacity :: nat
    and rd :: "u32 \<Rightarrow> 's \<Rightarrow> ('s, nat) outcome" and change :: "nat \<Rightarrow> (block \<Rightarrow> block) \<Rightarrow> 's \<Rightarrow> 's"
    and wr :: "nat \<Rightarrow> 's \<Rightarrow> ('s, unit) outcome" and rel :: "nat \<Rightarrow> 's \<Rightarrow> ('s, unit) outcome"
  assumes rd: "\<lbrakk>ok s H; n \<notin> ran H; count s n < 2 ^ 32 - 1; finite A; {m. 0 < count s m} \<subseteq> A;
      n \<in> A; card A \<le> capacity\<rbrakk> \<Longrightarrow>
      \<exists>b t. rd n s = Done b t \<and> H b = None \<and> ok t (H(b \<mapsto> n)) \<and> content t = content s \<and>
        count t = (count s)(n := count s n + 1) \<and> stored t = stored s \<and> writes t = writes s \<and> same_rest s t"
    and change: "\<lbrakk>ok s H; H b = Some n\<rbrakk> \<Longrightarrow> ok (change b g s) H \<and>
      content (change b g s) = (content s)(n := g (content s n)) \<and> count (change b g s) = count s \<and>
      stored (change b g s) = stored s \<and> writes (change b g s) = writes s \<and> same_rest s (change b g s)"
    and wr: "\<lbrakk>ok s H; H b = Some n\<rbrakk> \<Longrightarrow> \<exists>t. wr b s = Done () t \<and> ok t H \<and> content t = content s \<and>
      count t = count s \<and> stored t = (stored s)(n := content s n) \<and>
      writes t = writes s @ [(n, content s n)] \<and> same_rest s t"
    and rel: "\<lbrakk>ok s H; H b = Some n; 2 \<le> count s n \<or> content s n = stored s n\<rbrakk> \<Longrightarrow>
      \<exists>t. rel b s = Done () t \<and> ok t (H(b := None)) \<and> content t = content s \<and>
        count t = (count s)(n := count s n - 1) \<and> stored t = stored s \<and> writes t = writes s \<and> same_rest s t"
    and buf_of: "\<lbrakk>ok s H; H b = Some n\<rbrakk> \<Longrightarrow> buf_of s b = content s n"
    and same_rest_trans: "\<lbrakk>same_rest s t; same_rest t u\<rbrakk> \<Longrightarrow> same_rest s u"
begin

lemma read_two:
  assumes "ok s H" and "m \<notin> ran H" and "n \<notin> ran H" and "m \<noteq> n"
    and "count s m < 2 ^ 32 - 1" and "count s n < 2 ^ 32 - 1"
    and "finite A" and "{i. 0 < count s i} \<subseteq> A" and "m \<in> A" and "n \<in> A" and "card A \<le> capacity"
  shows "\<exists>a u b t. rd m s = Done a u \<and> same_rest s u \<and> rd n u = Done b t \<and> a \<noteq> b \<and>
    H a = None \<and> H b = None \<and>
    ok t (H(a \<mapsto> m, b \<mapsto> n)) \<and> content t = content s \<and>
    count t = (count s)(m := count s m + 1, n := count s n + 1) \<and>
    stored t = stored s \<and> writes t = writes s \<and> same_rest s t"
proof -
  obtain a u where u: "rd m s = Done a u" "H a = None" "ok u (H(a \<mapsto> m))" "content u = content s"
    "count u = (count s)(m := count s m + 1)" "stored u = stored s" "writes u = writes s" "same_rest s u"
    using rd [OF assms(1,2,5,7,8,9,11)] by blast
  have "n \<notin> ran (H(a \<mapsto> m))" using assms(3,4) u(2) by (auto simp: ran_def)
  moreover have "{i. 0 < count u i} \<subseteq> A" using assms(8,9) u(5) by auto
  ultimately obtain b t where t: "rd n u = Done b t" "(H(a \<mapsto> m)) b = None" "ok t (H(a \<mapsto> m, b \<mapsto> n))"
    "content t = content u" "count t = (count u)(n := count u n + 1)" "stored t = stored u"
    "writes t = writes u" "same_rest u t"
    using rd [OF u(3), of n A] assms(4,6,7,10,11) u(5) by auto
  show ?thesis
    using u t assms(4) same_rest_trans [OF u(8) t(8)]
    by (intro exI [of _ a] exI [of _ u] exI [of _ b] exI [of _ t]) (auto split: if_splits)
qed

text \<open>Copying the buffer \<open>a\<close> into the buffer \<open>b\<close> and writing it.\<close>

lemma copy_write:
  assumes "ok s H" and "H a = Some m" and "H b = Some n" and "m \<noteq> n"
  shows "\<exists>t. wr b (change b (\<lambda>_. buf_of s a) s) = Done () t \<and> ok t H \<and>
    content t = (content s)(n := content s m) \<and> count t = count s \<and>
    stored t = (stored s)(n := content s m) \<and> writes t = writes s @ [(n, content s m)] \<and> same_rest s t"
proof -
  let ?u = "change b (\<lambda>_. buf_of s a) s"
  have u: "ok ?u H" "content ?u = (content s)(n := content s m)" "count ?u = count s"
    "stored ?u = stored s" "writes ?u = writes s" "same_rest s ?u"
    using change [OF assms(1,3), of "\<lambda>_. buf_of s a"] buf_of [OF assms(1,2)] by auto
  show ?thesis using wr [OF u(1) assms(3)] u same_rest_trans by fastforce
qed

lemma release_two:
  assumes "ok s H" and "H a = Some m" and "H b = Some n" and "a \<noteq> b" and "m \<noteq> n"
    and "2 \<le> count s m \<or> content s m = stored s m" and "2 \<le> count s n \<or> content s n = stored s n"
  shows "\<exists>t. bnd (rel a s) (\<lambda>_ s. rel b s) = Done () t \<and> ok t (H(a := None, b := None)) \<and>
    content t = content s \<and> count t = (count s)(m := count s m - 1, n := count s n - 1) \<and>
    stored t = stored s \<and> writes t = writes s \<and> same_rest s t"
proof -
  obtain u where u: "rel a s = Done () u" "ok u (H(a := None))" "content u = content s"
    "count u = (count s)(m := count s m - 1)" "stored u = stored s" "writes u = writes s" "same_rest s u"
    using rel [OF assms(1,2,6)] by blast
  have "2 \<le> count u n \<or> content u n = stored u n" using assms(5,7) u by auto
  then obtain t where t: "rel b u = Done () t" "ok t (H(a := None, b := None))" "content t = content u"
    "count t = (count u)(n := count u n - 1)" "stored t = stored u" "writes t = writes u" "same_rest u t"
    using rel [OF u(2), of b n] assms(3,4) by auto
  show ?thesis
    using u t same_rest_trans [OF u(7) t(7)] assms(5) by (intro exI [of _ t]) auto
qed

end

interpretation bc: block_cache "\<lambda>s. cache s p" blk refs disk disk_writes only_bio
  "\<lambda>s b. b_data (bufs s ! b)" NBUF "bread ROOTDEV" set_data bwrite brelse for p
proof
  fix s :: "'a bcache_scheme" and H n and A :: "u32 set"
  assume a: "cache s p H" "n \<notin> ran H" "refs s n < 2 ^ 32 - 1" "finite A" "{m. 0 < refs s m} \<subseteq> A"
    "n \<in> A" "card A \<le> NBUF"
  have "0 < refs s n \<or> (\<exists>b < NBUF. b_refcnt (bufs s ! b) = 0)"
  proof (cases "0 < refs s n")
    case False
    then have "{m. 0 < refs s m} \<subseteq> A - {n}" using a(5) by auto
    moreover have "card (A - {n}) < NBUF" using card_Diff1_less [OF a(4,6)] a(7) by simp
    ultimately show ?thesis using free_buffer [OF a(1), of "A - {n}"] a(4) by simp
  qed simp
  from bread_law [OF a(1-3) this] show "\<exists>b t. bread ROOTDEV n s = Done b t \<and> H b = None \<and>
      cache t p (H(b \<mapsto> n)) \<and> blk t = blk s \<and> refs t = (refs s)(n := refs s n + 1) \<and> disk t = disk s \<and>
      disk_writes t = disk_writes s \<and> only_bio s t"
    unfolding bread_ok_def by blast
qed (use set_data_law bwrite_law brelse_law cacheD(5) only_bio_trans in \<open>blast | fastforce\<close>)+


subsection \<open>Properties of the cache\<close>

text \<open>
  C2: what is written to a block is what the next reader gets, and it is on disk. A process reads a
  block, changes the data, writes and releases the buffer; reading the block again gives a buffer with
  the new data, and the disk holds them.
\<close>
theorem bio_write_read:
  assumes "cache s p H" and "n \<notin> ran H" and "refs s n < 2 ^ 32 - 1"
    and "finite A" and "{m. 0 < refs s m} \<subseteq> A" and "n \<in> A" and "card A \<le> NBUF"
  shows "\<exists>b t. bnd (bread ROOTDEV n s) (\<lambda>b s. bnd (bwrite b (set_data b (\<lambda>_. d) s)) (\<lambda>_ s.
      bnd (brelse b s) (\<lambda>_ s. bread ROOTDEV n s))) = Done b t \<and>
    b_data (bufs t ! b) = d \<and> disk t = (disk s)(n := d) \<and> disk_writes t = disk_writes s @ [(n, d)] \<and>
    blk t = (blk s)(n := d) \<and> cache t p (H(b \<mapsto> n))"
proof -
  obtain b u where u: "bread ROOTDEV n s = Done b u" "H b = None" "cache u p (H(b \<mapsto> n))" "blk u = blk s"
    "refs u = (refs s)(n := refs s n + 1)" "disk u = disk s" "disk_writes u = disk_writes s"
    using bc.rd [OF assms(1,2,3,4,5,6,7)] by blast
  let ?v = "set_data b (\<lambda>_. d) u"
  have v: "cache ?v p (H(b \<mapsto> n))" "blk ?v = (blk s)(n := d)" "refs ?v = refs u" "disk ?v = disk s"
    "disk_writes ?v = disk_writes s"
    using set_data_law [OF u(3), of b n "\<lambda>_. d"] u by auto
  obtain w where w: "bwrite b ?v = Done () w" "cache w p (H(b \<mapsto> n))" "blk w = blk ?v" "refs w = refs u"
    "disk w = (disk s)(n := d)" "disk_writes w = disk_writes s @ [(n, d)]"
    using bwrite_law [OF v(1), of b n] v by auto
  have "(H(b \<mapsto> n))(b := None) = H" using u(2) by (simp add: fun_upd_idem)
  then obtain x where x: "brelse b w = Done () x" "cache x p H" "blk x = blk w"
    "refs x = refs s" "disk x = disk w" "disk_writes x = disk_writes w"
    using brelse_law [OF w(2), of b n] w v u by auto
  have "refs x n < 2 ^ 32 - 1" "{m. 0 < refs x m} \<subseteq> A" using assms(3,5) x(4) by simp_all
  from bc.rd [OF x(2) assms(2) this(1) assms(4) this(2) assms(6,7)]
  obtain c t where t: "bread ROOTDEV n x = Done c t" "cache t p (H(c \<mapsto> n))" "blk t = blk x"
    "disk t = disk x" "disk_writes t = disk_writes x"
    by blast
  have "b_data (bufs t ! c) = blk t n" using cacheD(5) [OF t(2), of c n] by simp
  then show ?thesis using u(1) w x t v by (intro exI [of _ c] exI [of _ t]) simp
qed

lemma bread_no_buffers_law:
  assumes "bio_inv s" and "calm s p" and "\<forall>i. \<not> caches s i n" and "\<forall>b < NBUF. b_refcnt (bufs s ! b) \<noteq> 0"
  shows "bread ROOTDEV n s = Panic ''bget: no buffers''"
  using bget_miss [OF assms(1-3)] assms(4) by (auto simp: bread_def)

text \<open>
  \<open>bget\<close> with every buffer in use. When all \<open>NBUF\<close> buffers are referred to, \<open>bread\<close> of a block
  that is not cached ends in the panic of \<open>bget\<close>: the cache has no way to wait for a buffer.
\<close>
theorem bread_no_buffers:
  assumes "bio_inv s" and "calm s p" and "\<forall>i. \<not> caches s i n" and "\<forall>b < NBUF. b_refcnt (bufs s ! b) \<noteq> 0"
  shows "bread ROOTDEV n s = Panic ''bget: no buffers''"
  by (rule bread_no_buffers_law [OF assms])

subsection \<open>binit establishes the invariant\<close>

lemma initsleeplock_frame [simp]:
  "bufs (initsleeplock i s) = bufs s" "bnext (initsleeplock i s) = bnext s" "bprev (initsleeplock i s) = bprev s"
  "disk (initsleeplock i s) = disk s" "disk_writes (initsleeplock i s) = disk_writes s"
  "held (initsleeplock i s) = held s" "cur (initsleeplock i s) = cur s" "procs (initsleeplock i s) = procs s"
  "sleeplocks (initsleeplock i s) = (sleeplocks s)(i := \<lparr>sl_locked = 0, sl_pid = 0\<rparr>)"
  by (simp_all add: initsleeplock_def set_sleeplock_def)

lemma binit_fold:
  assumes "n \<le> NBUF" and "lru_links (bnext s) (bprev s) []"
  shows "let t = fold (\<lambda>b s. link_front b (initsleeplock (BufLk b) s)) [0..<n] s in
    lru_links (bnext t) (bprev t) (rev [0..<n]) \<and> bufs t = bufs s \<and> disk t = disk s \<and> cur t = cur s \<and>
    held t = held s \<and> procs t = procs s \<and> disk_writes t = disk_writes s \<and>
    (\<forall>i < n. sl_locked (sleeplocks t (BufLk i)) = 0)"
  using assms(1)
proof (induction n)
  case 0
  then show ?case using assms(2) by simp
next
  case (Suc n)
  let ?t = "fold (\<lambda>b s. link_front b (initsleeplock (BufLk b) s)) [0..<n] s"
  have "lru_links (bnext (initsleeplock (BufLk n) ?t)) (bprev (initsleeplock (BufLk n) ?t)) (rev [0..<n])"
    using Suc by (simp add: Let_def)
  from link_front_links [OF this, of n] Suc show ?case by (auto simp: Let_def less_Suc_eq)
qed

lemma binit_inv:
  assumes "length (bufs s) = NBUF"
    and "\<forall>i < NBUF. b_valid (bufs s ! i) = False \<and> b_refcnt (bufs s ! i) = 0 \<and> b_dev (bufs s ! i) \<noteq> ROOTDEV"
  shows "bio_inv (binit s) \<and> bufs (binit s) = bufs s \<and> disk (binit s) = disk s \<and> cur (binit s) = cur s \<and>
    held (binit s) = held s \<and> procs (binit s) = procs s \<and> disk_writes (binit s) = disk_writes s \<and>
    (\<forall>i < NBUF. sl_locked (sleeplocks (binit s) (BufLk i)) = 0)"
proof -
  let ?s = "s\<lparr>bprev := (bprev s)(NBUF := NBUF), bnext := (bnext s)(NBUF := NBUF)\<rparr>"
  have "lru_links (bnext ?s) (bprev ?s) []" by (simp add: lru_links_def)
  from binit_fold [OF order_refl this]
  have t: "lru_links (bnext (binit s)) (bprev (binit s)) (rev [0..<NBUF])" "bufs (binit s) = bufs s"
    "disk (binit s) = disk s" "cur (binit s) = cur s" "held (binit s) = held s" "procs (binit s) = procs s"
    "disk_writes (binit s) = disk_writes s" "\<forall>i < NBUF. sl_locked (sleeplocks (binit s) (BufLk i)) = 0"
    unfolding binit_def Let_def by simp_all
  have "bio_inv (binit s)"
  proof (rule bio_invI)
    show "\<exists>xs. lru_links (bnext (binit s)) (bprev (binit s)) xs \<and> set xs = {..<NBUF}"
      by (rule exI [of _ "rev [0..<NBUF]"]) (use t(1) in \<open>auto simp: atLeast0LessThan\<close>)
  qed (use assms t in \<open>auto simp: caches_def\<close>)
  with t show ?thesis by simp
qed

definition bio_sample :: bcache where
  "bio_sample = binit (sltab.extend (sl_sample\<lparr>sleeplocks := (\<lambda>_. \<lparr>sl_locked = 0, sl_pid = 0\<rparr>)\<rparr>)
     (bcache.fields (replicate NBUF \<lparr>b_valid = False, b_disk = False, b_dev = 0, b_blockno = 0,
        b_refcnt = 0, b_data = (\<lambda>_. 0)\<rparr>) (\<lambda>_. 0) (\<lambda>_. 0) (\<lambda>_ _. 0) []))"

lemma bio_sample_cache: "cache bio_sample 0 Map.empty" and bio_sample_refs: "refs bio_sample n = 0"
proof -
  let ?s = "sltab.extend (sl_sample\<lparr>sleeplocks := (\<lambda>_. \<lparr>sl_locked = 0, sl_pid = 0\<rparr>)\<rparr>)
     (bcache.fields (replicate NBUF \<lparr>b_valid = False, b_disk = False, b_dev = 0, b_blockno = 0,
        b_refcnt = 0, b_data = (\<lambda>_. 0)\<rparr>) (\<lambda>_. 0) (\<lambda>_. 0) (\<lambda>_ _. 0) [])"
  have b: "bufs ?s = replicate NBUF \<lparr>b_valid = False, b_disk = False, b_dev = 0, b_blockno = 0,
        b_refcnt = 0, b_data = (\<lambda>_. 0)\<rparr>" and c: "cur ?s = Some 0" "held ?s = []" "length (procs ?s) = NPROC"
    by (simp_all add: sltab.defs bcache.defs sl_sample_def ptab.defs proc_sample_def vm_sample_def)
  have t: "bio_inv bio_sample" "bufs bio_sample = bufs ?s" "cur bio_sample = Some 0" "held bio_sample = []"
    "length (procs bio_sample) = NPROC" "\<forall>i < NBUF. sl_locked (sleeplocks bio_sample (BufLk i)) = 0"
    using binit_inv [of ?s] b c unfolding bio_sample_def by simp_all
  then show "cache bio_sample 0 Map.empty" by (simp add: cache_def calm_def)
  show "refs bio_sample n = 0"
    using holder_Some_iff [OF t(1), of n] t(2) b by (auto simp: refs_def caches_def split: option.split)
qed

lemma bio_write_read_witness:
  "\<exists>b t. bnd (bread ROOTDEV 7 bio_sample) (\<lambda>b s. bnd (bwrite b (set_data b (\<lambda>_ _. 1) s)) (\<lambda>_ s.
      bnd (brelse b s) (\<lambda>_ s. bread ROOTDEV 7 s))) = Done b t \<and> b_data (bufs t ! b) = (\<lambda>_. 1)"
  using bio_write_read [OF bio_sample_cache, of 7 "{7}" "\<lambda>_. 1"] by (auto simp: bio_sample_refs)

text \<open>The first \<open>k\<close> buffers in use: buffer \<open>i\<close> caches block \<open>i\<close>, all ones.\<close>

definition pinned_sample :: "nat \<Rightarrow> bcache" where
  "pinned_sample k = bio_sample\<lparr>bufs := map (\<lambda>i.
     if i < k then \<lparr>b_valid = True, b_disk = False, b_dev = ROOTDEV, b_blockno = of_nat i, b_refcnt = 1, b_data = (\<lambda>_. 1)\<rparr>
     else \<lparr>b_valid = False, b_disk = False, b_dev = 0, b_blockno = 0, b_refcnt = 0, b_data = (\<lambda>_. 0)\<rparr>) [0..<NBUF]\<rparr>"

lemma pinned_sample_caches:
  assumes "k \<le> NBUF"
  shows "caches (pinned_sample k) i n \<longleftrightarrow> i < k \<and> n = of_nat i"
  using assms by (cases "i < k") (auto simp: caches_def pinned_sample_def)

lemma small_nat_u32: "i < NBUF \<Longrightarrow> unat (of_nat i :: u32) = i"
  by (simp add: unat_of_nat)

lemma pinned_sample_cache:
  assumes k: "k \<le> NBUF"
  shows "cache (pinned_sample k) 0 Map.empty"
proof -
  have c: "cache bio_sample 0 Map.empty" by (rule bio_sample_cache)
  then have "bio_inv bio_sample" by (simp add: cache_def)
  from bio_invD(1) [OF this]
  have "\<exists>xs. lru_links (bnext (pinned_sample k)) (bprev (pinned_sample k)) xs \<and> set xs = {..<NBUF}"
    by (simp add: pinned_sample_def)
  then have "bio_inv (pinned_sample k)"
  proof (rule bio_invI)
    show "\<forall>i j n. caches (pinned_sample k) i n \<longrightarrow> caches (pinned_sample k) j n \<longrightarrow> i = j"
      using k small_nat_u32 unfolding pinned_sample_caches [OF k] by (metis less_le_trans)
    show "sl_locked (sleeplocks (pinned_sample k) (BufLk i)) = 0" if "i < NBUF" for i
      using that cacheD(6) [OF c] by (simp add: pinned_sample_def)
  qed (auto simp: pinned_sample_def split: if_splits)
  moreover have "sl_locked (sleeplocks (pinned_sample k) (BufLk i)) = 0" if "i < NBUF" for i
    using that cacheD(6) [OF c] by (simp add: pinned_sample_def)
  moreover have "calm (pinned_sample k) 0"
    using cacheD(2) [OF c] by (simp add: pinned_sample_def calm_def)
  ultimately show ?thesis by (simp add: cache_def)
qed

lemma pinned_sample_refs:
  assumes k: "k \<le> NBUF"
  shows "refs (pinned_sample k) n = (if unat n < k then 1 else 0)"
    and "i < k \<Longrightarrow> blk (pinned_sample k) (of_nat i) = (\<lambda>_. 1)"
proof -
  have inv: "bio_inv (pinned_sample k)" using pinned_sample_cache [OF k] by (simp add: cache_def)
  show "refs (pinned_sample k) n = (if unat n < k then 1 else 0)"
  proof (cases "unat n < k")
    case True
    then have "caches (pinned_sample k) (unat n) n" by (simp add: pinned_sample_caches [OF k])
    then show ?thesis using True k by (simp add: refs_cached [OF inv]) (simp add: pinned_sample_def)
  next
    case False
    then have "\<forall>i. \<not> caches (pinned_sample k) i n"
      using k by (auto simp: pinned_sample_caches [OF k] small_nat_u32)
    then show ?thesis using False by (simp add: refs_def holder_None_iff [THEN iffD2])
  qed
  assume "i < k"
  then have "caches (pinned_sample k) i (of_nat i)" by (simp add: pinned_sample_caches [OF k])
  then show "blk (pinned_sample k) (of_nat i) = (\<lambda>_. 1)"
    using \<open>i < k\<close> k blk_cached [OF inv, of i "of_nat i"] by (simp add: pinned_sample_def)
qed

lemma bread_no_buffers_witness: "bread ROOTDEV 500 (pinned_sample 30) = Panic ''bget: no buffers''"
proof (rule bread_no_buffers [of _ 0])
  show "bio_inv (pinned_sample 30)" "calm (pinned_sample 30) 0"
    using pinned_sample_cache [of 30] by (simp_all add: cache_def)
  show "\<forall>i. \<not> caches (pinned_sample 30) i 500"
  proof (intro allI notI)
    fix i assume "caches (pinned_sample 30) i 500"
    then have "i < 30" "(500 :: u32) = of_nat i" by (simp_all add: pinned_sample_caches)
    then show False using small_nat_u32 [of i] by simp
  qed
  show "\<forall>b < NBUF. b_refcnt (bufs (pinned_sample 30) ! b) \<noteq> 0" by (simp add: pinned_sample_def)
qed

end
