(* ===== verification/Kprintf.thy ===== *)
theory Kprintf
  imports Xv6_Prelude
begin

section \<open>printf.c: formatted output on the console\<close>

text \<open>
  The text that \<open>printf\<close> sends to \<open>consputc\<close>, one conversion at a time. Arguments are \<open>varg\<close>s: a
  64-bit register, or a string pointer (\<open>None\<close> for a null pointer). \<open>None\<close> as a result stands for a
  call whose arguments do not fit the format, which C leaves undefined. \<open>panic\<close> prints with the flag
  \<open>panicking\<close> set and never returns; it is the outcome \<open>Panic\<close>, so the flag is clear in every call here.
\<close>

datatype varg = VReg u64 | VStr "string option"

definition digit :: "nat \<Rightarrow> char" where
  "digit d = ''0123456789abcdef'' ! d"

text \<open>The \<open>do while\<close> loop of \<open>printint\<close>, least significant digit first; the bases are 10 and 16.\<close>

function rev_digits :: "nat \<Rightarrow> nat \<Rightarrow> string" where
  "rev_digits base x = digit (x mod base) #
     (if x div base = 0 \<or> base < 2 then [] else rev_digits base (x div base))"
  by auto
termination
proof (relation "measure snd")
  show "((base, x div base), (base, x)) \<in> measure snd" if "\<not> (x div base = 0 \<or> base < 2)" for base x :: nat
    using that by (cases "x = 0") (auto intro: div_less_dividend)
qed simp

declare rev_digits.simps [simp del]

text \<open>The contents of \<open>buf\<close> when the loops have filled it.\<close>

definition printint_buf :: "u64 \<Rightarrow> nat \<Rightarrow> bool \<Rightarrow> string" where
  "printint_buf xx base sign =
     (let neg = sign \<and> sint xx < 0; x = (if neg then - xx else xx)
      in rev_digits base (unat x) @ (if neg then ''-'' else []))"

definition printint :: "u64 \<Rightarrow> nat \<Rightarrow> bool \<Rightarrow> string" where
  "printint xx base sign = rev (printint_buf xx base sign)"

definition printptr :: "u64 \<Rightarrow> string" where
  "printptr x = ''0x'' @ map (\<lambda>i. digit (unat (drop_bit 60 (push_bit (4 * i) x)))) [0..<16]"

definition int_arg :: "u64 \<Rightarrow> u64" where
  "int_arg w = scast (ucast w :: u32)"

definition uint_arg :: "u64 \<Rightarrow> u64" where
  "uint_arg w = ucast (ucast w :: u32)"

text \<open>A conversion that takes a register argument, and the rest of the format string after it.\<close>

definition reg_conv :: "string \<Rightarrow> ((u64 \<Rightarrow> string) \<times> string) option" where
  "reg_conv cs = (case cs of
     CHR ''d'' # r \<Rightarrow> Some (\<lambda>w. printint (int_arg w) 10 True, r)
   | CHR ''l'' # CHR ''d'' # r \<Rightarrow> Some (\<lambda>w. printint w 10 True, r)
   | CHR ''l'' # CHR ''l'' # CHR ''d'' # r \<Rightarrow> Some (\<lambda>w. printint w 10 True, r)
   | CHR ''u'' # r \<Rightarrow> Some (\<lambda>w. printint (uint_arg w) 10 False, r)
   | CHR ''l'' # CHR ''u'' # r \<Rightarrow> Some (\<lambda>w. printint w 10 False, r)
   | CHR ''l'' # CHR ''l'' # CHR ''u'' # r \<Rightarrow> Some (\<lambda>w. printint w 10 False, r)
   | CHR ''x'' # r \<Rightarrow> Some (\<lambda>w. printint (uint_arg w) 16 False, r)
   | CHR ''l'' # CHR ''x'' # r \<Rightarrow> Some (\<lambda>w. printint w 16 False, r)
   | CHR ''l'' # CHR ''l'' # CHR ''x'' # r \<Rightarrow> Some (\<lambda>w. printint w 16 False, r)
   | CHR ''p'' # r \<Rightarrow> Some (printptr, r)
   | CHR ''c'' # r \<Rightarrow> Some (\<lambda>w. [char_of (unat (ucast w :: u8))], r)
   | _ \<Rightarrow> None)"

lemma reg_conv_shorter: "reg_conv cs = Some (f, r) \<Longrightarrow> length r < length cs"
  by (auto simp: reg_conv_def split: list.splits if_splits char.splits bool.splits)

function (sequential) printf_text :: "string \<Rightarrow> varg list \<Rightarrow> string option" where
  "printf_text [] args = Some []"
| "printf_text (CHR ''%'' # cs) args =
     (case reg_conv cs of
        Some (f, r) \<Rightarrow>
          (case args of VReg w # as \<Rightarrow> map_option (\<lambda>t. f w @ t) (printf_text r as) | _ \<Rightarrow> None)
      | None \<Rightarrow>
          (case cs of
             [] \<Rightarrow> Some []
           | c # r \<Rightarrow>
               if c = CHR ''s'' then
                 (case args of
                    VStr s # as \<Rightarrow> map_option (\<lambda>t. (case s of None \<Rightarrow> ''(null)'' | Some s \<Rightarrow> s) @ t) (printf_text r as)
                  | _ \<Rightarrow> None)
               else if c = CHR ''%'' then map_option (\<lambda>t. CHR ''%'' # t) (printf_text r args)
               else map_option (\<lambda>t. CHR ''%'' # c # t) (printf_text r args)))"
| "printf_text (c # cs) args = map_option (\<lambda>t. c # t) (printf_text cs args)"
  by pat_completeness auto
termination
  by (relation "measure (\<lambda>(cs, _). length cs)") (auto dest: reg_conv_shorter)

definition kprintf :: "string \<Rightarrow> varg list \<Rightarrow> 'z kbase_scheme \<Rightarrow> ('z kbase_scheme, unit) outcome" where
  "kprintf fmt args s =
     bnd (acquire PrLock s) (\<lambda>_ s.
       case printf_text fmt args of
         None \<Rightarrow> Hang
       | Some t \<Rightarrow> release PrLock (kputs t s))"


subsection \<open>What is printed\<close>

lemma kprintf_eq:
  "PrLock \<notin> set (held s) \<Longrightarrow> printf_text fmt args = Some t \<Longrightarrow> kprintf fmt args s = Done () (kputs t s)"
  by (simp add: kprintf_def acquire_def release_def kputs_def)

text \<open>Reading digits back, as a reader of the console would.\<close>

definition digit_val :: "char \<Rightarrow> nat" where
  "digit_val c = (if of_char c < (97 :: nat) then of_char c - 48 else of_char c - 87)"

definition read_nat :: "nat \<Rightarrow> string \<Rightarrow> nat" where
  "read_nat base cs = foldl (\<lambda>a c. a * base + digit_val c) 0 cs"

definition read_int :: "nat \<Rightarrow> string \<Rightarrow> int" where
  "read_int base cs = (case cs of CHR ''-'' # r \<Rightarrow> - int (read_nat base r) | _ \<Rightarrow> int (read_nat base cs))"

lemma digit_val_digit: "d < 16 \<Longrightarrow> digit_val (digit d) = d \<and> digit d \<noteq> CHR ''-''"
proof -
  assume "d < 16"
  moreover have "\<forall>d \<in> set [0..<16]. digit_val (digit d) = d \<and> digit d \<noteq> CHR ''-''"
    by code_simp
  ultimately show ?thesis by simp
qed

lemma read_rev_digits:
  "2 \<le> base \<Longrightarrow> base \<le> 16 \<Longrightarrow> read_nat base (rev (rev_digits base x)) = x"
proof (induction base x rule: rev_digits.induct)
  case (1 base x)
  show ?case
  proof (cases "x div base = 0")
    case True
    then have "x mod base = x" using 1(2) by (simp add: div_eq_0_iff)
    moreover have "x < 16" using True 1(2,3) by (auto simp: div_eq_0_iff)
    ultimately show ?thesis using True
      by (subst rev_digits.simps) (simp add: read_nat_def digit_val_digit)
  next
    case False
    then have "read_nat base (rev (rev_digits base (x div base))) = x div base"
      using 1 by simp
    moreover have "x mod base < 16" using 1(2,3) mod_less_divisor [of base x] by linarith
    ultimately show ?thesis using False 1(2)
      by (subst rev_digits.simps) (simp add: read_nat_def digit_val_digit)
  qed
qed

lemma rev_digits_chars: "2 \<le> base \<Longrightarrow> base \<le> 16 \<Longrightarrow> CHR ''-'' \<notin> set (rev_digits base x)"
proof (induction base x rule: rev_digits.induct)
  case (1 base x)
  have "x mod base < 16" using 1(2,3) mod_less_divisor [of base x] by linarith
  then have "CHR ''-'' \<noteq> digit (x mod base)" using digit_val_digit by metis
  then show ?case using 1 by (subst rev_digits.simps) simp
qed

lemma rev_digits_length:
  "2 \<le> base \<Longrightarrow> x < base ^ k \<Longrightarrow> 0 < k \<Longrightarrow> length (rev_digits base x) \<le> k"
proof (induction base x arbitrary: k rule: rev_digits.induct)
  case (1 base x)
  show ?case
  proof (cases "x div base = 0")
    case True
    then show ?thesis using 1(4) by (subst rev_digits.simps) simp
  next
    case False
    obtain j where k: "k = Suc j" using 1(4) by (cases k) auto
    have "x div base < base ^ j" using 1(2,3) k by (simp add: less_mult_imp_div_less mult.commute)
    moreover have "0 < j" using False calculation by (cases j) auto
    ultimately have "length (rev_digits base (x div base)) \<le> j" using 1(1,2) False by auto
    then show ?thesis using k by (subst rev_digits.simps) simp
  qed
qed

text \<open>The magnitude that \<open>printint\<close> prints.\<close>

lemma unat_neg_word: "sint (xx :: u64) < 0 \<Longrightarrow> unat (- xx) = nat (- sint xx)"
proof -
  assume n: "sint xx < 0"
  have "int (unat (- xx)) = (- uint xx) mod 2 ^ 64" by (simp add: uint_word_ariths)
  also have "\<dots> = (- sint xx) mod 2 ^ 64" by (simp add: sint_uint signed_take_bit_eq_take_bit_minus)
    (simp add: take_bit_eq_mod mod_minus_eq)
  also have "\<dots> = - sint xx" using n sint_ge [of xx] by (intro mod_pos_pos_trivial) simp_all
  finally show ?thesis by linarith
qed


text \<open>
  C32: the numbers of \<open>printf\<close> read back. What \<open>printint\<close> sends for a signed conversion is the signed
  value of the argument in that base, also for the least negative number, whose negation overflows in C
  and wraps; for an unsigned conversion it is the unsigned value.
\<close>
theorem printint_reads_back:
  assumes "2 \<le> base" and "base \<le> 16"
  shows "read_int base (printint xx base True) = sint xx \<and>
    read_int base (printint xx base False) = uint xx"
proof -
  have no_minus: "read_int base (rev (rev_digits base n)) = int n" for n
  proof -
    have "CHR ''-'' \<notin> set (rev (rev_digits base n))" using rev_digits_chars [OF assms] by simp
    then have "read_int base (rev (rev_digits base n)) = int (read_nat base (rev (rev_digits base n)))"
      by (cases "rev (rev_digits base n)") (auto simp: read_int_def split: char.splits bool.splits)
    then show ?thesis by (simp add: read_rev_digits [OF assms])
  qed
  have "read_int base (printint xx base True) = sint xx"
  proof (cases "sint xx < 0")
    case True
    then show ?thesis
      by (simp add: printint_def printint_buf_def Let_def read_int_def read_rev_digits [OF assms] unat_neg_word)
  next
    case False
    then have "uint xx = sint xx"
      using sint_lt [of xx] by (simp add: uint_sint take_bit_int_eq_self)
    then show ?thesis using False no_minus by (simp add: printint_def printint_buf_def Let_def)
  qed
  then show ?thesis using no_minus by (simp add: printint_def printint_buf_def)
qed

lemma printint_reads_back_witness:
  "read_int 10 (printint (-42) 10 True) = -42 \<and> read_int 16 (printint 0xBEEF 16 False) = 0xBEEF"
  using printint_reads_back [of 10 "-42"] printint_reads_back [of 16 "0xBEEF"] by simp

text \<open>
  The buffer of \<open>printint\<close> is large enough: for every 64-bit argument, in base 10 and in base 16,
  signed or not, the loops store at most 20 characters, the size of \<open>buf\<close>.
\<close>
lemma printint_fits_buffer:
  "length (printint_buf xx 10 sign) \<le> 20 \<and> length (printint_buf xx 16 sign) \<le> 20"
proof -
  have x: "unat x < 2 ^ 64" for x :: u64 using unsigned_less [of x, where 'a = nat] by simp
  have "unat x < 10 ^ 20" for x :: u64 by (rule less_trans [OF x]) simp
  then have ten: "length (rev_digits 10 (unat x)) \<le> 20" for x :: u64 by (rule_tac rev_digits_length) simp_all
  have "unat x < 16 ^ 16" for x :: u64 using x [of x] by simp
  then have "length (rev_digits 16 (unat x)) \<le> 16" for x :: u64 by (rule_tac rev_digits_length) simp_all
  moreover from this have "length (rev_digits 16 (unat x)) \<le> 20" for x :: u64 by (rule le_trans) simp
  moreover have "length (rev_digits 10 (unat (- xx))) \<le> 19" if "sint xx < 0"
    using that sint_ge [of xx] by (intro rev_digits_length) (simp_all add: unat_neg_word)
  moreover from calculation(1) [of "- xx"] have "length (rev_digits 16 (unat (- xx))) \<le> 19" by linarith
  ultimately show ?thesis using ten by (simp add: printint_buf_def Let_def)
qed

end
