(* ===== verification/Block.thy ===== *)
theory Block
  imports Memory
begin

section \<open>C objects inside a disk block\<close>

text \<open>
  Reading and writing the 16- and 32-bit fields of the structures a block holds (the log header, the
  inodes, directory entries, indirect blocks): little-endian, at a byte offset.
\<close>

definition ld16 :: "block \<Rightarrow> nat \<Rightarrow> u16" where
  "ld16 d off = of_le (load_bytes d off 2)"

definition st16 :: "nat \<Rightarrow> u16 \<Rightarrow> block \<Rightarrow> block" where
  "st16 off v d = store_bytes off (le_bytes 2 v) d"

definition ld32 :: "block \<Rightarrow> nat \<Rightarrow> u32" where
  "ld32 d off = of_le (load_bytes d off 4)"

definition st32 :: "nat \<Rightarrow> u32 \<Rightarrow> block \<Rightarrow> block" where
  "st32 off v d = store_bytes off (le_bytes 4 v) d"

lemma ld32_st32 [simp]: "ld32 (st32 off v d) off = v"
  by (simp add: ld32_def st32_def of_le_le_bytes)

lemma ld16_st16 [simp]: "ld16 (st16 off v d) off = v"
  by (simp add: ld16_def st16_def of_le_le_bytes)

lemma ld32_st32_other: "off + 4 \<le> o' \<or> o' + 4 \<le> off \<Longrightarrow> ld32 (st32 off v d) o' = ld32 d o'"
  unfolding ld32_def st32_def by (subst load_store_other_nat) auto

lemma ld16_st16_other: "off + 2 \<le> o' \<or> o' + 2 \<le> off \<Longrightarrow> ld16 (st16 off v d) o' = ld16 d o'"
  unfolding ld16_def st16_def by (subst load_store_other_nat) auto

lemma ld16_st32_other: "off + 4 \<le> o' \<or> o' + 2 \<le> off \<Longrightarrow> ld16 (st32 off v d) o' = ld16 d o'"
  unfolding ld16_def st32_def by (subst load_store_other_nat) auto

lemma ld32_st16_other: "off + 2 \<le> o' \<or> o' + 4 \<le> off \<Longrightarrow> ld32 (st16 off v d) o' = ld32 d o'"
  unfolding ld32_def st16_def by (subst load_store_other_nat) auto

end
