(* ===== verification/Log.thy ===== *)
theory Log
  imports Bio Kprintf Block
begin

section \<open>log.c: the write-ahead log\<close>

text \<open>
  \<open>lh_n\<close> and \<open>lh_block\<close> are the header in memory. On disk the header is the block \<open>log_start\<close> (the
  count at offset 0, block number \<open>i\<close> at \<open>4 + 4 i\<close>) and the copies follow it. \<open>begin_op\<close> is one
  evaluation of its loop; a process that waits is asleep on \<open>log\<close> and evaluates the loop again
  (\<open>begin_op_resume\<close>). A header on disk with more than \<open>LOGBLOCKS\<close> entries would be read past the end of
  \<open>log.lh.block\<close>; C leaves that undefined and \<open>read_head\<close> has no result for it (\<open>Hang\<close>).
\<close>

record logst = bcache +
  log_start :: u32
  log_outstanding :: int
  log_committing :: bool
  log_dev :: u32
  lh_n :: int
  lh_block :: "u32 list"

abbreviation LOGBLOCKS :: nat where "LOGBLOCKS \<equiv> 30"
abbreviation MAXOPBLOCKS :: nat where "MAXOPBLOCKS \<equiv> 10"

abbreviation hdr_entry :: "nat \<Rightarrow> nat" where "hdr_entry i \<equiv> 4 + 4 * i"

definition install_one :: "bool \<Rightarrow> nat \<Rightarrow> 'z logst_scheme \<Rightarrow> ('z logst_scheme, unit) outcome" where
  "install_one recovering tail s =
     bnd (if recovering then kprintf (''recovering tail %d dst %d'' @ [CHR 0x0A])
            [VReg (of_nat tail), VReg (ucast (lh_block s ! tail))] s else Done () s) (\<lambda>_ s.
     bnd (bread (log_dev s) (log_start s + of_nat tail + 1) s) (\<lambda>lbuf s.
     bnd (bread (log_dev s) (lh_block s ! tail) s) (\<lambda>dbuf s.
     bnd (bwrite dbuf (set_data dbuf (\<lambda>_. b_data (bufs s ! lbuf)) s)) (\<lambda>_ s.
     bnd (if \<not> recovering then bunpin dbuf s else Done () s) (\<lambda>_ s.
     bnd (brelse lbuf s) (\<lambda>_ s. brelse dbuf s))))))"

definition install_trans :: "bool \<Rightarrow> 'z logst_scheme \<Rightarrow> ('z logst_scheme, unit) outcome" where
  "install_trans recovering s = loop_all (install_one recovering) [0..<nat (lh_n s)] s"

definition read_head :: "'z logst_scheme \<Rightarrow> ('z logst_scheme, unit) outcome" where
  "read_head s =
     bnd (bread (log_dev s) (log_start s) s) (\<lambda>b s.
       let d = b_data (bufs s ! b); s = s\<lparr>lh_n := sint (ld32 d 0)\<rparr> in
       if int LOGBLOCKS < lh_n s then Hang
       else brelse b (fold (\<lambda>i s. s\<lparr>lh_block := (lh_block s)[i := ld32 d (hdr_entry i)]\<rparr>) [0..<nat (lh_n s)] s))"

text \<open>The data of the header block after \<open>hb->n = n\<close> and the loop.\<close>

definition put_head :: "int \<Rightarrow> u32 list \<Rightarrow> block \<Rightarrow> block" where
  "put_head n bs d = fold (\<lambda>i. st32 (hdr_entry i) (bs ! i)) [0..<nat n] (st32 0 (word_of_int n) d)"

definition write_head :: "'z logst_scheme \<Rightarrow> ('z logst_scheme, unit) outcome" where
  "write_head s =
     bnd (bread (log_dev s) (log_start s) s) (\<lambda>b s.
     bnd (bwrite b (set_data b (put_head (lh_n s) (lh_block s)) s)) (\<lambda>_ s. brelse b s))"

definition recover_from_log :: "'z logst_scheme \<Rightarrow> ('z logst_scheme, unit) outcome" where
  "recover_from_log s =
     bnd (read_head s) (\<lambda>_ s. bnd (install_trans True s) (\<lambda>_ s. write_head (s\<lparr>lh_n := 0\<rparr>)))"

text \<open>\<open>sizeof(struct logheader)\<close> is 124, less than \<open>BSIZE\<close>.\<close>

definition initlog :: "u32 \<Rightarrow> u32 \<Rightarrow> 'z logst_scheme \<Rightarrow> ('z logst_scheme, unit) outcome" where
  "initlog dev logstart s =
     (if BSIZE \<le> 4 + 4 * LOGBLOCKS then Panic ''initlog: too big logheader''
      else recover_from_log (s\<lparr>log_start := logstart, log_dev := dev\<rparr>))"

definition begin_op_turn :: "'z logst_scheme \<Rightarrow> ('z logst_scheme, unit) outcome" where
  "begin_op_turn s =
     (if log_committing s then sleep (Some ChLog) LogLock s
      else if int LOGBLOCKS < lh_n s + (log_outstanding s + 1) * int MAXOPBLOCKS
      then sleep (Some ChLog) LogLock s
      else release LogLock (s\<lparr>log_outstanding := log_outstanding s + 1\<rparr>))"

definition begin_op :: "'z logst_scheme \<Rightarrow> ('z logst_scheme, unit) outcome" where
  "begin_op s = bnd (acquire LogLock s) (\<lambda>_ s. begin_op_turn s)"

definition begin_op_resume :: "'z logst_scheme \<Rightarrow> ('z logst_scheme, unit) outcome" where
  "begin_op_resume s = bnd (sleep_resume LogLock s) (\<lambda>_ s. begin_op_turn s)"

definition write_one :: "nat \<Rightarrow> 'z logst_scheme \<Rightarrow> ('z logst_scheme, unit) outcome" where
  "write_one tail s =
     bnd (bread (log_dev s) (log_start s + of_nat tail + 1) s) (\<lambda>to s.
     bnd (bread (log_dev s) (lh_block s ! tail) s) (\<lambda>from s.
     bnd (bwrite to (set_data to (\<lambda>_. b_data (bufs s ! from)) s)) (\<lambda>_ s.
     bnd (brelse from s) (\<lambda>_ s. brelse to s))))"

definition write_log :: "'z logst_scheme \<Rightarrow> ('z logst_scheme, unit) outcome" where
  "write_log s = loop_all write_one [0..<nat (lh_n s)] s"

definition commit :: "'z logst_scheme \<Rightarrow> ('z logst_scheme, unit) outcome" where
  "commit s =
     (if 0 < lh_n s then
        bnd (write_log s) (\<lambda>_ s.
        bnd (write_head s) (\<lambda>_ s.
        bnd (install_trans False s) (\<lambda>_ s. write_head (s\<lparr>lh_n := 0\<rparr>))))
      else Done () s)"

definition end_op :: "'z logst_scheme \<Rightarrow> ('z logst_scheme, unit) outcome" where
  "end_op s =
     bnd (acquire LogLock s) (\<lambda>_ s.
       let s = s\<lparr>log_outstanding := log_outstanding s - 1\<rparr> in
       if log_committing s then Panic ''log.committing''
       else
         bnd (if log_outstanding s = 0 then Done True (s\<lparr>log_committing := True\<rparr>)
              else bnd (wakeup (Some ChLog) s) (\<lambda>_ s. Done False s)) (\<lambda>do_commit s.
         bnd (release LogLock s) (\<lambda>_ s.
           if do_commit then
             bnd (commit s) (\<lambda>_ s.
             bnd (acquire LogLock s) (\<lambda>_ s.
             bnd (wakeup (Some ChLog) (s\<lparr>log_committing := False\<rparr>)) (\<lambda>_ s. release LogLock s)))
           else Done () s)))"

definition log_write :: "nat \<Rightarrow> 'z logst_scheme \<Rightarrow> ('z logst_scheme, unit) outcome" where
  "log_write b s =
     bnd (acquire LogLock s) (\<lambda>_ s.
       if int LOGBLOCKS \<le> lh_n s then Panic ''too big a transaction''
       else if log_outstanding s < 1 then Panic ''log_write outside of trans''
       else
         let n = nat (lh_n s); blockno = b_blockno (bufs s ! b);
             i = (case first_idx (\<lambda>x. x = blockno) (take n (lh_block s)) of Some i \<Rightarrow> i | None \<Rightarrow> n);
             s = s\<lparr>lh_block := (lh_block s)[i := blockno]\<rparr>
         in bnd (if i = n then bnd (bpin b s) (\<lambda>_ s. Done () (s\<lparr>lh_n := lh_n s + 1\<rparr>)) else Done () s)
              (\<lambda>_ s. release LogLock s))"


subsection \<open>The header block\<close>

lemma fold_st32_other:
  "n = 0 \<or> o' + 4 \<le> hdr_entry 0 \<or> hdr_entry n \<le> o' \<Longrightarrow>
     ld32 (fold (\<lambda>i. st32 (hdr_entry i) (bs ! i)) [0..<n] d) o' = ld32 d o'"
  by (induction n) (auto simp: ld32_st32_other)

lemma fold_st32_entry:
  "i < n \<Longrightarrow> ld32 (fold (\<lambda>i. st32 (hdr_entry i) (bs ! i)) [0..<n] d) (hdr_entry i) = bs ! i"
  by (induction n) (auto simp: ld32_st32_other less_Suc_eq)

lemma ld32_put_head_count: "ld32 (put_head n bs d) 0 = word_of_int n"
  unfolding put_head_def by (subst fold_st32_other) auto

lemma ld32_put_head_entry: "i < nat n \<Longrightarrow> ld32 (put_head n bs d) (hdr_entry i) = bs ! i"
  unfolding put_head_def by (rule fold_st32_entry)

subsection \<open>Sequences of disk writes\<close>

definition apply_writes :: "(u32 \<times> block) list \<Rightarrow> (u32 \<Rightarrow> block) \<Rightarrow> u32 \<Rightarrow> block" where
  "apply_writes ws d = fold (\<lambda>(n, v) d. d(n := v)) ws d"

lemma apply_writes_simps [simp]:
  "apply_writes [] d = d" "apply_writes (ws @ vs) d = apply_writes vs (apply_writes ws d)"
  "apply_writes ((n, v) # ws) d = apply_writes ws (d(n := v))"
  by (simp_all add: apply_writes_def)

lemma apply_writes_other: "m \<notin> fst ` set ws \<Longrightarrow> apply_writes ws d m = d m"
  by (induction ws arbitrary: d) auto

lemma apply_writes_upt:
  assumes "inj_on f {..<n}" and "i < n"
  shows "apply_writes (map (\<lambda>i. (f i, g i)) [0..<n]) d (f i) = g i"
  using assms
proof (induction n)
  case (Suc n)
  show ?case
  proof (cases "i = n")
    case False
    then have "f i \<noteq> f n" using Suc.prems by (auto dest: inj_onD [of _ _ i n])
    moreover have "inj_on f {..<n}" using Suc.prems(1) by (rule inj_on_subset) auto
    ultimately show ?thesis using Suc False by simp
  qed simp
qed simp

subsection \<open>What the buffer cache leaves alone\<close>

definition same_log :: "'z logst_scheme \<Rightarrow> 'z logst_scheme \<Rightarrow> bool" where
  "same_log s t \<longleftrightarrow> bcache.more t = bcache.more s"

lemma same_log_simps:
  assumes "same_log s t"
  shows "log_start t = log_start s" and "log_outstanding t = log_outstanding s"
    and "log_committing t = log_committing s" and "log_dev t = log_dev s" and "lh_n t = lh_n s"
    and "lh_block t = lh_block s" and "logst.more t = logst.more s"
  using assms by (cases s; cases t; simp add: same_log_def)+

lemma same_log_refl [simp]: "same_log s s"
  by (simp add: same_log_def)

lemma same_log_trans: "same_log s t \<Longrightarrow> same_log t u \<Longrightarrow> same_log s u"
  by (simp add: same_log_def)

lemma only_bio_same_log: "only_bio s t \<Longrightarrow> same_log s t"
  by (simp add: same_log_def only_bio_more)

lemma kputs_frame [simp]:
  "cache (kputs cs s) p H = cache s p H" "blk (kputs cs s) = blk s" "refs (kputs cs s) = refs s"
  "disk (kputs cs s) = disk s" "disk_writes (kputs cs s) = disk_writes s" "same_log s (kputs cs (s :: 'z logst_scheme))"
  by (simp_all add: kputs_def cache_def bio_inv_def caches_def calm_def holds_sleep_def same_log_def
      blk_def holder_def refs_def fun_eq_iff split: option.split)

text \<open>The effect of an operation on the cache: the process holds no buffer before and after.\<close>

definition log_effect ::
  "nat \<Rightarrow> 'z logst_scheme \<Rightarrow> (u32 \<times> block) list \<Rightarrow> (u32 \<Rightarrow> nat) \<Rightarrow> 'z logst_scheme \<Rightarrow> bool" where
  "log_effect p s ws r t \<longleftrightarrow> cache t p Map.empty \<and> blk t = apply_writes ws (blk s) \<and> refs t = r \<and>
     disk t = apply_writes ws (disk s) \<and> disk_writes t = disk_writes s @ ws \<and> same_log s t"

lemma log_effect_trans:
  "log_effect p s ws q t \<Longrightarrow> log_effect p t vs r u \<Longrightarrow> log_effect p s (ws @ vs) r u"
  by (auto simp: log_effect_def intro: same_log_trans)

text \<open>References are few: at most \<open>k\<close> blocks besides those of \<open>A\<close> fit into the cache.\<close>

definition room :: "'z logst_scheme \<Rightarrow> u32 set \<Rightarrow> nat \<Rightarrow> bool" where
  "room s A k \<longleftrightarrow> finite A \<and> {m. 0 < refs s m} \<subseteq> A \<and> card A + k \<le> NBUF \<and> (\<forall>m. refs s m < 2 ^ 32 - 1)"


subsection \<open>One block copied to the log, one block installed, the header written\<close>

lemma room_insert:
  "room s A (Suc k) \<Longrightarrow> finite (insert n A) \<and> {m. 0 < refs s m} \<subseteq> insert n A \<and> card (insert n A) \<le> NBUF - k \<and>
     refs s n < 2 ^ 32 - 1"
  by (auto simp: room_def card_insert_if)

lemma bio_effect:
  assumes "cache t p Map.empty" and "blk t = apply_writes ws (blk s)" and "refs t = r"
    and "disk t = apply_writes ws (disk s)" and "disk_writes t = disk_writes s @ ws" and "same_log s t"
  shows "log_effect p s ws r t"
  using assms by (simp add: log_effect_def)

lemma write_one_law:
  assumes c: "cache s p Map.empty" and dev: "log_dev s = ROOTDEV" and r: "room s A 1"
    and n: "n = lh_block s ! tail" "n \<in> A" "0 < refs s n" and lg: "lg = log_start s + of_nat tail + 1" "lg \<noteq> n"
  shows "\<exists>t. write_one tail s = Done () t \<and> log_effect p s [(lg, blk s n)] (refs s) t"
proof -
  note A = room_insert [OF r [unfolded One_nat_def], of lg]
  have nr: "refs s n < 2 ^ 32 - 1" using r by (simp add: room_def)
  obtain a u b t where u: "bread ROOTDEV lg s = Done a u" "only_bio s u" "bread ROOTDEV n u = Done b t"
    and ab: "a \<noteq> b" and tc: "cache t p [a \<mapsto> lg, b \<mapsto> n]" and tb: "blk t = blk s" "disk t = disk s"
    "disk_writes t = disk_writes s" "only_bio s t"
    and tr: "refs t = (refs s)(lg := refs s lg + 1, n := refs s n + 1)"
    using bc.read_two [OF c _ _ lg(2), of "insert lg A"] A nr n(2) by auto
  obtain v where v: "bwrite a (set_data a (\<lambda>_. b_data (bufs t ! b)) t) = Done () v" "cache v p [a \<mapsto> lg, b \<mapsto> n]"
    "blk v = (blk t)(lg := blk t n)" "refs v = refs t" "disk v = (disk t)(lg := blk t n)"
    "disk_writes v = disk_writes t @ [(lg, blk t n)]" "only_bio t v"
    using bc.copy_write [OF tc, of b n a lg] ab lg(2) by auto
  obtain w where w: "bnd (brelse b v) (\<lambda>_ s. brelse a s) = Done () w" "cache w p Map.empty" "blk w = blk v"
    "refs w = (refs v)(n := refs v n - 1, lg := refs v lg - 1)" "disk w = disk v" "disk_writes w = disk_writes v"
    "only_bio v w"
    using bc.release_two [OF v(2), of b n a lg] ab lg(2) n(3) v tr by (auto simp: fun_upd_twist)
  have "refs w = refs s" using w(4) v(4) tr lg(2) by (auto simp: fun_eq_iff)
  moreover have "same_log s w" using tb(4) v(7) w(7) by (blast intro: only_bio_same_log only_bio_trans)
  ultimately have "log_effect p s [(lg, blk s n)] (refs s) w"
    using w v tb by (intro bio_effect) simp_all
  moreover have "write_one tail s = Done () w"
    using u v(1) w(1) dev same_log_simps [OF only_bio_same_log [OF u(2)]] by (simp add: write_one_def n lg)
  ultimately show ?thesis by blast
qed


text \<open>The copy of \<open>install_trans\<close>, after the message.\<close>

lemma install_copy:
  assumes c: "cache s p Map.empty" and r: "room s A 1"
    and n: "n \<in> A" "\<not> recovering \<Longrightarrow> 0 < refs s n" and lg: "lg \<noteq> n" "blk s lg = disk s lg"
  shows "\<exists>a u b t v x y. bread ROOTDEV lg s = Done a u \<and> only_bio s u \<and> bread ROOTDEV n u = Done b t \<and>
    bwrite b (set_data b (\<lambda>_. b_data (bufs t ! a)) t) = Done () v \<and>
    (if \<not> recovering then bunpin b v else Done () v) = Done () x \<and>
    bnd (brelse a x) (\<lambda>_ s. brelse b s) = Done () y \<and>
    log_effect p s [(n, blk s lg)] (if recovering then refs s else (refs s)(n := refs s n - 1)) y"
proof -
  note A = room_insert [OF r [unfolded One_nat_def], of lg]
  have nr: "refs s n < 2 ^ 32 - 1" using r by (simp add: room_def)
  obtain a u b t where u: "bread ROOTDEV lg s = Done a u" "only_bio s u" "bread ROOTDEV n u = Done b t"
    and ab: "a \<noteq> b" and tc: "cache t p [a \<mapsto> lg, b \<mapsto> n]" and tb: "blk t = blk s" "disk t = disk s"
    "disk_writes t = disk_writes s" "only_bio s t"
    and tr: "refs t = (refs s)(lg := refs s lg + 1, n := refs s n + 1)"
    using bc.read_two [OF c _ _ lg(1), of "insert lg A"] A nr n(1) by auto
  obtain v where v: "bwrite b (set_data b (\<lambda>_. b_data (bufs t ! a)) t) = Done () v" "cache v p [a \<mapsto> lg, b \<mapsto> n]"
    "blk v = (blk t)(n := blk t lg)" "refs v = refs t" "disk v = (disk t)(n := blk t lg)"
    "disk_writes v = disk_writes t @ [(n, blk t lg)]" "only_bio t v"
    using bc.copy_write [OF tc, of a lg b n] ab lg(1) by auto
  obtain x where x: "(if \<not> recovering then bunpin b v else Done () v) = Done () x" "cache x p [a \<mapsto> lg, b \<mapsto> n]"
    "blk x = blk v" "refs x = (if recovering then refs v else (refs v)(n := refs v n - 1))"
    "disk x = disk v" "disk_writes x = disk_writes v" "only_bio v x"
  proof (cases recovering)
    case False
    then have "2 \<le> refs v n" using n(2) v(4) tr by simp
    from bunpin_law [OF v(2) _ this, of b] False that show ?thesis by auto
  qed (use v that in simp)
  have clean: "blk x lg = disk x lg" "blk x n = disk x n" using x v tb lg by simp_all
  obtain w where w: "bnd (brelse a x) (\<lambda>_ s. brelse b s) = Done () w" "cache w p Map.empty" "blk w = blk x"
    "refs w = (refs x)(lg := refs x lg - 1, n := refs x n - 1)" "disk w = disk x" "disk_writes w = disk_writes x"
    "only_bio x w"
    using bc.release_two [OF x(2), of a lg b n] ab lg(1) clean by (auto simp: fun_upd_twist)
  have "refs w = (if recovering then refs s else (refs s)(n := refs s n - 1))"
    using w(4) x(4) v(4) tr lg(1) by (auto simp: fun_eq_iff)
  moreover have "same_log s w" using tb(4) v(7) x(7) w(7) by (blast intro: only_bio_same_log only_bio_trans)
  ultimately have "log_effect p s [(n, blk s lg)] (if recovering then refs s else (refs s)(n := refs s n - 1)) w"
    using w v x tb by (intro bio_effect) simp_all
  with u v(1) x(1) w(1) show ?thesis by blast
qed

lemma install_one_law:
  assumes c: "cache s p Map.empty" and dev: "log_dev s = ROOTDEV" and r: "room s A 1"
    and n: "n = lh_block s ! tail" "n \<in> A" "\<not> recovering \<Longrightarrow> 0 < refs s n"
    and lg: "lg = log_start s + of_nat tail + 1" "lg \<noteq> n" "blk s lg = disk s lg"
  shows "\<exists>t. install_one recovering tail s = Done () t \<and>
    log_effect p s [(n, blk s lg)] (if recovering then refs s else (refs s)(n := refs s n - 1)) t"
proof -
  obtain msg where msg: "printf_text (''recovering tail %d dst %d'' @ [CHR 0x0A])
            [VReg (of_nat tail), VReg (ucast (lh_block s ! tail))] = Some msg"
    by (simp add: reg_conv_def)
  let ?s = "if recovering then kputs msg s else s"
  have k: "(if recovering then kprintf (''recovering tail %d dst %d'' @ [CHR 0x0A])
            [VReg (of_nat tail), VReg (ucast (lh_block s ! tail))] s else Done () s) = Done () ?s"
    using kprintf_eq [OF _ msg, of s] cacheD(4) [OF c] by simp
  have s: "cache ?s p Map.empty" "room ?s A 1" "blk ?s = blk s" "disk ?s = disk s" "refs ?s = refs s"
    "disk_writes ?s = disk_writes s" "same_log s ?s"
    using c r by (simp_all add: room_def)
  have pre: "\<not> recovering \<Longrightarrow> 0 < refs ?s n" "blk ?s lg = disk ?s lg"
    unfolding s by (fact n(3)) (fact lg(3))
  obtain a u b t v x y where y: "bread ROOTDEV lg ?s = Done a u" "only_bio ?s u" "bread ROOTDEV n u = Done b t"
    "bwrite b (set_data b (\<lambda>_. b_data (bufs t ! a)) t) = Done () v"
    "(if \<not> recovering then bunpin b v else Done () v) = Done () x"
    "bnd (brelse a x) (\<lambda>_ s. brelse b s) = Done () y"
    "log_effect p ?s [(n, blk s lg)] (if recovering then refs s else (refs s)(n := refs s n - 1)) y"
    using install_copy [OF s(1,2) n(2) pre(1) lg(2) pre(2)] unfolding s(3,5) by blast
  have "log_effect p s [(n, blk s lg)] (if recovering then refs s else (refs s)(n := refs s n - 1)) y"
    using y(7) s same_log_trans [OF s(7)] by (simp add: log_effect_def)
  moreover have "install_one recovering tail s = Done () y"
    using y(1-6) dev k same_log_simps [OF same_log_trans [OF s(7) only_bio_same_log [OF y(2)]]]
      same_log_simps [OF s(7)]
    unfolding install_one_def k bnd.simps by (simp add: n lg)
  ultimately show ?thesis by blast
qed

lemma write_head_law:
  assumes c: "cache s p Map.empty" and dev: "log_dev s = ROOTDEV" and r: "room s A 1"
  shows "\<exists>t. write_head s = Done () t \<and>
    log_effect p s [(log_start s, put_head (lh_n s) (lh_block s) (blk s (log_start s)))] (refs s) t"
proof -
  let ?n = "log_start s" and ?g = "put_head (lh_n s) (lh_block s)"
  note A = room_insert [OF r [unfolded One_nat_def], of ?n]
  obtain b u where u: "bread ROOTDEV ?n s = Done b u" "cache u p [b \<mapsto> ?n]" "blk u = blk s"
    "refs u = (refs s)(?n := refs s ?n + 1)" "disk u = disk s" "disk_writes u = disk_writes s" "only_bio s u"
    using bc.rd [OF c, of ?n "insert ?n A"] A by auto
  let ?v = "set_data b ?g u"
  have v: "cache ?v p [b \<mapsto> ?n]" "blk ?v = (blk s)(?n := ?g (blk s ?n))" "refs ?v = refs u" "disk ?v = disk s"
    "disk_writes ?v = disk_writes s" "only_bio u ?v"
    using set_data_law [OF u(2), of b ?n ?g] u by auto
  obtain w where w: "bwrite b ?v = Done () w" "cache w p [b \<mapsto> ?n]" "blk w = blk ?v" "refs w = refs u"
    "disk w = (disk s)(?n := ?g (blk s ?n))" "disk_writes w = disk_writes s @ [(?n, ?g (blk s ?n))]" "only_bio ?v w"
    using bwrite_law [OF v(1), of b ?n] v by auto
  obtain x where x: "brelse b w = Done () x" "cache x p Map.empty" "blk x = blk w"
    "refs x = refs s" "disk x = disk w" "disk_writes x = disk_writes w" "only_bio w x"
    using brelse_law [OF w(2), of b ?n] w v u by auto
  have "same_log s x" using u(7) v(6) w(7) x(7) by (blast intro: only_bio_same_log only_bio_trans)
  then have "log_effect p s [(?n, ?g (blk s ?n))] (refs s) x"
    using x w v by (intro bio_effect) simp_all
  moreover have "write_head s = Done () x"
    using u(1) w(1) x(1) dev same_log_simps [OF only_bio_same_log [OF u(7)]] by (simp add: write_head_def)
  ultimately show ?thesis by blast
qed

subsection \<open>The loops\<close>

text \<open>
  \<open>log_wf s bs\<close>: \<open>bs\<close> are the blocks of the transaction in memory, different from each other and
  outside the log, which has room for them.
\<close>

definition log_area :: "u32 \<Rightarrow> u32 set" where
  "log_area st = (\<lambda>i. st + of_nat i) ` {..LOGBLOCKS}"

definition log_wf :: "'z logst_scheme \<Rightarrow> u32 list \<Rightarrow> bool" where
  "log_wf s bs \<longleftrightarrow> log_dev s = ROOTDEV \<and> lh_n s = int (length bs) \<and> length bs \<le> LOGBLOCKS \<and>
     length (lh_block s) = LOGBLOCKS \<and> take (length bs) (lh_block s) = bs \<and> distinct bs \<and>
     set bs \<inter> log_area (log_start s) = {}"

lemma log_wf_nth: "log_wf s bs \<Longrightarrow> i < length bs \<Longrightarrow> lh_block s ! i = bs ! i"
  by (auto simp: log_wf_def dest: arg_cong [of _ _ "\<lambda>xs. xs ! i"])

lemma log_slot_inj: "inj_on (\<lambda>i. st + of_nat i + 1 :: u32) {..<30}"
proof (rule inj_onI)
  fix i j :: nat
  assume ij: "i \<in> {..<30}" "j \<in> {..<30}" "st + of_nat i + 1 = st + of_nat j + (1 :: u32)"
  then have "unat (of_nat i :: u32) = unat (of_nat j :: u32)" by simp
  then show "i = j" using ij by (simp add: unat_of_nat)
qed

lemma log_slot_area: "i < LOGBLOCKS \<Longrightarrow> st + of_nat i + 1 \<in> log_area st"
  unfolding log_area_def by (rule image_eqI [of _ _ "Suc i"]) (simp_all add: algebra_simps)

lemma log_start_area: "st \<in> log_area st"
  unfolding log_area_def by (rule image_eqI [of _ _ 0]) simp_all

lemma log_slot_ne_start: "i < LOGBLOCKS \<Longrightarrow> st + of_nat i + 1 \<noteq> (st :: u32)"
proof
  assume "i < LOGBLOCKS" "st + of_nat i + 1 = st"
  then have "(of_nat (Suc i) :: u32) = 0" by (simp add: add.assoc add.commute)
  then have "unat (of_nat (Suc i) :: u32) = 0" by (simp only: unsigned_0)
  then show False using \<open>i < LOGBLOCKS\<close> by (simp only: unat_of_nat) simp
qed

lemma log_effect_wf: "log_wf s bs \<Longrightarrow> same_log s t \<Longrightarrow> log_wf t bs"
  by (simp add: log_wf_def same_log_simps)

lemma room_mono:
  assumes "room s A k" and "\<And>m. refs t m \<le> refs s m"
  shows "room t A k"
proof -
  have "{m. 0 < refs t m} \<subseteq> {m. 0 < refs s m}" using assms(2) by (auto intro: less_le_trans)
  moreover have "refs t m < 2 ^ 32 - 1" for m
    using assms(1) assms(2) [of m] by (auto simp: room_def intro: le_less_trans)
  ultimately show ?thesis using assms(1) by (auto simp: room_def)
qed

definition log_copies :: "u32 \<Rightarrow> (u32 \<Rightarrow> block) \<Rightarrow> u32 list \<Rightarrow> nat \<Rightarrow> (u32 \<times> block) list" where
  "log_copies st v bs k = map (\<lambda>i. (st + of_nat i + 1, v (bs ! i))) [0..<k]"

definition home_copies :: "u32 \<Rightarrow> (u32 \<Rightarrow> block) \<Rightarrow> u32 list \<Rightarrow> nat \<Rightarrow> (u32 \<times> block) list" where
  "home_copies st v bs k = map (\<lambda>i. (bs ! i, v (st + of_nat i + 1))) [0..<k]"

lemma log_copies_fst: "k \<le> LOGBLOCKS \<Longrightarrow> fst ` set (log_copies st v bs k) \<subseteq> log_area st"
  by (auto simp: log_copies_def intro!: log_slot_area)

lemma home_copies_fst: "k \<le> length bs \<Longrightarrow> fst ` set (home_copies st v bs k) \<subseteq> set bs"
  by (auto simp: home_copies_def)

lemma write_log_loop:
  assumes c: "cache s p Map.empty" and wf: "log_wf s bs" and r: "room s A 1"
    and bs: "set bs \<subseteq> A" "\<forall>b \<in> set bs. 0 < refs s b"
  shows "k \<le> length bs \<Longrightarrow> \<exists>t. loop_all write_one [0..<k] s = Done () t \<and>
    log_effect p s (log_copies (log_start s) (blk s) bs k) (refs s) t"
proof (induction k)
  case 0
  then show ?case using c by (auto simp: log_copies_def log_effect_def)
next
  case (Suc k)
  let ?st = "log_start s" and ?n = "bs ! k"
  obtain t where t: "loop_all write_one [0..<k] s = Done () t"
    "log_effect p s (log_copies ?st (blk s) bs k) (refs s) t"
    using Suc by auto
  then have tf: "cache t p Map.empty" "refs t = refs s" "same_log s t"
    "blk t = apply_writes (log_copies ?st (blk s) bs k) (blk s)" by (simp_all add: log_effect_def)
  note same = same_log_simps [OF tf(3)]
  have k: "k < length bs" "k < LOGBLOCKS" "k \<le> LOGBLOCKS" using Suc.prems wf by (simp_all add: log_wf_def)
  then have n: "?n \<in> set bs" "?n \<notin> log_area ?st"
    using wf nth_mem [OF k(1)] unfolding log_wf_def by blast+
  have "blk t ?n = blk s ?n"
    unfolding tf(4) using log_copies_fst [OF k(3)] n(2) by (intro apply_writes_other) blast
  moreover have "\<exists>u. write_one k t = Done () u \<and>
      log_effect p t [(?st + of_nat k + 1, blk t ?n)] (refs t) u"
  proof (rule write_one_law [OF tf(1)])
    show "log_dev t = ROOTDEV" using same wf by (simp add: log_wf_def)
    show "room t A 1" by (rule room_mono [OF r]) (simp add: tf)
    show "?n = lh_block t ! k" using log_wf_nth [OF wf k(1)] same by simp
    show "?n \<in> A" "0 < refs t ?n" using n bs tf by auto
    show "?st + of_nat k + 1 = log_start t + of_nat k + 1" using same by simp
    show "?st + of_nat k + 1 \<noteq> ?n" using log_slot_area [OF k(2)] n(2) by metis
  qed
  ultimately obtain u where u: "write_one k t = Done () u"
    "log_effect p t [(?st + of_nat k + 1, blk s ?n)] (refs s) u"
    using tf(2) by auto
  have "log_effect p s (log_copies ?st (blk s) bs (Suc k)) (refs s) u"
    using log_effect_trans [OF t(2) u(2)] by (simp add: log_copies_def)
  with t(1) u(1) show ?case by (simp add: loop_all_append)
qed


lemma install_loop:
  assumes c: "cache s p Map.empty" and wf: "log_wf s bs" and r: "\<And>b. b \<in> set bs \<Longrightarrow> \<exists>A. room s A 1 \<and> b \<in> A"
    and bs: "\<And>b. \<not> recovering \<Longrightarrow> b \<in> set bs \<Longrightarrow> 0 < refs s b"
    and clean: "\<And>i. i < length bs \<Longrightarrow> blk s (log_start s + of_nat i + 1) = disk s (log_start s + of_nat i + 1)"
  shows "k \<le> length bs \<Longrightarrow> \<exists>t. loop_all (install_one recovering) [0..<k] s = Done () t \<and>
    log_effect p s (home_copies (log_start s) (blk s) bs k)
      (\<lambda>m. if \<not> recovering \<and> m \<in> set (take k bs) then refs s m - 1 else refs s m) t"
proof (induction k)
  case 0
  then show ?case using c by (auto simp: home_copies_def log_effect_def)
next
  case (Suc k)
  let ?st = "log_start s" and ?n = "bs ! k"
  let ?r = "\<lambda>k m. if \<not> recovering \<and> m \<in> set (take k bs) then refs s m - 1 else refs s m"
  obtain t where t: "loop_all (install_one recovering) [0..<k] s = Done () t"
    "log_effect p s (home_copies ?st (blk s) bs k) (?r k) t"
    using Suc by auto
  then have tf: "cache t p Map.empty" "refs t = ?r k" "same_log s t"
    "blk t = apply_writes (home_copies ?st (blk s) bs k) (blk s)"
    "disk t = apply_writes (home_copies ?st (blk s) bs k) (disk s)" by (simp_all add: log_effect_def)
  note same = same_log_simps [OF tf(3)]
  have k: "k < length bs" "k < LOGBLOCKS" "k \<le> length bs" using Suc.prems wf by (simp_all add: log_wf_def)
  then have n: "?n \<in> set bs" "set bs \<inter> log_area ?st = {}" using wf by (simp_all add: log_wf_def)
  have fresh: "?n \<notin> set (take k bs)"
    using wf k(1) by (auto simp: log_wf_def in_set_conv_nth nth_eq_iff_index_eq)
  let ?lg = "?st + of_nat k + 1"
  have "?lg \<notin> fst ` set (home_copies ?st (blk s) bs k)"
    using home_copies_fst [OF k(3)] n(2) log_slot_area [OF k(2)] by blast
  then have lg: "blk t ?lg = blk s ?lg" "blk t ?lg = disk t ?lg"
    unfolding tf(4,5) using clean [OF k(1)] by (simp_all add: apply_writes_other)
  obtain A where A: "room s A 1" "?n \<in> A" using r [OF n(1)] by blast
  have "\<exists>u. install_one recovering k t = Done () u \<and>
      log_effect p t [(?n, blk t ?lg)] (if recovering then refs t else (refs t)(?n := refs t ?n - 1)) u"
  proof (rule install_one_law [OF tf(1)])
    show "log_dev t = ROOTDEV" using same wf by (simp add: log_wf_def)
    show "room t A 1" by (rule room_mono [OF A(1)]) (simp add: tf)
    show "?n = lh_block t ! k" using log_wf_nth [OF wf k(1)] same by simp
    show "?n \<in> A" by (rule A(2))
    show "0 < refs t ?n" if "\<not> recovering" using bs [OF that n(1)] fresh tf by simp
    show "?lg = log_start t + of_nat k + 1" using same by simp
    show "?lg \<noteq> ?n"
    proof
      assume "?lg = ?n"
      then have "?n \<in> log_area ?st" using log_slot_area [OF k(2), of ?st] by simp
      with n show False by blast
    qed
    show "blk t ?lg = disk t ?lg" by (rule lg(2))
  qed
  then obtain u where u: "install_one recovering k t = Done () u"
    "log_effect p t [(?n, blk s ?lg)] (if recovering then refs t else (refs t)(?n := refs t ?n - 1)) u"
    using lg(1) by auto
  have "(if recovering then refs t else (refs t)(?n := refs t ?n - 1)) = ?r (Suc k)"
    unfolding tf(2) by (rule ext) (use fresh k(1) in \<open>simp add: take_Suc_conv_app_nth\<close>)
  then have "log_effect p s (home_copies ?st (blk s) bs (Suc k)) (?r (Suc k)) u"
    using log_effect_trans [OF t(2) u(2)] by (simp add: home_copies_def)
  with t(1) u(1) show ?case by (simp add: loop_all_append)
qed

subsection \<open>commit\<close>

text \<open>The disk writes of a commit, in order: the copies, the header, the home blocks, the empty header.\<close>

definition commit_writes :: "u32 \<Rightarrow> (u32 \<Rightarrow> block) \<Rightarrow> u32 list \<Rightarrow> u32 list \<Rightarrow> (u32 \<times> block) list" where
  "commit_writes st v bs hb =
     (let n = length bs; h = put_head (int n) hb (v st) in
      map (\<lambda>i. (st + of_nat i + 1, v (bs ! i))) [0..<n] @ [(st, h)] @
      map (\<lambda>b. (b, v b)) bs @ [(st, put_head 0 hb h)])"

lemma log_copies_read:
  assumes "i < k" and "k \<le> LOGBLOCKS"
  shows "apply_writes (log_copies st v bs k) d (st + of_nat i + 1) = v (bs ! i)"
  unfolding log_copies_def
  by (rule apply_writes_upt) (use assms log_slot_inj [of st] in \<open>auto intro: inj_on_subset\<close>)

lemma commit_law:
  assumes c: "cache s p Map.empty" and wf: "log_wf s bs" and "bs \<noteq> []" and r: "room s A 1"
    and bs: "set bs \<subseteq> A" "\<forall>b \<in> set bs. 0 < refs s b"
  shows "\<exists>t. commit s = Done () t \<and> disk_writes t = disk_writes s @ commit_writes (log_start s) (blk s) bs (lh_block s) \<and>
    disk t = apply_writes (commit_writes (log_start s) (blk s) bs (lh_block s)) (disk s) \<and>
    blk t = apply_writes (commit_writes (log_start s) (blk s) bs (lh_block s)) (blk s) \<and>
    refs t = (\<lambda>m. if m \<in> set bs then refs s m - 1 else refs s m) \<and>
    same_log (s\<lparr>lh_n := 0\<rparr>) t \<and> cache t p Map.empty"
proof -
  let ?st = "log_start s" and ?n = "length bs" and ?hb = "lh_block s"
  let ?h = "put_head (int ?n) ?hb (blk s ?st)"
  have n: "nat (lh_n s) = ?n" "?n \<le> LOGBLOCKS" "0 < lh_n s" "lh_n s = int ?n"
    using wf \<open>bs \<noteq> []\<close> by (simp_all add: log_wf_def)
  obtain t1 where t1: "write_log s = Done () t1"
    "log_effect p s (log_copies ?st (blk s) bs ?n) (refs s) t1"
    using write_log_loop [OF c wf r bs order_refl] by (auto simp: write_log_def n)
  then have f1: "cache t1 p Map.empty" "refs t1 = refs s" "same_log s t1"
    "blk t1 = apply_writes (log_copies ?st (blk s) bs ?n) (blk s)"
    "disk t1 = apply_writes (log_copies ?st (blk s) bs ?n) (disk s)" by (simp_all add: log_effect_def)
  note same1 = same_log_simps [OF f1(3)]
  have "?st \<notin> fst ` set (log_copies ?st (blk s) bs ?n)"
  proof
    assume "?st \<in> fst ` set (log_copies ?st (blk s) bs ?n)"
    then obtain i where "i < ?n" "?st = ?st + of_nat i + 1" by (auto simp: log_copies_def)
    then show False using log_slot_ne_start [of i ?st] n(2) by simp
  qed
  then have h1: "blk t1 ?st = blk s ?st" unfolding f1(4) by (rule apply_writes_other)
  have "log_dev t1 = ROOTDEV" using same1 wf by (simp add: log_wf_def)
  moreover have "room t1 A 1" by (rule room_mono [OF r]) (simp add: f1)
  ultimately obtain t2 where t2: "write_head t1 = Done () t2" "log_effect p t1 [(?st, ?h)] (refs s) t2"
    using write_head_law [OF f1(1)] same1 h1 f1(2) n(4) by auto
  note e2 = log_effect_trans [OF t1(2) t2(2)]
  let ?w2 = "log_copies ?st (blk s) bs ?n @ [(?st, ?h)]"
  have f2: "cache t2 p Map.empty" "refs t2 = refs s" "same_log s t2"
    "blk t2 = apply_writes ?w2 (blk s)" "disk t2 = apply_writes ?w2 (disk s)" using e2 by (simp_all add: log_effect_def)
  note same2 = same_log_simps [OF f2(3)]
  have slot: "blk t2 (?st + of_nat i + 1) = blk s (bs ! i)" "disk t2 (?st + of_nat i + 1) = blk s (bs ! i)" if "i < ?n" for i
  proof -
    have ne: "?st + of_nat i + 1 \<noteq> ?st" using log_slot_ne_start [of i ?st] that n(2) by simp
    show "blk t2 (?st + of_nat i + 1) = blk s (bs ! i)" "disk t2 (?st + of_nat i + 1) = blk s (bs ! i)"
      unfolding f2(4,5) using log_copies_read [OF that n(2)] ne by simp_all
  qed
  have "\<exists>t. loop_all (install_one False) [0..<?n] t2 = Done () t \<and>
    log_effect p t2 (home_copies (log_start t2) (blk t2) bs ?n)
      (\<lambda>m. if \<not> False \<and> m \<in> set (take ?n bs) then refs t2 m - 1 else refs t2 m) t"
  proof (rule install_loop [OF f2(1)])
    show "log_wf t2 bs" by (rule log_effect_wf [OF wf f2(3)])
    show "\<exists>A. room t2 A 1 \<and> b \<in> A" if "b \<in> set bs" for b
      using that bs(1) room_mono [OF r, of t2] f2(2) by auto
    show "0 < refs t2 b" if "b \<in> set bs" for b using that bs(2) f2(2) by simp
    show "blk t2 (log_start t2 + of_nat i + 1) = disk t2 (log_start t2 + of_nat i + 1)" if "i < ?n" for i
      using slot [OF that] same2 by simp
  qed simp
  then obtain t3 where t3: "install_trans False t2 = Done () t3"
    "log_effect p t2 (home_copies ?st (blk t2) bs ?n) (\<lambda>m. if m \<in> set bs then refs s m - 1 else refs s m) t3"
    using same2(1,5) n unfolding install_trans_def f2(2) by auto
  have home: "home_copies ?st (blk t2) bs ?n = map (\<lambda>b. (b, blk s b)) bs"
    using slot by (intro nth_equalityI) (simp_all add: home_copies_def)
  note e3 = log_effect_trans [OF e2 t3(2) [unfolded home]]
  let ?w3 = "?w2 @ map (\<lambda>b. (b, blk s b)) bs"
  have f3: "cache t3 p Map.empty" "refs t3 = (\<lambda>m. if m \<in> set bs then refs s m - 1 else refs s m)" "same_log s t3"
    "blk t3 = apply_writes ?w3 (blk s)" "disk t3 = apply_writes ?w3 (disk s)"
    "disk_writes t3 = disk_writes s @ ?w3" using e3 by (simp_all add: log_effect_def)
  note same3 = same_log_simps [OF f3(3)]
  let ?t3 = "t3\<lparr>lh_n := 0\<rparr>"
  have frame: "cache ?t3 p Map.empty" "blk ?t3 = blk t3" "refs ?t3 = refs t3" "disk ?t3 = disk t3"
    "disk_writes ?t3 = disk_writes t3"
    using f3(1) by (simp_all add: cache_def bio_inv_def caches_def calm_def holds_sleep_def blk_def holder_def
        refs_def fun_eq_iff split: option.split)
  have "?st \<notin> fst ` set (map (\<lambda>b. (b, blk s b)) bs)"
    using wf log_start_area [of ?st] by (auto simp: log_wf_def)
  then have h3: "blk t3 ?st = ?h" unfolding f3(4) by (simp add: apply_writes_other)
  have "room ?t3 A 1" by (rule room_mono [OF r]) (simp add: frame f3)
  then obtain t4 where t4: "write_head ?t3 = Done () t4"
    "log_effect p ?t3 [(?st, put_head 0 ?hb ?h)] (refs t3) t4"
    using write_head_law [OF frame(1), of A] same3 h3 frame wf by (auto simp: log_wf_def)
  have w: "commit_writes ?st (blk s) bs ?hb = ?w3 @ [(?st, put_head 0 ?hb ?h)]"
    by (simp add: commit_writes_def Let_def log_copies_def)
  have "same_log (s\<lparr>lh_n := 0\<rparr>) ?t3" using f3(3) by (cases s; cases t3) (simp add: same_log_def)
  moreover have "same_log ?t3 t4" using t4(2) by (simp add: log_effect_def)
  ultimately have "same_log (s\<lparr>lh_n := 0\<rparr>) t4" by (rule same_log_trans)
  moreover have "commit s = Done () t4"
    using n(3) t1(1) t2(1) t3(1) t4(1) by (simp add: commit_def)
  ultimately show ?thesis
    using t4(2) frame f3 unfolding w by (intro exI [of _ t4]) (simp add: log_effect_def)
qed


subsection \<open>Recovery\<close>

text \<open>
  What recovery does to a disk, as a function: \<open>log_entries\<close> are the block numbers of the header,
  \<open>recover_writes\<close> the writes, \<open>recovered\<close> the disk afterwards.
\<close>

definition log_entries :: "u32 \<Rightarrow> (u32 \<Rightarrow> block) \<Rightarrow> u32 list" where
  "log_entries st d = map (\<lambda>i. ld32 (d st) (hdr_entry i)) [0..<nat (sint (ld32 (d st) 0))]"

lemma length_log_entries [simp]: "length (log_entries st d) = nat (sint (ld32 (d st) 0))"
  by (simp add: log_entries_def)

definition recover_writes :: "u32 \<Rightarrow> (u32 \<Rightarrow> block) \<Rightarrow> (u32 \<times> block) list" where
  "recover_writes st d =
     home_copies st d (log_entries st d) (length (log_entries st d)) @ [(st, put_head 0 [] (d st))]"

definition recovered :: "u32 \<Rightarrow> (u32 \<Rightarrow> block) \<Rightarrow> u32 \<Rightarrow> block" where
  "recovered st d = apply_writes (recover_writes st d) d"

definition good_header :: "u32 \<Rightarrow> (u32 \<Rightarrow> block) \<Rightarrow> bool" where
  "good_header st d \<longleftrightarrow> sint (ld32 (d st) 0) \<le> int LOGBLOCKS \<and> distinct (log_entries st d) \<and>
     set (log_entries st d) \<inter> log_area st = {}"

lemma put_head_0: "put_head 0 bs d = put_head 0 [] d"
  by (simp add: put_head_def)

lemma recovered_nth:
  assumes "distinct (log_entries st d)" and "i < length (log_entries st d)" and "log_entries st d ! i \<noteq> st"
  shows "recovered st d (log_entries st d ! i) = d (st + of_nat i + 1)"
proof -
  let ?bs = "log_entries st d"
  have "inj_on (\<lambda>i. ?bs ! i) {..<length ?bs}" using assms(1) by (simp add: inj_on_nth)
  from apply_writes_upt [OF this assms(2), of "\<lambda>i. d (st + of_nat i + 1)"] assms(3)
  show ?thesis by (simp add: recovered_def recover_writes_def home_copies_def)
qed

lemma recovered_other:
  assumes "m \<noteq> st" and "m \<notin> set (log_entries st d)"
  shows "recovered st d m = d m"
proof -
  have "m \<notin> fst ` set (home_copies st d (log_entries st d) (length (log_entries st d)))"
    using home_copies_fst [OF order_refl] assms(2) by blast
  then show ?thesis using assms(1) by (simp add: recovered_def recover_writes_def apply_writes_other)
qed

lemma log_entries_empty: "ld32 (d st) 0 = 0 \<Longrightarrow> log_entries st d = []"
  by (simp add: log_entries_def)

lemma log_entries_put_head:
  assumes "d st = put_head (int n) hb x" and "n \<le> LOGBLOCKS"
  shows "log_entries st d = map (\<lambda>i. hb ! i) [0..<n]"
proof -
  have "sint (word_of_int (int n) :: u32) = int n"
    unfolding sint_sbintrunc' by (rule signed_take_bit_int_eq_self) (use assms(2) in simp_all)
  then show ?thesis
    unfolding log_entries_def assms(1) ld32_put_head_count by (auto simp: ld32_put_head_entry)
qed

text \<open>The states of the disk while a commit is under way.\<close>

lemma crash_before_header:
  assumes "k \<le> n" and "n \<le> LOGBLOCKS" and "ld32 (d st) 0 = 0" and "m \<notin> log_area st"
  shows "recovered st (apply_writes (take k (log_copies st v bs n)) d) m = d m"
proof -
  let ?d = "apply_writes (take k (log_copies st v bs n)) d"
  have sub: "fst ` set (take k (log_copies st v bs n)) \<subseteq> log_area st"
    by (rule order_trans [OF image_mono [OF set_take_subset] log_copies_fst [OF assms(2)]])
  have "st \<notin> fst ` set (log_copies st v bs n)"
  proof
    assume "st \<in> fst ` set (log_copies st v bs n)"
    then obtain i where "i < n" "st = st + of_nat i + 1" by (auto simp: log_copies_def)
    then show False using log_slot_ne_start [of i st] assms(2) by simp
  qed
  then have "st \<notin> fst ` set (take k (log_copies st v bs n))" by (auto dest: in_set_takeD)
  then have "?d st = d st" by (rule apply_writes_other)
  then have "log_entries st ?d = []" using assms(3) by (simp add: log_entries_empty)
  moreover have "m \<noteq> st" using assms(4) log_start_area by blast
  ultimately have "recovered st ?d m = ?d m" by (simp add: recovered_other)
  also have "\<dots> = d m" using sub assms(4) by (intro apply_writes_other) blast
  finally show ?thesis .
qed

lemma crash_after_header:
  assumes bs: "distinct bs" "set bs \<inter> log_area st = {}" "length bs \<le> LOGBLOCKS" "map (\<lambda>i. hb ! i) [0..<length bs] = bs"
    and h: "h = put_head (int (length bs)) hb x" and vs: "\<forall>(n, w) \<in> set vs. n \<in> set bs" and m: "m \<notin> log_area st"
  shows "recovered st (apply_writes (log_copies st v bs (length bs) @ (st, h) # vs) d) m =
    (if m \<in> set bs then v m else d m)"
proof -
  let ?n = "length bs" and ?d = "apply_writes (log_copies st v bs (length bs) @ (st, h) # vs) d"
  have vs_out: "a \<notin> fst ` set vs" if "a \<in> log_area st" for a using vs bs(2) that by auto
  then have "?d st = h" using log_start_area [of st] by (simp add: apply_writes_other)
  then have e: "log_entries st ?d = bs" using log_entries_put_head [of ?d st] h bs(3,4) by simp
  have ms: "m \<noteq> st" using m log_start_area by blast
  show ?thesis
  proof (cases "m \<in> set bs")
    case True
    then obtain i where i: "i < ?n" "m = bs ! i" by (auto simp: in_set_conv_nth)
    have "i < LOGBLOCKS" using i bs(3) by simp
    then have "?d (st + of_nat i + 1) = v m"
      using log_slot_area [of i st] log_slot_ne_start [of i st] vs_out i log_copies_read [OF i(1) bs(3)]
      by (simp add: apply_writes_other)
    moreover have "recovered st ?d (log_entries st ?d ! i) = ?d (st + of_nat i + 1)"
      by (rule recovered_nth) (use e bs(1) i ms in simp_all)
    ultimately show ?thesis using True e i by simp
  next
    case False
    have "recovered st ?d m = ?d m" by (rule recovered_other) (use ms False e in simp_all)
    also have "\<dots> = d m"
    proof -
      have "m \<notin> fst ` set vs" using vs False by auto
      moreover have "m \<notin> fst ` set (log_copies st v bs ?n)" using log_copies_fst [OF bs(3)] m by blast
      ultimately show ?thesis using ms by (simp add: apply_writes_other)
    qed
    finally show ?thesis using False by simp
  qed
qed

lemma crash_after_all:
  assumes bs: "length bs \<le> LOGBLOCKS" "set bs \<inter> log_area st = {}" and m: "m \<notin> log_area st"
  shows "recovered st (apply_writes (commit_writes st v bs hb) d) m = (if m \<in> set bs then v m else d m)"
proof -
  let ?d = "apply_writes (commit_writes st v bs hb) d"
  have "ld32 (?d st) 0 = 0" by (simp add: commit_writes_def Let_def ld32_put_head_count)
  then have e: "log_entries st ?d = []" by (rule log_entries_empty)
  have ms: "m \<noteq> st" using m log_start_area by blast
  have home: "apply_writes (map (\<lambda>b. (b, v b)) bs) d' m = (if m \<in> set bs then v m else d' m)" for d'
    by (induction bs arbitrary: d') auto
  have "m \<notin> fst ` set (log_copies st v bs (length bs))" using log_copies_fst [OF bs(1)] m by blast
  then have "?d m = (if m \<in> set bs then v m else d m)"
    using ms home unfolding commit_writes_def Let_def log_copies_def by (simp add: apply_writes_other)
  then show ?thesis using e ms by (simp add: recovered_other)
qed

text \<open>
  C1: crash atomicity. Let a transaction of at most 29 blocks commit while the log on disk is empty. The
  commit ends, and whatever number \<open>k\<close> of its disk writes a crash lets through, running recovery on that
  disk leaves outside the log either the old contents of every block (when the header was not yet
  written) or the new contents of all blocks of the transaction, never a mixture.
\<close>
theorem commit_crash_atomic:
  assumes c: "cache s p Map.empty" and wf: "log_wf s bs" and "bs \<noteq> []" and r: "room s A 1"
    and bs: "set bs \<subseteq> A" "\<forall>b \<in> set bs. 0 < refs s b" and clear: "ld32 (disk s (log_start s)) 0 = 0"
    and m: "m \<notin> log_area (log_start s)"
  shows "\<exists>t ws. commit s = Done () t \<and> disk_writes t = disk_writes s @ ws \<and> length ws = 2 * length bs + 2 \<and>
    recovered (log_start s) (apply_writes (take k ws) (disk s)) m =
      (if length bs < k \<and> m \<in> set bs then blk s m else disk s m)"
proof -
  let ?st = "log_start s" and ?n = "length bs" and ?hb = "lh_block s"
  let ?ws = "commit_writes ?st (blk s) bs ?hb"
  let ?h = "put_head (int ?n) ?hb (blk s ?st)"
  have n: "?n \<le> LOGBLOCKS" "distinct bs" "set bs \<inter> log_area ?st = {}" using wf by (simp_all add: log_wf_def)
  have hb: "map (\<lambda>i. ?hb ! i) [0..<?n] = bs"
    using log_wf_nth [OF wf] by (intro nth_equalityI) simp_all
  have ws: "?ws = log_copies ?st (blk s) bs ?n @ (?st, ?h) # map (\<lambda>b. (b, blk s b)) bs @ [(?st, put_head 0 ?hb ?h)]"
    by (simp add: commit_writes_def Let_def log_copies_def)
  have len: "length (log_copies ?st (blk s) bs ?n) = ?n" by (simp add: log_copies_def)
  have "recovered ?st (apply_writes (take k ?ws) (disk s)) m = (if ?n < k \<and> m \<in> set bs then blk s m else disk s m)"
  proof -
    consider "k \<le> ?n" | "?n < k" "k \<le> 2 * ?n + 1" | "2 * ?n + 1 < k" by linarith
    then show ?thesis
    proof cases
      case 1
      then show ?thesis using crash_before_header [where d = "disk s" and st = ?st, OF _ n(1) clear m] by (simp add: ws len)
    next
      case 2
      then obtain j where j: "k = ?n + Suc j" "j \<le> ?n" by (metis add_Suc_right add_left_cancel less_imp_Suc_add
            mult_2 nat_add_left_cancel_le Suc_eq_plus1 Suc_le_mono add.assoc)
      then have "take k ?ws = log_copies ?st (blk s) bs ?n @ (?st, ?h) # take j (map (\<lambda>b. (b, blk s b)) bs)"
        by (simp add: ws len)
      moreover have "\<forall>(n, w) \<in> set (take j (map (\<lambda>b. (b, blk s b)) bs)). n \<in> set bs"
        by (auto dest: in_set_takeD)
      ultimately show ?thesis using crash_after_header [OF n(2,3,1) hb refl _ m] 2 by auto
    next
      case 3
      then have "take k ?ws = ?ws" by (simp add: ws len)
      then show ?thesis using crash_after_all [OF n(1,3) m] 3 by auto
    qed
  qed
  moreover have "length ?ws = 2 * ?n + 2" by (simp add: ws len)
  ultimately show ?thesis using commit_law [OF c wf \<open>bs \<noteq> []\<close> r bs] by blast
qed


text \<open>
  Recovery is idempotent. If the machine crashes during recovery, after any number \<open>k\<close> of its
  writes, recovering again leaves the same contents outside the log as the first recovery would have.
\<close>
lemma recovery_idempotent:
  assumes good: "good_header st d" and m: "m \<notin> log_area st"
  shows "recovered st (apply_writes (take k (recover_writes st d)) d) m = recovered st d m"
proof -
  let ?bs = "log_entries st d" and ?d = "apply_writes (take k (recover_writes st d)) d"
  have n: "length ?bs \<le> LOGBLOCKS" "distinct ?bs" "set ?bs \<inter> log_area st = {}"
    using good unfolding good_header_def by auto
  have ms: "m \<noteq> st" using m log_start_area by blast
  have len: "length (recover_writes st d) = Suc (length ?bs)" by (simp add: recover_writes_def home_copies_def)
  show ?thesis
  proof (cases "k \<le> length ?bs")
    case True
    then have "take k (recover_writes st d) = take k (home_copies st d ?bs (length ?bs))"
      by (simp add: recover_writes_def home_copies_def)
    then have sub: "fst ` set (take k (recover_writes st d)) \<subseteq> set ?bs"
      using order_trans [OF image_mono [OF set_take_subset] home_copies_fst [OF order_refl]] by metis
    then have area: "?d a = d a" if "a \<in> log_area st" for a
      using n(3) that by (intro apply_writes_other) blast
    then have e: "log_entries st ?d = ?bs" using log_start_area [of st] by (simp add: log_entries_def)
    show ?thesis
    proof (cases "m \<in> set ?bs")
      case True
      then obtain i where i: "i < length ?bs" "m = ?bs ! i" by (auto simp: in_set_conv_nth)
      have "recovered st ?d (log_entries st ?d ! i) = ?d (st + of_nat i + 1)"
        by (rule recovered_nth) (use e n i ms in simp_all)
      moreover have "recovered st d (?bs ! i) = d (st + of_nat i + 1)"
        by (rule recovered_nth) (use n i ms in simp_all)
      moreover have "?d (st + of_nat i + 1) = d (st + of_nat i + 1)"
        using i n(1) log_slot_area [of i st] by (intro area) simp
      ultimately show ?thesis using e i by simp
    next
      case False
      then have "recovered st ?d m = ?d m" "recovered st d m = d m" using e ms by (simp_all add: recovered_other)
      moreover have "?d m = d m" using sub False by (intro apply_writes_other) blast
      ultimately show ?thesis by simp
    qed
  next
    case False
    then have "take k (recover_writes st d) = recover_writes st d" using len by simp
    then have r: "?d = recovered st d" by (simp add: recovered_def)
    have "ld32 (recovered st d st) 0 = 0"
      by (simp add: recovered_def recover_writes_def ld32_put_head_count)
    then have "log_entries st ?d = []" unfolding r by (rule log_entries_empty)
    then show ?thesis using ms r by (simp add: recovered_other)
  qed
qed

subsection \<open>recover_from_log\<close>

lemma log_fields_frame [simp]:
  "cache (s\<lparr>lh_n := n\<rparr>) p H = cache s p H" "blk (s\<lparr>lh_n := n\<rparr>) = blk s" "refs (s\<lparr>lh_n := n\<rparr>) = refs s"
  "room (s\<lparr>lh_n := n\<rparr>) A k = room s A k"
  "cache (s\<lparr>lh_block := bs\<rparr>) p H = cache s p H" "blk (s\<lparr>lh_block := bs\<rparr>) = blk s"
  "refs (s\<lparr>lh_block := bs\<rparr>) = refs s" "room (s\<lparr>lh_block := bs\<rparr>) A k = room s A k"
  by (simp_all add: cache_def bio_inv_def caches_def calm_def holds_sleep_def blk_def holder_def
        refs_def fun_eq_iff room_def split: option.split)

lemma fold_lh_block:
  "fold (\<lambda>i s. s\<lparr>lh_block := (lh_block s)[i := f i]\<rparr>) is s =
     s\<lparr>lh_block := fold (\<lambda>i bs. bs[i := f i]) is (lh_block s)\<rparr>"
  by (induction "is" arbitrary: s) simp_all

lemma fold_update_upt:
  "n \<le> length bs \<Longrightarrow> fold (\<lambda>i bs. bs[i := f i]) [0..<n] bs = map f [0..<n] @ drop n bs"
proof (induction n)
  case (Suc n)
  then have "drop n bs = bs ! n # drop (Suc n) bs" by (simp add: Cons_nth_drop_Suc)
  then show ?case using Suc by (simp add: list_update_append)
qed simp

lemma read_head_law:
  assumes c: "cache s p Map.empty" and dev: "log_dev s = ROOTDEV" and r: "room s A 1"
    and len: "length (lh_block s) = LOGBLOCKS" and clean: "blk s (log_start s) = disk s (log_start s)"
    and n: "sint (ld32 (disk s (log_start s)) 0) \<le> int LOGBLOCKS"
  shows "\<exists>t. read_head s = Done () t \<and> cache t p Map.empty \<and> blk t = blk s \<and> refs t = refs s \<and> disk t = disk s \<and>
    disk_writes t = disk_writes s \<and> log_start t = log_start s \<and> log_dev t = ROOTDEV \<and>
    lh_n t = sint (ld32 (disk s (log_start s)) 0) \<and> length (lh_block t) = LOGBLOCKS \<and>
    take (nat (lh_n t)) (lh_block t) = log_entries (log_start s) (disk s)"
proof -
  let ?st = "log_start s"
  let ?d = "disk s ?st"
  note A = room_insert [OF r [unfolded One_nat_def], of ?st]
  obtain b u where u: "bread ROOTDEV ?st s = Done b u" "cache u p [b \<mapsto> ?st]" "blk u = blk s"
    "refs u = (refs s)(?st := refs s ?st + 1)" "disk u = disk s" "disk_writes u = disk_writes s" "only_bio s u"
    using bc.rd [OF c, of ?st "insert ?st A"] A by auto
  note same = same_log_simps [OF only_bio_same_log [OF u(7)]]
  have d: "b_data (bufs u ! b) = ?d" using cacheD(5) [OF u(2), of b ?st] u(3) clean by simp
  let ?n = "sint (ld32 ?d 0)"
  let ?bs = "map (\<lambda>i. ld32 ?d (hdr_entry i)) [0..<nat ?n] @ drop (nat ?n) (lh_block s)"
  let ?v = "u\<lparr>lh_n := ?n, lh_block := ?bs\<rparr>"
  have v: "cache ?v p [b \<mapsto> ?st]" "blk ?v = blk s" "refs ?v = refs u" "disk ?v = disk s" "disk_writes ?v = disk_writes s"
    using u by simp_all
  obtain t where t: "brelse b ?v = Done () t" "cache t p Map.empty" "blk t = blk s"
    "refs t = refs s" "disk t = disk s" "disk_writes t = disk_writes s" "only_bio ?v t"
    using brelse_law [OF v(1), of b ?st] v u clean by auto
  note same' = same_log_simps [OF only_bio_same_log [OF t(7)]]
  have nat: "nat ?n \<le> LOGBLOCKS" using n by simp
  then have "fold (\<lambda>i bs. bs[i := ld32 ?d (hdr_entry i)]) [0..<nat ?n] (lh_block s) = ?bs"
    by (rule_tac fold_update_upt) (simp add: len)
  then have "read_head s = brelse b ?v"
    using u(1) d n dev same by (simp add: read_head_def Let_def fold_lh_block)
  moreover have "take (nat (lh_n t)) (lh_block t) = log_entries ?st (disk s)"
    using same' by (simp add: log_entries_def)
  ultimately show ?thesis using t same same' dev len nat by (intro exI [of _ t]) simp
qed

text \<open>
  C28: \<open>recover_from_log\<close> refines the recovery function. On a freshly started system, whose cache holds
  nothing that differs from the disk, with a header on disk that lists at most \<open>LOGBLOCKS\<close> different
  blocks outside the log, it ends with the disk (and the cache) in the recovered state, its writes being
  exactly \<open>recover_writes\<close>, and with an empty log in memory.
\<close>
theorem recover_from_log_refines:
  assumes c: "cache s p Map.empty" and dev: "log_dev s = ROOTDEV" and len: "length (lh_block s) = LOGBLOCKS"
    and clean: "blk s = disk s" and unused: "refs s = (\<lambda>_. 0)" and good: "good_header (log_start s) (disk s)"
  shows "\<exists>t. recover_from_log s = Done () t \<and> disk t = recovered (log_start s) (disk s) \<and> blk t = disk t \<and>
    disk_writes t = disk_writes s @ recover_writes (log_start s) (disk s) \<and> lh_n t = 0 \<and>
    ld32 (disk t (log_start s)) 0 = 0 \<and> cache t p Map.empty"
proof -
  let ?st = "log_start s" and ?d = "disk s" and ?bs = "log_entries (log_start s) (disk s)"
  have r0: "room s {b} 1" for b using unused by (simp add: room_def)
  obtain t1 where t1: "read_head s = Done () t1" and f1: "cache t1 p Map.empty" "blk t1 = ?d" "refs t1 = refs s"
    "disk t1 = ?d" "disk_writes t1 = disk_writes s" "log_start t1 = ?st" "log_dev t1 = ROOTDEV"
    "lh_n t1 = sint (ld32 (?d ?st) 0)" "length (lh_block t1) = LOGBLOCKS" "take (nat (lh_n t1)) (lh_block t1) = ?bs"
    using read_head_law [OF c dev r0 len] clean good by (auto simp: good_header_def)
  have nbs: "length ?bs = nat (lh_n t1)" by (simp add: log_entries_def f1)
  have le: "nat (sint (ld32 (?d ?st) 0)) \<le> LOGBLOCKS" using good unfolding good_header_def by linarith
  have f1r: "room t1 {b} 1" for b using unused f1(3) by (simp add: room_def)
  have "\<exists>t. loop_all (install_one True) [0..<length ?bs] t1 = Done () t \<and>
    log_effect p t1 (home_copies (log_start t1) (blk t1) ?bs (length ?bs))
      (\<lambda>m. if \<not> True \<and> m \<in> set (take (length ?bs) ?bs) then refs t1 m - 1 else refs t1 m) t"
  proof (cases "?bs = []")
    case True
    then show ?thesis using f1(1) by (auto simp: home_copies_def log_effect_def)
  next
    case False
    then have "0 < length ?bs" by blast
    then have n: "lh_n t1 = int (length ?bs)" using nbs by linarith
    show ?thesis
    proof (rule install_loop [OF f1(1)])
      show "log_wf t1 ?bs"
        using good f1 n nbs le by (simp add: log_wf_def good_header_def)
      show "\<exists>A. room t1 A 1 \<and> b \<in> A" for b using f1r [of b] by blast
    qed (use f1 in simp_all)
  qed
  then obtain t2 where t2: "install_trans True t1 = Done () t2"
    "log_effect p t1 (home_copies ?st ?d ?bs (length ?bs)) (refs s) t2"
    using nbs f1 by (auto simp: install_trans_def)
  let ?ws = "home_copies ?st ?d ?bs (length ?bs)"
  have f2: "cache t2 p Map.empty" "blk t2 = apply_writes ?ws ?d" "disk t2 = apply_writes ?ws ?d" "refs t2 = refs s"
    "disk_writes t2 = disk_writes s @ ?ws" "same_log t1 t2" using t2(2) f1 by (simp_all add: log_effect_def)
  note same2 = same_log_simps [OF f2(6)]
  have "?st \<notin> fst ` set ?ws"
    using home_copies_fst [OF order_refl] good log_start_area [of ?st] by (force simp: good_header_def)
  then have st: "blk t2 ?st = ?d ?st" unfolding f2(2) by (rule apply_writes_other)
  let ?t2 = "t2\<lparr>lh_n := 0\<rparr>"
  have "room ?t2 {0} 1" using unused f2(4) by (simp add: room_def)
  then obtain t3 where t3: "write_head ?t2 = Done () t3"
    "log_effect p ?t2 [(?st, put_head 0 [] (?d ?st))] (refs t2) t3"
    using write_head_law [of ?t2 p "{0}"] f2 same2 f1 st put_head_0 [of "lh_block t1"] by auto
  have "disk t3 = recovered ?st ?d" "blk t3 = disk t3" "disk_writes t3 = disk_writes s @ recover_writes ?st ?d"
    "cache t3 p Map.empty"
    using t3(2) f2 by (simp_all add: log_effect_def recovered_def recover_writes_def)
  moreover have "lh_n t3 = 0" using same_log_simps(5) [of ?t2 t3] t3(2) by (simp add: log_effect_def)
  moreover have "recover_from_log s = Done () t3" using t1 t2(1) t3(1) by (simp add: recover_from_log_def)
  moreover have "ld32 (recovered ?st ?d ?st) 0 = 0"
    by (simp add: recovered_def recover_writes_def ld32_put_head_count)
  ultimately show ?thesis by auto
qed


subsection \<open>Space for every operation\<close>

text \<open>The operations of the buffer cache that return leave the log in memory alone.\<close>

named_theorems log_frames \<open>normal ends of operations that keep the globals of log.c\<close>

lemma acquire_log [log_frames]: "acquire l s = Done r t \<Longrightarrow> bcache.more t = bcache.more s"
  and release_log [log_frames]: "release l s = Done r t \<Longrightarrow> bcache.more t = bcache.more s"
  by (auto simp: acquire_def release_def split: if_splits)

lemma wakeup_log [log_frames]: "wakeup c s = Done r t \<Longrightarrow> bcache.more t = bcache.more s"
  unfolding wakeup_def
  by (erule loop_all_Done_rel [where R = "\<lambda>a b. bcache.more b = bcache.more a"])
    (auto simp: acquire_def release_def upd_proc_def Let_def split: if_splits)

lemma no_sleep: "sleep c l s \<noteq> Done r t"
  by (auto simp: sleep_def with_myproc_def sched_def split: option.splits if_splits)

lemma sleeplock_log [log_frames]:
  "acquiresleep i s = Done r t \<Longrightarrow> bcache.more t = bcache.more s"
  "releasesleep i s = Done r t \<Longrightarrow> bcache.more t = bcache.more s"
  "holdingsleep i s = Done h t \<Longrightarrow> bcache.more t = bcache.more s"
    by (auto simp: acquiresleep_def acquiresleep_turn_def with_myproc_def set_sleeplock_def no_sleep
        split: if_splits option.splits dest!: acquire_log release_log)
      (auto simp: releasesleep_def set_sleeplock_def dest!: acquire_log release_log wakeup_log,
       auto simp: holdingsleep_def with_myproc_def Let_def split: option.splits dest!: acquire_log release_log)

lemma upd_buf_more: "bcache.more (upd_buf b f s) = bcache.more s"
  by (simp add: upd_buf_def)

lemma bget_log [log_frames]: "bget d n s = Done b t \<Longrightarrow> bcache.more t = bcache.more s"
proof -
  assume "bget d n s = Done b t"
  let ?hit = "\<lambda>s. scan_list (NBUF + 1) (bnext s) (\<lambda>b. b_dev (bufs s ! b) = d \<and> b_blockno (bufs s ! b) = n) (bnext s NBUF)"
  let ?free = "\<lambda>s. scan_list (NBUF + 1) (bprev s) (\<lambda>b. b_refcnt (bufs s ! b) = 0) (bprev s NBUF)"
  obtain u where u: "acquire BcacheLock s = Done () u" using \<open>bget d n s = Done b t\<close> by (auto simp: bget_def)
  with \<open>bget d n s = Done b t\<close> have "bcache.more t = bcache.more u"
    unfolding bget_def u bnd.simps
    by (cases "?hit u"; cases "?free u") (auto dest!: log_frames)
  with acquire_log [OF u] show ?thesis by simp
qed

lemma disk_rw_log [log_frames]: "disk_rw b w s = Done r t \<Longrightarrow> bcache.more t = bcache.more s"
  by (auto simp: disk_rw_def Let_def split: if_splits)

lemma bread_log [log_frames]: "bread d n s = Done b t \<Longrightarrow> bcache.more t = bcache.more s"
  by (auto simp: bread_def split: if_splits dest!: bget_log disk_rw_log)

lemma bwrite_log [log_frames]: "bwrite b s = Done r t \<Longrightarrow> bcache.more t = bcache.more s"
  by (auto simp: bwrite_def split: if_splits dest!: sleeplock_log disk_rw_log)

lemma brelse_log [log_frames]: "brelse b s = Done r t \<Longrightarrow> bcache.more t = bcache.more s"
  by (auto simp: brelse_def Let_def link_front_def unlink_def split: if_splits
      dest!: sleeplock_log acquire_log release_log)

lemma bpin_log [log_frames]: "bpin b s = Done r t \<Longrightarrow> bcache.more t = bcache.more s"
  and bunpin_log [log_frames]: "bunpin b s = Done r t \<Longrightarrow> bcache.more t = bcache.more s"
  by (auto simp: bpin_def bunpin_def dest!: acquire_log release_log)

lemma kprintf_log [log_frames]: "kprintf f a s = Done r t \<Longrightarrow> bcache.more t = bcache.more s"
  by (auto simp: kprintf_def kputs_def split: option.splits dest!: acquire_log release_log)


lemma loop_all_log:
  assumes "loop_all f is s = Done r t" and "\<And>i a b u. f i a = Done u b \<Longrightarrow> bcache.more b = bcache.more a"
  shows "bcache.more t = bcache.more s"
  using assms(1) by (rule loop_all_Done_rel [where R = "\<lambda>a b. bcache.more b = bcache.more a"])
    (auto dest: assms(2))

lemma set_data_more [simp]: "bcache.more (set_data b g s) = bcache.more s"
  by (simp add: set_data_def upd_buf_more)

lemma write_log_log [log_frames]: "write_log s = Done r t \<Longrightarrow> bcache.more t = bcache.more s"
  unfolding write_log_def by (erule loop_all_log) (auto simp: write_one_def dest!: log_frames)

lemma install_trans_log [log_frames]: "install_trans rec s = Done r t \<Longrightarrow> bcache.more t = bcache.more s"
  unfolding install_trans_def
  by (erule loop_all_log) (auto simp: install_one_def split: if_splits dest!: log_frames)

lemma write_head_log [log_frames]: "write_head s = Done r t \<Longrightarrow> bcache.more t = bcache.more s"
  by (auto simp: write_head_def dest!: log_frames)

text \<open>
  \<open>log_run bs s\<close>: the log can be in state \<open>s\<close> with one outstanding operation for every element of
  \<open>bs\<close>, which is the number of blocks it may still write. \<open>begin_op\<close> gives an operation \<open>MAXOPBLOCKS\<close>,
  \<open>log_write\<close> takes one, and any other code of the kernel may run in between.
\<close>

inductive log_run :: "nat list \<Rightarrow> 'z logst_scheme \<Rightarrow> bool" where
  start: "lh_n s = 0 \<Longrightarrow> log_outstanding s = 0 \<Longrightarrow> \<not> log_committing s \<Longrightarrow> length (lh_block s) = LOGBLOCKS \<Longrightarrow>
    log_run [] s"
| begin_op: "log_run bs s \<Longrightarrow> begin_op s = Done () t \<Longrightarrow> log_run (MAXOPBLOCKS # bs) t"
| begin_op_resume: "log_run bs s \<Longrightarrow> begin_op_resume s = Done () t \<Longrightarrow> log_run (MAXOPBLOCKS # bs) t"
| log_write: "log_run (bs @ Suc k # cs) s \<Longrightarrow> log_write b s = Done () t \<Longrightarrow> log_run (bs @ k # cs) t"
| end_op: "log_run (bs @ k # cs) s \<Longrightarrow> end_op s = Done () t \<Longrightarrow> log_run (bs @ cs) t"
| other: "log_run bs s \<Longrightarrow> same_log s t \<Longrightarrow> log_run bs t"

definition space_inv :: "nat list \<Rightarrow> 'z logst_scheme \<Rightarrow> bool" where
  "space_inv bs s \<longleftrightarrow> 0 \<le> lh_n s \<and> log_outstanding s = int (length bs) \<and> \<not> log_committing s \<and>
     lh_n s + int (sum_list bs) \<le> int LOGBLOCKS \<and> (\<forall>k \<in> set bs. k \<le> MAXOPBLOCKS) \<and>
     length (lh_block s) = LOGBLOCKS"

lemma space_inv_cong: "same_log s t \<Longrightarrow> space_inv bs s \<Longrightarrow> space_inv bs t"
  by (simp add: space_inv_def same_log_simps)

lemma sum_list_budget: "\<forall>k \<in> set bs. k \<le> MAXOPBLOCKS \<Longrightarrow> sum_list bs \<le> length bs * MAXOPBLOCKS"
  by (induction bs) auto

lemma begin_op_turn_space:
  assumes "space_inv bs s" and "begin_op_turn s = Done () t"
  shows "space_inv (MAXOPBLOCKS # bs) t"
proof -
  have t: "release LogLock (s\<lparr>log_outstanding := log_outstanding s + 1\<rparr>) = Done () t"
    and le: "lh_n s + (log_outstanding s + 1) * int MAXOPBLOCKS \<le> int LOGBLOCKS"
    using assms(2) by (auto simp: begin_op_turn_def no_sleep split: if_splits)
  have "lh_n t = lh_n s" "log_outstanding t = log_outstanding s + 1" "log_committing t = log_committing s"
    "lh_block t = lh_block s"
    using t by (auto simp: release_def split: if_splits)
  moreover have "int (sum_list bs) \<le> int (length bs * MAXOPBLOCKS)"
    using sum_list_budget [of bs] assms(1) by (simp add: space_inv_def)
  ultimately show ?thesis using assms(1) le by (simp add: space_inv_def algebra_simps)
qed

lemma log_write_space:
  assumes "space_inv (bs @ Suc k # cs) s" and "log_write b s = Done () t"
  shows "space_inv (bs @ k # cs) t"
proof -
  let ?n = "nat (lh_n s)" and ?bn = "\<lambda>u. b_blockno (bufs u ! b)"
  obtain u where u: "acquire LogLock s = Done () u" using assms(2) by (auto simp: log_write_def)
  then have uf: "lh_n u = lh_n s" "log_outstanding u = log_outstanding s" "log_committing u = log_committing s"
    "lh_block u = lh_block s" by (auto simp: acquire_def split: if_splits)
  let ?i = "case first_idx (\<lambda>x. x = ?bn u) (take ?n (lh_block s)) of Some i \<Rightarrow> i | None \<Rightarrow> ?n"
  let ?v = "u\<lparr>lh_block := (lh_block s)[?i := ?bn u]\<rparr>"
  have lt: "lh_n s < int LOGBLOCKS" using assms(1) by (auto simp: space_inv_def)
  obtain w where w: "(if ?i = ?n then bnd (bpin b ?v) (\<lambda>_ s. Done () (s\<lparr>lh_n := lh_n s + 1\<rparr>)) else Done () ?v) = Done () w"
    "release LogLock w = Done () t"
    using assms(2) lt by (auto simp: log_write_def u Let_def uf split: if_splits)
  have "lh_n w \<in> {lh_n s, lh_n s + 1} \<and> log_outstanding w = log_outstanding s \<and>
    log_committing w = log_committing s \<and> length (lh_block w) = length (lh_block s)"
  proof (cases "?i = ?n")
    case True
    then obtain x where x: "bpin b ?v = Done () x" "w = x\<lparr>lh_n := lh_n x + 1\<rparr>" using w(1) by auto
    have "same_log ?v x" using bpin_log [OF x(1)] by (simp add: same_log_def)
    then show ?thesis using x(2) uf by (simp add: same_log_simps)
  qed (use w(1) uf in auto)
  moreover have "lh_n t = lh_n w" "log_outstanding t = log_outstanding w" "log_committing t = log_committing w"
    "lh_block t = lh_block w" using w(2) by (auto simp: release_def split: if_splits)
  ultimately show ?thesis using assms(1) by (auto simp: space_inv_def)
qed

lemma commit_count:
  assumes "commit s = Done r t" and "0 \<le> lh_n s"
  shows "lh_n t = 0 \<and> log_outstanding t = log_outstanding s \<and> log_committing t = log_committing s \<and>
    lh_block t = lh_block s"
proof (cases "0 < lh_n s")
  case True
  then obtain a b u where abu: "write_log s = Done () a" "write_head a = Done () b" "install_trans False b = Done () u"
    and v: "write_head (u\<lparr>lh_n := 0\<rparr>) = Done r t"
    using assms(1) by (auto simp: commit_def)
  have u: "bcache.more u = bcache.more s"
    using write_log_log [OF abu(1)] write_head_log [OF abu(2)] install_trans_log [OF abu(3)] by simp
  have "same_log s u" "same_log (u\<lparr>lh_n := 0\<rparr>) t" using u write_head_log [OF v] by (simp_all add: same_log_def)
  then show ?thesis by (simp add: same_log_simps)
next
  case False
  then show ?thesis using assms by (simp add: commit_def)
qed


lemma end_op_space:
  assumes "space_inv (bs @ k # cs) s" and "end_op s = Done () t"
  shows "space_inv (bs @ cs) t"
proof -
  obtain u where u: "acquire LogLock s = Done () u" using assms(2) by (auto simp: end_op_def)
  let ?v = "u\<lparr>log_outstanding := log_outstanding u - 1\<rparr>"
  have "same_log s u" using acquire_log [OF u] by (simp add: same_log_def)
  note su = same_log_simps [OF this]
  have out: "log_outstanding u - 1 = int (length (bs @ cs))" using assms(1) su by (simp add: space_inv_def)
  have v: "space_inv (bs @ cs) ?v" using assms(1) su by (auto simp: space_inv_def)
  show ?thesis
  proof (cases "log_outstanding u - 1 = 0")
    case True
    obtain w x y z where w: "release LogLock (?v\<lparr>log_committing := True\<rparr>) = Done () w" "commit w = Done () x"
      "acquire LogLock x = Done () y" "wakeup (Some ChLog) (y\<lparr>log_committing := False\<rparr>) = Done () z"
      "release LogLock z = Done () t"
      using assms True u su by (auto simp: end_op_def Let_def space_inv_def)
    have "same_log (?v\<lparr>log_committing := True\<rparr>) w" "same_log x y" "same_log (y\<lparr>log_committing := False\<rparr>) t"
      using release_log [OF w(1)] acquire_log [OF w(3)] wakeup_log [OF w(4)] release_log [OF w(5)]
      by (simp_all add: same_log_def)
    note sw = same_log_simps [OF this(1)] same_log_simps [OF this(2)] same_log_simps [OF this(3)]
    have "0 \<le> lh_n w" using v sw by (simp add: space_inv_def)
    from commit_count [OF w(2) this] v sw show ?thesis by (simp add: space_inv_def)
  next
    case False
    obtain w x where w: "wakeup (Some ChLog) ?v = Done () w" "release LogLock w = Done () t"
      using assms False u su by (auto simp: end_op_def Let_def space_inv_def)
    have "same_log ?v t" using wakeup_log [OF w(1)] release_log [OF w(2)] by (simp add: same_log_def)
    then show ?thesis using v by (rule space_inv_cong)
  qed
qed

lemma log_run_space: "log_run bs s \<Longrightarrow> space_inv bs s"
proof (induction rule: log_run.induct)
  case (begin_op bs s t)
  then obtain u where u: "acquire LogLock s = Done () u" "begin_op_turn u = Done () t" by (auto simp: begin_op_def)
  have "space_inv bs u" by (rule space_inv_cong [OF _ begin_op.IH]) (use acquire_log [OF u(1)] in \<open>simp add: same_log_def\<close>)
  then show ?case using u(2) by (rule begin_op_turn_space)
next
  case (begin_op_resume bs s t)
  then obtain u where u: "sleep_resume LogLock s = Done () u" "begin_op_turn u = Done () t" by (auto simp: begin_op_resume_def)
  have "same_log s u"
    using u(1) by (auto simp: sleep_resume_def with_myproc_def same_log_def upd_proc_def split: option.splits
        dest!: acquire_log release_log)
  from begin_op_turn_space [OF space_inv_cong [OF this begin_op_resume.IH] u(2)] show ?case .
next
  case (log_write bs k cs s b t)
  then show ?case by (auto intro: log_write_space)
next
  case (end_op bs k cs s t)
  then show ?case by (auto intro: end_op_space)
next
  case (other bs s t)
  then show ?case by (auto intro: space_inv_cong)
qed (simp add: space_inv_def)

text \<open>
  C29: operations that keep to their budget never overflow the log. In every state the log can reach with
  any number of operations begun, writing and ended in any order, a \<open>log_write\<close> by an operation that has
  written fewer than \<open>MAXOPBLOCKS\<close> blocks returns, without the panics \<open>too big a transaction\<close> and
  \<open>log_write outside of trans\<close>, and the header never holds more than \<open>LOGBLOCKS\<close> blocks.
\<close>
theorem log_write_has_space:
  assumes "log_run (bs @ Suc k # cs) s" and "calm s p"
  shows "(\<exists>t. log_write b s = Done () t) \<and> lh_n s < int LOGBLOCKS"
proof -
  have inv: "0 \<le> lh_n s" "1 \<le> log_outstanding s" "lh_n s < int LOGBLOCKS"
    using log_run_space [OF assms(1)] by (auto simp: space_inv_def)
  let ?s = "s\<lparr>held := [LogLock]\<rparr>"
  have a: "acquire LogLock s = Done () ?s" using assms(2) by (simp add: acquire_def calm_def)
  have pin: "\<exists>w. bpin b (?s\<lparr>lh_block := hb\<rparr>) = Done () w \<and> held w = [LogLock]" for hb
    by (simp add: bpin_def acquire_def release_def upd_buf_def)
  let ?n = "nat (lh_n s)"
  define i where "i = (case first_idx (\<lambda>x. x = b_blockno (bufs s ! b)) (take ?n (lh_block s)) of Some i \<Rightarrow> i | None \<Rightarrow> ?n)"
  let ?v = "?s\<lparr>lh_block := (lh_block s)[i := b_blockno (bufs s ! b)]\<rparr>"
  have run: "log_write b s = bnd (if i = ?n then bnd (bpin b ?v) (\<lambda>_ s. Done () (s\<lparr>lh_n := lh_n s + 1\<rparr>)) else Done () ?v)
      (\<lambda>_ s. release LogLock s)"
    using inv by (simp add: log_write_def a Let_def i_def)
  have "\<exists>t. log_write b s = Done () t"
  proof (cases "i = ?n")
    case True
    obtain w where "bpin b ?v = Done () w" "held w = [LogLock]" using pin by blast
    then show ?thesis using True run by (simp add: release_def)
  next
    case False
    then show ?thesis using run by (simp add: release_def)
  qed
  with inv(3) show ?thesis by blast
qed


text \<open>
  C36: a full log cannot commit. \<open>NBUF\<close> equals \<open>LOGBLOCKS\<close>: when the transaction holds \<open>LOGBLOCKS\<close>
  pinned blocks, every buffer is pinned, and the first \<open>bread\<close> of \<open>write_log\<close>, of the log block the copy
  goes to, panics in \<open>bget\<close>, although \<open>begin_op\<close> and \<open>log_write\<close> admit such a transaction.
\<close>
theorem full_log_commit_panics:
  assumes c: "cache s p Map.empty" and wf: "log_wf s bs" and full: "length bs = LOGBLOCKS"
    and pinned: "\<forall>b \<in> set bs. 0 < refs s b"
  shows "commit s = Panic ''bget: no buffers''"
proof -
  let ?lg = "log_start s + of_nat 0 + 1"
  note inv = cacheD(1) [OF c]
  have wfd: "distinct bs" "lh_n s = int LOGBLOCKS" "log_dev s = ROOTDEV" "set bs \<inter> log_area (log_start s) = {}"
    using wf full by (simp_all add: log_wf_def)
  have ex: "\<exists>i. caches s i b \<and> b_refcnt (bufs s ! i) \<noteq> 0" if "b \<in> set bs" for b
  proof (cases "holder s b")
    case None
    then show ?thesis using pinned that by (auto simp: refs_def)
  next
    case (Some i)
    then have "caches s i b" using holder_Some_iff [OF inv] by simp
    moreover have "0 < unat (b_refcnt (bufs s ! i))" using pinned that refs_cached [OF inv calculation] by auto
    ultimately show ?thesis by auto
  qed
  then obtain f where f: "\<And>b. b \<in> set bs \<Longrightarrow> caches s (f b) b \<and> b_refcnt (bufs s ! f b) \<noteq> 0" by metis
  have "inj_on f (set bs)" using f by (intro inj_onI) (metis caches_def)
  then have "card (f ` set bs) = NBUF" using wfd(1) full by (simp add: card_image distinct_card)
  moreover have "f ` set bs \<subseteq> {..<NBUF}" using f by (auto simp: caches_def)
  ultimately have im: "f ` set bs = {..<NBUF}" by (intro card_subset_eq) simp_all
  have "\<forall>i < NBUF. b_refcnt (bufs s ! i) \<noteq> 0" using im f by (metis imageE lessThan_iff)
  moreover have "\<forall>i. \<not> caches s i ?lg"
  proof (intro allI notI)
    fix i assume i: "caches s i ?lg"
    then have "i \<in> f ` set bs" using im by (auto simp: caches_def)
    then obtain b where "b \<in> set bs" "i = f b" by blast
    then have "b = ?lg" using f [of b] i by (simp add: caches_def)
    then show False using wfd(4) \<open>b \<in> set bs\<close> log_slot_area [of 0 "log_start s"] by auto
  qed
  ultimately have "bread ROOTDEV ?lg s = Panic ''bget: no buffers''"
    using bread_no_buffers_law [OF inv cacheD(2) [OF c]] by blast
  then have "write_one 0 s = Panic ''bget: no buffers''" using wfd(3) by (simp add: write_one_def)
  moreover have "[0..<nat (lh_n s)] = 0 # [1..<nat (lh_n s)]" using wfd(2) by (simp add: upt_conv_Cons)
  ultimately show ?thesis using wfd(2) by (simp add: commit_def write_log_def del: upt_conv_Cons)
qed

subsection \<open>Examples\<close>

text \<open>A log that starts at block 100, with the first \<open>k\<close> blocks of the disk in a transaction.\<close>

definition log_sample :: "nat \<Rightarrow> logst" where
  "log_sample k = bcache.extend (pinned_sample k)
     (logst.fields 100 0 False ROOTDEV (int k) (map of_nat [0..<LOGBLOCKS]))"

lemma bcache_extend_simps [simp]:
  "bufs (bcache.extend s x) = bufs s" "bnext (bcache.extend s x) = bnext s" "bprev (bcache.extend s x) = bprev s"
  "disk (bcache.extend s x) = disk s" "disk_writes (bcache.extend s x) = disk_writes s"
  "sleeplocks (bcache.extend s x) = sleeplocks s" "held (bcache.extend s x) = held s" "cur (bcache.extend s x) = cur s"
  "procs (bcache.extend s x) = procs s" "bcache.more (bcache.extend s x) = x"
  by (simp_all add: bcache.defs)

lemma bcache_extend_cache [simp]:
  "cache (bcache.extend s x) p H = cache s p H" "blk (bcache.extend s x) = blk s" "refs (bcache.extend s x) = refs s"
  by (simp_all add: cache_def bio_inv_def caches_def calm_def holds_sleep_def blk_def holder_def refs_def
      fun_eq_iff split: option.split)

lemma log_sample_fields [simp]:
  "log_start (log_sample k) = 100" "log_outstanding (log_sample k) = 0" "log_committing (log_sample k) = False"
  "log_dev (log_sample k) = ROOTDEV" "lh_n (log_sample k) = int k" "lh_block (log_sample k) = map of_nat [0..<LOGBLOCKS]"
  by (simp_all add: log_sample_def bcache.defs logst.defs)

lemma log_area_100: "n \<in> log_area 100 \<Longrightarrow> 100 \<le> unat n \<and> unat n \<le> 130"
proof -
  assume "n \<in> log_area 100"
  then obtain i where i: "i \<le> 30" "n = 100 + of_nat i" by (auto simp: log_area_def)
  then have "n = of_nat (100 + i)" by simp
  then have "unat n = 100 + i" using i(1) by (simp only: unat_of_nat) simp
  with i(1) show ?thesis by simp
qed

lemma log_sample_wf:
  assumes "k \<le> LOGBLOCKS"
  shows "log_wf (log_sample k) (map of_nat [0..<k])" and "cache (log_sample k) 0 Map.empty"
    and "refs (log_sample k) n = (if unat n < k then 1 else 0)" and "disk (log_sample k) = (\<lambda>_ _. 0)"
proof -
  have "distinct (map of_nat [0..<k] :: u32 list)"
    using assms small_nat_u32 by (auto simp: distinct_map intro!: inj_onI) (metis less_le_trans)
  moreover have "set (map of_nat [0..<k]) \<inter> log_area 100 = {}"
  proof -
    have "of_nat i \<notin> log_area 100" if "i < k" for i
      using log_area_100 [of "of_nat i"] small_nat_u32 [of i] that assms by fastforce
    then show ?thesis by auto
  qed
  ultimately show "log_wf (log_sample k) (map of_nat [0..<k])"
    using assms by (simp add: log_wf_def take_map)
  show "cache (log_sample k) 0 Map.empty" "refs (log_sample k) n = (if unat n < k then 1 else 0)"
    using pinned_sample_cache [OF assms] pinned_sample_refs(1) [OF assms] by (simp_all add: log_sample_def)
  have "disk bio_sample = (\<lambda>_ _. 0)"
    unfolding bio_sample_def by (subst binit_inv) (simp_all add: bcache.defs sltab.defs)
  then show "disk (log_sample k) = (\<lambda>_ _. 0)" by (simp add: log_sample_def pinned_sample_def)
qed

lemma zero_block_ld32: "ld32 (\<lambda>_. 0) off = 0"
proof -
  have "load_bytes (\<lambda>_ :: nat. 0 :: u8) off 4 = replicate 4 0"
    by (rule nth_equalityI) (simp_all add: load_bytes_nth)
  then show ?thesis by (simp add: ld32_def) code_simp
qed

lemma commit_crash_atomic_witness:
  "\<exists>t ws. commit (log_sample 1) = Done () t \<and> length ws = 4 \<and>
    recovered 100 (apply_writes (take 2 ws) (disk (log_sample 1))) 0 = (\<lambda>_. 1)"
proof -
  have "0 \<notin> log_area (100 :: u32)" using log_area_100 [of 0] by auto
  moreover have "room (log_sample 1) {0} 1"
    using log_sample_wf(3) [of 1] by (auto simp: room_def unat_eq_0)
  moreover have "blk (log_sample 1) 0 = (\<lambda>_. 1)"
    using pinned_sample_refs(2) [of 1 0] by (simp add: log_sample_def)
  ultimately have "\<exists>t ws. commit (log_sample 1) = Done () t \<and>
      disk_writes t = disk_writes (log_sample 1) @ ws \<and> length ws = 4 \<and>
      recovered 100 (apply_writes (take 2 ws) (disk (log_sample 1))) 0 = (\<lambda>_. 1)"
    using commit_crash_atomic [OF log_sample_wf(2,1), of 1 "{0}" 0 2] log_sample_wf(3) [of 1 0]
      log_sample_wf(4) [of 1] by (simp add: zero_block_ld32)
  then show ?thesis by blast
qed

lemma full_log_commit_panics_witness: "commit (log_sample 30) = Panic ''bget: no buffers''"
  by (rule full_log_commit_panics [OF log_sample_wf(2,1)])
    (auto simp: log_sample_wf(3) small_nat_u32)

lemma log_write_has_space_witness:
  "\<exists>t. begin_op (log_sample 0) = Done () t \<and> (\<exists>u. log_write 0 t = Done () u)"
proof -
  let ?t = "(log_sample 0)\<lparr>log_outstanding := 1\<rparr>"
  have calm: "calm (log_sample 0) 0" using cacheD(2) [OF log_sample_wf(2) [of 0]] by simp
  then have b: "begin_op (log_sample 0) = Done () ?t"
    by (simp add: begin_op_def begin_op_turn_def acquire_def release_def calm_def)
  have "log_run [] (log_sample 0)" by (rule log_run.start) simp_all
  from log_run.begin_op [OF this b] have "log_run ([] @ Suc 9 # []) ?t" by simp
  from log_write_has_space [OF this, of 0 0] calm b show ?thesis by (auto simp: calm_def)
qed

text \<open>A disk whose log lists block 7, with ones in its copy.\<close>

definition crashed_disk :: "u32 \<Rightarrow> block" where
  "crashed_disk = (\<lambda>_ _. 0)(100 := put_head 1 [7] (\<lambda>_. 0), 101 := (\<lambda>_. 1))"

lemma crashed_disk_good: "log_entries 100 crashed_disk = [7]" "good_header 100 crashed_disk"
proof -
  have e: "ld32 (crashed_disk 100) 0 = 1" "ld32 (crashed_disk 100) (hdr_entry 0) = 7"
    using ld32_put_head_entry [of 0 1 "[7]" "\<lambda>_. 0"] by (simp_all add: crashed_disk_def ld32_put_head_count)
  then show l: "log_entries 100 crashed_disk = [7]" by (simp add: log_entries_def)
  show "good_header 100 crashed_disk"
    using l e log_area_100 [of 7] by (auto simp: good_header_def)
qed

lemma recovery_idempotent_witness:
  "recovered 100 (apply_writes (take 1 (recover_writes 100 crashed_disk)) crashed_disk) 7 = (\<lambda>_. 1)"
proof -
  have "recovered 100 crashed_disk 7 = crashed_disk (100 + of_nat 0 + 1)"
    using recovered_nth [of 100 crashed_disk 0] crashed_disk_good(1) by simp
  then show ?thesis
    using recovery_idempotent [OF crashed_disk_good(2), of 7 1] log_area_100 [of 7]
    by (auto simp: crashed_disk_def)
qed

lemma recover_from_log_refines_witness:
  "\<exists>t. recover_from_log ((log_sample 0)\<lparr>disk := crashed_disk\<rparr>) = Done () t \<and> disk t = recovered 100 crashed_disk"
proof -
  let ?s = "(log_sample 0)\<lparr>disk := crashed_disk\<rparr>"
  have none: "\<not> caches (log_sample 0) i n" for i n
    using pinned_sample_caches [of 0 i n] by (simp add: log_sample_def caches_def)
  then have h: "holder ?s n = None" for n by (simp add: holder_None_iff caches_def)
  have c: "cache (log_sample 0) 0 Map.empty" by (rule log_sample_wf(2)) simp
  have i: "bio_inv ?s"
  proof (rule bio_invI)
    show "\<forall>i j n. caches ?s i n \<longrightarrow> caches ?s j n \<longrightarrow> i = j"
      using none by (auto simp: caches_def)
    show "b_data (bufs ?s ! i) = disk ?s (b_blockno (bufs ?s ! i))" if "i < NBUF" "b_valid (bufs ?s ! i)" for i
      using none [of i "b_blockno (bufs ?s ! i)"] bio_invD(5) [OF cacheD(1) [OF c] that(1)] that by (simp add: caches_def)
  qed (use bio_invD [OF cacheD(1) [OF c]] in simp_all)
  then have "cache ?s 0 Map.empty" using c by (simp add: cache_def calm_def)
  moreover have "blk ?s = disk ?s" "refs ?s = (\<lambda>_. 0)" using h by (simp_all add: blk_def refs_def fun_eq_iff)
  ultimately show ?thesis using recover_from_log_refines [of ?s 0] crashed_disk_good(2) by auto
qed

end
