(* ===== verification/Fs.thy ===== *)
theory Fs
  imports Log
begin

section \<open>fs.c: blocks and inodes\<close>

text \<open>
  The in-memory inode table is a list of \<open>NINODE\<close> records; an \<open>inode *\<close> is an index, \<open>None\<close> the null
  pointer. The fields of a \<open>dinode\<close> are read and written in the block that holds it, at the offsets of
  \<open>fs.h\<close>. The loops over blocks, bits and inode numbers are written as recursions over the values the
  C variable takes; \<open>readi\<close> and \<open>writei\<close> recurse on the number of bytes still to copy. A \<open>readi\<close> into a
  local object of the kernel (\<open>ToLocal\<close>) returns the bytes the object receives; a \<open>writei\<close> from one
  (\<open>FromLocal\<close>) is given its bytes.
\<close>

record superblock =
  sb_magic :: u32
  sb_size :: u32
  sb_nblocks :: u32
  sb_ninodes :: u32
  sb_nlog :: u32
  sb_logstart :: u32
  sb_inodestart :: u32
  sb_bmapstart :: u32

record inode =
  i_dev :: u32
  i_inum :: u32
  i_ref :: int
  i_valid :: bool
  i_type :: u16
  i_major :: u16
  i_minor :: u16
  i_nlink :: u16
  i_size :: u32
  i_addrs :: "u32 list"

record fsst = logst +
  sb :: superblock
  itable :: "inode list"

abbreviation NINODE :: nat where "NINODE \<equiv> 50"
abbreviation NDIRECT :: nat where "NDIRECT \<equiv> 12"
abbreviation NINDIRECT :: nat where "NINDIRECT \<equiv> 256"
abbreviation MAXFILE :: nat where "MAXFILE \<equiv> NDIRECT + NINDIRECT"
abbreviation BPB :: nat where "BPB \<equiv> 8192"
abbreviation IPB :: u32 where "IPB \<equiv> 16"
abbreviation FSMAGIC :: u32 where "FSMAGIC \<equiv> 0x10203040"
abbreviation ROOTINO :: u32 where "ROOTINO \<equiv> 1"
abbreviation T_DIR :: u16 where "T_DIR \<equiv> 1"
abbreviation T_FILE :: u16 where "T_FILE \<equiv> 2"
abbreviation T_DEVICE :: u16 where "T_DEVICE \<equiv> 3"

definition IBLOCK :: "u32 \<Rightarrow> 'z fsst_scheme \<Rightarrow> u32" where
  "IBLOCK i s = i div IPB + sb_inodestart (sb s)"

definition BBLOCK :: "u32 \<Rightarrow> 'z fsst_scheme \<Rightarrow> u32" where
  "BBLOCK b s = b div of_nat BPB + sb_bmapstart (sb s)"

definition upd_ino :: "nat \<Rightarrow> (inode \<Rightarrow> inode) \<Rightarrow> 'z fsst_scheme \<Rightarrow> 'z fsst_scheme" where
  "upd_ino i f s = s\<lparr>itable := (itable s)[i := f (itable s ! i)]\<rparr>"

abbreviation ino :: "'z fsst_scheme \<Rightarrow> nat \<Rightarrow> inode" where
  "ino s i \<equiv> itable s ! i"

text \<open>The data of the buffer \<open>b\<close>.\<close>

abbreviation bdata :: "'z fsst_scheme \<Rightarrow> nat \<Rightarrow> block" where
  "bdata s b \<equiv> b_data (bufs s ! b)"

text \<open>The idiom \<open>modify; log_write(bp); brelse(bp)\<close>.\<close>

definition log_release :: "nat \<Rightarrow> (block \<Rightarrow> block) \<Rightarrow> 'z fsst_scheme \<Rightarrow> ('z fsst_scheme, unit) outcome" where
  "log_release b g s = bnd (log_write b (set_data b g s)) (\<lambda>_ s. brelse b s)"

subsection \<open>Blocks\<close>

definition readsb :: "u32 \<Rightarrow> 'z fsst_scheme \<Rightarrow> ('z fsst_scheme, unit) outcome" where
  "readsb dev s =
     bnd (bread dev 1 s) (\<lambda>b s.
       let d = bdata s b in
       brelse b (s\<lparr>sb := \<lparr>sb_magic = ld32 d 0, sb_size = ld32 d 4, sb_nblocks = ld32 d 8, sb_ninodes = ld32 d 12,
         sb_nlog = ld32 d 16, sb_logstart = ld32 d 20, sb_inodestart = ld32 d 24, sb_bmapstart = ld32 d 28\<rparr>\<rparr>))"

definition zero_data :: "block \<Rightarrow> block" where
  "zero_data d = store_bytes 0 (replicate BSIZE 0) d"

definition bzero :: "u32 \<Rightarrow> u32 \<Rightarrow> 'z fsst_scheme \<Rightarrow> ('z fsst_scheme, unit) outcome" where
  "bzero dev bno s = bnd (bread dev bno s) (\<lambda>b s. log_release b zero_data s)"

definition bit_used :: "block \<Rightarrow> nat \<Rightarrow> bool" where
  "bit_used d bi \<longleftrightarrow> d (bi div 8) AND push_bit (bi mod 8) 1 \<noteq> 0"

definition set_used :: "nat \<Rightarrow> block \<Rightarrow> block" where
  "set_used bi d = d(bi div 8 := d (bi div 8) OR push_bit (bi mod 8) 1)"

definition clear_used :: "nat \<Rightarrow> block \<Rightarrow> block" where
  "clear_used bi d = d(bi div 8 := d (bi div 8) AND NOT (push_bit (bi mod 8) 1))"

text \<open>One bitmap block: \<open>b\<close> is the number of the first block it describes.\<close>

definition balloc_block :: "u32 \<Rightarrow> nat \<Rightarrow> 'z fsst_scheme \<Rightarrow> ('z fsst_scheme, u32 option) outcome" where
  "balloc_block dev b s =
     bnd (bread dev (BBLOCK (of_nat b) s) s) (\<lambda>bp s.
       case find (\<lambda>bi. \<not> bit_used (bdata s bp) bi) [0..<min BPB (unat (sb_size (sb s)) - b)] of
         Some bi \<Rightarrow>
           bnd (log_release bp (set_used bi) s) (\<lambda>_ s.
           bnd (bzero dev (of_nat (b + bi)) s) (\<lambda>_ s. Done (Some (of_nat (b + bi))) s))
       | None \<Rightarrow> bnd (brelse bp s) (\<lambda>_ s. Done None s))"

definition balloc :: "u32 \<Rightarrow> 'z fsst_scheme \<Rightarrow> ('z fsst_scheme, u32) outcome" where
  "balloc dev s =
     bnd (loop_until (\<lambda>k. balloc_block dev (k * BPB)) [0..<(unat (sb_size (sb s)) + BPB - 1) div BPB] s) (\<lambda>r s.
       case r of Some a \<Rightarrow> Done a s
       | None \<Rightarrow> bnd (kprintf (''balloc: out of blocks'' @ [CHR 0x0A]) [] s) (\<lambda>_ s. Done 0 s))"

definition bfree :: "u32 \<Rightarrow> u32 \<Rightarrow> 'z fsst_scheme \<Rightarrow> ('z fsst_scheme, unit) outcome" where
  "bfree dev b s =
     bnd (bread dev (BBLOCK b s) s) (\<lambda>bp s.
       let bi = unat b mod BPB in
       if \<not> bit_used (bdata s bp) bi then Panic ''freeing free block''
       else log_release bp (clear_used bi) s)"

subsection \<open>Inodes\<close>

definition iinit :: "'z fsst_scheme \<Rightarrow> 'z fsst_scheme" where
  "iinit s = fold (\<lambda>i. initsleeplock (InodeLk i)) [0..<NINODE] s"

text \<open>\<open>first_empty\<close> is the variable \<open>empty\<close> when the scan of \<open>iget\<close> has found no entry for the inode.\<close>

definition iget :: "u32 \<Rightarrow> u32 \<Rightarrow> 'z fsst_scheme \<Rightarrow> ('z fsst_scheme, nat) outcome" where
  "iget dev inum s =
     bnd (acquire ItableLock s) (\<lambda>_ s.
       case find (\<lambda>i. 0 < i_ref (ino s i) \<and> i_dev (ino s i) = dev \<and> i_inum (ino s i) = inum) [0..<NINODE] of
         Some i \<Rightarrow>
           bnd (release ItableLock (upd_ino i (\<lambda>x. x\<lparr>i_ref := i_ref x + 1\<rparr>) s)) (\<lambda>_ s. Done i s)
       | None \<Rightarrow>
           (case find (\<lambda>i. i_ref (ino s i) = 0) [0..<NINODE] of
              None \<Rightarrow> Panic ''iget: no inodes''
            | Some i \<Rightarrow>
                bnd (release ItableLock (upd_ino i (\<lambda>x. x\<lparr>i_dev := dev, i_inum := inum, i_ref := 1, i_valid := False\<rparr>) s))
                  (\<lambda>_ s. Done i s)))"

definition idup :: "nat \<Rightarrow> 'z fsst_scheme \<Rightarrow> ('z fsst_scheme, nat) outcome" where
  "idup i s =
     bnd (acquire ItableLock s) (\<lambda>_ s.
     bnd (release ItableLock (upd_ino i (\<lambda>x. x\<lparr>i_ref := i_ref x + 1\<rparr>) s)) (\<lambda>_ s. Done i s))"

text \<open>The byte offset of a \<open>dinode\<close> in its block, and its fields.\<close>

definition dinode_off :: "u32 \<Rightarrow> nat" where
  "dinode_off inum = 64 * unat (inum mod IPB)"

definition get_dinode :: "block \<Rightarrow> nat \<Rightarrow> inode \<Rightarrow> inode" where
  "get_dinode d o' x = x\<lparr>i_type := ld16 d o', i_major := ld16 d (o' + 2), i_minor := ld16 d (o' + 4),
     i_nlink := ld16 d (o' + 6), i_size := ld32 d (o' + 8),
     i_addrs := map (\<lambda>k. ld32 d (o' + 12 + 4 * k)) [0..<NDIRECT + 1]\<rparr>"

definition put_dinode :: "inode \<Rightarrow> nat \<Rightarrow> block \<Rightarrow> block" where
  "put_dinode x o' d =
     fold (\<lambda>k. st32 (o' + 12 + 4 * k) (i_addrs x ! k)) [0..<NDIRECT + 1]
       (st32 (o' + 8) (i_size x) (st16 (o' + 6) (i_nlink x) (st16 (o' + 4) (i_minor x)
         (st16 (o' + 2) (i_major x) (st16 o' (i_type x) d)))))"

definition ialloc :: "u32 \<Rightarrow> u16 \<Rightarrow> 'z fsst_scheme \<Rightarrow> ('z fsst_scheme, nat option) outcome" where
  "ialloc dev type s =
     bnd (loop_until (\<lambda>k s.
       let inum = of_nat k :: u32 in
       bnd (bread dev (IBLOCK inum s) s) (\<lambda>bp s.
         if ld16 (bdata s bp) (dinode_off inum) = 0 then
           bnd (log_release bp (\<lambda>d. st16 (dinode_off inum) type (store_bytes (dinode_off inum) (replicate 64 0) d)) s) (\<lambda>_ s.
           bnd (iget dev inum s) (\<lambda>i s. Done (Some i) s))
         else bnd (brelse bp s) (\<lambda>_ s. Done None s))) [1..<unat (sb_ninodes (sb s))] s) (\<lambda>r s.
       case r of Some i \<Rightarrow> Done (Some i) s
       | None \<Rightarrow> bnd (kprintf (''ialloc: no inodes'' @ [CHR 0x0A]) [] s) (\<lambda>_ s. Done None s))"

definition iupdate :: "nat \<Rightarrow> 'z fsst_scheme \<Rightarrow> ('z fsst_scheme, unit) outcome" where
  "iupdate i s =
     bnd (bread (i_dev (ino s i)) (IBLOCK (i_inum (ino s i)) s) s) (\<lambda>bp s.
       log_release bp (put_dinode (ino s i) (dinode_off (i_inum (ino s i)))) s)"

definition ilock :: "nat option \<Rightarrow> 'z fsst_scheme \<Rightarrow> ('z fsst_scheme, unit) outcome" where
  "ilock ip s = (case ip of None \<Rightarrow> Panic ''ilock'' | Some i \<Rightarrow>
     if i_ref (ino s i) < 1 then Panic ''ilock''
     else bnd (acquiresleep (InodeLk i) s) (\<lambda>_ s.
       if \<not> i_valid (ino s i) then
         bnd (bread (i_dev (ino s i)) (IBLOCK (i_inum (ino s i)) s) s) (\<lambda>bp s.
         bnd (brelse bp (upd_ino i (get_dinode (bdata s bp) (dinode_off (i_inum (ino s i)))) s)) (\<lambda>_ s.
           let s = upd_ino i (\<lambda>x. x\<lparr>i_valid := True\<rparr>) s in
           if i_type (ino s i) = 0 then Panic ''ilock: no type'' else Done () s))
       else Done () s))"

definition iunlock :: "nat option \<Rightarrow> 'z fsst_scheme \<Rightarrow> ('z fsst_scheme, unit) outcome" where
  "iunlock ip s = (case ip of None \<Rightarrow> Panic ''iunlock'' | Some i \<Rightarrow>
     bnd (holdingsleep (InodeLk i) s) (\<lambda>h s.
       if \<not> h \<or> i_ref (ino s i) < 1 then Panic ''iunlock'' else releasesleep (InodeLk i) s))"

subsection \<open>Inode content\<close>

definition set_addr :: "nat \<Rightarrow> nat \<Rightarrow> u32 \<Rightarrow> 'z fsst_scheme \<Rightarrow> 'z fsst_scheme" where
  "set_addr i k a s = upd_ino i (\<lambda>x. x\<lparr>i_addrs := (i_addrs x)[k := a]\<rparr>) s"

text \<open>\<open>if((addr = ip->addrs[k]) == 0) addr = ip->addrs[k] = balloc(ip->dev)\<close>, the slot kept on failure.\<close>

definition addr_or_alloc :: "nat \<Rightarrow> nat \<Rightarrow> 'z fsst_scheme \<Rightarrow> ('z fsst_scheme, u32) outcome" where
  "addr_or_alloc i k s =
     (let addr = i_addrs (ino s i) ! k in
      if addr = 0 then
        bnd (balloc (i_dev (ino s i)) s) (\<lambda>addr s.
          if addr = 0 then Done 0 s else Done addr (set_addr i k addr s))
      else Done addr s)"

definition bmap :: "nat \<Rightarrow> u32 \<Rightarrow> 'z fsst_scheme \<Rightarrow> ('z fsst_scheme, u32) outcome" where
  "bmap i bn s =
     (if bn < of_nat NDIRECT then addr_or_alloc i (unat bn) s
      else
        let bn = bn - of_nat NDIRECT in
        if bn < of_nat NINDIRECT then
          bnd (addr_or_alloc i NDIRECT s) (\<lambda>addr s.
            if addr = 0 then Done 0 s
            else
              bnd (bread (i_dev (ino s i)) addr s) (\<lambda>bp s.
                let addr = ld32 (bdata s bp) (4 * unat bn) in
                bnd (if addr = 0 then
                       bnd (balloc (i_dev (ino s i)) s) (\<lambda>addr s.
                         if addr \<noteq> 0 then
                           bnd (log_write bp (set_data bp (st32 (4 * unat bn) addr) s)) (\<lambda>_ s. Done addr s)
                         else Done addr s)
                     else Done addr s) (\<lambda>addr s.
                bnd (brelse bp s) (\<lambda>_ s. Done addr s))))
        else Panic ''bmap: out of range'')"

definition free_addr :: "nat \<Rightarrow> nat \<Rightarrow> 'z fsst_scheme \<Rightarrow> ('z fsst_scheme, unit) outcome" where
  "free_addr i k s =
     (if i_addrs (ino s i) ! k \<noteq> 0 then
        bnd (bfree (i_dev (ino s i)) (i_addrs (ino s i) ! k) s) (\<lambda>_ s. Done () (set_addr i k 0 s))
      else Done () s)"

definition itrunc :: "nat \<Rightarrow> 'z fsst_scheme \<Rightarrow> ('z fsst_scheme, unit) outcome" where
  "itrunc i s =
     bnd (loop_all (free_addr i) [0..<NDIRECT] s) (\<lambda>_ s.
     bnd (if i_addrs (ino s i) ! NDIRECT \<noteq> 0 then
            bnd (bread (i_dev (ino s i)) (i_addrs (ino s i) ! NDIRECT) s) (\<lambda>bp s.
            bnd (loop_all (\<lambda>j s.
                   if ld32 (bdata s bp) (4 * j) \<noteq> 0 then bfree (i_dev (ino s i)) (ld32 (bdata s bp) (4 * j)) s
                   else Done () s) [0..<NINDIRECT] s) (\<lambda>_ s.
            bnd (brelse bp s) (\<lambda>_ s. free_addr i NDIRECT s)))
          else Done () s) (\<lambda>_ s.
       iupdate i (upd_ino i (\<lambda>x. x\<lparr>i_size := 0\<rparr>) s)))"

definition iput :: "nat \<Rightarrow> 'z fsst_scheme \<Rightarrow> ('z fsst_scheme, unit) outcome" where
  "iput i s =
     bnd (acquire ItableLock s) (\<lambda>_ s.
     bnd (if i_ref (ino s i) = 1 \<and> i_valid (ino s i) \<and> i_nlink (ino s i) = 0 then
            bnd (acquiresleep (InodeLk i) s) (\<lambda>_ s.
            bnd (release ItableLock s) (\<lambda>_ s.
            bnd (itrunc i s) (\<lambda>_ s.
            bnd (iupdate i (upd_ino i (\<lambda>x. x\<lparr>i_type := 0\<rparr>) s)) (\<lambda>_ s.
            bnd (releasesleep (InodeLk i) (upd_ino i (\<lambda>x. x\<lparr>i_valid := False\<rparr>) s)) (\<lambda>_ s.
              acquire ItableLock s)))))
          else Done () s) (\<lambda>_ s.
       release ItableLock (upd_ino i (\<lambda>x. x\<lparr>i_ref := i_ref x - 1\<rparr>) s)))"

definition iunlockput :: "nat \<Rightarrow> 'z fsst_scheme \<Rightarrow> ('z fsst_scheme, unit) outcome" where
  "iunlockput i s = bnd (iunlock (Some i) s) (\<lambda>_ s. iput i s)"

definition ireclaim_one :: "u32 \<Rightarrow> nat \<Rightarrow> 'z fsst_scheme \<Rightarrow> ('z fsst_scheme, unit) outcome" where
  "ireclaim_one dev k s =
     (let inum = of_nat k :: u32; o' = dinode_off inum in
      bnd (bread dev (IBLOCK inum s) s) (\<lambda>bp s.
      bnd (if ld16 (bdata s bp) o' \<noteq> 0 \<and> ld16 (bdata s bp) (o' + 6) = 0 then
             bnd (kprintf (''ireclaim: orphaned inode %d'' @ [CHR 0x0A]) [VReg (of_nat k)] s) (\<lambda>_ s.
             bnd (iget dev inum s) (\<lambda>i s. Done (Some i) s))
           else Done None s) (\<lambda>ip s.
      bnd (brelse bp s) (\<lambda>_ s.
        case ip of None \<Rightarrow> Done () s
        | Some i \<Rightarrow>
            bnd (begin_op s) (\<lambda>_ s.
            bnd (ilock (Some i) s) (\<lambda>_ s.
            bnd (iunlock (Some i) s) (\<lambda>_ s.
            bnd (iput i s) (\<lambda>_ s. end_op s))))))))"

definition ireclaim :: "u32 \<Rightarrow> 'z fsst_scheme \<Rightarrow> ('z fsst_scheme, unit) outcome" where
  "ireclaim dev s = loop_all (ireclaim_one dev) [1..<unat (sb_ninodes (sb s))] s"

definition fsinit :: "u32 \<Rightarrow> 'z fsst_scheme \<Rightarrow> ('z fsst_scheme, unit) outcome" where
  "fsinit dev s =
     bnd (readsb dev s) (\<lambda>_ s.
       if sb_magic (sb s) \<noteq> FSMAGIC then Panic ''invalid file system''
       else bnd (initlog dev (sb_logstart (sb s)) s) (\<lambda>_ s. ireclaim dev s))"

text \<open>\<open>struct stat\<close> as filled by \<open>stati\<close>.\<close>

record stat =
  st_dev :: u32
  st_ino :: u32
  st_type :: u16
  st_nlink :: u16
  st_size :: u64

definition stati :: "nat \<Rightarrow> 'z fsst_scheme \<Rightarrow> stat" where
  "stati i s = \<lparr>st_dev = i_dev (ino s i), st_ino = i_inum (ino s i), st_type = i_type (ino s i),
     st_nlink = i_nlink (ino s i), st_size = ucast (i_size (ino s i))\<rparr>"

subsection \<open>readi and writei\<close>

datatype rdst = ToUser u64 | ToKernel u64 | ToLocal
datatype wsrc = FromUser u64 | FromKernel u64 | FromLocal "u8 list"

definition copy_dst :: "rdst \<Rightarrow> u32 \<Rightarrow> u8 list \<Rightarrow> u32 \<Rightarrow> 'z ptab_scheme \<Rightarrow> ('z ptab_scheme, int) outcome" where
  "copy_dst dst tot bytes m s = (case dst of
     ToUser a \<Rightarrow> either_copyout True (a + ucast tot) bytes (ucast m) s
   | ToKernel a \<Rightarrow> either_copyout False (a + ucast tot) bytes (ucast m) s
   | ToLocal \<Rightarrow> Done 0 s)"

definition copy_src :: "wsrc \<Rightarrow> u32 \<Rightarrow> u32 \<Rightarrow> 'z ptab_scheme \<Rightarrow> ('z ptab_scheme, int \<times> u8 list) outcome" where
  "copy_src src tot m s = (case src of
     FromUser a \<Rightarrow> either_copyin True (a + ucast tot) (ucast m) s
   | FromKernel a \<Rightarrow> either_copyin False (a + ucast tot) (ucast m) s
   | FromLocal bs \<Rightarrow> Done (0, take (unat m) (drop (unat tot) bs)) s)"

text \<open>\<open>min(n - tot, BSIZE - off % BSIZE)\<close>\<close>

definition io_chunk :: "u32 \<Rightarrow> u32 \<Rightarrow> u32" where
  "io_chunk off left = min left (of_nat BSIZE - off mod of_nat BSIZE)"

lemma io_chunk_bounds:
  assumes "0 < left"
  shows "0 < io_chunk off left" and "io_chunk off left \<le> left"
proof -
  have "off mod 1024 < (1024 :: u32)" by (rule word_mod_less_divisor) simp
  then have "0 < 1024 - off mod (1024 :: u32)" by (simp add: word_less_nat_alt unat_sub_if')
  then show "0 < io_chunk off left" using assms by (simp add: io_chunk_def min_def)
  show "io_chunk off left \<le> left" by (simp add: io_chunk_def)
qed


lemma io_left_decreases:
  assumes "tot < (n :: u32)"
  shows "unat (n - (tot + io_chunk off (n - tot))) < unat (n - tot)"
proof -
  have "0 < n - tot" using assms by (simp add: word_less_nat_alt unat_sub_if')
  note m = io_chunk_bounds [OF this, of off]
  have eq: "n - (tot + io_chunk off (n - tot)) = (n - tot) - io_chunk off (n - tot)" by (simp only: diff_diff_add)
  have "unat (n - (tot + io_chunk off (n - tot))) = unat (n - tot) - unat (io_chunk off (n - tot))"
    unfolding eq by (rule unat_sub [OF m(2)])
  then show ?thesis using m by (simp add: word_less_nat_alt word_le_nat_alt)
qed

function readi_loop ::
  "nat \<Rightarrow> rdst \<Rightarrow> u32 \<Rightarrow> u32 \<Rightarrow> u32 \<Rightarrow> 'z fsst_scheme \<Rightarrow> ('z fsst_scheme, int \<times> u8 list) outcome" where
  "readi_loop i dst n tot off s =
     (if \<not> tot < n then Done (sint tot, []) s
      else
        bnd (bmap i (off div of_nat BSIZE) s) (\<lambda>addr s.
          if addr = 0 then Done (sint tot, []) s
          else
            bnd (bread (i_dev (ino s i)) addr s) (\<lambda>bp s.
              let m = io_chunk off (n - tot);
                  bytes = load_bytes (bdata s bp) (unat (off mod of_nat BSIZE)) (unat m) in
              bnd (copy_dst dst tot bytes m s) (\<lambda>r s.
              bnd (brelse bp s) (\<lambda>_ s.
                if r = -1 then Done (-1, []) s
                else bnd (readi_loop i dst n (tot + m) (off + m) s) (\<lambda>(r, rest) s. Done (r, bytes @ rest) s))))))"
  by pat_completeness auto
termination
  by (relation "measure (\<lambda>(i, dst, n, tot, off, s). unat (n - tot))") (use io_left_decreases in auto)

declare readi_loop.simps [simp del]

definition readi ::
  "nat \<Rightarrow> rdst \<Rightarrow> u32 \<Rightarrow> u32 \<Rightarrow> 'z fsst_scheme \<Rightarrow> ('z fsst_scheme, int \<times> u8 list) outcome" where
  "readi i dst off n s =
     (let size = i_size (ino s i) in
      if size < off \<or> off + n < off then Done (0, []) s
      else
        let n = (if size < off + n then size - off else n)
        in readi_loop i dst n 0 off s)"

text \<open>The result of the loop of \<open>writei\<close> is \<open>tot\<close> and \<open>off\<close>.\<close>

function writei_loop ::
  "nat \<Rightarrow> wsrc \<Rightarrow> u32 \<Rightarrow> u32 \<Rightarrow> u32 \<Rightarrow> 'z fsst_scheme \<Rightarrow> ('z fsst_scheme, u32 \<times> u32) outcome" where
  "writei_loop i src n tot off s =
     (if \<not> tot < n then Done (tot, off) s
      else
        bnd (bmap i (off div of_nat BSIZE) s) (\<lambda>addr s.
          if addr = 0 then Done (tot, off) s
          else
            bnd (bread (i_dev (ino s i)) addr s) (\<lambda>bp s.
              let m = io_chunk off (n - tot) in
              bnd (copy_src src tot m s) (\<lambda>(r, bytes) s.
                let s = set_data bp (store_bytes (unat (off mod of_nat BSIZE)) bytes) s in
                if r = -1 then bnd (brelse bp s) (\<lambda>_ s. Done (tot, off) s)
                else
                  bnd (log_write bp s) (\<lambda>_ s.
                  bnd (brelse bp s) (\<lambda>_ s. writei_loop i src n (tot + m) (off + m) s))))))"
  by pat_completeness auto
termination
  by (relation "measure (\<lambda>(i, src, n, tot, off, s). unat (n - tot))") (use io_left_decreases in auto)

declare writei_loop.simps [simp del]

definition writei :: "nat \<Rightarrow> wsrc \<Rightarrow> u32 \<Rightarrow> u32 \<Rightarrow> 'z fsst_scheme \<Rightarrow> ('z fsst_scheme, int) outcome" where
  "writei i src off n s =
     (if i_size (ino s i) < off \<or> off + n < off then Done (-1) s
      else if of_nat (MAXFILE * BSIZE) < off + n then Done (-1) s
      else
        bnd (writei_loop i src n 0 off s) (\<lambda>(tot, off) s.
          let s = (if i_size (ino s i) < off then upd_ino i (\<lambda>x. x\<lparr>i_size := off\<rparr>) s else s) in
          bnd (iupdate i s) (\<lambda>_ s. Done (sint tot) s)))"

end
