(* ===== verification/Txn.thy ===== *)
theory Txn
  imports Fs
begin

section \<open>Transactions on blocks\<close>

text \<open>
  The file system code between \<open>begin_op\<close> and \<open>end_op\<close> changes blocks with \<open>bread\<close>, \<open>log_write\<close> and
  \<open>brelse\<close>. \<open>txn p bs H s\<close>: process \<open>p\<close>, alone in the file system, is inside a transaction whose header
  lists the blocks \<open>bs\<close>, which are pinned; it holds the buffers \<open>H\<close>. Every other block has in the cache the
  contents it has on disk. \<open>blk s\<close> is then the file system as the code sees it, a map from block numbers
  to contents, and the laws below say what the operations do to it.
\<close>

definition txn :: "nat \<Rightarrow> u32 list \<Rightarrow> (nat \<rightharpoonup> u32) \<Rightarrow> 'z fsst_scheme \<Rightarrow> bool" where
  "txn p bs H s \<longleftrightarrow> cache s p H \<and> log_wf s bs \<and> 0 < log_outstanding s \<and>
     (\<forall>n. refs s n = (if n \<in> set bs then 1 else 0) + (if n \<in> ran H then 1 else 0)) \<and>
     (\<forall>n. n \<notin> set bs \<longrightarrow> n \<notin> ran H \<longrightarrow> blk s n = disk s n)"

definition same_fs :: "'z fsst_scheme \<Rightarrow> 'z fsst_scheme \<Rightarrow> bool" where
  "same_fs s t \<longleftrightarrow> log_start t = log_start s \<and> log_outstanding t = log_outstanding s \<and>
     log_committing t = log_committing s \<and> log_dev t = log_dev s \<and> logst.more t = logst.more s \<and>
     mem t = mem s \<and> cur t = cur s \<and> held t = held s \<and> same_owners s t"

lemma same_fs_simps:
  assumes "same_fs s t"
  shows "log_start t = log_start s" and "log_outstanding t = log_outstanding s" and "log_dev t = log_dev s"
    and "log_committing t = log_committing s" and "sb t = sb s" and "itable t = itable s" and "fsst.more t = fsst.more s"
    and "IBLOCK i t = IBLOCK i s" and "BBLOCK i t = BBLOCK i s"
proof -
  have m: "logst.more t = logst.more s" using assms by (simp add: same_fs_def)
  show "sb t = sb s" "itable t = itable s" "fsst.more t = fsst.more s" using m by (cases s; cases t; simp)+
  then show "IBLOCK i t = IBLOCK i s" "BBLOCK i t = BBLOCK i s" by (simp_all add: IBLOCK_def BBLOCK_def)
qed (use assms in \<open>simp_all add: same_fs_def\<close>)

lemma same_fs_refl [simp]: "same_fs s s"
  by (simp add: same_fs_def)

lemma same_fs_trans: "same_fs s t \<Longrightarrow> same_fs t u \<Longrightarrow> same_fs s u"
  by (auto simp: same_fs_def intro: same_owners_trans)

lemma same_fs_owners: "same_fs s t \<Longrightarrow> same_owners s t"
  by (simp add: same_fs_def)

lemma only_bio_fs: "only_bio s t \<Longrightarrow> same_fs s t"
  using same_log_simps [OF only_bio_same_log [of s t]] by (simp add: same_fs_def only_bio_frame only_bio_owners)

lemma txn_refs_bound: "txn p bs H s \<Longrightarrow> refs s n < 2 ^ 32 - 1"
  by (simp add: txn_def)

lemma txn_cache: "txn p bs H s \<Longrightarrow> cache s p H"
  by (simp add: txn_def)

lemma txn_bread:
  assumes t: "txn p bs H s" and n: "n \<notin> ran H" and r: "finite (ran H)" "card (set bs \<union> ran H \<union> {n}) \<le> NBUF"
  shows "\<exists>b t. bread ROOTDEV n s = Done b t \<and> H b = None \<and> txn p bs (H(b \<mapsto> n)) t \<and> blk t = blk s \<and>
    b_data (bufs t ! b) = blk s n \<and> disk t = disk s \<and> same_fs s t"
proof -
  have sub: "{m. 0 < refs s m} \<subseteq> set bs \<union> ran H \<union> {n}" using t by (auto simp: txn_def)
  obtain b u where u: "bread ROOTDEV n s = Done b u" "H b = None" "cache u p (H(b \<mapsto> n))" "blk u = blk s"
    "refs u = (refs s)(n := refs s n + 1)" "disk u = disk s" "only_bio s u"
    using bc.rd [OF txn_cache [OF t] n txn_refs_bound [OF t] _ sub _ r(2)] r(1) by auto
  have ran: "ran (H(b \<mapsto> n)) = insert n (ran H)" using u(2) by (simp add: ran_map_upd)
  note sl = only_bio_same_log [OF u(7)]
  have "log_wf u bs" using t sl by (auto simp: txn_def intro: log_effect_wf)
  then have "txn p bs (H(b \<mapsto> n)) u"
    using t u ran n same_log_simps(2) [OF sl] by (simp add: txn_def)
  moreover have "b_data (bufs u ! b) = blk s n" using cacheD(5) [OF u(3), of b n] u(4) by simp
  ultimately show ?thesis using u only_bio_fs by blast
qed

lemma txn_brelse:
  assumes t: "txn p bs H s" and b: "H b = Some n" and uniq: "n \<notin> ran (H(b := None))"
    and clean: "n \<notin> set bs \<Longrightarrow> blk s n = disk s n"
  shows "\<exists>t. brelse b s = Done () t \<and> txn p bs (H(b := None)) t \<and> blk t = blk s \<and> same_fs s t \<and> disk t = disk s"
proof -
  have nr: "n \<in> ran H" using b by (auto simp: ran_def)
  have rn: "refs s n = (if n \<in> set bs then 1 else 0) + 1" using t nr by (simp add: txn_def)
  then have "2 \<le> refs s n \<or> blk s n = disk s n" using clean by auto
  then obtain u where u: "brelse b s = Done () u" "cache u p (H(b := None))" "blk u = blk s"
    "refs u = (refs s)(n := refs s n - 1)" "disk u = disk s" "only_bio s u"
    using brelse_law [OF txn_cache [OF t] b] by blast
  have ran: "m \<in> ran (H(b := None)) \<longleftrightarrow> m \<in> ran H \<and> m \<noteq> n" for m
  proof
    assume "m \<in> ran (H(b := None))"
    then show "m \<in> ran H \<and> m \<noteq> n" using uniq by (auto simp: ran_def split: if_splits)
  next
    assume m: "m \<in> ran H \<and> m \<noteq> n"
    then obtain a where a: "H a = Some m" by (auto simp: ran_def)
    with b m have "a \<noteq> b" by auto
    with a have "(H(b := None)) a = Some m" by simp
    then show "m \<in> ran (H(b := None))" by (rule ranI)
  qed
  note sl = only_bio_same_log [OF u(6)]
  have "log_wf u bs" using t sl by (auto simp: txn_def intro: log_effect_wf)
  then have "txn p bs (H(b := None)) u"
    using t u rn ran clean same_log_simps(2) [OF sl] by (auto simp: txn_def)
  then show ?thesis using u only_bio_fs by blast
qed

text \<open>The blocks of the transaction after \<open>log_write\<close> of block \<open>n\<close>.\<close>

definition logged :: "u32 \<Rightarrow> u32 list \<Rightarrow> u32 list" where
  "logged n bs = (if n \<in> set bs then bs else bs @ [n])"

lemma set_logged [simp]: "set (logged n bs) = insert n (set bs)"
  by (auto simp: logged_def)

lemma length_logged: "length (logged n bs) \<le> Suc (length bs)"
  by (simp add: logged_def)

lemma log_write_eq:
  assumes c: "cache s p H" and wf: "log_wf s bs" and out: "0 < log_outstanding s" and b: "H b = Some n"
    and len: "length bs < LOGBLOCKS" and r: "refs s n < 2 ^ 32 - 1"
  shows "\<exists>t. log_write b s = Done () t \<and> cache t p H \<and> blk t = blk s \<and> disk t = disk s \<and>
    refs t = (if n \<in> set bs then refs s else (refs s)(n := refs s n + 1)) \<and> same_fs s t \<and>
    lh_n t = int (length (logged n bs)) \<and> length (lh_block t) = LOGBLOCKS \<and>
    take (length (logged n bs)) (lh_block t) = logged n bs"
proof -
  note bb = cacheD(5) [OF c b] and calm = cacheD(2) [OF c]
  have w: "lh_n s = int (length bs)" "length (lh_block s) = LOGBLOCKS" "take (length bs) (lh_block s) = bs" "distinct bs"
    using wf by (simp_all add: log_wf_def)
  define i where "i = (case first_idx (\<lambda>x. x = n) bs of Some i \<Rightarrow> i | None \<Rightarrow> length bs)"
  let ?hb = "(lh_block s)[i := n]"
  let ?v = "s\<lparr>held := [LogLock], lh_block := ?hb\<rparr>"
  have run: "log_write b s = bnd (if i = length bs then bnd (bpin b ?v) (\<lambda>_ s. Done () (s\<lparr>lh_n := lh_n s + 1\<rparr>)) else Done () ?v)
      (\<lambda>_ s. release LogLock s)"
    using w calm bb out len by (simp add: log_write_def acquire_def calm_def Let_def i_def)
  show ?thesis
  proof (cases "n \<in> set bs")
    case True
    then obtain j where j: "j < length bs" "bs ! j = n" by (auto simp: in_set_conv_nth)
    obtain k where k: "first_idx (\<lambda>x. x = n) bs = Some k" "k < length bs" "bs ! k = n"
      using first_idx_complete [of j bs "\<lambda>x. x = n"] j first_idx_SomeD [of "\<lambda>x. x = n" bs] by auto
    have "lh_block s ! k = n" using k w(3) by (metis nth_take)
    then have "?hb = lh_block s" using k by (simp add: i_def) (metis list_update_id)
    moreover have "log_write b s = Done () (s\<lparr>lh_block := ?hb\<rparr>)"
    proof -
      have "release LogLock ?v = Done () (s\<lparr>lh_block := ?hb\<rparr>)"
        using cacheD(4) [OF c] by (simp add: release_def)
      then show ?thesis unfolding run using k by (simp add: i_def)
    qed
    ultimately have "log_write b s = Done () s" by simp
    then show ?thesis using True w c by (auto simp: logged_def)
  next
    case False
    then have "first_idx (\<lambda>x. x = n) bs = None" by (auto simp: first_idx_None_iff)
    then have i: "i = length bs" by (simp add: i_def)
    have "b_refcnt (bufs s ! b) + 1 \<noteq> 0" "unat (b_refcnt (bufs s ! b) + 1) = refs s n + 1"
      using r bb refcnt_Suc [of "b_refcnt (bufs s ! b)"] by simp_all
    note rc = set_refcnt_law [OF c b this(1)] this(2)
    let ?t = "(set_refcnt b (b_refcnt (bufs s ! b) + 1) s)\<lparr>lh_block := ?hb, lh_n := lh_n s + 1\<rparr>"
    have "log_write b s = Done () ?t"
    proof -
      have "bpin b ?v = Done () ((set_refcnt b (b_refcnt (bufs s ! b) + 1) s)\<lparr>held := [LogLock], lh_block := ?hb\<rparr>)"
        by (simp add: bpin_def acquire_def release_def)
          (rule logst.equality; simp add: set_refcnt_def upd_buf_def)
      then show ?thesis unfolding run using i cacheD(4) [OF c]
        by (simp add: release_def) (rule logst.equality; simp add: set_refcnt_def upd_buf_def)
    qed
    moreover have "same_fs s ?t" by (simp add: same_fs_def set_refcnt_def upd_buf_def same_owners_procs)
    moreover have "take (length (logged n bs)) ?hb = logged n bs"
      using False i w len by (simp add: logged_def take_Suc_conv_app_nth take_update_swap)
    ultimately show ?thesis using False w rc by (intro exI [of _ ?t]) (simp add: logged_def)
  qed
qed


lemma txn_set_data:
  assumes t: "txn p bs H s" and b: "H b = Some n"
  shows "txn p bs H (set_data b g s) \<and> blk (set_data b g s) = (blk s)(n := g (blk s n)) \<and>
    b_data (bufs (set_data b g s) ! b) = g (blk s n) \<and> same_fs s (set_data b g s) \<and> disk (set_data b g s) = disk s"
proof -
  have nr: "n \<in> ran H" using b by (auto simp: ran_def)
  have u: "cache (set_data b g s) p H" "blk (set_data b g s) = (blk s)(n := g (blk s n))"
    "refs (set_data b g s) = refs s" "disk (set_data b g s) = disk s" "only_bio s (set_data b g s)"
    using set_data_law [OF txn_cache [OF t] b, of g] by blast+
  note sl = only_bio_same_log [OF u(5)]
  have "log_wf (set_data b g s) bs" using t sl by (auto simp: txn_def intro: log_effect_wf)
  then have "txn p bs H (set_data b g s)"
    using t u nr same_log_simps(2) [OF sl] by (auto simp: txn_def)
  moreover have "b_data (bufs (set_data b g s) ! b) = g (blk s n)"
    using cacheD(5) [OF u(1) b] u(2) by simp
  ultimately show ?thesis using u(2,4) only_bio_fs [OF u(5)] by blast
qed

lemma txn_log_write:
  assumes t: "txn p bs H s" and b: "H b = Some n" and n: "n \<notin> log_area (log_start s)" and len: "length bs < LOGBLOCKS"
  shows "\<exists>t. log_write b s = Done () t \<and> txn p (logged n bs) H t \<and> blk t = blk s \<and> same_fs s t \<and> disk t = disk s"
proof -
  have wf: "log_wf s bs" and out: "0 < log_outstanding s" using t by (simp_all add: txn_def)
  have nr: "n \<in> ran H" using b by (auto simp: ran_def)
  obtain u where u: "log_write b s = Done () u" "cache u p H" "blk u = blk s" "disk u = disk s"
    "refs u = (if n \<in> set bs then refs s else (refs s)(n := refs s n + 1))" "same_fs s u"
    "lh_n u = int (length (logged n bs))" "length (lh_block u) = LOGBLOCKS"
    "take (length (logged n bs)) (lh_block u) = logged n bs"
    using log_write_eq [OF txn_cache [OF t] wf out b len txn_refs_bound [OF t]] by blast
  have "log_wf u (logged n bs)"
    using wf n len u(6-9) length_logged [of n bs] by (auto simp: log_wf_def logged_def same_fs_simps)
  then have "txn p (logged n bs) H u"
    using t u nr same_fs_simps(2) [OF u(6)] by (auto simp: txn_def)
  with u show ?thesis by blast
qed

text \<open>Read, modify, log and release: one block changes, and it is in the transaction.\<close>

lemma txn_log_release:
  assumes t: "txn p bs H s" and b: "H b = Some n" and uniq: "n \<notin> ran (H(b := None))"
    and n: "n \<notin> log_area (log_start s)" and len: "length bs < LOGBLOCKS"
  shows "\<exists>t. log_release b g s = Done () t \<and> txn p (logged n bs) (H(b := None)) t \<and>
    blk t = (blk s)(n := g (blk s n)) \<and> same_fs s t \<and> disk t = disk s"
proof -
  let ?s = "set_data b g s"
  have s: "txn p bs H ?s" "blk ?s = (blk s)(n := g (blk s n))" "same_fs s ?s" "disk ?s = disk s" using txn_set_data [OF t b] by auto
  have n': "n \<notin> log_area (log_start ?s)" using n s(3) by (simp add: same_fs_simps)
  obtain u where u: "log_write b ?s = Done () u" "txn p (logged n bs) H u" "blk u = blk ?s" "same_fs ?s u" "disk u = disk ?s"
    using txn_log_write [OF s(1) b n' len] by blast
  obtain v where v: "brelse b u = Done () v" "txn p (logged n bs) (H(b := None)) v" "blk v = blk u" "same_fs u v" "disk v = disk u"
    using txn_brelse [OF u(2) b uniq] by auto
  have "same_fs s v" using s(3) u(4) v(4) by (blast intro: same_fs_trans)
  then show ?thesis using u v s by (intro exI [of _ v]) (simp add: log_release_def)
qed

text \<open>\<open>beside H n bs\<close>: with the buffers \<open>H\<close> held there is room to use block \<open>n\<close> and to log it.\<close>

definition beside :: "(nat \<rightharpoonup> u32) \<Rightarrow> u32 \<Rightarrow> u32 list \<Rightarrow> bool" where
  "beside H n bs \<longleftrightarrow> finite (ran H) \<and> n \<notin> ran H \<and> length bs + card (ran H) < LOGBLOCKS"

lemma beside_empty [simp]: "beside Map.empty n bs \<longleftrightarrow> length bs < LOGBLOCKS"
  by (simp add: beside_def)

lemma beside_card: "beside H n bs \<Longrightarrow> finite (ran H) \<and> card (set bs \<union> ran H \<union> {n}) \<le> NBUF"
proof -
  assume b: "beside H n bs"
  have "card (set bs \<union> ran H \<union> {n}) \<le> card (set bs) + card (ran H) + 1"
    using card_Un_le [of "set bs \<union> ran H" "{n}"] card_Un_le [of "set bs" "ran H"] by simp
  then show ?thesis using b card_length [of bs] by (simp add: beside_def)
qed

lemma ran_upd_back: "H b = None \<Longrightarrow> (H(b \<mapsto> n))(b := None) = H"
  by (simp add: fun_upd_idem)

lemma txn_update_beside:
  assumes t: "txn p bs H s" and n: "n \<notin> log_area (log_start s)" and h: "beside H n bs"
  shows "\<exists>t. bnd (bread ROOTDEV n s) (\<lambda>b s. log_release b g s) = Done () t \<and> txn p (logged n bs) H t \<and>
    blk t = (blk s)(n := g (blk s n)) \<and> same_fs s t \<and> disk t = disk s"
proof -
  have nr: "n \<notin> ran H" and len: "length bs < LOGBLOCKS" using h by (simp_all add: beside_def)
  obtain b u where u: "bread ROOTDEV n s = Done b u" "H b = None" "txn p bs (H(b \<mapsto> n)) u" "blk u = blk s" "same_fs s u"
    "disk u = disk s"
    using txn_bread [OF t nr] beside_card [OF h] by auto
  have out: "n \<notin> log_area (log_start u)" using n u(5) by (simp add: same_fs_simps)
  have "n \<notin> ran ((H(b \<mapsto> n))(b := None))" unfolding ran_upd_back [of H b n, OF u(2)] by (rule nr)
  from txn_log_release [OF u(3) _ this out len, of g] obtain v where
    v: "log_release b g u = Done () v" "txn p (logged n bs) H v" "blk v = (blk s)(n := g (blk s n))" "same_fs u v" "disk v = disk u"
    using u(4) ran_upd_back [of H b n, OF u(2)] by auto
  with u same_fs_trans [OF u(5) v(4)] show ?thesis by auto
qed

lemmas txn_update = txn_update_beside [where H = Map.empty, unfolded beside_empty]

text \<open>Reading a block and releasing it.\<close>

lemma txn_peek_beside:
  assumes t: "txn p bs H s" and h: "beside H n bs"
  shows "\<exists>b u v. bread ROOTDEV n s = Done b u \<and> H b = None \<and> b_data (bufs u ! b) = blk s n \<and> same_fs s u \<and>
    txn p bs (H(b \<mapsto> n)) u \<and> blk u = blk s \<and> disk u = disk s \<and> brelse b u = Done () v \<and> txn p bs H v \<and> blk v = blk s \<and>
    same_fs s v \<and> disk v = disk s"
proof -
  have nr: "n \<notin> ran H" using h by (simp add: beside_def)
  obtain b u where u: "bread ROOTDEV n s = Done b u" "H b = None" "txn p bs (H(b \<mapsto> n)) u" "blk u = blk s" "same_fs s u"
    "b_data (bufs u ! b) = blk s n" "disk u = disk s"
    using txn_bread [OF t nr] beside_card [OF h] by auto
  have c: "n \<notin> set bs \<Longrightarrow> blk u n = disk u n" using t u nr by (simp add: txn_def)
  have "n \<notin> ran ((H(b \<mapsto> n))(b := None))" unfolding ran_upd_back [of H b n, OF u(2)] by (rule nr)
  from txn_brelse [OF u(3) _ this c] obtain v where v:
    "brelse b u = Done () v" "txn p bs H v" "blk v = blk s" "same_fs u v" "disk v = disk u"
    using u(4) ran_upd_back [of H b n, OF u(2)] by auto
  have "disk v = disk s" using v(5) u(7) by simp
  with u v same_fs_trans [OF u(5) v(4)] show ?thesis by blast
qed

lemmas txn_peek = txn_peek_beside [where H = Map.empty, unfolded beside_empty]

text \<open>Several changes in a row.\<close>

lemma txn_room:
  assumes "txn p bs H s"
  shows "length bs \<le> LOGBLOCKS"
  using assms by (simp add: txn_def log_wf_def)

subsection \<open>The block allocator\<close>

lemma bit_exp_u8: "bit (2 ^ k :: u8) i \<longleftrightarrow> i = k \<and> k < 8"
  by (auto simp: bit_exp_iff)

lemma bit_used_iff: "bit_used d bi \<longleftrightarrow> bit (d (bi div 8)) (bi mod 8)"
  by (simp add: bit_used_def and_exp_eq_0_iff_not_bit)

lemma bit_used_set: "bit_used (set_used a d) b \<longleftrightarrow> a = b \<or> bit_used d b"
proof -
  have "a div 8 = b div 8 \<and> a mod 8 = b mod 8 \<longleftrightarrow> a = b" by (metis div_mult_mod_eq)
  then show ?thesis by (auto simp: bit_used_iff set_used_def bit_or_iff bit_exp_u8)
qed

lemma bit_used_clear: "bit_used (clear_used a d) b \<longleftrightarrow> a \<noteq> b \<and> bit_used d b"
proof -
  have "a div 8 = b div 8 \<and> a mod 8 = b mod 8 \<longleftrightarrow> a = b" by (metis div_mult_mod_eq)
  then show ?thesis by (auto simp: bit_used_iff clear_used_def bit_and_iff bit_not_iff bit_exp_u8)
qed

lemma clear_set_used:
  assumes "\<not> bit_used d a"
  shows "clear_used a (set_used a d) = d"
proof (rule ext)
  fix i
  show "clear_used a (set_used a d) i = d i"
  proof (cases "i = a div 8")
    case True
    then show ?thesis using assms
      by (auto simp: clear_used_def set_used_def bit_used_iff bit_and_iff bit_or_iff bit_not_iff bit_exp_u8
          intro!: bit_word_eqI)
  qed (simp add: clear_used_def set_used_def)
qed


text \<open>
  \<open>free_bit s a\<close>: the bitmap says block \<open>a\<close> is free. \<open>layout s\<close>: the bitmap blocks lie outside the log,
  and a block marked free lies outside the log and is no bitmap block (\<open>mkfs\<close> marks all of these used).
\<close>

definition free_bit :: "'z fsst_scheme \<Rightarrow> nat \<Rightarrow> bool" where
  "free_bit s a \<longleftrightarrow> \<not> bit_used (blk s (BBLOCK (of_nat a) s)) (a mod BPB)"

definition layout :: "'z fsst_scheme \<Rightarrow> bool" where
  "layout s \<longleftrightarrow> (\<forall>a < unat (sb_size (sb s)). BBLOCK (of_nat a) s \<notin> log_area (log_start s) \<and>
     (free_bit s a \<longrightarrow> of_nat a \<notin> log_area (log_start s) \<and>
        (\<forall>c < unat (sb_size (sb s)). of_nat a \<noteq> BBLOCK (of_nat c) s)))"

lemma BBLOCK_nat: "a < 2 ^ 32 \<Longrightarrow> BBLOCK (of_nat a) s = of_nat (a div BPB) + sb_bmapstart (sb s)"
proof -
  assume a: "a < 2 ^ 32"
  have "a div BPB < 2 ^ 32" by (rule le_less_trans [OF div_le_dividend a])
  then have "unat (of_nat a div of_nat BPB :: u32) = unat (of_nat (a div BPB) :: u32)"
    using a unat_of_nat [of a, where 'a = 32] unat_of_nat [of "a div BPB", where 'a = 32]
    by (simp add: unat_div_distrib)
  then have "of_nat a div of_nat BPB = (of_nat (a div BPB) :: u32)" by (rule word_unat_eq_iff [THEN iffD2])
  then show ?thesis unfolding BBLOCK_def by (rule arg_cong)
qed

lemma BBLOCK_same: "a < 2 ^ 32 \<Longrightarrow> c < 2 ^ 32 \<Longrightarrow> a div BPB = c div BPB \<Longrightarrow> BBLOCK (of_nat a) s = BBLOCK (of_nat c) s"
  by (simp add: BBLOCK_nat)

lemma free_bit_cong: "blk t = blk s \<Longrightarrow> same_fs s t \<Longrightarrow> free_bit t a = free_bit s a"
  by (simp add: free_bit_def same_fs_simps)

lemma layout_cong: "blk t = blk s \<Longrightarrow> same_fs s t \<Longrightarrow> layout s \<Longrightarrow> layout t"
  unfolding layout_def by (simp only: free_bit_cong same_fs_simps)

text \<open>What \<open>balloc\<close> does when it finds block \<open>a\<close>.\<close>

definition allocated_in ::
  "nat \<Rightarrow> u32 list \<Rightarrow> (nat \<rightharpoonup> u32) \<Rightarrow> 'z fsst_scheme \<Rightarrow> nat \<Rightarrow> 'z fsst_scheme \<Rightarrow> bool" where
  "allocated_in p bs H s a t \<longleftrightarrow>
     blk t = (blk s)(BBLOCK (of_nat a) s := set_used (a mod BPB) (blk s (BBLOCK (of_nat a) s)),
                     of_nat a := zero_data (blk s (of_nat a))) \<and>
     txn p (logged (of_nat a) (logged (BBLOCK (of_nat a) s) bs)) H t \<and> same_fs s t \<and> disk t = disk s"

abbreviation allocated :: "nat \<Rightarrow> u32 list \<Rightarrow> 'z fsst_scheme \<Rightarrow> nat \<Rightarrow> 'z fsst_scheme \<Rightarrow> bool" where
  "allocated p bs \<equiv> allocated_in p bs Map.empty"

text \<open>The buffers that are held meanwhile are of neither bitmap blocks nor free blocks.\<close>

definition apart :: "(nat \<rightharpoonup> u32) \<Rightarrow> 'z fsst_scheme \<Rightarrow> bool" where
  "apart H s \<longleftrightarrow> finite (ran H) \<and>
     (\<forall>a < unat (sb_size (sb s)). BBLOCK (of_nat a) s \<notin> ran H \<and> (free_bit s a \<longrightarrow> of_nat a \<notin> ran H))"

lemma apart_empty [simp]: "apart Map.empty s"
  by (simp add: apart_def)

lemma apart_cong:
  assumes "blk t = blk s" and fs: "same_fs s t" and "apart H s"
  shows "apart H t"
  using assms(3) unfolding apart_def free_bit_cong [OF assms(1,2)] same_fs_simps(5) [OF fs] same_fs_simps(9) [OF fs] .

lemma balloc_block_law:
  assumes t: "txn p bs H s" and len: "length bs + card (ran H) + 2 \<le> LOGBLOCKS" and lay: "layout s" and ap: "apart H s"
    and k: "k * BPB < unat (sb_size (sb s))"
  shows "\<exists>r t. balloc_block ROOTDEV (k * BPB) s = Done r t \<and>
    (case r of
       Some a \<Rightarrow> (\<exists>c. a = of_nat c \<and> k * BPB \<le> c \<and> c < min (Suc k * BPB) (unat (sb_size (sb s))) \<and> free_bit s c \<and>
         (\<forall>i. k * BPB \<le> i \<longrightarrow> i < c \<longrightarrow> \<not> free_bit s i) \<and> allocated_in p bs H s c t)
     | None \<Rightarrow> (\<forall>i. k * BPB \<le> i \<longrightarrow> i < min (Suc k * BPB) (unat (sb_size (sb s))) \<longrightarrow> \<not> free_bit s i) \<and>
         txn p bs H t \<and> blk t = blk s \<and> same_fs s t \<and> disk t = disk s)"
proof -
  let ?size = "unat (sb_size (sb s))" and ?n = "BBLOCK (of_nat (k * BPB)) s"
  have size: "?size < 2 ^ 32" using unsigned_less [of "sb_size (sb s)", where 'a = nat] by simp
  have bb: "BBLOCK (of_nat (k * BPB + bi)) s = ?n" if "bi < BPB" "k * BPB + bi < ?size" for bi
    using that size by (intro BBLOCK_same) simp_all
  have fb: "free_bit s (k * BPB + bi) \<longleftrightarrow> \<not> bit_used (blk s ?n) bi" if "bi < BPB" "k * BPB + bi < ?size" for bi
    using bb [OF that] that by (simp add: free_bit_def)
  have n: "?n \<notin> log_area (log_start s)" using lay k by (auto simp: layout_def)
  have len1: "length bs < LOGBLOCKS" using len by simp
  have fin: "finite (ran H)" and nr: "?n \<notin> ran H" using ap k by (auto simp: apart_def)
  have hn: "beside H ?n bs" using fin nr len by (simp add: beside_def)
  obtain b u v where u: "bread ROOTDEV ?n s = Done b u" "b_data (bufs u ! b) = blk s ?n" "same_fs s u"
    "txn p bs (H(b \<mapsto> ?n)) u" "blk u = blk s" "H b = None" "disk u = disk s"
    and v: "brelse b u = Done () v" "txn p bs H v" "blk v = blk s" "same_fs s v" "disk v = disk s"
    using txn_peek_beside [OF t hn] by blast
  note bk = ran_upd_back [of H b ?n, OF u(6)]
  let ?Q = "\<lambda>bi. \<not> bit_used (blk s ?n) bi" and ?m = "min BPB (?size - k * BPB)"
  have run: "balloc_block ROOTDEV (k * BPB) s = (case find ?Q [0..<?m] of
      Some bi \<Rightarrow> bnd (log_release b (set_used bi) u) (\<lambda>_ s.
           bnd (bzero ROOTDEV (of_nat (k * BPB + bi)) s) (\<lambda>_ s. Done (Some (of_nat (k * BPB + bi))) s))
    | None \<Rightarrow> Done None v)"
    using u v(1) same_fs_simps(5) [OF u(3)] by (simp add: balloc_block_def split: option.split)
  show ?thesis
  proof (cases "find ?Q [0..<?m]")
    case None
    have "\<not> free_bit s i" if i: "k * BPB \<le> i" "i < min (Suc k * BPB) ?size" for i
    proof -
      define bi where "bi = i - k * BPB"
      have bi: "i = k * BPB + bi" using i(1) by (simp add: bi_def)
      then have "bi < ?m" using i(2) by auto
      then have "\<not> ?Q bi" using None by (simp add: find_None_iff)
      then show ?thesis using fb [of bi] bi i by simp
    qed
    then show ?thesis using None run v by simp
  next
    case (Some bi)
    then have bi: "bi < ?m" "?Q bi" "\<And>j. j < bi \<Longrightarrow> \<not> ?Q j" by (simp_all add: find_upt_Some_iff)
    let ?a = "k * BPB + bi"
    have a: "?a < ?size" "bi < BPB" using bi(1) by auto
    have free: "free_bit s ?a" using fb a bi(2) by simp
    have out: "of_nat ?a \<notin> log_area (log_start s)" "of_nat ?a \<noteq> ?n" "of_nat ?a \<notin> ran H"
      using lay ap free a(1) k unfolding layout_def apart_def by blast+
    have "?n \<notin> ran ((H(b \<mapsto> ?n))(b := None))" "?n \<notin> log_area (log_start u)"
      unfolding bk using nr n same_fs_simps(1) [OF u(3)] by simp_all
    from txn_log_release [OF u(4) _ this len1, of "set_used bi"] obtain w where
      w: "log_release b (set_used bi) u = Done () w" "txn p (logged ?n bs) H w"
      "blk w = (blk s)(?n := set_used bi (blk s ?n))" "same_fs u w" "disk w = disk u"
      unfolding bk using u(5) by auto
    have sw: "same_fs s w" by (rule same_fs_trans [OF u(3) w(4)])
    have "beside H (of_nat ?a) (logged ?n bs)"
      using length_logged [of ?n bs] len fin out(3) by (simp add: beside_def)
    from txn_update_beside [OF w(2) _ this, of zero_data] obtain x where
      x: "bzero ROOTDEV (of_nat ?a) w = Done () x" "txn p (logged (of_nat ?a) (logged ?n bs)) H x"
      "blk x = (blk w)(of_nat ?a := zero_data (blk w (of_nat ?a)))" "same_fs w x" "disk x = disk w"
      using out(1) same_fs_simps(1) [OF sw] by (auto simp: bzero_def)
    have "?a mod BPB = bi" using a(2) by simp
    then have "allocated_in p bs H s ?a x"
      unfolding allocated_in_def bb [OF a(2,1)]
      using x w out(2) u(7) same_fs_trans [OF sw x(4)] by simp
    moreover have "\<not> free_bit s i" if "k * BPB \<le> i" "i < ?a" for i
    proof -
      define j where "j = i - k * BPB"
      have j: "i = k * BPB + j" using that(1) by (simp add: j_def)
      then have "j < bi" "j < BPB" "k * BPB + j < ?size" using that(2) a by linarith+
      then show ?thesis unfolding j using fb [of j] bi(3) [of j] by blast
    qed
    moreover have "?a < min (Suc k * BPB) ?size" using a by simp
    ultimately have "\<exists>c. of_nat ?a = (of_nat c :: u32) \<and> k * BPB \<le> c \<and> c < min (Suc k * BPB) ?size \<and> free_bit s c \<and>
         (\<forall>i. k * BPB \<le> i \<longrightarrow> i < c \<longrightarrow> \<not> free_bit s i) \<and> allocated_in p bs H s c x"
      using free le_add1 [of "k * BPB" bi] by blast
    moreover have "balloc_block ROOTDEV (k * BPB) s = Done (Some (of_nat ?a)) x"
      using run w(1) x(1) unfolding Some by simp
    ultimately show ?thesis by (intro exI [of _ "Some (of_nat ?a)"] exI [of _ x]) (simp only: option.case)
  qed
qed


lemma kputs_fs [simp]: "same_fs s (kputs cs s)" "txn p bs H (kputs cs s) = txn p bs H s"
proof -
  have l: "same_log s (kputs cs s)" by simp
  then show f: "same_fs s (kputs cs s)"
    using same_log_simps [OF l] by (simp add: same_fs_def same_owners_procs kputs_def)
  have "log_wf (kputs cs s) bs = log_wf s bs" using same_log_simps [OF l] by (simp add: log_wf_def)
  then show "txn p bs H (kputs cs s) = txn p bs H s" using same_fs_simps(2) [OF f] by (simp add: txn_def)
qed

lemma balloc_scan:
  assumes t: "txn p bs H s" and len: "length bs + card (ran H) + 2 \<le> LOGBLOCKS" and lay: "layout s" and ap: "apart H s"
    and j: "\<And>k. k \<in> set [j..<n] \<Longrightarrow> k * BPB < unat (sb_size (sb s))"
    and old: "\<And>i. i < j * BPB \<Longrightarrow> i < unat (sb_size (sb s)) \<Longrightarrow> \<not> free_bit s i" and jn: "j \<le> n"
  shows "\<exists>r t. loop_until (\<lambda>k. balloc_block ROOTDEV (k * BPB)) [j..<n] s = Done r t \<and>
    (case r of
       Some a \<Rightarrow> (\<exists>c. a = of_nat c \<and> c < unat (sb_size (sb s)) \<and> free_bit s c \<and> (\<forall>i < c. \<not> free_bit s i) \<and>
         allocated_in p bs H s c t)
     | None \<Rightarrow> (\<forall>i < min (n * BPB) (unat (sb_size (sb s))). \<not> free_bit s i) \<and>
         txn p bs H t \<and> blk t = blk s \<and> same_fs s t \<and> disk t = disk s)"
  using jn assms(1-6)
proof (induction arbitrary: s rule: inc_induct)
  case base
  then show ?case by simp
next
  case (step j)
  let ?size = "unat (sb_size (sb s))"
  have j: "j * BPB < ?size" using step by simp
  obtain r t where t: "balloc_block ROOTDEV (j * BPB) s = Done r t"
    and r: "case r of
       Some a \<Rightarrow> (\<exists>c. a = of_nat c \<and> j * BPB \<le> c \<and> c < min (Suc j * BPB) ?size \<and> free_bit s c \<and>
         (\<forall>i. j * BPB \<le> i \<longrightarrow> i < c \<longrightarrow> \<not> free_bit s i) \<and> allocated_in p bs H s c t)
     | None \<Rightarrow> (\<forall>i. j * BPB \<le> i \<longrightarrow> i < min (Suc j * BPB) ?size \<longrightarrow> \<not> free_bit s i) \<and>
         txn p bs H t \<and> blk t = blk s \<and> same_fs s t \<and> disk t = disk s"
    using balloc_block_law [OF step.prems(1-4) j] by blast
  have upt: "[j..<n] = j # [Suc j..<n]" using step.hyps by (simp add: upt_conv_Cons)
  show ?case
  proof (cases r)
    case (Some a)
    then obtain c where c: "a = of_nat c" "j * BPB \<le> c" "c < min (Suc j * BPB) ?size" "free_bit s c"
      "\<forall>i. j * BPB \<le> i \<longrightarrow> i < c \<longrightarrow> \<not> free_bit s i" "allocated_in p bs H s c t" using r by auto
    have "\<forall>i < c. \<not> free_bit s i" using c(3,5) step.prems(6) by (metis less_trans min_less_iff_conj not_le)
    then show ?thesis using t c Some unfolding upt by (auto intro!: exI [of _ c])
  next
    case None
    then have n: "\<And>i. j * BPB \<le> i \<Longrightarrow> i < min (Suc j * BPB) ?size \<Longrightarrow> \<not> free_bit s i"
      "txn p bs H t" "blk t = blk s" "same_fs s t" "disk t = disk s" using r by auto
    note fs = same_fs_simps [OF n(4)]
    have fb: "free_bit t i = free_bit s i" for i by (rule free_bit_cong [OF n(3,4)])
    have al: "allocated_in p bs H t c u \<Longrightarrow> allocated_in p bs H s c u" for c u
      unfolding allocated_in_def using fs n(3,5) same_fs_trans [OF n(4)] by simp
    have small: "\<not> free_bit t i" if "i < Suc j * BPB" "i < unat (sb_size (sb t))" for i
      using that n(1) [of i] step.prems(6) [of i] fs fb by (cases "i < j * BPB") simp_all
    obtain r u where u: "loop_until (\<lambda>k. balloc_block ROOTDEV (k * BPB)) [Suc j..<n] t = Done r u"
      and ru: "case r of
       Some a \<Rightarrow> (\<exists>c. a = of_nat c \<and> c < ?size \<and> free_bit s c \<and> (\<forall>i < c. \<not> free_bit s i) \<and> allocated_in p bs H t c u)
     | None \<Rightarrow> (\<forall>i < min (n * BPB) ?size. \<not> free_bit s i) \<and>
         txn p bs H u \<and> blk u = blk t \<and> same_fs t u \<and> disk u = disk t"
      using step.IH [OF n(2) step.prems(2) layout_cong [OF n(3,4) step.prems(3)] apart_cong [OF n(3,4) step.prems(4)] _ small] step.prems(5)
      unfolding fb fs by (auto simp: upt)
    have "loop_until (\<lambda>k. balloc_block ROOTDEV (k * BPB)) [j..<n] s = Done r u"
      using t u None unfolding upt by simp
    moreover have "case r of
       Some a \<Rightarrow> (\<exists>c. a = of_nat c \<and> c < ?size \<and> free_bit s c \<and> (\<forall>i < c. \<not> free_bit s i) \<and> allocated_in p bs H s c u)
     | None \<Rightarrow> (\<forall>i < min (n * BPB) ?size. \<not> free_bit s i) \<and>
         txn p bs H u \<and> blk u = blk s \<and> same_fs s u \<and> disk u = disk s"
      using ru al n(3,5) same_fs_trans [OF n(4)] by (cases r) auto
    ultimately show ?thesis by blast
  qed
qed

lemma balloc_law:
  assumes "txn p bs H s" and "length bs + card (ran H) + 2 \<le> LOGBLOCKS" and "layout s" and "apart H s"
  shows "\<exists>r t. balloc ROOTDEV s = Done r t \<and> same_fs s t \<and>
    ((\<exists>c < unat (sb_size (sb s)). r = of_nat c \<and> free_bit s c \<and> (\<forall>i < c. \<not> free_bit s i) \<and> allocated_in p bs H s c t) \<or>
     (r = 0 \<and> (\<forall>i < unat (sb_size (sb s)). \<not> free_bit s i) \<and> txn p bs H t \<and> blk t = blk s \<and> disk t = disk s))"
proof -
  let ?size = "unat (sb_size (sb s))"
  let ?n = "(?size + BPB - 1) div BPB"
  have n: "k * BPB < ?size" if "k \<in> set [0..<?n]" for k
  proof -
    have "Suc k * BPB \<le> ?size + BPB - 1" using that by (simp add: less_eq_div_iff_mult_less_eq Suc_le_eq)
    then show ?thesis by simp
  qed
  have all: "?size \<le> ?n * BPB"
    using div_mult_mod_eq [of "?size + BPB - 1" BPB] mod_less_divisor [of BPB "?size + BPB - 1"] by linarith
  have "\<exists>r t. loop_until (\<lambda>k. balloc_block ROOTDEV (k * BPB)) [0..<?n] s = Done r t \<and>
    (case r of
       Some a \<Rightarrow> (\<exists>c. a = of_nat c \<and> c < ?size \<and> free_bit s c \<and> (\<forall>i < c. \<not> free_bit s i) \<and> allocated_in p bs H s c t)
     | None \<Rightarrow> (\<forall>i < min (?n * BPB) ?size. \<not> free_bit s i) \<and> txn p bs H t \<and> blk t = blk s \<and> same_fs s t \<and> disk t = disk s)"
    by (rule balloc_scan [OF assms]) (use n in simp_all)
  then obtain r t where t: "loop_until (\<lambda>k. balloc_block ROOTDEV (k * BPB)) [0..<?n] s = Done r t"
    and r: "case r of
       Some a \<Rightarrow> (\<exists>c. a = of_nat c \<and> c < ?size \<and> free_bit s c \<and> (\<forall>i < c. \<not> free_bit s i) \<and> allocated_in p bs H s c t)
     | None \<Rightarrow> (\<forall>i < min (?n * BPB) ?size. \<not> free_bit s i) \<and> txn p bs H t \<and> blk t = blk s \<and> same_fs s t \<and> disk t = disk s"
    by blast
  show ?thesis
  proof (cases r)
    case (Some a)
    then show ?thesis using t r by (auto simp: balloc_def allocated_in_def)
  next
    case None
    have txn: "txn p bs H t" using r None by simp
    let ?msg = "''balloc: out of blocks'' @ [CHR 0x0A]"
    have "printf_text ?msg [] = Some ?msg" by simp
    from kprintf_eq [OF _ this, of t] have "kprintf ?msg [] t = Done () (kputs ?msg t)"
      using cacheD(4) [OF txn_cache [OF txn]] by simp
    then have "balloc ROOTDEV s = Done 0 (kputs ?msg t)" using t None by (simp add: balloc_def)
    moreover have "same_fs s (kputs ?msg t)" by (rule same_fs_trans [OF _ kputs_fs(1)]) (use r None in simp)
    ultimately show ?thesis using r None all by (auto simp: min_def)
  qed
qed

text \<open>
  C12: the block allocator. In a transaction with room for two more blocks, \<open>balloc\<close> returns the first block
  the bitmap marks free, having set its bit and zeroed it, and no other block changes; the bitmap block and
  the new block are in the transaction. When no block is free it returns 0 and changes no block.
\<close>
theorem balloc_allocates:
  assumes "txn p bs Map.empty s" and "length bs + 2 \<le> LOGBLOCKS" and "layout s"
  shows "\<exists>r t. balloc ROOTDEV s = Done r t \<and> same_fs s t \<and>
    ((\<exists>c < unat (sb_size (sb s)). r = of_nat c \<and> free_bit s c \<and> (\<forall>i < c. \<not> free_bit s i) \<and> allocated p bs s c t) \<or>
     (r = 0 \<and> (\<forall>i < unat (sb_size (sb s)). \<not> free_bit s i) \<and> txn p bs Map.empty t \<and> blk t = blk s))"
  using balloc_law [OF assms(1) _ assms(3)] assms(2) by (simp, blast)

text \<open>
  \<open>bfree\<close> undoes the bitmap change of \<open>balloc\<close> and refuses to free twice. It panics when the bit of the
  block is clear; otherwise it clears exactly that bit, so that after a \<open>balloc\<close> the bitmap is as before.
\<close>
lemma bfree_clears_bit:
  assumes t: "txn p bs Map.empty s" and len: "length bs < LOGBLOCKS" and c: "c < 2 ^ 32"
    and n: "BBLOCK (of_nat c) s \<notin> log_area (log_start s)"
  shows "(free_bit s c \<longrightarrow> bfree ROOTDEV (of_nat c) s = Panic ''freeing free block'') \<and>
    (\<not> free_bit s c \<longrightarrow> (\<exists>t. bfree ROOTDEV (of_nat c) s = Done () t \<and> same_fs s t \<and> txn p (logged (BBLOCK (of_nat c) s) bs) Map.empty t \<and>
       blk t = (blk s)(BBLOCK (of_nat c) s := clear_used (c mod BPB) (blk s (BBLOCK (of_nat c) s))) \<and> free_bit t c)) \<and>
    (free_bit s c \<longrightarrow> clear_used (c mod BPB) (set_used (c mod BPB) (blk s (BBLOCK (of_nat c) s))) = blk s (BBLOCK (of_nat c) s))"
proof -
  let ?n = "BBLOCK (of_nat c) s"
  have cm: "unat (of_nat c :: u32) mod BPB = c mod BPB" using c by (simp add: unat_of_nat)
  obtain b u v where u: "bread ROOTDEV ?n s = Done b u" "b_data (bufs u ! b) = blk s ?n" "same_fs s u"
    "txn p bs [b \<mapsto> ?n] u" "blk u = blk s"
    using txn_peek [OF t len, of ?n] by blast
  obtain w where w: "log_release b (clear_used (c mod BPB)) u = Done () w" "txn p (logged ?n bs) Map.empty w"
    "blk w = (blk s)(?n := clear_used (c mod BPB) (blk s ?n))" "same_fs u w"
    using txn_log_release [OF u(4) _ _ _ len, of b ?n "clear_used (c mod BPB)"] n u(5) same_fs_simps(1) [OF u(3)] by auto
  have run: "bfree ROOTDEV (of_nat c) s =
      (if free_bit s c then Panic ''freeing free block'' else Done () w)"
    using u w(1) cm by (simp add: bfree_def Let_def free_bit_def)
  have sw: "same_fs s w" by (rule same_fs_trans [OF u(3) w(4)])
  have "free_bit w c" using w(3) same_fs_simps(9) [OF sw] by (simp add: free_bit_def bit_used_clear)
  then show ?thesis using run w sw by (auto simp: free_bit_def clear_set_used)
qed


subsection \<open>Inodes in their blocks\<close>

lemma fold_addrs_other:
  "n = 0 \<or> q + 4 \<le> o' \<or> o' + 4 * n \<le> q \<Longrightarrow>
     ld32 (fold (\<lambda>k. st32 (o' + 4 * k) (f k)) [0..<n] d) q = ld32 d q"
  by (induction n) (auto simp: ld32_st32_other)

lemma fold_addrs_ld16:
  "n = 0 \<or> q + 2 \<le> o' \<or> o' + 4 * n \<le> q \<Longrightarrow>
     ld16 (fold (\<lambda>k. st32 (o' + 4 * k) (f k)) [0..<n] d) q = ld16 d q"
  by (induction n) (auto simp: ld16_st32_other)

lemma fold_addrs_same:
  "k < n \<Longrightarrow> ld32 (fold (\<lambda>k. st32 (o' + 4 * k) (f k)) [0..<n] d) (o' + 4 * k) = f k"
  by (induction n) (auto simp: ld32_st32_other less_Suc_eq)

lemma put_dinode_other:
  assumes "q + 64 \<le> o' \<or> o' + 64 \<le> q"
  shows "get_dinode (put_dinode x o' d) q y = get_dinode d q y"
proof -
  have w: "ld32 (put_dinode x o' d) (q + 8) = ld32 d (q + 8)"
    "k < 13 \<Longrightarrow> ld32 (put_dinode x o' d) (q + 12 + 4 * k) = ld32 d (q + 12 + 4 * k)" for k
    using assms unfolding put_dinode_def
    by (subst fold_addrs_other; (auto simp: ld32_st32_other ld32_st16_other))+
  have h: "ld16 (put_dinode x o' d) (q + k) = ld16 d (q + k)" if "k \<le> 6" for k
    using assms that unfolding put_dinode_def
    by (subst fold_addrs_ld16) (auto simp: ld16_st32_other ld16_st16_other)
  show ?thesis
    using h [of 0] h [of 2] h [of 4] h [of 6] w by (simp add: get_dinode_def)
qed

lemma put_dinode_same:
  assumes "length (i_addrs x) = NDIRECT + 1"
  shows "get_dinode (put_dinode x o' d) o' y = y\<lparr>i_type := i_type x, i_major := i_major x, i_minor := i_minor x,
    i_nlink := i_nlink x, i_size := i_size x, i_addrs := i_addrs x\<rparr>"
proof -
  have h: "ld16 (put_dinode x o' d) o' = i_type x" "ld16 (put_dinode x o' d) (o' + 2) = i_major x"
    "ld16 (put_dinode x o' d) (o' + 4) = i_minor x" "ld16 (put_dinode x o' d) (o' + 6) = i_nlink x"
    unfolding put_dinode_def by (subst fold_addrs_ld16; simp add: ld16_st32_other ld16_st16_other)+
  have s: "ld32 (put_dinode x o' d) (o' + 8) = i_size x"
    unfolding put_dinode_def by (subst fold_addrs_other) simp_all
  have "ld32 (put_dinode x o' d) (o' + 12 + 4 * k) = i_addrs x ! k" if "k < 13" for k
    unfolding put_dinode_def using that by (subst fold_addrs_same) simp_all
  then have "map (\<lambda>k. ld32 (put_dinode x o' d) (o' + 12 + 4 * k)) [0..<NDIRECT + 1] = i_addrs x"
    using assms by (intro nth_equalityI) simp_all
  then show ?thesis unfolding get_dinode_def h s by (simp only:)
qed

text \<open>
  An inode survives the trip to disk. After \<open>iupdate\<close> of a table entry inside a transaction, the
  block of the inode decodes, at the offset \<open>ilock\<close> uses, to the same type, device numbers, link count,
  size and addresses, and every other inode of that block, and every other block, is unchanged.
\<close>
lemma iupdate_roundtrip:
  assumes t: "txn p bs Map.empty s" and len: "length bs < LOGBLOCKS" and dev: "i_dev (ino s i) = ROOTDEV"
    and n: "IBLOCK (i_inum (ino s i)) s \<notin> log_area (log_start s)" and l: "length (i_addrs (ino s i)) = NDIRECT + 1"
  shows "\<exists>t. iupdate i s = Done () t \<and> same_fs s t \<and>
    get_dinode (blk t (IBLOCK (i_inum (ino s i)) s)) (dinode_off (i_inum (ino s i))) y =
      y\<lparr>i_type := i_type (ino s i), i_major := i_major (ino s i), i_minor := i_minor (ino s i),
        i_nlink := i_nlink (ino s i), i_size := i_size (ino s i), i_addrs := i_addrs (ino s i)\<rparr> \<and>
    (\<forall>m. m mod IPB \<noteq> i_inum (ino s i) mod IPB \<longrightarrow>
       get_dinode (blk t (IBLOCK (i_inum (ino s i)) s)) (dinode_off m) y =
       get_dinode (blk s (IBLOCK (i_inum (ino s i)) s)) (dinode_off m) y) \<and>
    (\<forall>b. b \<noteq> IBLOCK (i_inum (ino s i)) s \<longrightarrow> blk t b = blk s b)"
proof -
  let ?x = "ino s i"
  let ?n = "IBLOCK (i_inum ?x) s" and ?o = "dinode_off (i_inum ?x)"
  obtain b u where u: "bread ROOTDEV ?n s = Done b u" "same_fs s u"
    using txn_peek [OF t len, of ?n] by blast
  obtain v where v: "bnd (bread ROOTDEV ?n s) (\<lambda>b s. log_release b (put_dinode ?x ?o) s) = Done () v"
    "blk v = (blk s)(?n := put_dinode ?x ?o (blk s ?n))" "same_fs s v"
    using txn_update [OF t n len] by blast
  have "iupdate i s = Done () v"
    using u v(1) dev same_fs_simps(6) [OF u(2)] by (simp add: iupdate_def)
  moreover have "get_dinode (put_dinode ?x ?o (blk s ?n)) (dinode_off m) y = get_dinode (blk s ?n) (dinode_off m) y"
    if "m mod IPB \<noteq> i_inum ?x mod IPB" for m
  proof (rule put_dinode_other)
    have "unat (m mod IPB) \<noteq> unat (i_inum ?x mod IPB)" using that by (simp only: word_unat_eq_iff) simp
    then show "dinode_off m + 64 \<le> ?o \<or> ?o + 64 \<le> dinode_off m" unfolding dinode_off_def by linarith
  qed
  ultimately show ?thesis using v(2,3) put_dinode_same [OF l] by (intro exI [of _ v]) simp
qed


subsection \<open>The end of a transaction\<close>

lemma counters_frame [simp]:
  "cache (s\<lparr>log_outstanding := a, log_committing := c\<rparr>) p H = cache s p H"
  "blk (s\<lparr>log_outstanding := a, log_committing := c\<rparr>) = blk s"
  "refs (s\<lparr>log_outstanding := a, log_committing := c\<rparr>) = refs s"
  "log_wf (s\<lparr>log_outstanding := a, log_committing := c\<rparr>) bs = log_wf s bs"
  by (simp_all add: cache_def bio_inv_def caches_def calm_def holds_sleep_def blk_def holder_def
        refs_def fun_eq_iff log_wf_def split: option.split)

lemma apply_home: "apply_writes (map (\<lambda>b. (b, v b)) bs) d n = (if n \<in> set bs then v n else d n)"
  by (induction bs arbitrary: d) auto

lemma commit_writes_home:
  assumes "length bs \<le> LOGBLOCKS" and "n \<notin> log_area st"
  shows "apply_writes (commit_writes st v bs hb) d n = (if n \<in> set bs then v n else d n)"
proof -
  have "n \<notin> fst ` set (log_copies st v bs (length bs))" using log_copies_fst [OF assms(1)] assms(2) by blast
  moreover have "n \<noteq> st" using assms(2) log_start_area by blast
  ultimately show ?thesis
    unfolding commit_writes_def Let_def log_copies_def by (simp add: apply_writes_other apply_home)
qed

text \<open>
  C5: what a transaction wrote is on disk when it ends. If the last outstanding operation calls \<open>end_op\<close>
  with at most 29 blocks in the transaction, the call returns, no block changes its contents as the file
  system sees it, every block outside the log is on disk with these contents, and the log is empty again.
\<close>
theorem end_op_durable:
  assumes t: "txn p bs Map.empty s" and last: "log_outstanding s = 1" "\<not> log_committing s" and len: "length bs < LOGBLOCKS"
    and n: "n \<notin> log_area (log_start s)"
  shows "\<exists>t. end_op s = Done () t \<and> disk t n = blk s n \<and> blk t n = blk s n \<and> lh_n t = 0 \<and> log_outstanding t = 0 \<and>
    \<not> log_committing t \<and> calm t p"
proof -
  note c = txn_cache [OF t]
  have wf: "log_wf s bs" using t by (simp add: txn_def)
  let ?s = "s\<lparr>log_outstanding := 0, log_committing := True\<rparr>"
  have clean: "n \<notin> set bs \<Longrightarrow> blk s n = disk s n" using t by (simp add: txn_def)
  have "\<exists>t. commit ?s = Done () t \<and> disk t n = blk s n \<and> blk t n = blk s n \<and> lh_n t = 0 \<and> log_outstanding t = 0 \<and> cache t p Map.empty"
  proof (cases "bs = []")
    case True
    then have "lh_n s = 0" using wf by (simp add: log_wf_def)
    then show ?thesis using True clean c by (intro exI [of _ ?s]) (simp add: commit_def)
  next
    case False
    have r: "room ?s (set bs) 1"
      using t len card_length [of bs] unfolding room_def by (auto simp: txn_def)
    have "\<forall>b \<in> set bs. 0 < refs ?s b" using t by (simp add: txn_def)
    from commit_law [of ?s p, OF _ _ False r order_refl this] c wf obtain u where
      u: "commit ?s = Done () u" "disk u = apply_writes (commit_writes (log_start s) (blk s) bs (lh_block s)) (disk s)"
      "blk u = apply_writes (commit_writes (log_start s) (blk s) bs (lh_block s)) (blk s)"
      "same_log (?s\<lparr>lh_n := 0\<rparr>) u" "cache u p Map.empty"
      by auto
    have "length bs \<le> LOGBLOCKS" using len by simp
    note home = commit_writes_home [OF this n]
    have "lh_n u = 0" "log_outstanding u = 0" using same_log_simps(2,5) [OF u(4)] by simp_all
    then show ?thesis using u home clean by (intro exI [of _ u]) simp
  qed
  then obtain u where u: "commit ?s = Done () u" "disk u n = blk s n" "blk u n = blk s n" "lh_n u = 0"
    "log_outstanding u = 0" "cache u p Map.empty" by blast
  note hs = cacheD(4) [OF c] and hu = cacheD(4) [OF u(6)]
  let ?v = "u\<lparr>held := [LogLock], log_committing := False\<rparr>"
  let ?w = "wake_all (Some ChLog) ?v"
  have "unlocked_table ?v" using cacheD(2) [OF u(6)] by (simp add: unlocked_table_def calm_def)
  then have wk: "wakeup (Some ChLog) ?v = Done () ?w" by (rule wakeup_eq)
  have s1: "s\<lparr>log_outstanding := 0, log_committing := True, held := []\<rparr> = ?s"
    using hs by (intro fsst.equality) simp_all
  have a: "acquire LogLock s = Done () (s\<lparr>held := [LogLock]\<rparr>)"
    and r: "release LogLock (s\<lparr>held := [LogLock], log_outstanding := 0, log_committing := True\<rparr>) =
      Done () (s\<lparr>log_outstanding := 0, log_committing := True, held := []\<rparr>)"
    using hs by (simp_all add: acquire_def release_def)
  have e: "end_op s = bnd (commit (s\<lparr>log_outstanding := 0, log_committing := True, held := []\<rparr>)) (\<lambda>_ s.
             bnd (acquire LogLock s) (\<lambda>_ s.
             bnd (wakeup (Some ChLog) (s\<lparr>log_committing := False\<rparr>)) (\<lambda>_ s. release LogLock s)))"
    using last a r by (simp add: end_op_def Let_def)
  have run: "end_op s = Done () (?w\<lparr>held := []\<rparr>)"
    unfolding e s1 u(1) bnd.simps using hu wk by (simp add: acquire_def release_def)
  have ww: "holder (?w\<lparr>held := []\<rparr>) = holder u" by (simp add: holder_def fun_eq_iff)
  have "blk (?w\<lparr>held := []\<rparr>) n = blk u n" unfolding blk_def ww by (simp split: option.split)
  moreover have "calm (?w\<lparr>held := []\<rparr>) p" using cacheD(2) [OF u(6)] by (simp add: calm_def)
  moreover have "lh_n ?w = lh_n u" "log_outstanding ?w = log_outstanding u" "log_committing ?w = False"
    by (simp_all add: wake_all_def)
  ultimately show ?thesis using run u by (intro exI [of _ "?w\<lparr>held := []\<rparr>"]) simp
qed


subsection \<open>An example\<close>

text \<open>
  A file system of 1000 blocks with the log at 100, the inodes at 32 and the bitmap at 45, whose blocks 0
  to 479 are in use; one operation is outstanding and inode 7 is in the table.
\<close>

definition sample_disk :: "u32 \<Rightarrow> block" where
  "sample_disk = (\<lambda>_ _. 0)(45 := (\<lambda>i. if i < 60 then 255 else 0))"

definition sample_inode :: inode where
  "sample_inode = \<lparr>i_dev = ROOTDEV, i_inum = 7, i_ref = 1, i_valid = True, i_type = T_FILE, i_major = 0,
     i_minor = 0, i_nlink = 1, i_size = 5, i_addrs = 480 # replicate 12 0\<rparr>"

definition fs_sample :: fsst where
  "fs_sample = logst.extend ((log_sample 0)\<lparr>log_outstanding := 1, disk := sample_disk\<rparr>)
     (fsst.fields \<lparr>sb_magic = FSMAGIC, sb_size = 1000, sb_nblocks = 500, sb_ninodes = 200, sb_nlog = 30,
        sb_logstart = 100, sb_inodestart = 32, sb_bmapstart = 45\<rparr> (replicate NINODE sample_inode))"

lemma fs_sample_simps [simp]:
  "log_start fs_sample = 100" "log_outstanding fs_sample = 1" "log_committing fs_sample = False"
  "log_dev fs_sample = ROOTDEV" "lh_n fs_sample = 0" "length (lh_block fs_sample) = LOGBLOCKS"
  "sb_size (sb fs_sample) = 1000" "BBLOCK b fs_sample = b div 8192 + 45" "IBLOCK b fs_sample = b div 16 + 32"
  "disk fs_sample = sample_disk" "itable fs_sample = replicate NINODE sample_inode" "cur fs_sample = Some 0"
  "held fs_sample = []"
  using cacheD(2) [OF log_sample_wf(2) [of 0]]
  by (simp_all add: fs_sample_def logst.defs fsst.defs BBLOCK_def IBLOCK_def calm_def)

text \<open>Other blocks may be on its disk.\<close>

lemma fs_sample_disk:
  "txn 0 [] Map.empty (fs_sample\<lparr>disk := d\<rparr>)" "blk (fs_sample\<lparr>disk := d\<rparr>) = d"
proof -
  have none: "\<not> caches (log_sample 0) i n" for i n
    using pinned_sample_caches [of 0 i n] by (simp add: log_sample_def caches_def)
  have c: "cache (log_sample 0) 0 Map.empty" by (rule log_sample_wf(2)) simp
  let ?t = "fs_sample\<lparr>disk := d\<rparr>"
  have f: "bufs ?t = bufs (log_sample 0)" "bnext ?t = bnext (log_sample 0)" "bprev ?t = bprev (log_sample 0)"
    "sleeplocks ?t = sleeplocks (log_sample 0)" "procs ?t = procs (log_sample 0)"
    by (simp_all add: fs_sample_def logst.defs)
  have none': "\<not> caches ?t i n" for i n using none [of i n] unfolding caches_def f .
  have h: "holder ?t n = None" for n using none' by (simp add: holder_None_iff)
  show b: "blk ?t = d" using h by (simp add: blk_def fun_eq_iff)
  have "bio_inv ?t"
  proof (rule bio_invI)
    show "\<forall>i j n. caches ?t i n \<longrightarrow> caches ?t j n \<longrightarrow> i = j" using none' by blast
    show "b_data (bufs ?t ! i) = disk ?t (b_blockno (bufs ?t ! i))" if "i < NBUF" "b_valid (bufs ?t ! i)" for i
      using none' [of i "b_blockno (bufs ?t ! i)"] bio_invD(5) [OF cacheD(1) [OF c] that(1)] that f by (simp add: caches_def)
  qed (use bio_invD [OF cacheD(1) [OF c]] in \<open>simp_all add: f\<close>)
  then have "cache ?t 0 Map.empty" using cacheD(2,6) [OF c] by (simp add: cache_def calm_def f)
  moreover have "refs ?t n = 0" for n using h by (simp add: refs_def)
  ultimately show "txn 0 [] Map.empty ?t" using b by (simp add: txn_def log_wf_def)
qed

lemma fs_sample_txn: "txn 0 [] Map.empty fs_sample" and fs_sample_blk: "blk fs_sample = sample_disk"
proof -
  have s: "fs_sample\<lparr>disk := sample_disk\<rparr> = fs_sample" by (intro fsst.equality) simp_all
  show "txn 0 [] Map.empty fs_sample" by (rule fs_sample_disk(1) [of sample_disk, unfolded s])
  show "blk fs_sample = sample_disk" by (rule fs_sample_disk(2) [of sample_disk, unfolded s])
qed

lemma small_div: "a < 8192 \<Longrightarrow> of_nat a div 8192 = (0 :: u32)"
proof -
  assume "a < 8192"
  then have "unat (of_nat a :: u32) < 8192" by (simp add: unat_of_nat)
  then have "unat (of_nat a div 8192 :: u32) = unat (0 :: u32)" by (simp add: unat_div_distrib)
  then show ?thesis by (rule word_unat_eq_iff [THEN iffD2])
qed

lemma fs_sample_free: "a < 1000 \<Longrightarrow> free_bit fs_sample a \<longleftrightarrow> 480 \<le> a"
proof -
  assume a: "a < 1000"
  have ff: "bit (255 :: u8) k" if "k < 8" for k
    using that by (auto simp: bit_numeral_rec less_Suc_eq numeral_eq_Suc)
  have "a mod BPB = a" using a by simp
  then show ?thesis
    using a ff [of "a mod 8"] by (simp add: free_bit_def fs_sample_blk small_div sample_disk_def bit_used_iff) linarith
qed

lemma fs_sample_layout: "layout fs_sample"
proof -
  have "of_nat a \<notin> log_area 100 \<and> (of_nat a :: u32) \<noteq> 45" if "480 \<le> a" "a < 1000" for a
  proof -
    have "unat (of_nat a :: u32) = a" using that by (simp add: unat_of_nat)
    then show ?thesis using that log_area_100 [of "of_nat a"] by auto
  qed
  moreover have "(45 :: u32) \<notin> log_area 100" using log_area_100 [of 45] by auto
  ultimately show ?thesis using fs_sample_free by (auto simp: layout_def small_div)
qed

lemma balloc_allocates_witness: "\<exists>t. balloc ROOTDEV fs_sample = Done 480 t"
proof -
  obtain r t where t: "balloc ROOTDEV fs_sample = Done r t"
    and r: "(\<exists>c < 1000. r = of_nat c \<and> free_bit fs_sample c \<and> (\<forall>i < c. \<not> free_bit fs_sample i)) \<or>
      (\<forall>i < 1000. \<not> free_bit fs_sample i)"
    using balloc_allocates [OF fs_sample_txn _ fs_sample_layout] by auto
  have f: "free_bit fs_sample 480" by (simp add: fs_sample_free)
  have "(480 :: nat) < 1000" by simp
  with r f obtain c where c: "c < 1000" "r = of_nat c" "free_bit fs_sample c" "\<forall>i < c. \<not> free_bit fs_sample i"
    by blast
  have "\<not> 480 < c" using c(4) f by blast
  moreover have "480 \<le> c" using c(1,3) fs_sample_free by simp
  ultimately have "c = 480" by simp
  then show ?thesis using t c(2) by simp
qed

lemma bfree_clears_bit_witness:
  "bfree ROOTDEV (of_nat 500) fs_sample = Panic ''freeing free block'' \<and>
   (\<exists>t. bfree ROOTDEV (of_nat 7) fs_sample = Done () t \<and> free_bit t 7)"
proof -
  have "(45 :: u32) \<notin> log_area 100" using log_area_100 [of 45] by auto
  then show ?thesis
    using bfree_clears_bit [OF fs_sample_txn, of 500] bfree_clears_bit [OF fs_sample_txn, of 7]
      fs_sample_free [of 500] fs_sample_free [of 7] small_div [of 500] small_div [of 7] by auto
qed

lemma iupdate_roundtrip_witness:
  "\<exists>t. iupdate 0 fs_sample = Done () t \<and> i_size (get_dinode (blk t 32) (64 * 7) sample_inode) = 5"
proof -
  have "(32 :: u32) \<notin> log_area 100" using log_area_100 [of 32] by auto
  moreover have "IBLOCK 7 fs_sample = 32" "dinode_off 7 = 64 * 7" by (simp_all add: dinode_off_def)
  ultimately show ?thesis
    using iupdate_roundtrip [OF fs_sample_txn, of 0 sample_inode] by (auto simp: sample_inode_def)
qed

text \<open>An operation that fills block 480: its new contents reach the disk only when the transaction ends.\<close>

lemma end_op_durable_witness:
  "\<exists>t u. bnd (bread ROOTDEV 480 fs_sample) (\<lambda>b s. log_release b (\<lambda>_ _. 7) s) = Done () t \<and> disk t 480 = (\<lambda>_. 0) \<and>
     end_op t = Done () u \<and> disk u 480 = (\<lambda>_. 7) \<and> lh_n u = 0 \<and> log_outstanding u = 0"
proof -
  have out: "(480 :: u32) \<notin> log_area 100" using log_area_100 [of 480] by auto
  then obtain t where t: "bnd (bread ROOTDEV 480 fs_sample) (\<lambda>b s. log_release b (\<lambda>_ _. 7) s) = Done () t"
      "txn 0 (logged 480 []) Map.empty t" "blk t = (blk fs_sample)(480 := \<lambda>_. 7)" "same_fs fs_sample t"
      "disk t = disk fs_sample"
    using txn_update [OF fs_sample_txn, of 480 "\<lambda>_ _. 7"] by auto
  note f = same_fs_simps [OF t(4)]
  show ?thesis
    using end_op_durable [OF t(2), of 480] t f out by (auto simp: logged_def sample_disk_def)
qed

end
