(* ===== verification/Console.thy ===== *)
theory Console
  imports Txn
begin

section \<open>uart.c and console.c\<close>

text \<open>
  The serial line and the console on top of it. \<open>console_out\<close> collects what is written to the transmit
  register, \<open>uart_in\<close> are the bytes that have arrived and wait in the receive FIFO, \<open>uart_setup\<close> the
  writes to the control registers. Whether the line is idle when the interrupt comes is the device's
  choice, an argument of \<open>uartintr\<close>. A routine that sleeps ends with \<open>Switch\<close>; the \<open>_resume\<close> definition
  with the same local variables is what it does when it runs again.
\<close>

datatype devops = NoDev | ConsoleDev

record consst = fsst +
  cons_buf :: "u8 list"
  cons_r :: u32
  cons_w :: u32
  cons_e :: u32
  tx_busy :: bool
  uart_in :: "u8 list"
  uart_setup :: "(nat \<times> u8) list"
  devsw :: "devops list"

abbreviation INPUT_BUF_SIZE :: nat where "INPUT_BUF_SIZE \<equiv> 128"
abbreviation NDEV :: nat where "NDEV \<equiv> 10"
abbreviation CONSOLE :: nat where "CONSOLE \<equiv> 1"

definition out_char :: "u8 \<Rightarrow> char" where
  "out_char b = char_of (unat b)"

subsection \<open>uart.c\<close>

definition uartinit :: "'z consst_scheme \<Rightarrow> 'z consst_scheme" where
  "uartinit s = s\<lparr>uart_setup := uart_setup s @
     [(1, 0x00), (3, 0x80), (0, 0x03), (1, 0x00), (3, 0x03), (2, 0x07), (1, 0x03)]\<rparr>"

text \<open>The bytes still to send are the argument of the loop.\<close>

primrec uartwrite_loop :: "u8 list \<Rightarrow> 'z consst_scheme \<Rightarrow> ('z consst_scheme, unit) outcome" where
  "uartwrite_loop [] s = release TxLock s"
| "uartwrite_loop (b # bs) s =
     (if tx_busy s then sleep (Some ChUartTx) TxLock s
      else uartwrite_loop bs ((kputs [out_char b] s)\<lparr>tx_busy := True\<rparr>))"

definition uartwrite :: "u8 list \<Rightarrow> 'z consst_scheme \<Rightarrow> ('z consst_scheme, unit) outcome" where
  "uartwrite bs s = bnd (acquire TxLock s) (\<lambda>_ s. uartwrite_loop bs s)"

definition uartwrite_resume :: "u8 list \<Rightarrow> 'z consst_scheme \<Rightarrow> ('z consst_scheme, unit) outcome" where
  "uartwrite_resume bs s = bnd (sleep_resume TxLock s) (\<lambda>_ s. uartwrite_loop bs s)"

text \<open>The spin on the status register ends when the device is ready, so its effect is the byte sent.\<close>

definition uartputc_sync :: "u8 \<Rightarrow> 'z consst_scheme \<Rightarrow> 'z consst_scheme" where
  "uartputc_sync c s = kputs [out_char c] s"

definition uartgetc :: "'z consst_scheme \<Rightarrow> u8 option \<times> 'z consst_scheme" where
  "uartgetc s = (case uart_in s of [] \<Rightarrow> (None, s) | c # cs \<Rightarrow> (Some c, s\<lparr>uart_in := cs\<rparr>))"

subsection \<open>console.c\<close>

text \<open>\<open>None\<close> is \<open>BACKSPACE\<close>, which is no character.\<close>

definition consputc :: "u8 option \<Rightarrow> 'z consst_scheme \<Rightarrow> 'z consst_scheme" where
  "consputc c s = (case c of
     None \<Rightarrow> uartputc_sync 8 (uartputc_sync 32 (uartputc_sync 8 s))
   | Some c \<Rightarrow> uartputc_sync c s)"

definition state_name :: "procstate \<Rightarrow> string" where
  "state_name st = (case st of UNUSED \<Rightarrow> ''unused'' | USED \<Rightarrow> ''used'' | SLEEPING \<Rightarrow> ''sleep ''
     | RUNNABLE \<Rightarrow> ''runble'' | RUNNING \<Rightarrow> ''run   '' | ZOMBIE \<Rightarrow> ''zombie'')"

definition c_string :: "u8 list \<Rightarrow> string" where
  "c_string bs = map out_char (takeWhile (\<lambda>b. b \<noteq> 0) bs)"

definition procdump_line :: "nat \<Rightarrow> 'z ptab_scheme \<Rightarrow> ('z ptab_scheme, unit) outcome" where
  "procdump_line i s =
     (if p_state (the_proc s i) = UNUSED then Done () s
      else
        bnd (kprintf ''%d %s %s'' [VReg (reg_of_int (p_pid (the_proc s i))), VStr (Some (state_name (p_state (the_proc s i)))),
               VStr (Some (c_string (p_name (the_proc s i))))] s) (\<lambda>_ s.
        kprintf [CHR 0x0A] [] s))"

definition procdump :: "'z ptab_scheme \<Rightarrow> ('z ptab_scheme, unit) outcome" where
  "procdump s = bnd (kprintf [CHR 0x0A] [] s) (\<lambda>_ s. loop_all procdump_line [0..<NPROC] s)"

text \<open>The loop of \<open>^U\<close>: the new edit index and the number of characters erased.\<close>

function kill_line :: "u8 list \<Rightarrow> u32 \<Rightarrow> u32 \<Rightarrow> u32 \<times> nat" where
  "kill_line buf w e =
     (if e \<noteq> w \<and> buf ! unat ((e - 1) mod of_nat INPUT_BUF_SIZE) \<noteq> 10
      then (case kill_line buf w (e - 1) of (e', k) \<Rightarrow> (e', Suc k)) else (e, 0))"
  by auto
termination
proof (relation "measure (\<lambda>(buf, w, e). unat (e - w))")
  fix buf :: "u8 list" and w e :: u32
  assume "e \<noteq> w \<and> buf ! unat ((e - 1) mod of_nat INPUT_BUF_SIZE) \<noteq> 10"
  then have "1 \<le> e - w" by (simp add: word_le_nat_alt unat_gt_0 Suc_le_eq)
  then have "unat (e - w - 1) = unat (e - w) - 1" by (simp add: unat_sub)
  moreover have "0 < unat (e - w)" using \<open>1 \<le> e - w\<close> by (simp add: word_le_nat_alt)
  moreover have "e - 1 - w = e - w - 1" by simp
  ultimately show "((buf, w, e - 1), (buf, w, e)) \<in> measure (\<lambda>(buf, w, e). unat (e - w))"
    by (simp only: in_measure prod.case)
qed simp

declare kill_line.simps [simp del]

definition consoleintr_default :: "u8 \<Rightarrow> 'z consst_scheme \<Rightarrow> ('z consst_scheme, unit) outcome" where
  "consoleintr_default c s =
     (if c \<noteq> 0 \<and> cons_e s - cons_r s < of_nat INPUT_BUF_SIZE then
        let c = (if c = 13 then 10 else c);
            s = consputc (Some c) s;
            s = s\<lparr>cons_buf := (cons_buf s)[unat (cons_e s mod of_nat INPUT_BUF_SIZE) := c], cons_e := cons_e s + 1\<rparr>
        in if c = 10 \<or> c = 4 \<or> cons_e s - cons_r s = of_nat INPUT_BUF_SIZE
           then wakeup (Some ChConsRead) (s\<lparr>cons_w := cons_e s\<rparr>)
           else Done () s
      else Done () s)"

definition consoleintr :: "u8 \<Rightarrow> 'z consst_scheme \<Rightarrow> ('z consst_scheme, unit) outcome" where
  "consoleintr c s =
     bnd (acquire ConsLock s) (\<lambda>_ s.
     bnd (if c = 16 then procdump s
          else if c = 21 then
            (case kill_line (cons_buf s) (cons_w s) (cons_e s) of (e, k) \<Rightarrow>
               Done () ((consputc None ^^ k) s \<lparr>cons_e := e\<rparr>))
          else if c = 8 \<or> c = 0x7f then
            (if cons_e s \<noteq> cons_w s then Done () (consputc None (s\<lparr>cons_e := cons_e s - 1\<rparr>)) else Done () s)
          else consoleintr_default c s) (\<lambda>_ s. release ConsLock s))"

text \<open>The \<open>while\<close> loop of \<open>uartintr\<close> empties the receive FIFO.\<close>

primrec uartintr_loop :: "nat \<Rightarrow> 'z consst_scheme \<Rightarrow> ('z consst_scheme, unit) outcome" where
  "uartintr_loop 0 s = Hang"
| "uartintr_loop (Suc n) s = (case uartgetc s of
     (None, s) \<Rightarrow> Done () s
   | (Some c, s) \<Rightarrow> bnd (consoleintr c s) (\<lambda>_ s. uartintr_loop n s))"

definition uartintr :: "bool \<Rightarrow> 'z consst_scheme \<Rightarrow> ('z consst_scheme, unit) outcome" where
  "uartintr idle s =
     bnd (acquire TxLock s) (\<lambda>_ s.
     bnd (if idle then wakeup (Some ChUartTx) (s\<lparr>tx_busy := False\<rparr>) else Done () s) (\<lambda>_ s.
     bnd (release TxLock s) (\<lambda>_ s. uartintr_loop (length (uart_in s) + 1) s)))"

text \<open>\<open>n\<close> is the number of bytes still wanted; the result is the number delivered or -1.\<close>

primrec consoleread_loop ::
  "bool \<Rightarrow> nat \<Rightarrow> u64 \<Rightarrow> nat \<Rightarrow> 'z consst_scheme \<Rightarrow> ('z consst_scheme, int) outcome" where
  "consoleread_loop user_dst target dst 0 s = bnd (release ConsLock s) (\<lambda>_ s. Done (int target) s)"
| "consoleread_loop user_dst target dst (Suc n) s =
     (if cons_r s = cons_w s then
        with_myproc (\<lambda>s p. bnd (killed p s) (\<lambda>k s.
          if k \<noteq> 0 then bnd (release ConsLock s) (\<lambda>_ s. Done (-1) s)
          else bnd (sleep (Some ChConsRead) ConsLock s) (\<lambda>_ s. Done 0 s))) s
      else
        let c = cons_buf s ! unat (cons_r s mod of_nat INPUT_BUF_SIZE);
            stop = (\<lambda>left s. bnd (release ConsLock s) (\<lambda>_ s. Done (int target - int left) s))
        in if c = 4 then stop (Suc n) (if Suc n < target then s else s\<lparr>cons_r := cons_r s + 1\<rparr>)
           else
             bnd (either_copyout user_dst dst [c] 1 (s\<lparr>cons_r := cons_r s + 1\<rparr>)) (\<lambda>r s.
               if r = -1 then stop (Suc n) s
               else if c = 10 then stop n s
               else consoleread_loop user_dst target (dst + 1) n s))"

definition consoleread :: "bool \<Rightarrow> u64 \<Rightarrow> int \<Rightarrow> 'z consst_scheme \<Rightarrow> ('z consst_scheme, int) outcome" where
  "consoleread user_dst dst n s =
     bnd (acquire ConsLock s) (\<lambda>_ s.
       if n \<le> 0 then bnd (release ConsLock s) (\<lambda>_ s. Done 0 s)
       else consoleread_loop user_dst (nat n) dst (nat n) s)"

definition consoleread_resume ::
  "bool \<Rightarrow> nat \<Rightarrow> u64 \<Rightarrow> nat \<Rightarrow> 'z consst_scheme \<Rightarrow> ('z consst_scheme, int) outcome" where
  "consoleread_resume user_dst target dst n s =
     bnd (sleep_resume ConsLock s) (\<lambda>_ s. consoleread_loop user_dst target dst n s)"

text \<open>\<open>i\<close> bytes are done, \<open>left\<close> are left.\<close>

function consolewrite_loop ::
  "bool \<Rightarrow> u64 \<Rightarrow> nat \<Rightarrow> nat \<Rightarrow> 'z consst_scheme \<Rightarrow> ('z consst_scheme, int) outcome" where
  "consolewrite_loop user_src src i left s =
     (if left = 0 then Done (int i) s
      else
        let nn = min 32 left in
        bnd (either_copyin user_src (src + of_nat i) (of_nat nn) s) (\<lambda>(r, buf) s.
          if r = -1 then Done (int i) s
          else bnd (uartwrite buf s) (\<lambda>_ s. consolewrite_loop user_src src (i + nn) (left - nn) s)))"
  by pat_completeness auto
termination by (relation "measure (\<lambda>(user_src, src, i, left, s). left)") auto

declare consolewrite_loop.simps [simp del]

definition consolewrite :: "bool \<Rightarrow> u64 \<Rightarrow> int \<Rightarrow> 'z consst_scheme \<Rightarrow> ('z consst_scheme, int) outcome" where
  "consolewrite user_src src n s = consolewrite_loop user_src src 0 (nat n) s"

definition consoleinit :: "'z consst_scheme \<Rightarrow> 'z consst_scheme" where
  "consoleinit s = (uartinit s)\<lparr>devsw := (devsw s)[CONSOLE := ConsoleDev]\<rparr>"

end
