(* ===== verification/File.thy ===== *)
theory File
  imports Console
begin

section \<open>file.c and pipe.c\<close>

text \<open>
  The open-file table is a list of \<open>NFILE\<close> records and a \<open>file *\<close> an index. A pipe lives in a page from
  \<open>kalloc\<close>; its fields are kept in the map \<open>pipes\<close>, from the address of the page. \<open>pipewrite\<close> and
  \<open>piperead\<close> may go to sleep (\<open>Switch\<close>); with the locals they had, \<open>pipewrite_resume\<close> and
  \<open>piperead_resume\<close> are what they do when they run again.
\<close>

datatype ftype = FD_NONE | FD_PIPE | FD_INODE | FD_DEVICE

record file_t =
  f_type :: ftype
  f_ref :: int
  f_readable :: bool
  f_writable :: bool
  f_pipe :: u64
  f_ip :: "nat option"
  f_off :: u32
  f_major :: u16

record pipe =
  pi_data :: "u8 list"
  pi_nread :: u32
  pi_nwrite :: u32
  pi_readopen :: bool
  pi_writeopen :: bool

record filest = consst +
  ftable :: "file_t list"
  pipes :: "u64 \<Rightarrow> pipe"

abbreviation NFILE :: nat where "NFILE \<equiv> 100"
abbreviation PIPESIZE :: nat where "PIPESIZE \<equiv> 512"

abbreviation the_file :: "'z filest_scheme \<Rightarrow> nat \<Rightarrow> file_t" where
  "the_file s f \<equiv> ftable s ! f"

definition upd_file :: "nat \<Rightarrow> (file_t \<Rightarrow> file_t) \<Rightarrow> 'z filest_scheme \<Rightarrow> 'z filest_scheme" where
  "upd_file f g s = s\<lparr>ftable := (ftable s)[f := g (ftable s ! f)]\<rparr>"

definition upd_pipe :: "u64 \<Rightarrow> (pipe \<Rightarrow> pipe) \<Rightarrow> 'z filest_scheme \<Rightarrow> 'z filest_scheme" where
  "upd_pipe pi g s = s\<lparr>pipes := (pipes s)(pi := g (pipes s pi))\<rparr>"

definition filealloc :: "'z filest_scheme \<Rightarrow> ('z filest_scheme, nat option) outcome" where
  "filealloc s =
     bnd (acquire FtableLock s) (\<lambda>_ s.
       case find (\<lambda>f. f_ref (the_file s f) = 0) [0..<NFILE] of
         Some f \<Rightarrow> bnd (release FtableLock (upd_file f (\<lambda>x. x\<lparr>f_ref := 1\<rparr>) s)) (\<lambda>_ s. Done (Some f) s)
       | None \<Rightarrow> bnd (release FtableLock s) (\<lambda>_ s. Done None s))"

definition filedup :: "nat \<Rightarrow> 'z filest_scheme \<Rightarrow> ('z filest_scheme, nat) outcome" where
  "filedup f s =
     bnd (acquire FtableLock s) (\<lambda>_ s.
       if f_ref (the_file s f) < 1 then Panic ''filedup''
       else bnd (release FtableLock (upd_file f (\<lambda>x. x\<lparr>f_ref := f_ref x + 1\<rparr>) s)) (\<lambda>_ s. Done f s))"

subsection \<open>pipe.c\<close>

definition pipeclose :: "u64 \<Rightarrow> bool \<Rightarrow> 'z filest_scheme \<Rightarrow> ('z filest_scheme, unit) outcome" where
  "pipeclose pi writable s =
     bnd (acquire (PipeLock pi) s) (\<lambda>_ s.
     bnd (if writable then wakeup (Some (ChPipeRead pi)) (upd_pipe pi (\<lambda>q. q\<lparr>pi_writeopen := False\<rparr>) s)
          else wakeup (Some (ChPipeWrite pi)) (upd_pipe pi (\<lambda>q. q\<lparr>pi_readopen := False\<rparr>) s)) (\<lambda>_ s.
       if \<not> pi_readopen (pipes s pi) \<and> \<not> pi_writeopen (pipes s pi)
       then bnd (release (PipeLock pi) s) (\<lambda>_ s. kfree pi s)
       else release (PipeLock pi) s))"

text \<open>The end of \<open>pipewrite\<close> after its loop.\<close>

definition pipewrite_done :: "u64 \<Rightarrow> nat \<Rightarrow> 'z filest_scheme \<Rightarrow> ('z filest_scheme, int) outcome" where
  "pipewrite_done pi i s =
     bnd (wakeup (Some (ChPipeRead pi)) s) (\<lambda>_ s. bnd (release (PipeLock pi) s) (\<lambda>_ s. Done (int i) s))"

text \<open>\<open>i\<close> bytes are written, \<open>left\<close> are left.\<close>

primrec pipewrite_loop ::
  "u64 \<Rightarrow> u64 \<Rightarrow> nat \<Rightarrow> nat \<Rightarrow> 'z filest_scheme \<Rightarrow> ('z filest_scheme, int) outcome" where
  "pipewrite_loop pi addr i 0 s = pipewrite_done pi i s"
| "pipewrite_loop pi addr i (Suc left) s = with_myproc (\<lambda>s pr.
     bnd (if \<not> pi_readopen (pipes s pi) then Done 1 s else killed pr s) (\<lambda>k s.
       if k \<noteq> 0 then bnd (release (PipeLock pi) s) (\<lambda>_ s. Done (-1) s)
       else if pi_nwrite (pipes s pi) = pi_nread (pipes s pi) + of_nat PIPESIZE then
         bnd (wakeup (Some (ChPipeRead pi)) s) (\<lambda>_ s.
         bnd (sleep (Some (ChPipeWrite pi)) (PipeLock pi) s) (\<lambda>_ s. Done 0 s))
       else
         bnd (copyin (p_pagetable (the_proc s pr)) (addr + of_nat i) 1 s) (\<lambda>(r, ch) s.
           if r = -1 then pipewrite_done pi i s
           else pipewrite_loop pi addr (Suc i) left (upd_pipe pi (\<lambda>q. q\<lparr>
                  pi_data := (pi_data q)[unat (pi_nwrite q mod of_nat PIPESIZE) := hd ch],
                  pi_nwrite := pi_nwrite q + 1\<rparr>) s)))) s"

definition pipewrite :: "u64 \<Rightarrow> u64 \<Rightarrow> int \<Rightarrow> 'z filest_scheme \<Rightarrow> ('z filest_scheme, int) outcome" where
  "pipewrite pi addr n s = bnd (acquire (PipeLock pi) s) (\<lambda>_ s. pipewrite_loop pi addr 0 (nat n) s)"

definition pipewrite_resume :: "u64 \<Rightarrow> u64 \<Rightarrow> nat \<Rightarrow> nat \<Rightarrow> 'z filest_scheme \<Rightarrow> ('z filest_scheme, int) outcome" where
  "pipewrite_resume pi addr i left s =
     bnd (sleep_resume (PipeLock pi) s) (\<lambda>_ s. pipewrite_loop pi addr i left s)"

definition piperead_done :: "u64 \<Rightarrow> nat \<Rightarrow> 'z filest_scheme \<Rightarrow> ('z filest_scheme, int) outcome" where
  "piperead_done pi i s =
     bnd (wakeup (Some (ChPipeWrite pi)) s) (\<lambda>_ s. bnd (release (PipeLock pi) s) (\<lambda>_ s. Done (int i) s))"

primrec piperead_copy ::
  "u64 \<Rightarrow> u64 \<Rightarrow> nat \<Rightarrow> nat \<Rightarrow> 'z filest_scheme \<Rightarrow> ('z filest_scheme, int) outcome" where
  "piperead_copy pi addr i 0 s = piperead_done pi i s"
| "piperead_copy pi addr i (Suc left) s =
     (if pi_nread (pipes s pi) = pi_nwrite (pipes s pi) then piperead_done pi i s
      else
        let ch = pi_data (pipes s pi) ! unat (pi_nread (pipes s pi) mod of_nat PIPESIZE);
            s = upd_pipe pi (\<lambda>q. q\<lparr>pi_nread := pi_nread q + 1\<rparr>) s
        in with_myproc (\<lambda>s pr.
             bnd (copyout (p_pagetable (the_proc s pr)) (addr + of_nat i) [ch] 1 s) (\<lambda>r s.
               if r = -1 then piperead_done pi i s
               else piperead_copy pi addr (Suc i) left s)) s)"

definition piperead_turn :: "u64 \<Rightarrow> u64 \<Rightarrow> int \<Rightarrow> 'z filest_scheme \<Rightarrow> ('z filest_scheme, int) outcome" where
  "piperead_turn pi addr n s =
     (if pi_nread (pipes s pi) = pi_nwrite (pipes s pi) \<and> pi_writeopen (pipes s pi) then
        with_myproc (\<lambda>s pr. bnd (killed pr s) (\<lambda>k s.
          if k \<noteq> 0 then bnd (release (PipeLock pi) s) (\<lambda>_ s. Done (-1) s)
          else bnd (sleep (Some (ChPipeRead pi)) (PipeLock pi) s) (\<lambda>_ s. Done 0 s))) s
      else piperead_copy pi addr 0 (nat n) s)"

definition piperead :: "u64 \<Rightarrow> u64 \<Rightarrow> int \<Rightarrow> 'z filest_scheme \<Rightarrow> ('z filest_scheme, int) outcome" where
  "piperead pi addr n s = bnd (acquire (PipeLock pi) s) (\<lambda>_ s. piperead_turn pi addr n s)"

definition piperead_resume :: "u64 \<Rightarrow> u64 \<Rightarrow> int \<Rightarrow> 'z filest_scheme \<Rightarrow> ('z filest_scheme, int) outcome" where
  "piperead_resume pi addr n s = bnd (sleep_resume (PipeLock pi) s) (\<lambda>_ s. piperead_turn pi addr n s)"

subsection \<open>file.c\<close>

definition fileclose :: "nat \<Rightarrow> 'z filest_scheme \<Rightarrow> ('z filest_scheme, unit) outcome" where
  "fileclose f s =
     bnd (acquire FtableLock s) (\<lambda>_ s.
       if f_ref (the_file s f) < 1 then Panic ''fileclose''
       else
         let s = upd_file f (\<lambda>x. x\<lparr>f_ref := f_ref x - 1\<rparr>) s in
         if 0 < f_ref (the_file s f) then release FtableLock s
         else
           let ff = the_file s f in
           bnd (release FtableLock (upd_file f (\<lambda>x. x\<lparr>f_ref := 0, f_type := FD_NONE\<rparr>) s)) (\<lambda>_ s.
             if f_type ff = FD_PIPE then pipeclose (f_pipe ff) (f_writable ff) s
             else if f_type ff = FD_INODE \<or> f_type ff = FD_DEVICE then
               bnd (begin_op s) (\<lambda>_ s. bnd (iput (the (f_ip ff)) s) (\<lambda>_ s. end_op s))
             else Done () s))"

definition close_opt :: "nat option \<Rightarrow> 'z filest_scheme \<Rightarrow> ('z filest_scheme, unit) outcome" where
  "close_opt f s = (case f of None \<Rightarrow> Done () s | Some f \<Rightarrow> fileclose f s)"

text \<open>The label \<open>bad\<close>; the two pointers are returned with the result.\<close>

definition pipealloc_bad ::
  "u64 \<Rightarrow> nat option \<Rightarrow> nat option \<Rightarrow> 'z filest_scheme \<Rightarrow> ('z filest_scheme, (nat \<times> nat) option) outcome" where
  "pipealloc_bad pi f0 f1 s =
     bnd (if pi \<noteq> 0 then kfree pi s else Done () s) (\<lambda>_ s.
     bnd (close_opt f0 s) (\<lambda>_ s.
     bnd (close_opt f1 s) (\<lambda>_ s. Done None s)))"

definition pipealloc :: "'z filest_scheme \<Rightarrow> ('z filest_scheme, (nat \<times> nat) option) outcome" where
  "pipealloc s =
     bnd (filealloc s) (\<lambda>f0 s. case f0 of None \<Rightarrow> pipealloc_bad 0 None None s | Some a \<Rightarrow>
     bnd (filealloc s) (\<lambda>f1 s. case f1 of None \<Rightarrow> pipealloc_bad 0 f0 None s | Some b \<Rightarrow>
     bnd (kalloc s) (\<lambda>pi s.
       if pi = 0 then pipealloc_bad 0 f0 f1 s
       else
         let s = upd_pipe pi (\<lambda>q. q\<lparr>pi_readopen := True, pi_writeopen := True, pi_nwrite := 0, pi_nread := 0\<rparr>) s;
             s = upd_file a (\<lambda>x. x\<lparr>f_type := FD_PIPE, f_readable := True, f_writable := False, f_pipe := pi\<rparr>) s;
             s = upd_file b (\<lambda>x. x\<lparr>f_type := FD_PIPE, f_readable := False, f_writable := True, f_pipe := pi\<rparr>) s
         in Done (Some (a, b)) s)))"

text \<open>The bytes of \<open>struct stat\<close>: \<open>dev\<close>, \<open>ino\<close>, \<open>type\<close>, \<open>nlink\<close>, four bytes of padding, \<open>size\<close>.\<close>

definition stat_bytes :: "stat \<Rightarrow> u8 list \<Rightarrow> u8 list" where
  "stat_bytes st pad = le_bytes 4 (st_dev st) @ le_bytes 4 (st_ino st) @ le_bytes 2 (st_type st) @
     le_bytes 2 (st_nlink st) @ pad @ le_bytes 8 (st_size st)"

text \<open>The padding of the object on the stack has no defined value: it is an argument.\<close>

definition filestat :: "u8 list \<Rightarrow> nat \<Rightarrow> u64 \<Rightarrow> 'z filest_scheme \<Rightarrow> ('z filest_scheme, int) outcome" where
  "filestat pad f addr = with_myproc (\<lambda>s p.
     if f_type (the_file s f) = FD_INODE \<or> f_type (the_file s f) = FD_DEVICE then
       bnd (ilock (f_ip (the_file s f)) s) (\<lambda>_ s.
         let st = stati (the (f_ip (the_file s f))) s in
         bnd (iunlock (f_ip (the_file s f)) s) (\<lambda>_ s.
         bnd (copyout (p_pagetable (the_proc s p)) addr (stat_bytes st pad) 24 s) (\<lambda>r s.
           Done (if r < 0 then -1 else 0) s)))
     else Done (-1) s)"

definition is_console :: "u16 \<Rightarrow> 'z filest_scheme \<Rightarrow> bool" where
  "is_console major s \<longleftrightarrow> 0 \<le> sint major \<and> sint major < int NDEV \<and> devsw s ! unat major = ConsoleDev"

definition fileread :: "nat \<Rightarrow> u64 \<Rightarrow> int \<Rightarrow> 'z filest_scheme \<Rightarrow> ('z filest_scheme, int) outcome" where
  "fileread f addr n s =
     (let x = the_file s f in
      if \<not> f_readable x then Done (-1) s
      else case f_type x of
        FD_PIPE \<Rightarrow> piperead (f_pipe x) addr n s
      | FD_DEVICE \<Rightarrow> if is_console (f_major x) s then consoleread True addr n s else Done (-1) s
      | FD_INODE \<Rightarrow>
          bnd (ilock (f_ip x) s) (\<lambda>_ s.
          bnd (readi (the (f_ip x)) (ToUser addr) (f_off (the_file s f)) (word_of_int n) s) (\<lambda>(r, _) s.
            let s = (if 0 < r then upd_file f (\<lambda>x. x\<lparr>f_off := f_off x + word_of_int r\<rparr>) s else s) in
            bnd (iunlock (f_ip x) s) (\<lambda>_ s. Done r s)))
      | FD_NONE \<Rightarrow> Panic ''fileread'')"

text \<open>\<open>((MAXOPBLOCKS-1-1-2) / 2) * BSIZE\<close>\<close>

definition max_write :: nat where
  "max_write = ((MAXOPBLOCKS - 1 - 1 - 2) div 2) * BSIZE"

text \<open>The loop on the bytes of one \<open>write\<close>: \<open>i\<close> are done, \<open>left\<close> are left; the result is the final \<open>i\<close>.\<close>

function filewrite_loop ::
  "nat \<Rightarrow> u64 \<Rightarrow> nat \<Rightarrow> nat \<Rightarrow> 'z filest_scheme \<Rightarrow> ('z filest_scheme, nat) outcome" where
  "filewrite_loop f addr i left s =
     (if left = 0 then Done i s
      else
        let n1 = min left max_write; ip = f_ip (the_file s f) in
        bnd (begin_op s) (\<lambda>_ s.
        bnd (ilock ip s) (\<lambda>_ s.
        bnd (writei (the ip) (FromUser (addr + of_nat i)) (f_off (the_file s f)) (of_nat n1) s) (\<lambda>r s.
          let s = (if 0 < r then upd_file f (\<lambda>x. x\<lparr>f_off := f_off x + word_of_int r\<rparr>) s else s) in
          bnd (iunlock ip s) (\<lambda>_ s.
          bnd (end_op s) (\<lambda>_ s.
            if r \<noteq> int n1 then Done i s
            else filewrite_loop f addr (i + n1) (left - n1) s))))))"
  by pat_completeness auto
termination
  by (relation "measure (\<lambda>(f, addr, i, left, s). left)") (auto simp: max_write_def)

declare filewrite_loop.simps [simp del]

definition filewrite :: "nat \<Rightarrow> u64 \<Rightarrow> int \<Rightarrow> 'z filest_scheme \<Rightarrow> ('z filest_scheme, int) outcome" where
  "filewrite f addr n s =
     (let x = the_file s f in
      if \<not> f_writable x then Done (-1) s
      else case f_type x of
        FD_PIPE \<Rightarrow> pipewrite (f_pipe x) addr n s
      | FD_DEVICE \<Rightarrow> if is_console (f_major x) s then consolewrite True addr n s else Done (-1) s
      | FD_INODE \<Rightarrow>
          bnd (filewrite_loop f addr 0 (nat n) s) (\<lambda>i s. Done (if int i = n then n else -1) s)
      | FD_NONE \<Rightarrow> Panic ''filewrite'')"

end
