(* ===== verification/Dir.thy ===== *)
theory Dir
  imports Txn Kstring
begin

section \<open>fs.c: directories and path names\<close>

text \<open>
  Names and paths are byte lists: a path is the string up to its NUL, \<open>name\<close> the array of \<open>DIRSIZ\<close>
  bytes a caller passes, a directory entry the 16 bytes \<open>readi\<close> returns. \<open>strncmp_list\<close> is \<open>strncmp\<close>
  of theory \<open>Kstring\<close> on such objects (\<open>strncmp_list_memory\<close>).
\<close>

abbreviation DIRSIZ :: nat where "DIRSIZ \<equiv> 14"
abbreviation slash :: u8 where "slash \<equiv> 47"

definition byte0 :: "u8 list \<Rightarrow> u8" where
  "byte0 xs = (case xs of [] \<Rightarrow> 0 | x # _ \<Rightarrow> x)"

primrec strncmp_list :: "nat \<Rightarrow> u8 list \<Rightarrow> u8 list \<Rightarrow> int" where
  "strncmp_list 0 p q = 0"
| "strncmp_list (Suc n) p q =
     (if byte0 p \<noteq> 0 \<and> byte0 p = byte0 q then strncmp_list n (tl p) (tl q)
      else uint (byte0 p) - uint (byte0 q))"

primrec strncpy_list :: "nat \<Rightarrow> u8 list \<Rightarrow> u8 list" where
  "strncpy_list 0 t = []"
| "strncpy_list (Suc n) t =
     (if byte0 t \<noteq> 0 then byte0 t # strncpy_list n (tl t) else replicate (Suc n) 0)"

definition namecmp :: "u8 list \<Rightarrow> u8 list \<Rightarrow> int" where
  "namecmp s t = strncmp_list DIRSIZ s t"

lemma strncmp_list_memory:
  "strncmp_list n (load_bytes m p n) (load_bytes m q n) = strncmp_loop n p q m"
  by (induction n arbitrary: p q) (simp_all add: byte0_def)

definition de_inum :: "u8 list \<Rightarrow> u16" where
  "de_inum de = of_le (take 2 de)"

definition de_name :: "u8 list \<Rightarrow> u8 list" where
  "de_name de = drop 2 de"

definition dirent :: "u16 \<Rightarrow> u8 list \<Rightarrow> u8 list" where
  "dirent inum name = le_bytes 2 inum @ strncpy_list DIRSIZ name"

text \<open>The offsets the two loops over a directory visit.\<close>

definition dir_slots :: "nat \<Rightarrow> 'z fsst_scheme \<Rightarrow> nat list" where
  "dir_slots dp s = [0..<(unat (i_size (ino s dp)) + 15) div 16]"

text \<open>The entry found and its offset (\<open>*poff\<close>).\<close>

definition dirlookup :: "nat \<Rightarrow> u8 list \<Rightarrow> 'z fsst_scheme \<Rightarrow> ('z fsst_scheme, (nat \<times> u32) option) outcome" where
  "dirlookup dp name s =
     (if i_type (ino s dp) \<noteq> T_DIR then Panic ''dirlookup not DIR''
      else loop_until (\<lambda>k s.
        let off = of_nat (16 * k) in
        bnd (readi dp ToLocal off 16 s) (\<lambda>(r, de) s.
          if r \<noteq> 16 then Panic ''dirlookup read''
          else if de_inum de = 0 then Done None s
          else if namecmp name (de_name de) = 0
          then bnd (iget (i_dev (ino s dp)) (ucast (de_inum de)) s) (\<lambda>i s. Done (Some (i, off)) s)
          else Done None s)) (dir_slots dp s) s)"

definition dirlink :: "nat \<Rightarrow> u8 list \<Rightarrow> u32 \<Rightarrow> 'z fsst_scheme \<Rightarrow> ('z fsst_scheme, int) outcome" where
  "dirlink dp name inum s =
     bnd (dirlookup dp name s) (\<lambda>r s. case r of
       Some (i, _) \<Rightarrow> bnd (iput i s) (\<lambda>_ s. Done (-1) s)
     | None \<Rightarrow>
         bnd (loop_until (\<lambda>k s.
                let off = of_nat (16 * k) :: u32 in
                bnd (readi dp ToLocal off 16 s) (\<lambda>(r, de) s.
                  if r \<noteq> 16 then Panic ''dirlink read''
                  else if de_inum de = 0 then Done (Some off) s else Done None s)) (dir_slots dp s) s) (\<lambda>r s.
           let off = (case r of Some off \<Rightarrow> off | None \<Rightarrow> of_nat (16 * length (dir_slots dp s))) in
           bnd (writei dp (FromLocal (dirent (ucast inum) name)) off 16 s) (\<lambda>r s.
             Done (if r \<noteq> 16 then -1 else 0) s)))"

subsection \<open>Paths\<close>

definition skipelem :: "u8 list \<Rightarrow> u8 list \<Rightarrow> (u8 list \<times> u8 list) option" where
  "skipelem path name =
     (let path = dropWhile (\<lambda>c. c = slash) path in
      if path = [] then None
      else
        let elem = takeWhile (\<lambda>c. c \<noteq> slash) path;
            path = dropWhile (\<lambda>c. c \<noteq> slash) path;
            name = (if DIRSIZ \<le> length elem then take DIRSIZ elem
                    else elem @ 0 # drop (length elem + 1) name)
        in Some (dropWhile (\<lambda>c. c = slash) path, name))"

lemma skipelem_shorter: "skipelem path name = Some (path', name') \<Longrightarrow> length path' < length path"
proof -
  assume a: "skipelem path name = Some (path', name')"
  let ?p = "dropWhile (\<lambda>c. c = slash) path"
  have p: "?p \<noteq> []" "path' = dropWhile (\<lambda>c. c = slash) (dropWhile (\<lambda>c. c \<noteq> slash) ?p)"
    using a by (auto simp: skipelem_def Let_def split: if_splits)
  obtain c cs where c: "?p = c # cs" using p(1) by (cases ?p) auto
  then have "c \<noteq> slash" by (metis (mono_tags, lifting) hd_dropWhile list.sel(1) list.simps(3))
  then have "length (dropWhile (\<lambda>c. c \<noteq> slash) ?p) \<le> length cs" using c by (simp add: length_dropWhile_le)
  then have "length path' \<le> length cs" using p(2) length_dropWhile_le le_trans by blast
  also have "length cs < length ?p" using c by simp
  also have "length ?p \<le> length path" by (rule length_dropWhile_le)
  finally show ?thesis .
qed

function namex_loop ::
  "bool \<Rightarrow> nat \<Rightarrow> u8 list \<Rightarrow> u8 list \<Rightarrow> 'z fsst_scheme \<Rightarrow> ('z fsst_scheme, nat option \<times> u8 list) outcome" where
  "namex_loop nip ip path name s =
     (case skipelem path name of
        None \<Rightarrow> if nip then bnd (iput ip s) (\<lambda>_ s. Done (None, name) s) else Done (Some ip, name) s
      | Some (path', name') \<Rightarrow>
          bnd (ilock (Some ip) s) (\<lambda>_ s.
            if i_type (ino s ip) \<noteq> T_DIR then bnd (iunlockput ip s) (\<lambda>_ s. Done (None, name') s)
            else if nip \<and> path' = [] then bnd (iunlock (Some ip) s) (\<lambda>_ s. Done (Some ip, name') s)
            else
              bnd (dirlookup ip name' s) (\<lambda>r s. case r of
                None \<Rightarrow> bnd (iunlockput ip s) (\<lambda>_ s. Done (None, name') s)
              | Some (i, _) \<Rightarrow> bnd (iunlockput ip s) (\<lambda>_ s. namex_loop nip i path' name' s))))"
  by pat_completeness auto
termination
  by (relation "measure (\<lambda>(nip, ip, path, name, s). length path)") (auto dest: skipelem_shorter)

declare namex_loop.simps [simp del]

definition namex ::
  "u8 list \<Rightarrow> bool \<Rightarrow> u8 list \<Rightarrow> 'z fsst_scheme \<Rightarrow> ('z fsst_scheme, nat option \<times> u8 list) outcome" where
  "namex path nip name s =
     bnd (if byte0 path = slash then iget ROOTDEV ROOTINO s
          else with_myproc (\<lambda>s p. case p_cwd (the_proc s p) of
                 Some cwd \<Rightarrow> idup cwd s | None \<Rightarrow> Panic ''kerneltrap'') s) (\<lambda>ip s.
       namex_loop nip ip path name s)"

text \<open>\<open>namei\<close> passes an array of its own, whose contents it does not use.\<close>

definition namei :: "u8 list \<Rightarrow> 'z fsst_scheme \<Rightarrow> ('z fsst_scheme, nat option) outcome" where
  "namei path s = bnd (namex path False (replicate DIRSIZ 0) s) (\<lambda>(ip, _) s. Done ip s)"

definition nameiparent ::
  "u8 list \<Rightarrow> u8 list \<Rightarrow> 'z fsst_scheme \<Rightarrow> ('z fsst_scheme, nat option \<times> u8 list) outcome" where
  "nameiparent path name s = namex path True name s"


subsection \<open>Path elements\<close>

text \<open>The specification: the non-empty pieces between slashes; a name counts up to \<open>DIRSIZ\<close> bytes.\<close>

primrec split_slash :: "u8 list \<Rightarrow> u8 list list" where
  "split_slash [] = [[]]"
| "split_slash (c # cs) =
     (if c = slash then [] # split_slash cs
      else (case split_slash cs of [] \<Rightarrow> [[c]] | e # es \<Rightarrow> (c # e) # es))"

definition path_elems :: "u8 list \<Rightarrow> u8 list list" where
  "path_elems path = filter (\<lambda>e. e \<noteq> []) (split_slash path)"

definition name_of :: "u8 list \<Rightarrow> u8 list" where
  "name_of buf = takeWhile (\<lambda>c. c \<noteq> 0) (take DIRSIZ buf)"

lemma split_slash_nonempty [simp]: "split_slash p \<noteq> []"
  by (induction p) (auto split: list.splits)

lemma path_elems_Nil [simp]: "path_elems [] = []"
  by (simp add: path_elems_def)

lemma path_elems_slash [simp]: "path_elems (slash # p) = path_elems p"
  by (simp add: path_elems_def)

lemma path_elems_dropWhile: "path_elems (dropWhile (\<lambda>c. c = slash) p) = path_elems p"
  by (induction p) auto

lemma split_slash_elem:
  "split_slash p = takeWhile (\<lambda>c. c \<noteq> slash) p #
     (case dropWhile (\<lambda>c. c \<noteq> slash) p of [] \<Rightarrow> [] | _ # q \<Rightarrow> split_slash q)"
  by (induction p) (auto split: list.splits)

lemma path_elems_Cons:
  assumes "c \<noteq> slash"
  shows "path_elems (c # p) = takeWhile (\<lambda>c. c \<noteq> slash) (c # p) # path_elems (dropWhile (\<lambda>c. c \<noteq> slash) (c # p))"
proof -
  have e: "path_elems (dropWhile (\<lambda>c. c \<noteq> slash) p) =
      filter (\<lambda>e. e \<noteq> []) (case dropWhile (\<lambda>c. c \<noteq> slash) p of [] \<Rightarrow> [] | _ # q \<Rightarrow> split_slash q)"
  proof (cases "dropWhile (\<lambda>c. c \<noteq> slash) p")
    case (Cons d q)
    then have "d = slash" by (metis (mono_tags, lifting) hd_dropWhile list.sel(1) list.simps(3))
    then show ?thesis using Cons by (simp add: path_elems_def)
  next
    case Nil
    show ?thesis unfolding Nil by simp
  qed
  have "path_elems (c # p) = filter (\<lambda>e. e \<noteq> []) (split_slash (c # p))" by (simp add: path_elems_def)
  also have "\<dots> = filter (\<lambda>e. e \<noteq> []) (takeWhile (\<lambda>c. c \<noteq> slash) (c # p) #
     (case dropWhile (\<lambda>c. c \<noteq> slash) (c # p) of [] \<Rightarrow> [] | _ # q \<Rightarrow> split_slash q))"
    by (subst split_slash_elem) simp
  finally show ?thesis using assms e by simp
qed

lemma name_of_buffer:
  assumes "0 \<notin> set e"
  shows "name_of (if DIRSIZ \<le> length e then take DIRSIZ e else e @ 0 # r) = take DIRSIZ e"
proof (cases "DIRSIZ \<le> length e")
  case True
  have "takeWhile (\<lambda>c. c \<noteq> 0) (take DIRSIZ e) = take DIRSIZ e"
    using assms by (auto simp: takeWhile_eq_all_conv dest: in_set_takeD)
  with True show ?thesis by (simp add: name_of_def)
next
  case False
  then obtain k where k: "DIRSIZ - length e = Suc k" by (cases "DIRSIZ - length e") auto
  have "take DIRSIZ (e @ 0 # r) = e @ 0 # take k r" using False k by simp
  moreover have "takeWhile (\<lambda>c. c \<noteq> 0) (e @ 0 # take k r) = e"
    using assms by (subst takeWhile_append2) auto
  ultimately show ?thesis using False by (simp add: name_of_def)
qed

lemma skipelem_splits_path_law:
  assumes "0 \<notin> set path"
  shows "case skipelem path name of
      None \<Rightarrow> path_elems path = []
    | Some (rest, name') \<Rightarrow> \<exists>e. path_elems path = e # path_elems rest \<and> name_of name' = take DIRSIZ e \<and> 0 \<notin> set rest"
proof (cases "dropWhile (\<lambda>c. c = slash) path")
  case Nil
  have "path_elems path = []" using path_elems_dropWhile [of path] unfolding Nil by simp
  then show ?thesis using Nil by (simp add: skipelem_def)
next
  case (Cons c p)
  let ?e = "takeWhile (\<lambda>c. c \<noteq> slash) (c # p)" and ?r = "dropWhile (\<lambda>c. c \<noteq> slash) (c # p)"
  have c: "c \<noteq> slash" using Cons by (metis (mono_tags, lifting) hd_dropWhile list.sel(1) list.simps(3))
  have sub: "set (c # p) \<subseteq> set path" using Cons set_dropWhileD by (metis subsetI)
  then have z: "0 \<notin> set ?e" "0 \<notin> set (dropWhile (\<lambda>c. c = slash) ?r)"
    using assms by (auto dest!: set_takeWhileD set_dropWhileD)
  have "name_of (if DIRSIZ \<le> length ?e then take DIRSIZ ?e else ?e @ 0 # drop (length ?e + 1) name) = take DIRSIZ ?e"
    by (rule name_of_buffer [OF z(1)])
  moreover have "path_elems path = ?e # path_elems (dropWhile (\<lambda>c. c = slash) ?r)"
    using path_elems_dropWhile [of path] path_elems_dropWhile [of ?r] path_elems_Cons [OF c, of p] unfolding Cons by simp
  moreover have "skipelem path name = Some (dropWhile (\<lambda>c. c = slash) ?r,
      if DIRSIZ \<le> length ?e then take DIRSIZ ?e else ?e @ 0 # drop (length ?e + 1) name)"
    unfolding skipelem_def Let_def Cons by (simp only: list.distinct if_False)
  ultimately show ?thesis using z(2) by (simp only: option.case prod.case) blast
qed

text \<open>
  C33: \<open>skipelem\<close> takes a path apart into its elements. Iterating it visits exactly the non-empty pieces
  between the slashes, in order: it returns null when there is none left, and otherwise the rest of the
  path holds the remaining elements and \<open>name\<close>, as \<open>namecmp\<close> reads it, is the first one cut to
  \<open>DIRSIZ\<close> bytes, whatever the array held before.
\<close>
theorem skipelem_splits_path:
  assumes "0 \<notin> set path"
  shows "case skipelem path name of
      None \<Rightarrow> path_elems path = []
    | Some (rest, name') \<Rightarrow> \<exists>e. path_elems path = e # path_elems rest \<and> name_of name' = take DIRSIZ e \<and> 0 \<notin> set rest"
  using skipelem_splits_path_law [OF assms] .

lemma skipelem_splits_path_witness:
  "skipelem [47, 97, 47, 47, 98] (replicate 14 9) = Some ([98], [97, 0] @ replicate 12 9) \<and>
   path_elems [47, 97, 47, 47, 98] = [97] # path_elems [98]"
proof -
  have "skipelem [47, 97, 47, 47, 98] (replicate 14 9) = Some ([98], [97, 0] @ replicate 12 9)" by code_simp
  moreover from this have "\<exists>e. path_elems [47, 97, 47, 47, 98] = e # path_elems [98] \<and>
      name_of ([97, 0] @ replicate 12 9) = take DIRSIZ e"
    using skipelem_splits_path [of "[47, 97, 47, 47, 98]" "replicate 14 9"] by auto
  moreover have "path_elems [47, 97, 47, 47, 98] = [[97], [98]]" "path_elems [98] = [[98]]" by code_simp+
  ultimately show ?thesis by auto
qed

end
