(* ===== verification/Sysarg.thy ===== *)
theory Sysarg
  imports File Dir
begin

section \<open>syscall.c: system call arguments\<close>

text \<open>
  The arguments of a system call are the user registers \<open>a0\<close> to \<open>a5\<close> in the trap frame. \<open>fetchaddr\<close>
  and \<open>fetchstr\<close> read user memory for the kernel: they return their result and the bytes written to the
  destination, whose length the destination's type fixes. \<open>the_string\<close> is the C string such bytes hold.
\<close>

abbreviation MAXPATH :: u64 where "MAXPATH \<equiv> 128"
abbreviation MAXARG :: nat where "MAXARG \<equiv> 32"

definition the_string :: "u8 list \<Rightarrow> u8 list" where
  "the_string bs = takeWhile (\<lambda>b. b \<noteq> 0) bs"

definition fetchaddr :: "u64 \<Rightarrow> 'z ptab_scheme \<Rightarrow> ('z ptab_scheme, int \<times> u64) outcome" where
  "fetchaddr addr = with_myproc (\<lambda>s i.
     let p = the_proc s i in
     if p_sz p \<le> addr \<or> p_sz p < addr + 8 then Done (-1, 0) s
     else bnd (copyin (p_pagetable p) addr 8 s) (\<lambda>(r, bs) s.
       if r \<noteq> 0 then Done (-1, of_le bs) s else Done (0, of_le bs) s))"

definition fetchstr :: "u64 \<Rightarrow> u64 \<Rightarrow> 'z ptab_scheme \<Rightarrow> ('z ptab_scheme, int \<times> u8 list) outcome" where
  "fetchstr addr max_len = with_myproc (\<lambda>s i.
     bnd (copyinstr (p_pagetable (the_proc s i)) addr max_len s) (\<lambda>(r, bs) s.
       if r < 0 then Done (-1, bs) s else Done (int (length (the_string bs)), bs) s))"

definition argraw :: "nat \<Rightarrow> 'z ptab_scheme \<Rightarrow> ('z ptab_scheme, u64) outcome" where
  "argraw n = with_myproc (\<lambda>s i.
     let tf = p_trapframe (the_proc s i) in
     if n = 0 then Done (get_tf tf TfA0 s) s
     else if n = 1 then Done (get_tf tf TfA1 s) s
     else if n = 2 then Done (get_tf tf TfA2 s) s
     else if n = 3 then Done (get_tf tf TfA3 s) s
     else if n = 4 then Done (get_tf tf TfA4 s) s
     else if n = 5 then Done (get_tf tf TfA5 s) s
     else Panic ''argraw'')"

text \<open>The assignment to an \<open>int\<close> keeps the low 32 bits.\<close>

definition argint :: "nat \<Rightarrow> 'z ptab_scheme \<Rightarrow> ('z ptab_scheme, int) outcome" where
  "argint n s = bnd (argraw n s) (\<lambda>v s. Done (sint (ucast v :: u32)) s)"

definition argaddr :: "nat \<Rightarrow> 'z ptab_scheme \<Rightarrow> ('z ptab_scheme, u64) outcome" where
  "argaddr n s = argraw n s"

definition argstr :: "nat \<Rightarrow> u64 \<Rightarrow> 'z ptab_scheme \<Rightarrow> ('z ptab_scheme, int \<times> u8 list) outcome" where
  "argstr n max_len s = bnd (argaddr n s) (\<lambda>addr s. fetchstr addr max_len s)"

text \<open>\<open>if(argstr(n, path, MAXPATH) < 0)\<close>: the path, or \<open>None\<close> on failure.\<close>

definition argpath :: "nat \<Rightarrow> 'z ptab_scheme \<Rightarrow> ('z ptab_scheme, u8 list option) outcome" where
  "argpath n s = bnd (argstr n MAXPATH s) (\<lambda>(r, bs) s. Done (if r < 0 then None else Some (the_string bs)) s)"

subsection \<open>File descriptors\<close>

text \<open>The descriptor and the file it refers to; \<open>None\<close> is the result -1.\<close>

definition argfd :: "nat \<Rightarrow> 'z ptab_scheme \<Rightarrow> ('z ptab_scheme, (nat \<times> nat) option) outcome" where
  "argfd n s =
     bnd (argint n s) (\<lambda>fd. with_myproc (\<lambda>s p.
       if fd < 0 \<or> int NOFILE \<le> fd then Done None s
       else Done (map_option (\<lambda>f. (nat fd, f)) (p_ofile (the_proc s p) ! nat fd)) s))"

definition set_ofile :: "nat \<Rightarrow> nat option \<Rightarrow> nat \<Rightarrow> 'z ptab_scheme \<Rightarrow> 'z ptab_scheme" where
  "set_ofile fd f p s = upd_proc p (\<lambda>q. q\<lparr>p_ofile := (p_ofile q)[fd := f]\<rparr>) s"

definition fdalloc :: "nat \<Rightarrow> 'z ptab_scheme \<Rightarrow> ('z ptab_scheme, int) outcome" where
  "fdalloc f = with_myproc (\<lambda>s p.
     case find (\<lambda>fd. p_ofile (the_proc s p) ! fd = None) [0..<NOFILE] of
       Some fd \<Rightarrow> Done (int fd) (set_ofile fd (Some f) p s)
     | None \<Rightarrow> Done (-1) s)"

end
