(* ===== verification/Sysfile.thy ===== *)
theory Sysfile
  imports Sysarg
begin

section \<open>sysfile.c: the file system calls\<close>

text \<open>
  One definition per system call, in the order of the file; they return the \<open>int\<close> the C code returns
  (theory \<open>Sysproc\<close> stores it in \<open>a0\<close>). \<open>end_op_with r\<close> is \<open>end_op(); return r;\<close>, \<open>put_fail\<close> is
  \<open>iunlockput(ip); end_op(); return -1;\<close>. The array \<open>name[DIRSIZ]\<close> a caller passes to \<open>nameiparent\<close> has no
  defined contents before it is filled; nothing reads them, and the model passes zeros.
\<close>

abbreviation O_RDONLY :: u32 where "O_RDONLY \<equiv> 0x000"
abbreviation O_WRONLY :: u32 where "O_WRONLY \<equiv> 0x001"
abbreviation O_RDWR :: u32 where "O_RDWR \<equiv> 0x002"
abbreviation O_CREATE :: u32 where "O_CREATE \<equiv> 0x200"
abbreviation O_TRUNC :: u32 where "O_TRUNC \<equiv> 0x400"

definition end_op_with :: "'a \<Rightarrow> 'z fsst_scheme \<Rightarrow> ('z fsst_scheme, 'a) outcome" where
  "end_op_with r s = bnd (end_op s) (\<lambda>_ s. Done r s)"

definition put_fail :: "nat \<Rightarrow> 'z fsst_scheme \<Rightarrow> ('z fsst_scheme, int) outcome" where
  "put_fail ip s = bnd (iunlockput ip s) (\<lambda>_ s. end_op_with (-1) s)"

definition sys_dup :: "'z filest_scheme \<Rightarrow> ('z filest_scheme, int) outcome" where
  "sys_dup s =
     bnd (argfd 0 s) (\<lambda>a s. case a of None \<Rightarrow> Done (-1) s | Some (_, f) \<Rightarrow>
     bnd (fdalloc f s) (\<lambda>fd s.
       if fd < 0 then Done (-1) s
       else bnd (filedup f s) (\<lambda>_ s. Done fd s)))"

definition sys_read :: "'z filest_scheme \<Rightarrow> ('z filest_scheme, int) outcome" where
  "sys_read s =
     bnd (argaddr 1 s) (\<lambda>p s.
     bnd (argint 2 s) (\<lambda>n s.
     bnd (argfd 0 s) (\<lambda>a s. case a of None \<Rightarrow> Done (-1) s | Some (_, f) \<Rightarrow> fileread f p n s)))"

definition sys_write :: "'z filest_scheme \<Rightarrow> ('z filest_scheme, int) outcome" where
  "sys_write s =
     bnd (argaddr 1 s) (\<lambda>p s.
     bnd (argint 2 s) (\<lambda>n s.
     bnd (argfd 0 s) (\<lambda>a s. case a of None \<Rightarrow> Done (-1) s | Some (_, f) \<Rightarrow> filewrite f p n s)))"

definition sys_close :: "'z filest_scheme \<Rightarrow> ('z filest_scheme, int) outcome" where
  "sys_close s =
     bnd (argfd 0 s) (\<lambda>a s. case a of None \<Rightarrow> Done (-1) s | Some (fd, f) \<Rightarrow>
       with_myproc (\<lambda>s p. bnd (fileclose f (set_ofile fd None p s)) (\<lambda>_ s. Done 0 s)) s)"

definition sys_fstat :: "u8 list \<Rightarrow> 'z filest_scheme \<Rightarrow> ('z filest_scheme, int) outcome" where
  "sys_fstat pad s =
     bnd (argaddr 1 s) (\<lambda>st s.
     bnd (argfd 0 s) (\<lambda>a s. case a of None \<Rightarrow> Done (-1) s | Some (_, f) \<Rightarrow> filestat pad f st s))"

text \<open>\<open>ip->nlink += d\<close> followed by \<open>iupdate(ip)\<close>.\<close>

definition nlink_add :: "u16 \<Rightarrow> nat \<Rightarrow> 'z fsst_scheme \<Rightarrow> ('z fsst_scheme, unit) outcome" where
  "nlink_add d ip s = iupdate ip (upd_ino ip (\<lambda>x. x\<lparr>i_nlink := i_nlink x + d\<rparr>) s)"

definition sys_link_bad :: "nat \<Rightarrow> 'z fsst_scheme \<Rightarrow> ('z fsst_scheme, int) outcome" where
  "sys_link_bad ip s =
     bnd (ilock (Some ip) s) (\<lambda>_ s.
     bnd (nlink_add (-1) ip s) (\<lambda>_ s. put_fail ip s))"

definition sys_link :: "'z fsst_scheme \<Rightarrow> ('z fsst_scheme, int) outcome" where
  "sys_link s =
     bnd (argpath 0 s) (\<lambda>old s. case old of None \<Rightarrow> Done (-1) s | Some old \<Rightarrow>
     bnd (argpath 1 s) (\<lambda>new s. case new of None \<Rightarrow> Done (-1) s | Some new \<Rightarrow>
     bnd (begin_op s) (\<lambda>_ s.
     bnd (namei old s) (\<lambda>ip s. case ip of None \<Rightarrow> end_op_with (-1) s | Some ip \<Rightarrow>
     bnd (ilock (Some ip) s) (\<lambda>_ s.
       if i_type (ino s ip) = T_DIR then put_fail ip s
       else
         bnd (nlink_add 1 ip s) (\<lambda>_ s.
         bnd (iunlock (Some ip) s) (\<lambda>_ s.
         bnd (nameiparent new (replicate DIRSIZ 0) s) (\<lambda>(dp, name) s. case dp of
           None \<Rightarrow> sys_link_bad ip s
         | Some dp \<Rightarrow>
             bnd (ilock (Some dp) s) (\<lambda>_ s.
             bnd (if i_dev (ino s dp) \<noteq> i_dev (ino s ip) then Done (-1) s
                  else dirlink dp name (i_inum (ino s ip)) s) (\<lambda>r s.
               if r < 0 then bnd (iunlockput dp s) (\<lambda>_ s. sys_link_bad ip s)
               else
                 bnd (iunlockput dp s) (\<lambda>_ s.
                 bnd (iput ip s) (\<lambda>_ s. end_op_with 0 s))))))))))))"

text \<open>The loop of \<open>isdirempty\<close> over the entries after the first two.\<close>

definition isdirempty :: "nat \<Rightarrow> 'z fsst_scheme \<Rightarrow> ('z fsst_scheme, bool) outcome" where
  "isdirempty dp s =
     bnd (loop_until (\<lambda>k s.
            bnd (readi dp ToLocal (of_nat (16 * k)) 16 s) (\<lambda>(r, de) s.
              if r \<noteq> 16 then Panic ''isdirempty: readi''
              else Done (if de_inum de \<noteq> 0 then Some () else None) s))
          [2..<(unat (i_size (ino s dp)) + 15) div 16] s)
       (\<lambda>r s. Done (r = None) s)"

definition dot_name :: "u8 list" where "dot_name = [46, 0]"
definition dotdot_name :: "u8 list" where "dotdot_name = [46, 46, 0]"

definition sys_unlink :: "'z fsst_scheme \<Rightarrow> ('z fsst_scheme, int) outcome" where
  "sys_unlink s =
     bnd (argpath 0 s) (\<lambda>path s. case path of None \<Rightarrow> Done (-1) s | Some path \<Rightarrow>
     bnd (begin_op s) (\<lambda>_ s.
     bnd (nameiparent path (replicate DIRSIZ 0) s) (\<lambda>(dp, name) s. case dp of
       None \<Rightarrow> end_op_with (-1) s
     | Some dp \<Rightarrow>
         bnd (ilock (Some dp) s) (\<lambda>_ s.
           if namecmp name dot_name = 0 \<or> namecmp name dotdot_name = 0 then put_fail dp s
           else
             bnd (dirlookup dp name s) (\<lambda>r s. case r of None \<Rightarrow> put_fail dp s | Some (ip, off) \<Rightarrow>
             bnd (ilock (Some ip) s) (\<lambda>_ s.
               if sint (i_nlink (ino s ip)) < 1 then Panic ''unlink: nlink < 1''
               else
                 bnd (if i_type (ino s ip) = T_DIR then isdirempty ip s else Done True s) (\<lambda>e s.
                   if \<not> e then bnd (iunlockput ip s) (\<lambda>_ s. put_fail dp s)
                   else
                     bnd (writei dp (FromLocal (replicate 16 0)) off 16 s) (\<lambda>w s.
                       if w \<noteq> 16 then Panic ''unlink: writei''
                       else
                         bnd (if i_type (ino s ip) = T_DIR then nlink_add (-1) dp s else Done () s) (\<lambda>_ s.
                         bnd (iunlockput dp s) (\<lambda>_ s.
                         bnd (nlink_add (-1) ip s) (\<lambda>_ s.
                         bnd (iunlockput ip s) (\<lambda>_ s. end_op_with 0 s))))))))))))"

definition create_fail :: "nat \<Rightarrow> nat \<Rightarrow> 'z fsst_scheme \<Rightarrow> ('z fsst_scheme, nat option) outcome" where
  "create_fail ip dp s =
     bnd (iupdate ip (upd_ino ip (\<lambda>x. x\<lparr>i_nlink := 0\<rparr>) s)) (\<lambda>_ s.
     bnd (iunlockput ip s) (\<lambda>_ s.
     bnd (iunlockput dp s) (\<lambda>_ s. Done None s)))"

text \<open>The part of \<open>create\<close> after a successful \<open>ialloc\<close>.\<close>

definition create_new ::
  "nat \<Rightarrow> nat \<Rightarrow> u8 list \<Rightarrow> u16 \<Rightarrow> u16 \<Rightarrow> u16 \<Rightarrow> 'z fsst_scheme \<Rightarrow> ('z fsst_scheme, nat option) outcome" where
  "create_new ip dp name typ major minor s =
     bnd (ilock (Some ip) s) (\<lambda>_ s.
     bnd (iupdate ip (upd_ino ip (\<lambda>x. x\<lparr>i_major := major, i_minor := minor, i_nlink := 1\<rparr>) s)) (\<lambda>_ s.
     bnd (if typ = T_DIR then
            bnd (dirlink ip dot_name (i_inum (ino s ip)) s) (\<lambda>r s.
              if r < 0 then Done r s else dirlink ip dotdot_name (i_inum (ino s dp)) s)
          else Done 0 s) (\<lambda>r s.
       if r < 0 then create_fail ip dp s
       else
         bnd (dirlink dp name (i_inum (ino s ip)) s) (\<lambda>r s.
           if r < 0 then create_fail ip dp s
           else
             bnd (if typ = T_DIR then nlink_add 1 dp s else Done () s) (\<lambda>_ s.
             bnd (iunlockput dp s) (\<lambda>_ s. Done (Some ip) s))))))"

definition create ::
  "u8 list \<Rightarrow> u16 \<Rightarrow> u16 \<Rightarrow> u16 \<Rightarrow> 'z fsst_scheme \<Rightarrow> ('z fsst_scheme, nat option) outcome" where
  "create path typ major minor s =
     bnd (nameiparent path (replicate DIRSIZ 0) s) (\<lambda>(dp, name) s. case dp of
       None \<Rightarrow> Done None s
     | Some dp \<Rightarrow>
         bnd (ilock (Some dp) s) (\<lambda>_ s.
         bnd (dirlookup dp name s) (\<lambda>r s. case r of
           Some (ip, _) \<Rightarrow>
             bnd (iunlockput dp s) (\<lambda>_ s.
             bnd (ilock (Some ip) s) (\<lambda>_ s.
               if typ = T_FILE \<and> (i_type (ino s ip) = T_FILE \<or> i_type (ino s ip) = T_DEVICE)
               then Done (Some ip) s
               else bnd (iunlockput ip s) (\<lambda>_ s. Done None s)))
         | None \<Rightarrow>
             bnd (ialloc (i_dev (ino s dp)) typ s) (\<lambda>ip s. case ip of
               None \<Rightarrow> bnd (iunlockput dp s) (\<lambda>_ s. Done None s)
             | Some ip \<Rightarrow> create_new ip dp name typ major minor s))))"

text \<open>The part of \<open>sys_open\<close> after the inode is found: it is locked.\<close>

definition open_file :: "nat \<Rightarrow> u32 \<Rightarrow> 'z filest_scheme \<Rightarrow> ('z filest_scheme, int) outcome" where
  "open_file ip omode s =
     (if i_type (ino s ip) = T_DEVICE \<and> (sint (i_major (ino s ip)) < 0 \<or> int NDEV \<le> sint (i_major (ino s ip)))
      then put_fail ip s
      else
        bnd (filealloc s) (\<lambda>f s. case f of None \<Rightarrow> put_fail ip s | Some f \<Rightarrow>
        bnd (fdalloc f s) (\<lambda>fd s.
          if fd < 0 then bnd (fileclose f s) (\<lambda>_ s. put_fail ip s)
          else
            let s = (if i_type (ino s ip) = T_DEVICE
                     then upd_file f (\<lambda>x. x\<lparr>f_type := FD_DEVICE, f_major := i_major (ino s ip)\<rparr>) s
                     else upd_file f (\<lambda>x. x\<lparr>f_type := FD_INODE, f_off := 0\<rparr>) s);
                s = upd_file f (\<lambda>x. x\<lparr>f_ip := Some ip, f_readable := (omode AND O_WRONLY = 0),
                      f_writable := (omode AND O_WRONLY \<noteq> 0 \<or> omode AND O_RDWR \<noteq> 0)\<rparr>) s
            in bnd (if omode AND O_TRUNC \<noteq> 0 \<and> i_type (ino s ip) = T_FILE then itrunc ip s else Done () s) (\<lambda>_ s.
               bnd (iunlock (Some ip) s) (\<lambda>_ s. end_op_with fd s)))))"

definition sys_open :: "'z filest_scheme \<Rightarrow> ('z filest_scheme, int) outcome" where
  "sys_open s =
     bnd (argint 1 s) (\<lambda>mode s.
       let omode = word_of_int mode :: u32 in
       bnd (argpath 0 s) (\<lambda>path s. case path of None \<Rightarrow> Done (-1) s | Some path \<Rightarrow>
       bnd (begin_op s) (\<lambda>_ s.
         if omode AND O_CREATE \<noteq> 0 then
           bnd (create path T_FILE 0 0 s) (\<lambda>ip s. case ip of
             None \<Rightarrow> end_op_with (-1) s | Some ip \<Rightarrow> open_file ip omode s)
         else
           bnd (namei path s) (\<lambda>ip s. case ip of
             None \<Rightarrow> end_op_with (-1) s
           | Some ip \<Rightarrow>
               bnd (ilock (Some ip) s) (\<lambda>_ s.
                 if i_type (ino s ip) = T_DIR \<and> omode \<noteq> O_RDONLY then put_fail ip s
                 else open_file ip omode s)))))"

text \<open>\<open>iunlockput(ip); end_op(); return 0;\<close> or the failure of the two calls that make an inode.\<close>

definition made :: "nat option \<Rightarrow> 'z fsst_scheme \<Rightarrow> ('z fsst_scheme, int) outcome" where
  "made ip s = (case ip of None \<Rightarrow> end_op_with (-1) s
     | Some ip \<Rightarrow> bnd (iunlockput ip s) (\<lambda>_ s. end_op_with 0 s))"

definition sys_mkdir :: "'z fsst_scheme \<Rightarrow> ('z fsst_scheme, int) outcome" where
  "sys_mkdir s =
     bnd (begin_op s) (\<lambda>_ s.
     bnd (argpath 0 s) (\<lambda>path s. case path of None \<Rightarrow> end_op_with (-1) s | Some path \<Rightarrow>
     bnd (create path T_DIR 0 0 s) made))"

definition sys_mknod :: "'z fsst_scheme \<Rightarrow> ('z fsst_scheme, int) outcome" where
  "sys_mknod s =
     bnd (begin_op s) (\<lambda>_ s.
     bnd (argint 1 s) (\<lambda>major s.
     bnd (argint 2 s) (\<lambda>minor s.
     bnd (argpath 0 s) (\<lambda>path s. case path of None \<Rightarrow> end_op_with (-1) s | Some path \<Rightarrow>
     bnd (create path T_DEVICE (word_of_int major) (word_of_int minor) s) made))))"

definition sys_chdir :: "'z fsst_scheme \<Rightarrow> ('z fsst_scheme, int) outcome" where
  "sys_chdir s =
     bnd (begin_op s) (\<lambda>_ s.
     bnd (argpath 0 s) (\<lambda>path s. case path of None \<Rightarrow> end_op_with (-1) s | Some path \<Rightarrow>
     bnd (namei path s) (\<lambda>ip s. case ip of None \<Rightarrow> end_op_with (-1) s | Some ip \<Rightarrow>
     bnd (ilock (Some ip) s) (\<lambda>_ s.
       if i_type (ino s ip) \<noteq> T_DIR then put_fail ip s
       else
         bnd (iunlock (Some ip) s) (\<lambda>_. with_myproc (\<lambda>s p. case p_cwd (the_proc s p) of
           None \<Rightarrow> Panic ''kerneltrap''
         | Some cwd \<Rightarrow>
             bnd (iput cwd s) (\<lambda>_ s.
             bnd (end_op s) (\<lambda>_ s. Done 0 (upd_proc p (\<lambda>q. q\<lparr>p_cwd := Some ip\<rparr>) s)))))))))"

text \<open>The label \<open>fail\<close> of \<open>sys_pipe\<close>: the descriptors already taken are given back.\<close>

definition pipe_fail :: "int list \<Rightarrow> nat \<Rightarrow> nat \<Rightarrow> 'z filest_scheme \<Rightarrow> ('z filest_scheme, int) outcome" where
  "pipe_fail fds rfd wfd = with_myproc (\<lambda>s p.
     bnd (fileclose rfd (fold (\<lambda>fd. set_ofile (nat fd) None p) fds s)) (\<lambda>_ s.
     bnd (fileclose wfd s) (\<lambda>_ s. Done (-1) s)))"

definition sys_pipe :: "'z filest_scheme \<Rightarrow> ('z filest_scheme, int) outcome" where
  "sys_pipe s =
     bnd (argaddr 0 s) (\<lambda>fdarray s.
     bnd (pipealloc s) (\<lambda>r s. case r of None \<Rightarrow> Done (-1) s | Some (rfd, wfd) \<Rightarrow>
     bnd (fdalloc rfd s) (\<lambda>fd0 s.
       if fd0 < 0 then pipe_fail [] rfd wfd s
       else
         bnd (fdalloc wfd s) (\<lambda>fd1 s.
           if fd1 < 0 then pipe_fail [fd0] rfd wfd s
           else with_myproc (\<lambda>s p.
             bnd (copyout (p_pagetable (the_proc s p)) fdarray (le_bytes 4 (word_of_int fd0 :: u32)) 4 s) (\<lambda>r s.
               if r < 0 then pipe_fail [fd0, fd1] rfd wfd s
               else
                 bnd (copyout (p_pagetable (the_proc s p)) (fdarray + 4)
                        (le_bytes 4 (word_of_int fd1 :: u32)) 4 s) (\<lambda>r s.
                   if r < 0 then pipe_fail [fd0, fd1] rfd wfd s else Done 0 s))) s))))"

end
