(* ===== verification/Exec.thy ===== *)
theory Exec
  imports Sysfile
begin

section \<open>exec.c: replacing the program of a process\<close>

text \<open>
  \<open>kexec\<close> builds a new address space from an ELF file and commits to it at the end. The file headers
  are the bytes \<open>readi\<close> returned, their fields read at the offsets of \<open>elf.h\<close>. An argument string is
  either in kernel memory, where \<open>sys_exec\<close> has put it, or a literal of the kernel.
\<close>

abbreviation ELF_MAGIC :: u32 where "ELF_MAGIC \<equiv> 0x464C457F"
abbreviation ELF_PROG_LOAD :: u32 where "ELF_PROG_LOAD \<equiv> 1"
abbreviation USERSTACK :: u64 where "USERSTACK \<equiv> 1"

datatype karg = KAddr u64 | KLit "u8 list"

record elfhdr =
  e_magic :: u32
  e_entry :: u64
  e_phoff :: u64
  e_phnum :: u16

record proghdr =
  ph_type :: u32
  ph_flags :: u32
  ph_off :: u64
  ph_vaddr :: u64
  ph_filesz :: u64
  ph_memsz :: u64

definition field :: "nat \<Rightarrow> nat \<Rightarrow> u8 list \<Rightarrow> 'a::len word" where
  "field off n bs = of_le (take n (drop off bs))"

definition get_elfhdr :: "u8 list \<Rightarrow> elfhdr" where
  "get_elfhdr bs = \<lparr>e_magic = field 0 4 bs, e_entry = field 24 8 bs, e_phoff = field 32 8 bs, e_phnum = field 56 2 bs\<rparr>"

definition get_proghdr :: "u8 list \<Rightarrow> proghdr" where
  "get_proghdr bs = \<lparr>ph_type = field 0 4 bs, ph_flags = field 4 4 bs, ph_off = field 8 8 bs,
     ph_vaddr = field 16 8 bs, ph_filesz = field 32 8 bs, ph_memsz = field 40 8 bs\<rparr>"

definition flags2perm :: "u32 \<Rightarrow> u64" where
  "flags2perm flags =
     (let perm = (if flags AND 1 \<noteq> 0 then PTE_X else 0)
      in if flags AND 2 \<noteq> 0 then perm OR PTE_W else perm)"

text \<open>
  The loop visits \<open>i = 0, PGSIZE, ...\<close> below \<open>sz\<close>. Beyond \<open>2^32 - PGSIZE\<close> the 32-bit counter wraps
  to 0 and the loop starts again, so it does not end.
\<close>

definition loadseg :: "u64 \<Rightarrow> u64 \<Rightarrow> nat \<Rightarrow> u32 \<Rightarrow> u32 \<Rightarrow> 'z fsst_scheme \<Rightarrow> ('z fsst_scheme, int) outcome" where
  "loadseg pt va ip offset sz s =
     bnd (loop_until (\<lambda>k s.
       let i = of_nat (4096 * k) :: u32 in
       bnd (walkaddr pt (va + ucast i) s) (\<lambda>pa s.
         if pa = 0 then Panic ''loadseg: address should exist''
         else
           let n = (if sz - i < 4096 then sz - i else 4096) in
           bnd (readi ip (ToKernel pa) (offset + i) n s) (\<lambda>(r, _) s.
             Done (if r \<noteq> uint n then Some () else None) s))) [0..<(unat sz + 4095) div 4096] s) (\<lambda>r s.
       if r \<noteq> None then Done (-1) s
       else if 0xFFFFF000 < sz then Hang else Done 0 s)"

text \<open>The program header loop: false for \<open>goto bad\<close>, and the size of the image so far.\<close>

primrec kexec_load ::
  "nat \<Rightarrow> u32 \<Rightarrow> nat \<Rightarrow> u64 \<Rightarrow> u64 \<Rightarrow> 'z fsst_scheme \<Rightarrow> ('z fsst_scheme, bool \<times> u64) outcome" where
  "kexec_load 0 off ip pt sz s = Done (True, sz) s"
| "kexec_load (Suc n) off ip pt sz s =
     bnd (readi ip ToLocal off 56 s) (\<lambda>(r, bs) s.
       let ph = get_proghdr bs in
       if r \<noteq> 56 then Done (False, sz) s
       else if ph_type ph \<noteq> ELF_PROG_LOAD then kexec_load n (off + 56) ip pt sz s
       else if ph_memsz ph < ph_filesz ph then Done (False, sz) s
       else if ph_vaddr ph + ph_memsz ph < ph_vaddr ph then Done (False, sz) s
       else if ph_vaddr ph mod PGSIZE \<noteq> 0 then Done (False, sz) s
       else
         bnd (uvmalloc pt sz (ph_vaddr ph + ph_memsz ph) (flags2perm (ph_flags ph)) s) (\<lambda>sz1 s.
           if sz1 = 0 then Done (False, sz) s
           else
             bnd (loadseg pt (ph_vaddr ph) ip (ucast (ph_off ph)) (ucast (ph_filesz ph)) s) (\<lambda>r s.
               if r < 0 then Done (False, sz1) s else kexec_load n (off + 56) ip pt sz1 s)))"

text \<open>The label \<open>bad\<close>.\<close>

definition kexec_bad :: "u64 \<Rightarrow> u64 \<Rightarrow> nat option \<Rightarrow> 'z fsst_scheme \<Rightarrow> ('z fsst_scheme, int) outcome" where
  "kexec_bad pt sz ip s =
     bnd (if pt \<noteq> 0 then proc_freepagetable pt sz s else Done () s) (\<lambda>_ s. case ip of
       None \<Rightarrow> Done (-1) s
     | Some ip \<Rightarrow> put_fail ip s)"

text \<open>The bytes of an argument with its NUL; \<open>None\<close> when kernel memory holds no NUL from there on.\<close>

definition arg_bytes :: "karg \<Rightarrow> mem \<Rightarrow> u8 list option" where
  "arg_bytes a m = (case a of
     KLit bs \<Rightarrow> Some (bs @ [0])
   | KAddr p \<Rightarrow> map_option (\<lambda>n. load_bytes m p (n + 1)) (strlen p m))"

definition align16 :: "u64 \<Rightarrow> u64" where
  "align16 sp = sp - sp mod 16"

text \<open>The argument loop: \<open>None\<close> for \<open>goto bad\<close>, else the stack pointer and \<open>ustack\<close> so far.\<close>

primrec kexec_args ::
  "karg list \<Rightarrow> u64 \<Rightarrow> u64 list \<Rightarrow> u64 \<Rightarrow> u64 \<Rightarrow> 'z fsst_scheme \<Rightarrow> ('z fsst_scheme, (u64 \<times> u64 list) option) outcome" where
  "kexec_args [] sp ustack stackbase pt s = Done (Some (sp, ustack)) s"
| "kexec_args (a # as) sp ustack stackbase pt s =
     (if MAXARG \<le> length ustack then Done None s
      else case arg_bytes a (mem s) of
        None \<Rightarrow> Hang
      | Some bs \<Rightarrow>
          let sp = align16 (sp - of_nat (length bs)) in
          if sp < stackbase then Done None s
          else
            bnd (copyout pt sp bs (of_nat (length bs)) s) (\<lambda>r s.
              if r < 0 then Done None s else kexec_args as sp (ustack @ [sp]) stackbase pt s))"

primrec safestrcpy_list :: "nat \<Rightarrow> u8 list \<Rightarrow> u8 list \<Rightarrow> u8 list" where
  "safestrcpy_list 0 d t = 0 # tl d"
| "safestrcpy_list (Suc n) d t =
     (if byte0 t \<noteq> 0 then byte0 t # safestrcpy_list n (tl d) (tl t) else 0 # 0 # tl (tl d))"

definition set_name :: "u8 list \<Rightarrow> nat \<Rightarrow> 'z ptab_scheme \<Rightarrow> 'z ptab_scheme" where
  "set_name t p s = upd_proc p (\<lambda>q. q\<lparr>p_name := safestrcpy_list 15 (p_name q) t\<rparr>) s"

definition basename :: "u8 list \<Rightarrow> u8 list" where
  "basename path = rev (takeWhile (\<lambda>c. c \<noteq> slash) (rev path))"

text \<open>From the name of the program to the end: the commit to the new image.\<close>

definition kexec_commit ::
  "u8 list \<Rightarrow> u64 \<Rightarrow> u64 \<Rightarrow> u64 \<Rightarrow> u64 \<Rightarrow> u64 \<Rightarrow> nat \<Rightarrow> nat \<Rightarrow> 'z fsst_scheme \<Rightarrow> ('z fsst_scheme, int) outcome" where
  "kexec_commit path entry pt sz oldsz sp argc p s =
     (let tf = p_trapframe (the_proc s p);
          s = set_name (basename path) p (set_tf tf TfA1 sp s);
          oldpt = p_pagetable (the_proc s p);
          s = upd_proc p (\<lambda>q. q\<lparr>p_pagetable := pt, p_sz := sz\<rparr>) s;
          s = set_tf tf TfSp sp (set_tf tf TfEpc entry s)
      in bnd (proc_freepagetable oldpt oldsz s) (\<lambda>_ s. Done (int argc) s))"

text \<open>From the user stack to the return value; the file is closed.\<close>

definition kexec_stack ::
  "u8 list \<Rightarrow> karg list \<Rightarrow> u64 \<Rightarrow> u64 \<Rightarrow> u64 \<Rightarrow> nat \<Rightarrow> 'z fsst_scheme \<Rightarrow> ('z fsst_scheme, int) outcome" where
  "kexec_stack path argv entry pt sz p s =
     (let oldsz = p_sz (the_proc s p); sz = PGROUNDUP sz in
      bnd (uvmalloc pt sz (sz + (USERSTACK + 1) * PGSIZE) PTE_W s) (\<lambda>sz1 s.
        if sz1 = 0 then kexec_bad pt sz None s
        else
          let sz = sz1 in
          bnd (uvmclear pt (sz - (USERSTACK + 1) * PGSIZE) s) (\<lambda>_ s.
            let stackbase = sz - USERSTACK * PGSIZE in
            bnd (kexec_args argv sz [] stackbase pt s) (\<lambda>r s. case r of
              None \<Rightarrow> kexec_bad pt sz None s
            | Some (sp, ustack) \<Rightarrow>
                let argc = length ustack; sp = align16 (sp - of_nat ((argc + 1) * 8)) in
                if sp < stackbase then kexec_bad pt sz None s
                else
                  bnd (copyout pt sp (concat (map (le_bytes 8) (ustack @ [0]))) (of_nat ((argc + 1) * 8)) s) (\<lambda>r s.
                    if r < 0 then kexec_bad pt sz None s
                    else kexec_commit path entry pt sz oldsz sp argc p s)))))"

definition kexec :: "u8 list \<Rightarrow> karg list \<Rightarrow> 'z fsst_scheme \<Rightarrow> ('z fsst_scheme, int) outcome" where
  "kexec path argv = with_myproc (\<lambda>s p.
     bnd (begin_op s) (\<lambda>_ s.
     bnd (namei path s) (\<lambda>ip s. case ip of None \<Rightarrow> end_op_with (-1) s | Some ip \<Rightarrow>
     bnd (ilock (Some ip) s) (\<lambda>_ s.
     bnd (readi ip ToLocal 0 64 s) (\<lambda>(r, bs) s.
       let elf = get_elfhdr bs in
       if r \<noteq> 64 then kexec_bad 0 0 (Some ip) s
       else if e_magic elf \<noteq> ELF_MAGIC then kexec_bad 0 0 (Some ip) s
       else
         bnd (proc_pagetable p s) (\<lambda>pt s.
           if pt = 0 then kexec_bad 0 0 (Some ip) s
           else
             bnd (kexec_load (unat (e_phnum elf)) (ucast (e_phoff elf)) ip pt 0 s) (\<lambda>(ok, sz) s.
               if \<not> ok then kexec_bad pt sz (Some ip) s
               else
                 bnd (iunlockput ip s) (\<lambda>_ s.
                 bnd (end_op s) (\<lambda>_ s. kexec_stack path argv (e_entry elf) pt sz p s)))))))))"

subsection \<open>The system call\<close>

text \<open>The loop of \<open>sys_exec\<close>: false for \<open>goto bad\<close>, and the non-null entries of \<open>argv\<close>.\<close>

primrec sys_exec_args ::
  "nat \<Rightarrow> nat \<Rightarrow> u64 \<Rightarrow> u64 list \<Rightarrow> 'z fsst_scheme \<Rightarrow> ('z fsst_scheme, bool \<times> u64 list) outcome" where
  "sys_exec_args 0 i uargv argv s = Done (False, argv) s"
| "sys_exec_args (Suc left) i uargv argv s =
     bnd (fetchaddr (uargv + 8 * of_nat i) s) (\<lambda>(r, uarg) s.
       if r < 0 then Done (False, argv) s
       else if uarg = 0 then Done (True, argv) s
       else
         bnd (kalloc s) (\<lambda>pa s.
           if pa = 0 then Done (False, argv) s
           else
             bnd (fetchstr uarg PGSIZE s) (\<lambda>(r, bs) s.
               let s = s\<lparr>mem := store_bytes pa bs (mem s)\<rparr> in
               if r < 0 then Done (False, argv @ [pa]) s
               else sys_exec_args left (Suc i) uargv (argv @ [pa]) s)))"

definition free_args :: "u64 list \<Rightarrow> 'z pmem_scheme \<Rightarrow> ('z pmem_scheme, unit) outcome" where
  "free_args argv s = loop_all (\<lambda>i. kfree (argv ! i)) [0..<length argv] s"

definition sys_exec :: "'z fsst_scheme \<Rightarrow> ('z fsst_scheme, int) outcome" where
  "sys_exec s =
     bnd (argaddr 1 s) (\<lambda>uargv s.
     bnd (argpath 0 s) (\<lambda>path s. case path of None \<Rightarrow> Done (-1) s | Some path \<Rightarrow>
     bnd (sys_exec_args MAXARG 0 uargv [] s) (\<lambda>(ok, argv) s.
       if ok then
         bnd (kexec path (map KAddr argv) s) (\<lambda>r s.
         bnd (free_args argv s) (\<lambda>_ s. Done r s))
       else bnd (free_args argv s) (\<lambda>_ s. Done (-1) s))))"

end
