(* ===== verification/Proc_Life.thy ===== *)
theory Proc_Life
  imports Exec
begin

section \<open>proc.c: the life of a process\<close>

text \<open>
  The operations of \<open>kernel/proc.c\<close> that use the file system: the first process, \<open>kfork\<close>, \<open>kexit\<close> and
  \<open>kwait\<close>. \<open>kexit\<close> never returns: it ends in \<open>Switch\<close>. \<open>kwait\<close> may sleep until a child exits; it goes
  on with \<open>kwait_resume\<close>. (\<open>forkret\<close> is in theory \<open>Trap\<close>, beside the return to user space.)
\<close>

definition userinit :: "'z fsst_scheme \<Rightarrow> ('z fsst_scheme, unit) outcome" where
  "userinit s =
     bnd (allocproc s) (\<lambda>r s.
       let s = s\<lparr>initproc := r\<rparr> in
       bnd (namei [slash] s) (\<lambda>cwd s. case r of
         None \<Rightarrow> Panic ''kerneltrap''
       | Some p \<Rightarrow> release (ProcLock p) (upd_proc p (\<lambda>q. q\<lparr>p_cwd := cwd, p_state := RUNNABLE\<rparr>) s)))"

text \<open>One descriptor of the loop of \<open>kfork\<close>.\<close>

definition kfork_fd :: "nat \<Rightarrow> nat \<Rightarrow> nat \<Rightarrow> 'z filest_scheme \<Rightarrow> ('z filest_scheme, unit) outcome" where
  "kfork_fd np p i s = (case p_ofile (the_proc s p) ! i of
     None \<Rightarrow> Done () s
   | Some f \<Rightarrow> bnd (filedup f s) (\<lambda>f s. Done () (set_ofile i (Some f) np s)))"

definition kfork_child :: "nat \<Rightarrow> nat \<Rightarrow> 'z filest_scheme \<Rightarrow> ('z filest_scheme, int) outcome" where
  "kfork_child np p s =
     (let tf = p_trapframe (the_proc s p); ntf = p_trapframe (the_proc s np);
          s = upd_proc np (\<lambda>q. q\<lparr>p_sz := p_sz (the_proc s p)\<rparr>) s;
          s = s\<lparr>mem := store_bytes ntf (load_bytes (mem s) tf 288) (mem s)\<rparr>;
          s = set_tf ntf TfA0 0 s
      in bnd (loop_all (kfork_fd np p) [0..<NOFILE] s) (\<lambda>_ s. case p_cwd (the_proc s p) of
           None \<Rightarrow> Panic ''kerneltrap''
         | Some cwd \<Rightarrow>
             bnd (idup cwd s) (\<lambda>cwd s.
               let s = upd_proc np (\<lambda>q. q\<lparr>p_cwd := Some cwd\<rparr>) s;
                   s = set_name (p_name (the_proc s p)) np s;
                   s = upd_proc np (\<lambda>q. q\<lparr>p_monitor_mask := p_monitor_mask (the_proc s p)\<rparr>) s;
                   pid = p_pid (the_proc s np)
               in bnd (release (ProcLock np) s) (\<lambda>_ s.
                  bnd (acquire WaitLock s) (\<lambda>_ s.
                  bnd (release WaitLock (upd_proc np (\<lambda>q. q\<lparr>p_parent := Some p\<rparr>) s)) (\<lambda>_ s.
                  bnd (acquire (ProcLock np) s) (\<lambda>_ s.
                  bnd (release (ProcLock np) (upd_proc np (\<lambda>q. q\<lparr>p_state := RUNNABLE\<rparr>) s)) (\<lambda>_ s.
                    Done pid s))))))))"

definition kfork :: "'z filest_scheme \<Rightarrow> ('z filest_scheme, int) outcome" where
  "kfork = with_myproc (\<lambda>s p.
     bnd (allocproc s) (\<lambda>r s. case r of None \<Rightarrow> Done (-1) s | Some np \<Rightarrow>
       bnd (uvmcopy (p_pagetable (the_proc s p)) (p_pagetable (the_proc s np)) (p_sz (the_proc s p)) s) (\<lambda>r s.
         if r < 0 then
           bnd (freeproc np s) (\<lambda>_ s. bnd (release (ProcLock np) s) (\<lambda>_ s. Done (-1) s))
         else kfork_child np p s)))"

definition kexit_fd :: "nat \<Rightarrow> nat \<Rightarrow> 'z filest_scheme \<Rightarrow> ('z filest_scheme, unit) outcome" where
  "kexit_fd p fd s = (case p_ofile (the_proc s p) ! fd of
     None \<Rightarrow> Done () s
   | Some f \<Rightarrow> bnd (fileclose f s) (\<lambda>_ s. Done () (set_ofile fd None p s)))"

definition kexit :: "int \<Rightarrow> 'z filest_scheme \<Rightarrow> ('z filest_scheme, 'a) outcome" where
  "kexit status = with_myproc (\<lambda>s p.
     if initproc s = Some p then Panic ''init exiting''
     else
       bnd (loop_all (kexit_fd p) [0..<NOFILE] s) (\<lambda>_ s.
       bnd (begin_op s) (\<lambda>_ s. case p_cwd (the_proc s p) of
         None \<Rightarrow> Panic ''kerneltrap''
       | Some cwd \<Rightarrow>
           bnd (iput cwd s) (\<lambda>_ s.
           bnd (end_op s) (\<lambda>_ s.
           bnd (acquire WaitLock (upd_proc p (\<lambda>q. q\<lparr>p_cwd := None\<rparr>) s)) (\<lambda>_ s.
           bnd (reparent p s) (\<lambda>_ s.
           bnd (wakeup (map_option ChProc (p_parent (the_proc s p))) s) (\<lambda>_ s.
           bnd (acquire (ProcLock p) s) (\<lambda>_ s.
           bnd (release WaitLock (upd_proc p (\<lambda>q. q\<lparr>p_xstate := status, p_state := ZOMBIE\<rparr>) s)) (\<lambda>_ s.
           bnd (sched s) (\<lambda>_ _. Panic ''zombie exit'')))))))))))"

text \<open>The scan of \<open>kwait\<close> over the table: its result if it returns, and \<open>havekids\<close>.\<close>

primrec kwait_scan ::
  "nat list \<Rightarrow> bool \<Rightarrow> nat \<Rightarrow> u64 \<Rightarrow> 'z ptab_scheme \<Rightarrow> ('z ptab_scheme, int option \<times> bool) outcome" where
  "kwait_scan [] havekids p addr s = Done (None, havekids) s"
| "kwait_scan (i # is) havekids p addr s =
     (if p_parent (the_proc s i) = Some p then
        bnd (acquire (ProcLock i) s) (\<lambda>_ s.
          if p_state (the_proc s i) = ZOMBIE then
            let pid = p_pid (the_proc s i) in
            bnd (if addr \<noteq> 0
                 then copyout (p_pagetable (the_proc s p)) addr (le_bytes 4 (word_of_int (p_xstate (the_proc s i)) :: u32)) 4 s
                 else Done 0 s) (\<lambda>r s.
              if r < 0 then
                bnd (release (ProcLock i) s) (\<lambda>_ s. bnd (release WaitLock s) (\<lambda>_ s. Done (Some (-1), True) s))
              else
                bnd (freeproc i s) (\<lambda>_ s.
                bnd (release (ProcLock i) s) (\<lambda>_ s.
                bnd (release WaitLock s) (\<lambda>_ s. Done (Some pid, True) s))))
          else bnd (release (ProcLock i) s) (\<lambda>_ s. kwait_scan is True p addr s))
      else kwait_scan is havekids p addr s)"

definition kwait_turn :: "u64 \<Rightarrow> 'z ptab_scheme \<Rightarrow> ('z ptab_scheme, int) outcome" where
  "kwait_turn addr = with_myproc (\<lambda>s p.
     bnd (kwait_scan [0..<NPROC] False p addr s) (\<lambda>(r, havekids) s. case r of
       Some r \<Rightarrow> Done r s
     | None \<Rightarrow>
         bnd (if havekids then killed p s else Done 1 s) (\<lambda>k s.
           if k \<noteq> 0 then bnd (release WaitLock s) (\<lambda>_ s. Done (-1) s)
           else bnd (sleep (Some (ChProc p)) WaitLock s) (\<lambda>_ s. Done 0 s))))"

definition kwait :: "u64 \<Rightarrow> 'z ptab_scheme \<Rightarrow> ('z ptab_scheme, int) outcome" where
  "kwait addr s = bnd (acquire WaitLock s) (\<lambda>_ s. kwait_turn addr s)"

definition kwait_resume :: "u64 \<Rightarrow> 'z ptab_scheme \<Rightarrow> ('z ptab_scheme, int) outcome" where
  "kwait_resume addr s = bnd (sleep_resume WaitLock s) (\<lambda>_ s. kwait_turn addr s)"

subsection \<open>The rounds of the scheduler\<close>

text \<open>
  \<open>scheduler\<close> runs on a CPU until it switches to a process (\<open>Some\<close>) or has found none and waits for an
  interrupt (\<open>None\<close>); \<open>scheduler_resume i\<close> goes on when process \<open>i\<close> has given the CPU back: the rest of
  that round, and then a new one.
\<close>

definition scheduler :: "'z ptab_scheme \<Rightarrow> ('z ptab_scheme, nat option) outcome" where
  "scheduler s = scheduler_scan 0 (s\<lparr>cur := None\<rparr>)"

definition scheduler_resume :: "nat \<Rightarrow> 'z ptab_scheme \<Rightarrow> ('z ptab_scheme, nat option) outcome" where
  "scheduler_resume i s =
     bnd (scheduler_back i s) (\<lambda>_ s.
     bnd (scheduler_scan (i + 1) s) (\<lambda>r s. if r = None then scheduler_scan 0 s else Done r s))"

end
