(* ===== verification/Virtio.thy ===== *)
theory Virtio
  imports File
begin

section \<open>virtio_disk.c: the disk driver\<close>

text \<open>
  The driver's \<open>struct disk\<close>. The three pages it shares with the device are kept as records: \<open>vd_desc\<close>
  is the descriptor table, \<open>vd_avail\<close> and \<open>vd_avail_idx\<close> the ring of requests, \<open>vd_used\<close> and
  \<open>vd_used_dev\<close> the ring of completions the device writes, \<open>vd_used_idx\<close> how far the driver has read
  it. The kernel objects a descriptor may point to are named: a command header, the data of a buffer, a
  status byte. \<open>mmio\<close> collects the writes to the device registers; what the device returns when a
  register is read is an argument. \<open>vd_notified\<close> is no variable of the driver: it is what the device finds as the
  index of the available ring when \<open>QUEUE_NOTIFY\<close> is written, and so how many requests it has been told of. \<open>virtio_disk_rw\<close> sleeps: \<open>disk_rw_retry\<close> and \<open>disk_rw_wake\<close> are what
  it does when it runs again, waiting for descriptors or for its request.
\<close>

abbreviation NUM :: nat where "NUM \<equiv> 8"
abbreviation VRING_DESC_F_NEXT :: u16 where "VRING_DESC_F_NEXT \<equiv> 1"
abbreviation VRING_DESC_F_WRITE :: u16 where "VRING_DESC_F_WRITE \<equiv> 2"
abbreviation VIRTIO_BLK_T_IN :: u32 where "VIRTIO_BLK_T_IN \<equiv> 0"
abbreviation VIRTIO_BLK_T_OUT :: u32 where "VIRTIO_BLK_T_OUT \<equiv> 1"

datatype dmaaddr = DmaNull | DmaOps nat | DmaData nat | DmaStatus nat

record vdesc =
  d_addr :: dmaaddr
  d_len :: u32
  d_flags :: u16
  d_next :: u16

record blkreq =
  q_type :: u32
  q_reserved :: u32
  q_sector :: u64

record virtst = filest +
  vd_desc_pa :: u64
  vd_avail_pa :: u64
  vd_used_pa :: u64
  vd_desc :: "vdesc list"
  vd_avail :: "u16 list"
  vd_avail_idx :: u16
  vd_used :: "u32 list"
  vd_used_dev :: u16
  vd_free :: "bool list"
  vd_used_idx :: u16
  vd_info_b :: "nat option list"
  vd_status :: "u8 list"
  vd_ops :: "blkreq list"
  mmio :: "(u64 \<times> u32) list"
  vd_notified :: u16

definition zero_desc :: vdesc where
  "zero_desc = \<lparr>d_addr = DmaNull, d_len = 0, d_flags = 0, d_next = 0\<rparr>"

subsection \<open>Initialisation\<close>

definition wreg :: "u64 \<Rightarrow> u32 \<Rightarrow> 'z virtst_scheme \<Rightarrow> 'z virtst_scheme" where
  "wreg r v s = s\<lparr>mmio := mmio s @ [(r, v)], vd_notified := (if r = 0x050 then vd_avail_idx s else vd_notified s)\<rparr>"

definition negotiate :: "u32 \<Rightarrow> u32" where
  "negotiate f =
     (let f = ucast f :: u64;
          f = f AND NOT (push_bit 5 1); f = f AND NOT (push_bit 7 1); f = f AND NOT (push_bit 11 1);
          f = f AND NOT (push_bit 12 1); f = f AND NOT (push_bit 27 1); f = f AND NOT (push_bit 29 1);
          f = f AND NOT (push_bit 28 1)
      in ucast f)"

text \<open>The pages for queue 0 and the registers that tell the device where they are.\<close>

definition virtio_queue_init :: "'z virtst_scheme \<Rightarrow> ('z virtst_scheme, unit) outcome" where
  "virtio_queue_init s =
     bnd (kalloc s) (\<lambda>d s.
     bnd (kalloc s) (\<lambda>a s.
     bnd (kalloc s) (\<lambda>u s.
       if d = 0 \<or> a = 0 \<or> u = 0 then Panic ''virtio disk kalloc''
       else
         let s = s\<lparr>mem := memset u 0 4096 (memset a 0 4096 (memset d 0 4096 (mem s)))\<rparr>;
             s = s\<lparr>vd_desc_pa := d, vd_avail_pa := a, vd_used_pa := u, vd_desc := replicate NUM zero_desc,
                   vd_avail := replicate NUM 0, vd_avail_idx := 0, vd_used := replicate NUM 0, vd_used_dev := 0\<rparr>;
             s = wreg 0x038 (of_nat NUM) s;
             s = wreg 0x084 (ucast (drop_bit 32 d)) (wreg 0x080 (ucast d) s);
             s = wreg 0x094 (ucast (drop_bit 32 a)) (wreg 0x090 (ucast a) s);
             s = wreg 0x0a4 (ucast (drop_bit 32 u)) (wreg 0x0a0 (ucast u) s);
             s = wreg 0x044 1 s
         in Done () (s\<lparr>vd_free := replicate NUM True\<rparr>))))"

definition virtio_disk_init :: "(u64 \<Rightarrow> u32) \<Rightarrow> 'z virtst_scheme \<Rightarrow> ('z virtst_scheme, unit) outcome" where
  "virtio_disk_init rd s =
     (if rd 0x000 \<noteq> 0x74726976 \<or> rd 0x004 \<noteq> 2 \<or> rd 0x008 \<noteq> 2 \<or> rd 0x00c \<noteq> 0x554d4551
      then Panic ''could not find virtio disk''
      else
        let s = wreg 0x070 3 (wreg 0x070 1 (wreg 0x070 0 s));
            s = wreg 0x020 (negotiate (rd 0x010)) s;
            s = wreg 0x070 11 s;
            status = rd 0x070
        in if status AND 8 = 0 then Panic ''virtio disk FEATURES_OK unset''
           else
             let s = wreg 0x030 0 s in
             if rd 0x044 \<noteq> 0 then Panic ''virtio disk should not be ready''
             else if rd 0x034 = 0 then Panic ''virtio disk has no queue 0''
             else if rd 0x034 < of_nat NUM then Panic ''virtio disk max queue too short''
             else
               bnd (virtio_queue_init s) (\<lambda>_ s. Done () (wreg 0x070 (status OR 4) s)))"

subsection \<open>Descriptors\<close>

definition upd_desc :: "nat \<Rightarrow> (vdesc \<Rightarrow> vdesc) \<Rightarrow> 'z virtst_scheme \<Rightarrow> 'z virtst_scheme" where
  "upd_desc i f s = s\<lparr>vd_desc := (vd_desc s)[i := f (vd_desc s ! i)]\<rparr>"

text \<open>\<open>None\<close> is the result -1.\<close>

definition alloc_desc :: "'z virtst_scheme \<Rightarrow> nat option \<times> 'z virtst_scheme" where
  "alloc_desc s = (case find (\<lambda>i. vd_free s ! i) [0..<NUM] of
     None \<Rightarrow> (None, s) | Some i \<Rightarrow> (Some i, s\<lparr>vd_free := (vd_free s)[i := False]\<rparr>))"

definition free_desc :: "nat \<Rightarrow> 'z virtst_scheme \<Rightarrow> ('z virtst_scheme, unit) outcome" where
  "free_desc i s =
     (if NUM \<le> i then Panic ''free_desc 1''
      else if vd_free s ! i then Panic ''free_desc 2''
      else
        wakeup (Some ChDiskFree) ((upd_desc i (\<lambda>_. zero_desc) s)\<lparr>vd_free := (vd_free s)[i := True]\<rparr>))"

text \<open>The chain is followed while the flag says so; the turns are at most the descriptors in use.\<close>

primrec free_chain_from :: "nat \<Rightarrow> nat \<Rightarrow> 'z virtst_scheme \<Rightarrow> ('z virtst_scheme, unit) outcome" where
  "free_chain_from 0 i s = Hang"
| "free_chain_from (Suc n) i s =
     (let flag = d_flags (vd_desc s ! i); nxt = d_next (vd_desc s ! i) in
      bnd (free_desc i s) (\<lambda>_ s.
        if flag AND VRING_DESC_F_NEXT \<noteq> 0 then free_chain_from n (unat nxt) s else Done () s))"

definition free_chain :: "nat \<Rightarrow> 'z virtst_scheme \<Rightarrow> ('z virtst_scheme, unit) outcome" where
  "free_chain i s = free_chain_from (NUM + 1) i s"

text \<open>\<open>got\<close> are the descriptors taken so far; on failure they are given back in order.\<close>

primrec alloc_descs :: "nat \<Rightarrow> nat list \<Rightarrow> 'z virtst_scheme \<Rightarrow> ('z virtst_scheme, nat list option) outcome" where
  "alloc_descs 0 got s = Done (Some got) s"
| "alloc_descs (Suc n) got s = (case alloc_desc s of
     (Some i, s) \<Rightarrow> alloc_descs n (got @ [i]) s
   | (None, s) \<Rightarrow> bnd (loop_all free_desc got s) (\<lambda>_ s. Done None s))"

definition alloc3_desc :: "'z virtst_scheme \<Rightarrow> ('z virtst_scheme, nat list option) outcome" where
  "alloc3_desc s = alloc_descs 3 [] s"

subsection \<open>Requests\<close>

definition sector_of :: "nat \<Rightarrow> 'z virtst_scheme \<Rightarrow> u64" where
  "sector_of b s = ucast (b_blockno (bufs s ! b) * 2)"

text \<open>Lines from the first use of \<open>idx\<close> to the notification of the device.\<close>

definition disk_submit :: "nat \<Rightarrow> bool \<Rightarrow> nat \<Rightarrow> nat \<Rightarrow> nat \<Rightarrow> 'z virtst_scheme \<Rightarrow> 'z virtst_scheme" where
  "disk_submit b wr i0 i1 i2 s =
     (let s = s\<lparr>vd_ops := (vd_ops s)[i0 := \<lparr>q_type = (if wr then VIRTIO_BLK_T_OUT else VIRTIO_BLK_T_IN),
            q_reserved = 0, q_sector = sector_of b s\<rparr>]\<rparr>;
          s = upd_desc i0 (\<lambda>_. \<lparr>d_addr = DmaOps i0, d_len = 16, d_flags = VRING_DESC_F_NEXT, d_next = of_nat i1\<rparr>) s;
          s = upd_desc i1 (\<lambda>_. \<lparr>d_addr = DmaData b, d_len = of_nat BSIZE,
            d_flags = (if wr then 0 else VRING_DESC_F_WRITE) OR VRING_DESC_F_NEXT, d_next = of_nat i2\<rparr>) s;
          s = s\<lparr>vd_status := (vd_status s)[i0 := 0xff]\<rparr>;
          s = upd_desc i2 (\<lambda>_. \<lparr>d_addr = DmaStatus i0, d_len = 1, d_flags = VRING_DESC_F_WRITE, d_next = 0\<rparr>) s;
          s = upd_buf b (\<lambda>x. x\<lparr>b_disk := True\<rparr>) s;
          s = s\<lparr>vd_info_b := (vd_info_b s)[i0 := Some b]\<rparr>;
          s = s\<lparr>vd_avail := (vd_avail s)[unat (vd_avail_idx s mod of_nat NUM) := of_nat i0]\<rparr>;
          s = s\<lparr>vd_avail_idx := vd_avail_idx s + 1\<rparr>
      in wreg 0x050 0 s)"

definition disk_rw_wait :: "nat \<Rightarrow> nat \<Rightarrow> 'z virtst_scheme \<Rightarrow> ('z virtst_scheme, unit) outcome" where
  "disk_rw_wait b i0 s =
     (if b_disk (bufs s ! b) then sleep (Some (ChBuf b)) VdiskLock s
      else
        bnd (free_chain i0 (s\<lparr>vd_info_b := (vd_info_b s)[i0 := None]\<rparr>)) (\<lambda>_ s.
          release VdiskLock s))"

definition disk_rw_turn :: "nat \<Rightarrow> bool \<Rightarrow> 'z virtst_scheme \<Rightarrow> ('z virtst_scheme, unit) outcome" where
  "disk_rw_turn b wr s =
     bnd (alloc3_desc s) (\<lambda>idx s. case idx of
       Some [i0, i1, i2] \<Rightarrow> disk_rw_wait b i0 (disk_submit b wr i0 i1 i2 s)
     | _ \<Rightarrow> sleep (Some ChDiskFree) VdiskLock s)"

definition virtio_disk_rw :: "nat \<Rightarrow> bool \<Rightarrow> 'z virtst_scheme \<Rightarrow> ('z virtst_scheme, unit) outcome" where
  "virtio_disk_rw b wr s = bnd (acquire VdiskLock s) (\<lambda>_ s. disk_rw_turn b wr s)"

definition disk_rw_retry :: "nat \<Rightarrow> bool \<Rightarrow> 'z virtst_scheme \<Rightarrow> ('z virtst_scheme, unit) outcome" where
  "disk_rw_retry b wr s = bnd (sleep_resume VdiskLock s) (\<lambda>_ s. disk_rw_turn b wr s)"

definition disk_rw_wake :: "nat \<Rightarrow> nat \<Rightarrow> 'z virtst_scheme \<Rightarrow> ('z virtst_scheme, unit) outcome" where
  "disk_rw_wake b i0 s = bnd (sleep_resume VdiskLock s) (\<lambda>_ s. disk_rw_wait b i0 s)"

subsection \<open>Completion interrupts\<close>

definition disk_complete :: "'z virtst_scheme \<Rightarrow> ('z virtst_scheme, unit) outcome" where
  "disk_complete s =
     (let i = unat (vd_used s ! unat (vd_used_idx s mod of_nat NUM)) in
      if vd_status s ! i \<noteq> 0 then Panic ''virtio_disk_intr status''
      else case vd_info_b s ! i of
        None \<Rightarrow> Panic ''kerneltrap''
      | Some b \<Rightarrow>
          bnd (wakeup (Some (ChBuf b)) (upd_buf b (\<lambda>x. x\<lparr>b_disk := False\<rparr>) s)) (\<lambda>_ s.
            Done () (s\<lparr>vd_used_idx := vd_used_idx s + 1\<rparr>)))"

text \<open>The loop runs once for each entry between the two 16-bit indices.\<close>

primrec disk_intr_loop :: "nat \<Rightarrow> 'z virtst_scheme \<Rightarrow> ('z virtst_scheme, unit) outcome" where
  "disk_intr_loop 0 s = Done () s"
| "disk_intr_loop (Suc n) s = bnd (disk_complete s) (\<lambda>_ s. disk_intr_loop n s)"

text \<open>\<open>istat\<close> is what the device's interrupt status register reads.\<close>

definition virtio_disk_intr :: "u32 \<Rightarrow> 'z virtst_scheme \<Rightarrow> ('z virtst_scheme, unit) outcome" where
  "virtio_disk_intr istat s =
     bnd (acquire VdiskLock s) (\<lambda>_ s.
       let s = wreg 0x064 (istat AND 3) s in
       bnd (disk_intr_loop (unat (vd_used_dev s - vd_used_idx s)) s) (\<lambda>_ s. release VdiskLock s))"

end
