(* ===== verification/Sysproc.thy ===== *)
theory Sysproc
  imports Proc_Life Virtio
begin

section \<open>sysproc.c: the process system calls\<close>

text \<open>
  \<open>trapst\<close> adds the last globals: \<open>ticks\<close>, the flag \<open>first\<close> of \<open>forkret\<close>, \<open>started\<close> of \<open>main\<close>, and the
  control registers of this CPU that trap handling uses. \<open>irq\<close> is what the interrupt controller answers
  to a claim and \<open>plic_out\<close> the values written to it. The calls return the \<open>uint64\<close> the C code returns.
  \<open>sys_pause\<close> sleeps on \<open>ticks\<close> and goes on with \<open>sys_pause_resume\<close>.
\<close>

record trapst = virtst +
  ticks :: u32
  fork_first :: bool
  started :: bool
  stvec :: u64
  sstatus :: u64
  sepc :: u64
  scause :: u64
  stval :: u64
  rtime :: u64
  stimecmp :: u64
  hartid :: u64
  irq :: int
  plic_out :: "(u64 \<times> u32) list"

definition ret_int :: "('s, int) outcome \<Rightarrow> ('s, u64) outcome" where
  "ret_int x = bnd x (\<lambda>r s. Done (word_of_int r) s)"

definition sys_exit :: "'z trapst_scheme \<Rightarrow> ('z trapst_scheme, u64) outcome" where
  "sys_exit s = bnd (argint 0 s) (\<lambda>n s. kexit n s)"

definition sys_getpid :: "'z trapst_scheme \<Rightarrow> ('z trapst_scheme, u64) outcome" where
  "sys_getpid = with_myproc (\<lambda>s p. Done (word_of_int (p_pid (the_proc s p))) s)"

definition sys_fork :: "'z trapst_scheme \<Rightarrow> ('z trapst_scheme, u64) outcome" where
  "sys_fork s = ret_int (kfork s)"

definition sys_wait :: "'z trapst_scheme \<Rightarrow> ('z trapst_scheme, u64) outcome" where
  "sys_wait s = bnd (argaddr 0 s) (\<lambda>p s. ret_int (kwait p s))"

abbreviation SBRK_EAGER :: int where "SBRK_EAGER \<equiv> 1"
abbreviation SBRK_LAZY :: int where "SBRK_LAZY \<equiv> 2"

definition sys_sbrk :: "'z ptab_scheme \<Rightarrow> ('z ptab_scheme, u64) outcome" where
  "sys_sbrk s =
     bnd (argint 0 s) (\<lambda>n s.
     bnd (argint 1 s) (\<lambda>t. with_myproc (\<lambda>s p.
       let addr = p_sz (the_proc s p) in
       if t = SBRK_EAGER \<or> n < 0 then
         bnd (growproc n s) (\<lambda>r s. Done (if r < 0 then -1 else addr) s)
       else if addr + word_of_int n < addr then Done (-1) s
       else Done addr (upd_proc p (\<lambda>q. q\<lparr>p_sz := p_sz q + word_of_int n\<rparr>) s))))"

definition sys_pause_turn :: "int \<Rightarrow> u32 \<Rightarrow> 'z trapst_scheme \<Rightarrow> ('z trapst_scheme, u64) outcome" where
  "sys_pause_turn n ticks0 s =
     (if ticks s - ticks0 < word_of_int n then
        with_myproc (\<lambda>s p. bnd (killed p s) (\<lambda>k s.
          if k \<noteq> 0 then bnd (release TicksLock s) (\<lambda>_ s. Done (-1) s)
          else bnd (sleep (Some ChTicks) TicksLock s) (\<lambda>_ s. Done 0 s))) s
      else bnd (release TicksLock s) (\<lambda>_ s. Done 0 s))"

definition sys_pause :: "'z trapst_scheme \<Rightarrow> ('z trapst_scheme, u64) outcome" where
  "sys_pause s =
     bnd (argint 0 s) (\<lambda>n s.
     bnd (acquire TicksLock s) (\<lambda>_ s. sys_pause_turn (if n < 0 then 0 else n) (ticks s) s))"

definition sys_pause_resume :: "int \<Rightarrow> u32 \<Rightarrow> 'z trapst_scheme \<Rightarrow> ('z trapst_scheme, u64) outcome" where
  "sys_pause_resume n ticks0 s = bnd (sleep_resume TicksLock s) (\<lambda>_ s. sys_pause_turn n ticks0 s)"

definition sys_kill :: "'z trapst_scheme \<Rightarrow> ('z trapst_scheme, u64) outcome" where
  "sys_kill s = bnd (argint 0 s) (\<lambda>pid s. ret_int (kkill pid s))"

definition sys_uptime :: "'z trapst_scheme \<Rightarrow> ('z trapst_scheme, u64) outcome" where
  "sys_uptime s =
     bnd (acquire TicksLock s) (\<lambda>_ s.
       let xticks = ticks s in bnd (release TicksLock s) (\<lambda>_ s. Done (ucast xticks) s))"

definition sys_monitor :: "'z ptab_scheme \<Rightarrow> ('z ptab_scheme, u64) outcome" where
  "sys_monitor s =
     bnd (argint 0 s) (\<lambda>mask. with_myproc (\<lambda>s p.
       Done 0 (upd_proc p (\<lambda>q. q\<lparr>p_monitor_mask := word_of_int mask\<rparr>) s)))"

section \<open>syscall.c: the dispatcher\<close>

text \<open>The tables \<open>syscalls\<close> and \<open>syscall_names\<close>; index 0 is null. \<open>pad\<close>: see \<open>filestat\<close>.\<close>

definition syscalls :: "u8 list \<Rightarrow> ('z trapst_scheme \<Rightarrow> ('z trapst_scheme, u64) outcome) option list" where
  "syscalls pad = None # map Some [
     sys_fork, sys_exit, sys_wait, \<lambda>s. ret_int (sys_pipe s), \<lambda>s. ret_int (sys_read s), sys_kill,
     \<lambda>s. ret_int (sys_exec s), \<lambda>s. ret_int (sys_fstat pad s), \<lambda>s. ret_int (sys_chdir s),
     \<lambda>s. ret_int (sys_dup s), sys_getpid, sys_sbrk, sys_pause, sys_uptime, \<lambda>s. ret_int (sys_open s),
     \<lambda>s. ret_int (sys_write s), \<lambda>s. ret_int (sys_mknod s), \<lambda>s. ret_int (sys_unlink s),
     \<lambda>s. ret_int (sys_link s), \<lambda>s. ret_int (sys_mkdir s), \<lambda>s. ret_int (sys_close s), sys_monitor]"

definition syscall_names :: "string option list" where
  "syscall_names = None # map Some [''fork'', ''exit'', ''wait'', ''pipe'', ''read'', ''kill'', ''exec'',
     ''fstat'', ''chdir'', ''dup'', ''getpid'', ''sbrk'', ''pause'', ''uptime'', ''open'', ''write'',
     ''mknod'', ''unlink'', ''link'', ''mkdir'', ''close'', ''monitor'']"

definition set_a0 :: "nat \<Rightarrow> u64 \<Rightarrow> 'z ptab_scheme \<Rightarrow> 'z ptab_scheme" where
  "set_a0 p v s = set_tf (p_trapframe (the_proc s p)) TfA0 v s"

text \<open>The line the monitor prints for a call whose bit is set in the mask.\<close>

definition monitor_line :: "nat \<Rightarrow> nat \<Rightarrow> 'z ptab_scheme \<Rightarrow> ('z ptab_scheme, unit) outcome" where
  "monitor_line p num s =
     (if p_monitor_mask (the_proc s p) AND push_bit num 1 \<noteq> 0 then
        kprintf (''%d: syscall %s -> %d'' @ [CHR 0x0A])
          [VReg (reg_of_int (p_pid (the_proc s p))), VStr (syscall_names ! num),
           VReg (get_tf (p_trapframe (the_proc s p)) TfA0 s)] s
      else Done () s)"

definition syscall :: "u8 list \<Rightarrow> 'z trapst_scheme \<Rightarrow> ('z trapst_scheme, unit) outcome" where
  "syscall pad = with_myproc (\<lambda>s p.
     let num = sint (ucast (get_tf (p_trapframe (the_proc s p)) TfA7 s) :: u32) in
     case (if 0 < num \<and> num < int (length syscall_names) then syscalls pad ! nat num else None) of
       Some f \<Rightarrow> bnd (f s) (\<lambda>r s. monitor_line p (nat num) (set_a0 p r s))
     | None \<Rightarrow>
         bnd (kprintf (''%d %s: unknown sys call %d'' @ [CHR 0x0A])
           [VReg (reg_of_int (p_pid (the_proc s p))), VStr (Some (c_string (p_name (the_proc s p)))),
            VReg (reg_of_int num)] s) (\<lambda>_ s.
         Done () (set_a0 p (-1) s)))"

end
