(* ===== verification/Trap.thy ===== *)
theory Trap
  imports Sysproc
begin

section \<open>trap.c, plic.c, main.c\<close>

text \<open>
  Traps from user and kernel code, the interrupt handlers, and the start of the kernel. The register
  \<open>sstatus\<close> is read with its enable bit, which is on when \<open>intr_on\<close> says so and no spin lock is held.
  What devices answer while a trap is handled is a record of inputs: the padding \<open>filestat\<close> copies, whether the
  serial line is idle, the disk's interrupt status. After a \<open>yield\<close> that switches, \<open>usertrap_resume\<close>
  and \<open>kerneltrap_resume\<close> go on.
\<close>

record inputs =
  in_pad :: "u8 list"
  in_uart_idle :: bool
  in_disk_status :: u32

abbreviation SSTATUS_SPP :: u64 where "SSTATUS_SPP \<equiv> 0x100"
abbreviation SSTATUS_SPIE :: u64 where "SSTATUS_SPIE \<equiv> 0x20"
abbreviation SSTATUS_SIE :: u64 where "SSTATUS_SIE \<equiv> 0x2"
abbreviation UART0_IRQ :: int where "UART0_IRQ \<equiv> 10"
abbreviation VIRTIO0_IRQ :: int where "VIRTIO0_IRQ \<equiv> 1"

definition intr_get :: "'z ptab_scheme \<Rightarrow> bool" where
  "intr_get s \<longleftrightarrow> intr_on s \<and> held s = []"

definition r_sstatus :: "'z trapst_scheme \<Rightarrow> u64" where
  "r_sstatus s = (if intr_get s then sstatus s OR SSTATUS_SIE else sstatus s AND NOT SSTATUS_SIE)"

definition w_sstatus :: "u64 \<Rightarrow> 'z trapst_scheme \<Rightarrow> 'z trapst_scheme" where
  "w_sstatus x s = s\<lparr>sstatus := x, intr_on := (x AND SSTATUS_SIE \<noteq> 0)\<rparr>"

subsection \<open>plic.c\<close>

definition plic_write :: "u64 \<Rightarrow> u32 \<Rightarrow> 'z trapst_scheme \<Rightarrow> 'z trapst_scheme" where
  "plic_write a v s = s\<lparr>plic_out := plic_out s @ [(a, v)]\<rparr>"

definition plicinit :: "'z trapst_scheme \<Rightarrow> 'z trapst_scheme" where
  "plicinit s = plic_write (PLIC + 1 * 4) 1 (plic_write (PLIC + 10 * 4) 1 s)"

definition plicinithart :: "'z trapst_scheme \<Rightarrow> 'z trapst_scheme" where
  "plicinithart s =
     plic_write (PLIC + 0x201000 + hartid s * 0x2000) 0
       (plic_write (PLIC + 0x2080 + hartid s * 0x100) (push_bit 10 1 OR push_bit 1 1) s)"

definition plic_claim :: "'z trapst_scheme \<Rightarrow> int" where
  "plic_claim s = irq s"

definition plic_complete :: "int \<Rightarrow> 'z trapst_scheme \<Rightarrow> 'z trapst_scheme" where
  "plic_complete i s = plic_write (PLIC + 0x201004 + hartid s * 0x2000) (word_of_int i) s"

subsection \<open>trap.c\<close>

definition trapinithart :: "'z trapst_scheme \<Rightarrow> 'z trapst_scheme" where
  "trapinithart s = s\<lparr>stvec := sym_kernelvec (syms s)\<rparr>"

definition clockintr :: "'z trapst_scheme \<Rightarrow> ('z trapst_scheme, unit) outcome" where
  "clockintr s =
     bnd (if hartid s = 0 then
            bnd (acquire TicksLock s) (\<lambda>_ s.
            bnd (wakeup (Some ChTicks) (s\<lparr>ticks := ticks s + 1\<rparr>)) (\<lambda>_ s. release TicksLock s))
          else Done () s) (\<lambda>_ s.
       Done () (s\<lparr>stimecmp := rtime s + 1000000\<rparr>))"

text \<open>2 for a timer interrupt, 1 for another device, 0 if not recognised.\<close>

definition devintr :: "inputs \<Rightarrow> 'z trapst_scheme \<Rightarrow> ('z trapst_scheme, int) outcome" where
  "devintr inp s =
     (if scause s = 0x8000000000000009 then
        let i = plic_claim s in
        bnd (if i = UART0_IRQ then uartintr (in_uart_idle inp) s
             else if i = VIRTIO0_IRQ then virtio_disk_intr (in_disk_status inp) s
             else if i \<noteq> 0 then kprintf (''unexpected interrupt irq=%d'' @ [CHR 0x0A]) [VReg (reg_of_int i)] s
             else Done () s) (\<lambda>_ s.
          Done 1 (if i \<noteq> 0 then plic_complete i s else s))
      else if scause s = 0x8000000000000005 then bnd (clockintr s) (\<lambda>_ s. Done 2 s)
      else Done 0 s)"

definition prepare_return :: "'z trapst_scheme \<Rightarrow> ('z trapst_scheme, unit) outcome" where
  "prepare_return = with_myproc (\<lambda>s p.
     let tf = p_trapframe (the_proc s p);
         s = s\<lparr>intr_on := False, stvec := TRAMPOLINE + (sym_uservec (syms s) - sym_trampoline (syms s))\<rparr>;
         s = set_tf tf TfKernelSatp (satp s) s;
         s = set_tf tf TfKernelSp (p_kstack (the_proc s p) + PGSIZE) s;
         s = set_tf tf TfKernelTrap (sym_usertrap (syms s)) s;
         s = set_tf tf TfKernelHartid (hartid s) s;
         s = w_sstatus (r_sstatus s AND NOT SSTATUS_SPP OR SSTATUS_SPIE) s
     in Done () (s\<lparr>sepc := get_tf tf TfEpc s\<rparr>))"

definition usertrap_return :: "'z trapst_scheme \<Rightarrow> ('z trapst_scheme, u64) outcome" where
  "usertrap_return s =
     bnd (prepare_return s) (\<lambda>_. with_myproc (\<lambda>s p. Done (MAKE_SATP (p_pagetable (the_proc s p))) s))"

definition usertrap_resume :: "'z trapst_scheme \<Rightarrow> ('z trapst_scheme, u64) outcome" where
  "usertrap_resume s = bnd (yield_resume s) (\<lambda>_ s. usertrap_return s)"

text \<open>A trap that is neither a call, an interrupt nor a page fault the kernel can serve.\<close>

definition unexpected_trap :: "nat \<Rightarrow> 'z trapst_scheme \<Rightarrow> ('z trapst_scheme, unit) outcome" where
  "unexpected_trap p s =
     bnd (kprintf (''usertrap(): unexpected scause 0x%lx pid=%d'' @ [CHR 0x0A])
            [VReg (scause s), VReg (reg_of_int (p_pid (the_proc s p)))] s) (\<lambda>_ s.
     bnd (kprintf (''            sepc=0x%lx stval=0x%lx'' @ [CHR 0x0A]) [VReg (sepc s), VReg (stval s)] s) (\<lambda>_ s.
       setkilled p s))"

text \<open>The body of \<open>usertrap\<close> up to the second test of \<open>killed\<close>; the result is \<open>which_dev\<close>.\<close>

definition usertrap_cause :: "inputs \<Rightarrow> nat \<Rightarrow> 'z trapst_scheme \<Rightarrow> ('z trapst_scheme, int) outcome" where
  "usertrap_cause inp p s =
     (let tf = p_trapframe (the_proc s p) in
      if scause s = 8 then
        bnd (killed p s) (\<lambda>k s.
          if k \<noteq> 0 then kexit (-1) s
          else
            let s = set_tf tf TfEpc (get_tf tf TfEpc s + 4) s in
            bnd (syscall (in_pad inp) (s\<lparr>intr_on := True\<rparr>)) (\<lambda>_ s. Done 0 s))
      else
        bnd (devintr inp s) (\<lambda>w s.
          if w \<noteq> 0 then Done w s
          else
            bnd (if scause s = 15 \<or> scause s = 13 then vmfault (p_pagetable (the_proc s p)) (stval s) s
                 else Done 0 s) (\<lambda>pa s.
            bnd (if pa \<noteq> 0 then Done () s else unexpected_trap p s) (\<lambda>_ s. Done 0 s))))"

definition usertrap :: "inputs \<Rightarrow> 'z trapst_scheme \<Rightarrow> ('z trapst_scheme, u64) outcome" where
  "usertrap inp s =
     (if r_sstatus s AND SSTATUS_SPP \<noteq> 0 then Panic ''usertrap: not from user mode''
      else with_myproc (\<lambda>s p.
        bnd (usertrap_cause inp p (set_tf (p_trapframe (the_proc s p)) TfEpc (sepc s) s)) (\<lambda>which_dev s.
        bnd (killed p s) (\<lambda>k s.
          if k \<noteq> 0 then kexit (-1) s
          else bnd (if which_dev = 2 then yield s else Done () s) (\<lambda>_ s. usertrap_return s))))
        (s\<lparr>stvec := sym_kernelvec (syms s)\<rparr>))"

definition kerneltrap_end :: "u64 \<Rightarrow> u64 \<Rightarrow> 'z trapst_scheme \<Rightarrow> ('z trapst_scheme, unit) outcome" where
  "kerneltrap_end epc st s = Done () (w_sstatus st (s\<lparr>sepc := epc\<rparr>))"

definition kerneltrap :: "inputs \<Rightarrow> 'z trapst_scheme \<Rightarrow> ('z trapst_scheme, unit) outcome" where
  "kerneltrap inp s =
     (let epc = sepc s; st = r_sstatus s; cause = scause s in
      if st AND SSTATUS_SPP = 0 then Panic ''kerneltrap: not from supervisor mode''
      else if intr_get s then Panic ''kerneltrap: interrupts enabled''
      else
        bnd (devintr inp s) (\<lambda>w s.
          if w = 0 then
            bnd (kprintf (''scause=0x%lx sepc=0x%lx stval=0x%lx'' @ [CHR 0x0A])
                   [VReg cause, VReg (sepc s), VReg (stval s)] s) (\<lambda>_ _. Panic ''kerneltrap'')
          else bnd (if w = 2 \<and> cur s \<noteq> None then yield s else Done () s) (\<lambda>_ s. kerneltrap_end epc st s)))"

definition kerneltrap_resume :: "u64 \<Rightarrow> u64 \<Rightarrow> 'z trapst_scheme \<Rightarrow> ('z trapst_scheme, unit) outcome" where
  "kerneltrap_resume epc st s = bnd (yield_resume s) (\<lambda>_ s. kerneltrap_end epc st s)"

subsection \<open>forkret\<close>

text \<open>\<open>/init\<close>\<close>

definition init_path :: "u8 list" where
  "init_path = [47, 105, 110, 105, 116]"

text \<open>The result is the address in the trampoline it jumps to and the argument it passes.\<close>

definition forkret :: "'z trapst_scheme \<Rightarrow> ('z trapst_scheme, u64 \<times> u64) outcome" where
  "forkret = with_myproc (\<lambda>s p.
     bnd (release (ProcLock p) s) (\<lambda>_ s.
     bnd (if fork_first s then
            bnd (fsinit ROOTDEV s) (\<lambda>_ s.
            bnd (kexec init_path [KLit init_path] (s\<lparr>fork_first := False\<rparr>)) (\<lambda>r s.
              let s = set_a0 p (word_of_int r) s in
              if get_tf (p_trapframe (the_proc s p)) TfA0 s = -1 then Panic ''exec'' else Done () s))
          else Done () s) (\<lambda>_ s.
     bnd (prepare_return s) (\<lambda>_ s.
       Done (TRAMPOLINE + (sym_userret (syms s) - sym_trampoline (syms s)),
             MAKE_SATP (p_pagetable (the_proc s p))) s))))"

subsection \<open>main.c\<close>

text \<open>
  \<open>main\<close> on CPU 0 and on the others, up to the call of \<open>scheduler\<close>; \<open>initlock\<close> leaves no trace here.
  The other CPUs spin on \<open>started\<close>: for them the run begins in the state in which CPU 0 has set it, and in
  a state where it is not set they spin forever.
\<close>

definition kmain :: "(u64 \<Rightarrow> u32) \<Rightarrow> 'z trapst_scheme \<Rightarrow> ('z trapst_scheme, unit) outcome" where
  "kmain rd s =
     (if hartid s = 0 then
        bnd (kprintf [CHR 0x0A] [] (consoleinit s)) (\<lambda>_ s.
        bnd (kprintf (''xv6 kernel is booting'' @ [CHR 0x0A]) [] s) (\<lambda>_ s.
        bnd (kprintf [CHR 0x0A] [] s) (\<lambda>_ s.
        bnd (kinit s) (\<lambda>_ s.
        bnd (kvminit s) (\<lambda>_ s.
          let s = trapinithart (procinit (kvminithart s));
              s = iinit (binit (plicinithart (plicinit s)))
          in bnd (virtio_disk_init rd s) (\<lambda>_ s.
             bnd (userinit s) (\<lambda>_ s. Done () (s\<lparr>started := True\<rparr>))))))))
      else if \<not> started s then Hang
      else
        bnd (kprintf (''hart %d starting'' @ [CHR 0x0A]) [VReg (hartid s)] s) (\<lambda>_ s.
          Done () (plicinithart (trapinithart (kvminithart s)))))"

end
