(* ===== verification/Samples.thy ===== *)
theory Samples
  imports Trap
begin

section \<open>A concrete kernel state\<close>

text \<open>
  \<open>trap_sample\<close> completes the sample of theory \<open>Txn\<close> with an idle console, an empty file table, a disk
  driver with all descriptors free and zero control registers. \<open>with_args\<close> gives process 0 a trap frame
  that holds the arguments of a system call. The witnesses of later theories start from these states.
\<close>

definition cons_sample :: consst where
  "cons_sample = fsst.extend fs_sample (consst.fields (replicate INPUT_BUF_SIZE 0) 0 0 0 False [] []
     ((replicate NDEV NoDev)[CONSOLE := ConsoleDev]))"

definition zero_file :: file_t where
  "zero_file = \<lparr>f_type = FD_NONE, f_ref = 0, f_readable = False, f_writable = False, f_pipe = 0, f_ip = None,
     f_off = 0, f_major = 0\<rparr>"

definition zero_pipe :: pipe where
  "zero_pipe = \<lparr>pi_data = replicate PIPESIZE 0, pi_nread = 0, pi_nwrite = 0, pi_readopen = False, pi_writeopen = False\<rparr>"

definition file_sample :: filest where
  "file_sample = consst.extend cons_sample (filest.fields (replicate NFILE zero_file) (\<lambda>_. zero_pipe))"

definition virt_sample :: virtst where
  "virt_sample = filest.extend file_sample (virtst.fields 0 0 0 (replicate NUM zero_desc) (replicate NUM 0) 0
     (replicate NUM 0) 0 (replicate NUM True) 0 (replicate NUM None) (replicate NUM 0)
     (replicate NUM \<lparr>q_type = 0, q_reserved = 0, q_sector = 0\<rparr>) [] 0)"

definition trap_sample :: trapst where
  "trap_sample = virtst.extend virt_sample (trapst.fields 0 True False 0 0 0 0 0 0 0 0 0 [])"

lemmas sample_defs = trap_sample_def virt_sample_def file_sample_def cons_sample_def
  virtst.defs filest.defs consst.defs fsst.defs trapst.defs

abbreviation sample_tf :: u64 where "sample_tf \<equiv> 0x87F00000"

definition user_sample :: "u64 \<Rightarrow> u64 \<Rightarrow> u64 \<Rightarrow> trapst" where
  "user_sample a0 a1 a2 = trap_sample\<lparr>
     mem := store64 (sample_tf + tf_offset TfA0) a0 (store64 (sample_tf + tf_offset TfA1) a1
       (store64 (sample_tf + tf_offset TfA2) a2 (\<lambda>_. 0))),
     procs := (replicate NPROC zero_proc)[0 := zero_proc\<lparr>p_state := RUNNING, p_pid := 1, p_trapframe := sample_tf\<rparr>]\<rparr>"

lemma user_sample_simps [simp]:
  "cur (user_sample a0 a1 a2) = Some 0" "held (user_sample a0 a1 a2) = []"
  "procs (user_sample a0 a1 a2) = (replicate NPROC zero_proc)
     [0 := zero_proc\<lparr>p_state := RUNNING, p_pid := 1, p_trapframe := sample_tf\<rparr>]"
  "get_tf sample_tf TfA0 (user_sample a0 a1 a2) = a0"
  "get_tf sample_tf TfA1 (user_sample a0 a1 a2) = a1"
  "get_tf sample_tf TfA2 (user_sample a0 a1 a2) = a2"
  by (simp_all add: user_sample_def sample_defs get_tf_def load64_store64_other)

lemma argint_sample [simp]:
  "argint 0 (user_sample a0 a1 a2) = Done (sint (ucast a0 :: u32)) (user_sample a0 a1 a2)"
  "argint 1 (user_sample a0 a1 a2) = Done (sint (ucast a1 :: u32)) (user_sample a0 a1 a2)"
  "argint 2 (user_sample a0 a1 a2) = Done (sint (ucast a2 :: u32)) (user_sample a0 a1 a2)"
  by (simp_all add: argint_def argraw_def)

end
