(* ===== verification/Lazy.thy ===== *)
theory Lazy
  imports Samples
begin

section \<open>Lazy growth of a process\<close>

text \<open>
  \<open>sbrk\<close> with \<open>SBRK_LAZY\<close> only moves \<open>sz\<close>; pages come when they are touched (\<open>vmfault\<close>). Nothing bounds
  \<open>sz\<close> by the size of the address space.
\<close>

lemma PGROUNDDOWN_MAXVA: "MAXVA \<le> va \<Longrightarrow> MAXVA \<le> PGROUNDDOWN va"
proof -
  assume "MAXVA \<le> va"
  then have "0x4000000000 div 4096 \<le> unat va div 4096" by (intro div_le_mono) (simp add: word_le_nat_alt)
  then have "0x4000000000 \<le> unat va div 4096 * 4096" by simp
  then show ?thesis by (simp add: word_le_nat_alt unat_PGROUNDDOWN)
qed

lemma vmfault_above_MAXVA:
  assumes "cur s = Some p" and "MAXVA \<le> va" and "va < p_sz (the_proc s p)"
  shows "vmfault pt va s = Panic ''walk''"
  using assms PGROUNDDOWN_MAXVA [OF assms(2)] by (simp add: vmfault_def ismapped_def walk_def Let_def)

lemma PGROUNDDOWN_below: "va < (sz :: u64) \<Longrightarrow> PGROUNDDOWN va < sz"
  using PGROUNDDOWN_le [of va] by (simp add: word_less_nat_alt)

lemma copyin_above_MAXVA:
  assumes "cur s = Some p" and "MAXVA \<le> va" and "va < p_sz (the_proc s p)" and "0 < len"
  shows "copyin pt va len s = Panic ''walk''"
proof -
  note lo = PGROUNDDOWN_MAXVA [OF assms(2)] PGROUNDDOWN_below [OF assms(3)]
  have "vmfault pt (PGROUNDDOWN va) s = Panic ''walk''" by (rule vmfault_above_MAXVA [OF assms(1) lo])
  then show ?thesis using lo(1) assms(4) by (subst copyin.simps) (simp add: walkaddr_def Let_def)
qed

text \<open>
  C37: a process that grows lazily past the end of the address space can stop the kernel. \<open>sys_sbrk\<close> with
  \<open>SBRK_LAZY\<close> accepts every size that does not wrap around 64 bits, also beyond \<open>MAXVA\<close>; when the process
  then touches an address between \<open>MAXVA\<close> and its size, the page fault handler of \<open>usertrap\<close> calls \<open>walk\<close>
  on it and panics, and so does \<open>copyin\<close> when the process passes such an address to a system call.
\<close>
theorem lazy_sbrk_panics:
  assumes "cur s = Some p" and "p < length (procs s)"
    and "argint 0 s = Done n s" and "argint 1 s = Done SBRK_LAZY s" and "0 \<le> n"
    and "p_sz (the_proc s p) \<le> p_sz (the_proc s p) + word_of_int n"
    and "MAXVA \<le> va" and "va < p_sz (the_proc s p) + word_of_int n"
  shows "\<exists>t. sys_sbrk s = Done (p_sz (the_proc s p)) t \<and>
    usertrap_cause inp p (t\<lparr>scause := 13, stval := va\<rparr>) = Panic ''walk'' \<and>
    copyin (p_pagetable (the_proc t p)) va 1 t = Panic ''walk''"
proof -
  let ?t = "upd_proc p (\<lambda>q. q\<lparr>p_sz := p_sz q + word_of_int n\<rparr>) s"
  have "sys_sbrk s = Done (p_sz (the_proc s p)) ?t"
    using assms(1,3,4,5) leD [OF assms(6)] by (simp add: sys_sbrk_def)
  moreover have "vmfault pt va (?t\<lparr>scause := 13, stval := va\<rparr>) = Panic ''walk''" for pt
    by (rule vmfault_above_MAXVA [of _ p]) (use assms in simp_all)
  then have "usertrap_cause inp p (?t\<lparr>scause := 13, stval := va\<rparr>) = Panic ''walk''"
    by (simp add: usertrap_cause_def devintr_def Let_def)
  moreover have "copyin (p_pagetable (the_proc ?t p)) va 1 ?t = Panic ''walk''"
    by (rule copyin_above_MAXVA [of _ p]) (use assms in simp_all)
  ultimately show ?thesis by blast
qed

text \<open>A process of 256 GB less one page that asks for two pages more.\<close>

lemma lazy_sbrk_panics_witness:
  "\<exists>t. sys_sbrk ((user_sample 0x2000 2 0)\<lparr>procs := (replicate NPROC zero_proc)
       [0 := zero_proc\<lparr>p_state := RUNNING, p_pid := 1, p_trapframe := sample_tf, p_sz := 0x3FFFFFF000\<rparr>]\<rparr>) =
     Done 0x3FFFFFF000 t \<and>
   usertrap_cause \<lparr>in_pad = [], in_uart_idle = True, in_disk_status = 0\<rparr> 0 (t\<lparr>scause := 13, stval := 0x4000000000\<rparr>) =
     Panic ''walk''"
proof -
  let ?s = "(user_sample 0x2000 2 0)\<lparr>procs := (replicate NPROC zero_proc)
       [0 := zero_proc\<lparr>p_state := RUNNING, p_pid := 1, p_trapframe := sample_tf, p_sz := 0x3FFFFFF000\<rparr>]\<rparr>"
  have g: "get_tf a r ?s = get_tf a r (user_sample 0x2000 2 0)" for a r by (simp add: get_tf_def)
  have a: "argint 0 ?s = Done 0x2000 ?s" "argint 1 ?s = Done 2 ?s" by (simp_all add: argint_def argraw_def g)
  show ?thesis
    using lazy_sbrk_panics [where s = ?s and p = 0 and n = "0x2000" and va = "0x4000000000" and
      inp = "\<lparr>in_pad = [], in_uart_idle = True, in_disk_status = 0\<rparr>", OF _ _ a]
    by simp blast
qed

end
