(* ===== verification/Ring.thy ===== *)
theory Ring
  imports Xv6_Prelude
begin

section \<open>Byte rings\<close>

text \<open>
  Pipes and the console keep bytes in an array used as a ring: the indices \<open>r\<close> and \<open>w\<close> only grow (with
  wrap-around at 32 bits) and position \<open>i\<close> is element \<open>i % N\<close> of the array. \<open>ring_items\<close> is the list the
  ring holds; the locale states what the code that uses a ring relies on, a first-in first-out queue of at
  most \<open>cap\<close> bytes.
\<close>

locale byte_ring =
  fixes items :: "'q \<Rightarrow> u8 list"
    and enq :: "u8 \<Rightarrow> 'q \<Rightarrow> 'q"
    and deq :: "'q \<Rightarrow> 'q"
    and front :: "'q \<Rightarrow> u8"
    and ok :: "'q \<Rightarrow> bool"
    and cap :: nat
  assumes within_cap: "ok q \<Longrightarrow> length (items q) \<le> cap"
    and enq_law: "ok q \<Longrightarrow> length (items q) < cap \<Longrightarrow> ok (enq b q) \<and> items (enq b q) = items q @ [b]"
    and deq_law: "ok q \<Longrightarrow> items q \<noteq> [] \<Longrightarrow> ok (deq q) \<and> items q = front q # items (deq q)"
begin

lemma enq_all:
  "ok q \<Longrightarrow> length (items q) + length bs \<le> cap \<Longrightarrow>
    ok (fold enq bs q) \<and> items (fold enq bs q) = items q @ bs"
proof (induction bs arbitrary: q)
  case (Cons b bs)
  then have "ok (enq b q)" "items (enq b q) = items q @ [b]" using enq_law [of q b] by auto
  with Cons show ?case by simp
qed simp

lemma deq_all:
  "ok q \<Longrightarrow> n \<le> length (items q) \<Longrightarrow> ok ((deq ^^ n) q) \<and> items ((deq ^^ n) q) = drop n (items q)"
proof (induction n)
  case (Suc n)
  then have IH: "ok ((deq ^^ n) q)" "items ((deq ^^ n) q) = drop n (items q)" by auto
  then have "items ((deq ^^ n) q) \<noteq> []" using Suc.prems by simp
  from deq_law [OF IH(1) this] have d: "ok (deq ((deq ^^ n) q))"
    "items ((deq ^^ n) q) = front ((deq ^^ n) q) # items (deq ((deq ^^ n) q))" by auto
  have "items (deq ((deq ^^ n) q)) = tl (drop n (items q))" using arg_cong [OF d(2), of tl] IH(2) by simp
  then show ?case using d(1) by (simp add: drop_Suc tl_drop)
qed simp

lemma front_deq_all:
  assumes "ok q" and "n < length (items q)"
  shows "front ((deq ^^ n) q) = items q ! n"
proof -
  have d: "ok ((deq ^^ n) q)" "items ((deq ^^ n) q) = drop n (items q)" using deq_all [OF assms(1)] assms(2) by auto
  then have "drop n (items q) = front ((deq ^^ n) q) # items (deq ((deq ^^ n) q))"
    using deq_law [OF d(1)] assms(2) by auto
  then show ?thesis using assms(2) by (metis Cons_nth_drop_Suc list.inject)
qed

end

subsection \<open>The list in a ring\<close>

definition ring_items :: "nat \<Rightarrow> u8 list \<Rightarrow> u32 \<Rightarrow> u32 \<Rightarrow> u8 list" where
  "ring_items N data r w = map (\<lambda>i. data ! (unat (r + of_nat i) mod N)) [0..<unat (w - r)]"

lemma length_ring_items [simp]: "length (ring_items N data r w) = unat (w - r)"
  by (simp add: ring_items_def)

lemma ring_pos:
  assumes "N dvd 2 ^ 32"
  shows "unat (r + of_nat i :: u32) mod N = (unat r + i) mod N"
  using assms by (simp add: unat_word_ariths unat_of_nat mod_mod_cancel mod_add_right_eq)

lemma ring_pos_inj:
  assumes "(a + i) mod N = (a + j) mod N" and "i < N" and "j < (N :: nat)"
  shows "i = j"
proof -
  have le: "j = i" if "i \<le> j" "(a + j) mod N = (a + i) mod N" "j < N" for i j
  proof -
    have "N dvd (a + j) - (a + i)" using that by (subst mod_eq_dvd_iff_nat [symmetric]) auto
    then have "N dvd j - i" by simp
    then have "j - i = 0" using that by (metis dvd_imp_le less_imp_diff_less linorder_not_less neq0_conv)
    then show ?thesis using that by simp
  qed
  show ?thesis
  proof (cases "i \<le> j")
    case True
    from le [OF True assms(1) [symmetric] assms(3)] show ?thesis by simp
  next
    case False
    then have "j \<le> i" by simp
    from le [OF this assms(1,2)] show ?thesis .
  qed
qed

lemma ring_enq:
  assumes N: "N dvd 2 ^ 32" "N < 2 ^ 32" and len: "length data = N" and room: "unat (w - r) < N"
  shows "ring_items N (data[unat (w mod of_nat N) := b]) r (w + 1) = ring_items N data r w @ [b]"
    and "unat (w + 1 - r) = Suc (unat (w - r))"
proof -
  let ?k = "unat (w - r)"
  have e: "w + 1 - r = (w - r) + 1" by simp
  have "unat ((w - r) + 1) = ?k + 1" using room N by (subst unat_add_lem [THEN iffD1]) auto
  then show s: "unat (w + 1 - r) = Suc ?k" unfolding e by simp
  have "unat (of_nat N :: u32) = N" using N(2) by (simp add: unat_of_nat)
  then have pos: "unat (w mod of_nat N) = (unat r + ?k) mod N"
    using ring_pos [OF N(1), of r ?k] by (simp add: unat_mod)
  have ne: "unat (r + of_nat i) mod N \<noteq> (unat r + ?k) mod N" if "i < ?k" for i
    using ring_pos_inj [of "unat r" i N ?k] that room ring_pos [OF N(1), of r i] by auto
  have lt: "(unat r + ?k) mod N < length data" using room len by simp
  have "ring_items N (data[unat (w mod of_nat N) := b]) r (w + 1) =
      map (\<lambda>i. data[(unat r + ?k) mod N := b] ! (unat (r + of_nat i) mod N)) [0..<Suc ?k]"
    unfolding ring_items_def s pos by simp
  also have "\<dots> = map (\<lambda>i. data ! (unat (r + of_nat i) mod N)) [0..<?k] @ [b]"
  proof -
    have "data[(unat r + ?k) mod N := b] ! (unat (r + of_nat i) mod N) = data ! (unat (r + of_nat i) mod N)" if "i < ?k" for i
      by (rule nth_list_update_neq) (rule ne [OF that, symmetric])
    moreover have "data[(unat r + ?k) mod N := b] ! (unat (r + of_nat ?k) mod N) = b"
      unfolding ring_pos [OF N(1), of r ?k] by (rule nth_list_update_eq [OF lt])
    ultimately show ?thesis by simp
  qed
  finally show "ring_items N (data[unat (w mod of_nat N) := b]) r (w + 1) = ring_items N data r w @ [b]"
    by (simp add: ring_items_def)
qed

lemma ring_deq:
  assumes "w \<noteq> r"
  shows "ring_items N data r w = data ! (unat r mod N) # ring_items N data (r + 1) w"
    and "unat (w - (r + 1)) = unat (w - r) - 1"
proof -
  have pos: "0 < unat (w - r)" using assms by (simp add: unat_gt_0)
  have e: "w - (r + 1) = (w - r) - 1" by simp
  show s: "unat (w - (r + 1)) = unat (w - r) - 1"
    unfolding e using pos by (subst unat_sub) (simp_all add: word_le_nat_alt)
  obtain k where k: "unat (w - r) = Suc k" using pos by (cases "unat (w - r)") auto
  have "ring_items N data r w = map (\<lambda>i. data ! (unat (r + of_nat i) mod N)) [0..<Suc k]"
    by (simp add: ring_items_def k)
  also have "\<dots> = data ! (unat r mod N) # map (\<lambda>i. data ! (unat (r + of_nat (Suc i)) mod N)) [0..<k]"
    by (subst upt_conv_Cons) (simp_all add: map_Suc_upt [symmetric] comp_def del: upt_Suc)
  also have "\<dots> = data ! (unat r mod N) # ring_items N data (r + 1) w"
    unfolding ring_items_def s k by (simp add: add.assoc)
  finally show "ring_items N data r w = data ! (unat r mod N) # ring_items N data (r + 1) w" .
qed

end
