(* ===== verification/Pipe.thy ===== *)
theory Pipe
  imports Lazy Ring
begin

section \<open>Pipes deliver what was written\<close>

text \<open>
  The bytes in a pipe are the ring \<open>data\<close> between \<open>nread\<close> and \<open>nwrite\<close> (theory \<open>Ring\<close>). \<open>pipe_put\<close> and
  \<open>pipe_get\<close> are the assignments of the two loops of \<open>pipe.c\<close>. They implement a queue of \<open>PIPESIZE\<close>
  bytes; \<open>pipewrite\<close> appends the bytes of the user's buffer to it and \<open>piperead\<close> takes bytes off its
  front and stores them in the user's buffer.
\<close>

definition pipe_put :: "u8 \<Rightarrow> pipe \<Rightarrow> pipe" where
  "pipe_put b q = q\<lparr>pi_data := (pi_data q)[unat (pi_nwrite q mod of_nat PIPESIZE) := b], pi_nwrite := pi_nwrite q + 1\<rparr>"

definition pipe_get :: "pipe \<Rightarrow> pipe" where
  "pipe_get q = q\<lparr>pi_nread := pi_nread q + 1\<rparr>"

definition pipe_front :: "pipe \<Rightarrow> u8" where
  "pipe_front q = pi_data q ! unat (pi_nread q mod of_nat PIPESIZE)"

definition pipe_items :: "pipe \<Rightarrow> u8 list" where
  "pipe_items q = ring_items PIPESIZE (pi_data q) (pi_nread q) (pi_nwrite q)"

definition pipe_ok :: "pipe \<Rightarrow> bool" where
  "pipe_ok q \<longleftrightarrow> length (pi_data q) = PIPESIZE \<and> unat (pi_nwrite q - pi_nread q) \<le> PIPESIZE"

interpretation pq: byte_ring pipe_items pipe_put pipe_get pipe_front pipe_ok PIPESIZE
proof unfold_locales
  fix q and b :: u8
  assume ok: "pipe_ok q"
  show "length (pipe_items q) \<le> PIPESIZE" using ok by (simp add: pipe_items_def pipe_ok_def)
  show "pipe_ok (pipe_put b q) \<and> pipe_items (pipe_put b q) = pipe_items q @ [b]" if "length (pipe_items q) < PIPESIZE"
    using ring_enq(1) [of PIPESIZE "pi_data q" "pi_nwrite q" "pi_nread q" b]
      ring_enq(2) [of PIPESIZE "pi_data q" "pi_nwrite q" "pi_nread q"] ok that
    by (simp add: pipe_items_def pipe_ok_def pipe_put_def)
  show "pipe_ok (pipe_get q) \<and> pipe_items q = pipe_front q # pipe_items (pipe_get q)" if "pipe_items q \<noteq> []"
  proof -
    have "pi_nwrite q \<noteq> pi_nread q" using that by (auto simp: pipe_items_def ring_items_def)
    from ring_deq(1) [OF this, of PIPESIZE "pi_data q"] ring_deq(2) [OF this] ok show ?thesis
      by (simp add: pipe_items_def pipe_ok_def pipe_get_def pipe_front_def unat_mod) linarith
  qed
qed

lemma pipe_full_iff: "pipe_ok q \<Longrightarrow> pi_nwrite q = pi_nread q + of_nat PIPESIZE \<longleftrightarrow> length (pipe_items q) = PIPESIZE"
  using word_offset_iff [of PIPESIZE "pi_nwrite q" "pi_nread q"] by (simp add: pipe_items_def)

lemma pipe_empty_iff: "pi_nread q = pi_nwrite q \<longleftrightarrow> pipe_items q = []"
  by (auto simp: pipe_items_def ring_items_def unat_eq_0)

lemma killed_eq: "ProcLock p \<notin> set (held s) \<Longrightarrow> killed p s = Done (p_killed (the_proc s p)) s"
  by (simp add: killed_def acquire_def release_def)

subsection \<open>pipewrite\<close>

definition set_pipe :: "u64 \<Rightarrow> pipe \<Rightarrow> 'z filest_scheme \<Rightarrow> 'z filest_scheme" where
  "set_pipe pi q s = s\<lparr>pipes := (pipes s)(pi := q)\<rparr>"

lemma set_pipe_frame [simp]:
  "pipes (set_pipe pi q s) pi = q" "cur (set_pipe pi q s) = cur s" "held (set_pipe pi q s) = held s"
  "procs (set_pipe pi q s) = procs s" "mem (set_pipe pi q s) = mem s" "freelist (set_pipe pi q s) = freelist s"
  "kend (set_pipe pi q s) = kend s" "set_pipe pi q (set_pipe pi q' s) = set_pipe pi q s"
  "unlocked_table (set_pipe pi q s) = unlocked_table s"
  by (simp_all add: set_pipe_def unlocked_table_def)

lemma set_pipe_tables [simp]:
  "tables_ok (set_pipe pi q s) l pt T ps = tables_ok s l pt T ps" "uvm_lookup (set_pipe pi q s) = uvm_lookup s"
  "umem (set_pipe pi q s) = umem s" "user_mapped (set_pipe pi q s) = user_mapped s"
  by (simp_all add: tables_ok_def kpool_inv_def kmem_inv_def uvm_lookup_def umem_def user_mapped_def fun_eq_iff)

text \<open>The state when a pipe routine has done its work: the other side is woken, the lock released.\<close>

definition pipe_end :: "chan \<Rightarrow> u64 \<Rightarrow> 'z filest_scheme \<Rightarrow> 'z filest_scheme" where
  "pipe_end ch pi s = (wake_all (Some ch) s)\<lparr>held := remove1 (PipeLock pi) (held s)\<rparr>"

lemma pipewrite_done_eq:
  "unlocked_table s \<Longrightarrow> PipeLock pi \<in> set (held s) \<Longrightarrow>
    pipewrite_done pi i s = Done (int i) (pipe_end (ChPipeRead pi) pi s)"
  by (simp add: pipewrite_done_def wakeup_eq release_member pipe_end_def)

text \<open>The byte of the user's buffer one turn of the loop copies in.\<close>

lemma copyin_byte:
  assumes "tables_ok s 2 pt T ps" and "user_mapped s pt False va"
  shows "copyin pt va 1 s = Done (0, [umem s pt va]) s"
  using copyin_mapped [OF assms(1), of 1 va] assms(2) by simp

lemma pipewrite_loop_room:
  assumes "cur s = Some p" and "unlocked_table s" and "p < NPROC" and "PipeLock pi \<in> set (held s)"
    and "p_killed (the_proc s p) = 0" and "tables_ok s 2 (p_pagetable (the_proc s p)) T ps"
    and "pi_readopen (pipes s pi)" and "pipe_ok (pipes s pi)"
    and "length (pipe_items (pipes s pi)) + left \<le> PIPESIZE"
    and "\<forall>j<left. user_mapped s (p_pagetable (the_proc s p)) False (addr + of_nat (i + j))"
  shows "pipewrite_loop pi addr i left s = Done (int (i + left)) (pipe_end (ChPipeRead pi) pi (set_pipe pi
    (fold pipe_put (map (\<lambda>j. umem s (p_pagetable (the_proc s p)) (addr + of_nat (i + j))) [0..<left]) (pipes s pi)) s))"
  using assms
proof (induction left arbitrary: i s)
  case 0
  have "set_pipe pi (pipes s pi) s = s" by (simp add: set_pipe_def)
  then show ?case using 0 by (simp add: pipewrite_done_eq)
next
  case (Suc left)
  let ?pt = "p_pagetable (the_proc s p)" and ?q = "pipes s pi"
  let ?b = "umem s ?pt (addr + of_nat i)" and ?bs = "map (\<lambda>j. umem s ?pt (addr + of_nat (Suc i + j))) [0..<left]"
  let ?s = "set_pipe pi (pipe_put ?b ?q) s"
  have nl: "ProcLock p \<notin> set (held s)" using Suc.prems(2,3) by (simp add: unlocked_table_def)
  have room: "length (pipe_items ?q) < PIPESIZE" using Suc.prems(9) by simp
  then have nf: "pi_nwrite ?q \<noteq> pi_nread ?q + of_nat PIPESIZE" using pipe_full_iff [OF Suc.prems(8)] by auto
  have ci: "copyin ?pt (addr + of_nat i) 1 s = Done (0, [?b]) s"
    by (rule copyin_byte [OF Suc.prems(6)]) (use Suc.prems(10) [rule_format, of 0] in simp)
  have up: "upd_pipe pi (\<lambda>q. q\<lparr>pi_data := (pi_data q)[unat (pi_nwrite q mod of_nat PIPESIZE) := ?b],
      pi_nwrite := pi_nwrite q + 1\<rparr>) s = ?s"
    by (simp add: upd_pipe_def set_pipe_def pipe_put_def)
  have "pipewrite_loop pi addr i (Suc left) s = pipewrite_loop pi addr (Suc i) left ?s"
    using Suc.prems(1,5,7) nf ci up by (simp add: killed_eq [OF nl])
  moreover have "pipe_ok (pipe_put ?b ?q)" "length (pipe_items (pipe_put ?b ?q)) = Suc (length (pipe_items ?q))"
    using pq.enq_law [OF Suc.prems(8) room] by auto
  moreover have "pi_readopen (pipe_put ?b ?q) = pi_readopen ?q" by (simp add: pipe_put_def)
  moreover have "user_mapped s ?pt False (addr + of_nat (Suc i + j))" if "j < left" for j
    using Suc.prems(10) [rule_format, of "Suc j"] that by simp
  ultimately have "pipewrite_loop pi addr i (Suc left) s = Done (int (Suc i + left)) (pipe_end (ChPipeRead pi) pi
      (set_pipe pi (fold pipe_put ?bs (pipe_put ?b ?q)) s))"
    using Suc.IH [of ?s "Suc i"] Suc.prems by simp
  moreover have "map (\<lambda>j. umem s ?pt (addr + of_nat (i + j))) [0..<Suc left] = ?b # ?bs"
    by (subst upt_conv_Cons) (simp_all add: map_Suc_upt [symmetric] comp_def ac_simps del: upt_Suc)
  ultimately show ?case by simp
qed

lemma pipewrite_run:
  assumes "cur s = Some p" and "unlocked_table s" and "p < NPROC" and "PipeLock pi \<notin> set (held s)"
    and "p_killed (the_proc s p) = 0" and "tables_ok s 2 (p_pagetable (the_proc s p)) T ps"
    and "pi_readopen (pipes s pi)" and "pipe_ok (pipes s pi)"
    and "length (pipe_items (pipes s pi)) + n \<le> PIPESIZE"
    and "\<forall>j<n. user_mapped s (p_pagetable (the_proc s p)) False (addr + of_nat j)"
  shows "pipewrite pi addr (int n) s = Done (int n) (wake_all (Some (ChPipeRead pi)) (set_pipe pi
    (fold pipe_put (map (\<lambda>j. umem s (p_pagetable (the_proc s p)) (addr + of_nat j)) [0..<n]) (pipes s pi)) s))"
proof -
  let ?s = "s\<lparr>held := PipeLock pi # held s\<rparr>"
  have um: "umem ?s = umem s" "user_mapped ?s = user_mapped s"
    by (simp_all add: umem_def user_mapped_def uvm_lookup_def fun_eq_iff)
  have "tables_ok ?s 2 (p_pagetable (the_proc ?s p)) T ps"
    using assms(6) by (simp add: tables_ok_def kpool_inv_def kmem_inv_def)
  moreover have "unlocked_table ?s" using assms(2) by (simp add: unlocked_table_def)
  ultimately have "pipewrite_loop pi addr 0 n ?s = Done (int n) (pipe_end (ChPipeRead pi) pi (set_pipe pi
    (fold pipe_put (map (\<lambda>j. umem s (p_pagetable (the_proc s p)) (addr + of_nat j)) [0..<n]) (pipes s pi)) ?s))"
    using pipewrite_loop_room [of ?s p pi T ps n addr 0] assms by (simp add: um)
  then show ?thesis
    using assms(4) by (simp add: pipewrite_def acquire_free pipe_end_def set_pipe_def wake_all_def)
qed

subsection \<open>piperead\<close>

lemma piperead_done_eq:
  "unlocked_table s \<Longrightarrow> PipeLock pi \<in> set (held s) \<Longrightarrow>
    piperead_done pi i s = Done (int i) (pipe_end (ChPipeWrite pi) pi s)"
  by (simp add: piperead_done_def wakeup_eq release_member pipe_end_def)

text \<open>One byte of the loop, stored in the user's buffer.\<close>

lemma copyout_byte:
  assumes "tables_ok s 2 pt T ps" and "data_range s pt (T \<union> set ps) va (Suc n)"
  shows "\<exists>m. copyout pt va [b] 1 s = Done 0 (s\<lparr>mem := m\<rparr>) \<and> stored_at s pt va [b] (s\<lparr>mem := m\<rparr>) \<and>
    tables_ok (s\<lparr>mem := m\<rparr>) 2 pt T ps \<and> (\<forall>x. uvm_lookup (s\<lparr>mem := m\<rparr>) pt x = uvm_lookup s pt x)"
proof -
  have r: "data_range s pt (T \<union> set ps) va (unat (1 :: u64))"
    using assms(2) by (auto simp: data_range_def inj_on_def)
  obtain t where t: "copyout pt va [b] 1 s = Done 0 t" "stored_at s pt va [b] t"
    using copyout_mapped [OF assms(1) r, of "[b]"] by auto
  have e: "t = s\<lparr>mem := mem t\<rparr>" using t(2) by (simp add: stored_at_def)
  have ag: "agree (T \<union> set ps) (mem s) (mem t)"
    by (rule stored_at_agree [OF _ t(2)]) (use r in simp)
  show ?thesis
    using t e data_write [OF assms(1) ag] by (intro exI [of _ "mem t"]) metis
qed

lemma stored_at_nil [simp]: "stored_at s pt va [] s"
  by (simp add: stored_at_def)

lemma uaddr_set_pipe [simp]: "uaddr (set_pipe pi q s) = uaddr s"
  by (simp add: uaddr_def fun_eq_iff)

lemma piperead_copy_run:
  assumes "cur s = Some p" and "unlocked_table s" and "PipeLock pi \<in> set (held s)"
    and "tables_ok s 2 (p_pagetable (the_proc s p)) T ps" and "pipe_ok (pipes s pi)"
    and "data_range s (p_pagetable (the_proc s p)) (T \<union> set ps) (addr + of_nat i) left"
    and "n = min left (length (pipe_items (pipes s pi)))"
  shows "\<exists>m. piperead_copy pi addr i left s =
      Done (int (i + n)) (pipe_end (ChPipeWrite pi) pi (set_pipe pi ((pipe_get ^^ n) (pipes s pi)) (s\<lparr>mem := m\<rparr>))) \<and>
    stored_at s (p_pagetable (the_proc s p)) (addr + of_nat i) (take n (pipe_items (pipes s pi))) (s\<lparr>mem := m\<rparr>)"
  using assms
proof (induction left arbitrary: i s n)
  case 0
  have "set_pipe pi (pipes s pi) (s\<lparr>mem := mem s\<rparr>) = s" by (simp add: set_pipe_def)
  moreover have "stored_at s pt va [] (s\<lparr>mem := mem s\<rparr>)" for pt va by simp
  ultimately show ?case using 0 by (intro exI [of _ "mem s"]) (simp add: piperead_done_eq)
next
  case (Suc left)
  let ?q = "pipes s pi" and ?pt = "p_pagetable (the_proc s p)"
  show ?case
  proof (cases "pipe_items ?q = []")
    case True
    have "set_pipe pi (pipes s pi) (s\<lparr>mem := mem s\<rparr>) = s" by (simp add: set_pipe_def)
    then show ?thesis
      using Suc.prems True pipe_empty_iff [of ?q]
      by (intro exI [of _ "mem s"]) (simp add: piperead_done_eq)
  next
    case False
    let ?b = "pipe_front ?q" and ?s = "set_pipe pi (pipe_get ?q) s"
    have g: "pipe_ok (pipe_get ?q)" "pipe_items ?q = ?b # pipe_items (pipe_get ?q)"
      using pq.deq_law [OF Suc.prems(5) False] by auto
    have up: "upd_pipe pi (\<lambda>q. q\<lparr>pi_nread := pi_nread q + 1\<rparr>) s = ?s"
      by (simp add: upd_pipe_def set_pipe_def pipe_get_def)
    have dr: "data_range ?s ?pt (T \<union> set ps) (addr + of_nat i) (Suc left)"
      using Suc.prems(6) by (subst data_range_cong [of ?s ?pt s]) simp_all
    obtain m where m: "copyout ?pt (addr + of_nat i) [?b] 1 ?s = Done 0 (?s\<lparr>mem := m\<rparr>)"
        "stored_at ?s ?pt (addr + of_nat i) [?b] (?s\<lparr>mem := m\<rparr>)" "tables_ok (?s\<lparr>mem := m\<rparr>) 2 ?pt T ps"
        "\<forall>x. uvm_lookup (?s\<lparr>mem := m\<rparr>) ?pt x = uvm_lookup ?s ?pt x"
      using copyout_byte [OF _ dr, of ?b] Suc.prems(4) by auto
    let ?t = "?s\<lparr>mem := m\<rparr>"
    have step: "piperead_copy pi addr i (Suc left) s = piperead_copy pi addr (Suc i) left ?t"
      using Suc.prems(1) False pipe_empty_iff [of ?q] up m(1) by (simp add: Let_def pipe_front_def)
    have look: "\<And>x. uvm_lookup ?t ?pt x = uvm_lookup s ?pt x" using m(4) by simp
    have sh: "addr + of_nat (Suc i) = addr + of_nat i + of_nat 1" by simp
    have "data_range s ?pt (T \<union> set ps) (addr + of_nat (Suc i)) left"
      unfolding sh using data_range_shift [OF Suc.prems(6), of 1] by simp
    then have "data_range ?t ?pt (T \<union> set ps) (addr + of_nat (Suc i)) left"
      by (subst data_range_cong [OF look])
    moreover have "p_pagetable (the_proc ?t p) = ?pt" "pipes ?t pi = pipe_get ?q" "PipeLock pi \<in> set (held ?t)"
      "cur ?t = Some p" "unlocked_table ?t"
      using Suc.prems(1-3) by (simp_all add: unlocked_table_def)
    moreover obtain k where n: "n = Suc k" "k = min left (length (pipe_items (pipe_get ?q)))"
      using Suc.prems(7) g(2) by (cases n) auto
    ultimately obtain m' where m': "piperead_copy pi addr (Suc i) left ?t = Done (int (Suc i + k))
        (pipe_end (ChPipeWrite pi) pi (set_pipe pi ((pipe_get ^^ k) (pipe_get ?q)) (?t\<lparr>mem := m'\<rparr>)))"
        "stored_at ?t ?pt (addr + of_nat (Suc i)) (take k (pipe_items (pipe_get ?q))) (?t\<lparr>mem := m'\<rparr>)"
      using Suc.IH [of ?t "Suc i" k] m(3) g(1) by auto
    have take: "take n (pipe_items ?q) = [?b] @ take k (pipe_items (pipe_get ?q))"
      unfolding n(1) by (subst g(2)) simp
    have len: "length [?b] + length (take k (pipe_items (pipe_get ?q))) \<le> Suc left" using n(2) by simp
    have "data_range ?s ?pt (T \<union> set ps) (addr + of_nat i) (length [?b] + length (take k (pipe_items (pipe_get ?q))))"
      using dr len by (auto simp: data_range_def elim: inj_on_subset)
    moreover have "stored_at ?t ?pt (addr + of_nat i + of_nat (length [?b])) (take k (pipe_items (pipe_get ?q))) (?t\<lparr>mem := m'\<rparr>)"
      using m'(2) unfolding sh by simp
    ultimately have "stored_at ?s ?pt (addr + of_nat i) ([?b] @ take k (pipe_items (pipe_get ?q))) (?t\<lparr>mem := m'\<rparr>)"
      using m(2,4) by (intro stored_at_trans) auto
    then have "stored_at s ?pt (addr + of_nat i) (take n (pipe_items ?q)) (s\<lparr>mem := m'\<rparr>)"
      unfolding take by (simp add: stored_at_def)
    moreover have "set_pipe pi ((pipe_get ^^ k) (pipe_get ?q)) (?t\<lparr>mem := m'\<rparr>) =
        set_pipe pi ((pipe_get ^^ n) ?q) (s\<lparr>mem := m'\<rparr>)"
      unfolding n(1) funpow_Suc_right comp_def by (simp add: set_pipe_def)
    ultimately show ?thesis using step m'(1) n(1) by (intro exI [of _ m']) simp
  qed
qed

lemma piperead_run:
  assumes "cur s = Some p" and "unlocked_table s" and "PipeLock pi \<notin> set (held s)"
    and "tables_ok s 2 (p_pagetable (the_proc s p)) T ps" and "pipe_ok (pipes s pi)"
    and "data_range s (p_pagetable (the_proc s p)) (T \<union> set ps) addr left"
    and "n = min left (length (pipe_items (pipes s pi)))"
    and "pipe_items (pipes s pi) \<noteq> [] \<or> \<not> pi_writeopen (pipes s pi)"
  shows "\<exists>m. piperead pi addr (int left) s =
      Done (int n) (wake_all (Some (ChPipeWrite pi)) (set_pipe pi ((pipe_get ^^ n) (pipes s pi)) (s\<lparr>mem := m\<rparr>))) \<and>
    stored_at s (p_pagetable (the_proc s p)) addr (take n (pipe_items (pipes s pi))) (s\<lparr>mem := m\<rparr>)"
proof -
  let ?s = "s\<lparr>held := PipeLock pi # held s\<rparr>"
  have ua: "uaddr ?s = uaddr s" "user_mapped ?s = user_mapped s"
    by (simp_all add: uaddr_def user_mapped_def uvm_lookup_def fun_eq_iff)
  have "tables_ok ?s 2 (p_pagetable (the_proc ?s p)) T ps"
    using assms(4) by (simp add: tables_ok_def kpool_inv_def kmem_inv_def)
  moreover have "data_range ?s (p_pagetable (the_proc ?s p)) (T \<union> set ps) (addr + of_nat 0) left"
    using assms(6) by (simp add: data_range_def ua)
  moreover have "unlocked_table ?s" using assms(2) by (simp add: unlocked_table_def)
  ultimately obtain m where m: "piperead_copy pi addr 0 left ?s = Done (int n) (pipe_end (ChPipeWrite pi) pi
      (set_pipe pi ((pipe_get ^^ n) (pipes s pi)) (?s\<lparr>mem := m\<rparr>)))"
      "stored_at ?s (p_pagetable (the_proc s p)) addr (take n (pipe_items (pipes s pi))) (?s\<lparr>mem := m\<rparr>)"
    using piperead_copy_run [of ?s p pi T ps addr 0 left n] assms by auto
  have "stored_at s (p_pagetable (the_proc s p)) addr (take n (pipe_items (pipes s pi))) (s\<lparr>mem := m\<rparr>)"
    using m(2) by (simp add: stored_at_def ua)
  moreover have "piperead_turn pi addr (int left) ?s = piperead_copy pi addr 0 left ?s"
    using assms(8) pipe_empty_iff [of "pipes s pi"] by (auto simp: piperead_turn_def)
  ultimately show ?thesis
    using m(1) assms(3) by (intro exI [of _ m]) (simp add: piperead_def acquire_free pipe_end_def set_pipe_def wake_all_def)
qed

subsection \<open>The contract of a pipe\<close>

text \<open>
  C24: \<open>pipewrite\<close> appends. When the pipe has room for \<open>n\<close> bytes, its reading end is open, the caller has not
  been killed and may read the \<open>n\<close> bytes at \<open>addr\<close>, the call returns \<open>n\<close> without sleeping, and the list of
  bytes in the pipe has grown by exactly these bytes, in order; memory, the locks held and the other pipes
  are as before.
\<close>
theorem pipewrite_appends:
  assumes "cur s = Some p" and "unlocked_table s" and "p < NPROC" and "PipeLock pi \<notin> set (held s)"
    and "p_killed (the_proc s p) = 0" and "tables_ok s 2 (p_pagetable (the_proc s p)) T ps"
    and "pi_readopen (pipes s pi)" and "pipe_ok (pipes s pi)"
    and "length (pipe_items (pipes s pi)) + n \<le> PIPESIZE"
    and "\<forall>j<n. user_mapped s (p_pagetable (the_proc s p)) False (addr + of_nat j)"
  shows "\<exists>t. pipewrite pi addr (int n) s = Done (int n) t \<and> pipe_ok (pipes t pi) \<and>
    pipe_items (pipes t pi) = pipe_items (pipes s pi) @
      map (\<lambda>j. umem s (p_pagetable (the_proc s p)) (addr + of_nat j)) [0..<n] \<and>
    mem t = mem s \<and> held t = held s \<and> (\<forall>pj. pj \<noteq> pi \<longrightarrow> pipes t pj = pipes s pj)"
proof -
  let ?bs = "map (\<lambda>j. umem s (p_pagetable (the_proc s p)) (addr + of_nat j)) [0..<n]"
  let ?t = "wake_all (Some (ChPipeRead pi)) (set_pipe pi (fold pipe_put ?bs (pipes s pi)) s)"
  have "pipewrite pi addr (int n) s = Done (int n) ?t" by (rule pipewrite_run [OF assms])
  moreover have "pipes ?t = (pipes s)(pi := fold pipe_put ?bs (pipes s pi))" by (simp add: set_pipe_def wake_all_def)
  moreover have "pipe_ok (fold pipe_put ?bs (pipes s pi)) \<and> pipe_items (fold pipe_put ?bs (pipes s pi)) = pipe_items (pipes s pi) @ ?bs"
    by (rule pq.enq_all) (use assms(8,9) in simp_all)
  ultimately show ?thesis by (intro exI [of _ ?t]) simp
qed

text \<open>
  C13: \<open>piperead\<close> delivers from the front. When the pipe holds bytes or has no writer, and the caller may write
  the \<open>left\<close> bytes at \<open>addr\<close> (mapped, distinct, no page-table or free page), the call returns the number of
  bytes available, at most \<open>left\<close>, without sleeping; exactly these bytes, in order, are stored at \<open>addr\<close> and
  have left the pipe. With \<open>pipewrite_appends\<close>: a reader gets the bytes in the order they were written.
\<close>
theorem piperead_delivers:
  assumes "cur s = Some p" and "unlocked_table s" and "PipeLock pi \<notin> set (held s)"
    and "tables_ok s 2 (p_pagetable (the_proc s p)) T ps" and "pipe_ok (pipes s pi)"
    and "data_range s (p_pagetable (the_proc s p)) (T \<union> set ps) addr left"
    and "n = min left (length (pipe_items (pipes s pi)))"
    and "pipe_items (pipes s pi) \<noteq> [] \<or> \<not> pi_writeopen (pipes s pi)"
  shows "\<exists>t. piperead pi addr (int left) s = Done (int n) t \<and> pipe_ok (pipes t pi) \<and>
    pipe_items (pipes t pi) = drop n (pipe_items (pipes s pi)) \<and>
    stored_at s (p_pagetable (the_proc s p)) addr (take n (pipe_items (pipes s pi))) (s\<lparr>mem := mem t\<rparr>) \<and>
    held t = held s \<and> (\<forall>pj. pj \<noteq> pi \<longrightarrow> pipes t pj = pipes s pj)"
proof -
  obtain m where m: "piperead pi addr (int left) s =
      Done (int n) (wake_all (Some (ChPipeWrite pi)) (set_pipe pi ((pipe_get ^^ n) (pipes s pi)) (s\<lparr>mem := m\<rparr>)))"
      "stored_at s (p_pagetable (the_proc s p)) addr (take n (pipe_items (pipes s pi))) (s\<lparr>mem := m\<rparr>)"
    using piperead_run [OF assms] by blast
  let ?t = "wake_all (Some (ChPipeWrite pi)) (set_pipe pi ((pipe_get ^^ n) (pipes s pi)) (s\<lparr>mem := m\<rparr>))"
  have "pipes ?t = (pipes s)(pi := (pipe_get ^^ n) (pipes s pi))" by (simp add: set_pipe_def wake_all_def)
  moreover have "pipe_ok ((pipe_get ^^ n) (pipes s pi)) \<and> pipe_items ((pipe_get ^^ n) (pipes s pi)) = drop n (pipe_items (pipes s pi))"
    by (rule pq.deq_all) (use assms(5,7) in simp_all)
  ultimately show ?thesis using m by (intro exI [of _ ?t]) simp
qed

text \<open>
  A read into a bad buffer loses a byte. When the destination is no user address, \<open>piperead\<close> has taken
  the first byte off the pipe before \<open>copyout\<close> fails; it returns 0, the result that means end of file, and
  the byte is gone.
\<close>
lemma piperead_bad_address_loses_byte:
  assumes "cur s = Some p" and "unlocked_table s" and "PipeLock pi \<notin> set (held s)"
    and "pipe_ok (pipes s pi)" and "pipe_items (pipes s pi) = b # bs" and "MAXVA \<le> addr" and "0 < n"
  shows "\<exists>t. piperead pi addr n s = Done 0 t \<and> pipe_items (pipes t pi) = bs \<and> mem t = mem s"
proof -
  let ?s = "s\<lparr>held := PipeLock pi # held s\<rparr>" and ?q = "pipes s pi"
  let ?t = "set_pipe pi (pipe_get ?q) ?s"
  have ne: "pi_nread ?q \<noteq> pi_nwrite ?q" using assms(5) pipe_empty_iff [of ?q] by simp
  have up: "upd_pipe pi (\<lambda>q. q\<lparr>pi_nread := pi_nread q + 1\<rparr>) ?s = ?t"
    by (simp add: upd_pipe_def set_pipe_def pipe_get_def)
  have co: "copyout pt (addr + of_nat 0) [x] 1 t = Done (-1) t" for pt x and t :: "'a filest_scheme"
    using PGROUNDDOWN_MAXVA [OF assms(6)] by (subst copyout.simps) (simp add: Let_def)
  obtain k where k: "nat n = Suc k" using assms(7) by (cases "nat n") auto
  have "piperead_copy pi addr 0 (Suc k) ?s = piperead_done pi 0 ?t"
    using ne assms(1) by (simp add: Let_def up co [simplified])
  also have "\<dots> = Done 0 (pipe_end (ChPipeWrite pi) pi ?t)"
    by (subst piperead_done_eq) (use assms(2) in \<open>simp_all add: unlocked_table_def\<close>)
  finally have "piperead pi addr n s = Done 0 (pipe_end (ChPipeWrite pi) pi ?t)"
    using assms(3) ne k by (simp add: piperead_def acquire_free piperead_turn_def)
  moreover have "pipe_items (pipe_get ?q) = bs" using pq.deq_law [OF assms(4)] assms(5) by auto
  ultimately show ?thesis by (simp add: pipe_end_def wake_all_def set_pipe_def)
qed

subsection \<open>A concrete pipe\<close>

text \<open>Process 0 runs with one user page; the pipe holds the bytes \<open>bs\<close>.\<close>

definition pipe_with :: "u8 list \<Rightarrow> pipe" where
  "pipe_with bs = fold pipe_put bs (zero_pipe\<lparr>pi_readopen := True, pi_writeopen := True\<rparr>)"

lemma pipe_put_flags [simp]: "pi_readopen (pipe_put b q) = pi_readopen q" "pi_writeopen (pipe_put b q) = pi_writeopen q"
  by (simp_all add: pipe_put_def)

lemma pipe_with_props:
  assumes "length bs \<le> PIPESIZE"
  shows "pipe_ok (pipe_with bs)" "pipe_items (pipe_with bs) = bs" "pi_readopen (pipe_with bs)"
proof -
  let ?z = "zero_pipe\<lparr>pi_readopen := True, pi_writeopen := True\<rparr>"
  have z: "pipe_ok ?z" "pipe_items ?z = []" by (simp_all add: pipe_ok_def pipe_items_def ring_items_def zero_pipe_def)
  then show "pipe_ok (pipe_with bs)" "pipe_items (pipe_with bs) = bs"
    using pq.enq_all [OF z(1), of bs] assms by (simp_all add: pipe_with_def)
  have "pi_readopen (fold pipe_put bs q) = pi_readopen q" for q by (induction bs arbitrary: q) simp_all
  then show "pi_readopen (pipe_with bs)" by (simp add: pipe_with_def)
qed

lemma pipe_sample:
  "\<exists>(s :: trapst) T ps. tables_ok s 2 0x87FFF000 T ps \<and> cur s = Some 0 \<and> unlocked_table s \<and> held s = [] \<and>
     p_killed (the_proc s 0) = 0 \<and> p_pagetable (the_proc s 0) = 0x87FFF000 \<and>
     data_range s 0x87FFF000 (T \<union> set ps) 5 3 \<and> pipes s = (\<lambda>_. pipe_with bs)"
proof -
  obtain v :: ptab and T ps where v: "tables_ok v 2 0x87FFF000 T ps"
      "T \<union> set ps \<subseteq> {0x87FFC000, 0x87FFD000, 0x87FFE000, 0x87FFF000}"
      "\<forall>x. uvm_lookup v 0x87FFF000 x = (if x < MAXVA \<and> PGROUNDDOWN x = 0 then sample_pte else 0)"
    using vm_sample_mapped by blast
  let ?s = "(user_sample 0 0 0)\<lparr>mem := mem v, freelist := freelist v, kend := kend v,
    procs := (replicate NPROC zero_proc)[0 := zero_proc\<lparr>p_state := RUNNING, p_pid := 1, p_pagetable := 0x87FFF000\<rparr>],
    pipes := (\<lambda>_. pipe_with bs)\<rparr>"
  have look: "uvm_lookup ?s pt x = uvm_lookup v pt x" for pt x by (simp add: uvm_lookup_def)
  have "tables_ok ?s 2 0x87FFF000 T ps" using v(1) by (simp add: tables_ok_def kpool_inv_def kmem_inv_def)
  moreover have "data_range ?s 0x87FFF000 (T \<union> set ps) 5 3"
  proof -
    have pg: "PGROUNDDOWN (5 + of_nat i) = 0" "5 + of_nat i < (MAXVA :: u64)" if "i < 3" for i :: nat
      using that by (auto simp: less_3 PGROUNDDOWN_def)
    have ua: "uaddr v 0x87FFF000 (5 + of_nat i) = 0x87FFB005 + of_nat i" if "i < 3" for i
      using pg [OF that] v(3) by (simp add: uaddr_def sample_pte_bits)
    have "user_mapped v 0x87FFF000 True (5 + of_nat i)" if "i < 3" for i
      using pg [OF that] v(3) by (simp add: user_mapped_def sample_pte_bits)
    moreover have "\<not> in_page a (0x87FFB005 + of_nat i)" if "i < 3" "a \<in> T \<union> set ps" for i a
      using that v(2) by (auto simp: in_page_def less_3)
    moreover have "inj_on (\<lambda>i. uaddr v 0x87FFF000 (5 + of_nat i)) {..<3}"
      by (rule inj_onI) (auto simp: ua less_3)
    ultimately have "data_range v 0x87FFF000 (T \<union> set ps) 5 3" by (simp add: data_range_def ua)
    then show ?thesis by (subst data_range_cong [OF look])
  qed
  moreover have "unlocked_table ?s" by (simp add: unlocked_table_def)
  ultimately show ?thesis by (intro exI [of _ ?s] exI [of _ T] exI [of _ ps]) (simp add: zero_proc_def)
qed

lemma pipewrite_appends_witness:
  "\<exists>(s :: trapst) t. pipewrite 0x80100000 5 3 s = Done 3 t \<and> length (pipe_items (pipes t 0x80100000)) = 5"
proof -
  obtain s :: trapst and T ps where s: "tables_ok s 2 0x87FFF000 T ps" "cur s = Some 0" "unlocked_table s" "held s = []"
     "p_killed (the_proc s 0) = 0" "p_pagetable (the_proc s 0) = 0x87FFF000"
     "data_range s 0x87FFF000 (T \<union> set ps) 5 3" "pipes s = (\<lambda>_. pipe_with [7, 8])"
    using pipe_sample by blast
  have "\<forall>j<3. user_mapped s 0x87FFF000 False (5 + of_nat j)"
    using s(7) by (simp add: data_range_def user_mapped_def)
  then have "\<exists>t. pipewrite 0x80100000 5 (int 3) s = Done (int 3) t \<and> pipe_ok (pipes t 0x80100000) \<and>
    pipe_items (pipes t 0x80100000) = pipe_items (pipes s 0x80100000) @
      map (\<lambda>j. umem s (p_pagetable (the_proc s 0)) (5 + of_nat j)) [0..<3] \<and>
    mem t = mem s \<and> held t = held s \<and> (\<forall>pj. pj \<noteq> 0x80100000 \<longrightarrow> pipes t pj = pipes s pj)"
    by (intro pipewrite_appends [of s 0 _ T ps]) (use s pipe_with_props [of "[7, 8]"] in simp_all)
  then obtain t where t: "pipewrite 0x80100000 5 3 s = Done 3 t" "pipe_items (pipes t 0x80100000) = [7, 8] @
      map (\<lambda>j. umem s (p_pagetable (the_proc s 0)) (5 + of_nat j)) [0..<3]"
    using s(8) pipe_with_props(2) [of "[7, 8]"] by fastforce
  show ?thesis by (intro exI [of _ s] exI [of _ t] conjI t(1)) (unfold t(2), simp)
qed

lemma piperead_delivers_witness:
  "\<exists>(s :: trapst) t. piperead 0x80100000 5 3 s = Done 2 t \<and> pipe_items (pipes t 0x80100000) = []"
proof -
  obtain s :: trapst and T ps where s: "tables_ok s 2 0x87FFF000 T ps" "cur s = Some 0" "unlocked_table s" "held s = []"
     "p_killed (the_proc s 0) = 0" "p_pagetable (the_proc s 0) = 0x87FFF000"
     "data_range s 0x87FFF000 (T \<union> set ps) 5 3" "pipes s = (\<lambda>_. pipe_with [7, 8])"
    using pipe_sample by blast
  have "\<exists>t. piperead 0x80100000 5 (int 3) s = Done (int 2) t \<and> pipe_ok (pipes t 0x80100000) \<and>
    pipe_items (pipes t 0x80100000) = drop 2 (pipe_items (pipes s 0x80100000)) \<and>
    stored_at s (p_pagetable (the_proc s 0)) 5 (take 2 (pipe_items (pipes s 0x80100000))) (s\<lparr>mem := mem t\<rparr>) \<and>
    held t = held s \<and> (\<forall>pj. pj \<noteq> 0x80100000 \<longrightarrow> pipes t pj = pipes s pj)"
    by (rule piperead_delivers [of s 0 _ T ps]) (use s pipe_with_props [of "[7, 8]"] in simp_all)
  then obtain t where t: "piperead 0x80100000 5 (int 3) s = Done (int 2) t"
      "pipe_items (pipes t 0x80100000) = drop 2 (pipe_items (pipes s 0x80100000))" by blast
  have "pipe_items (pipes s 0x80100000) = [7, 8]" using s(8) pipe_with_props(2) [of "[7, 8]"] by simp
  then show ?thesis using t by (intro exI [of _ s] exI [of _ t]) simp
qed

lemma piperead_bad_address_witness:
  "\<exists>(s :: trapst) t. piperead 0x80100000 (- 1) 3 s = Done 0 t \<and> pipe_items (pipes t 0x80100000) = [8]"
proof -
  obtain s :: trapst and T ps where s: "cur s = Some 0" "unlocked_table s" "held s = []" "pipes s = (\<lambda>_. pipe_with [7, 8])"
    using pipe_sample by blast
  have "\<exists>t. piperead 0x80100000 (- 1) 3 s = Done 0 t \<and> pipe_items (pipes t 0x80100000) = [8] \<and> mem t = mem s"
    by (rule piperead_bad_address_loses_byte [of s 0 _ 7]) (use s pipe_with_props [of "[7, 8]"] in \<open>simp_all add: MAXVA_def\<close>)
  then obtain t where t: "piperead 0x80100000 (- 1) 3 s = Done 0 t" "pipe_items (pipes t 0x80100000) = [8]" by blast
  show ?thesis by (intro exI [of _ s] exI [of _ t] conjI t)
qed

end
