(* ===== verification/Console_Line.thy ===== *)
theory Console_Line
  imports Pipe
begin

section \<open>The console is a line editor\<close>

text \<open>
  The bytes of \<open>cons.buf\<close> between \<open>r\<close> and \<open>w\<close> are lines a reader may take, those between \<open>w\<close> and \<open>e\<close> the
  line being typed. \<open>edit_key\<close> says what a key does to these two lists, without buffer and indices;
  \<open>consoleintr\<close> implements it and \<open>consoleread\<close> takes a line off the front of the first list.
  \<open>cons_ok\<close> is the well-formedness of the buffer: the indices are in order, at most \<open>INPUT_BUF_SIZE\<close> bytes
  apart, a full buffer is all committed (so that a reader can always make room), and the line being typed
  holds no newline.
\<close>

definition cons_items :: "'z consst_scheme \<Rightarrow> u8 list" where
  "cons_items s = ring_items INPUT_BUF_SIZE (cons_buf s) (cons_r s) (cons_w s)"

definition cons_edit :: "'z consst_scheme \<Rightarrow> u8 list" where
  "cons_edit s = ring_items INPUT_BUF_SIZE (cons_buf s) (cons_w s) (cons_e s)"

definition cons_ok :: "'z consst_scheme \<Rightarrow> bool" where
  "cons_ok s \<longleftrightarrow> length (cons_buf s) = INPUT_BUF_SIZE \<and> length (cons_items s) + length (cons_edit s) \<le> INPUT_BUF_SIZE \<and>
     (length (cons_items s) + length (cons_edit s) = INPUT_BUF_SIZE \<longrightarrow> cons_edit s = []) \<and> 10 \<notin> set (cons_edit s)"

text \<open>A key changes the committed bytes and the line: \<open>^P\<close>, \<open>^U\<close>, \<open>^H\<close> or delete, any other key.\<close>

definition edit_key :: "u8 \<Rightarrow> u8 list \<times> u8 list \<Rightarrow> u8 list \<times> u8 list" where
  "edit_key c = (\<lambda>(done, line).
     if c = 16 then (done, line)
     else if c = 21 then (done, [])
     else if c = 8 \<or> c = 0x7f then (done, butlast line)
     else if c = 0 \<or> INPUT_BUF_SIZE \<le> length done + length line then (done, line)
     else
       let c = (if c = 13 then 10 else c); line = line @ [c]
       in if c = 10 \<or> c = 4 \<or> length done + length line = INPUT_BUF_SIZE then (done @ line, []) else (done, line))"

subsection \<open>Rings in a row\<close>

lemma ring_items_empty [simp]: "ring_items N data w w = []"
  by (simp add: ring_items_def)

lemma ring_items_eq_Nil: "ring_items N data r w = [] \<longleftrightarrow> w = r"
  by (simp add: ring_items_def unat_eq_0)

lemma ring_dist:
  assumes "unat (w - r) + unat (e - w) < 2 ^ 32"
  shows "unat (e - r) = unat (w - r) + unat (e - w :: u32)"
proof -
  have "unat ((w - r) + (e - w)) = unat (w - r) + unat (e - w)"
    using assms by (subst unat_add_lem [THEN iffD1]) auto
  then show ?thesis by simp
qed

lemma ring_split:
  assumes "unat (w - r) + unat (e - w) < 2 ^ 32"
  shows "ring_items N data r e = ring_items N data r w @ ring_items N data w e"
proof -
  let ?k = "unat (w - r)" and ?m = "unat (e - w)"
  have "(of_nat ?k :: u32) = w - r" by simp
  then have "ring_items N data w e = map (\<lambda>i. data ! (unat (r + of_nat (?k + i)) mod N)) [0..<?m]"
    unfolding ring_items_def by (intro map_cong) (simp_all add: algebra_simps)
  also have "\<dots> = map (\<lambda>i. data ! (unat (r + of_nat i) mod N)) [?k..<?k + ?m]"
    by (rule nth_equalityI) simp_all
  finally show ?thesis
    unfolding ring_items_def ring_dist [OF assms] by (simp add: upt_add_eq_append [of 0])
qed

lemma ring_butlast:
  assumes "e \<noteq> w"
  shows "ring_items N data w (e - 1) = butlast (ring_items N data w e)" and "unat (e - 1 - w) = unat (e - w) - 1"
proof -
  have "0 < unat (e - w)" using assms by (simp add: unat_gt_0)
  then obtain k where k: "unat (e - w) = Suc k" by (cases "unat (e - w)") auto
  have e: "e - 1 - w = (e - w) - 1" by simp
  show s: "unat (e - 1 - w) = unat (e - w) - 1"
    unfolding e using k by (subst unat_sub) (simp_all add: word_le_nat_alt)
  show "ring_items N data w (e - 1) = butlast (ring_items N data w e)"
    unfolding ring_items_def s k by simp
qed

lemma ring_last:
  assumes "N dvd 2 ^ 32" and "e \<noteq> w"
  shows "data ! (unat (e - 1) mod N) \<in> set (ring_items N data w e)"
proof -
  have "w + of_nat (unat (e - 1 - w)) = e - 1" by simp
  moreover have "unat (e - 1 - w) < unat (e - w)"
    using ring_butlast(2) [OF assms(2)] assms(2) by (simp add: unat_gt_0)
  ultimately show ?thesis unfolding ring_items_def by (force simp: image_iff)
qed

lemma ring_put:
  assumes N: "N dvd 2 ^ 32" "N < 2 ^ 32" and len: "length data = N" and room: "unat (w - r) + unat (e - w) < N"
  shows "ring_items N (data[unat (e mod of_nat N) := b]) r w = ring_items N data r w"
    and "ring_items N (data[unat (e mod of_nat N) := b]) w (e + 1) = ring_items N data w e @ [b]"
proof -
  let ?d = "data[unat (e mod of_nat N) := b]"
  have lt: "unat (w - r) + unat (e - w) < 2 ^ 32" using room N(2) by linarith
  then have re: "unat (e - r) < N" using ring_dist [OF lt] room by simp
  show w: "ring_items N ?d w (e + 1) = ring_items N data w e @ [b]" by (rule ring_enq [OF N len]) (use room in linarith)
  have "unat (e + 1 - w) = Suc (unat (e - w))" by (rule ring_enq(2) [OF N len]) (use room in linarith)
  then have "ring_items N ?d r (e + 1) = ring_items N ?d r w @ ring_items N ?d w (e + 1)"
    by (intro ring_split) (use room N(2) in linarith)
  moreover have "ring_items N ?d r (e + 1) = ring_items N data r e @ [b]" by (rule ring_enq [OF N len re])
  ultimately show "ring_items N ?d r w = ring_items N data r w" using w ring_split [OF lt, of N data] by simp
qed

lemma kill_line_all:
  "10 \<notin> set (ring_items INPUT_BUF_SIZE buf w e) \<Longrightarrow> kill_line buf w e = (w, unat (e - w))"
proof (induction buf w e rule: kill_line.induct)
  case (1 buf w e)
  show ?case
  proof (cases "e = w")
    case True
    then show ?thesis by (subst kill_line.simps) simp
  next
    case False
    have d: "buf ! unat ((e - 1) mod of_nat INPUT_BUF_SIZE) \<noteq> 10"
      using ring_last [OF _ False, of INPUT_BUF_SIZE buf] 1(2) by (auto simp: unat_mod)
    have "10 \<notin> set (ring_items INPUT_BUF_SIZE buf w (e - 1))"
      unfolding ring_butlast(1) [OF False] using 1(2) by (auto dest: in_set_butlastD)
    then have "kill_line buf w (e - 1) = (w, unat (e - 1 - w))" using 1(1) False d by blast
    then show ?thesis
      using False d ring_butlast(2) [OF False] by (subst kill_line.simps) (simp add: unat_gt_0)
  qed
qed

subsection \<open>The interrupt handler\<close>

definition same_console :: "'z consst_scheme \<Rightarrow> 'z consst_scheme \<Rightarrow> bool" where
  "same_console s t \<longleftrightarrow> cons_buf t = cons_buf s \<and> cons_r t = cons_r s \<and> cons_w t = cons_w s \<and> cons_e t = cons_e s"

lemma same_console_lists:
  "same_console s t \<Longrightarrow> cons_items t = cons_items s \<and> cons_edit t = cons_edit s \<and> cons_ok t = cons_ok s"
  by (simp add: same_console_def cons_items_def cons_edit_def cons_ok_def)

text \<open>What the handler leaves alone while it edits.\<close>

definition intr_frame :: "'z consst_scheme \<Rightarrow> 'z consst_scheme \<Rightarrow> bool" where
  "intr_frame s t \<longleftrightarrow> held t = held s \<and> uart_in t = uart_in s \<and> mem t = mem s \<and> cur t = cur s \<and>
     (unlocked_table s \<longrightarrow> unlocked_table t)"

lemma intr_frame_refl [simp]: "intr_frame s s"
  by (simp add: intr_frame_def)

lemma consputc_frame [simp]:
  "cons_buf (consputc c s) = cons_buf s" "cons_r (consputc c s) = cons_r s" "cons_w (consputc c s) = cons_w s"
  "cons_e (consputc c s) = cons_e s" "held (consputc c s) = held s" "uart_in (consputc c s) = uart_in s"
  "mem (consputc c s) = mem s" "cur (consputc c s) = cur s" "procs (consputc c s) = procs s"
  by (simp_all add: consputc_def uartputc_sync_def kputs_def split: option.split)

lemma consputc_pow_frame [simp]:
  "cons_buf ((consputc c ^^ k) s) = cons_buf s" "cons_r ((consputc c ^^ k) s) = cons_r s"
  "cons_w ((consputc c ^^ k) s) = cons_w s" "cons_e ((consputc c ^^ k) s) = cons_e s"
  "held ((consputc c ^^ k) s) = held s" "uart_in ((consputc c ^^ k) s) = uart_in s"
  "mem ((consputc c ^^ k) s) = mem s" "cur ((consputc c ^^ k) s) = cur s" "procs ((consputc c ^^ k) s) = procs s"
  by (induction k) simp_all

lemma wake_all_console [simp]:
  "cons_buf (wake_all ch s) = cons_buf s" "cons_r (wake_all ch s) = cons_r s" "cons_w (wake_all ch s) = cons_w s"
  "cons_e (wake_all ch s) = cons_e s" "held (wake_all ch s) = held s" "uart_in (wake_all ch s) = uart_in s"
  "mem (wake_all ch s) = mem s" "cur (wake_all ch s) = cur s" "length (procs (wake_all ch s)) = length (procs s)"
  by (simp_all add: wake_all_def)

lemma procdump_prints:
  assumes "PrLock \<notin> set (held s)"
  shows "\<exists>txt. procdump s = Done () (kputs txt s)"
proof -
  have line: "\<exists>txt. procdump_line i t = Done () (kputs txt t)" if "PrLock \<notin> set (held t)" for i and t :: "'a ptab_scheme"
  proof (cases "p_state (the_proc t i) = UNUSED")
    case True
    then show ?thesis by (intro exI [of _ "[]"]) (simp add: procdump_line_def kputs_def)
  next
    case False
    then show ?thesis
      using that by (auto simp: procdump_line_def kprintf_eq reg_conv_def kputs_def)
  qed
  have "\<exists>txt. loop_all procdump_line is t = Done () (kputs txt t)" if "PrLock \<notin> set (held t)" for "is" and t :: "'a ptab_scheme"
    using that
  proof (induction "is" arbitrary: t)
    case Nil
    then show ?case by (intro exI [of _ "[]"]) (simp add: kputs_def)
  next
    case (Cons i "is")
    obtain a where a: "procdump_line i t = Done () (kputs a t)" using line [OF Cons.prems] by blast
    then obtain b where "loop_all procdump_line is (kputs a t) = Done () (kputs b (kputs a t))"
      using Cons.IH [of "kputs a t"] Cons.prems by auto
    with a show ?case by (intro exI [of _ "a @ b"]) (simp add: kputs_def)
  qed
  from this [of "kputs [CHR 0x0A] s"] assms obtain b where
    "loop_all procdump_line [0..<NPROC] (kputs [CHR 0x0A] s) = Done () (kputs b (kputs [CHR 0x0A] s))" by auto
  with assms show ?thesis
    by (intro exI [of _ "CHR 0x0A # b"]) (simp add: procdump_def kprintf_eq kputs_def)
qed

text \<open>A key stored at \<open>e\<close>.\<close>

lemma cons_store:
  assumes "cons_ok s" and "length (cons_items s) + length (cons_edit s) < INPUT_BUF_SIZE"
    and "cons_buf t = (cons_buf s)[unat (cons_e s mod of_nat INPUT_BUF_SIZE) := b]" and "cons_e t = cons_e s + 1"
    and "cons_r t = cons_r s" and "cons_w t = cons_w s"
  shows "cons_items t = cons_items s" and "cons_edit t = cons_edit s @ [b]" and "length (cons_buf t) = INPUT_BUF_SIZE"
    and "unat (cons_e t - cons_r t) = Suc (length (cons_items s) + length (cons_edit s))"
proof -
  have len: "length (cons_buf s) = INPUT_BUF_SIZE" using assms(1) by (simp add: cons_ok_def)
  have room: "unat (cons_w s - cons_r s) + unat (cons_e s - cons_w s) < INPUT_BUF_SIZE"
    using assms(2) by (simp add: cons_items_def cons_edit_def)
  have put: "ring_items INPUT_BUF_SIZE (cons_buf t) (cons_r s) (cons_w s) = cons_items s"
    "ring_items INPUT_BUF_SIZE (cons_buf t) (cons_w s) (cons_e s + 1) = cons_edit s @ [b]"
    unfolding assms(3) cons_items_def cons_edit_def by (rule ring_put; use len room in simp)+
  then show "cons_items t = cons_items s" "cons_edit t = cons_edit s @ [b]"
    using assms by (simp_all add: cons_items_def cons_edit_def)
  then have e: "unat (cons_e t - cons_w t) = Suc (length (cons_edit s))"
    using arg_cong [OF put(2), of length] assms by simp
  show "length (cons_buf t) = INPUT_BUF_SIZE" using len assms(3) by simp
  have "unat (cons_e t - cons_r t) = unat (cons_w t - cons_r t) + unat (cons_e t - cons_w t)"
    by (rule ring_dist) (use e room assms in \<open>simp add: cons_edit_def\<close>)
  then show "unat (cons_e t - cons_r t) = Suc (length (cons_items s) + length (cons_edit s))"
    using e assms by (simp add: cons_items_def)
qed

lemma cons_commit:
  assumes "length (cons_items s) + length (cons_edit s) \<le> INPUT_BUF_SIZE" and "length (cons_buf s) = INPUT_BUF_SIZE"
    and "cons_buf t = cons_buf s" and "cons_e t = cons_e s" and "cons_r t = cons_r s" and "cons_w t = cons_e s"
  shows "cons_items t = cons_items s @ cons_edit s" and "cons_edit t = []" and "cons_ok t"
proof -
  have "ring_items INPUT_BUF_SIZE (cons_buf s) (cons_r s) (cons_e s) = cons_items s @ cons_edit s"
    unfolding cons_items_def cons_edit_def
    by (rule ring_split) (use assms(1) in \<open>simp add: cons_items_def cons_edit_def\<close>)
  then show "cons_items t = cons_items s @ cons_edit s" "cons_edit t = []"
    using assms by (simp_all add: cons_items_def cons_edit_def)
  then show "cons_ok t" using assms by (simp add: cons_ok_def)
qed

lemma cons_free_iff:
  assumes "cons_ok s"
  shows "cons_e s - cons_r s < of_nat INPUT_BUF_SIZE \<longleftrightarrow> length (cons_items s) + length (cons_edit s) < INPUT_BUF_SIZE"
proof -
  have "unat (cons_e s - cons_r s) = unat (cons_w s - cons_r s) + unat (cons_e s - cons_w s)"
    by (rule ring_dist) (use assms in \<open>simp add: cons_ok_def cons_items_def cons_edit_def\<close>)
  then show ?thesis by (simp add: word_less_nat_alt cons_items_def cons_edit_def)
qed

lemma unlocked_frame [intro]:
  "unlocked_table s \<Longrightarrow> length (procs t) = length (procs s) \<Longrightarrow> held t = held s \<Longrightarrow> unlocked_table t"
  by (simp add: unlocked_table_def)

lemma consoleintr_default_edits:
  assumes ok: "cons_ok s" and tab: "unlocked_table s" and c: "c \<noteq> 16" "c \<noteq> 21" "c \<noteq> 8" "c \<noteq> 0x7f"
  shows "\<exists>t. consoleintr_default c s = Done () t \<and> cons_ok t \<and>
    (cons_items t, cons_edit t) = edit_key c (cons_items s, cons_edit s) \<and> intr_frame s t"
proof (cases "c \<noteq> 0 \<and> cons_e s - cons_r s < of_nat INPUT_BUF_SIZE")
  case False
  then have "c = 0 \<or> INPUT_BUF_SIZE \<le> length (cons_items s) + length (cons_edit s)" using cons_free_iff [OF ok] by auto
  moreover have "consoleintr_default c s = Done () s" using False by (auto simp: consoleintr_default_def)
  ultimately show ?thesis using ok c by (auto simp: edit_key_def)
next
  case True
  let ?c = "if c = 13 then 10 else c"
  let ?s = "(consputc (Some ?c) s)\<lparr>cons_buf := (cons_buf s)[unat (cons_e s mod of_nat INPUT_BUF_SIZE) := ?c],
    cons_e := cons_e s + 1\<rparr>"
  let ?w = "?s\<lparr>cons_w := cons_e ?s\<rparr>"
  have room: "length (cons_items s) + length (cons_edit s) < INPUT_BUF_SIZE" using True cons_free_iff [OF ok] by simp
  have st: "cons_items ?s = cons_items s" "cons_edit ?s = cons_edit s @ [?c]" "length (cons_buf ?s) = INPUT_BUF_SIZE"
    "unat (cons_e ?s - cons_r ?s) = Suc (length (cons_items s) + length (cons_edit s))"
    by (rule cons_store [OF ok room, of ?s ?c]; simp)+
  have full: "cons_e ?s - cons_r ?s = of_nat INPUT_BUF_SIZE \<longleftrightarrow> length (cons_items s) + length (cons_edit s @ [?c]) = INPUT_BUF_SIZE"
    using st(4) by (simp add: word_unat_eq_iff)
  have key: "edit_key c (cons_items s, cons_edit s) =
     (if ?c = 10 \<or> ?c = 4 \<or> length (cons_items s) + length (cons_edit s @ [?c]) = INPUT_BUF_SIZE
      then (cons_items s @ cons_edit s @ [?c], []) else (cons_items s, cons_edit s @ [?c]))"
    using True c room by (simp add: edit_key_def Let_def)
  have run: "consoleintr_default c s =
     (if ?c = 10 \<or> ?c = 4 \<or> cons_e ?s - cons_r ?s = of_nat INPUT_BUF_SIZE then wakeup (Some ChConsRead) ?w else Done () ?s)"
    using True by (simp add: consoleintr_default_def Let_def)
  show ?thesis
  proof (cases "?c = 10 \<or> ?c = 4 \<or> length (cons_items s) + length (cons_edit s @ [?c]) = INPUT_BUF_SIZE")
    case True
    let ?t = "wake_all (Some ChConsRead) ?w"
    have "unlocked_table ?w" using tab by (rule unlocked_frame) simp_all
    with True full have "consoleintr_default c s = Done () ?t" unfolding run by (simp add: wakeup_eq)
    moreover have "cons_items ?t = cons_items ?s @ cons_edit ?s" "cons_edit ?t = []" "cons_ok ?t"
      by (rule cons_commit [of ?s ?t]; use st room in simp)+
    moreover have "intr_frame s ?t" by (auto simp: intr_frame_def)
    ultimately show ?thesis using key True st by (intro exI [of _ ?t]) simp
  next
    case False
    moreover have "cons_ok ?s" using False room st(1-3) ok by (simp add: cons_ok_def)
    moreover have "intr_frame s ?s" by (auto simp: intr_frame_def)
    moreover have "consoleintr_default c s = Done () ?s" using False full unfolding run by simp
    ultimately show ?thesis using key st by (intro exI [of _ ?s]) simp
  qed
qed

lemma cons_erase:
  assumes "cons_ok s" and "cons_buf t = cons_buf s" and "cons_r t = cons_r s" and "cons_w t = cons_w s"
    and "cons_edit t = butlast (cons_edit s) \<or> cons_edit t = []"
  shows "cons_items t = cons_items s" and "cons_ok t"
proof -
  show i: "cons_items t = cons_items s" using assms by (simp add: cons_items_def)
  have "length (cons_edit t) \<le> length (cons_edit s)" "10 \<notin> set (cons_edit t)"
    using assms(1,5) by (auto simp: cons_ok_def dest: in_set_butlastD)
  then show "cons_ok t" using assms i by (auto simp: cons_ok_def)
qed

lemma consoleintr_edits:
  assumes ok: "cons_ok s" and tab: "unlocked_table s" and lk: "ConsLock \<notin> set (held s)" "PrLock \<notin> set (held s)"
  shows "\<exists>t. consoleintr c s = Done () t \<and> cons_ok t \<and>
    (cons_items t, cons_edit t) = edit_key c (cons_items s, cons_edit s) \<and> intr_frame s t"
proof -
  let ?s = "s\<lparr>held := ConsLock # held s\<rparr>"
  have s: "cons_ok ?s" "unlocked_table ?s" "cons_items ?s = cons_items s" "cons_edit ?s = cons_edit s"
    using ok tab by (simp_all add: cons_ok_def cons_items_def cons_edit_def unlocked_table_def)
  let ?f = "if c = 16 then procdump ?s
          else if c = 21 then
            (case kill_line (cons_buf ?s) (cons_w ?s) (cons_e ?s) of (e, k) \<Rightarrow>
               Done () ((consputc None ^^ k) ?s \<lparr>cons_e := e\<rparr>))
          else if c = 8 \<or> c = 0x7f then
            (if cons_e ?s \<noteq> cons_w ?s then Done () (consputc None (?s\<lparr>cons_e := cons_e ?s - 1\<rparr>)) else Done () ?s)
          else consoleintr_default c ?s"
  have "\<exists>t. ?f = Done () t \<and> cons_ok t \<and>
    (cons_items t, cons_edit t) = edit_key c (cons_items s, cons_edit s) \<and> intr_frame ?s t"
  proof (cases "c = 16 \<or> c = 21 \<or> c = 8 \<or> c = 0x7f")
    case False
    then show ?thesis using consoleintr_default_edits [OF s(1,2), of c] s(3,4) by simp
  next
    case True
    then consider "c = 16" | "c = 21" | "c \<noteq> 16" "c \<noteq> 21" "c = 8 \<or> c = 0x7f" by blast
    then show ?thesis
    proof cases
      case 1
      obtain msg where "procdump ?s = Done () (kputs msg ?s)" using procdump_prints [of ?s] lk by auto
      moreover have "same_console ?s (kputs msg ?s)" "intr_frame ?s (kputs msg ?s)"
        by (simp_all add: same_console_def intr_frame_def kputs_def unlocked_table_def)
      ultimately show ?thesis
        using 1 s same_console_lists [of ?s "kputs msg ?s"] by (intro exI [of _ "kputs msg ?s"]) (simp add: edit_key_def)
    next
      case 2
      let ?k = "unat (cons_e s - cons_w s)"
      let ?t = "(consputc None ^^ ?k) ?s\<lparr>cons_e := cons_w s\<rparr>"
      have "kill_line (cons_buf ?s) (cons_w ?s) (cons_e ?s) = (cons_w s, ?k)"
        using kill_line_all [of "cons_buf s" "cons_w s" "cons_e s"] ok by (simp add: cons_ok_def cons_edit_def)
      moreover have e: "cons_edit ?t = []" by (simp add: cons_edit_def)
      moreover have "cons_items ?t = cons_items ?s" "cons_ok ?t" by (rule cons_erase [OF s(1)]; use e in simp)+
      moreover have "intr_frame ?s ?t" by (auto simp: intr_frame_def)
      ultimately show ?thesis using 2 s by (intro exI [of _ ?t]) (simp add: edit_key_def)
    next
      case 3
      show ?thesis
      proof (cases "cons_e s = cons_w s")
        case True
        then have "cons_edit s = []" by (simp add: cons_edit_def)
        then show ?thesis using 3 True s by (intro exI [of _ ?s]) (auto simp: edit_key_def)
      next
        case False
        let ?t = "consputc None (?s\<lparr>cons_e := cons_e s - 1\<rparr>)"
        have e: "cons_edit ?t = butlast (cons_edit ?s)"
          using ring_butlast(1) [OF False] by (simp add: cons_edit_def)
        moreover have "cons_items ?t = cons_items ?s" "cons_ok ?t" by (rule cons_erase [OF s(1)]; use e in simp)+
        moreover have "intr_frame ?s ?t" by (auto simp: intr_frame_def)
        ultimately show ?thesis using 3 False s by (intro exI [of _ ?t]) (auto simp: edit_key_def)
      qed
    qed
  qed
  then obtain t where t: "?f = Done () t" "cons_ok t"
    "(cons_items t, cons_edit t) = edit_key c (cons_items s, cons_edit s)" "intr_frame ?s t" by blast
  let ?t = "t\<lparr>held := held s\<rparr>"
  have "consoleintr c s = Done () ?t"
    unfolding consoleintr_def acquire_free [OF lk(1)] bnd.simps t(1)
    using t(4) by (simp add: release_member intr_frame_def)
  moreover have "same_console t ?t" by (simp add: same_console_def)
  moreover have "intr_frame s ?t"
    using t(4) tab s(2) by (auto simp: intr_frame_def unlocked_table_def)
  ultimately show ?thesis using t same_console_lists by (intro exI [of _ ?t]) auto
qed

lemma uartintr_loop_edits:
  assumes "cons_ok s" and "unlocked_table s" and "ConsLock \<notin> set (held s)" and "PrLock \<notin> set (held s)"
    and "length (uart_in s) < n"
  shows "\<exists>t. uartintr_loop n s = Done () t \<and> cons_ok t \<and> uart_in t = [] \<and> held t = held s \<and>
    (cons_items t, cons_edit t) = fold edit_key (uart_in s) (cons_items s, cons_edit s)"
  using assms
proof (induction n arbitrary: s)
  case (Suc n)
  show ?case
  proof (cases "uart_in s")
    case Nil
    then show ?thesis using Suc.prems by (simp add: uartgetc_def)
  next
    case (Cons c cs)
    let ?s = "s\<lparr>uart_in := cs\<rparr>"
    have s: "cons_ok ?s" "unlocked_table ?s" "cons_items ?s = cons_items s" "cons_edit ?s = cons_edit s"
      using Suc.prems by (simp_all add: cons_ok_def cons_items_def cons_edit_def unlocked_table_def)
    obtain u where u: "consoleintr c ?s = Done () u" "cons_ok u"
      "(cons_items u, cons_edit u) = edit_key c (cons_items s, cons_edit s)" "intr_frame ?s u"
      using consoleintr_edits [OF s(1,2), of c] Suc.prems s(3,4) by auto
    have "held u = held s" "uart_in u = cs" "unlocked_table u" using u(4) s(2) by (simp_all add: intr_frame_def)
    then obtain t where "uartintr_loop n u = Done () t" "cons_ok t" "uart_in t = []" "held t = held u"
      "(cons_items t, cons_edit t) = fold edit_key cs (cons_items u, cons_edit u)"
      using Suc.IH [of u] Suc.prems u(2) Cons by auto
    then show ?thesis using u(1,3) \<open>held u = held s\<close> Cons by (intro exI [of _ t]) (simp add: uartgetc_def)
  qed
qed simp

text \<open>
  C20: the interrupt handler of the serial line edits the console line. For every sequence of bytes that has
  arrived, \<open>uartintr\<close> takes all of them, in order, and does to the committed bytes and to the line being
  typed what \<open>edit_key\<close> says: erase, kill, append, commit at a newline, at \<open>^D\<close> or when the buffer is full.
  The buffer stays well formed and no lock is left held.
\<close>
theorem uartintr_edits_line:
  assumes "cons_ok s" and "unlocked_table s" and "held s = []"
  shows "\<exists>t. uartintr idle s = Done () t \<and> cons_ok t \<and> uart_in t = [] \<and> held t = [] \<and>
    (cons_items t, cons_edit t) = fold edit_key (uart_in s) (cons_items s, cons_edit s)"
proof -
  let ?s = "s\<lparr>held := [TxLock]\<rparr>"
  obtain u where u: "(if idle then wakeup (Some ChUartTx) (?s\<lparr>tx_busy := False\<rparr>) else Done () ?s) = Done () u"
    "same_console s u" "held u = [TxLock]" "uart_in u = uart_in s" "unlocked_table u"
  proof (cases idle)
    case True
    have "unlocked_table (?s\<lparr>tx_busy := False\<rparr>)" using assms(2) by (simp add: unlocked_table_def)
    moreover from this have "unlocked_table (wake_all (Some ChUartTx) (?s\<lparr>tx_busy := False\<rparr>))"
      by (rule unlocked_frame) simp_all
    ultimately show ?thesis
      using True by (intro that [of "wake_all (Some ChUartTx) (?s\<lparr>tx_busy := False\<rparr>)"]) (simp_all add: wakeup_eq same_console_def)
  next
    case False
    then show ?thesis using assms(2) by (intro that [of ?s]) (simp_all add: same_console_def unlocked_table_def)
  qed
  let ?u = "u\<lparr>held := []\<rparr>"
  have su: "same_console s ?u" using u(2) by (simp add: same_console_def)
  have "unlocked_table ?u" using u(5) by (simp add: unlocked_table_def)
  then obtain t where t: "uartintr_loop (length (uart_in s) + 1) ?u = Done () t" "cons_ok t" "uart_in t = []" "held t = []"
      "(cons_items t, cons_edit t) = fold edit_key (uart_in s) (cons_items s, cons_edit s)"
    using uartintr_loop_edits [of ?u "length (uart_in s) + 1"] same_console_lists [OF su] assms(1) u(4) by auto
  have "uartintr idle s = uartintr_loop (length (uart_in s) + 1) ?u"
    using assms(3) u(1,3,4) by (simp add: uartintr_def acquire_free release_member del: uartintr_loop.simps)
  with t show ?thesis by (intro exI [of _ t]) simp
qed

subsection \<open>Reading\<close>

text \<open>What a read of at most \<open>n\<close> bytes delivers: up to a newline, up to \<open>^D\<close>, which is not delivered.\<close>

fun read_line :: "nat \<Rightarrow> u8 list \<Rightarrow> u8 list" where
  "read_line (Suc n) (c # cs) = (if c = 4 then [] else c # (if c = 10 then [] else read_line n cs))"
| "read_line _ _ = []"

text \<open>The bytes left: a \<open>^D\<close> is taken when nothing was delivered and stays otherwise.\<close>

definition after_line :: "bool \<Rightarrow> nat \<Rightarrow> u8 list \<Rightarrow> u8 list" where
  "after_line first n cs = (if first \<and> 0 < n \<and> cs \<noteq> [] \<and> hd cs = 4 then tl cs else drop (length (read_line n cs)) cs)"

definition line_ready :: "nat \<Rightarrow> u8 list \<Rightarrow> bool" where
  "line_ready n cs \<longleftrightarrow> n \<le> length cs \<or> 10 \<in> set cs \<or> 4 \<in> set cs"

lemma length_read_line: "length (read_line n cs) \<le> n"
  by (induction n cs rule: read_line.induct) auto

lemma cons_pop:
  assumes "cons_ok s" and "cons_items s = c # cs"
  shows "cons_buf s ! unat (cons_r s mod of_nat INPUT_BUF_SIZE) = c" and "cons_r s \<noteq> cons_w s"
    and "cons_items (s\<lparr>cons_r := cons_r s + 1\<rparr>) = cs" and "cons_ok (s\<lparr>cons_r := cons_r s + 1\<rparr>)"
proof -
  show ne: "cons_r s \<noteq> cons_w s" using assms(2) by (auto simp: cons_items_def)
  have d: "cons_items s = cons_buf s ! (unat (cons_r s) mod INPUT_BUF_SIZE) # ring_items INPUT_BUF_SIZE (cons_buf s) (cons_r s + 1) (cons_w s)"
    unfolding cons_items_def by (rule ring_deq) (use ne in simp)
  then show "cons_buf s ! unat (cons_r s mod of_nat INPUT_BUF_SIZE) = c" using assms(2) by (simp add: unat_mod)
  show i: "cons_items (s\<lparr>cons_r := cons_r s + 1\<rparr>) = cs" using d assms(2) by (simp add: cons_items_def)
  show "cons_ok (s\<lparr>cons_r := cons_r s + 1\<rparr>)"
    using assms i unfolding cons_ok_def by (simp add: cons_edit_def) 
qed

lemma cons_r_frame [simp]:
  "uvm_lookup (s\<lparr>cons_r := r\<rparr>) = uvm_lookup s" "uaddr (s\<lparr>cons_r := r\<rparr>) = uaddr s"
  "uvm_lookup (s\<lparr>cons_r := r, mem := m\<rparr>) = uvm_lookup (s\<lparr>mem := m\<rparr>)"
  by (simp_all add: uvm_lookup_def uaddr_def fun_eq_iff)

lemma stored_at_cons_r [simp]: "stored_at (s\<lparr>cons_r := r\<rparr>) pt va bs (s\<lparr>cons_r := r, mem := m\<rparr>) = stored_at s pt va bs (s\<lparr>mem := m\<rparr>)"
  by (simp add: stored_at_def)

lemma consoleread_loop_run:
  assumes "cur s = Some p" and "ConsLock \<in> set (held s)" and "cons_ok s" and "n \<le> target"
    and "tables_ok s 2 (p_pagetable (the_proc s p)) T ps"
    and "data_range s (p_pagetable (the_proc s p)) (T \<union> set ps) dst n" and "line_ready n (cons_items s)"
  shows "\<exists>m r. consoleread_loop True target dst n s = Done (int target - int n + int (length (read_line n (cons_items s))))
      (s\<lparr>mem := m, cons_r := r, held := remove1 ConsLock (held s)\<rparr>) \<and>
    stored_at s (p_pagetable (the_proc s p)) dst (read_line n (cons_items s)) (s\<lparr>mem := m\<rparr>) \<and>
    cons_items (s\<lparr>cons_r := r\<rparr>) = after_line (n = target) n (cons_items s) \<and> cons_ok (s\<lparr>cons_r := r\<rparr>)"
  using assms
proof (induction n arbitrary: s dst)
  case 0
  have "stored_at s pt dst [] (s\<lparr>mem := mem s\<rparr>)" for pt by simp
  then show ?case
    using 0 by (intro exI [of _ "mem s"] exI [of _ "cons_r s"]) (simp add: release_member after_line_def)
next
  case (Suc n)
  let ?pt = "p_pagetable (the_proc s p)"
  obtain c cs where i: "cons_items s = c # cs" using Suc.prems(7) by (cases "cons_items s") (auto simp: line_ready_def)
  let ?s = "s\<lparr>cons_r := cons_r s + 1\<rparr>"
  note pop = cons_pop [OF Suc.prems(3) i]
  show ?case
  proof (cases "c = 4")
    case True
    let ?r = "if Suc n < target then cons_r s else cons_r s + 1"
    have "stored_at s pt dst [] (s\<lparr>mem := mem s\<rparr>)" for pt by simp
    then show ?thesis
      using Suc.prems True i pop
      by (intro exI [of _ "mem s"] exI [of _ ?r]) (auto simp: Let_def release_member after_line_def)
  next
    case c4: False
    have dr: "data_range ?s ?pt (T \<union> set ps) dst (Suc n)"
      using Suc.prems(6) by (subst data_range_cong [of ?s ?pt s]) simp_all
    have tab: "tables_ok ?s 2 ?pt T ps" using Suc.prems(5) by (simp add: tables_ok_def kpool_inv_def kmem_inv_def)
    obtain m where m: "copyout ?pt dst [c] 1 ?s = Done 0 (?s\<lparr>mem := m\<rparr>)"
        "stored_at ?s ?pt dst [c] (?s\<lparr>mem := m\<rparr>)" "tables_ok (?s\<lparr>mem := m\<rparr>) 2 ?pt T ps"
        "\<forall>x. uvm_lookup (?s\<lparr>mem := m\<rparr>) ?pt x = uvm_lookup ?s ?pt x"
      using copyout_byte [OF tab dr, of c] by auto
    let ?t = "?s\<lparr>mem := m\<rparr>"
    have step: "consoleread_loop True target dst (Suc n) s =
       (if c = 10 then bnd (release ConsLock ?t) (\<lambda>_ s. Done (int target - int n) s) else consoleread_loop True target (dst + 1) n ?t)"
      using Suc.prems(1) pop(1,2) m(1) c4 by (simp add: Let_def either_copyout_def)
    show ?thesis
    proof (cases "c = 10")
      case True
      have "stored_at s ?pt dst [c] (s\<lparr>mem := m\<rparr>)" using m(2) by simp
      then show ?thesis
        using step True i pop(3,4) Suc.prems(2)
        by (intro exI [of _ m] exI [of _ "cons_r s + 1"]) (simp add: release_member after_line_def)
    next
      case False
      have t: "cons_items ?t = cs" "cons_ok ?t"
        using pop(3,4) by (simp_all add: cons_items_def cons_ok_def cons_edit_def)
      have look: "\<And>x. uvm_lookup ?t ?pt x = uvm_lookup s ?pt x" using m(4) by simp
      have "data_range s ?pt (T \<union> set ps) (dst + 1) n" using data_range_shift [OF Suc.prems(6), of 1] by simp
      then have "data_range ?t ?pt (T \<union> set ps) (dst + 1) n" by (subst data_range_cong [OF look])
      moreover have "line_ready n (cons_items ?t)" using Suc.prems(7) i t(1) c4 False by (auto simp: line_ready_def)
      ultimately obtain m' r where r: "consoleread_loop True target (dst + 1) n ?t = Done (int target - int n + int (length (read_line n cs)))
          (?t\<lparr>mem := m', cons_r := r, held := remove1 ConsLock (held s)\<rparr>)"
          "stored_at ?t ?pt (dst + 1) (read_line n cs) (?t\<lparr>mem := m'\<rparr>)"
          "cons_items (?t\<lparr>cons_r := r\<rparr>) = after_line (n = target) n cs" "cons_ok (?t\<lparr>cons_r := r\<rparr>)"
        using Suc.IH [of ?t "dst + 1"] Suc.prems(1,2,4) m(3) t by auto
      have "data_range ?s ?pt (T \<union> set ps) dst (length [c] + length (read_line n cs))"
        using dr length_read_line [of n cs] by (auto simp: data_range_def elim: inj_on_subset)
      then have "stored_at ?s ?pt dst ([c] @ read_line n cs) (?t\<lparr>mem := m'\<rparr>)"
        using m(2,4) r(2) by (intro stored_at_trans) auto
      then have "stored_at s ?pt dst (read_line (Suc n) (c # cs)) (s\<lparr>mem := m'\<rparr>)"
        using c4 False by simp
      moreover have "after_line (n = target) n cs = after_line (Suc n = target) (Suc n) (c # cs)"
        using c4 False Suc.prems(4) by (simp add: after_line_def)
      ultimately show ?thesis
        using step r(1,3,4) i c4 False
        by (intro exI [of _ m'] exI [of _ r]) (simp add: cons_items_def cons_ok_def cons_edit_def)
    qed
  qed
qed

text \<open>
  \<open>consoleread\<close> delivers a line. When the committed bytes hold a newline, a \<open>^D\<close> or enough bytes, a read
  of \<open>n\<close> bytes returns without sleeping; it has stored exactly the bytes of \<open>read_line\<close> in the user's buffer
  and taken them out of the console, and a \<open>^D\<close> that ended a non-empty read is left for the next one, which
  returns 0. The line being typed is untouched and the buffer stays well formed.
\<close>
lemma consoleread_delivers_line:
  assumes "cur s = Some p" and "ConsLock \<notin> set (held s)" and "cons_ok s"
    and "tables_ok s 2 (p_pagetable (the_proc s p)) T ps"
    and "data_range s (p_pagetable (the_proc s p)) (T \<union> set ps) dst n" and "line_ready n (cons_items s)"
  shows "\<exists>t. consoleread True dst (int n) s = Done (int (length (read_line n (cons_items s)))) t \<and> cons_ok t \<and>
    stored_at s (p_pagetable (the_proc s p)) dst (read_line n (cons_items s)) (s\<lparr>mem := mem t\<rparr>) \<and>
    cons_items t = after_line True n (cons_items s) \<and> cons_edit t = cons_edit s \<and> held t = held s"
proof (cases "n = 0")
  case True
  have "stored_at s pt dst [] (s\<lparr>mem := mem s\<rparr>)" for pt by simp
  then show ?thesis
    using True assms(2,3) by (simp add: consoleread_def acquire_free release_head after_line_def)
next
  case False
  let ?s = "s\<lparr>held := ConsLock # held s\<rparr>"
  have ua: "uaddr ?s = uaddr s" "user_mapped ?s = user_mapped s"
    by (simp_all add: uaddr_def user_mapped_def uvm_lookup_def fun_eq_iff)
  have "cons_ok ?s" "cons_items ?s = cons_items s"
    using assms(3) by (simp_all add: cons_ok_def cons_items_def cons_edit_def)
  moreover have "tables_ok ?s 2 (p_pagetable (the_proc ?s p)) T ps"
    using assms(4) by (simp add: tables_ok_def kpool_inv_def kmem_inv_def)
  moreover have "data_range ?s (p_pagetable (the_proc ?s p)) (T \<union> set ps) dst n"
    using assms(5) by (simp add: data_range_def ua)
  ultimately obtain m r where r: "consoleread_loop True n dst n ?s = Done (int (length (read_line n (cons_items s))))
      (s\<lparr>mem := m, cons_r := r, held := held s\<rparr>)"
      "stored_at ?s (p_pagetable (the_proc s p)) dst (read_line n (cons_items s)) (?s\<lparr>mem := m\<rparr>)"
      "cons_items (?s\<lparr>cons_r := r\<rparr>) = after_line True n (cons_items s)" "cons_ok (?s\<lparr>cons_r := r\<rparr>)"
    using consoleread_loop_run [of ?s p n n T ps dst] assms(1,6) by auto
  let ?t = "s\<lparr>mem := m, cons_r := r, held := held s\<rparr>"
  have "consoleread True dst (int n) s = Done (int (length (read_line n (cons_items s)))) ?t"
    using False r(1) assms(2) by (simp add: consoleread_def acquire_free)
  moreover have "stored_at s (p_pagetable (the_proc s p)) dst (read_line n (cons_items s)) (s\<lparr>mem := mem ?t\<rparr>)"
    using r(2) by (simp add: stored_at_def ua)
  moreover have "cons_items ?t = after_line True n (cons_items s)" "cons_ok ?t" "cons_edit ?t = cons_edit s"
    using r(3,4) by (simp_all add: cons_items_def cons_edit_def cons_ok_def)
  ultimately show ?thesis by (intro exI [of _ ?t]) simp
qed

subsection \<open>A concrete console\<close>

text \<open>The keys \<open>h\<close>, \<open>x\<close>, backspace, \<open>i\<close>, return, \<open>y\<close> arrive at an idle console.\<close>

lemma uartintr_edits_line_witness:
  "\<exists>t. uartintr True ((user_sample 0 0 0)\<lparr>uart_in := [104, 120, 8, 105, 13, 121]\<rparr>) = Done () t \<and>
     cons_items t = [104, 105, 10] \<and> cons_edit t = [121]"
proof -
  let ?s = "(user_sample 0 0 0)\<lparr>uart_in := [104, 120, 8, 105, 13, 121]\<rparr>"
  have i: "cons_items ?s = []" "cons_edit ?s = []" "length (cons_buf ?s) = INPUT_BUF_SIZE"
    by (simp_all add: cons_items_def cons_edit_def user_sample_def sample_defs)
  then have "cons_ok ?s" by (simp add: cons_ok_def)
  moreover have "unlocked_table ?s" "held ?s = []" by (simp_all add: unlocked_table_def)
  ultimately obtain t where "uartintr True ?s = Done () t"
      "(cons_items t, cons_edit t) = fold edit_key (uart_in ?s) (cons_items ?s, cons_edit ?s)"
    using uartintr_edits_line [of ?s True] by blast
  then show ?thesis using i by (intro exI [of _ t]) (simp add: edit_key_def)
qed

lemma consoleread_delivers_line_witness:
  "\<exists>(s :: trapst) t. consoleread True 5 3 s = Done 2 t \<and> cons_items t = [121]"
proof -
  obtain v :: trapst and T ps where v: "tables_ok v 2 0x87FFF000 T ps" "cur v = Some 0" "held v = []"
     "p_pagetable (the_proc v 0) = 0x87FFF000" "data_range v 0x87FFF000 (T \<union> set ps) 5 3"
    using pipe_sample by blast
  let ?s = "v\<lparr>cons_buf := 105 # 10 # 121 # replicate 125 0, cons_r := 0, cons_w := 3, cons_e := 3\<rparr>"
  have i: "cons_items ?s = [105, 10, 121]" "cons_edit ?s = []"
    by (simp_all add: cons_items_def cons_edit_def ring_items_def upt_conv_Cons)
  have look: "uvm_lookup ?s pt x = uvm_lookup v pt x" for pt x by (simp add: uvm_lookup_def)
  have "tables_ok ?s 2 (p_pagetable (the_proc ?s 0)) T ps" using v(1,4) by (simp add: tables_ok_def kpool_inv_def kmem_inv_def)
  moreover have "data_range ?s (p_pagetable (the_proc ?s 0)) (T \<union> set ps) 5 3"
    using v(4,5) by (subst data_range_cong [OF look]) simp
  moreover have "cons_ok ?s" using i by (simp add: cons_ok_def)
  ultimately obtain t where t: "consoleread True 5 (int 3) ?s = Done (int (length (read_line 3 (cons_items ?s)))) t"
      "cons_items t = after_line True 3 (cons_items ?s)"
    using consoleread_delivers_line [of ?s 0 T ps 5 3] v(2,3) i by (auto simp: line_ready_def)
  have r: "read_line 3 [105, 10, 121] = [105, 10]" by (simp add: numeral_3_eq_3)
  then show ?thesis using t i by (intro exI [of _ ?s] exI [of _ t]) (simp add: after_line_def)
qed

end
