(* ===== verification/Disk.thy ===== *)
theory Disk
  imports Samples
begin

section \<open>Disk requests\<close>

text \<open>
  The driver of \<open>virtio_disk.c\<close> follows chains of descriptors and sleeps until the device has answered.
  Freeing a chain ends for every contents of the descriptor table, because a descriptor that is free already
  makes \<open>free_desc\<close> panic; a request posted by \<open>virtio_disk_rw\<close> is answered by the interrupt handler and
  gives its three descriptors back.
\<close>

subsection \<open>Freeing a chain\<close>

definition freed :: "nat \<Rightarrow> 'z virtst_scheme \<Rightarrow> 'z virtst_scheme" where
  "freed i s = wake_all (Some ChDiskFree) ((upd_desc i (\<lambda>_. zero_desc) s)\<lparr>vd_free := (vd_free s)[i := True]\<rparr>)"

lemma wake_all_disk [simp]:
  "vd_free (wake_all ch s) = vd_free s" "vd_desc (wake_all ch s) = vd_desc s" "vd_status (wake_all ch s) = vd_status s"
  "vd_used (wake_all ch s) = vd_used s" "vd_info_b (wake_all ch s) = vd_info_b s" "vd_ops (wake_all ch s) = vd_ops s"
  "vd_used_idx (wake_all ch s) = vd_used_idx s" "vd_used_dev (wake_all ch s) = vd_used_dev s"
  "vd_avail (wake_all ch s) = vd_avail s" "vd_avail_idx (wake_all ch s) = vd_avail_idx s" "vd_notified (wake_all ch s) = vd_notified s"
  "vd_desc_pa (wake_all ch s) = vd_desc_pa s" "vd_avail_pa (wake_all ch s) = vd_avail_pa s"
  "vd_used_pa (wake_all ch s) = vd_used_pa s" "mmio (wake_all ch s) = mmio s"
  "bufs (wake_all ch s) = bufs s" "held (wake_all ch s) = held s" "cur (wake_all ch s) = cur s"
  by (simp_all add: wake_all_def)

lemma freed_frame [simp]:
  "vd_free (freed i s) = (vd_free s)[i := True]" "vd_desc (freed i s) = (vd_desc s)[i := zero_desc]"
  "held (freed i s) = held s" "cur (freed i s) = cur s" "bufs (freed i s) = bufs s" "vd_info_b (freed i s) = vd_info_b s"
  "unlocked_table (freed i s) = unlocked_table s"
  by (simp_all add: freed_def upd_desc_def unlocked_table_def wake_all_def)

lemma free_desc_eq:
  assumes "unlocked_table s" and "i < NUM" and "\<not> vd_free s ! i"
  shows "free_desc i s = Done () (freed i s)"
proof -
  have "unlocked_table ((upd_desc i (\<lambda>_. zero_desc) s)\<lparr>vd_free := (vd_free s)[i := True]\<rparr>)"
    using assms(1) by (simp add: unlocked_table_def upd_desc_def)
  then show ?thesis using assms(2,3) by (simp add: free_desc_def freed_def wakeup_eq)
qed

definition in_use :: "'z virtst_scheme \<Rightarrow> nat" where
  "in_use s = length (filter Not (vd_free s))"

lemma in_use_freed:
  assumes "i < length (vd_free s)" and "\<not> vd_free s ! i"
  shows "Suc (in_use (freed i s)) = in_use s"
proof -
  let ?l = "vd_free s"
  have "?l = take i ?l @ False # drop (Suc i) ?l" using assms id_take_nth_drop [OF assms(1)] by simp
  from arg_cong [OF this, of "\<lambda>l. length (filter Not l)"]
  have "in_use s = length (filter Not (take i ?l)) + Suc (length (filter Not (drop (Suc i) ?l)))"
    by (simp only: in_use_def filter_append length_append filter.simps not_False_eq_True if_True list.size)
  then show ?thesis using assms(1) by (simp add: in_use_def upd_conv_take_nth_drop)
qed

lemma free_chain_from_returns:
  assumes "unlocked_table s" and "length (vd_free s) = NUM" and "in_use s < n"
  shows "(\<exists>t. free_chain_from n i s = Done () t \<and> held t = held s \<and> in_use t < in_use s) \<or>
    (\<exists>msg. free_chain_from n i s = Panic msg)"
  using assms
proof (induction n arbitrary: i s)
  case (Suc n)
  let ?nxt = "unat (d_next (vd_desc s ! i))"
  show ?case
  proof (cases "i < NUM \<and> \<not> vd_free s ! i")
    case False
    then have "\<exists>msg. free_desc i s = Panic msg" by (auto simp: free_desc_def)
    then show ?thesis by (auto simp: Let_def)
  next
    case True
    then have f: "free_desc i s = Done () (freed i s)" using Suc.prems(1) by (simp add: free_desc_eq)
    have less: "Suc (in_use (freed i s)) = in_use s" using True Suc.prems(2) by (simp add: in_use_freed)
    have "(\<exists>t. free_chain_from n ?nxt (freed i s) = Done () t \<and> held t = held s \<and> in_use t < in_use (freed i s)) \<or>
      (\<exists>msg. free_chain_from n ?nxt (freed i s) = Panic msg)"
      using Suc.IH [of "freed i s" ?nxt] Suc.prems less by simp
    then show ?thesis using f less by (cases "d_flags (vd_desc s ! i) AND VRING_DESC_F_NEXT \<noteq> 0") (auto simp: Let_def)
  qed
qed simp

text \<open>
  \<open>free_chain\<close> ends. Whatever the descriptor table holds, a chain that runs into itself or out of the
  table included, the loop ends: it returns, with fewer descriptors in use and the locks as they were, or it
  panics because a descriptor is free already or out of range. So the fuel \<open>NUM + 1\<close> is never used up.
\<close>
lemma free_chain_terminates:
  assumes "unlocked_table s" and "length (vd_free s) = NUM"
  shows "(\<exists>t. free_chain i s = Done () t \<and> held t = held s \<and> in_use t < in_use s) \<or> (\<exists>msg. free_chain i s = Panic msg)"
proof -
  have "in_use s \<le> NUM" using assms(2) unfolding in_use_def by (metis length_filter_le)
  then show ?thesis unfolding free_chain_def using assms by (intro free_chain_from_returns) simp_all
qed

text \<open>A chain of two descriptors that ends in a third one is freed.\<close>

lemma free_chain_three:
  assumes "unlocked_table s" and "i0 < NUM" "i1 < NUM" "i2 < NUM" and "i0 \<noteq> i1" "i0 \<noteq> i2" "i1 \<noteq> i2"
    and "\<not> vd_free s ! i0" "\<not> vd_free s ! i1" "\<not> vd_free s ! i2"
    and "d_flags (vd_desc s ! i0) AND VRING_DESC_F_NEXT \<noteq> 0" and "d_next (vd_desc s ! i0) = of_nat i1"
    and "d_flags (vd_desc s ! i1) AND VRING_DESC_F_NEXT \<noteq> 0" and "d_next (vd_desc s ! i1) = of_nat i2"
    and "d_flags (vd_desc s ! i2) AND VRING_DESC_F_NEXT = 0"
  shows "free_chain i0 s = Done () (freed i2 (freed i1 (freed i0 s)))"
proof -
  have n: "unat (of_nat i1 :: u16) = i1" "unat (of_nat i2 :: u16) = i2" using assms(3,4) by (simp_all add: unat_of_nat)
  show ?thesis
    using assms n by (simp add: free_chain_def Let_def free_desc_eq eval_nat_numeral)
qed

subsection \<open>Taking descriptors\<close>

lemma in_use_taken:
  assumes "i < length l" and "l ! i"
  shows "length (filter Not (l[i := False])) = Suc (length (filter Not l))"
proof -
  have "l = take i l @ True # drop (Suc i) l" using assms id_take_nth_drop [OF assms(1)] by simp
  from arg_cong [OF this, of "\<lambda>l. length (filter Not l)"]
  have "length (filter Not l) = length (filter Not (take i l)) + length (filter Not (drop (Suc i) l))"
    by (simp only: filter_append length_append filter.simps not_True_eq_False if_False list.size)
  then show ?thesis using assms(1) by (simp add: upd_conv_take_nth_drop)
qed

lemma alloc_desc_takes:
  assumes "length (vd_free s) = NUM" and "in_use s < NUM"
  shows "\<exists>i < NUM. vd_free s ! i \<and> alloc_desc s = (Some i, s\<lparr>vd_free := (vd_free s)[i := False]\<rparr>)"
proof (cases "find (\<lambda>i. vd_free s ! i) [0..<NUM]")
  case None
  then have "\<forall>i < NUM. \<not> vd_free s ! i" by (auto simp: find_None_iff)
  then have "filter Not (vd_free s) = vd_free s" using assms(1) by (intro filter_True) (metis in_set_conv_nth)
  then show ?thesis using assms by (simp add: in_use_def)
next
  case (Some i)
  then have "i < NUM" "vd_free s ! i" by (auto simp: find_Some_iff)
  then show ?thesis using Some by (auto simp: alloc_desc_def)
qed

lemma alloc3_desc_takes:
  assumes len: "length (vd_free s) = NUM" and room: "in_use s + 3 \<le> NUM"
  shows "\<exists>i0 i1 i2. i0 < NUM \<and> i1 < NUM \<and> i2 < NUM \<and> i0 \<noteq> i1 \<and> i0 \<noteq> i2 \<and> i1 \<noteq> i2 \<and>
    vd_free s ! i0 \<and> vd_free s ! i1 \<and> vd_free s ! i2 \<and>
    alloc3_desc s = Done (Some [i0, i1, i2]) (s\<lparr>vd_free := (vd_free s)[i0 := False, i1 := False, i2 := False]\<rparr>)"
proof -
  have "in_use s < NUM" using room by simp
  then obtain i0 where i0: "i0 < NUM" "vd_free s ! i0" "alloc_desc s = (Some i0, s\<lparr>vd_free := (vd_free s)[i0 := False]\<rparr>)"
    using alloc_desc_takes [OF len] by blast
  let ?a = "s\<lparr>vd_free := (vd_free s)[i0 := False]\<rparr>"
  have a: "length (vd_free ?a) = NUM" "in_use ?a = Suc (in_use s)"
    using len i0 in_use_taken [of i0 "vd_free s"] by (simp_all add: in_use_def)
  then obtain i1 where i1: "i1 < NUM" "vd_free ?a ! i1" "alloc_desc ?a = (Some i1, ?a\<lparr>vd_free := (vd_free ?a)[i1 := False]\<rparr>)"
    using alloc_desc_takes [OF a(1)] room by auto
  let ?b = "s\<lparr>vd_free := (vd_free s)[i0 := False, i1 := False]\<rparr>"
  have b: "length (vd_free ?b) = NUM" "in_use ?b = Suc (in_use ?a)"
    using len i1 in_use_taken [of i1 "vd_free ?a"] by (simp_all add: in_use_def)
  then obtain i2 where i2: "i2 < NUM" "vd_free ?b ! i2" "alloc_desc ?b = (Some i2, ?b\<lparr>vd_free := (vd_free ?b)[i2 := False]\<rparr>)"
    using alloc_desc_takes [OF b(1)] room a(2) by auto
  have "i0 \<noteq> i1" using i1(2) i0(1) len by auto
  moreover have "i0 \<noteq> i2" "i1 \<noteq> i2" using i2(2) i0(1) i1(1) len by (auto simp: nth_list_update split: if_splits)
  moreover have "vd_free s ! i1" using i1(2) \<open>i0 \<noteq> i1\<close> by simp
  moreover have "vd_free s ! i2" using i2(2) \<open>i0 \<noteq> i2\<close> \<open>i1 \<noteq> i2\<close> by simp
  moreover have "alloc3_desc s = Done (Some [i0, i1, i2]) (s\<lparr>vd_free := (vd_free s)[i0 := False, i1 := False, i2 := False]\<rparr>)"
  proof -
    have "alloc_desc ?a = (Some i1, ?b)" "alloc_desc ?b = (Some i2, s\<lparr>vd_free := (vd_free s)[i0 := False, i1 := False, i2 := False]\<rparr>)"
      using i1(3) i2(3) by simp_all
    then show ?thesis by (simp only: alloc3_desc_def numeral_3_eq_3 alloc_descs.simps i0(3) prod.case option.case append.simps)
  qed
  ultimately show ?thesis using i0(1,2) i1(1) i2(1) by blast
qed

subsection \<open>What the device does\<close>

text \<open>
  The device is no code of this repository; it is the function \<open>dev\<close>. What the driver relies on is the
  documented behaviour of a virtio block device (the specification \<open>virtio.h\<close> names, sections 2.6, 4.2 and
  5.2). The device works on a queue that the driver has announced (\<open>queue_live\<close>: size, addresses, ready,
  \<open>DRIVER_OK\<close>) and on requests it has been notified of. A request is a chain of three descriptors: a header of
  16 bytes the device may read; data in whole sectors of 512 bytes, which the device may write if and only if
  the header asks for a read; and one byte of status, which the device may write. The sectors must lie on
  the disk, which has \<open>cap\<close> of them. The device then moves as many bytes as the data descriptor says between
  the memory and the disk, from the first byte of the sector on, writes 0 to the status, puts the head of
  the chain into the ring of completions and increments its index. Of any other state nothing is assumed.
\<close>

definition queue_live :: "'z virtst_scheme \<Rightarrow> bool" where
  "queue_live s \<longleftrightarrow>
     {(0x038, of_nat NUM), (0x080, ucast (vd_desc_pa s)), (0x084, ucast (drop_bit 32 (vd_desc_pa s))),
      (0x090, ucast (vd_avail_pa s)), (0x094, ucast (drop_bit 32 (vd_avail_pa s))),
      (0x0a0, ucast (vd_used_pa s)), (0x0a4, ucast (drop_bit 32 (vd_used_pa s))), (0x044, 1)} \<subseteq> set (mmio s) \<and>
     (\<exists>v. (0x070, v) \<in> set (mmio s) \<and> v AND 4 \<noteq> 0)"

text \<open>The first request without an answer, and its descriptors.\<close>

definition request_head :: "'z virtst_scheme \<Rightarrow> nat" where
  "request_head s = unat (vd_avail s ! unat (vd_used_dev s mod of_nat NUM))"

primrec chain_descs :: "nat \<Rightarrow> 'z virtst_scheme \<Rightarrow> nat \<Rightarrow> vdesc list" where
  "chain_descs 0 s i = []"
| "chain_descs (Suc n) s i = vd_desc s ! i #
     (if d_flags (vd_desc s ! i) AND VRING_DESC_F_NEXT \<noteq> 0 then chain_descs n s (unat (d_next (vd_desc s ! i))) else [])"

abbreviation device_writes :: "vdesc \<Rightarrow> bool" where
  "device_writes x \<equiv> d_flags x AND VRING_DESC_F_WRITE \<noteq> 0"

definition block_request :: "nat \<Rightarrow> 'z virtst_scheme \<Rightarrow> nat \<Rightarrow> nat \<Rightarrow> nat \<Rightarrow> nat \<Rightarrow> bool" where
  "block_request cap s k b len j \<longleftrightarrow> (\<exists>h x y. chain_descs NUM s (request_head s) = [h, x, y] \<and>
     d_addr h = DmaOps k \<and> d_len h = 16 \<and> \<not> device_writes h \<and>
     d_addr x = DmaData b \<and> unat (d_len x) = len \<and> 512 dvd len \<and> 0 < len \<and> len \<le> BSIZE \<and>
     d_addr y = DmaStatus j \<and> d_len y = 1 \<and> device_writes y \<and>
     (q_type (vd_ops s ! k) = VIRTIO_BLK_T_IN \<and> device_writes x \<or>
      q_type (vd_ops s ! k) = VIRTIO_BLK_T_OUT \<and> \<not> device_writes x) \<and>
     unat (q_sector (vd_ops s ! k)) + len div 512 \<le> cap)"

text \<open>Bytes of the disk, from byte \<open>a\<close> on, \<open>len\<close> of them.\<close>

definition disk_get :: "nat \<Rightarrow> nat \<Rightarrow> (u32 \<Rightarrow> block) \<Rightarrow> block \<Rightarrow> block" where
  "disk_get a len d data = (\<lambda>i. if i < len then d (of_nat ((a + i) div BSIZE)) ((a + i) mod BSIZE) else data i)"

definition disk_put :: "nat \<Rightarrow> nat \<Rightarrow> block \<Rightarrow> (u32 \<Rightarrow> block) \<Rightarrow> u32 \<Rightarrow> block" where
  "disk_put a len data d = (\<lambda>n i. let x = unat n * BSIZE + i in
     if i < BSIZE \<and> a \<le> x \<and> x < a + len then data (x - a) else d n i)"

text \<open>\<open>disk_writes\<close> gets an entry for every block that is written to, with its new content.\<close>

definition carried_out :: "nat \<Rightarrow> nat \<Rightarrow> nat \<Rightarrow> 'z virtst_scheme \<Rightarrow> 'z virtst_scheme" where
  "carried_out k b len s =
     (let a = 512 * unat (q_sector (vd_ops s ! k)) in
      if q_type (vd_ops s ! k) = VIRTIO_BLK_T_OUT then
        let d = disk_put a len (b_data (bufs s ! b)) (disk s) in
        s\<lparr>disk := d, disk_writes := disk_writes s @
          map (\<lambda>n. (of_nat n, d (of_nat n))) [a div BSIZE ..< (a + len + BSIZE - 1) div BSIZE]\<rparr>
      else upd_buf b (\<lambda>x. x\<lparr>b_data := disk_get a len (disk s) (b_data x)\<rparr>) s)"

definition answered :: "nat \<Rightarrow> nat \<Rightarrow> 'z virtst_scheme \<Rightarrow> 'z virtst_scheme" where
  "answered i j s = s\<lparr>vd_status := (vd_status s)[j := 0],
     vd_used := (vd_used s)[unat (vd_used_dev s mod of_nat NUM) := of_nat i], vd_used_dev := vd_used_dev s + 1\<rparr>"

definition serves :: "nat \<Rightarrow> ('z virtst_scheme \<Rightarrow> 'z virtst_scheme) \<Rightarrow> bool" where
  "serves cap dev \<longleftrightarrow> (\<forall>s k b len j. queue_live s \<longrightarrow> vd_notified s = vd_used_dev s + 1 \<longrightarrow> block_request cap s k b len j \<longrightarrow>
     dev s = answered (request_head s) j (carried_out k b len s))"

text \<open>Buffers, disk and the writes of two states agree on the \<open>BSIZE\<close> bytes of each block.\<close>

definition shown :: "block \<Rightarrow> u8 list" where
  "shown d = map d [0..<BSIZE]"

lemma shown_cut [simp]: "shown (\<lambda>i. if i < BSIZE then d i else e i) = shown d"
  by (simp add: shown_def)

definition same_blocks :: "'z virtst_scheme \<Rightarrow> 'z virtst_scheme \<Rightarrow> bool" where
  "same_blocks s t \<longleftrightarrow>
     map (\<lambda>x. (x\<lparr>b_data := (\<lambda>_. 0)\<rparr>, shown (b_data x))) (bufs s) = map (\<lambda>x. (x\<lparr>b_data := (\<lambda>_. 0)\<rparr>, shown (b_data x))) (bufs t) \<and>
     (\<forall>n. shown (disk s n) = shown (disk t n)) \<and>
     map (\<lambda>(n, d). (n, shown d)) (disk_writes s) = map (\<lambda>(n, d). (n, shown d)) (disk_writes t)"

subsection \<open>A request\<close>

text \<open>A driver that has set its queue up and has no request outstanding.\<close>

definition driver_set_up :: "'z virtst_scheme \<Rightarrow> bool" where
  "driver_set_up s \<longleftrightarrow> length (vd_desc s) = NUM \<and> length (vd_free s) = NUM \<and> length (vd_info_b s) = NUM \<and>
     length (vd_status s) = NUM \<and> length (vd_ops s) = NUM \<and> length (vd_avail s) = NUM \<and> length (vd_used s) = NUM \<and> queue_live s"

definition driver_ok :: "'z virtst_scheme \<Rightarrow> bool" where
  "driver_ok s \<longleftrightarrow> driver_set_up s \<and> vd_used_dev s = vd_used_idx s \<and> vd_avail_idx s = vd_used_idx s \<and> vd_notified s = vd_used_idx s"

lemmas driver_defs = driver_ok_def driver_set_up_def

lemma mod_NUM_less: "unat (x mod of_nat NUM :: u16) < NUM"
  by (simp add: unat_mod)

lemma queue_live_keeps:
  "queue_live s \<Longrightarrow> vd_desc_pa t = vd_desc_pa s \<Longrightarrow> vd_avail_pa t = vd_avail_pa s \<Longrightarrow> vd_used_pa t = vd_used_pa s \<Longrightarrow>
   set (mmio s) \<subseteq> set (mmio t) \<Longrightarrow> queue_live t"
  unfolding queue_live_def by auto

text \<open>\<open>virtio_disk_init\<close> leaves such a driver, with all descriptors free, when it returns.\<close>

lemma virtio_queue_init_ready:
  assumes "virtio_queue_init s = Done () t" and "length (vd_info_b s) = NUM" "length (vd_status s) = NUM" "length (vd_ops s) = NUM"
    and "vd_used_idx s = 0" "vd_notified s = 0"
  shows "driver_ok (wreg 0x070 (v OR 4) t) \<and> in_use t = 0"
proof -
  from assms(1) obtain d a u s1 s2 s3 where k: "kalloc s = Done d s1" "kalloc s1 = Done a s2" "kalloc s2 = Done u s3"
    and t: "t = (wreg 0x044 1 (wreg 0x0a4 (ucast (drop_bit 32 u)) (wreg 0x0a0 (ucast u)
      (wreg 0x094 (ucast (drop_bit 32 a)) (wreg 0x090 (ucast a) (wreg 0x084 (ucast (drop_bit 32 d)) (wreg 0x080 (ucast d)
      (wreg 0x038 (of_nat NUM) (s3\<lparr>mem := memset u 0 4096 (memset a 0 4096 (memset d 0 4096 (mem s3))),
        vd_desc_pa := d, vd_avail_pa := a, vd_used_pa := u, vd_desc := replicate NUM zero_desc,
        vd_avail := replicate NUM 0, vd_avail_idx := 0, vd_used := replicate NUM 0, vd_used_dev := 0\<rparr>)))))))))\<lparr>vd_free := replicate NUM True\<rparr>"
    unfolding virtio_queue_init_def by (auto simp: Let_def split: if_splits)
  have "only_mem s s3" using frame_kalloc [OF k(1)] frame_kalloc [OF k(2)] frame_kalloc [OF k(3)] only_mem_trans by blast
  then have s3: "s3 = s\<lparr>mem := mem s3, freelist := freelist s3\<rparr>" by (simp add: only_mem_def)
  have f: "vd_info_b s3 = vd_info_b s" "vd_status s3 = vd_status s" "vd_ops s3 = vd_ops s" "vd_used_idx s3 = vd_used_idx s"
    "vd_notified s3 = vd_notified s"
    by (subst s3; simp)+
  have "bit ((v OR 4) AND 4 :: u32) 2" by (simp add: bit_and_iff bit_or_iff bit_numeral_rec)
  then have "(v OR 4) AND 4 \<noteq> (0 :: u32)" by (metis bit_0_eq bot_apply bot_bool_def)
  then have "\<exists>x. (0x070, x) \<in> set (mmio (wreg 0x070 (v OR 4) t)) \<and> x AND 4 \<noteq> 0"
    by (intro exI [of _ "v OR 4"]) (simp only: wreg_def, simp)
  moreover have "set (mmio s3) \<union> {(0x038, of_nat NUM), (0x080, ucast d), (0x084, ucast (drop_bit 32 d)), (0x090, ucast a),
      (0x094, ucast (drop_bit 32 a)), (0x0a0, ucast u), (0x0a4, ucast (drop_bit 32 u)), (0x044, 1)} \<subseteq> set (mmio t)"
    unfolding t by (simp add: wreg_def)
  moreover have "set (mmio t) \<subseteq> set (mmio (wreg 0x070 (v OR 4) t))" by (simp add: wreg_def subset_insertI)
  moreover have "vd_desc_pa t = d" "vd_avail_pa t = a" "vd_used_pa t = u" unfolding t by (simp_all add: wreg_def)
  then have "vd_desc_pa (wreg 0x070 (v OR 4) t) = d" "vd_avail_pa (wreg 0x070 (v OR 4) t) = a" "vd_used_pa (wreg 0x070 (v OR 4) t) = u"
    by (simp_all add: wreg_def)
  ultimately have "queue_live (wreg 0x070 (v OR 4) t)" unfolding queue_live_def by blast
  then show ?thesis using assms(2-6) f by (simp add: driver_defs t wreg_def in_use_def)
qed

lemma virtio_disk_init_ready:
  assumes "virtio_disk_init rd s = Done () t" and "length (vd_info_b s) = NUM" "length (vd_status s) = NUM" "length (vd_ops s) = NUM"
    and "vd_used_idx s = 0" "vd_notified s = 0"
  shows "driver_ok t \<and> in_use t = 0"
proof -
  obtain u w v where u: "virtio_queue_init u = Done () w" "t = wreg 0x070 (v OR 4) w"
      "vd_info_b u = vd_info_b s" "vd_status u = vd_status s" "vd_ops u = vd_ops s" "vd_used_idx u = vd_used_idx s" "vd_notified u = vd_notified s"
    using assms(1) unfolding virtio_disk_init_def
    by (auto simp: Let_def wreg_def split: if_splits)
  then have "in_use t = in_use w" by (simp add: in_use_def wreg_def)
  then show ?thesis using virtio_queue_init_ready [OF u(1)] u assms(2-6) by simp
qed

text \<open>The fields of the driver when \<open>disk_submit\<close> has posted a request.\<close>

lemma disk_submit_fields:
  assumes "driver_ok s" and "i0 < NUM" "i1 < NUM" "i2 < NUM" and "i0 \<noteq> i1" "i0 \<noteq> i2" "i1 \<noteq> i2"
    and t_def: "t = disk_submit b wr i0 i1 i2 s"
  shows "vd_desc t ! i0 = \<lparr>d_addr = DmaOps i0, d_len = 16, d_flags = VRING_DESC_F_NEXT, d_next = of_nat i1\<rparr>"
    and "vd_desc t ! i1 = \<lparr>d_addr = DmaData b, d_len = of_nat BSIZE,
            d_flags = (if wr then 0 else VRING_DESC_F_WRITE) OR VRING_DESC_F_NEXT, d_next = of_nat i2\<rparr>"
    and "vd_desc t ! i2 = \<lparr>d_addr = DmaStatus i0, d_len = 1, d_flags = VRING_DESC_F_WRITE, d_next = 0\<rparr>"
    and "vd_ops t ! i0 = \<lparr>q_type = (if wr then VIRTIO_BLK_T_OUT else VIRTIO_BLK_T_IN), q_reserved = 0, q_sector = sector_of b s\<rparr>"
    and "request_head t = i0" and "vd_info_b t ! i0 = Some b" and "vd_free t = vd_free s"
    and "bufs t = (bufs s)[b := (bufs s ! b)\<lparr>b_disk := True\<rparr>]"
    and "vd_used_dev t = vd_used_dev s" "vd_used_idx t = vd_used_idx s" "length (vd_status t) = NUM" "length (vd_used t) = NUM"
    and "held t = held s" "cur t = cur s" "procs t = procs s" "disk t = disk s" "disk_writes t = disk_writes s"
    and "length (vd_info_b t) = NUM" and "vd_notified t = vd_used_dev t + 1" "vd_avail_idx t = vd_used_dev t + 1" and "driver_set_up t"
proof -
  have "queue_live s" using assms(1) by (simp add: driver_defs)
  then have "queue_live t"
    by (rule queue_live_keeps) (auto simp: t_def disk_submit_def Let_def upd_desc_def upd_buf_def wreg_def)
  then show "driver_set_up t"
    using assms(1) by (simp add: t_def disk_submit_def driver_defs Let_def upd_desc_def upd_buf_def wreg_def)
qed (use assms(1-7) mod_NUM_less [of "vd_avail_idx s"] in
  \<open>simp_all add: t_def disk_submit_def driver_defs Let_def upd_desc_def upd_buf_def wreg_def request_head_def
      unat_of_nat sector_of_def\<close>)

definition posted :: "nat \<Rightarrow> nat \<Rightarrow> bool \<Rightarrow> nat \<Rightarrow> nat \<Rightarrow> nat \<Rightarrow> 'z virtst_scheme \<Rightarrow> 'z virtst_scheme" where
  "posted p b wr i0 i1 i2 s = asleep (Some (ChBuf b)) p (disk_submit b wr i0 i1 i2
     (s\<lparr>held := [VdiskLock], vd_free := (vd_free s)[i0 := False, i1 := False, i2 := False]\<rparr>))"

lemma virtio_disk_rw_posts:
  assumes "driver_ok s" and "in_use s + 3 \<le> NUM" and "cur s = Some p" and "p < NPROC" and "unlocked_table s"
    and "held s = []" and "b < length (bufs s)"
  shows "\<exists>i0 i1 i2. i0 < NUM \<and> i1 < NUM \<and> i2 < NUM \<and> i0 \<noteq> i1 \<and> i0 \<noteq> i2 \<and> i1 \<noteq> i2 \<and>
    vd_free s ! i0 \<and> vd_free s ! i1 \<and> vd_free s ! i2 \<and> virtio_disk_rw b wr s = Switch (posted p b wr i0 i1 i2 s)"
proof -
  let ?s = "s\<lparr>held := [VdiskLock]\<rparr>"
  have "length (vd_free ?s) = NUM" "in_use ?s + 3 \<le> NUM" using assms(1,2) by (simp_all add: driver_defs in_use_def)
  then obtain i0 i1 i2 where i: "i0 < NUM" "i1 < NUM" "i2 < NUM" "i0 \<noteq> i1" "i0 \<noteq> i2" "i1 \<noteq> i2"
      "vd_free s ! i0" "vd_free s ! i1" "vd_free s ! i2"
      "alloc3_desc ?s = Done (Some [i0, i1, i2]) (?s\<lparr>vd_free := (vd_free s)[i0 := False, i1 := False, i2 := False]\<rparr>)"
    using alloc3_desc_takes [of ?s] by auto
  let ?a = "s\<lparr>held := [VdiskLock], vd_free := (vd_free s)[i0 := False, i1 := False, i2 := False]\<rparr>"
  have "driver_ok ?a" using assms(1) by (simp add: driver_defs queue_live_def)
  note f = disk_submit_fields [OF this i(1-6) refl, of b wr]
  have "disk_rw_wait b i0 (disk_submit b wr i0 i1 i2 ?a) = Switch (posted p b wr i0 i1 i2 s)"
    unfolding posted_def disk_rw_wait_def f(8)
    using assms f(13,14,15) by (subst sleep_eq) (simp_all add: unlocked_table_def)
  then have "virtio_disk_rw b wr s = Switch (posted p b wr i0 i1 i2 s)"
    using assms(6) i(10) by (simp add: virtio_disk_rw_def acquire_free disk_rw_turn_def)
  with i show ?thesis by blast
qed

text \<open>The interrupt handler for one completion.\<close>

lemma virtio_disk_intr_one:
  assumes "held d = []" and "unlocked_table d" and "vd_used_dev d = vd_used_idx d + 1" and "i0 < NUM"
    and "vd_used d ! unat (vd_used_idx d mod of_nat NUM) = of_nat i0" and "vd_status d ! i0 = 0" and "vd_info_b d ! i0 = Some b"
  shows "virtio_disk_intr istat d = Done () ((wake_all (Some (ChBuf b)) (upd_buf b (\<lambda>x. x\<lparr>b_disk := False\<rparr>) d))
    \<lparr>vd_used_idx := vd_used_idx d + 1, mmio := mmio d @ [(0x064, istat AND 3)]\<rparr>)"
proof -
  let ?d = "d\<lparr>held := [VdiskLock], mmio := mmio d @ [(0x064, istat AND 3)]\<rparr>"
  have "unlocked_table (upd_buf b (\<lambda>x. x\<lparr>b_disk := False\<rparr>) ?d)" using assms(2) by (simp add: unlocked_table_def upd_buf_def)
  then have w: "wakeup (Some (ChBuf b)) (upd_buf b (\<lambda>x. x\<lparr>b_disk := False\<rparr>) ?d) =
      Done () (wake_all (Some (ChBuf b)) (upd_buf b (\<lambda>x. x\<lparr>b_disk := False\<rparr>) ?d))" by (rule wakeup_eq)
  have n: "unat (vd_used_dev d - vd_used_idx d) = Suc 0" "unat (of_nat i0 :: u32) = i0"
    using assms(3,4) by (simp_all add: unat_of_nat)
  have "disk_complete ?d = Done () ((wake_all (Some (ChBuf b)) (upd_buf b (\<lambda>x. x\<lparr>b_disk := False\<rparr>) ?d))\<lparr>vd_used_idx := vd_used_idx d + 1\<rparr>)"
    using assms(5-7) n(2) w by (simp add: disk_complete_def upd_buf_def)
  then have "disk_intr_loop (Suc 0) ?d = Done () ((wake_all (Some (ChBuf b)) (upd_buf b (\<lambda>x. x\<lparr>b_disk := False\<rparr>) ?d))\<lparr>vd_used_idx := vd_used_idx d + 1\<rparr>)"
    by simp
  then show ?thesis
    using assms(1) n(1) by (simp add: virtio_disk_intr_def acquire_free wreg_def release_member wake_all_def upd_buf_def)
qed

lemma sector_addr:
  assumes "n < 0x80000000"
  shows "unat (ucast (n * 2 :: u32) :: u64) = 2 * unat n"
proof -
  have n: "unat n < 2 ^ 31" using assms by (simp add: word_less_nat_alt)
  then have "unat (n * 2) = unat n * 2" by (subst unat_mult_lem [THEN iffD1]) simp_all
  then show ?thesis using n by (simp add: unsigned_ucast_eq take_bit_eq_mod)
qed

lemma posted_fields:
  assumes "driver_ok s" and "i0 < NUM" "i1 < NUM" "i2 < NUM" and "i0 \<noteq> i1" "i0 \<noteq> i2" "i1 \<noteq> i2"
    and t_def: "t = (posted p b wr i0 i1 i2 s)\<lparr>cur := None, held := []\<rparr>"
    and cap: "b_blockno (bufs s ! b) < 0x80000000" "2 * unat (b_blockno (bufs s ! b)) + 2 \<le> cap"
  shows "block_request cap t i0 b BSIZE i0" and "request_head t = i0"
    and "vd_ops t ! i0 = \<lparr>q_type = (if wr then VIRTIO_BLK_T_OUT else VIRTIO_BLK_T_IN), q_reserved = 0, q_sector = sector_of b s\<rparr>"
    and "vd_info_b t ! i0 = Some b" and "vd_free t = (vd_free s)[i0 := False, i1 := False, i2 := False]"
    and "bufs t = (bufs s)[b := (bufs s ! b)\<lparr>b_disk := True\<rparr>]" and "vd_used_dev t = vd_used_idx t"
    and "length (vd_status t) = NUM" "length (vd_used t) = NUM" "disk t = disk s" "disk_writes t = disk_writes s"
    and "d_flags (vd_desc t ! i0) AND VRING_DESC_F_NEXT \<noteq> 0" "d_next (vd_desc t ! i0) = of_nat i1"
    and "d_flags (vd_desc t ! i1) AND VRING_DESC_F_NEXT \<noteq> 0" "d_next (vd_desc t ! i1) = of_nat i2"
    and "d_flags (vd_desc t ! i2) AND VRING_DESC_F_NEXT = 0"
    and "procs t = (procs s)[p := (the_proc s p)\<lparr>p_chan := Some (ChBuf b), p_state := SLEEPING\<rparr>]"
    and "length (vd_info_b t) = NUM" and "vd_notified t = vd_used_dev t + 1" "vd_avail_idx t = vd_used_dev t + 1" and "driver_set_up t"
proof -
  let ?a = "s\<lparr>held := [VdiskLock], vd_free := (vd_free s)[i0 := False, i1 := False, i2 := False]\<rparr>"
  have a: "driver_ok ?a" using assms(1) by (simp add: driver_defs queue_live_def)
  have u: "vd_used_dev s = vd_used_idx s" using assms(1) by (simp add: driver_defs)
  note f = disk_submit_fields [OF a assms(2-7) refl, of b wr]
  have n: "unat (of_nat i1 :: u16) = i1" "unat (of_nat i2 :: u16) = i2" using assms(3,4) by (simp_all add: unat_of_nat)
  have d: "vd_desc t ! i0 = \<lparr>d_addr = DmaOps i0, d_len = 16, d_flags = VRING_DESC_F_NEXT, d_next = of_nat i1\<rparr>"
    "vd_desc t ! i1 = \<lparr>d_addr = DmaData b, d_len = of_nat BSIZE,
            d_flags = (if wr then 0 else VRING_DESC_F_WRITE) OR VRING_DESC_F_NEXT, d_next = of_nat i2\<rparr>"
    "vd_desc t ! i2 = \<lparr>d_addr = DmaStatus i0, d_len = 1, d_flags = VRING_DESC_F_WRITE, d_next = 0\<rparr>"
    using f(1-3) by (simp_all add: t_def posted_def asleep_def upd_proc_def)
  show "d_flags (vd_desc t ! i0) AND VRING_DESC_F_NEXT \<noteq> 0" "d_next (vd_desc t ! i0) = of_nat i1"
    "d_flags (vd_desc t ! i1) AND VRING_DESC_F_NEXT \<noteq> 0" "d_next (vd_desc t ! i1) = of_nat i2"
    "d_flags (vd_desc t ! i2) AND VRING_DESC_F_NEXT = 0"
    unfolding d by (cases wr; simp)+
  then have "chain_descs NUM t i0 = [vd_desc t ! i0, vd_desc t ! i1, vd_desc t ! i2]"
    using n d by (simp add: eval_nat_numeral)
  moreover have h: "request_head t = i0"
    using f(5) by (simp add: t_def posted_def asleep_def upd_proc_def request_head_def)
  moreover have o: "vd_ops t ! i0 = \<lparr>q_type = (if wr then VIRTIO_BLK_T_OUT else VIRTIO_BLK_T_IN), q_reserved = 0, q_sector = sector_of b s\<rparr>"
    using f(4) by (simp add: t_def posted_def asleep_def upd_proc_def sector_of_def)
  moreover have "unat (q_sector (vd_ops t ! i0)) + BSIZE div 512 \<le> cap"
    using sector_addr [OF cap(1)] cap(2) by (simp add: o sector_of_def)
  ultimately show "block_request cap t i0 b BSIZE i0"
    unfolding block_request_def d by (cases wr) simp_all
  show "request_head t = i0" "vd_info_b t ! i0 = Some b" "vd_free t = (vd_free s)[i0 := False, i1 := False, i2 := False]"
    "bufs t = (bufs s)[b := (bufs s ! b)\<lparr>b_disk := True\<rparr>]" "vd_used_dev t = vd_used_idx t"
    "length (vd_status t) = NUM" "length (vd_used t) = NUM" "disk t = disk s" "disk_writes t = disk_writes s"
    "vd_ops t ! i0 = \<lparr>q_type = (if wr then VIRTIO_BLK_T_OUT else VIRTIO_BLK_T_IN), q_reserved = 0, q_sector = sector_of b s\<rparr>"
    "length (vd_info_b t) = NUM" "vd_notified t = vd_used_dev t + 1" "vd_avail_idx t = vd_used_dev t + 1"
    "procs t = (procs s)[p := (the_proc s p)\<lparr>p_chan := Some (ChBuf b), p_state := SLEEPING\<rparr>]"
    using f(4-20) u by (simp_all add: t_def posted_def asleep_def upd_proc_def request_head_def sector_of_def)
  show "driver_set_up t" using f(21) by (simp add: t_def posted_def asleep_def upd_proc_def driver_set_up_def queue_live_def)
qed

text \<open>A request for \<open>BSIZE\<close> bytes at twice the block number moves that block.\<close>

lemma carried_out_block:
  assumes "unat (q_sector (vd_ops s ! k)) = 2 * unat n"
  shows "carried_out k b BSIZE s =
    (if q_type (vd_ops s ! k) = VIRTIO_BLK_T_OUT then
       let x = (\<lambda>i. if i < BSIZE then b_data (bufs s ! b) i else disk s n i) in
       s\<lparr>disk := (disk s)(n := x), disk_writes := disk_writes s @ [(n, x)]\<rparr>
     else upd_buf b (\<lambda>x. x\<lparr>b_data := (\<lambda>i. if i < BSIZE then disk s n i else b_data x i)\<rparr>) s)"
proof -
  have a: "512 * unat (q_sector (vd_ops s ! k)) = unat n * BSIZE" using assms by simp
  have g: "disk_get (unat n * BSIZE) BSIZE d x = (\<lambda>i. if i < BSIZE then d n i else x i)" for d x
    by (auto simp: disk_get_def fun_eq_iff)
  have p: "disk_put (unat n * BSIZE) BSIZE x d = d(n := (\<lambda>i. if i < BSIZE then x i else d n i))" for d x
  proof (intro ext)
    fix m i
    have "unat n * BSIZE \<le> unat m * BSIZE + i \<and> unat m * BSIZE + i < unat n * BSIZE + BSIZE \<longleftrightarrow> m = n" if "i < BSIZE"
      using that by (auto simp: word_unat_eq_iff)
    then show "disk_put (unat n * BSIZE) BSIZE x d m i = (d(n := (\<lambda>i. if i < BSIZE then x i else d n i))) m i"
      by (auto simp: disk_put_def)
  qed
  have "[unat n * BSIZE div BSIZE ..< (unat n * BSIZE + BSIZE + BSIZE - 1) div BSIZE] = [unat n]"
    by (simp add: upt_rec)
  then show ?thesis unfolding carried_out_def Let_def a g p by simp
qed

lemma list_give_back:
  "i0 < length l \<Longrightarrow> i1 < length l \<Longrightarrow> i2 < length l \<Longrightarrow> l ! i0 \<Longrightarrow> l ! i1 \<Longrightarrow> l ! i2 \<Longrightarrow>
    l[i0 := False, i1 := False, i2 := False, i0 := True, i1 := True, i2 := True] = l"
  by (rule nth_equalityI) (auto simp: nth_list_update)

text \<open>The rest of \<open>virtio_disk_rw\<close> when the interrupt has cleared \<open>b->disk\<close>.\<close>

lemma disk_rw_wake_frees:
  assumes "cur y = Some p" and "held y = [ProcLock p]" and "length (procs y) = NPROC" and "p < NPROC"
    and "\<not> b_disk (bufs y ! b)" and "i0 < NUM" "i1 < NUM" "i2 < NUM" and "i0 \<noteq> i1" "i0 \<noteq> i2" "i1 \<noteq> i2"
    and "vd_free y = l[i0 := False, i1 := False, i2 := False]" and "length l = NUM" and "l ! i0" "l ! i1" "l ! i2"
    and "d_flags (vd_desc y ! i0) AND VRING_DESC_F_NEXT \<noteq> 0" and "d_next (vd_desc y ! i0) = of_nat i1"
    and "d_flags (vd_desc y ! i1) AND VRING_DESC_F_NEXT \<noteq> 0" and "d_next (vd_desc y ! i1) = of_nat i2"
    and "d_flags (vd_desc y ! i2) AND VRING_DESC_F_NEXT = 0"
  shows "\<exists>z. disk_rw_wake b i0 y = Done () z \<and> held z = [] \<and> vd_free z = l \<and> bufs z = bufs y \<and> disk z = disk y \<and>
    disk_writes z = disk_writes y \<and> cur z = Some p \<and> the_proc z p = (the_proc y p)\<lparr>p_chan := None\<rparr> \<and>
    (driver_ok z \<longleftrightarrow> driver_ok y)"
proof -
  let ?w = "(upd_proc p (\<lambda>p. p\<lparr>p_chan := None\<rparr>) y)\<lparr>held := [VdiskLock]\<rparr>"
  let ?v = "?w\<lparr>vd_info_b := (vd_info_b y)[i0 := None]\<rparr>"
  have w: "sleep_resume VdiskLock y = Done () ?w"
    using assms(1-4) by (simp add: sleep_resume_def release_head acquire_free upd_proc_def)
  have "unlocked_table ?v" using assms(3) by (simp add: unlocked_table_def upd_proc_def)
  then have f: "free_chain i0 ?v = Done () (freed i2 (freed i1 (freed i0 ?v)))"
    by (rule free_chain_three) (use assms(6-21) in \<open>simp_all add: upd_proc_def\<close>)
  let ?z = "(freed i2 (freed i1 (freed i0 ?v)))\<lparr>held := []\<rparr>"
  have "disk_rw_wait b i0 ?w = Done () ?z"
    using assms(5) f by (simp add: disk_rw_wait_def release_head upd_proc_def)
  with w have "disk_rw_wake b i0 y = Done () ?z" by (simp add: disk_rw_wake_def)
  moreover have "vd_free ?z = l"
    using list_give_back [of i0 l i1 i2] assms(6-8,12-16) by (simp add: upd_proc_def)
  moreover have "the_proc ?z p = (the_proc y p)\<lparr>p_chan := None\<rparr>"
    using assms(3,4) by (simp add: freed_def wake_all_def upd_desc_def upd_proc_def woken_def assms(1))
  moreover have "driver_ok ?z \<longleftrightarrow> driver_ok y"
    by (simp add: driver_defs queue_live_def freed_def upd_desc_def upd_proc_def)
  ultimately show ?thesis
    using assms(1) by (intro exI [of _ ?z]) (simp add: freed_def wake_all_def upd_desc_def upd_proc_def)
qed

text \<open>What the device and the interrupt leave of the state \<open>t\<close> in which the process sleeps.\<close>

lemma interrupt_after_answer:
  assumes d: "d = answered i0 i0 (carried_out i0 b BSIZE t)" and t: "held t = []" "unlocked_table t" "vd_used_dev t = vd_used_idx t"
    "i0 < NUM" "length (vd_status t) = NUM" "length (vd_used t) = NUM" "vd_info_b t ! i0 = Some b"
  shows "virtio_disk_intr istat d = Done () ((wake_all (Some (ChBuf b)) (upd_buf b (\<lambda>x. x\<lparr>b_disk := False\<rparr>) d))
    \<lparr>vd_used_idx := vd_used_idx d + 1, mmio := mmio d @ [(0x064, istat AND 3)]\<rparr>)"
proof (rule virtio_disk_intr_one)
  show "vd_used d ! unat (vd_used_idx d mod of_nat NUM) = of_nat i0"
    using t mod_NUM_less [of "vd_used_idx t"] by (simp add: d answered_def carried_out_def Let_def upd_buf_def)
qed (use t in \<open>simp_all add: d answered_def carried_out_def Let_def upd_buf_def unlocked_table_def\<close>)

text \<open>
  C4: the driver implements the transfer the buffer cache relies on, with a device that behaves as documented
  (\<open>serves\<close>). On an idle driver whose queue is set up, with three free descriptors and a block number below
  \<open>2 ^ 31\<close> that lies on the disk: \<open>virtio_disk_rw\<close> posts a request the device accepts, notifies it and sleeps;
  when the device has answered, the interrupt handler wakes the process, the scheduler picks it and
  \<open>virtio_disk_rw\<close> returns. The bytes of all buffers and of the disk, and the list of writes, are then what
  \<open>disk_rw\<close> says, all descriptors have been given back and the driver is idle again.
\<close>
theorem virtio_refines_disk_rw:
  assumes "driver_ok s" and "in_use s + 3 \<le> NUM" and "cur s = Some p" and "p < NPROC" and "unlocked_table s"
    and "held s = []" and "b < length (bufs s)" and "b_blockno (bufs s ! b) < 0x80000000" and "\<not> b_disk (bufs s ! b)"
    and "serves cap dev" and "2 * unat (b_blockno (bufs s ! b)) + 2 \<le> cap"
  shows "\<exists>t t' u y z v. virtio_disk_rw b wr s = Switch t \<and> scheduler_back p t = Done () t' \<and>
    virtio_disk_intr istat (dev t') = Done () u \<and> scheduler_scan p u = Done (Some p) y \<and>
    disk_rw_wake b (request_head t') y = Done () z \<and> disk_rw b wr s = Done () v \<and> same_blocks z v \<and>
    cur z = Some p \<and> held z = [] \<and> vd_free z = vd_free s \<and> driver_ok z"
proof -
  obtain i0 i1 i2 where i: "i0 < NUM" "i1 < NUM" "i2 < NUM" "i0 \<noteq> i1" "i0 \<noteq> i2" "i1 \<noteq> i2"
      "vd_free s ! i0" "vd_free s ! i1" "vd_free s ! i2" "virtio_disk_rw b wr s = Switch (posted p b wr i0 i1 i2 s)"
    using virtio_disk_rw_posts [OF assms(1-7)] by blast
  define t where "t = (posted p b wr i0 i1 i2 s)\<lparr>cur := None, held := []\<rparr>"
  note f = posted_fields [OF assms(1) i(1-6) t_def assms(8,11)]
  have np: "length (procs s) = NPROC" using assms(5) by (simp add: unlocked_table_def)
  have t: "held t = []" "cur t = None" "unlocked_table t" by (simp_all add: t_def unlocked_table_def f(17) [unfolded t_def] np)
  have bk: "scheduler_back p (posted p b wr i0 i1 i2 s) = Done () t"
    by (simp add: scheduler_back_def release_def posted_def asleep_def t_def)
  define d where "d = answered i0 i0 (carried_out i0 b BSIZE t)"
  have dev: "dev t = d" using assms(10) f(1,2,19,21) unfolding serves_def d_def driver_set_up_def by metis
  define u where "u = (wake_all (Some (ChBuf b)) (upd_buf b (\<lambda>x. x\<lparr>b_disk := False\<rparr>) d))
    \<lparr>vd_used_idx := vd_used_idx d + 1, mmio := mmio d @ [(0x064, istat AND 3)]\<rparr>"
  have intr: "virtio_disk_intr istat d = Done () u"
    unfolding u_def by (rule interrupt_after_answer [OF d_def t(1,3) f(7) i(1) f(8,9,4)])
  have dt: "held d = held t" "cur d = cur t" "procs d = procs t" "vd_free d = vd_free t" "vd_desc d = vd_desc t"
      "vd_used_idx d = vd_used_idx t" "vd_used_dev d = vd_used_dev t + 1"
    by (simp_all add: d_def answered_def carried_out_def upd_buf_def Let_def)
  have ut: "unlocked_table u" "held u = []" "vd_free u = vd_free t" "vd_desc u = vd_desc t" "vd_used_idx u = vd_used_dev u"
      "bufs u = (bufs d)[b := (bufs d ! b)\<lparr>b_disk := False\<rparr>]" "disk u = disk d" "disk_writes u = disk_writes d"
    using t dt f(7) by (simp_all add: u_def upd_buf_def unlocked_table_def wake_all_def)
  have pu: "p_state (the_proc u p) = RUNNABLE"
    using assms(4) np t(2) dt(2,3) f(17) by (simp add: u_def upd_buf_def wake_all_def woken_def)
  have scan: "scheduler_scan p u = Done (Some p) (dispatched p u)"
  proof -
    have "find (\<lambda>j. p_state (the_proc u j) = RUNNABLE) [p..<NPROC] = Some p"
      using assms(4) pu by (auto simp: find_upt_Some_iff)
    then show ?thesis using ut(1) by (simp add: scheduler_scan_eq)
  qed
  let ?y = "dispatched p u"
  have y: "cur ?y = Some p" "held ?y = [ProcLock p]" "length (procs ?y) = NPROC" "vd_free ?y = vd_free t" "vd_desc ?y = vd_desc t"
      "bufs ?y = bufs u" "disk ?y = disk u" "disk_writes ?y = disk_writes u" "vd_used_idx ?y = vd_used_idx u" "vd_used_dev ?y = vd_used_dev u"
    using ut by (simp_all add: dispatched_def unlocked_table_def upd_proc_def)
  have lb: "b < length (bufs d)" using assms(7) f(6) by (simp add: d_def answered_def carried_out_def upd_buf_def Let_def)
  have nd: "\<not> b_disk (bufs ?y ! b)" using lb by (simp add: y(6) ut(6))
  have len: "length (vd_free s) = NUM" using assms(1) by (simp add: driver_defs)
  obtain z where z: "disk_rw_wake b i0 ?y = Done () z" "held z = []" "vd_free z = vd_free s" "bufs z = bufs u" "disk z = disk u"
      "disk_writes z = disk_writes u" "cur z = Some p" "driver_ok z \<longleftrightarrow> driver_ok ?y"
    using disk_rw_wake_frees [OF y(1-3) assms(4) nd i(1-6), of "vd_free s"] len f(5,12-16) i(7-9) y ut by auto
  have "driver_set_up d" using f(21) by (simp add: d_def answered_def carried_out_def upd_buf_def Let_def driver_set_up_def queue_live_def)
  then have "driver_set_up u"
    using queue_live_keeps [of d u] by (auto simp: u_def upd_buf_def driver_set_up_def)
  then have "driver_set_up ?y" by (simp add: dispatched_def upd_proc_def driver_set_up_def queue_live_def)
  moreover have "vd_avail_idx ?y = vd_avail_idx t" "vd_notified ?y = vd_notified t" "vd_used_idx ?y = vd_used_idx t + 1" "vd_used_dev ?y = vd_used_dev t + 1"
    by (simp_all add: dispatched_def upd_proc_def u_def upd_buf_def d_def answered_def carried_out_def Let_def)
  ultimately have zok: "driver_ok z" using z(8) f(7,19,20) by (simp add: driver_ok_def)
  have q: "unat (q_sector (vd_ops t ! i0)) = 2 * unat (b_blockno (bufs s ! b))"
    using sector_addr [OF assms(8)] by (simp add: f(3) sector_of_def)
  obtain v where v: "disk_rw b wr s = Done () v" "same_blocks z v"
  proof (cases wr)
    case True
    let ?v = "s\<lparr>disk := (disk s)(b_blockno (bufs s ! b) := b_data (bufs s ! b)),
        disk_writes := disk_writes s @ [(b_blockno (bufs s ! b), b_data (bufs s ! b))]\<rparr>"
    have "disk_rw b wr s = Done () ?v" using True assms(6) by (simp add: disk_rw_def Let_def)
    moreover have "(bufs s ! b)\<lparr>b_disk := False\<rparr> = bufs s ! b" using assms(9) by simp
    then have "bufs z = bufs s"
      using True assms(7) z(4) ut(6) f(3,6) by (simp add: d_def answered_def carried_out_block [OF q] Let_def)
    then have "same_blocks z ?v"
      using True assms(7) z(5,6) ut(7,8) f(3,6,10,11) unfolding same_blocks_def
      by (simp add: d_def answered_def carried_out_block [OF q] Let_def)
    ultimately show ?thesis by (rule that)
  next
    case False
    let ?v = "upd_buf b (\<lambda>x. x\<lparr>b_data := disk s (b_blockno (bufs s ! b))\<rparr>) s"
    let ?x = "(bufs s ! b)\<lparr>b_data := (\<lambda>i. if i < BSIZE then disk s (b_blockno (bufs s ! b)) i else b_data (bufs s ! b) i)\<rparr>"
    have "disk_rw b wr s = Done () ?v" using False assms(6) by (simp add: disk_rw_def Let_def)
    moreover have "(bufs s ! b)\<lparr>b_data := g, b_disk := False\<rparr> = (bufs s ! b)\<lparr>b_data := g\<rparr>"
      "(bufs s ! b)\<lparr>b_disk := False, b_data := g\<rparr> = (bufs s ! b)\<lparr>b_data := g\<rparr>" for g
      using assms(9) by (cases "bufs s ! b"; simp)+
    then have "bufs z = (bufs s)[b := ?x]"
      using False assms(7) z(4) ut(6) f(3,6,10)
      by (simp add: d_def answered_def carried_out_block [OF q] upd_buf_def cong del: if_weak_cong)
    then have "same_blocks z ?v"
      using False assms(7) z(5,6) ut(7,8) f(3,10,11) unfolding same_blocks_def
      by (simp add: d_def answered_def carried_out_block [OF q] upd_buf_def map_update)
    ultimately show ?thesis by (rule that)
  qed
  show ?thesis
    using i(10) bk intr scan z(1-3,7) zok v dev f(2) by (metis (no_types, lifting))
qed

subsection \<open>A concrete request\<close>

text \<open>A chain that runs into itself makes \<open>free_desc\<close> panic.\<close>

definition cyclic_sample :: trapst where
  "cyclic_sample = (user_sample 0 0 0)\<lparr>vd_free := replicate NUM False,
     vd_desc := replicate NUM \<lparr>d_addr = DmaNull, d_len = 0, d_flags = VRING_DESC_F_NEXT, d_next = 3\<rparr>\<rparr>"

lemma free_chain_terminates_witness:
  "(\<exists>t. free_chain 5 cyclic_sample = Done () t \<and> held t = held cyclic_sample \<and> in_use t < in_use cyclic_sample) \<or>
    (\<exists>msg. free_chain 5 cyclic_sample = Panic msg)"
  by (rule free_chain_terminates) (simp_all add: cyclic_sample_def unlocked_table_def)

definition plain_dev :: "nat \<Rightarrow> 'z virtst_scheme \<Rightarrow> 'z virtst_scheme" where
  "plain_dev cap s = (case chain_descs NUM s (request_head s) of
     [h, x, y] \<Rightarrow> (case (d_addr h, d_addr x, d_addr y) of
        (DmaOps k, DmaData b, DmaStatus j) \<Rightarrow>
          if queue_live s \<and> vd_notified s = vd_used_dev s + 1 \<and> block_request cap s k b (unat (d_len x)) j
          then answered (request_head s) j (carried_out k b (unat (d_len x)) s) else s
      | _ \<Rightarrow> s)
   | _ \<Rightarrow> s)"

lemma plain_dev_serves: "serves cap (plain_dev cap)"
  by (auto simp: serves_def plain_dev_def block_request_def)

text \<open>Block 7 of a disk full of nines is read into buffer 0.\<close>

definition disk_sample :: trapst where
  "disk_sample = (user_sample 0 0 0)\<lparr>disk := (\<lambda>_ _. 9), bufs := [\<lparr>b_valid = False, b_disk = False, b_dev = 1,
     b_blockno = 7, b_refcnt = 1, b_data = (\<lambda>_. 0)\<rparr>],
     mmio := [(0x038, 8), (0x080, 0), (0x084, 0), (0x090, 0), (0x094, 0), (0x0a0, 0), (0x0a4, 0), (0x044, 1), (0x070, 15)]\<rparr>"

lemma virtio_refines_disk_rw_witness:
  "\<exists>t t' u y z. virtio_disk_rw 0 False disk_sample = Switch t \<and> scheduler_back 0 t = Done () t' \<and>
    virtio_disk_intr 1 (plain_dev 2000 t') = Done () u \<and> scheduler_scan 0 u = Done (Some 0) y \<and>
    disk_rw_wake 0 (request_head t') y = Done () z \<and> shown (b_data (bufs z ! 0)) = replicate BSIZE 9"
proof -
  have s: "cur disk_sample = Some 0" "unlocked_table disk_sample" "held disk_sample = []" "length (bufs disk_sample) = 1"
    "b_blockno (bufs disk_sample ! 0) = 7" "\<not> b_disk (bufs disk_sample ! 0)"
    by (simp_all add: disk_sample_def unlocked_table_def)
  have "driver_ok disk_sample" "in_use disk_sample = 0"
    by (auto simp: disk_sample_def user_sample_def sample_defs driver_defs queue_live_def in_use_def)
  with s obtain t t' u y z v where r: "virtio_disk_rw 0 False disk_sample = Switch t" "scheduler_back 0 t = Done () t'"
      "virtio_disk_intr 1 (plain_dev 2000 t') = Done () u" "scheduler_scan 0 u = Done (Some 0) y"
      "disk_rw_wake 0 (request_head t') y = Done () z" "disk_rw 0 False disk_sample = Done () v" "same_blocks z v"
    using virtio_refines_disk_rw [OF _ _ _ _ _ _ _ _ _ plain_dev_serves, of disk_sample 0 0 2000 False 1] by auto
  have v: "bufs v = [(bufs disk_sample ! 0)\<lparr>b_data := (\<lambda>_. 9)\<rparr>]"
    using r(6) by (auto simp: disk_rw_def disk_sample_def upd_buf_def)
  then obtain b where "bufs z = [b]" "shown (b_data b) = shown (\<lambda>_. 9)"
    using r(7) unfolding same_blocks_def v by auto
  then have "shown (b_data (bufs z ! 0)) = replicate BSIZE 9" by (simp add: shown_def map_replicate_const)
  with r show ?thesis by blast
qed

end
