(* ===== verification/Fdtable.thy ===== *)
theory Fdtable
  imports Samples
begin

section \<open>File descriptors and reference counts\<close>

text \<open>
  A descriptor of a process is an index into the file table. \<open>files_typed\<close> says that the tables have their
  sizes, every descriptor refers to an entry of the file table, and the count \<open>f->ref\<close> of each entry is the
  number of descriptors, over all processes, that refer to it, but for the references \<open>extra\<close> the kernel holds
  in local variables at the moment. System calls start and end with no such reference.
\<close>

definition fd_count :: "nat \<Rightarrow> 'z ptab_scheme \<Rightarrow> nat" where
  "fd_count f s = (\<Sum>p<NPROC. count_list (p_ofile (the_proc s p)) (Some f))"

definition files_typed :: "(nat \<Rightarrow> int) \<Rightarrow> 'z filest_scheme \<Rightarrow> bool" where
  "files_typed extra s \<longleftrightarrow> length (procs s) = NPROC \<and> length (ftable s) = NFILE \<and>
     (\<forall>p < NPROC. length (p_ofile (the_proc s p)) = NOFILE \<and> (\<forall>f. Some f \<in> set (p_ofile (the_proc s p)) \<longrightarrow> f < NFILE)) \<and>
     (\<forall>f < NFILE. f_ref (the_file s f) = int (fd_count f s) + extra f)"

lemma count_list_update:
  "i < length xs \<Longrightarrow> int (count_list (xs[i := y]) x) =
     int (count_list xs x) - (if xs ! i = x then 1 else 0) + (if y = x then 1 else 0)"
proof (induction xs arbitrary: i)
  case (Cons a xs)
  show ?case
  proof (cases i)
    case (Suc j)
    then show ?thesis using Cons.IH [of j] Cons.prems by (auto split: if_splits)
  qed auto
qed simp

lemma fd_count_set_ofile:
  assumes "p < NPROC" and "length (procs s) = NPROC" and "fd < length (p_ofile (the_proc s p))"
  shows "int (fd_count f (set_ofile fd g p s)) = int (fd_count f s)
    - (if p_ofile (the_proc s p) ! fd = Some f then 1 else 0) + (if g = Some f then 1 else 0)"
proof -
  have rest: "(\<Sum>q\<in>{..<NPROC} - {p}. count_list (p_ofile (the_proc (set_ofile fd g p s) q)) (Some f)) =
      (\<Sum>q\<in>{..<NPROC} - {p}. count_list (p_ofile (the_proc s q)) (Some f))"
    by (rule sum.cong) (auto simp: set_ofile_def upd_proc_def)
  have split: "fd_count f t = count_list (p_ofile (the_proc t p)) (Some f) +
      (\<Sum>q\<in>{..<NPROC} - {p}. count_list (p_ofile (the_proc t q)) (Some f))" for t :: "'a ptab_scheme"
    unfolding fd_count_def using assms(1) by (subst sum.remove [of _ p]) auto
  have "p_ofile (the_proc (set_ofile fd g p s) p) = (p_ofile (the_proc s p))[fd := g]"
    using assms(1,2) by (simp add: set_ofile_def)
  then show ?thesis
    unfolding split rest using count_list_update [OF assms(3), of g "Some f"] by simp
qed

lemma files_typed_set_ofile:
  assumes "files_typed e s" and "p < NPROC" and "fd < NOFILE" and "\<forall>f. g = Some f \<longrightarrow> f < NFILE"
  shows "files_typed (\<lambda>f. e f + (if p_ofile (the_proc s p) ! fd = Some f then 1 else 0) - (if g = Some f then 1 else 0))
    (set_ofile fd g p s)"
proof -
  have s: "length (procs s) = NPROC" "fd < length (p_ofile (the_proc s p))" using assms by (auto simp: files_typed_def)
  have "set ((p_ofile (the_proc s p))[fd := g]) \<subseteq> insert g (set (p_ofile (the_proc s p)))" by (rule set_update_subset_insert)
  then show ?thesis
    using assms fd_count_set_ofile [OF assms(2) s, of _ g]
    by (auto simp: files_typed_def set_ofile_def upd_proc_def nth_list_update)
qed

lemma files_typed_ref:
  assumes "files_typed e s" and "f < NFILE"
  shows "files_typed (e(f := e f + d)) (upd_file f (\<lambda>x. x\<lparr>f_ref := f_ref x + d\<rparr>) s)"
  using assms by (auto simp: files_typed_def upd_file_def nth_list_update fd_count_def)

lemma typed_held [simp]: "files_typed e (s\<lparr>held := l\<rparr>) = files_typed e s"
  by (simp add: files_typed_def fd_count_def)

lemma fd_count_pos:
  assumes "p < NPROC" and "Some f \<in> set (p_ofile (the_proc s p))"
  shows "0 < fd_count f s"
proof -
  have "count_list (p_ofile (the_proc s p)) (Some f) \<noteq> 0" using assms(2) by (simp add: count_list_0_iff)
  then show ?thesis unfolding fd_count_def using assms(1) by (subst sum_pos2 [of _ p]) auto
qed

subsection \<open>The operations on references\<close>

lemma filedup_typed:
  assumes "files_typed e s" and "FtableLock \<notin> set (held s)" and "f < NFILE" and "0 < int (fd_count f s) + e f"
  shows "\<exists>t. filedup f s = Done f t \<and> files_typed (e(f := e f + 1)) t \<and> held t = held s \<and> procs t = procs s \<and> cur t = cur s"
proof -
  let ?t = "upd_file f (\<lambda>x. x\<lparr>f_ref := f_ref x + 1\<rparr>) s"
  have "f_ref (the_file s f) = int (fd_count f s) + e f" using assms(1,3) by (simp add: files_typed_def)
  then have "filedup f s = Done f ?t"
    using assms(2,4) by (simp add: filedup_def acquire_free release_head upd_file_def)
  moreover have "files_typed (e(f := e f + 1)) ?t" by (rule files_typed_ref [OF assms(1,3)])
  ultimately show ?thesis by (intro exI [of _ ?t]) (simp add: upd_file_def)
qed

lemma fdalloc_typed:
  assumes "files_typed e s" and "cur s = Some p" and "p < NPROC" and "f < NFILE"
  shows "fdalloc f s = Done (-1) s \<or> (\<exists>fd t. fdalloc f s = Done (int fd) t \<and> files_typed (e(f := e f - 1)) t \<and>
    held t = held s \<and> int (fd_count f t) = int (fd_count f s) + 1)"
proof (cases "find (\<lambda>fd. p_ofile (the_proc s p) ! fd = None) [0..<NOFILE]")
  case None
  then show ?thesis using assms(2) by (simp add: fdalloc_def)
next
  case (Some fd)
  then have fd: "fd < NOFILE" "p_ofile (the_proc s p) ! fd = None" by (auto simp: find_upt_Some_iff)
  have len: "length (procs s) = NPROC" "fd < length (p_ofile (the_proc s p))" using assms fd by (auto simp: files_typed_def)
  have "files_typed (\<lambda>g. e g + (if p_ofile (the_proc s p) ! fd = Some g then 1 else 0) - (if Some f = Some g then 1 else 0))
      (set_ofile fd (Some f) p s)"
    by (rule files_typed_set_ofile) (use assms fd in auto)
  moreover have "(\<lambda>g. e g + (if p_ofile (the_proc s p) ! fd = Some g then 1 else 0) - (if Some f = Some g then 1 else 0)) = e(f := e f - 1)"
    using fd(2) by (auto simp: fun_eq_iff)
  moreover have "int (fd_count f (set_ofile fd (Some f) p s)) = int (fd_count f s) + 1"
    using fd(2) by (simp add: fd_count_set_ofile [OF assms(3) len])
  ultimately show ?thesis
    using Some assms(2) by (simp add: fdalloc_def set_ofile_def upd_proc_def)
qed

lemma fileclose_typed:
  assumes "files_typed e s" and "FtableLock \<notin> set (held s)" and "f < NFILE" and "1 < f_ref (the_file s f)"
  shows "\<exists>t. fileclose f s = Done () t \<and> files_typed (e(f := e f - 1)) t \<and> held t = held s"
proof -
  let ?t = "upd_file f (\<lambda>x. x\<lparr>f_ref := f_ref x - 1\<rparr>) s"
  have "length (ftable s) = NFILE" using assms(1) by (simp add: files_typed_def)
  then have "fileclose f s = Done () ?t"
    using assms(2-4) by (simp add: fileclose_def acquire_free release_head upd_file_def Let_def)
  moreover have "files_typed (e(f := e f - 1)) ?t" using files_typed_ref [OF assms(1,3), of "- 1"] by simp
  ultimately show ?thesis by (intro exI [of _ ?t]) (simp add: upd_file_def)
qed

lemma argfd_result:
  assumes "cur s = Some p"
  shows "argfd 0 s = Done None s \<or>
    (\<exists>fd f. argfd 0 s = Done (Some (fd, f)) s \<and> fd < NOFILE \<and> p_ofile (the_proc s p) ! fd = Some f)"
proof -
  obtain v where v: "argint 0 s = Done v s" using assms by (simp add: argint_def argraw_def)
  show ?thesis
  proof (cases "v < 0 \<or> int NOFILE \<le> v")
    case True
    then show ?thesis using v assms by (simp add: argfd_def)
  next
    case False
    then show ?thesis
      using v assms by (cases "p_ofile (the_proc s p) ! nat v") (auto simp: argfd_def)
  qed
qed

lemma files_typedD:
  assumes "files_typed e s" and "p < NPROC" and "fd < NOFILE" and "p_ofile (the_proc s p) ! fd = Some f"
  shows "f < NFILE" and "0 < fd_count f s" and "f_ref (the_file s f) = int (fd_count f s) + e f"
proof -
  have "Some f \<in> set (p_ofile (the_proc s p))"
    using assms unfolding files_typed_def by (metis nth_mem)
  then show "f < NFILE" "0 < fd_count f s" "f_ref (the_file s f) = int (fd_count f s) + e f"
    using assms(1,2) fd_count_pos by (auto simp: files_typed_def)
qed

lemma sys_dup_typed:
  assumes "files_typed (\<lambda>_. 0) s" and "cur s = Some p" and "p < NPROC" and "FtableLock \<notin> set (held s)"
  shows "\<exists>r t. sys_dup s = Done r t \<and> files_typed (\<lambda>_. 0) t"
proof (cases "argfd 0 s = Done None s")
  case True
  then show ?thesis using assms(1) by (simp add: sys_dup_def)
next
  case False
  then obtain fd f where a: "argfd 0 s = Done (Some (fd, f)) s" "fd < NOFILE" "p_ofile (the_proc s p) ! fd = Some f"
    using argfd_result [OF assms(2)] by blast
  have f: "f < NFILE" "0 < fd_count f s" by (rule files_typedD [OF assms(1,3) a(2,3)])+
  show ?thesis
  proof (cases "fdalloc f s = Done (-1) s")
    case True
    then show ?thesis using a(1) assms(1) by (simp add: sys_dup_def)
  next
    case False
    then obtain fd' t where t: "fdalloc f s = Done (int fd') t" "files_typed ((\<lambda>_. 0)(f := 0 - 1)) t" "held t = held s"
        "int (fd_count f t) = int (fd_count f s) + 1"
      using fdalloc_typed [OF assms(1-3) f(1)] by auto
    then obtain u where "filedup f t = Done f u" "files_typed (((\<lambda>_. 0)(f := 0 - 1))(f := ((\<lambda>_. 0)(f := 0 - 1)) f + 1)) u"
      using filedup_typed [OF t(2) _ f(1)] assms(4) f(2) by auto
    moreover have "((\<lambda>_. 0)(f := 0 - 1))(f := ((\<lambda>_. 0)(f := 0 - 1)) f + 1) = (\<lambda>_. 0 :: int)" by (simp add: fun_eq_iff)
    ultimately show ?thesis using a(1) t(1) by (simp add: sys_dup_def)
  qed
qed

lemma sys_close_typed:
  assumes "files_typed (\<lambda>_. 0) s" and "cur s = Some p" and "p < NPROC" and "FtableLock \<notin> set (held s)"
    and "\<forall>fd f. argfd 0 s = Done (Some (fd, f)) s \<longrightarrow> 1 < f_ref (the_file s f)"
  shows "\<exists>r t. sys_close s = Done r t \<and> files_typed (\<lambda>_. 0) t"
proof (cases "argfd 0 s = Done None s")
  case True
  then show ?thesis using assms(1) by (simp add: sys_close_def)
next
  case False
  then obtain fd f where a: "argfd 0 s = Done (Some (fd, f)) s" "fd < NOFILE" "p_ofile (the_proc s p) ! fd = Some f"
    using argfd_result [OF assms(2)] by blast
  have f: "f < NFILE" by (rule files_typedD [OF assms(1,3) a(2,3)])
  let ?s = "set_ofile fd None p s"
  have "files_typed (\<lambda>g. 0 + (if p_ofile (the_proc s p) ! fd = Some g then 1 else 0) - (if None = Some g then 1 else 0)) ?s"
    by (rule files_typed_set_ofile) (use assms a in auto)
  moreover have "(\<lambda>g. 0 + (if p_ofile (the_proc s p) ! fd = Some g then 1 else 0) - (if None = Some g then 1 else 0)) = ((\<lambda>_. 0 :: int)(f := 1))"
    using a(3) by (auto simp: fun_eq_iff)
  ultimately have ty: "files_typed ((\<lambda>_. 0)(f := 1)) ?s" by simp
  have "1 < f_ref (the_file ?s f)" "FtableLock \<notin> set (held ?s)"
    using assms(4,5) a(1) by (simp_all add: set_ofile_def upd_proc_def)
  then obtain t where "fileclose f ?s = Done () t" "files_typed (((\<lambda>_. 0)(f := 1))(f := ((\<lambda>_. 0)(f := 1)) f - 1)) t"
    using fileclose_typed [OF ty _ f] by auto
  moreover have "((\<lambda>_. 0)(f := 1))(f := ((\<lambda>_. 0)(f := 1)) f - 1) = (\<lambda>_. 0 :: int)" by (simp add: fun_eq_iff)
  ultimately show ?thesis using a(1) assms(2) by (simp add: sys_close_def)
qed

text \<open>The loop of \<open>kfork\<close> gives the child the descriptors of its parent.\<close>

lemma kfork_fds_typed:
  assumes "files_typed (\<lambda>_. 0) s" and "p < NPROC" and "np < NPROC" and "np \<noteq> p" and "FtableLock \<notin> set (held s)"
    and "p_ofile (the_proc s np) = replicate NOFILE None" and "n \<le> NOFILE"
  shows "\<exists>t. loop_all (kfork_fd np p) [0..<n] s = Done () t \<and> files_typed (\<lambda>_. 0) t \<and> held t = held s \<and>
    p_ofile (the_proc t p) = p_ofile (the_proc s p) \<and>
    p_ofile (the_proc t np) = take n (p_ofile (the_proc s p)) @ replicate (NOFILE - n) None"
  using assms(7)
proof (induction n)
  case 0
  then show ?case using assms by simp
next
  case (Suc n)
  then obtain t where t: "loop_all (kfork_fd np p) [0..<n] s = Done () t" "files_typed (\<lambda>_. 0) t" "held t = held s"
      "p_ofile (the_proc t p) = p_ofile (the_proc s p)"
      "p_ofile (the_proc t np) = take n (p_ofile (the_proc s p)) @ replicate (NOFILE - n) None"
    by auto
  have len: "length (p_ofile (the_proc s p)) = NOFILE" "length (procs t) = NPROC"
    using assms(1,2) t(2) by (auto simp: files_typed_def)
  have take: "take (Suc n) (p_ofile (the_proc s p)) = take n (p_ofile (the_proc s p)) @ [p_ofile (the_proc s p) ! n]"
    using len Suc.prems by (simp add: take_Suc_conv_app_nth)
  have rep: "replicate (NOFILE - n) None = None # replicate (NOFILE - Suc n) (None :: nat option)"
    using Suc.prems by (simp add: Suc_diff_Suc flip: replicate_Suc)
  have step: "loop_all (kfork_fd np p) [0..<Suc n] s = kfork_fd np p n t" using t(1) by (simp add: loop_all_append)
  have none: "p_ofile (the_proc t np) ! n = None" using len Suc.prems by (simp add: t(5) nth_append)
  show ?case
  proof (cases "p_ofile (the_proc s p) ! n")
    case None
    then show ?thesis
      unfolding step using t take rep by (intro exI [of _ t]) (simp add: kfork_fd_def)
  next
    case (Some f)
    have "n < NOFILE" "p_ofile (the_proc t p) ! n = Some f" using Suc.prems Some t(4) by simp_all
    from files_typedD [OF t(2) assms(2) this] have f: "f < NFILE" "0 < fd_count f t" by auto
    obtain u where u: "filedup f t = Done f u" "files_typed ((\<lambda>_. 0)(f := 0 + 1)) u" "held u = held t" "procs u = procs t"
      using filedup_typed [OF t(2) _ f(1)] assms(5) t(3) f(2) by auto
    let ?v = "set_ofile n (Some f) np u"
    have "files_typed (\<lambda>g. ((\<lambda>_. 0)(f := 0 + 1)) g + (if p_ofile (the_proc u np) ! n = Some g then 1 else 0) - (if Some f = Some g then 1 else 0)) ?v"
      by (rule files_typed_set_ofile [OF u(2)]) (use assms(3) f Suc.prems in auto)
    moreover have "(\<lambda>g. ((\<lambda>_. 0)(f := 0 + 1)) g + (if p_ofile (the_proc u np) ! n = Some g then 1 else 0) - (if Some f = Some g then 1 else 0)) = (\<lambda>_. 0 :: int)"
      using none u(4) by (auto simp: fun_eq_iff)
    ultimately have "files_typed (\<lambda>_. 0) ?v" by simp
    moreover have "held ?v = held s" "p_ofile (the_proc ?v p) = p_ofile (the_proc s p)"
      using t(3,4) u(3,4) assms(4) by (simp_all add: set_ofile_def upd_proc_def)
    moreover have "p_ofile (the_proc ?v np) = take (Suc n) (p_ofile (the_proc s p)) @ replicate (NOFILE - Suc n) None"
      using assms(3) len Suc.prems unfolding take rep [symmetric]
      by (simp add: set_ofile_def upd_proc_def u(4) t(5) rep list_update_append Some)
    moreover have "loop_all (kfork_fd np p) [0..<Suc n] s = Done () ?v"
      unfolding step using t(4) u(1) Some by (simp add: kfork_fd_def)
    ultimately show ?thesis by blast
  qed
qed

text \<open>
  C31: descriptors stay typed. In a state where every descriptor refers to an entry of the file table and every
  reference count is the number of descriptors that refer to the entry, \<open>dup\<close> returns in such a state whatever
  its argument is; \<open>close\<close> does, when the descriptor is not the last one of its file; and the loop of \<open>kfork\<close>
  gives the child exactly the descriptors of its parent, again in such a state.
\<close>
theorem descriptors_typed:
  assumes "files_typed (\<lambda>_. 0) s" and "cur s = Some p" and "p < NPROC" and "FtableLock \<notin> set (held s)"
  shows "(\<exists>r t. sys_dup s = Done r t \<and> files_typed (\<lambda>_. 0) t) \<and>
    ((\<forall>fd f. argfd 0 s = Done (Some (fd, f)) s \<longrightarrow> 1 < f_ref (the_file s f)) \<longrightarrow>
      (\<exists>r t. sys_close s = Done r t \<and> files_typed (\<lambda>_. 0) t)) \<and>
    (\<forall>np < NPROC. np \<noteq> p \<longrightarrow> p_ofile (the_proc s np) = replicate NOFILE None \<longrightarrow>
      (\<exists>t. loop_all (kfork_fd np p) [0..<NOFILE] s = Done () t \<and> files_typed (\<lambda>_. 0) t \<and>
        p_ofile (the_proc t np) = p_ofile (the_proc s p)))"
proof (intro conjI allI impI)
  show "\<exists>r t. sys_dup s = Done r t \<and> files_typed (\<lambda>_. 0) t" by (rule sys_dup_typed [OF assms])
  show "\<exists>r t. sys_close s = Done r t \<and> files_typed (\<lambda>_. 0) t"
    if "\<forall>fd f. argfd 0 s = Done (Some (fd, f)) s \<longrightarrow> 1 < f_ref (the_file s f)"
    by (rule sys_close_typed [OF assms that])
  have "length (p_ofile (the_proc s p)) = NOFILE" using assms(1,3) by (simp add: files_typed_def)
  then show "\<exists>t. loop_all (kfork_fd np p) [0..<NOFILE] s = Done () t \<and> files_typed (\<lambda>_. 0) t \<and>
        p_ofile (the_proc t np) = p_ofile (the_proc s p)"
    if "np < NPROC" "np \<noteq> p" "p_ofile (the_proc s np) = replicate NOFILE None" for np
    using kfork_fds_typed [OF assms(1,3) that(1,2) assms(4) that(3), of NOFILE] by auto
qed

subsection \<open>A concrete table\<close>

text \<open>Descriptor 3 of process 0 refers to file 7, its only reference; the argument of the call is 3.\<close>

definition fd_sample :: trapst where
  "fd_sample = set_ofile 3 (Some 7) 0 (upd_file 7 (\<lambda>x. x\<lparr>f_ref := 1\<rparr>) (user_sample 3 0 0))"

lemma user_sample_typed: "files_typed (\<lambda>_. 0) (user_sample a0 a1 a2)"
proof -
  have "p_ofile (the_proc (user_sample a0 a1 a2) p) = replicate NOFILE None" if "p < NPROC" for p
    using that by (cases "p = 0") (simp_all add: zero_proc_def)
  moreover from this have "fd_count f (user_sample a0 a1 a2) = 0" for f
    by (simp add: fd_count_def)
  ultimately show ?thesis
    by (simp add: files_typed_def user_sample_def sample_defs zero_file_def)
qed

lemma fd_sample_typed: "files_typed (\<lambda>_. 0) fd_sample"
proof -
  let ?u = "upd_file 7 (\<lambda>x. x\<lparr>f_ref := f_ref x + 1\<rparr>) (user_sample 3 0 0)"
  have "the_file (user_sample 3 0 0) 7 = zero_file" by (simp add: user_sample_def sample_defs)
  then have e: "upd_file 7 (\<lambda>x. x\<lparr>f_ref := 1\<rparr>) (user_sample 3 0 0) = ?u" by (simp add: upd_file_def zero_file_def)
  have none: "p_ofile (the_proc ?u 0) ! 3 = None" by (simp add: upd_file_def zero_proc_def)
  have "files_typed ((\<lambda>_. 0)(7 := 0 + 1)) ?u" by (rule files_typed_ref [OF user_sample_typed]) simp
  then have "files_typed (\<lambda>g. ((\<lambda>_. 0)(7 := 0 + 1)) g + (if p_ofile (the_proc ?u 0) ! 3 = Some g then 1 else 0) - (if Some 7 = Some g then 1 else 0))
      (set_ofile 3 (Some 7) 0 ?u)"
    by (rule files_typed_set_ofile) simp_all
  moreover have "(\<lambda>g. ((\<lambda>_. 0)(7 := 0 + 1)) g + (if p_ofile (the_proc ?u 0) ! 3 = Some g then 1 else 0) - (if Some 7 = Some g then 1 else 0)) = (\<lambda>_. 0 :: int)"
    unfolding none by (auto simp: fun_eq_iff)
  ultimately show ?thesis by (simp add: fd_sample_def e)
qed

lemma descriptors_typed_witness:
  "\<exists>r t. sys_dup fd_sample = Done r t \<and> files_typed (\<lambda>_. 0) t"
  using descriptors_typed [OF fd_sample_typed, of 0] by (simp add: fd_sample_def set_ofile_def upd_proc_def upd_file_def)

end
