(* ===== verification/Freewalk.thy ===== *)
theory Freewalk
  imports Pagetable
begin

section \<open>Page tables without mappings\<close>

text \<open>
  \<open>uvmcreate\<close> gives an empty root, \<open>walk\<close> adds tables to it one by one, and \<open>freewalk\<close> gives all of them back.
  \<open>hollow l m pt\<close>: the page table at \<open>pt\<close> maps nothing, whatever tables it has; these are the page tables
  \<open>freewalk\<close> accepts. The lemmas count pages exactly: how many a walk takes, and that none is lost.
\<close>

lemma free_chain_unique:
  "free_chain m p ps \<Longrightarrow> free_chain m p qs \<Longrightarrow> 0 \<notin> set ps \<Longrightarrow> 0 \<notin> set qs \<Longrightarrow> ps = qs"
proof (induction ps arbitrary: p qs)
  case Nil
  then show ?case by (cases qs) auto
next
  case (Cons a ps)
  then show ?case by (cases qs) auto
qed

lemma kpool_unique: "kpool_inv s ps \<Longrightarrow> kpool_inv s qs \<Longrightarrow> ps = qs"
  using free_chain_unique [of "mem s" "freelist s" ps qs] kpool.pool_pages [of s ps] kpool.pool_pages [of s qs]
  by (auto simp: kpool_inv_def kmem_inv_def)

lemma moved_unique:
  assumes "moved pt T ps s u t" and "moved pt T ps s v t"
  shows "u = v"
proof -
  obtain p q where "ps = u @ p" "kpool_inv t p" "ps = v @ q" "kpool_inv t q"
    using assms unfolding moved_def tables_ok_def by blast
  then show ?thesis using kpool_unique [of t p q] by simp
qed

lemma grown_unique:
  assumes "grown l pt T ps s u t" and "grown k q D ps s v t"
  shows "u = v"
proof -
  obtain x y where "ps = u @ x" "kpool_inv t x" "ps = v @ y" "kpool_inv t y"
    using assms unfolding grown_def tables_ok_def by blast
  then show ?thesis using kpool_unique [of t x y] by simp
qed

text \<open>Memory changes elsewhere.\<close>

lemma kpool_frame:
  assumes "kpool_inv s ps" and "same_outside A (mem s) m" and "\<forall>a \<in> A. page_aligned a" and "set ps \<inter> A = {}"
  shows "kpool_inv (s\<lparr>mem := m\<rparr>) ps"
proof -
  have "\<forall>b \<in> set ps. page_aligned b" using assms(1) valid_page_aligned by (auto simp: kpool_inv_def kmem_inv_def)
  then have "free_chain m (freelist s) ps = free_chain (mem s) (freelist s) ps"
    using free_chain_frame [OF assms(2,3) _ assms(4)] by blast
  then show ?thesis using assms(1) by (simp add: kpool_inv_def kmem_inv_def)
qed

subsection \<open>Hollow tables\<close>

primrec hollow :: "nat \<Rightarrow> mem \<Rightarrow> u64 \<Rightarrow> bool" where
  "hollow 0 m pt \<longleftrightarrow> (\<forall>i < 512. \<not> bit (pt_entry m pt i) 0)"
| "hollow (Suc l) m pt \<longleftrightarrow> (\<forall>i < 512. bit (pt_entry m pt i) 0 \<longrightarrow>
     pt_entry m pt i AND (PTE_R OR PTE_W OR PTE_X) = 0 \<and> hollow l m (PTE2PA (pt_entry m pt i)))"

lemma hollow_zero: "\<forall>i < 512. pt_entry m pt i = 0 \<Longrightarrow> hollow l m pt"
  by (cases l) simp_all

lemma hollow_agree: "hollow l m pt \<Longrightarrow> ptree l m pt T \<Longrightarrow> agree T m m' \<Longrightarrow> hollow l m' pt"
proof (induction l arbitrary: pt T)
  case 0
  then show ?case by (simp add: pt_entry_agree)
next
  case (Suc l)
  then obtain C where T: "T = insert pt (\<Union>i<512. C i)" and
    sub: "\<forall>i<512. if bit (pt_entry m pt i) 0 then ptree l m (PTE2PA (pt_entry m pt i)) (C i) else C i = {}"
    by auto
  have e: "pt_entry m' pt i = pt_entry m pt i" if "i < 512" for i
    using Suc.prems that by (intro pt_entry_agree) (auto simp: T)
  have "agree (C i) m m'" if "i < 512" for i
    using Suc.prems(3) by (rule agree_mono) (use that T in auto)
  then have "hollow l m' (PTE2PA (pt_entry m pt i))" if "i < 512" "bit (pt_entry m pt i) 0" for i
    using Suc.IH [of "PTE2PA (pt_entry m pt i)" "C i"] Suc.prems(1) sub that by simp
  then show ?case using Suc.prems(1) e by simp
qed

lemma new_pte_flags: "(PA2PTE a OR PTE_V) AND (PTE_R OR PTE_W OR PTE_X) = 0"
proof (rule bit_word_eqI)
  fix n assume "n < LENGTH(64)"
  have "bit (PTE_R OR PTE_W OR PTE_X) n \<Longrightarrow> n = 1 \<or> n = 2 \<or> n = 3"
    using PTE_bits_zero by (auto simp: bit_or_iff bit_numeral_rec bit_1_iff split: nat.splits)
  then show "bit ((PA2PTE a OR PTE_V) AND (PTE_R OR PTE_W OR PTE_X)) n = bit (0 :: u64) n"
    by (auto simp: bit_and_iff bit_or_iff PA2PTE_def bit_push_bit_iff bit_1_iff)
qed

subsection \<open>freewalk\<close>

text \<open>\<open>freewalk\<close> of a hollow table returns, with exactly its pages given back.\<close>

definition gives_back :: "u64 set \<Rightarrow> u64 list \<Rightarrow> 'z pmem_scheme \<Rightarrow> 'z pmem_scheme \<Rightarrow> bool" where
  "gives_back D ps s t \<longleftrightarrow> (\<exists>qs. kpool_inv t qs \<and> set qs = D \<union> set ps) \<and> same_outside D (mem s) (mem t) \<and>
     t = s\<lparr>mem := mem t, freelist := freelist t\<rparr>"

lemma freewalk_entry:
  fixes s u :: "'z pmem_scheme"
  assumes ok: "tables_ok s (Suc l) pt T ps" and hl: "hollow (Suc l) (mem s) pt"
    and C: "T = insert pt (\<Union>i<512. C i)" "\<forall>i<512. pt \<notin> C i" "\<forall>i<512. \<forall>j<512. i \<noteq> j \<longrightarrow> C i \<inter> C j = {}"
      "\<forall>i<512. if bit (pt_entry (mem s) pt i) 0 then ptree l (mem s) (PTE2PA (pt_entry (mem s) pt i)) (C i) else C i = {}"
    and i: "i < 512"
    and u: "kpool_inv u qs" "set qs = set ps \<union> (\<Union>k<i. C k)" "same_outside (insert pt (\<Union>k<i. C k)) (mem s) (mem u)"
      "\<forall>k. i \<le> k \<longrightarrow> k < 512 \<longrightarrow> pt_entry (mem u) pt k = pt_entry (mem s) pt k" "u = s\<lparr>mem := mem u, freelist := freelist u\<rparr>"
    and IH: "\<And>c D rs (w :: 'z pmem_scheme). tables_ok w l c D rs \<Longrightarrow> hollow l (mem w) c \<Longrightarrow> \<exists>t. freewalk (Suc l) c w = Done () t \<and> gives_back D rs w t"
  shows "\<exists>v rs. (let a = pt + 8 * of_nat i; pte = get_pte u a in
          if pte AND PTE_V \<noteq> 0 \<and> pte AND (PTE_R OR PTE_W OR PTE_X) = 0
          then bnd (freewalk (Suc l) (PTE2PA pte) u) (\<lambda>_ s. Done () (set_pte a 0 s))
          else if pte AND PTE_V \<noteq> 0 then Panic ''freewalk: leaf''
          else Done () u) = Done () v \<and>
    kpool_inv v rs \<and> set rs = set ps \<union> (\<Union>k<Suc i. C k) \<and> same_outside (insert pt (\<Union>k<Suc i. C k)) (mem s) (mem v) \<and>
    (\<forall>k. Suc i \<le> k \<longrightarrow> k < 512 \<longrightarrow> pt_entry (mem v) pt k = pt_entry (mem s) pt k) \<and> v = s\<lparr>mem := mem v, freelist := freelist v\<rparr>"
proof -
  let ?e = "pt_entry (mem s) pt i" and ?c = "PTE2PA (pt_entry (mem s) pt i)"
  have e: "get_pte u (pt + 8 * of_nat i) = ?e" using u(4) i by (simp add: get_pte_def pt_entry_def)
  have al: "\<forall>a \<in> T \<union> set ps. page_aligned a" by (rule tables_ok_aligned [OF ok])
  show ?thesis
  proof (cases "bit ?e 0")
    case False
    then have "C i = {}" using C(4) i by simp
    then show ?thesis using False u e by (intro exI [of _ u] exI [of _ qs]) (auto simp: PTE_bits lessThan_Suc)
  next
    case True
    have fl: "?e AND (PTE_R OR PTE_W OR PTE_X) = 0" and hc: "hollow l (mem s) ?c" using hl i True by simp_all
    have pc: "ptree l (mem s) ?c (C i)" using C(4) i True by simp
    have Ci: "C i \<subseteq> T" "pt \<notin> C i" using C(1,2) i by auto
    have "C i \<inter> C k = {}" if "k < i" for k using C(3) i that by simp
    then have d1: "C i \<inter> (\<Union>k<i. C k) = {}" by blast
    have "T \<inter> set ps = {}" using ok unfolding tables_ok_def by blast
    then have "C i \<inter> set ps = {}" "pt \<notin> set ps" "pt \<notin> (\<Union>k<i. C k)" using C(1,2) i by auto
    note dis = d1 this
    have ag: "agree (C i) (mem s) (mem u)"
    proof (rule same_outside_agree [OF u(3)])
      have "(\<Union>k<i. C k) \<subseteq> T" using C(1) i by force
      then have "insert pt (\<Union>k<i. C k) \<union> C i \<subseteq> T" using Ci C(1) by blast
      then show "\<forall>a \<in> insert pt (\<Union>k<i. C k) \<union> C i. page_aligned a" using al by blast
      show "insert pt (\<Union>k<i. C k) \<inter> C i = {}" using dis Ci(2) by blast
    qed
    have ke: "kend u = kend s" by (subst u(5)) simp
    have "tables_ok u l ?c (C i) qs"
      using ptree_agree [OF pc ag] u(1,2) dis ok Ci ke by (auto simp: tables_ok_def)
    moreover have "hollow l (mem u) ?c" by (rule hollow_agree [OF hc pc ag])
    ultimately obtain w where w: "freewalk (Suc l) ?c u = Done () w" "gives_back (C i) qs u w" using IH by blast
    then obtain rs where rs: "kpool_inv w rs" "set rs = C i \<union> set qs" "same_outside (C i) (mem u) (mem w)"
        "w = u\<lparr>mem := mem w, freelist := freelist w\<rparr>" by (auto simp: gives_back_def)
    let ?v = "set_pte (pt + 8 * of_nat i) 0 w"
    have v: "mem ?v = store64 (pt + of_nat (8 * i)) 0 (mem w)" by (simp add: set_pte_def)
    have so: "same_outside {pt} (mem w) (mem ?v)" unfolding v by (rule same_outside_store_entry [OF i])
    have pal: "page_aligned pt" using al C(1) by simp
    have "kpool_inv (w\<lparr>mem := mem ?v\<rparr>) rs"
      by (rule kpool_frame [OF rs(1) so]) (use pal rs(2) u(2) Ci(2) dis in auto)
    then have "kpool_inv ?v rs" by (simp add: set_pte_def)
    moreover have "set rs = set ps \<union> (\<Union>k<Suc i. C k)" using rs(2) u(2) by (auto simp: lessThan_Suc)
    moreover have "same_outside (insert pt (\<Union>k<Suc i. C k)) (mem s) (mem ?v)"
      using same_outside_trans [OF same_outside_trans [OF u(3) rs(3)] so]
      by (rule same_outside_mono) (auto simp: lessThan_Suc)
    moreover have "pt_entry (mem ?v) pt k = pt_entry (mem s) pt k" if "Suc i \<le> k" "k < 512" for k
    proof -
      have "pt_entry (mem ?v) pt k = pt_entry (mem w) pt k"
        unfolding v by (rule pt_entry_store_other) (use pal i that in auto)
      also have "\<dots> = pt_entry (mem u) pt k"
        by (rule pt_entry_agree [OF same_outside_agree [OF rs(3), of "{pt}"]]) (use al Ci C(1) that in auto)
      finally show ?thesis using u(4) that by simp
    qed
    moreover have "?v = s\<lparr>mem := mem ?v, freelist := freelist ?v\<rparr>"
    proof -
      have "w = s\<lparr>mem := mem w, freelist := freelist w\<rparr>" by (rule frame_trans [OF u(5) rs(4)])
      from frame_mem_update [OF this, of "mem ?v"] show ?thesis by (simp add: set_pte_def)
    qed
    ultimately show ?thesis
      using True fl e w(1) by (intro exI [of _ ?v] exI [of _ rs]) (simp add: PTE_bits Let_def del: freewalk.simps)
  qed
qed

lemma freewalk_level0:
  assumes "\<forall>i < 512. \<not> bit (pt_entry (mem s) pt i) 0" and "n \<le> 512"
  shows "loop_all (\<lambda>i s. let a = pt + 8 * of_nat i; pte = get_pte s a in
          if pte AND PTE_V \<noteq> 0 \<and> pte AND (PTE_R OR PTE_W OR PTE_X) = 0
          then bnd (freewalk d (PTE2PA pte) s) (\<lambda>_ s. Done () (set_pte a 0 s))
          else if pte AND PTE_V \<noteq> 0 then Panic ''freewalk: leaf''
          else Done () s) [0..<n] s = Done () s"
  using assms
proof (induction n)
  case (Suc n)
  have "\<not> bit (get_pte s (pt + 8 * of_nat n)) 0"
    using Suc.prems by (simp add: get_pte_def pt_entry_def)
  then show ?case using Suc by (simp add: loop_all_append PTE_bits Let_def)
qed simp

lemma freewalk_loop:
  fixes s :: "'z pmem_scheme"
  assumes ok: "tables_ok s (Suc l) pt T ps" and hl: "hollow (Suc l) (mem s) pt"
    and C: "T = insert pt (\<Union>i<512. C i)" "\<forall>i<512. pt \<notin> C i" "\<forall>i<512. \<forall>j<512. i \<noteq> j \<longrightarrow> C i \<inter> C j = {}"
      "\<forall>i<512. if bit (pt_entry (mem s) pt i) 0 then ptree l (mem s) (PTE2PA (pt_entry (mem s) pt i)) (C i) else C i = {}"
    and IH: "\<And>c D rs (w :: 'z pmem_scheme). tables_ok w l c D rs \<Longrightarrow> hollow l (mem w) c \<Longrightarrow> \<exists>t. freewalk (Suc l) c w = Done () t \<and> gives_back D rs w t"
    and n: "n \<le> 512"
  shows "\<exists>v rs. loop_all (\<lambda>i s. let a = pt + 8 * of_nat i; pte = get_pte s a in
          if pte AND PTE_V \<noteq> 0 \<and> pte AND (PTE_R OR PTE_W OR PTE_X) = 0
          then bnd (freewalk (Suc l) (PTE2PA pte) s) (\<lambda>_ s. Done () (set_pte a 0 s))
          else if pte AND PTE_V \<noteq> 0 then Panic ''freewalk: leaf''
          else Done () s) [0..<n] s = Done () v \<and>
    kpool_inv v rs \<and> set rs = set ps \<union> (\<Union>k<n. C k) \<and> same_outside (insert pt (\<Union>k<n. C k)) (mem s) (mem v) \<and>
    (\<forall>k. n \<le> k \<longrightarrow> k < 512 \<longrightarrow> pt_entry (mem v) pt k = pt_entry (mem s) pt k) \<and> v = s\<lparr>mem := mem v, freelist := freelist v\<rparr>"
  using n
proof (induction n)
  case 0
  have "kpool_inv s ps" using ok by (simp add: tables_ok_def)
  then show ?case by (intro exI [of _ s] exI [of _ ps]) simp
next
  case (Suc n)
  let ?f = "\<lambda>i s. let a = pt + 8 * of_nat i; pte = get_pte s a in
          if pte AND PTE_V \<noteq> 0 \<and> pte AND (PTE_R OR PTE_W OR PTE_X) = 0
          then bnd (freewalk (Suc l) (PTE2PA pte) s) (\<lambda>_ s. Done () (set_pte a 0 s))
          else if pte AND PTE_V \<noteq> 0 then Panic ''freewalk: leaf''
          else Done () s"
  obtain u qs where u: "loop_all ?f [0..<n] s = Done () u" "kpool_inv u qs" "set qs = set ps \<union> (\<Union>k<n. C k)"
      "same_outside (insert pt (\<Union>k<n. C k)) (mem s) (mem u)"
      "\<forall>k. n \<le> k \<longrightarrow> k < 512 \<longrightarrow> pt_entry (mem u) pt k = pt_entry (mem s) pt k" "u = s\<lparr>mem := mem u, freelist := freelist u\<rparr>"
    using Suc by auto
  have "n < 512" using Suc.prems by simp
  have step: "\<exists>v rs. ?f n u = Done () v \<and> kpool_inv v rs \<and> set rs = set ps \<union> (\<Union>k<Suc n. C k) \<and>
      same_outside (insert pt (\<Union>k<Suc n. C k)) (mem s) (mem v) \<and>
      (\<forall>k. Suc n \<le> k \<longrightarrow> k < 512 \<longrightarrow> pt_entry (mem v) pt k = pt_entry (mem s) pt k) \<and> v = s\<lparr>mem := mem v, freelist := freelist v\<rparr>"
    by (rule freewalk_entry [OF ok hl C \<open>n < 512\<close> u(2-6) IH])
  have "loop_all ?f [0..<Suc n] s = bnd (loop_all ?f [0..<n] s) (\<lambda>_. loop_all ?f [n])"
    by (simp only: upt_Suc_append [of 0 n] le0 loop_all_append)
  then have "loop_all ?f [0..<Suc n] s = bnd (?f n u) (\<lambda>_. Done ())" unfolding u(1) by simp
  with step show ?case by (elim exE conjE) (simp only: bnd.simps, blast)
qed

lemma freewalk_gives_back:
  "tables_ok s l pt T ps \<Longrightarrow> hollow l (mem s) pt \<Longrightarrow> \<exists>t. freewalk (Suc l) pt s = Done () t \<and> gives_back T ps s t"
proof (induction l arbitrary: s pt T ps)
  case 0
  then have T: "T = {pt}" and pool: "kpool_inv s ps" "valid_page (kend s) pt" "pt \<notin> set ps"
    by (auto simp: tables_ok_def)
  then obtain t where t: "kfree pt s = Done () t" "kmem_inv t (pt # ps)" "same_outside {pt} (mem s) (mem t)" "held t = held s"
    using kfree_inv [of s ps pt] by (auto simp: kpool_inv_def returns_def)
  have "freewalk (Suc 0) pt s = Done () t"
    using freewalk_level0 [of s pt 512 0] 0(2) t(1) by simp
  moreover have "kpool_inv t (pt # ps)" using t pool(1) by (simp add: kpool_inv_def)
  then have "\<exists>qs. kpool_inv t qs \<and> set qs = T \<union> set ps" by (intro exI [of _ "pt # ps"]) (simp add: T)
  ultimately show ?case using t(3) kfree_frame [OF t(1)] by (auto simp: gives_back_def T)
next
  case (Suc l)
  obtain C where C: "T = insert pt (\<Union>i<512. C i)" "\<forall>i<512. pt \<notin> C i" "\<forall>i<512. \<forall>j<512. i \<noteq> j \<longrightarrow> C i \<inter> C j = {}"
      "\<forall>i<512. if bit (pt_entry (mem s) pt i) 0 then ptree l (mem s) (PTE2PA (pt_entry (mem s) pt i)) (C i) else C i = {}"
    using Suc.prems(1) unfolding tables_ok_def ptree.simps by blast
  obtain v rs where v: "loop_all (\<lambda>i s. let a = pt + 8 * of_nat i; pte = get_pte s a in
          if pte AND PTE_V \<noteq> 0 \<and> pte AND (PTE_R OR PTE_W OR PTE_X) = 0
          then bnd (freewalk (Suc l) (PTE2PA pte) s) (\<lambda>_ s. Done () (set_pte a 0 s))
          else if pte AND PTE_V \<noteq> 0 then Panic ''freewalk: leaf''
          else Done () s) [0..<512] s = Done () v"
      "kpool_inv v rs" "set rs = set ps \<union> (\<Union>k<512. C k)" "same_outside (insert pt (\<Union>k<512. C k)) (mem s) (mem v)"
      "v = s\<lparr>mem := mem v, freelist := freelist v\<rparr>"
    using freewalk_loop [OF Suc.prems C Suc.IH, of 512] by auto
  have "kend v = kend s" by (subst v(5)) simp
  then have pt: "valid_page (kend v) pt" "pt \<notin> set rs"
    using Suc.prems(1) C(1,2) v(3) by (auto simp: tables_ok_def)
  then obtain t where t: "kfree pt v = Done () t" "kmem_inv t (pt # rs)" "same_outside {pt} (mem v) (mem t)" "held t = held v"
    using kfree_inv [of v rs pt] v(2) by (auto simp: kpool_inv_def returns_def)
  have "freewalk (Suc (Suc l)) pt s = Done () t"
    unfolding freewalk.simps(2) [of "Suc l"] v(1) bnd.simps by (rule t(1))
  moreover have "kpool_inv t (pt # rs)" using t v(2) by (simp add: kpool_inv_def)
  then have "\<exists>qs. kpool_inv t qs \<and> set qs = T \<union> set ps" by (intro exI [of _ "pt # rs"]) (auto simp: C(1) v(3))
  moreover have "same_outside T (mem s) (mem t)"
    using same_outside_trans [OF v(4) t(3)] by (rule same_outside_mono) (auto simp: C(1))
  moreover have "t = s\<lparr>mem := mem t, freelist := freelist t\<rparr>" by (rule frame_trans [OF v(5) kfree_frame [OF t(1)]])
  ultimately show ?case by (auto simp: gives_back_def)
qed

subsection \<open>A walk into an empty table\<close>

text \<open>It needs a page for every level below the root, no more and no less.\<close>

lemma walk_fresh:
  assumes "tables_ok s l pt {pt} ps" and "\<forall>i < 512. pt_entry (mem s) pt i = 0"
  shows "\<exists>r t. walk_level l pt va True s = Done r t \<and> grown l pt {pt} ps s (take l ps) t \<and>
    (r = 0 \<longleftrightarrow> length ps < l) \<and> hollow l (mem t) pt"
  using assms
proof (induction l arbitrary: s pt ps)
  case 0
  have "valid_page (kend s) pt" "0 < kend s"
    using 0 by (auto simp: tables_ok_def kpool_inv_def kmem_inv_def)
  then have "pte_at 0 pt va \<noteq> 0" by (rule leaf_addr_0_nonzero)
  then show ?case using grown_refl [OF 0(1)] 0(2) by (intro exI [of _ "pte_at 0 pt va"] exI [of _ s]) simp
next
  case (Suc l)
  let ?i = "idx (Suc l) va"
  have z: "pt_entry (mem s) pt ?i = 0" using Suc.prems(2) by simp
  have "get_pte s (pte_at (Suc l) pt va) = 0"
    using z by (simp only: get_pte_def pt_entry_def pte_at_idx)
  then have step: "walk_level (Suc l) pt va True s = bnd (kalloc s) (\<lambda>new t.
      if new = 0 then Done 0 t else walk_level l new va True (install l pt va new t))"
    unfolding install_def by (simp add: Let_def)
  have inv: "kpool_inv s ps" using Suc.prems by (simp add: tables_ok_def)
  show ?case
  proof (cases ps)
    case Nil
    then have "kalloc s = Done 0 s" using inv kpool.alloc_none by blast
    then have "walk_level (Suc l) pt va True s = Done 0 s" using step by simp
    with grown_refl [OF Suc.prems(1)] Nil hollow_zero [OF Suc.prems(2), of "Suc l"] show ?thesis
      by (intro exI [of _ 0] exI [of _ s]) simp
  next
    case (Cons a qs)
    then obtain t where t: "kalloc s = Done a t" "kmem_inv t qs" "same_outside {a} (mem s) (mem t)" "held t = held s"
      using inv kalloc_inv [of s a qs] by (auto simp: kpool_inv_def)
    then have pool: "kpool_inv t qs" using inv by (simp add: kpool_inv_def)
    have "a \<noteq> 0" using inv Cons kpool.pool_pages [of s ps] by simp
    let ?u = "install l pt va a t"
    have "\<not> bit (pt_entry (mem s) pt ?i) 0" using z by simp
    note inst = install_grows [OF Suc.prems(1) [unfolded Cons] this t(1) pool t(3)]
    have ok: "tables_ok ?u (Suc l) pt ({pt} \<union> {a}) qs" using inst(1) by (simp add: grown_def)
    have ap: "valid_page (kend s) a" "a \<noteq> pt" "a \<notin> set qs" "pt \<notin> set qs"
      using Suc.prems(1) Cons by (auto simp: tables_ok_def kpool_inv_def kmem_inv_def)
    have c: "PTE2PA (PA2PTE a OR PTE_V) = a" by (rule new_pte [OF ap(1)]) simp
    have ca: "tables_ok ?u l a {a} qs"
      using ok ptree_zero(1) [OF inst(3), of l] by (auto simp: tables_ok_def)
    from Suc.IH [OF this inst(3)] obtain r w where w: "walk_level l a va True ?u = Done r w" "grown l a {a} qs ?u (take l qs) w"
        "r = 0 \<longleftrightarrow> length qs < l" "hollow l (mem w) a" by blast
    have child: "\<exists>r used t. walk_level l a va True ?u = Done r t \<and> length used \<le> l \<and> grown (Suc l) pt ({pt} \<union> {a}) qs ?u used t \<and>
      (if r = 0 then set qs = set used else r = leaf_addr (Suc l) pt va (mem t))"
    proof (rule child_grows [OF _ ok])
      show "a = PTE2PA (pt_entry (mem ?u) pt ?i)" "bit (pt_entry (mem ?u) pt ?i) 0" using inst(2) c new_pte_V by simp_all
    qed (rule walk_level_grows)
    then obtain used where used: "grown (Suc l) pt ({pt} \<union> {a}) qs ?u used w" using w(1) by auto
    then have "used = take l qs" using w(2) by (rule grown_unique)
    then have g: "grown (Suc l) pt {pt} ps s (take (Suc l) ps) w"
      using grown_trans [of "Suc l" pt "{pt}" "[a]" qs s ?u used w] inst(1) used Cons by simp
    have run: "walk_level (Suc l) pt va True s = Done r w" using step t(1) \<open>a \<noteq> 0\<close> w(1) by simp
    have so: "same_outside ({a} \<union> set (take l qs)) (mem ?u) (mem w)" using w(2) by (simp add: grown_def)
    have al: "\<forall>b \<in> {pt, a} \<union> set qs. page_aligned b" using tables_ok_aligned [OF ok] by simp
    have ent: "pt_entry (mem w) pt i = pt_entry (mem ?u) pt i" if "i < 512" for i
      by (rule pt_entry_agree [OF same_outside_agree [OF so, of "{pt}"]])
        (use al ap that in \<open>auto dest: in_set_takeD\<close>)
    have "hollow (Suc l) (mem w) pt"
      unfolding hollow.simps
    proof (intro allI impI)
      fix i assume i: "i < (512 :: nat)" "bit (pt_entry (mem w) pt i) 0"
      then have "i = ?i" using ent inst(4) [of i] Suc.prems(2) by (metis bit_0_eq bot_apply bot_bool_def)
      then have "pt_entry (mem w) pt i = PA2PTE a OR PTE_V" using ent [OF i(1)] inst(2) by simp
      then show "pt_entry (mem w) pt i AND (PTE_R OR PTE_W OR PTE_X) = 0 \<and> hollow l (mem w) (PTE2PA (pt_entry (mem w) pt i))"
        using new_pte_flags [of a] c w(4) by metis
    qed
    then show ?thesis using run g w(3) Cons by auto
  qed
qed

text \<open>The next walk through the same tables needs none.\<close>

lemma walk_level_there: "leaf_addr l pt va (mem s) \<noteq> 0 \<Longrightarrow> walk_level l pt va True s = Done (leaf_addr l pt va (mem s)) s"
  by (induction l arbitrary: pt) (auto simp: Let_def get_pte_def pt_entry_def pte_at_idx PTE_bits split: if_splits)

lemma leaf_addr_near:
  assumes "ptree l m pt T" and "\<forall>a \<in> T. valid_page e a" and "0 < e" and "\<And>k. 0 < k \<Longrightarrow> k \<le> l \<Longrightarrow> idx k x = idx k y"
    and "leaf_addr l pt x m \<noteq> 0"
  shows "leaf_addr l pt y m \<noteq> 0"
  using assms
proof (induction l arbitrary: pt T)
  case 0
  then show ?case using leaf_addr_0_nonzero [of e pt y] by simp
next
  case (Suc l)
  let ?i = "idx (Suc l) x"
  obtain C where C: "T = insert pt (\<Union>i<512. C i)"
      "\<forall>i<512. if bit (pt_entry m pt i) 0 then ptree l m (PTE2PA (pt_entry m pt i)) (C i) else C i = {}"
    using Suc.prems(1) unfolding ptree.simps by blast
  have v: "bit (pt_entry m pt ?i) 0" "leaf_addr l (PTE2PA (pt_entry m pt ?i)) x m \<noteq> 0"
    using Suc.prems(5) by (auto simp: Let_def split: if_splits)
  then have "ptree l m (PTE2PA (pt_entry m pt ?i)) (C ?i)" using C(2) by (metis idx_less)
  moreover have "C ?i \<subseteq> T" using C(1) by auto
  then have "\<forall>a \<in> C ?i. valid_page e a" using Suc.prems(2) by blast
  ultimately have "leaf_addr l (PTE2PA (pt_entry m pt ?i)) y m \<noteq> 0"
    using Suc.IH [of "PTE2PA (pt_entry m pt ?i)" "C ?i"] Suc.prems(3,4) v(2) by simp
  then show ?case using v(1) Suc.prems(4) [of "Suc l"] by (simp add: Let_def)
qed

subsection \<open>One page mapped\<close>

lemma mappages_page:
  assumes "walk pt va True s = Done r t" and "page_aligned va" and "r \<noteq> 0 \<longrightarrow> \<not> bit (get_pte t r) 0"
  shows "mappages pt va PGSIZE pa perm s =
    (if r = 0 then Done (-1) t else Done 0 (set_pte r (PA2PTE pa OR perm OR PTE_V) t))"
proof -
  have va: "va mod PGSIZE = 0" using assms(2) by (simp add: page_aligned_def)
  show ?thesis
    using assms(1,3) va by (simp add: mappages_def mappages_loop.simps [of pt va va] PTE_bits)
qed

lemma mappages_fresh:
  assumes ok: "tables_ok s 2 pt {pt} ps" and z: "\<forall>i < 512. pt_entry (mem s) pt i = 0" and va: "page_aligned va" "va < MAXVA"
  shows "\<exists>t. mappages pt va PGSIZE pa perm s = Done (if length ps < 2 then -1 else 0) t \<and> moved pt {pt} ps s (take 2 ps) t \<and>
    (if length ps < 2 then hollow 2 (mem t) pt
     else \<forall>x. uvm_lookup t pt x = (if x < MAXVA \<and> PGROUNDDOWN x = va then PA2PTE pa OR perm OR PTE_V else 0))"
proof -
  let ?w = "PA2PTE pa OR perm OR PTE_V"
  have l0: "uvm_lookup s pt x = 0" for x by (simp add: uvm_lookup_def ptree_zero(2) [OF z])
  obtain r t where f: "walk_level 2 pt va True s = Done r t" "grown 2 pt {pt} ps s (take 2 ps) t" "r = 0 \<longleftrightarrow> length ps < 2"
      "hollow 2 (mem t) pt"
    using walk_fresh [OF ok z] by blast
  have w: "walk pt va True s = Done r t" using f(1) va(2) by (simp add: walk_def)
  have mv: "moved pt {pt} ps s (take 2 ps) t" using f(2) by (simp add: grown_def moved_def)
  have "\<not> bit (uvm_lookup s pt va) 0" by (simp add: l0)
  from map_one [OF ok va this, of ?w] obtain used where o: "moved pt {pt} ps s used t"
      "if r = 0 then set ps = set used \<and> (\<forall>x. uvm_lookup t pt x = uvm_lookup s pt x)
       else \<not> bit (get_pte t r) 0 \<and> moved pt {pt} ps s used (set_pte r ?w t) \<and>
         (\<forall>x. uvm_lookup (set_pte r ?w t) pt x = (if x < MAXVA \<and> PGROUNDDOWN x = va then ?w else uvm_lookup s pt x))"
    using w by auto
  have used: "used = take 2 ps" by (rule moved_unique [OF o(1) mv])
  show ?thesis
  proof (cases "length ps < 2")
    case True
    then show ?thesis using mappages_page [OF w va(1)] f(3,4) mv by simp
  next
    case False
    then have r: "r \<noteq> 0" using f(3) by simp
    then show ?thesis
      using mappages_page [OF w va(1), of pa perm] False o(2) l0 unfolding used by (intro exI [of _ "set_pte r ?w t"]) auto
  qed
qed

lemma mappages_there:
  assumes ok: "tables_ok s 2 pt T ps" and va: "page_aligned va" "va < MAXVA" and free: "\<not> bit (uvm_lookup s pt va) 0"
    and there: "leaf_addr 2 pt va (mem s) \<noteq> 0"
  shows "\<exists>t. mappages pt va PGSIZE pa perm s = Done 0 t \<and> moved pt T ps s [] t \<and>
    (\<forall>x. uvm_lookup t pt x = (if x < MAXVA \<and> PGROUNDDOWN x = va then PA2PTE pa OR perm OR PTE_V else uvm_lookup s pt x))"
proof -
  let ?w = "PA2PTE pa OR perm OR PTE_V" and ?r = "leaf_addr 2 pt va (mem s)"
  have w: "walk pt va True s = Done ?r s" using walk_level_there [OF there] va(2) by (simp add: walk_def)
  have mv: "moved pt T ps s [] s" using ok by (simp add: moved_def)
  from map_one [OF ok va free, of ?w] obtain used where o: "moved pt T ps s used s"
      "\<not> bit (get_pte s ?r) 0" "moved pt T ps s used (set_pte ?r ?w s)"
      "\<forall>x. uvm_lookup (set_pte ?r ?w s) pt x = (if x < MAXVA \<and> PGROUNDDOWN x = va then ?w else uvm_lookup s pt x)"
    using w there by auto
  have "used = []" by (rule moved_unique [OF o(1) mv])
  then show ?thesis using mappages_page [OF w va(1), of pa perm] o(2-4) there by auto
qed

subsection \<open>uvmcreate and uvmfree\<close>

lemma uvmcreate_root:
  assumes "kpool_inv s (a # ps)"
  shows "\<exists>t. uvmcreate s = Done a t \<and> tables_ok t 2 a {a} ps \<and> (\<forall>i < 512. pt_entry (mem t) a i = 0) \<and>
    same_outside {a} (mem s) (mem t) \<and> t = s\<lparr>mem := mem t, freelist := freelist t\<rparr>"
proof -
  obtain u where u: "kalloc s = Done a u" "kmem_inv u ps" "same_outside {a} (mem s) (mem u)" "held u = held s"
    using assms kalloc_inv [of s a ps] by (auto simp: kpool_inv_def)
  have a: "valid_page (kend s) a" "a \<notin> set ps" "a \<noteq> 0"
    using assms kpool.pool_pages [of s "a # ps"] by (auto simp: kpool_inv_def kmem_inv_def)
  let ?t = "u\<lparr>mem := memset a 0 4096 (mem u)\<rparr>"
  have fr: "?t = s\<lparr>mem := mem ?t, freelist := freelist ?t\<rparr>"
    using frame_mem_update [OF kalloc_frame [OF u(1)], of "mem ?t"] by simp
  have "kend ?t = kend s" by (subst fr) simp
  have p: "page_aligned a" using a(1) by (rule valid_page_aligned)
  have "kpool_inv u ps" using u(2,4) assms by (simp add: kpool_inv_def)
  then have pool: "kpool_inv ?t ps"
    by (rule kpool_frame [OF _ same_outside_memset_page]) (use p a in simp_all)
  have z: "\<forall>i < 512. pt_entry (mem ?t) a i = 0" by (simp add: pt_entry_zero_page)
  have "tables_ok ?t 2 a {a} ps"
    using ptree_zero(1) [OF z, of 2] pool a \<open>kend ?t = kend s\<close> by (simp add: tables_ok_def)
  moreover have "same_outside {a} (mem s) (mem ?t)"
    using same_outside_trans [OF u(3) same_outside_memset_page [of a "mem u" 0]] by simp
  ultimately show ?thesis using z fr u(1) a(3) by (intro exI [of _ ?t]) (simp add: uvmcreate_def)
qed

text \<open>\<open>uvmfree\<close> with size 0, of a page table with nothing mapped.\<close>

lemma uvmfree_hollow:
  assumes "tables_ok s 2 pt T ps" and "hollow 2 (mem s) pt"
  shows "\<exists>t. uvmfree pt 0 s = Done () t \<and> gives_back T ps s t"
  using freewalk_gives_back [OF assms] by (simp add: uvmfree_def eval_nat_numeral del: freewalk.simps)

end
