(* ===== verification/Allocproc.thy ===== *)
theory Allocproc
  imports Proc Freewalk
begin

section \<open>Making a process\<close>

text \<open>
  \<open>allocproc\<close> of \<open>proc.c\<close> takes a slot, a process id, a page for the trap frame and the three pages of a page
  table that maps the trampoline and the trap frame. The lemmas follow the pages: when there are not enough,
  everything that was taken is given back.
\<close>

subsection \<open>The page table of a process\<close>

definition process_space :: "u64 \<Rightarrow> u64 \<Rightarrow> u64 \<Rightarrow> u64" where
  "process_space tramp tf x =
     (if x < MAXVA \<and> PGROUNDDOWN x = TRAMPOLINE then PA2PTE tramp OR (PTE_R OR PTE_X) OR PTE_V
      else if x < MAXVA \<and> PGROUNDDOWN x = TRAPFRAME then PA2PTE tf OR (PTE_R OR PTE_W) OR PTE_V
      else 0)"

lemma trampoline_addrs:
  "page_aligned TRAMPOLINE" "page_aligned TRAPFRAME" "TRAMPOLINE < MAXVA" "TRAPFRAME < MAXVA"
  "PGROUNDDOWN TRAMPOLINE = TRAMPOLINE" "PGROUNDDOWN TRAPFRAME = TRAPFRAME" "TRAMPOLINE \<noteq> TRAPFRAME"
  by (simp_all add: TRAMPOLINE_val TRAPFRAME_val MAXVA_val page_aligned_unat PGROUNDDOWN_def)

lemma trampoline_near: "0 < k \<Longrightarrow> k \<le> 2 \<Longrightarrow> idx k TRAMPOLINE = idx k TRAPFRAME"
proof -
  assume "0 < k" "k \<le> 2"
  then have "k = 1 \<or> k = 2" by linarith
  then show ?thesis by (auto simp: idx_def PX_def PXSHIFT_def TRAMPOLINE_val TRAPFRAME_val)
qed

lemma proc_pagetable_law:
  assumes pool: "kpool_inv s ps"
  shows "if length ps < 3
    then \<exists>t qs. proc_pagetable p s = Done 0 t \<and> kpool_inv t qs \<and> set qs = set ps
    else \<exists>t. proc_pagetable p s = Done (ps ! 0) t \<and> tables_ok t 2 (ps ! 0) (set (take 3 ps)) (drop 3 ps) \<and>
      (\<forall>x. uvm_lookup t (ps ! 0) x = process_space (sym_trampoline (syms s)) (p_trapframe (the_proc s p)) x)"
proof (cases ps)
  case Nil
  then have "kalloc s = Done 0 s" using pool kpool.alloc_none by blast
  then show ?thesis using Nil pool by (simp add: proc_pagetable_def uvmcreate_def)
next
  case (Cons a qs)
  obtain u where u: "uvmcreate s = Done a u" "tables_ok u 2 a {a} qs" "\<forall>i < 512. pt_entry (mem u) a i = 0"
    using uvmcreate_root [of s a qs] pool Cons by auto
  have a: "a \<noteq> 0" using pool Cons kpool.pool_pages [of s ps] by simp
  note f1 = only_mem_ptab [OF frame_uvmcreate [OF u(1)]]
  obtain v where v: "mappages a TRAMPOLINE PGSIZE (sym_trampoline (syms u)) (PTE_R OR PTE_X) u = Done (if length qs < 2 then -1 else 0) v"
      "moved a {a} qs u (take 2 qs) v"
      "if length qs < 2 then hollow 2 (mem v) a
       else \<forall>x. uvm_lookup v a x = (if x < MAXVA \<and> PGROUNDDOWN x = TRAMPOLINE then PA2PTE (sym_trampoline (syms u)) OR (PTE_R OR PTE_X) OR PTE_V else 0)"
    using mappages_fresh [OF u(2,3) trampoline_addrs(1,3)] by blast
  note f2 = only_mem_ptab [OF frame_mappages [OF v(1)]]
  obtain rs where rs: "qs = take 2 qs @ rs" "tables_ok v 2 a ({a} \<union> set (take 2 qs)) rs"
    using v(2) by (auto simp: moved_def)
  then have drop: "rs = drop 2 qs" by (metis append_take_drop_id same_append_eq)
  show ?thesis
  proof (cases "length qs < 2")
    case True
    then have hl: "hollow 2 (mem v) a" and r: "mappages a TRAMPOLINE PGSIZE (sym_trampoline (syms u)) (PTE_R OR PTE_X) u = Done (-1) v"
      using v(1,3) by simp_all
    obtain w where w: "uvmfree a 0 v = Done () w" "gives_back ({a} \<union> set (take 2 qs)) rs v w"
      using uvmfree_hollow [OF rs(2) hl] by blast
    have "proc_pagetable p s = Done 0 w" using u(1) a r w(1) by (simp add: proc_pagetable_def)
    moreover obtain xs where "kpool_inv w xs" "set xs = ({a} \<union> set (take 2 qs)) \<union> set rs" using w(2) by (auto simp: gives_back_def)
    ultimately show ?thesis using True Cons drop by auto
  next
    case False
    let ?tr = "PA2PTE (sym_trampoline (syms u)) OR (PTE_R OR PTE_X) OR PTE_V"
    have look: "uvm_lookup v a x = (if x < MAXVA \<and> PGROUNDDOWN x = TRAMPOLINE then ?tr else 0)" for x
      using v(3) False by simp
    have r: "mappages a TRAMPOLINE PGSIZE (sym_trampoline (syms u)) (PTE_R OR PTE_X) u = Done 0 v" using v(1) False by simp
    have tok: "ptree 2 (mem v) a ({a} \<union> set (take 2 qs))" "\<forall>b \<in> {a} \<union> set (take 2 qs). valid_page (kend v) b" "0 < kend v"
      using rs(2) by (simp_all add: tables_ok_def kpool_inv_def kmem_inv_def)
    have "bit ?tr 0" by (simp add: bit_or_iff)
    then have "uvm_lookup v a TRAMPOLINE \<noteq> 0" using look [of TRAMPOLINE] trampoline_addrs by auto
    then have "pte_of 2 a TRAMPOLINE (mem v) \<noteq> 0" using trampoline_addrs(3) by (simp add: uvm_lookup_def)
    then have "leaf_addr 2 a TRAMPOLINE (mem v) \<noteq> 0" using leaf_zero_pte [OF tok] by blast
    then have near: "leaf_addr 2 a TRAPFRAME (mem v) \<noteq> 0"
      using leaf_addr_near [OF tok trampoline_near] by blast
    have "\<not> bit (uvm_lookup v a TRAPFRAME) 0" using look [of TRAPFRAME] trampoline_addrs by simp
    from mappages_there [OF rs(2) trampoline_addrs(2,4) this near, of "p_trapframe (the_proc v p)" "PTE_R OR PTE_W"]
    obtain w where w: "mappages a TRAPFRAME PGSIZE (p_trapframe (the_proc v p)) (PTE_R OR PTE_W) v = Done 0 w"
        "moved a ({a} \<union> set (take 2 qs)) rs v [] w"
        "\<forall>x. uvm_lookup w a x = (if x < MAXVA \<and> PGROUNDDOWN x = TRAPFRAME
          then PA2PTE (p_trapframe (the_proc v p)) OR (PTE_R OR PTE_W) OR PTE_V else uvm_lookup v a x)"
      by blast
    have "proc_pagetable p s = Done a w" using u(1) a r w(1) by (simp add: proc_pagetable_def)
    moreover have "{a} \<union> set (take 2 qs) = set (take 3 ps)" using Cons by (simp add: eval_nat_numeral)
    then have "tables_ok w 2 a (set (take 3 ps)) (drop 3 ps)"
      using w(2) Cons drop by (auto simp: moved_def eval_nat_numeral)
    moreover have "uvm_lookup w a x = process_space (sym_trampoline (syms s)) (p_trapframe (the_proc s p)) x" for x
      using w(3) look [of x] trampoline_addrs(7) f1(2,7) f2(2) by (auto simp: process_space_def)
    ultimately show ?thesis using False Cons by auto
  qed
qed

subsection \<open>Slots\<close>

lemma pool_slots [simp]: "kpool_inv (upd_proc i f s) ps = kpool_inv s ps" "kpool_inv (s\<lparr>nextpid := n\<rparr>) ps = kpool_inv s ps"
  by (simp_all add: kpool_inv_def kmem_inv_def upd_proc_def)

lemma pool_held: "kpool_inv s ps \<Longrightarrow> set h \<subseteq> set (held s) \<Longrightarrow> kpool_inv (s\<lparr>held := h\<rparr>) ps"
  by (auto simp: kpool_inv_def kmem_inv_def)

text \<open>\<open>freeproc\<close> of a slot without a page table.\<close>

lemma freeproc_pool:
  assumes pool: "kpool_inv s ps" and pt: "p_pagetable (the_proc s i) = 0" and i: "i < length (procs s)"
    and tf: "p_trapframe (the_proc s i) \<noteq> 0 \<Longrightarrow> valid_page (kend s) (p_trapframe (the_proc s i)) \<and> p_trapframe (the_proc s i) \<notin> set ps"
  shows "\<exists>t qs. freeproc i s = Done () t \<and> kpool_inv t qs \<and> set qs = set ps \<union> ({p_trapframe (the_proc s i)} - {0})"
proof (cases "p_trapframe (the_proc s i) = 0")
  case True
  then show ?thesis using pool pt i by (simp add: freeproc_def Let_def) blast
next
  case False
  let ?tf = "p_trapframe (the_proc s i)"
  obtain u where u: "kfree ?tf s = Done () u" "kmem_inv u (?tf # ps)" "held u = held s"
    using kfree_inv [of s ps ?tf] pool tf [OF False] by (auto simp: kpool_inv_def returns_def)
  have pu: "kpool_inv u (?tf # ps)" using u pool by (simp add: kpool_inv_def)
  have "procs u = procs s" using only_mem_ptab(2) [OF frame_kfree [OF u(1)]] .
  then show ?thesis using False u(1) pu pt i by (simp add: freeproc_def Let_def) (use pu in force)
qed

lemma allocproc_found_runs:
  assumes pool: "kpool_inv s ps" and i: "i < length (procs s)" and pid: "PidLock \<notin> set (held s)" and lk: "ProcLock i \<in> set (held s)"
    and pt: "p_pagetable (the_proc s i) = 0"
  shows "if length ps < 4
    then \<exists>t qs. allocproc_found i s = Done None t \<and> kpool_inv t qs \<and> set qs = set ps \<and> p_pagetable (the_proc t i) = 0
    else \<exists>t. allocproc_found i s = Done (Some i) t \<and> p_trapframe (the_proc t i) = ps ! 0 \<and> p_pagetable (the_proc t i) = ps ! 1 \<and>
      tables_ok t 2 (ps ! 1) {ps ! 1, ps ! 2, ps ! 3} (drop 4 ps) \<and>
      (\<forall>x. uvm_lookup t (ps ! 1) x = process_space (sym_trampoline (syms s)) (ps ! 0) x)"
proof -
  let ?s1 = "upd_proc i (\<lambda>p. p\<lparr>p_pid := nextpid s, p_state := USED\<rparr>) (s\<lparr>nextpid := c_int (nextpid s + 1)\<rparr>)"
  have p1: "kpool_inv ?s1 ps" using pool by simp
  have fail: "\<exists>t qs. bnd (freeproc i b) (\<lambda>_ s. bnd (release (ProcLock i) s) (\<lambda>_ s. Done None s)) = Done (None :: nat option) t \<and>
      kpool_inv t qs \<and> set qs = set bs \<union> ({p_trapframe (the_proc b i)} - {0}) \<and> p_pagetable (the_proc t i) = 0"
    if b: "kpool_inv b bs" "p_pagetable (the_proc b i) = 0" "i < length (procs b)" "ProcLock i \<in> set (held b)"
      "p_trapframe (the_proc b i) \<noteq> 0 \<Longrightarrow> valid_page (kend b) (p_trapframe (the_proc b i)) \<and> p_trapframe (the_proc b i) \<notin> set bs"
    for b :: "'a ptab_scheme" and bs
  proof -
    obtain t qs where t: "freeproc i b = Done () t" "kpool_inv t qs" "set qs = set bs \<union> ({p_trapframe (the_proc b i)} - {0})"
      using freeproc_pool [OF b(1-3)] b(5) by blast
    note fs = freeproc_slot [OF t(1) b(3)]
    have "ProcLock i \<in> set (held t)" using only_slot_simps(1) [OF fs(1)] b(4) by simp
    then have "release (ProcLock i) t = Done () (t\<lparr>held := remove1 (ProcLock i) (held t)\<rparr>)" by (simp add: release_def)
    moreover have "kpool_inv (t\<lparr>held := remove1 (ProcLock i) (held t)\<rparr>) qs"
      using t(2) by (rule pool_held) (simp add: set_remove1_subset)
    ultimately show ?thesis using t(1,3) fs(5) by auto
  qed
  have start: "allocproc_found i s = bnd (kalloc ?s1) (\<lambda>tf s.
         let s = upd_proc i (\<lambda>p. p\<lparr>p_trapframe := tf\<rparr>) s in
         if tf = 0 then
           bnd (freeproc i s) (\<lambda>_ s. bnd (release (ProcLock i) s) (\<lambda>_ s. Done None s))
         else
           bnd (proc_pagetable i s) (\<lambda>pt s.
             let s = upd_proc i (\<lambda>p. p\<lparr>p_pagetable := pt\<rparr>) s in
             if pt = 0 then
               bnd (freeproc i s) (\<lambda>_ s. bnd (release (ProcLock i) s) (\<lambda>_ s. Done None s))
             else
               Done (Some i) (upd_proc i (\<lambda>p. p\<lparr>p_context := zero_context
                 \<lparr>c_ra := sym_forkret (syms s), c_sp := p_kstack p + PGSIZE\<rparr>\<rparr>) s)))"
    unfolding allocproc_found_def allocpid_spec [OF pid] bnd.simps Let_def ..
  show ?thesis
  proof (cases ps)
    case Nil
    then have k: "kalloc ?s1 = Done 0 ?s1" using p1 kpool.alloc_none by blast
    have "kpool_inv (upd_proc i (\<lambda>p. p\<lparr>p_trapframe := 0\<rparr>) ?s1) []" using p1 Nil by simp
    from fail [OF this] show ?thesis using start k Nil i lk pt by simp
  next
    case (Cons tf qs)
    obtain u where u: "kalloc ?s1 = Done tf u" "kpool_inv u qs"
      using kpool.alloc_some [of ?s1 tf qs] p1 Cons by blast
    have tf: "tf \<noteq> 0" "tf \<notin> set qs" "valid_page (kend s) tf"
      using pool Cons kpool.pool_pages [of s ps] by (auto simp: kpage_def)
    note f1 = only_mem_ptab [OF frame_kalloc [OF u(1)]]
    let ?s2 = "upd_proc i (\<lambda>p. p\<lparr>p_trapframe := tf\<rparr>) u"
    have p2: "kpool_inv ?s2 qs" using u(2) by simp
    have iu: "i < length (procs u)" "p_pagetable (the_proc u i) = 0" using f1(2) i pt by simp_all
    note L = proc_pagetable_law [OF p2, of i]
    show ?thesis
    proof (cases "length qs < 3")
      case True
      then obtain v rs where v: "proc_pagetable i ?s2 = Done 0 v" "kpool_inv v rs" "set rs = set qs" using L by auto
      note f2 = only_mem_ptab [OF frame_proc_pagetable [OF v(1)]]
      let ?s3 = "upd_proc i (\<lambda>p. p\<lparr>p_pagetable := 0\<rparr>) v"
      have "kpool_inv ?s3 rs" using v(2) by simp
      from fail [OF this] obtain t xs where t:
        "bnd (freeproc i ?s3) (\<lambda>_ s. bnd (release (ProcLock i) s) (\<lambda>_ s. Done None s)) = Done (None :: nat option) t"
        "kpool_inv t xs" "set xs = set rs \<union> ({tf} - {0})" "p_pagetable (the_proc t i) = 0"
        using f1(1,2,6) f2(1,2,6) i lk tf v(3) by auto
      then show ?thesis using start u(1) tf(1) v(1,3) Cons True by (auto simp: Let_def)
    next
      case False
      then obtain v where v: "proc_pagetable i ?s2 = Done (qs ! 0) v" "tables_ok v 2 (qs ! 0) (set (take 3 qs)) (drop 3 qs)"
          "\<forall>x. uvm_lookup v (qs ! 0) x = process_space (sym_trampoline (syms ?s2)) (p_trapframe (the_proc ?s2 i)) x"
        using L by auto
      note f2 = only_mem_ptab [OF frame_proc_pagetable [OF v(1)]]
      have "qs ! 0 \<in> set qs" using False by (cases qs) simp_all
      then have q0: "qs ! 0 \<noteq> 0" using p2 kpool.pool_pages by blast
      let ?t = "upd_proc i (\<lambda>p. p\<lparr>p_context := zero_context
           \<lparr>c_ra := sym_forkret (syms v), c_sp := p_kstack p + PGSIZE\<rparr>\<rparr>) (upd_proc i (\<lambda>p. p\<lparr>p_pagetable := qs ! 0\<rparr>) v)"
      have run: "allocproc_found i s = Done (Some i) ?t" using start u(1) tf(1) v(1) q0 by (simp add: Let_def)
      obtain a b c ds where qs: "qs = a # b # c # ds"
        using False by (metis One_nat_def Suc_1 eval_nat_numeral(3) length_Cons less_Suc_eq_0_disj list.exhaust list.size(3) not_less_eq zero_less_Suc)
      have ok: "tables_ok ?t 2 (qs ! 0) {a, b, c} ds"
        using v(2) qs by (auto simp: tables_ok_def upd_proc_def kpool_inv_def kmem_inv_def eval_nat_numeral)
      have "uvm_lookup ?t (qs ! 0) x = process_space (sym_trampoline (syms s)) tf x" for x
      proof -
        have "uvm_lookup ?t (qs ! 0) x = uvm_lookup v (qs ! 0) x" by (simp add: uvm_lookup_def upd_proc_def)
        then show ?thesis using v(3) iu(1) f1(7) by simp
      qed
      moreover have "p_trapframe (the_proc ?t i) = tf" "p_pagetable (the_proc ?t i) = qs ! 0"
        using f2(2) iu(1) by simp_all
      ultimately show ?thesis using run ok Cons qs by auto
    qed
  qed
qed

subsection \<open>allocproc\<close>

text \<open>Free slots have no page table: \<open>freeproc\<close> clears the pointer, and the table starts out zero.\<close>

definition clean_slots :: "'z ptab_scheme \<Rightarrow> bool" where
  "clean_slots s \<longleftrightarrow> (\<forall>i < length (procs s). p_state (the_proc s i) = UNUSED \<longrightarrow> p_pagetable (the_proc s i) = 0)"

text \<open>The invariant of process ids, when slot \<open>i\<close> has been given the next one or none.\<close>

lemma pid_inv_next:
  assumes inv: "pid_inv s" and len: "length (procs t) = length (procs s)" and np: "nextpid t = nextpid s + 1"
    and other: "\<forall>j. j \<noteq> i \<longrightarrow> the_proc t j = the_proc s j" and pid: "p_pid (the_proc t i) = nextpid s \<or> p_pid (the_proc t i) = 0"
  shows "pid_inv t"
  unfolding pid_inv_def
proof (intro conjI allI impI)
  have lt: "p_pid (the_proc s j) < nextpid s" if "j < length (procs s)" for j
    using inv that by (simp add: pid_inv_def)
  show "0 < nextpid t" using inv np by (simp add: pid_inv_def)
  show "p_pid (the_proc t j) < nextpid t" if "j < length (procs t)" for j
    using lt [of j] that len other np pid inv by (cases "j = i") (auto simp: pid_inv_def)
  show "p_pid (the_proc t j) \<noteq> p_pid (the_proc t k)"
    if "j < length (procs t)" "k < length (procs t)" "j \<noteq> k" "p_pid (the_proc t j) \<noteq> 0" for j k
  proof -
    note jk = that
    consider "j = i" "k \<noteq> i" | "k = i" "j \<noteq> i" | "j \<noteq> i" "k \<noteq> i" using jk(3) by blast
    then show ?thesis
      using jk pid other lt [of j] lt [of k] inv len by cases (auto simp: pid_inv_def)
  qed
qed

text \<open>
  C27: \<open>allocproc\<close> makes a process whenever it can, and otherwise leaves nothing behind. It always returns. If
  no slot is free it returns null and nothing has changed. Otherwise it works on the first \<open>UNUSED\<close> slot. With
  fewer than four pages free it returns null: the slot is \<open>UNUSED\<close> again, its lock released, and every page
  is free again. With four it returns the slot: \<open>USED\<close>, locked, with an id that no other slot has, to
  run \<open>forkret\<close> on its own kernel stack; the first free page is its trap frame and the next three are its page
  table, which maps the trampoline and the trap frame and nothing else. Other slots are unchanged, ids stay
  unique and below \<open>nextpid\<close>. This holds while \<open>nextpid\<close> is below \<open>2 ^ 31 - 1\<close>; then it wraps.
\<close>
theorem allocproc_makes_process:
  assumes "unlocked_table s" and "PidLock \<notin> set (held s)" and "kpool_inv s ps" and "pid_inv s" and "clean_slots s"
    and "nextpid s < 2 ^ 31 - 1"
  shows "case find (\<lambda>i. p_state (the_proc s i) = UNUSED) [0..<NPROC] of
      None \<Rightarrow> allocproc s = Done None s
    | Some i \<Rightarrow> \<exists>r t qs. allocproc s = Done r t \<and> pid_inv t \<and> clean_slots t \<and> nextpid t = nextpid s + 1 \<and> kpool_inv t qs \<and>
        (\<forall>j. j \<noteq> i \<longrightarrow> the_proc t j = the_proc s j) \<and>
        (if length ps < 4
         then r = None \<and> held t = held s \<and> p_state (the_proc t i) = UNUSED \<and> p_pid (the_proc t i) = 0 \<and> set qs = set ps
         else r = Some i \<and> held t = ProcLock i # held s \<and> p_state (the_proc t i) = USED \<and> p_pid (the_proc t i) = nextpid s \<and>
           (\<forall>j < NPROC. j \<noteq> i \<longrightarrow> p_pid (the_proc t j) \<noteq> nextpid s) \<and>
           c_ra (p_context (the_proc t i)) = sym_forkret (syms s) \<and> c_sp (p_context (the_proc t i)) = p_kstack (the_proc s i) + PGSIZE \<and>
           qs = drop 4 ps \<and> p_trapframe (the_proc t i) = ps ! 0 \<and> p_pagetable (the_proc t i) = ps ! 1 \<and>
           tables_ok t 2 (ps ! 1) {ps ! 1, ps ! 2, ps ! 3} qs \<and>
           (\<forall>x. uvm_lookup t (ps ! 1) x = process_space (sym_trampoline (syms s)) (ps ! 0) x))"
proof (cases "find (\<lambda>i. p_state (the_proc s i) = UNUSED) [0..<NPROC]")
  case None
  then show ?thesis using assms(1) by (simp add: allocproc_eq)
next
  case (Some i)
  let ?s = "s\<lparr>held := ProcLock i # held s\<rparr>"
  have i: "i < NPROC" "p_state (the_proc s i) = UNUSED"
    using Some by (auto simp: find_upt_Some_iff)
  have len: "length (procs s) = NPROC" using assms(1) by (simp add: unlocked_table_def)
  have run: "allocproc s = allocproc_found i ?s" using assms(1) Some by (simp add: allocproc_eq)
  have pool: "kpool_inv ?s ps" using assms(3) by (simp add: kpool_inv_def kmem_inv_def)
  have np: "c_int (nextpid s + 1) = nextpid s + 1"
    by (rule c_int_small) (use assms(4,6) in \<open>simp_all add: pid_inv_def\<close>)
  have "p_pagetable (the_proc ?s i) = 0" using assms(5) i len by (simp add: clean_slots_def)
  note R = allocproc_found_runs [OF pool _ _ _ this]
  have spec: "allocated i ?s r t" if "allocproc s = Done r t" for r t
    by (rule allocproc_found_spec [OF that [unfolded run]]) (use assms(2) i(1) len in simp_all)
  have lt: "p_pid (the_proc s j) < nextpid s" if "j < NPROC" for j
    using assms(4) that len by (simp add: pid_inv_def)
  have A: "pid_inv t" "length (procs t) = NPROC" "nextpid t = nextpid s + 1" "\<forall>j. j \<noteq> i \<longrightarrow> the_proc t j = the_proc s j"
    if "allocproc s = Done r t" for r t
  proof -
    have al: "allocated i ?s r t" by (rule spec [OF that])
    then show "length (procs t) = NPROC" and n: "nextpid t = nextpid s + 1" and o: "\<forall>j. j \<noteq> i \<longrightarrow> the_proc t j = the_proc s j"
      using np len by (auto simp: allocated_def)
    have "p_pid (the_proc t i) = nextpid s \<or> p_pid (the_proc t i) = 0"
      using al by (auto simp: allocated_def split: option.splits)
    then show "pid_inv t" using pid_inv_next [OF assms(4) _ n o] al len by (simp add: allocated_def)
  qed
  have clean: "clean_slots t" if "allocproc s = Done r t" "p_state (the_proc t i) = UNUSED \<longrightarrow> p_pagetable (the_proc t i) = 0" for r t
    using assms(5) A [OF that(1)] that(2) len unfolding clean_slots_def by metis
  show ?thesis
  proof (cases "length ps < 4")
    case True
    then obtain t qs where t: "allocproc s = Done None t" "kpool_inv t qs" "set qs = set ps" "p_pagetable (the_proc t i) = 0"
      using R assms(2) i(1) len run by auto
    have "held t = held s" "p_state (the_proc t i) = UNUSED" "p_pid (the_proc t i) = 0" using spec [OF t(1)] by (simp_all add: allocated_def)
    then show ?thesis using True Some t A [OF t(1)] clean [OF t(1)] by auto
  next
    case False
    then obtain t where t: "allocproc s = Done (Some i) t" "p_trapframe (the_proc t i) = ps ! 0" "p_pagetable (the_proc t i) = ps ! 1"
        "tables_ok t 2 (ps ! 1) {ps ! 1, ps ! 2, ps ! 3} (drop 4 ps)"
        "\<forall>x. uvm_lookup t (ps ! 1) x = process_space (sym_trampoline (syms s)) (ps ! 0) x"
      using R assms(2) i(1) len run by auto
    have al: "held t = ProcLock i # held s" "p_state (the_proc t i) = USED" "p_pid (the_proc t i) = nextpid s"
        "c_ra (p_context (the_proc t i)) = sym_forkret (syms s)" "c_sp (p_context (the_proc t i)) = p_kstack (the_proc s i) + PGSIZE"
      using spec [OF t(1)] by (simp_all add: allocated_def)
    have "p_pid (the_proc t j) \<noteq> nextpid s" if "j < NPROC" "j \<noteq> i" for j
      using A(4) [OF t(1)] lt [OF that(1)] that(2) by auto
    moreover have "kpool_inv t (drop 4 ps)" using t(4) by (simp add: tables_ok_def)
    moreover have "clean_slots t" by (rule clean [OF t(1)]) (simp add: al(2))
    ultimately show ?thesis using False Some t A [OF t(1)] al by auto
  qed
qed

subsection \<open>A concrete table\<close>

text \<open>The sample process table with its three free pages, and with the page above them free too.\<close>

definition four_pages :: ptab where
  "four_pages = proc_sample\<lparr>mem := store64 0x87FFE000 0x87FFF000 (mem proc_sample)\<rparr>"

lemma sample_pages:
  "kpool_inv proc_sample [0x87FFC000, 0x87FFD000, 0x87FFE000]"
  "kpool_inv four_pages [0x87FFC000, 0x87FFD000, 0x87FFE000, 0x87FFF000]"
  by (simp_all add: kpool_inv_def kmem_inv_def valid_page_def page_aligned_unat four_pages_def proc_sample_def vm_sample_def
      load64_store64_other)

lemma sample_slots:
  "clean_slots proc_sample" "clean_slots four_pages" "pid_inv four_pages" "unlocked_table four_pages" "PidLock \<notin> set (held four_pages)"
  "find (\<lambda>i. p_state (the_proc proc_sample i) = UNUSED) [0..<NPROC] = Some 2"
  "find (\<lambda>i. p_state (the_proc four_pages i) = UNUSED) [0..<NPROC] = Some 2"
proof -
  show c: "clean_slots proc_sample" by (auto simp: clean_slots_def proc_sample_procs zero_proc_def)
  show f: "find (\<lambda>i. p_state (the_proc proc_sample i) = UNUSED) [0..<NPROC] = Some 2"
    by (auto simp: find_upt_Some_iff proc_sample_procs(1) zero_proc_def)
  show "clean_slots four_pages" "pid_inv four_pages" "unlocked_table four_pages" "PidLock \<notin> set (held four_pages)"
    "find (\<lambda>i. p_state (the_proc four_pages i) = UNUSED) [0..<NPROC] = Some 2"
    using c f proc_sample_pids proc_sample_unlocked
    by (simp_all add: four_pages_def clean_slots_def pid_inv_def unlocked_table_def)
qed

lemma allocproc_makes_process_witness:
  "(\<exists>t. allocproc four_pages = Done (Some 2) t \<and> p_pid (the_proc t 2) = 3 \<and> kpool_inv t []) \<and>
   (\<exists>t qs. allocproc proc_sample = Done None t \<and> kpool_inv t qs \<and> set qs = {0x87FFC000, 0x87FFD000, 0x87FFE000})"
proof -
  have n: "nextpid four_pages = 3" by (simp add: four_pages_def proc_sample_procs(3))
  show ?thesis
    using allocproc_makes_process [OF sample_slots(4,5) sample_pages(2) sample_slots(3,2)]
      allocproc_makes_process [OF proc_sample_unlocked sample_pages(1) proc_sample_pids sample_slots(1)]
    by (simp add: sample_slots(6,7) n proc_sample_procs(3)) blast
qed

end
