(* ===== verification/Umalloc.thy ===== *)
theory Umalloc
  imports Xv6_Prelude
begin

section \<open>umalloc.c: malloc and free of user programs\<close>

text \<open>
  The allocator of Kernighan and Ritchie. A header is 16 bytes; \<open>hptr\<close> and \<open>hsize\<close> are the fields
  \<open>s.ptr\<close> and \<open>s.size\<close> of the header at an address, \<open>freep\<close> and \<open>hbase\<close> the static variable and the
  address of the static header \<open>base\<close>. What a program stores in its blocks is no part of the state: it is
  not expected to overwrite headers. \<open>sbrk\<close> is an argument: the address the kernel returns for a number of
  bytes, or \<open>None\<close> for \<open>SBRK_ERROR\<close>. The loops may run forever on a broken list: they are partial
  functions, whose value is \<open>None\<close> then.
\<close>

record uheap =
  hptr :: "u64 \<Rightarrow> u64"
  hsize :: "u64 \<Rightarrow> u32"
  freep :: u64
  hbase :: u64

definition units :: "u32 \<Rightarrow> u64" where
  "units n = 16 * ucast n"

partial_function (option) free_scan :: "uheap \<Rightarrow> u64 \<Rightarrow> u64 \<Rightarrow> u64 option" where
  "free_scan s bp p =
     (if p < bp \<and> bp < hptr s p then Some p
      else if hptr s p \<le> p \<and> (p < bp \<or> bp < hptr s p) then Some p
      else free_scan s bp (hptr s p))"

definition set_hptr :: "u64 \<Rightarrow> u64 \<Rightarrow> uheap \<Rightarrow> uheap" where
  "set_hptr a v s = s\<lparr>hptr := (hptr s)(a := v)\<rparr>"

definition set_hsize :: "u64 \<Rightarrow> u32 \<Rightarrow> uheap \<Rightarrow> uheap" where
  "set_hsize a v s = s\<lparr>hsize := (hsize s)(a := v)\<rparr>"

text \<open>Joining the block with the one after it, then the one before it.\<close>

definition join_upper :: "u64 \<Rightarrow> u64 \<Rightarrow> uheap \<Rightarrow> uheap" where
  "join_upper bp p s =
     (if bp + units (hsize s bp) = hptr s p
      then let s = set_hsize bp (hsize s bp + hsize s (hptr s p)) s in set_hptr bp (hptr s (hptr s p)) s
      else set_hptr bp (hptr s p) s)"

definition join_lower :: "u64 \<Rightarrow> u64 \<Rightarrow> uheap \<Rightarrow> uheap" where
  "join_lower bp p s =
     (if p + units (hsize s p) = bp
      then let s = set_hsize p (hsize s p + hsize s bp) s in set_hptr p (hptr s bp) s
      else set_hptr p bp s)"

definition ufree :: "u64 \<Rightarrow> uheap \<Rightarrow> uheap option" where
  "ufree ap s =
     (let bp = ap - 16 in
      map_option (\<lambda>p. (join_lower bp p (join_upper bp p s))\<lparr>freep := p\<rparr>) (free_scan s bp (freep s)))"

text \<open>A null pointer is the address 0; \<open>sbrk\<close> takes an \<open>int\<close>.\<close>

definition morecore :: "(u32 \<Rightarrow> u64 option) \<Rightarrow> u32 \<Rightarrow> uheap \<Rightarrow> (u64 \<times> uheap) option" where
  "morecore sbrk nu s =
     (let nu = (if nu < 4096 then 4096 else nu) in
      case sbrk (ucast (units nu)) of
        None \<Rightarrow> Some (0, s)
      | Some hp \<Rightarrow> map_option (\<lambda>s. (freep s, s)) (ufree (hp + 16) (set_hsize hp nu s)))"

definition take_block :: "u32 \<Rightarrow> u64 \<Rightarrow> u64 \<Rightarrow> uheap \<Rightarrow> u64 \<times> uheap" where
  "take_block nunits prevp p s =
     (if hsize s p = nunits then (p + 16, (set_hptr prevp (hptr s p) s)\<lparr>freep := prevp\<rparr>)
      else
        let s = set_hsize p (hsize s p - nunits) s; p = p + units (hsize s p)
        in (p + 16, (set_hsize p nunits s)\<lparr>freep := prevp\<rparr>))"

partial_function (option) malloc_loop ::
  "(u32 \<Rightarrow> u64 option) \<Rightarrow> u32 \<Rightarrow> u64 \<Rightarrow> u64 \<Rightarrow> uheap \<Rightarrow> (u64 \<times> uheap) option" where
  "malloc_loop sbrk nunits prevp p s =
     (if nunits \<le> hsize s p then Some (take_block nunits prevp p s)
      else if p = freep s then
        (case morecore sbrk nunits s of
           None \<Rightarrow> None
         | Some (p, s) \<Rightarrow> if p = 0 then Some (0, s) else malloc_loop sbrk nunits p (hptr s p) s)
      else malloc_loop sbrk nunits p (hptr s p) s)"

definition malloc_units :: "u32 \<Rightarrow> u32" where
  "malloc_units nbytes = ucast ((ucast nbytes + 16 - 1) div 16 + 1 :: u64)"

text \<open>The first call of a program sets the free list up.\<close>

definition uheap_init :: "uheap \<Rightarrow> uheap" where
  "uheap_init s = set_hsize (hbase s) 0 ((set_hptr (hbase s) (hbase s) s)\<lparr>freep := hbase s\<rparr>)"

definition umalloc :: "(u32 \<Rightarrow> u64 option) \<Rightarrow> u32 \<Rightarrow> uheap \<Rightarrow> (u64 \<times> uheap) option" where
  "umalloc sbrk nbytes s =
     (let s = (if freep s = 0 then uheap_init s else s);
          prevp = freep s
      in malloc_loop sbrk (malloc_units nbytes) prevp (hptr s prevp) s)"

subsection \<open>The free list\<close>

text \<open>
  \<open>ring s ns\<close>: the free list runs through the headers \<open>ns\<close> in the order of their addresses, from \<open>base\<close>,
  whose block is empty, through blocks that do not even touch, back to \<open>base\<close>. \<open>free_bytes\<close> are the addresses
  of the bytes in these blocks. All blocks lie below \<open>2 ^ 36\<close>, so that the sizes fit in 32 bits.
\<close>

definition span :: "uheap \<Rightarrow> u64 \<Rightarrow> nat" where
  "span s a = 16 * unat (hsize s a)"

definition apart :: "uheap \<Rightarrow> u64 \<Rightarrow> u64 \<Rightarrow> bool" where
  "apart s a b \<longleftrightarrow> unat a + span s a < unat b"

primrec hchain :: "uheap \<Rightarrow> u64 \<Rightarrow> u64 list \<Rightarrow> bool" where
  "hchain s z [] = True"
| "hchain s z (a # as) = (hptr s a = hd (as @ [z]) \<and> (\<forall>b \<in> set as. apart s a b) \<and> hchain s z as)"

definition in_heap :: "uheap \<Rightarrow> u64 \<Rightarrow> bool" where
  "in_heap s a \<longleftrightarrow> unat a + span s a \<le> 2 ^ 36"

definition ring :: "uheap \<Rightarrow> u64 list \<Rightarrow> bool" where
  "ring s ns \<longleftrightarrow> ns \<noteq> [] \<and> hd ns = hbase s \<and> hchain s (hbase s) ns \<and> hsize s (hbase s) = 0 \<and>
     (\<forall>a \<in> set (tl ns). 0 < hsize s a) \<and> (\<forall>a \<in> set ns. in_heap s a) \<and> freep s \<in> set ns \<and> 0 < hbase s"

definition block_bytes :: "uheap \<Rightarrow> u64 \<Rightarrow> nat set" where
  "block_bytes s a = {unat a ..< unat a + span s a}"

definition free_bytes :: "uheap \<Rightarrow> u64 list \<Rightarrow> nat set" where
  "free_bytes s ns = (\<Union>a \<in> set ns. block_bytes s a)"

lemma free_bytes_cong: "(\<And>a. a \<in> set ns \<Longrightarrow> hsize s a = hsize t a) \<Longrightarrow> free_bytes s ns = free_bytes t ns"
  unfolding free_bytes_def by (rule SUP_cong) (simp_all add: block_bytes_def span_def)

lemma hchain_append:
  "hchain s z (as @ bs) \<longleftrightarrow> hchain s (hd (bs @ [z])) as \<and> hchain s z bs \<and> (\<forall>a \<in> set as. \<forall>b \<in> set bs. apart s a b)"
proof (induction as)
  case (Cons a as)
  have "hd ((as @ bs) @ [z]) = hd (as @ [hd (bs @ [z])])" by (cases as) auto
  then show ?case using Cons by auto
qed simp

lemma hchain_cong:
  "(\<And>a. a \<in> set ns \<Longrightarrow> hptr s a = hptr t a \<and> hsize s a = hsize t a) \<Longrightarrow> hchain s z ns = hchain t z ns"
  by (induction ns) (auto simp: apart_def span_def)

lemma apart_less: "apart s a b \<Longrightarrow> a < b"
  by (simp add: apart_def word_less_nat_alt)

lemma hchain_less: "hchain s z (as @ a # bs) \<Longrightarrow> b \<in> set bs \<Longrightarrow> a < b"
  by (auto simp: hchain_append dest: apart_less)

lemma unat_units: "unat (units n) = 16 * unat n"
proof -
  have "unat n < 2 ^ 32" using unsigned_less [of n] by simp
  then show ?thesis by (simp add: units_def unat_word_ariths unsigned_ucast_eq take_bit_eq_mod)
qed

lemma end_addr: "in_heap s a \<Longrightarrow> unat (a + units (hsize s a)) = unat a + span s a"
  by (simp add: in_heap_def span_def unat_word_ariths unat_units)

subsection \<open>The search of free\<close>

lemma scan_up:
  assumes "hchain s z (xs @ p # ys)" and "z \<le> p" and "p < bp" and "\<forall>y \<in> set ys. bp < y" and "xs @ [p] = us @ a # vs"
  shows "free_scan s bp a = Some p"
  using assms(5)
proof (induction vs arbitrary: us a)
  case Nil
  then have "a = p" by simp
  moreover have "hptr s p = hd (ys @ [z])" using assms(1) by (simp add: hchain_append)
  ultimately show ?case using assms(2-4) by (subst free_scan.simps) (cases ys; auto)
next
  case (Cons v vs)
  have e: "xs @ p # ys = us @ a # v # vs @ ys" using arg_cong [OF Cons.prems, of "\<lambda>l. l @ ys"] by simp
  have "hchain s z (us @ a # v # vs @ ys)" using assms(1) by (simp only: e)
  then have n: "hptr s a = v" "a < v" by (auto simp: hchain_append dest: apart_less)
  have "v \<in> set (xs @ [p])" using Cons.prems by simp
  then have "v = p \<or> apart s v p" using assms(1) by (auto simp: hchain_append)
  then have "v \<le> p" using apart_less [of s v p] by auto
  then show ?case using n assms(3) Cons.IH [of "us @ [a]" v] Cons.prems by (subst free_scan.simps) auto
qed

lemma scan_around:
  assumes "hchain s z (xs @ p # ys)" and "z = hd (xs @ [p])" and "p < bp" and "\<forall>y \<in> set ys. bp < y" and "ys = us @ a # vs"
  shows "free_scan s bp a = Some p"
  using assms(5)
proof (induction vs arbitrary: us a)
  case Nil
  have zp: "z \<le> p" using assms(1,2) by (cases xs) (auto simp: hchain_append dest: apart_less)
  obtain vs where "xs @ [p] = [] @ z # vs" using assms(2) by (cases xs) auto
  then have z: "free_scan s bp z = Some p" using scan_up [OF assms(1) zp assms(3,4)] by blast
  have "bp < a" using assms(4) Nil by simp
  moreover have "hptr s a = z" using assms(1) Nil by (simp add: hchain_append)
  ultimately show ?case using z zp assms(3) by (subst free_scan.simps) auto
next
  case (Cons v vs)
  have "hptr s a = v" "a < v" using assms(1) Cons.prems by (auto simp: hchain_append dest: apart_less)
  moreover have "bp < a" using assms(4) Cons.prems by simp
  ultimately show ?case using Cons.IH [of "us @ [a]" v] Cons.prems by (subst free_scan.simps) auto
qed

text \<open>The search ends at the last header below the block, wherever it starts.\<close>

lemma free_scan_finds:
  assumes "ring s (xs @ p # ys)" and "p < bp" and "\<forall>y \<in> set ys. bp < y" and "a \<in> set (xs @ p # ys)"
  shows "free_scan s bp a = Some p"
proof -
  have c: "hchain s (hbase s) (xs @ p # ys)" and z: "hbase s = hd (xs @ [p])"
    using assms(1) by (cases xs; simp add: ring_def)+
  show ?thesis
  proof (cases "a \<in> set ys")
    case True
    then obtain us vs where "ys = us @ a # vs" using split_list by fast
    then show ?thesis by (rule scan_around [OF c z assms(2,3)])
  next
    case False
    then have "a \<in> set (xs @ [p])" using assms(4) by auto
    from split_list [OF this] obtain us vs where u: "xs @ [p] = us @ a # vs" by blast
    have "hbase s = p \<or> apart s (hbase s) p" using c unfolding z by (cases xs) (simp_all add: hchain_append)
    then have "hbase s \<le> p" using apart_less [of s "hbase s" p] by auto
    then show ?thesis by (rule scan_up [OF c _ assms(2,3) u])
  qed
qed

lemma ring_split_at:
  assumes "ring s ns" and "hbase s < bp" and "bp \<notin> set ns"
  shows "\<exists>xs p ys. ns = xs @ p # ys \<and> p < bp \<and> (\<forall>y \<in> set ys. bp < y)"
proof -
  let ?l = "takeWhile (\<lambda>a. a < bp) ns" and ?r = "dropWhile (\<lambda>a. a < bp) ns"
  have "hd ns = hbase s" "ns \<noteq> []" using assms(1) by (auto simp: ring_def)
  then have "?l \<noteq> []" using assms(2) by (cases ns) auto
  then have l: "?l = butlast ?l @ [last ?l]" and "last ?l \<in> set ?l" by simp_all
  then have "last ?l < bp" by (blast dest: set_takeWhileD)
  moreover have "bp < y" if y: "y \<in> set ?r" for y
  proof -
    obtain d ds where r: "?r = d # ds"
      using y by (metis list.set_cases)
    have "\<not> d < bp" using r by (metis hd_dropWhile list.distinct(1) list.sel(1))
    moreover have "hchain s (hbase s) (?l @ d # ds)" using assms(1) r by (simp add: ring_def flip: r)
    then have "y = d \<or> d < y" using y r by (auto simp: hchain_append dest: apart_less)
    moreover have "d \<in> set ?r" unfolding r by simp
    then have "y \<noteq> bp" "d \<noteq> bp" using set_dropWhileD [OF y] set_dropWhileD assms(3) by metis+
    ultimately show ?thesis by auto
  qed
  moreover have "ns = butlast ?l @ last ?l # ?r"
    using takeWhile_dropWhile_id [of "\<lambda>a. a < bp" ns] l by (metis append.assoc append_Cons append_Nil)
  ultimately show ?thesis by blast
qed

subsection \<open>Giving a block back\<close>

text \<open>A block that may be given back: it lies above \<open>base\<close> and shares no byte with the free blocks.\<close>

definition returnable :: "uheap \<Rightarrow> u64 list \<Rightarrow> u64 \<Rightarrow> bool" where
  "returnable s ns bp \<longleftrightarrow> hbase s < bp \<and> 0 < hsize s bp \<and> in_heap s bp \<and> block_bytes s bp \<inter> free_bytes s ns = {}"

definition set_header :: "u64 \<Rightarrow> u64 \<Rightarrow> u32 \<Rightarrow> uheap \<Rightarrow> uheap" where
  "set_header a q n s = s\<lparr>hptr := (hptr s)(a := q), hsize := (hsize s)(a := n)\<rparr>"

lemma set_header_simps [simp]:
  "hptr (set_header a q n s) = (hptr s)(a := q)" "hsize (set_header a q n s) = (hsize s)(a := n)"
  "freep (set_header a q n s) = freep s" "hbase (set_header a q n s) = hbase s"
  by (simp_all add: set_header_def)

lemma size_sum:
  assumes "0 < unat (a :: u64)" and "unat a + 16 * (unat m + unat n) \<le> 2 ^ 36"
  shows "unat (m + n :: u32) = unat m + unat n"
  using assms by (subst unat_add_lem [THEN iffD1]) auto

lemma ring_parts:
  assumes "ring s (xs @ p # ys)"
  shows "hchain s p xs" "hptr s p = hd (ys @ [hbase s])" "\<forall>y \<in> set ys. apart s p y" "hchain s (hbase s) ys"
    "\<forall>x \<in> set xs. apart s x p" "\<forall>x \<in> set xs. \<forall>y \<in> set ys. apart s x y" "\<forall>y \<in> set ys. 0 < hsize s y"
    "in_heap s p" "\<forall>y \<in> set ys. in_heap s y" "hbase s \<le> p" "0 < hbase s" "hbase s = hd (xs @ [p])"
proof -
  have z: "hbase s = hd (xs @ [p])" and c: "hchain s (hbase s) (xs @ p # ys)"
    using assms by (cases xs; simp add: ring_def)+
  then show "hbase s = hd (xs @ [p])" "hchain s p xs" "hptr s p = hd (ys @ [hbase s])" "\<forall>y \<in> set ys. apart s p y"
    "hchain s (hbase s) ys" "\<forall>x \<in> set xs. apart s x p" "\<forall>x \<in> set xs. \<forall>y \<in> set ys. apart s x y"
    by (simp_all add: hchain_append)
  show "\<forall>y \<in> set ys. 0 < hsize s y" using assms by (cases xs) (auto simp: ring_def)
  show "in_heap s p" "\<forall>y \<in> set ys. in_heap s y" "0 < hbase s" using assms by (simp_all add: ring_def)
  have "hbase s = p \<or> apart s (hbase s) p" using c unfolding z by (cases xs) (simp_all add: hchain_append)
  then show "hbase s \<le> p" using apart_less [of s "hbase s" p] by auto
qed

lemma ring_block_pos: "ring s ns \<Longrightarrow> a \<in> set ns \<Longrightarrow> a \<noteq> hbase s \<Longrightarrow> 0 < hsize s a"
  by (cases ns) (auto simp: ring_def)

lemma returnable_between:
  assumes "ring s (xs @ p # ys)" and "returnable s (xs @ p # ys) bp" and "p < bp" and "\<forall>y \<in> set ys. bp < y"
  shows "unat p + span s p \<le> unat bp" and "\<forall>y \<in> set ys. unat bp + span s bp \<le> unat y"
proof -
  have disj: "k \<notin> block_bytes s a" if "k \<in> block_bytes s bp" "a \<in> set (xs @ p # ys)" for k a
    using that assms(2) by (auto simp: returnable_def free_bytes_def)
  have self: "unat a \<in> block_bytes s a" if "0 < hsize s a" for a
    using that by (simp add: block_bytes_def span_def word_less_nat_alt)
  have "unat bp \<notin> block_bytes s p" using disj [of "unat bp" p] self [of bp] assms(2) by (simp add: returnable_def)
  then show "unat p + span s p \<le> unat bp" using assms(3) by (simp add: block_bytes_def word_less_nat_alt)
  show "\<forall>y \<in> set ys. unat bp + span s bp \<le> unat y"
  proof
    fix y assume y: "y \<in> set ys"
    have "unat y \<in> block_bytes s y" using ring_parts(7) [OF assms(1)] y self by blast
    then have "unat y \<notin> block_bytes s bp" using disj [of "unat y" y] y by auto
    then show "unat bp + span s bp \<le> unat y" using assms(4) y by (force simp: block_bytes_def word_less_nat_alt)
  qed
qed

text \<open>The list above the block after the first join: \<open>bs\<close>, with the block now of size \<open>n\<close>.\<close>

lemma join_upper_result:
  assumes r: "ring s (xs @ p # ys)" and b: "returnable s (xs @ p # ys) bp" and o: "p < bp" "\<forall>y \<in> set ys. bp < y"
  shows "\<exists>bs n. join_upper bp p s = set_header bp (hd (bs @ [hbase s])) n s \<and> 0 < n \<and> hchain s (hbase s) bs \<and>
    set bs \<subseteq> set ys \<and> (\<forall>y \<in> set bs. unat bp + 16 * unat n < unat y) \<and> unat bp + 16 * unat n \<le> 2 ^ 36 \<and>
    {unat bp ..< unat bp + 16 * unat n} \<union> free_bytes s bs = block_bytes s bp \<union> free_bytes s ys"
proof -
  note R = ring_parts [OF r] and B = returnable_between [OF r b o]
  have e: "unat (bp + units (hsize s bp)) = unat bp + span s bp" using b by (simp add: end_addr returnable_def)
  have n: "0 < hsize s bp" "in_heap s bp" "hbase s < bp" using b by (auto simp: returnable_def)
  show ?thesis
  proof (cases "ys \<noteq> [] \<and> bp + units (hsize s bp) = hd ys")
    case True
    then obtain q bs where q: "ys = q # bs" "unat q = unat bp + span s bp" using e by (cases ys) auto
    have iq: "in_heap s q" "hptr s q = hd (bs @ [hbase s])" "\<forall>y \<in> set bs. apart s q y" "hchain s (hbase s) bs"
      using R(4,9) q(1) by auto
    have sum: "unat (hsize s bp + hsize s q) = unat (hsize s bp) + unat (hsize s q)"
      by (rule size_sum [of bp]) (use iq(1) q(2) n(3) in \<open>simp_all add: in_heap_def span_def word_less_nat_alt\<close>)
    have "join_upper bp p s = set_header bp (hd (bs @ [hbase s])) (hsize s bp + hsize s q) s"
      using True q(1) R(2) iq(2) by (simp add: join_upper_def set_hptr_def set_hsize_def set_header_def Let_def)
    moreover have "0 < hsize s bp + hsize s q" using n(1) sum by (simp add: word_less_nat_alt)
    moreover have "\<forall>y \<in> set bs. unat bp + 16 * unat (hsize s bp + hsize s q) < unat y"
      using iq(3) q(2) sum by (auto simp: apart_def span_def)
    moreover have "unat bp + 16 * unat (hsize s bp + hsize s q) \<le> 2 ^ 36"
      using iq(1) q(2) sum by (simp add: in_heap_def span_def)
    moreover have "{unat bp ..< unat bp + 16 * unat (hsize s bp + hsize s q)} = block_bytes s bp \<union> block_bytes s q"
      using q(2) sum by (auto simp: block_bytes_def span_def)
    ultimately show ?thesis
      using iq(4) q(1) by (intro exI [of _ bs] exI [of _ "hsize s bp + hsize s q"]) (auto simp: free_bytes_def)
  next
    case False
    have ne: "bp + units (hsize s bp) \<noteq> hptr s p"
    proof (cases ys)
      case Nil
      then have "hptr s p = hbase s" using R(2) by simp
      then show ?thesis using e n(3) by (metis add_leD1 leD le_refl word_less_nat_alt)
    next
      case (Cons q bs)
      then show ?thesis using False R(2) by simp
    qed
    have "\<forall>y \<in> set ys. unat bp + 16 * unat (hsize s bp) < unat y"
    proof
      fix y assume y: "y \<in> set ys"
      then obtain q bs where q: "ys = q # bs" by (cases ys) auto
      have "unat q \<noteq> unat bp + span s bp" using False q e by (simp add: word_unat_eq_iff)
      then have "unat bp + span s bp < unat q" using B(2) q by (simp add: le_neq_implies_less)
      moreover have "y = q \<or> q < y" using y q R(4) by (auto dest: apart_less)
      ultimately show "unat bp + 16 * unat (hsize s bp) < unat y" by (auto simp: span_def word_less_nat_alt)
    qed
    moreover have "join_upper bp p s = set_header bp (hd (ys @ [hbase s])) (hsize s bp) s"
      using ne R(2) by (simp add: join_upper_def set_hptr_def set_header_def)
    ultimately show ?thesis
      using R(4) n by (intro exI [of _ ys] exI [of _ "hsize s bp"]) (auto simp: in_heap_def span_def block_bytes_def)
  qed
qed

lemma join_lower_result:
  assumes r: "ring s (xs @ p # ys)" and b: "returnable s (xs @ p # ys) bp" and o: "p < bp" "\<forall>y \<in> set ys. bp < y"
    and bs: "0 < n" "hchain s (hbase s) bs" "set bs \<subseteq> set ys" "\<forall>y \<in> set bs. unat bp + 16 * unat n < unat y"
      "unat bp + 16 * unat n \<le> 2 ^ 36"
  defines "u \<equiv> set_header bp (hd (bs @ [hbase s])) n s"
  shows "\<exists>cs m. join_lower bp p u = set_header p (hd (cs @ [hbase s])) m u \<and> hchain u (hbase s) cs \<and>
    set cs \<subseteq> insert bp (set bs) \<and> (\<forall>y \<in> set cs. unat p + 16 * unat m < unat y) \<and> unat p + 16 * unat m \<le> 2 ^ 36 \<and>
    (if p = hbase s then m = 0 else 0 < m) \<and>
    {unat p ..< unat p + 16 * unat m} \<union> free_bytes u cs = block_bytes s p \<union> {unat bp ..< unat bp + 16 * unat n} \<union> free_bytes s bs"
proof -
  note R = ring_parts [OF r] and B = returnable_between [OF r b o]
  have pb: "p \<noteq> bp" and nb: "bp \<notin> set bs" using o bs(3) by auto
  have e: "unat (p + units (hsize s p)) = unat p + span s p" using R(8) by (rule end_addr)
  have "hchain u (hbase s) bs = hchain s (hbase s) bs" by (rule hchain_cong) (use nb in \<open>auto simp: u_def\<close>)
  then have cb: "hchain u (hbase s) bs" using bs(2) by simp
  have fb: "free_bytes u bs = free_bytes s bs" by (rule free_bytes_cong) (use nb in \<open>auto simp: u_def\<close>)
  have z: "hsize s (hbase s) = 0" using r by (simp add: ring_def)
  have pos: "p \<noteq> hbase s \<Longrightarrow> 0 < hsize s p" using r R(12) by (cases xs) (auto simp: ring_def)
  show ?thesis
  proof (cases "p + units (hsize s p) = bp")
    case True
    then have eq: "unat bp = unat p + span s p" using e by simp
    have ph: "p \<noteq> hbase s"
    proof
      assume "p = hbase s"
      then have "span s p = 0" using z by (simp add: span_def)
      then show False using eq pb by (simp add: word_unat_eq_iff)
    qed
    have sum: "unat (hsize s p + n) = unat (hsize s p) + unat n"
      by (rule size_sum [of p]) (use bs(5) eq R(10,11) in \<open>simp_all add: span_def word_less_nat_alt word_le_nat_alt\<close>)
    have "join_lower bp p u = set_header p (hd (bs @ [hbase s])) (hsize s p + n) u"
      using True pb by (simp add: join_lower_def u_def set_hptr_def set_hsize_def set_header_def Let_def)
    moreover have "\<forall>y \<in> set bs. unat p + 16 * unat (hsize s p + n) < unat y" "unat p + 16 * unat (hsize s p + n) \<le> 2 ^ 36"
      using bs(4,5) eq sum by (auto simp: span_def)
    moreover have "0 < hsize s p + n" using sum bs(1) by (simp add: word_less_nat_alt)
    moreover have "{unat p ..< unat p + 16 * unat (hsize s p + n)} = block_bytes s p \<union> {unat bp ..< unat bp + 16 * unat n}"
      using eq sum by (auto simp: block_bytes_def span_def)
    ultimately show ?thesis using cb fb ph by (intro exI [of _ bs] exI [of _ "hsize s p + n"]) auto
  next
    case False
    have lt: "unat p + span s p < unat bp" using B(1) False e by (simp add: word_unat_eq_iff)
    have "join_lower bp p u = set_header p (hd ((bp # bs) @ [hbase s])) (hsize s p) u"
      using False pb by (simp add: join_lower_def u_def set_hptr_def set_header_def fun_upd_idem)
    moreover have "hchain u (hbase s) (bp # bs)"
      using cb bs(4) by (simp add: u_def apart_def span_def)
    moreover have "\<forall>y \<in> set (bp # bs). unat p + 16 * unat (hsize s p) < unat y"
      using lt bs(3) R(3) by (auto simp: span_def apart_def)
    moreover have "free_bytes u (bp # bs) = {unat bp ..< unat bp + 16 * unat n} \<union> free_bytes s bs"
      using fb by (simp add: free_bytes_def block_bytes_def span_def u_def)
    moreover have "unat p + 16 * unat (hsize s p) \<le> 2 ^ 36" using R(8) by (simp add: in_heap_def span_def)
    moreover have "if p = hbase s then hsize s p = 0 else 0 < hsize s p" using z pos by auto
    ultimately show ?thesis
      by (intro exI [of _ "bp # bs"] exI [of _ "hsize s p"]) (auto simp: block_bytes_def span_def)
  qed
qed

text \<open>What holds of the allocator after a change of its free blocks, and of the headers of allocated blocks.\<close>

definition keeps_headers :: "uheap \<Rightarrow> u64 set \<Rightarrow> uheap \<Rightarrow> bool" where
  "keeps_headers s A t \<longleftrightarrow> hbase t = hbase s \<and> (\<forall>a. a \<notin> A \<longrightarrow> hsize t a = hsize s a \<and> hptr t a = hptr s a)"

lemma ufree_result:
  assumes r: "ring s ns" and b: "returnable s ns bp"
  shows "\<exists>t ns'. ufree (bp + 16) s = Some t \<and> ring t ns' \<and> free_bytes t ns' = free_bytes s ns \<union> block_bytes s bp \<and>
    keeps_headers s (insert bp (set ns)) t"
proof -
  have nb: "bp \<notin> set ns"
  proof
    assume "bp \<in> set ns"
    then have "block_bytes s bp \<subseteq> free_bytes s ns" by (auto simp: free_bytes_def)
    moreover have "unat bp \<in> block_bytes s bp" using b by (simp add: returnable_def block_bytes_def span_def word_less_nat_alt)
    ultimately show False using b by (auto simp: returnable_def)
  qed
  obtain xs p ys where n: "ns = xs @ p # ys" "p < bp" "\<forall>y \<in> set ys. bp < y"
    using ring_split_at [OF r _ nb] b by (auto simp: returnable_def)
  note r = r [unfolded n(1)] and b = b [unfolded n(1)]
  note R = ring_parts [OF r]
  have scan: "free_scan s bp (freep s) = Some p"
    by (rule free_scan_finds [OF r n(2,3)]) (use r in \<open>simp add: ring_def\<close>)
  obtain bs m where U: "join_upper bp p s = set_header bp (hd (bs @ [hbase s])) m s" "0 < m" "hchain s (hbase s) bs"
      "set bs \<subseteq> set ys" "\<forall>y \<in> set bs. unat bp + 16 * unat m < unat y" "unat bp + 16 * unat m \<le> 2 ^ 36"
      "{unat bp ..< unat bp + 16 * unat m} \<union> free_bytes s bs = block_bytes s bp \<union> free_bytes s ys"
    using join_upper_result [OF r b n(2,3)] by blast
  define u where "u = set_header bp (hd (bs @ [hbase s])) m s"
  obtain cs k where L: "join_lower bp p u = set_header p (hd (cs @ [hbase s])) k u" "hchain u (hbase s) cs"
      "set cs \<subseteq> insert bp (set bs)" "\<forall>y \<in> set cs. unat p + 16 * unat k < unat y" "unat p + 16 * unat k \<le> 2 ^ 36"
      "if p = hbase s then k = 0 else 0 < k"
      "{unat p ..< unat p + 16 * unat k} \<union> free_bytes u cs = block_bytes s p \<union> {unat bp ..< unat bp + 16 * unat m} \<union> free_bytes s bs"
    using join_lower_result [OF r b n(2,3) U(2-6)] unfolding u_def by blast
  let ?t = "(set_header p (hd (cs @ [hbase s])) k u)\<lparr>freep := p\<rparr>" and ?ns = "xs @ p # cs"
  have up: "\<forall>y \<in> set cs. p < y" using L(4) by (auto simp: word_less_nat_alt)
  have px: "\<forall>x \<in> set xs. x \<noteq> p \<and> x \<noteq> bp \<and> x \<notin> set cs"
  proof
    fix x assume "x \<in> set xs"
    then have "x < p" using R(5) apart_less by blast
    then show "x \<noteq> p \<and> x \<noteq> bp \<and> x \<notin> set cs" using n(2) up by auto
  qed
  have sz: "hsize ?t y = hsize u y \<and> hptr ?t y = hptr u y" if "y \<in> set cs" for y using that up by auto
  have ct: "hchain ?t (hbase s) cs" using L(2) hchain_cong [of cs ?t u "hbase s"] sz by blast
  have cx: "hchain ?t p xs" using R(1) hchain_cong [of xs ?t s p] px by (auto simp: u_def)
  have ap: "apart ?t x y" if "x \<in> set xs" "y \<in> insert p (set cs)" for x y
  proof -
    have "apart s x p" using R(5) that(1) by blast
    moreover have "p \<le> y" using that(2) up by auto
    ultimately show ?thesis using px that(1) by (auto simp: apart_def span_def u_def word_le_nat_alt)
  qed
  have ring: "ring ?t ?ns"
    unfolding ring_def
  proof (intro conjI)
    show "hchain ?t (hbase ?t) ?ns"
      using ct cx ap L(4) up by (auto simp: hchain_append u_def apart_def span_def)
    show "hd ?ns = hbase ?t" using R(12) by (cases xs) (simp_all add: u_def)
    show "hsize ?t (hbase ?t) = 0"
      using L(6) r b by (auto simp: u_def ring_def returnable_def)
    have "0 < hsize ?t y" if "y \<in> set cs" for y
      using that L(3) U(2,4) R(7) sz [OF that] by (auto simp: u_def)
    moreover have "0 < hsize ?t y" if "y \<in> set (tl (xs @ [p]))" for y
    proof (cases "y = p")
      case True
      then have "p \<noteq> hbase s" using that R(12) R(5) by (cases xs) (auto dest: apart_less)
      then show ?thesis using True L(6) by simp
    next
      case False
      then have "y \<in> set (tl (xs @ p # ys))" using that by (cases xs) auto
      then have "0 < hsize s y" using r by (auto simp: ring_def)
      moreover have "y \<in> set xs" using that False by (cases xs) auto
      ultimately show ?thesis using px by (auto simp: u_def)
    qed
    moreover have "set (tl ?ns) = set (tl (xs @ [p])) \<union> set cs" by (cases xs) auto
    ultimately show "\<forall>a \<in> set (tl ?ns). 0 < hsize ?t a" by blast
    have "in_heap ?t y" if "y \<in> set cs" for y
      using that L(3) U(4,6) R(9) sz [OF that] by (auto simp: u_def in_heap_def span_def)
    moreover have "in_heap ?t x" if "x \<in> set xs" for x
      using that px r by (auto simp: u_def in_heap_def span_def ring_def)
    moreover have "in_heap ?t p" using L(5) by (simp add: in_heap_def span_def)
    ultimately show "\<forall>a \<in> set ?ns. in_heap ?t a" by auto
    show "0 < hbase ?t" using R(11) by (simp add: u_def)
  qed simp_all
  have "free_bytes ?t ?ns = free_bytes s xs \<union> ({unat p ..< unat p + 16 * unat k} \<union> free_bytes u cs)"
  proof -
    have "free_bytes ?t xs = free_bytes s xs" by (rule free_bytes_cong) (use px in \<open>auto simp: u_def\<close>)
    moreover have "free_bytes ?t cs = free_bytes u cs" by (rule free_bytes_cong) (use sz in blast)
    moreover have "block_bytes ?t p = {unat p ..< unat p + 16 * unat k}" by (simp add: block_bytes_def span_def)
    ultimately show ?thesis by (simp add: free_bytes_def Un_ac)
  qed
  also have "\<dots> = free_bytes s (xs @ p # ys) \<union> block_bytes s bp"
    unfolding L(7) using U(7) by (auto simp: free_bytes_def)
  finally have fb: "free_bytes ?t ?ns = free_bytes s ns \<union> block_bytes s bp" by (simp add: n(1))
  have "keeps_headers s (insert bp (set ns)) ?t" using n(1) by (simp add: keeps_headers_def u_def)
  moreover have "ufree (bp + 16) s = Some ?t" using scan U(1) L(1) by (simp add: ufree_def Let_def u_def)
  ultimately show ?thesis using ring fb by blast
qed

subsection \<open>Taking a block\<close>

lemma hchain_links: "hchain s z ns \<Longrightarrow> ns \<noteq> [] \<Longrightarrow> successively (\<lambda>a b. hptr s a = b) (ns @ [z])"
proof (induction ns)
  case (Cons a ns)
  then show ?case by (cases ns) (simp_all add: successively_Cons)
qed simp

lemma ring_pred:
  assumes r: "ring s (xs @ p # ys)" and q: "q \<in> set (xs @ p # ys)" "hptr s q = p" and p: "p \<noteq> hbase s"
  shows "xs \<noteq> [] \<and> q = last xs"
proof -
  note R = ring_parts [OF r]
  have below: "x < p" if "x \<in> set xs" for x using R(5) that apart_less by blast
  have above: "p < y" if "y \<in> set ys" for y using R(3) that apart_less by blast
  have "q \<notin> set (p # ys)"
  proof
    assume "q \<in> set (p # ys)"
    then obtain us vs where u: "p # ys = us @ q # vs" by (meson split_list)
    have "hchain s (hbase s) (p # ys)" using r R by simp
    then have "hptr s q = hd (vs @ [hbase s])" unfolding u by (simp add: hchain_append)
    moreover have "y \<noteq> p" if "y \<in> set vs" for y using u above that by (cases us) auto
    ultimately show False using q(2) p by (cases vs) auto
  qed
  then obtain us vs where x: "xs = us @ q # vs" using q(1) by (auto dest: split_list)
  then have "hptr s q = hd (vs @ [p])" using R(1) by (simp add: hchain_append)
  then have "vs = []" using q(2) below x by (cases vs) auto
  then show ?thesis using x by simp
qed

definition taken :: "u32 \<Rightarrow> uheap \<Rightarrow> u64 list \<Rightarrow> u64 \<times> uheap \<Rightarrow> bool" where
  "taken n s ns = (\<lambda>(r, t). \<exists>ns' bp. r = bp + 16 \<and> ring t ns' \<and> hsize t bp = n \<and>
     block_bytes t bp \<subseteq> free_bytes s ns \<and> free_bytes t ns' = free_bytes s ns - block_bytes t bp \<and>
     hbase s < bp \<and> in_heap t bp \<and> keeps_headers s (insert bp (set ns)) t)"

lemma ring_disjoint:
  assumes "ring s ns" and "a \<in> set ns" and "b \<in> set ns" and "k \<in> block_bytes s a" and "k \<in> block_bytes s b"
  shows "a = b"
proof -
  have "apart s x y \<Longrightarrow> k \<in> block_bytes s x \<Longrightarrow> k \<in> block_bytes s y \<Longrightarrow> False" for x y
    by (simp add: apart_def block_bytes_def)
  moreover obtain us vs where u: "ns = us @ a # vs" using assms(2) split_list by fast
  have "b = a \<or> apart s a b \<or> apart s b a"
    using assms(3) ring_parts(3,5) [OF assms(1) [unfolded u]] u by auto
  ultimately show ?thesis using assms(4,5) by blast
qed

lemma take_block_result:
  assumes r: "ring s ns" and q: "q \<in> set ns" "hptr s q = p" and p: "p \<in> set ns" and fit: "n \<le> hsize s p" "0 < n"
  shows "taken n s ns (take_block n q p s)"
proof -
  obtain xs ys where n: "ns = xs @ p # ys" using p split_list by fast
  note r' = r [unfolded n] note R = ring_parts [OF r']
  have ph: "p \<noteq> hbase s" using fit r by (auto simp: ring_def)
  obtain us where x: "xs = us @ [q]" using ring_pred [OF r' _ q(2) ph] q(1) n by (metis append_butlast_last_id)
  have hp: "hbase s < p" using R(10) ph by auto
  have ip: "in_heap s p" by (rule R(8))
  have below: "x < p" if "x \<in> set xs" for x using R(5) that apart_less by blast
  have above: "p < y" if "y \<in> set ys" for y using R(3) that apart_less by blast
  have others: "block_bytes s p \<inter> free_bytes s (xs @ ys) = {}"
    using ring_disjoint [OF r p] n below above by (fastforce simp: free_bytes_def)
  have all: "free_bytes s ns = block_bytes s p \<union> free_bytes s (xs @ ys)" by (auto simp: n free_bytes_def)
  show ?thesis
  proof (cases "hsize s p = n")
    case True
    let ?t = "(set_hptr q (hptr s p) s)\<lparr>freep := q\<rparr>"
    have tb: "take_block n q p s = (p + 16, ?t)" using True by (simp add: take_block_def)
    have hs: "hsize ?t = hsize s" "hbase ?t = hbase s" by (simp_all add: set_hptr_def)
    have sp: "span ?t = span s" "apart ?t = apart s" "in_heap ?t = in_heap s" "block_bytes ?t = block_bytes s"
      "free_bytes ?t = free_bytes s"
      by (simp_all add: fun_eq_iff span_def apart_def in_heap_def block_bytes_def free_bytes_def hs)
    have qo: "q \<notin> set us \<and> q \<notin> set ys"
      using R(1) above [of q] below [of q] x by (auto simp: hchain_append dest: apart_less)
    have "hchain ?t q us = hchain s q us" by (rule hchain_cong) (use qo in \<open>auto simp: set_hptr_def\<close>)
    moreover have "hchain ?t (hbase s) ys = hchain s (hbase s) ys" by (rule hchain_cong) (use qo in \<open>auto simp: set_hptr_def\<close>)
    ultimately have "hchain ?t (hbase s) (xs @ ys)"
      using R(1,2,4,6) x sp by (auto simp: hchain_append set_hptr_def)
    moreover have "set (tl (xs @ ys)) \<subseteq> set (tl ns)" "hd (xs @ ys) = hd ns" using x n by (cases us; auto)+
    ultimately have "ring ?t (xs @ ys)"
      using r x n sp hs by (auto simp: ring_def)
    moreover have "keeps_headers s (insert p (set ns)) ?t" using q(1) by (auto simp: keeps_headers_def set_hptr_def)
    moreover have "free_bytes s (xs @ ys) = free_bytes s ns - block_bytes s p" using others all by blast
    ultimately show ?thesis
      using tb True hp ip all sp hs by (auto simp: taken_def)
  next
    case False
    let ?m = "hsize s p - n" let ?b = "p + units ?m"
    let ?t = "s\<lparr>hsize := (hsize s)(p := ?m, ?b := n), freep := q\<rparr>"
    have lt: "n < hsize s p" using False fit(1) by auto
    have m: "unat ?m = unat (hsize s p) - unat n" "0 < ?m" "unat n < unat (hsize s p)"
      using lt by (simp_all add: unat_sub word_le_nat_alt word_less_nat_alt)
    have ub: "unat ?b = unat p + 16 * unat ?m"
      using ip m(1) by (simp add: unat_word_ariths unat_units in_heap_def span_def)
    have eb: "unat ?b + 16 * unat n = unat p + span s p" using ub m by (simp add: span_def)
    have bn: "?b \<notin> set ns"
    proof
      assume b: "?b \<in> set ns"
      have "unat ?b \<in> block_bytes s p" using ub eb m fit(2) by (simp add: block_bytes_def word_less_nat_alt)
      moreover have "?b \<noteq> p" using ub m(2) by (auto simp: word_less_nat_alt)
      moreover have "?b \<noteq> hbase s" using ub hp by (auto simp: word_less_nat_alt)
      then have "0 < hsize s ?b" by (rule ring_block_pos [OF r b])
      then have "unat ?b \<in> block_bytes s ?b" by (simp add: block_bytes_def span_def word_less_nat_alt)
      ultimately show False using ring_disjoint [OF r p b] by auto
    qed
    have tb: "take_block n q p s = (?b + 16, ?t)"
      using False by (simp add: take_block_def Let_def set_hsize_def)
    have st: "hsize ?t a = hsize s a" if "a \<in> set ns" "a \<noteq> p" for a using that bn by auto
    have tp: "hsize ?t p = ?m" using bn p by auto
    have shrink: "apart s a c \<Longrightarrow> apart ?t a c" "in_heap s a \<Longrightarrow> in_heap ?t a" if "a \<in> set ns" for a c
      using st [OF that] tp m(1) by (cases "a = p"; simp add: apart_def in_heap_def span_def)+
    have ch: "hchain ?t z l" if "hchain s z l" "set l \<subseteq> set ns" for z l
      using that shrink(1) by (induction l) auto
    have ns: "ns \<noteq> []" "hd ns = hbase s" "hbase s \<in> set ns" "hsize s (hbase s) = 0"
      using r hd_in_set [of ns] by (simp_all add: ring_def)
    have "ring ?t ns"
      unfolding ring_def
    proof (intro conjI ballI)
      show "hchain ?t (hbase ?t) ns" using ch [of "hbase s" ns] r by (simp add: ring_def)
      show "hsize ?t (hbase ?t) = 0" using st [OF ns(3)] ns(4) ph by simp
      show "in_heap ?t a" if "a \<in> set ns" for a using shrink(2) [OF that] that r by (simp add: ring_def)
      show "0 < hsize ?t a" if "a \<in> set (tl ns)" for a
      proof (cases "a = p")
        case False
        have "a \<in> set ns" using that ns(1) by (simp add: list.set_sel(2))
        then show ?thesis using st [OF _ False] that r by (simp add: ring_def)
      qed (use tp m(2) in simp)
    qed (use ns q(1) r in \<open>simp_all add: ring_def\<close>)
    moreover have bb: "block_bytes ?t ?b = {unat ?b ..< unat p + span s p}" using eb by (simp add: block_bytes_def span_def)
    moreover have "block_bytes ?t p = {unat p ..< unat ?b}" using ub tp by (simp add: block_bytes_def span_def)
    moreover have "free_bytes ?t ns = block_bytes ?t p \<union> free_bytes s (xs @ ys)"
    proof -
      have "free_bytes ?t (xs @ ys) = free_bytes s (xs @ ys)"
        by (rule free_bytes_cong) (use st n below above in \<open>force simp: n\<close>)
      then show ?thesis by (auto simp: n free_bytes_def)
    qed
    moreover have "block_bytes s p = block_bytes ?t p \<union> block_bytes ?t ?b" "block_bytes ?t p \<inter> block_bytes ?t ?b = {}"
      using calculation(2,3) ub eb by (auto simp: block_bytes_def)
    moreover have "hbase s < ?b" using hp ub by (simp add: word_less_nat_alt)
    moreover have "in_heap ?t ?b" using eb ip by (simp add: in_heap_def span_def)
    moreover have "keeps_headers s (insert ?b (set ns)) ?t" using p by (auto simp: keeps_headers_def)
    ultimately show ?thesis
      unfolding taken_def tb using others all by (intro case_prodI exI [of _ ns] exI [of _ ?b]) auto
  qed
qed

subsection \<open>The search of malloc\<close>

text \<open>The headers in the order in which \<open>malloc\<close> visits them: from the one after \<open>freep\<close> to \<open>freep\<close>.\<close>

lemma ring_walk:
  assumes r: "ring s ns"
  shows "\<exists>ws. ws \<noteq> [] \<and> set ws = set ns \<and> last ws = freep s \<and> freep s \<notin> set (butlast ws) \<and>
    successively (\<lambda>a b. hptr s a = b) (freep s # ws)"
proof -
  let ?P = "\<lambda>a b. hptr s a = b"
  have "freep s \<in> set ns" using r by (simp add: ring_def)
  then obtain as bs where n: "ns = as @ freep s # bs" using split_list by fast
  note R = ring_parts [OF r [unfolded n]]
  have "ns \<noteq> []" "hd ns = hbase s" "hchain s (hbase s) ns" using r by (simp_all add: ring_def)
  then have link: "successively ?P (ns @ [hbase s])" using hchain_links by blast
  have "freep s \<notin> set as" "freep s \<notin> set bs" using R(3,5) apart_less by blast+
  moreover have "successively ?P (freep s # bs @ as @ [freep s])"
  proof (cases as)
    case Nil
    then show ?thesis using link n \<open>hd ns = hbase s\<close> by simp
  next
    case (Cons a as')
    then have "a = hbase s" using \<open>hd ns = hbase s\<close> n by simp
    then show ?thesis using link n Cons by (auto simp: successively_append_iff successively_Cons hd_append split: if_splits)
  qed
  ultimately show ?thesis
    by (intro exI [of _ "bs @ as @ [freep s]"]) (auto simp: n butlast_append)
qed

lemma malloc_loop_finds:
  assumes "successively (\<lambda>a b. hptr s a = b) (q # ws)" and "ws \<noteq> []" and "freep s \<notin> set (butlast ws)"
    and "\<exists>a \<in> set ws. n \<le> hsize s a"
  shows "\<exists>q' p. q' \<in> set (q # ws) \<and> hptr s q' = p \<and> p \<in> set ws \<and> n \<le> hsize s p \<and>
    malloc_loop sbrk n q (hd ws) s = Some (take_block n q' p s)"
  using assms
proof (induction ws arbitrary: q)
  case (Cons a ws)
  show ?case
  proof (cases "n \<le> hsize s a")
    case True
    then show ?thesis using Cons.prems(1) by (intro exI [of _ q] exI [of _ a]) (subst malloc_loop.simps, simp)
  next
    case False
    then have ws: "ws \<noteq> []" using Cons.prems(4) by auto
    then have "a \<noteq> freep s" "hptr s a = hd ws" using Cons.prems(1,3) by (auto simp: successively_Cons)
    moreover obtain q' p where "q' \<in> set (a # ws)" "hptr s q' = p" "p \<in> set ws" "n \<le> hsize s p"
        "malloc_loop sbrk n a (hd ws) s = Some (take_block n q' p s)"
      using Cons.IH [of a] Cons.prems ws False by (auto simp: successively_Cons)
    ultimately show ?thesis
      using False by (intro exI [of _ q'] exI [of _ p]) (subst malloc_loop.simps, simp)
  qed
qed simp

lemma malloc_loop_misses:
  assumes "successively (\<lambda>a b. hptr s a = b) (q # ws)" and "ws \<noteq> []" and "freep s = last ws"
    and "freep s \<notin> set (butlast ws)" and "\<forall>a \<in> set ws. \<not> n \<le> hsize s a"
  shows "malloc_loop sbrk n q (hd ws) s = (case morecore sbrk n s of None \<Rightarrow> None
    | Some (p, s) \<Rightarrow> if p = 0 then Some (0, s) else malloc_loop sbrk n p (hptr s p) s)"
  using assms
proof (induction ws arbitrary: q)
  case (Cons a ws)
  show ?case
  proof (cases "ws = []")
    case True
    then show ?thesis using Cons.prems by (subst malloc_loop.simps) simp
  next
    case False
    then have "a \<noteq> freep s" "hptr s a = hd ws" using Cons.prems(1,4) by (auto simp: successively_Cons)
    then show ?thesis
      using False Cons.IH [of a] Cons.prems by (subst malloc_loop.simps) (auto simp: successively_Cons)
  qed
qed simp

lemma malloc_loop_fits:
  assumes r: "ring s ns" and fit: "\<exists>a \<in> set ns. n \<le> hsize s a" and n: "0 < n"
  shows "\<exists>x. malloc_loop sbrk n (freep s) (hptr s (freep s)) s = Some x \<and> taken n s ns x"
proof -
  obtain ws where w: "ws \<noteq> []" "set ws = set ns" "freep s \<notin> set (butlast ws)"
      "successively (\<lambda>a b. hptr s a = b) (freep s # ws)"
    using ring_walk [OF r] by blast
  then have h: "hptr s (freep s) = hd ws" by (simp add: successively_Cons)
  obtain q p where "q \<in> set (freep s # ws)" "hptr s q = p" "p \<in> set ws" "n \<le> hsize s p"
      "malloc_loop sbrk n (freep s) (hd ws) s = Some (take_block n q p s)"
    using malloc_loop_finds [OF w(4,1,3), of n] fit w(2) by blast
  moreover have "freep s \<in> set ns" using r by (simp add: ring_def)
  ultimately show ?thesis
    using take_block_result [OF r, of q p n] n w(2) h by auto
qed

text \<open>A run of free bytes lies in one block, because blocks do not touch.\<close>

lemma ring_covers:
  assumes r: "ring s ns" and sub: "{l ..< u} \<subseteq> free_bytes s ns" and "l < u"
  shows "\<exists>a \<in> set ns. u - l \<le> span s a"
proof -
  have "l \<in> free_bytes s ns" using sub assms(3) by auto
  then obtain a where a: "a \<in> set ns" "unat a \<le> l" "l < unat a + span s a"
    by (auto simp: free_bytes_def block_bytes_def)
  have "u \<le> unat a + span s a"
  proof (rule ccontr)
    assume "\<not> u \<le> unat a + span s a"
    then have "unat a + span s a \<in> free_bytes s ns" using sub a(3) by auto
    then obtain c where c: "c \<in> set ns" "unat c \<le> unat a + span s a" "unat a + span s a < unat c + span s c"
      by (auto simp: free_bytes_def block_bytes_def)
    obtain us vs where n: "ns = us @ a # vs" using a(1) split_list by fast
    have "c = a \<or> apart s a c \<or> apart s c a"
      using c(1) ring_parts(3,5) [OF r [unfolded n]] n by auto
    then show False using c(2,3) a by (auto simp: apart_def)
  qed
  with a show ?thesis by (intro bexI [of _ a]) auto
qed

subsection \<open>The contract of malloc and free\<close>

text \<open>
  The documented behaviour of \<open>sbrk\<close> the allocator relies on: for \<open>b\<close> bytes it returns the address of \<open>b\<close>
  bytes above the program's static data that are in nobody's use.
\<close>

definition fresh :: "(u32 \<Rightarrow> u64 option) \<Rightarrow> uheap \<Rightarrow> u64 list \<Rightarrow> bool" where
  "fresh sbrk s ns \<longleftrightarrow> (\<forall>b hp. sbrk b = Some hp \<longrightarrow> hbase s < hp \<and> unat hp + unat b \<le> 2 ^ 36 \<and>
     {unat hp ..< unat hp + unat b} \<inter> free_bytes s ns = {})"

lemma malloc_units_enough:
  assumes "nbytes < 0x7FFFFFE0"
  shows "0 < malloc_units nbytes" "unat nbytes + 16 \<le> 16 * unat (malloc_units nbytes)" "16 * unat (malloc_units nbytes) < 2 ^ 31"
proof -
  have n: "unat nbytes < 0x7FFFFFE0" using assms by (simp add: word_less_nat_alt)
  have a: "unat (ucast nbytes + 16 - 1 :: u64) = unat nbytes + 15"
  proof -
    have "ucast nbytes + 16 - 1 = (ucast nbytes + 15 :: u64)" by simp
    then show ?thesis using n by (simp add: unat_word_ariths unsigned_ucast_eq take_bit_eq_mod)
  qed
  have "unat ((ucast nbytes + 16 - 1) div 16 + 1 :: u64) = (unat nbytes + 15) div 16 + 1"
    using n by (simp only: unat_word_ariths(1) unat_div a) simp
  then have u: "unat (malloc_units nbytes) = (unat nbytes + 15) div 16 + 1"
    using n by (simp add: malloc_units_def unsigned_ucast_eq take_bit_eq_mod)
  then show "0 < malloc_units nbytes" "unat nbytes + 16 \<le> 16 * unat (malloc_units nbytes)" "16 * unat (malloc_units nbytes) < 2 ^ 31"
    using n by (simp_all add: word_less_nat_alt)
qed

lemma ring_node_free: "ring s ns \<Longrightarrow> a \<in> set ns \<Longrightarrow> a \<noteq> hbase s \<Longrightarrow> unat a \<in> free_bytes s ns"
  using ring_block_pos [of s ns a] by (force simp: free_bytes_def block_bytes_def span_def word_less_nat_alt)

text \<open>
  C19: \<open>free\<close> gives a block back. When the free list is well formed and the block with header \<open>bp\<close> shares no
  byte with the free blocks, \<open>free\<close> returns, wherever \<open>freep\<close> points; the list is well formed again, with
  blocks that touch joined, its bytes are those it had and those of the block, and the headers of the other
  blocks in use are unchanged.
\<close>
theorem free_returns_block:
  assumes "ring s ns" and "returnable s ns bp"
  shows "\<exists>t ns'. ufree (bp + 16) s = Some t \<and> ring t ns' \<and> free_bytes t ns' = free_bytes s ns \<union> block_bytes s bp \<and>
    (\<forall>a. unat a \<notin> free_bytes t ns' \<longrightarrow> a \<noteq> hbase s \<longrightarrow> hsize t a = hsize s a)"
proof -
  obtain t ns' where t: "ufree (bp + 16) s = Some t" "ring t ns'" "free_bytes t ns' = free_bytes s ns \<union> block_bytes s bp"
      "keeps_headers s (insert bp (set ns)) t"
    using ufree_result [OF assms] by blast
  have "unat bp \<in> block_bytes s bp"
    using assms(2) by (simp add: returnable_def block_bytes_def span_def word_less_nat_alt)
  then have "a \<notin> insert bp (set ns)" if "unat a \<notin> free_bytes t ns'" "a \<noteq> hbase s" for a
    using that t(3) ring_node_free [OF assms(1), of a] by auto
  then show ?thesis using t by (auto simp: keeps_headers_def)
qed

text \<open>What \<open>malloc\<close> has done when it returned a block of \<open>n\<close> units, with \<open>E\<close> the bytes got from \<open>sbrk\<close>.\<close>

definition allocated_from :: "u32 \<Rightarrow> uheap \<Rightarrow> u64 list \<Rightarrow> nat set \<Rightarrow> u64 \<Rightarrow> uheap \<Rightarrow> bool" where
  "allocated_from n s ns E r t \<longleftrightarrow> (\<exists>bp ns'. r = bp + 16 \<and> r \<noteq> 0 \<and> hsize t bp = n \<and> ring t ns' \<and>
     block_bytes t bp \<subseteq> free_bytes s ns \<union> E \<and> free_bytes t ns' = (free_bytes s ns \<union> E) - block_bytes t bp \<and>
     (\<forall>a. unat a \<notin> free_bytes s ns \<union> E \<longrightarrow> a \<noteq> hbase s \<longrightarrow> hsize t a = hsize s a))"

lemma taken_allocated:
  assumes "ring s ns" and "taken n s ns (r, t)" and "0 < n"
  shows "allocated_from n s ns {} r t"
proof -
  obtain bp ns' where b: "r = bp + 16" "ring t ns'" "hsize t bp = n" "block_bytes t bp \<subseteq> free_bytes s ns"
      "free_bytes t ns' = free_bytes s ns - block_bytes t bp" "in_heap t bp" "keeps_headers s (insert bp (set ns)) t"
    using assms(2) by (auto simp: taken_def)
  have "unat bp + 16 < 2 ^ 64" using b(6) by (simp add: in_heap_def)
  then have "unat (bp + 16) = unat bp + 16" by (simp add: unat_word_ariths)
  then have "r \<noteq> 0" using b(1) by auto
  moreover have "unat bp \<in> block_bytes t bp" using assms(3) b(3) by (simp add: block_bytes_def span_def word_less_nat_alt)
  then have "a \<notin> insert bp (set ns)" if "unat a \<notin> free_bytes s ns" "a \<noteq> hbase s" for a
    using that b(4) ring_node_free [OF assms(1), of a] by auto
  ultimately show ?thesis using b by (auto simp: allocated_from_def keeps_headers_def)
qed

text \<open>The number of bytes \<open>morecore\<close> asks for: at least 4096 units.\<close>

definition grow_bytes :: "u32 \<Rightarrow> nat" where
  "grow_bytes n = 16 * max 4096 (unat n)"

lemma morecore_grows:
  assumes r: "ring s ns" and f: "fresh sbrk s ns" and n: "16 * unat n < 2 ^ 31" "0 < n"
  shows "case sbrk (of_nat (grow_bytes n)) of
      None \<Rightarrow> morecore sbrk n s = Some (0, s)
    | Some hp \<Rightarrow> \<exists>t ns'. morecore sbrk n s = Some (freep t, t) \<and> ring t ns' \<and>
        free_bytes t ns' = free_bytes s ns \<union> {unat hp ..< unat hp + grow_bytes n} \<and>
        hbase t = hbase s \<and> (\<forall>a. unat a \<notin> free_bytes t ns' \<longrightarrow> a \<noteq> hbase s \<longrightarrow> hsize t a = hsize s a)"
proof -
  let ?nu = "if n < 4096 then 4096 else n" let ?b = "ucast (units ?nu) :: u32"
  have nu: "16 * unat ?nu < 2 ^ 31" "unat n \<le> unat ?nu" "0 < unat ?nu" "16 * unat ?nu = grow_bytes n"
    using n by (auto simp: word_less_nat_alt grow_bytes_def)
  then have b: "unat ?b = 16 * unat ?nu" by (simp only: unsigned_ucast_eq take_bit_eq_mod unat_units) simp
  then have g: "of_nat (grow_bytes n) = ?b" "unat ?b = grow_bytes n" using nu(4) by (metis of_nat_unat ucast_id, simp)
  show ?thesis
  proof (cases "sbrk ?b")
    case None
    then show ?thesis unfolding g(1) by (simp add: morecore_def Let_def)
  next
    case (Some hp)
    let ?s = "set_hsize hp ?nu s" and ?E = "{unat hp ..< unat hp + unat ?b}"
    have F: "hbase s < hp" "unat hp + unat ?b \<le> 2 ^ 36" "?E \<inter> free_bytes s ns = {}" using f Some by (auto simp: fresh_def)
    have hE: "unat hp \<in> ?E" using b nu(3) by simp
    have nin: "hp \<notin> set ns"
    proof
      assume "hp \<in> set ns"
      then have "unat hp \<in> free_bytes s ns" using F(1) by (intro ring_node_free [OF r]) auto
      then show False using hE F(3) by blast
    qed
    have "hchain ?s (hbase s) ns = hchain s (hbase s) ns" by (rule hchain_cong) (use nin in \<open>auto simp: set_hsize_def\<close>)
    moreover have tl: "set (tl ns) \<subseteq> set ns" by (cases ns) auto
    ultimately have rs: "ring ?s ns"
      using r nin F(1) by (auto simp: ring_def set_hsize_def in_heap_def span_def)
    have fb: "free_bytes ?s ns = free_bytes s ns" by (rule free_bytes_cong) (use nin in \<open>auto simp: set_hsize_def\<close>)
    have bb: "block_bytes ?s hp = ?E" by (simp add: block_bytes_def span_def set_hsize_def b)
    have "returnable ?s ns hp"
      using F nu(3) fb bb b by (simp add: returnable_def in_heap_def span_def set_hsize_def word_less_nat_alt)
    from ufree_result [OF rs this] obtain t ns' where t: "ufree (hp + 16) ?s = Some t" "ring t ns'"
        "free_bytes t ns' = free_bytes s ns \<union> ?E" "keeps_headers ?s (insert hp (set ns)) t"
      unfolding fb bb by blast
    have "morecore sbrk n s = Some (freep t, t)" using Some t(1) by (simp add: morecore_def Let_def)
    moreover have "hsize t a = hsize s a" if "unat a \<notin> free_bytes t ns'" "a \<noteq> hbase s" for a
    proof -
      have "a \<noteq> hp" "a \<notin> set ns" using that t(3) hE ring_node_free [OF r, of a] by auto
      then show ?thesis using t(4) by (simp add: keeps_headers_def set_hsize_def)
    qed
    moreover have "hbase t = hbase s" using t(4) by (simp add: keeps_headers_def set_hsize_def)
    ultimately show ?thesis unfolding g(1) using Some t(2,3) g(2) by auto
  qed
qed

lemma freep_nonzero: "ring s ns \<Longrightarrow> freep s \<noteq> 0"
proof -
  assume r: "ring s ns"
  then obtain as bs where n: "ns = as @ freep s # bs" using split_list [of "freep s" ns] by (auto simp: ring_def)
  from ring_parts(10,11) [OF r [unfolded n]] show ?thesis by auto
qed

text \<open>
  C18: \<open>malloc\<close> hands out free memory, and fails only if \<open>sbrk\<close> does. When the free list is well formed and
  \<open>sbrk\<close> gives fresh memory, a request of less than 2 GB returns. If a free block is large enough the result
  is the address after the header of a block of at least \<open>nbytes\<close> bytes that consists of bytes that were free
  and are not free any more, and \<open>sbrk\<close> is not needed. Otherwise \<open>sbrk\<close> is asked for the block and its header,
  64 KB at least: if it fails the result is null and nothing has changed; if it gives memory the result is such
  a block from the bytes that were free and the new ones, and the rest of the new bytes is free. The list is
  well formed again and the headers of the blocks in use are unchanged.
\<close>
theorem malloc_gives_free_block:
  assumes "ring s ns" and "fresh sbrk s ns" and "nbytes < 0x7FFFFFE0"
  shows "unat nbytes + 16 \<le> 16 * unat (malloc_units nbytes) \<and> (\<exists>r t. umalloc sbrk nbytes s = Some (r, t) \<and>
    (if \<exists>a \<in> set ns. malloc_units nbytes \<le> hsize s a then allocated_from (malloc_units nbytes) s ns {} r t
     else case sbrk (of_nat (grow_bytes (malloc_units nbytes))) of
        None \<Rightarrow> r = 0 \<and> t = s
      | Some hp \<Rightarrow> allocated_from (malloc_units nbytes) s ns {unat hp ..< unat hp + grow_bytes (malloc_units nbytes)} r t))"
proof -
  let ?n = "malloc_units nbytes"
  note N = malloc_units_enough [OF assms(3)]
  have m: "umalloc sbrk nbytes s = malloc_loop sbrk ?n (freep s) (hptr s (freep s)) s"
    using freep_nonzero [OF assms(1)] by (simp add: umalloc_def Let_def)
  show ?thesis
  proof (cases "\<exists>a \<in> set ns. ?n \<le> hsize s a")
    case True
    then obtain r t where "malloc_loop sbrk ?n (freep s) (hptr s (freep s)) s = Some (r, t)" "taken ?n s ns (r, t)"
      using malloc_loop_fits [OF assms(1) True N(1), of sbrk] by auto
    then show ?thesis using taken_allocated [OF assms(1) _ N(1), of r t] N(2) m True by auto
  next
    case False
    obtain ws where w: "ws \<noteq> []" "set ws = set ns" "last ws = freep s" "freep s \<notin> set (butlast ws)"
        "successively (\<lambda>a b. hptr s a = b) (freep s # ws)"
      using ring_walk [OF assms(1)] by blast
    have "hptr s (freep s) = hd ws" using w(1,5) by (simp add: successively_Cons)
    then have ml: "malloc_loop sbrk ?n (freep s) (hptr s (freep s)) s = (case morecore sbrk ?n s of None \<Rightarrow> None
      | Some (p, s) \<Rightarrow> if p = 0 then Some (0, s) else malloc_loop sbrk ?n p (hptr s p) s)"
      using malloc_loop_misses [OF w(5,1) w(3) [symmetric] w(4), of ?n sbrk] False w(2) by simp
    note G = morecore_grows [OF assms(1,2) N(3,1)]
    show ?thesis
    proof (cases "sbrk (of_nat (grow_bytes ?n))")
      case None
      then have "umalloc sbrk nbytes s = Some (0, s)" using G ml m by simp
      then show ?thesis using None False N(2) by simp
    next
      case (Some hp)
      then obtain u ns' where M: "morecore sbrk ?n s = Some (freep u, u)" "ring u ns'"
        "free_bytes u ns' = free_bytes s ns \<union> {unat hp ..< unat hp + grow_bytes ?n}" "hbase u = hbase s"
        "\<forall>a. unat a \<notin> free_bytes u ns' \<longrightarrow> a \<noteq> hbase s \<longrightarrow> hsize u a = hsize s a"
        using G by auto
      have g: "0 < grow_bytes ?n" "16 * unat ?n \<le> grow_bytes ?n" by (simp_all add: grow_bytes_def)
      obtain a where "a \<in> set ns'" "unat hp + grow_bytes ?n - unat hp \<le> span u a"
        using ring_covers [OF M(2), of "unat hp" "unat hp + grow_bytes ?n"] M(3) g(1) by auto
      then have "\<exists>a \<in> set ns'. ?n \<le> hsize u a"
        using g(2) by (intro bexI [of _ a]) (simp_all add: span_def word_le_nat_alt)
      then obtain r t where rt: "malloc_loop sbrk ?n (freep u) (hptr u (freep u)) u = Some (r, t)" "taken ?n u ns' (r, t)"
        using malloc_loop_fits [OF M(2) _ N(1), of sbrk] by auto
      have "allocated_from ?n u ns' {} r t" by (rule taken_allocated [OF M(2) rt(2) N(1)])
      then have "allocated_from ?n s ns {unat hp ..< unat hp + grow_bytes ?n} r t"
        using M(3-5) by (auto simp: allocated_from_def)
      moreover have "umalloc sbrk nbytes s = Some (r, t)" using ml m M(1) rt(1) freep_nonzero [OF M(2)] by simp
      ultimately show ?thesis using Some False N(2) by auto
    qed
  qed
qed

lemma umalloc_first:
  assumes "freep s = 0" and "0 < hbase s" and "hbase s \<le> 0x1000000000"
  shows "umalloc sbrk nbytes s = umalloc sbrk nbytes (uheap_init s)" and "ring (uheap_init s) [hbase s]"
  using assms
  by (auto simp: umalloc_def Let_def uheap_init_def set_hptr_def set_hsize_def ring_def in_heap_def span_def word_le_nat_alt)

text \<open>
  The \<open>int\<close> that \<open>sbrk\<close> takes is too small for the largest requests: a request of 4 GB less one byte makes
  \<open>morecore\<close> ask for 16 bytes, and one of 2 GB for a negative number of bytes.
\<close>

lemma malloc_huge_wraps:
  "ucast (units (malloc_units 0xFFFFFFFF)) = (16 :: u32)" "sint (ucast (units (malloc_units 0x80000000)) :: u32) < 0"
  by (simp_all add: malloc_units_def units_def)

subsection \<open>A concrete heap\<close>

definition heap_sample :: uheap where
  "heap_sample = \<lparr>hptr = (\<lambda>_. 0), hsize = (\<lambda>_. 0)(0x4000 := 8), freep = 0, hbase = 0x2000\<rparr>"

lemma heap_sample_ring: "ring (uheap_init heap_sample) [0x2000]"
  using umalloc_first(2) [of heap_sample] by (simp add: heap_sample_def)

lemma free_returns_block_witness:
  "\<exists>t ns'. ufree 0x4010 (uheap_init heap_sample) = Some t \<and> ring t ns' \<and> free_bytes t ns' = {0x4000 ..< 0x4080}"
proof -
  let ?s = "uheap_init heap_sample"
  have f: "free_bytes ?s [0x2000] = {}" "block_bytes ?s 0x4000 = {0x4000 ..< 0x4080}"
    by (simp_all add: free_bytes_def block_bytes_def span_def uheap_init_def heap_sample_def set_hsize_def set_hptr_def)
  have "returnable ?s [0x2000] 0x4000"
    using f by (simp add: returnable_def in_heap_def span_def uheap_init_def heap_sample_def set_hsize_def set_hptr_def)
  from free_returns_block [OF heap_sample_ring this] f show ?thesis by auto
qed

text \<open>
  100 bytes are asked for on an empty heap: the kernel gives 64 KB at \<open>0x4000\<close>, and the block is among them;
  when the kernel gives nothing the result is null.
\<close>

lemma malloc_gives_free_block_witness:
  "(\<exists>r t. umalloc (\<lambda>_. Some 0x4000) 100 heap_sample = Some (r, t) \<and> 0x4010 \<le> unat r \<and> unat r + 100 \<le> 0x14000) \<and>
    umalloc (\<lambda>_. None) 100 heap_sample = Some (0, uheap_init heap_sample)"
proof
  let ?s = "uheap_init heap_sample" and ?sbrk = "\<lambda>_ :: u32. Some (0x4000 :: u64)"
  let ?n = "malloc_units 100"
  have f: "free_bytes ?s [0x2000] = {}" "hbase ?s = 0x2000" "hbase heap_sample = 0x2000" "freep heap_sample = 0"
    by (simp_all add: free_bytes_def block_bytes_def span_def uheap_init_def heap_sample_def set_hsize_def set_hptr_def)
  have n: "unat ?n = 8" "grow_bytes ?n = 0x10000" by (simp_all add: malloc_units_def grow_bytes_def)
  have small: "\<not> ?n \<le> hsize ?s 0x2000" by (simp add: malloc_units_def uheap_init_def heap_sample_def set_hsize_def set_hptr_def)
  have lt32: "unat (b :: u32) < 2 ^ 32" for b using unsigned_less [of b] by simp
  have lt: "unat (b :: u32) \<le> 0xFFFFFFFF" for b using lt32 [of b] by simp
  have "0x4000 + unat (b :: u32) \<le> 0x1000000000" for b using lt [of b] by simp
  then have "fresh ?sbrk ?s [0x2000]" by (simp add: fresh_def f)
  from malloc_gives_free_block [OF heap_sample_ring this, of 100] small n(2)
  obtain r t where rt: "umalloc ?sbrk 100 ?s = Some (r, t)" "allocated_from ?n ?s [0x2000] {0x4000 ..< 0x14000} r t" by auto
  then obtain bp where b: "r = bp + 16" "hsize t bp = ?n" "block_bytes t bp \<subseteq> {0x4000 ..< 0x14000}"
    by (auto simp: allocated_from_def f)
  then have "{unat bp ..< unat bp + 128} \<subseteq> {0x4000 ..< 0x14000}" by (simp add: block_bytes_def span_def n)
  then have bp: "0x4000 \<le> unat bp" "unat bp + 128 \<le> 0x14000" by simp_all
  then have "unat r = unat bp + 16" by (simp add: b(1) unat_word_ariths)
  moreover have "umalloc ?sbrk 100 heap_sample = Some (r, t)"
    using rt(1) umalloc_first(1) [of heap_sample ?sbrk 100] f by simp
  ultimately show "\<exists>r t. umalloc ?sbrk 100 heap_sample = Some (r, t) \<and> 0x4010 \<le> unat r \<and> unat r + 100 \<le> 0x14000"
    using bp by auto
  have "fresh (\<lambda>_. None) ?s [0x2000]" by (simp add: fresh_def)
  from malloc_gives_free_block [OF heap_sample_ring this, of 100] small
  have "umalloc (\<lambda>_. None) 100 ?s = Some (0, ?s)" by auto
  then show "umalloc (\<lambda>_. None) 100 heap_sample = Some (0, ?s)"
    using umalloc_first(1) [of heap_sample "\<lambda>_. None" 100] f by simp
qed

end
