(* ===== verification/Spinlock.thy ===== *)
theory Spinlock
  imports Xv6_Prelude
begin

section \<open>spinlock.c: spin locks on several CPUs\<close>

text \<open>
  The locks of \<open>kernel/spinlock.c\<close> below the abstraction the other theories use. Every CPU runs its
  own thread; the state has the locks, the \<open>noff\<close> and \<open>intena\<close> of every \<open>struct cpu\<close>, its interrupt
  enable bit and where its thread stands inside \<open>acquire\<close> or \<open>release\<close>. A step is one memory access
  to a shared lock word (the atomic swap of \<open>__sync_lock_test_and_set\<close>, the stores to \<open>lk->cpu\<close> and
  \<open>lk->locked\<close>) with the CPU-local code around it; the steps of the CPUs interleave freely.
  \<open>crit m c\<close> lists the locks whose \<open>acquire\<close> has returned on CPU \<open>c\<close> and whose \<open>release\<close> has not
  begun: the critical sections the thread is in.
\<close>

record spinlock =
  lk_locked :: u32
  lk_cpu :: "nat option"

datatype lockpc =
    AtRest
  | AcqTest lockid
  | AcqOwn lockid
  | RelUnlock lockid
  | RelPop
  | Halted

record cpu =
  noff :: int
  intena :: bool
  sie :: bool
  pc :: lockpc
  crit :: "lockid list"
  pushes :: int

record smp =
  locks :: "lockid \<Rightarrow> spinlock"
  cpus :: "nat \<Rightarrow> cpu"

definition initlock :: "lockid \<Rightarrow> smp \<Rightarrow> smp" where
  "initlock l m = m\<lparr>locks := (locks m)(l := \<lparr>lk_locked = 0, lk_cpu = None\<rparr>)\<rparr>"

subsection \<open>Interrupt nesting\<close>

definition push_off :: "cpu \<Rightarrow> cpu" where
  "push_off k =
     (let old = sie k; k = k\<lparr>sie := False\<rparr>;
          k = (if noff k = 0 then k\<lparr>intena := old\<rparr> else k)
      in k\<lparr>noff := noff k + 1\<rparr>)"

text \<open>\<open>None\<close> stands for the two panics of \<open>pop_off\<close>.\<close>

definition pop_off :: "cpu \<Rightarrow> cpu option" where
  "pop_off k =
     (if sie k then None
      else if noff k < 1 then None
      else let k = k\<lparr>noff := noff k - 1\<rparr> in
        Some (if noff k = 0 \<and> intena k then k\<lparr>sie := True\<rparr> else k))"

definition holding_cpu :: "nat \<Rightarrow> lockid \<Rightarrow> smp \<Rightarrow> bool" where
  "holding_cpu c l m \<longleftrightarrow> lk_locked (locks m l) \<noteq> 0 \<and> lk_cpu (locks m l) = Some c"

definition on_cpu :: "nat \<Rightarrow> (cpu \<Rightarrow> cpu) \<Rightarrow> smp \<Rightarrow> smp" where
  "on_cpu c f m = m\<lparr>cpus := (cpus m)(c := f (cpus m c))\<rparr>"

subsection \<open>acquire and release, one access at a time\<close>

definition acquire_start :: "nat \<Rightarrow> lockid \<Rightarrow> smp \<Rightarrow> smp" where
  "acquire_start c l m =
     on_cpu c (\<lambda>k. (push_off k)\<lparr>pc := (if holding_cpu c l m then Halted else AcqTest l)\<rparr>) m"

text \<open>One turn of the \<open>while\<close>: the swap stores 1 and returns the old value.\<close>

definition acquire_spin :: "nat \<Rightarrow> lockid \<Rightarrow> smp \<Rightarrow> smp" where
  "acquire_spin c l m =
     (let old = lk_locked (locks m l);
          m = m\<lparr>locks := (locks m)(l := (locks m l)\<lparr>lk_locked := 1\<rparr>)\<rparr>
      in if old \<noteq> 0 then m else on_cpu c (\<lambda>k. k\<lparr>pc := AcqOwn l\<rparr>) m)"

definition acquire_done :: "nat \<Rightarrow> lockid \<Rightarrow> smp \<Rightarrow> smp" where
  "acquire_done c l m =
     on_cpu c (\<lambda>k. k\<lparr>pc := AtRest, crit := l # crit k\<rparr>)
       (m\<lparr>locks := (locks m)(l := (locks m l)\<lparr>lk_cpu := Some c\<rparr>)\<rparr>)"

definition release_start :: "nat \<Rightarrow> lockid \<Rightarrow> smp \<Rightarrow> smp" where
  "release_start c l m =
     (if \<not> holding_cpu c l m then on_cpu c (\<lambda>k. k\<lparr>pc := Halted\<rparr>) m
      else on_cpu c (\<lambda>k. k\<lparr>pc := RelUnlock l, crit := remove1 l (crit k)\<rparr>)
        (m\<lparr>locks := (locks m)(l := (locks m l)\<lparr>lk_cpu := None\<rparr>)\<rparr>))"

definition release_unlock :: "nat \<Rightarrow> lockid \<Rightarrow> smp \<Rightarrow> smp" where
  "release_unlock c l m =
     on_cpu c (\<lambda>k. k\<lparr>pc := RelPop\<rparr>)
       (m\<lparr>locks := (locks m)(l := (locks m l)\<lparr>lk_locked := 0\<rparr>)\<rparr>)"

definition release_pop :: "nat \<Rightarrow> smp \<Rightarrow> smp" where
  "release_pop c m =
     on_cpu c (\<lambda>k. case pop_off k of None \<Rightarrow> k\<lparr>pc := Halted\<rparr> | Some k' \<Rightarrow> k'\<lparr>pc := AtRest\<rparr>) m"

subsection \<open>Interleaved steps\<close>

text \<open>
  A thread at rest may acquire any lock, release any lock (the code panics when it does not hold it),
  call \<open>push_off\<close> or a matching \<open>pop_off\<close> itself, and switch interrupts on or off while it is in no
  critical section.
\<close>

inductive lock_step :: "smp \<Rightarrow> smp \<Rightarrow> bool" where
  acq_start: "pc (cpus m c) = AtRest \<Longrightarrow> lock_step m (acquire_start c l m)"
| acq_spin: "pc (cpus m c) = AcqTest l \<Longrightarrow> lock_step m (acquire_spin c l m)"
| acq_done: "pc (cpus m c) = AcqOwn l \<Longrightarrow> lock_step m (acquire_done c l m)"
| rel_start: "pc (cpus m c) = AtRest \<Longrightarrow> lock_step m (release_start c l m)"
| rel_unlock: "pc (cpus m c) = RelUnlock l \<Longrightarrow> lock_step m (release_unlock c l m)"
| rel_pop: "pc (cpus m c) = RelPop \<Longrightarrow> lock_step m (release_pop c m)"
| push: "pc (cpus m c) = AtRest \<Longrightarrow>
    lock_step m (on_cpu c (\<lambda>k. (push_off k)\<lparr>pushes := pushes k + 1\<rparr>) m)"
| pop: "pc (cpus m c) = AtRest \<Longrightarrow> 0 < pushes (cpus m c) \<Longrightarrow> pop_off (cpus m c) = Some k \<Longrightarrow>
    lock_step m (on_cpu c (\<lambda>_. k\<lparr>pushes := pushes k - 1\<rparr>) m)"
| intr: "pc (cpus m c) = AtRest \<Longrightarrow> noff (cpus m c) = 0 \<Longrightarrow>
    lock_step m (on_cpu c (\<lambda>k. k\<lparr>sie := b\<rparr>) m)"

definition smp_init :: smp where
  "smp_init = \<lparr>locks = (\<lambda>_. \<lparr>lk_locked = 0, lk_cpu = None\<rparr>),
     cpus = (\<lambda>_. \<lparr>noff = 0, intena = False, sie = False, pc = AtRest, crit = [], pushes = 0\<rparr>)\<rparr>"

inductive reachable :: "smp \<Rightarrow> bool" where
  init: "reachable smp_init"
| step: "reachable m \<Longrightarrow> lock_step m m' \<Longrightarrow> reachable m'"

subsection \<open>The invariant\<close>

definition taking :: "lockpc \<Rightarrow> lockid option" where
  "taking p = (case p of AcqOwn l \<Rightarrow> Some l | RelUnlock l \<Rightarrow> Some l | _ \<Rightarrow> None)"

definition owns :: "smp \<Rightarrow> nat \<Rightarrow> lockid \<Rightarrow> bool" where
  "owns m c l \<longleftrightarrow> l \<in> set (crit (cpus m c)) \<or> taking (pc (cpus m c)) = Some l"

definition owner_inv :: "smp \<Rightarrow> bool" where
  "owner_inv m \<longleftrightarrow>
     (\<forall>l. lk_locked (locks m l) = 0 \<longrightarrow> (\<forall>c. \<not> owns m c l)) \<and>
     (\<forall>l c c'. owns m c l \<longrightarrow> owns m c' l \<longrightarrow> c = c') \<and>
     (\<forall>l c. lk_cpu (locks m l) = Some c \<longleftrightarrow> l \<in> set (crit (cpus m c))) \<and>
     (\<forall>c l. taking (pc (cpus m c)) = Some l \<longrightarrow> l \<notin> set (crit (cpus m c))) \<and>
     (\<forall>c. distinct (crit (cpus m c)))"

definition inside :: "lockpc \<Rightarrow> int" where
  "inside p = (case p of AtRest \<Rightarrow> 0 | Halted \<Rightarrow> 0 | _ \<Rightarrow> 1)"

definition cpu_inv :: "cpu \<Rightarrow> bool" where
  "cpu_inv k \<longleftrightarrow> pc k \<noteq> Halted \<longrightarrow>
     noff k = int (length (crit k)) + pushes k + inside (pc k) \<and> 0 \<le> pushes k \<and> (0 < noff k \<longrightarrow> \<not> sie k)"

lemma on_cpu_simps [simp]:
  "locks (on_cpu c f m) = locks m"
  "cpus (on_cpu c f m) c' = (if c' = c then f (cpus m c) else cpus m c')"
  by (simp_all add: on_cpu_def)

lemma taking_simps [simp]:
  "taking AtRest = None" "taking (AcqTest l) = None" "taking (AcqOwn l) = Some l"
  "taking (RelUnlock l) = Some l" "taking RelPop = None" "taking Halted = None"
  by (simp_all add: taking_def)

lemma push_off_simps [simp]:
  "pc (push_off k) = pc k" "crit (push_off k) = crit k" "pushes (push_off k) = pushes k"
  "noff (push_off k) = noff k + 1" "sie (push_off k) = False"
  by (simp_all add: push_off_def Let_def)

lemma pop_off_simps:
  assumes "pop_off k = Some k'"
  shows "pc k' = pc k" "crit k' = crit k" "pushes k' = pushes k" "noff k' = noff k - 1"
    "0 < noff k" "sie k' \<longrightarrow> noff k' = 0"
  using assms by (auto simp: pop_off_def Let_def split: if_splits)

lemma owner_inv_step: "lock_step m m' \<Longrightarrow> owner_inv m \<Longrightarrow> owner_inv m'"
proof (induction rule: lock_step.induct)
  case (acq_spin m c l)
  show ?case
  proof (cases "lk_locked (locks m l) = 0")
    case True
    with acq_spin show ?thesis
      unfolding owner_inv_def acquire_spin_def owns_def by (simp add: Let_def) metis
  next
    case False
    with acq_spin show ?thesis
      unfolding owner_inv_def acquire_spin_def owns_def by (simp add: Let_def)
  qed
next
  case (acq_start m c l)
  then show ?case unfolding owner_inv_def acquire_start_def owns_def by auto
next
  case (acq_done m c l)
  then show ?case unfolding owner_inv_def acquire_done_def owns_def by (simp split: if_splits) (metis taking_simps(3))
next
  case (rel_start m c l)
  show ?case
  proof (cases "holding_cpu c l m")
    case True
    then have l: "l \<in> set (crit (cpus m c))" "distinct (crit (cpus m c))" "lk_locked (locks m l) \<noteq> 0"
      using rel_start(2) by (auto simp: owner_inv_def holding_cpu_def)
    let ?m = "release_start c l m"
    have own: "owns ?m c' l' \<longleftrightarrow> owns m c' l'" for c' l'
      using True l rel_start(1) by (auto simp: release_start_def owns_def)
    have lk: "lk_locked (locks ?m l') = lk_locked (locks m l')" for l'
      using True by (simp add: release_start_def)
    show ?thesis
      unfolding owner_inv_def own lk
      using rel_start True l by (auto simp: owner_inv_def release_start_def owns_def)
  next
    case False
    with rel_start show ?thesis by (auto simp: owner_inv_def release_start_def owns_def)
  qed
next
  case (rel_unlock m c l)
  then show ?case unfolding owner_inv_def release_unlock_def owns_def by (simp split: if_splits) (metis taking_simps(4))
next
  case (rel_pop m c)
  then show ?case
    unfolding owner_inv_def release_pop_def owns_def by (auto dest: pop_off_simps split: option.splits)
next
  case (pop m c k)
  then show ?case unfolding owner_inv_def owns_def by (auto dest: pop_off_simps)
qed (auto simp: owner_inv_def owns_def)

lemma inside_simps [simp]:
  "inside AtRest = 0" "inside (AcqTest l) = 1" "inside (AcqOwn l) = 1" "inside (RelUnlock l) = 1"
  "inside RelPop = 1" "inside Halted = 0"
  by (simp_all add: inside_def)

lemma cpu_inv_step: "lock_step m m' \<Longrightarrow> owner_inv m \<Longrightarrow> \<forall>c. cpu_inv (cpus m c) \<Longrightarrow> cpu_inv (cpus m' c')"
proof (induction rule: lock_step.induct)
  case (acq_start m c l)
  then show ?case by (auto simp: acquire_start_def cpu_inv_def)
next
  case (acq_spin m c l)
  then show ?case by (cases "lk_locked (locks m l) = 0") (auto simp: acquire_spin_def cpu_inv_def Let_def)
next
  case (acq_done m c l)
  then show ?case by (auto simp: acquire_done_def cpu_inv_def)
next
  case (rel_start m c l)
  have "length (remove1 l (crit (cpus m c))) = length (crit (cpus m c)) - 1" "crit (cpus m c) \<noteq> []"
    if "holding_cpu c l m"
    using that rel_start(2) by (auto simp: owner_inv_def holding_cpu_def length_remove1)
  moreover have "cpu_inv (cpus m c)" "cpu_inv (cpus m c')" using rel_start(3) by blast+
  ultimately show ?case using rel_start(1)
    by (cases "crit (cpus m c)") (auto simp: release_start_def cpu_inv_def length_remove1)
next
  case (rel_unlock m c l)
  then show ?case by (auto simp: release_unlock_def cpu_inv_def)
next
  case (rel_pop m c)
  then have "cpu_inv (cpus m c)" "cpu_inv (cpus m c')" by blast+
  show ?case
  proof (cases "pop_off (cpus m c)")
    case None
    with rel_pop(3) show ?thesis by (auto simp: release_pop_def cpu_inv_def)
  next
    case (Some k)
    note k = pop_off_simps [OF Some]
    show ?thesis using rel_pop(1,3) k by (auto simp: release_pop_def cpu_inv_def Some)
  qed
next
  case (push m c)
  then show ?case by (auto simp: cpu_inv_def)
next
  case (pop m c k)
  then have "cpu_inv (cpus m c)" "cpu_inv (cpus m c')" by blast+
  with pop(1,2) pop_off_simps [OF pop(3)] show ?case by (auto simp: cpu_inv_def)
next
  case (intr m c b)
  then show ?case by (auto simp: cpu_inv_def)
qed

lemma reachable_inv: "reachable m \<Longrightarrow> owner_inv m \<and> (\<forall>c. cpu_inv (cpus m c))"
proof (induction rule: reachable.induct)
  case init
  then show ?case by (auto simp: smp_init_def owner_inv_def owns_def cpu_inv_def)
next
  case (step m m')
  then show ?case using owner_inv_step cpu_inv_step by blast
qed

text \<open>
  C3: mutual exclusion. In every state that any interleaving of the CPUs can reach, no lock protects
  the critical sections of two CPUs at once; the lock words of a held lock say so (it is locked and
  its \<open>cpu\<close> field names the holder), so \<open>holding\<close> answers correctly.
\<close>
theorem spinlock_mutual_exclusion:
  assumes "reachable m" and "l \<in> set (crit (cpus m c))"
  shows "(\<forall>c'. l \<in> set (crit (cpus m c')) \<longrightarrow> c' = c) \<and> holding_cpu c l m \<and>
    (\<forall>c'. holding_cpu c' l m \<longrightarrow> c' = c)"
  using reachable_inv [OF assms(1)] assms(2)
  by (auto simp: owner_inv_def owns_def holding_cpu_def)

text \<open>
  Interrupts are off on a CPU that is in a critical section, inside \<open>acquire\<close> or \<open>release\<close>, or
  between its own \<open>push_off\<close> and \<open>pop_off\<close>, and \<open>noff\<close> counts exactly these nestings. As a
  consequence neither panic of \<open>pop_off\<close> can be reached at the end of a \<open>release\<close>.
\<close>
lemma interrupts_off_in_critical_sections:
  assumes "reachable m" and "pc (cpus m c) \<noteq> Halted"
  shows "noff (cpus m c) = int (length (crit (cpus m c))) + pushes (cpus m c) + inside (pc (cpus m c)) \<and>
    (crit (cpus m c) \<noteq> [] \<or> pc (cpus m c) \<noteq> AtRest \<longrightarrow> \<not> sie (cpus m c)) \<and>
    (pc (cpus m c) = RelPop \<longrightarrow> pc (cpus (release_pop c m) c) = AtRest)"
proof -
  have inv: "noff (cpus m c) = int (length (crit (cpus m c))) + pushes (cpus m c) + inside (pc (cpus m c))"
    "0 \<le> pushes (cpus m c)" "0 < noff (cpus m c) \<longrightarrow> \<not> sie (cpus m c)"
    using reachable_inv [OF assms(1)] assms(2) by (auto simp: cpu_inv_def)
  have "0 < inside (pc (cpus m c))" if "pc (cpus m c) \<noteq> AtRest"
    using that assms(2) by (cases "pc (cpus m c)") auto
  moreover have "0 \<le> inside (pc (cpus m c))" by (cases "pc (cpus m c)") auto
  moreover have "0 < int (length (crit (cpus m c)))" if "crit (cpus m c) \<noteq> []" using that by simp
  ultimately have pos: "crit (cpus m c) \<noteq> [] \<or> pc (cpus m c) \<noteq> AtRest \<longrightarrow> 0 < noff (cpus m c)"
    using inv(1,2) by linarith
  moreover have "pc (cpus (release_pop c m) c) = AtRest" if "pc (cpus m c) = RelPop"
    using that pos inv(3) by (auto simp: release_pop_def pop_off_def Let_def)
  ultimately show ?thesis using inv by blast
qed

text \<open>
  C30: the two operations \<open>acquire\<close> and \<open>release\<close> of the other theories, on the list of held locks,
  abstract this code. On any reachable state, a thread whose list of critical sections is the \<open>held\<close>
  list of \<open>s\<close> panics in \<open>acquire\<close> or \<open>release\<close> exactly when the abstract operation panics;
  when the code's \<open>acquire\<close> finishes, and when its \<open>release\<close> gives the critical section up, the new
  list is the one the abstract operation returns; the other steps do not change it.
\<close>
theorem spinlock_refines_held:
  assumes "reachable m" and "held s = crit (cpus m c)" and "pc (cpus m c) = p"
  shows "(p = AtRest \<longrightarrow>
      (pc (cpus (acquire_start c l m) c) = Halted \<longleftrightarrow> acquire l s = Panic ''acquire'') \<and>
      (pc (cpus (release_start c l m) c) = Halted \<longleftrightarrow> release l s = Panic ''release'') \<and>
      (\<forall>t. release l s = Done () t \<longrightarrow> held t = crit (cpus (release_start c l m) c))) \<and>
    (p = AcqOwn l \<longrightarrow> (\<exists>t. acquire l s = Done () t \<and> held t = crit (cpus (acquire_done c l m) c))) \<and>
    crit (cpus (acquire_start c l m) c) = crit (cpus m c) \<and>
    crit (cpus (acquire_spin c l m) c) = crit (cpus m c) \<and>
    crit (cpus (release_unlock c l m) c) = crit (cpus m c) \<and>
    crit (cpus (release_pop c m) c) = crit (cpus m c)"
proof -
  have own: "owner_inv m" using reachable_inv [OF assms(1)] by blast
  then have hold: "holding_cpu c l m \<longleftrightarrow> l \<in> set (held s)"
    using assms(2) by (auto simp: owner_inv_def owns_def holding_cpu_def)
  moreover have "l \<notin> set (held s)" if "pc (cpus m c) = AcqOwn l"
    using own that assms(2) by (auto simp: owner_inv_def)
  moreover have "crit (cpus (release_pop c m) c) = crit (cpus m c)"
    by (auto simp: release_pop_def dest: pop_off_simps split: option.split)
  ultimately show ?thesis using assms(2,3)
    by (auto simp: acquire_start_def release_start_def acquire_done_def acquire_spin_def
      release_unlock_def acquire_def release_def Let_def)
qed

text \<open>
  \<open>push_off\<close> and \<open>pop_off\<close> nest: as many \<open>pop_off\<close> as \<open>push_off\<close> bring \<open>noff\<close> and the interrupt
  enable bit back to what they were, for any depth, when the nesting started at depth 0 or with
  interrupts off.
\<close>
theorem push_pop_off_nest:
  assumes "noff k = 0 \<or> 0 < noff k \<and> \<not> sie k"
  shows "\<exists>k'. ((\<lambda>x. Option.bind x pop_off) ^^ n) (Some ((push_off ^^ n) k)) = Some k' \<and>
    noff k' = noff k \<and> sie k' = sie k \<and> crit k' = crit k \<and> pc k' = pc k"
proof -
  have one: "pop_off (push_off k) = Some (k\<lparr>intena := (if noff k = 0 then sie k else intena k)\<rparr>)"
    if "noff k = 0 \<or> 0 < noff k \<and> \<not> sie k" for k
    using that by (auto simp: pop_off_def push_off_def Let_def)
  have deep: "((\<lambda>x. Option.bind x pop_off) ^^ n) (Some ((push_off ^^ n) k)) = Some k"
    if "0 < noff k" "\<not> sie k" for n k
    using that
  proof (induction n arbitrary: k)
    case (Suc n)
    have "((\<lambda>x. Option.bind x pop_off) ^^ n) (Some ((push_off ^^ n) (push_off k))) = Some (push_off k)"
      by (rule Suc.IH) (use Suc.prems in auto)
    then show ?case using one [of k] Suc.prems by (simp add: funpow_swap1)
  qed simp
  show ?thesis
  proof (cases n)
    case (Suc j)
    have "0 < noff (push_off k)" "\<not> sie (push_off k)" using assms by auto
    from deep [OF this, of j] show ?thesis
      using one [OF assms] by (simp add: Suc funpow_swap1)
  qed simp
qed

subsection \<open>Two CPUs and one lock\<close>

text \<open>CPU 0 has taken the lock and CPU 1 is spinning on it.\<close>

definition smp_sample :: smp where
  "smp_sample = acquire_spin 1 KmemLock (acquire_start 1 KmemLock
     (acquire_done 0 KmemLock (acquire_spin 0 KmemLock (acquire_start 0 KmemLock smp_init))))"

lemmas lock_defs = acquire_start_def acquire_spin_def acquire_done_def release_start_def
  release_unlock_def release_pop_def holding_cpu_def Let_def

lemma smp_sample_reachable: "reachable smp_sample"
proof -
  let ?m1 = "acquire_start 0 KmemLock smp_init"
  let ?m2 = "acquire_spin 0 KmemLock ?m1"
  let ?m3 = "acquire_done 0 KmemLock ?m2"
  let ?m4 = "acquire_start 1 KmemLock ?m3"
  have "lock_step smp_init ?m1" by (rule acq_start) (simp add: smp_init_def)
  then have 1: "reachable ?m1" by (rule reachable.step [OF reachable.init])
  have "lock_step ?m1 ?m2" by (rule acq_spin) (simp add: smp_init_def lock_defs)
  then have 2: "reachable ?m2" by (rule reachable.step [OF 1])
  have "lock_step ?m2 ?m3" by (rule acq_done) (simp add: smp_init_def lock_defs)
  then have 3: "reachable ?m3" by (rule reachable.step [OF 2])
  have "lock_step ?m3 ?m4" by (rule acq_start) (simp add: smp_init_def lock_defs)
  then have 4: "reachable ?m4" by (rule reachable.step [OF 3])
  have "lock_step ?m4 smp_sample"
    unfolding smp_sample_def by (rule acq_spin) (simp add: smp_init_def lock_defs)
  then show ?thesis by (rule reachable.step [OF 4])
qed

lemma smp_sample_eval:
  "crit (cpus smp_sample 0) = [KmemLock]" "pc (cpus smp_sample 0) = AtRest"
  "crit (cpus smp_sample 1) = []" "pc (cpus smp_sample 1) = AcqTest KmemLock"
  by (simp_all add: smp_sample_def smp_init_def lock_defs)

lemma spinlock_mutual_exclusion_witness:
  "KmemLock \<in> set (crit (cpus smp_sample 0)) \<and> KmemLock \<notin> set (crit (cpus smp_sample 1))"
  using spinlock_mutual_exclusion [OF smp_sample_reachable, of KmemLock 0] by (auto simp: smp_sample_eval)

lemma interrupts_off_witness: "noff (cpus smp_sample 0) = 1 + pushes (cpus smp_sample 0) \<and> \<not> sie (cpus smp_sample 0)"
  using interrupts_off_in_critical_sections [OF smp_sample_reachable, of 0] by (simp add: smp_sample_eval)

lemma spinlock_refines_held_witness:
  "pc (cpus (acquire_start 0 KmemLock smp_sample) 0) = Halted \<and>
    crit (cpus (release_start 0 KmemLock smp_sample) 0) = []"
  using spinlock_refines_held [OF smp_sample_reachable,
      of "\<lparr>held = [KmemLock], console_out = []\<rparr>" 0 AtRest KmemLock]
  by (auto simp: smp_sample_eval acquire_def release_def)

lemma push_pop_off_nest_witness:
  "\<exists>k'. ((\<lambda>x. Option.bind x pop_off) ^^ 3) (Some ((push_off ^^ 3)
      \<lparr>noff = 0, intena = False, sie = True, pc = AtRest, crit = [], pushes = 0\<rparr>)) = Some k' \<and> sie k'"
  using push_pop_off_nest [of "\<lparr>noff = 0, intena = False, sie = True, pc = AtRest, crit = [], pushes = 0\<rparr>" 3]
  by auto

end
