(* ===== verification/Slots.thy ===== *)
theory Slots
  imports Txn
begin

section \<open>The blocks of a file\<close>

text \<open>
  The contents of a file as a function from offsets to bytes, and what \<open>bmap\<close> of \<open>fs.c\<close> does to it inside a
  transaction. An inode has 269 slots for block numbers: 268 for the blocks of the
  data, which are in the inode or in its indirect block, and the last for the indirect block. \<open>file_ok\<close> is the
  well-formedness of an inode: its blocks are different, in use, and neither in the log nor of the bitmap nor
  the inode's own block on disk. A slot that is 0 reads as zeros; \<open>balloc\<close> zeroes the block it returns, so that
  \<open>bmap\<close> never changes the contents.
\<close>

subsection \<open>Slots\<close>

abbreviation ISLOT :: nat where "ISLOT \<equiv> 268"

definition slot :: "'z fsst_scheme \<Rightarrow> inode \<Rightarrow> nat \<Rightarrow> u32" where
  "slot s x j =
     (if j < NDIRECT then i_addrs x ! j
      else if j = ISLOT then i_addrs x ! NDIRECT
      else if i_addrs x ! NDIRECT = 0 then 0
      else ld32 (blk s (i_addrs x ! NDIRECT)) (4 * (j - NDIRECT)))"

definition file_byte :: "'z fsst_scheme \<Rightarrow> inode \<Rightarrow> nat \<Rightarrow> u8" where
  "file_byte s x i = (let a = slot s x (i div BSIZE) in if a = 0 then 0 else blk s a (i mod BSIZE))"

abbreviation nblocks :: "'z fsst_scheme \<Rightarrow> nat" where
  "nblocks s \<equiv> unat (sb_size (sb s))"

text \<open>A block of the bitmap, and a block that may belong to the inode whose own block is \<open>ib\<close>.\<close>

definition bitmap_block :: "'z fsst_scheme \<Rightarrow> u32 \<Rightarrow> bool" where
  "bitmap_block s b \<longleftrightarrow> (\<exists>c < nblocks s. b = BBLOCK (of_nat c) s)"

definition data_block :: "'z fsst_scheme \<Rightarrow> u32 \<Rightarrow> u32 \<Rightarrow> bool" where
  "data_block s ib a \<longleftrightarrow> unat a < nblocks s \<and> \<not> free_bit s (unat a) \<and> a \<notin> log_area (log_start s) \<and>
     \<not> bitmap_block s a \<and> a \<noteq> ib"

definition file_ok :: "'z fsst_scheme \<Rightarrow> inode \<Rightarrow> bool" where
  "file_ok s x \<longleftrightarrow> length (i_addrs x) = NDIRECT + 1 \<and>
     (\<forall>j \<le> ISLOT. slot s x j \<noteq> 0 \<longrightarrow> data_block s (IBLOCK (i_inum x) s) (slot s x j) \<and>
        (\<forall>k \<le> ISLOT. slot s x k = slot s x j \<longrightarrow> k = j))"

text \<open>The inode's block is outside the log, the bitmap and the free blocks.\<close>

definition ino_place :: "'z fsst_scheme \<Rightarrow> u32 \<Rightarrow> bool" where
  "ino_place s ib \<longleftrightarrow> ib \<notin> log_area (log_start s) \<and> \<not> bitmap_block s ib \<and>
     (\<forall>c < nblocks s. free_bit s c \<longrightarrow> of_nat c \<noteq> ib)"

text \<open>What an operation on the file of table entry \<open>i\<close> needs, with the buffers \<open>H\<close> held.\<close>

definition file_state :: "nat \<Rightarrow> u32 list \<Rightarrow> (nat \<rightharpoonup> u32) \<Rightarrow> nat \<Rightarrow> 'z fsst_scheme \<Rightarrow> bool" where
  "file_state p bs H i s \<longleftrightarrow> txn p bs H s \<and> layout s \<and> 0 < nblocks s \<and> \<not> free_bit s 0 \<and> i < length (itable s) \<and>
     i_dev (ino s i) = ROOTDEV \<and> ino_place s (IBLOCK (i_inum (ino s i)) s) \<and> file_ok s (ino s i)"

text \<open>The state but for block contents and the inode table.\<close>

definition same_dev :: "'z fsst_scheme \<Rightarrow> 'z fsst_scheme \<Rightarrow> bool" where
  "same_dev s t \<longleftrightarrow> log_start t = log_start s \<and> log_outstanding t = log_outstanding s \<and>
     log_committing t = log_committing s \<and> log_dev t = log_dev s \<and> sb t = sb s \<and> fsst.more t = fsst.more s"

lemma same_fs_dev: "same_fs s t \<Longrightarrow> same_dev s t"
  by (simp add: same_dev_def same_fs_simps)

lemma same_dev_refl [simp]: "same_dev s s"
  by (simp add: same_dev_def)

lemma same_dev_trans: "same_dev s t \<Longrightarrow> same_dev t u \<Longrightarrow> same_dev s u"
  by (simp add: same_dev_def)

lemma same_dev_blocks:
  assumes "same_dev s t"
  shows "nblocks t = nblocks s" "BBLOCK b t = BBLOCK b s" "IBLOCK n t = IBLOCK n s" "log_start t = log_start s"
    "bitmap_block t b = bitmap_block s b"
proof -
  have "sb t = sb s" using assms by (simp add: same_dev_def)
  then show "nblocks t = nblocks s" "BBLOCK b t = BBLOCK b s" "IBLOCK n t = IBLOCK n s"
    by (simp_all add: BBLOCK_def IBLOCK_def)
  then show "bitmap_block t b = bitmap_block s b"
    using \<open>sb t = sb s\<close> by (simp add: bitmap_block_def BBLOCK_def)
qed (use assms in \<open>simp add: same_dev_def\<close>)

text \<open>The inode table is no part of what the transaction laws speak of.\<close>

lemma itable_frame [simp]:
  "cache (s\<lparr>itable := ys\<rparr>) p H = cache s p H" "blk (s\<lparr>itable := ys\<rparr>) = blk s" "refs (s\<lparr>itable := ys\<rparr>) = refs s"
  "log_wf (s\<lparr>itable := ys\<rparr>) bs = log_wf s bs" "free_bit (s\<lparr>itable := ys\<rparr>) a = free_bit s a"
  by (simp_all add: cache_def bio_inv_def caches_def calm_def holds_sleep_def blk_def holder_def
        refs_def fun_eq_iff log_wf_def free_bit_def BBLOCK_def split: option.split)

lemma txn_itable [simp]: "txn p bs H (s\<lparr>itable := ys\<rparr>) = txn p bs H s"
  by (simp add: txn_def)

lemma same_dev_itable [simp]: "same_dev s (t\<lparr>itable := ys\<rparr>) = same_dev s t"
  by (simp add: same_dev_def)

lemma layout_mono:
  assumes "same_dev s t" and "\<And>a. a < nblocks s \<Longrightarrow> free_bit t a \<Longrightarrow> free_bit s a" and "layout s"
  shows "layout t"
  using assms(2,3) unfolding layout_def same_dev_blocks [OF assms(1)] by blast

lemma ino_place_mono:
  assumes "same_dev s t" and "\<And>a. a < nblocks s \<Longrightarrow> free_bit t a \<Longrightarrow> free_bit s a" and "ino_place s ib"
  shows "ino_place t ib"
  using assms(2,3) unfolding ino_place_def same_dev_blocks [OF assms(1)] by blast

subsection \<open>A block is allocated\<close>

text \<open>\<open>fresh c s t\<close>: between \<open>s\<close> and \<open>t\<close> the block \<open>c\<close> was taken from the free blocks and zeroed.\<close>

definition fresh :: "nat \<Rightarrow> 'z fsst_scheme \<Rightarrow> 'z fsst_scheme \<Rightarrow> bool" where
  "fresh c s t \<longleftrightarrow> c < nblocks s \<and> free_bit s c \<and> (\<forall>a < nblocks s. free_bit t a \<longleftrightarrow> free_bit s a \<and> a \<noteq> c) \<and>
     (\<forall>k < BSIZE. blk t (of_nat c) k = 0) \<and> (\<forall>b. \<not> bitmap_block s b \<longrightarrow> b \<noteq> of_nat c \<longrightarrow> blk t b = blk s b)"

lemma nblocks_bound: "c < nblocks s \<Longrightarrow> c < 2 ^ 32"
  using unsigned_less [of "sb_size (sb s)", where 'a = nat] by simp

lemma unat_block: "c < nblocks s \<Longrightarrow> unat (of_nat c :: u32) = c"
  using nblocks_bound [of c s] by (simp add: unat_of_nat)

lemma BBLOCK_eq_iff:
  assumes "a < nblocks s" and "c < nblocks s"
  shows "BBLOCK (of_nat a) s = BBLOCK (of_nat c) s \<longleftrightarrow> a div BPB = c div BPB"
proof
  have w: "a < 2 ^ 32" "c < 2 ^ 32" using assms nblocks_bound by blast+
  assume "BBLOCK (of_nat a) s = BBLOCK (of_nat c) s"
  then have "(of_nat (a div BPB) :: u32) = of_nat (c div BPB)"
    unfolding BBLOCK_nat [OF w(1)] BBLOCK_nat [OF w(2)] by simp
  then have "unat (of_nat (a div BPB) :: u32) = unat (of_nat (c div BPB) :: u32)" by simp
  moreover have "a div BPB < 2 ^ 32" "c div BPB < 2 ^ 32"
    using assms nblocks_bound le_less_trans [OF div_le_dividend] by blast+
  ultimately show "a div BPB = c div BPB" by (simp add: unat_of_nat)
qed (use assms nblocks_bound BBLOCK_same in blast)

lemma allocated_fresh:
  assumes al: "allocated_in p bs H s c t" and lay: "layout s" and c: "c < nblocks s" "free_bit s c"
  shows "fresh c s t"
proof -
  let ?B = "\<lambda>a. BBLOCK (of_nat a) s"
  have ne: "of_nat c \<noteq> ?B a" if "a < nblocks s" for a using lay c that unfolding layout_def by blast
  have b: "blk t = (blk s)(?B c := set_used (c mod BPB) (blk s (?B c)), of_nat c := zero_data (blk s (of_nat c)))"
    and fs: "same_fs s t" using al by (simp_all add: allocated_in_def)
  have "free_bit t a \<longleftrightarrow> free_bit s a \<and> a \<noteq> c" if a: "a < nblocks s" for a
  proof (cases "?B a = ?B c")
    case True
    then have d: "a div BPB = c div BPB" using BBLOCK_eq_iff [OF a c(1)] by simp
    have "c mod BPB = a mod BPB \<longleftrightarrow> a = c" using d by (metis div_mult_mod_eq)
    then show ?thesis
      using b ne [OF c(1)] same_fs_simps(9) [OF fs] True by (auto simp: free_bit_def bit_used_set)
  next
    case False
    then show ?thesis
      using b ne [OF a] same_fs_simps(9) [OF fs] by (auto simp: free_bit_def)
  qed
  moreover have "blk t (of_nat c) k = 0" if "k < BSIZE" for k
    using that by (simp add: b zero_data_def store_bytes_nat)
  moreover have "blk t n = blk s n" if "\<not> bitmap_block s n" "n \<noteq> of_nat c" for n
    using that c by (auto simp: b bitmap_block_def)
  ultimately show ?thesis using c by (simp add: fresh_def)
qed

lemma balloc_fresh:
  assumes t: "txn p bs H s" and "length bs + card (ran H) + 2 \<le> LOGBLOCKS" and lay: "layout s" and "apart H s"
    and z: "\<not> free_bit s 0"
  shows "\<exists>r t. balloc ROOTDEV s = Done r t \<and> same_fs s t \<and>
    ((r = 0 \<and> (\<forall>a < nblocks s. \<not> free_bit s a) \<and> txn p bs H t \<and> blk t = blk s) \<or>
     (\<exists>c bs'. r = of_nat c \<and> r \<noteq> 0 \<and> fresh c s t \<and> txn p bs' H t \<and> length bs' \<le> length bs + 2))"
proof -
  obtain r t where t: "balloc ROOTDEV s = Done r t" "same_fs s t"
    and r: "(\<exists>c < nblocks s. r = of_nat c \<and> free_bit s c \<and> (\<forall>i < c. \<not> free_bit s i) \<and> allocated_in p bs H s c t) \<or>
     (r = 0 \<and> (\<forall>i < nblocks s. \<not> free_bit s i) \<and> txn p bs H t \<and> blk t = blk s)"
    using balloc_law [OF assms(1-4)] by blast
  from r show ?thesis
  proof
    assume "\<exists>c < nblocks s. r = of_nat c \<and> free_bit s c \<and> (\<forall>i < c. \<not> free_bit s i) \<and> allocated_in p bs H s c t"
    then obtain c where c: "c < nblocks s" "r = of_nat c" "free_bit s c" "allocated_in p bs H s c t" by blast
    have "c \<noteq> 0" using c(3) z by metis
    then have "unat r \<noteq> 0" using unat_block [OF c(1)] c(2) by simp
    moreover have "txn p (logged (of_nat c) (logged (BBLOCK (of_nat c) s) bs)) H t" using c(4) by (simp add: allocated_in_def)
    moreover have "length (logged (of_nat c) (logged (BBLOCK (of_nat c) s) bs)) \<le> length bs + 2"
      using length_logged [of "BBLOCK (of_nat c) s" bs]
        length_logged [of "of_nat c" "logged (BBLOCK (of_nat c) s) bs"] by linarith
    ultimately show ?thesis using t c allocated_fresh [OF c(4) lay c(1,3)] by fastforce
  qed (use t in blast)
qed

subsection \<open>A file that grows\<close>

text \<open>Blocks that an operation on the file of entry \<open>i\<close> leaves alone: no bitmap block, not free, not of the file.\<close>

definition foreign :: "nat \<Rightarrow> 'z fsst_scheme \<Rightarrow> u32 \<Rightarrow> bool" where
  "foreign i s b \<longleftrightarrow> \<not> bitmap_block s b \<and> \<not> (unat b < nblocks s \<and> free_bit s (unat b)) \<and>
     (\<forall>j \<le> ISLOT. slot s (ino s i) j \<noteq> 0 \<longrightarrow> slot s (ino s i) j \<noteq> b)"

definition grows :: "nat \<Rightarrow> 'z fsst_scheme \<Rightarrow> 'z fsst_scheme \<Rightarrow> bool" where
  "grows i s t \<longleftrightarrow> same_dev s t \<and> (\<exists>as. itable t = (itable s)[i := (ino s i)\<lparr>i_addrs := as\<rparr>]) \<and>
     (\<forall>a < nblocks s. free_bit t a \<longrightarrow> free_bit s a) \<and>
     (\<forall>j \<le> ISLOT. slot s (ino s i) j \<noteq> 0 \<longrightarrow> slot t (ino t i) j = slot s (ino s i) j) \<and>
     (\<forall>j \<le> ISLOT. slot t (ino t i) j \<noteq> 0 \<longrightarrow> slot t (ino t i) j = slot s (ino s i) j \<or>
        (unat (slot t (ino t i) j) < nblocks s \<and> free_bit s (unat (slot t (ino t i) j)))) \<and>
     (\<forall>b. foreign i s b \<longrightarrow> blk t b = blk s b)"

lemma grows_foreign: "grows i s t \<Longrightarrow> foreign i s b \<Longrightarrow> foreign i t b"
  unfolding grows_def foreign_def using same_dev_blocks [of s t] by metis

lemma grows_trans:
  assumes st: "grows i s t" and tu: "grows i t u" and i: "i < length (itable s)"
  shows "grows i s u"
proof -
  have d: "same_dev s t" "same_dev t u" using st tu by (simp_all add: grows_def)
  note n = same_dev_blocks [OF d(1)]
  obtain as bs where "itable t = (itable s)[i := (ino s i)\<lparr>i_addrs := as\<rparr>]" "itable u = (itable t)[i := (ino t i)\<lparr>i_addrs := bs\<rparr>]"
    using st tu by (auto simp: grows_def)
  then have "itable u = (itable s)[i := (ino s i)\<lparr>i_addrs := bs\<rparr>]" using i by simp
  moreover have "blk u b = blk s b" if "foreign i s b" for b
    using that grows_foreign [OF st that] st tu by (simp add: grows_def)
  moreover have "slot u (ino u i) j = slot s (ino s i) j" if "j \<le> ISLOT" "slot s (ino s i) j \<noteq> 0" for j
    using that st tu unfolding grows_def by metis
  moreover have "slot u (ino u i) j = slot s (ino s i) j \<or> (unat (slot u (ino u i) j) < nblocks s \<and> free_bit s (unat (slot u (ino u i) j)))"
    if "j \<le> ISLOT" "slot u (ino u i) j \<noteq> 0" for j
    using that st tu n unfolding grows_def by metis
  ultimately show ?thesis using same_dev_trans [OF d] st tu n(1) by (auto simp: grows_def)
qed

text \<open>Nothing changed but the buffers.\<close>

lemma slot_cong: "blk t = blk s \<Longrightarrow> slot t x = slot s x"
  by (rule ext) (simp add: slot_def)

lemma grows_same:
  assumes b: "blk t = blk s" and fs: "same_fs s t"
  shows "grows i s t"
proof -
  have it: "itable t = itable s" by (rule same_fs_simps(6) [OF fs])
  then have "itable t = (itable s)[i := (ino s i)\<lparr>i_addrs := i_addrs (ino s i)\<rparr>]" by simp
  then have "\<exists>as. itable t = (itable s)[i := (ino s i)\<lparr>i_addrs := as\<rparr>]" by blast
  then show ?thesis
    unfolding grows_def using same_fs_dev [OF fs] it slot_cong [OF b] free_bit_cong [OF b fs] b by simp
qed

lemma file_state_same:
  assumes "file_state p bs H i s" and b: "blk t = blk s" and fs: "same_fs s t" and t: "txn p bs' H' t"
  shows "file_state p bs' H' i t"
proof -
  note d = same_dev_blocks [OF same_fs_dev [OF fs]] and f = free_bit_cong [OF b fs] and l = layout_cong [OF b fs]
  show ?thesis
    using assms(1) t l d same_fs_simps(6) [OF fs] f slot_cong [OF b]
    by (simp add: file_state_def file_ok_def data_block_def ino_place_def)
qed

subsection \<open>A slot is filled\<close>

definition same_bytes :: "nat \<Rightarrow> 'z fsst_scheme \<Rightarrow> 'z fsst_scheme \<Rightarrow> bool" where
  "same_bytes i s t \<longleftrightarrow> (\<forall>k < ISLOT * BSIZE. file_byte t (ino t i) k = file_byte s (ino s i) k)"

lemma same_bytes_trans: "same_bytes i s t \<Longrightarrow> same_bytes i t u \<Longrightarrow> same_bytes i s u"
  by (simp add: same_bytes_def)

lemma same_bytes_same: "blk t = blk s \<Longrightarrow> same_fs s t \<Longrightarrow> same_bytes i s t"
  using same_fs_simps(6) [of s t] slot_cong [of t s] by (auto simp: same_bytes_def file_byte_def Let_def)

lemma ld32_zero:
  assumes "\<And>k. k < 4 \<Longrightarrow> d (n + k) = 0"
  shows "ld32 d n = 0"
proof -
  have "load_bytes d n 4 = replicate 4 0" by (rule nth_equalityI) (use assms in \<open>simp_all add: load_bytes_nth\<close>)
  then have "ld32 d n = of_le (replicate 4 0)" by (simp only: ld32_def)
  then show ?thesis by (simp add: eval_nat_numeral)
qed

lemma file_stateD:
  assumes "file_state p bs H i s"
  shows "txn p bs H s" "layout s" "\<not> free_bit s 0" "i < length (itable s)" "i_dev (ino s i) = ROOTDEV"
    "ino_place s (IBLOCK (i_inum (ino s i)) s)" "length (i_addrs (ino s i)) = NDIRECT + 1"
    "\<And>j. j \<le> ISLOT \<Longrightarrow> slot s (ino s i) j \<noteq> 0 \<Longrightarrow> data_block s (IBLOCK (i_inum (ino s i)) s) (slot s (ino s i) j)"
    "\<And>j k. j \<le> ISLOT \<Longrightarrow> k \<le> ISLOT \<Longrightarrow> slot s (ino s i) j \<noteq> 0 \<Longrightarrow> slot s (ino s i) k = slot s (ino s i) j \<Longrightarrow> k = j"
    "0 < nblocks s"
  using assms by (auto simp: file_state_def file_ok_def)

text \<open>Block \<open>c\<close> was allocated (state \<open>u\<close>) and put into slot \<open>j\<close>, which was empty (state \<open>t\<close>).\<close>

lemma slot_filled:
  assumes fs: "file_state p bs H i s" and fr: "fresh c s u" and su: "same_dev s u" and st: "same_dev s t" "txn p' bs' H' t"
    and it: "itable t = (itable s)[i := (ino s i)\<lparr>i_addrs := as\<rparr>]" "length as = NDIRECT + 1"
    and bt: "\<And>b. slot s (ino s i) ISLOT = 0 \<or> b \<noteq> slot s (ino s i) ISLOT \<Longrightarrow> blk t b = blk u b"
    and j: "j \<le> ISLOT" "slot s (ino s i) j = 0"
    and sl: "\<And>k. k \<le> ISLOT \<Longrightarrow> slot t (ino t i) k = (if k = j then of_nat c else slot s (ino s i) k)"
  shows "file_state p' bs' H' i t \<and> grows i s t \<and> same_bytes i s t"
proof -
  note D = file_stateD [OF fs] and n = same_dev_blocks [OF st(1)]
  let ?x = "ino s i" and ?ib = "IBLOCK (i_inum (ino s i)) s"
  have x: "ino t i = ?x\<lparr>i_addrs := as\<rparr>" using it(1) D(4) by simp
  have c: "c < nblocks s" "free_bit s c" and uc: "unat (of_nat c :: u32) = c"
    using fr unat_block by (auto simp: fresh_def)
  have ind: "slot s ?x ISLOT = 0 \<or> \<not> bitmap_block s (slot s ?x ISLOT)"
    using D(8) [of ISLOT] by (auto simp: data_block_def)
  have free: "free_bit t a \<longleftrightarrow> free_bit s a \<and> a \<noteq> c" if a: "a < nblocks s" for a
  proof -
    have "blk t (BBLOCK (of_nat a) s) = blk u (BBLOCK (of_nat a) s)"
      by (rule bt) (use ind a in \<open>auto simp: bitmap_block_def\<close>)
    then have "free_bit t a = free_bit u a" using n(2) same_dev_blocks(2) [OF su] by (simp add: free_bit_def)
    then show ?thesis using fr a by (simp add: fresh_def)
  qed
  then have mono: "free_bit t a \<Longrightarrow> free_bit s a" if "a < nblocks s" for a using that by blast
  have new: "data_block t ?ib (of_nat c)"
    using c uc free [OF c(1)] D(2,6) n by (auto simp: data_block_def layout_def ino_place_def bitmap_block_def)
  have old: "data_block t ?ib a" if "data_block s ?ib a" for a
    using that mono n by (auto simp: data_block_def)
  have dc: "a \<noteq> of_nat c" if "data_block s ?ib a" for a using that c(2) uc by (auto simp: data_block_def)
  have "file_ok t (ino t i)"
    unfolding file_ok_def
  proof (intro conjI allI impI)
    show "length (i_addrs (ino t i)) = NDIRECT + 1" using x it(2) by simp
    fix k assume k: "k \<le> ISLOT" "slot t (ino t i) k \<noteq> 0"
    have ib: "IBLOCK (i_inum (ino t i)) t = ?ib" using x n(3) by simp
    show "data_block t (IBLOCK (i_inum (ino t i)) t) (slot t (ino t i) k)"
      unfolding ib using k sl [OF k(1)] new old D(8) [OF k(1)] by (auto split: if_splits)
    fix l assume l: "l \<le> ISLOT" "slot t (ino t i) l = slot t (ino t i) k"
    show "l = k"
      using l k sl [OF k(1)] sl [OF l(1)] dc D(8) [OF k(1)] D(8) [OF l(1)] D(9) [OF k(1) l(1)]
      by (auto split: if_splits)
  qed
  moreover have "\<not> free_bit t 0" using mono [of 0] D(3) c(1) by auto
  ultimately have "file_state p' bs' H' i t"
    using st(2) layout_mono [OF st(1) mono D(2)] ino_place_mono [OF st(1) mono D(6)] D(4,5,10) it(1) x n(1,3)
    by (simp add: file_state_def)
  moreover have "blk t b = blk s b" if b: "foreign i s b" for b
  proof -
    have "b \<noteq> of_nat c" "\<not> bitmap_block s b" using b c uc by (auto simp: foreign_def)
    moreover have "slot s ?x ISLOT = 0 \<or> b \<noteq> slot s ?x ISLOT" using b by (auto simp: foreign_def)
    ultimately show ?thesis using bt fr by (simp add: fresh_def)
  qed
  then have "grows i s t"
    using st(1) it(1) mono sl j c uc unfolding grows_def by auto
  moreover have "file_byte t (ino t i) o' = file_byte s ?x o'" if o': "o' < ISLOT * BSIZE" for o'
  proof -
    let ?k = "o' div BSIZE"
    have k: "?k < ISLOT" using o' by (simp add: less_mult_imp_div_less)
    show ?thesis
    proof (cases "?k = j")
      case True
      have "blk t (of_nat c) = blk u (of_nat c)"
        by (rule bt) (use dc [of "slot s ?x ISLOT"] D(8) [of ISLOT] in auto)
      then show ?thesis using True sl [of ?k] k j(2) fr by (auto simp: file_byte_def fresh_def Let_def)
    next
      case False
      show ?thesis
      proof (cases "slot s ?x ?k = 0")
        case True
        then show ?thesis using False sl [of ?k] k by (auto simp: file_byte_def Let_def)
      next
        case nz: False
        have "data_block s ?ib (slot s ?x ?k)" using D(8) [of ?k] k nz by simp
        then have "slot s ?x ?k \<noteq> of_nat c" "\<not> bitmap_block s (slot s ?x ?k)" using dc by (auto simp: data_block_def)
        moreover have "slot s ?x ISLOT = 0 \<or> slot s ?x ?k \<noteq> slot s ?x ISLOT"
          using D(9) [of ISLOT ?k] k by auto
        ultimately have "blk t (slot s ?x ?k) = blk s (slot s ?x ?k)" using bt fr by (simp add: fresh_def)
        then show ?thesis using False sl [of ?k] k by (auto simp: file_byte_def Let_def)
      qed
    qed
  qed
  ultimately show ?thesis by (simp add: same_bytes_def)
qed

text \<open>The slots of the inode itself.\<close>

abbreviation own_slot :: "nat \<Rightarrow> nat" where
  "own_slot k \<equiv> if k = NDIRECT then ISLOT else k"

lemma own_slot_addr: "k \<le> NDIRECT \<Longrightarrow> i_addrs x ! k = slot s x (own_slot k)"
  by (simp add: slot_def)

lemma set_addr_slot:
  assumes k: "k \<le> NDIRECT" and l: "length (i_addrs x) = NDIRECT + 1" and e: "i_addrs x ! k = 0"
    and z: "k = NDIRECT \<longrightarrow> (\<forall>b < BSIZE. blk t a b = 0)"
    and ind: "i_addrs x ! NDIRECT \<noteq> 0 \<longrightarrow> blk t (i_addrs x ! NDIRECT) = blk s (i_addrs x ! NDIRECT)" and m: "m \<le> ISLOT"
  shows "slot t (x\<lparr>i_addrs := (i_addrs x)[k := a]\<rparr>) m = (if m = own_slot k then a else slot s x m)"
proof (cases "k = NDIRECT")
  case True
  have "ld32 (blk t a) (4 * (m - NDIRECT)) = 0" if "m \<noteq> ISLOT"
    by (rule ld32_zero) (use z True m that in auto)
  then show ?thesis using True l e m by (auto simp: slot_def)
next
  case False
  then show ?thesis using k l e ind by (auto simp: slot_def nth_list_update)
qed

lemma addr_or_alloc_law:
  assumes fs: "file_state p bs Map.empty i s" and len: "length bs + 2 \<le> LOGBLOCKS" and k: "k \<le> NDIRECT"
  shows "\<exists>a t bs'. addr_or_alloc i k s = Done a t \<and> file_state p bs' Map.empty i t \<and> length bs' \<le> length bs + 2 \<and>
    grows i s t \<and> same_bytes i s t \<and> a = slot t (ino t i) (own_slot k) \<and> (a = 0 \<longrightarrow> (\<forall>c < nblocks t. \<not> free_bit t c)) \<and>
    (\<forall>m \<le> ISLOT. m \<noteq> own_slot k \<longrightarrow> slot t (ino t i) m = slot s (ino s i) m)"
proof -
  note D = file_stateD [OF fs]
  let ?x = "ino s i" and ?j = "own_slot k"
  have a: "i_addrs ?x ! k = slot s ?x ?j" by (rule own_slot_addr [OF k])
  show ?thesis
  proof (cases "slot s ?x ?j = 0")
    case False
    have "grows i s s" "same_bytes i s s" by (simp_all add: grows_same same_bytes_same)
    then show ?thesis using False a fs by (intro exI [of _ "slot s ?x ?j"] exI [of _ s] exI [of _ bs]) (simp add: addr_or_alloc_def)
  next
    case True
    from balloc_fresh [OF D(1) _ D(2) _ D(3)] len obtain r u where
      u: "balloc ROOTDEV s = Done r u" "same_fs s u"
      and r: "(r = 0 \<and> (\<forall>a < nblocks s. \<not> free_bit s a) \<and> txn p bs Map.empty u \<and> blk u = blk s) \<or>
        (\<exists>c bs'. r = of_nat c \<and> r \<noteq> 0 \<and> fresh c s u \<and> txn p bs' Map.empty u \<and> length bs' \<le> length bs + 2)"
      by auto
    note su = same_fs_dev [OF u(2)]
    from r show ?thesis
    proof
      assume n: "r = 0 \<and> (\<forall>a < nblocks s. \<not> free_bit s a) \<and> txn p bs Map.empty u \<and> blk u = blk s"
      then have b: "blk u = blk s" by simp
      have "addr_or_alloc i k s = Done 0 u" using u n a True D(5) by (simp add: addr_or_alloc_def)
      moreover have "file_state p bs Map.empty i u" by (rule file_state_same [OF fs b u(2)]) (use n in simp)
      moreover have "\<forall>c < nblocks u. \<not> free_bit u c"
        using n free_bit_cong [OF b u(2)] same_dev_blocks(1) [OF su] by simp
      ultimately show ?thesis
        using grows_same [OF b u(2)] same_bytes_same [OF b u(2)] slot_cong [OF b] same_fs_simps(6) [OF u(2)] True
        by (intro exI [of _ 0] exI [of _ u] exI [of _ bs]) simp
    next
      assume "\<exists>c bs'. r = of_nat c \<and> r \<noteq> 0 \<and> fresh c s u \<and> txn p bs' Map.empty u \<and> length bs' \<le> length bs + 2"
      then obtain c bs' where c: "r = of_nat c" "r \<noteq> 0" "fresh c s u" "txn p bs' Map.empty u" "length bs' \<le> length bs + 2"
        by blast
      let ?as = "(i_addrs ?x)[k := r]"
      let ?t = "set_addr i k r u"
      have it: "itable u = itable s" by (rule same_fs_simps(6) [OF u(2)])
      have t: "?t = u\<lparr>itable := (itable s)[i := ?x\<lparr>i_addrs := ?as\<rparr>]\<rparr>" by (simp add: set_addr_def upd_ino_def it)
      have x: "ino ?t i = ?x\<lparr>i_addrs := ?as\<rparr>" using D(4) by (simp add: t)
      have run: "addr_or_alloc i k s = Done r ?t" using u c a True D(5) by (simp add: addr_or_alloc_def)
      have nb: "i_addrs ?x ! NDIRECT \<noteq> 0 \<longrightarrow> blk u (i_addrs ?x ! NDIRECT) = blk s (i_addrs ?x ! NDIRECT)"
      proof
        assume "i_addrs ?x ! NDIRECT \<noteq> 0"
        then have "data_block s (IBLOCK (i_inum ?x) s) (i_addrs ?x ! NDIRECT)" using D(8) [of ISLOT] by (simp add: slot_def)
        then show "blk u (i_addrs ?x ! NDIRECT) = blk s (i_addrs ?x ! NDIRECT)"
          using c(3) unat_block [of c s] by (auto simp: fresh_def data_block_def)
      qed
      have z: "\<forall>b < BSIZE. blk u r b = 0" using c(1,3) by (simp add: fresh_def)
      have sl: "slot ?t (ino ?t i) m = (if m = ?j then of_nat c else slot s ?x m)" if "m \<le> ISLOT" for m
      proof -
        have e: "i_addrs ?x ! k = 0" using a True by simp
        have "blk ?t = blk u" by (simp add: t)
        then have "slot ?t y = slot u y" for y by (rule slot_cong)
        then show ?thesis unfolding x using set_addr_slot [OF k D(7) e _ nb that, of r] z c(1) by simp
      qed
      have "file_state p bs' Map.empty i ?t \<and> grows i s ?t \<and> same_bytes i s ?t"
      proof (rule slot_filled [OF fs c(3) su])
        show "itable ?t = (itable s)[i := ?x\<lparr>i_addrs := ?as\<rparr>]" by (simp add: t)
        show "slot s ?x ?j = 0" by (rule True)
        show "?j \<le> ISLOT" using k by simp
      qed (use su c(4) D(7) sl in \<open>simp_all add: t\<close>)
      then show ?thesis using run c(1,2,5) sl k
        by (intro exI [of _ r] exI [of _ ?t] exI [of _ bs']) simp
    qed
  qed
qed

subsection \<open>bmap\<close>

text \<open>What \<open>bmap\<close> does for the block \<open>k\<close> of a file, ending with the address \<open>a\<close>.\<close>

definition mapped ::
  "nat \<Rightarrow> u32 list \<Rightarrow> nat \<Rightarrow> nat \<Rightarrow> nat \<Rightarrow> 'z fsst_scheme \<Rightarrow> u32 \<Rightarrow> 'z fsst_scheme \<Rightarrow> bool" where
  "mapped p bs i k r s a t \<longleftrightarrow> (\<exists>bs'. file_state p bs' Map.empty i t \<and> length bs' \<le> length bs + r) \<and>
     grows i s t \<and> same_bytes i s t \<and> a = slot t (ino t i) k \<and> (a = 0 \<longrightarrow> (\<forall>c < nblocks t. \<not> free_bit t c)) \<and>
     (\<forall>m < ISLOT. m \<noteq> k \<longrightarrow> slot t (ino t i) m = slot s (ino s i) m)"

lemma mapped_same:
  assumes fs: "file_state p bs Map.empty i s" and b: "blk t = blk s" and d: "same_fs s t" and t: "txn p bs Map.empty t"
    and a: "a = slot s (ino s i) k" "a \<noteq> 0 \<or> (\<forall>c < nblocks s. \<not> free_bit s c)"
  shows "mapped p bs i k r s a t"
proof -
  have "file_state p bs Map.empty i t" by (rule file_state_same [OF fs b d t])
  then show ?thesis
    using grows_same [OF b d] same_bytes_same [OF b d] slot_cong [OF b] same_fs_simps(6) [OF d] a
      free_bit_cong [OF b d] same_dev_blocks(1) [OF same_fs_dev [OF d]]
    unfolding mapped_def by (auto intro: exI [of _ bs])
qed

text \<open>The part of \<open>bmap\<close> that reads the indirect block \<open>a\<close>.\<close>

abbreviation indirect :: "nat \<Rightarrow> u32 \<Rightarrow> nat \<Rightarrow> 'z fsst_scheme \<Rightarrow> ('z fsst_scheme, u32) outcome" where
  "indirect i a q s \<equiv> bnd (bread (i_dev (ino s i)) a s) (\<lambda>bp s.
     let addr = ld32 (bdata s bp) (4 * q) in
     bnd (if addr = 0 then
            bnd (balloc (i_dev (ino s i)) s) (\<lambda>addr s.
              if addr \<noteq> 0 then bnd (log_write bp (set_data bp (st32 (4 * q) addr) s)) (\<lambda>_ s. Done addr s)
              else Done addr s)
          else Done addr s) (\<lambda>addr s.
     bnd (brelse bp s) (\<lambda>_ s. Done addr s)))"

lemma indirect_slots:
  assumes q: "q < NINDIRECT" and m: "m \<le> ISLOT" and a: "i_addrs x ! NDIRECT = a" "a \<noteq> 0"
    and b: "blk t a = st32 (4 * q) c (blk s a)"
  shows "slot t x m = (if m = NDIRECT + q then c else slot s x m)"
proof -
  have "ld32 (st32 (4 * q) c (blk s a)) (4 * (m - NDIRECT)) = (if m = NDIRECT + q then c else ld32 (blk s a) (4 * (m - NDIRECT)))"
    if "NDIRECT \<le> m"
  proof (cases "m = NDIRECT + q")
    case False
    then have "4 * q + 4 \<le> 4 * (m - NDIRECT) \<or> 4 * (m - NDIRECT) + 4 \<le> 4 * q" using that by linarith
    then show ?thesis using False by (simp add: ld32_st32_other)
  qed simp
  then show ?thesis using q a b by (auto simp: slot_def)
qed

lemma indirect_law:
  assumes fs: "file_state p bs Map.empty i s" and len: "length bs + 3 \<le> LOGBLOCKS" and q: "q < NINDIRECT"
    and a: "i_addrs (ino s i) ! NDIRECT = a" "a \<noteq> 0"
  shows "\<exists>r t. indirect i a q s = Done r t \<and> mapped p bs i (NDIRECT + q) 3 s r t"
proof -
  note D = file_stateD [OF fs]
  let ?x = "ino s i" and ?ib = "IBLOCK (i_inum (ino s i)) s" and ?k = "NDIRECT + q"
  have k: "slot s ?x ?k = ld32 (blk s a) (4 * q)" "?k < ISLOT" using q a by (simp_all add: slot_def)
  have ai: "slot s ?x ISLOT = a" using a(1) by (simp add: slot_def)
  have da: "data_block s ?ib a" using D(8) [of ISLOT] ai a(2) by simp
  have "beside Map.empty a bs" using len by simp
  from txn_peek_beside [OF D(1) this] obtain b u v where
    u: "bread ROOTDEV a s = Done b u" "b_data (bufs u ! b) = blk s a" "same_fs s u"
      "txn p bs [b \<mapsto> a] u" "blk u = blk s" "disk u = disk s"
    and v: "brelse b u = Done () v" "txn p bs Map.empty v" "blk v = blk s" "same_fs s v" by blast
  have dev: "i_dev (ino u i) = ROOTDEV" using same_fs_simps(6) [OF u(3)] D(5) by simp
  show ?thesis
  proof (cases "slot s ?x ?k = 0")
    case False
    then have "indirect i a q s = Done (slot s ?x ?k) v" using u v D(5) k by (simp add: Let_def)
    moreover have "mapped p bs i ?k 3 s (slot s ?x ?k) v" by (rule mapped_same [OF fs v(3,4,2) refl]) (use False in simp)
    ultimately show ?thesis by blast
  next
    case True
    have ap: "apart [b \<mapsto> a] u"
    proof -
      have "\<forall>c < nblocks s. a \<noteq> BBLOCK (of_nat c) s \<and> (free_bit s c \<longrightarrow> of_nat c \<noteq> a)"
        using da unat_block by (fastforce simp: data_block_def bitmap_block_def)
      then show ?thesis
        unfolding apart_def free_bit_cong [OF u(5,3)] same_fs_simps(5) [OF u(3)] same_fs_simps(9) [OF u(3)] by auto
    qed
    have lay: "layout u" "\<not> free_bit u 0" using layout_cong [OF u(5,3)] D(2,3) free_bit_cong [OF u(5,3)] by auto
    have "length bs + card (ran [b \<mapsto> a]) + 2 \<le> LOGBLOCKS" using len by simp
    from balloc_law [OF u(4) this lay(1) ap] obtain r w where
      w: "balloc ROOTDEV u = Done r w" "same_fs u w"
      and r: "(\<exists>c < nblocks u. r = of_nat c \<and> free_bit u c \<and> (\<forall>i < c. \<not> free_bit u i) \<and> allocated_in p bs [b \<mapsto> a] u c w) \<or>
       (r = 0 \<and> (\<forall>i < nblocks u. \<not> free_bit u i) \<and> txn p bs [b \<mapsto> a] w \<and> blk w = blk u \<and> disk w = disk u)"
      by blast
    have sw: "same_fs s w" by (rule same_fs_trans [OF u(3) w(2)])
    have start: "indirect i a q s = bnd (if r \<noteq> 0 then bnd (log_write b (set_data b (st32 (4 * q) r) w)) (\<lambda>_ s. Done r s)
        else Done r w) (\<lambda>addr s. bnd (brelse b s) (\<lambda>_ s. Done addr s))"
      using u w D(5) dev k True by (simp add: Let_def)
    from r show ?thesis
    proof
      assume n: "r = 0 \<and> (\<forall>i < nblocks u. \<not> free_bit u i) \<and> txn p bs [b \<mapsto> a] w \<and> blk w = blk u \<and> disk w = disk u"
      then have "a \<notin> set bs \<Longrightarrow> blk w a = disk w a" using D(1) u(5,6) by (simp add: txn_def)
      from txn_brelse [of p bs "[b \<mapsto> a]" w b a, OF _ _ _ this] n obtain z where
        z: "brelse b w = Done () z" "txn p bs Map.empty z" "blk z = blk w" "same_fs w z" by auto
      have "indirect i a q s = Done 0 z" using start n z(1) by simp
      moreover have "mapped p bs i ?k 3 s 0 z"
      proof (rule mapped_same [OF fs _ _ z(2)])
        show "blk z = blk s" using z(3) n u(5) by simp
        show "same_fs s z" by (rule same_fs_trans [OF sw z(4)])
        show "0 = slot s ?x ?k" using True by simp
      qed (use n free_bit_cong [OF u(5,3)] same_fs_simps(5) [OF u(3)] in simp)
      ultimately show ?thesis by blast
    next
      assume "\<exists>c < nblocks u. r = of_nat c \<and> free_bit u c \<and> (\<forall>i < c. \<not> free_bit u i) \<and> allocated_in p bs [b \<mapsto> a] u c w"
      then obtain c where c: "c < nblocks u" "r = of_nat c" "free_bit u c" "allocated_in p bs [b \<mapsto> a] u c w" by blast
      have fru: "fresh c u w" by (rule allocated_fresh [OF c(4) lay(1) c(1,3)])
      then have fr: "fresh c s w"
        using free_bit_cong [OF u(5,3)] same_fs_simps(5) [OF u(3)] u(5) same_dev_blocks(5) [OF same_fs_dev [OF u(3)]]
        by (simp add: fresh_def)
      have c0: "r \<noteq> 0" using c(1-3) lay(2) unat_block [OF c(1)] by (metis unsigned_0)
      define bs1 where "bs1 = logged (of_nat c) (logged (BBLOCK (of_nat c) u) bs)"
      have l1: "length bs1 \<le> length bs + 2"
        unfolding bs1_def using length_logged [of "BBLOCK (of_nat c) u" bs]
          length_logged [of "of_nat c" "logged (BBLOCK (of_nat c) u) bs"] by linarith
      have tw: "txn p bs1 [b \<mapsto> a] w" using c(4) by (simp add: allocated_in_def bs1_def)
      have "a \<notin> log_area (log_start w)" using da same_dev_blocks(4) [OF same_fs_dev [OF sw]] by (simp add: data_block_def)
      from txn_log_release [OF tw _ _ this, of b "st32 (4 * q) r"] l1 len obtain z where
        z: "log_release b (st32 (4 * q) r) w = Done () z" "txn p (logged a bs1) Map.empty z"
          "blk z = (blk w)(a := st32 (4 * q) r (blk w a))" "same_fs w z" by auto
      have lw: "bnd (log_write b (set_data b (st32 (4 * q) r) w)) (\<lambda>_ s. brelse b s) = Done () z"
        using z(1) by (simp add: log_release_def)
      then obtain y where y: "log_write b (set_data b (st32 (4 * q) r) w) = Done () y" "brelse b y = Done () z"
        by (cases "log_write b (set_data b (st32 (4 * q) r) w)") auto
      have run: "indirect i a q s = Done r z" using start c0 y by simp
      have sz: "same_fs s z" by (rule same_fs_trans [OF sw z(4)])
      have it: "itable z = itable s" by (rule same_fs_simps(6) [OF sz])
      have wa: "blk w a = blk s a" using fr da unat_block [of c s] by (auto simp: fresh_def data_block_def)
      have ba: "blk z a = st32 (4 * q) r (blk s a)" using z(3) wa by simp
      note sl = indirect_slots [OF q _ a ba, folded c(2)]
      have "file_state p (logged a bs1) Map.empty i z \<and> grows i s z \<and> same_bytes i s z"
      proof (rule slot_filled [OF fs fr same_fs_dev [OF sw] same_fs_dev [OF sz] z(2) _ D(7)])
        show "itable z = (itable s)[i := ?x\<lparr>i_addrs := i_addrs ?x\<rparr>]" using it by simp
        show "blk z n = blk w n" if "slot s ?x ISLOT = 0 \<or> n \<noteq> slot s ?x ISLOT" for n using that ai a(2) z(3) by simp
        show "slot s ?x ?k = 0" by (rule True)
        show "slot z (ino z i) m = (if m = ?k then of_nat c else slot s ?x m)" if "m \<le> ISLOT" for m
          using sl [OF that] it c(2) by simp
      qed (use k in simp)
      moreover have "length (logged a bs1) \<le> length bs + 3" using length_logged [of a bs1] l1 by linarith
      moreover have "r = slot z (ino z i) ?k" "\<forall>m < ISLOT. m \<noteq> ?k \<longrightarrow> slot z (ino z i) m = slot s ?x m"
        using sl it k by simp_all
      ultimately show ?thesis using run c0 unfolding mapped_def by blast
    qed
  qed
qed

lemma mapped_trans:
  assumes "mapped p bs i k0 r0 s a t" and "\<And>bs'. file_state p bs' Map.empty i t \<Longrightarrow> length bs' \<le> length bs + r0 \<Longrightarrow>
      \<exists>b u. f t = Done b u \<and> mapped p bs' i k r t b u" and i: "i < length (itable s)"
    and k: "ISLOT \<le> k0"
  shows "\<exists>b u. f t = Done b u \<and> mapped p bs i k (r0 + r) s b u"
proof -
  obtain bs' where bs': "file_state p bs' Map.empty i t" "length bs' \<le> length bs + r0" using assms(1) by (auto simp: mapped_def)
  obtain b u where u: "f t = Done b u" "mapped p bs' i k r t b u" using assms(2) [OF bs'] by blast
  have "grows i s u" "same_bytes i s u"
    using assms(1) u(2) grows_trans [OF _ _ i] same_bytes_trans by (auto simp: mapped_def)
  then have "mapped p bs i k (r0 + r) s b u"
    using assms(1) u(2) bs'(2) k unfolding mapped_def by fastforce
  then show ?thesis using u(1) by blast
qed

lemma bmap_law:
  assumes fs: "file_state p bs Map.empty i s" and len: "length bs + 5 \<le> LOGBLOCKS" and k: "k < ISLOT"
  shows "\<exists>a t. bmap i (of_nat k) s = Done a t \<and> mapped p bs i k 5 s a t"
proof -
  have uk: "unat (of_nat k :: u32) = k" using k by (simp add: unat_of_nat)
  have lt: "(of_nat k :: u32) < of_nat NDIRECT \<longleftrightarrow> k < NDIRECT" using k by (simp add: word_less_nat_alt unat_of_nat)
  note A = addr_or_alloc_law [OF fs]
  show ?thesis
  proof (cases "k < NDIRECT")
    case True
    obtain a t where "addr_or_alloc i k s = Done a t" "mapped p bs i k 2 s a t"
      using A [of k] len True by (force simp: mapped_def)
    moreover have "mapped p bs i k 5 s a t" using calculation(2) unfolding mapped_def by fastforce
    ultimately show ?thesis using True lt uk by (auto simp: bmap_def)
  next
    case False
    define q where "q = k - NDIRECT"
    have q: "q < NINDIRECT" "k = NDIRECT + q" using k False by (simp_all add: q_def)
    have w: "(of_nat k :: u32) - of_nat NDIRECT = of_nat q" using False by (simp add: q_def of_nat_diff)
    have uq: "unat (of_nat q :: u32) = q" using q by (simp add: unat_of_nat)
    have qlt: "(of_nat q :: u32) < of_nat NINDIRECT" using q by (simp add: word_less_nat_alt unat_of_nat)
    obtain a t where t: "addr_or_alloc i NDIRECT s = Done a t" "mapped p bs i ISLOT 2 s a t"
      using A [of NDIRECT] len by (force simp: mapped_def)
    have run: "bmap i (of_nat k) s = (if a = 0 then Done 0 t else indirect i a q t)"
      using False lt t(1) qlt uq unfolding bmap_def Let_def w uq by simp
    have i: "i < length (itable s)" by (rule file_stateD(4) [OF fs])
    have at: "a = i_addrs (ino t i) ! NDIRECT" using t(2) by (simp add: mapped_def slot_def)
    show ?thesis
    proof (cases "a = 0")
      case True
      then have "slot t (ino t i) k = 0" using at False k by (simp add: slot_def)
      then have "mapped p bs i k 5 s 0 t" using t(2) True unfolding mapped_def by fastforce
      then show ?thesis using run True by simp
    next
      case nz: False
      have "\<exists>b u. indirect i a q t = Done b u \<and> mapped p bs i k (2 + 3) s b u"
      proof (rule mapped_trans [OF t(2) _ i])
        fix bs' assume "file_state p bs' Map.empty i t" "length bs' \<le> length bs + 2"
        then show "\<exists>b u. indirect i a q t = Done b u \<and> mapped p bs' i k 3 t b u"
          using indirect_law [of p bs' i t q a] len q at nz by simp
      qed simp
      then show ?thesis using run nz by simp
    qed
  qed
qed

text \<open>A block that is there is found, and nothing changes.\<close>

lemma bmap_found:
  assumes fs: "file_state p bs Map.empty i s" and len: "length bs < LOGBLOCKS" and k: "k < ISLOT"
    and a: "slot s (ino s i) k \<noteq> 0"
  shows "\<exists>t. bmap i (of_nat k) s = Done (slot s (ino s i) k) t \<and> txn p bs Map.empty t \<and> blk t = blk s \<and> same_fs s t"
proof -
  note D = file_stateD [OF fs]
  let ?x = "ino s i"
  have uk: "unat (of_nat k :: u32) = k" using k by (simp add: unat_of_nat)
  have lt: "(of_nat k :: u32) < of_nat NDIRECT \<longleftrightarrow> k < NDIRECT" using k by (simp add: word_less_nat_alt unat_of_nat)
  show ?thesis
  proof (cases "k < NDIRECT")
    case True
    then have "i_addrs ?x ! k = slot s ?x k" by (simp add: slot_def)
    then have "addr_or_alloc i k s = Done (slot s ?x k) s" using a by (simp add: addr_or_alloc_def)
    then show ?thesis using True lt uk D(1) by (simp add: bmap_def)
  next
    case False
    define q where "q = k - NDIRECT"
    have q: "q < NINDIRECT" "k = NDIRECT + q" using k False by (simp_all add: q_def)
    have w: "(of_nat k :: u32) - of_nat NDIRECT = of_nat q" using False by (simp add: q_def of_nat_diff)
    have uq: "unat (of_nat q :: u32) = q" using q by (simp add: unat_of_nat)
    have qlt: "(of_nat q :: u32) < of_nat NINDIRECT" using q by (simp add: word_less_nat_alt unat_of_nat)
    let ?a = "i_addrs ?x ! NDIRECT"
    have nz: "?a \<noteq> 0" and sl: "slot s ?x k = ld32 (blk s ?a) (4 * q)"
      using a False k q by (auto simp: slot_def split: if_splits)
    have "addr_or_alloc i NDIRECT s = Done ?a s" using nz by (simp add: addr_or_alloc_def)
    then have run: "bmap i (of_nat k) s = indirect i ?a q s"
      using False lt qlt nz unfolding bmap_def Let_def w uq by simp
    have "beside Map.empty ?a bs" using len by simp
    from txn_peek_beside [OF D(1) this] obtain b u v where
      u: "bread ROOTDEV ?a s = Done b u" "b_data (bufs u ! b) = blk s ?a"
      and v: "brelse b u = Done () v" "txn p bs Map.empty v" "blk v = blk s" "same_fs s v" by blast
    have "indirect i ?a q s = Done (slot s ?x k) v" using u v a sl D(5) by (simp add: Let_def)
    then show ?thesis using run v by auto
  qed
qed

end
