(* ===== verification/Content.thy ===== *)
theory Content
  imports Slots
begin

section \<open>What is in a file\<close>

text \<open>
  \<open>readi\<close> and \<open>writei\<close> of \<open>fs.c\<close> inside a transaction, on the blocks of a file of theory \<open>Slots\<close>: the file is the
  list of its bytes (\<open>file_data\<close>). Both loops go block by block (\<open>piece\<close>); a write touches \<open>pieces\<close> blocks,
  and needs room for six blocks in the log for each: the data, the indirect block, and two blocks for
  each of the two allocations.
\<close>

subsection \<open>Pieces of a file\<close>

text \<open>A piece lies in one block.\<close>

definition piece :: "nat \<Rightarrow> nat \<Rightarrow> nat" where
  "piece off left = min left (BSIZE - off mod BSIZE)"

lemma piece_block:
  assumes "off \<le> k" and "k < off + piece off left"
  shows "k div BSIZE = off div BSIZE" "k mod BSIZE = off mod BSIZE + (k - off)"
proof -
  have "k = off div BSIZE * BSIZE + (off mod BSIZE + (k - off))" using assms(1) div_mult_mod_eq [of off BSIZE] by linarith
  moreover have "off mod BSIZE + (k - off) < BSIZE" using assms mod_less_divisor [of BSIZE off] unfolding piece_def by linarith
  ultimately show "k div BSIZE = off div BSIZE" "k mod BSIZE = off mod BSIZE + (k - off)"
    by (metis div_mult_self3 div_less add_0_right mult.commute zero_neq_numeral, metis mod_mult_self3 mod_less)
qed

lemma piece_pos: "0 < left \<Longrightarrow> 0 < piece off left" "piece off left \<le> left"
  by (simp_all add: piece_def)

lemma word_position:
  assumes "off < 2 ^ 31"
  shows "(of_nat off :: u32) div of_nat BSIZE = of_nat (off div BSIZE)" "unat ((of_nat off :: u32) mod of_nat BSIZE) = off mod BSIZE"
proof -
  have "off div BSIZE < 2 ^ 32" using assms le_less_trans [OF div_le_dividend [of off BSIZE]] by simp
  then have "unat ((of_nat off :: u32) div of_nat BSIZE) = unat (of_nat (off div BSIZE) :: u32)"
    using assms by (simp add: unat_div_distrib unat_of_nat)
  then show "(of_nat off :: u32) div of_nat BSIZE = of_nat (off div BSIZE)" by (rule word_unat_eq_iff [THEN iffD2])
  show "unat ((of_nat off :: u32) mod of_nat BSIZE) = off mod BSIZE" using assms by (simp add: unat_mod_distrib unat_of_nat)
qed

lemma io_chunk_piece:
  assumes "off < 2 ^ 31" and "tot \<le> n" and "n < 2 ^ 31"
  shows "io_chunk (of_nat off) (of_nat n - of_nat tot) = of_nat (piece off (n - tot))"
proof -
  have l: "(of_nat n - of_nat tot :: u32) = of_nat (n - tot)" using assms(2) by (simp add: of_nat_diff)
  have "unat (of_nat BSIZE - (of_nat off :: u32) mod of_nat BSIZE) = BSIZE - off mod BSIZE"
    using word_position(2) [OF assms(1)] mod_less_divisor [of BSIZE off] by (simp add: unat_sub_if')
  then have "unat (io_chunk (of_nat off) (of_nat (n - tot))) = piece off (n - tot)"
    using assms(3) by (auto simp: io_chunk_def piece_def min_def word_le_nat_alt unat_of_nat)
  moreover have "unat (of_nat (piece off (n - tot)) :: u32) = piece off (n - tot)"
    using assms(3) by (simp add: piece_def unat_of_nat)
  ultimately show ?thesis unfolding l by (intro word_unat_eq_iff [THEN iffD2]) simp
qed

lemma load_piece:
  assumes "slot s x (off div BSIZE) \<noteq> 0"
  shows "load_bytes (blk s (slot s x (off div BSIZE))) (off mod BSIZE) (piece off left) =
    map (file_byte s x) [off..<off + piece off left]"
proof (rule nth_equalityI)
  fix k assume "k < length (load_bytes (blk s (slot s x (off div BSIZE))) (off mod BSIZE) (piece off left))"
  then have k: "k < piece off left" by simp
  then show "load_bytes (blk s (slot s x (off div BSIZE))) (off mod BSIZE) (piece off left) ! k =
      map (file_byte s x) [off..<off + piece off left] ! k"
    using piece_block [of off "off + k" left] assms by (simp add: load_bytes_nth file_byte_def Let_def)
qed simp

subsection \<open>readi\<close>

lemma readi_loop_law:
  assumes fs: "file_state p bs Map.empty i s" and len: "length bs < LOGBLOCKS"
    and n: "tot \<le> n" "n < 2 ^ 31" "off + (n - tot) \<le> ISLOT * BSIZE"
    and there: "\<And>k. off \<le> k \<Longrightarrow> k < off + (n - tot) \<Longrightarrow> slot s (ino s i) (k div BSIZE) \<noteq> 0"
  shows "\<exists>t. readi_loop i ToLocal (of_nat n) (of_nat tot) (of_nat off) s =
      Done (int n, map (file_byte s (ino s i)) [off..<off + (n - tot)]) t \<and>
    txn p bs Map.empty t \<and> blk t = blk s \<and> same_fs s t"
  using assms
proof (induction "n - tot" arbitrary: tot off s rule: less_induct)
  case less
  note fs = less.prems(1) and len = less.prems(2) and n = less.prems(3-5) and there = less.prems(6)
  note D = file_stateD [OF fs]
  let ?x = "ino s i" and ?m = "piece off (n - tot)" and ?k = "off div BSIZE"
  have lt: "(of_nat tot :: u32) < of_nat n \<longleftrightarrow> tot < n" using n by (simp add: word_less_nat_alt unat_of_nat)
  show ?case
  proof (cases "tot < n")
    case False
    have "sint (of_nat n :: u32) = int n" using n(2) by (simp add: sint_uint uint_nat unat_of_nat signed_take_bit_int_eq_self)
    then show ?thesis using False n(1) lt D(1) by (subst readi_loop.simps) simp
  next
    case True
    have off: "off < 2 ^ 31" and k: "?k < ISLOT" using n True by (simp_all add: less_mult_imp_div_less)
    note W = word_position [OF off] and C = io_chunk_piece [OF off n(1,2)]
    have nz: "slot s ?x ?k \<noteq> 0" using there [of off] True by simp
    obtain u where u: "bmap i (of_nat ?k) s = Done (slot s ?x ?k) u" "txn p bs Map.empty u" "blk u = blk s" "same_fs s u"
      using bmap_found [OF fs len k nz] by blast
    have "beside Map.empty (slot s ?x ?k) bs" using len by simp
    from txn_peek_beside [OF u(2) this] obtain b v w where
      v: "bread ROOTDEV (slot s ?x ?k) u = Done b v" "b_data (bufs v ! b) = blk u (slot s ?x ?k)"
      and w: "brelse b v = Done () w" "txn p bs Map.empty w" "blk w = blk u" "same_fs u w" by blast
    have sw: "same_fs s w" and bw: "blk w = blk s" using same_fs_trans [OF u(4) w(4)] w(3) u(3) by simp_all
    have iw: "ino w i = ?x" using same_fs_simps(6) [OF sw] by simp
    have dev: "i_dev (ino u i) = ROOTDEV" using same_fs_simps(6) [OF u(4)] D(5) by simp
    have um: "unat (of_nat ?m :: u32) = ?m" using n(2) by (simp add: piece_def unat_of_nat)
    have pos: "0 < ?m" "?m \<le> n - tot" using piece_pos(1) [of "n - tot" off] piece_pos(2) [of off "n - tot"] True by simp_all
    have sx: "slot w ?x = slot s ?x" "file_byte w ?x = file_byte s ?x"
      using bw by (auto simp: slot_cong [OF bw] file_byte_def fun_eq_iff Let_def)
    have left: "n - (tot + ?m) < n - tot" "tot + ?m \<le> n" "off + ?m + (n - (tot + ?m)) = off + (n - tot)"
      using pos True by linarith+
    have "\<exists>t. readi_loop i ToLocal (of_nat n) (of_nat (tot + ?m)) (of_nat (off + ?m)) w =
        Done (int n, map (file_byte w (ino w i)) [off + ?m..<off + ?m + (n - (tot + ?m))]) t \<and>
      txn p bs Map.empty t \<and> blk t = blk w \<and> same_fs w t"
    proof (rule less.hyps [OF left(1) file_state_same [OF fs bw sw w(2)] len left(2) n(2)])
      show "off + ?m + (n - (tot + ?m)) \<le> ISLOT * BSIZE" unfolding left(3) by (rule n(3))
      show "slot w (ino w i) (k div BSIZE) \<noteq> 0" if "off + ?m \<le> k" "k < off + ?m + (n - (tot + ?m))" for k
        using there [of k] that left(3) iw sx by simp
    qed
    then obtain t where t: "readi_loop i ToLocal (of_nat n) (of_nat (tot + ?m)) (of_nat (off + ?m)) w =
        Done (int n, map (file_byte s ?x) [off + ?m..<off + (n - tot)]) t"
      "txn p bs Map.empty t" "blk t = blk w" "same_fs w t"
      unfolding left(3) iw sx by blast
    have split: "[off..<off + (n - tot)] = [off..<off + ?m] @ [off + ?m..<off + (n - tot)]"
      using upt_add_eq_append [of off "off + ?m" "n - tot - ?m"] pos by simp
    have "readi_loop i ToLocal (of_nat n) (of_nat tot) (of_nat off) s =
        Done (int n, map (file_byte s ?x) [off..<off + (n - tot)]) t"
      unfolding readi_loop.simps [of i ToLocal "of_nat n" "of_nat tot" "of_nat off" s] W C um lt split
      using True u(1) v w(1) u(3) dev nz t(1) load_piece [OF nz, of "n - tot"]
      by (simp add: Let_def copy_dst_def um)
    moreover have "same_fs s t" by (rule same_fs_trans [OF sw t(4)])
    ultimately show ?thesis using t bw by auto
  qed
qed

subsection \<open>writei\<close>

lemma txn_update_steps:
  assumes t: "txn p bs Map.empty s" and n: "n \<notin> log_area (log_start s)" and len: "length bs < LOGBLOCKS"
  shows "\<exists>b u v w. bread ROOTDEV n s = Done b u \<and> same_fs s u \<and> log_write b (set_data b g u) = Done () v \<and>
    brelse b v = Done () w \<and> txn p (logged n bs) Map.empty w \<and> blk w = (blk s)(n := g (blk s n)) \<and> same_fs s w"
proof -
  obtain b u where u: "bread ROOTDEV n s = Done b u" "txn p bs [b \<mapsto> n] u" "blk u = blk s" "same_fs s u"
    using txn_bread [OF t, of n] beside_card [of Map.empty n bs] len by auto
  have "n \<notin> log_area (log_start u)" using n u(4) by (simp add: same_fs_simps)
  from txn_log_release [OF u(2) _ _ this len, of b g] obtain w where
    w: "log_release b g u = Done () w" "txn p (logged n bs) Map.empty w" "blk w = (blk u)(n := g (blk u n))" "same_fs u w"
    by auto
  obtain v where "log_write b (set_data b g u) = Done () v" "brelse b v = Done () w"
    using w(1) unfolding log_release_def by (cases "log_write b (set_data b g u)") auto
  then show ?thesis
    using u(1,3,4) w(2,3) same_fs_trans [OF u(4) w(4)]
    by (intro exI [of _ b] exI [of _ u] exI [of _ v] exI [of _ w]) simp
qed

text \<open>A data block of the file gets other contents.\<close>

lemma data_written:
  assumes fs: "file_state p bs H i s" and t: "txn p' bs' H' t" "same_fs s t" and k: "k < ISLOT"
    and a: "slot s (ino s i) k = a" "a \<noteq> 0" and b: "blk t = (blk s)(a := g)"
  shows "file_state p' bs' H' i t \<and> grows i s t \<and> slot t (ino t i) = slot s (ino s i) \<and>
    (\<forall>l < ISLOT * BSIZE. file_byte t (ino t i) l = (if l div BSIZE = k then g (l mod BSIZE) else file_byte s (ino s i) l))"
proof -
  note D = file_stateD [OF fs] and d = same_fs_dev [OF t(2)]
  note n = same_dev_blocks [OF d]
  let ?x = "ino s i" and ?ib = "IBLOCK (i_inum (ino s i)) s"
  have it: "itable t = itable s" by (rule same_fs_simps(6) [OF t(2)])
  then have x: "ino t i = ?x" by simp
  have da: "data_block s ?ib a" using D(8) [of k] k a by simp
  have "slot s ?x ISLOT \<noteq> a" using D(9) [of k ISLOT] k a by auto
  then have "i_addrs ?x ! NDIRECT \<noteq> a" by (simp add: slot_def)
  then have sl: "slot t ?x = slot s ?x" by (intro ext) (simp add: slot_def b)
  have free: "free_bit t c = free_bit s c" if "c < nblocks s" for c
    using da that b n(2) by (auto simp: free_bit_def data_block_def bitmap_block_def)
  have dat: "data_block t m c = data_block s m c" for m c using free n by (auto simp: data_block_def)
  have "file_ok t (ino t i)" using fs x sl dat n by (simp add: file_state_def file_ok_def)
  moreover have "\<not> free_bit t 0" using free [of 0] D(3) da by (fastforce simp: data_block_def)
  ultimately have st: "file_state p' bs' H' i t"
    using t(1) layout_mono [OF d _ D(2)] ino_place_mono [OF d _ D(6)] free D(4,5,10) it x n(1,3) by (simp add: file_state_def)
  have "\<exists>as. itable t = (itable s)[i := ?x\<lparr>i_addrs := as\<rparr>]"
    by (rule exI [of _ "i_addrs ?x"]) (simp add: it)
  moreover have "blk t m = blk s m" if "foreign i s m" for m
  proof -
    have "slot s ?x k \<noteq> m" using that a k unfolding foreign_def by (blast intro: less_imp_le)
    then have "m \<noteq> a" using a(1) by simp
    then show ?thesis by (simp add: b)
  qed
  ultimately have "grows i s t"
    using d free x sl unfolding grows_def by simp
  moreover have "file_byte t ?x l = (if l div BSIZE = k then g (l mod BSIZE) else file_byte s ?x l)" if l: "l < ISLOT * BSIZE" for l
  proof (cases "l div BSIZE = k")
    case False
    have "l div BSIZE < ISLOT" using l by (simp add: less_mult_imp_div_less)
    then have "slot s ?x (l div BSIZE) \<noteq> a" using D(9) [of k "l div BSIZE"] k a False by auto
    then show ?thesis using False b sl by (simp add: file_byte_def Let_def)
  qed (use a b sl in \<open>simp add: file_byte_def Let_def\<close>)
  ultimately show ?thesis using st x sl by simp
qed

text \<open>The number of blocks a transfer touches.\<close>

definition pieces :: "nat \<Rightarrow> nat \<Rightarrow> nat" where
  "pieces off left = (if left = 0 then 0 else (off mod BSIZE + left + (BSIZE - 1)) div BSIZE)"

lemma pieces_step:
  assumes "0 < left"
  shows "pieces off left = Suc (pieces (off + piece off left) (left - piece off left))"
proof (cases "left \<le> BSIZE - off mod BSIZE")
  case True
  then show ?thesis using assms by (simp add: pieces_def piece_def)
next
  case False
  have r: "off mod BSIZE < BSIZE" by simp
  let ?m = "BSIZE - off mod BSIZE"
  have p: "piece off left = ?m" using False by (simp add: piece_def)
  obtain q l where "off = q * BSIZE + l" "l < BSIZE" using that [of "off div BSIZE" "off mod BSIZE"] by simp
  then have "off + ?m = (q + 1) * BSIZE" by simp
  then have "(off + ?m) mod BSIZE = 0" by (simp only: mod_mult_self2_is_0)
  moreover have "off mod BSIZE + left + (BSIZE - 1) = (left - ?m + (BSIZE - 1)) + BSIZE" using False r by linarith
  moreover have "left - ?m \<noteq> 0" "left \<noteq> 0" using False by simp_all
  ultimately show ?thesis unfolding pieces_def p by (simp only: div_add_self2 if_False add_0_left)
qed


text \<open>What the loop has done when it stops at \<open>tot'\<close>.\<close>

definition written ::
  "nat \<Rightarrow> u32 list \<Rightarrow> nat \<Rightarrow> u8 list \<Rightarrow> nat \<Rightarrow> nat \<Rightarrow> nat \<Rightarrow> 'z fsst_scheme \<Rightarrow> 'z fsst_scheme \<Rightarrow> bool" where
  "written p bs i data off m r s t \<longleftrightarrow> (\<exists>bs'. file_state p bs' Map.empty i t \<and> length bs' \<le> length bs + r) \<and>
     grows i s t \<and> m \<le> length data \<and> (m < length data \<longrightarrow> (\<forall>c < nblocks t. \<not> free_bit t c)) \<and>
     (m < length data \<longrightarrow> 0 < m \<longrightarrow> (off + m) mod BSIZE = 0) \<and>
     (\<forall>l < ISLOT * BSIZE. file_byte t (ino t i) l =
        (if off \<le> l \<and> l < off + m then data ! (l - off) else file_byte s (ino s i) l)) \<and>
     (\<forall>l. off \<le> l \<longrightarrow> l < off + m \<longrightarrow> slot t (ino t i) (l div BSIZE) \<noteq> 0)"

lemma written_nothing:
  assumes "mapped p bs i k r s 0 t" and "r \<le> r'" and "data \<noteq> []"
  shows "written p bs i data off 0 r' s t"
proof -
  obtain bs' where "file_state p bs' Map.empty i t" "length bs' \<le> length bs + r" using assms(1) by (auto simp: mapped_def)
  then show ?thesis
    using assms unfolding written_def mapped_def same_bytes_def by (auto intro!: exI [of _ bs'])
qed

lemma written_piece:
  assumes m: "mapped p bs i (off div BSIZE) 5 s a t" and a: "a \<noteq> 0"
    and u: "txn p (logged a bs') Map.empty u" "same_fs t u" "file_state p bs' Map.empty i t" "length bs' \<le> length bs + 5"
      "blk u = (blk t)(a := store_bytes (off mod BSIZE) (take (piece off (length data)) data) (blk t a))"
    and l: "off + length data \<le> ISLOT * BSIZE" "data \<noteq> []" and i: "i < length (itable s)"
    and w: "written p (logged a bs') i (drop (piece off (length data)) data) (off + piece off (length data)) tot r u v"
  shows "written p bs i data off (piece off (length data) + tot) (6 + r) s v"
proof -
  let ?m = "piece off (length data)" and ?k = "off div BSIZE"
  have pos: "0 < ?m" "?m \<le> length data" using piece_pos l(2) by auto
  have k: "?k < ISLOT" using l by (cases data) (auto simp: less_mult_imp_div_less)
  have sa: "slot t (ino t i) ?k = a" using m by (simp add: mapped_def)
  note W = data_written [OF u(3,1,2) k sa a u(5)]
  have st: "grows i s t" "same_bytes i s t" using m by (simp_all add: mapped_def)
  have su: "grows i s u" using grows_trans [OF st(1) _ i] W by blast
  have sv: "grows i s v" using grows_trans [OF su _ i] w by (simp add: written_def)
  have byte: "file_byte u (ino u i) l = (if off \<le> l \<and> l < off + ?m then data ! (l - off) else file_byte s (ino s i) l)"
    if "l < ISLOT * BSIZE" for l
  proof (cases "l div BSIZE = ?k")
    case True
    have "file_byte u (ino u i) l = store_bytes (off mod BSIZE) (take ?m data) (blk t a) (l mod BSIZE)"
      using W True that by simp
    moreover have "file_byte t (ino t i) l = blk t a (l mod BSIZE)" using sa a True by (simp add: file_byte_def)
    moreover have "file_byte t (ino t i) l = file_byte s (ino s i) l" using st(2) that by (simp add: same_bytes_def)
    moreover have "off mod BSIZE \<le> l mod BSIZE \<longleftrightarrow> off \<le> l"
      using div_mult_mod_eq [of l BSIZE] div_mult_mod_eq [of off BSIZE] True by linarith
    moreover have "l mod BSIZE - off mod BSIZE = l - off"
      using div_mult_mod_eq [of l BSIZE] div_mult_mod_eq [of off BSIZE] True by linarith
    ultimately show ?thesis using pos by (auto simp: store_bytes_nat)
  next
    case False
    then have "\<not> (off \<le> l \<and> l < off + ?m)" using piece_block(1) by blast
    then show ?thesis using W False that st(2) by (auto simp: same_bytes_def)
  qed
  have slots: "slot v (ino v i) (l div BSIZE) \<noteq> 0" if l': "off \<le> l" "l < off + (?m + tot)" for l
  proof (cases "l < off + ?m")
    case True
    then have "slot u (ino u i) (l div BSIZE) = a" using piece_block(1) [OF l'(1)] W sa by simp
    moreover have "grows i u v" using w by (simp add: written_def)
    ultimately show ?thesis using a k piece_block(1) [OF l'(1) True] unfolding grows_def by simp
  qed (use w l' in \<open>simp add: written_def\<close>)
  have bytes: "file_byte v (ino v i) l = (if off \<le> l \<and> l < off + (?m + tot) then data ! (l - off) else file_byte s (ino s i) l)"
    if "l < ISLOT * BSIZE" for l
    using w that byte [OF that] pos by (auto simp: written_def)
  obtain bs2 where b2: "file_state p bs2 Map.empty i v" "length bs2 \<le> length (logged a bs') + r" using w by (auto simp: written_def)
  have "length bs2 \<le> length bs + (6 + r)" using b2(2) u(4) length_logged [of a bs'] by linarith
  moreover have "(off + (?m + tot)) mod BSIZE = 0" if "?m + tot < length data"
  proof (cases "tot = 0")
    case True
    then have "?m = BSIZE - off mod BSIZE" using that by (simp add: piece_def)
    moreover obtain q l where "off = q * BSIZE + l" "l < BSIZE" using that [of "off div BSIZE" "off mod BSIZE"] by simp
    ultimately have "off + ?m = (q + 1) * BSIZE" by simp
    then show ?thesis using True by (simp only: add_0_right mod_mult_self2_is_0)
  qed (use w that in \<open>simp add: written_def add.assoc less_diff_conv\<close>)
  ultimately show ?thesis using w sv b2(1) bytes slots pos unfolding written_def by (auto simp: less_diff_conv add.commute)
qed

lemma writei_loop_law:
  assumes "file_state p bs Map.empty i s" and "tot \<le> n" "n < 2 ^ 31" "off + (n - tot) \<le> ISLOT * BSIZE" "length data = n"
    and "length bs + 6 * pieces off (n - tot) \<le> LOGBLOCKS"
  shows "\<exists>m t. writei_loop i (FromLocal data) (of_nat n) (of_nat tot) (of_nat off) s =
      Done (of_nat (tot + m), of_nat (off + m)) t \<and>
    written p bs i (drop tot data) off m (6 * pieces off (n - tot)) s t"
  using assms
proof (induction "n - tot" arbitrary: tot off bs s rule: less_induct)
  case less
  note fs = less.prems(1) and n = less.prems(2-4) and d = less.prems(5) and room = less.prems(6)
  let ?x = "ino s i" and ?m = "piece off (n - tot)" and ?k = "off div BSIZE" and ?data = "drop tot data"
  have lt: "(of_nat tot :: u32) < of_nat n \<longleftrightarrow> tot < n" using n by (simp add: word_less_nat_alt unat_of_nat)
  show ?case
  proof (cases "tot < n")
    case False
    then have "writei_loop i (FromLocal data) (of_nat n) (of_nat tot) (of_nat off) s = Done (of_nat (tot + 0), of_nat (off + 0)) s"
      using lt by (subst writei_loop.simps) simp
    moreover have "written p bs i ?data off 0 (6 * pieces off (n - tot)) s s"
      using False d fs grows_same [of s s i] by (auto simp: written_def intro: exI [of _ bs])
    ultimately show ?thesis by blast
  next
    case True
    define left where "left = n - (tot + ?m)"
    have i: "i < length (itable s)" by (rule file_stateD(4) [OF fs])
    have off: "off < 2 ^ 31" and k: "?k < ISLOT" using n True by (simp_all add: less_mult_imp_div_less)
    note W = word_position [OF off] and C = io_chunk_piece [OF off n(1,2)]
    have pos: "0 < ?m" "?m \<le> n - tot" using piece_pos(1) [of "n - tot" off] piece_pos(2) [of off "n - tot"] True by simp_all
    have lf: "left < n - tot" "tot + ?m \<le> n" "off + ?m + left = off + (n - tot)" "n - tot - ?m = left"
      using pos True by (simp_all add: left_def)
    have pc: "pieces off (n - tot) = Suc (pieces (off + ?m) left)" using pieces_step [of "n - tot" off] True lf(4) by simp
    have um: "unat (of_nat ?m :: u32) = ?m" "unat (of_nat tot :: u32) = tot" using n by (simp_all add: piece_def unat_of_nat)
    have five: "length bs + 5 \<le> LOGBLOCKS" using room pc by simp
    obtain a t where t: "bmap i (of_nat ?k) s = Done a t" "mapped p bs i ?k 5 s a t" using bmap_law [OF fs five k] by blast
    show ?thesis
    proof (cases "a = 0")
      case True
      then have "writei_loop i (FromLocal data) (of_nat n) (of_nat tot) (of_nat off) s = Done (of_nat (tot + 0), of_nat (off + 0)) t"
        unfolding writei_loop.simps [of i "FromLocal data" "of_nat n" "of_nat tot" "of_nat off" s] W lt using t(1) \<open>tot < n\<close> by simp
      moreover have "written p bs i ?data off 0 (6 * pieces off (n - tot)) s t"
        by (rule written_nothing [OF t(2) [unfolded True]]) (use pc d \<open>tot < n\<close> in simp_all)
      ultimately show ?thesis by blast
    next
      case nz: False
      obtain bs' where b': "file_state p bs' Map.empty i t" "length bs' \<le> length bs + 5" using t(2) by (auto simp: mapped_def)
      have "slot t (ino t i) ?k = a" using t(2) by (simp add: mapped_def)
      then have "a \<notin> log_area (log_start t)" using file_stateD(8) [OF b'(1), of ?k] k nz by (simp add: data_block_def)
      moreover have "length bs' < LOGBLOCKS" using b'(2) room pc by simp
      ultimately obtain b u v w where u: "bread ROOTDEV a t = Done b u" "same_fs t u"
          "log_write b (set_data b (store_bytes (off mod BSIZE) (take ?m ?data)) u) = Done () v" "brelse b v = Done () w"
        and w: "txn p (logged a bs') Map.empty w" "blk w = (blk t)(a := store_bytes (off mod BSIZE) (take ?m ?data) (blk t a))"
          "same_fs t w"
        using txn_update_steps [OF file_stateD(1) [OF b'(1)]] by blast
      have dev: "i_dev (ino t i) = ROOTDEV" by (rule file_stateD(5) [OF b'(1)])
      have wi: "file_state p (logged a bs') Map.empty i w"
        using data_written [OF b'(1) w(1,3) k _ nz w(2)] \<open>slot t (ino t i) ?k = a\<close> by blast
      have "\<exists>m z. writei_loop i (FromLocal data) (of_nat n) (of_nat (tot + ?m)) (of_nat (off + ?m)) w =
          Done (of_nat (tot + ?m + m), of_nat (off + ?m + m)) z \<and>
        written p (logged a bs') i (drop (tot + ?m) data) (off + ?m) m (6 * pieces (off + ?m) left) w z"
        unfolding left_def
      proof (rule less.hyps [OF _ wi lf(2) n(2) _ d])
        show "length (logged a bs') + 6 * pieces (off + ?m) (n - (tot + ?m)) \<le> LOGBLOCKS"
          using length_logged [of a bs'] b'(2) room pc unfolding left_def by simp
      qed (use lf n(3) in \<open>simp_all add: left_def [symmetric]\<close>)
      then obtain m z where z: "writei_loop i (FromLocal data) (of_nat n) (of_nat (tot + ?m)) (of_nat (off + ?m)) w =
          Done (of_nat (tot + (?m + m)), of_nat (off + (?m + m))) z"
        "written p (logged a bs') i (drop ?m ?data) (off + ?m) m (6 * pieces (off + ?m) left) w z"
        by (auto simp: add.assoc add.commute)
      have "writei_loop i (FromLocal data) (of_nat n) (of_nat tot) (of_nat off) s =
          Done (of_nat (tot + (?m + m)), of_nat (off + (?m + m))) z"
        unfolding writei_loop.simps [of i "FromLocal data" "of_nat n" "of_nat tot" "of_nat off" s] W C lt
        using \<open>tot < n\<close> t(1) nz u dev z(1) by (simp add: Let_def copy_src_def um)
      moreover have "written p bs i ?data off (?m + m) (6 + 6 * pieces (off + ?m) left) s z"
      proof -
        have ld: "length ?data = n - tot" using d by simp
        show ?thesis
          by (rule written_piece [where data = "?data", unfolded ld, OF t(2) nz w(1,3) b'])
            (use w(2) z(2) n(3) True d i in simp_all)
      qed
      ultimately show ?thesis unfolding pc by (intro exI [of _ "?m + m"] exI [of _ z]) simp
    qed
  qed
qed

subsection \<open>Files as lists of bytes\<close>

text \<open>
  The abstract file is the list of its bytes. \<open>whole\<close>: it fits into the slots and has no holes; \<open>stored\<close>: the
  inode on disk is the one in the table.
\<close>

definition file_data :: "'z fsst_scheme \<Rightarrow> inode \<Rightarrow> u8 list" where
  "file_data s x = map (file_byte s x) [0..<unat (i_size x)]"

definition whole :: "'z fsst_scheme \<Rightarrow> inode \<Rightarrow> bool" where
  "whole s x \<longleftrightarrow> unat (i_size x) \<le> MAXFILE * BSIZE \<and> (\<forall>k. k * BSIZE < unat (i_size x) \<longrightarrow> slot s x k \<noteq> 0)"

definition stored :: "'z fsst_scheme \<Rightarrow> inode \<Rightarrow> bool" where
  "stored s x \<longleftrightarrow> get_dinode (blk s (IBLOCK (i_inum x) s)) (dinode_off (i_inum x)) x = x"

lemma wholeD: "whole s x \<Longrightarrow> l < unat (i_size x) \<Longrightarrow> slot s x (l div BSIZE) \<noteq> 0"
  using div_times_less_eq_dividend [of l BSIZE] unfolding whole_def by (meson le_less_trans)

text \<open>
  \<open>readi\<close> of \<open>n\<close> bytes from \<open>off\<close> returns the list \<open>take n (drop off d)\<close>, where \<open>d\<close> is the list of the bytes
  of the file, and its length; no block, inode or field of the transaction changes.
\<close>

lemma readi_effect:
  assumes fs: "file_state p bs Map.empty i s" and len: "length bs < LOGBLOCKS" and w: "whole s (ino s i)"
    and n: "unat off + unat n < 2 ^ 32"
  shows "\<exists>t. readi i ToLocal off n s =
      Done (int (length (take (unat n) (drop (unat off) (file_data s (ino s i))))),
        take (unat n) (drop (unat off) (file_data s (ino s i)))) t \<and>
    txn p bs Map.empty t \<and> blk t = blk s \<and> same_fs s t"
proof -
  let ?x = "ino s i"
  let ?z = "unat (i_size ?x)" and ?o = "unat off"
  define m where "m = min (unat n) (?z - ?o)"
  have ov: "\<not> off + n < off" and un: "unat (off + n) = ?o + unat n"
    using n by (simp_all add: word_less_nat_alt unat_word_ariths)
  have z: "?z \<le> ISLOT * BSIZE" using w by (simp add: whole_def)
  show ?thesis
  proof (cases "i_size ?x < off")
    case True
    then have "readi i ToLocal off n s = Done (0, []) s" by (simp add: readi_def)
    moreover have "drop ?o (file_data s ?x) = []" using True by (simp add: file_data_def word_less_nat_alt)
    ultimately show ?thesis using file_stateD(1) [OF fs] by simp
  next
    case False
    then have o: "?o \<le> ?z" by (simp add: word_less_nat_alt)
    have "m \<le> ISLOT * BSIZE" using z by (simp add: m_def)
    then have um: "unat (of_nat m :: u32) = m" by (simp add: unat_of_nat)
    have nm: "(if i_size ?x < off + n then i_size ?x - off else n) = of_nat m"
      unfolding word_unat_eq_iff um using o un by (auto simp: m_def word_less_nat_alt min_def unat_sub_if')
    have data: "take (unat n) (drop ?o (file_data s ?x)) = map (file_byte s ?x) [?o..<?o + m]"
      using o by (simp add: file_data_def m_def drop_map take_map min_def)
    have "\<exists>t. readi_loop i ToLocal (of_nat m) (of_nat 0) (of_nat ?o) s =
        Done (int m, map (file_byte s ?x) [?o..<?o + (m - 0)]) t \<and> txn p bs Map.empty t \<and> blk t = blk s \<and> same_fs s t"
    proof (rule readi_loop_law [OF fs len])
      show "m < 2 ^ 31" "?o + (m - 0) \<le> ISLOT * BSIZE" using z o by (simp_all add: m_def)
      show "slot s ?x (k div BSIZE) \<noteq> 0" if "?o \<le> k" "k < ?o + (m - 0)" for k
        by (rule wholeD [OF w]) (use that in \<open>simp add: m_def\<close>)
    qed simp
    moreover have "readi i ToLocal off n s = readi_loop i ToLocal (of_nat m) 0 off s"
      using False ov nm by (simp add: readi_def Let_def)
    ultimately show ?thesis unfolding data by simp
  qed
qed

text \<open>\<open>iupdate\<close> writes the block of the inode, which is no block of the file.\<close>

lemma inode_synced:
  assumes fs: "file_state p bs Map.empty i s" and len: "length bs < LOGBLOCKS"
  defines "x \<equiv> ino s i" and "ib \<equiv> IBLOCK (i_inum (ino s i)) s"
  shows "\<exists>t. iupdate i s = Done () t \<and> file_state p (logged ib bs) Map.empty i t \<and> same_fs s t \<and> stored t x \<and>
    (\<forall>j \<le> ISLOT. slot t x j = slot s x j) \<and> (\<forall>l < ISLOT * BSIZE. file_byte t x l = file_byte s x l) \<and>
    (\<forall>b. b \<noteq> ib \<longrightarrow> blk t b = blk s b) \<and> (\<forall>a < nblocks s. free_bit t a = free_bit s a)"
proof -
  note D = file_stateD [OF fs, folded x_def]
  have "ib \<notin> log_area (log_start s)" using D(6) by (simp add: ino_place_def ib_def x_def)
  from txn_update_steps [OF D(1) this len, of "put_dinode x (dinode_off (i_inum x))"] obtain b u v t where
    u: "bread ROOTDEV ib s = Done b u" "same_fs s u" "log_write b (set_data b (put_dinode x (dinode_off (i_inum x))) u) = Done () v"
      "brelse b v = Done () t"
    and t: "txn p (logged ib bs) Map.empty t" "blk t = (blk s)(ib := put_dinode x (dinode_off (i_inum x)) (blk s ib))" "same_fs s t"
    by blast
  have "ino u i = x" using same_fs_simps(6) [OF u(2)] by (simp add: x_def)
  then have run: "iupdate i s = Done () t" using u D(5) by (simp add: iupdate_def log_release_def ib_def x_def)
  note d = same_fs_dev [OF t(3)] note n = same_dev_blocks [OF d]
  have x: "ino t i = x" using same_fs_simps(6) [OF t(3)] by (simp add: x_def)
  have nib: "slot s x j \<noteq> ib" if "j \<le> ISLOT" "slot s x j \<noteq> 0" for j
    using D(8) [OF that] by (auto simp: data_block_def ib_def x_def)
  have sl: "slot t x j = slot s x j" if "j \<le> ISLOT" for j
    using nib [of ISLOT] t(2) by (auto simp: slot_def)
  have free: "free_bit t a = free_bit s a" if "a < nblocks s" for a
    using D(6) that t(2) n(2) by (auto simp: free_bit_def ino_place_def bitmap_block_def ib_def x_def)
  have dat: "data_block t m c = data_block s m c" for m c using free n by (auto simp: data_block_def)
  have "file_ok t x" using fs sl dat n unfolding file_state_def file_ok_def x_def by simp
  moreover have "\<not> free_bit t 0" using free [OF D(10)] D(3) by simp
  ultimately have "file_state p (logged ib bs) Map.empty i t"
    using t(1) layout_mono [OF d _ D(2)] ino_place_mono [OF d _ D(6)] free D(4,5,10) same_fs_simps(6) [OF t(3)] n(1,3)
    by (simp add: file_state_def x_def)
  moreover have "stored t x"
    using n(3) D(7) by (simp add: stored_def t(2) put_dinode_same ib_def x_def)
  moreover have "file_byte t x l = file_byte s x l" if "l < ISLOT * BSIZE" for l
    using sl [of "l div BSIZE"] nib [of "l div BSIZE"] that t(2) less_mult_imp_div_less [of l ISLOT BSIZE]
    by (auto simp: file_byte_def Let_def)
  ultimately show ?thesis using run t(2,3) sl free by (intro exI [of _ t]) simp
qed

text \<open>The size field is no part of the slots.\<close>

lemma slot_size [simp]: "slot s (x\<lparr>i_size := z\<rparr>) = slot s x" "slot (s\<lparr>itable := ys\<rparr>) x = slot s x"
  by (simp_all add: slot_def fun_eq_iff)

lemma file_byte_size [simp]:
  "file_byte s (x\<lparr>i_size := z\<rparr>) = file_byte s x" "file_byte (s\<lparr>itable := ys\<rparr>) x = file_byte s x"
  by (simp_all add: file_byte_def fun_eq_iff Let_def)

lemma file_state_resized:
  assumes "file_state p bs H i s"
  shows "file_state p bs H i (upd_ino i (\<lambda>x. x\<lparr>i_size := z\<rparr>) s)"
  using assms
  by (simp add: file_state_def file_ok_def data_block_def ino_place_def layout_def bitmap_block_def IBLOCK_def BBLOCK_def upd_ino_def
      free_bit_def)

lemma resized:
  assumes "i < length (itable s)"
  shows "(if i_size (ino s i) < z then upd_ino i (\<lambda>x. x\<lparr>i_size := z\<rparr>) s else s) =
    upd_ino i (\<lambda>x. x\<lparr>i_size := max (i_size (ino s i)) z\<rparr>) s"
  by (auto simp: upd_ino_def max_def not_less)

lemma file_data_nth: "l < unat (i_size x) \<Longrightarrow> file_data s x ! l = file_byte s x l"
  by (simp add: file_data_def)

lemma length_file_data [simp]: "length (file_data s x) = unat (i_size x)"
  by (simp add: file_data_def)

text \<open>The list of the bytes after a write of \<open>m\<close> bytes.\<close>

lemma file_data_written:
  assumes o: "o' \<le> unat (i_size x)" and z: "unat (i_size y) = max (unat (i_size x)) (o' + m)" and m: "m \<le> length data"
    and l: "unat (i_size y) \<le> ISLOT * BSIZE"
    and b: "\<And>l. l < ISLOT * BSIZE \<Longrightarrow>
      file_byte t y l = (if o' \<le> l \<and> l < o' + m then data ! (l - o') else file_byte s x l)"
  shows "file_data t y = take o' (file_data s x) @ take m data @ drop (o' + m) (file_data s x)"
proof (rule nth_equalityI)
  show "length (file_data t y) = length (take o' (file_data s x) @ take m data @ drop (o' + m) (file_data s x))"
    using o z m by simp
  fix k assume "k < length (file_data t y)"
  then have k: "k < unat (i_size y)" by simp
  then show "file_data t y ! k = (take o' (file_data s x) @ take m data @ drop (o' + m) (file_data s x)) ! k"
    using o z m l b [of k] by (auto simp: file_data_nth nth_append not_less)
qed

text \<open>Inodes of other entries, and blocks of others, are not touched.\<close>

definition only_file :: "nat \<Rightarrow> 'z fsst_scheme \<Rightarrow> 'z fsst_scheme \<Rightarrow> bool" where
  "only_file i s t \<longleftrightarrow> (\<exists>z as. ino t i = (ino s i)\<lparr>i_size := z, i_addrs := as\<rparr>) \<and>
     (\<forall>j. j \<noteq> i \<longrightarrow> ino t j = ino s j) \<and>
     (\<forall>b. foreign i s b \<longrightarrow> b \<noteq> IBLOCK (i_inum (ino s i)) s \<longrightarrow> blk t b = blk s b)"

lemma whole_written:
  assumes w: "whole s (ino s i)" and g: "grows i s t" and z: "unat z \<le> MAXFILE * BSIZE"
    "unat z \<le> max (unat (i_size (ino s i))) (o' + m)" and o: "o' \<le> unat (i_size (ino s i))"
    and sl: "\<And>l. o' \<le> l \<Longrightarrow> l < o' + m \<Longrightarrow> slot t (ino t i) (l div BSIZE) \<noteq> 0"
  shows "whole t ((ino t i)\<lparr>i_size := z\<rparr>)"
proof -
  have "slot t (ino t i) k \<noteq> 0" if k: "k * BSIZE < unat z" for k
  proof (cases "k * BSIZE < unat (i_size (ino s i))")
    case True
    then have "slot s (ino s i) k \<noteq> 0" using w by (simp add: whole_def)
    moreover have "k \<le> ISLOT" using k z(1) by simp
    ultimately show ?thesis using g unfolding grows_def by simp
  next
    case False
    then show ?thesis using sl [of "k * BSIZE"] k z(2) o by simp
  qed
  then show ?thesis using z(1) by (simp add: whole_def)
qed

text \<open>
  \<open>writei\<close> within a file puts its bytes in the place of the old ones, all of them unless no block of the
  disk is free, and then up to the end of a block; the file stays well-formed and its inode on disk is updated.
\<close>

lemma writei_effect:
  assumes fs: "file_state p bs Map.empty i s" and w: "whole s (ino s i)" and o: "unat off \<le> unat (i_size (ino s i))"
    and d: "unat off + length data \<le> MAXFILE * BSIZE" and room: "length bs + 6 * pieces (unat off) (length data) < LOGBLOCKS"
  shows "\<exists>m t bs'. writei i (FromLocal data) off (of_nat (length data)) s = Done (int m) t \<and>
    m \<le> length data \<and>
    (m < length data \<longrightarrow> (m = 0 \<or> (unat off + m) mod BSIZE = 0) \<and> (\<forall>c < nblocks t. \<not> free_bit t c)) \<and>
    file_data t (ino t i) = take (unat off) (file_data s (ino s i)) @ take m data @ drop (unat off + m) (file_data s (ino s i)) \<and>
    file_state p bs' Map.empty i t \<and> length bs' \<le> length bs + 6 * pieces (unat off) (length data) + 1 \<and>
    whole t (ino t i) \<and> stored t (ino t i) \<and> only_file i s t"
proof -
  let ?x = "ino s i" and ?o = "unat off" and ?n = "length data"
  note D = file_stateD [OF fs]
  have un: "unat (of_nat ?n :: u32) = ?n" "unat (off + of_nat ?n) = ?o + ?n"
    using d by (simp_all add: unat_of_nat unat_word_ariths)
  have "\<exists>m u. writei_loop i (FromLocal data) (of_nat ?n) (of_nat 0) (of_nat ?o) s = Done (of_nat (0 + m), of_nat (?o + m)) u \<and>
      written p bs i (drop 0 data) ?o m (6 * pieces ?o (?n - 0)) s u"
    by (rule writei_loop_law [OF fs]) (use d room in simp_all)
  then obtain m u where u: "writei_loop i (FromLocal data) (of_nat ?n) 0 off s = Done (of_nat m, of_nat (?o + m)) u"
    and wr: "written p bs i data ?o m (6 * pieces ?o ?n) s u" by auto
  from wr obtain bs' where b': "file_state p bs' Map.empty i u" "length bs' < LOGBLOCKS" "length bs' \<le> length bs + 6 * pieces ?o ?n"
    using room unfolding written_def by (auto intro: le_less_trans)
  from wr have g: "grows i s u" and m: "m \<le> ?n" "m < ?n \<Longrightarrow> \<forall>c < nblocks u. \<not> free_bit u c" "m < ?n \<Longrightarrow> m = 0 \<or> (?o + m) mod BSIZE = 0"
    and byte: "\<And>l. l < ISLOT * BSIZE \<Longrightarrow> file_byte u (ino u i) l = (if ?o \<le> l \<and> l < ?o + m then data ! (l - ?o) else file_byte s ?x l)"
    and sl: "\<And>l. ?o \<le> l \<Longrightarrow> l < ?o + m \<Longrightarrow> slot u (ino u i) (l div BSIZE) \<noteq> 0"
    unfolding written_def by auto
  define z where "z = max (i_size (ino u i)) (of_nat (?o + m))"
  let ?v = "upd_ino i (\<lambda>x. x\<lparr>i_size := z\<rparr>) u"
  obtain as where it: "itable u = (itable s)[i := ?x\<lparr>i_addrs := as\<rparr>]" using g by (auto simp: grows_def)
  have iu: "i < length (itable u)" and sz: "i_size (ino u i) = i_size ?x" and num: "i_inum (ino u i) = i_inum ?x"
    using it D(4) by simp_all
  have om: "unat (of_nat (?o + m) :: u32) = ?o + m" using d m(1) by (simp add: unat_of_nat del: of_nat_add)
  have uz: "unat z = max (unat (i_size ?x)) (?o + m)"
    unfolding z_def sz max_def word_le_nat_alt om by (auto simp: om simp del: of_nat_add)
  have xv: "ino ?v i = (ino u i)\<lparr>i_size := z\<rparr>" using iu by (simp add: upd_ino_def)
  from inode_synced [OF file_state_resized [OF b'(1), of z] b'(2)] obtain t where
    t: "iupdate i ?v = Done () t" "same_fs ?v t" "stored t (ino ?v i)"
    and tf: "file_state p (logged (IBLOCK (i_inum (ino ?v i)) ?v) bs') Map.empty i t"
    and ts: "\<And>j. j \<le> ISLOT \<Longrightarrow> slot t (ino ?v i) j = slot ?v (ino ?v i) j"
    and tb: "\<And>l. l < ISLOT * BSIZE \<Longrightarrow> file_byte t (ino ?v i) l = file_byte ?v (ino ?v i) l"
    and blk: "\<And>b. b \<noteq> IBLOCK (i_inum (ino ?v i)) ?v \<Longrightarrow> blk t b = blk ?v b"
    and free: "\<And>a. a < nblocks ?v \<Longrightarrow> free_bit t a = free_bit ?v a" by blast
  have itt: "itable t = itable ?v" by (rule same_fs_simps(6) [OF t(2)])
  have xt: "ino t i = (ino u i)\<lparr>i_size := z\<rparr>" using itt xv by simp
  have run: "writei i (FromLocal data) off (of_nat ?n) s = Done (sint (of_nat m :: u32)) t"
  proof -
    have "\<not> (i_size ?x < off \<or> off + of_nat ?n < off)" "\<not> of_nat (MAXFILE * BSIZE) < off + (of_nat ?n :: u32)"
      using o d un by (simp_all add: word_less_nat_alt)
    moreover have "(if i_size (ino u i) < of_nat (?o + m) then upd_ino i (\<lambda>x. x\<lparr>i_size := of_nat (?o + m)\<rparr>) u else u) = ?v"
      unfolding z_def by (rule resized [OF iu])
    ultimately show ?thesis
      unfolding writei_def by (simp only: if_False u bnd.simps prod.case Let_def t(1))
  qed
  have "sint (of_nat m :: u32) = int m"
    using m(1) d by (simp add: sint_uint uint_nat unat_of_nat signed_take_bit_int_eq_self)
  moreover have z: "unat z \<le> MAXFILE * BSIZE" using uz d m(1) w by (simp add: whole_def)
  moreover have "whole t (ino t i)"
  proof -
    have "whole u ((ino u i)\<lparr>i_size := z\<rparr>)" by (rule whole_written [OF w g z _ o sl]) (use uz in simp_all)
    moreover have "slot t (ino t i) k = slot u (ino u i) k" if "k \<le> ISLOT" for k
      using ts [OF that] xt xv by (simp add: upd_ino_def)
    ultimately show ?thesis using xt z unfolding whole_def by simp
  qed
  moreover have "file_data t (ino t i) = take ?o (file_data s ?x) @ take m data @ drop (?o + m) (file_data s ?x)"
  proof (rule file_data_written [OF o _ m(1)])
    show "file_byte t (ino t i) l = (if ?o \<le> l \<and> l < ?o + m then data ! (l - ?o) else file_byte s ?x l)"
      if "l < ISLOT * BSIZE" for l
      using tb [OF that] byte [OF that] xt xv by (simp add: upd_ino_def)
  qed (use uz xt z in simp_all)
  moreover have "only_file i s t"
  proof -
    have "same_dev s u" using g by (simp add: grows_def)
    then have "IBLOCK (i_inum (ino ?v i)) ?v = IBLOCK (i_inum ?x) s"
      using same_dev_blocks(3) num xv by (simp add: upd_ino_def IBLOCK_def same_dev_def)
    moreover have "ino t i = ?x\<lparr>i_size := z, i_addrs := as\<rparr>" using xt it D(4) by simp
    ultimately show ?thesis using blk g itt it unfolding only_file_def grows_def by (auto simp: upd_ino_def)
  qed
  moreover have "\<forall>c < nblocks t. \<not> free_bit t c" if "m < ?n"
    using m(2) [OF that] free same_fs_simps(5) [OF t(2)] by (simp add: upd_ino_def)
  moreover have "length (logged (IBLOCK (i_inum (ino ?v i)) ?v) bs') \<le> length bs + 6 * pieces ?o ?n + 1"
    using length_logged [of "IBLOCK (i_inum (ino ?v i)) ?v" bs'] b'(3) by simp
  ultimately show ?thesis using run tf t(3) m(1,3) xt xv
    by (intro exI [of _ m] exI [of _ t] exI [of _ "logged (IBLOCK (i_inum (ino ?v i)) ?v) bs'"]) simp
qed

text \<open>
  C6: \<open>writei\<close> and \<open>readi\<close> implement a file that is a list of bytes, for a caller whose buffer is in kernel
  memory (\<open>user_src\<close> and \<open>user_dst\<close> are 0; theorem \<open>copyout_copyin\<close> is about user memory). Inside a transaction
  with room for the blocks touched, \<open>writei\<close> of \<open>data\<close> at an offset within the file, not beyond the largest
  file, returns the number \<open>m\<close> of bytes written, which is all of them unless no block of the disk is free. The
  file is then the old list with \<open>take m data\<close> in the place of the bytes from \<open>off\<close> on, longer where they end
  beyond it; every later \<open>readi\<close> at any offset returns that part of the new list, fewer bytes or none at its
  end, and changes no block. The inode on disk is the one in the table, and the other inodes and the blocks of
  other files are unchanged.
\<close>
theorem writei_readi:
  assumes fs: "file_state p bs Map.empty i s" and w: "whole s (ino s i)" and o: "unat off \<le> unat (i_size (ino s i))"
    and d: "unat off + length data \<le> MAXFILE * BSIZE" and room: "length bs + 6 * pieces (unat off) (length data) + 1 < LOGBLOCKS"
  shows "\<exists>m t. writei i (FromLocal data) off (of_nat (length data)) s = Done (int m) t \<and>
    m \<le> length data \<and> (m < length data \<longrightarrow> (\<forall>c < nblocks t. \<not> free_bit t c)) \<and>
    file_data t (ino t i) = take (unat off) (file_data s (ino s i)) @ take m data @ drop (unat off + m) (file_data s (ino s i)) \<and>
    (\<forall>o' n r. unat o' + unat n < 2 ^ 32 \<longrightarrow> r = take (unat n) (drop (unat o') (file_data t (ino t i))) \<longrightarrow>
       (\<exists>u. readi i ToLocal o' n t = Done (int (length r), r) u \<and> blk u = blk t \<and> same_fs t u)) \<and>
    whole t (ino t i) \<and> stored t (ino t i) \<and> only_file i s t"
proof -
  have room1: "length bs + 6 * pieces (unat off) (length data) < LOGBLOCKS" using room by simp
  obtain m t bs' where t: "writei i (FromLocal data) off (of_nat (length data)) s = Done (int m) t" "m \<le> length data"
      "m < length data \<longrightarrow> (\<forall>c < nblocks t. \<not> free_bit t c)"
      "file_data t (ino t i) = take (unat off) (file_data s (ino s i)) @ take m data @ drop (unat off + m) (file_data s (ino s i))"
      "whole t (ino t i)" "stored t (ino t i)" "only_file i s t"
    and b': "file_state p bs' Map.empty i t" "length bs' \<le> length bs + 6 * pieces (unat off) (length data) + 1"
    using writei_effect [OF fs w o d room1] by blast
  have "length bs' < LOGBLOCKS" using b'(2) room by simp
  from readi_effect [OF b'(1) this t(5)]
  have "\<forall>o' n r. unat o' + unat n < 2 ^ 32 \<longrightarrow> r = take (unat n) (drop (unat o') (file_data t (ino t i))) \<longrightarrow>
      (\<exists>u. readi i ToLocal o' n t = Done (int (length r), r) u \<and> blk u = blk t \<and> same_fs t u)"
    by blast
  then show ?thesis using t by blast
qed

subsection \<open>An example\<close>

text \<open>The file system of theory \<open>Txn\<close>, whose inodes all have type \<open>ty\<close>, \<open>z\<close> bytes and the block 300.\<close>

definition content_inode :: "u16 \<Rightarrow> u32 \<Rightarrow> inode" where
  "content_inode ty z = sample_inode\<lparr>i_type := ty, i_size := z, i_addrs := 300 # replicate 12 0\<rparr>"

definition content_sample :: "u16 \<Rightarrow> u32 \<Rightarrow> fsst" where
  "content_sample ty z = fs_sample\<lparr>itable := replicate NINODE (content_inode ty z)\<rparr>"

lemma content_slot: "slot (content_sample ty z) (content_inode ty z) j = (if j = 0 then 300 else 0)" if "j \<le> ISLOT"
  using that by (auto simp: slot_def content_inode_def nth_Cons split: nat.split)

lemma content_sample_simps [simp]:
  "itable (content_sample ty z) = replicate NINODE (content_inode ty z)" "i_inum (content_inode ty z) = 7" "i_size (content_inode ty z) = z" "i_type (content_inode ty z) = ty"
  "i_dev (content_inode ty z) = ROOTDEV" "length (i_addrs (content_inode ty z)) = NDIRECT + 1" "blk (content_sample ty z) = sample_disk"
  "nblocks (content_sample ty z) = 1000" "log_start (content_sample ty z) = 100" "IBLOCK n (content_sample ty z) = n div 16 + 32"
  "bitmap_block (content_sample ty z) b \<longleftrightarrow> b = 45"
proof -
  have "(\<exists>c < 1000. b = of_nat c div 8192 + 45) \<longleftrightarrow> b = 45"
    using small_div by (auto intro: exI [of _ 0])
  moreover have "sb_bmapstart (sb fs_sample) = 45" "sb_inodestart (sb fs_sample) = 32" by (simp_all add: fs_sample_def logst.defs fsst.defs)
  ultimately show "bitmap_block (content_sample ty z) b \<longleftrightarrow> b = 45" "IBLOCK n (content_sample ty z) = n div 16 + 32"
    by (simp_all add: bitmap_block_def content_sample_def BBLOCK_def IBLOCK_def)
qed (simp_all add: content_sample_def content_inode_def sample_inode_def fs_sample_blk)

lemma content_sample_file: "file_state 0 [] Map.empty 0 (content_sample ty z)"
proof -
  have f: "free_bit (content_sample ty z) a = free_bit fs_sample a" for a by (simp add: content_sample_def)
  have "layout (content_sample ty z)"
    using fs_sample_layout f by (simp add: layout_def content_sample_def BBLOCK_def)
  moreover have "ino_place (content_sample ty z) 32"
  proof -
    have "(of_nat c :: u32) \<noteq> 32" if "480 \<le> c" "c < 1000" for c
    proof
      assume "(of_nat c :: u32) = 32"
      then have "unat (of_nat c :: u32) = unat (32 :: u32)" by simp
      then show False using that by (simp add: unat_of_nat)
    qed
    then show ?thesis using log_area_100 [of 32] fs_sample_free f by (auto simp: ino_place_def)
  qed
  moreover have "file_ok (content_sample ty z) (content_inode ty z)"
  proof -
    have "data_block (content_sample ty z) 32 300"
      using log_area_100 [of 300] fs_sample_free [of 300] f by (auto simp: data_block_def)
    then show ?thesis by (auto simp: file_ok_def content_slot split: if_splits)
  qed
  moreover have "txn 0 [] Map.empty (content_sample ty z)" using fs_sample_txn by (simp add: content_sample_def)
  ultimately show ?thesis
    using fs_sample_free [of 0] f by (simp add: file_state_def)
qed

lemma content_sample_data:
  assumes "unat z \<le> BSIZE"
  shows "whole (content_sample ty z) (content_inode ty z)"
    and "file_data (content_sample ty z) (content_inode ty z) = replicate (unat z) 0"
proof -
  have "slot (content_sample ty z) (content_inode ty z) k \<noteq> 0" if "k * BSIZE < unat z" for k
  proof -
    have "k = 0" using that assms by simp
    then show ?thesis by (simp add: content_slot)
  qed
  then show "whole (content_sample ty z) (content_inode ty z)" using assms by (simp add: whole_def)
  have "file_byte (content_sample ty z) (content_inode ty z) l = 0" if "l < unat z" for l
    using that assms by (simp add: file_byte_def content_slot sample_disk_def)
  then show "file_data (content_sample ty z) (content_inode ty z) = replicate (unat z) 0"
    by (intro nth_equalityI) (simp_all add: file_data_nth)
qed

text \<open>Two bytes are written at offset 4 of the file: what was written is read back.\<close>

lemma writei_readi_witness:
  "\<exists>m t u. writei 0 (FromLocal [104, 105]) 4 2 (content_sample T_FILE 5) = Done (int m) t \<and>
    readi 0 ToLocal 3 9 t = Done (2 + int (m - 1), 0 # (if m = 0 then [0] else take m [104, 105])) u"
proof -
  let ?d = "[104, 105] :: u8 list"
  have w: "whole (content_sample T_FILE 5) (ino (content_sample T_FILE 5) 0)" using content_sample_data(1) by simp
  have r: "length [] + 6 * pieces (unat (4 :: u32)) (length ?d) + 1 < LOGBLOCKS" by (simp add: pieces_def)
  have o: "unat (4 :: u32) \<le> unat (i_size (ino (content_sample T_FILE 5) 0))" "unat (4 :: u32) + length ?d \<le> MAXFILE * BSIZE" by simp_all
  note base = writei_readi [where off = 4 and data = ?d, OF content_sample_file w o r]
  obtain m t where t: "writei 0 (FromLocal ?d) 4 (of_nat (length ?d)) (content_sample T_FILE 5) = Done (int m) t" "m \<le> length ?d"
    "file_data t (ino t 0) = take (unat (4 :: u32)) (file_data (content_sample T_FILE 5) (ino (content_sample T_FILE 5) 0)) @ take m ?d @
       drop (unat (4 :: u32) + m) (file_data (content_sample T_FILE 5) (ino (content_sample T_FILE 5) 0))"
    and rd: "\<And>o' n r. unat o' + unat n < 2 ^ 32 \<Longrightarrow> r = take (unat n) (drop (unat o') (file_data t (ino t 0))) \<Longrightarrow>
       \<exists>u. readi 0 ToLocal o' n t = Done (int (length r), r) u"
    using base by blast
  have five: "file_data (content_sample T_FILE 5) (ino (content_sample T_FILE 5) 0) = [0, 0, 0, 0, 0]"
  proof -
    have "replicate (unat (5 :: u32)) 0 = [0, 0, 0, 0, 0 :: u8]" by code_simp
    then show ?thesis using content_sample_data(2) [of 5 T_FILE] by simp
  qed
  have fd: "file_data t (ino t 0) = [0, 0, 0, 0] @ take m ?d @ drop m [0]"
    using t(3) unfolding five by (cases m) simp_all
  obtain u where "readi 0 ToLocal 3 9 t = Done (int (length (0 # take m [104, 105] @ drop m [0])), 0 # take m [104, 105] @ drop m [0]) u"
    using rd [of 3 9 "0 # take m [104, 105] @ drop m [0]"] t(2) fd by auto
  moreover have "m = 0 \<or> m = 1 \<or> m = 2" using t(2) by auto
  ultimately show ?thesis using t(1) by auto
qed

end
