(* ===== verification/Dirents.thy ===== *)
theory Dirents
  imports Content Dir
begin

section \<open>Directories as maps from names to inode numbers\<close>

text \<open>
  A directory is a file of 16-byte entries. Its meaning is a map from names (up to 14 bytes, without NUL)
  to inode numbers: the number in the first entry with that name that is not 0. \<open>dirlookup\<close> evaluates the
  map and \<open>dirlink\<close> updates it at one name. The laws rest on the file laws of theory \<open>Content\<close>.
\<close>

subsection \<open>Names\<close>

lemma strncmp_list_eq:
  "strncmp_list n p q = 0 \<longleftrightarrow> takeWhile (\<lambda>c. c \<noteq> 0) (take n p) = takeWhile (\<lambda>c. c \<noteq> 0) (take n q)"
proof (induction n arbitrary: p q)
  case (Suc n)
  have b: "takeWhile (\<lambda>c. c \<noteq> 0) (take (Suc n) p) =
      (if byte0 p = 0 then [] else byte0 p # takeWhile (\<lambda>c. c \<noteq> 0) (take n (tl p)))" for p
    by (cases p) (simp_all add: byte0_def)
  have u: "uint (byte0 p) - uint (byte0 q) = 0 \<longleftrightarrow> byte0 p = byte0 q" by (simp add: word_uint_eq_iff)
  show ?case unfolding b strncmp_list.simps using Suc.IH [of "tl p" "tl q"] u by auto
qed simp

lemma namecmp_eq: "namecmp p q = 0 \<longleftrightarrow> name_of p = name_of q"
  by (simp add: namecmp_def name_of_def strncmp_list_eq)

lemma length_strncpy_list [simp]: "length (strncpy_list n p) = n"
  by (induction n arbitrary: p) simp_all

lemma takeWhile_strncpy: "takeWhile (\<lambda>c. c \<noteq> 0) (strncpy_list n p) = takeWhile (\<lambda>c. c \<noteq> 0) (take n p)"
proof (induction n arbitrary: p)
  case (Suc n)
  then show ?case by (cases p) (simp_all add: byte0_def)
qed simp

lemma name_of_dirent: "name_of (de_name (dirent v n)) = name_of n"
  by (simp add: dirent_def de_name_def name_of_def takeWhile_strncpy)

lemma de_inum_dirent [simp]: "de_inum (dirent v n) = v"
  by (simp add: dirent_def de_inum_def of_le_le_bytes)

lemma length_dirent [simp]: "length (dirent v n) = 16"
  by (simp add: dirent_def)

subsection \<open>Entries\<close>

definition dents :: "u8 list \<Rightarrow> u8 list list" where
  "dents d = map (\<lambda>k. take 16 (drop (16 * k) d)) [0..<length d div 16]"

lemma length_dents [simp]: "length (dents d) = length d div 16"
  by (simp add: dents_def)

lemma dents_nth: "k < length d div 16 \<Longrightarrow> dents d ! k = take 16 (drop (16 * k) d)"
  by (simp add: dents_def)

lemma dents_write:
  assumes d: "length d = 16 * n" and e: "length e = 16" and k: "k \<le> n"
  shows "dents (take (16 * k) d @ e @ drop (16 * k + 16) d) = (if k < n then (dents d)[k := e] else dents d @ [e])"
proof (rule nth_equalityI)
  let ?w = "take (16 * k) d @ e @ drop (16 * k + 16) d"
  have l: "length ?w = 16 * (if k < n then n else n + 1)" using d e k by auto
  then show "length (dents ?w) = length (if k < n then (dents d)[k := e] else dents d @ [e])" using d by simp
  fix j assume "j < length (dents ?w)"
  then have j: "j < (if k < n then n else n + 1)" using l by simp
  then have w: "dents ?w ! j = take 16 (drop (16 * j) ?w)" using l by (simp add: dents_nth)
  consider "j < k" | "j = k" | "k < j" by linarith
  then show "dents ?w ! j = (if k < n then (dents d)[k := e] else dents d @ [e]) ! j"
  proof cases
    case 1
    then have "take 16 (drop (16 * j) ?w) = take 16 (drop (16 * j) d)" using d k by (simp add: drop_take)
    then show ?thesis using 1 k d w by (simp add: dents_nth nth_append)
  next
    case 2
    then have "take 16 (drop (16 * j) ?w) = e" using d k e by simp
    then show ?thesis using 2 k d w by (simp add: nth_append)
  next
    case 3
    then have "drop (16 * j) ?w = drop (16 * j) d" using d k e by simp
    then show ?thesis using 3 j d w by (simp add: dents_nth split: if_splits)
  qed
qed

definition named :: "u8 list \<Rightarrow> u8 list \<Rightarrow> bool" where
  "named n e \<longleftrightarrow> de_inum e \<noteq> 0 \<and> name_of (de_name e) = n"

definition dir_map :: "u8 list list \<Rightarrow> u8 list \<rightharpoonup> u16" where
  "dir_map es n = map_option de_inum (find (named n) es)"

text \<open>An entry is put into a free place, or at the end, and its name was not bound.\<close>

lemma find_index:
  "find P es = map_option (\<lambda>k. es ! k) (find (\<lambda>k. P (es ! k)) [0..<length es])"
proof -
  have "find P (map ((!) es) ks) = map_option ((!) es) (find (\<lambda>k. P (es ! k)) ks)" for ks
    by (induction ks) simp_all
  from this [of "[0..<length es]"] show ?thesis by (simp add: map_nth)
qed

lemma find_append: "find P (xs @ ys) = (case find P xs of None \<Rightarrow> find P ys | Some x \<Rightarrow> Some x)"
  by (induction xs) simp_all

lemma find_update_free:
  assumes "k < length es" and "\<not> P (es ! k)"
  shows "\<not> P e \<Longrightarrow> find P (es[k := e]) = find P es" and "P e \<Longrightarrow> find P es = None \<Longrightarrow> find P (es[k := e]) = Some e"
  using assms by (induction es arbitrary: k) (auto split: nat.splits if_splits)

lemma dir_map_put:
  assumes "dir_map es n = None" and e: "de_inum e = v" "v \<noteq> 0" "name_of (de_name e) = n" and k: "k < length es \<longrightarrow> de_inum (es ! k) = 0"
  shows "dir_map (if k < length es then es[k := e] else es @ [e]) = (dir_map es)(n \<mapsto> v)"
proof
  fix m
  have n: "find (named n) es = None" using assms(1) by (simp add: dir_map_def)
  have ne: "named m e \<longleftrightarrow> m = n" using e by (auto simp: named_def)
  have f: "\<not> named m (es ! k)" if "k < length es" using k that by (simp add: named_def)
  show "dir_map (if k < length es then es[k := e] else es @ [e]) m = ((dir_map es)(n \<mapsto> v)) m"
    using find_update_free [of k es "named m" e] f ne n e(1) by (auto simp: dir_map_def find_append split: option.split)
qed

subsection \<open>The loops over a directory\<close>

definition dir_state :: "nat \<Rightarrow> u32 list \<Rightarrow> nat \<Rightarrow> 'z fsst_scheme \<Rightarrow> bool" where
  "dir_state p bs dp s \<longleftrightarrow> file_state p bs Map.empty dp s \<and> whole s (ino s dp) \<and> i_type (ino s dp) = T_DIR \<and>
     16 dvd unat (i_size (ino s dp))"

abbreviation dir_dents :: "nat \<Rightarrow> 'z fsst_scheme \<Rightarrow> u8 list list" where
  "dir_dents dp s \<equiv> dents (file_data s (ino s dp))"

lemma file_data_cong: "blk t = blk s \<Longrightarrow> file_data t x = file_data s x"
  using slot_cong [of t s] by (simp add: file_data_def file_byte_def Let_def cong: map_cong)

definition unchanged :: "nat \<Rightarrow> u32 list \<Rightarrow> 'z fsst_scheme \<Rightarrow> 'z fsst_scheme \<Rightarrow> bool" where
  "unchanged p bs s t \<longleftrightarrow> txn p bs Map.empty t \<and> blk t = blk s \<and> same_fs s t"

lemma unchangedD:
  assumes "unchanged p bs s t"
  shows "ino t i = ino s i" "file_data t x = file_data s x" "whole t x = whole s x"
    "file_state p bs Map.empty i s \<Longrightarrow> file_state p bs Map.empty i t" "dir_state p bs i s \<Longrightarrow> dir_state p bs i t"
proof -
  have t: "txn p bs Map.empty t" "blk t = blk s" "same_fs s t" using assms by (simp_all add: unchanged_def)
  show i: "ino t i = ino s i" using same_fs_simps(6) [OF t(3)] by simp
  show "file_data t x = file_data s x" by (rule file_data_cong [OF t(2)])
  show w: "whole t x = whole s x" for x using slot_cong [OF t(2)] by (simp add: whole_def)
  show f: "file_state p bs Map.empty i s \<Longrightarrow> file_state p bs Map.empty i t" by (rule file_state_same [OF _ t(2,3,1)])
  show "dir_state p bs i s \<Longrightarrow> dir_state p bs i t" using f i w by (simp add: dir_state_def)
qed

lemma unchanged_trans: "unchanged p bs s t \<Longrightarrow> unchanged p bs t u \<Longrightarrow> unchanged p bs s u"
  by (auto simp: unchanged_def intro: same_fs_trans)

lemma unchanged_only_file:
  assumes "unchanged p bs s t"
  shows "only_file i t u = only_file i s u"
proof -
  have t: "blk t = blk s" "same_fs s t" using assms by (simp_all add: unchanged_def)
  note n = same_dev_blocks [OF same_fs_dev [OF t(2)]]
  have "foreign i t b = foreign i s b" for b
    using slot_cong [OF t(1)] free_bit_cong [OF t] same_fs_simps(6) [OF t(2)] n(1,5) by (simp add: foreign_def)
  then show ?thesis using t(1) same_fs_simps(6) [OF t(2)] n(3) by (simp add: only_file_def)
qed

lemma dir_size:
  assumes "dir_state p bs dp s"
  shows "length (file_data s (ino s dp)) = 16 * length (dir_dents dp s)" "length (dir_dents dp s) \<le> 17152"
    "dir_slots dp s = [0..<length (dir_dents dp s)]"
proof -
  let ?z = "unat (i_size (ino s dp))"
  have z: "16 dvd ?z" "?z \<le> MAXFILE * BSIZE" using assms by (simp_all add: dir_state_def whole_def)
  then obtain n where n: "?z = 16 * n" by blast
  then show "length (file_data s (ino s dp)) = 16 * length (dir_dents dp s)" by simp
  show "length (dir_dents dp s) \<le> 17152" using n z(2) by simp
  have "(?z + 15) div 16 = n" unfolding n by simp
  then show "dir_slots dp s = [0..<length (dir_dents dp s)]" using n by (simp add: dir_slots_def)
qed

lemma readi_dirent:
  assumes d: "dir_state p bs dp s" and len: "length bs < LOGBLOCKS" and k: "k < length (dir_dents dp s)"
  shows "\<exists>t. readi dp ToLocal (of_nat (16 * k)) 16 s = Done (16, dir_dents dp s ! k) t \<and> unchanged p bs s t"
proof -
  have f: "file_state p bs Map.empty dp s" "whole s (ino s dp)" using d by (simp_all add: dir_state_def)
  note z = dir_size [OF d]
  have o: "unat (of_nat (16 * k) :: u32) = 16 * k" using k z(2) by (simp add: unat_of_nat del: of_nat_mult)
  have de: "dir_dents dp s ! k = take 16 (drop (16 * k) (file_data s (ino s dp)))"
    using k by (simp add: dents_nth)
  have l: "length (take 16 (drop (16 * k) (file_data s (ino s dp)))) = 16" using k z(1) by simp
  have b: "unat (of_nat (16 * k) :: u32) + unat (16 :: u32) < 2 ^ 32" using o k z(2) by simp
  show ?thesis
    using readi_effect [OF f(1) len f(2) b] l unfolding o de unchanged_def by auto
qed

lemma dir_scan:
  fixes P :: "u8 list \<Rightarrow> bool"
  assumes d: "dir_state p bs dp s" and len: "length bs < LOGBLOCKS" and ks: "set ks \<subseteq> {..<length (dir_dents dp s)}"
    and step: "\<And>k de u. h k de u = (if P de then bnd (g k de u) (\<lambda>v s. Done (Some v) s) else Done None u)"
  shows "\<exists>t. unchanged p bs s t \<and>
    loop_until (\<lambda>k s. bnd (readi dp ToLocal (of_nat (16 * k)) 16 s) (\<lambda>(r, de) s. if r \<noteq> 16 then Panic msg else h k de s)) ks s =
    (case find (\<lambda>k. P (dir_dents dp s ! k)) ks of None \<Rightarrow> Done None t
     | Some k \<Rightarrow> bnd (g k (dir_dents dp s ! k) t) (\<lambda>v s. Done (Some v) s))"
  using d ks
proof (induction ks arbitrary: s)
  case Nil
  then show ?case using file_stateD(1) by (auto simp: unchanged_def dir_state_def intro!: exI [of _ s])
next
  case (Cons k ks)
  note d = Cons.prems(1)
  have "k < length (dir_dents dp s)" using Cons.prems(2) by simp
  then obtain t where t: "readi dp ToLocal (of_nat (16 * k)) 16 s = Done (16, dir_dents dp s ! k) t" "unchanged p bs s t"
    using readi_dirent [OF d len] by blast
  show ?case
  proof (cases "P (dir_dents dp s ! k)")
    case True
    then show ?thesis using t by (intro exI [of _ t]) (simp add: step bnd_assoc del: of_nat_mult)
  next
    case False
    note c = unchangedD [OF t(2)]
    have "set ks \<subseteq> {..<length (dir_dents dp t)}" using Cons.prems(2) c(1,2) by simp
    from Cons.IH [OF c(5) [OF d] this] obtain u where "unchanged p bs t u"
      "loop_until (\<lambda>k s. bnd (readi dp ToLocal (of_nat (16 * k)) 16 s) (\<lambda>(r, de) s. if r \<noteq> 16 then Panic msg else h k de s)) ks t =
        (case find (\<lambda>k. P (dir_dents dp s ! k)) ks of None \<Rightarrow> Done None u
         | Some k \<Rightarrow> bnd (g k (dir_dents dp s ! k) u) (\<lambda>v s. Done (Some v) s))"
      unfolding c(1,2) by blast
    then show ?thesis using t False unchanged_trans [OF t(2)]
      by (intro exI [of _ u]) (simp add: step del: of_nat_mult)
  qed
qed

lemma dirlookup_law:
  assumes d: "dir_state p bs dp s" and len: "length bs < LOGBLOCKS"
  shows "\<exists>t. unchanged p bs s t \<and> dirlookup dp name s =
    (case find (\<lambda>k. named (name_of name) (dir_dents dp s ! k)) [0..<length (dir_dents dp s)] of
       None \<Rightarrow> Done None t
     | Some k \<Rightarrow> bnd (iget (i_dev (ino t dp)) (ucast (de_inum (dir_dents dp s ! k))) t) (\<lambda>i s. Done (Some (i, of_nat (16 * k))) s))"
proof -
  define h where "h = (\<lambda>k de (s :: 'a fsst_scheme). if de_inum de = 0 then Done None s
    else if namecmp name (de_name de) = 0
    then bnd (iget (i_dev (ino s dp)) (ucast (de_inum de)) s) (\<lambda>i s. Done (Some (i, of_nat (16 * k) :: u32)) s)
    else Done None s)"
  define g where "g = (\<lambda>k de (s :: 'a fsst_scheme).
    bnd (iget (i_dev (ino s dp)) (ucast (de_inum de)) s) (\<lambda>i s. Done (i, of_nat (16 * k) :: u32) s))"
  have step: "h k de u = (if named (name_of name) de then bnd (g k de u) (\<lambda>v s. Done (Some v) s) else Done None u)" for k de u
    by (auto simp: h_def g_def named_def namecmp_eq bnd_assoc)
  have "i_type (ino s dp) = T_DIR" using d by (simp add: dir_state_def)
  then have run: "dirlookup dp name s = loop_until (\<lambda>k s. bnd (readi dp ToLocal (of_nat (16 * k)) 16 s) (\<lambda>(r, de) s.
      if r \<noteq> 16 then Panic ''dirlookup read'' else h k de s)) [0..<length (dir_dents dp s)] s"
    unfolding dirlookup_def dir_size(3) [OF d] h_def Let_def by simp
  have "set [0..<length (dir_dents dp s)] \<subseteq> {..<length (dir_dents dp s)}" by auto
  from dir_scan [OF d len this step, of "''dirlookup read''"] show ?thesis
    unfolding run by (simp add: g_def bnd_assoc cong: option.case_cong)
qed

lemma free_slot_law:
  assumes d: "dir_state p bs dp s" and len: "length bs < LOGBLOCKS"
  defines "es \<equiv> dir_dents dp s"
  shows "\<exists>k t. unchanged p bs s t \<and> k \<le> length es \<and> (k < length es \<longrightarrow> de_inum (es ! k) = 0) \<and>
    (\<exists>r. loop_until (\<lambda>k s. let off = of_nat (16 * k) :: u32 in
        bnd (readi dp ToLocal off 16 s) (\<lambda>(r, de) s.
          if r \<noteq> 16 then Panic ''dirlink read''
          else if de_inum de = 0 then Done (Some off) s else Done None s)) (dir_slots dp s) s = Done r t \<and>
      (case r of Some off \<Rightarrow> off | None \<Rightarrow> of_nat (16 * length (dir_slots dp t))) = of_nat (16 * k))"
proof -
  let ?ks = "[0..<length es]" and ?P = "\<lambda>de. de_inum de = 0"
  define h where "h = (\<lambda>k de (s :: 'a fsst_scheme). if de_inum de = 0 then Done (Some (of_nat (16 * k) :: u32)) s else Done None s)"
  define g where "g = (\<lambda>k (de :: u8 list) (s :: 'a fsst_scheme). Done (of_nat (16 * k) :: u32) s)"
  have step: "h k de u = (if ?P de then bnd (g k de u) (\<lambda>v s. Done (Some v) s) else Done None u)" for k de u
    by (simp add: h_def g_def)
  have "set ?ks \<subseteq> {..<length (dir_dents dp s)}" by (auto simp: es_def)
  from dir_scan [where P = ?P and h = h and g = g, OF d len this step, of "''dirlink read''"] obtain t where t: "unchanged p bs s t"
    "loop_until (\<lambda>k s. bnd (readi dp ToLocal (of_nat (16 * k)) 16 s) (\<lambda>(r, de) s.
        if r \<noteq> 16 then Panic ''dirlink read'' else if de_inum de = 0 then Done (Some (of_nat (16 * k))) s else Done None s)) ?ks s =
      (case find (\<lambda>k. ?P (es ! k)) ?ks of None \<Rightarrow> Done None t | Some k \<Rightarrow> Done (Some (of_nat (16 * k) :: u32)) t)"
    unfolding h_def g_def bnd.simps es_def [symmetric] by blast
  have n: "length (dir_slots dp t) = length es"
    using dir_size(3) [OF unchangedD(5) [OF t(1) d]] unchangedD(1,2) [OF t(1)] by (simp add: es_def)
  show ?thesis
  proof (cases "find (\<lambda>k. ?P (es ! k)) ?ks")
    case None
    then show ?thesis
      unfolding Let_def dir_size(3) [OF d, folded es_def]
      using t n by (intro exI [of _ "length es"] exI [of _ t]) (simp del: of_nat_mult length_dents)
  next
    case (Some k)
    then have "k < length es" "de_inum (es ! k) = 0" by (auto simp: find_Some_iff)
    then show ?thesis
      unfolding Let_def dir_size(3) [OF d, folded es_def]
      using t Some by (intro exI [of _ k] exI [of _ t]) (simp del: of_nat_mult length_dents)
  qed
qed

text \<open>A write of 16 bytes at a multiple of 16 is all or nothing.\<close>

lemma whole_entry: "m \<le> 16 \<Longrightarrow> (16 * k + m) mod BSIZE = 0 \<Longrightarrow> m = 0 \<or> m = (16 :: nat)"
proof -
  assume m: "m \<le> 16" "(16 * k + m) mod BSIZE = 0"
  then have "16 dvd 16 * k + m" using dvd_trans [of 16 BSIZE "16 * k + m"] by (simp add: mod_eq_0_iff_dvd)
  then have "16 dvd m" by (simp add: dvd_add_right_iff)
  then show ?thesis using m(1) by (auto elim!: dvdE)
qed

lemma pieces_entry: "pieces (16 * k) 16 = 1"
proof -
  define q where "q = k mod 64"
  have q: "16 * k mod BSIZE = 16 * q" using mult_mod_right [of 16 k 64] by (simp add: q_def)
  have "q < 64" by (simp add: q_def)
  then have "(16 * q + 16 + (BSIZE - 1)) div BSIZE = 1" by (intro div_nat_eqI) simp_all
  then show ?thesis unfolding pieces_def q by simp
qed

lemma dirlink_law:
  assumes d: "dir_state p bs dp s" and len: "length bs + 7 < LOGBLOCKS" and room: "unat (i_size (ino s dp)) + 16 \<le> MAXFILE * BSIZE"
    and new: "dir_map (dir_dents dp s) (name_of name) = None" and v: "(ucast inum :: u16) \<noteq> 0"
  shows "\<exists>r t bs'. dirlink dp name inum s = Done r t \<and> dir_state p bs' dp t \<and> length bs' \<le> length bs + 7 \<and> stored t (ino t dp) \<and>
    only_file dp s t \<and>
    (r = 0 \<and> dir_map (dir_dents dp t) = (dir_map (dir_dents dp s))(name_of name \<mapsto> ucast inum) \<or>
     r = -1 \<and> dir_dents dp t = dir_dents dp s \<and> (\<forall>c < nblocks t. \<not> free_bit t c))"
proof -
  have l: "length bs < LOGBLOCKS" using len by simp
  let ?es = "dir_dents dp s" and ?e = "dirent (ucast inum) name"
  have "find (\<lambda>k. named (name_of name) (?es ! k)) [0..<length ?es] = None"
    using new unfolding dir_map_def find_index [of _ ?es] by simp
  then obtain u where u: "dirlookup dp name s = Done None u" "unchanged p bs s u"
    using dirlookup_law [OF d l, of name] by auto
  note c = unchangedD [OF u(2)]
  obtain k w r where k: "k \<le> length ?es" "k < length ?es \<longrightarrow> de_inum (?es ! k) = 0" and w: "unchanged p bs u w"
    and scan: "loop_until (\<lambda>k s. let off = of_nat (16 * k) :: u32 in
        bnd (readi dp ToLocal off 16 s) (\<lambda>(r, de) s.
          if r \<noteq> 16 then Panic ''dirlink read''
          else if de_inum de = 0 then Done (Some off) s else Done None s)) (dir_slots dp u) u = Done r w"
      "(case r of Some off \<Rightarrow> off | None \<Rightarrow> of_nat (16 * length (dir_slots dp w))) = of_nat (16 * k)"
    using free_slot_law [OF c(5) [OF d] l] unfolding c(1,2) by blast
  have sw: "unchanged p bs s w" by (rule unchanged_trans [OF u(2) w])
  note e = unchangedD [OF sw]
  have dw: "dir_state p bs dp w" by (rule e(5) [OF d])
  then have f: "file_state p bs Map.empty dp w" "whole w (ino w dp)" by (simp_all add: dir_state_def)
  have z: "unat (i_size (ino s dp)) = 16 * length ?es" "length ?es \<le> 17152" using dir_size [OF d] by simp_all
  have o: "unat (of_nat (16 * k) :: u32) = 16 * k" using k(1) z(2) by (simp add: unat_of_nat del: of_nat_mult)
  have "pieces (16 * k) 16 = 1" by (rule pieces_entry)
  then have p: "pieces (unat (of_nat (16 * k) :: u32)) (length ?e) = 1" unfolding o by simp
  have h1: "unat (of_nat (16 * k) :: u32) \<le> unat (i_size (ino w dp))" unfolding o e(1) z(1) by (rule mult_le_mono2 [OF k(1)])
  have h2: "unat (of_nat (16 * k) :: u32) + length ?e \<le> MAXFILE * BSIZE" unfolding o length_dirent using k(1) z(1) room by linarith
  have h3: "length bs + 6 * pieces (unat (of_nat (16 * k) :: u32)) (length ?e) < LOGBLOCKS" unfolding p using len by simp
  from writei_effect [OF f h1 h2 h3, unfolded p, unfolded o] obtain m t bs' where
    t: "writei dp (FromLocal ?e) (of_nat (16 * k)) (of_nat (length ?e)) w = Done (int m) t" "m \<le> length ?e"
      "m < length ?e \<longrightarrow> (m = 0 \<or> (16 * k + m) mod BSIZE = 0) \<and> (\<forall>c < nblocks t. \<not> free_bit t c)"
      "file_data t (ino t dp) = take (16 * k) (file_data w (ino w dp)) @ take m ?e @ drop (16 * k + m) (file_data w (ino w dp))"
      "file_state p bs' Map.empty dp t" "length bs' \<le> length bs + 6 * 1 + 1" "whole t (ino t dp)" "stored t (ino t dp)" "only_file dp w t"
    by (elim exE conjE) (rule that)
  have run: "dirlink dp name inum s = Done (if int m \<noteq> 16 then -1 else 0) t"
    using u(1) scan t(1) by (simp add: dirlink_def Let_def del: of_nat_mult)
  have m: "m = 0 \<or> m = 16" using whole_entry [of m k] t(2,3) by (cases "m < length ?e") auto
  have ty: "dir_state p bs' dp t"
  proof -
    have "length (file_data t (ino t dp)) = (if m = 0 then 16 * length ?es else 16 * max (length ?es) (k + 1))"
      unfolding t(4) e(1,2) using m k(1) dir_size(1) [OF d] by (auto simp: max_def simp del: length_dents length_file_data)
    then have "16 dvd unat (i_size (ino t dp))" by (metis dvd_triv_left length_file_data)
    moreover have "i_type (ino t dp) = T_DIR" using t(9) dw by (auto simp: only_file_def dir_state_def)
    ultimately show ?thesis using t(5,7) by (simp add: dir_state_def)
  qed
  have od: "only_file dp s t" using t(9) unfolding unchanged_only_file [OF sw] .
  from m show ?thesis
  proof
    assume m0: "m = 0"
    have "file_data t (ino t dp) = file_data s (ino s dp)" using t(4) m0 e(1,2) by simp
    then show ?thesis using run m0 ty od t(3,6,8) by auto
  next
    assume m16: "m = 16"
    have "file_data t (ino t dp) = take (16 * k) (file_data s (ino s dp)) @ ?e @ drop (16 * k + 16) (file_data s (ino s dp))"
      using t(4) m16 e(1,2) by simp
    then have "dir_dents dp t = (if k < length ?es then ?es[k := ?e] else ?es @ [?e])"
      using dents_write [OF dir_size(1) [OF d] length_dirent k(1)] by simp
    moreover have "dir_map (if k < length ?es then ?es[k := ?e] else ?es @ [?e]) = (dir_map ?es)(name_of name \<mapsto> ucast inum)"
      by (rule dir_map_put [OF new de_inum_dirent v name_of_dirent k(2)])
    ultimately show ?thesis using run m16 ty od t(6,8) by auto
  qed
qed

text \<open>\<open>finds\<close>: from state \<open>t\<close> on, the lookup of \<open>name\<close> ends as the map \<open>f\<close> says: without an entry, or it gets the inode of the number.\<close>

definition finds :: "nat \<Rightarrow> 'z fsst_scheme \<Rightarrow> (u8 list \<rightharpoonup> u16) \<Rightarrow> u8 list \<Rightarrow> 'z fsst_scheme \<Rightarrow> bool" where
  "finds dp s f name t \<longleftrightarrow> (case f (name_of name) of
     None \<Rightarrow> dirlookup dp name s = Done None t
   | Some v \<Rightarrow> \<exists>k. dirlookup dp name s = bnd (iget ROOTDEV (ucast v) t) (\<lambda>i s. Done (Some (i, of_nat (16 * k))) s) \<and>
       k < length (dir_dents dp s) \<and> named (name_of name) (dir_dents dp s ! k))"

lemma dirlookup_finds:
  assumes d: "dir_state p bs dp s" and len: "length bs < LOGBLOCKS"
  shows "\<exists>t. unchanged p bs s t \<and> finds dp s (dir_map (dir_dents dp s)) name t"
proof -
  let ?es = "dir_dents dp s"
  obtain t where t: "unchanged p bs s t" "dirlookup dp name s =
    (case find (\<lambda>k. named (name_of name) (?es ! k)) [0..<length ?es] of
       None \<Rightarrow> Done None t
     | Some k \<Rightarrow> bnd (iget (i_dev (ino t dp)) (ucast (de_inum (?es ! k))) t) (\<lambda>i s. Done (Some (i, of_nat (16 * k))) s))"
    using dirlookup_law [OF d len, of name] by blast
  have "i_dev (ino t dp) = ROOTDEV"
    using file_stateD(5) [of p bs Map.empty dp t] unchangedD(5) [OF t(1) d] by (simp add: dir_state_def)
  note run = t(2) [unfolded this]
  have m: "dir_map ?es (name_of name) =
      map_option (\<lambda>k. de_inum (?es ! k)) (find (\<lambda>k. named (name_of name) (?es ! k)) [0..<length ?es])"
    unfolding dir_map_def find_index [of _ ?es] by (simp add: option.map_comp comp_def)
  have "finds dp s (dir_map ?es) name t"
  proof (cases "find (\<lambda>k. named (name_of name) (?es ! k)) [0..<length ?es]")
    case None
    then show ?thesis using run m by (simp add: finds_def)
  next
    case (Some k)
    then have "k < length ?es" "named (name_of name) (?es ! k)" by (auto simp: find_Some_iff)
    then show ?thesis using Some run m unfolding finds_def by (auto simp del: of_nat_mult)
  qed
  then show ?thesis using t(1) by blast
qed

subsection \<open>What the directory operations promise\<close>

definition answers :: "nat \<Rightarrow> 'z fsst_scheme \<Rightarrow> (u8 list \<rightharpoonup> u16) \<Rightarrow> u8 list \<Rightarrow> bool" where
  "answers dp s f name \<longleftrightarrow> (\<exists>t. blk t = blk s \<and> same_fs s t \<and> finds dp s f name t)"

lemma dirlookup_answers:
  assumes "dir_state p bs dp s" and "length bs < LOGBLOCKS"
  shows "answers dp s (dir_map (dir_dents dp s)) name"
  using dirlookup_finds [OF assms, of name] by (auto simp: answers_def unchanged_def)

text \<open>
  C7: a directory is a map from names to inode numbers. Inside a transaction \<open>dirlink\<close> of a name that is
  not in the directory, with a number that is not 0 modulo 2^16, returns 0 and updates the map the entries
  stand for at this name only, so that every later \<open>dirlookup\<close> answers from the updated map: it gets the
  inode of the number for a name in it, names compared up to 14 bytes, and otherwise finds nothing. Only if no
  block of the disk is free may \<open>dirlink\<close> return -1, and then the map is what it was. The directory stays
  well-formed, its inode on disk up to date, and other files are unchanged.
\<close>
theorem dirlink_binds:
  assumes d: "dir_state p bs dp s" and len: "length bs + 7 < LOGBLOCKS" and room: "unat (i_size (ino s dp)) + 16 \<le> MAXFILE * BSIZE"
    and new: "dir_map (dir_dents dp s) (name_of name) = None" and v: "(ucast inum :: u16) \<noteq> 0"
  shows "answers dp s (dir_map (dir_dents dp s)) other \<and>
    (\<exists>r t f bs'. dirlink dp name inum s = Done r t \<and>
      (r = 0 \<and> f = (dir_map (dir_dents dp s))(name_of name \<mapsto> ucast inum) \<or>
       r = -1 \<and> f = dir_map (dir_dents dp s) \<and> (\<forall>c < nblocks t. \<not> free_bit t c)) \<and>
      dir_map (dir_dents dp t) = f \<and> answers dp t f other \<and> dir_state p bs' dp t \<and> stored t (ino t dp) \<and> only_file dp s t)"
proof -
  obtain r t bs' where t: "dirlink dp name inum s = Done r t" "dir_state p bs' dp t" "length bs' \<le> length bs + 7"
      "stored t (ino t dp)" "only_file dp s t"
    and r: "r = 0 \<and> dir_map (dir_dents dp t) = (dir_map (dir_dents dp s))(name_of name \<mapsto> ucast inum) \<or>
     r = -1 \<and> dir_dents dp t = dir_dents dp s \<and> (\<forall>c < nblocks t. \<not> free_bit t c)"
    using dirlink_law [OF assms] by blast
  have "answers dp t (dir_map (dir_dents dp t)) other" by (rule dirlookup_answers [OF t(2)]) (use t(3) len in simp)
  moreover have "answers dp s (dir_map (dir_dents dp s)) other" by (rule dirlookup_answers [OF d]) (use len in simp)
  ultimately show ?thesis
    using t(1,2,4,5) r by (intro conjI exI [of _ r] exI [of _ t] exI [of _ "dir_map (dir_dents dp t)"] exI [of _ bs']) auto
qed

text \<open>A directory of two free entries: "hi" is linked and looked up.\<close>

lemma dirlink_binds_witness:
  "\<exists>r t u. dirlink 0 [104, 105] 5 (content_sample T_DIR 32) = Done r t \<and> dirlookup 0 [104] t = Done None u \<and>
    (r = -1 \<or> dir_map (dir_dents 0 t) [104, 105] = Some 5)"
proof -
  let ?s = "content_sample T_DIR 32"
  have s: "dir_state 0 [] 0 ?s"
    using content_sample_file [of T_DIR 32] content_sample_data(1) [of 32 T_DIR] by (simp add: dir_state_def)
  have e: "dir_dents 0 ?s = [replicate 16 0, replicate 16 0]"
  proof -
    have "dents (replicate (unat (32 :: u32)) 0) = [replicate 16 0, replicate 16 0]" by code_simp
    then show ?thesis using content_sample_data(2) [of 32 T_DIR] by simp
  qed
  have "de_inum (replicate 16 0) = 0" by code_simp
  then have m: "dir_map (dir_dents 0 ?s) n = None" for n
    unfolding e by (simp add: dir_map_def named_def)
  have n: "name_of [104, 105] = [104, 105]" "name_of [104] = [104]" by (simp_all add: name_of_def)
  have "unat (i_size (ino ?s 0)) + 16 \<le> MAXFILE * BSIZE" by simp
  from dirlink_binds [OF s _ this m, of 5 "[104]" "[104, 105]"] obtain r t f where
    t: "dirlink 0 [104, 105] 5 ?s = Done r t" "answers 0 t f [104]" "dir_map (dir_dents 0 t) = f"
    and r: "r = 0 \<and> f = (dir_map (dir_dents 0 ?s))(name_of [104, 105] \<mapsto> 5) \<or> r = -1 \<and> f = dir_map (dir_dents 0 ?s)"
    by auto
  have "f [104] = None" using r m n by auto
  then obtain u where "dirlookup 0 [104] t = Done None u" using t(2) unfolding answers_def finds_def n by auto
  moreover have "r = -1 \<or> f [104, 105] = Some 5" using r n by auto
  ultimately show ?thesis using t by blast
qed

end
