(* ===== verification/Itable.thy ===== *)
theory Itable
  imports Dirents
begin

section \<open>The inode table\<close>

text \<open>
  What \<open>iget\<close>, \<open>ilock\<close>, \<open>iunlock\<close> and \<open>iput\<close> of \<open>fs.c\<close> do to the table of inodes in use, for a process that
  works alone in the file system, inside a transaction. \<open>inode_at s n\<close> is the inode \<open>n\<close> as it is on disk.
  An entry in use stands for an inode number; when it is valid it has the fields of the inode on disk
  (\<open>stored\<close>). \<open>fs_calm p bs L s\<close> is the invariant of the table, with the entry \<open>L\<close>, if any, locked.
\<close>

subsection \<open>Inodes on disk\<close>

definition inode_at :: "'z fsst_scheme \<Rightarrow> u32 \<Rightarrow> inode" where
  "inode_at s n = get_dinode (blk s (IBLOCK n s)) (dinode_off n)
     \<lparr>i_dev = ROOTDEV, i_inum = n, i_ref = 0, i_valid = True, i_type = 0, i_major = 0, i_minor = 0, i_nlink = 0,
      i_size = 0, i_addrs = []\<rparr>"

lemma inode_at_inum [simp]: "i_inum (inode_at s n) = n"
  by (simp add: inode_at_def get_dinode_def)

lemma stored_iff:
  "stored s x \<longleftrightarrow> i_type x = i_type (inode_at s (i_inum x)) \<and> i_major x = i_major (inode_at s (i_inum x)) \<and>
     i_minor x = i_minor (inode_at s (i_inum x)) \<and> i_nlink x = i_nlink (inode_at s (i_inum x)) \<and>
     i_size x = i_size (inode_at s (i_inum x)) \<and> i_addrs x = i_addrs (inode_at s (i_inum x))"
  by (cases x) (auto simp: stored_def inode_at_def get_dinode_def)

lemma stored_inode_at:
  assumes "stored s x"
  shows "i_type x = i_type (inode_at s (i_inum x))" "i_nlink x = i_nlink (inode_at s (i_inum x))"
    "i_size x = i_size (inode_at s (i_inum x))" "i_addrs x = i_addrs (inode_at s (i_inum x))"
  using assms by (simp_all add: stored_iff)

lemma stored_ref [simp]: "stored s (x\<lparr>i_ref := r\<rparr>) = stored s x" "stored s (x\<lparr>i_valid := v\<rparr>) = stored s x"
  by (simp_all add: stored_iff)

lemma stored_file:
  assumes "stored s x"
  shows "slot s x = slot s (inode_at s (i_inum x))" "file_data s x = file_data s (inode_at s (i_inum x))"
    "file_ok s x = file_ok s (inode_at s (i_inum x))" "whole s x = whole s (inode_at s (i_inum x))"
proof -
  show sl: "slot s x = slot s (inode_at s (i_inum x))" using stored_inode_at(4) [OF assms] by (simp add: slot_def fun_eq_iff)
  then show "file_data s x = file_data s (inode_at s (i_inum x))"
    using stored_inode_at(3) [OF assms] by (simp add: file_data_def file_byte_def)
  show "file_ok s x = file_ok s (inode_at s (i_inum x))" using sl stored_inode_at(4) [OF assms] by (simp add: file_ok_def)
  show "whole s x = whole s (inode_at s (i_inum x))" using sl stored_inode_at(3) [OF assms] by (simp add: whole_def)
qed

text \<open>An inode in use: its fields are well-formed and it has a link.\<close>

definition good_inode :: "'z fsst_scheme \<Rightarrow> u32 \<Rightarrow> bool" where
  "good_inode s n \<longleftrightarrow> i_type (inode_at s n) \<noteq> 0 \<and> i_nlink (inode_at s n) \<noteq> 0 \<and> ino_place s (IBLOCK n s) \<and>
     file_ok s (inode_at s n) \<and> whole s (inode_at s n) \<and>
     (i_type (inode_at s n) = T_DIR \<longrightarrow> 16 dvd unat (i_size (inode_at s n)))"

definition same_disk :: "'z fsst_scheme \<Rightarrow> 'z fsst_scheme \<Rightarrow> bool" where
  "same_disk s t \<longleftrightarrow> blk t = blk s \<and> sb t = sb s \<and> log_start t = log_start s"

lemma same_disk_refl [simp]: "same_disk s s"
  by (simp add: same_disk_def)

lemma same_disk_trans: "same_disk s t \<Longrightarrow> same_disk t u \<Longrightarrow> same_disk s u"
  by (simp add: same_disk_def)

lemma same_disk_fs: "blk t = blk s \<Longrightarrow> same_fs s t \<Longrightarrow> same_disk s t"
  by (simp add: same_disk_def same_fs_simps)

lemma same_diskD:
  assumes "same_disk s t"
  shows "IBLOCK n t = IBLOCK n s" "inode_at t n = inode_at s n" "slot t x = slot s x" "file_data t x = file_data s x"
    "stored t x = stored s x" "free_bit t c = free_bit s c" "nblocks t = nblocks s" "layout t = layout s"
    "good_inode t n = good_inode s n"
proof -
  have b: "blk t = blk s" and sb: "sb t = sb s" and l: "log_start t = log_start s" using assms by (simp_all add: same_disk_def)
  show ib: "IBLOCK n t = IBLOCK n s" for n using sb by (simp add: IBLOCK_def)
  have bb: "BBLOCK n t = BBLOCK n s" for n using sb by (simp add: BBLOCK_def)
  show ia: "inode_at t n = inode_at s n" for n using b ib by (simp add: inode_at_def)
  show sl: "slot t x = slot s x" for x by (rule slot_cong [OF b])
  show "file_data t x = file_data s x" by (rule file_data_cong [OF b])
  show "stored t x = stored s x" using b ib by (simp add: stored_def)
  show fb: "free_bit t c = free_bit s c" for c using b bb by (simp add: free_bit_def)
  show nb: "nblocks t = nblocks s" using sb by simp
  show "layout t = layout s" using fb sb l bb by (simp add: layout_def)
  show "good_inode t n = good_inode s n"
    using ia ib sl fb nb l bb by (simp add: good_inode_def ino_place_def file_ok_def whole_def data_block_def bitmap_block_def)
qed

subsection \<open>The invariant\<close>

definition entry_ok :: "'z fsst_scheme \<Rightarrow> inode \<Rightarrow> bool" where
  "entry_ok s x \<longleftrightarrow> 0 \<le> i_ref x \<and> (0 < i_ref x \<longrightarrow> i_dev x = ROOTDEV \<and> (i_valid x \<longrightarrow> stored s x))"

definition fs_calm :: "nat \<Rightarrow> u32 list \<Rightarrow> nat option \<Rightarrow> 'z fsst_scheme \<Rightarrow> bool" where
  "fs_calm p bs L s \<longleftrightarrow> txn p bs Map.empty s \<and> length bs < LOGBLOCKS \<and> layout s \<and> 0 < nblocks s \<and> \<not> free_bit s 0 \<and>
     length (itable s) = NINODE \<and> (\<forall>i < NINODE. entry_ok s (ino s i)) \<and>
     (\<forall>i < NINODE. \<forall>j < NINODE. 0 < i_ref (ino s i) \<longrightarrow> 0 < i_ref (ino s j) \<longrightarrow> i_inum (ino s i) = i_inum (ino s j) \<longrightarrow> i = j) \<and>
     (\<forall>i < NINODE. if L = Some i then holds_sleep (InodeLk i) s \<and> i_valid (ino s i) \<and> 0 < i_ref (ino s i)
        else sl_locked (sleeplocks s (InodeLk i)) = 0)"

lemma fs_calmD:
  assumes "fs_calm p bs L s"
  shows "txn p bs Map.empty s" "length bs < LOGBLOCKS" "layout s" "0 < nblocks s" "\<not> free_bit s 0" "length (itable s) = NINODE"
    "\<And>i. i < NINODE \<Longrightarrow> entry_ok s (ino s i)" "calm s p" "held s = []" "cur s = Some p" "p < length (procs s)"
    "\<And>i. i < NINODE \<Longrightarrow> L \<noteq> Some i \<Longrightarrow> sl_locked (sleeplocks s (InodeLk i)) = 0"
    "\<And>i. i < NINODE \<Longrightarrow> L = Some i \<Longrightarrow> holds_sleep (InodeLk i) s \<and> i_valid (ino s i) \<and> 0 < i_ref (ino s i)"
  using assms cacheD(2) [OF txn_cache [of p bs Map.empty s]] by (auto simp: fs_calm_def calm_def split: if_splits)

text \<open>Reads keep it.\<close>

lemma fs_calm_unchanged:
  assumes c: "fs_calm p bs L s" and u: "unchanged p bs s t"
  shows "fs_calm p bs L t"
proof -
  have t: "txn p bs Map.empty t" "blk t = blk s" "same_fs s t" using u by (simp_all add: unchanged_def)
  note d = same_diskD [OF same_disk_fs [OF t(2,3)]]
  have it: "itable t = itable s" by (rule same_fs_simps(6) [OF t(3)])
  have o: "same_owners s t" "cur t = cur s" using t(3) by (simp_all add: same_fs_def)
  obtain st where "the_proc t p = (the_proc s p)\<lparr>p_state := st\<rparr>"
    using o(1) fs_calmD(11) [OF c] unfolding same_owners_def by blast
  then have "p_pid (the_proc t p) = p_pid (the_proc s p)" by simp
  then have h: "holds_sleep (InodeLk i) t = holds_sleep (InodeLk i) s" for i
    using o fs_calmD(10) [OF c] by (simp add: holds_sleep_def same_owners_def)
  have sl: "sleeplocks t (InodeLk i) = sleeplocks s (InodeLk i)" for i using o(1) by (simp add: same_owners_def)
  show ?thesis
    using c t(1) d it h sl unfolding fs_calm_def entry_ok_def by simp
qed

lemma txn_lock [simp]:
  "cache (set_sleeplock (InodeLk i) v q s) p H = cache s p H" "blk (set_sleeplock (InodeLk i) v q s) = blk s"
  "refs (set_sleeplock (InodeLk i) v q s) = refs s" "txn p bs H (set_sleeplock (InodeLk i) v q s) = txn p bs H s"
  "same_disk s (set_sleeplock (InodeLk i) v q s)"
proof -
  show c: "cache (set_sleeplock (InodeLk i) v q s) p H = cache s p H" "blk (set_sleeplock (InodeLk i) v q s) = blk s"
    "refs (set_sleeplock (InodeLk i) v q s) = refs s"
    by (simp_all add: set_sleeplock_def cache_def bio_inv_def caches_def calm_def holds_sleep_def blk_def holder_def
        refs_def fun_eq_iff split: option.split)
  then show "txn p bs H (set_sleeplock (InodeLk i) v q s) = txn p bs H s"
    by (simp add: txn_def) (simp add: set_sleeplock_def log_wf_def)
  show "same_disk s (set_sleeplock (InodeLk i) v q s)" using c by (simp add: same_disk_def set_sleeplock_def)
qed

lemma txn_woken:
  assumes "txn p bs H s"
  shows "txn p bs H (wake_all c s)" "blk (wake_all c s) = blk s"
proof -
  have l: "p < length (procs s)" "calm s p" using cacheD(2) [OF txn_cache [OF assms]] by (simp_all add: calm_def)
  have h: "holds_sleep i (wake_all c s) = holds_sleep i s" for i
    using l by (auto simp: holds_sleep_def wake_all_def woken_def calm_def)
  have c: "caches (wake_all c s) = caches s" by (simp add: caches_def fun_eq_iff)
  then have hd: "holder (wake_all c s) = holder s" by (simp add: holder_def fun_eq_iff)
  then show b: "blk (wake_all c s) = blk s" by (simp add: blk_def fun_eq_iff split: option.split)
  have "bio_inv (wake_all c s) = bio_inv s" using c by (simp add: bio_inv_def)
  moreover have "calm (wake_all c s) p" using l by (simp add: calm_def wake_all_def)
  ultimately have "cache (wake_all c s) p H" using txn_cache [OF assms] h c by (simp add: cache_def)
  moreover have "refs (wake_all c s) = refs s" using hd by (simp add: refs_def fun_eq_iff split: option.split)
  ultimately show "txn p bs H (wake_all c s)" using assms b by (simp add: txn_def log_wf_def wake_all_def)
qed

subsection \<open>The operations\<close>

text \<open>
  \<open>ref_step s t i d\<close>: between \<open>s\<close> and \<open>t\<close> the count of entry \<open>i\<close> changed by \<open>d\<close>, no block changed, and every
  entry in use in both still stands for its inode.
\<close>

definition ref_step :: "'z fsst_scheme \<Rightarrow> 'z fsst_scheme \<Rightarrow> nat \<Rightarrow> int \<Rightarrow> bool" where
  "ref_step s t i d \<longleftrightarrow> same_disk s t \<and>
     (\<forall>j < NINODE. i_ref (ino t j) = i_ref (ino s j) + (if j = i then d else 0)) \<and>
     (\<forall>j < NINODE. 0 < i_ref (ino s j) \<longrightarrow> 0 < i_ref (ino t j) \<longrightarrow> i_inum (ino t j) = i_inum (ino s j))"

lemma ref_step_trans: "ref_step s t i 0 \<Longrightarrow> ref_step t u j d \<Longrightarrow> ref_step s u j d"
  by (auto simp: ref_step_def intro: same_disk_trans)

lemma ref_step_unchanged: "unchanged p bs s t \<Longrightarrow> ref_step s t i 0"
  using same_fs_simps(6) [of s t] same_disk_fs [of t s] by (auto simp: ref_step_def unchanged_def)

text \<open>The table changes at one entry.\<close>

lemma table_change:
  assumes c: "fs_calm p bs L s" and i: "i < NINODE" and t: "t = s\<lparr>itable := (itable s)[i := y]\<rparr>"
    and y: "entry_ok s y" "L = Some i \<longrightarrow> i_valid y \<and> 0 < i_ref y"
    and new: "0 < i_ref y \<Longrightarrow> (0 < i_ref (ino s i) \<and> i_inum y = i_inum (ino s i)) \<or>
      (i_ref (ino s i) = 0 \<and> (\<forall>j < NINODE. 0 < i_ref (ino s j) \<longrightarrow> i_inum (ino s j) \<noteq> i_inum y))"
  shows "fs_calm p bs L t" and "ref_step s t i (i_ref y - i_ref (ino s i))"
proof -
  have len: "length (itable s) = NINODE" by (rule fs_calmD(6) [OF c])
  have it: "ino t j = (if j = i then y else ino s j)" if "j < NINODE" for j using that len by (simp add: t nth_list_update)
  have d: "same_disk s t" by (simp add: t same_disk_def)
  note D = same_diskD [OF d]
  have sl: "sleeplocks t = sleeplocks s" "holds_sleep l t = holds_sleep l s" for l by (simp_all add: t holds_sleep_def)
  have e: "entry_ok t x = entry_ok s x" for x using D(5) by (simp add: entry_ok_def)
  have uniq: "j = k" if "j < NINODE" "k < NINODE" "0 < i_ref (ino t j)" "0 < i_ref (ino t k)" "i_inum (ino t j) = i_inum (ino t k)" for j k
    using that new c i unfolding fs_calm_def by (auto simp: it split: if_splits)
  have a: "\<forall>j < NINODE. entry_ok t (ino t j)" using fs_calmD(7) [OF c] y(1) it e by simp
  have b: "\<forall>j < NINODE. \<forall>k < NINODE. 0 < i_ref (ino t j) \<longrightarrow> 0 < i_ref (ino t k) \<longrightarrow> i_inum (ino t j) = i_inum (ino t k) \<longrightarrow> j = k"
    using uniq by blast
  have l: "\<forall>j < NINODE. if L = Some j then holds_sleep (InodeLk j) t \<and> i_valid (ino t j) \<and> 0 < i_ref (ino t j)
      else sl_locked (sleeplocks t (InodeLk j)) = 0"
    using fs_calmD(12,13) [OF c] y(2) it sl by auto
  have x: "txn p bs Map.empty t" "length (itable t) = NINODE" using fs_calmD(1) [OF c] len by (simp_all add: t)
  have f: "layout t" "0 < nblocks t" "\<not> free_bit t 0" using fs_calmD(3-5) [OF c] D by simp_all
  show "fs_calm p bs L t"
    unfolding fs_calm_def
  proof (intro conjI)
    show "txn p bs Map.empty t" by (rule x(1))
    show "length bs < LOGBLOCKS" by (rule fs_calmD(2) [OF c])
    show "layout t" by (rule f(1))
    show "0 < nblocks t" by (rule f(2))
    show "\<not> free_bit t 0" by (rule f(3))
    show "length (itable t) = NINODE" by (rule x(2))
    show "\<forall>j < NINODE. entry_ok t (ino t j)" by (rule a)
  qed (rule b, rule l)
  have n: "i_inum y = i_inum (ino s i)" if "0 < i_ref (ino s i)" "0 < i_ref y" using new [OF that(2)] that(1) by auto
  have "i_ref (ino t j) = i_ref (ino s j) + (if j = i then i_ref y - i_ref (ino s i) else 0)" if "j < NINODE" for j
    using it [OF that] by simp
  moreover have "i_inum (ino t j) = i_inum (ino s j)" if "j < NINODE" "0 < i_ref (ino s j)" "0 < i_ref (ino t j)" for j
    using it [OF that(1)] n that(2,3) by (cases "j = i") simp_all
  ultimately show "ref_step s t i (i_ref y - i_ref (ino s i))" unfolding ref_step_def using d by blast
qed

lemma iget_law:
  assumes c: "fs_calm p bs L s" and room: "\<exists>j < NINODE. i_ref (ino s j) = 0"
  shows "\<exists>i t. iget ROOTDEV n s = Done i t \<and> i < NINODE \<and> fs_calm p bs L t \<and> ref_step s t i 1 \<and> i_inum (ino t i) = n"
proof -
  note D = fs_calmD [OF c]
  let ?P = "\<lambda>i. 0 < i_ref (ino s i) \<and> i_dev (ino s i) = ROOTDEV \<and> i_inum (ino s i) = n"
  have h: "s\<lparr>held := []\<rparr> = s" using D(9) by (intro fsst.equality) simp_all
  have rel: "release ItableLock (upd_ino i f (s\<lparr>held := [ItableLock]\<rparr>)) = Done () (upd_ino i f s)" for i f
    using h D(9) by (simp add: release_def upd_ino_def)
  have run: "iget ROOTDEV n s = (case find ?P [0..<NINODE] of
      Some i \<Rightarrow> Done i (upd_ino i (\<lambda>x. x\<lparr>i_ref := i_ref x + 1\<rparr>) s)
    | None \<Rightarrow> (case find (\<lambda>i. i_ref (ino s i) = 0) [0..<NINODE] of
        None \<Rightarrow> Panic ''iget: no inodes''
      | Some i \<Rightarrow> Done i (upd_ino i (\<lambda>x. x\<lparr>i_dev := ROOTDEV, i_inum := n, i_ref := 1, i_valid := False\<rparr>) s)))"
    using D(9) rel by (simp add: iget_def acquire_def split: option.split)
  show ?thesis
  proof (cases "find ?P [0..<NINODE]")
    case (Some i)
    then have i: "i < NINODE" "?P i" by (auto simp: find_Some_iff)
    let ?y = "(ino s i)\<lparr>i_ref := i_ref (ino s i) + 1\<rparr>"
    let ?t = "upd_ino i (\<lambda>x. x\<lparr>i_ref := i_ref x + 1\<rparr>) s"
    have e: "entry_ok s ?y" using D(7) [OF i(1)] i(2) by (auto simp: entry_ok_def)
    have "L = Some i \<longrightarrow> i_valid ?y \<and> 0 < i_ref ?y" using D(13) [OF i(1)] i(2) by auto
    note T = table_change [OF c i(1) _ e this, of ?t]
    have t: "fs_calm p bs L ?t" "ref_step s ?t i 1" using T i(2) by (simp_all add: upd_ino_def)
    have "i_inum (ino ?t i) = n" using i D(6) by (simp add: upd_ino_def)
    then show ?thesis using t run Some i(1) by auto
  next
    case None
    then have free: "\<forall>j < NINODE. 0 < i_ref (ino s j) \<longrightarrow> i_inum (ino s j) \<noteq> n"
      using D(7) by (auto simp: find_None_iff entry_ok_def)
    obtain i where f: "find (\<lambda>i. i_ref (ino s i) = 0) [0..<NINODE] = Some i"
      using room by (cases "find (\<lambda>i. i_ref (ino s i) = 0) [0..<NINODE]") (auto simp: find_None_iff)
    then have i: "i < NINODE" "i_ref (ino s i) = 0" by (auto simp: find_Some_iff)
    let ?y = "(ino s i)\<lparr>i_dev := ROOTDEV, i_inum := n, i_ref := 1, i_valid := False\<rparr>"
    let ?t = "upd_ino i (\<lambda>x. x\<lparr>i_dev := ROOTDEV, i_inum := n, i_ref := 1, i_valid := False\<rparr>) s"
    have e: "entry_ok s ?y" by (simp add: entry_ok_def)
    have "L \<noteq> Some i" using D(13) [OF i(1)] i(2) by auto
    then have "L = Some i \<longrightarrow> i_valid ?y \<and> 0 < i_ref ?y" by blast
    note T = table_change [OF c i(1) _ e this, of ?t]
    have t: "fs_calm p bs L ?t" "ref_step s ?t i 1" using T free i(2) by (simp_all add: upd_ino_def)
    have "i_inum (ino ?t i) = n" using i D(6) by (simp add: upd_ino_def)
    then show ?thesis using t run None f i(1) by auto
  qed
qed

lemma iput_law:
  assumes c: "fs_calm p bs None s" and i: "i < NINODE" "0 < i_ref (ino s i)" and g: "i_nlink (inode_at s (i_inum (ino s i))) \<noteq> 0"
  shows "\<exists>t. iput i s = Done () t \<and> fs_calm p bs None t \<and> ref_step s t i (-1)"
proof -
  note D = fs_calmD [OF c]
  let ?y = "(ino s i)\<lparr>i_ref := i_ref (ino s i) - 1\<rparr>"
  let ?t = "upd_ino i (\<lambda>x. x\<lparr>i_ref := i_ref x - 1\<rparr>) s"
  have "\<not> (i_valid (ino s i) \<and> i_nlink (ino s i) = 0)"
    using D(7) [OF i(1)] i(2) g stored_inode_at(2) [of s "ino s i"] by (auto simp: entry_ok_def)
  moreover have "release ItableLock (upd_ino i f (s\<lparr>held := [ItableLock]\<rparr>)) = Done () (upd_ino i f s)" for f
  proof -
    have "s\<lparr>held := []\<rparr> = s" using D(9) by (intro fsst.equality) simp_all
    then show ?thesis using D(9) by (simp add: release_def upd_ino_def)
  qed
  ultimately have run: "iput i s = Done () ?t"
    using D(9) by (cases "i_valid (ino s i)") (simp_all add: iput_def acquire_def)
  have e: "entry_ok s ?y" using D(7) [OF i(1)] i(2) by (auto simp: entry_ok_def)
  have "None = Some i \<longrightarrow> i_valid ?y \<and> 0 < i_ref ?y" by simp
  note T = table_change [OF c i(1) _ e this, of ?t]
  have "fs_calm p bs None ?t" "ref_step s ?t i (-1)" using T i(2) by (simp_all add: upd_ino_def)
  then show ?thesis using run by blast
qed

text \<open>Only locks change.\<close>

lemma fs_calm_locks:
  assumes c: "fs_calm p bs L s" and t: "txn p bs Map.empty t" "same_disk s t" "itable t = itable s"
    and l: "\<And>j. j < NINODE \<Longrightarrow> if L' = Some j then holds_sleep (InodeLk j) t \<and> i_valid (ino s j) \<and> 0 < i_ref (ino s j)
      else sl_locked (sleeplocks t (InodeLk j)) = 0"
  shows "fs_calm p bs L' t" and "ref_step s t i 0"
proof -
  note D = same_diskD [OF t(2)]
  have e: "entry_ok t x = entry_ok s x" for x using D(5) by (simp add: entry_ok_def)
  show "fs_calm p bs L' t"
    using c t(1,3) D e l unfolding fs_calm_def by simp
  show "ref_step s t i 0" using t(2,3) by (simp add: ref_step_def)
qed

lemma iunlock_law:
  assumes c: "fs_calm p bs (Some i) s" and i: "i < NINODE"
  shows "\<exists>t. iunlock (Some i) s = Done () t \<and> fs_calm p bs None t \<and> ref_step s t i 0"
proof -
  note D = fs_calmD [OF c] and h = fs_calmD(13) [OF c i refl]
  let ?u = "set_sleeplock (InodeLk i) 0 0 s"
  let ?t = "wake_all (Some (ChSleepLock (InodeLk i))) ?u"
  have run: "iunlock (Some i) s = Done () ?t"
    using h holdingsleep_eq [OF D(8), of "InodeLk i"] releasesleep_eq [OF D(8), of "InodeLk i"] by (simp add: iunlock_def)
  have u: "txn p bs Map.empty ?u" using D(1) by simp
  have t: "txn p bs Map.empty ?t" "blk ?t = blk s" using txn_woken [OF u] by simp_all
  have d: "same_disk s ?t" using t(2) by (simp add: same_disk_def wake_all_def set_sleeplock_def)
  have it: "itable ?t = itable s" by (simp add: wake_all_def set_sleeplock_def)
  have "if None = Some j then holds_sleep (InodeLk j) ?t \<and> i_valid (ino s j) \<and> 0 < i_ref (ino s j)
      else sl_locked (sleeplocks ?t (InodeLk j)) = 0" if "j < NINODE" for j
    using D(12) [OF that] by (simp add: set_sleeplock_def)
  from fs_calm_locks [OF c t(1) d it this] run show ?thesis by blast
qed

lemma locked_calm:
  assumes c: "fs_calm p bs None s" and i: "i < NINODE" "i_valid (ino s i)" "0 < i_ref (ino s i)"
  shows "fs_calm p bs (Some i) (set_sleeplock (InodeLk i) 1 (p_pid (the_proc s p)) s)"
    and "ref_step s (set_sleeplock (InodeLk i) 1 (p_pid (the_proc s p)) s) i 0"
proof -
  note D = fs_calmD [OF c]
  let ?t = "set_sleeplock (InodeLk i) 1 (p_pid (the_proc s p)) s"
  have t: "txn p bs Map.empty ?t" using D(1) by simp
  have d: "same_disk s ?t" by simp
  have it: "itable ?t = itable s" by (simp add: set_sleeplock_def)
  have "if Some i = Some j then holds_sleep (InodeLk j) ?t \<and> i_valid (ino s j) \<and> 0 < i_ref (ino s j)
      else sl_locked (sleeplocks ?t (InodeLk j)) = 0" if "j < NINODE" for j
    using D(10) D(12) [OF that] i by (auto simp: set_sleeplock_def holds_sleep_def)
  from fs_calm_locks [OF c t d it this] show "fs_calm p bs (Some i) ?t" "ref_step s ?t i 0" by blast+
qed

lemma same_fs_itable: "same_fs s t \<Longrightarrow> same_fs (s\<lparr>itable := ys\<rparr>) (t\<lparr>itable := ys\<rparr>)"
  by (cases s; cases t) (simp add: same_fs_def same_owners_def)

lemma ilock_law:
  assumes c: "fs_calm p bs None s" and i: "i < NINODE" "0 < i_ref (ino s i)"
    and ty: "i_type (inode_at s (i_inum (ino s i))) \<noteq> 0"
  shows "\<exists>t. ilock (Some i) s = Done () t \<and> fs_calm p bs (Some i) t \<and> ref_step s t i 0"
proof -
  note D = fs_calmD [OF c]
  let ?x = "ino s i" and ?pid = "p_pid (the_proc s p)"
  let ?ib = "IBLOCK (i_inum ?x) s" and ?o = "dinode_off (i_inum ?x)"
  define u where "u = set_sleeplock (InodeLk i) 1 ?pid s"
  have a: "acquiresleep (InodeLk i) s = Done () u"
    using acquiresleep_free [OF D(8) D(12) [OF i(1)]] by (simp add: u_def)
  have it: "itable u = itable s" by (simp add: u_def set_sleeplock_def)
  have start: "ilock (Some i) s = (if \<not> i_valid ?x then
         bnd (bread (i_dev ?x) (IBLOCK (i_inum ?x) u) u) (\<lambda>bp s.
         bnd (brelse bp (upd_ino i (get_dinode (bdata s bp) (dinode_off (i_inum (ino s i)))) s)) (\<lambda>_ s.
           let s = upd_ino i (\<lambda>x. x\<lparr>i_valid := True\<rparr>) s in
           if i_type (ino s i) = 0 then Panic ''ilock: no type'' else Done () s))
       else Done () u)"
    using i(2) a it by (simp add: ilock_def)
  show ?thesis
  proof (cases "i_valid ?x")
    case True
    then show ?thesis using start locked_calm [OF c i(1) True i(2)] by (auto simp: u_def)
  next
    case False
    have dev: "i_dev ?x = ROOTDEV" using D(7) [OF i(1)] i(2) by (simp add: entry_ok_def)
    have ut: "txn p bs Map.empty u" "blk u = blk s" "IBLOCK (i_inum ?x) u = ?ib"
      using D(1) by (simp_all add: u_def) (simp add: IBLOCK_def set_sleeplock_def)
    obtain b v where v: "bread ROOTDEV ?ib u = Done b v" "txn p bs [b \<mapsto> ?ib] v" "blk v = blk u" "same_fs u v"
        "b_data (bufs v ! b) = blk u ?ib" "disk v = disk u"
      using txn_bread [OF ut(1), of ?ib] beside_card [of Map.empty ?ib bs] D(2) by auto
    have iv: "itable v = itable s" using same_fs_simps(6) [OF v(4)] it by simp
    define y where "y = (get_dinode (blk s ?ib) ?o ?x)\<lparr>i_valid := True\<rparr>"
    define v' where "v' = upd_ino i (get_dinode (blk s ?ib) ?o) v"
    have tv: "txn p bs [b \<mapsto> ?ib] v'" "blk v' = blk s" "disk v' = disk u"
      using v(2,3,6) ut(2) by (simp_all add: v'_def upd_ino_def)
    have "?ib \<notin> set bs \<Longrightarrow> blk v' ?ib = disk v' ?ib" using ut tv(2,3) by (simp add: txn_def)
    from txn_brelse [OF tv(1) _ _ this, of b] obtain w where
      w: "brelse b v' = Done () w" "txn p bs Map.empty w" "blk w = blk v'" "same_fs v' w" by auto
    define t where "t = upd_ino i (\<lambda>x. x\<lparr>i_valid := True\<rparr>) w"
    let ?ys = "(itable s)[i := y]"
    have iw: "itable w = (itable s)[i := get_dinode (blk s ?ib) ?o ?x]"
      using same_fs_simps(6) [OF w(4)] iv D(6) i(1) by (simp add: v'_def upd_ino_def)
    have tt: "t = w\<lparr>itable := ?ys\<rparr>" using iw D(6) i(1) by (simp add: t_def upd_ino_def y_def)
    have f: "i_inum y = i_inum ?x" "i_ref y = i_ref ?x" "i_dev y = ROOTDEV" "i_valid y" "i_type y = i_type (inode_at s (i_inum ?x))"
      using dev by (simp_all add: y_def get_dinode_def inode_at_def)
    have st: "stored s y" by (simp add: y_def stored_def get_dinode_def)
    have "i_type (ino t i) \<noteq> 0" using ty f(5) D(6) i(1) by (simp add: tt)
    then have run: "ilock (Some i) s = Done () t"
      using start False v(1,5) w(1) dev ut iv by (simp add: v'_def t_def Let_def)
    have e: "entry_ok s y" using f st i(2) by (simp add: entry_ok_def)
    have "None = Some i \<longrightarrow> i_valid y \<and> 0 < i_ref y" by simp
    from table_change [OF c i(1) refl e this] have s1: "fs_calm p bs None (s\<lparr>itable := ?ys\<rparr>)" "ref_step s (s\<lparr>itable := ?ys\<rparr>) i 0"
      using f i(2) by simp_all
    let ?s1 = "s\<lparr>itable := ?ys\<rparr>"
    let ?s2 = "set_sleeplock (InodeLk i) 1 ?pid ?s1"
    have s2: "fs_calm p bs (Some i) ?s2" "ref_step ?s1 ?s2 i 0"
      using locked_calm [OF s1(1) i(1)] f i D(6) by simp_all
    have eq: "?s2 = u\<lparr>itable := ?ys\<rparr>" by (simp add: u_def set_sleeplock_def)
    have vw: "same_fs (v\<lparr>itable := ?ys\<rparr>) (w\<lparr>itable := ?ys\<rparr>)"
      using same_fs_itable [OF w(4), of ?ys] by (simp add: v'_def upd_ino_def)
    have "same_fs ?s2 t"
      unfolding eq tt by (rule same_fs_trans [OF same_fs_itable [OF v(4)] vw])
    moreover have "txn p bs Map.empty t" "blk t = blk ?s2" using w(2,3) tv(2) ut(2) by (simp_all add: tt eq)
    ultimately have u2: "unchanged p bs ?s2 t" by (simp add: unchanged_def)
    have t: "fs_calm p bs (Some i) t" by (rule fs_calm_unchanged [OF s2(1) u2])
    have "ref_step s t i 0"
      by (rule ref_step_trans [OF s1(2) ref_step_trans [OF s2(2) ref_step_unchanged [OF u2]]])
    then show ?thesis using run t by blast
  qed
qed

end
