(* ===== verification/Paths.thy ===== *)
theory Paths
  imports Itable
begin

section \<open>Path names\<close>

text \<open>
  \<open>namei\<close> and \<open>nameiparent\<close> of \<open>fs.c\<close> find the inode that a path denotes in the tree of directories on disk.
  \<open>resolve s n es\<close> is the number of the inode reached from \<open>n\<close> along the names \<open>es\<close>, each cut to \<open>DIRSIZ\<close> bytes;
  \<open>tree s N\<close> says that \<open>N\<close> is a set of well-formed inodes closed under the entries of its directories. The
  code walks with one reference at a time, locks each directory to look into it, and gives the references
  back: counts of references and blocks are as before, but for the reference to the inode it returns.
\<close>

subsection \<open>What a path denotes\<close>

definition dmap :: "'z fsst_scheme \<Rightarrow> u32 \<Rightarrow> u8 list \<rightharpoonup> u16" where
  "dmap s n = dir_map (dents (file_data s (inode_at s n)))"

definition is_dir :: "'z fsst_scheme \<Rightarrow> u32 \<Rightarrow> bool" where
  "is_dir s n \<longleftrightarrow> i_type (inode_at s n) = T_DIR"

fun resolve :: "'z fsst_scheme \<Rightarrow> u32 \<Rightarrow> u8 list list \<Rightarrow> u32 option" where
  "resolve s n [] = Some n"
| "resolve s n (e # es) =
     (if is_dir s n then (case dmap s n (take DIRSIZ e) of None \<Rightarrow> None | Some v \<Rightarrow> resolve s (ucast v) es) else None)"

text \<open>The directory that holds the last element.\<close>

fun resolve_parent :: "'z fsst_scheme \<Rightarrow> u32 \<Rightarrow> u8 list list \<Rightarrow> u32 option" where
  "resolve_parent s n [] = None"
| "resolve_parent s n [e] = (if is_dir s n then Some n else None)"
| "resolve_parent s n (e # es) =
     (if is_dir s n then (case dmap s n (take DIRSIZ e) of None \<Rightarrow> None | Some v \<Rightarrow> resolve_parent s (ucast v) es) else None)"

lemma resolve_parent_resolve:
  "es \<noteq> [] \<Longrightarrow> resolve_parent s n es = (case resolve s n (butlast es) of
     Some m \<Rightarrow> if is_dir s m then Some m else None | None \<Rightarrow> None)"
  by (induction s n es rule: resolve_parent.induct) (auto split: option.split)

definition denotes :: "'z fsst_scheme \<Rightarrow> bool \<Rightarrow> u32 \<Rightarrow> u8 list list \<Rightarrow> u32 option" where
  "denotes s nip n es = (if nip then resolve_parent s n es else resolve s n es)"

lemma denotes_Nil: "denotes s nip n [] = (if nip then None else Some n)"
  by (simp add: denotes_def)

lemma denotes_Cons:
  "denotes s nip n (e # es) =
     (if \<not> is_dir s n then None
      else if nip \<and> es = [] then Some n
      else case dmap s n (take DIRSIZ e) of None \<Rightarrow> None | Some v \<Rightarrow> denotes s nip (ucast v) es)"
  by (cases es) (auto simp: denotes_def split: option.split)

definition tree :: "'z fsst_scheme \<Rightarrow> u32 set \<Rightarrow> bool" where
  "tree s N \<longleftrightarrow> (\<forall>n \<in> N. good_inode s n \<and> (is_dir s n \<longrightarrow> (\<forall>e v. dmap s n e = Some v \<longrightarrow> ucast v \<in> N)))"

lemma treeD:
  assumes "tree s N" and "n \<in> N"
  shows "good_inode s n" "i_type (inode_at s n) \<noteq> 0" "i_nlink (inode_at s n) \<noteq> 0"
    "is_dir s n \<Longrightarrow> dmap s n e = Some v \<Longrightarrow> ucast v \<in> N"
  using assms by (auto simp: tree_def good_inode_def)

lemma same_disk_path:
  assumes "same_disk s t"
  shows "dmap t n = dmap s n" "is_dir t n = is_dir s n" "denotes t nip n es = denotes s nip n es" "tree t N = tree s N"
proof -
  note d = same_diskD [OF assms]
  show m: "dmap t n = dmap s n" for n using d(2,4) by (simp add: dmap_def)
  show i: "is_dir t n = is_dir s n" for n using d(2) by (simp add: is_dir_def)
  show "denotes t nip n es = denotes s nip n es"
    by (induction es arbitrary: n) (auto simp: denotes_Nil denotes_Cons m i split: option.split)
  show "tree t N = tree s N" using m i d(9) by (simp add: tree_def)
qed

subsection \<open>A step of the walk\<close>

lemma locked_dir:
  assumes c: "fs_calm p bs (Some i) s" and i: "i < NINODE" and g: "good_inode s (i_inum (ino s i))"
    and dir: "is_dir s (i_inum (ino s i))"
  shows "dir_state p bs i s" and "dir_dents i s = dents (file_data s (inode_at s (i_inum (ino s i))))"
proof -
  note D = fs_calmD [OF c]
  have v: "i_valid (ino s i)" "0 < i_ref (ino s i)" using D(13) [OF i refl] by simp_all
  then have st: "stored s (ino s i)" "i_dev (ino s i) = ROOTDEV" using D(7) [OF i] by (simp_all add: entry_ok_def)
  note f = stored_file [OF st(1)] and a = stored_inode_at [OF st(1)]
  show "dir_dents i s = dents (file_data s (inode_at s (i_inum (ino s i))))" by (simp only: f(2))
  have "file_state p bs Map.empty i s"
    using D(1,3-6) i st(2) g f(3) by (simp add: file_state_def good_inode_def)
  then show "dir_state p bs i s"
    using g dir f(4) a(1,3) by (simp add: dir_state_def good_inode_def is_dir_def)
qed

lemma locked_type:
  assumes "fs_calm p bs (Some i) s" and "i < NINODE"
  shows "i_type (ino s i) = T_DIR \<longleftrightarrow> is_dir s (i_inum (ino s i))"
  using fs_calmD(7,13) [OF assms(1) assms(2)] stored_inode_at(1) [of s "ino s i"] by (simp add: entry_ok_def is_dir_def)

lemma iunlockput_law:
  assumes c: "fs_calm p bs (Some i) s" and i: "i < NINODE" and g: "i_nlink (inode_at s (i_inum (ino s i))) \<noteq> 0"
  shows "\<exists>t. iunlockput i s = Done () t \<and> fs_calm p bs None t \<and> ref_step s t i (-1)"
proof -
  have ref: "0 < i_ref (ino s i)" using fs_calmD(13) [OF c i refl] by simp
  obtain u where u: "iunlock (Some i) s = Done () u" "fs_calm p bs None u" "ref_step s u i 0"
    using iunlock_law [OF c i] by blast
  have n: "i_inum (ino u i) = i_inum (ino s i)" "0 < i_ref (ino u i)" and d: "same_disk s u"
    using u(3) i ref by (auto simp: ref_step_def)
  have "i_nlink (inode_at u (i_inum (ino u i))) \<noteq> 0" using g n(1) same_diskD(2) [OF d] by simp
  from iput_law [OF u(2) i n(2) this] obtain t where t: "iput i u = Done () t" "fs_calm p bs None t" "ref_step u t i (-1)"
    by blast
  then show ?thesis using u ref_step_trans [OF u(3) t(3)] by (auto simp: iunlockput_def)
qed

text \<open>\<open>holding base h s\<close>: beside the references \<open>base\<close>, the walk has one to the entry \<open>h\<close>.\<close>

definition holding :: "(nat \<Rightarrow> int) \<Rightarrow> nat option \<Rightarrow> 'z fsst_scheme \<Rightarrow> bool" where
  "holding base h s \<longleftrightarrow> (\<forall>j < NINODE. 0 \<le> base j \<and> i_ref (ino s j) = base j + (if h = Some j then 1 else 0))"

text \<open>\<open>walked base s t\<close>: no block changed, and the entries in use by others stand for the same inodes.\<close>

definition walked :: "(nat \<Rightarrow> int) \<Rightarrow> 'z fsst_scheme \<Rightarrow> 'z fsst_scheme \<Rightarrow> bool" where
  "walked base s t \<longleftrightarrow> same_disk s t \<and> (\<forall>j < NINODE. 0 < base j \<longrightarrow> i_inum (ino t j) = i_inum (ino s j))"

lemma walked_trans: "walked base s t \<Longrightarrow> walked base t u \<Longrightarrow> walked base s u"
  by (auto simp: walked_def intro: same_disk_trans)

lemma ref_stepD:
  assumes "ref_step s t i d" and "j < NINODE"
  shows "i_ref (ino t j) = i_ref (ino s j) + (if j = i then d else 0)"
    and "0 < i_ref (ino s j) \<Longrightarrow> 0 < i_ref (ino t j) \<Longrightarrow> i_inum (ino t j) = i_inum (ino s j)"
  using assms by (simp_all add: ref_step_def)

lemma step_same:
  assumes "ref_step s t i 0" and "holding base h s"
  shows "holding base h t" "walked base s t" "\<And>j. j < NINODE \<Longrightarrow> 0 < i_ref (ino s j) \<Longrightarrow> i_inum (ino t j) = i_inum (ino s j) \<and> 0 < i_ref (ino t j)"
  using assms by (auto simp: ref_step_def holding_def walked_def)

lemma step_put:
  assumes "ref_step s t i (-1)" and "holding base (Some i) s" and "i < NINODE"
  shows "holding base None t" "walked base s t"
proof -
  have h: "0 \<le> base j" "i_ref (ino t j) = base j" "i_ref (ino s j) = base j + (if i = j then 1 else 0)" if "j < NINODE" for j
    using assms(1,2) that by (auto simp: ref_step_def holding_def)
  then show "holding base None t" by (simp add: holding_def)
  have "i_inum (ino t j) = i_inum (ino s j)" if "j < NINODE" "0 < base j" for j
    by (rule ref_stepD(2) [OF assms(1) that(1)]) (use h [OF that(1)] that(2) in simp_all)
  then show "walked base s t" using assms(1) by (simp add: walked_def ref_step_def)
qed

text \<open>Two entries are free of others.\<close>

definition two_free :: "(nat \<Rightarrow> int) \<Rightarrow> bool" where
  "two_free base \<longleftrightarrow> (\<exists>i < NINODE. \<exists>j < NINODE. i \<noteq> j \<and> base i = 0 \<and> base j = 0)"

lemma two_free_room: "two_free base \<Longrightarrow> holding base h s \<Longrightarrow> \<exists>j < NINODE. i_ref (ino s j) = 0"
  unfolding two_free_def holding_def by (metis add_cancel_left_right option.inject)

text \<open>From a directory to the entry of the next name: the reference moves on.\<close>

lemma next_law:
  assumes c: "fs_calm p bs (Some i) s" and i: "i < NINODE" and h: "holding base (Some i) s" and room: "two_free base"
    and g: "i_nlink (inode_at s (i_inum (ino s i))) \<noteq> 0"
  shows "\<exists>k t u. iget ROOTDEV n s = Done k t \<and> iunlockput i t = Done () u \<and> k < NINODE \<and> fs_calm p bs None u \<and>
    holding base (Some k) u \<and> walked base s u \<and> i_inum (ino u k) = n"
proof -
  obtain k t where t: "iget ROOTDEV n s = Done k t" "k < NINODE" "fs_calm p bs (Some i) t" "ref_step s t k 1" "i_inum (ino t k) = n"
    using iget_law [OF c two_free_room [OF room h]] by blast
  have d: "same_disk s t" using t(4) by (simp add: ref_step_def)
  have ri: "0 < i_ref (ino s i)" using fs_calmD(13) [OF c i refl] by simp
  have "0 < i_ref (ino t i)" using ref_stepD(1) [OF t(4) i] ri by auto
  then have "i_inum (ino t i) = i_inum (ino s i)" by (rule ref_stepD(2) [OF t(4) i ri])
  then have "i_nlink (inode_at t (i_inum (ino t i))) \<noteq> 0" using g same_diskD(2) [OF d] by simp
  from iunlockput_law [OF t(3) i this] obtain u where u: "iunlockput i t = Done () u" "fs_calm p bs None u" "ref_step t u i (-1)" by blast
  have r: "i_ref (ino u j) = base j + (if Some k = Some j then 1 else 0)" if "j < NINODE" for j
    using ref_stepD(1) [OF t(4) that] ref_stepD(1) [OF u(3) that] h that by (auto simp: holding_def)
  have b: "0 \<le> base j" if "j < NINODE" for j using h that by (simp add: holding_def)
  have "holding base (Some k) u" using r b by (simp add: holding_def)
  moreover have "i_inum (ino u j) = i_inum (ino s j)" if j: "j < NINODE" "0 < base j" for j
  proof -
    have p: "0 < i_ref (ino s j)" "0 < i_ref (ino u j)" using j h r by (simp_all add: holding_def)
    then have "0 < i_ref (ino t j)" using ref_stepD(1) [OF t(4) j(1)] by auto
    then show ?thesis using ref_stepD(2) [OF t(4) j(1) p(1)] ref_stepD(2) [OF u(3) j(1) _ p(2)] by simp
  qed
  moreover have "same_disk s u" using d u(3) same_disk_trans by (auto simp: ref_step_def)
  moreover have "i_inum (ino u k) = n"
  proof -
    have "0 < i_ref (ino t k)" "0 < i_ref (ino u k)"
      using ref_stepD(1) [OF t(4,2)] r [OF t(2)] b [OF t(2)] fs_calmD(7) [OF c t(2)] by (simp_all add: entry_ok_def)
    then show ?thesis using ref_stepD(2) [OF u(3) t(2)] t(5) by simp
  qed
  ultimately show ?thesis using t(1,2) u(1,2) by (auto simp: walked_def)
qed

subsection \<open>namex\<close>

text \<open>What a walk from inode \<open>n\<close> along the names \<open>es\<close> ends in: the result \<open>r\<close>, the array \<open>nm\<close> and the state \<open>t\<close>.\<close>

definition arrives ::
  "nat \<Rightarrow> u32 list \<Rightarrow> (nat \<Rightarrow> int) \<Rightarrow> bool \<Rightarrow> 'z fsst_scheme \<Rightarrow> u32 \<Rightarrow> u8 list list \<Rightarrow> nat option \<times> u8 list \<Rightarrow> 'z fsst_scheme \<Rightarrow> bool" where
  "arrives p bs base nip s n es = (\<lambda>(r, nm) t. fs_calm p bs None t \<and> walked base s t \<and> holding base r t \<and>
     (case denotes s nip n es of
        None \<Rightarrow> r = None
      | Some m \<Rightarrow> \<exists>i < NINODE. r = Some i \<and> i_inum (ino t i) = m) \<and>
     (nip \<and> r \<noteq> None \<longrightarrow> name_of nm = take DIRSIZ (last es)))"

lemma arrives_nothing:
  "fs_calm p bs None t \<Longrightarrow> walked base s t \<Longrightarrow> holding base None t \<Longrightarrow> denotes s nip n es = None \<Longrightarrow> arrives p bs base nip s n es (None, nm) t"
  by (simp add: arrives_def)

lemma arrives_step:
  assumes w: "walked base s u" and a: "arrives p bs base nip u m es x t"
    and d: "denotes s nip n (e # es) = denotes s nip m es" and l: "nip \<longrightarrow> es \<noteq> []"
  shows "arrives p bs base nip s n (e # es) x t"
proof -
  obtain r nm where x: "x = (r, nm)" by (cases x)
  have "denotes u nip m es = denotes s nip m es" using w same_disk_path(3) by (auto simp: walked_def)
  then show ?thesis using a d l walked_trans [OF w] unfolding arrives_def x by auto
qed

lemma skipelem_empty: "skipelem path name = Some (path', name') \<Longrightarrow> path_elems path' = [] \<longleftrightarrow> path' = []"
proof -
  assume "skipelem path name = Some (path', name')"
  then obtain q where q: "path' = dropWhile (\<lambda>c. c = slash) q" by (auto simp: skipelem_def Let_def split: if_splits)
  show ?thesis
  proof (cases path')
    case (Cons c cs)
    then have "c \<noteq> slash" using q by (metis (mono_tags, lifting) hd_dropWhile list.sel(1) list.simps(3))
    then show ?thesis using Cons path_elems_Cons [of c cs] by simp
  qed simp
qed

lemma namex_loop_law:
  assumes "fs_calm p bs None s" and "tree s N" and "ip < NINODE" and "i_inum (ino s ip) \<in> N" and "holding base (Some ip) s"
    and "two_free base" and "0 \<notin> set path"
  shows "\<exists>x t. namex_loop nip ip path name s = Done x t \<and> arrives p bs base nip s (i_inum (ino s ip)) (path_elems path) x t"
  using assms
proof (induction "length path" arbitrary: path name ip s rule: less_induct)
  case less
  note c = less.prems(1) and tr = less.prems(2) and i = less.prems(3) and n = less.prems(4) and h = less.prems(5)
    and room = less.prems(6) and z = less.prems(7)
  let ?n = "i_inum (ino s ip)"
  note T = treeD [OF tr n]
  have ref: "0 < i_ref (ino s ip)" using h i by (simp add: holding_def)
  show ?case
  proof (cases "skipelem path name")
    case None
    then have e: "path_elems path = []" using skipelem_splits_path_law [OF z, of name] by simp
    show ?thesis
    proof (cases nip)
      case True
      obtain t where t: "iput ip s = Done () t" "fs_calm p bs None t" "ref_step s t ip (-1)"
        using iput_law [OF c i ref T(3)] by blast
      then have "namex_loop nip ip path name s = Done (None, name) t" using None True by (subst namex_loop.simps) simp
      moreover have "arrives p bs base nip s ?n (path_elems path) (None, name) t"
        by (rule arrives_nothing [OF t(2) step_put(2,1) [OF t(3) h i]]) (simp add: e denotes_Nil True)
      ultimately show ?thesis by blast
    next
      case False
      then have "namex_loop nip ip path name s = Done (Some ip, name) s" using None by (subst namex_loop.simps) simp
      moreover have "arrives p bs base nip s ?n (path_elems path) (Some ip, name) s"
        using c h i False by (simp add: arrives_def e denotes_Nil walked_def)
      ultimately show ?thesis by blast
    qed
  next
    case (Some y)
    obtain path' name' where y: "y = (path', name')" by (cases y)
    obtain e where e: "path_elems path = e # path_elems path'" "name_of name' = take DIRSIZ e" "0 \<notin> set path'"
      using skipelem_splits_path_law [OF z, of name] Some y by auto
    have empty: "path_elems path' = [] \<longleftrightarrow> path' = []" using skipelem_empty Some y by blast
    have shorter: "length path' < length path" using skipelem_shorter Some y by blast
    obtain u where u: "ilock (Some ip) s = Done () u" "fs_calm p bs (Some ip) u" "ref_step s u ip 0"
      using ilock_law [OF c i ref T(2)] by blast
    note U = step_same [OF u(3) h]
    have nu: "i_inum (ino u ip) = ?n" using U(3) [OF i ref] by simp
    have du: "same_disk s u" using U(2) by (simp add: walked_def)
    note P = same_disk_path [OF du]
    have gu: "good_inode u (i_inum (ino u ip))" "i_nlink (inode_at u (i_inum (ino u ip))) \<noteq> 0"
      using T(1,3) same_diskD(9,2) [OF du] nu by simp_all
    have run: "namex_loop nip ip path name s =
        (if \<not> is_dir s ?n then bnd (iunlockput ip u) (\<lambda>_ s. Done (None, name') s)
         else if nip \<and> path' = [] then bnd (iunlock (Some ip) u) (\<lambda>_ s. Done (Some ip, name') s)
         else bnd (dirlookup ip name' u) (\<lambda>r s. case r of
             None \<Rightarrow> bnd (iunlockput ip s) (\<lambda>_ s. Done (None, name') s)
           | Some (i, _) \<Rightarrow> bnd (iunlockput ip s) (\<lambda>_ s. namex_loop nip i path' name' s)))"
      using Some y u(1) locked_type [OF u(2) i] nu P(2) by (subst namex_loop.simps) simp
    have gone: "\<exists>x t. bnd (iunlockput ip v) (\<lambda>_ s. Done (None, name') s) = Done x t \<and> arrives p bs base nip s ?n (path_elems path) x t"
      if v: "fs_calm p bs (Some ip) v" "ref_step u v ip 0" and no: "denotes s nip ?n (path_elems path) = None" for v
    proof -
      note V = step_same [OF v(2) U(1)]
      have dv: "same_disk u v" using V(2) by (simp add: walked_def)
      have "i_inum (ino v ip) = i_inum (ino u ip)" using V(3) [OF i] U(3) [OF i ref] by simp
      then have "i_nlink (inode_at v (i_inum (ino v ip))) \<noteq> 0" using gu(2) same_diskD(2) [OF dv] by simp
      from iunlockput_law [OF v(1) i this] obtain t where t: "iunlockput ip v = Done () t" "fs_calm p bs None t" "ref_step v t ip (-1)" by blast
      note Z = step_put [OF t(3) V(1) i]
      have "walked base s t" using walked_trans [OF U(2) walked_trans [OF V(2) Z(2)]] .
      then show ?thesis using arrives_nothing [OF t(2) _ Z(1) no] t(1) by simp
    qed
    show ?thesis
    proof (cases "is_dir s ?n")
      case False
      then have no: "denotes s nip ?n (path_elems path) = None" by (simp add: e(1) denotes_Cons)
      have "ref_step u u ip 0" by (simp add: ref_step_def)
      note e0 = gone [OF u(2) this no]
      have eq: "namex_loop nip ip path name s = bnd (iunlockput ip u) (\<lambda>_ s. Done (None, name') s)" using run False by simp
      show ?thesis unfolding eq by (rule e0)
    next
      case dir: True
      show ?thesis
      proof (cases "nip \<and> path' = []")
        case True
        obtain t where t: "iunlock (Some ip) u = Done () t" "fs_calm p bs None t" "ref_step u t ip 0"
          using iunlock_law [OF u(2) i] by blast
        note V = step_same [OF t(3) U(1)]
        have "i_inum (ino t ip) = ?n" using V(3) [OF i] U(3) [OF i ref] nu by simp
        then have "arrives p bs base nip s ?n (path_elems path) (Some ip, name') t"
          using t(2) V(1) walked_trans [OF U(2) V(2)] i True dir empty e(2) by (simp add: arrives_def e(1) denotes_Cons)
        then show ?thesis using run dir True t(1) by simp
      next
        case more: False
        have ls: "dir_state p bs ip u" "dir_dents ip u = dents (file_data u (inode_at u ?n))"
          using locked_dir [OF u(2) i gu(1)] dir P(2) nu by simp_all
        have m: "dir_map (dir_dents ip u) = dmap s ?n" using ls(2) P(1) by (simp add: dmap_def)
        obtain v where v: "unchanged p bs u v" "finds ip u (dmap s ?n) name' v"
          using dirlookup_finds [OF ls(1) fs_calmD(2) [OF u(2)], of name'] unfolding m by blast
        have cv: "fs_calm p bs (Some ip) v" by (rule fs_calm_unchanged [OF u(2) v(1)])
        have rv: "ref_step u v ip 0" by (rule ref_step_unchanged [OF v(1)])
        note V = step_same [OF rv U(1)]
        have nv: "i_inum (ino v ip) = ?n" using V(3) [OF i] U(3) [OF i ref] nu by simp
        have dv: "same_disk s v" using same_disk_trans [OF du] V(2) by (simp add: walked_def)
        show ?thesis
        proof (cases "dmap s ?n (take DIRSIZ e)")
          case None
          then have "dirlookup ip name' u = Done None v" using v(2) by (simp add: finds_def e(2))
          then have eq: "namex_loop nip ip path name s = bnd (iunlockput ip v) (\<lambda>_ s. Done (None, name') s)"
            using run dir more by simp
          have no: "denotes s nip ?n (path_elems path) = None" using None dir more empty by (auto simp: e(1) denotes_Cons)
          show ?thesis unfolding eq by (rule gone [OF cv rv no])
        next
          case (Some w)
          then obtain k where k: "dirlookup ip name' u = bnd (iget ROOTDEV (ucast w) v) (\<lambda>i s. Done (Some (i, of_nat (16 * k))) s)"
            using v(2) unfolding finds_def e(2) by auto
          have "i_nlink (inode_at v (i_inum (ino v ip))) \<noteq> 0" using T(3) nv same_diskD(2) [OF dv] by simp
          from next_law [OF cv i V(1) room this, of "ucast w"] obtain l t q where q:
            "iget ROOTDEV (ucast w) v = Done l t" "iunlockput ip t = Done () q" "l < NINODE" "fs_calm p bs None q"
            "holding base (Some l) q" "walked base v q" "i_inum (ino q l) = ucast w" by blast
          have sq: "walked base s q" using walked_trans [OF U(2) walked_trans [OF V(2) q(6)]] .
          then have tq: "tree q N" using same_disk_path(4) tr by (auto simp: walked_def)
          have "i_inum (ino q l) \<in> N" using T(4) [OF dir Some] q(7) by simp
          from less.hyps [OF shorter q(4) tq q(3) this q(5) room e(3), of name'] obtain x z where x:
            "namex_loop nip l path' name' q = Done x z" "arrives p bs base nip q (ucast w) (path_elems path') x z"
            unfolding q(7) by blast
          have "namex_loop nip ip path name s = Done x z" using run dir more k q(1,2) x(1) by (simp del: of_nat_mult)
          moreover have "denotes s nip ?n (e # path_elems path') = denotes s nip (ucast w) (path_elems path')"
            using dir more empty Some by (auto simp: denotes_Cons)
          ultimately show ?thesis using arrives_step [OF sq x(2)] more empty e(1) by auto
        qed
      qed
    qed
  qed
qed

subsection \<open>namei and nameiparent\<close>

lemma idup_law:
  assumes c: "fs_calm p bs None s" and i: "i < NINODE" "0 < i_ref (ino s i)"
  shows "\<exists>t. idup i s = Done i t \<and> fs_calm p bs None t \<and> ref_step s t i 1"
proof -
  note D = fs_calmD [OF c]
  let ?y = "(ino s i)\<lparr>i_ref := i_ref (ino s i) + 1\<rparr>"
  let ?t = "upd_ino i (\<lambda>x. x\<lparr>i_ref := i_ref x + 1\<rparr>) s"
  have "s\<lparr>held := []\<rparr> = s" using D(9) by (intro fsst.equality) simp_all
  then have run: "idup i s = Done i ?t" using D(9) by (simp add: idup_def acquire_def release_def upd_ino_def)
  have e: "entry_ok s ?y" using D(7) [OF i(1)] i(2) by (auto simp: entry_ok_def)
  have "None = Some i \<longrightarrow> i_valid ?y \<and> 0 < i_ref ?y" by simp
  note T = table_change [OF c i(1) _ e this, of ?t]
  have "fs_calm p bs None ?t" "ref_step s ?t i 1" using T i(2) by (simp_all add: upd_ino_def)
  then show ?thesis using run by blast
qed

text \<open>The inode a path starts from.\<close>

definition start_of :: "nat \<Rightarrow> u8 list \<Rightarrow> 'z fsst_scheme \<Rightarrow> u32" where
  "start_of p path s = (if byte0 path = slash then ROOTINO else i_inum (ino s (the (p_cwd (the_proc s p)))))"

text \<open>A working directory is needed for a relative path only.\<close>

definition has_start :: "nat \<Rightarrow> u8 list \<Rightarrow> 'z fsst_scheme \<Rightarrow> u32 set \<Rightarrow> bool" where
  "has_start p path s N \<longleftrightarrow> start_of p path s \<in> N \<and>
     (byte0 path \<noteq> slash \<longrightarrow> (\<exists>c < NINODE. p_cwd (the_proc s p) = Some c \<and> 0 < i_ref (ino s c)))"

lemma namex_law:
  assumes c: "fs_calm p bs None s" and tr: "tree s N" and st: "has_start p path s N"
    and room: "two_free (\<lambda>j. i_ref (ino s j))" and z: "0 \<notin> set path"
  shows "\<exists>x t. namex path nip name s = Done x t \<and>
    arrives p bs (\<lambda>j. i_ref (ino s j)) nip s (start_of p path s) (path_elems path) x t"
proof -
  let ?base = "\<lambda>j. i_ref (ino s j)"
  note D = fs_calmD [OF c]
  have h: "holding ?base None s" using D(7) by (simp add: holding_def entry_ok_def)
  obtain ip u where u: "ip < NINODE" "fs_calm p bs None u" "ref_step s u ip 1" "i_inum (ino u ip) = start_of p path s"
    and run: "namex path nip name s = namex_loop nip ip path name u"
  proof (cases "byte0 path = slash")
    case True
    obtain ip u where "iget ROOTDEV ROOTINO s = Done ip u" "ip < NINODE" "fs_calm p bs None u" "ref_step s u ip 1"
        "i_inum (ino u ip) = ROOTINO"
      using iget_law [OF c two_free_room [OF room h]] by blast
    then show ?thesis using that [of ip u] True by (simp add: namex_def start_of_def)
  next
    case False
    then obtain w where w: "w < NINODE" "p_cwd (the_proc s p) = Some w" "0 < i_ref (ino s w)"
      using st by (auto simp: has_start_def)
    obtain u where u: "idup w s = Done w u" "fs_calm p bs None u" "ref_step s u w 1"
      using idup_law [OF c w(1,3)] by blast
    have "0 < i_ref (ino u w)" using ref_stepD(1) [OF u(3) w(1)] w(3) by simp
    then have "i_inum (ino u w) = i_inum (ino s w)" by (rule ref_stepD(2) [OF u(3) w(1,3)])
    then show ?thesis using that [of w u] u w False D(10) by (simp add: namex_def start_of_def)
  qed
  have d: "same_disk s u" using u(3) by (simp add: ref_step_def)
  note P = same_disk_path [OF d]
  have r: "i_ref (ino u j) = i_ref (ino s j) + (if Some ip = Some j then 1 else 0)" if "j < NINODE" for j
    using ref_stepD(1) [OF u(3) that] by auto
  have hu: "holding ?base (Some ip) u" using r h by (auto simp: holding_def)
  have w: "walked ?base s u"
    using d r ref_stepD(2) [OF u(3)] by (simp add: walked_def)
  have "tree u N" "i_inum (ino u ip) \<in> N" using tr P(4) u(4) st by (simp_all add: has_start_def)
  from namex_loop_law [OF u(2) this(1) u(1) this(2) hu room z, of nip name] obtain x t where x:
    "namex_loop nip ip path name u = Done x t" "arrives p bs ?base nip u (start_of p path s) (path_elems path) x t"
    unfolding u(4) by blast
  have "arrives p bs ?base nip s (start_of p path s) (path_elems path) x t"
    using x(2) P(3) walked_trans [OF w] by (auto simp: arrives_def)
  then show ?thesis using run x(1) by simp
qed

text \<open>
  C8: a path denotes an inode of the tree on disk, and \<open>namei\<close> finds it. For a process alone in the file
  system, inside a transaction, with two entries of the inode table free, \<open>namei\<close> returns an entry for the
  inode reached from the root or from the working directory along the elements of the path, each looked
  up in the directory so far, and nothing if a name is not there or something before the end is no directory.
  \<open>nameiparent\<close> returns an entry for the directory that holds the last element, and that element in \<open>name\<close>.
  The entry gains the one reference returned; all other counts, the inodes of the entries in use, the locks
  and every block are as before.
\<close>
theorem namei_resolves:
  assumes "fs_calm p bs None s" and "tree s N" and "has_start p path s N"
    and "two_free (\<lambda>j. i_ref (ino s j))" and "0 \<notin> set path"
  shows "(\<exists>r t. namei path s = Done r t \<and>
      (case resolve s (start_of p path s) (path_elems path) of
         None \<Rightarrow> r = None
       | Some m \<Rightarrow> \<exists>i < NINODE. r = Some i \<and> i_inum (ino t i) = m) \<and>
      fs_calm p bs None t \<and> walked (\<lambda>j. i_ref (ino s j)) s t \<and> holding (\<lambda>j. i_ref (ino s j)) r t) \<and>
    (\<exists>r nm t. nameiparent path name s = Done (r, nm) t \<and>
      (case resolve_parent s (start_of p path s) (path_elems path) of
         None \<Rightarrow> r = None
       | Some m \<Rightarrow> \<exists>i < NINODE. r = Some i \<and> i_inum (ino t i) = m \<and> name_of nm = take DIRSIZ (last (path_elems path))) \<and>
      fs_calm p bs None t \<and> walked (\<lambda>j. i_ref (ino s j)) s t \<and> holding (\<lambda>j. i_ref (ino s j)) r t)"
proof -
  obtain r nm t where t: "namex path False (replicate DIRSIZ 0) s = Done (r, nm) t"
    "arrives p bs (\<lambda>j. i_ref (ino s j)) False s (start_of p path s) (path_elems path) (r, nm) t"
    using namex_law [OF assms, of False "replicate DIRSIZ 0"] by auto
  obtain r' nm' t' where t': "namex path True name s = Done (r', nm') t'"
    "arrives p bs (\<lambda>j. i_ref (ino s j)) True s (start_of p path s) (path_elems path) (r', nm') t'"
    using namex_law [OF assms, of True name] by auto
  show ?thesis
    using t t' by (auto simp: namei_def nameiparent_def arrives_def denotes_def split: option.split)
qed

subsection \<open>An example\<close>

text \<open>
  A disk whose root directory, inode 1, has one entry, "a", for the empty file of inode 2; the root's
  content is block 300.
\<close>

definition tree_inode :: "u16 \<Rightarrow> u32 \<Rightarrow> u32 \<Rightarrow> inode" where
  "tree_inode ty z a = sample_inode\<lparr>i_type := ty, i_size := z, i_addrs := a # replicate 12 0\<rparr>"

definition tree_disk :: "u32 \<Rightarrow> block" where
  "tree_disk = sample_disk
     (32 := put_dinode (tree_inode T_FILE 0 0) 128 (put_dinode (tree_inode T_DIR 16 300) 64 (\<lambda>_. 0)),
      300 := (\<lambda>i. if i < 16 then dirent 2 [97] ! i else 0))"

definition tree_sample :: fsst where
  "tree_sample = fs_sample\<lparr>disk := tree_disk, itable := replicate NINODE (sample_inode\<lparr>i_ref := 0\<rparr>)\<rparr>"

lemma tree_sample_simps [simp]:
  "blk tree_sample = tree_disk" "itable tree_sample = replicate NINODE (sample_inode\<lparr>i_ref := 0\<rparr>)"
  "nblocks tree_sample = 1000" "log_start tree_sample = 100" "IBLOCK n tree_sample = n div 16 + 32"
  "BBLOCK n tree_sample = n div 8192 + 45" "bitmap_block tree_sample b \<longleftrightarrow> b = 45" "txn 0 [] Map.empty tree_sample"
proof -
  have sb: "sb tree_sample = sb (content_sample 0 0)" by (simp add: tree_sample_def content_sample_def)
  have "bitmap_block tree_sample b = bitmap_block (content_sample 0 0) b"
    unfolding bitmap_block_def BBLOCK_def sb by simp
  then show "bitmap_block tree_sample b \<longleftrightarrow> b = 45" by simp
  show "IBLOCK n tree_sample = n div 16 + 32" "BBLOCK n tree_sample = n div 8192 + 45"
    using fs_sample_simps(8,9) [of n] by (simp_all add: IBLOCK_def BBLOCK_def tree_sample_def)
  show "txn 0 [] Map.empty tree_sample" "blk tree_sample = tree_disk"
    using fs_sample_disk [of tree_disk] by (simp_all add: tree_sample_def)
qed (simp_all add: tree_sample_def)

lemma tree_sample_free: "a < 1000 \<Longrightarrow> free_bit tree_sample a \<longleftrightarrow> 480 \<le> a"
  using fs_sample_free [of a] by (simp add: free_bit_def small_div fs_sample_blk tree_disk_def)

lemma tree_sample_layout: "layout tree_sample"
  using fs_sample_layout tree_sample_free fs_sample_free by (simp add: layout_def)

lemma tree_sample_inodes:
  "inode_at tree_sample 1 = (tree_inode T_DIR 16 300)\<lparr>i_inum := 1, i_ref := 0\<rparr>"
  "inode_at tree_sample 2 = (tree_inode T_FILE 0 0)\<lparr>i_inum := 2, i_ref := 0\<rparr>"
  by (simp_all add: inode_at_def tree_disk_def dinode_off_def put_dinode_other put_dinode_same tree_inode_def sample_inode_def)

lemma tree_sample_slot:
  "j \<le> ISLOT \<Longrightarrow> slot tree_sample (inode_at tree_sample 1) j = (if j = 0 then 300 else 0)"
  "j \<le> ISLOT \<Longrightarrow> slot tree_sample (inode_at tree_sample 2) j = 0"
  by (auto simp: slot_def tree_sample_inodes tree_inode_def nth_Cons split: nat.split)

lemma tree_sample_root: "file_data tree_sample (inode_at tree_sample 1) = dirent 2 [97]"
proof (rule nth_equalityI)
  have z: "unat (i_size (inode_at tree_sample 1)) = 16" by (simp add: tree_sample_inodes tree_inode_def)
  then show "length (file_data tree_sample (inode_at tree_sample 1)) = length (dirent 2 [97])" by (simp add: file_data_def)
  fix l assume "l < length (file_data tree_sample (inode_at tree_sample 1))"
  then have "l < 16" using z by (simp add: file_data_def)
  then show "file_data tree_sample (inode_at tree_sample 1) ! l = dirent 2 [97] ! l"
    using z by (simp add: file_data_nth file_byte_def tree_sample_slot tree_disk_def)
qed

lemma tree_sample_dmap: "dmap tree_sample 1 n = (if n = [97] then Some 2 else None)"
proof -
  have "dents (dirent 2 [97]) = [dirent 2 [97]]" by (simp add: dents_def)
  moreover have "name_of (de_name (dirent 2 [97])) = [97]" by (simp add: name_of_dirent) (simp add: name_of_def)
  ultimately show ?thesis by (simp add: dmap_def tree_sample_root dir_map_def named_def)
qed

lemma tree_sample_tree: "tree tree_sample {1, 2}"
proof -
  have "(of_nat c :: u32) \<noteq> 32" if "480 \<le> c" "c < 1000" for c
  proof
    assume "(of_nat c :: u32) = 32"
    then have "unat (of_nat c :: u32) = unat (32 :: u32)" by simp
    then show False using that by (simp add: unat_of_nat)
  qed
  then have p: "ino_place tree_sample 32" using log_area_100 [of 32] tree_sample_free by (auto simp: ino_place_def)
  have d: "data_block tree_sample 32 300" using log_area_100 [of 300] tree_sample_free [of 300] by (auto simp: data_block_def)
  have f: "file_ok tree_sample (inode_at tree_sample n)" if "n = 1 \<or> n = 2" for n
    using that d by (auto simp: file_ok_def tree_sample_slot split: if_splits) (auto simp: tree_sample_inodes tree_inode_def)
  have w1: "whole tree_sample (inode_at tree_sample 1)"
  proof -
    have "slot tree_sample (inode_at tree_sample 1) k \<noteq> 0" if "k * BSIZE < 16" for k
    proof -
      have "k = 0" using that by simp
      then show ?thesis by (simp add: tree_sample_slot)
    qed
    then show ?thesis by (simp add: whole_def) (simp add: tree_sample_inodes tree_inode_def)
  qed
  have w2: "whole tree_sample (inode_at tree_sample 2)" by (simp add: whole_def tree_sample_inodes tree_inode_def)
  have "good_inode tree_sample 1"
    using p f w1 by (simp add: good_inode_def) (simp add: tree_sample_inodes tree_inode_def sample_inode_def)
  moreover have "good_inode tree_sample 2"
    using p f w2 by (simp add: good_inode_def) (simp add: tree_sample_inodes tree_inode_def sample_inode_def)
  moreover have "is_dir tree_sample 1" "\<not> is_dir tree_sample 2"
    by (simp_all add: is_dir_def tree_sample_inodes tree_inode_def)
  ultimately show ?thesis by (simp add: tree_def tree_sample_dmap)
qed

lemma binit_inode_lock:
  fixes s :: "'z bcache_scheme"
  shows "sleeplocks (binit s) (InodeLk i) = sleeplocks s (InodeLk i)"
proof -
  have "sleeplocks (fold (\<lambda>b s. link_front b (initsleeplock (BufLk b) s)) bs s) (InodeLk i) = sleeplocks s (InodeLk i)"
    for bs and s :: "'z bcache_scheme"
    by (induction bs arbitrary: s) (simp_all add: link_front_def initsleeplock_def set_sleeplock_def Let_def)
  then show ?thesis by (simp add: binit_def)
qed

lemma tree_sample_calm: "fs_calm 0 [] None tree_sample"
proof -
  have "sl_locked (sleeplocks bio_sample (InodeLk i)) = 0" for i
    by (simp add: bio_sample_def binit_inode_lock sltab.defs bcache.defs)
  then have "sl_locked (sleeplocks tree_sample (InodeLk i)) = 0" for i
    by (simp add: tree_sample_def fs_sample_def log_sample_def pinned_sample_def logst.defs fsst.defs)
  then show ?thesis
    using tree_sample_layout tree_sample_free [of 0] by (simp add: fs_calm_def entry_ok_def)
qed

lemma namei_resolves_witness:
  "\<exists>i t. namei [47, 97] tree_sample = Done (Some i) t \<and> i_inum (ino t i) = 2 \<and> blk t = tree_disk"
proof -
  have st: "start_of 0 [47, 97] tree_sample = 1" by (simp add: start_of_def byte0_def)
  have r: "resolve tree_sample 1 (path_elems [47, 97]) = Some 2"
  proof -
    have "path_elems [47, 97] = [[97]]" by code_simp
    then show ?thesis by (simp add: tree_sample_dmap is_dir_def tree_sample_inodes tree_inode_def)
  qed
  have h: "has_start 0 [47, 97] tree_sample {1, 2}" by (simp add: has_start_def st) (simp add: byte0_def)
  have f: "two_free (\<lambda>j. i_ref (ino tree_sample j))"
    unfolding two_free_def by (rule exI [of _ 0], rule conjI, simp, rule exI [of _ 1]) simp
  from namei_resolves [OF tree_sample_calm tree_sample_tree h f, of "[]"] show ?thesis
    unfolding st r by (auto simp: walked_def same_disk_def)
qed

end
