(* ===== verification/Grep.thy ===== *)
theory Grep
  imports Dir
begin

section \<open>user/grep.c\<close>

text \<open>
  The pattern matcher and the read loop of \<open>grep\<close>. A \<open>char *\<close> into a NUL-terminated string is the list
  of bytes from there to the NUL, \<open>*p\<close> is \<open>byte0 p\<close> and \<open>p + 1\<close> is \<open>tl p\<close>. The bytes a file or pipe
  delivers are a list of pieces: a \<open>read\<close> of \<open>n\<close> bytes returns at most \<open>n\<close> bytes of the first piece.
  The program's \<open>main\<close> only opens the files.
\<close>

subsection \<open>match\<close>

abbreviation star :: u8 where "star \<equiv> 42"
abbreviation dollar :: u8 where "dollar \<equiv> 36"
abbreviation caret :: u8 where "caret \<equiv> 94"
abbreviation dot :: u8 where "dot \<equiv> 46"
abbreviation newline :: u8 where "newline \<equiv> 10"

lemma byte0_nonzero: "byte0 xs \<noteq> 0 \<Longrightarrow> xs \<noteq> []"
  by (auto simp: byte0_def)

lemma byte0_simps [simp]: "byte0 [] = 0" "byte0 (x # xs) = x"
  by (simp_all add: byte0_def)

function matchhere :: "u8 list \<Rightarrow> u8 list \<Rightarrow> bool"
  and matchstar :: "u8 \<Rightarrow> u8 list \<Rightarrow> u8 list \<Rightarrow> bool" where
  "matchhere re str =
     (if byte0 re = 0 then True
      else if byte0 (tl re) = star then matchstar (byte0 re) (tl (tl re)) str
      else if byte0 re = dollar \<and> byte0 (tl re) = 0 then byte0 str = 0
      else if byte0 str \<noteq> 0 \<and> (byte0 re = dot \<or> byte0 re = byte0 str) then matchhere (tl re) (tl str)
      else False)"
| "matchstar c re str =
     (if matchhere re str then True
      else if byte0 str \<noteq> 0 \<and> (byte0 str = c \<or> c = dot) then matchstar c re (tl str)
      else False)"
  by pat_completeness auto

termination
proof (relation "inv_image (less_than <*lex*> less_than <*lex*> less_than)
    (\<lambda>x. case x of Inl (re, str) \<Rightarrow> (length re, length str, 0 :: nat) | Inr (c, re, str) \<Rightarrow> (length re, length str, 1))")
qed (auto dest!: byte0_nonzero simp: length_greater_0_conv [symmetric] simp del: length_greater_0_conv)

declare matchhere.simps [simp del] matchstar.simps [simp del]

text \<open>The \<open>do while\<close> loop of \<open>match\<close> for a pattern without \<open>^\<close>.\<close>

fun match_any :: "u8 list \<Rightarrow> u8 list \<Rightarrow> bool" where
  "match_any re [] = matchhere re []"
| "match_any re (c # str) = (if matchhere re (c # str) then True else if c \<noteq> 0 then match_any re str else False)"

definition match :: "u8 list \<Rightarrow> u8 list \<Rightarrow> bool" where
  "match re str = (if byte0 re = caret then matchhere (tl re) str else match_any re str)"

subsection \<open>What a pattern means\<close>

text \<open>
  The reference semantics. A pattern is a list of elements; \<open>describes es w\<close> says that a beginning of \<open>w\<close>
  is described by \<open>es\<close>. A star takes any number of characters, so its meaning quantifies over the splits
  of the text; the matcher tries them in turn.
\<close>

datatype elem = One u8 | Many u8 | End

definition fits :: "u8 \<Rightarrow> u8 \<Rightarrow> bool" where
  "fits x c \<longleftrightarrow> x = dot \<or> x = c"

primrec describes :: "elem list \<Rightarrow> u8 list \<Rightarrow> bool" where
  "describes [] w \<longleftrightarrow> True"
| "describes (e # es) w \<longleftrightarrow> (case e of
     One x \<Rightarrow> (\<exists>c v. w = c # v \<and> fits x c \<and> describes es v)
   | Many x \<Rightarrow> (\<exists>u v. w = u @ v \<and> (\<forall>c \<in> set u. fits x c) \<and> describes es v)
   | End \<Rightarrow> w = [])"

fun elems :: "u8 list \<Rightarrow> elem list" where
  "elems [] = []"
| "elems [x] = (if x = dollar then [End] else [One x])"
| "elems (x # y # re) = (if y = star then Many x # elems re else One x # elems (y # re))"

definition pattern_means :: "u8 list \<Rightarrow> u8 list \<Rightarrow> bool" where
  "pattern_means re w \<longleftrightarrow>
     (if re \<noteq> [] \<and> hd re = caret then describes (elems (tl re)) w
      else \<exists>u v. w = u @ v \<and> describes (elems re) v)"

lemma byte0_zero: "0 \<notin> set xs \<Longrightarrow> byte0 xs = 0 \<longleftrightarrow> xs = []"
  by (cases xs) auto

lemma many_step:
  "(\<exists>u v. w = u @ v \<and> (\<forall>c \<in> set u. fits x c) \<and> P v) \<longleftrightarrow>
     P w \<or> (\<exists>c v. w = c # v \<and> fits x c \<and> (\<exists>u v'. v = u @ v' \<and> (\<forall>c \<in> set u. fits x c) \<and> P v'))"
  (is "?l = ?r")
proof
  assume ?l
  then obtain u v where u: "w = u @ v" "\<forall>c \<in> set u. fits x c" "P v" by blast
  then show ?r by (cases u) auto
next
  assume ?r
  then show ?l
  proof
    assume "P w"
    then show ?l by (intro exI [of _ "[]"] exI [of _ w]) simp
  next
    assume "\<exists>c v. w = c # v \<and> fits x c \<and> (\<exists>u v'. v = u @ v' \<and> (\<forall>c \<in> set u. fits x c) \<and> P v')"
    then obtain c u v' where "w = (c # u) @ v'" "\<forall>d \<in> set (c # u). fits x d" "P v'" by auto
    then show ?l by blast
  qed
qed

lemma matchhere_matchstar_describe:
  "0 \<notin> set re \<Longrightarrow> 0 \<notin> set str \<Longrightarrow> matchhere re str = describes (elems re) str"
  "0 \<notin> set re \<Longrightarrow> 0 \<notin> set str \<Longrightarrow> matchstar c re str =
     (\<exists>u v. str = u @ v \<and> (\<forall>d \<in> set u. fits c d) \<and> describes (elems re) v)"
proof (induction re str and c re str rule: matchhere_matchstar.induct)
  case (1 re str)
  show ?case
  proof (cases re)
    case Nil
    then show ?thesis by (simp add: matchhere.simps)
  next
    case (Cons x r)
    then have x: "x \<noteq> 0" using "1.prems" by auto
    show ?thesis
    proof (cases "byte0 r = star")
      case True
      then obtain r' where r: "r = star # r'" by (cases r) auto
      show ?thesis using 1 x unfolding Cons r by (subst matchhere.simps) simp
    next
      case False
      then have e: "elems (x # r) = (if x = dollar \<and> r = [] then [End] else One x # elems r)"
        by (cases r) auto
      have z: "byte0 r = 0 \<longleftrightarrow> r = []" "byte0 str = 0 \<longleftrightarrow> str = []"
        using "1.prems" Cons by (simp_all add: byte0_zero)
      show ?thesis
      proof (cases "x = dollar \<and> r = []")
        case True
        then show ?thesis using x z by (subst matchhere.simps) (simp add: Cons)
      next
        case F: False
        have IH: "\<And>d t. str = d # t \<Longrightarrow> x = dot \<or> x = d \<Longrightarrow> matchhere r t = describes (elems r) t"
          using "1.IH"(2) "1.prems" F False z x unfolding Cons by auto
        have "matchhere (x # r) str = (case str of [] \<Rightarrow> False | d # t \<Rightarrow> (x = dot \<or> x = d) \<and> matchhere r t)"
          using x F False z "1.prems" by (subst matchhere.simps) (auto split: list.splits)
        also have "\<dots> = describes (elems (x # r)) str"
          unfolding e using F IH by (auto simp: fits_def split: list.splits)
        finally show ?thesis unfolding Cons .
      qed
    qed
  qed
next
  case (2 c re str)
  have z: "byte0 str = 0 \<longleftrightarrow> str = []" using "2.prems" by (simp add: byte0_zero)
  have IH: "\<not> matchhere re str \<Longrightarrow> str = d # t \<Longrightarrow> fits c d \<Longrightarrow> matchstar c re t =
      (\<exists>u v. t = u @ v \<and> (\<forall>d \<in> set u. fits c d) \<and> describes (elems re) v)" for d t
    using "2.IH"(2) "2.prems" by (auto simp: fits_def)
  have "matchstar c re str = (matchhere re str \<or> (\<exists>d t. str = d # t \<and> fits c d \<and> matchstar c re t))"
    using z by (subst matchstar.simps) (cases str; auto simp: fits_def)
  also have "\<dots> = (describes (elems re) str \<or> (\<exists>d t. str = d # t \<and> fits c d \<and>
      (\<exists>u v. t = u @ v \<and> (\<forall>d \<in> set u. fits c d) \<and> describes (elems re) v)))"
  proof (cases "matchhere re str")
    case True
    then show ?thesis using "2.IH"(1) [OF "2.prems"] by simp
  next
    case False
    then have "(\<exists>d t. str = d # t \<and> fits c d \<and> matchstar c re t) = (\<exists>d t. str = d # t \<and> fits c d \<and>
      (\<exists>u v. t = u @ v \<and> (\<forall>d \<in> set u. fits c d) \<and> describes (elems re) v))"
      by (intro ex_cong1 conj_cong refl) (rule IH)
    then show ?thesis using False "2.IH"(1) [OF "2.prems"] by (simp only: )
  qed
  finally show ?case unfolding many_step [of str c "describes (elems re)"] .
qed

lemma match_any_describe:
  "0 \<notin> set re \<Longrightarrow> 0 \<notin> set str \<Longrightarrow> match_any re str = (\<exists>u v. str = u @ v \<and> describes (elems re) v)"
proof (induction str)
  case (Cons c str)
  have "(\<exists>u v. c # str = u @ v \<and> describes (elems re) v) =
      (describes (elems re) (c # str) \<or> (\<exists>u v. str = u @ v \<and> describes (elems re) v))"
    by (metis append_Cons append_Nil append_eq_Cons_conv)
  then show ?case using Cons matchhere_matchstar_describe(1) [of re "c # str"] by auto
qed (simp add: matchhere_matchstar_describe(1))

text \<open>
  C21: the matcher finds exactly the texts its pattern describes. For a pattern and a text without NUL
  bytes \<open>match\<close> returns true if and only if some part of the text (for a pattern with \<open>^\<close>, a part that
  starts the text) is described by the elements of the pattern, where a starred character stands for any
  number of fitting characters, \<open>.\<close> fits every character and a final \<open>$\<close> only the end.
\<close>
theorem match_correct:
  assumes "0 \<notin> set re" and "0 \<notin> set str"
  shows "match re str = pattern_means re str"
proof (cases "re \<noteq> [] \<and> hd re = caret")
  case True
  then obtain r where "re = caret # r" by (cases re) auto
  then show ?thesis using assms by (simp add: match_def pattern_means_def matchhere_matchstar_describe(1))
next
  case False
  then have "byte0 re \<noteq> caret" by (cases re) auto
  then show ?thesis using False assms by (auto simp: match_def pattern_means_def match_any_describe)
qed

text \<open>\<open>^a.*c$\<close> against \<open>abbc\<close>.\<close>

lemma match_correct_witness:
  "match [94, 97, 46, 42, 99, 36] [97, 98, 98, 99] \<and> pattern_means [94, 97, 46, 42, 99, 36] [97, 98, 98, 99]"
proof -
  have "match [94, 97, 46, 42, 99, 36] [97, 98, 98, 99]"
    by (simp add: match_def matchhere.simps matchstar.simps)
  then show ?thesis using match_correct [of "[94, 97, 46, 42, 99, 36]" "[97, 98, 98, 99]"] by simp
qed

subsection \<open>The read loop\<close>

text \<open>
  \<open>buf\<close> is the array's first \<open>m\<close> bytes. \<open>strchr(p, '\\n')\<close> runs to the first newline or NUL: what it finds
  is the line up to it and what follows. \<open>out\<close> is what is written to descriptor 1.
\<close>

definition split_line :: "u8 list \<Rightarrow> (u8 list \<times> u8 list) option" where
  "split_line p = (case dropWhile (\<lambda>c. c \<noteq> newline \<and> c \<noteq> 0) p of
     [] \<Rightarrow> None
   | c # r \<Rightarrow> if c = newline then Some (takeWhile (\<lambda>c. c \<noteq> newline \<and> c \<noteq> 0) p, r) else None)"

lemma split_line_shorter: "split_line p = Some (l, r) \<Longrightarrow> length r < length p"
proof -
  assume "split_line p = Some (l, r)"
  then have "dropWhile (\<lambda>c. c \<noteq> newline \<and> c \<noteq> 0) p = newline # r"
    by (auto simp: split_line_def split: list.splits if_splits)
  then show ?thesis using length_dropWhile_le [of "\<lambda>c. c \<noteq> newline \<and> c \<noteq> 0" p] by simp
qed

function grep_lines :: "u8 list \<Rightarrow> u8 list \<Rightarrow> u8 list \<times> u8 list" where
  "grep_lines re p = (case split_line p of
     None \<Rightarrow> ([], p)
   | Some (l, r) \<Rightarrow>
       (case grep_lines re r of (out, rest) \<Rightarrow> ((if match re l then l @ [newline] else []) @ out, rest)))"
  by pat_completeness auto
termination by (relation "measure (\<lambda>(re, p). length p)") (auto dest: split_line_shorter)

declare grep_lines.simps [simp del]

definition read_piece :: "nat \<Rightarrow> u8 list list \<Rightarrow> u8 list \<times> u8 list list" where
  "read_piece n cs = (case cs of
     [] \<Rightarrow> ([], [])
   | c # cs \<Rightarrow> (take n c, if length c \<le> n then cs else drop n c # cs))"

abbreviation BUF_SIZE :: nat where "BUF_SIZE \<equiv> 1024"

function grep_loop :: "u8 list \<Rightarrow> u8 list \<Rightarrow> u8 list list \<Rightarrow> u8 list" where
  "grep_loop re buf cs =
     (case read_piece (BUF_SIZE - length buf - 1) cs of (bytes, cs') \<Rightarrow>
        if bytes = [] then []
        else (case grep_lines re (buf @ bytes) of (out, rest) \<Rightarrow> out @ grep_loop re rest cs'))"
  by pat_completeness auto
termination
  by (relation "measure (\<lambda>(re, buf, cs). length (concat cs))")
    (auto simp: read_piece_def split: list.splits if_splits)

declare grep_loop.simps [simp del]

definition grep :: "u8 list \<Rightarrow> u8 list list \<Rightarrow> u8 list" where
  "grep re cs = grep_loop re [] cs"

subsection \<open>What is printed\<close>

text \<open>The lines of the input that end in a newline, and what comes after the last newline.\<close>

fun lines_of :: "u8 list \<Rightarrow> u8 list list \<times> u8 list" where
  "lines_of [] = ([], [])"
| "lines_of (c # w) = (case lines_of w of (ls, t) \<Rightarrow>
     if c = newline then ([] # ls, t)
     else (case ls of [] \<Rightarrow> ([], c # t) | l # ls \<Rightarrow> ((c # l) # ls, t)))"

definition matching_lines :: "u8 list \<Rightarrow> u8 list \<Rightarrow> u8 list" where
  "matching_lines re w = concat (map (\<lambda>l. l @ [newline]) (filter (match re) (fst (lines_of w))))"

text \<open>No line, the last one included, is longer than \<open>n\<close>.\<close>

definition lines_within :: "nat \<Rightarrow> u8 list \<Rightarrow> bool" where
  "lines_within n w \<longleftrightarrow> (\<forall>l \<in> set (fst (lines_of w)). length l \<le> n) \<and> length (snd (lines_of w)) \<le> n"

lemma lines_of_line:
  "newline \<notin> set l \<Longrightarrow> lines_of (l @ newline # w) = (l # fst (lines_of w), snd (lines_of w))"
  by (induction l) (auto split: prod.splits)

lemma lines_of_tail: "newline \<notin> set t \<Longrightarrow> lines_of t = ([], t)"
  by (induction t) auto

lemma split_line_cases:
  assumes "0 \<notin> set p"
  obtains (line) l r where "split_line p = Some (l, r)" "p = l @ newline # r" "newline \<notin> set l"
    | (tail) "split_line p = None" "newline \<notin> set p"
proof (cases "dropWhile (\<lambda>c. c \<noteq> newline \<and> c \<noteq> 0) p")
  case Nil
  then have "newline \<notin> set p" by (auto simp: dropWhile_eq_Nil_conv)
  with Nil show ?thesis by (intro tail) (simp_all add: split_line_def del: dropWhile_eq_Nil_conv)
next
  case (Cons c r)
  have p: "p = takeWhile (\<lambda>c. c \<noteq> newline \<and> c \<noteq> 0) p @ c # r"
    using takeWhile_dropWhile_id [of "\<lambda>c. c \<noteq> newline \<and> c \<noteq> 0" p] unfolding Cons by simp
  have "c \<in> set p" by (subst p) simp
  moreover have "c = newline \<or> c = 0"
    using hd_dropWhile [of "\<lambda>c. c \<noteq> newline \<and> c \<noteq> 0" p] unfolding Cons by simp
  ultimately have c: "c = newline" using assms by metis
  have n: "newline \<notin> set (takeWhile (\<lambda>c. c \<noteq> newline \<and> c \<noteq> 0) p)" by (auto dest: set_takeWhileD)
  have "split_line p = Some (takeWhile (\<lambda>c. c \<noteq> newline \<and> c \<noteq> 0) p, r)"
    unfolding split_line_def Cons c by simp
  from line [OF this p [unfolded c] n] show ?thesis .
qed

lemma grep_lines_eq:
  "0 \<notin> set p \<Longrightarrow> grep_lines re p = (matching_lines re p, snd (lines_of p))"
proof (induction re p rule: grep_lines.induct)
  case (1 re p)
  from "1.prems" show ?case
  proof (cases rule: split_line_cases)
    case (line l r)
    have "grep_lines re r = (matching_lines re r, snd (lines_of r))"
      by (rule "1.IH" [OF line(1) refl]) (use "1.prems" line(2) in auto)
    then show ?thesis using line(1)
      by (subst grep_lines.simps) (simp add: line(2) lines_of_line [OF line(3)] matching_lines_def)
  next
    case tail
    then show ?thesis by (subst grep_lines.simps) (simp add: lines_of_tail matching_lines_def)
  qed
qed

lemma lines_of_append:
  "lines_of (u @ w) = (fst (lines_of u) @ fst (lines_of (snd (lines_of u) @ w)), snd (lines_of (snd (lines_of u) @ w)))"
  by (induction u) (auto split: prod.splits list.splits)

lemma lines_of_prefix:
  "newline \<notin> set t \<Longrightarrow> lines_of (t @ w) = (case lines_of w of (ls, u) \<Rightarrow>
     case ls of [] \<Rightarrow> ([], t @ u) | l # ls \<Rightarrow> ((t @ l) # ls, u))"
  by (induction t) (auto split: prod.splits list.splits)

lemma newline_notin_tail: "newline \<notin> set (snd (lines_of w))"
  by (induction w) (auto split: prod.splits list.splits)

lemma set_lines_of_tail: "set (snd (lines_of w)) \<subseteq> set w"
  by (induction w) (auto split: prod.splits list.splits)

text \<open>
  C34: \<open>grep\<close> prints exactly the matching lines, in order, however the input is cut into pieces: for an
  input without NUL bytes whose lines have at most 1022 bytes, delivered in any non-empty pieces, the
  output is the concatenation of the newline-terminated lines that match the pattern.
\<close>
theorem grep_prints_matching_lines:
  assumes "\<forall>c \<in> set cs. c \<noteq> []" and "0 \<notin> set (concat cs)" and "lines_within (BUF_SIZE - 2) (concat cs)"
  shows "grep re cs = matching_lines re (concat cs)"
proof -
  have "grep_loop re buf cs = matching_lines re (buf @ concat cs)"
    if "\<forall>c \<in> set cs. c \<noteq> []" "0 \<notin> set (buf @ concat cs)" "lines_within (BUF_SIZE - 2) (buf @ concat cs)"
      "newline \<notin> set buf" "length buf \<le> BUF_SIZE - 2" for buf
    using that
  proof (induction re buf cs rule: grep_loop.induct)
    case (1 re buf cs)
    show ?case
    proof (cases cs)
      case Nil
      then show ?thesis using "1.prems"(4)
        by (subst grep_loop.simps) (simp add: read_piece_def matching_lines_def lines_of_tail)
    next
      case (Cons c cs0)
      obtain bytes cs' where rp: "read_piece (BUF_SIZE - length buf - 1) cs = (bytes, cs')" by fastforce
      have b: "bytes \<noteq> []" "concat cs = bytes @ concat cs'" "\<forall>c \<in> set cs'. c \<noteq> []"
        using rp "1.prems"(1,5) unfolding Cons by (auto simp: read_piece_def split: if_splits)
      let ?t = "snd (lines_of (buf @ bytes))"
      have z: "0 \<notin> set (buf @ bytes)" using "1.prems"(2) b(2) by auto
      have gl: "grep_lines re (buf @ bytes) = (matching_lines re (buf @ bytes), ?t)"
        by (rule grep_lines_eq [OF z])
      note la = lines_of_append [of "buf @ bytes" "concat cs'"]
      have "grep_loop re ?t cs' = matching_lines re (?t @ concat cs')"
      proof (rule "1.IH" [OF rp [symmetric] b(1) gl [symmetric] b(3)])
        show "0 \<notin> set (?t @ concat cs')"
          using "1.prems"(2) set_lines_of_tail [of "buf @ bytes"] unfolding b(2) by auto
        show w: "lines_within (BUF_SIZE - 2) (?t @ concat cs')"
          using "1.prems"(3) la unfolding b(2) lines_within_def by auto
        show "newline \<notin> set ?t" by (rule newline_notin_tail)
        show "length ?t \<le> BUF_SIZE - 2"
          using w lines_of_prefix [OF newline_notin_tail, of "buf @ bytes" "concat cs'"]
          by (auto simp: lines_within_def split: prod.splits list.splits)
      qed
      then show ?thesis
        using rp b(1) gl la by (subst grep_loop.simps) (simp add: b(2) matching_lines_def)
    qed
  qed
  from this [of "[]"] show ?thesis using assms by (simp add: grep_def)
qed

lemma grep_prints_matching_lines_witness:
  "grep [97] [[98, 97], [10, 98], [10, 97, 10]] = [98, 97, 10, 97, 10]"
proof -
  have "lines_within (BUF_SIZE - 2) (concat [[98, 97], [10, 98], [10, 97, 10]])" by (simp add: lines_within_def)
  then have "grep [97] [[98, 97], [10, 98], [10, 97, 10]] = matching_lines [97] (concat [[98, 97], [10, 98], [10, 97, 10]])"
    by (intro grep_prints_matching_lines) auto
  also have "\<dots> = [98, 97, 10, 97, 10]"
    by (simp add: matching_lines_def match_def matchhere.simps)
  finally show ?thesis .
qed

text \<open>Longer lines end the loop: the read asks for no bytes, and the rest of the input is not searched.\<close>

lemma grep_stops_at_long_line:
  assumes "length l = BUF_SIZE - 1" and "newline \<notin> set l" and "0 \<notin> set l"
  shows "grep re (l # cs) = []"
proof -
  have "grep_lines re l = ([], l)"
    using grep_lines_eq [OF assms(3)] assms(2) by (simp add: lines_of_tail matching_lines_def)
  moreover have "grep_loop re l cs = []"
    using assms(1) by (subst grep_loop.simps) (auto simp: read_piece_def split: list.split prod.split)
  moreover have "l \<noteq> []" using assms(1) by auto
  ultimately show ?thesis
    using assms(1) unfolding grep_def by (subst grep_loop.simps) (simp add: read_piece_def)
qed

end
