(* ===== verification/Hashtable.thy ===== *)
theory Hashtable
  imports Main
begin

section \<open>notxv6/ph-without-locks.c and ph-with-mutex-locks.c\<close>

text \<open>
  The hash table that several POSIX threads fill at once. One step of a thread is one access to shared
  memory or one operation on a mutex; a schedule is the list of the threads that take the next steps. The
  flag \<open>lk\<close> of the steps tells the two programs apart: with it, \<open>put\<close> takes the mutex of its bucket. An
  entry is the number \<open>malloc\<close> gave it, \<open>entries\<close> its fields; \<open>malloc\<close> never returns an object twice.
  The keys come from \<open>random()\<close> and are not negative.
\<close>

abbreviation NBUCKET :: nat where "NBUCKET \<equiv> 5"

record entry =
  e_key :: nat
  e_value :: nat
  e_next :: "nat option"

text \<open>
  Where a thread is: between two calls of \<open>put\<close>, waiting for the mutex, before the loop, in the loop at an
  entry, about to write the value, in the call of \<open>insert\<close> with the argument \<open>n\<close>, about to execute
  \<open>*p = e\<close>, at the end of \<open>put\<close>.
\<close>

datatype pc = Ready | Locking nat | Start nat | Walk nat "nat option" | Update nat nat
  | Inserting nat "nat option" | Link nat nat | Leaving nat

record hstate =
  table :: "nat \<Rightarrow> nat option"
  entries :: "nat \<Rightarrow> entry"
  allocated :: nat
  locks :: "nat \<Rightarrow> nat option"
  pcs :: "nat \<Rightarrow> pc"
  todo :: "nat \<Rightarrow> nat list"

definition bucket :: "nat \<Rightarrow> nat" where
  "bucket key = key mod NBUCKET"

abbreviation goto :: "nat \<Rightarrow> pc \<Rightarrow> hstate \<Rightarrow> hstate" where
  "goto t p s \<equiv> s\<lparr>pcs := (pcs s)(t := p)\<rparr>"

text \<open>\<open>insert\<close> up to the last assignment: the new entry is filled in, not yet linked.\<close>

definition insert_entry :: "nat \<Rightarrow> nat \<Rightarrow> nat option \<Rightarrow> hstate \<Rightarrow> hstate" where
  "insert_entry key val n s = s\<lparr>entries := (entries s)(allocated s := \<lparr>e_key = key, e_value = val, e_next = n\<rparr>),
     allocated := Suc (allocated s)\<rparr>"

text \<open>A step of thread \<open>t\<close>; the state stays as it is when the thread waits or has finished.\<close>

definition put_step :: "bool \<Rightarrow> nat \<Rightarrow> hstate \<Rightarrow> hstate" where
  "put_step lk t s = (case pcs s t of
     Ready \<Rightarrow> (case todo s t of [] \<Rightarrow> s | k # _ \<Rightarrow> goto t (if lk then Locking k else Start k) s)
   | Locking k \<Rightarrow>
       if locks s (bucket k) = None
       then goto t (Start k) (s\<lparr>locks := (locks s)(bucket k := Some t)\<rparr>) else s
   | Start k \<Rightarrow> goto t (Walk k (table s (bucket k))) s
   | Walk k None \<Rightarrow> goto t (Inserting k (table s (bucket k))) s
   | Walk k (Some e) \<Rightarrow>
       if e_key (entries s e) = k then goto t (Update k e) s else goto t (Walk k (e_next (entries s e))) s
   | Update k e \<Rightarrow>
       goto t (Leaving k) (s\<lparr>entries := (entries s)(e := (entries s e)\<lparr>e_value := t\<rparr>)\<rparr>)
   | Inserting k n \<Rightarrow> goto t (Link k (allocated s)) (insert_entry k t n s)
   | Link k e \<Rightarrow> goto t (Leaving k) (s\<lparr>table := (table s)(bucket k := Some e)\<rparr>)
   | Leaving k \<Rightarrow>
       goto t Ready (s\<lparr>locks := (if lk then (locks s)(bucket k := None) else locks s),
         todo := (todo s)(t := tl (todo s t))\<rparr>))"

definition run_puts :: "bool \<Rightarrow> nat list \<Rightarrow> hstate \<Rightarrow> hstate" where
  "run_puts lk sched s = fold (put_step lk) sched s"

text \<open>The start of the puts: thread \<open>t\<close> will put the keys \<open>K t\<close>, with its number as value.\<close>

definition start_puts :: "(nat \<Rightarrow> nat list) \<Rightarrow> hstate" where
  "start_puts K = \<lparr>table = (\<lambda>_. None), entries = (\<lambda>_. \<lparr>e_key = 0, e_value = 0, e_next = None\<rparr>), allocated = 0,
     locks = (\<lambda>_. None), pcs = (\<lambda>_. Ready), todo = K\<rparr>"

text \<open>The loop of \<open>get\<close>; a chain without a cycle has at most \<open>allocated\<close> entries.\<close>

primrec get_loop :: "nat \<Rightarrow> (nat \<Rightarrow> entry) \<Rightarrow> nat option \<Rightarrow> nat \<Rightarrow> nat option" where
  "get_loop 0 es e key = None"
| "get_loop (Suc n) es e key = (case e of
     None \<Rightarrow> None
   | Some a \<Rightarrow> if e_key (es a) = key then Some a else get_loop n es (e_next (es a)) key)"

definition get :: "nat \<Rightarrow> hstate \<Rightarrow> nat option" where
  "get key s = get_loop (Suc (allocated s)) (entries s) (table s (bucket key)) key"

text \<open>What \<open>get_thread\<close> counts.\<close>

definition keys_missing :: "nat list \<Rightarrow> hstate \<Rightarrow> nat" where
  "keys_missing keys s = length (filter (\<lambda>k. get k s = None) keys)"

definition puts_finished :: "hstate \<Rightarrow> bool" where
  "puts_finished s \<longleftrightarrow> (\<forall>t. pcs s t = Ready \<and> todo s t = [])"

subsection \<open>Chains\<close>

text \<open>\<open>chain es a xs\<close>: the links from \<open>a\<close> lead through the entries \<open>xs\<close> to the null pointer.\<close>

primrec chain :: "(nat \<Rightarrow> entry) \<Rightarrow> nat option \<Rightarrow> nat list \<Rightarrow> bool" where
  "chain es a [] \<longleftrightarrow> a = None"
| "chain es a (x # xs) \<longleftrightarrow> a = Some x \<and> chain es (e_next (es x)) xs"

lemma chain_cong:
  "(\<And>x. x \<in> set xs \<Longrightarrow> e_next (es' x) = e_next (es x)) \<Longrightarrow> chain es' a xs = chain es a xs"
  by (induction xs arbitrary: a) simp_all

lemma chain_suffix: "chain es a xs \<Longrightarrow> x \<in> set xs \<Longrightarrow> \<exists>ys. chain es (Some x) ys \<and> set ys \<subseteq> set xs"
proof (induction xs arbitrary: a)
  case (Cons y ys)
  show ?case
  proof (cases "x = y")
    case True
    then show ?thesis using Cons.prems(1) by (intro exI [of _ "y # ys"]) auto
  next
    case False
    with Cons obtain zs where "chain es (Some x) zs" "set zs \<subseteq> set ys" by auto
    then show ?thesis by auto
  qed
qed simp

lemma chain_next:
  assumes "chain es a xs" and "x \<in> set xs" and "e_next (es x) = Some y"
  shows "y \<in> set xs"
proof -
  obtain ys where "chain es (Some x) ys" "set ys \<subseteq> set xs" using chain_suffix [OF assms(1,2)] by blast
  then show ?thesis using assms(3) by (cases ys; cases "tl ys") auto
qed

lemma get_loop_finds:
  assumes "chain es a xs" and "length xs < n" and "x \<in> set xs" and "e_key (es x) = k"
  shows "\<exists>y. get_loop n es a k = Some y \<and> e_key (es y) = k"
  using assms
proof (induction xs arbitrary: a n)
  case (Cons y ys)
  then obtain m where "n = Suc m" by (cases n) auto
  with Cons show ?case by auto
qed simp

subsection \<open>The table under the mutexes\<close>

definition key_of :: "pc \<Rightarrow> nat option" where
  "key_of p = (case p of Ready \<Rightarrow> None | Locking k \<Rightarrow> None | Start k \<Rightarrow> Some k | Walk k _ \<Rightarrow> Some k
     | Update k _ \<Rightarrow> Some k | Inserting k _ \<Rightarrow> Some k | Link k _ \<Rightarrow> Some k | Leaving k \<Rightarrow> Some k)"

definition stored :: "hstate \<Rightarrow> (nat \<Rightarrow> nat list) \<Rightarrow> nat \<Rightarrow> bool" where
  "stored s C k \<longleftrightarrow> (\<exists>x \<in> set (C (bucket k)). e_key (entries s x) = k)"

text \<open>What holds at each point of \<open>put\<close>; \<open>C i\<close> are the entries of bucket \<open>i\<close>.\<close>

definition at_pc :: "hstate \<Rightarrow> (nat \<Rightarrow> nat list) \<Rightarrow> pc \<Rightarrow> bool" where
  "at_pc s C p = (case p of
     Walk k (Some e) \<Rightarrow> e \<in> set (C (bucket k))
   | Update k e \<Rightarrow> e \<in> set (C (bucket k)) \<and> e_key (entries s e) = k
   | Inserting k n \<Rightarrow> n = table s (bucket k)
   | Link k e \<Rightarrow> e < allocated s \<and> (\<forall>i. e \<notin> set (C i)) \<and> e_key (entries s e) = k \<and>
       e_next (entries s e) = table s (bucket k)
   | Leaving k \<Rightarrow> stored s C k
   | _ \<Rightarrow> True)"

definition pending_key :: "pc \<Rightarrow> nat option" where
  "pending_key p = (case p of Locking k \<Rightarrow> Some k | _ \<Rightarrow> key_of p)"

definition put_inv :: "(nat \<Rightarrow> nat list) \<Rightarrow> hstate \<Rightarrow> (nat \<Rightarrow> nat list) \<Rightarrow> bool" where
  "put_inv K s C \<longleftrightarrow>
     (\<forall>i. chain (entries s) (table s i) (C i) \<and> set (C i) \<subseteq> {..<allocated s} \<and> distinct (C i)) \<and>
     (\<forall>t k. key_of (pcs s t) = Some k \<longrightarrow> locks s (bucket k) = Some t) \<and>
     (\<forall>t k. pending_key (pcs s t) = Some k \<longrightarrow> todo s t \<noteq> [] \<and> hd (todo s t) = k) \<and>
     (\<forall>t. at_pc s C (pcs s t)) \<and>
     (\<forall>t t' e e' k k'. pcs s t = Link k e \<longrightarrow> pcs s t' = Link k' e' \<longrightarrow> t \<noteq> t' \<longrightarrow> e \<noteq> e') \<and>
     (\<forall>t k. k \<in> set (K t) \<longrightarrow> k \<in> set (todo s t) \<or> stored s C k)"

lemma put_invI:
  assumes "\<And>i. chain (entries s) (table s i) (C i)" "\<And>i. set (C i) \<subseteq> {..<allocated s}" "\<And>i. distinct (C i)"
    and "\<And>t k. key_of (pcs s t) = Some k \<Longrightarrow> locks s (bucket k) = Some t"
    and "\<And>t k. pending_key (pcs s t) = Some k \<Longrightarrow> todo s t \<noteq> [] \<and> hd (todo s t) = k"
    and "\<And>t. at_pc s C (pcs s t)"
    and "\<And>t t' e e' k k'. pcs s t = Link k e \<Longrightarrow> pcs s t' = Link k' e' \<Longrightarrow> t \<noteq> t' \<Longrightarrow> e \<noteq> e'"
    and "\<And>t k. k \<in> set (K t) \<Longrightarrow> k \<in> set (todo s t) \<or> stored s C k"
  shows "put_inv K s C"
  unfolding put_inv_def by (intro conjI allI impI) (use assms in blast)+

lemma put_invD:
  assumes "put_inv K s C"
  shows "chain (entries s) (table s i) (C i)" "set (C i) \<subseteq> {..<allocated s}" "distinct (C i)"
    and "key_of (pcs s t) = Some k \<Longrightarrow> locks s (bucket k) = Some t"
    and "pending_key (pcs s t) = Some k \<Longrightarrow> todo s t \<noteq> [] \<and> hd (todo s t) = k"
    and "at_pc s C (pcs s t)"
    and "pcs s t = Link k e \<Longrightarrow> pcs s t' = Link k' e' \<Longrightarrow> t \<noteq> t' \<Longrightarrow> e \<noteq> e'"
    and "k \<in> set (K t) \<Longrightarrow> k \<in> set (todo s t) \<or> stored s C k"
  using assms unfolding put_inv_def by blast+

lemma at_pc_pcs [simp]: "at_pc (s\<lparr>pcs := x\<rparr>) = at_pc s" "stored (s\<lparr>pcs := x\<rparr>) = stored s"
  "at_pc (s\<lparr>locks := l\<rparr>) = at_pc s" "stored (s\<lparr>locks := l\<rparr>) = stored s"
  "at_pc (s\<lparr>todo := d\<rparr>) = at_pc s" "stored (s\<lparr>todo := d\<rparr>) = stored s"
  by (simp_all add: at_pc_def stored_def fun_eq_iff split: pc.splits option.splits)

lemma key_pending: "key_of p = Some k \<Longrightarrow> pending_key p = Some k"
  by (cases p) (simp_all add: key_of_def pending_key_def)

lemma goto_inv:
  assumes "put_inv K s C" and "at_pc s C p"
    and "\<And>k. key_of p = Some k \<Longrightarrow> locks s (bucket k) = Some t"
    and "\<And>k. pending_key p = Some k \<Longrightarrow> todo s t \<noteq> [] \<and> hd (todo s t) = k"
    and "\<And>k e k' e' t'. p = Link k e \<Longrightarrow> pcs s t' = Link k' e' \<Longrightarrow> t' \<noteq> t \<Longrightarrow> e \<noteq> e'"
  shows "put_inv K (goto t p s) C"
proof (rule put_invI)
  fix t1 t2 e e' k k'
  assume "pcs (goto t p s) t1 = Link k e" "pcs (goto t p s) t2 = Link k' e'" "t1 \<noteq> t2"
  then show "e \<noteq> e'"
    using assms(5) [of k e] assms(5) [of k' e'] put_invD(7) [OF assms(1), of t1 k e t2 k' e']
    by (auto split: if_splits)
qed (use put_invD [OF assms(1)] assms(2-4) in \<open>auto split: if_splits\<close>)

text \<open>The threads in the critical section of a bucket other than the owner of its mutex: there is none.\<close>

lemma other_bucket:
  assumes "put_inv K s C" and "locks s b = Some t" and "key_of (pcs s t') = Some k" and "t' \<noteq> t"
  shows "bucket k \<noteq> b"
  using put_invD(4) [OF assms(1,3)] assms(2,4) by auto

lemma lock_inv:
  assumes "put_inv K s C" and "locks s b = None"
  shows "put_inv K (s\<lparr>locks := (locks s)(b := Some t)\<rparr>) C"
proof (rule put_invI)
  fix t' k
  assume "key_of (pcs (s\<lparr>locks := (locks s)(b := Some t)\<rparr>) t') = Some k"
  then have "locks s (bucket k) = Some t'" using put_invD(4) [OF assms(1)] by simp
  then show "locks (s\<lparr>locks := (locks s)(b := Some t)\<rparr>) (bucket k) = Some t'" using assms(2) by auto
qed (use put_invD [OF assms(1)] in auto)

lemma write_value_inv:
  assumes "put_inv K s C"
  shows "put_inv K (s\<lparr>entries := (entries s)(e := (entries s e)\<lparr>e_value := v\<rparr>)\<rparr>) C" (is "put_inv K ?s C")
proof -
  have f: "e_next (entries ?s x) = e_next (entries s x)" "e_key (entries ?s x) = e_key (entries s x)" for x by auto
  have st: "stored ?s C = stored s C" unfolding stored_def f by simp
  have "at_pc ?s C p = at_pc s C p" for p unfolding at_pc_def st f by (simp split: pc.split option.split)
  moreover have "chain (entries ?s) a xs = chain (entries s) a xs" for a xs by (rule chain_cong) (rule f)
  ultimately show ?thesis using put_invD [OF assms] st by (intro put_invI) auto
qed

lemma insert_entry_inv:
  assumes "put_inv K s C"
  shows "put_inv K (insert_entry k v n s) C"
proof -
  let ?s = "insert_entry k v n s"
  have f: "x < allocated s \<Longrightarrow> entries ?s x = entries s x" for x by (simp add: insert_entry_def)
  have sub: "x \<in> set (C i) \<Longrightarrow> x < allocated s" for x i using put_invD(2) [OF assms, of i] by auto
  have st: "stored ?s C = stored s C" using f sub by (auto simp: stored_def fun_eq_iff)
  have "at_pc ?s C p" if "at_pc s C p" for p
    using that f sub unfolding at_pc_def st by (auto simp: insert_entry_def split: pc.splits option.splits)
  moreover have "chain (entries ?s) (table s i) (C i)" for i
    using put_invD(1) [OF assms, of i] chain_cong [of "C i" "entries ?s" "entries s"] f sub by auto
  ultimately show ?thesis
    using put_invD [OF assms] st by (intro put_invI) (auto simp: insert_entry_def less_SucI sub)
qed

lemma link_inv:
  assumes inv: "put_inv K s C" and t: "pcs s t = Link k e"
  shows "put_inv K (goto t (Leaving k) (s\<lparr>table := (table s)(bucket k := Some e)\<rparr>)) (C(bucket k := e # C (bucket k)))"
    (is "put_inv K ?s ?C")
proof -
  note D = put_invD [OF inv]
  have e: "e < allocated s" "e \<notin> set (C i)" "e_key (entries s e) = k" "e_next (entries s e) = table s (bucket k)" for i
    using D(6) [of t] unfolding t at_pc_def by simp_all
  have lk: "locks s (bucket k) = Some t" using D(4) [of t k] t by (simp add: key_of_def)
  have mono: "stored s C j \<Longrightarrow> stored ?s ?C j" for j by (auto simp: stored_def)
  have new: "stored ?s ?C k" using e(3) by (simp add: stored_def)
  have other: "at_pc ?s ?C (pcs s u)" if u: "u \<noteq> t" for u
  proof -
    have ob: "key_of (pcs s u) = Some j \<Longrightarrow> bucket j \<noteq> bucket k" for j by (rule other_bucket [OF inv lk _ u])
    show ?thesis
      using D(6) [of u] ob mono D(7) [OF t, of u] u
      by (auto simp: at_pc_def key_of_def split: pc.splits option.splits)
  qed
  show ?thesis
  proof (rule put_invI)
    fix u
    show "at_pc ?s ?C (pcs ?s u)" using other [of u] new by (auto simp: at_pc_def)
  next
    fix u j
    assume "j \<in> set (K u)"
    then show "j \<in> set (todo ?s u) \<or> stored ?s ?C j" using D(8) mono by auto
  next
    fix t1 t2 e1 e2 k1 k2
    assume "pcs ?s t1 = Link k1 e1" "pcs ?s t2 = Link k2 e2" "t1 \<noteq> t2"
    then show "e1 \<noteq> e2" using D(7) [of t1 k1 e1 t2 k2 e2] by (auto split: if_splits)
  qed (use D e lk D(5) [of t k] t in \<open>auto simp: key_of_def pending_key_def split: if_splits\<close>)
qed

lemma leave_inv:
  assumes inv: "put_inv K s C" and t: "pcs s t = Leaving k"
  shows "put_inv K (goto t Ready (s\<lparr>locks := (locks s)(bucket k := None), todo := (todo s)(t := tl (todo s t))\<rparr>)) C"
    (is "put_inv K ?s C")
proof (rule put_invI)
  note D = put_invD [OF inv]
  have lk: "locks s (bucket k) = Some t" using D(4) [of t k] t by (simp add: key_of_def)
  show "locks ?s (bucket j) = Some u" if "key_of (pcs ?s u) = Some j" for u j
    using that other_bucket [OF inv lk, of u j] D(4) [of u j] by (auto simp: key_of_def split: if_splits)
  have hd: "todo s t \<noteq> []" "hd (todo s t) = k" "stored s C k"
    using D(5) [of t k] D(6) [of t] t by (simp_all add: pending_key_def key_of_def at_pc_def)
  show "j \<in> set (todo ?s u) \<or> stored ?s C j" if "j \<in> set (K u)" for u j
    using D(8) [OF that] hd by (cases "todo s t") (auto simp: stored_def)
  show "e \<noteq> e'" if "pcs ?s t1 = Link k1 e" "pcs ?s t2 = Link k2 e'" "t1 \<noteq> t2" for t1 t2 e e' k1 k2
    using that D(7) [of t1 k1 e t2 k2 e'] by (auto split: if_splits)
  show "at_pc ?s C (pcs ?s u)" for u using D(6) [of u] by (auto simp: at_pc_def)
qed (use put_invD [OF inv] in \<open>auto simp: pending_key_def key_of_def split: if_splits\<close>)

lemma put_step_inv:
  assumes inv: "put_inv K s C"
  shows "\<exists>C'. put_inv K (put_step True t s) C'"
proof -
  note D = put_invD [OF inv]
  have lk: "key_of (pcs s t) = Some k \<Longrightarrow> locks s (bucket k) = Some t" for k by (rule D(4))
  have pd: "pending_key (pcs s t) = Some k \<Longrightarrow> todo s t \<noteq> [] \<and> hd (todo s t) = k" for k by (rule D(5))
  note keys = key_of_def pending_key_def
  show ?thesis
  proof (cases "pcs s t")
    case Ready
    show ?thesis
    proof (cases "todo s t")
      case (Cons k ks)
      have "put_inv K (goto t (Locking k) s) C"
        by (rule goto_inv [OF inv]) (auto simp: keys at_pc_def Cons)
      then show ?thesis using Ready Cons by (auto simp: put_step_def)
    qed (use inv Ready in \<open>auto simp: put_step_def\<close>)
  next
    case (Locking k)
    show ?thesis
    proof (cases "locks s (bucket k)")
      case None
      have "put_inv K (goto t (Start k) (s\<lparr>locks := (locks s)(bucket k := Some t)\<rparr>)) C"
        by (rule goto_inv [OF lock_inv [OF inv None]]) (use pd [of k] Locking in \<open>auto simp: keys at_pc_def\<close>)
      then show ?thesis using Locking None by (auto simp: put_step_def)
    qed (use inv Locking in \<open>auto simp: put_step_def\<close>)
  next
    case (Start k)
    have "e \<in> set (C (bucket k))" if "table s (bucket k) = Some e" for e
      using D(1) [of "bucket k"] that by (cases "C (bucket k)") auto
    then have "put_inv K (goto t (Walk k (table s (bucket k))) s) C"
      by (intro goto_inv [OF inv]) (use Start lk [of k] pd [of k] in \<open>auto simp: keys at_pc_def split: option.split\<close>)
    then show ?thesis using Start by (auto simp: put_step_def)
  next
    case (Walk k a)
    show ?thesis
    proof (cases a)
      case None
      have "put_inv K (goto t (Inserting k (table s (bucket k))) s) C"
        by (rule goto_inv [OF inv]) (use Walk lk [of k] pd [of k] in \<open>auto simp: keys at_pc_def\<close>)
      then show ?thesis using Walk None by (auto simp: put_step_def)
    next
      case (Some e)
      have e: "e \<in> set (C (bucket k))" using D(6) [of t] Walk Some by (simp add: at_pc_def)
      have "y \<in> set (C (bucket k))" if "e_next (entries s e) = Some y" for y
        by (rule chain_next [OF D(1) e that])
      then have "put_inv K (goto t (Walk k (e_next (entries s e))) s) C"
        by (intro goto_inv [OF inv]) (use Walk lk [of k] pd [of k] in \<open>auto simp: keys at_pc_def split: option.split\<close>)
      moreover have "put_inv K (goto t (Update k e) s) C" if "e_key (entries s e) = k"
        by (rule goto_inv [OF inv]) (use Walk lk [of k] pd [of k] e that in \<open>auto simp: keys at_pc_def\<close>)
      ultimately show ?thesis using Walk Some by (auto simp: put_step_def)
    qed
  next
    case (Update k e)
    let ?s = "s\<lparr>entries := (entries s)(e := (entries s e)\<lparr>e_value := t\<rparr>)\<rparr>"
    have "stored ?s C k" using D(6) [of t] Update by (auto simp: at_pc_def stored_def)
    then have "put_inv K (goto t (Leaving k) ?s) C"
      by (intro goto_inv [OF write_value_inv [OF inv]]) (use Update lk [of k] pd [of k] in \<open>auto simp: keys at_pc_def\<close>)
    then show ?thesis using Update by (auto simp: put_step_def)
  next
    case (Inserting k n)
    have n: "n = table s (bucket k)" using D(6) [of t] Inserting by (simp add: at_pc_def)
    have fresh: "allocated s \<notin> set (C i)" for i using D(2) [of i] by auto
    have old: "e' < allocated s" if "pcs s t' = Link k' e'" for t' k' e'
      using D(6) [of t'] that by (simp add: at_pc_def)
    have "put_inv K (goto t (Link k (allocated s)) (insert_entry k t n s)) C"
      by (rule goto_inv [OF insert_entry_inv [OF inv]])
        (use Inserting lk [of k] pd [of k] n fresh in \<open>auto simp: keys at_pc_def insert_entry_def dest: old\<close>)
    then show ?thesis using Inserting by (auto simp: put_step_def)
  next
    case (Link k e)
    then show ?thesis using link_inv [OF inv Link] by (auto simp: put_step_def)
  next
    case (Leaving k)
    then show ?thesis using leave_inv [OF inv Leaving] by (auto simp: put_step_def)
  qed
qed

lemma run_puts_inv: "put_inv K s C \<Longrightarrow> \<exists>C'. put_inv K (run_puts True sched s) C'"
proof (induction sched arbitrary: s C)
  case (Cons t sched)
  obtain C' where "put_inv K (put_step True t s) C'" using put_step_inv [OF Cons.prems] by blast
  from Cons.IH [OF this] show ?case by (simp add: run_puts_def)
qed (auto simp: run_puts_def)

lemma start_puts_inv: "put_inv K (start_puts K) (\<lambda>_. [])"
  by (rule put_invI) (simp_all add: start_puts_def key_of_def pending_key_def at_pc_def)

lemma get_stored:
  assumes "put_inv K s C" and "stored s C k"
  shows "\<exists>e. get k s = Some e \<and> e_key (entries s e) = k"
proof -
  note D = put_invD [OF assms(1)]
  have "length (C (bucket k)) \<le> allocated s"
    using card_mono [OF _ D(2), of "bucket k"] distinct_card [OF D(3), of "bucket k"] by simp
  then show ?thesis
    using get_loop_finds [OF D(1), of "bucket k" "Suc (allocated s)"] assms(2) by (auto simp: get_def stored_def)
qed

text \<open>
  C17: with the mutexes no key is lost. Whatever the order in which the threads take their steps, when all
  of them have finished every key that one of them has put is found by \<open>get\<close>, so \<open>get_thread\<close> reports
  that no keys are missing.
\<close>
theorem locked_puts_lose_nothing:
  assumes "puts_finished (run_puts True sched (start_puts K))" and "\<forall>k \<in> set keys. \<exists>t. k \<in> set (K t)"
  shows "keys_missing keys (run_puts True sched (start_puts K)) = 0"
proof -
  let ?s = "run_puts True sched (start_puts K)"
  obtain C where inv: "put_inv K ?s C" using run_puts_inv [OF start_puts_inv] by blast
  have "stored ?s C k" if "k \<in> set keys" for k
    using assms that put_invD(8) [OF inv, of k] unfolding puts_finished_def by fastforce
  then show ?thesis using get_stored [OF inv] by (fastforce simp: keys_missing_def filter_empty_conv)
qed

text \<open>Two threads put two keys of the same bucket.\<close>

definition two_keys :: "nat \<Rightarrow> nat list" where
  "two_keys t = (if t = 0 then [5] else if t = 1 then [10] else [])"

lemma locked_puts_lose_nothing_witness:
  "keys_missing [5, 10] (run_puts True [0, 1, 0, 1, 0, 0, 0, 0, 0, 1, 1, 1, 1, 1, 1, 1] (start_puts two_keys)) = 0"
proof (rule locked_puts_lose_nothing)
  show "puts_finished (run_puts True [0, 1, 0, 1, 0, 0, 0, 0, 0, 1, 1, 1, 1, 1, 1, 1] (start_puts two_keys))"
    by (simp add: puts_finished_def run_puts_def start_puts_def put_step_def two_keys_def bucket_def
      insert_entry_def)
qed (auto simp: two_keys_def)


end
