(* ===== verification/Uthread.thy ===== *)
theory Uthread
  imports Procdata
begin

section \<open>user/uthread.c: user-level threads\<close>

text \<open>
  Cooperative threads in one process. A thread is its index in \<open>all_thread\<close>; \<open>uregs\<close> are the registers
  \<open>thread_switch\<close> saves and restores (\<open>ra\<close>, \<open>sp\<close>, \<open>s0\<close> to \<open>s11\<close>), so what follows a switch runs when the
  thread is switched to again. A call returns, ends the process (\<open>thread_schedule\<close> finds nothing to
  run), or writes behind the end of \<open>all_thread\<close>, where C defines nothing.
\<close>

datatype ustate = UFree | URunning | URunnable

record uthread =
  u_state :: ustate
  u_context :: kcontext

record uthreads =
  all_thread :: "uthread list"
  current_thread :: nat
  uregs :: kcontext

datatype ures = Returns uthreads | Exits | Beyond_Array

abbreviation MAX_THREAD :: nat where "MAX_THREAD \<equiv> 4"

definition set_ustate :: "nat \<Rightarrow> ustate \<Rightarrow> uthreads \<Rightarrow> uthreads" where
  "set_ustate t st s = s\<lparr>all_thread := (all_thread s)[t := (all_thread s ! t)\<lparr>u_state := st\<rparr>]\<rparr>"

definition thread_init :: "uthreads \<Rightarrow> uthreads" where
  "thread_init s = set_ustate 0 URunning (s\<lparr>current_thread := 0\<rparr>)"

text \<open>\<open>thread_switch\<close> of \<open>uthread_switch.S\<close>.\<close>

definition thread_switch :: "nat \<Rightarrow> nat \<Rightarrow> uthreads \<Rightarrow> uthreads" where
  "thread_switch old new s =
     (let s = s\<lparr>all_thread := (all_thread s)[old := (all_thread s ! old)\<lparr>u_context := uregs s\<rparr>]\<rparr>
      in s\<lparr>uregs := u_context (all_thread s ! new)\<rparr>)"

text \<open>The loop visits the threads after the current one, around the end of the array.\<close>

definition next_runnable :: "uthreads \<Rightarrow> nat option" where
  "next_runnable s =
     find (\<lambda>t. u_state (all_thread s ! t) = URunnable)
       (map (\<lambda>i. (current_thread s + 1 + i) mod MAX_THREAD) [0..<MAX_THREAD])"

definition thread_schedule :: "uthreads \<Rightarrow> ures" where
  "thread_schedule s = (case next_runnable s of
     None \<Rightarrow> Exits
   | Some n \<Rightarrow>
       if current_thread s \<noteq> n
       then Returns (thread_switch (current_thread s) n ((set_ustate n URunning s)\<lparr>current_thread := n\<rparr>))
       else Returns s)"

text \<open>\<open>stack_top t\<close> is the address \<open>t->stack + STACK_SIZE\<close>.\<close>

definition thread_create :: "(nat \<Rightarrow> u64) \<Rightarrow> u64 \<Rightarrow> uthreads \<Rightarrow> ures" where
  "thread_create stack_top func s =
     (case find (\<lambda>t. u_state (all_thread s ! t) = UFree) [0..<MAX_THREAD] of
        None \<Rightarrow> Beyond_Array
      | Some t \<Rightarrow> Returns (s\<lparr>all_thread := (all_thread s)[t := (all_thread s ! t)\<lparr>u_state := URunnable,
          u_context := (u_context (all_thread s ! t))\<lparr>c_ra := func, c_sp := stack_top t\<rparr>\<rparr>]\<rparr>))"

definition thread_yield :: "uthreads \<Rightarrow> ures" where
  "thread_yield s = thread_schedule (set_ustate (current_thread s) URunnable s)"

primrec yields :: "nat \<Rightarrow> uthreads \<Rightarrow> ures" where
  "yields 0 s = Returns s"
| "yields (Suc n) s = (case thread_yield s of Returns t \<Rightarrow> yields n t | r \<Rightarrow> r)"

subsection \<open>Round robin\<close>

definition uthreads_ok :: "uthreads \<Rightarrow> bool" where
  "uthreads_ok s \<longleftrightarrow> length (all_thread s) = MAX_THREAD \<and> current_thread s < MAX_THREAD"

text \<open>How many places after the current thread \<open>j\<close> is, going around.\<close>

definition udist :: "uthreads \<Rightarrow> nat \<Rightarrow> nat" where
  "udist s j = (j + MAX_THREAD - current_thread s) mod MAX_THREAD"

lemma mod4: "x < 8 \<Longrightarrow> x mod 4 = (if x < 4 then x else x - (4 :: nat))"
  by (simp add: mod_if)

lemma cyclic_index:
  assumes "c < 4" and "j < 4" and "j \<noteq> (c :: nat)"
  shows "0 < (j + 4 - c) mod 4" and "(c + 1 + ((j + 4 - c) mod 4 - 1)) mod 4 = j"
  using assms by (auto simp: mod4)

lemma cyclic_distance:
  assumes "c < 4" and "j < 4" and "i < (j + 4 - c) mod (4 :: nat)" and "j \<noteq> c"
  shows "(c + 1 + i) mod 4 \<noteq> c" and "(j + 4 - (c + 1 + i) mod 4) mod 4 < (j + 4 - c) mod 4"
  using assms by (auto simp: mod4 split: if_splits)

lemma next_runnable_props:
  assumes "current_thread s < MAX_THREAD" and "j < MAX_THREAD" and "u_state (all_thread s ! j) = URunnable"
    and "j \<noteq> current_thread s"
  shows "\<exists>n. next_runnable s = Some n \<and> n < MAX_THREAD \<and> n \<noteq> current_thread s \<and>
    u_state (all_thread s ! n) = URunnable \<and>
    (j + MAX_THREAD - n) mod MAX_THREAD < udist s j"
proof -
  let ?c = "current_thread s" and ?d = "udist s j"
  let ?xs = "map (\<lambda>i. (?c + 1 + i) mod MAX_THREAD) [0..<MAX_THREAD]"
  have d: "0 < ?d" "(?c + 1 + (?d - 1)) mod MAX_THREAD = j" "?d < MAX_THREAD"
    using cyclic_index [OF assms(1,2,4)] by (simp_all add: udist_def)
  have nth: "k < 4 \<Longrightarrow> ?xs ! k = (?c + 1 + k) mod MAX_THREAD" for k
    by (subst nth_map) (simp_all add: nth_upt)
  have xj: "?xs ! (?d - 1) = j" using d nth [of "?d - 1"] by simp
  then have "j \<in> set ?xs" using d by (metis (no_types, lifting) diff_le_self diff_zero le_less_trans length_map length_upt nth_mem)
  then obtain n where n: "next_runnable s = Some n"
    using assms(3) by (cases "next_runnable s") (auto simp: next_runnable_def find_None_iff simp del: upt_Suc)
  then obtain i where i: "i < 4" "u_state (all_thread s ! (?xs ! i)) = URunnable" "n = ?xs ! i"
      "\<forall>k<i. u_state (all_thread s ! (?xs ! k)) \<noteq> URunnable"
    unfolding next_runnable_def find_Some_iff by auto
  have "\<not> ?d - 1 < i" using i(4) xj assms(3) by metis
  then have "i < ?d" using d(1) by linarith
  then have "i < (j + 4 - ?c) mod 4" by (simp add: udist_def)
  moreover have "n = (?c + 1 + i) mod 4" using nth [OF i(1)] i(3) by simp
  ultimately show ?thesis
    using n i(2,3) cyclic_distance [OF assms(1,2) _ assms(4)] by (auto simp: udist_def)
qed

lemma thread_yield_step:
  assumes "uthreads_ok s" and "j < MAX_THREAD" and "u_state (all_thread s ! j) = URunnable" and "j \<noteq> current_thread s"
  shows "\<exists>t. thread_yield s = Returns t \<and> uthreads_ok t \<and> udist t j < udist s j \<and>
    (current_thread t = j \<and> uregs t = u_context (all_thread s ! j) \<or>
     current_thread t \<noteq> j \<and> all_thread t ! j = all_thread s ! j)"
proof -
  let ?s = "set_ustate (current_thread s) URunnable s"
  have ok: "length (all_thread s) = MAX_THREAD" "current_thread s < MAX_THREAD" using assms(1) by (simp_all add: uthreads_ok_def)
  have s: "current_thread ?s = current_thread s" "all_thread ?s ! j = all_thread s ! j" "length (all_thread ?s) = MAX_THREAD"
    "udist ?s j = udist s j"
    using assms(4) ok by (simp_all add: set_ustate_def udist_def)
  obtain n where n: "next_runnable ?s = Some n" "n < MAX_THREAD" "n \<noteq> current_thread s"
      "(j + MAX_THREAD - n) mod MAX_THREAD < udist s j"
    using next_runnable_props [of ?s j] s ok assms by auto
  let ?t = "thread_switch (current_thread s) n ((set_ustate n URunning ?s)\<lparr>current_thread := n\<rparr>)"
  have "thread_yield s = Returns ?t" using n by (simp add: thread_yield_def thread_schedule_def s)
  moreover have "current_thread ?t = n" "length (all_thread ?t) = MAX_THREAD"
    using ok by (simp_all add: thread_switch_def set_ustate_def)
  moreover from this have "udist ?t j < udist s j" using n(4) by (simp add: udist_def)
  moreover have "n = j \<Longrightarrow> uregs ?t = u_context (all_thread s ! j)"
    using n ok assms by (simp add: thread_switch_def set_ustate_def)
  moreover have "n \<noteq> j \<Longrightarrow> all_thread ?t ! j = all_thread s ! j"
    using n ok assms by (simp add: thread_switch_def set_ustate_def)
  ultimately show ?thesis using n(2) by (auto simp: uthreads_ok_def)
qed

text \<open>
  C22: the scheduler of \<open>uthread\<close> is fair. A thread that can run is switched to after at most three calls
  of \<open>thread_yield\<close> by the threads that run before it, and the registers it continues with are the ones
  it saved (or \<open>thread_create\<close> set up).
\<close>
theorem thread_yield_fair:
  assumes "uthreads_ok s" and "j < MAX_THREAD" and "u_state (all_thread s ! j) = URunnable" and "j \<noteq> current_thread s"
  shows "\<exists>k t. k \<le> 3 \<and> yields k s = Returns t \<and> current_thread t = j \<and> uregs t = u_context (all_thread s ! j)"
proof -
  have "\<exists>k t. k \<le> udist s j \<and> yields k s = Returns t \<and> current_thread t = j \<and> uregs t = u_context (all_thread s ! j)"
    using assms
  proof (induction "udist s j" arbitrary: s rule: less_induct)
    case less
    obtain t where t: "thread_yield s = Returns t" "uthreads_ok t" "udist t j < udist s j"
        "current_thread t = j \<and> uregs t = u_context (all_thread s ! j) \<or>
         current_thread t \<noteq> j \<and> all_thread t ! j = all_thread s ! j"
      using thread_yield_step [OF less.prems] by blast
    show ?case
    proof (cases "current_thread t = j")
      case True
      then show ?thesis using t by (intro exI [of _ "Suc 0"] exI [of _ t]) auto
    next
      case False
      with less.hyps [OF t(3,2)] less.prems t(4) obtain k u where
        "k \<le> udist t j" "yields k t = Returns u" "current_thread u = j" "uregs u = u_context (all_thread s ! j)"
        by auto
      then show ?thesis using t(1,3) by (intro exI [of _ "Suc k"] exI [of _ u]) auto
    qed
  qed
  moreover have "udist s j < 4" by (simp add: udist_def)
  ultimately obtain k t where "k < 4" "yields k s = Returns t" "current_thread t = j" "uregs t = u_context (all_thread s ! j)"
    using le_less_trans by blast
  then show ?thesis by (intro exI [of _ k] exI [of _ t]) simp
qed

definition uthread_sample :: uthreads where
  "uthread_sample = \<lparr>all_thread = map (\<lambda>i. \<lparr>u_state = (if i = 0 then URunning else URunnable),
     u_context = zero_context\<lparr>c_ra := of_nat i\<rparr>\<rparr>) [0..<4], current_thread = 0, uregs = zero_context\<rparr>"

lemma thread_yield_fair_witness: "\<exists>k t. k \<le> 3 \<and> yields k uthread_sample = Returns t \<and> current_thread t = 3 \<and> c_ra (uregs t) = 3"
proof -
  have "\<exists>k t. k \<le> 3 \<and> yields k uthread_sample = Returns t \<and> current_thread t = 3 \<and>
      uregs t = u_context (all_thread uthread_sample ! 3)"
    by (rule thread_yield_fair) (simp_all add: uthread_sample_def uthreads_ok_def)
  then show ?thesis by (auto simp: uthread_sample_def)
qed

text \<open>With every slot taken \<open>thread_create\<close> writes to the element after the last.\<close>

lemma thread_create_no_slot:
  assumes "\<forall>t < MAX_THREAD. u_state (all_thread s ! t) \<noteq> UFree"
  shows "thread_create stack_top func s = Beyond_Array"
proof -
  have "find (\<lambda>t. u_state (all_thread s ! t) = UFree) [0..<MAX_THREAD] = None"
    using assms by (simp add: find_None_iff)
  then show ?thesis by (simp add: thread_create_def)
qed

end
