(* ===== verification/Shell.thy ===== *)
theory Shell
  imports Main "HOL-Library.Word"
begin

section \<open>sh.c: the shell's parser\<close>

text \<open>
  The parser of \<open>user/sh.c\<close> works on the line in a buffer \<open>b\<close>; a pointer into it is an index, and at the end
  of the line the byte read is the NUL. A token is the pair of the pointers \<open>q\<close> and \<open>eq\<close>. Commands are the
  structures of the program; the type parameter is what they keep for a word, so that the same type serves
  for the pointers of the parser and for the strings they stand for. The word lists \<open>argv\<close> and \<open>eargv\<close> are one
  list of pairs. \<open>panic\<close> ends the process with its message. The parse functions call each other and
  themselves: the first argument bounds the depth, and \<open>PFuel\<close> is the result when it does not suffice.
\<close>

datatype 't cmd = EXEC "'t list" | REDIR "'t cmd" 't "32 word" nat | PIPE "'t cmd" "'t cmd"
  | LIST "'t cmd" "'t cmd" | BACK "'t cmd"

type_synonym token = "nat \<times> nat"

datatype 'a presult = POk 'a nat | PPanic string | PFuel

fun pbind :: "'a presult \<Rightarrow> ('a \<Rightarrow> nat \<Rightarrow> 'b presult) \<Rightarrow> 'b presult" where
  "pbind (POk x i) f = f x i"
| "pbind (PPanic m) f = PPanic m"
| "pbind PFuel f = PFuel"

abbreviation NUL :: char where "NUL \<equiv> CHR 0x00"
abbreviation MAXARGS :: nat where "MAXARGS \<equiv> 10"

definition byte_at :: "string \<Rightarrow> nat \<Rightarrow> char" where
  "byte_at b i = (if i < length b then b ! i else NUL)"

definition whitespace :: string where
  "whitespace = [CHR '' '', CHR 0x09, CHR 0x0D, CHR 0x0A, CHR 0x0B]"

definition symbols :: string where
  "symbols = ''<|>&;()''"

subsection \<open>Tokens\<close>

function skip_ws :: "string \<Rightarrow> nat \<Rightarrow> nat" where
  "skip_ws b s = (if s < length b \<and> b ! s \<in> set whitespace then skip_ws b (s + 1) else s)"
  by auto
termination by (relation "measure (\<lambda>(b, s). length b - s)") auto

function skip_word :: "string \<Rightarrow> nat \<Rightarrow> nat" where
  "skip_word b s = (if s < length b \<and> b ! s \<notin> set whitespace \<and> b ! s \<notin> set symbols then skip_word b (s + 1) else s)"
  by auto
termination by (relation "measure (\<lambda>(b, s). length b - s)") auto

declare skip_ws.simps [simp del] skip_word.simps [simp del]

text \<open>The results are the token's kind, \<open>q\<close>, \<open>eq\<close> and the new position.\<close>

definition gettoken :: "string \<Rightarrow> nat \<Rightarrow> char \<times> nat \<times> nat \<times> nat" where
  "gettoken b i =
     (let q = skip_ws b i; c = byte_at b q;
          (ret, e) =
            (if c = NUL then (c, q)
             else if c \<in> set ''|();&<'' then (c, q + 1)
             else if c = CHR ''>'' then (if byte_at b (q + 1) = CHR ''>'' then (CHR ''+'', q + 2) else (c, q + 1))
             else (CHR ''a'', skip_word b q))
      in (ret, q, e, skip_ws b e))"

definition peek :: "string \<Rightarrow> nat \<Rightarrow> string \<Rightarrow> nat \<times> bool" where
  "peek b i toks = (let s = skip_ws b i; c = byte_at b s in (s, c \<noteq> NUL \<and> c \<in> set toks))"

text \<open>\<open>gettoken(ps, es, 0, 0)\<close>: only the position counts.\<close>

definition skip_token :: "string \<Rightarrow> nat \<Rightarrow> nat" where
  "skip_token b i = (case gettoken b i of (_, _, _, j) \<Rightarrow> j)"

subsection \<open>Redirections and words\<close>

text \<open>The mode and descriptor of a redirection: \<open><\<close>, \<open>></\<close> or \<open>>>\<close>.\<close>

definition redir_mode :: "char \<Rightarrow> 32 word \<times> nat" where
  "redir_mode tok = (if tok = CHR ''<'' then (0x000, 0) else if tok = CHR ''>'' then (0x601, 1) else (0x201, 1))"

text \<open>The loop of \<open>parseredirs\<close>; \<open>redircmds\<close> makes the structures, the first redirection innermost.\<close>

primrec parseredirs_loop :: "nat \<Rightarrow> string \<Rightarrow> nat \<Rightarrow> (char \<times> token) list presult" where
  "parseredirs_loop 0 b i = PFuel"
| "parseredirs_loop (Suc n) b i =
     (case peek b i ''<>'' of (i, p) \<Rightarrow>
        if \<not> p then POk [] i
        else
          (case gettoken b i of (tok, _, _, i) \<Rightarrow>
           case gettoken b i of (t, q, e, i) \<Rightarrow>
             if t \<noteq> CHR ''a'' then PPanic ''missing file for redirection''
             else pbind (parseredirs_loop n b i) (\<lambda>rs i. POk ((tok, q, e) # rs) i)))"

definition redircmds :: "'t cmd \<Rightarrow> (char \<times> 't) list \<Rightarrow> 't cmd" where
  "redircmds c rs = foldl (\<lambda>c (tok, t). case redir_mode tok of (mode, fd) \<Rightarrow> REDIR c t mode fd) c rs"

definition parseredirs :: "nat \<Rightarrow> token cmd \<Rightarrow> string \<Rightarrow> nat \<Rightarrow> token cmd presult" where
  "parseredirs n c b i = pbind (parseredirs_loop n b i) (\<lambda>rs i. POk (redircmds c rs) i)"

text \<open>
  The \<open>while\<close> loop of \<open>parseexec\<close>, with \<open>argc\<close> words so far. The words go into the \<open>execcmd\<close>, which the
  redirections enclose: the result has both lists.
\<close>

primrec parseargs :: "nat \<Rightarrow> string \<Rightarrow> nat \<Rightarrow> nat \<Rightarrow> (token list \<times> (char \<times> token) list) presult" where
  "parseargs 0 b argc i = PFuel"
| "parseargs (Suc n) b argc i =
     (case peek b i ''|)&;'' of (i, p) \<Rightarrow>
        if p then POk ([], []) i
        else
          (case gettoken b i of (tok, q, e, i) \<Rightarrow>
             if tok = NUL then POk ([], []) i
             else if tok \<noteq> CHR ''a'' then PPanic ''syntax''
             else if MAXARGS \<le> argc + 1 then PPanic ''too many args''
             else
               pbind (parseredirs_loop n b i) (\<lambda>rs i.
               pbind (parseargs n b (argc + 1) i) (\<lambda>(as, rs') i. POk ((q, e) # as, rs @ rs') i))))"

subsection \<open>Commands\<close>

text \<open>The loop on \<open>&\<close>.\<close>

primrec parsebacks :: "nat \<Rightarrow> string \<Rightarrow> token cmd \<Rightarrow> nat \<Rightarrow> token cmd presult" where
  "parsebacks 0 b c i = PFuel"
| "parsebacks (Suc n) b c i =
     (case peek b i ''&'' of (i, p) \<Rightarrow> if p then parsebacks n b (BACK c) (skip_token b i) else POk c i)"

fun parseline :: "nat \<Rightarrow> string \<Rightarrow> nat \<Rightarrow> token cmd presult"
  and parsepipe :: "nat \<Rightarrow> string \<Rightarrow> nat \<Rightarrow> token cmd presult"
  and parseexec :: "nat \<Rightarrow> string \<Rightarrow> nat \<Rightarrow> token cmd presult"
  and parseblock :: "nat \<Rightarrow> string \<Rightarrow> nat \<Rightarrow> token cmd presult" where
  "parseline 0 b i = PFuel"
| "parseline (Suc n) b i =
     pbind (parsepipe n b i) (\<lambda>c i.
     pbind (parsebacks n b c i) (\<lambda>c i.
       case peek b i '';'' of (i, p) \<Rightarrow>
         if p then pbind (parseline n b (skip_token b i)) (\<lambda>r i. POk (LIST c r) i) else POk c i))"
| "parsepipe 0 b i = PFuel"
| "parsepipe (Suc n) b i =
     pbind (parseexec n b i) (\<lambda>c i.
       case peek b i ''|'' of (i, p) \<Rightarrow>
         if p then pbind (parsepipe n b (skip_token b i)) (\<lambda>r i. POk (PIPE c r) i) else POk c i)"
| "parseexec 0 b i = PFuel"
| "parseexec (Suc n) b i =
     (case peek b i ''('' of (i, p) \<Rightarrow>
        if p then parseblock n b i
        else
          pbind (parseredirs_loop n b i) (\<lambda>rs i.
          pbind (parseargs n b 0 i) (\<lambda>(as, rs') i. POk (redircmds (EXEC as) (rs @ rs')) i)))"
| "parseblock 0 b i = PFuel"
| "parseblock (Suc n) b i =
     (case peek b i ''('' of (i, p) \<Rightarrow>
        if \<not> p then PPanic ''parseblock''
        else
          pbind (parseline n b (skip_token b i)) (\<lambda>c i.
            case peek b i '')'' of (i, p) \<Rightarrow>
              if \<not> p then PPanic ''syntax - missing )''
              else parseredirs n c b (skip_token b i)))"

text \<open>The NUL bytes \<open>nulterminate\<close> writes at the ends of the words; the one at the end of the line is there already.\<close>

primrec nulterminate :: "token cmd \<Rightarrow> string \<Rightarrow> string" where
  "nulterminate (EXEC as) b = fold (\<lambda>(q, e) b. b[e := NUL]) as b"
| "nulterminate (REDIR c t mode fd) b = (nulterminate c b)[snd t := NUL]"
| "nulterminate (PIPE l r) b = nulterminate r (nulterminate l b)"
| "nulterminate (LIST l r) b = nulterminate r (nulterminate l b)"
| "nulterminate (BACK c) b = nulterminate c b"

text \<open>The depth given covers every line, as \<open>shell_parse_terminates\<close> states. The result is the command and the buffer.\<close>

definition parse_fuel :: "string \<Rightarrow> nat" where
  "parse_fuel b = 4 * length b + 5"

definition parsecmd :: "string \<Rightarrow> (token cmd \<times> string) presult" where
  "parsecmd b =
     pbind (parseline (parse_fuel b) b 0) (\<lambda>c i.
       case peek b i '''' of (i, _) \<Rightarrow>
         if i \<noteq> length b then PPanic ''syntax'' else POk (c, nulterminate c b) i)"

subsection \<open>Positions\<close>

definition word_char :: "char \<Rightarrow> bool" where
  "word_char c \<longleftrightarrow> c \<notin> set whitespace \<and> c \<notin> set symbols"

lemma skip_ws_eq: "skip_ws b i = i + length (takeWhile (\<lambda>c. c \<in> set whitespace) (drop i b))"
proof (induction b i rule: skip_ws.induct)
  case (1 b i)
  show ?case
  proof (cases "i < length b")
    case True
    then show ?thesis using 1 Cons_nth_drop_Suc [OF True] by (subst skip_ws.simps) (auto simp flip: Cons_nth_drop_Suc)
  next
    case False
    then show ?thesis by (subst skip_ws.simps) simp
  qed
qed

lemma skip_word_eq: "skip_word b i = i + length (takeWhile word_char (drop i b))"
proof (induction b i rule: skip_word.induct)
  case (1 b i)
  show ?case
  proof (cases "i < length b")
    case True
    have w: "word_char (b ! i) \<longleftrightarrow> b ! i \<notin> set whitespace \<and> b ! i \<notin> set symbols" by (simp add: word_char_def)
    show ?thesis
      using 1 True w by (subst skip_word.simps) (auto simp flip: Cons_nth_drop_Suc)
  next
    case False
    then show ?thesis by (subst skip_word.simps) simp
  qed
qed

lemma takeWhile_end:
  assumes "i \<le> length b" and "j = i + length (takeWhile P (drop i b))"
  shows "i \<le> j" "j \<le> length b" "\<And>k. i \<le> k \<Longrightarrow> k < j \<Longrightarrow> P (b ! k)" "j < length b \<Longrightarrow> \<not> P (b ! j)"
proof -
  show "i \<le> j" using assms(2) by simp
  show "j \<le> length b" using assms length_takeWhile_le [of P "drop i b"] by simp
  show "P (b ! k)" if "i \<le> k" "k < j" for k
  proof -
    have "k - i < length (takeWhile P (drop i b))" using that assms(2) by simp
    then have "P (takeWhile P (drop i b) ! (k - i))" by (metis nth_mem set_takeWhileD)
    then show ?thesis using that assms by (simp add: takeWhile_nth)
  qed
  show "\<not> P (b ! j)" if "j < length b"
    using nth_length_takeWhile [of P "drop i b"] that assms by simp
qed

lemmas skip_ws_props = takeWhile_end [OF _ skip_ws_eq]
lemmas skip_word_props = takeWhile_end [OF _ skip_word_eq]

lemma skip_ws_idem: "i \<le> length b \<Longrightarrow> skip_ws b (skip_ws b i) = skip_ws b i"
  using skip_ws_props(4) [of i b] by (subst skip_ws.simps) auto

text \<open>
  A word as \<open>gettoken\<close> finds it: it is not empty, has no space or symbol in it, begins after one or at the
  start of the line and ends at one or at the end of the line.
\<close>

definition token_ok :: "string \<Rightarrow> token \<Rightarrow> bool" where
  "token_ok b = (\<lambda>(q, e). q < e \<and> e \<le> length b \<and> (\<forall>k. q \<le> k \<and> k < e \<longrightarrow> word_char (b ! k)) \<and>
     (0 < q \<longrightarrow> \<not> word_char (b ! (q - 1))) \<and> (e < length b \<longrightarrow> \<not> word_char (b ! e)))"

text \<open>A position of the line that is not inside a word: where the parser stands between two tokens.\<close>

definition at_token :: "string \<Rightarrow> nat \<Rightarrow> bool" where
  "at_token b i \<longleftrightarrow> i \<le> length b \<and> (0 < i \<and> i < length b \<and> word_char (b ! i) \<longrightarrow> \<not> word_char (b ! (i - 1)))"

lemma at_token_le: "at_token b i \<Longrightarrow> i \<le> length b"
  by (simp add: at_token_def)

lemma at_token_0 [simp]: "at_token b 0"
  by (simp add: at_token_def)

lemma at_token_skip_ws: "at_token b i \<Longrightarrow> at_token b (skip_ws b i)"
  using skip_ws_props(1,2,3) [of i b] skip_ws_props(3) [of i b "skip_ws b i - 1"]
  by (cases "skip_ws b i = i") (auto simp: at_token_def word_char_def)

lemma symbols_cases: "c \<in> set symbols \<longleftrightarrow> c \<in> set ''|();&<'' \<or> c = CHR ''>''"
  by (auto simp: symbols_def)

lemma gettoken_bounds:
  assumes i: "at_token b i" and "NUL \<notin> set b" and g: "gettoken b i = (t, q, e, j)"
  shows "i \<le> q" "q \<le> e" "e \<le> j" "at_token b j" "q = skip_ws b i" "t \<noteq> NUL \<longleftrightarrow> q < length b" "t \<noteq> NUL \<Longrightarrow> q < e"
    "t = CHR ''a'' \<Longrightarrow> token_ok b (q, e)" "j \<le> length b"
proof -
  let ?q = "skip_ws b i"
  have q: "i \<le> ?q" "?q \<le> length b" "?q < length b \<Longrightarrow> b ! ?q \<notin> set whitespace" using skip_ws_props [OF at_token_le [OF i]] by auto
  have qt: "at_token b ?q" by (rule at_token_skip_ws [OF i])
  have nul: "byte_at b k = NUL \<longleftrightarrow> length b \<le> k" for k 
    using assms(2) by (metis byte_at_def linorder_not_less nth_mem)
  show Q: "q = skip_ws b i" using g by (auto simp: gettoken_def Let_def split: prod.splits if_splits)
  then show "i \<le> q" using q by simp
  have sym: "at_token b (Suc k)" if "k < length b" "b ! k \<in> set symbols" for k
    using that by (auto simp: at_token_def word_char_def)
  have core: "(e = q \<and> t = NUL \<and> q = length b) \<or> (q < length b \<and> q < e \<and> at_token b e \<and> t \<noteq> NUL \<and> (t = CHR ''a'' \<longrightarrow> token_ok b (q, e)))"
  proof (cases "?q < length b")
    case False
    then have "byte_at b ?q = NUL" using nul by simp
    then show ?thesis using g Q q False by (simp add: gettoken_def Let_def)
  next
    case True
    let ?c = "b ! ?q"
    have c: "byte_at b ?q = ?c" "?c \<noteq> NUL" using True nul [of ?q] by (simp_all add: byte_at_def)
    show ?thesis
    proof (cases "?c \<in> set symbols")
      case True
      then have "?c \<noteq> CHR ''a''" by (auto simp: symbols_def)
      then show ?thesis
        using g Q q c \<open>?q < length b\<close> True nul [of "Suc ?q"] sym [of ?q] sym [of "Suc ?q"]
        by (auto simp: gettoken_def Let_def symbols_cases byte_at_def split: if_splits)
    next
      case False
      then have w: "word_char ?c" using q(3) True by (simp add: word_char_def)
      have e: "t = CHR ''a''" "e = skip_word b ?q"
        using g c False by (auto simp: gettoken_def Let_def symbols_cases)
      have "?q \<noteq> skip_word b ?q" using skip_word_props(4) [of ?q b] w q(2) True by auto
      then have "token_ok b (?q, skip_word b ?q)"
        using skip_word_props [of ?q b] q(2) qt w True by (auto simp: token_ok_def at_token_def)
      then show ?thesis using e Q True by (auto simp: token_ok_def at_token_def)
    qed
  qed
  have j: "j = skip_ws b e" using g by (auto simp: gettoken_def Let_def split: prod.splits if_splits)
  have et: "at_token b e" using core at_token_def by fastforce
  show "at_token b j" using at_token_skip_ws [OF et] j by simp
  then show "j \<le> length b" by (rule at_token_le)
  show "q \<le> e" "e \<le> j" using core j q Q skip_ws_props(1) [OF at_token_le [OF et]] by auto
  show "t \<noteq> NUL \<longleftrightarrow> q < length b" "t \<noteq> NUL \<Longrightarrow> q < e" "t = CHR ''a'' \<Longrightarrow> token_ok b (q, e)" using core by auto
qed

lemma peek_bounds:
  assumes "at_token b i" and "peek b i toks = (j, p)"
  shows "i \<le> j" "at_token b j" "j = skip_ws b i" "p \<Longrightarrow> j < length b" "j \<le> length b"
  using assms skip_ws_props(1,2) [OF at_token_le [OF assms(1)]] at_token_skip_ws [OF assms(1)] by (auto simp: peek_def Let_def byte_at_def split: if_splits)

text \<open>A token that \<open>peek\<close> has seen is not empty.\<close>

lemma skip_token_advances:
  assumes "at_token b i" and "NUL \<notin> set b" and "peek b i toks = (j, True)"
  shows "j < skip_token b j" "at_token b (skip_token b j)" "skip_token b j \<le> length b"
proof -
  have j: "j < length b" "j = skip_ws b i" "at_token b j" using peek_bounds [OF assms(1,3)] by auto
  obtain t q e k where g: "gettoken b j = (t, q, e, k)" by (cases "gettoken b j") auto
  have "skip_ws b j = j" using skip_ws_idem [OF at_token_le [OF assms(1)]] j(2) by simp
  then show "j < skip_token b j" "at_token b (skip_token b j)" "skip_token b j \<le> length b"
    using gettoken_bounds [OF j(3) assms(2) g] j(1) g by (auto simp: skip_token_def)
qed

subsection \<open>Every line is parsed or refused\<close>

text \<open>A parse from \<open>i\<close> that does not run out of fuel: it panics, or ends further on with a result in \<open>P\<close>.\<close>

definition settled :: "string \<Rightarrow> nat \<Rightarrow> ('a \<Rightarrow> bool) \<Rightarrow> 'a presult \<Rightarrow> bool" where
  "settled b i P r \<longleftrightarrow> (\<exists>m. r = PPanic m) \<or> (\<exists>x j. r = POk x j \<and> i \<le> j \<and> at_token b j \<and> P x)"

lemma settled_simps [simp]:
  "settled b i P (POk x j) \<longleftrightarrow> i \<le> j \<and> at_token b j \<and> P x" "settled b i P (PPanic m)"
  by (simp_all add: settled_def)

lemma settled_bind:
  assumes "settled b i P r" and "\<And>x j. i \<le> j \<Longrightarrow> at_token b j \<Longrightarrow> P x \<Longrightarrow> settled b j Q (f x j)"
  shows "settled b i Q (pbind r f)"
proof -
  from assms(1) consider m where "r = PPanic m" | x j where "r = POk x j" "i \<le> j" "at_token b j" "P x"
    by (auto simp: settled_def)
  then show ?thesis
  proof cases
    case 2
    then show ?thesis using assms(2) [of j x] by (auto simp: settled_def)
  qed simp
qed

lemma settled_le: "settled b j P r \<Longrightarrow> i \<le> j \<Longrightarrow> settled b i P r"
  by (auto simp: settled_def)

definition words_ok :: "string \<Rightarrow> token cmd \<Rightarrow> bool" where
  "words_ok b c \<longleftrightarrow> (\<forall>t \<in> set_cmd c. token_ok b t)"

lemma words_ok_EXEC: "words_ok b (EXEC as) \<longleftrightarrow> (\<forall>t \<in> set as. token_ok b t)"
  by (simp add: words_ok_def)

abbreviation redirs_ok :: "string \<Rightarrow> (char \<times> token) list \<Rightarrow> bool" where
  "redirs_ok b rs \<equiv> \<forall>t \<in> snd ` set rs. token_ok b t"

lemma words_ok_redircmds: "words_ok b (redircmds c rs) \<longleftrightarrow> words_ok b c \<and> redirs_ok b rs"
proof (induction rs arbitrary: c)
  case (Cons r rs)
  obtain tok t where r: "r = (tok, t)" by (cases r)
  then have "redircmds c (r # rs) = redircmds (REDIR c t (fst (redir_mode tok)) (snd (redir_mode tok))) rs"
    by (simp add: redircmds_def case_prod_unfold)
  then show ?case using Cons.IH r by (auto simp: words_ok_def)
qed (simp add: redircmds_def)

lemma parseredirs_loop_settled:
  assumes "NUL \<notin> set b"
  shows "at_token b i \<Longrightarrow> length b - i < n \<Longrightarrow> settled b i (redirs_ok b) (parseredirs_loop n b i)"
proof (induction n arbitrary: i)
  case (Suc n)
  obtain i1 p where p: "peek b i ''<>'' = (i1, p)" by (cases "peek b i ''<>''")
  note P = peek_bounds [OF Suc.prems(1) p]
  obtain tok q1 e1 i2 where g1: "gettoken b i1 = (tok, q1, e1, i2)" by (cases "gettoken b i1") auto
  note G1 = gettoken_bounds [OF P(2) assms g1]
  obtain t q e i3 where g2: "gettoken b i2 = (t, q, e, i3)" by (cases "gettoken b i2") auto
  note G2 = gettoken_bounds [OF G1(4) assms g2]
  show ?case
  proof (cases "p \<and> t = CHR ''a''")
    case True
    then have "i2 > i1" using skip_token_advances [OF Suc.prems(1) assms, of "''<>''" i1] p g1 by (auto simp: skip_token_def)
    then have "settled b i3 (redirs_ok b) (parseredirs_loop n b i3)"
      using P(1) G1 G2 Suc.prems by (intro Suc.IH) auto
    then have "settled b i3 (redirs_ok b) (pbind (parseredirs_loop n b i3) (\<lambda>rs i. POk ((tok, q, e) # rs) i))"
      by (rule settled_bind) (use G2(8) True in auto)
    moreover have "i \<le> i3" using P(1) G1(1-3) G2(1-3) by linarith
    ultimately show ?thesis using True p g1 g2 settled_le by simp
  next
    case False
    then show ?thesis using p g1 g2 P by auto
  qed
qed simp

lemma parseargs_settled:
  assumes "NUL \<notin> set b"
  shows "at_token b i \<Longrightarrow> length b - i < n \<Longrightarrow>
    settled b i (\<lambda>(as, rs). (\<forall>t \<in> set as. token_ok b t) \<and> redirs_ok b rs) (parseargs n b argc i)"
proof (induction n arbitrary: i argc)
  case (Suc n)
  obtain i1 p where p: "peek b i ''|)&;'' = (i1, p)" by (cases "peek b i ''|)&;''")
  note P = peek_bounds [OF Suc.prems(1) p]
  obtain t q e i2 where g: "gettoken b i1 = (t, q, e, i2)" by (cases "gettoken b i1") auto
  note G = gettoken_bounds [OF P(2) assms g]
  show ?case
  proof (cases "\<not> p \<and> t = CHR ''a'' \<and> \<not> MAXARGS \<le> argc + 1")
    case True
    have r: "settled b i2 (redirs_ok b) (parseredirs_loop n b i2)"
      using P(1) G True Suc.prems by (intro parseredirs_loop_settled [OF assms]) auto
    have "settled b i2 (\<lambda>(as, rs). (\<forall>t \<in> set as. token_ok b t) \<and> redirs_ok b rs)
      (pbind (parseredirs_loop n b i2) (\<lambda>rs i. pbind (parseargs n b (argc + 1) i) (\<lambda>(as, rs') i. POk ((q, e) # as, rs @ rs') i)))"
    proof (rule settled_bind [OF r])
      fix rs j assume j: "i2 \<le> j" "at_token b j" "redirs_ok b rs"
      have "settled b j (\<lambda>(as, rs). (\<forall>t \<in> set as. token_ok b t) \<and> redirs_ok b rs) (parseargs n b (argc + 1) j)"
        using P(1) G True Suc.prems j by (intro Suc.IH) auto
      then show "settled b j (\<lambda>(as, rs). (\<forall>t \<in> set as. token_ok b t) \<and> redirs_ok b rs)
          (pbind (parseargs n b (argc + 1) j) (\<lambda>(as, rs') i. POk ((q, e) # as, rs @ rs') i))"
        using G(8) True j(3) by (elim settled_bind) auto
    qed
    then show ?thesis using True p g settled_le [OF _ order_trans [OF P(1) order_trans [OF G(1) order_trans [OF G(2,3)]]]] by simp
  next
    case False
    then show ?thesis using p g P G(1-4) by auto
  qed
qed simp

lemma parsebacks_settled:
  assumes "NUL \<notin> set b"
  shows "at_token b i \<Longrightarrow> length b - i < n \<Longrightarrow> words_ok b c \<Longrightarrow> settled b i (words_ok b) (parsebacks n b c i)"
proof (induction n arbitrary: i c)
  case (Suc n)
  obtain i1 p where p: "peek b i ''&'' = (i1, p)" by (cases "peek b i ''&''")
  note P = peek_bounds [OF Suc.prems(1) p]
  show ?case
  proof (cases p)
    case True
    then have s: "i1 < skip_token b i1" "at_token b (skip_token b i1)" "skip_token b i1 \<le> length b"
      using skip_token_advances [OF Suc.prems(1) assms, of "''&''" i1] p by auto
    have "settled b (skip_token b i1) (words_ok b) (parsebacks n b (BACK c) (skip_token b i1))"
      using P(1) s Suc.prems by (intro Suc.IH) (auto simp: words_ok_def)
    then show ?thesis using True p P(1) s settled_le [of b "skip_token b i1" _ _ i] by simp
  next
    case False
    then show ?thesis using p P Suc.prems by simp
  qed
qed simp

text \<open>The part after a command: a symbol, and another command if it is there.\<close>

lemma after_symbol_settled:
  assumes "NUL \<notin> set b" and "at_token b i" and "words_ok b c" and p: "peek b i toks = (i1, p)"
    and "p \<Longrightarrow> settled b (skip_token b i1) (words_ok b) r" and "\<And>x. words_ok b x \<Longrightarrow> words_ok b (k x)"
  shows "settled b i (words_ok b) (if p then pbind r (\<lambda>x i. POk (k x) i) else POk c i1)"
proof (cases p)
  case True
  have s: "i1 < skip_token b i1" "at_token b (skip_token b i1)" "skip_token b i1 \<le> length b"
    using skip_token_advances [OF assms(2,1), of toks i1] p True by auto
  have "settled b (skip_token b i1) (words_ok b) (pbind r (\<lambda>x i. POk (k x) i))"
    by (rule settled_bind [OF assms(5) [OF True]]) (use assms(6) in auto)
  then show ?thesis
    using True peek_bounds(1) [OF assms(2) p] s settled_le [of b "skip_token b i1" _ _ i] by simp
next
  case False
  then show ?thesis using peek_bounds [OF assms(2) p] assms(3) by simp
qed

lemma parse_settled:
  assumes nul: "NUL \<notin> set b"
  shows "at_token b i \<Longrightarrow>
    (4 * (length b - i) + 5 \<le> n \<longrightarrow> settled b i (words_ok b) (parseline n b i)) \<and>
    (4 * (length b - i) + 4 \<le> n \<longrightarrow> settled b i (words_ok b) (parsepipe n b i)) \<and>
    (4 * (length b - i) + 3 \<le> n \<longrightarrow> settled b i (words_ok b) (parseexec n b i)) \<and>
    (4 * (length b - i) + 2 \<le> n \<longrightarrow> settled b i (words_ok b) (parseblock n b i))"
proof (induction n arbitrary: i)
  case (Suc n)
  have adv: "j < skip_token b j" "at_token b (skip_token b j)" "skip_token b j \<le> length b" if "peek b k toks = (j, p)" "p" "at_token b k" for j k p toks
    using skip_token_advances [OF that(3) nul, of toks j] that(1,2) by auto
  have line: "settled b i (words_ok b) (parseline (Suc n) b i)" if N: "4 * (length b - i) + 4 \<le> n"
    unfolding parseline.simps
  proof (rule settled_bind)
    show "settled b i (words_ok b) (parsepipe n b i)" using Suc.IH [OF Suc.prems] N by simp
    fix c j assume j: "i \<le> j" "at_token b j" "words_ok b c"
    show "settled b j (words_ok b) (pbind (parsebacks n b c j) (\<lambda>c i. case peek b i '';'' of (i, p) \<Rightarrow>
         if p then pbind (parseline n b (skip_token b i)) (\<lambda>r i. POk (LIST c r) i) else POk c i))"
    proof (rule settled_bind)
      show "settled b j (words_ok b) (parsebacks n b c j)" by (rule parsebacks_settled [OF nul j(2) _ j(3)]) (use N j(1) in linarith)
      fix c' k assume k: "j \<le> k" "at_token b k" "words_ok b c'"
      obtain i1 p where p: "peek b k '';'' = (i1, p)" by (cases "peek b k '';''")
      have "settled b (skip_token b i1) (words_ok b) (parseline n b (skip_token b i1))" if p
        using adv [OF p that k(2)] peek_bounds(1) [OF k(2) p] Suc.IH [of "skip_token b i1"] N j(1) k(1) by fastforce
      then show "settled b k (words_ok b) (case peek b k '';'' of (i, p) \<Rightarrow>
         if p then pbind (parseline n b (skip_token b i)) (\<lambda>r i. POk (LIST c' r) i) else POk c' i)"
        unfolding p prod.case by (intro after_symbol_settled [OF nul k(2,3) p]) (use k(3) in \<open>auto simp: words_ok_def\<close>)
    qed
  qed
  have pipe: "settled b i (words_ok b) (parsepipe (Suc n) b i)" if N: "4 * (length b - i) + 3 \<le> n"
    unfolding parsepipe.simps
  proof (rule settled_bind)
    show "settled b i (words_ok b) (parseexec n b i)" using Suc.IH [OF Suc.prems] N by simp
    fix c k assume k: "i \<le> k" "at_token b k" "words_ok b c"
    obtain i1 p where p: "peek b k ''|'' = (i1, p)" by (cases "peek b k ''|''")
    have "settled b (skip_token b i1) (words_ok b) (parsepipe n b (skip_token b i1))" if p
      using adv [OF p that k(2)] peek_bounds(1) [OF k(2) p] Suc.IH [of "skip_token b i1"] N k(1) by fastforce
    then show "settled b k (words_ok b) (case peek b k ''|'' of (i, p) \<Rightarrow>
         if p then pbind (parsepipe n b (skip_token b i)) (\<lambda>r i. POk (PIPE c r) i) else POk c i)"
      unfolding p prod.case by (intro after_symbol_settled [OF nul k(2,3) p]) (use k(3) in \<open>auto simp: words_ok_def\<close>)
  qed
  have exec: "settled b i (words_ok b) (parseexec (Suc n) b i)" if N: "4 * (length b - i) + 2 \<le> n"
  proof -
    obtain i1 p where p: "peek b i ''('' = (i1, p)" by (cases "peek b i ''(''")
    note P = peek_bounds [OF Suc.prems p]
    show ?thesis
    proof (cases p)
      case True
      then have "settled b i1 (words_ok b) (parseblock n b i1)" using Suc.IH [OF P(2)] N P(1) by simp
      then show ?thesis using True p P(1) settled_le by simp
    next
      case False
      have "settled b i1 (words_ok b) (pbind (parseredirs_loop n b i1) (\<lambda>rs i.
          pbind (parseargs n b 0 i) (\<lambda>(as, rs') i. POk (redircmds (EXEC as) (rs @ rs')) i)))"
      proof (rule settled_bind)
        show "settled b i1 (redirs_ok b) (parseredirs_loop n b i1)"
          by (rule parseredirs_loop_settled [OF nul P(2)]) (use N P(1) in linarith)
        fix rs j assume j: "i1 \<le> j" "at_token b j" "redirs_ok b rs"
        show "settled b j (words_ok b) (pbind (parseargs n b 0 j) (\<lambda>(as, rs') i. POk (redircmds (EXEC as) (rs @ rs')) i))"
          by (rule settled_bind [OF parseargs_settled [OF nul j(2)]])
            (use N P(1) j in \<open>auto simp: words_ok_redircmds words_ok_EXEC\<close>)
      qed
      then show ?thesis using False p P(1) settled_le by simp
    qed
  qed
  have block: "settled b i (words_ok b) (parseblock (Suc n) b i)" if N: "4 * (length b - i) + 1 \<le> n"
  proof -
    obtain i1 p where p: "peek b i ''('' = (i1, p)" by (cases "peek b i ''(''")
    note P = peek_bounds [OF Suc.prems p]
    show ?thesis
    proof (cases p)
      case True
      note A = adv [OF p True Suc.prems]
      have "settled b (skip_token b i1) (words_ok b) (parseline n b (skip_token b i1))"
        using Suc.IH [OF A(2)] A P(1) N by auto
      then have "settled b (skip_token b i1) (words_ok b) (pbind (parseline n b (skip_token b i1)) (\<lambda>c i.
            case peek b i '')'' of (i, p) \<Rightarrow> if \<not> p then PPanic ''syntax - missing )'' else parseredirs n c b (skip_token b i)))"
      proof (rule settled_bind)
        fix c j assume j: "skip_token b i1 \<le> j" "at_token b j" "words_ok b c"
        obtain i2 p2 where p2: "peek b j '')'' = (i2, p2)" by (cases "peek b j '')''")
        note P2 = peek_bounds [OF j(2) p2]
        show "settled b j (words_ok b) (case peek b j '')'' of (i, p) \<Rightarrow>
            if \<not> p then PPanic ''syntax - missing )'' else parseredirs n c b (skip_token b i))"
        proof (cases p2)
          case True
          note A2 = adv [OF p2 True j(2)]
          have "settled b (skip_token b i2) (words_ok b) (parseredirs n c b (skip_token b i2))"
            unfolding parseredirs_def
            by (rule settled_bind [OF parseredirs_loop_settled [OF nul A2(2)]])
              (use A A2 P P2 N j in \<open>auto simp: words_ok_redircmds\<close>)
          then show ?thesis using True p2 A2(1) P2(1) settled_le [of b "skip_token b i2" _ _ j] by simp
        qed (use p2 in simp)
      qed
      then show ?thesis using True p A(1) P(1) settled_le [of b "skip_token b i1" _ _ i] by simp
    qed (use p in simp)
  qed
  show ?case using line pipe exec block by simp
qed simp

subsection \<open>The words are strings\<close>

text \<open>The C string at \<open>q\<close>, and the characters between the pointers of a token.\<close>

definition c_str :: "string \<Rightarrow> nat \<Rightarrow> string" where
  "c_str b q = takeWhile (\<lambda>c. c \<noteq> NUL) (drop q b)"

definition slice :: "string \<Rightarrow> token \<Rightarrow> string" where
  "slice b = (\<lambda>(q, e). take (e - q) (drop q b))"

lemma fold_nul:
  "length (fold (\<lambda>(q, e) b. b[e := NUL]) as b) = length b \<and>
   (k < length b \<longrightarrow> fold (\<lambda>(q, e) b. b[e := NUL]) as b ! k = (if k \<in> snd ` set as then NUL else b ! k))"
  by (induction as arbitrary: b) (auto simp: nth_list_update image_iff Bex_def)

lemma nulterminate_nth:
  "length (nulterminate c b) = length b \<and>
   (k < length b \<longrightarrow> nulterminate c b ! k = (if k \<in> snd ` set_cmd c then NUL else b ! k))"
proof (induction c arbitrary: b)
  case (EXEC as)
  show ?case using fold_nul [of as b k] by simp
next
  case (REDIR c t mode fd)
  then show ?case by (cases "snd t = k") auto
next
  case (PIPE l r)
  then show ?case by (auto simp: image_Un)
next
  case (LIST l r)
  then show ?case by (auto simp: image_Un)
qed simp

lemma token_c_str:
  assumes "words_ok b c" and "NUL \<notin> set b" and t: "(q, e) \<in> set_cmd c"
  shows "c_str (nulterminate c b) q = slice b (q, e)"
proof -
  let ?b = "nulterminate c b"
  have ok: "q < e" "e \<le> length b" "\<And>k. q \<le> k \<Longrightarrow> k < e \<Longrightarrow> word_char (b ! k)"
    using assms(1) t by (auto simp: words_ok_def token_ok_def)
  have len: "length ?b = length b" using nulterminate_nth by blast
  have same: "?b ! k = b ! k \<and> b ! k \<noteq> NUL" if k: "q \<le> k" "k < e" for k
  proof -
    have "k \<notin> snd ` set_cmd c"
    proof
      assume "k \<in> snd ` set_cmd c"
      then obtain q' where "token_ok b (q', k)" using assms(1) by (auto simp: words_ok_def)
      then show False using ok(2) ok(3) [OF k] k(2) by (auto simp: token_ok_def)
    qed
    moreover have "k < length b" using k ok by simp
    ultimately show ?thesis using nulterminate_nth [of c b k] assms(2) by (metis nth_mem)
  qed
  have "take (e - q) (drop q ?b) = take (e - q) (drop q b)"
    by (rule nth_equalityI) (use len ok same in auto)
  moreover have "takeWhile (\<lambda>c. c \<noteq> NUL) (drop q ?b) = take (e - q) (drop q ?b)"
  proof (rule takeWhile_eq_take_P_nth)
    show "drop q ?b ! i \<noteq> NUL" if "i < e - q" "i < length (drop q ?b)" for i
      using same [of "q + i"] that len by auto
    show "\<not> drop q ?b ! (e - q) \<noteq> NUL" if "e - q < length (drop q ?b)"
    proof -
      have "e \<in> snd ` set_cmd c" using t by force
      then show ?thesis using nulterminate_nth [of c b e] that len ok by auto
    qed
  qed
  ultimately show ?thesis by (simp add: c_str_def slice_def)
qed

text \<open>
  C35: the shell parses or refuses every line. Whatever the line, \<open>parsecmd\<close> returns: it panics with a
  message, or it gives a command each of whose words is a maximal run of characters that are no space and no
  symbol, at pointers where, after \<open>nulterminate\<close>, exactly that word is found as a C string.
\<close>
theorem shell_parse_terminates:
  assumes "NUL \<notin> set b"
  shows "(\<exists>m. parsecmd b = PPanic m) \<or> (\<exists>c b'. parsecmd b = POk (c, b') (length b) \<and>
    (\<forall>(q, e) \<in> set_cmd c. token_ok b (q, e) \<and> c_str b' q = slice b (q, e)))"
proof -
  have "settled b 0 (words_ok b) (parseline (parse_fuel b) b 0)"
    using parse_settled [OF assms at_token_0, of "parse_fuel b"] by (simp add: parse_fuel_def)
  then consider m where "parseline (parse_fuel b) b 0 = PPanic m"
    | c i where "parseline (parse_fuel b) b 0 = POk c i" "words_ok b c"
    by (auto simp: settled_def)
  then show ?thesis
  proof cases
    case 2
    obtain j p where "peek b i [] = (j, p)" by (cases "peek b i []")
    then show ?thesis
      using 2 token_c_str [OF 2(2) assms] by (auto simp: parsecmd_def words_ok_def)
  qed (simp add: parsecmd_def)
qed

text \<open>A line that is parsed, and one that is refused.\<close>

theorem shell_parse_terminates_witness:
  "NUL \<notin> set ''ls>f'' \<and> parsecmd ''ls>f'' = POk (REDIR (EXEC [(0, 2)]) (3, 4) 0x601 1, ''ls'' @ [NUL] @ ''f'') 4 \<and>
   token_ok ''ls>f'' (0, 2) \<and> token_ok ''ls>f'' (3, 4) \<and> parsecmd '';)'' = PPanic ''syntax''"
proof -
  have run: "parsecmd ''ls>f'' = POk (REDIR (EXEC [(0, 2)]) (3, 4) 0x601 1, ''ls'' @ [NUL] @ ''f'') 4"
      "parsecmd '';)'' = PPanic ''syntax''"
    by code_simp+
  have "NUL \<notin> set ''ls>f''" by simp
  from shell_parse_terminates [OF this] show ?thesis using run by auto
qed

end
