(* ===== verification/Shell_Syntax.thy ===== *)
theory Shell_Syntax
  imports Shell
begin

section \<open>sh.c: the command language\<close>

text \<open>
  The language the parser of theory \<open>Shell\<close> reads, as an abstract syntax with a printer, and the proof that
  the parser inverts the printer.
\<close>

subsection \<open>Commands as they are written\<close>

text \<open>
  The grammar of the command language: a line is pipelines, each followed by \<open>&\<close> signs, with \<open>;\<close> between
  them; a pipeline is commands with \<open>|\<close> between them; a command is a line in parentheses or words, with
  redirections anywhere. \<open>show_line\<close> writes it with a space after every token; \<open>line_cmd\<close> is the structure
  it stands for.
\<close>

type_synonym redir = "char \<times> string"

datatype sline = LEnd spipe nat | LSeq spipe nat sline
  and spipe = POne sexec | PSeq sexec spipe
  and sexec = Block sline "redir list" | Simple "redir list" "(string \<times> redir list) list"

definition show_op :: "char \<Rightarrow> string" where
  "show_op k = (if k = CHR ''+'' then ''>>'' else [k])"

definition show_redirs :: "redir list \<Rightarrow> string" where
  "show_redirs rs = concat (map (\<lambda>(k, f). show_op k @ '' '' @ f @ '' '') rs)"

definition show_words :: "(string \<times> redir list) list \<Rightarrow> string" where
  "show_words ws = concat (map (\<lambda>(w, rs). w @ '' '' @ show_redirs rs) ws)"

fun show_line :: "sline \<Rightarrow> string" and show_pipe :: "spipe \<Rightarrow> string" and show_exec :: "sexec \<Rightarrow> string" where
  "show_line (LEnd p k) = show_pipe p @ concat (replicate k ''& '')"
| "show_line (LSeq p k l) = show_pipe p @ concat (replicate k ''& '') @ ''; '' @ show_line l"
| "show_pipe (POne e) = show_exec e"
| "show_pipe (PSeq e p) = show_exec e @ ''| '' @ show_pipe p"
| "show_exec (Block l rs) = ''( '' @ show_line l @ '') '' @ show_redirs rs"
| "show_exec (Simple rs ws) = show_redirs rs @ show_words ws"

fun line_cmd :: "sline \<Rightarrow> string cmd" and pipe_cmd :: "spipe \<Rightarrow> string cmd" and exec_cmd :: "sexec \<Rightarrow> string cmd" where
  "line_cmd (LEnd p k) = (BACK ^^ k) (pipe_cmd p)"
| "line_cmd (LSeq p k l) = LIST ((BACK ^^ k) (pipe_cmd p)) (line_cmd l)"
| "pipe_cmd (POne e) = exec_cmd e"
| "pipe_cmd (PSeq e p) = PIPE (exec_cmd e) (pipe_cmd p)"
| "exec_cmd (Block l rs) = redircmds (line_cmd l) rs"
| "exec_cmd (Simple rs ws) = redircmds (EXEC (map fst ws)) (rs @ concat (map snd ws))"

definition good_word :: "string \<Rightarrow> bool" where
  "good_word w \<longleftrightarrow> w \<noteq> [] \<and> (\<forall>c \<in> set w. word_char c \<and> c \<noteq> NUL)"

definition good_redirs :: "redir list \<Rightarrow> bool" where
  "good_redirs rs \<longleftrightarrow> (\<forall>(k, f) \<in> set rs. k \<in> set ''<>+'' \<and> good_word f)"

fun good_line :: "sline \<Rightarrow> bool" and good_pipe :: "spipe \<Rightarrow> bool" and good_exec :: "sexec \<Rightarrow> bool" where
  "good_line (LEnd p k) = good_pipe p"
| "good_line (LSeq p k l) = (good_pipe p \<and> good_line l)"
| "good_pipe (POne e) = good_exec e"
| "good_pipe (PSeq e p) = (good_exec e \<and> good_pipe p)"
| "good_exec (Block l rs) = (good_line l \<and> good_redirs rs)"
| "good_exec (Simple rs ws) = (good_redirs rs \<and> length ws < MAXARGS \<and> (\<forall>(w, rs) \<in> set ws. good_word w \<and> good_redirs rs))"

subsection \<open>Reading tokens back\<close>

definition follow :: "string \<Rightarrow> string \<Rightarrow> bool" where
  "follow S r \<longleftrightarrow> r = [] \<or> hd r \<in> set S"

text \<open>The text does not start with a space.\<close>

definition tight :: "string \<Rightarrow> bool" where
  "tight r \<longleftrightarrow> r = [] \<or> hd r \<notin> set whitespace"

lemma follow_tight: "follow S r \<Longrightarrow> set S \<subseteq> set symbols \<Longrightarrow> tight r"
  by (auto simp: follow_def tight_def symbols_def whitespace_def)

lemma byte_at_drop: "byte_at b i = (case drop i b of [] \<Rightarrow> NUL | c # _ \<Rightarrow> c)"
proof (cases "i < length b")
  case True
  then have "drop i b = b ! i # drop (Suc i) b" by (simp add: Cons_nth_drop_Suc)
  then show ?thesis using True by (simp add: byte_at_def)
qed (simp add: byte_at_def)

lemma skip_ws_tight: "drop i b = r \<Longrightarrow> tight r \<Longrightarrow> skip_ws b i = i"
  by (cases r) (auto simp: skip_ws_eq tight_def)

lemma skip_ws_space:
  assumes "drop i b = x @ '' '' @ r" and "tight r"
  shows "skip_ws b (i + length x) = i + length x + 1" "drop (i + length x + 1) b = r"
proof -
  have d: "drop (i + length x) b = CHR '' '' # r" 
    using arg_cong [OF assms(1), of "drop (length x)"] by (simp add: add.commute)
  show r: "drop (i + length x + 1) b = r" using arg_cong [OF d, of "drop 1"] by (simp add: add.commute)
  have "takeWhile (\<lambda>c. c \<in> set whitespace) r = []" using assms(2) by (cases r) (auto simp: tight_def)
  then show "skip_ws b (i + length x) = i + length x + 1" by (simp add: skip_ws_eq d whitespace_def)
qed

lemma peek_tight:
  assumes "drop i b = r" and "tight r"
  shows "peek b i toks = (i, r \<noteq> [] \<and> hd r \<noteq> NUL \<and> hd r \<in> set toks)"
  using assms by (cases r) (auto simp: peek_def Let_def skip_ws_tight byte_at_drop)

lemma gettoken_symbol:
  assumes "drop i b = [c] @ '' '' @ r" and "tight r" and "c \<in> set ''|();&<>''"
  shows "gettoken b i = (c, i, i + 1, i + 2)" "drop (i + 2) b = r" "skip_token b i = i + 2"
proof -
  have "tight (drop i b)" using assms(1,3) by (auto simp: tight_def whitespace_def)
  then have w: "skip_ws b i = i" using skip_ws_tight by blast
  note s = skip_ws_space [OF assms(1,2)]
  have "drop (i + 1) b = CHR '' '' # r" using arg_cong [OF assms(1), of "drop 1"] by (simp add: add.commute)
  then have "byte_at b i = c" "byte_at b (i + 1) = CHR '' ''" using assms(1) by (simp_all add: byte_at_drop)
  then show g: "gettoken b i = (c, i, i + 1, i + 2)"
    using assms(3) w s by (auto simp: gettoken_def Let_def)
  show "drop (i + 2) b = r" using s by simp
  show "skip_token b i = i + 2" by (simp add: skip_token_def g)
qed

lemma gettoken_append:
  assumes "drop i b = ''>>'' @ '' '' @ r" and "tight r"
  shows "gettoken b i = (CHR ''+'', i, i + 2, i + 3)" "drop (i + 3) b = r"
proof -
  have "tight (drop i b)" using assms(1) by (auto simp: tight_def whitespace_def)
  then have w: "skip_ws b i = i" using skip_ws_tight by blast
  note s = skip_ws_space [OF assms]
  have "drop (i + 1) b = ''>'' @ '' '' @ r" using arg_cong [OF assms(1), of "drop 1"] by (simp add: add.commute)
  then have "byte_at b i = CHR ''>''" "byte_at b (i + 1) = CHR ''>''" using assms(1) by (simp_all add: byte_at_drop)
  then show "gettoken b i = (CHR ''+'', i, i + 2, i + 3)"
    using w s by (simp add: gettoken_def Let_def eval_nat_numeral)
  show "drop (i + 3) b = r" using s by (simp add: eval_nat_numeral)
qed

lemma gettoken_word:
  assumes d: "drop i b = w @ '' '' @ r" and "tight r" and w: "good_word w"
  shows "gettoken b i = (CHR ''a'', i, i + length w, i + length w + 1)" "drop (i + length w + 1) b = r"
    "slice b (i, i + length w) = w"
proof -
  obtain c w' where c: "w = c # w'" "word_char c" "c \<noteq> NUL" using w by (cases w) (auto simp: good_word_def)
  have "tight (drop i b)" using d c by (auto simp: tight_def word_char_def)
  then have ws: "skip_ws b i = i" using skip_ws_tight by blast
  note s = skip_ws_space [OF d assms(2)]
  have "takeWhile word_char (w @ '' '' @ r) = w"
    using w by (subst takeWhile_append2) (auto simp: good_word_def word_char_def whitespace_def)
  then have "skip_word b i = i + length w" by (simp add: skip_word_eq d)
  moreover have "byte_at b i = c" using d c by (simp add: byte_at_drop)
  moreover have "c \<notin> set ''|();&<''" "c \<noteq> CHR ''>''" using c(2) by (auto simp: word_char_def symbols_def)
  ultimately show "gettoken b i = (CHR ''a'', i, i + length w, i + length w + 1)"
    using ws s c(3) by (simp add: gettoken_def Let_def)
  show "drop (i + length w + 1) b = r" by (rule s)
  show "slice b (i, i + length w) = w" by (simp add: slice_def d)
qed

lemma gettoken_op:
  assumes "drop i b = show_op k @ '' '' @ r" and "tight r" and "k \<in> set ''<>+''"
  shows "\<exists>q e j. gettoken b i = (k, q, e, j) \<and> drop j b = r"
proof (cases "k = CHR ''+''")
  case True
  then show ?thesis using gettoken_append [of i b r] assms by (simp add: show_op_def)
next
  case False
  then have "k \<in> set ''|();&<>''" "drop i b = [k] @ '' '' @ r" using assms by (auto simp: show_op_def)
  then show ?thesis using gettoken_symbol(1,2) [of i b k r] assms(2) by blast
qed

lemma tight_word: "good_word w \<Longrightarrow> tight (w @ r)"
  by (cases w) (auto simp: tight_def good_word_def word_char_def)

lemma tight_redirs: "good_redirs rs \<Longrightarrow> tight r \<Longrightarrow> tight (show_redirs rs @ r)"
  by (cases rs) (auto simp: tight_def show_redirs_def show_op_def good_redirs_def whitespace_def)

lemma tight_words: "\<forall>(w, rs) \<in> set ws. good_word w \<Longrightarrow> tight r \<Longrightarrow> tight (show_words ws @ r)"
  using tight_word by (cases ws) (auto simp: show_words_def)

subsection \<open>Reading commands back\<close>

lemma pbind_noFuel: "pbind r f \<noteq> PFuel \<Longrightarrow> r \<noteq> PFuel"
  by (cases r) auto

definition resolve :: "string \<Rightarrow> (char \<times> token) list \<Rightarrow> redir list" where
  "resolve b = map (\<lambda>(k, t). (k, slice b t))"

lemma resolve_simps [simp]: "resolve b [] = []" "resolve b ((k, t) # rs) = (k, slice b t) # resolve b rs"
  "resolve b (rs @ rs') = resolve b rs @ resolve b rs'"
  by (simp_all add: resolve_def)

lemma map_redircmds: "map_cmd (slice b) (redircmds c rs) = redircmds (map_cmd (slice b) c) (resolve b rs)"
  by (induction rs arbitrary: c) (simp_all add: redircmds_def resolve_def case_prod_unfold)

lemma redirs_read:
  assumes "tight r" and "r = [] \<or> hd r \<notin> set ''<>''"
  shows "drop i b = show_redirs rs @ r \<Longrightarrow> good_redirs rs \<Longrightarrow> parseredirs_loop n b i \<noteq> PFuel \<Longrightarrow>
    \<exists>rs' j. parseredirs_loop n b i = POk rs' j \<and> drop j b = r \<and> resolve b rs' = rs"
proof (induction rs arbitrary: n i)
  case Nil
  then obtain m where n: "n = Suc m" by (cases n) auto
  have "drop i b = r" using Nil by (simp add: show_redirs_def)
  then show ?case using peek_tight [of i b r "''<>''"] assms n by auto
next
  case (Cons x rs)
  obtain k f where x: "x = (k, f)" by (cases x)
  obtain m where n: "n = Suc m" using Cons.prems(3) by (cases n) auto
  have g: "k \<in> set ''<>+''" "good_word f" "good_redirs rs" using Cons.prems(2) x by (auto simp: good_redirs_def)
  have d: "drop i b = show_op k @ '' '' @ f @ '' '' @ show_redirs rs @ r" using Cons.prems(1) x by (simp add: show_redirs_def)
  have t: "tight (f @ '' '' @ show_redirs rs @ r)" using tight_word [OF g(2)] by simp
  have t2: "tight (show_redirs rs @ r)" by (rule tight_redirs [OF g(3) assms(1)])
  have "tight (drop i b)" using d g(1) by (auto simp: tight_def show_op_def whitespace_def)
  then have p: "peek b i ''<>'' = (i, True)" using peek_tight [of i b _ "''<>''"] d g(1) by (auto simp: show_op_def)
  obtain q e i2 where o: "gettoken b i = (k, q, e, i2)" "drop i2 b = f @ '' '' @ show_redirs rs @ r"
    using gettoken_op [OF d t g(1)] by blast
  note w = gettoken_word [OF o(2) t2 g(2)]
  let ?j = "i2 + length f + 1"
  have step: "parseredirs_loop n b i = pbind (parseredirs_loop m b ?j) (\<lambda>rs i. POk ((k, i2, i2 + length f) # rs) i)"
    using p o(1) w(1) n by simp
  then obtain rs' j where "parseredirs_loop m b ?j = POk rs' j" "drop j b = r" "resolve b rs' = rs"
    using Cons.IH [OF w(2) g(3), of m] Cons.prems(3) pbind_noFuel by metis
  then show ?case using step w(3) x by simp
qed

lemma args_read:
  assumes "follow ''|)&;'' r"
  shows "drop i b = show_words ws @ r \<Longrightarrow> \<forall>(w, rs) \<in> set ws. good_word w \<and> good_redirs rs \<Longrightarrow>
    argc + length ws < MAXARGS \<Longrightarrow> NUL \<notin> set b \<Longrightarrow> parseargs n b argc i \<noteq> PFuel \<Longrightarrow>
    \<exists>as rs j. parseargs n b argc i = POk (as, rs) j \<and> drop j b = r \<and> map (slice b) as = map fst ws \<and>
      resolve b rs = concat (map snd ws)"
proof (induction ws arbitrary: n i argc)
  case Nil
  then obtain m where n: "n = Suc m" by (cases n) auto
  have tr: "tight r" using assms by (rule follow_tight) (auto simp: symbols_def)
  have d: "drop i b = r" using Nil by (simp add: show_words_def)
  have p: "peek b i ''|)&;'' = (i, r \<noteq> [] \<and> hd r \<noteq> NUL \<and> hd r \<in> set ''|)&;'')" by (rule peek_tight [OF d tr])
  show ?case
  proof (cases "r = []")
    case True
    have "skip_ws b i = i" using skip_ws_tight [OF d tr] .
    moreover have "byte_at b i = NUL" using d True by (simp add: byte_at_drop)
    ultimately have "gettoken b i = (NUL, i, i, i)" by (simp add: gettoken_def Let_def)
    then show ?thesis using p n d True by simp
  next
    case False
    then have "hd r \<in> set b" using d by (metis hd_in_set in_set_dropD)
    then have "hd r \<noteq> NUL" using Nil.prems(4) by auto
    then show ?thesis using p n d False assms by (auto simp: follow_def)
  qed
next
  case (Cons x ws)
  obtain w rs where x: "x = (w, rs)" by (cases x)
  obtain m where n: "n = Suc m" using Cons.prems(5) by (cases n) auto
  have g: "good_word w" "good_redirs rs" "\<forall>(w, rs) \<in> set ws. good_word w \<and> good_redirs rs" using Cons.prems(2) x by auto
  have tr: "tight r" using assms by (rule follow_tight) (auto simp: symbols_def)
  let ?rest = "show_words ws @ r"
  have t1: "tight ?rest" using g(3) tr by (intro tight_words) auto
  have t2: "tight (show_redirs rs @ ?rest)" by (rule tight_redirs [OF g(2) t1])
  have d: "drop i b = w @ '' '' @ show_redirs rs @ ?rest" using Cons.prems(1) x by (simp add: show_words_def)
  note W = gettoken_word [OF d t2 g(1)]
  obtain c w' where c: "w = c # w'" "word_char c" using g(1) by (cases w) (auto simp: good_word_def)
  have "tight (drop i b)" using d tight_word [OF g(1)] by simp
  moreover have "c \<notin> set ''|)&;''" using c(2) by (auto simp: word_char_def symbols_def)
  ultimately have p: "peek b i ''|)&;'' = (i, False)" using peek_tight [OF refl, of i b "''|)&;''"] d c(1) by simp
  let ?j = "i + length w + 1"
  have step: "parseargs n b argc i = pbind (parseredirs_loop m b ?j) (\<lambda>rs k.
      pbind (parseargs m b (argc + 1) k) (\<lambda>(as, rs') l. POk ((i, i + length w) # as, rs @ rs') l))"
    using p W(1) n Cons.prems(3) by simp
  have nf: "parseredirs_loop m b ?j \<noteq> PFuel" using step Cons.prems(5) pbind_noFuel by metis
  have "?rest = [] \<or> hd ?rest \<notin> set ''<>''"
  proof (cases ws)
    case Nil
    then show ?thesis using assms by (auto simp: show_words_def follow_def)
  next
    case (Cons y ws')
    obtain v vs where y: "y = (v, vs)" by (cases y)
    then obtain a v' where "v = a # v'" "word_char a" using g(3) Cons by (cases v) (auto simp: good_word_def)
    then show ?thesis using Cons y by (auto simp: show_words_def word_char_def symbols_def)
  qed
  then obtain rs1 k where r1: "parseredirs_loop m b ?j = POk rs1 k" "drop k b = ?rest" "resolve b rs1 = rs"
    using redirs_read [OF t1 _ W(2) g(2) nf] by blast
  have nf2: "parseargs m b (argc + 1) k \<noteq> PFuel" using step Cons.prems(5) r1(1) pbind_noFuel by fastforce
  obtain as rs2 l where "parseargs m b (argc + 1) k = POk (as, rs2) l" "drop l b = r" "map (slice b) as = map fst ws"
      "resolve b rs2 = concat (map snd ws)"
    using Cons.IH [OF r1(2) g(3) _ Cons.prems(4) nf2] Cons.prems(3) by auto
  then show ?case using step r1 W(3) x by simp
qed

lemma backs_read:
  assumes "tight r" and "r = [] \<or> hd r \<noteq> CHR ''&''"
  shows "drop i b = concat (replicate k ''& '') @ r \<Longrightarrow> parsebacks n b c i \<noteq> PFuel \<Longrightarrow>
    \<exists>j. parsebacks n b c i = POk ((BACK ^^ k) c) j \<and> drop j b = r"
proof (induction k arbitrary: n i c)
  case 0
  then obtain m where n: "n = Suc m" by (cases n) auto
  then show ?case using 0 peek_tight [of i b r "''&''"] assms by auto
next
  case (Suc k)
  obtain m where n: "n = Suc m" using Suc.prems(2) by (cases n) auto
  let ?r = "concat (replicate k ''& '') @ r"
  have t: "tight ?r" using assms(1) by (cases k) (auto simp: tight_def whitespace_def)
  have d: "drop i b = [CHR ''&''] @ '' '' @ ?r" using Suc.prems(1) by simp
  have "tight (drop i b)" using d by (simp add: tight_def whitespace_def)
  then have "peek b i ''&'' = (i, True)" using peek_tight [OF refl, of i b "''&''"] d by simp
  moreover note g = gettoken_symbol [OF d t]
  ultimately have step: "parsebacks n b c i = parsebacks m b (BACK c) (i + 2)" using n by simp
  then obtain j where "parsebacks m b (BACK c) (i + 2) = POk ((BACK ^^ k) (BACK c)) j" "drop j b = r"
    using Suc.IH [of "i + 2" m "BACK c"] g(2) Suc.prems(2) by auto
  then show ?case using step by (simp add: funpow_swap1)
qed

lemma map_backs: "map_cmd f ((BACK ^^ k) c) = (BACK ^^ k) (map_cmd f c)"
  by (induction k) simp_all

lemma tight_shown:
  shows tight_line: "good_line l \<Longrightarrow> tight r \<Longrightarrow> tight (show_line l @ r)"
    and tight_pipe: "good_pipe p \<Longrightarrow> tight r \<Longrightarrow> tight (show_pipe p @ r)"
    and tight_exec: "good_exec e \<Longrightarrow> tight r \<Longrightarrow> tight (show_exec e @ r)"
proof (induction l and p and e arbitrary: r and r and r)
  case (LEnd p k)
  then have "tight (concat (replicate k ''& '') @ r)" by (cases k) (auto simp: tight_def whitespace_def)
  then show ?case using LEnd by simp
next
  case (LSeq p k l)
  have "tight (concat (replicate k ''& '') @ ''; '' @ show_line l @ r)" by (cases k) (auto simp: tight_def whitespace_def)
  then show ?case using LSeq by simp
next
  case (PSeq e p)
  have "tight (''| '' @ show_pipe p @ r)" by (simp add: tight_def whitespace_def)
  then show ?case using PSeq by simp
next
  case (Block l rs)
  then show ?case by (simp add: tight_def whitespace_def)
next
  case (Simple rs ws)
  have "tight (show_words ws @ r)" using Simple by (intro tight_words) auto
  then show ?case using tight_redirs Simple by simp
qed simp

text \<open>The parse \<open>res\<close> stops where the text \<open>r\<close> is left, with a command that stands for \<open>x\<close>.\<close>

definition reads :: "string \<Rightarrow> string \<Rightarrow> string cmd \<Rightarrow> token cmd presult \<Rightarrow> bool" where
  "reads b r x res \<longleftrightarrow> (\<exists>c j. res = POk c j \<and> drop j b = r \<and> map_cmd (slice b) c = x)"

lemma peek_follow:
  assumes "drop i b = r" and "follow S r" and "set S \<subseteq> set symbols" and "set S \<inter> set toks = {}"
  shows "peek b i toks = (i, False)"
  using peek_tight [OF assms(1) follow_tight [OF assms(2,3)], of toks] assms(2,4) by (auto simp: follow_def)

lemma peek_symbol:
  assumes "drop i b = [c] @ '' '' @ r" and "tight r" and "c \<in> set ''|();&<>''" and "c \<in> set toks"
  shows "peek b i toks = (i, True)" "skip_token b i = i + 2" "drop (i + 2) b = r"
proof -
  have "tight (drop i b)" using assms(1,3) by (auto simp: tight_def whitespace_def)
  then show "peek b i toks = (i, True)" using peek_tight [OF refl, of i b toks] assms by auto
qed (use gettoken_symbol [OF assms(1-3)] in auto)

text \<open>The end of a line or pipeline: a symbol and the rest, or what may follow.\<close>

lemma reads_more:
  assumes "reads b ([s] @ '' '' @ r') x res" and "tight r'" and "s \<in> set ''|();&<>''"
    and "res' = pbind res (\<lambda>c i. case peek b i [s] of (i, p) \<Rightarrow>
           if p then pbind (more (skip_token b i)) (\<lambda>d i. POk (k c d) i) else POk c i)"
    and "res' \<noteq> PFuel" and "\<And>i. drop i b = r' \<Longrightarrow> more i \<noteq> PFuel \<Longrightarrow> reads b r y (more i)"
    and "\<And>c d. map_cmd (slice b) (k c d) = k' (map_cmd (slice b) c) (map_cmd (slice b) d)"
  shows "reads b r (k' x y) res'"
proof -
  obtain c j where c: "res = POk c j" "drop j b = [s] @ '' '' @ r'" "map_cmd (slice b) c = x"
    using assms(1) by (auto simp: reads_def)
  note P = peek_symbol [OF c(2) assms(2,3), of "[s]"]
  have res': "res' = pbind (more (j + 2)) (\<lambda>d i. POk (k c d) i)" using assms(4) c(1) P by simp
  then have "more (j + 2) \<noteq> PFuel" using assms(5) pbind_noFuel by metis
  then show ?thesis using assms(6) P(3) res' c(3) assms(7) by (fastforce simp: reads_def)
qed

lemma reads_last:
  assumes "reads b r x res" and "follow S r" and "set S \<subseteq> set symbols" and "s \<notin> set S"
    and "res' = pbind res (\<lambda>c i. case peek b i [s] of (i, p) \<Rightarrow> if p then more c i else POk c i)"
  shows "reads b r x res'"
proof -
  obtain c j where c: "res = POk c j" "drop j b = r" "map_cmd (slice b) c = x"
    using assms(1) by (auto simp: reads_def)
  have "peek b j [s] = (j, False)" by (rule peek_follow [OF c(2) assms(2,3)]) (use assms(4) in simp)
  then show ?thesis using c assms(5) by (simp add: reads_def)
qed

lemma reads_backs:
  assumes "reads b (concat (replicate k ''& '') @ r) x res" and "tight r" and "r = [] \<or> hd r \<noteq> CHR ''&''"
    and "pbind res (\<lambda>c i. parsebacks n b c i) \<noteq> PFuel"
  shows "reads b r ((BACK ^^ k) x) (pbind res (\<lambda>c i. parsebacks n b c i))"
proof -
  obtain c j where c: "res = POk c j" "drop j b = concat (replicate k ''& '') @ r" "map_cmd (slice b) c = x"
    using assms(1) by (auto simp: reads_def)
  then show ?thesis using backs_read [OF assms(2,3) c(2), of n c] assms(4) by (auto simp: reads_def map_backs)
qed

lemma pbind_assoc: "pbind (pbind r f) g = pbind r (\<lambda>x i. pbind (f x i) g)"
  by (cases r) simp_all

lemma simple_read:
  assumes "NUL \<notin> set b" and d: "drop i b = show_exec (Simple rs ws) @ r" and g: "good_exec (Simple rs ws)"
    and f: "follow ''|)&;'' r" and nf: "parseexec n b i \<noteq> PFuel"
  shows "reads b r (exec_cmd (Simple rs ws)) (parseexec n b i)"
proof -
  obtain m where n: "n = Suc m" using nf by (cases n) auto
  have tr: "tight r" using f by (rule follow_tight) (auto simp: symbols_def)
  have tw: "tight (show_words ws @ r)" using g tr by (intro tight_words) auto
  have hw: "show_words ws @ r = [] \<or> hd (show_words ws @ r) \<notin> set ''<>(''"
  proof (cases ws)
    case Nil
    then show ?thesis using f by (auto simp: show_words_def follow_def)
  next
    case (Cons y ws')
    obtain v vs where y: "y = (v, vs)" by (cases y)
    then obtain a v' where "v = a # v'" "word_char a" using g Cons by (cases v) (auto simp: good_word_def)
    then show ?thesis using Cons y by (auto simp: show_words_def word_char_def symbols_def)
  qed
  have dr: "drop i b = show_redirs rs @ show_words ws @ r" using d by simp
  have t: "tight (drop i b)" unfolding dr by (rule tight_redirs [OF _ tw]) (use g in simp)
  have h: "drop i b = [] \<or> hd (drop i b) \<noteq> CHR ''(''"
    unfolding dr using hw g by (cases rs) (auto simp: show_redirs_def good_redirs_def show_op_def)
  then have p: "peek b i ''('' = (i, False)" using peek_tight [OF refl t, of "''(''"] by auto
  have step: "parseexec n b i = pbind (parseredirs_loop m b i) (\<lambda>rs i.
      pbind (parseargs m b 0 i) (\<lambda>(as, rs') i. POk (redircmds (EXEC as) (rs @ rs')) i))"
    using p n by simp
  have nf1: "parseredirs_loop m b i \<noteq> PFuel" using step nf pbind_noFuel by metis
  obtain rs1 k where r1: "parseredirs_loop m b i = POk rs1 k" "drop k b = show_words ws @ r" "resolve b rs1 = rs"
    using redirs_read [OF tw _ dr _ nf1] hw g by auto
  have nf2: "parseargs m b 0 k \<noteq> PFuel" using step nf r1(1) pbind_noFuel by fastforce
  obtain as rs2 l where "parseargs m b 0 k = POk (as, rs2) l" "drop l b = r" "map (slice b) as = map fst ws"
      "resolve b rs2 = concat (map snd ws)"
    using args_read [OF f r1(2) _ _ assms(1) nf2] g by auto
  then show ?thesis using step r1 by (simp add: reads_def map_redircmds)
qed

lemma parse_reads:
  assumes nul: "NUL \<notin> set b"
  shows line_read: "drop i b = show_line l @ r \<Longrightarrow> good_line l \<Longrightarrow> follow '')'' r \<Longrightarrow> parseline n b i \<noteq> PFuel \<Longrightarrow>
      reads b r (line_cmd l) (parseline n b i)"
    and pipe_read: "drop i b = show_pipe p @ r \<Longrightarrow> good_pipe p \<Longrightarrow> follow '')&;'' r \<Longrightarrow> parsepipe n b i \<noteq> PFuel \<Longrightarrow>
      reads b r (pipe_cmd p) (parsepipe n b i)"
    and exec_read: "drop i b = show_exec e @ r \<Longrightarrow> good_exec e \<Longrightarrow> follow ''|)&;'' r \<Longrightarrow> parseexec n b i \<noteq> PFuel \<Longrightarrow>
      reads b r (exec_cmd e) (parseexec n b i)"
proof (induction l and p and e arbitrary: i n r and i n r and i n r)
  case (LEnd p k)
  obtain m where n: "n = Suc m" using LEnd.prems(4) by (cases n) auto
  have tr: "tight r" using LEnd.prems(3) by (rule follow_tight) (auto simp: symbols_def)
  have f: "follow '')&;'' (concat (replicate k ''& '') @ r)" using LEnd.prems(3) by (cases k) (auto simp: follow_def)
  let ?res = "pbind (parsepipe m b i) (\<lambda>c i. parsebacks m b c i)"
  have step: "parseline n b i = pbind ?res (\<lambda>c i. case peek b i '';'' of (i, p) \<Rightarrow>
      if p then pbind (parseline m b (skip_token b i)) (\<lambda>d i. POk (LIST c d) i) else POk c i)"
    using n by (simp add: pbind_assoc)
  have nf: "?res \<noteq> PFuel" using LEnd.prems(4) step pbind_noFuel by metis
  have "reads b (concat (replicate k ''& '') @ r) (pipe_cmd p) (parsepipe m b i)"
    using LEnd.IH [OF _ _ f] LEnd.prems(1,2) pbind_noFuel [OF nf] by simp
  then have "reads b r ((BACK ^^ k) (pipe_cmd p)) ?res"
    by (rule reads_backs [OF _ tr _ nf]) (use LEnd.prems(3) in \<open>auto simp: follow_def\<close>)
  then have "reads b r ((BACK ^^ k) (pipe_cmd p)) (parseline n b i)"
    by (rule reads_last [OF _ LEnd.prems(3) _ _ step]) (auto simp: symbols_def)
  then show ?case by simp
next
  case (LSeq p k l)
  obtain m where n: "n = Suc m" using LSeq.prems(4) by (cases n) auto
  have tl: "tight (show_line l @ r)"
    using LSeq.prems(2,3) by (intro tight_line follow_tight [of "'')''"]) (auto simp: symbols_def)
  let ?r = "[CHR '';''] @ '' '' @ show_line l @ r"
  have f: "follow '')&;'' (concat (replicate k ''& '') @ ?r)" by (cases k) (auto simp: follow_def)
  let ?res = "pbind (parsepipe m b i) (\<lambda>c i. parsebacks m b c i)"
  have step: "parseline n b i = pbind ?res (\<lambda>c i. case peek b i [CHR '';''] of (i, p) \<Rightarrow>
      if p then pbind (parseline m b (skip_token b i)) (\<lambda>d i. POk (LIST c d) i) else POk c i)"
    using n by (simp add: pbind_assoc)
  have nf: "?res \<noteq> PFuel" using LSeq.prems(4) step pbind_noFuel by metis
  have "reads b (concat (replicate k ''& '') @ ?r) (pipe_cmd p) (parsepipe m b i)"
    using LSeq.IH(1) [OF _ _ f] LSeq.prems(1,2) pbind_noFuel [OF nf] by simp
  then have q: "reads b ?r ((BACK ^^ k) (pipe_cmd p)) ?res"
    by (rule reads_backs [OF _ _ _ nf]) (auto simp: tight_def whitespace_def)
  have "reads b r (line_cmd l) (parseline m b j)" if "drop j b = show_line l @ r" "parseline m b j \<noteq> PFuel" for j
    using LSeq.IH(2) [OF that(1) _ LSeq.prems(3) that(2)] LSeq.prems(2) by simp
  then have "reads b r (LIST ((BACK ^^ k) (pipe_cmd p)) (line_cmd l)) (parseline n b i)"
    by (intro reads_more [OF q tl _ step LSeq.prems(4)]) auto
  then show ?case by simp
next
  case (POne e)
  obtain m where n: "n = Suc m" using POne.prems(4) by (cases n) auto
  have step: "parsepipe n b i = pbind (parseexec m b i) (\<lambda>c i. case peek b i ''|'' of (i, p) \<Rightarrow>
      if p then pbind (parsepipe m b (skip_token b i)) (\<lambda>d i. POk (PIPE c d) i) else POk c i)"
    using n by simp
  have nf: "parseexec m b i \<noteq> PFuel" using POne.prems(4) step pbind_noFuel by metis
  have "reads b r (exec_cmd e) (parseexec m b i)"
    using POne.IH [OF _ _ _ nf] POne.prems(1-3) by (auto simp: follow_def)
  then have "reads b r (exec_cmd e) (parsepipe n b i)"
    by (rule reads_last [OF _ POne.prems(3) _ _ step]) (auto simp: symbols_def)
  then show ?case by simp
next
  case (PSeq e p)
  obtain m where n: "n = Suc m" using PSeq.prems(4) by (cases n) auto
  have tp: "tight (show_pipe p @ r)"
    using PSeq.prems(2,3) by (intro tight_pipe follow_tight [of "'')&;''"]) (auto simp: symbols_def)
  let ?r = "[CHR ''|''] @ '' '' @ show_pipe p @ r"
  have step: "parsepipe n b i = pbind (parseexec m b i) (\<lambda>c i. case peek b i [CHR ''|''] of (i, p) \<Rightarrow>
      if p then pbind (parsepipe m b (skip_token b i)) (\<lambda>d i. POk (PIPE c d) i) else POk c i)"
    using n by simp
  have nf: "parseexec m b i \<noteq> PFuel" using PSeq.prems(4) step pbind_noFuel by metis
  have q: "reads b ?r (exec_cmd e) (parseexec m b i)"
    using PSeq.IH(1) [OF _ _ _ nf] PSeq.prems(1,2) by (simp add: follow_def)
  have "reads b r (pipe_cmd p) (parsepipe m b j)" if "drop j b = show_pipe p @ r" "parsepipe m b j \<noteq> PFuel" for j
    using PSeq.IH(2) [OF that(1) _ PSeq.prems(3) that(2)] PSeq.prems(2) by simp
  then have "reads b r (PIPE (exec_cmd e) (pipe_cmd p)) (parsepipe n b i)"
    by (intro reads_more [OF q tp _ step PSeq.prems(4)]) auto
  then show ?case by simp
next
  case (Block l rs)
  obtain m where n: "n = Suc m" using Block.prems(4) by (cases n) auto
  have tr: "tight r" using Block.prems(3) by (rule follow_tight) (auto simp: symbols_def)
  have g: "good_line l" "good_redirs rs" using Block.prems(2) by simp_all
  let ?r2 = "show_redirs rs @ r"
  have t2: "tight ?r2" by (rule tight_redirs [OF g(2) tr])
  let ?r1 = "[CHR '')''] @ '' '' @ ?r2"
  have t1: "tight (show_line l @ ?r1)" by (rule tight_line [OF g(1)]) (simp add: tight_def whitespace_def)
  have d: "drop i b = [CHR ''(''] @ '' '' @ show_line l @ ?r1" using Block.prems(1) by simp
  note P = peek_symbol [OF d t1, of "''(''"]
  obtain m' where m: "m = Suc m'" using Block.prems(4) n P by (cases m) auto
  have step: "parseexec n b i = pbind (parseline m' b (i + 2)) (\<lambda>c i. case peek b i '')'' of (i, p) \<Rightarrow>
      if \<not> p then PPanic ''syntax - missing )'' else parseredirs m' c b (skip_token b i))"
    using n m P by simp
  have nf: "parseline m' b (i + 2) \<noteq> PFuel" using Block.prems(4) step pbind_noFuel by metis
  have "reads b ?r1 (line_cmd l) (parseline m' b (i + 2))"
    by (rule Block.IH [OF _ g(1) _ nf]) (use P(3) in \<open>auto simp: follow_def\<close>)
  then obtain c j where c: "parseline m' b (i + 2) = POk c j" "drop j b = ?r1" "map_cmd (slice b) c = line_cmd l"
    by (auto simp: reads_def)
  note Q = peek_symbol [OF c(2) t2, of "'')''"]
  have step2: "parseexec n b i = pbind (parseredirs_loop m' b (j + 2)) (\<lambda>rs i. POk (redircmds c rs) i)"
    using step c(1) Q by (simp add: parseredirs_def)
  have nf2: "parseredirs_loop m' b (j + 2) \<noteq> PFuel" using Block.prems(4) step2 pbind_noFuel by metis
  have "r = [] \<or> hd r \<notin> set ''<>''" using Block.prems(3) by (auto simp: follow_def)
  then show ?case using redirs_read [OF tr _ _ g(2) nf2] Q(3) step2 c(3) by (auto simp: reads_def map_redircmds)
next
  case (Simple rs ws)
  then show ?case using simple_read [OF nul] by blast
qed

lemma redirs_nul: "good_redirs rs \<Longrightarrow> NUL \<notin> set (show_redirs rs)"
  by (induction rs) (auto simp: good_redirs_def show_redirs_def show_op_def good_word_def)

lemma words_nul: "\<forall>(w, rs) \<in> set ws. good_word w \<and> good_redirs rs \<Longrightarrow> NUL \<notin> set (show_words ws)"
  using redirs_nul by (induction ws) (auto simp: show_words_def good_word_def)

lemma shown_nul:
  shows "good_line l \<Longrightarrow> NUL \<notin> set (show_line l)"
    and "good_pipe p \<Longrightarrow> NUL \<notin> set (show_pipe p)"
    and "good_exec e \<Longrightarrow> NUL \<notin> set (show_exec e)"
  using redirs_nul words_nul by (induction l and p and e) auto

lemma parse_line_cmd:
  assumes "good_line l"
  shows "\<exists>c b'. parsecmd (show_line l) = POk (c, b') (length (show_line l)) \<and>
    map_cmd (\<lambda>(q, e). c_str b' q) c = line_cmd l"
proof -
  let ?b = "show_line l" and ?n = "parse_fuel (show_line l)"
  have nul: "NUL \<notin> set ?b" by (rule shown_nul(1) [OF assms])
  have s: "settled ?b 0 (words_ok ?b) (parseline ?n ?b 0)"
    using parse_settled [OF nul at_token_0, of ?n] by (simp add: parse_fuel_def)
  then have "parseline ?n ?b 0 \<noteq> PFuel" by (auto simp: settled_def)
  then have "reads ?b [] (line_cmd l) (parseline ?n ?b 0)"
    using line_read [OF nul, of 0 l "[]" ?n] assms by (simp add: follow_def)
  then obtain c j where c: "parseline ?n ?b 0 = POk c j" "j \<le> length ?b" "words_ok ?b c" "drop j ?b = []"
      "map_cmd (slice ?b) c = line_cmd l"
    using s by (auto simp: reads_def settled_def dest: at_token_le)
  have "map_cmd (\<lambda>(q, e). c_str (nulterminate c ?b) q) c = map_cmd (slice ?b) c"
    by (rule cmd.map_cong0) (use token_c_str [OF c(3) nul] in auto)
  moreover have "peek ?b j [] = (j, False)" using peek_tight [OF c(4), of "[]"] by (simp add: tight_def)
  ultimately show ?thesis using c by (simp add: parsecmd_def)
qed

text \<open>
  C14: what is written is what is read. A line written from the grammar, with words of characters that are
  no space, symbol or NUL and fewer than \<open>MAXARGS\<close> of them in a command, parses to exactly its command, and
  the words of it are the C strings its pointers point to once \<open>nulterminate\<close> has run.
\<close>
theorem shell_parse_roundtrip:
  assumes "good_line l"
  shows "\<exists>c b'. parsecmd (show_line l) = POk (c, b') (length (show_line l)) \<and>
    map_cmd (\<lambda>(q, e). c_str b' q) c = line_cmd l"
  by (rule parse_line_cmd [OF assms])

text \<open>\<open>( cat < in | wc ) >> log & ; ls -l\<close>.\<close>

definition sample_line :: sline where
  "sample_line =
     LSeq (POne (Block (LEnd (PSeq (Simple [] [(''cat'', [(CHR ''<'', ''in'')])]) (POne (Simple [] [(''wc'', [])]))) 0)
            [(CHR ''+'', ''log'')])) 1
       (LEnd (POne (Simple [] [(''ls'', []), (''-l'', [])])) 0)"

lemma sample_line_good: "good_line sample_line"
  by (simp add: sample_line_def good_redirs_def good_word_def word_char_def whitespace_def symbols_def)

theorem shell_parse_roundtrip_witness:
  "show_line sample_line = ''( cat < in | wc ) >> log & ; ls -l '' \<and>
   (\<exists>c b'. parsecmd (show_line sample_line) = POk (c, b') (length (show_line sample_line)) \<and>
      map_cmd (\<lambda>(q, e). c_str b' q) c =
        LIST (BACK (REDIR (PIPE (REDIR (EXEC [''cat'']) ''in'' 0 0) (EXEC [''wc''])) ''log'' 0x201 1))
          (EXEC [''ls'', ''-l'']))"
proof -
  have "show_line sample_line = ''( cat < in | wc ) >> log & ; ls -l ''"
    by (simp add: sample_line_def show_words_def show_redirs_def show_op_def)
  moreover have "line_cmd sample_line =
      LIST (BACK (REDIR (PIPE (REDIR (EXEC [''cat'']) ''in'' 0 0) (EXEC [''wc''])) ''log'' 0x201 1)) (EXEC [''ls'', ''-l''])"
    by (simp add: sample_line_def redircmds_def redir_mode_def)
  ultimately show ?thesis using shell_parse_roundtrip [OF sample_line_good] by simp
qed

end
