(* ===== verification/Shell_Run.thy ===== *)
theory Shell_Run
  imports Shell_Syntax "HOL-Library.Sublist"
begin

section \<open>sh.c: running commands\<close>

text \<open>
  What \<open>runcmd\<close> does is a tree of the processes it makes: programs that are started, forks with the child and
  the rest of the parent, waits, messages and the end of the process. The command is the one the parser gives,
  with the strings its pointers point to. A process has its table of 16 descriptors, from which \<open>open\<close>, \<open>dup\<close>
  and \<open>pipe\<close> take the lowest free one (\<open>fdalloc\<close> in \<open>kernel/sysfile.c\<close>). Whether a file can be opened, and
  whether there is a pipe or a process left, is an argument \<open>env\<close>; \<open>can_start\<close> is for the \<open>fork\<close> of \<open>main\<close>. A pipe is
  named by the place in the command of the \<open>PIPE\<close> that makes it.
\<close>

datatype fdesc = OpenFile string "32 word" | ReadEnd "nat list" | WriteEnd "nat list"

type_synonym fdtable = "fdesc option list"

datatype prun = Start "string list" fdtable prun | Fork prun prun | Wait fdtable prun | Print string prun | Exit int

record env =
  can_open :: "string \<Rightarrow> 32 word \<Rightarrow> bool"
  can_pipe :: "nat list \<Rightarrow> bool"
  can_fork :: "nat list \<Rightarrow> nat \<Rightarrow> bool"
  can_start :: bool
  can_chdir :: "string \<Rightarrow> bool"

subsection \<open>Descriptors\<close>

definition fd_install :: "fdesc \<Rightarrow> fdtable \<Rightarrow> (nat \<times> fdtable) option" where
  "fd_install x fds = (case find (\<lambda>i. fds ! i = None) [0..<length fds] of
     None \<Rightarrow> None | Some i \<Rightarrow> Some (i, fds[i := Some x]))"

definition fd_close :: "nat \<Rightarrow> fdtable \<Rightarrow> fdtable" where
  "fd_close fd fds = fds[fd := None]"

definition fd_open :: "env \<Rightarrow> string \<Rightarrow> 32 word \<Rightarrow> fdtable \<Rightarrow> (nat \<times> fdtable) option" where
  "fd_open env f mode fds = (if can_open env f mode then fd_install (OpenFile f mode) fds else None)"

definition fd_dup :: "nat \<Rightarrow> fdtable \<Rightarrow> fdtable" where
  "fd_dup fd fds = (case fds ! fd of None \<Rightarrow> fds | Some x \<Rightarrow> (case fd_install x fds of None \<Rightarrow> fds | Some (_, fds) \<Rightarrow> fds))"

definition fd_pipe :: "env \<Rightarrow> nat list \<Rightarrow> fdtable \<Rightarrow> (nat \<times> nat \<times> fdtable) option" where
  "fd_pipe env pos fds =
     (if \<not> can_pipe env pos then None
      else case fd_install (ReadEnd pos) fds of None \<Rightarrow> None
         | Some (p0, fds) \<Rightarrow> (case fd_install (WriteEnd pos) fds of None \<Rightarrow> None | Some (p1, fds) \<Rightarrow> Some (p0, p1, fds)))"

subsection \<open>Running a command\<close>

definition panic :: "string \<Rightarrow> prun" where
  "panic s = Print (s @ [CHR 0x0A]) (Exit 1)"

text \<open>\<open>if(fork1() == 0) child\<close>, then the rest of the parent.\<close>

definition fork1 :: "env \<Rightarrow> nat list \<Rightarrow> nat \<Rightarrow> prun \<Rightarrow> prun \<Rightarrow> prun" where
  "fork1 env pos k child parent = (if can_fork env pos k then Fork child parent else panic ''fork'')"

primrec runcmd :: "env \<Rightarrow> string cmd \<Rightarrow> nat list \<Rightarrow> fdtable \<Rightarrow> prun" where
  "runcmd env (EXEC as) pos fds =
     (case as of [] \<Rightarrow> Exit 1
      | a # _ \<Rightarrow> Start as fds (Print (''exec '' @ a @ '' failed'' @ [CHR 0x0A]) (Exit 0)))"
| "runcmd env (REDIR c f mode fd) pos fds =
     (case fd_open env f mode (fd_close fd fds) of
        None \<Rightarrow> Print (''open '' @ f @ '' failed'' @ [CHR 0x0A]) (Exit 1)
      | Some (_, fds) \<Rightarrow> runcmd env c (0 # pos) fds)"
| "runcmd env (LIST l r) pos fds =
     fork1 env pos 0 (runcmd env l (0 # pos) fds) (Wait fds (runcmd env r (1 # pos) fds))"
| "runcmd env (PIPE l r) pos fds =
     (case fd_pipe env pos fds of
        None \<Rightarrow> panic ''pipe''
      | Some (p0, p1, fds) \<Rightarrow>
          fork1 env pos 0
            (runcmd env l (0 # pos) (fd_close p1 (fd_close p0 (fd_dup p1 (fd_close 1 fds)))))
            (fork1 env pos 1
              (runcmd env r (1 # pos) (fd_close p1 (fd_close p0 (fd_dup p0 (fd_close 0 fds)))))
              (let fds = fd_close p1 (fd_close p0 fds) in Wait fds (Wait fds (Exit 0)))))"
| "runcmd env (BACK c) pos fds = fork1 env pos 0 (runcmd env c (0 # pos) fds) (Exit 0)"

subsection \<open>The main loop\<close>

text \<open>
  The opening loop of \<open>main\<close>: the console is opened until the descriptors 0, 1 and 2 are. The fuel is the
  size of the table plus one: each round uses a free descriptor.
\<close>

abbreviation console :: fdesc where
  "console \<equiv> OpenFile ''console'' 2"

primrec open_console :: "nat \<Rightarrow> env \<Rightarrow> fdtable \<Rightarrow> fdtable" where
  "open_console 0 env fds = fds"
| "open_console (Suc n) env fds = (case fd_open env ''console'' 2 fds of
     None \<Rightarrow> fds
   | Some (fd, fds) \<Rightarrow> if 3 \<le> fd then fd_close fd fds else open_console n env fds)"

text \<open>A line as \<open>getcmd\<close> leaves it in \<open>buf\<close>: the shell changes its directory itself, and forks for a command.\<close>

datatype shline = ShEof | ShBlank | ShCd string | ShRun string

definition sh_line :: "string \<Rightarrow> shline" where
  "sh_line buf =
     (if buf = [] then ShEof
      else let cmd = dropWhile (\<lambda>c. c = CHR '' '' \<or> c = CHR 0x09) buf in
        if take 1 cmd = [CHR 0x0A] then ShBlank
        else if take 3 cmd = ''cd '' then ShCd (drop 3 (butlast cmd))
        else ShRun cmd)"

text \<open>
  \<open>main\<close> on the lines that are typed, each with the resources there are then: the directories it changes to,
  its messages, and the trees of the commands it forks for and waits for. A child whose parse panics prints
  the message and exits; a \<open>fork\<close> that fails ends the shell.
\<close>

datatype shevent = Chdir string | Message string | Child prun

definition sh_child :: "env \<Rightarrow> string \<Rightarrow> fdtable \<Rightarrow> prun" where
  "sh_child env cmd fds = (case parsecmd cmd of
     POk (c, b) _ \<Rightarrow> runcmd env (map_cmd (\<lambda>(q, e). c_str b q) c) [] fds
   | PPanic m \<Rightarrow> panic m
   | PFuel \<Rightarrow> panic [])"

primrec sh_loop :: "(env \<times> string) list \<Rightarrow> fdtable \<Rightarrow> shevent list" where
  "sh_loop [] fds = []"
| "sh_loop (l # ls) fds = (case l of (env, buf) \<Rightarrow> (case sh_line buf of
     ShEof \<Rightarrow> []
   | ShBlank \<Rightarrow> sh_loop ls fds
   | ShCd d \<Rightarrow> (if can_chdir env d then Chdir d else Message (''cannot cd '' @ d @ [CHR 0x0A])) # sh_loop ls fds
   | ShRun cmd \<Rightarrow>
       if can_start env then Child (sh_child env cmd fds) # sh_loop ls fds
       else [Message (''fork'' @ [CHR 0x0A])]))"

definition sh_main :: "env \<Rightarrow> (env \<times> string) list \<Rightarrow> fdtable \<Rightarrow> shevent list" where
  "sh_main env ls fds = sh_loop ls (open_console (Suc (length fds)) env fds)"

subsection \<open>What is meant\<close>

text \<open>The programs a tree starts, each with its table, and the tables of the processes that wait.\<close>

primrec programs :: "prun \<Rightarrow> (string list \<times> fdtable) list" where
  "programs (Start as fds t) = (as, fds) # programs t"
| "programs (Fork c p) = programs c @ programs p"
| "programs (Wait fds t) = programs t"
| "programs (Print s t) = programs t"
| "programs (Exit n) = []"

primrec waits :: "prun \<Rightarrow> fdtable set" where
  "waits (Start as fds t) = waits t"
| "waits (Fork c p) = waits c \<union> waits p"
| "waits (Wait fds t) = insert fds (waits t)"
| "waits (Print s t) = waits t"
| "waits (Exit n) = {}"

text \<open>
  The programs of a command with what they have as standard input, output and error: a redirection replaces
  one of them, and the two sides of a pipe have its ends.
\<close>

primrec wiring :: "string cmd \<Rightarrow> nat list \<Rightarrow> fdesc list \<Rightarrow> (string list \<times> fdesc list) list" where
  "wiring (EXEC as) pos s = (if as = [] then [] else [(as, s)])"
| "wiring (REDIR c f mode fd) pos s = wiring c (0 # pos) (s[fd := OpenFile f mode])"
| "wiring (LIST l r) pos s = wiring l (0 # pos) s @ wiring r (1 # pos) s"
| "wiring (PIPE l r) pos s = wiring l (0 # pos) (s[1 := WriteEnd pos]) @ wiring r (1 # pos) (s[0 := ReadEnd pos])"
| "wiring (BACK c) pos s = wiring c (0 # pos) s"

text \<open>The table with just the three.\<close>

definition std :: "fdesc list \<Rightarrow> fdtable" where
  "std s = map Some s @ replicate 13 None"

text \<open>The redirections of a command are of descriptors 0 to 2.\<close>

primrec std_redirs :: "'t cmd \<Rightarrow> bool" where
  "std_redirs (EXEC as) \<longleftrightarrow> True"
| "std_redirs (REDIR c f mode fd) \<longleftrightarrow> fd < 3 \<and> std_redirs c"
| "std_redirs (LIST l r) \<longleftrightarrow> std_redirs l \<and> std_redirs r"
| "std_redirs (PIPE l r) \<longleftrightarrow> std_redirs l \<and> std_redirs r"
| "std_redirs (BACK c) \<longleftrightarrow> std_redirs c"

subsection \<open>The tables\<close>

lemma three: "length s = 3 \<Longrightarrow> \<exists>a b c. s = [a, b, c]"
  by (auto simp: numeral_3_eq_3 length_Suc_conv)

lemma three_upd [simp]: "length s = 3 \<Longrightarrow> length (s[i := x]) = 3"
  by simp

lemma upt_16: "[0..<16] = [0, 1, 2, 3, 4, 5, 6, 7, 8, 9, 10, 11, 12, 13, 14, 15 :: nat]"
  by code_simp

lemma std_3: "std [a, b, c] = [Some a, Some b, Some c, None, None, None, None, None, None, None, None, None, None, None, None, None]"
  by (simp add: std_def eval_nat_numeral)

text \<open>What a closed standard descriptor is opened as, and the tables of the three processes of a pipe.\<close>

lemma std_reopen:
  assumes "length s = 3" and "fd < 3"
  shows "fd_install x (fd_close fd (std s)) = Some (fd, std (s[fd := x]))"
proof -
  obtain a b c where s: "s = [a, b, c]" using three [OF assms(1)] by blast
  from assms(2) consider "fd = 0" | "fd = 1" | "fd = 2" by linarith
  then show ?thesis by cases (simp_all add: s std_3 fd_install_def fd_close_def upt_16)
qed

definition piped :: "nat list \<Rightarrow> fdesc list \<Rightarrow> fdtable" where
  "piped pos s = (std s)[3 := Some (ReadEnd pos), 4 := Some (WriteEnd pos)]"

lemma std_pipe:
  assumes "length s = 3"
  shows "fd_pipe env pos (std s) = (if can_pipe env pos then Some (3, 4, piped pos s) else None)"
    "fd_close 4 (fd_close 3 (piped pos s)) = std s"
    "fd_close 4 (fd_close 3 (fd_dup 4 (fd_close 1 (piped pos s)))) = std (s[1 := WriteEnd pos])"
    "fd_close 4 (fd_close 3 (fd_dup 3 (fd_close 0 (piped pos s)))) = std (s[0 := ReadEnd pos])"
proof -
  obtain a b c where s: "s = [a, b, c]" using three [OF assms(1)] by blast
  note table = s std_3 piped_def fd_install_def fd_close_def fd_dup_def fd_pipe_def upt_16
  show "fd_pipe env pos (std s) = (if can_pipe env pos then Some (3, 4, piped pos s) else None)"
    by (simp add: table)
  show "fd_close 4 (fd_close 3 (piped pos s)) = std s" by (simp add: table)
  show "fd_close 4 (fd_close 3 (fd_dup 4 (fd_close 1 (piped pos s)))) = std (s[1 := WriteEnd pos])" by (simp add: table)
  show "fd_close 4 (fd_close 3 (fd_dup 3 (fd_close 0 (piped pos s)))) = std (s[0 := ReadEnd pos])" by (simp add: table)
qed

lemmas pipe_tables = std_pipe [unfolded One_nat_def]

lemma programs_panic [simp]: "programs (panic m) = []" "waits (panic m) = {}"
  by (simp_all add: panic_def)

lemma programs_fork1:
  "programs (fork1 env pos k c p) = (if can_fork env pos k then programs c @ programs p else [])"
  "waits (fork1 env pos k c p) = (if can_fork env pos k then waits c \<union> waits p else {})"
  by (simp_all add: fork1_def)

text \<open>Everything can be had: files, pipes and processes.\<close>

definition plenty :: "env \<Rightarrow> bool" where
  "plenty env \<longleftrightarrow> (\<forall>f m. can_open env f m) \<and> (\<forall>p. can_pipe env p) \<and> (\<forall>p k. can_fork env p k)"

abbreviation wired :: "string cmd \<Rightarrow> nat list \<Rightarrow> fdesc list \<Rightarrow> (string list \<times> fdtable) list" where
  "wired c pos s \<equiv> map (map_prod (\<lambda>as. as) std) (wiring c pos s)"

lemma runcmd_wired:
  "std_redirs c \<Longrightarrow> length s = 3 \<Longrightarrow> subseq (programs (runcmd env c pos (std s))) (wired c pos s)"
proof (induction c arbitrary: pos s)
  case (REDIR c f mode fd)
  then show ?case by (simp add: fd_open_def std_reopen)
next
  case (PIPE l r)
  then show ?case by (auto simp: pipe_tables programs_fork1 Let_def intro: list_emb_append_mono subseq_rev_drop_many)
next
  case (LIST l r)
  then show ?case by (auto simp: programs_fork1 intro: list_emb_append_mono)
next
  case (BACK c)
  then show ?case by (simp add: programs_fork1)
qed (simp split: list.split)

lemma runcmd_wired_plenty:
  "std_redirs c \<Longrightarrow> length s = 3 \<Longrightarrow> plenty env \<Longrightarrow> programs (runcmd env c pos (std s)) = wired c pos s"
proof (induction c arbitrary: pos s)
  case (REDIR c f mode fd)
  then show ?case by (simp add: fd_open_def std_reopen plenty_def)
next
  case (PIPE l r)
  then show ?case by (simp add: pipe_tables programs_fork1 Let_def plenty_def)
next
  case (LIST l r)
  then show ?case by (simp add: programs_fork1 plenty_def)
next
  case (BACK c)
  then show ?case by (simp add: programs_fork1 plenty_def)
qed (simp split: list.split)

lemma runcmd_waits:
  "std_redirs c \<Longrightarrow> length s = 3 \<Longrightarrow> waits (runcmd env c pos (std s)) \<subseteq> std ` {s. length s = 3}"
proof (induction c arbitrary: pos s)
  case (REDIR c f mode fd)
  then show ?case by (simp add: fd_open_def std_reopen)
next
  case (PIPE l r)
  have "waits (runcmd env l (0 # pos) (std (s[1 := WriteEnd pos]))) \<subseteq> std ` {s. length s = 3}"
    "waits (runcmd env r (1 # pos) (std (s[0 := ReadEnd pos]))) \<subseteq> std ` {s. length s = 3}"
    using PIPE by simp_all
  then show ?case using PIPE.prems(2) by (auto simp: pipe_tables programs_fork1 Let_def)
next
  case (LIST l r)
  then show ?case by (simp add: programs_fork1)
next
  case (BACK c)
  then show ?case by (simp add: programs_fork1)
qed (simp split: list.split)

lemma std_redirs_redircmds: "std_redirs (redircmds c rs) \<longleftrightarrow> std_redirs c"
proof (induction rs arbitrary: c)
  case (Cons r rs)
  obtain tok t where r: "r = (tok, t)" by (cases r)
  have "redircmds c (r # rs) = redircmds (REDIR c t (fst (redir_mode tok)) (snd (redir_mode tok))) rs"
    by (simp add: redircmds_def r case_prod_unfold)
  moreover have "snd (redir_mode tok) < 3" by (simp add: redir_mode_def)
  ultimately show ?case using Cons.IH by simp
qed (simp add: redircmds_def)

lemma std_redirs_backs: "std_redirs ((BACK ^^ k) c) \<longleftrightarrow> std_redirs c"
  by (induction k) simp_all

lemma std_redirs_line:
  shows "std_redirs (line_cmd l)" and "std_redirs (pipe_cmd p)" and "std_redirs (exec_cmd e)"
  by (induction l and p and e) (simp_all add: std_redirs_redircmds std_redirs_backs)

subsection \<open>A line that is typed\<close>

text \<open>
  C15: the shell connects the programs of a line. For a line of the grammar, the programs the shell's child
  starts are among those of the line, in their order, and each has the three descriptors the line gives it
  and no other, so that no program and no process that waits keeps an end of a pipe it is not given. If files, pipes and
  processes can be had, all of them are started.
\<close>
theorem shell_connects_programs:
  assumes "good_line l" and "length s = 3"
  shows "subseq (programs (sh_child env (show_line l) (std s))) (wired (line_cmd l) [] s) \<and>
    waits (sh_child env (show_line l) (std s)) \<subseteq> std ` {s. length s = 3} \<and>
    (plenty env \<longrightarrow> programs (sh_child env (show_line l) (std s)) = wired (line_cmd l) [] s)"
proof -
  obtain c b where "parsecmd (show_line l) = POk (c, b) (length (show_line l))"
      "map_cmd (\<lambda>(q, e). c_str b q) c = line_cmd l"
    using parse_line_cmd [OF assms(1)] by blast
  then have "sh_child env (show_line l) (std s) = runcmd env (line_cmd l) [] (std s)" by (simp add: sh_child_def)
  then show ?thesis
    using runcmd_wired [OF std_redirs_line(1) assms(2)] runcmd_waits [OF std_redirs_line(1) assms(2)]
      runcmd_wired_plenty [OF std_redirs_line(1) assms(2)] by simp
qed

text \<open>\<open>( cat < in | wc ) >> log & ; ls -l\<close> with the console as the three descriptors.\<close>

theorem shell_connects_programs_witness:
  "\<exists>env. plenty env \<and> programs (sh_child env (show_line sample_line) (std [console, console, console])) =
    [([''cat''], std [OpenFile ''in'' 0, WriteEnd [0, 0, 0], console]),
     ([''wc''], std [ReadEnd [0, 0, 0], OpenFile ''log'' 0x201, console]),
     ([''ls'', ''-l''], std [console, console, console])]"
proof -
  let ?env = "\<lparr>can_open = \<lambda>f m. True, can_pipe = \<lambda>p. True, can_fork = \<lambda>p k. True, can_start = True, can_chdir = \<lambda>d. True\<rparr>"
  have p: "plenty ?env" by (simp add: plenty_def)
  have "length [console, console, console] = 3" by simp
  from shell_connects_programs [OF sample_line_good this, of ?env] p
  have "programs (sh_child ?env (show_line sample_line) (std [console, console, console])) =
      wired (line_cmd sample_line) [] [console, console, console]" by simp
  then show ?thesis using p by (intro exI [of _ ?env]) (simp add: sample_line_def redircmds_def redir_mode_def)
qed

subsection \<open>The main loop\<close>

text \<open>The shell opens the console for its three descriptors.\<close>

lemma open_console_std:
  assumes "can_open env ''console'' 2"
  shows "open_console 17 env (replicate 16 None) = std [console, console, console]"
  using assms by (simp add: eval_nat_numeral std_def fd_open_def fd_install_def fd_close_def upt_rec)

text \<open>
  \<open>cd\<close> takes the last character of the line away, which is the newline if there is one: at the end of the input,
  or in a line that fills the buffer, it is a character of the name.
\<close>

lemma cd_takes_last_character: "sh_line ''cd /ab'' = ShCd ''/a''" "sh_line (''cd /ab'' @ [CHR 0x0A]) = ShCd ''/ab''"
  by (simp_all add: sh_line_def Let_def)

end
