(* ===== verification/Handshake.thy ===== *)
theory Handshake
  imports Main "HOL-Library.Word"
begin

section \<open>handshake.c: a byte there and back\<close>

text \<open>
  The lab program makes two pipes and forks: the parent sends a byte to the child, which prints it and sends
  it back. Each process is the list of the calls it still has to make, in the order of \<open>main\<close>; a step is one
  call of one of them, in any order. A pipe holds the bytes written and not yet read, and the pairs of process
  and end that are open. A read of an empty pipe blocks while somebody can write; then it returns 0 and leaves
  the variable as it is. A write is refused when nobody can read. One byte always fits.
\<close>

datatype who = Parent | Child
datatype hpipe = PTC | CTP
datatype pend = Rd hpipe | Wr hpipe
datatype call = CloseEnd pend | ReadByte hpipe | WriteByte hpipe | Say

record hs =
  code :: "who \<Rightarrow> call list"
  opened :: "(who \<times> pend) set"
  bytes :: "hpipe \<Rightarrow> 8 word list"
  var :: "who \<Rightarrow> 8 word"
  said :: "(who \<times> 8 word) list"

text \<open>
  The two branches after the \<open>fork\<close>. The parent keeps the byte it sends in \<open>byte\<close> and reads into another
  variable: \<open>b\<close> is the first, the variable of the state the second.
\<close>

definition child_code :: "call list" where
  "child_code = [CloseEnd (Wr PTC), CloseEnd (Rd CTP), ReadByte PTC, Say, WriteByte CTP, CloseEnd (Rd PTC), CloseEnd (Wr CTP)]"

definition parent_code :: "call list" where
  "parent_code = [CloseEnd (Rd PTC), CloseEnd (Wr CTP), WriteByte PTC, ReadByte CTP, Say, CloseEnd (Wr PTC), CloseEnd (Rd CTP)]"

text \<open>\<open>write\<close> of the byte \<open>b\<close>, \<open>read\<close> into the variable; \<open>None\<close> is a call that waits.\<close>

definition write_byte :: "hpipe \<Rightarrow> 8 word \<Rightarrow> hs \<Rightarrow> hs" where
  "write_byte p b s = (if \<exists>w. (w, Rd p) \<in> opened s then s\<lparr>bytes := (bytes s)(p := bytes s p @ [b])\<rparr> else s)"

definition read_byte :: "who \<Rightarrow> hpipe \<Rightarrow> hs \<Rightarrow> hs option" where
  "read_byte w p s = (case bytes s p of
     x # xs \<Rightarrow> Some (s\<lparr>bytes := (bytes s)(p := xs), var := (var s)(w := x)\<rparr>)
   | [] \<Rightarrow> if \<exists>v. (v, Wr p) \<in> opened s then None else Some s)"

text \<open>What the process \<open>w\<close> does next; \<open>b\<close> is the parent's byte.\<close>

fun do_call :: "8 word \<Rightarrow> who \<Rightarrow> call \<Rightarrow> hs \<Rightarrow> hs option" where
  "do_call b w (CloseEnd e) s = Some (s\<lparr>opened := opened s - {(w, e)}\<rparr>)"
| "do_call b w (ReadByte p) s = read_byte w p s"
| "do_call b w (WriteByte p) s = Some (write_byte p (if w = Parent then b else var s w) s)"
| "do_call b w Say s = Some (s\<lparr>said := said s @ [(w, var s w)]\<rparr>)"

inductive hs_step :: "8 word \<Rightarrow> hs \<Rightarrow> hs \<Rightarrow> bool" for b :: "8 word" where
  hs_stepI: "code s w = c # cs \<Longrightarrow> do_call b w c s = Some t \<Longrightarrow> hs_step b s (t\<lparr>code := (code s)(w := cs)\<rparr>)"

inductive_cases hs_stepE: "hs_step b s t"

text \<open>
  The states after \<open>fork\<close>, with both processes or, where it failed, only the parent: the program does not
  test for the result -1. The variables have arbitrary contents \<open>v\<close>.
\<close>

definition all_ends :: "pend set" where
  "all_ends = {Rd PTC, Wr PTC, Rd CTP, Wr CTP}"

definition hs_forked :: "(who \<Rightarrow> 8 word) \<Rightarrow> hs" where
  "hs_forked v = \<lparr>code = (\<lambda>w. case w of Parent \<Rightarrow> parent_code | Child \<Rightarrow> child_code),
     opened = UNIV \<times> all_ends, bytes = (\<lambda>_. []), var = v, said = []\<rparr>"

definition hs_alone :: "(who \<Rightarrow> 8 word) \<Rightarrow> hs" where
  "hs_alone v = \<lparr>code = (\<lambda>w. case w of Parent \<Rightarrow> parent_code | Child \<Rightarrow> []),
     opened = {Parent} \<times> all_ends, bytes = (\<lambda>_. []), var = v, said = []\<rparr>"

text \<open>The byte is the argument's \<open>atoi\<close>, as a \<open>char\<close>.\<close>

definition hs_byte :: "32 word \<Rightarrow> 8 word" where
  "hs_byte n = ucast n"

subsection \<open>Every interleaving\<close>

text \<open>
  The state is determined by the number of calls each process has made: \<open>i\<close> by the parent, \<open>j\<close> by the child.
\<close>

definition closed_by :: "call list \<Rightarrow> nat \<Rightarrow> pend set" where
  "closed_by cs n = {e. CloseEnd e \<in> set (take n cs)}"

definition hs_at :: "8 word \<Rightarrow> (who \<Rightarrow> 8 word) \<Rightarrow> nat \<Rightarrow> nat \<Rightarrow> hs" where
  "hs_at b v i j =
     \<lparr>code = (\<lambda>w. case w of Parent \<Rightarrow> drop i parent_code | Child \<Rightarrow> drop j child_code),
      opened = UNIV \<times> all_ends - {Parent} \<times> closed_by parent_code i - {Child} \<times> closed_by child_code j,
      bytes = (\<lambda>p. case p of PTC \<Rightarrow> if 3 \<le> i \<and> j < 3 then [b] else [] | CTP \<Rightarrow> if 5 \<le> j \<and> i < 4 then [b] else []),
      var = (\<lambda>w. case w of Parent \<Rightarrow> if 4 \<le> i then b else v Parent | Child \<Rightarrow> if 3 \<le> j then b else v Child),
      said = (if 4 \<le> j then [(Child, b)] else []) @ (if 5 \<le> i then [(Parent, b)] else [])\<rparr>"

text \<open>The child reads after the parent has written, and the parent after the child.\<close>

definition in_order :: "nat \<Rightarrow> nat \<Rightarrow> bool" where
  "in_order i j \<longleftrightarrow> i \<le> 7 \<and> j \<le> 7 \<and> (3 \<le> j \<longrightarrow> 3 \<le> i) \<and> (4 \<le> i \<longrightarrow> 5 \<le> j)"

lemma who_all: "(\<forall>w. P w) \<longleftrightarrow> P Parent \<and> P Child" "(\<exists>w. P w) \<longleftrightarrow> P Parent \<or> P Child"
  by (metis who.exhaust)+

lemma who_UNIV: "UNIV = {Parent, Child}"
  using who.exhaust by auto

lemma hs_eqI:
  assumes "\<And>w. code s w = code t w" and "opened s = opened t" and "\<And>p. bytes s p = bytes t p" and "\<And>w. var s w = var t w" and "said s = said t"
  shows "s = (t :: hs)"
  using assms by (intro hs.equality ext) auto

definition adv :: "who \<Rightarrow> nat \<times> nat \<Rightarrow> nat \<times> nat" where
  "adv w = (\<lambda>(i, j). case w of Parent \<Rightarrow> (Suc i, j) | Child \<Rightarrow> (i, Suc j))"

definition hs_of :: "8 word \<Rightarrow> (who \<Rightarrow> 8 word) \<Rightarrow> nat \<times> nat \<Rightarrow> hs" where
  "hs_of b v = (\<lambda>(i, j). hs_at b v i j)"

definition ordered :: "nat \<times> nat \<Rightarrow> bool" where
  "ordered = (\<lambda>(i, j). in_order i j)"

definition moves :: "8 word \<Rightarrow> (who \<Rightarrow> 8 word) \<Rightarrow> nat \<times> nat \<Rightarrow> who \<Rightarrow> bool" where
  "moves b v x w = (case code (hs_of b v x) w of [] \<Rightarrow> \<not> ordered (adv w x)
     | c # cs \<Rightarrow> (case do_call b w c (hs_of b v x) of None \<Rightarrow> \<not> ordered (adv w x)
         | Some t \<Rightarrow> ordered (adv w x) \<and> t\<lparr>code := (code (hs_of b v x))(w := cs)\<rparr> = hs_of b v (adv w x)))"

lemmas hs_eval = hs_at_def closed_by_def parent_code_def child_code_def all_ends_def who_UNIV who_all in_order_def
  read_byte_def write_byte_def moves_def adv_def hs_of_def ordered_def

lemma le_7: "(i :: nat) \<le> 7 \<Longrightarrow> i = 0 \<or> i = 1 \<or> i = 2 \<or> i = 3 \<or> i = 4 \<or> i = 5 \<or> i = 6 \<or> i = 7"
  by linarith

lemma in_order_cases:
  assumes "in_order i j"
  shows "i \<le> 3 \<and> j < 3 \<or> i = 3 \<and> 3 \<le> j \<and> j < 5 \<or> 3 \<le> i \<and> i \<le> 7 \<and> 5 \<le> j \<and> j \<le> 7"
  using assms by (auto simp: in_order_def)

lemma low: "(i :: nat) \<le> 3 \<Longrightarrow> i = 0 \<or> i = 1 \<or> i = 2 \<or> i = 3"
  "(i :: nat) < 3 \<Longrightarrow> i = 0 \<or> i = 1 \<or> i = 2"
  "(i :: nat) \<ge> 3 \<Longrightarrow> i < 5 \<Longrightarrow> i = 3 \<or> i = 4"
  "(i :: nat) \<ge> 3 \<Longrightarrow> i \<le> 7 \<Longrightarrow> i = 3 \<or> i = 4 \<or> i = 5 \<or> i = 6 \<or> i = 7"
  "(i :: nat) \<ge> 5 \<Longrightarrow> i \<le> 7 \<Longrightarrow> i = 5 \<or> i = 6 \<or> i = 7"
  by linarith+

text \<open>From every such state each process makes its next call as the order says, or waits.\<close>

lemma moves_early: "i \<le> 3 \<Longrightarrow> j < 3 \<Longrightarrow> moves b v (i, j) w"
  by (drule low(1), drule low(2), elim disjE; hypsubst; cases w)
    (simp_all add: hs_eval, (auto intro!: hs_eqI split: who.splits hpipe.splits))

lemma moves_middle: "3 \<le> j \<Longrightarrow> j < 5 \<Longrightarrow> moves b v (3, j) w"
  by (drule low(3), assumption, elim disjE; hypsubst; cases w)
    (simp_all add: hs_eval, (auto intro!: hs_eqI split: who.splits hpipe.splits))

lemma moves_late: "3 \<le> i \<Longrightarrow> i \<le> 7 \<Longrightarrow> 5 \<le> j \<Longrightarrow> j \<le> 7 \<Longrightarrow> moves b v (i, j) w"
  by (drule low(4), assumption, drule low(5), assumption, elim disjE; hypsubst; cases w)
    (simp_all add: hs_eval, (auto intro!: hs_eqI split: who.splits hpipe.splits))

lemma moves_ordered:
  assumes "ordered x"
  shows "moves b v x w"
proof -
  obtain i j where x: "x = (i, j)" by (cases x)
  then have "i \<le> 3 \<and> j < 3 \<or> i = 3 \<and> 3 \<le> j \<and> j < 5 \<or> 3 \<le> i \<and> i \<le> 7 \<and> 5 \<le> j \<and> j \<le> 7"
    using in_order_cases assms by (simp add: ordered_def)
  then show ?thesis using x moves_early moves_middle moves_late by blast
qed

lemma hs_step_at:
  assumes "ordered x"
  shows "hs_step b (hs_of b v x) t \<longleftrightarrow> (\<exists>w. ordered (adv w x) \<and> t = hs_of b v (adv w x))"
proof
  assume "hs_step b (hs_of b v x) t"
  then obtain w c cs u where "code (hs_of b v x) w = c # cs" "do_call b w c (hs_of b v x) = Some u"
      "t = u\<lparr>code := (code (hs_of b v x))(w := cs)\<rparr>"
    by (auto elim: hs_stepE)
  then show "\<exists>w. ordered (adv w x) \<and> t = hs_of b v (adv w x)"
    using moves_ordered [OF assms, of b v w] by (auto simp: moves_def intro!: exI [of _ w])
next
  assume "\<exists>w. ordered (adv w x) \<and> t = hs_of b v (adv w x)"
  then obtain w where w: "ordered (adv w x)" "t = hs_of b v (adv w x)" by blast
  then obtain c cs u where "code (hs_of b v x) w = c # cs" "do_call b w c (hs_of b v x) = Some u"
      "u\<lparr>code := (code (hs_of b v x))(w := cs)\<rparr> = hs_of b v (adv w x)"
    using moves_ordered [OF assms, of b v w] by (auto simp: moves_def split: list.splits option.splits)
  then show "hs_step b (hs_of b v x) t" using hs_stepI w(2) by metis
qed

lemma hs_forked_at: "hs_forked v = hs_of b v (0, 0)"
  by (rule hs_eqI)
    (simp_all add: hs_forked_def hs_of_def hs_at_def closed_by_def split: who.splits hpipe.splits)

lemma ordered_end:
  assumes "ordered x" and "\<forall>w. \<not> ordered (adv w x)"
  shows "x = (7, 7)"
proof -
  obtain i j where x: "x = (i, j)" by (cases x)
  have "i = 7 \<and> j = 7"
    using assms unfolding x by (auto simp: ordered_def adv_def in_order_def who_all)
  then show ?thesis using x by simp
qed

text \<open>\<open>n\<close> calls, of either process.\<close>

inductive hs_run :: "8 word \<Rightarrow> nat \<Rightarrow> hs \<Rightarrow> hs \<Rightarrow> bool" for b :: "8 word" where
  hs_run_0: "hs_run b 0 s s"
| hs_run_Suc: "hs_run b n s t \<Longrightarrow> hs_step b t u \<Longrightarrow> hs_run b (Suc n) s u"

lemma hs_run_at: "hs_run b n (hs_forked v) s \<Longrightarrow> \<exists>x. ordered x \<and> s = hs_of b v x \<and> n = fst x + snd x"
proof (induction n "hs_forked v" s rule: hs_run.induct)
  case hs_run_0
  have "ordered (0, 0)" by (simp add: ordered_def in_order_def)
  then show ?case using hs_forked_at [of v b] by (intro exI [of _ "(0, 0)"]) simp
next
  case (hs_run_Suc n t u)
  then obtain x where x: "ordered x" "t = hs_of b v x" "n = fst x + snd x" by blast
  then obtain w where "ordered (adv w x)" "u = hs_of b v (adv w x)" using hs_run_Suc.hyps(3) hs_step_at by blast
  moreover have "fst (adv w x) + snd (adv w x) = Suc n" using x(3) by (cases x; cases w) (simp_all add: adv_def)
  ultimately show ?case by metis
qed

text \<open>
  C23: the byte goes to the child and back, whatever the order in which the two processes run. As long as
  fewer than 14 calls have been made, one of the two can go on, so that they never wait for each other; after the 14 both
  are done, the child has printed the byte of the argument and then the parent has, and nothing is left in
  the pipes or open.
\<close>
theorem handshake_delivers:
  assumes "hs_run b n (hs_forked v) s"
  shows "n \<le> 14 \<and> (n < 14 \<longrightarrow> (\<exists>t. hs_step b s t)) \<and>
    (n = 14 \<longrightarrow> code s = (\<lambda>w. []) \<and> said s = [(Child, b), (Parent, b)] \<and> bytes s = (\<lambda>p. []) \<and> opened s = {})"
proof -
  obtain x where x: "ordered x" "s = hs_of b v x" "n = fst x + snd x" using hs_run_at [OF assms] by blast
  have "fst x \<le> 7" "snd x \<le> 7" using x(1) by (auto simp: ordered_def in_order_def split: prod.splits)
  moreover have "\<exists>t. hs_step b s t" if "n < 14"
  proof -
    have "x \<noteq> (7, 7)" using that x(3) by auto
    then show ?thesis using ordered_end [OF x(1)] hs_step_at [OF x(1)] x(2) by blast
  qed
  moreover have "code s = (\<lambda>w. []) \<and> said s = [(Child, b), (Parent, b)] \<and> bytes s = (\<lambda>p. []) \<and> opened s = {}" if "n = 14"
  proof -
    have "x = (7, 7)" using that x(3) \<open>fst x \<le> 7\<close> \<open>snd x \<le> 7\<close> by (cases x) simp
    then show ?thesis using x(2) by (auto simp: hs_eval fun_eq_iff split: who.splits hpipe.splits)
  qed
  ultimately show ?thesis using x(3) by auto
qed

text \<open>One of the runs: the argument 300 is sent as the byte 44.\<close>

lemma hs_run_path:
  assumes "ordered x" and "hs_run b (fst x + snd x) (hs_forked v) (hs_of b v x)" and o: "ordered (adv w x)"
  shows "hs_run b (fst (adv w x) + snd (adv w x)) (hs_forked v) (hs_of b v (adv w x))"
proof -
  have "hs_step b (hs_of b v x) (hs_of b v (adv w x))" using hs_step_at [OF assms(1)] o by blast
  moreover have "fst (adv w x) + snd (adv w x) = Suc (fst x + snd x)" by (cases x; cases w) (simp_all add: adv_def)
  ultimately show ?thesis using hs_run_Suc [OF assms(2)] by simp
qed

lemma hs_run_end: "\<exists>s. hs_run b 14 (hs_forked v) s"
proof -
  let ?ok = "\<lambda>x. ordered x \<and> hs_run b (fst x + snd x) (hs_forked v) (hs_of b v x)"
  have start: "?ok (0, 0)" using hs_run_0 hs_forked_at [of v b] by (simp add: ordered_def in_order_def)
  have p: "?ok (Suc i, j)" if "?ok (i, j)" "in_order (Suc i) j" for i j
    using hs_run_path [of "(i, j)" b v Parent] that by (auto simp: adv_def ordered_def)
  have c: "?ok (i, Suc j)" if "?ok (i, j)" "in_order i (Suc j)" for i j
    using hs_run_path [of "(i, j)" b v Child] that by (auto simp: adv_def ordered_def)
  note o = in_order_def
  have "?ok (3, 0)" using p [OF p [OF p [OF start]]] by (simp add: o numeral_3_eq_3)
  then have "?ok (3, 5)" using c [OF c [OF c [OF c [OF c, of 3]]]] by (simp add: o eval_nat_numeral)
  then have "?ok (7, 5)" using p [OF p [OF p [OF p, of 3 5]]] by (simp add: o eval_nat_numeral)
  then have "?ok (7, 7)" using c [OF c, of 7 5] by (simp add: o eval_nat_numeral)
  then show ?thesis by auto
qed

theorem handshake_delivers_witness:
  "\<exists>s. hs_run (hs_byte 300) 14 (hs_forked (\<lambda>w. 0)) s \<and> hs_byte 300 = 44 \<and> said s = [(Child, 44), (Parent, 44)]"
proof -
  have b: "hs_byte 300 = 44" by (simp add: hs_byte_def)
  obtain s where s: "hs_run (hs_byte 300) 14 (hs_forked (\<lambda>w. 0)) s" using hs_run_end by blast
  from handshake_delivers [OF s] show ?thesis using s b by auto
qed

subsection \<open>When fork fails\<close>

text \<open>
  The parent goes on as if there were a child. Its write is refused, its read finds the pipe closed, and it
  prints whatever its variable contains as the byte received from the child.
\<close>

definition parent_next :: "8 word \<Rightarrow> hs \<Rightarrow> hs option" where
  "parent_next b s = (case code s Parent of [] \<Rightarrow> None
     | c # cs \<Rightarrow> map_option (\<lambda>t. t\<lparr>code := (code s)(Parent := cs)\<rparr>) (do_call b Parent c s))"

lemma hs_step_alone: "code s Child = [] \<Longrightarrow> hs_step b s t \<longleftrightarrow> parent_next b s = Some t"
proof
  assume c: "code s Child = []" "hs_step b s t"
  obtain w d ds u where "code s w = d # ds" "do_call b w d s = Some u" "t = u\<lparr>code := (code s)(w := ds)\<rparr>"
    using c(2) by (auto elim: hs_stepE)
  then show "parent_next b s = Some t" using c(1) by (cases w) (simp_all add: parent_next_def)
next
  assume "parent_next b s = Some t"
  then show "hs_step b s t" by (auto simp: parent_next_def split: list.splits intro: hs_stepI)
qed

lemma do_call_code: "do_call b w c s = Some t \<Longrightarrow> code t = code s"
  by (cases c) (auto simp: read_byte_def write_byte_def split: list.splits if_splits)

lemma parent_next_child: "parent_next b s = Some t \<Longrightarrow> code t Child = code s Child"
  by (auto simp: parent_next_def dest: do_call_code split: list.splits)

primrec parent_iter :: "8 word \<Rightarrow> nat \<Rightarrow> hs \<Rightarrow> hs option" where
  "parent_iter b 0 s = Some s"
| "parent_iter b (Suc n) s = Option.bind (parent_iter b n s) (parent_next b)"

lemma hs_run_alone:
  assumes "code s Child = []"
  shows "hs_run b n s t \<longleftrightarrow> parent_iter b n s = Some t"
proof -
  have "code t Child = []" if "parent_iter b n s = Some t" for n t
    using that assms by (induction n arbitrary: t) (auto simp: bind_eq_Some_conv dest: parent_next_child)
  then have "parent_iter b n s = Some t \<Longrightarrow> hs_run b n s t" for t
    by (induction n arbitrary: t) (auto simp: bind_eq_Some_conv hs_step_alone intro: hs_run.intros)
  moreover have "parent_iter b n s = Some t \<and> code t Child = []" if "hs_run b n s t"
    using that assms by (induction n s t rule: hs_run.induct) (auto simp: hs_step_alone dest: parent_next_child)
  ultimately show ?thesis by blast
qed

lemma handshake_fork_fails:
  "\<exists>s. hs_run b 7 (hs_alone v) s \<and> code s = (\<lambda>w. []) \<and> said s = [(Parent, v Parent)]"
proof -
  have c: "code (hs_alone v) Child = []" by (simp add: hs_alone_def)
  have "\<exists>s. parent_iter b 7 (hs_alone v) = Some s \<and> code s = (\<lambda>w. []) \<and> said s = [(Parent, v Parent)]"
    by (simp add: eval_nat_numeral parent_next_def hs_alone_def parent_code_def all_ends_def write_byte_def read_byte_def
        fun_eq_iff who_all split: who.split)
  then show ?thesis using hs_run_alone [OF c] by blast
qed

end
