(* ===== verification/Ulib.thy ===== *)
theory Ulib
  imports Kstring Kprintf
begin

section \<open>ulib.c and printf.c of user programs\<close>

text \<open>
  The library user programs are linked with, over the program's memory. Loops that run up to a NUL byte are
  partial functions into \<open>option\<close>; \<open>copy_fwd\<close> and \<open>copy_bwd\<close> (theory \<open>Kstring\<close>) are the two loops of
  \<open>memmove\<close>. What a system call returns is an argument: \<open>rd\<close> reads one byte from descriptor 0, with \<open>None\<close>
  for a result below 1. Of \<open>printf\<close> the model is the text that is written, one byte at a time.
\<close>

subsection \<open>Strings\<close>

partial_function (option) strcpy_loop :: "u64 \<Rightarrow> u64 \<Rightarrow> mem \<Rightarrow> mem option" where
  "strcpy_loop s t m = (if m t = 0 then Some (m(s := 0)) else strcpy_loop (s + 1) (t + 1) (m(s := m t)))"

definition ustrcpy :: "u64 \<Rightarrow> u64 \<Rightarrow> mem \<Rightarrow> mem option" where
  "ustrcpy s t m = strcpy_loop s t m"

partial_function (option) ustrcmp :: "u64 \<Rightarrow> u64 \<Rightarrow> mem \<Rightarrow> int option" where
  "ustrcmp p q m = (if m p \<noteq> 0 \<and> m p = m q then ustrcmp (p + 1) (q + 1) m else Some (uint (m p) - uint (m q)))"

partial_function (option) ustrlen_from :: "u64 \<Rightarrow> mem \<Rightarrow> u32 \<Rightarrow> u32 option" where
  "ustrlen_from s m n = (if m (s + scast n) = 0 then Some n else ustrlen_from s m (n + 1))"

definition ustrlen :: "u64 \<Rightarrow> mem \<Rightarrow> u32 option" where
  "ustrlen s m = ustrlen_from s m 0"

definition umemset :: "u64 \<Rightarrow> int \<Rightarrow> u32 \<Rightarrow> mem \<Rightarrow> mem" where
  "umemset dst c n m = fold (\<lambda>i m. m(dst + of_nat i := word_of_int c)) [0..<unat n] m"

text \<open>The address 0 is the null pointer.\<close>

partial_function (option) ustrchr :: "u64 \<Rightarrow> u8 \<Rightarrow> mem \<Rightarrow> u64 option" where
  "ustrchr s c m = (if m s = 0 then Some 0 else if m s = c then Some s else ustrchr (s + 1) c m)"

text \<open>\<open>left\<close> bytes fit before the NUL; the results are the index \<open>i\<close>, the memory and the rest of the input.\<close>

primrec gets_loop :: "('w \<Rightarrow> u8 option \<times> 'w) \<Rightarrow> u64 \<Rightarrow> nat \<Rightarrow> nat \<Rightarrow> mem \<Rightarrow> 'w \<Rightarrow> nat \<times> mem \<times> 'w" where
  "gets_loop rd buf i 0 m w = (i, m, w)"
| "gets_loop rd buf i (Suc left) m w = (case rd w of
     (None, w) \<Rightarrow> (i, m, w)
   | (Some c, w) \<Rightarrow>
       let m = m(buf + of_nat i := c)
       in if c = 10 \<or> c = 13 then (Suc i, m, w) else gets_loop rd buf (Suc i) left m w)"

definition gets :: "('w \<Rightarrow> u8 option \<times> 'w) \<Rightarrow> u64 \<Rightarrow> int \<Rightarrow> mem \<Rightarrow> 'w \<Rightarrow> mem \<times> 'w" where
  "gets rd buf nbuf m w = (case gets_loop rd buf 0 (nat (nbuf - 1)) m w of (i, m, w) \<Rightarrow> (m(buf + of_nat i := 0), w))"

partial_function (option) atoi_loop :: "u64 \<Rightarrow> mem \<Rightarrow> u32 \<Rightarrow> u32 option" where
  "atoi_loop s m n = (if 48 \<le> m s \<and> m s \<le> 57 then atoi_loop (s + 1) m (n * 10 + ucast (m s) - 48) else Some n)"

definition atoi :: "u64 \<Rightarrow> mem \<Rightarrow> u32 option" where
  "atoi s m = atoi_loop s m 0"

definition umemmove :: "u64 \<Rightarrow> u64 \<Rightarrow> int \<Rightarrow> mem \<Rightarrow> mem" where
  "umemmove dst src n m =
     (if dst < src then copy_fwd (nat n) dst src m
      else copy_bwd (nat n) (dst + of_int n) (src + of_int n) m)"

definition umemcmp :: "u64 \<Rightarrow> u64 \<Rightarrow> u32 \<Rightarrow> mem \<Rightarrow> int" where
  "umemcmp s1 s2 n m = memcmp_loop (unat n) s1 s2 m"

definition umemcpy :: "u64 \<Rightarrow> u64 \<Rightarrow> u32 \<Rightarrow> mem \<Rightarrow> mem" where
  "umemcpy dst src n m = umemmove dst src (sint n) m"

text \<open>\<open>stat\<close>: the system calls it makes are arguments, each with its result and the new state of the world.\<close>

definition ustat :: "('w \<Rightarrow> int \<times> 'w) \<Rightarrow> (int \<Rightarrow> 'w \<Rightarrow> int \<times> 'w) \<Rightarrow> (int \<Rightarrow> 'w \<Rightarrow> 'w) \<Rightarrow> 'w \<Rightarrow> int \<times> 'w" where
  "ustat open_rdonly fstat_st close w = (case open_rdonly w of (fd, w) \<Rightarrow>
     if fd < 0 then (-1, w) else (case fstat_st fd w of (r, w) \<Rightarrow> (r, close fd w)))"

subsection \<open>printf\<close>

definition udigit :: "nat \<Rightarrow> char" where
  "udigit d = ''0123456789ABCDEF'' ! d"

text \<open>The \<open>do while\<close> loop on the 32-bit \<open>x\<close>, least significant digit first.\<close>

function urev_digits :: "nat \<Rightarrow> nat \<Rightarrow> string" where
  "urev_digits base x = udigit (x mod base) #
     (if x div base = 0 \<or> base < 2 then [] else urev_digits base (x div base))"
  by auto
termination
proof (relation "measure snd")
  show "((base, x div base), (base, x)) \<in> measure snd" if "\<not> (x div base = 0 \<or> base < 2)" for base x :: nat
    using that by (cases "x = 0") (auto intro: div_less_dividend)
qed simp

declare urev_digits.simps [simp del]

text \<open>\<open>x\<close> is an unsigned \<open>int\<close>: it keeps the low 32 bits of the argument.\<close>

definition uprintint :: "u64 \<Rightarrow> nat \<Rightarrow> bool \<Rightarrow> string" where
  "uprintint xx base sign =
     (let neg = sign \<and> sint xx < 0; x = (if neg then ucast (- xx) else ucast xx) :: u32
      in rev (urev_digits base (unat x) @ (if neg then ''-'' else [])))"

definition uprintptr :: "u64 \<Rightarrow> string" where
  "uprintptr x = ''0x'' @ map (\<lambda>i. udigit (unat (drop_bit 60 (push_bit (4 * i) x)))) [0..<16]"

text \<open>A conversion that takes a register argument, and the rest of the format string after it.\<close>

definition ureg_conv :: "string \<Rightarrow> ((u64 \<Rightarrow> string) \<times> string) option" where
  "ureg_conv cs = (case cs of
     CHR ''d'' # r \<Rightarrow> Some (\<lambda>w. uprintint (int_arg w) 10 True, r)
   | CHR ''l'' # CHR ''d'' # r \<Rightarrow> Some (\<lambda>w. uprintint w 10 True, r)
   | CHR ''l'' # CHR ''l'' # CHR ''d'' # r \<Rightarrow> Some (\<lambda>w. uprintint w 10 True, r)
   | CHR ''u'' # r \<Rightarrow> Some (\<lambda>w. uprintint (uint_arg w) 10 False, r)
   | CHR ''l'' # CHR ''u'' # r \<Rightarrow> Some (\<lambda>w. uprintint w 10 False, r)
   | CHR ''l'' # CHR ''l'' # CHR ''u'' # r \<Rightarrow> Some (\<lambda>w. uprintint w 10 False, r)
   | CHR ''x'' # r \<Rightarrow> Some (\<lambda>w. uprintint (uint_arg w) 16 False, r)
   | CHR ''l'' # CHR ''x'' # r \<Rightarrow> Some (\<lambda>w. uprintint w 16 False, r)
   | CHR ''l'' # CHR ''l'' # CHR ''x'' # r \<Rightarrow> Some (\<lambda>w. uprintint w 16 False, r)
   | CHR ''p'' # r \<Rightarrow> Some (uprintptr, r)
   | CHR ''c'' # r \<Rightarrow> Some (\<lambda>w. [char_of (unat (ucast w :: u8))], r)
   | _ \<Rightarrow> None)"

lemma ureg_conv_shorter: "ureg_conv cs = Some (f, r) \<Longrightarrow> length r < length cs"
  by (auto simp: ureg_conv_def split: list.splits if_splits char.splits bool.splits)

text \<open>
  The loop of \<open>vprintf\<close>, its \<open>state\<close> 0 or \<open>%\<close>. \<open>None\<close> stands for a call whose arguments do not fit the
  format. In state \<open>%\<close> a NUL ends the loop with nothing written.
\<close>

function (sequential) vprintf_text :: "bool \<Rightarrow> string \<Rightarrow> varg list \<Rightarrow> string option" where
  "vprintf_text st [] args = Some []"
| "vprintf_text False (c # cs) args =
     (if c = CHR ''%'' then vprintf_text True cs args else map_option (\<lambda>t. c # t) (vprintf_text False cs args))"
| "vprintf_text True (c # cs) args =
     (case ureg_conv (c # cs) of
        Some (f, r) \<Rightarrow>
          (case args of VReg w # as \<Rightarrow> map_option (\<lambda>t. f w @ t) (vprintf_text False r as) | _ \<Rightarrow> None)
      | None \<Rightarrow>
          if c = CHR ''s'' then
            (case args of
               VStr s # as \<Rightarrow> map_option (\<lambda>t. (case s of None \<Rightarrow> ''(null)'' | Some s \<Rightarrow> s) @ t) (vprintf_text False cs as)
             | _ \<Rightarrow> None)
          else if c = CHR ''%'' then map_option (\<lambda>t. CHR ''%'' # t) (vprintf_text False cs args)
          else map_option (\<lambda>t. CHR ''%'' # c # t) (vprintf_text False cs args))"
  by pat_completeness auto
termination
  by (relation "measure (\<lambda>(_, cs, _). length cs)") (auto dest: ureg_conv_shorter)

text \<open>\<open>fprintf\<close> writes the text to descriptor \<open>fd\<close>, \<open>printf\<close> to descriptor 1.\<close>

definition ufprintf :: "int \<Rightarrow> string \<Rightarrow> varg list \<Rightarrow> (int \<times> string) option" where
  "ufprintf fd fmt args = map_option (\<lambda>t. (fd, t)) (vprintf_text False fmt args)"

definition uprintf :: "string \<Rightarrow> varg list \<Rightarrow> (int \<times> string) option" where
  "uprintf fmt args = ufprintf 1 fmt args"

subsection \<open>The two copies of memmove agree\<close>

lemma umemmove_apply:
  assumes dst: "unat dst + n \<le> 2 ^ 64" and src: "unat src + n \<le> 2 ^ 64"
  shows "umemmove dst src (int n) m x = (if unat (x - dst) < n then m (src + (x - dst)) else m x)"
proof (cases "dst < src")
  case True
  have "dst + of_nat i \<noteq> src + of_nat j" if "i < j" "j < n" for i j
  proof
    assume "dst + of_nat i = src + of_nat j"
    then have "unat (dst + of_nat i) = unat (src + of_nat j)" by simp
    then show False using that dst src True by (simp add: unat_word_ariths unat_of_nat word_less_nat_alt)
  qed
  then show ?thesis
    using True dst unfolding umemmove_def by (simp add: copy_fwd_apply)
next
  case False
  have "dst + of_nat j \<noteq> src + of_nat i" if "i < j" "j < n" for i j
  proof
    assume "dst + of_nat j = src + of_nat i"
    then have "unat (dst + of_nat j) = unat (src + of_nat i)" by simp
    then show False using that dst src False by (simp add: unat_word_ariths unat_of_nat word_less_nat_alt)
  qed
  then show ?thesis
    using False dst copy_bwd_apply [of n dst src m x] by (simp add: umemmove_def)
qed

text \<open>
  The user library tests which way to copy in another way than the kernel; where neither range wraps around
  the address space, both move the bytes as they were before the call.
\<close>

lemma umemmove_eq_memmove:
  assumes "unat dst + unat n \<le> 2 ^ 64" and "unat src + unat n \<le> 2 ^ 64"
  shows "umemmove dst src (int (unat n)) m = memmove dst src n m"
proof (rule ext)
  show "umemmove dst src (int (unat n)) m x = memmove dst src n m x" for x
    unfolding memmove_apply [OF assms] by (rule umemmove_apply [OF assms])
qed

subsection \<open>Long integers\<close>

lemma urev_digits_decimal: "urev_digits 10 x = rev_digits 10 x"
proof (induction "10 :: nat" x rule: urev_digits.induct)
  case (1 x)
  have "\<forall>d \<in> set [0..<10]. udigit d = digit d" by code_simp
  then have "udigit (x mod 10) = digit (x mod 10)" by simp
  then show ?case using 1 by (subst urev_digits.simps, subst rev_digits.simps) simp
qed

text \<open>
  C39: \<open>%lu\<close> of a user program's \<open>printf\<close> prints 32 bits. The text read back is the argument modulo
  \<open>2 ^ 32\<close>, the same text as for \<open>%u\<close>, because \<open>printint\<close> keeps the value in an \<open>uint\<close>; the kernel's
  \<open>printf\<close> prints the whole argument.
\<close>
theorem uprintf_long_keeps_low_bits:
  "\<exists>t k. uprintf ''%lu'' [VReg x] = Some (1, t) \<and> uprintf ''%u'' [VReg x] = Some (1, t) \<and>
     read_nat 10 t = unat x mod 2 ^ 32 \<and> printf_text ''%lu'' [VReg x] = Some k \<and> read_nat 10 k = unat x"
proof -
  have u: "unat (ucast x :: u32) = unat x mod 2 ^ 32" by (simp add: unsigned_ucast_eq take_bit_eq_mod)
  have "(ucast (uint_arg x) :: u32) = ucast x"
    unfolding uint_arg_def by (rule bit_word_eqI) (simp add: bit_simps)
  then have e: "uprintint (uint_arg x) 10 False = uprintint x 10 False"
    by (simp add: uprintint_def)
  have "read_nat 10 (uprintint x 10 False) = unat x mod 2 ^ 32"
    by (simp add: uprintint_def urev_digits_decimal read_rev_digits u)
  moreover have "read_nat 10 (printint x 10 False) = unat x"
    by (simp add: printint_def printint_buf_def read_rev_digits)
  ultimately show ?thesis
    by (simp add: uprintf_def ufprintf_def ureg_conv_def reg_conv_def e)
qed

end
