(* ===== verification/Labs.thy ===== *)
theory Labs
  imports Kalloc Ulib
begin

section \<open>The programs of the system-call labs\<close>

text \<open>
  \<open>secret.c\<close> puts a string into its memory after a marker and exits; \<open>sniffer.c\<close>, run later, looks for it in
  the memory it gets from \<open>sbrk\<close>. The kernel of the lab is built with \<open>LAB_SYSCALL\<close>, which leaves out the
  \<open>memset\<close> of \<open>kfree\<close>, \<open>kalloc\<close> and \<open>uvmalloc\<close>. \<open>monitor.c\<close> sets the mask of the calls the kernel reports
  and runs a command. Programs are given their memory, and what the system calls return.
\<close>

definition bytes_of :: "string \<Rightarrow> u8 list" where
  "bytes_of s = map (\<lambda>c. of_char c) s"

definition marker :: "u8 list" where
  "marker = bytes_of ''This may help.''"

subsection \<open>secret.c\<close>

text \<open>
  \<open>data\<close> is the address of the array, \<open>argv\<close> the addresses of the arguments. The result is the exit status and the
  memory; \<open>None\<close> is an argument without an end.
\<close>

definition secret_main :: "u64 \<Rightarrow> u64 list \<Rightarrow> mem \<Rightarrow> (int \<times> mem) option" where
  "secret_main data argv m =
     (if length argv \<noteq> 2 then Some (1, m)
      else map_option (\<lambda>m. (0, m)) (ustrcpy (data + 16) (argv ! 1) (store_bytes data (marker @ [0]) m)))"

subsection \<open>sniffer.c\<close>

abbreviation ALLOC_SIZE :: nat where "ALLOC_SIZE \<equiv> 64 * 4096"

text \<open>The inner loop, which compares the 14 characters of the marker, and the test of the byte 16 further on.\<close>

definition sniff_match :: "mem \<Rightarrow> u64 \<Rightarrow> nat \<Rightarrow> bool" where
  "sniff_match m p i = list_all (\<lambda>j. m (p + of_nat (i + j)) = marker ! j) [0..<14]"

definition sniff_hit :: "mem \<Rightarrow> u64 \<Rightarrow> nat \<Rightarrow> bool" where
  "sniff_hit m p i \<longleftrightarrow> sniff_match m p i \<and>
     (let c = m (p + of_nat (i + 16)) in 32 < c \<and> c < 127 \<and> c \<noteq> 40)"

text \<open>What \<open>%s\<close> prints.\<close>

partial_function (option) print_string :: "mem \<Rightarrow> u64 \<Rightarrow> u8 list option" where
  "print_string m p = (if m p = 0 then Some [] else Option.bind (print_string m (p + 1)) (\<lambda>bs. Some (m p # bs)))"

text \<open>The text printed and the exit status, for the result of \<open>sbrk(ALLOC_SIZE)\<close>; \<open>None\<close> is its failure.\<close>

definition sniffer_main :: "u64 option \<Rightarrow> mem \<Rightarrow> (u8 list \<times> int) option" where
  "sniffer_main r m = (case r of
     None \<Rightarrow> Some (bytes_of ''sbrk failed'' @ [10], 1)
   | Some p \<Rightarrow> (case find (sniff_hit m p) [0..<ALLOC_SIZE - 64] of
       None \<Rightarrow> Some (bytes_of ''Secret not found'' @ [10], 1)
     | Some i \<Rightarrow> map_option (\<lambda>bs. (bs @ [10], 0)) (print_string m (p + of_nat (i + 16)))))"

subsection \<open>monitor.c\<close>

datatype monitor_end = MonUsage | MonFailed | MonExec "u64 list"

text \<open>The loop that copies the pointers, up to \<open>MAXARG\<close>.\<close>

definition nargv :: "u64 list \<Rightarrow> u64 list" where
  "nargv argv = map (\<lambda>i. argv ! i) (filter (\<lambda>i. i < 32) [2..<length argv])"

text \<open>\<open>set_mask\<close> is the system call \<open>monitor\<close>; the state \<open>w\<close> is the kernel's.\<close>

definition monitor_main :: "(u32 \<Rightarrow> 'w \<Rightarrow> int \<times> 'w) \<Rightarrow> u64 list \<Rightarrow> mem \<Rightarrow> 'w \<Rightarrow> (monitor_end \<times> 'w) option" where
  "monitor_main set_mask argv m w =
     (if length argv < 3 \<or> m (argv ! 1) < 48 \<or> 57 < m (argv ! 1) then Some (MonUsage, w)
      else (case atoi (argv ! 1) m of
          None \<Rightarrow> None
        | Some k \<Rightarrow> (case set_mask k w of (r, w) \<Rightarrow> Some (if r < 0 then MonFailed else MonExec (nargv argv), w))))"

lemma nargv_drop:
  assumes "length argv \<le> 32"
  shows "nargv argv = drop 2 argv"
proof -
  have "filter (\<lambda>i. i < 32) [2..<length argv] = [2..<length argv]" using assms by (intro filter_True) auto
  then show ?thesis by (auto simp: nargv_def intro: nth_equalityI)
qed

subsection \<open>C strings\<close>

text \<open>\<open>at_string m p bs\<close>: the bytes \<open>bs\<close>, without a NUL, and a NUL stand at \<open>p\<close>.\<close>

definition at_string :: "mem \<Rightarrow> u64 \<Rightarrow> u8 list \<Rightarrow> bool" where
  "at_string m p bs \<longleftrightarrow> 0 \<notin> set bs \<and> (\<forall>k \<le> length bs. m (p + of_nat k) = (bs @ [0]) ! k)"

lemma at_string_Nil: "at_string m p [] \<longleftrightarrow> m p = 0"
  by (simp add: at_string_def)

lemma all_le_Suc: "(\<forall>k \<le> Suc n. P k) \<longleftrightarrow> P 0 \<and> (\<forall>k \<le> n. P (Suc k))"
  by (metis Suc_le_mono le0 not0_implies_Suc)

lemma at_string_Cons: "at_string m p (b # bs) \<longleftrightarrow> b \<noteq> 0 \<and> m p = b \<and> at_string m (p + 1) bs"
proof -
  have "(\<forall>k \<le> Suc (length bs). m (p + of_nat k) = (b # bs @ [0]) ! k) \<longleftrightarrow>
      m p = b \<and> (\<forall>k \<le> length bs. m (p + 1 + of_nat k) = (bs @ [0]) ! k)"
    unfolding all_le_Suc by (simp add: add.assoc)
  then show ?thesis by (auto simp: at_string_def)
qed

lemma print_string_at: "at_string m p bs \<Longrightarrow> print_string m p = Some bs"
proof (induction bs arbitrary: p)
  case Nil
  then show ?case by (simp add: at_string_Nil print_string.simps)
next
  case (Cons b bs)
  then show ?case by (simp add: at_string_Cons print_string.simps [of m p])
qed

lemma at_string_cong: "at_string m p bs \<Longrightarrow> (\<And>k. k \<le> length bs \<Longrightarrow> m' (q + of_nat k) = m (p + of_nat k)) \<Longrightarrow> at_string m' q bs"
  by (simp add: at_string_def)

lemma strcpy_loop_copies:
  assumes "at_string m t bs" and "\<forall>i \<le> length bs. \<forall>j \<le> length bs. s + of_nat i \<noteq> t + of_nat j"
  shows "strcpy_loop s t m = Some (store_bytes s (bs @ [0]) m)"
  using assms
proof (induction bs arbitrary: s t m)
  case Nil
  then show ?case by (simp add: at_string_Nil strcpy_loop.simps fun_upd_def)
next
  case (Cons b bs)
  have ne: "s + of_nat i \<noteq> t + of_nat j" if "i \<le> Suc (length bs)" "j \<le> Suc (length bs)" for i j
    using Cons.prems(2) that by simp
  have c: "b \<noteq> 0" "m t = b" "at_string m (t + 1) bs" using Cons.prems(1) by (simp_all add: at_string_Cons)
  have "at_string (m(s := b)) (t + 1) bs"
  proof (rule at_string_cong [OF c(3)])
    show "(m(s := b)) (t + 1 + of_nat k) = m (t + 1 + of_nat k)" if "k \<le> length bs" for k
      using ne [of 0 "Suc k"] that by (auto simp: algebra_simps)
  qed
  moreover have "\<forall>i \<le> length bs. \<forall>j \<le> length bs. s + 1 + of_nat i \<noteq> t + 1 + of_nat j"
    using ne [of "Suc _" "Suc _"] by (simp add: algebra_simps)
  ultimately have "strcpy_loop (s + 1) (t + 1) (m(s := b)) = Some (store_bytes (s + 1) (bs @ [0]) (m(s := b)))"
    by (rule Cons.IH)
  then show ?case using c by (simp add: strcpy_loop.simps [of s t m])
qed

subsection \<open>A page that is freed keeps what is in it\<close>

text \<open>The marker at \<open>p\<close>, and the string \<open>bs\<close> 16 bytes further on.\<close>

definition holds_secret :: "mem \<Rightarrow> u64 \<Rightarrow> u8 list \<Rightarrow> bool" where
  "holds_secret m p bs \<longleftrightarrow> (\<forall>k < 14. m (p + of_nat k) = marker ! k) \<and> at_string m (p + 16) bs"

lemma marker_length: "length marker = 14"
  by (simp add: marker_def bytes_of_def)

lemma holds_secret_cong:
  assumes "holds_secret m p bs" and same: "\<And>k. k < 17 + length bs \<Longrightarrow> m' (q + of_nat k) = m (p + of_nat k)"
  shows "holds_secret m' q bs"
proof -
  have "at_string m' (q + 16) bs"
  proof (rule at_string_cong)
    show "at_string m (p + 16) bs" using assms(1) by (simp add: holds_secret_def)
    show "m' (q + 16 + of_nat k) = m (p + 16 + of_nat k)" if "k \<le> length bs" for k
      using same [of "16 + k"] that by (simp add: add.assoc)
  qed
  then show ?thesis using assms by (simp add: holds_secret_def)
qed

lemma unat_offset:
  assumes "i < 2 ^ 32" and "n < 2 ^ 32"
  shows "unat (of_nat i - of_nat n :: u64) = (if n \<le> i then i - n else i + 2 ^ 64 - n)"
  using assms by (simp add: unat_sub_if' unat_of_nat)

text \<open>\<open>secret\<close> leaves its argument so, if the argument is not in the array.\<close>

lemma secret_main_holds:
  assumes "length argv = 2" and "at_string m (argv ! 1) bs" and "length bs < 2 ^ 15"
    and far: "\<forall>i < 2 ^ 16. \<forall>j \<le> length bs. data + of_nat i \<noteq> argv ! 1 + of_nat j"
  shows "\<exists>m'. secret_main data argv m = Some (0, m') \<and> holds_secret m' data bs"
proof -
  let ?m = "store_bytes data (marker @ [0]) m" and ?t = "argv ! 1"
  let ?m' = "store_bytes (data + 16) (bs @ [0]) ?m"
  have l: "length (marker @ [0]) = 15" by (simp add: marker_length)
  have low: "unat (data + of_nat i - data) = i" if "i < 2 ^ 16" for i :: nat using that by (simp add: unat_of_nat)
  have "at_string ?m ?t bs"
  proof (rule at_string_cong [OF assms(2)])
    fix k assume k: "k \<le> length bs"
    have "15 \<le> unat (?t + of_nat k - data)"
    proof (rule ccontr)
      assume "\<not> 15 \<le> unat (?t + of_nat k - data)"
      then have "data + of_nat (unat (?t + of_nat k - data)) \<noteq> ?t + of_nat k"
        by (intro far [rule_format]) (use k in simp_all)
      then show False by simp
    qed
    then show "?m (?t + of_nat k) = m (?t + of_nat k)" by (simp add: store_bytes_word marker_length del: store_bytes.simps)
  qed
  moreover have "\<forall>i \<le> length bs. \<forall>j \<le> length bs. data + 16 + of_nat i \<noteq> ?t + of_nat j"
  proof (intro allI impI)
    fix i j assume ij: "i \<le> length bs" "j \<le> length bs"
    then have "data + of_nat (16 + i) \<noteq> ?t + of_nat j" 
      by (intro far [rule_format]) (use assms(3) in simp_all)
    then show "data + 16 + of_nat i \<noteq> ?t + of_nat j" by (simp add: add.assoc)
  qed
  ultimately have "secret_main data argv m = Some (0, ?m')"
    using assms(1) by (simp add: secret_main_def ustrcpy_def strcpy_loop_copies del: store_bytes.simps)
  moreover have "holds_secret ?m' data bs"
    unfolding holds_secret_def
  proof (intro conjI allI impI)
    fix k :: nat assume k: "k < 14"
    have "unat (data + of_nat k - (data + 16)) \<ge> 2 ^ 15" using unat_offset [of k 16] k by simp
    then show "?m' (data + of_nat k) = marker ! k"
      using k assms(3) low [of k] by (simp add: store_bytes_word l nth_append marker_length del: store_bytes.simps)
  next
    show "at_string ?m' (data + 16) bs"
      using assms(2,3) by (auto simp: at_string_def store_bytes_word unat_of_nat simp del: store_bytes.simps)
  qed
  ultimately show ?thesis by blast
qed

text \<open>The sniffer prints the string at the first marker that is followed by a printable character.\<close>

lemma sniffer_finds:
  assumes "holds_secret m (p + of_nat i) bs" and "bs \<noteq> []" and "32 < hd bs" and "hd bs < 127" and "hd bs \<noteq> 40"
    and "i < ALLOC_SIZE - 64" and "\<forall>k < i. \<not> sniff_hit m p k"
  shows "sniffer_main (Some p) m = Some (bs @ [10], 0)"
proof -
  have s: "at_string m (p + of_nat i + 16) bs" using assms(1) by (simp add: holds_secret_def)
  then have "m (p + of_nat i + 16) = hd bs" using assms(2) by (cases bs) (auto simp: at_string_Cons)
  moreover have "sniff_match m p i"
    using assms(1) by (auto simp: holds_secret_def sniff_match_def list_all_iff add.assoc)
  ultimately have "sniff_hit m p i" using assms(3-5) by (simp add: sniff_hit_def Let_def add.assoc)
  then have "find (sniff_hit m p) [0..<ALLOC_SIZE - 64] = Some i"
    using assms(6,7) by (auto simp: find_Some_iff intro!: exI [of _ i])
  then show ?thesis using print_string_at [OF s] by (simp add: sniffer_main_def add.assoc)
qed

text \<open>\<open>kfree\<close> writes the link of the free list into the first 8 bytes; the rest stays, or is filled with junk.\<close>

lemma kfree_kalloc_mem:
  assumes inv: "kmem_inv s ps" and a: "valid_page (kend s) a" "a \<notin> set ps" and lock: "KmemLock \<notin> set (held s)"
  shows "\<exists>t u. kfree a s = Done () t \<and> kalloc t = Done a u \<and>
    (\<forall>k < 4096. lab_syscall s \<and> 8 \<le> k \<longrightarrow> mem u (a + of_nat k) = mem s (a + of_nat k)) \<and>
    (\<forall>k < 4096. \<not> lab_syscall s \<longrightarrow> mem u (a + of_nat k) = 5)"
proof -
  let ?m = "store64 a (freelist s) (if lab_syscall s then mem s else memset a 1 4096 (mem s))"
  let ?t = "s\<lparr>mem := ?m, freelist := a\<rparr>"
  let ?u = "?t\<lparr>freelist := load64 ?m a, mem := (if lab_syscall s then ?m else memset a 5 4096 ?m)\<rparr>"
  have "kfree a s = Done () ?t"
    using a lock unfolding kfree_def valid_page_def page_aligned_def
    by (auto simp: not_less not_le lock_simps acquire_free release_head)
  moreover have "a \<noteq> 0" using inv a valid_page_nonzero by (auto simp: kmem_inv_def)
  then have "kalloc ?t = Done a ?u"
    using lock unfolding kalloc_def by (simp add: acquire_free release_head)
  moreover have "mem ?u (a + of_nat k) = mem s (a + of_nat k)" if "k < 4096" "lab_syscall s" "8 \<le> k" for k
    using that by (simp add: store64_frame unat_of_nat)
  moreover have "mem ?u (a + of_nat k) = 5" if "k < 4096" "\<not> lab_syscall s" for k
    using that memset_page_fill by simp
  ultimately show ?thesis by blast
qed

text \<open>
  C16: the secret of a process that has exited can be read by the next one, and the \<open>memset\<close> that the lab
  leaves out is what prevents it. A page \<open>a\<close> that holds a secret is freed and allocated again. With
  \<open>LAB_SYSCALL\<close>, a sniffer that has the page as the page \<open>n\<close> of its new memory, with no marker before, prints
  the secret, if the marker is not in the first 8 bytes of the page, where the link of the free list is
  written; without, every byte of the page is 5.
\<close>
theorem freed_secret_is_sniffed:
  assumes "kmem_inv s ps" and "valid_page (kend s) a" and "a \<notin> set ps" and "KmemLock \<notin> set (held s)"
    and "holds_secret (mem s) (a + of_nat d) bs" and d: "8 \<le> d" "d + 17 + length bs \<le> 4096"
    and bs: "bs \<noteq> []" "32 < hd bs" "hd bs < 127" "hd bs \<noteq> 40" and n: "n < 63"
  shows "\<exists>t u. kfree a s = Done () t \<and> kalloc t = Done a u \<and>
    (if lab_syscall s
     then \<forall>v. (\<forall>k < 4096. v (p + of_nat (4096 * n + k)) = mem u (a + of_nat k)) \<and>
            (\<forall>i < 4096 * n + d. \<not> sniff_hit v p i) \<longrightarrow> sniffer_main (Some p) v = Some (bs @ [10], 0)
     else \<forall>k < 4096. mem u (a + of_nat k) = 5)"
proof -
  obtain t u where tu: "kfree a s = Done () t" "kalloc t = Done a u"
      "\<And>k. k < 4096 \<Longrightarrow> lab_syscall s \<Longrightarrow> 8 \<le> k \<Longrightarrow> mem u (a + of_nat k) = mem s (a + of_nat k)"
      "\<And>k. k < 4096 \<Longrightarrow> \<not> lab_syscall s \<Longrightarrow> mem u (a + of_nat k) = 5"
    using kfree_kalloc_mem [OF assms(1-4)] by blast
  have "sniffer_main (Some p) v = Some (bs @ [10], 0)"
    if lab: "lab_syscall s" and view: "\<forall>k < 4096. v (p + of_nat (4096 * n + k)) = mem u (a + of_nat k)"
      and before: "\<forall>i < 4096 * n + d. \<not> sniff_hit v p i" for v
  proof (rule sniffer_finds [where i = "4096 * n + d"])
    show "holds_secret v (p + of_nat (4096 * n + d)) bs"
    proof (rule holds_secret_cong [OF assms(5)])
      fix k assume "k < 17 + length bs"
      then have "d + k < 4096" "8 \<le> d + k" using d by simp_all
      then show "v (p + of_nat (4096 * n + d) + of_nat k) = mem s (a + of_nat d + of_nat k)"
        using view [rule_format, of "d + k"] tu(3) [of "d + k"] lab by (simp add: add.assoc)
    qed
  qed (use bs n d before in auto)
  then show ?thesis using tu by (intro exI [of _ t] exI [of _ u]) auto
qed

text \<open>A page with the secret \<open>key\<close> behind the first 8 bytes.\<close>

definition leak_page :: u64 where
  "leak_page = 0x87FFE000"

definition leak_state :: pmem where
  "leak_state = \<lparr>held = [], console_out = [],
     mem = store_bytes (leak_page + 8) (marker @ [0, 0] @ bytes_of ''key'' @ [0]) (\<lambda>_. 0),
     freelist = 0, kend = 0x87FFD123, lab_syscall = True\<rparr>"

lemma leak_mem: "mem leak_state (leak_page + of_nat k) =
    (if 8 \<le> k \<and> k < 28 then (marker @ [0, 0] @ bytes_of ''key'' @ [0]) ! (k - 8) else 0)" if "k < 4096"
  using that unat_offset [of k 8]
  by (auto simp: leak_state_def store_bytes_word marker_length bytes_of_def simp del: store_bytes.simps)

lemma leak_holds: "holds_secret (mem leak_state) (leak_page + of_nat 8) (bytes_of ''key'')"
proof -
  have m: "mem leak_state (leak_page + of_nat 8 + of_nat k) = (marker @ [0, 0] @ bytes_of ''key'' @ [0]) ! k" if "k < 20" for k
    using leak_mem [of "8 + k"] that by (simp add: add.assoc)
  have "mem leak_state (leak_page + of_nat 8 + 16 + of_nat k) = (bytes_of ''key'' @ [0]) ! k" if "k \<le> 3" for k
    using m [of "16 + k"] that by (simp add: add.assoc nth_append marker_length)
  then have "at_string (mem leak_state) (leak_page + of_nat 8 + 16) (bytes_of ''key'')"
    by (simp add: at_string_def bytes_of_def)
  then show ?thesis using m by (simp add: holds_secret_def nth_append marker_length)
qed

theorem freed_secret_is_sniffed_witness:
  "\<exists>t u. kfree leak_page leak_state = Done () t \<and> kalloc t = Done leak_page u \<and>
    sniffer_main (Some leak_page) (mem u) = Some (bytes_of ''key'' @ [10], 0)"
proof -
  let ?m = "store64 leak_page 0 (mem leak_state)"
  have inv: "kmem_inv leak_state []" "valid_page (kend leak_state) leak_page" "leak_page \<notin> set []"
      "KmemLock \<notin> set (held leak_state)" and lab: "lab_syscall leak_state"
    by (simp_all add: kmem_inv_def valid_page_def page_aligned_def leak_state_def leak_page_def)
  have key: "bytes_of ''key'' = [107, 101, 121]" by (simp add: bytes_of_def)
  obtain t u where tu: "kfree leak_page leak_state = Done () t" "kalloc t = Done leak_page u"
      "\<And>v. (\<forall>k < 4096. v (leak_page + of_nat (4096 * 0 + k)) = mem u (leak_page + of_nat k)) \<and>
         (\<forall>i < 4096 * 0 + 8. \<not> sniff_hit v leak_page i) \<Longrightarrow> sniffer_main (Some leak_page) v = Some (bytes_of ''key'' @ [10], 0)"
    using freed_secret_is_sniffed [OF inv leak_holds, of 0 leak_page] lab by (auto simp: key)
  have "kfree leak_page leak_state = Done () (leak_state\<lparr>mem := ?m, freelist := leak_page\<rparr>)"
    by (simp add: kfree_def leak_state_def leak_page_def lock_simps acquire_free release_head)
  then have "mem u = ?m"
    using tu(1,2) by (auto simp: kalloc_def acquire_free release_head leak_state_def leak_page_def)
  moreover have "?m (leak_page + of_nat i) = 0" if "i < 8" for i
  proof -
    have "le_bytes 8 (0 :: u64) = replicate 8 0" by code_simp
    then show ?thesis using that by (simp add: store64_def store_bytes_word unat_of_nat del: store_bytes.simps)
  qed
  ultimately have "\<not> sniff_hit (mem u) leak_page i" if "i < 8" for i
    using that by (auto simp: sniff_hit_def sniff_match_def list_all_iff marker_def bytes_of_def intro!: bexI [of _ 0])
  then have "sniffer_main (Some leak_page) (mem u) = Some (bytes_of ''key'' @ [10], 0)" by (intro tu(3)) simp
  then show ?thesis using tu(1,2) by blast
qed

end

