(* ===== verification/Userprogs.thy ===== *)
theory Userprogs
  imports Main "HOL-Library.Word"
begin

section \<open>wc.c, cat.c, echo.c and ls.c\<close>

text \<open>
  The loops of four user programs. A file is read in pieces of at most 512 bytes: \<open>rd\<close> is the \<open>read\<close> of the
  program's buffer, whose result is the bytes, none at the end, and \<open>None\<close> for an error; \<open>wr\<close> writes to standard
  output. A loop that the reads never end is the result \<open>None\<close>.
\<close>

type_synonym byte = "8 word"
type_synonym 'w reader = "'w \<Rightarrow> byte list option \<times> 'w"

subsection \<open>wc\<close>

record wc_state =
  wl :: "32 word"
  ww :: "32 word"
  wc :: "32 word"
  inword :: bool

definition wc_space :: "byte \<Rightarrow> bool" where
  "wc_space b \<longleftrightarrow> b \<in> {32, 13, 9, 10, 11}"

definition wc_byte :: "byte \<Rightarrow> wc_state \<Rightarrow> wc_state" where
  "wc_byte b s =
     (let s = s\<lparr>wc := wc s + 1\<rparr>;
          s = (if b = 10 then s\<lparr>wl := wl s + 1\<rparr> else s)
      in if wc_space b then s\<lparr>inword := False\<rparr>
         else if \<not> inword s then s\<lparr>ww := ww s + 1, inword := True\<rparr> else s)"

text \<open>\<open>Inl 1\<close> is the exit after a read error; otherwise the numbers of lines, words and characters are printed.\<close>

partial_function (option) wc_loop :: "'w reader \<Rightarrow> wc_state \<Rightarrow> 'w \<Rightarrow> ((int + wc_state) \<times> 'w) option" where
  "wc_loop rd s w = (case rd w of
     (None, w) \<Rightarrow> Some (Inl 1, w)
   | (Some bs, w) \<Rightarrow> if bs = [] then Some (Inr s, w) else wc_loop rd (fold wc_byte bs s) w)"

definition wc_file :: "'w reader \<Rightarrow> 'w \<Rightarrow> ((int + wc_state) \<times> 'w) option" where
  "wc_file rd w = wc_loop rd \<lparr>wl = 0, ww = 0, wc = 0, inword = False\<rparr> w"

subsection \<open>cat and echo\<close>

text \<open>The exit status 1 of \<open>cat\<close>, or 0 when it goes on to the next file.\<close>

partial_function (option) cat :: "'w reader \<Rightarrow> (byte list \<Rightarrow> 'w \<Rightarrow> int \<times> 'w) \<Rightarrow> 'w \<Rightarrow> (int \<times> 'w) option" where
  "cat rd wr w = (case rd w of
     (None, w) \<Rightarrow> Some (1, w)
   | (Some bs, w) \<Rightarrow>
       if bs = [] then Some (0, w)
       else (case wr bs w of (n, w) \<Rightarrow> if n \<noteq> int (length bs) then Some (1, w) else cat rd wr w))"

text \<open>The writes of \<open>echo\<close> for the arguments after the first.\<close>

fun echo :: "byte list list \<Rightarrow> byte list list" where
  "echo [] = []"
| "echo [a] = [a, [10]]"
| "echo (a # as) = a # [32] # echo as"

subsection \<open>ls\<close>

abbreviation NAMESIZ :: nat where "NAMESIZ \<equiv> 14"

text \<open>The part after the last slash, filled up with spaces.\<close>

definition fmtname :: "string \<Rightarrow> string" where
  "fmtname path =
     (let p = rev (takeWhile (\<lambda>c. c \<noteq> CHR ''/'') (rev path))
      in if NAMESIZ \<le> length p then p else p @ replicate (NAMESIZ - length p) (CHR '' ''))"

record ls_stat =
  st_type :: nat
  st_ino :: nat
  st_size :: "64 word"

datatype ls_line = Entry string nat nat int | CannotStat string | CannotOpen string | TooLong

definition ls_entry :: "string \<Rightarrow> ls_stat \<Rightarrow> ls_line" where
  "ls_entry path st = Entry (fmtname path) (st_type st) (st_ino st) (sint (ucast (st_size st) :: 32 word))"

text \<open>
  A directory entry is its inode number and the 14 bytes of its name, which end at a NUL. \<open>stat\<close> gives what
  \<open>open\<close> and \<open>fstat\<close> find, \<open>None\<close> for -1.
\<close>

definition ls_dirents :: "(string \<Rightarrow> ls_stat option) \<Rightarrow> string \<Rightarrow> (nat \<times> string) list \<Rightarrow> ls_line list" where
  "ls_dirents stat path des =
     map (\<lambda>(inum, name). let f = path @ ''/'' @ takeWhile (\<lambda>c. c \<noteq> CHR 0x00) name in
         case stat f of None \<Rightarrow> CannotStat f | Some st \<Rightarrow> ls_entry f st)
       (filter (\<lambda>(inum, name). inum \<noteq> 0) des)"

text \<open>\<open>fd\<close> is what the path is opened as: its \<open>fstat\<close>, which may fail, and its directory entries.\<close>

definition ls :: "(string \<Rightarrow> ls_stat option) \<Rightarrow> (ls_stat option \<times> (nat \<times> string) list) option \<Rightarrow> string \<Rightarrow> ls_line list" where
  "ls stat fd path = (case fd of
     None \<Rightarrow> [CannotOpen path]
   | Some (None, _) \<Rightarrow> [CannotStat path]
   | Some (Some st, des) \<Rightarrow>
       if st_type st = 3 \<or> st_type st = 2 then [ls_entry path st]
       else if st_type st = 1 then
         (if 512 < length path + 1 + NAMESIZ + 1 then [TooLong] else ls_dirents stat path des)
       else [])"

subsection \<open>What wc counts\<close>

text \<open>A word starts at a character that is no space, at the start or after a space.\<close>

definition word_starts :: "byte list \<Rightarrow> nat set" where
  "word_starts bs = {i. i < length bs \<and> \<not> wc_space (bs ! i) \<and> (i = 0 \<or> wc_space (bs ! (i - 1)))}"

definition newlines :: "byte list \<Rightarrow> nat set" where
  "newlines bs = {i. i < length bs \<and> bs ! i = 10}"

definition in_word :: "byte list \<Rightarrow> bool" where
  "in_word bs \<longleftrightarrow> bs \<noteq> [] \<and> \<not> wc_space (last bs)"

definition wc_of :: "byte list \<Rightarrow> wc_state" where
  "wc_of bs = \<lparr>wl = of_nat (card (newlines bs)), ww = of_nat (card (word_starts bs)), wc = of_nat (length bs),
     inword = in_word bs\<rparr>"

lemma newlines_snoc: "newlines (bs @ [b]) = newlines bs \<union> (if b = 10 then {length bs} else {})"
  unfolding newlines_def by (auto simp: nth_append less_Suc_eq)

lemma word_starts_snoc:
  "word_starts (bs @ [b]) = word_starts bs \<union> (if \<not> wc_space b \<and> \<not> in_word bs then {length bs} else {})"
proof (cases "bs = []")
  case False
  then have "last bs = bs ! (length bs - 1)" by (rule last_conv_nth)
  then show ?thesis
    using False unfolding word_starts_def in_word_def by (auto simp: nth_append less_Suc_eq)
qed (auto simp: word_starts_def in_word_def)

lemma counts_finite: "finite (newlines bs)" "finite (word_starts bs)" "length bs \<notin> newlines bs" "length bs \<notin> word_starts bs"
  by (simp_all add: newlines_def word_starts_def)

lemma counts_code:
  "newlines bs = set (filter (\<lambda>i. bs ! i = 10) [0..<length bs])"
  "word_starts bs = set (filter (\<lambda>i. \<not> wc_space (bs ! i) \<and> (i = 0 \<or> wc_space (bs ! (i - 1)))) [0..<length bs])"
  by (auto simp: newlines_def word_starts_def)

lemma wc_byte_snoc: "wc_byte b (wc_of bs) = wc_of (bs @ [b])"
proof -
  have "in_word (bs @ [b]) \<longleftrightarrow> \<not> wc_space b" by (simp add: in_word_def)
  moreover have "wc_space 10" by (simp add: wc_space_def)
  ultimately show ?thesis
    by (auto simp: wc_byte_def wc_of_def Let_def newlines_snoc word_starts_snoc counts_finite add.commute)
qed

lemma wc_fold: "fold wc_byte bs (wc_of xs) = wc_of (xs @ bs)"
  by (induction bs arbitrary: xs) (simp_all add: wc_byte_snoc)

text \<open>Reading from a list of pieces.\<close>

definition pieces :: "byte list list reader" where
  "pieces ps = (case ps of [] \<Rightarrow> (Some [], []) | p # ps \<Rightarrow> (Some p, ps))"

lemma wc_loop_pieces: "[] \<notin> set ps \<Longrightarrow> wc_loop pieces (wc_of xs) ps = Some (Inr (wc_of (xs @ concat ps)), [])"
proof (induction ps arbitrary: xs)
  case Nil
  then show ?case by (simp add: wc_loop.simps pieces_def)
next
  case (Cons p ps)
  have "wc_loop pieces (wc_of (xs @ p)) ps = Some (Inr (wc_of ((xs @ p) @ concat ps)), [])" using Cons by simp
  moreover have "p \<noteq> []" using Cons.prems by auto
  ultimately show ?case by (subst wc_loop.simps) (simp add: pieces_def wc_fold)
qed

text \<open>
  \<open>wc\<close> counts the lines, words and characters of a file. However the reads cut the file into pieces, the
  numbers are those of the newlines, of the places where a word starts and of the characters of the whole, modulo \<open>2 ^ 32\<close>.
\<close>
theorem wc_counts:
  assumes "[] \<notin> set ps"
  shows "wc_file pieces ps = Some (Inr (wc_of (concat ps)), [])"
proof -
  have "\<lparr>wl = 0, ww = 0, wc = 0, inword = False\<rparr> = wc_of []"
    by (simp add: wc_of_def newlines_def word_starts_def in_word_def)
  then show ?thesis using wc_loop_pieces [OF assms, of "[]"] by (simp add: wc_file_def)
qed

theorem wc_counts_witness:
  "wc_file pieces [[97, 98], [99, 32], [100, 10]] = Some (Inr \<lparr>wl = 1, ww = 2, wc = 6, inword = False\<rparr>, [])"
proof -
  have "newlines [97, 98, 99, 32, 100, 10] = {5}" "word_starts [97, 98, 99, 32, 100, 10] = {0, 4}"
    unfolding counts_code by code_simp+
  then show ?thesis
    using wc_counts [of "[[97, 98], [99, 32], [100, 10]]"] by (simp add: wc_of_def in_word_def wc_space_def)
qed

subsection \<open>What cat copies\<close>

text \<open>With writes that take everything, the output is the file.\<close>

lemma cat_copies:
  assumes "[] \<notin> set ps"
  shows "cat (\<lambda>(ps, out). case pieces ps of (r, ps) \<Rightarrow> (r, ps, out))
      (\<lambda>bs (ps, out). (int (length bs), ps, out @ bs)) (ps, out) = Some (0, [], out @ concat ps)"
  using assms
proof (induction ps arbitrary: out)
  case Nil
  then show ?case by (subst cat.simps) (simp add: pieces_def)
next
  case (Cons p ps)
  then have "p \<noteq> []" by auto
  then show ?case using Cons by (subst cat.simps) (simp add: pieces_def)
qed

end
