(* ===== verification/Tools.thy ===== *)
theory Tools
  imports Userprogs Ulib Grep
begin

section \<open>init.c and the small user programs\<close>

text \<open>
  Programs that do little but call the kernel. \<open>uprog\<close> is a program as the calls it makes: it exits, or makes a
  call and goes on with its result; \<open>init\<close> and the orphan tests never end, so the type is coinductive. The
  kernel is whatever answers: \<open>follow\<close> takes a program along a list of calls and answers. The loops of
  \<open>main\<close> of \<open>cat\<close>, \<open>wc\<close>, \<open>ls\<close> and \<open>grep\<close> are in the style of theory \<open>Userprogs\<close>, on a world with \<open>open\<close> and \<open>close\<close>.
\<close>

datatype ucall = UOpen string "32 word" | UMknod string int | UDup int | UFork | UExec string "string list" | UWait
  | UPrint nat string | ULink string string | UUnlink string | UMkdir string | UChdir string | UKill "32 word"
  | UPause int | UFstat int

codatatype uprog = UExit int | UCall ucall "int \<Rightarrow> uprog"

abbreviation nl :: string where "nl \<equiv> [CHR 0x0A]"

subsection \<open>The programs\<close>

definition ln_main :: "string list \<Rightarrow> uprog" where
  "ln_main argv =
     (if length argv \<noteq> 3 then UCall (UPrint 2 (''Usage: ln old new'' @ nl)) (\<lambda>_. UExit 1)
      else UCall (ULink (argv ! 1) (argv ! 2)) (\<lambda>r.
        if r < 0 then UCall (UPrint 2 (''link '' @ argv ! 1 @ '' '' @ argv ! 2 @ '': failed'' @ nl)) (\<lambda>_. UExit 0)
        else UExit 0))"

primrec mkdir_args :: "string list \<Rightarrow> uprog" where
  "mkdir_args [] = UExit 0"
| "mkdir_args (a # as) = UCall (UMkdir a) (\<lambda>r.
     if r < 0 then UCall (UPrint 2 (''mkdir: '' @ a @ '' failed to create'' @ nl)) (\<lambda>_. UExit 0) else mkdir_args as)"

definition mkdir_main :: "string list \<Rightarrow> uprog" where
  "mkdir_main argv =
     (if length argv < 2 then UCall (UPrint 2 (''Usage: mkdir files...'' @ nl)) (\<lambda>_. UExit 1) else mkdir_args (tl argv))"

primrec rm_args :: "string list \<Rightarrow> uprog" where
  "rm_args [] = UExit 0"
| "rm_args (a # as) = UCall (UUnlink a) (\<lambda>r.
     if r < 0 then UCall (UPrint 2 (''rm: '' @ a @ '' failed to delete'' @ nl)) (\<lambda>_. UExit 0) else rm_args as)"

definition rm_main :: "string list \<Rightarrow> uprog" where
  "rm_main argv =
     (if length argv < 2 then UCall (UPrint 2 (''Usage: rm files...'' @ nl)) (\<lambda>_. UExit 1) else rm_args (tl argv))"

text \<open>The arguments of \<open>kill\<close> are pointers for \<open>atoi\<close>; \<open>None\<close> is a string that never ends.\<close>

primrec kill_args :: "mem \<Rightarrow> u64 list \<Rightarrow> uprog option" where
  "kill_args m [] = Some (UExit 0)"
| "kill_args m (a # as) = (case atoi a m of
     None \<Rightarrow> None
   | Some n \<Rightarrow> map_option (\<lambda>t. UCall (UKill n) (\<lambda>_. t)) (kill_args m as))"

definition kill_main :: "mem \<Rightarrow> u64 list \<Rightarrow> uprog option" where
  "kill_main m argv =
     (if length argv < 2 then Some (UCall (UPrint 2 (''usage: kill pid...'' @ nl)) (\<lambda>_. UExit 1)) else kill_args m (tl argv))"

definition zombie_main :: uprog where
  "zombie_main = UCall UFork (\<lambda>r. if 0 < r then UCall (UPause 5) (\<lambda>_. UExit 0) else UExit 0)"

primcorec pause_forever :: uprog where
  "pause_forever = UCall (UPause 1000) (\<lambda>_. pause_forever)"

definition fails :: "string \<Rightarrow> string \<Rightarrow> uprog" where
  "fails s msg = UCall (UPrint 1 (s @ msg @ nl)) (\<lambda>_. UExit 1)"

definition dorphan_main :: "string \<Rightarrow> uprog" where
  "dorphan_main s = UCall (UMkdir ''dd'') (\<lambda>r.
     if r \<noteq> 0 then fails s '': mkdir dd failed''
     else UCall (UChdir ''dd'') (\<lambda>r.
       if r \<noteq> 0 then fails s '': chdir dd failed''
       else UCall (UUnlink ''../dd'') (\<lambda>r.
         if r < 0 then fails s '': unlink failed''
         else UCall (UPrint 1 (''wait for kill and reclaim'' @ nl)) (\<lambda>_. pause_forever))))"

text \<open>\<open>O_CREATE\<close> is 0x200 and \<open>O_WRONLY\<close> 1; \<open>num\<close> is the decimal inode number \<open>fstat\<close> stored.\<close>

definition forphan_main :: "string \<Rightarrow> string \<Rightarrow> uprog" where
  "forphan_main s num = UCall (UOpen ''file0'' 0x201) (\<lambda>fd.
     if fd < 0 then fails s '': open failed''
     else UCall (UFstat fd) (\<lambda>r.
       if r < 0 then UCall (UPrint 2 (s @ '': cannot stat ff'' @ nl)) (\<lambda>_. UExit 1)
       else UCall (UUnlink ''file0'') (\<lambda>r.
         if r < 0 then fails s '': unlink failed''
         else UCall (UOpen ''file0'' 0) (\<lambda>r.
           if r \<noteq> -1 then fails s '': open successed''
           else UCall (UPrint 1 (''wait for kill and reclaim '' @ num @ nl)) (\<lambda>_. pause_forever)))))"

subsection \<open>init\<close>

text \<open>
  Where \<open>init\<close> is: at the first or the second \<open>open\<close>, at the \<open>mknod\<close> between them, at the calls of \<open>dup\<close>, at
  the message, at \<open>fork\<close>, in the child, at \<open>wait\<close> for the shell of the given process id, at a last message.
\<close>

datatype init_pc = IOpen | IMknod | IReopen | IDup nat | ISay | IFork | IExec | IWait int | ILast string | IGone

fun init_do :: "init_pc \<Rightarrow> (ucall \<times> (int \<Rightarrow> init_pc)) option" where
  "init_do IOpen = Some (UOpen ''console'' 2, \<lambda>r. if r < 0 then IMknod else IDup 2)"
| "init_do IMknod = Some (UMknod ''console'' 1, \<lambda>_. IReopen)"
| "init_do IReopen = Some (UOpen ''console'' 2, \<lambda>_. IDup 2)"
| "init_do (IDup n) = Some (UDup 0, \<lambda>_. if n \<le> 1 then ISay else IDup (n - 1))"
| "init_do ISay = Some (UPrint 1 (''init: starting sh'' @ nl), \<lambda>_. IFork)"
| "init_do IFork = Some (UFork, \<lambda>pid.
     if pid < 0 then ILast (''init: fork failed'' @ nl) else if pid = 0 then IExec else IWait pid)"
| "init_do IExec = Some (UExec ''sh'' [''sh''], \<lambda>_. ILast (''init: exec sh failed'' @ nl))"
| "init_do (IWait pid) = Some (UWait, \<lambda>wpid.
     if wpid = pid then ISay else if wpid < 0 then ILast (''init: wait returned an error'' @ nl) else IWait pid)"
| "init_do (ILast msg) = Some (UPrint 1 msg, \<lambda>_. IGone)"
| "init_do IGone = None"

primcorec init_at :: "init_pc \<Rightarrow> uprog" where
  "init_at pc =
     (if init_do pc = None then UExit 1
      else UCall (fst (the (init_do pc))) (\<lambda>r. init_at (snd (the (init_do pc)) r)))"

definition init_main :: uprog where
  "init_main = init_at IOpen"

subsection \<open>The kernel's answers\<close>

fun follow :: "uprog \<Rightarrow> (ucall \<times> int) list \<Rightarrow> uprog option" where
  "follow p [] = Some p"
| "follow p ((c, r) # tr) = (case p of UExit _ \<Rightarrow> None | UCall d k \<Rightarrow> if c = d then follow (k r) tr else None)"

lemma follow_append: "follow p (tr @ tr') = (case follow p tr of None \<Rightarrow> None | Some q \<Rightarrow> follow q tr')"
  by (induction p tr rule: follow.induct) (auto split: uprog.splits)

lemma uexit_none: "follow (UExit n) tr = Some q \<longleftrightarrow> tr = [] \<and> q = UExit n"
  by (cases tr) auto

text \<open>\<open>mkdir\<close> and \<open>rm\<close> go through their arguments in order, up to the first the kernel refuses.\<close>

lemma mkdir_in_order:
  assumes "\<forall>r \<in> set rs. 0 \<le> r" and "length rs = length as"
  shows "follow (mkdir_args (as @ bs)) (zip (map UMkdir as) rs) = Some (mkdir_args bs)"
  using assms(2,1) by (induction rs as rule: list_induct2) auto

lemma mkdir_stops:
  "follow (mkdir_args (a # bs)) [(UMkdir a, -1), (UPrint 2 (''mkdir: '' @ a @ '' failed to create'' @ nl), r)] = Some (UExit 0)"
  by simp

lemma rm_in_order:
  assumes "\<forall>r \<in> set rs. 0 \<le> r" and "length rs = length as"
  shows "follow (rm_args (as @ bs)) (zip (map UUnlink as) rs) = Some (rm_args bs)"
  using assms(2,1) by (induction rs as rule: list_induct2) auto

text \<open>An argument of \<open>kill\<close> that is no number is taken for the process id 0.\<close>

lemma kill_word_kills_zero:
  assumes "\<not> (48 \<le> m a \<and> m a \<le> 57)"
  shows "kill_main m [prog, a] = Some (UCall (UKill 0) (\<lambda>_. UExit 0))"
proof -
  have "atoi a m = Some 0" unfolding atoi_def by (subst atoi_loop.simps) (use assms in auto)
  then show ?thesis by (simp add: kill_main_def)
qed

text \<open>The shells \<open>init\<close> has started, and of these the ones \<open>wait\<close> has reported.\<close>

fun shells :: "int set \<Rightarrow> (ucall \<times> int) list \<Rightarrow> int set" where
  "shells A [] = A"
| "shells A ((UFork, pid) # tr) = shells (insert pid A) tr"
| "shells A ((UWait, pid) # tr) = shells (A - {pid}) tr"
| "shells A (_ # tr) = shells A tr"

definition kernel_ok :: "(ucall \<times> int) list \<Rightarrow> bool" where
  "kernel_ok tr \<longleftrightarrow> list_all (\<lambda>(c, r). (c = UFork \<longrightarrow> 0 < r) \<and> (c = UWait \<longrightarrow> 0 \<le> r)) tr"

definition alive :: "int set \<Rightarrow> init_pc \<Rightarrow> bool" where
  "alive A pc \<longleftrightarrow> (case pc of IWait pid \<Rightarrow> A = {pid} | IExec \<Rightarrow> False | ILast _ \<Rightarrow> False | IGone \<Rightarrow> False | _ \<Rightarrow> A = {})"

lemma follow_init:
  "follow (init_at pc) ((c, r) # tr) =
     (case init_do pc of None \<Rightarrow> None | Some (d, k) \<Rightarrow> if c = d then follow (init_at (k r)) tr else None)"
  by (subst init_at.code) (auto split: option.split)

lemma shells_Cons: "shells A ((c, r) # tr) = shells (shells A [(c, r)]) tr"
  by (cases c) simp_all

lemma alive_step:
  assumes "alive A pc" and "init_do pc = Some (c, k)" and "kernel_ok [(c, r)]"
  shows "alive (shells A [(c, r)]) (k r)"
  using assms by (cases pc) (auto simp: alive_def kernel_ok_def)

lemma init_alive:
  assumes "follow (init_at pc) tr = Some p" and "kernel_ok tr" and "alive A pc"
  shows "\<exists>pc'. p = init_at pc' \<and> alive (shells A tr) pc'"
  using assms
proof (induction tr arbitrary: pc A)
  case (Cons e tr)
  obtain c r where e: "e = (c, r)" by (cases e)
  obtain k where k: "init_do pc = Some (c, k)" "follow (init_at (k r)) tr = Some p"
    using Cons.prems(1) unfolding e follow_init by (auto split: option.splits if_splits)
  have "kernel_ok [(c, r)]" "kernel_ok tr" using Cons.prems(2) by (simp_all add: e kernel_ok_def)
  then show ?case
    using Cons.IH [OF k(2) _ alive_step [OF Cons.prems(3) k(1)]] unfolding e shells_Cons [of A c r tr] by blast
qed auto

text \<open>
  \<open>init\<close> keeps one shell running: as long as \<open>fork\<close> gives it a child and \<open>wait\<close> reports one, it goes on, with at
  most one shell that it has started and not seen the end of, and it waits only while there is one. A shell
  that ends is started again; other processes \<open>wait\<close> reports are taken note of and change nothing.
\<close>
theorem init_keeps_a_shell:
  assumes "follow init_main tr = Some p" and "kernel_ok tr"
  shows "(\<exists>c k. p = UCall c k \<and> (if c = UWait then \<exists>pid. shells {} tr = {pid} else shells {} tr = {}))"
proof -
  obtain pc where pc: "p = init_at pc" "alive (shells {} tr) pc"
    using init_alive [of IOpen tr p "{}"] assms by (auto simp: init_main_def alive_def)
  then show ?thesis by (cases pc) (auto simp: alive_def init_at.code)
qed

lemma init_keeps_a_shell_witness:
  "shells {} [(UOpen ''console'' 2, 0), (UDup 0, 1), (UDup 0, 2), (UPrint 1 (''init: starting sh'' @ nl), 18), (UFork, 5),
     (UWait, 9)] = {5}"
proof -
  let ?tr = "[(UOpen ''console'' 2, 0), (UDup 0, 1), (UDup 0, 2), (UPrint 1 (''init: starting sh'' @ nl), 18), (UFork, 5), (UWait, 9)]"
  have "follow init_main ?tr = Some (init_at (IWait 5))"
    by (simp add: init_main_def follow_init del: follow.simps(2))
  moreover have "kernel_ok ?tr" by (simp add: kernel_ok_def)
  moreover have "init_at (IWait 5) = UCall UWait (\<lambda>r. init_at (snd (the (init_do (IWait 5))) r))" by (subst init_at.code) simp
  ultimately obtain pid where "shells {} ?tr = {pid}" using init_keeps_a_shell [of ?tr "init_at (IWait 5)"] by auto
  moreover have "5 \<in> shells {} ?tr" by simp
  ultimately show ?thesis by auto
qed

text \<open>A refused \<open>fork\<close> or an error of \<open>wait\<close> ends \<open>init\<close>, and the kernel panics when that process exits.\<close>

lemma init_ends:
  "follow (init_at IFork) [(UFork, -1), (UPrint 1 (''init: fork failed'' @ nl), r)] = Some (UExit 1)"
  "pid \<noteq> -1 \<Longrightarrow> follow (init_at (IWait pid)) [(UWait, -1), (UPrint 1 (''init: wait returned an error'' @ nl), r)] = Some (UExit 1)"
  by (simp_all add: follow_init init_at.code [of IGone] del: follow.simps(2))

subsection \<open>The loops of cat, wc, ls and grep over their arguments\<close>

text \<open>\<open>opn\<close> and \<open>cls\<close> are \<open>open\<close> for reading and \<open>close\<close>; \<open>rd\<close> reads from a descriptor. The first result is the exit status.\<close>

primrec cat_args ::
  "(string \<Rightarrow> 'w \<Rightarrow> int \<times> 'w) \<Rightarrow> (int \<Rightarrow> 'w reader) \<Rightarrow> (int \<Rightarrow> 'w \<Rightarrow> 'w) \<Rightarrow> (byte list \<Rightarrow> 'w \<Rightarrow> int \<times> 'w) \<Rightarrow> string list \<Rightarrow> 'w \<Rightarrow>
   (int \<times> 'w) option" where
  "cat_args opn rd cls wr [] w = Some (0, w)"
| "cat_args opn rd cls wr (a # as) w = (case opn a w of (fd, w) \<Rightarrow>
     if fd < 0 then Some (1, w)
     else (case cat (rd fd) wr w of
         None \<Rightarrow> None
       | Some (st, w) \<Rightarrow> if st \<noteq> 0 then Some (st, w) else cat_args opn rd cls wr as (cls fd w)))"

definition cat_main ::
  "(string \<Rightarrow> 'w \<Rightarrow> int \<times> 'w) \<Rightarrow> (int \<Rightarrow> 'w reader) \<Rightarrow> (int \<Rightarrow> 'w \<Rightarrow> 'w) \<Rightarrow> (byte list \<Rightarrow> 'w \<Rightarrow> int \<times> 'w) \<Rightarrow> string list \<Rightarrow> 'w \<Rightarrow>
   (int \<times> 'w) option" where
  "cat_main opn rd cls wr argv w = (if length argv \<le> 1 then cat (rd 0) wr w else cat_args opn rd cls wr (tl argv) w)"

text \<open>\<open>wc\<close> prints a line of counts for each file; a name that cannot be opened, or a read error, ends it.\<close>

primrec wc_args ::
  "(string \<Rightarrow> 'w \<Rightarrow> int \<times> 'w) \<Rightarrow> (int \<Rightarrow> 'w reader) \<Rightarrow> (int \<Rightarrow> 'w \<Rightarrow> 'w) \<Rightarrow> string list \<Rightarrow> 'w \<Rightarrow>
   (int \<times> (string \<times> wc_state) list \<times> 'w) option" where
  "wc_args opn rd cls [] w = Some (0, [], w)"
| "wc_args opn rd cls (a # as) w = (case opn a w of (fd, w) \<Rightarrow>
     if fd < 0 then Some (1, [], w)
     else (case wc_file (rd fd) w of
         None \<Rightarrow> None
       | Some (Inl st, w) \<Rightarrow> Some (st, [], w)
       | Some (Inr c, w) \<Rightarrow> map_option (\<lambda>(st, out, w). (st, (a, c) # out, w)) (wc_args opn rd cls as (cls fd w))))"

definition wc_main ::
  "(string \<Rightarrow> 'w \<Rightarrow> int \<times> 'w) \<Rightarrow> (int \<Rightarrow> 'w reader) \<Rightarrow> (int \<Rightarrow> 'w \<Rightarrow> 'w) \<Rightarrow> string list \<Rightarrow> 'w \<Rightarrow>
   (int \<times> (string \<times> wc_state) list \<times> 'w) option" where
  "wc_main opn rd cls argv w =
     (if length argv \<le> 1 then
        (case wc_file (rd 0) w of
           None \<Rightarrow> None
         | Some (Inl st, w) \<Rightarrow> Some (st, [], w)
         | Some (Inr c, w) \<Rightarrow> Some (0, [([], c)], w))
      else wc_args opn rd cls (tl argv) w)"

text \<open>The lines \<open>ls\<close> prints; it always exits with 0.\<close>

definition ls_main ::
  "(string \<Rightarrow> ls_stat option) \<Rightarrow> (string \<Rightarrow> (ls_stat option \<times> (nat \<times> string) list) option) \<Rightarrow> string list \<Rightarrow> ls_line list" where
  "ls_main stat opn argv =
     (if length argv < 2 then ls stat (opn ''.'') ''.'' else concat (map (\<lambda>a. ls stat (opn a) a) (tl argv)))"

text \<open>
  The exit status of \<open>grep\<close> and its output on descriptor 1, which the message about a file that cannot be opened goes to as well.
\<close>

abbreviation ascii :: "string \<Rightarrow> u8 list" where
  "ascii \<equiv> map of_char"

primrec grep_args :: "u8 list \<Rightarrow> (u8 list \<Rightarrow> u8 list list option) \<Rightarrow> u8 list list \<Rightarrow> int \<times> u8 list" where
  "grep_args re opn [] = (0, [])"
| "grep_args re opn (a # as) = (case opn a of
     None \<Rightarrow> (1, ascii ''grep: cannot open '' @ a @ [10])
   | Some cs \<Rightarrow> (case grep_args re opn as of (st, out) \<Rightarrow> (st, grep re cs @ out)))"

definition grep_main :: "(u8 list \<Rightarrow> u8 list list option) \<Rightarrow> u8 list list \<Rightarrow> u8 list list \<Rightarrow> int \<times> u8 list" where
  "grep_main opn stdin argv =
     (if length argv \<le> 1 then (1, [])
      else if length argv \<le> 2 then (0, grep (argv ! 1) stdin)
      else grep_args (argv ! 1) opn (drop 2 argv))"

text \<open>The files before the first that cannot be opened are searched; the others are not.\<close>

lemma grep_args_stops:
  assumes "opn a = None" and "\<forall>b \<in> set as. opn b = Some (cs b)"
  shows "grep_args re opn (as @ a # bs) =
    (1, concat (map (\<lambda>b. grep re (cs b)) as) @ ascii ''grep: cannot open '' @ a @ [10])"
  using assms by (induction as) auto

text \<open>With readable files, \<open>wc\<close> prints the counts of each, in the order of the arguments.\<close>

lemma wc_args_counts:
  fixes files :: "string \<Rightarrow> byte list list"
  assumes "\<And>a. a \<in> set as \<Longrightarrow> [] \<notin> set (files a)"
  shows "wc_args (\<lambda>a _. (3, files a)) (\<lambda>_. pieces) (\<lambda>_ w. w) as w =
    Some (0, map (\<lambda>a. (a, wc_of (concat (files a)))) as, if as = [] then w else [])"
  using assms
proof (induction as arbitrary: w)
  case (Cons a as)
  then show ?case using wc_counts [of "files a"] by simp
qed simp

text \<open>
  A file system of two files for an example: a world is the output so far and the pieces still to come from the open file.
\<close>

lemma cat_main_example:
  defines "opn \<equiv> \<lambda>a (ps, out). if a = ''a'' then (3, [[1, 2], [3]], out) else if a = ''b'' then (3, [[4]], out) else (-1, ps, out)"
    and "rd \<equiv> \<lambda>(_ :: int) (ps, out). case pieces ps of (r, ps) \<Rightarrow> (r, ps, out)"
    and "wr \<equiv> \<lambda>bs (ps, out). (int (length bs), ps, out @ bs)"
  shows "cat_main opn rd (\<lambda>_ w. w) wr [''cat'', ''a'', ''b''] ([], []) = Some (0, [], [1, 2, 3, 4])"
    "cat_main opn rd (\<lambda>_ w. w) wr [''cat'', ''c'', ''a''] ([], []) = Some (1, [], [])"
  using cat_copies [of "[[1, 2], [3]]" "[]"] cat_copies [of "[[4]]" "[1, 2, 3]"]
  by (simp_all add: cat_main_def assms)

end
