(* ===== verification/Machine_Start.thy ===== *)
theory Machine_Start
  imports Xv6_Prelude
begin

section \<open>start.c: from machine mode to main\<close>

text \<open>
  \<open>entry.S\<close> enters \<open>start\<close> in machine mode; it sets the machine's control registers and executes \<open>mret\<close>. The
  record holds the registers of one hart that \<open>start.c\<close> reads or writes, each read and write of \<open>riscv.h\<close>
  being a selector or an update; \<open>main_addr\<close> is the address of \<open>main\<close>. \<open>mret\<close> of the RISC-V manual goes on at
  \<open>mepc\<close> in the mode of the field MPP.
\<close>

record mregs =
  mstatus :: u64
  mepc :: u64
  satp :: u64
  medeleg :: u64
  mideleg :: u64
  sie :: u64
  mie :: u64
  pmpaddr0 :: u64
  pmpcfg0 :: u64
  menvcfg :: u64
  mcounteren :: u64
  stimecmp :: u64
  mtime :: u64
  mhartid :: u64
  tp_reg :: u64

abbreviation MSTATUS_MPP_MASK :: u64 where "MSTATUS_MPP_MASK \<equiv> push_bit 11 3"
abbreviation MSTATUS_MPP_S :: u64 where "MSTATUS_MPP_S \<equiv> push_bit 11 1"
abbreviation SIE_SEIE :: u64 where "SIE_SEIE \<equiv> push_bit 9 1"
abbreviation SIE_STIE :: u64 where "SIE_STIE \<equiv> push_bit 5 1"
abbreviation MIE_STIE :: u64 where "MIE_STIE \<equiv> push_bit 5 1"

definition timerinit :: "mregs \<Rightarrow> mregs" where
  "timerinit s =
     (let s = s\<lparr>mie := mie s OR MIE_STIE\<rparr>;
          s = s\<lparr>menvcfg := menvcfg s OR push_bit 63 1\<rparr>;
          s = s\<lparr>mcounteren := mcounteren s OR 2\<rparr>
      in s\<lparr>stimecmp := mtime s + 1000000\<rparr>)"

definition start :: "u64 \<Rightarrow> mregs \<Rightarrow> mregs" where
  "start main_addr s =
     (let x = mstatus s;
          x = x AND NOT MSTATUS_MPP_MASK;
          x = x OR MSTATUS_MPP_S;
          s = s\<lparr>mstatus := x\<rparr>;
          s = s\<lparr>mepc := main_addr\<rparr>;
          s = s\<lparr>satp := 0\<rparr>;
          s = s\<lparr>medeleg := 0xffff\<rparr>;
          s = s\<lparr>mideleg := 0xffff\<rparr>;
          s = s\<lparr>sie := sie s OR SIE_SEIE OR SIE_STIE\<rparr>;
          s = s\<lparr>pmpaddr0 := 0x3fffffffffffff\<rparr>;
          s = s\<lparr>pmpcfg0 := 0xf\<rparr>;
          s = timerinit s
      in s\<lparr>tp_reg := mhartid s\<rparr>)"

text \<open>The place and the mode \<open>mret\<close> goes to: 3 is machine, 1 supervisor, 0 user mode.\<close>

definition mret_target :: "mregs \<Rightarrow> u64 \<times> u64" where
  "mret_target s = (mepc s, drop_bit 11 (mstatus s) AND 3)"

text \<open>
  \<open>start\<close> hands over to \<open>main\<close> in supervisor mode without paging: the other bits of \<open>mstatus\<close> and the interrupts
  already enabled stay, external and timer interrupts come on, all interrupts and exceptions are delegated, the
  timer is due in 1000000 ticks, and \<open>tp\<close> is the number of the hart, as \<open>cpuid\<close> wants it.
\<close>

lemma start_enters_main:
  fixes m :: u64 and s :: mregs
  defines "t \<equiv> start m s"
  shows "mret_target t = (m, 1)" "satp t = 0" "tp_reg t = mhartid s" "stimecmp t = mtime s + 1000000"
    "medeleg t = 0xffff" "mideleg t = 0xffff"
    "n \<noteq> 11 \<Longrightarrow> n \<noteq> 12 \<Longrightarrow> bit (mstatus t) n = bit (mstatus s) n"
    "bit (sie t) n \<longleftrightarrow> bit (sie s) n \<or> n = 5 \<or> n = 9"
    "bit (mie t) n \<longleftrightarrow> bit (mie s) n \<or> n = 5"
    "bit (menvcfg t) n \<longleftrightarrow> bit (menvcfg s) n \<or> n = 63"
    "bit (mcounteren t) n \<longleftrightarrow> bit (mcounteren s) n \<or> n = 1"
proof -
  have b3: "bit (3 :: u64) k \<longleftrightarrow> k = 0 \<or> k = 1" for k by (cases k; cases "k - 1") (auto simp: bit_numeral_rec)
  note bits = bit_and_iff bit_or_iff bit_not_iff bit_drop_bit_eq bit_push_bit_iff comp_def b3 bit_1_iff
  have r: "mstatus t = (mstatus s AND NOT MSTATUS_MPP_MASK) OR MSTATUS_MPP_S" "sie t = sie s OR SIE_SEIE OR SIE_STIE"
    "mie t = mie s OR MIE_STIE" "menvcfg t = menvcfg s OR push_bit 63 1" "mcounteren t = mcounteren s OR push_bit 1 1"
    by (simp_all add: t_def start_def timerinit_def Let_def)
  have "drop_bit 11 ((mstatus s AND NOT MSTATUS_MPP_MASK) OR MSTATUS_MPP_S) AND 3 = 1"
    by (rule bit_word_eqI) (unfold bits, auto)
  then show "mret_target t = (m, 1)" by (simp add: t_def start_def timerinit_def mret_target_def Let_def)
  show "satp t = 0" "tp_reg t = mhartid s" "stimecmp t = mtime s + 1000000" "medeleg t = 0xffff" "mideleg t = 0xffff"
    by (simp_all add: t_def start_def timerinit_def Let_def)
  show "n \<noteq> 11 \<Longrightarrow> n \<noteq> 12 \<Longrightarrow> bit (mstatus t) n = bit (mstatus s) n"
    "bit (sie t) n \<longleftrightarrow> bit (sie s) n \<or> n = 5 \<or> n = 9" "bit (mie t) n \<longleftrightarrow> bit (mie s) n \<or> n = 5"
    "bit (menvcfg t) n \<longleftrightarrow> bit (menvcfg s) n \<or> n = 63" "bit (mcounteren t) n \<longleftrightarrow> bit (mcounteren s) n \<or> n = 1"
    unfolding r bits by (auto dest: bit_imp_le_length)
qed

end
