(* ===== verification/Spec2Isabelle.thy ===== *)
theory Spec2Isabelle
  imports Console_Line Disk Fdtable Allocproc Umalloc Spinlock Paths Grep Hashtable Uthread Shell_Run Handshake Labs Tools Machine_Start
begin

text \<open>
  \<^bold>\<open>xv6 (RISC-V) and its labs, in Isabelle/HOL.\<close>

  The repository holds lab work on the xv6 teaching kernel. \<open>w3/\<close> is the newer kernel (\<open>w3/kernel\<close>) and its
  user programs (\<open>w3/user\<close>), with the system-call labs: the call \<open>monitor\<close>, and \<open>handshake\<close>, \<open>sniffer\<close>,
  \<open>secret\<close>, \<open>monitor\<close>. \<open>w5/\<close> is an older copy with the thread labs: \<open>user/uthread.c\<close> and
  \<open>notxv6/ph-*.c\<close>. Modelled are the C files of \<open>w3/kernel\<close>, the programs of the labs, and of \<open>w3/user\<close> the
  programs that are not tests.

  \<^bold>\<open>How the kernel is modelled.\<close> A theory per C file. The globals of a file are a record that extends the
  record of the files below it (\<open>kbase\<close>, \<open>pmem\<close>, \<open>ptab\<close>, \<open>sltab\<close>, \<open>biost\<close> and so on up to \<open>trapst\<close>), so an operation
  works on every larger state. An operation is a function from the state to an \<open>outcome\<close>: it returns
  (\<open>Done\<close> with result and state), panics, gives the CPU up in \<open>sched\<close> (\<open>Switch\<close>), or never ends (\<open>Hang\<close>). What
  follows a \<open>sched\<close> in the C code is a definition of its own, named with \<open>_resume\<close>: another process may have
  run in between, on any state. A spin lock is an element of the list \<open>held\<close>; \<open>acquire\<close> of a lock this CPU
  has is a panic. Theory \<open>Spinlock\<close> proves, on several CPUs and single memory accesses, that the locks are
  what the other theories take them for. Pointers are addresses where the code does arithmetic on them,
  otherwise indices into the tables they point into. \<open>bnd\<close> sequences outcomes, \<open>loop_until\<close> is a \<open>for\<close> loop
  with an early exit; both are in \<open>Xv6_Prelude\<close>.

  \<^bold>\<open>The kernel's theories, bottom up.\<close>
  \<^item> \<open>Xv6_Prelude\<close>: the C integer types, outcomes, locks, table scans. \<open>Memory\<close>, \<open>Block\<close>: bytes in memory and
    in disk blocks, little-endian integers. \<open>Ring\<close>: the contract of a byte queue (locale \<open>byte_ring\<close>).
  \<^item> \<open>Kstring\<close> (\<open>string.c\<close>), \<open>Kprintf\<close> (\<open>printf.c\<close>: the text of each conversion, read back to the argument),
    \<open>Riscv\<close> (\<open>riscv.h\<close>, \<open>memlayout.h\<close>).
  \<^item> \<open>Kalloc\<close> (\<open>kalloc.c\<close>): the free list threaded through the pages; the locale \<open>page_pool\<close> is what a client
    of an allocator relies on, interpreted on \<open>kalloc\<close> and \<open>kfree\<close>.
  \<^item> \<open>Procdata\<close> (\<open>proc.h\<close>), \<open>Vm\<close> (\<open>vm.c\<close>); \<open>Pagetable\<close> and \<open>Usercopy\<close> prove what \<open>walk\<close>, \<open>mappages\<close>, \<open>uvmunmap\<close>,
    \<open>copyin\<close> and \<open>copyout\<close> do to the map from virtual to physical addresses.
  \<^item> \<open>Proc\<close>, \<open>Proc_Life\<close> (\<open>proc.c\<close>): slots, \<open>sleep\<close> and \<open>wakeup\<close>, the scheduler; \<open>fork\<close>, \<open>exit\<close>, \<open>wait\<close>.
    \<open>nextpid\<close> is the 32-bit \<open>int\<close> of the code (\<open>c_int\<close>). \<open>Allocproc\<close> proves when \<open>allocproc\<close> succeeds and what the new
    process has, on \<open>Freewalk\<close>: \<open>freewalk\<close> gives all table pages of an address space back.
  \<^item> \<open>Sleeplock\<close>, \<open>Bio\<close> (\<open>bio.c\<close>; the locale \<open>block_cache\<close> is its contract), \<open>Log\<close> (\<open>log.c\<close>), \<open>Fs\<close> and \<open>Dir\<close>
    (\<open>fs.c\<close>). \<open>Log\<close> proves that a commit is all or nothing for a crash after any of its disk writes; \<open>Txn\<close>
    states what block operations do inside a transaction and carries it to durability. \<open>Slots\<close>, \<open>Content\<close>: with
    \<open>bmap\<close>, \<open>readi\<close> and \<open>writei\<close> an inode is a list of bytes (\<open>file_data\<close>); \<open>file_state\<close> is the invariant the blocks of a
    file keep. \<open>Dirents\<close>: with \<open>dirlookup\<close> and \<open>dirlink\<close> a directory is a map from names to inode numbers.
    \<open>Itable\<close>: what \<open>iget\<close>, \<open>ilock\<close>, \<open>iunlock\<close> and \<open>iput\<close> do to the table of inodes in use (\<open>fs_calm\<close>). \<open>Paths\<close>: the
    directories are a tree (\<open>resolve\<close>), and \<open>namei\<close> and \<open>nameiparent\<close> find the inode a path denotes in it. The
    laws of these theories are for one process inside a transaction whose blocks fit into the log.
  \<^item> \<open>Console\<close> (\<open>uart.c\<close>, \<open>console.c\<close>), \<open>File\<close> (\<open>file.c\<close>, \<open>pipe.c\<close>), \<open>Virtio\<close> (\<open>virtio_disk.c\<close>). \<open>Pipe\<close> and
    \<open>Console_Line\<close> prove that a pipe is a queue and the console a line editor; \<open>Disk\<close>, that a request posted
    and answered by the interrupt handler is the completed transfer \<open>Bio\<close> uses. The device is a parameter there;
    what the proof relies on (\<open>serves\<close>) is the part of the virtio specification the driver needs: the device of a
    queue that is set up answers a request it has been notified of, if the chain has a readable header of 16
    bytes, data of whole sectors inside the capacity, writable exactly for a read, and a writable status byte,
    and then it moves as many bytes as the data descriptor says.
  \<^item> \<open>Sysarg\<close>, \<open>Sysfile\<close>, \<open>Sysproc\<close>, \<open>Exec\<close>, \<open>Trap\<close>: the system calls, \<open>exec\<close>, traps, interrupts, the start of the
    kernel; \<open>Machine_Start\<close> (\<open>start.c\<close>): the registers set before \<open>main\<close>. \<open>Fdtable\<close>: descriptors and reference counts agree. \<open>Lazy\<close>: growth by \<open>SBRK_LAZY\<close> has no bound.
    \<open>Samples\<close>: concrete states for witnesses.

  \<^bold>\<open>User programs.\<close> They are modelled on their own memory, with what the system calls return as arguments.
  \<^item> \<open>Shell\<close> (the parser of \<open>sh.c\<close> on pointers into the line), \<open>Shell_Syntax\<close> (the parser inverts a printer of
    the command language), \<open>Shell_Run\<close> (\<open>runcmd\<close> and \<open>main\<close>: which program gets which descriptors).
  \<^item> \<open>Ulib\<close> (\<open>ulib.c\<close>, \<open>printf.c\<close>), \<open>Umalloc\<close> (\<open>umalloc.c\<close>: \<open>malloc\<close> and \<open>free\<close> on the ring of free blocks),
    \<open>Grep\<close> (the matcher is the language of the pattern), \<open>Userprogs\<close> (\<open>wc\<close>, \<open>cat\<close>, \<open>echo\<close>, \<open>ls\<close>), \<open>Tools\<close> (\<open>init\<close>,
    \<open>kill\<close>, \<open>ln\<close>, \<open>mkdir\<close>, \<open>rm\<close>, \<open>zombie\<close>, \<open>dorphan\<close>, \<open>forphan\<close> as the calls they make, and the loops over arguments).
  \<^item> \<open>Handshake\<close>, \<open>Labs\<close>: the system-call labs. \<open>Labs\<close> puts \<open>sniffer.c\<close> on top of \<open>Kalloc\<close>: what a freed page
    gives away when the kernel is built with \<open>LAB_SYSCALL\<close>.
  \<^item> \<open>Uthread\<close> (cooperative threads), \<open>Hashtable\<close> (the table with and without its mutexes, as interleaved
    accesses to shared memory).

  \<^bold>\<open>Loops and fuel.\<close> Loops over tables and ranges are recursions on the number of rounds left. Loops that may run
  for ever are partial functions with the value \<open>None\<close> for that (\<open>Umalloc\<close>, \<open>Ulib\<close>, \<open>Userprogs\<close>), or have
  the outcome \<open>Hang\<close>. The parser of the shell recurses to a depth of at most \<open>4 * length + 5\<close>, the value of
  \<open>parse_fuel\<close>: a call that goes one level down without reading is one of four, and
  \<open>shell_parse_terminates\<close> proves that the bound is never reached. \<open>open_console\<close> has a round for every entry
  of the table and one more.

  \<^bold>\<open>Not modelled.\<close>
  \<^item> Assembly (\<open>entry.S\<close>, \<open>swtch.S\<close>, \<open>trampoline.S\<close>, \<open>kernelvec.S\<close>), which saves and restores registers; the control
    registers the C code uses are fields of the state.
  \<^item> The kernel and the programs under \<open>w5/\<close> that also exist, in a later revision, under \<open>w3/\<close>. \<open>bio.c\<close>, \<open>pipe.c\<close> and
    \<open>virtio_disk.c\<close> are the same files; \<open>ramdisk.c\<close> is not built.
  \<^item> Programs that only test (\<open>usertests.c\<close>, \<open>grind.c\<close>, \<open>forktest.c\<close>, \<open>stressfs.c\<close>, \<open>logstress.c\<close>).
  \<^item> Memory is sequentially consistent: the fences of \<open>__sync_synchronize\<close> are no steps. The kernel theories
    run one thread between two switches; interleavings on several CPUs are treated for the locks only. A lock
    held disables interrupts: the \<open>intr_on\<close> of the state is the CPU's flag when no lock is held.
  \<^item> Devices answer with values that are arguments of the operations.
\<close>

end
